(* ===== verification/Prelude.thy ===== *)
theory Prelude
  imports Main "HOL-Library.Word" "HOL-Library.Code_Target_Nat"
begin

text \<open>
  What every component shares: the result type of \<^verbatim>\<open>tl::expected\<close>, bytes and the
  big-endian integers of the wire formats, and \<^verbatim>\<open>std::string\<close> as a list of characters
  with the operations of \<^verbatim>\<open>std::string_view\<close> the code calls.
\<close>

unbundle bit_operations_syntax

section \<open>Collections of facts\<close>

named_theorems result_simps \<open>elimination of the result type\<close>
named_theorems wire_simps \<open>reading back what a wire encoder wrote\<close>
named_theorems str_simps \<open>string operations\<close>

section \<open>Results\<close>

text \<open>
  \<^verbatim>\<open>core::Result<T>\<close> is \<^verbatim>\<open>tl::expected<T, Error>\<close>: \<open>Inl\<close> carries the error, \<open>Inr\<close> the value.
\<close>

type_synonym ('e, 'a) result = "'e + 'a"

definition result_bind :: "('e, 'a) result \<Rightarrow> ('a \<Rightarrow> ('e, 'b) result) \<Rightarrow> ('e, 'b) result" where
  "result_bind r f = (case r of Inl e \<Rightarrow> Inl e | Inr x \<Rightarrow> f x)"

definition succeeds :: "('e, 'a) result \<Rightarrow> bool" where
  "succeeds r \<longleftrightarrow> (case r of Inl _ \<Rightarrow> False | Inr _ \<Rightarrow> True)"

lemma result_bind_simps [simp, code]:
  "result_bind (Inl e) f = Inl e"
  "result_bind (Inr x) f = f x"
  by (simp_all add: result_bind_def)

lemma result_bind_Inr_iff [result_simps]:
  "result_bind r f = Inr y \<longleftrightarrow> (\<exists>x. r = Inr x \<and> f x = Inr y)"
  by (cases r) auto

lemma result_bind_Inl_iff [result_simps]:
  "result_bind r f = Inl e \<longleftrightarrow> r = Inl e \<or> (\<exists>x. r = Inr x \<and> f x = Inl e)"
  by (cases r) auto

text \<open>Behind the early returns of a function that succeeded.\<close>

lemma if_Inl_iff [result_simps]:
  "(if b then Inl e else r) = Inr y \<longleftrightarrow> \<not> b \<and> r = Inr y"
  by simp

lemma case_Inl_iff [result_simps]:
  "(case r of Inl e \<Rightarrow> Inl (f e) | Inr x \<Rightarrow> g x) = Inr y \<longleftrightarrow> (\<exists>x. r = Inr x \<and> g x = Inr y)"
  by (cases r) auto

lemma succeeds_simps [simp]:
  "\<not> succeeds (Inl e)"
  "succeeds (Inr x)"
  by (simp_all add: succeeds_def)

lemma succeeds_iff: "succeeds r \<longleftrightarrow> (\<exists>x. r = Inr x)"
  by (cases r) auto

section \<open>Bytes and big-endian integers\<close>

type_synonym byte = "8 word"
type_synonym bytes = "byte list"
type_synonym u16 = "16 word"
type_synonym u32 = "32 word"
type_synonym u64 = "64 word"

text \<open>
  \<open>be_bytes n w\<close> writes the low \<open>8 * n\<close> bits of \<open>w\<close>, most significant byte first, as the
  \<^verbatim>\<open>push_back(value >> 8); push_back(value & 0xff)\<close> sequences of the code do;
  \<open>be_word\<close> reads a byte string back by shifting and or-ing.
\<close>

definition be_bytes :: "nat \<Rightarrow> 'a::len word \<Rightarrow> bytes" where
  "be_bytes n w = map (\<lambda>i. ucast (drop_bit (8 * i) w)) (rev [0..<n])"

definition be_word :: "bytes \<Rightarrow> 'a::len word" where
  "be_word bs = foldl (\<lambda>acc b. push_bit 8 acc OR ucast b) 0 bs"

lemma length_be_bytes [simp]: "length (be_bytes n w) = n"
  by (simp add: be_bytes_def)

lemma be_bytes_0 [simp]: "be_bytes 0 w = []"
  by (simp add: be_bytes_def)

lemma be_bytes_Suc: "be_bytes (Suc n) w = ucast (drop_bit (8 * n) w) # be_bytes n w"
  by (simp add: be_bytes_def)

lemma nth_be_bytes: "i < n \<Longrightarrow> be_bytes n w ! i = ucast (drop_bit (8 * (n - Suc i)) w)"
  by (simp add: be_bytes_def rev_nth)

lemma be_word_Nil [simp]: "be_word [] = 0"
  by (simp add: be_word_def)

lemma be_word_snoc: "be_word (bs @ [b]) = push_bit 8 (be_word bs) OR ucast b"
  by (simp add: be_word_def)

lemma bit_be_word:
  "bit (be_word bs :: 'a::len word) k \<longleftrightarrow>
     k < LENGTH('a) \<and> k div 8 < length bs \<and> bit (bs ! (length bs - Suc (k div 8))) (k mod 8)"
proof (induction bs arbitrary: k rule: rev_induct)
  case Nil
  then show ?case by simp
next
  case (snoc b bs)
  show ?case
  proof (cases "k < 8")
    case True
    then show ?thesis
      by (auto simp: be_word_snoc bit_simps nth_append)
  next
    case False
    then have k: "k div 8 = Suc ((k - 8) div 8)" "(k - 8) mod 8 = k mod 8" "8 \<le> k"
      by (auto simp: le_div_geq le_mod_geq)
    have "\<not> bit (ucast b :: 'a word) k"
      using k(3) by (auto simp: bit_simps dest: bit_imp_le_length)
    then have "bit (be_word (bs @ [b]) :: 'a word) k \<longleftrightarrow>
        k < LENGTH('a) \<and> bit (be_word bs :: 'a word) (k - 8)"
      using k(3) by (auto simp: be_word_snoc bit_simps)
    also have "\<dots> \<longleftrightarrow> k < LENGTH('a) \<and> (k - 8) div 8 < length bs \<and>
        bit (bs ! (length bs - Suc ((k - 8) div 8))) ((k - 8) mod 8)"
      using snoc.IH [of "k - 8"] by auto
    finally show ?thesis
      using k by (auto simp: nth_append)
  qed
qed

theorem be_word_be_bytes:
  assumes "LENGTH('a::len) \<le> 8 * n"
  shows "be_word (be_bytes n (w :: 'a word)) = w"
proof (rule bit_word_eqI)
  fix k assume k: "k < LENGTH('a)"
  have d: "k div 8 < n" using k assms by auto
  have e: "8 * (k div 8) + k mod 8 = k" by simp
  have "be_bytes n w ! (n - Suc (k div 8)) = ucast (drop_bit (8 * (k div 8)) w)"
    using d by (simp add: nth_be_bytes)
  then show "bit (be_word (be_bytes n w) :: 'a word) k = bit w k"
    using k d e by (simp add: bit_be_word bit_simps)
qed

theorem be_bytes_be_word:
  assumes "8 * length bs \<le> LENGTH('a::len)"
  shows "be_bytes (length bs) (be_word bs :: 'a word) = bs"
proof (rule nth_equalityI)
  show "length (be_bytes (length bs) (be_word bs :: 'a word)) = length bs" by simp
next
  fix i assume "i < length (be_bytes (length bs) (be_word bs :: 'a word))"
  then have i: "i < length bs" by simp
  define j where "j = length bs - Suc i"
  have j: "j < length bs" "length bs - Suc j = i" using i by (auto simp: j_def)
  show "be_bytes (length bs) (be_word bs :: 'a word) ! i = bs ! i"
  proof (rule bit_word_eqI)
    fix k assume "k < LENGTH(8)"
    then have k: "k < 8" by simp
    have "8 * j + k < LENGTH('a)"
      using k j(1) assms by auto
    moreover have "(8 * j + k) div 8 = j" "(8 * j + k) mod 8 = k" using k by auto
    ultimately show "bit (be_bytes (length bs) (be_word bs :: 'a word) ! i) k = bit (bs ! i) k"
      using i j k by (simp add: nth_be_bytes j_def [symmetric] bit_simps bit_be_word)
  qed
qed

lemma be_bytes_inject:
  "LENGTH('a::len) \<le> 8 * n \<Longrightarrow> be_bytes n (v :: 'a word) = be_bytes n w \<longleftrightarrow> v = w"
  by (metis be_word_be_bytes)

text \<open>\<^verbatim>\<open>static_cast<std::uint8_t>(value & 0xff)\<close> is the plain narrowing cast.\<close>

lemma ucast_and_ff [simp]: "(ucast (w AND 0xff :: 'a::len word) :: byte) = ucast w"
proof -
  have "(0xff :: 'a word) = mask 8" by (simp add: mask_eq_exp_minus_1)
  then have "w AND 0xff = take_bit 8 w" by (simp only: take_bit_eq_mask)
  then show ?thesis
    by (auto simp: bit_simps bit_imp_le_length intro: bit_word_eqI)
qed

section \<open>Slices\<close>

lemma take_drop_split:
  "take (m + n) (drop k xs) = take m (drop k xs) @ take n (drop (k + m) xs)"
  by (simp add: take_add add.commute)

lemma take1_drop: "k < length xs \<Longrightarrow> take 1 (drop k xs) = [xs ! k]"
  by (simp add: take_Suc_conv_app_nth)

lemma take2_drop: "k + 1 < length xs \<Longrightarrow> take 2 (drop k xs) = [xs ! k, xs ! (k + 1)]"
  by (simp add: numeral_2_eq_2 take_Suc_conv_app_nth)

section \<open>Address prefixes\<close>

text \<open>
  Comparing the leading bytes of two addresses and the leading bits of the byte behind them is
  comparing the leading bits of the addresses.
\<close>

lemma drop_bit_eq_iff:
  "drop_bit m (v :: 'a::len word) = drop_bit m w \<longleftrightarrow>
     (\<forall>k. m \<le> k \<longrightarrow> k < LENGTH('a) \<longrightarrow> bit v k = bit w k)"
proof
  assume "drop_bit m v = drop_bit m w"
  then have "bit (drop_bit m v) k = bit (drop_bit m w) k" for k by simp
  then have "bit v (m + k) = bit w (m + k)" for k by (simp add: bit_simps)
  then show "\<forall>k. m \<le> k \<longrightarrow> k < LENGTH('a) \<longrightarrow> bit v k = bit w k"
    by (metis le_add_diff_inverse)
next
  assume H: "\<forall>k. m \<le> k \<longrightarrow> k < LENGTH('a) \<longrightarrow> bit v k = bit w k"
  have "bit v (m + k) = bit w (m + k)" for k
    using H bit_imp_le_length by (metis le_add1)
  then show "drop_bit m v = drop_bit m w"
    by (intro bit_word_eqI) (simp add: bit_simps)
qed

lemma bit_be_bytes:
  "i < n \<Longrightarrow> j < 8 \<Longrightarrow> bit (be_bytes n w ! i) j = bit w (8 * (n - Suc i) + j)"
  by (simp add: nth_be_bytes bit_simps)

lemma leading_bytes_eq:
  assumes p: "p \<le> 8 * n" and len: "LENGTH('a::len) = 8 * n"
  shows "take (p div 8) (be_bytes n (v :: 'a word)) = take (p div 8) (be_bytes n w) \<and>
      (p mod 8 = 0 \<or> drop_bit (8 - p mod 8) (be_bytes n v ! (p div 8)) =
                      drop_bit (8 - p mod 8) (be_bytes n w ! (p div 8))) \<longleftrightarrow>
    drop_bit (8 * n - p) v = drop_bit (8 * n - p) w" (is "?full \<and> ?part \<longleftrightarrow> _")
proof -
  define f r where "f = p div 8" and "r = p mod 8"
  have fr: "p = 8 * f + r" "r < 8" by (auto simp: f_def r_def)
  have f: "f \<le> n" "r = 0 \<or> f < n" using p fr by auto
  have full: "?full \<longleftrightarrow> (\<forall>i<f. \<forall>j<8. bit v (8 * (n - Suc i) + j) = bit w (8 * (n - Suc i) + j))"
    (is "_ \<longleftrightarrow> ?F")
  proof -
    have "?full \<longleftrightarrow> (\<forall>i<f. be_bytes n v ! i = be_bytes n w ! i)"
      using f(1) by (auto simp: f_def [symmetric] list_eq_iff_nth_eq)
    also have "\<dots> \<longleftrightarrow> (\<forall>i<f. \<forall>j<8. bit (be_bytes n v ! i) j = bit (be_bytes n w ! i) j)"
      by (auto intro!: bit_word_eqI)
    finally show ?thesis using f(1) by (auto simp: bit_be_bytes)
  qed
  have part: "?part \<longleftrightarrow> (\<forall>j. 8 - r \<le> j \<longrightarrow> j < 8 \<longrightarrow> r = 0 \<or>
      bit v (8 * (n - Suc f) + j) = bit w (8 * (n - Suc f) + j))" (is "_ \<longleftrightarrow> ?P")
    using f(2) by (auto simp: f_def [symmetric] r_def [symmetric] drop_bit_eq_iff bit_be_bytes)
  have "?F \<and> ?P \<longleftrightarrow> (\<forall>k. 8 * n - p \<le> k \<longrightarrow> k < 8 * n \<longrightarrow> bit v k = bit w k)"
  proof (rule iffI; (intro allI impI)?)
    fix k assume H: "?F \<and> ?P" and k: "8 * n - p \<le> k" "k < 8 * n"
    define i where "i = n - Suc (k div 8)"
    have i: "i < n" "n - Suc i = k div 8" using k(2) by (auto simp: i_def)
    have kk: "k = 8 * (n - Suc i) + k mod 8" using i(2) by simp
    show "bit v k = bit w k"
    proof (cases "i < f")
      case True
      with H have "bit v (8 * (n - Suc i) + k mod 8) = bit w (8 * (n - Suc i) + k mod 8)" by simp
      then show ?thesis by (simp only: kk [symmetric])
    next
      case False
      have "i = f \<and> 0 < r \<and> 8 - r \<le> k mod 8" using False k fr f i kk by linarith
      with H have "bit v (8 * (n - Suc i) + k mod 8) = bit w (8 * (n - Suc i) + k mod 8)" by auto
      then show ?thesis by (simp only: kk [symmetric])
    qed
  next
    assume H: "\<forall>k. 8 * n - p \<le> k \<longrightarrow> k < 8 * n \<longrightarrow> bit v k = bit w k"
    show "?F \<and> ?P"
    proof (intro conjI allI impI)
      fix i j :: nat assume "i < f" "j < 8"
      then have "8 * n - p \<le> 8 * (n - Suc i) + j" "8 * (n - Suc i) + j < 8 * n"
        using fr f by auto
      with H show "bit v (8 * (n - Suc i) + j) = bit w (8 * (n - Suc i) + j)" by blast
    next
      fix j assume j: "8 - r \<le> j" "j < 8"
      show "r = 0 \<or> bit v (8 * (n - Suc f) + j) = bit w (8 * (n - Suc f) + j)"
      proof (cases "r = 0")
        case False
        then have "8 * n - p \<le> 8 * (n - Suc f) + j" "8 * (n - Suc f) + j < 8 * n"
          using fr f j by auto
        with H show ?thesis by blast
      qed simp
    qed
  qed
  with full part show ?thesis
    by (simp add: drop_bit_eq_iff len)
qed

end
