(* ===== verification/Strings.thy ===== *)
theory Strings
  imports Prelude
begin

text \<open>
  \<^verbatim>\<open>std::string\<close> and \<^verbatim>\<open>std::string_view\<close>: searching, trimming, case folding in the C locale,
  the byte view of a string, and \<^verbatim>\<open>std::from_chars\<close> on unsigned decimals.
\<close>

section \<open>Searching\<close>

text \<open>\<^verbatim>\<open>find(c)\<close> and \<^verbatim>\<open>find_first_of(set)\<close>: the first index that satisfies a predicate.\<close>

primrec index_where :: "('a \<Rightarrow> bool) \<Rightarrow> 'a list \<Rightarrow> nat option" where
  "index_where P [] = None"
| "index_where P (x # xs) = (if P x then Some 0 else map_option Suc (index_where P xs))"

text \<open>\<^verbatim>\<open>rfind(c)\<close>: the last such index.\<close>

definition rindex_where :: "('a \<Rightarrow> bool) \<Rightarrow> 'a list \<Rightarrow> nat option" where
  "rindex_where P xs = map_option (\<lambda>i. length xs - Suc i) (index_where P (rev xs))"

lemma index_where_None [str_simps]: "index_where P xs = None \<longleftrightarrow> (\<forall>x\<in>set xs. \<not> P x)"
  by (induction xs) auto

lemma index_where_Some [str_simps]:
  "index_where P xs = Some i \<longleftrightarrow> i < length xs \<and> P (xs ! i) \<and> (\<forall>j<i. \<not> P (xs ! j))"
proof (induction xs arbitrary: i)
  case Nil
  then show ?case by simp
next
  case (Cons x xs)
  then show ?case
    by (cases i) (auto simp: less_Suc_eq_0_disj)
qed

lemma index_where_append:
  "index_where P (xs @ ys) =
     (case index_where P xs of Some i \<Rightarrow> Some i
      | None \<Rightarrow> map_option ((+) (length xs)) (index_where P ys))"
  by (induction xs) (auto simp: option.map_comp comp_def map_option_case split: option.splits)

lemma index_where_prefix:
  "\<forall>x\<in>set xs. \<not> P x \<Longrightarrow> P y \<Longrightarrow> index_where P (xs @ y # ys) = Some (length xs)"
  by (simp add: index_where_append index_where_None [THEN iffD2])

lemma index_where_split:
  "index_where P xs = Some i \<Longrightarrow>
     xs = take i xs @ xs ! i # drop (Suc i) xs \<and> P (xs ! i) \<and> (\<forall>x\<in>set (take i xs). \<not> P x)"
  by (auto simp: index_where_Some id_take_nth_drop in_set_conv_nth)

text \<open>\<^verbatim>\<open>hay.find(needle) != npos\<close>.\<close>

primrec str_contains :: "'a list \<Rightarrow> 'a list \<Rightarrow> bool" where
  "str_contains needle [] = (needle = [])"
| "str_contains needle (x # xs) =
     (take (length needle) (x # xs) = needle \<or> str_contains needle xs)"

lemma str_contains_iff [str_simps]:
  "str_contains needle hay \<longleftrightarrow> (\<exists>before after. hay = before @ needle @ after)"
proof (induction hay)
  case Nil
  then show ?case by simp
next
  case (Cons x xs)
  have "take (length needle) (x # xs) = needle \<longleftrightarrow> (\<exists>after. x # xs = needle @ after)"
    by (metis append_eq_conv_conj append_take_drop_id)
  moreover have "(\<exists>before after. x # xs = before @ needle @ after) \<longleftrightarrow>
      (\<exists>after. x # xs = needle @ after) \<or> (\<exists>before after. xs = before @ needle @ after)"
    by (metis (no_types, lifting) append_Cons append_Nil list.exhaust list.inject)
  ultimately show ?case
    using Cons.IH by simp
qed

text \<open>
  The label-boundary suffix test both rule tables of the code spell out with
  \<^verbatim>\<open>size\<close>, \<^verbatim>\<open>compare\<close> and \<^verbatim>\<open>operator[]\<close>.
\<close>

lemma suffix_at_boundary [str_simps]:
  "length v < length d \<and> drop (length d - length v) d = v \<and> d ! (length d - length v - 1) = c \<longleftrightarrow>
     (\<exists>p. d = p @ c # v)"
proof
  assume a: "length v < length d \<and> drop (length d - length v) d = v
    \<and> d ! (length d - length v - 1) = c"
  define k where "k = length d - length v - 1"
  have "k < length d" "Suc k = length d - length v"
    using a by (auto simp: k_def)
  then have "d ! k = c" "drop (Suc k) d = v"
    using a by (simp_all add: k_def)
  then have "d = take k d @ c # v"
    using id_take_nth_drop [OF \<open>k < length d\<close>] by simp
  then show "\<exists>p. d = p @ c # v" ..
next
  assume "\<exists>p. d = p @ c # v"
  then show "length v < length d \<and> drop (length d - length v) d = v
    \<and> d ! (length d - length v - 1) = c"
    by (auto simp: nth_append)
qed

section \<open>Trimming\<close>

text \<open>\<^verbatim>\<open>while (!value.empty() && P(value.back())) value.remove_suffix(1)\<close>.\<close>

definition strip_suffix :: "('a \<Rightarrow> bool) \<Rightarrow> 'a list \<Rightarrow> 'a list" where
  "strip_suffix P xs = rev (dropWhile P (rev xs))"

lemma strip_suffix_Nil [simp]: "strip_suffix P [] = []"
  by (simp add: strip_suffix_def)

lemma strip_suffix_snoc [simp]:
  "strip_suffix P (xs @ [x]) = (if P x then strip_suffix P xs else xs @ [x])"
  by (simp add: strip_suffix_def)

lemma strip_suffix_idem [simp]: "strip_suffix P (strip_suffix P xs) = strip_suffix P xs"
  by (simp add: strip_suffix_def)

lemma strip_suffix_last: "strip_suffix P xs \<noteq> [] \<Longrightarrow> \<not> P (last (strip_suffix P xs))"
  by (simp add: strip_suffix_def last_rev hd_dropWhile)

lemma strip_suffix_id: "xs = [] \<or> \<not> P (last xs) \<Longrightarrow> strip_suffix P xs = xs"
  by (cases xs rule: rev_cases) auto

lemma strip_suffix_map:
  "(\<And>x. P (f x) = P x) \<Longrightarrow> strip_suffix P (map f xs) = map f (strip_suffix P xs)"
  by (simp add: strip_suffix_def rev_map dropWhile_map comp_def)

lemma strip_suffix_decomp:
  "\<exists>ys. xs = strip_suffix P xs @ ys \<and> (\<forall>y\<in>set ys. P y)"
proof -
  have "rev xs = takeWhile P (rev xs) @ dropWhile P (rev xs)" by simp
  then have "xs = strip_suffix P xs @ rev (takeWhile P (rev xs))"
    by (metis strip_suffix_def rev_append rev_rev_ident)
  moreover have "\<forall>y\<in>set (rev (takeWhile P (rev xs))). P y"
    by (auto dest: set_takeWhileD)
  ultimately show ?thesis by blast
qed

lemma set_strip_suffix: "set (strip_suffix P xs) \<subseteq> set xs"
  by (auto simp: strip_suffix_def dest: set_dropWhileD)

section \<open>Characters and bytes\<close>

text \<open>\<^verbatim>\<open>std::tolower\<close> in the C locale, the locale the program never changes.\<close>

definition to_lower :: "char \<Rightarrow> char" where
  "to_lower c = (let n = (of_char c :: nat) in if 65 \<le> n \<and> n \<le> 90 then char_of (n + 32) else c)"

lemma to_lower_idem [simp]: "to_lower (to_lower c) = to_lower c"
  by (auto simp: to_lower_def Let_def of_char_of take_bit_eq_mod)

lemma to_lower_dot [simp]: "to_lower c = CHR ''.'' \<longleftrightarrow> c = CHR ''.''"
proof
  assume "to_lower c = CHR ''.''"
  then have "(of_char (to_lower c) :: nat) = 46" by simp
  then have "(of_char c :: nat) = 46"
    by (auto simp: to_lower_def Let_def of_char_of take_bit_eq_mod split: if_splits)
  then have "(of_char c :: nat) = of_char (CHR ''.'')" by simp
  then show "c = CHR ''.''" by (simp only: of_char_eq_iff)
qed (simp add: to_lower_def)

text \<open>A string written into a byte buffer and read back.\<close>

definition byte_of_char :: "char \<Rightarrow> byte" where
  "byte_of_char c = word_of_nat (of_char c)"

definition char_of_byte :: "byte \<Rightarrow> char" where
  "char_of_byte b = char_of (unat b)"

lemma char_of_byte_of_char [simp]: "char_of_byte (byte_of_char c) = c"
  by (simp add: char_of_byte_def byte_of_char_def unat_of_nat take_bit_eq_mod)

lemma byte_of_char_of_byte [simp]: "byte_of_char (char_of_byte b) = b"
proof -
  have "unat b < 256" using unsigned_less [of b, where 'a = nat] by simp
  then show ?thesis
    by (simp add: char_of_byte_def byte_of_char_def of_char_of take_bit_eq_mod)
qed

definition bytes_of_string :: "string \<Rightarrow> bytes" where
  "bytes_of_string = map byte_of_char"

definition string_of_bytes :: "bytes \<Rightarrow> string" where
  "string_of_bytes = map char_of_byte"

lemma string_of_bytes_inverse [simp, wire_simps]: "string_of_bytes (bytes_of_string s) = s"
  by (simp add: string_of_bytes_def bytes_of_string_def comp_def)

lemma bytes_of_string_inverse [simp, wire_simps]: "bytes_of_string (string_of_bytes b) = b"
  by (simp add: string_of_bytes_def bytes_of_string_def comp_def)

lemma length_bytes_of_string [simp]: "length (bytes_of_string s) = length s"
  by (simp add: bytes_of_string_def)

lemma length_string_of_bytes [simp]: "length (string_of_bytes b) = length b"
  by (simp add: string_of_bytes_def)

lemma string_of_bytes_eq_Nil [simp]: "string_of_bytes b = [] \<longleftrightarrow> b = []"
  by (simp add: string_of_bytes_def)

lemma unat_byte_le [simp]: "unat (b :: byte) \<le> 255"
  using unsigned_less [of b, where 'a = nat] by simp

lemma bytes_of_string_inject [simp]: "bytes_of_string s = bytes_of_string t \<longleftrightarrow> s = t"
  by (metis string_of_bytes_inverse)

section \<open>Unsigned decimals\<close>

text \<open>
  \<^verbatim>\<open>std::from_chars(begin, end, unsigned &)\<close>: the longest run of decimal digits, \<open>None\<close> when it
  is empty (\<^verbatim>\<open>errc::invalid_argument\<close>) or its value does not fit 32 bits
  (\<^verbatim>\<open>errc::result_out_of_range\<close>); otherwise the value and what follows the digits.
\<close>

definition is_digit :: "char \<Rightarrow> bool" where
  "is_digit c \<longleftrightarrow> 48 \<le> (of_char c :: nat) \<and> (of_char c :: nat) \<le> 57"

definition digit_value :: "char \<Rightarrow> nat" where
  "digit_value c = of_char c - 48"

definition decimal_value :: "string \<Rightarrow> nat" where
  "decimal_value ds = foldl (\<lambda>acc c. 10 * acc + digit_value c) 0 ds"

definition from_chars_u32 :: "string \<Rightarrow> (nat \<times> string) option" where
  "from_chars_u32 s =
     (let ds = takeWhile is_digit s; v = decimal_value ds in
      if ds = [] \<or> 2 ^ 32 \<le> v then None else Some (v, dropWhile is_digit s))"

lemma from_chars_u32_bound: "from_chars_u32 s = Some (v, r) \<Longrightarrow> v < 2 ^ 32"
  by (auto simp: from_chars_u32_def Let_def split: if_splits)

lemma from_chars_u32_all:
  "from_chars_u32 s = Some (v, []) \<longleftrightarrow>
     s \<noteq> [] \<and> (\<forall>c\<in>set s. is_digit c) \<and> v = decimal_value s \<and> v < 2 ^ 32"
proof (cases "\<forall>c\<in>set s. is_digit c")
  case True
  then have all: "takeWhile is_digit s = s" "dropWhile is_digit s = []" by simp_all
  show ?thesis
    unfolding from_chars_u32_def Let_def all using True by auto
next
  case False
  then have "dropWhile is_digit s \<noteq> []" by simp
  with False show ?thesis by (auto simp: from_chars_u32_def Let_def)
qed

text \<open>\<^verbatim>\<open>std::to_string\<close> of an unsigned number.\<close>

fun show_decimal :: "nat \<Rightarrow> string" where
  "show_decimal n =
     (if n < 10 then [char_of (48 + n)] else show_decimal (n div 10) @ [char_of (48 + n mod 10)])"

declare show_decimal.simps [simp del]

lemma show_decimal_digits: "show_decimal n \<noteq> [] \<and> (\<forall>c\<in>set (show_decimal n). is_digit c)"
proof (induction n rule: show_decimal.induct)
  case (1 n)
  have digit: "is_digit (char_of (48 + k))" if "k < 10" for k :: nat
    using that by (simp add: is_digit_def of_char_of take_bit_eq_mod)
  show ?case
  proof (cases "n < 10")
    case True
    with digit [of n] show ?thesis by (simp add: show_decimal.simps [of n])
  next
    case False
    with 1 digit [of "n mod 10"] show ?thesis by (simp add: show_decimal.simps [of n])
  qed
qed

lemma decimal_value_snoc: "decimal_value (ds @ [c]) = 10 * decimal_value ds + digit_value c"
  by (simp add: decimal_value_def)

lemma decimal_value_show [simp]: "decimal_value (show_decimal n) = n"
proof (induction n rule: show_decimal.induct)
  case (1 n)
  have digit: "digit_value (char_of (48 + k)) = k" if "k < 10" for k :: nat
    using that by (simp add: digit_value_def of_char_of take_bit_eq_mod)
  show ?case
  proof (cases "n < 10")
    case True
    with digit [of n] show ?thesis
      by (simp add: show_decimal.simps [of n] decimal_value_def)
  next
    case False
    with 1 digit [of "n mod 10"] show ?thesis
      by (simp add: show_decimal.simps [of n] decimal_value_snoc)
  qed
qed

lemma show_decimal_inject [simp]: "show_decimal m = show_decimal n \<longleftrightarrow> m = n"
  by (metis decimal_value_show)

end
