(* ===== verification/Rule_Table.thy ===== *)
theory Rule_Table
  imports Strings
begin

text \<open>
  The interface of an ordered rule table, shared by the traffic router and the DNS policy router:
  the first rule that applies to the query decides.  The label-boundary suffix match both tables
  offer is characterised here once.
\<close>

locale rule_table =
  fixes applies :: "'r \<Rightarrow> 'q \<Rightarrow> bool"
    and pick :: "'r list \<Rightarrow> 'q \<Rightarrow> 'r option"
  assumes pick_Nil: "pick [] q = None"
    and pick_Cons: "pick (r # rs) q = (if applies r q then Some r else pick rs q)"
begin

lemma pick_None: "pick rs q = None \<longleftrightarrow> (\<forall>r\<in>set rs. \<not> applies r q)"
  by (induction rs) (auto simp: pick_Nil pick_Cons)

lemma pick_Some:
  "pick rs q = Some r \<longleftrightarrow>
     (\<exists>before after. rs = before @ r # after \<and> applies r q \<and> (\<forall>b\<in>set before. \<not> applies b q))"
proof (induction rs)
  case Nil
  then show ?case by (simp add: pick_Nil)
next
  case (Cons x xs)
  show ?case
  proof (cases "applies x q")
    case True
    then have "(\<exists>before after. x # xs = before @ r # after \<and> applies r q \<and>
        (\<forall>b\<in>set before. \<not> applies b q)) \<longleftrightarrow> x = r"
      by (auto simp: Cons_eq_append_conv)
    with True show ?thesis by (simp add: pick_Cons)
  next
    case False
    let ?first = "\<lambda>ys before after. ys = before @ r # after \<and> applies r q \<and>
        (\<forall>b\<in>set before. \<not> applies b q)"
    have "(\<exists>before after. ?first (x # xs) before after) \<longleftrightarrow>
        (\<exists>before after. ?first xs before after)"
    proof
      assume "\<exists>before after. ?first (x # xs) before after"
      then obtain before after where f: "?first (x # xs) before after" by blast
      with False obtain bs where "before = x # bs" by (cases before) auto
      with f have "?first xs bs after" by simp
      then show "\<exists>before after. ?first xs before after" by blast
    next
      assume "\<exists>before after. ?first xs before after"
      then obtain before after where "?first xs before after" by blast
      with False have "?first (x # xs) (x # before) after" by simp
      then show "\<exists>before after. ?first (x # xs) before after" by blast
    qed
    with False Cons.IH show ?thesis by (simp add: pick_Cons)
  qed
qed

lemma pick_applies: "pick rs q = Some r \<Longrightarrow> r \<in> set rs \<and> applies r q"
  by (auto simp: pick_Some)

lemma pick_append:
  "pick (rs @ ss) q = (case pick rs q of Some r \<Rightarrow> Some r | None \<Rightarrow> pick ss q)"
  by (induction rs) (auto simp: pick_Nil pick_Cons)

text \<open>A rule behind one that always applies with it is dead.\<close>

lemma pick_shadowed:
  assumes "s \<in> set rs" "\<And>q. applies r q \<Longrightarrow> applies s q"
  shows "pick (rs @ r # ss) q = pick (rs @ ss) q"
proof (cases "pick rs q")
  case None
  then have "\<not> applies r q" using assms by (auto simp: pick_None)
  with None show ?thesis by (simp add: pick_append pick_Cons)
qed (simp add: pick_append)

end

text \<open>
  The two domain tests on already folded names: equality or a suffix at a label boundary, and
  containment.
\<close>

definition suffix_matches :: "string \<Rightarrow> string \<Rightarrow> bool" where
  "suffix_matches domain value \<longleftrightarrow> domain = value \<or>
     (length domain > length value \<and>
      drop (length domain - length value) domain = value \<and>
      domain ! (length domain - length value - 1) = CHR ''.'')"

lemma suffix_matches_iff:
  "suffix_matches d v \<longleftrightarrow> d = v \<or> (\<exists>sub. d = sub @ ''.'' @ v)"
  using suffix_at_boundary [of v d "CHR ''.''"] by (auto simp: suffix_matches_def)

lemma suffix_matches_trans:
  "suffix_matches a b \<Longrightarrow> suffix_matches b c \<Longrightarrow> suffix_matches a c"
proof -
  have "\<exists>sub. p @ ''.'' @ q @ ''.'' @ c = sub @ ''.'' @ c" for p q :: string
    by (rule exI [of _ "p @ ''.'' @ q"]) simp
  then show "suffix_matches a b \<Longrightarrow> suffix_matches b c \<Longrightarrow> suffix_matches a c"
    by (auto simp: suffix_matches_iff)
qed

end
