(* ===== verification/Core_Types.thy ===== *)
theory Core_Types
  imports Strings
begin

text \<open>
  The vocabulary of \<^verbatim>\<open>include/clash_native/core\<close> and \<^verbatim>\<open>include/clash_native/io/address.hpp\<close>:
  error codes and errors, IP addresses as Boost.Asio presents them, destinations, datagram
  addresses, connection metadata and outbound capabilities.
\<close>

section \<open>Errors\<close>

datatype error_code =
    Cancelled | Resolution | Endpoint_connection | Carrier_handshake | Authentication
  | Protocol_framing | Timeout | Rejected | Unsupported | Configuration | Transport_io

fun error_code_string :: "error_code \<Rightarrow> string" where
  "error_code_string Cancelled = ''cancelled''"
| "error_code_string Resolution = ''resolution''"
| "error_code_string Endpoint_connection = ''endpoint_connection''"
| "error_code_string Carrier_handshake = ''carrier_handshake''"
| "error_code_string Authentication = ''authentication''"
| "error_code_string Protocol_framing = ''protocol_framing''"
| "error_code_string Timeout = ''timeout''"
| "error_code_string Rejected = ''rejected''"
| "error_code_string Unsupported = ''unsupported''"
| "error_code_string Configuration = ''configuration''"
| "error_code_string Transport_io = ''transport_io''"

lemma error_code_string_inj: "error_code_string a = error_code_string b \<Longrightarrow> a = b"
  by (cases a; cases b) simp_all

text \<open>
  \<^verbatim>\<open>struct Error\<close>. The \<^verbatim>\<open>std::error_code cause\<close> is the number of the system error, 0 when the
  field is left default.
\<close>

record error =
  code :: error_code
  context_text :: string
  cause :: int

definition mk_error :: "error_code \<Rightarrow> string \<Rightarrow> error" where
  "mk_error c t = \<lparr>code = c, context_text = t, cause = 0\<rparr>"

lemma code_mk_error [simp]: "code (mk_error c t) = c"
  by (simp add: mk_error_def)

lemma context_mk_error [simp]: "context_text (mk_error c t) = t"
  by (simp add: mk_error_def)

lemma mk_error_inject [simp]: "mk_error c t = mk_error c' t' \<longleftrightarrow> c = c' \<and> t = t'"
  by (simp add: mk_error_def)

type_synonym 'a res = "(error, 'a) result"
type_synonym status = "unit res"

section \<open>IP addresses\<close>

text \<open>
  \<^verbatim>\<open>boost::asio::ip::address\<close> is an IPv4 address (32 bits) or an IPv6 address (128 bits and a
  scope identifier). \<open>address_bytes\<close> is \<^verbatim>\<open>to_v4().to_bytes()\<close> or \<^verbatim>\<open>to_v6().to_bytes()\<close>: network
  order, and the scope is not among them.
\<close>

datatype ip_address = V4 "32 word" | V6 "128 word" nat

fun is_v4 :: "ip_address \<Rightarrow> bool" where
  "is_v4 (V4 _) = True"
| "is_v4 (V6 _ _) = False"

fun is_v6 :: "ip_address \<Rightarrow> bool" where
  "is_v6 (V4 _) = False"
| "is_v6 (V6 _ _) = True"

fun unscoped :: "ip_address \<Rightarrow> bool" where
  "unscoped (V4 _) = True"
| "unscoped (V6 _ scope) = (scope = 0)"

fun is_unspecified :: "ip_address \<Rightarrow> bool" where
  "is_unspecified (V4 a) = (a = 0)"
| "is_unspecified (V6 a _) = (a = 0)"

fun address_bytes :: "ip_address \<Rightarrow> bytes" where
  "address_bytes (V4 a) = be_bytes 4 a"
| "address_bytes (V6 a _) = be_bytes 16 a"

lemma is_v6_iff [simp]: "is_v6 a \<longleftrightarrow> \<not> is_v4 a"
  by (cases a) simp_all

lemma length_address_bytes: "length (address_bytes a) = (if is_v4 a then 4 else 16)"
  by (cases a) simp_all

text \<open>Building an address from the bytes of a packet: the scope is 0.\<close>

definition v4_from_bytes :: "bytes \<Rightarrow> ip_address" where
  "v4_from_bytes bs = V4 (be_word bs)"

definition v6_from_bytes :: "bytes \<Rightarrow> ip_address" where
  "v6_from_bytes bs = V6 (be_word bs) 0"

lemma from_bytes_family [simp]:
  "is_v4 (v4_from_bytes bs)" "unscoped (v4_from_bytes bs)"
  "\<not> is_v4 (v6_from_bytes bs)" "unscoped (v6_from_bytes bs)"
  by (simp_all add: v4_from_bytes_def v6_from_bytes_def)

lemma v4_from_bytes_inverse [wire_simps]: "v4_from_bytes (be_bytes 4 a) = V4 a"
  by (simp add: v4_from_bytes_def be_word_be_bytes)

lemma v6_from_bytes_inverse [wire_simps]: "v6_from_bytes (be_bytes 16 a) = V6 a 0"
  by (simp add: v6_from_bytes_def be_word_be_bytes)

lemma address_bytes_v4_from_bytes [wire_simps]:
  "length bs = 4 \<Longrightarrow> address_bytes (v4_from_bytes bs) = bs"
  using be_bytes_be_word [of bs, where 'a = 32] by (simp add: v4_from_bytes_def)

lemma address_bytes_v6_from_bytes [wire_simps]:
  "length bs = 16 \<Longrightarrow> address_bytes (v6_from_bytes bs) = bs"
  using be_bytes_be_word [of bs, where 'a = 128] by (simp add: v6_from_bytes_def)

section \<open>Destinations and endpoints\<close>

text \<open>
  \<^verbatim>\<open>core::Destination\<close> (and the identical \<^verbatim>\<open>io::Destination\<close>): a domain name or an address, with
  a port. \<^verbatim>\<open>DatagramAddress\<close> is the same data in a variant that lists the address first and is
  default-constructible.
\<close>

datatype destination =
    Domain (dest_domain: string) (port: u16)
  | Address (dest_address: ip_address) (port: u16)

fun is_domain :: "destination \<Rightarrow> bool" where
  "is_domain (Domain _ _) = True"
| "is_domain (Address _ _) = False"

fun is_address :: "destination \<Rightarrow> bool" where
  "is_address (Domain _ _) = False"
| "is_address (Address _ _) = True"

lemma is_address_iff [simp]: "is_address d \<longleftrightarrow> \<not> is_domain d"
  by (cases d) simp_all

record endpoint =
  ep_address :: ip_address
  ep_port :: u16

datatype datagram_address =
    Dg_address ip_address u16
  | Dg_domain string u16

definition default_datagram_address :: datagram_address where
  "default_datagram_address = Dg_address (V4 0) 0"

definition from_endpoint :: "endpoint \<Rightarrow> datagram_address" where
  "from_endpoint e = Dg_address (ep_address e) (ep_port e)"

fun to_destination :: "datagram_address \<Rightarrow> destination" where
  "to_destination (Dg_domain d p) = Domain d p"
| "to_destination (Dg_address a p) = Address a p"

section \<open>Metadata and capabilities\<close>

datatype network = Tcp | Udp

record connection_metadata =
  md_network :: network
  md_source :: "endpoint option"
  md_destination :: destination
  md_inbound_name :: string
  md_inbound_type :: string
  md_authenticated_user :: "string option"
  md_sniffed_host :: "string option"

datatype datagram_semantics = Dg_unsupported | Fixed_destination | Multi_destination

datatype target_requirement = Domain_or_ip | Ip_required

record outbound_capabilities =
  cap_stream :: bool
  cap_datagram :: datagram_semantics
  cap_stream_target :: target_requirement
  cap_datagram_target :: target_requirement

definition default_capabilities :: outbound_capabilities where
  "default_capabilities = \<lparr>cap_stream = False, cap_datagram = Dg_unsupported,
     cap_stream_target = Domain_or_ip, cap_datagram_target = Domain_or_ip\<rparr>"

end
