(* ===== verification/Traffic_Router.thy ===== *)
theory Traffic_Router
  imports Rule_Table Core_Types
begin

text \<open>
  \<^verbatim>\<open>src/router/traffic_router.cpp\<close>: rules, their prepared form, rule matching with the
  per-evaluation cache of the folded domain, ordered evaluation with metadata requests, and
  validation. \<open>make_address\<close>, the first argument of the preparation functions, is Boost.Asio's
  parser of address literals.
\<close>

section \<open>Data\<close>

datatype route_action_kind = Act_direct | Act_reject | Act_named

record route_action =
  ra_kind :: route_action_kind
  ra_target :: string

definition action_direct :: route_action where
  "action_direct = \<lparr>ra_kind = Act_direct, ra_target = ''''\<rparr>"

definition action_reject :: route_action where
  "action_reject = \<lparr>ra_kind = Act_reject, ra_target = ''''\<rparr>"

definition action_named :: "string \<Rightarrow> route_action" where
  "action_named target = \<lparr>ra_kind = Act_named, ra_target = target\<rparr>"

record route_decision =
  rd_action :: route_action
  rd_matched_rule :: string
  rd_used_default :: bool

datatype metadata_need = Need_destination_ip | Need_process_info

datatype rule_evaluation =
    No_match
  | Matched route_decision
  | Need_metadata metadata_need nat

datatype rule_kind =
    Rk_domain | Rk_domain_suffix | Rk_domain_keyword | Rk_network | Rk_destination_port
  | Rk_inbound | Rk_destination_ip_cidr

record traffic_rule =
  tr_id :: string
  tr_kind :: rule_kind
  tr_value :: string
  tr_port_from :: u16
  tr_port_to :: u16
  tr_no_resolve :: bool
  tr_action :: route_action

datatype lookup_state = Unrequested | In_progress | Resolved | Failed

record routing_context =
  rc_lookup :: lookup_state
  rc_address :: "ip_address option"
  rc_addresses :: "ip_address list"

record prepared_rule =
  pr_lowered_value :: string
  pr_cidr_valid :: bool
  pr_network :: ip_address
  pr_network_bytes :: bytes
  pr_prefix :: nat

record traffic_router =
  rt_default_action :: route_action
  rt_rules :: "traffic_rule list"
  rt_prepared :: "prepared_rule list"

section \<open>Preparing and matching a rule\<close>

definition lower_copy :: "string \<Rightarrow> string" where
  "lower_copy value = map to_lower value"

definition empty_prepared :: prepared_rule where
  "empty_prepared = \<lparr>pr_lowered_value = '''', pr_cidr_valid = False, pr_network = V4 0,
     pr_network_bytes = [], pr_prefix = 0\<rparr>"

definition prepare_cidr :: "(string \<Rightarrow> ip_address option) \<Rightarrow> string \<Rightarrow> prepared_rule" where
  "prepare_cidr make_address text =
     (case index_where (\<lambda>c. c = CHR ''/'') text of
        None \<Rightarrow> empty_prepared
      | Some separator \<Rightarrow>
          (case make_address (take separator text) of
             None \<Rightarrow> empty_prepared
           | Some network \<Rightarrow>
               (case from_chars_u32 (drop (separator + 1) text) of
                  None \<Rightarrow> empty_prepared
                | Some (prefix, rest) \<Rightarrow>
                    (if rest \<noteq> [] \<or> prefix > (if is_v4 network then 32 else 128)
                     then empty_prepared
                     else empty_prepared\<lparr>pr_cidr_valid := True, pr_network := network,
                            pr_network_bytes := address_bytes network, pr_prefix := prefix\<rparr>))))"

definition prepare_rule :: "(string \<Rightarrow> ip_address option) \<Rightarrow> traffic_rule \<Rightarrow> prepared_rule" where
  "prepare_rule make_address rule =
     (case tr_kind rule of
        Rk_domain \<Rightarrow> empty_prepared\<lparr>pr_lowered_value := lower_copy (tr_value rule)\<rparr>
      | Rk_domain_suffix \<Rightarrow> empty_prepared\<lparr>pr_lowered_value := lower_copy (tr_value rule)\<rparr>
      | Rk_domain_keyword \<Rightarrow> empty_prepared\<lparr>pr_lowered_value := lower_copy (tr_value rule)\<rparr>
      | Rk_destination_ip_cidr \<Rightarrow> prepare_cidr make_address (tr_value rule)
      | _ \<Rightarrow> empty_prepared)"

text \<open>
  The reference parameters \<^verbatim>\<open>lowered_cache\<close> and \<^verbatim>\<open>lowered_ready\<close> are the pair threaded through.
\<close>

type_synonym lowered_state = "string \<times> bool"

definition domain_matches ::
  "destination \<Rightarrow> traffic_rule \<Rightarrow> prepared_rule \<Rightarrow> lowered_state \<Rightarrow> bool \<times> lowered_state" where
  "domain_matches dest rule prepared lowered =
     (if \<not> is_domain dest then (False, lowered)
      else
        let lowered = (if snd lowered then lowered else (lower_copy (dest_domain dest), True));
            domain = fst lowered; v = pr_lowered_value prepared
        in ((case tr_kind rule of
               Rk_domain \<Rightarrow> domain = v
             | Rk_domain_suffix \<Rightarrow> suffix_matches domain v
             | Rk_domain_keyword \<Rightarrow> str_contains v domain
             | _ \<Rightarrow> False), lowered))"

definition cidr_match :: "prepared_rule \<Rightarrow> ip_address \<Rightarrow> bool" where
  "cidr_match prepared address =
     (let full_bytes = pr_prefix prepared div 8; remaining_bits = pr_prefix prepared mod 8 in
      if is_v4 (pr_network prepared) \<noteq> is_v4 address then False
      else
        let target_bytes = address_bytes address in
        if take full_bytes (pr_network_bytes prepared) \<noteq> take full_bytes target_bytes then False
        else remaining_bits = 0 \<or>
          drop_bit (8 - remaining_bits) (pr_network_bytes prepared ! full_bytes) =
          drop_bit (8 - remaining_bits) (target_bytes ! full_bytes))"

definition cidr_candidates :: "connection_metadata \<Rightarrow> routing_context \<Rightarrow> ip_address list" where
  "cidr_candidates metadata ctx =
     (if rc_addresses ctx \<noteq> [] then rc_addresses ctx
      else case rc_address ctx of
        Some address \<Rightarrow> [address]
      | None \<Rightarrow> (case md_destination metadata of Address address _ \<Rightarrow> [address] | Domain _ _ \<Rightarrow> []))"

definition matches_rule ::
  "traffic_rule \<Rightarrow> prepared_rule \<Rightarrow> connection_metadata \<Rightarrow> routing_context \<Rightarrow> lowered_state \<Rightarrow>
     bool \<times> lowered_state" where
  "matches_rule rule prepared metadata ctx lowered =
     (case tr_kind rule of
        Rk_domain \<Rightarrow> domain_matches (md_destination metadata) rule prepared lowered
      | Rk_domain_suffix \<Rightarrow> domain_matches (md_destination metadata) rule prepared lowered
      | Rk_domain_keyword \<Rightarrow> domain_matches (md_destination metadata) rule prepared lowered
      | Rk_network \<Rightarrow>
          ((tr_value rule = ''tcp'' \<and> md_network metadata = Tcp) \<or>
           (tr_value rule = ''udp'' \<and> md_network metadata = Udp), lowered)
      | Rk_destination_port \<Rightarrow>
          (port (md_destination metadata) \<ge> tr_port_from rule \<and>
           port (md_destination metadata) \<le>
             (if tr_port_to rule = 0 then tr_port_from rule else tr_port_to rule), lowered)
      | Rk_inbound \<Rightarrow>
          (tr_value rule = md_inbound_name metadata \<or> tr_value rule = md_inbound_type metadata,
           lowered)
      | Rk_destination_ip_cidr \<Rightarrow>
          (pr_cidr_valid prepared \<and> cidr_candidates metadata ctx \<noteq> [] \<and>
           list_ex (cidr_match prepared) (cidr_candidates metadata ctx), lowered))"

section \<open>The router\<close>

definition new_router :: "route_action \<Rightarrow> traffic_router" where
  "new_router action = \<lparr>rt_default_action = action, rt_rules = [], rt_prepared = []\<rparr>"

definition set_default_action :: "route_action \<Rightarrow> traffic_router \<Rightarrow> traffic_router" where
  "set_default_action action r = r\<lparr>rt_default_action := action\<rparr>"

definition add_rule ::
  "(string \<Rightarrow> ip_address option) \<Rightarrow> traffic_rule \<Rightarrow> traffic_router \<Rightarrow> traffic_router" where
  "add_rule make_address rule r =
     r\<lparr>rt_prepared := rt_prepared r @ [prepare_rule make_address rule],
       rt_rules := rt_rules r @ [rule]\<rparr>"

definition validate_action :: "string list \<Rightarrow> route_action \<Rightarrow> status" where
  "validate_action outbound_ids action =
     (if ra_kind action = Act_named \<and>
         (ra_target action = '''' \<or> ra_target action \<notin> set outbound_ids)
      then Inl (mk_error Configuration
             (''route action references an unknown outbound: '' @ ra_target action))
      else Inr ())"

fun validate_rules :: "string list \<Rightarrow> traffic_rule list \<Rightarrow> status" where
  "validate_rules outbound_ids [] = Inr ()"
| "validate_rules outbound_ids (rule # rules) =
     (case validate_action outbound_ids (tr_action rule) of
        Inl e \<Rightarrow> Inl e
      | Inr _ \<Rightarrow> validate_rules outbound_ids rules)"

definition validate :: "traffic_router \<Rightarrow> string list \<Rightarrow> status" where
  "validate r outbound_ids =
     (case validate_action outbound_ids (rt_default_action r) of
        Inl e \<Rightarrow> Inl e
      | Inr _ \<Rightarrow> validate_rules outbound_ids (rt_rules r))"

text \<open>Whether a rule reaches for a destination address that is not there.\<close>

definition lacks_address :: "connection_metadata \<Rightarrow> routing_context \<Rightarrow> traffic_rule \<Rightarrow> bool" where
  "lacks_address metadata ctx rule \<longleftrightarrow>
     tr_kind rule = Rk_destination_ip_cidr \<and> rc_addresses ctx = [] \<and> rc_address ctx = None \<and>
     \<not> is_address (md_destination metadata)"

fun evaluate_from ::
  "connection_metadata \<Rightarrow> routing_context \<Rightarrow> route_action \<Rightarrow> nat \<Rightarrow>
     (traffic_rule \<times> prepared_rule) list \<Rightarrow> lowered_state \<Rightarrow> rule_evaluation" where
  "evaluate_from metadata ctx default_action index [] lowered =
     Matched \<lparr>rd_action = default_action, rd_matched_rule = '''', rd_used_default = True\<rparr>"
| "evaluate_from metadata ctx default_action index ((rule, prepared) # rest) lowered =
     (if lacks_address metadata ctx rule then
        (if \<not> tr_no_resolve rule \<and> rc_lookup ctx = Unrequested
         then Need_metadata Need_destination_ip index
         else evaluate_from metadata ctx default_action (index + 1) rest lowered)
      else
        (case matches_rule rule prepared metadata ctx lowered of
           (True, _) \<Rightarrow> Matched \<lparr>rd_action = tr_action rule, rd_matched_rule = tr_id rule,
                                   rd_used_default = False\<rparr>
         | (False, lowered') \<Rightarrow>
             evaluate_from metadata ctx default_action (index + 1) rest lowered'))"

definition evaluate ::
  "traffic_router \<Rightarrow> connection_metadata \<Rightarrow> routing_context \<Rightarrow> nat \<Rightarrow> rule_evaluation" where
  "evaluate r metadata ctx start =
     evaluate_from metadata ctx (rt_default_action r) start
       (drop start (zip (rt_rules r) (rt_prepared r))) ('''', False)"

section \<open>What a rule means\<close>

text \<open>
  The reference reading of a rule, without preparation, bytes or cache: two names compare
  ignoring case, and an address is in a network when it agrees with it on the prefix bits.
\<close>

fun in_network :: "ip_address \<Rightarrow> nat \<Rightarrow> ip_address \<Rightarrow> bool" where
  "in_network (V4 net) p (V4 a) = (drop_bit (32 - p) net = drop_bit (32 - p) a)"
| "in_network (V6 net _) p (V6 a _) = (drop_bit (128 - p) net = drop_bit (128 - p) a)"
| "in_network _ _ _ = False"

definition rule_applies ::
  "(string \<Rightarrow> ip_address option) \<Rightarrow> connection_metadata \<Rightarrow> routing_context \<Rightarrow> traffic_rule \<Rightarrow> bool"
where
  "rule_applies make_address metadata ctx rule =
     (let dest = md_destination metadata in
      case tr_kind rule of
        Rk_domain \<Rightarrow> is_domain dest \<and> lower_copy (dest_domain dest) = lower_copy (tr_value rule)
      | Rk_domain_suffix \<Rightarrow> is_domain dest \<and>
          (lower_copy (dest_domain dest) = lower_copy (tr_value rule) \<or>
           (\<exists>sub. lower_copy (dest_domain dest) = sub @ ''.'' @ lower_copy (tr_value rule)))
      | Rk_domain_keyword \<Rightarrow> is_domain dest \<and>
          (\<exists>x y. lower_copy (dest_domain dest) = x @ lower_copy (tr_value rule) @ y)
      | Rk_network \<Rightarrow> tr_value rule = (case md_network metadata of Tcp \<Rightarrow> ''tcp'' | Udp \<Rightarrow> ''udp'')
      | Rk_destination_port \<Rightarrow> tr_port_from rule \<le> port dest \<and>
          port dest \<le> (if tr_port_to rule = 0 then tr_port_from rule else tr_port_to rule)
      | Rk_inbound \<Rightarrow> tr_value rule \<in> {md_inbound_name metadata, md_inbound_type metadata}
      | Rk_destination_ip_cidr \<Rightarrow>
          (\<exists>i net p a. index_where (\<lambda>c. c = CHR ''/'') (tr_value rule) = Some i \<and>
             make_address (take i (tr_value rule)) = Some net \<and>
             from_chars_u32 (drop (i + 1) (tr_value rule)) = Some (p, []) \<and>
             p \<le> (if is_v4 net then 32 else 128) \<and>
             a \<in> set (cidr_candidates metadata ctx) \<and> in_network net p a))"

section \<open>Matching is the reference reading\<close>

lemma cidr_match_in_network:
  assumes "p \<le> (if is_v4 net then 32 else 128)"
  shows "cidr_match (empty_prepared\<lparr>pr_cidr_valid := v, pr_network := net,
      pr_network_bytes := address_bytes net, pr_prefix := p\<rparr>) a \<longleftrightarrow> in_network net p a"
proof (cases net; cases a)
  fix m n assume "net = V4 m" "a = V4 n"
  then show ?thesis
    using assms leading_bytes_eq [of p 4 m n] by (auto simp: cidr_match_def Let_def)
next
  fix m n s s' assume "net = V6 m s" "a = V6 n s'"
  then show ?thesis
    using assms leading_bytes_eq [of p 16 m n] by (auto simp: cidr_match_def Let_def)
qed (simp_all add: cidr_match_def Let_def)

lemma prepare_cidr_valid_iff:
  "pr_cidr_valid (prepare_cidr mk text) \<longleftrightarrow>
     (\<exists>i net p. index_where (\<lambda>c. c = CHR ''/'') text = Some i \<and> mk (take i text) = Some net \<and>
        from_chars_u32 (drop (i + 1) text) = Some (p, []) \<and> p \<le> (if is_v4 net then 32 else 128))"
  by (auto simp: prepare_cidr_def empty_prepared_def not_le split: option.splits if_splits)

lemma prepare_cidr_match:
  assumes "index_where (\<lambda>c. c = CHR ''/'') text = Some i" "mk (take i text) = Some net"
    "from_chars_u32 (drop (i + 1) text) = Some (p, [])" "p \<le> (if is_v4 net then 32 else 128)"
  shows "cidr_match (prepare_cidr mk text) a \<longleftrightarrow> in_network net p a"
  using assms cidr_match_in_network [OF assms(4)]
  by (auto simp: prepare_cidr_def split: if_splits)

lemma cidr_rule_applies:
  "pr_cidr_valid (prepare_cidr mk text) \<and> xs \<noteq> [] \<and> list_ex (cidr_match (prepare_cidr mk text)) xs \<longleftrightarrow>
     (\<exists>i net p a. index_where (\<lambda>c. c = CHR ''/'') text = Some i \<and> mk (take i text) = Some net \<and>
        from_chars_u32 (drop (i + 1) text) = Some (p, []) \<and> p \<le> (if is_v4 net then 32 else 128) \<and>
        a \<in> set xs \<and> in_network net p a)" (is "?L \<longleftrightarrow> ?R")
proof
  assume ?L
  then obtain i net p a where "index_where (\<lambda>c. c = CHR ''/'') text = Some i"
      "mk (take i text) = Some net" "from_chars_u32 (drop (i + 1) text) = Some (p, [])"
      "p \<le> (if is_v4 net then 32 else 128)" "a \<in> set xs" "cidr_match (prepare_cidr mk text) a"
    by (auto simp: prepare_cidr_valid_iff list_ex_iff)
  then show ?R using prepare_cidr_match by blast
next
  assume ?R
  then obtain i net p a where r: "index_where (\<lambda>c. c = CHR ''/'') text = Some i"
      "mk (take i text) = Some net" "from_chars_u32 (drop (i + 1) text) = Some (p, [])"
      "p \<le> (if is_v4 net then 32 else 128)" "a \<in> set xs" "in_network net p a" by blast
  then have "cidr_match (prepare_cidr mk text) a" using prepare_cidr_match by blast
  with r show ?L
    unfolding prepare_cidr_valid_iff by (auto simp: list_ex_iff)
qed

text \<open>The cache holds the folded domain of this connection or nothing.\<close>

definition lowered_ok :: "destination \<Rightarrow> lowered_state \<Rightarrow> bool" where
  "lowered_ok dest lowered \<longleftrightarrow> (snd lowered \<longrightarrow> fst lowered = lower_copy (dest_domain dest))"

lemma matches_rule_applies:
  assumes "lowered_ok (md_destination metadata) lowered"
  shows "fst (matches_rule rule (prepare_rule mk rule) metadata ctx lowered) =
      rule_applies mk metadata ctx rule \<and>
    lowered_ok (md_destination metadata)
      (snd (matches_rule rule (prepare_rule mk rule) metadata ctx lowered))"
proof (cases "tr_kind rule")
  case Rk_destination_ip_cidr
  then show ?thesis
    using assms cidr_rule_applies [of mk "tr_value rule" "cidr_candidates metadata ctx"]
    by (simp add: matches_rule_def prepare_rule_def rule_applies_def Let_def)
next
  case Rk_network
  then show ?thesis
    using assms by (cases "md_network metadata") (auto simp: matches_rule_def rule_applies_def)
qed (use assms in \<open>auto simp: matches_rule_def prepare_rule_def rule_applies_def Let_def
      domain_matches_def lowered_ok_def suffix_matches_iff str_contains_iff\<close>)

section \<open>Evaluation is the first deciding rule\<close>

definition asks_for_address :: "connection_metadata \<Rightarrow> routing_context \<Rightarrow> traffic_rule \<Rightarrow> bool" where
  "asks_for_address metadata ctx rule \<longleftrightarrow>
     lacks_address metadata ctx rule \<and> \<not> tr_no_resolve rule \<and> rc_lookup ctx = Unrequested"

definition decides ::
  "(string \<Rightarrow> ip_address option) \<Rightarrow> connection_metadata \<Rightarrow> routing_context \<Rightarrow> traffic_rule \<Rightarrow> bool" where
  "decides mk metadata ctx rule \<longleftrightarrow> asks_for_address metadata ctx rule \<or>
     (\<not> lacks_address metadata ctx rule \<and> rule_applies mk metadata ctx rule)"

definition first_deciding ::
  "(string \<Rightarrow> ip_address option) \<Rightarrow> (nat \<times> traffic_rule) list \<Rightarrow>
     connection_metadata \<times> routing_context \<Rightarrow> (nat \<times> traffic_rule) option" where
  "first_deciding mk rules q = find (\<lambda>r. decides mk (fst q) (snd q) (snd r)) rules"

definition outcome ::
  "connection_metadata \<Rightarrow> routing_context \<Rightarrow> route_action \<Rightarrow> (nat \<times> traffic_rule) option \<Rightarrow>
     rule_evaluation" where
  "outcome metadata ctx default_action r =
     (case r of
        None \<Rightarrow> Matched \<lparr>rd_action = default_action, rd_matched_rule = '''', rd_used_default = True\<rparr>
      | Some (i, rule) \<Rightarrow>
          (if lacks_address metadata ctx rule then Need_metadata Need_destination_ip i
           else Matched \<lparr>rd_action = tr_action rule, rd_matched_rule = tr_id rule,
                          rd_used_default = False\<rparr>))"

definition router_wf :: "(string \<Rightarrow> ip_address option) \<Rightarrow> traffic_router \<Rightarrow> bool" where
  "router_wf mk r \<longleftrightarrow> rt_prepared r = map (prepare_rule mk) (rt_rules r)"

interpretation router_table: rule_table
  "\<lambda>r q. decides mk (fst q) (snd q) (snd r)" "first_deciding mk" for mk
  by unfold_locales (auto simp: first_deciding_def)

lemma evaluate_from_outcome:
  "lowered_ok (md_destination metadata) lowered \<Longrightarrow>
   evaluate_from metadata ctx default_action index (map (\<lambda>r. (r, prepare_rule mk r)) rules) lowered =
     outcome metadata ctx default_action (first_deciding mk (enumerate index rules) (metadata, ctx))"
proof (induction rules arbitrary: index lowered)
  case Nil
  then show ?case by (simp add: first_deciding_def outcome_def)
next
  case (Cons rule rules)
  show ?case
  proof (cases "lacks_address metadata ctx rule")
    case True
    then show ?thesis
      using Cons.IH [OF Cons.prems]
      by (auto simp: first_deciding_def decides_def asks_for_address_def outcome_def)
  next
    case False
    obtain b l where m: "matches_rule rule (prepare_rule mk rule) metadata ctx lowered = (b, l)"
      by (rule prod.exhaust)
    have "b = rule_applies mk metadata ctx rule" "lowered_ok (md_destination metadata) l"
      using matches_rule_applies [OF Cons.prems, where rule = rule and mk = mk and ctx = ctx] m
      by auto
    then show ?thesis
      using False m Cons.IH [of l "Suc index"]
      by (cases b) (auto simp: first_deciding_def decides_def asks_for_address_def outcome_def)
  qed
qed

lemma evaluate_outcome:
  assumes "router_wf mk r"
  shows "evaluate r metadata ctx start =
    outcome metadata ctx (rt_default_action r)
      (first_deciding mk (drop start (enumerate 0 (rt_rules r))) (metadata, ctx))"
proof -
  have "drop start (zip (rt_rules r) (rt_prepared r)) =
      map (\<lambda>r. (r, prepare_rule mk r)) (drop start (rt_rules r))"
    using assms by (simp add: router_wf_def zip_map2 zip_same_conv_map drop_map)
  moreover have "drop start (enumerate 0 (rt_rules r)) = enumerate start (drop start (rt_rules r))"
    by (cases "start \<le> length (rt_rules r)") (simp_all add: enumerate_eq_zip drop_zip)
  ultimately show ?thesis
    by (simp add: evaluate_def evaluate_from_outcome lowered_ok_def)
qed

lemma router_wf_new [simp, intro]: "router_wf mk (new_router a)"
  by (simp add: router_wf_def new_router_def)

lemma router_wf_set_default [intro]: "router_wf mk r \<Longrightarrow> router_wf mk (set_default_action a r)"
  by (simp add: router_wf_def set_default_action_def)

lemma router_wf_add_rule [intro]: "router_wf mk r \<Longrightarrow> router_wf mk (add_rule mk rule r)"
  by (simp add: router_wf_def add_rule_def)

text \<open>A router is built by adding rules to a new one.\<close>

definition build_router ::
  "(string \<Rightarrow> ip_address option) \<Rightarrow> route_action \<Rightarrow> traffic_rule list \<Rightarrow> traffic_router" where
  "build_router mk default_action rules = fold (add_rule mk) rules (new_router default_action)"

lemma build_router_fields:
  "router_wf mk (build_router mk d rules) \<and> rt_rules (build_router mk d rules) = rules \<and>
   rt_default_action (build_router mk d rules) = d"
proof (induction rules rule: rev_induct)
  case Nil
  then show ?case by (simp add: build_router_def router_wf_def new_router_def)
next
  case (snoc r rs)
  then show ?case by (auto simp: build_router_def router_wf_def add_rule_def)
qed

lemma build_router_simps [simp]:
  "router_wf mk (build_router mk d rules)"
  "rt_rules (build_router mk d rules) = rules"
  "rt_default_action (build_router mk d rules) = d"
  using build_router_fields by blast+

lemma validate_rules_iff:
  "validate_rules ids rules = Inr () \<longleftrightarrow> (\<forall>r\<in>set rules. validate_action ids (tr_action r) = Inr ())"
  by (induction rules) (auto split: sum.splits)

lemma validate_iff:
  "validate r ids = Inr () \<longleftrightarrow>
     (\<forall>a\<in>insert (rt_default_action r) (tr_action ` set (rt_rules r)).
        ra_kind a = Act_named \<longrightarrow> ra_target a \<noteq> '''' \<and> ra_target a \<in> set ids)"
  by (auto simp: validate_def validate_rules_iff validate_action_def split: sum.splits if_splits)

lemma first_deciding_Some:
  assumes "first_deciding mk (drop start (enumerate 0 rules)) (metadata, ctx) = Some (i, rule)"
  shows "start \<le> i \<and> i < length rules \<and> rule = rules ! i \<and> decides mk metadata ctx rule \<and>
    (\<forall>j. start \<le> j \<longrightarrow> j < i \<longrightarrow> \<not> decides mk metadata ctx (rules ! j))"
proof -
  obtain before after where split: "drop start (enumerate 0 rules) = before @ (i, rule) # after"
    and d: "decides mk metadata ctx rule"
    and b: "\<forall>r\<in>set before. \<not> decides mk metadata ctx (snd r)"
    using assms by (auto simp: router_table.pick_Some)
  define k where "k = length before"
  have k: "k < length (drop start (enumerate 0 rules))"
    and at: "drop start (enumerate 0 rules) ! k = (i, rule)"
    and pre: "\<And>j. j < k \<Longrightarrow> drop start (enumerate 0 rules) ! j \<in> set before"
    unfolding split by (auto simp: k_def nth_append)
  have nth: "drop start (enumerate 0 rules) ! j = (start + j, rules ! (start + j))"
    if "start + j < length rules" for j
    using that by (simp add: nth_enumerate_eq)
  have ik: "i = start + k" "rule = rules ! i" "i < length rules"
    using k at nth [of k] by auto
  have "\<not> decides mk metadata ctx (rules ! j)" if "start \<le> j" "j < i" for j
  proof -
    have "start + (j - start) < length rules" "j - start < k" using that ik by auto
    with b pre [of "j - start"] nth [of "j - start"] that show ?thesis by auto
  qed
  with ik d show ?thesis by auto
qed

lemma first_deciding_None:
  "first_deciding mk (drop start (enumerate 0 rules)) (metadata, ctx) = None \<longleftrightarrow>
     (\<forall>j. start \<le> j \<longrightarrow> j < length rules \<longrightarrow> \<not> decides mk metadata ctx (rules ! j))"
proof -
  have "set (drop start (enumerate 0 rules)) =
      {(j, rules ! j) | j. start \<le> j \<and> j < length rules}"
  proof (intro equalityI subsetI)
    fix x assume "x \<in> set (drop start (enumerate 0 rules))"
    then obtain k where "k < length rules - start" "x = drop start (enumerate 0 rules) ! k"
      by (auto simp: in_set_conv_nth)
    then show "x \<in> {(j, rules ! j) | j. start \<le> j \<and> j < length rules}"
      by (auto simp: nth_enumerate_eq)
  next
    fix x assume "x \<in> {(j, rules ! j) | j. start \<le> j \<and> j < length rules}"
    then obtain j where j: "x = (j, rules ! j)" "start \<le> j" "j < length rules" by auto
    then have "drop start (enumerate 0 rules) ! (j - start) = x"
      by (simp add: nth_enumerate_eq)
    with j show "x \<in> set (drop start (enumerate 0 rules))"
      by (metis diff_less_mono length_drop length_enumerate nth_mem)
  qed
  then show ?thesis
    by (auto simp: router_table.pick_None)
qed

section \<open>Properties\<close>

text \<open>What evaluation comes to once no address can be asked for, and on a validated router.\<close>

lemma evaluate_settled:
  assumes "router_wf mk r" and "rc_lookup ctx \<noteq> Unrequested"
  shows "\<exists>d. evaluate r metadata ctx start = Matched d"
proof (cases "first_deciding mk (drop start (enumerate 0 (rt_rules r))) (metadata, ctx)")
  case None
  then show ?thesis by (simp add: evaluate_outcome [OF assms(1)] outcome_def)
next
  case (Some ir)
  with first_deciding_Some [of mk start "rt_rules r" metadata ctx "fst ir" "snd ir"] assms(2)
  have "\<not> lacks_address metadata ctx (snd ir)"
    by (auto simp: decides_def asks_for_address_def)
  with Some show ?thesis
    by (cases ir) (simp add: evaluate_outcome [OF assms(1)] outcome_def)
qed

lemma need_metadata_asks:
  assumes "router_wf mk r" and "evaluate r metadata ctx start = Need_metadata need i"
  shows "need = Need_destination_ip \<and> is_domain (md_destination metadata)"
proof -
  from assms(2) [unfolded evaluate_outcome [OF assms(1)]] obtain rule where
    "need = Need_destination_ip" "lacks_address metadata ctx rule"
    by (auto simp: outcome_def split: option.splits if_splits)
  then show ?thesis by (simp add: lacks_address_def)
qed

lemma evaluate_not_No_match: "router_wf mk r \<Longrightarrow> evaluate r metadata ctx start \<noteq> No_match"
  by (auto simp: evaluate_outcome outcome_def split: option.splits)

lemma validated_action:
  assumes "router_wf mk r" and "validate r ids = Inr ()"
    and "evaluate r metadata ctx start = Matched d" and "ra_kind (rd_action d) = Act_named"
  shows "ra_target (rd_action d) \<in> set ids \<and> ra_target (rd_action d) \<noteq> ''''"
proof -
  have e: "outcome metadata ctx (rt_default_action r)
      (first_deciding mk (drop start (enumerate 0 (rt_rules r))) (metadata, ctx)) = Matched d"
    using assms(3) evaluate_outcome [OF assms(1)] by simp
  have "rd_action d \<in> insert (rt_default_action r) (tr_action ` set (rt_rules r))"
  proof (cases "first_deciding mk (drop start (enumerate 0 (rt_rules r))) (metadata, ctx)")
    case None
    with e show ?thesis by (auto simp: outcome_def)
  next
    case (Some ir)
    with first_deciding_Some [of mk start "rt_rules r" metadata ctx "fst ir" "snd ir"] e show ?thesis
      by (auto simp: outcome_def split: if_splits prod.splits)
  qed
  with assms(2,4) show ?thesis by (auto simp: validate_iff)
qed

text \<open>
  C1: The optimised evaluation (rules prepared when added, networks compared byte by byte, the
  domain folded once) decides exactly as the first rule, from the cursor on, that applies in the
  reference reading or needs an address.
\<close>

theorem evaluate_first_match:
  "evaluate (build_router mk default_action rules) metadata ctx start =
     outcome metadata ctx default_action
       (first_deciding mk (drop start (enumerate 0 rules)) (metadata, ctx))"
  using evaluate_outcome [OF build_router_simps(1)] by simp

text \<open>
  Metadata is requested only for the destination address of a domain whose lookup was never
  tried, by a CIDR rule at or behind the cursor that is not marked no-resolve.
\<close>

theorem need_metadata_sound:
  assumes "evaluate (build_router mk default_action rules) metadata ctx start = Need_metadata need i"
  shows "need = Need_destination_ip \<and> start \<le> i \<and> i < length rules \<and>
    tr_kind (rules ! i) = Rk_destination_ip_cidr \<and> \<not> tr_no_resolve (rules ! i) \<and>
    rc_lookup ctx = Unrequested \<and> is_domain (md_destination metadata) \<and>
    rc_address ctx = None \<and> rc_addresses ctx = []"
proof -
  have e: "outcome metadata ctx default_action
      (first_deciding mk (drop start (enumerate 0 rules)) (metadata, ctx)) = Need_metadata need i"
    using assms evaluate_outcome [OF build_router_simps(1)] by simp
  then obtain rule where
    "first_deciding mk (drop start (enumerate 0 rules)) (metadata, ctx) = Some (i, rule)"
    and l: "lacks_address metadata ctx rule" and n: "need = Need_destination_ip"
    by (auto simp: outcome_def split: option.splits if_splits)
  from first_deciding_Some [OF this(1)] l n show ?thesis
    by (auto simp: decides_def asks_for_address_def lacks_address_def)
qed

lemma rule_applies_context:
  "tr_kind rule \<noteq> Rk_destination_ip_cidr \<Longrightarrow>
     rule_applies mk metadata ctx rule = rule_applies mk metadata ctx' rule"
  by (cases "tr_kind rule") (simp_all add: rule_applies_def)

lemma decides_after_lookup:
  assumes "asks_for_address metadata ctx r" "\<not> decides mk metadata ctx rule"
    "\<not> (tr_kind rule = Rk_destination_ip_cidr \<and> tr_no_resolve rule)" "rc_lookup ctx' \<noteq> Unrequested"
  shows "\<not> decides mk metadata ctx' rule"
  using assms rule_applies_context [of rule mk metadata ctx ctx']
  by (auto simp: decides_def asks_for_address_def lacks_address_def)

text \<open>
  Continuing at the rule that asked for the address, with the recorded outcome of the lookup,
  gives the same decision as starting over, as long as no no-resolve CIDR rule stands before it.
\<close>

theorem evaluate_resume:
  assumes ask: "evaluate (build_router mk default_action rules) metadata ctx 0 = Need_metadata need i"
    and tried: "rc_lookup ctx' \<noteq> Unrequested"
    and before: "\<forall>j<i. \<not> (tr_kind (rules ! j) = Rk_destination_ip_cidr \<and> tr_no_resolve (rules ! j))"
  shows "evaluate (build_router mk default_action rules) metadata ctx' i =
    evaluate (build_router mk default_action rules) metadata ctx' 0"
proof -
  have "outcome metadata ctx default_action
      (first_deciding mk (drop 0 (enumerate 0 rules)) (metadata, ctx)) = Need_metadata need i"
    using ask evaluate_outcome [OF build_router_simps(1)] by simp
  then obtain rule where f: "first_deciding mk (drop 0 (enumerate 0 rules)) (metadata, ctx) = Some (i, rule)"
    and l: "lacks_address metadata ctx rule"
    by (auto simp: outcome_def split: option.splits if_splits)
  note at = first_deciding_Some [OF f]
  then have a: "asks_for_address metadata ctx rule"
    using l by (auto simp: decides_def)
  have none: "\<not> decides mk metadata ctx' (rules ! j)" if "j < i" for j
    using decides_after_lookup [OF a _ _ tried] at before that by auto
  have "first_deciding mk (take i (enumerate 0 rules)) (metadata, ctx') = None"
    using none at by (auto simp: router_table.pick_None in_set_conv_nth nth_enumerate_eq)
  then have "first_deciding mk (take i (enumerate 0 rules) @ drop i (enumerate 0 rules)) (metadata, ctx')
      = first_deciding mk (drop i (enumerate 0 rules)) (metadata, ctx')"
    by (simp only: router_table.pick_append option.case)
  then show ?thesis
    by (simp add: evaluate_outcome [OF build_router_simps(1)])
qed

text \<open>
  A router that validates against a set of outbound identifiers only ever decides for a
  direct or reject action, or for a named outbound of that set.
\<close>

theorem validated_decisions_resolvable:
  assumes "validate (build_router mk default_action rules) ids = Inr ()"
    and "evaluate (build_router mk default_action rules) metadata ctx start = Matched d"
    and "ra_kind (rd_action d) = Act_named"
  shows "ra_target (rd_action d) \<in> set ids \<and> ra_target (rd_action d) \<noteq> ''''"
  using assms by (rule validated_action [OF build_router_simps(1)])

section \<open>Witnesses\<close>

text \<open>
  A table of three rules: a domain suffix, a network, a port range, for a connection to
  \<^verbatim>\<open>www.Example.com:443\<close>.
\<close>

definition sample_make_address :: "string \<Rightarrow> ip_address option" where
  "sample_make_address s = (if s = ''10.0.0.0'' then Some (V4 0x0A000000) else None)"

definition sample_rules :: "traffic_rule list" where
  "sample_rules =
    [\<lparr>tr_id = ''s'', tr_kind = Rk_domain_suffix, tr_value = ''example.org'', tr_port_from = 0,
      tr_port_to = 0, tr_no_resolve = False, tr_action = action_reject\<rparr>,
     \<lparr>tr_id = ''c'', tr_kind = Rk_destination_ip_cidr, tr_value = ''10.0.0.0/8'', tr_port_from = 0,
      tr_port_to = 0, tr_no_resolve = False, tr_action = action_named ''vpn''\<rparr>,
     \<lparr>tr_id = ''p'', tr_kind = Rk_destination_port, tr_value = '''', tr_port_from = 443,
      tr_port_to = 0, tr_no_resolve = False, tr_action = action_named ''web''\<rparr>]"

definition sample_metadata :: connection_metadata where
  "sample_metadata = \<lparr>md_network = Tcp, md_source = None,
     md_destination = Domain ''www.Example.com'' 443, md_inbound_name = ''socks5'',
     md_inbound_type = ''socks5'', md_authenticated_user = None, md_sniffed_host = None\<rparr>"

definition sample_context :: routing_context where
  "sample_context = \<lparr>rc_lookup = Unrequested, rc_address = None, rc_addresses = []\<rparr>"

definition sample_resolved :: routing_context where
  "sample_resolved = \<lparr>rc_lookup = Resolved, rc_address = Some (V4 0x0A010203),
     rc_addresses = [V4 0x0A010203]\<rparr>"

lemma sample_asks:
  "evaluate (build_router sample_make_address action_direct sample_rules) sample_metadata
     sample_context 0 = Need_metadata Need_destination_ip 1"
  by code_simp

lemma sample_matches:
  "evaluate (build_router sample_make_address action_direct sample_rules) sample_metadata
     sample_resolved 1 =
   Matched \<lparr>rd_action = action_named ''vpn'', rd_matched_rule = ''c'', rd_used_default = False\<rparr>"
  by code_simp

theorem need_metadata_sound_witness:
  "tr_kind (sample_rules ! 1) = Rk_destination_ip_cidr \<and> (1::nat) < length sample_rules"
  using need_metadata_sound [OF sample_asks] by simp

theorem evaluate_resume_witness:
  "evaluate (build_router sample_make_address action_direct sample_rules) sample_metadata
     sample_resolved 0 =
   Matched \<lparr>rd_action = action_named ''vpn'', rd_matched_rule = ''c'', rd_used_default = False\<rparr>"
proof -
  have "rc_lookup sample_resolved \<noteq> Unrequested" by (simp add: sample_resolved_def)
  moreover have "\<forall>j<1. \<not> (tr_kind (sample_rules ! j) = Rk_destination_ip_cidr
      \<and> tr_no_resolve (sample_rules ! j))"
    by (simp add: sample_rules_def)
  ultimately show ?thesis
    using evaluate_resume [OF sample_asks] sample_matches by simp
qed

theorem validated_decisions_resolvable_witness:
  "evaluate (build_router sample_make_address action_direct sample_rules) sample_metadata
     sample_resolved 1 =
   Matched \<lparr>rd_action = action_named ''vpn'', rd_matched_rule = ''c'', rd_used_default = False\<rparr>
   \<and> ra_target (action_named ''vpn'') \<in> set [''web'', ''vpn'']"
proof -
  have "validate (build_router sample_make_address action_direct sample_rules) [''web'', ''vpn''] =
      Inr ()"
    by code_simp
  from validated_decisions_resolvable [OF this sample_matches] sample_matches
  show ?thesis by (simp add: action_named_def)
qed

end
