(* ===== verification/Proxy_Address.thy ===== *)
theory Proxy_Address
  imports Core_Types
begin

text \<open>
  The SOCKS address format of \<^verbatim>\<open>src/outbound/proxy_address.hpp\<close>, which SOCKS5 UDP frames, the
  Trojan and the Shadowsocks outbounds all put in front of their payloads: a type byte, the
  address or a length-prefixed domain, the port in network order.  The interface the framing
  layers rely on is the locale \<open>framed_codec\<close>; \<open>proxy_codec\<close> is its interpretation.
\<close>

section \<open>Ports\<close>

text \<open>\<^verbatim>\<open>push_back(value >> 8); push_back(value & 0xff)\<close> and its inverse.\<close>

definition port_bytes :: "u16 \<Rightarrow> bytes" where
  "port_bytes p = [ucast (drop_bit 8 p), ucast (p AND 0xff)]"

definition port_of :: "byte \<Rightarrow> byte \<Rightarrow> u16" where
  "port_of hi lo = push_bit 8 (ucast hi) OR ucast lo"

lemma port_bytes_be: "port_bytes p = be_bytes 2 p"
  by (simp add: port_bytes_def numeral_2_eq_2 be_bytes_Suc)

lemma port_of_be: "port_of hi lo = be_word [hi, lo]"
  by (simp add: port_of_def be_word_def)

lemma length_port_bytes [simp]: "length (port_bytes p) = 2"
  by (simp add: port_bytes_def)

lemma port_of_port_bytes [simp, wire_simps]:
  "port_of (port_bytes p ! 0) (port_bytes p ! Suc 0) = p"
proof -
  have "port_of (port_bytes p ! 0) (port_bytes p ! Suc 0) = be_word (port_bytes p)"
    by (simp add: port_of_be port_bytes_def)
  then show ?thesis by (simp add: port_bytes_be be_word_be_bytes)
qed

lemma port_bytes_port_of [simp, wire_simps]: "port_bytes (port_of hi lo) = [hi, lo]"
  using be_bytes_be_word [of "[hi, lo]", where 'a = 16]
  by (simp add: port_bytes_be port_of_be numeral_2_eq_2)

section \<open>Encoding and decoding\<close>

definition to_core_destination :: "destination \<Rightarrow> destination" where
  "to_core_destination d =
     (if is_domain d then Domain (dest_domain d) (port d) else Address (dest_address d) (port d))"

lemma to_core_destination_id [simp]: "to_core_destination d = d"
  by (cases d) (simp_all add: to_core_destination_def)

definition encode_proxy_address :: "destination \<Rightarrow> bytes res" where
  "encode_proxy_address d =
     (case d of
        Address a p \<Rightarrow>
          (if is_v4 a then Inr ([0x01] @ address_bytes a @ port_bytes p)
           else Inr ([0x04] @ address_bytes a @ port_bytes p))
      | Domain name p \<Rightarrow>
          (if name = [] \<or> length name > 255
           then Inl (mk_error Protocol_framing ''proxy protocol domain name length is invalid'')
           else Inr ([0x03, word_of_nat (length name)] @ bytes_of_string name @ port_bytes p)))"

record decoded_address =
  da_destination :: destination
  da_size :: nat

definition decode_proxy_address :: "bytes \<Rightarrow> nat \<Rightarrow> decoded_address res" where
  "decode_proxy_address bs start =
     (if start \<ge> length bs
      then Inl (mk_error Protocol_framing ''proxy protocol address is truncated'')
      else
        let type = bs ! start; off = start + 1 in
        if type = 0x01 then
          (if length bs - off < 4 + 2
           then Inl (mk_error Protocol_framing ''IPv4 proxy protocol address is truncated'')
           else Inr \<lparr>da_destination = Address (v4_from_bytes (take 4 (drop off bs)))
                       (port_of (bs ! (off + 4)) (bs ! (off + 5))), da_size = 1 + 4 + 2\<rparr>)
        else if type = 0x04 then
          (if length bs - off < 16 + 2
           then Inl (mk_error Protocol_framing ''IPv6 proxy protocol address is truncated'')
           else Inr \<lparr>da_destination = Address (v6_from_bytes (take 16 (drop off bs)))
                       (port_of (bs ! (off + 16)) (bs ! (off + 17))), da_size = 1 + 16 + 2\<rparr>)
        else if type = 0x03 then
          (if length bs - off < 1
           then Inl (mk_error Protocol_framing ''domain proxy protocol address is truncated'')
           else
             let domain_size = unat (bs ! off); off = off + 1 in
             if domain_size = 0 \<or> length bs - off < domain_size + 2
             then Inl (mk_error Protocol_framing
                    ''domain proxy protocol address has an invalid length'')
             else
               let port_offset = off + domain_size in
               Inr \<lparr>da_destination = Domain (string_of_bytes (take domain_size (drop off bs)))
                      (port_of (bs ! port_offset) (bs ! (port_offset + 1))),
                    da_size = 1 + 1 + domain_size + 2\<rparr>)
        else Inl (mk_error Protocol_framing ''unsupported proxy protocol address type''))"

text \<open>
  What the wire can carry back: every destination but one with an IPv6 scope identifier.
\<close>

fun wire_destination :: "destination \<Rightarrow> bool" where
  "wire_destination (Domain _ _) = True"
| "wire_destination (Address a _) = unscoped a"

lemma decode_encode_at:
  assumes "encode_proxy_address d = Inr bs" and "wire_destination d"
  shows "decode_proxy_address (pre @ bs @ post) (length pre) =
    Inr \<lparr>da_destination = d, da_size = length bs\<rparr>"
proof (cases d)
  case (Domain name p)
  with assms have name: "name \<noteq> []" "length name \<le> 255"
    and bs: "bs = [0x03, word_of_nat (length name)] @ bytes_of_string name @ port_bytes p"
    by (auto simp: encode_proxy_address_def split: if_splits)
  have len: "unat (word_of_nat (length name) :: byte) = length name"
    using name(2) by (simp add: unat_of_nat)
  show ?thesis
    using name(1) Domain
    by (simp add: decode_proxy_address_def bs len nth_append)
next
  case (Address a p)
  show ?thesis
  proof (cases a)
    case (V4 w)
    with assms Address have bs: "bs = [0x01] @ be_bytes 4 w @ port_bytes p"
      by (auto simp: encode_proxy_address_def)
    show ?thesis
      using Address V4 by (simp add: decode_proxy_address_def bs nth_append wire_simps)
  next
    case (V6 w s)
    with assms Address have bs: "bs = [0x04] @ be_bytes 16 w @ port_bytes p" and "s = 0"
      by (auto simp: encode_proxy_address_def)
    then show ?thesis
      using Address V6 by (simp add: decode_proxy_address_def bs nth_append wire_simps)
  qed
qed

lemma slice_record:
  assumes "k + m + n + 2 \<le> length bs"
  shows "take (m + n + 2) (drop k bs) =
    take m (drop k bs) @ take n (drop (k + m) bs) @ [bs ! (k + m + n), bs ! (k + m + n + 1)]"
  using assms by (simp only: take_drop_split add.assoc take2_drop)

lemma encode_decode_at:
  assumes "decode_proxy_address bs k = Inr da"
  shows "k + da_size da \<le> length bs \<and>
    encode_proxy_address (da_destination da) = Inr (take (da_size da) (drop k bs)) \<and>
    wire_destination (da_destination da)"
proof -
  have k: "k < length bs"
    using assms by (auto simp: decode_proxy_address_def split: if_splits)
  have "bs ! k = 1 \<or> bs ! k = 4 \<or> bs ! k = 3"
    using assms by (auto simp: decode_proxy_address_def Let_def split: if_splits)
  then show ?thesis
  proof (elim disjE)
    assume ty: "bs ! k = 1"
    with assms have len: "k + 7 \<le> length bs"
      and da: "da = \<lparr>da_destination = Address (v4_from_bytes (take 4 (drop (k + 1) bs)))
                (port_of (bs ! (k + 1 + 4)) (bs ! (k + 1 + 5))), da_size = 7\<rparr>"
      by (auto simp: decode_proxy_address_def Let_def split: if_splits)
    show ?thesis
      using slice_record [of k 1 4 bs] take1_drop [OF k] len ty
      by (simp add: encode_proxy_address_def da wire_simps)
  next
    assume ty: "bs ! k = 4"
    with assms have len: "k + 19 \<le> length bs"
      and da: "da = \<lparr>da_destination = Address (v6_from_bytes (take 16 (drop (k + 1) bs)))
                (port_of (bs ! (k + 1 + 16)) (bs ! (k + 1 + 17))), da_size = 19\<rparr>"
      by (auto simp: decode_proxy_address_def Let_def split: if_splits)
    show ?thesis
      using slice_record [of k 1 16 bs] take1_drop [OF k] len ty
      by (simp add: encode_proxy_address_def da wire_simps)
  next
    assume ty: "bs ! k = 3"
    define n where "n = unat (bs ! (k + 1))"
    from ty assms have len: "0 < n" "k + 2 + n + 2 \<le> length bs"
      and da: "da = \<lparr>da_destination = Domain (string_of_bytes (take n (drop (k + 1 + 1) bs)))
                (port_of (bs ! (k + 1 + 1 + n)) (bs ! (k + 1 + 1 + n + 1))), da_size = 2 + n + 2\<rparr>"
      by (auto simp: decode_proxy_address_def Let_def n_def split: if_splits)
    show ?thesis
      using slice_record [of k 2 n bs] take2_drop [of k bs] len ty
      by (simp add: encode_proxy_address_def da wire_simps n_def not_less)
  qed
qed

section \<open>The interface of an address codec\<close>

text \<open>
  What a framing layer relies on: reading back, at any offset and whatever follows, what was
  written, and having read exactly the bytes the value is written as.
\<close>

locale framed_codec =
  fixes enc :: "'a \<Rightarrow> ('e, bytes) result"
    and dec :: "bytes \<Rightarrow> nat \<Rightarrow> ('e, 'd) result"
    and payload_value :: "'d \<Rightarrow> 'a"
    and consumed :: "'d \<Rightarrow> nat"
    and wire_ok :: "'a \<Rightarrow> bool"
  assumes dec_enc: "enc a = Inr bs \<Longrightarrow> wire_ok a \<Longrightarrow>
      \<exists>d. dec (pre @ bs @ post) (length pre) = Inr d \<and> payload_value d = a \<and> consumed d = length bs"
    and enc_dec: "dec bs k = Inr d \<Longrightarrow>
      k + consumed d \<le> length bs \<and> wire_ok (payload_value d) \<and>
      enc (payload_value d) = Inr (take (consumed d) (drop k bs))"
begin

lemma enc_inj:
  assumes "enc a = Inr bs" "enc b = Inr bs" "wire_ok a" "wire_ok b"
  shows "a = b"
  using dec_enc [OF assms(1,3), of "[]" "[]"] dec_enc [OF assms(2,4), of "[]" "[]"] by auto

text \<open>No encoding is a proper prefix of another, so addresses can be concatenated.\<close>

lemma prefix_free:
  assumes "enc a = Inr bs" "enc b = Inr cs" "wire_ok a" "wire_ok b" "bs @ xs = cs @ ys"
  shows "a = b \<and> bs = cs \<and> xs = ys"
proof -
  have "a = b"
    using dec_enc [OF assms(1,3), of "[]" xs] dec_enc [OF assms(2,4), of "[]" ys] assms(5) by auto
  with assms show ?thesis by auto
qed

text \<open>The frame layout \<open>header, address, payload\<close> is parsed back into its three parts.\<close>

lemma frame_parts:
  assumes "enc a = Inr bs" "wire_ok a"
  obtains d where "dec (hdr @ bs @ body) (length hdr) = Inr d" "payload_value d = a"
    "drop (length hdr + consumed d) (hdr @ bs @ body) = body"
  using dec_enc [OF assms, of hdr body] by auto

lemma dec_consumed_bound: "dec bs k = Inr d \<Longrightarrow> k + consumed d \<le> length bs"
  by (simp add: enc_dec)

lemma dec_local:
  assumes "dec bs k = Inr d"
  shows "\<exists>d'. dec (take (k + consumed d) bs @ rest) k = Inr d' \<and> payload_value d' = payload_value d
    \<and> consumed d' = consumed d"
proof -
  have e: "enc (payload_value d) = Inr (take (consumed d) (drop k bs))" "wire_ok (payload_value d)"
    and len: "k + consumed d \<le> length bs"
    using enc_dec [OF assms] by auto
  have "take (k + consumed d) bs @ rest = take k bs @ take (consumed d) (drop k bs) @ rest"
    by (simp add: take_add)
  moreover have "length (take k bs) = k" "length (take (consumed d) (drop k bs)) = consumed d"
    using len by auto
  ultimately show ?thesis
    using dec_enc [OF e, of "take k bs" rest] by simp
qed

end

interpretation proxy_codec: framed_codec encode_proxy_address decode_proxy_address
  da_destination da_size wire_destination
proof unfold_locales
  fix a bs pre post
  assume "encode_proxy_address a = Inr bs" "wire_destination a"
  then show "\<exists>d. decode_proxy_address (pre @ bs @ post) (length pre) = Inr d
      \<and> da_destination d = a \<and> da_size d = length bs"
    by (simp add: decode_encode_at)
next
  fix bs k d
  assume "decode_proxy_address bs k = Inr d"
  then show "k + da_size d \<le> length bs \<and> wire_destination (da_destination d) \<and>
      encode_proxy_address (da_destination d) = Inr (take (da_size d) (drop k bs))"
    using encode_decode_at by blast
qed

section \<open>Properties\<close>

text \<open>
  C2: Every destination the wire format can carry is read back at any offset of a buffer, whatever
  surrounds it, and the reported size is exactly what the encoder wrote.
\<close>

theorem decode_encode_proxy_address:
  assumes "encode_proxy_address d = Inr bs" and "wire_destination d"
  shows "\<exists>da. decode_proxy_address (pre @ bs @ post) (length pre) = Inr da \<and>
    da_destination da = d \<and> da_size da = length bs"
  by (rule proxy_codec.dec_enc [OF assms])

text \<open>
  Whatever the decoder accepts lies inside the buffer, and encoding the decoded destination
  gives back exactly the bytes it consumed: the decoder accepts no second spelling of an address.
\<close>

theorem encode_decode_proxy_address:
  assumes "decode_proxy_address bs k = Inr da"
  shows "k + da_size da \<le> length bs \<and>
    encode_proxy_address (da_destination da) = Inr (take (da_size da) (drop k bs))"
  using proxy_codec.enc_dec [OF assms] by simp

text \<open>
  Address encodings are prefix free: if two encoded destinations, each followed by some bytes,
  give the same byte string, then the destinations and the bytes behind them agree.
\<close>

theorem proxy_address_prefix_free:
  assumes "encode_proxy_address a = Inr bs" "encode_proxy_address b = Inr cs"
    and "wire_destination a" "wire_destination b" and "bs @ xs = cs @ ys"
  shows "a = b \<and> bs = cs \<and> xs = ys"
  by (rule proxy_codec.prefix_free [OF assms])

section \<open>Witnesses\<close>

lemma encode_sample:
  "encode_proxy_address (Domain ''a.b'' 443) = Inr [3, 3, 97, 46, 98, 1, 187]"
  by code_simp

theorem decode_encode_proxy_address_witness:
  "\<exists>da. decode_proxy_address [0, 0, 0, 3, 3, 97, 46, 98, 1, 187, 9] 3 = Inr da \<and>
     da_destination da = Domain ''a.b'' 443 \<and> da_size da = 7"
  using decode_encode_proxy_address [OF encode_sample, of "[0, 0, 0]" "[9]"]
  by (simp add: eval_nat_numeral)

theorem encode_decode_proxy_address_witness:
  "decode_proxy_address [1, 10, 0, 0, 1, 0, 80, 7] 0 =
     Inr \<lparr>da_destination = Address (V4 0x0A000001) 80, da_size = 7\<rparr> \<and>
   encode_proxy_address (Address (V4 0x0A000001) 80) = Inr [1, 10, 0, 0, 1, 0, 80]"
proof -
  have d: "decode_proxy_address [1, 10, 0, 0, 1, 0, 80, 7] 0 =
     Inr \<lparr>da_destination = Address (V4 0x0A000001) 80, da_size = 7\<rparr>"
    by code_simp
  from encode_decode_proxy_address [OF d] d show ?thesis by simp
qed

theorem proxy_address_prefix_free_witness:
  "Domain ''a.b'' 443 = Domain ''a.b'' 443 \<and> [9 :: byte] = [9]"
  using proxy_address_prefix_free [OF encode_sample encode_sample, of "[9]" "[9]"] by simp

end
