(* ===== verification/Unordered_Map.thy ===== *)
theory Unordered_Map
  imports Prelude
begin

text \<open>
  \<^verbatim>\<open>std::unordered_map\<close> as an association list with distinct keys: the list order stands for
  the container's unspecified iteration order. The locale \<open>finite_map\<close> is the interface the
  components use; \<open>um\<close> is its interpretation on the list model.
\<close>

type_synonym ('k, 'v) umap = "('k \<times> 'v) list"

definition um_invar :: "('k, 'v) umap \<Rightarrow> bool" where
  "um_invar m \<longleftrightarrow> distinct (map fst m)"

text \<open>\<^verbatim>\<open>find\<close>, \<^verbatim>\<open>contains\<close>, \<^verbatim>\<open>operator[] =\<close> (overwrites), \<^verbatim>\<open>emplace\<close> (keeps what is there), \<^verbatim>\<open>erase\<close>.\<close>

definition um_find :: "('k, 'v) umap \<Rightarrow> 'k \<Rightarrow> 'v option" where
  "um_find m k = map_of m k"

definition um_contains :: "('k, 'v) umap \<Rightarrow> 'k \<Rightarrow> bool" where
  "um_contains m k \<longleftrightarrow> um_find m k \<noteq> None"

fun um_assign :: "'k \<Rightarrow> 'v \<Rightarrow> ('k, 'v) umap \<Rightarrow> ('k, 'v) umap" where
  "um_assign k v [] = [(k, v)]"
| "um_assign k v ((k', v') # m) = (if k = k' then (k, v) # m else (k', v') # um_assign k v m)"

definition um_emplace :: "'k \<Rightarrow> 'v \<Rightarrow> ('k, 'v) umap \<Rightarrow> ('k, 'v) umap" where
  "um_emplace k v m = (if um_contains m k then m else um_assign k v m)"

definition um_erase :: "'k \<Rightarrow> ('k, 'v) umap \<Rightarrow> ('k, 'v) umap" where
  "um_erase k m = filter (\<lambda>p. fst p \<noteq> k) m"

definition um_keys :: "('k, 'v) umap \<Rightarrow> 'k list" where
  "um_keys m = map fst m"

section \<open>The interface of a finite map\<close>

locale finite_map =
  fixes empty :: "'m"
    and find :: "'m \<Rightarrow> 'k \<Rightarrow> 'v option"
    and assign :: "'k \<Rightarrow> 'v \<Rightarrow> 'm \<Rightarrow> 'm"
    and erase :: "'k \<Rightarrow> 'm \<Rightarrow> 'm"
    and count :: "'m \<Rightarrow> nat"
    and invar :: "'m \<Rightarrow> bool"
  assumes find_empty [simp]: "find empty = Map.empty"
    and find_assign [simp]: "find (assign k v m) = (find m)(k \<mapsto> v)"
    and find_erase [simp]: "find (erase k m) = (find m)(k := None)"
    and count_card: "invar m \<Longrightarrow> finite (dom (find m)) \<and> count m = card (dom (find m))"
    and invar_empty [simp]: "invar empty"
    and invar_assign [simp]: "invar m \<Longrightarrow> invar (assign k v m)"
    and invar_erase [simp]: "invar m \<Longrightarrow> invar (erase k m)"
begin

lemma count_empty: "count empty = 0"
  using count_card [OF invar_empty] by simp

lemma count_assign_new:
  "invar m \<Longrightarrow> find m k = None \<Longrightarrow> count (assign k v m) = Suc (count m)"
  using count_card [of m] count_card [of "assign k v m"] by (auto simp: card_insert_if domIff)

lemma count_assign_old:
  "invar m \<Longrightarrow> find m k \<noteq> None \<Longrightarrow> count (assign k v m) = count m"
  using count_card [of m] count_card [of "assign k v m"]
  by (auto simp: insert_absorb domIff)

lemma count_erase_present:
  "invar m \<Longrightarrow> find m k \<noteq> None \<Longrightarrow> Suc (count (erase k m)) = count m"
  using count_card [of m] count_card [of "erase k m"]
  by (auto simp: domIff card_Suc_Diff1 simp del: card_Diff_insert)

lemma count_le:
  "invar m \<Longrightarrow> finite A \<Longrightarrow> dom (find m) \<subseteq> A \<Longrightarrow> count m \<le> card A"
  using count_card [of m] by (auto intro: card_mono)

lemma count_pigeonhole:
  "invar m \<Longrightarrow> finite A \<Longrightarrow> count m < card A \<Longrightarrow> \<exists>k\<in>A. find m k = None"
proof (rule ccontr)
  assume a: "invar m" "finite A" "count m < card A" "\<not> (\<exists>k\<in>A. find m k = None)"
  then have "A \<subseteq> dom (find m)" by (auto simp: domIff)
  then have "card A \<le> count m"
    using count_card [OF a(1)] by (auto intro: card_mono)
  with a(3) show False by simp
qed

end

section \<open>The list model provides it\<close>

lemma um_find_Nil [simp]: "um_find [] = Map.empty"
  by (simp add: um_find_def fun_eq_iff)

lemma um_find_Cons: "um_find ((k, v) # m) = (um_find m)(k \<mapsto> v)"
  by (simp add: um_find_def fun_eq_iff)

lemma um_find_assign [simp]: "um_find (um_assign k v m) = (um_find m)(k \<mapsto> v)"
  by (induction k v m rule: um_assign.induct) (auto simp: um_find_Cons fun_eq_iff)

lemma um_find_erase [simp]: "um_find (um_erase k m) = (um_find m)(k := None)"
  by (induction m) (auto simp: um_find_def um_erase_def fun_eq_iff)

lemma um_find_filter:
  "um_invar m \<Longrightarrow> um_find (filter P m) k =
     (case um_find m k of Some v \<Rightarrow> if P (k, v) then Some v else None | None \<Rightarrow> None)"
  by (induction m) (auto simp: um_find_def um_invar_def map_of_eq_None_iff split: option.splits)

lemma um_contains_assign [simp]: "um_contains (um_assign k v m) k' \<longleftrightarrow> k' = k \<or> um_contains m k'"
  by (simp add: um_contains_def)

lemma um_contains_iff: "um_contains m k \<longleftrightarrow> k \<in> set (um_keys m)"
  by (simp add: um_contains_def um_find_def um_keys_def map_of_eq_None_iff)

lemma um_find_in_set: "um_invar m \<Longrightarrow> um_find m k = Some v \<longleftrightarrow> (k, v) \<in> set m"
  by (simp add: um_find_def um_invar_def)

lemma um_find_dom: "dom (um_find m) = fst ` set m"
  by (simp add: dom_def um_find_def map_of_eq_None_iff)

lemma set_keys_assign: "fst ` set (um_assign k v m) = insert k (fst ` set m)"
  by (induction k v m rule: um_assign.induct) auto

lemma um_invar_Nil [simp]: "um_invar []"
  by (simp add: um_invar_def)

lemma um_invar_assign [simp]: "um_invar m \<Longrightarrow> um_invar (um_assign k v m)"
  by (induction k v m rule: um_assign.induct) (auto simp: um_invar_def set_keys_assign)

lemma um_invar_filter [simp]: "um_invar m \<Longrightarrow> um_invar (filter P m)"
  by (induction m) (auto simp: um_invar_def)

lemma um_invar_erase [simp]: "um_invar m \<Longrightarrow> um_invar (um_erase k m)"
  by (simp add: um_erase_def)

lemma um_invar_emplace [simp]: "um_invar m \<Longrightarrow> um_invar (um_emplace k v m)"
  by (simp add: um_emplace_def)

lemma um_find_emplace:
  "um_find (um_emplace k v m) = (if um_contains m k then um_find m else (um_find m)(k \<mapsto> v))"
  by (simp add: um_emplace_def)

lemma um_keys_emplace: "set (um_keys (um_emplace k v m)) = insert k (set (um_keys m))"
  by (auto simp: um_emplace_def um_contains_iff um_keys_def set_keys_assign)

interpretation um: finite_map "[]" um_find um_assign um_erase length um_invar
proof unfold_locales
  fix m :: "('a, 'b) umap"
  assume "um_invar m"
  then show "finite (dom (um_find m)) \<and> length m = card (dom (um_find m))"
    by (metis List.finite_set distinct_card length_map set_map um_find_dom um_invar_def finite_imageI)
qed simp_all

end
