(* ===== verification/Dns_Types.thy ===== *)
theory Dns_Types
  imports Core_Types
begin

text \<open>
  The DNS data model of \<^verbatim>\<open>include/clash_native/dns/dns_types.hpp\<close> and the name normalisation
  of \<^verbatim>\<open>src/dns/dns_codec.cpp\<close> that every DNS component keys its tables by.
\<close>

section \<open>Record types\<close>

text \<open>
  \<^verbatim>\<open>enum class DnsRecordType : std::uint16_t\<close> is cast from arbitrary wire codes, so it is the
  16-bit code itself; the enumerators are constants.
\<close>

type_synonym dns_record_type = u16

abbreviation "type_a \<equiv> (1 :: dns_record_type)"
abbreviation "type_ns \<equiv> (2 :: dns_record_type)"
abbreviation "type_cname \<equiv> (5 :: dns_record_type)"
abbreviation "type_soa \<equiv> (6 :: dns_record_type)"
abbreviation "type_ptr \<equiv> (12 :: dns_record_type)"
abbreviation "type_mx \<equiv> (15 :: dns_record_type)"
abbreviation "type_txt \<equiv> (16 :: dns_record_type)"
abbreviation "type_aaaa \<equiv> (28 :: dns_record_type)"
abbreviation "type_srv \<equiv> (33 :: dns_record_type)"
abbreviation "type_opt \<equiv> (41 :: dns_record_type)"
abbreviation "type_svcb \<equiv> (64 :: dns_record_type)"
abbreviation "type_https \<equiv> (65 :: dns_record_type)"

record dns_question =
  q_name :: string
  q_type :: dns_record_type
  q_class :: u16

record dns_query =
  dq_id :: u16
  dq_question :: dns_question
  dq_recursion_desired :: bool

section \<open>Resource records\<close>

record dns_soa_data =
  soa_primary_name_server :: string
  soa_responsible_mailbox :: string
  soa_serial :: u32
  soa_refresh :: u32
  soa_retry :: u32
  soa_expire :: u32
  soa_minimum_ttl :: u32

record dns_mx_data =
  mx_preference :: u16
  mx_exchange :: string

record dns_srv_data =
  srv_priority :: u16
  srv_weight :: u16
  srv_port :: u16
  srv_target :: string

record dns_option =
  opt_code :: u16
  opt_data :: bytes

record dns_svcb_data =
  svcb_priority :: u16
  svcb_target :: string
  svcb_params :: "dns_option list"

datatype dns_field_type =
    Ipv4_address | Ipv6_address | Unsigned_8 | Unsigned_16 | Unsigned_32 | Domain_name
  | String_field | Binary | Binary_strings | Options

datatype dns_field_value =
    Fv_address ip_address | Fv_u8 byte | Fv_u16 u16 | Fv_u32 u32 | Fv_string string
  | Fv_bytes bytes | Fv_strings "bytes list" | Fv_options "dns_option list"

record dns_field =
  fd_key_code :: u32
  fd_key_name :: string
  fd_type :: dns_field_type
  fd_value :: dns_field_value

record dns_resource_record =
  rr_name :: string
  rr_type :: u16
  rr_class :: u16
  rr_ttl :: u32
  rr_rdata :: bytes
  rr_target_name :: "string option"
  rr_parsed_address :: "ip_address option"
  rr_soa :: "dns_soa_data option"
  rr_mx :: "dns_mx_data option"
  rr_txt_strings :: "bytes list"
  rr_srv :: "dns_srv_data option"
  rr_svcb :: "dns_svcb_data option"
  rr_fields :: "dns_field list"

definition default_rr :: dns_resource_record where
  "default_rr = \<lparr>rr_name = '''', rr_type = 0, rr_class = 1, rr_ttl = 0, rr_rdata = [],
     rr_target_name = None, rr_parsed_address = None, rr_soa = None, rr_mx = None,
     rr_txt_strings = [], rr_srv = None, rr_svcb = None, rr_fields = []\<rparr>"

section \<open>Packets and answers\<close>

record dns_packet =
  pk_wire :: bytes
  pk_id :: u16
  pk_flags :: u16
  pk_extended_rcode :: byte
  pk_questions :: "dns_question list"
  pk_answers :: "dns_resource_record list"
  pk_authorities :: "dns_resource_record list"
  pk_additionals :: "dns_resource_record list"

definition pk_response :: "dns_packet \<Rightarrow> bool" where
  "pk_response p \<longleftrightarrow> pk_flags p AND 0x8000 \<noteq> 0"

definition pk_truncated :: "dns_packet \<Rightarrow> bool" where
  "pk_truncated p \<longleftrightarrow> pk_flags p AND 0x0200 \<noteq> 0"

definition pk_recursion_desired :: "dns_packet \<Rightarrow> bool" where
  "pk_recursion_desired p \<longleftrightarrow> pk_flags p AND 0x0100 \<noteq> 0"

definition pk_authoritative :: "dns_packet \<Rightarrow> bool" where
  "pk_authoritative p \<longleftrightarrow> pk_flags p AND 0x0400 \<noteq> 0"

definition pk_response_code :: "dns_packet \<Rightarrow> u16" where
  "pk_response_code p =
     push_bit 4 (ucast (pk_extended_rcode p)) OR (pk_flags p AND 0x000f)"

definition default_packet :: dns_packet where
  "default_packet = \<lparr>pk_wire = [], pk_id = 0, pk_flags = 0, pk_extended_rcode = 0,
     pk_questions = [], pk_answers = [], pk_authorities = [], pk_additionals = []\<rparr>"

record dns_answer =
  an_question :: dns_question
  an_addresses :: "ip_address list"
  an_ttl :: u32
  an_response_code :: u16
  an_truncated :: bool
  an_authoritative :: bool

definition an_negative :: "dns_answer \<Rightarrow> bool" where
  "an_negative a \<longleftrightarrow> an_response_code a \<noteq> 0 \<or> an_addresses a = []"

section \<open>Names\<close>

definition normalize_name :: "string \<Rightarrow> string" where
  "normalize_name name = map to_lower (strip_suffix (\<lambda>c. c = CHR ''.'') name)"

lemma normalize_name_idem [simp]: "normalize_name (normalize_name s) = normalize_name s"
proof -
  have "strip_suffix (\<lambda>c. c = CHR ''.'') (map to_lower t) =
      map to_lower (strip_suffix (\<lambda>c. c = CHR ''.'') t)" for t
    by (rule strip_suffix_map) simp
  then show ?thesis
    by (simp add: normalize_name_def comp_def)
qed

lemma normalize_name_no_trailing_dot:
  "normalize_name s \<noteq> [] \<Longrightarrow> last (normalize_name s) \<noteq> CHR ''.''"
  using strip_suffix_last [of "\<lambda>c. c = CHR ''.''" s]
  by (auto simp: normalize_name_def last_map)

lemma normalize_name_lower: "c \<in> set (normalize_name s) \<Longrightarrow> to_lower c = c"
  by (auto simp: normalize_name_def)

lemma normalize_name_trailing_dots [simp]: "normalize_name (s @ ''.'') = normalize_name s"
  by (simp add: normalize_name_def)

lemma normalize_name_case: "map to_lower s = map to_lower t \<Longrightarrow> normalize_name s = normalize_name t"
  using strip_suffix_map [of "\<lambda>c. c = CHR ''.''" to_lower s]
    strip_suffix_map [of "\<lambda>c. c = CHR ''.''" to_lower t]
  by (simp add: normalize_name_def)

lemma length_normalize_name: "length (normalize_name s) \<le> length s"
  by (simp add: normalize_name_def strip_suffix_def length_dropWhile_le [of _ "rev s", simplified])

end
