(* ===== verification/Fake_Ip_Store.thy ===== *)
theory Fake_Ip_Store
  imports Unordered_Map Dns_Types
begin

text \<open>
  \<^verbatim>\<open>src/dns/fake_ip_store.cpp\<close>: the two-way table between domain names and the synthetic IPv4
  addresses handed out for them. Offsets and addresses are 32-bit words as in the code. A reading
  of the steady clock, in nanoseconds since its epoch, is an argument of the operation that takes
  it (\<open>now\<close>, and \<open>later\<close> for the second reading of \<open>resolve\<close>).
\<close>

section \<open>Data\<close>

record fake_entry =
  fe_address :: u32
  fe_expires :: "int option"  \<comment> \<open>\<open>None\<close> is \<^verbatim>\<open>time_point::max()\<close>\<close>

record fake_ip_store =
  fi_network :: u32
  fi_prefix :: byte
  fi_first_offset :: u32
  fi_address_count :: u32
  fi_next_offset :: u32
  fi_capacity :: nat
  fi_entry_ttl :: int  \<comment> \<open>seconds\<close>
  fi_by_domain :: "(string, fake_entry) umap"
  fi_by_address :: "(u32, string) umap"
  fi_last_purge :: int

definition default_fake_ip_store :: fake_ip_store where
  "default_fake_ip_store = \<lparr>fi_network = 0, fi_prefix = 0, fi_first_offset = 1,
     fi_address_count = 0, fi_next_offset = 1, fi_capacity = 0, fi_entry_ttl = 300,
     fi_by_domain = [], fi_by_address = [], fi_last_purge = 0\<rparr>"

definition one_second :: int where
  "one_second = 1000000000"

definition exhaustion_error :: error where
  "exhaustion_error = mk_error Unsupported ''FakeIP address pool is exhausted''"

section \<open>Operations\<close>

definition clear_store :: "fake_ip_store \<Rightarrow> fake_ip_store" where
  "clear_store s = s\<lparr>fi_by_domain := [], fi_by_address := []\<rparr>"

definition configure_store ::
  "u32 \<Rightarrow> byte \<Rightarrow> nat \<Rightarrow> int \<Rightarrow> fake_ip_store \<Rightarrow> status \<times> fake_ip_store" where
  "configure_store network prefix capacity entry_ttl s =
     (if prefix > 30 \<or> capacity = 0 \<or> entry_ttl < 0
      then (Inl (mk_error Configuration ''FakeIP requires a non-empty IPv4 pool''), s)
      else
        let total = push_bit (32 - unat prefix) (1 :: u64) in
        if capacity > unat (total - 2) \<or> capacity > 0xffffffff
        then (Inl (mk_error Configuration ''FakeIP pool capacity exceeds the network''), s)
        else
          let s = clear_store s;
              mask = (if prefix = 0 then 0 else push_bit (32 - unat prefix) (0xffffffff :: u32))
          in (Inr (), s\<lparr>fi_network := network AND mask, fi_prefix := prefix,
                fi_first_offset := 1, fi_address_count := ucast (total - 2),
                fi_next_offset := 1, fi_capacity := capacity, fi_entry_ttl := entry_ttl\<rparr>))"

definition new_fake_ip_store :: "u32 \<Rightarrow> byte \<Rightarrow> nat \<Rightarrow> int \<Rightarrow> fake_ip_store" where
  "new_fake_ip_store network prefix capacity entry_ttl =
     (case configure_store network prefix capacity entry_ttl default_fake_ip_store of
        (Inr _, s) \<Rightarrow> s
      | (Inl _, s) \<Rightarrow> s\<lparr>fi_network := 0, fi_prefix := 32, fi_first_offset := 0,
           fi_address_count := 0, fi_capacity := 0, fi_entry_ttl := 0\<rparr>)"

fun still_valid :: "int \<Rightarrow> fake_entry \<Rightarrow> bool" where
  "still_valid now e = (case fe_expires e of None \<Rightarrow> True | Some t \<Rightarrow> t > now)"

text \<open>The scan of \<^verbatim>\<open>purge_expired\<close>, over the entries in iteration order.\<close>

fun purge_scan ::
  "int \<Rightarrow> (string, fake_entry) umap \<Rightarrow> (u32, string) umap \<Rightarrow>
     (string, fake_entry) umap \<times> (u32, string) umap" where
  "purge_scan now [] by_address = ([], by_address)"
| "purge_scan now ((domain, e) # rest) by_address =
     (if still_valid now e
      then (let (kept, by_address') = purge_scan now rest by_address
            in ((domain, e) # kept, by_address'))
      else purge_scan now rest (um_erase (fe_address e) by_address))"

definition purge_expired :: "int \<Rightarrow> fake_ip_store \<Rightarrow> fake_ip_store" where
  "purge_expired now s =
     (if fi_entry_ttl s = 0 then s
      else if now - fi_last_purge s < one_second then s
      else
        let (by_domain, by_address) = purge_scan now (fi_by_domain s) (fi_by_address s)
        in s\<lparr>fi_last_purge := now, fi_by_domain := by_domain, fi_by_address := by_address\<rparr>)"

text \<open>
  The allocation loop of \<open>resolve\<close>; the first argument is \<^verbatim>\<open>address_count_ - attempt\<close>.
\<close>

fun allocate :: "nat \<Rightarrow> int \<Rightarrow> string \<Rightarrow> fake_ip_store \<Rightarrow> u32 res \<times> fake_ip_store" where
  "allocate 0 later normalized s = (Inl exhaustion_error, s)"
| "allocate (Suc n) later normalized s =
     (let offset = fi_first_offset s +
            (fi_next_offset s - fi_first_offset s) mod fi_address_count s;
          s = s\<lparr>fi_next_offset := fi_first_offset s +
                   (offset - fi_first_offset s + 1) mod fi_address_count s\<rparr>;
          v = fi_network s + offset
      in if \<not> um_contains (fi_by_address s) v
         then
           let expires = (if fi_entry_ttl s = 0 then None
                          else Some (later + fi_entry_ttl s * one_second))
           in (Inr v, s\<lparr>
                fi_by_domain := um_emplace normalized \<lparr>fe_address = v, fe_expires = expires\<rparr>
                  (fi_by_domain s),
                fi_by_address := um_emplace v normalized (fi_by_address s)\<rparr>)
         else allocate n later normalized s)"

definition resolve :: "int \<Rightarrow> int \<Rightarrow> string \<Rightarrow> fake_ip_store \<Rightarrow> u32 res \<times> fake_ip_store" where
  "resolve now later domain s =
     (let s = purge_expired now s; normalized = normalize_name domain in
      if normalized = []
      then (Inl (mk_error Configuration ''FakeIP requires a non-empty domain''), s)
      else case um_find (fi_by_domain s) normalized of
        Some existing \<Rightarrow> (Inr (fe_address existing), s)
      | None \<Rightarrow>
          if length (fi_by_domain s) \<ge> fi_capacity s \<or> fi_address_count s = 0
          then (Inl exhaustion_error, s)
          else allocate (unat (fi_address_count s)) later normalized s)"

definition reverse :: "int \<Rightarrow> u32 \<Rightarrow> fake_ip_store \<Rightarrow> string option \<times> fake_ip_store" where
  "reverse now address s =
     (let s = purge_expired now s in (um_find (fi_by_address s) address, s))"

definition release :: "int \<Rightarrow> string \<Rightarrow> fake_ip_store \<Rightarrow> bool \<times> fake_ip_store" where
  "release now domain s =
     (let s = purge_expired now s; normalized = normalize_name domain in
      case um_find (fi_by_domain s) normalized of
        None \<Rightarrow> (False, s)
      | Some found \<Rightarrow>
          (True, s\<lparr>fi_by_address := um_erase (fe_address found) (fi_by_address s),
                   fi_by_domain := um_erase normalized (fi_by_domain s)\<rparr>))"

definition store_size :: "int \<Rightarrow> fake_ip_store \<Rightarrow> nat \<times> fake_ip_store" where
  "store_size now s = (let s = purge_expired now s in (length (fi_by_domain s), s))"

lemma unat_take_bit_self [simp]: "take_bit 32 (unat (w :: u32)) = unat w"
  using unsigned_less [of w, where 'a = nat] by (simp add: take_bit_nat_eq_self)

section \<open>The invariant\<close>

definition fi_pool :: "fake_ip_store \<Rightarrow> u32 set" where
  "fi_pool s = (\<lambda>k. fi_network s + word_of_nat k) ` {1..unat (fi_address_count s)}"

text \<open>The two tables are inverse to each other, and name normalised domains.\<close>

definition tables_agree :: "fake_ip_store \<Rightarrow> bool" where
  "tables_agree s \<longleftrightarrow> um_invar (fi_by_domain s) \<and> um_invar (fi_by_address s) \<and>
     (\<forall>a d. um_find (fi_by_address s) a = Some d \<longleftrightarrow>
        (\<exists>e. um_find (fi_by_domain s) d = Some e \<and> fe_address e = a)) \<and>
     (\<forall>d\<in>dom (um_find (fi_by_domain s)). d \<noteq> [] \<and> normalize_name d = d)"

text \<open>
  Every address is one of the pool's, and there are never more than \<open>capacity\<close> entries; the
  pool is the configured network without its first and last address.
\<close>

definition within_pool :: "fake_ip_store \<Rightarrow> bool" where
  "within_pool s \<longleftrightarrow> dom (um_find (fi_by_address s)) \<subseteq> fi_pool s \<and>
     length (fi_by_domain s) \<le> fi_capacity s \<and> fi_capacity s \<le> unat (fi_address_count s)"

definition cursor_ok :: "fake_ip_store \<Rightarrow> bool" where
  "cursor_ok s \<longleftrightarrow> fi_address_count s = 0 \<or>
     fi_first_offset s = 1 \<and> 1 \<le> unat (fi_next_offset s) \<and>
     unat (fi_next_offset s) \<le> unat (fi_address_count s) \<and> unat (fi_prefix s) \<le> 30 \<and>
     unat (fi_address_count s) + 2 = 2 ^ (32 - unat (fi_prefix s)) \<and>
     unat (fi_network s) mod 2 ^ (32 - unat (fi_prefix s)) = 0"

definition fi_consistent :: "fake_ip_store \<Rightarrow> bool" where
  "fi_consistent s \<longleftrightarrow> tables_agree s \<and> within_pool s \<and> cursor_ok s"

lemma fi_pool_cong [simp]:
  "fi_pool (s\<lparr>fi_next_offset := x\<rparr>) = fi_pool s"
  "fi_pool (s\<lparr>fi_by_domain := y\<rparr>) = fi_pool s"
  "fi_pool (s\<lparr>fi_by_address := z\<rparr>) = fi_pool s"
  "fi_pool (s\<lparr>fi_last_purge := t\<rparr>) = fi_pool s"
  by (simp_all add: fi_pool_def)

lemma finite_fi_pool [simp]: "finite (fi_pool s)"
  by (simp add: fi_pool_def)

lemma card_fi_pool: "card (fi_pool s) = unat (fi_address_count s)"
proof -
  have "inj_on (\<lambda>k. fi_network s + word_of_nat k) {1..unat (fi_address_count s)}"
  proof (rule inj_onI)
    fix j k
    assume jk: "j \<in> {1..unat (fi_address_count s)}" "k \<in> {1..unat (fi_address_count s)}"
      and eq: "fi_network s + word_of_nat j = fi_network s + word_of_nat k"
    have "unat (fi_address_count s) < 2 ^ 32"
      using unsigned_less [of "fi_address_count s", where 'a = nat] by simp
    with jk have "j < 2 ^ 32" "k < 2 ^ 32" by auto
    moreover from eq have "unat (word_of_nat j :: u32) = unat (word_of_nat k :: u32)" by simp
    ultimately show "j = k" by (simp add: unat_of_nat)
  qed
  then show ?thesis by (simp add: fi_pool_def card_image)
qed

text \<open>An address of the pool is in the configured network and is neither of its two ends.\<close>

lemma fi_pool_in_network:
  assumes "cursor_ok s" "a \<in> fi_pool s"
  shows "drop_bit (32 - unat (fi_prefix s)) a = drop_bit (32 - unat (fi_prefix s)) (fi_network s)
    \<and> unat (fi_network s) < unat a
    \<and> unat a < unat (fi_network s) + 2 ^ (32 - unat (fi_prefix s)) - 1"
proof -
  obtain k where k: "1 \<le> k" "k \<le> unat (fi_address_count s)"
    and a: "a = fi_network s + word_of_nat k"
    using assms(2) by (auto simp: fi_pool_def)
  define N where "N = (2::nat) ^ (32 - unat (fi_prefix s))"
  have "fi_address_count s \<noteq> 0" using k by auto
  with assms(1) have p: "unat (fi_address_count s) + 2 = N" "unat (fi_network s) mod N = 0"
    "unat (fi_prefix s) \<le> 30"
    by (auto simp: cursor_ok_def N_def)
  have kN: "k < N - 1" using p k by linarith
  have w: "(2::nat) ^ 32 = 2 ^ unat (fi_prefix s) * N"
    using p(3) by (simp add: N_def power_add [symmetric])
  obtain q where q: "unat (fi_network s) = q * N"
    using p(2) by (metis mod_eq_0_iff_dvd dvd_def mult.commute)
  have "unat (fi_network s) < 2 ^ 32"
    using unsigned_less [of "fi_network s", where 'a = nat] by simp
  then have "q * N < 2 ^ unat (fi_prefix s) * N" by (simp only: w q)
  then have "q < 2 ^ unat (fi_prefix s)" by simp
  have "0 < N" by (simp add: N_def)
  then have "(q + 1) * N \<le> 2 ^ unat (fi_prefix s) * N"
    using \<open>q < 2 ^ unat (fi_prefix s)\<close> by (intro mult_right_mono) auto
  then have top: "q * N + N \<le> 2 ^ 32"
    using w by simp
  have ku: "unat (word_of_nat k :: u32) = k"
    using kN top by (simp add: unat_of_nat)
  have ua: "unat a = q * N + k"
    using kN top by (simp add: a unat_word_ariths ku q)
  have "unat a div N = unat (fi_network s) div N"
    using kN \<open>0 < N\<close> by (simp add: ua q)
  then have "drop_bit (32 - unat (fi_prefix s)) a = drop_bit (32 - unat (fi_prefix s)) (fi_network s)"
    by (simp add: N_def word_unat_eq_iff unsigned_drop_bit_eq drop_bit_eq_div [where 'a = nat]
        unat_take_bit_self)
  then show ?thesis
    using ua q kN k(1) by (simp add: N_def [symmetric])
qed

section \<open>Purging\<close>

lemma purge_scan_filter:
  "purge_scan now m ba =
     (filter (\<lambda>p. still_valid now (snd p)) m,
      filter (\<lambda>q. \<forall>p\<in>set m. \<not> still_valid now (snd p) \<longrightarrow> fe_address (snd p) \<noteq> fst q) ba)"
proof (induction now m ba rule: purge_scan.induct)
  case (2 now d e rest ba)
  then show ?case
    by (auto simp: um_erase_def intro: filter_cong)
qed simp

lemma tables_agreeD:
  assumes "tables_agree s"
  shows "um_invar (fi_by_domain s)" "um_invar (fi_by_address s)"
    and "um_find (fi_by_address s) a = Some d \<longleftrightarrow>
        (\<exists>e. um_find (fi_by_domain s) d = Some e \<and> fe_address e = a)"
    and "um_find (fi_by_domain s) d = Some e \<Longrightarrow> d \<noteq> [] \<and> normalize_name d = d"
  using assms unfolding tables_agree_def by blast+

lemma tables_agree_purge:
  assumes "tables_agree s"
  shows "tables_agree (purge_expired now s)"
proof -
  let ?m = "fi_by_domain s" and ?b = "fi_by_address s"
  let ?m' = "filter (\<lambda>p. still_valid now (snd p)) ?m"
  let ?b' = "filter (\<lambda>q. \<forall>p\<in>set ?m. \<not> still_valid now (snd p) \<longrightarrow> fe_address (snd p) \<noteq> fst q) ?b"
  note a = assms [unfolded tables_agree_def]
  have agree: "um_find ?b a = Some d \<longleftrightarrow> (\<exists>e. um_find ?m d = Some e \<and> fe_address e = a)" for a d
    using a by blast
  have agree': "um_find ?b' a = Some d \<longleftrightarrow> (\<exists>e. um_find ?m' d = Some e \<and> fe_address e = a)" for a d
  proof
    assume l: "um_find ?b' a = Some d"
    then have b: "um_find ?b a = Some d"
      and v: "\<forall>p\<in>set ?m. \<not> still_valid now (snd p) \<longrightarrow> fe_address (snd p) \<noteq> a"
      using a by (auto simp: um_find_filter split: option.splits if_splits)
    then obtain e where e: "um_find ?m d = Some e" "fe_address e = a" by (auto simp: agree)
    then have "(d, e) \<in> set ?m" using a by (simp add: um_find_in_set)
    with v e have "still_valid now e" by fastforce
    with e a show "\<exists>e. um_find ?m' d = Some e \<and> fe_address e = a"
      by (auto simp: um_find_filter simp del: still_valid.simps)
  next
    assume "\<exists>e. um_find ?m' d = Some e \<and> fe_address e = a"
    then obtain e where e: "um_find ?m d = Some e" "still_valid now e" "fe_address e = a"
      using a by (auto simp: um_find_filter simp del: still_valid.simps
          split: option.splits if_splits)
    then have b: "um_find ?b a = Some d" by (auto simp: agree)
    have other: "fe_address e' \<noteq> a" if "(d', e') \<in> set ?m" "\<not> still_valid now e'" for d' e'
    proof
      assume "fe_address e' = a"
      moreover from that have "um_find ?m d' = Some e'" using a by (simp add: um_find_in_set)
      ultimately have "um_find ?b a = Some d'" by (auto simp: agree)
      with b that \<open>um_find ?m d' = Some e'\<close> e show False by simp
    qed
    have "\<forall>p\<in>set ?m. \<not> still_valid now (snd p) \<longrightarrow> fe_address (snd p) \<noteq> a"
      using other by (simp only: split_paired_Ball_Sigma Ball_def split_paired_All fst_conv snd_conv) blast
    moreover have "um_invar ?b" using a by blast
    ultimately show "um_find ?b' a = Some d"
      using b by (auto simp: um_find_filter simp del: still_valid.simps)
  qed
  have "dom (um_find ?m') \<subseteq> dom (um_find ?m)"
    by (auto simp: um_find_dom)
  moreover have "\<forall>d\<in>dom (um_find ?m). d \<noteq> [] \<and> normalize_name d = d"
    using a by (elim conjE)
  ultimately have names: "\<forall>d\<in>dom (um_find ?m'). d \<noteq> [] \<and> normalize_name d = d"
    by blast
  have inv: "um_invar ?m'" "um_invar ?b'"
    using tables_agreeD(1,2) [OF assms] by simp_all
  have "tables_agree (s\<lparr>fi_last_purge := now, fi_by_domain := ?m', fi_by_address := ?b'\<rparr>)"
  proof -
    have "fi_by_domain (s\<lparr>fi_last_purge := now, fi_by_domain := ?m', fi_by_address := ?b'\<rparr>) = ?m'"
      "fi_by_address (s\<lparr>fi_last_purge := now, fi_by_domain := ?m', fi_by_address := ?b'\<rparr>) = ?b'"
      by simp_all
    then show ?thesis
      unfolding tables_agree_def by (simp only: inv agree' simp_thms refl) (rule names)
  qed
  with assms show ?thesis
    by (simp add: purge_expired_def purge_scan_filter)
qed

lemma fi_consistent_purge:
  assumes "fi_consistent s"
  shows "fi_consistent (purge_expired now s)"
proof -
  have "length (filter P xs) \<le> n" if "length xs \<le> n" for P n and xs :: "(string \<times> fake_entry) list"
    using that length_filter_le [of P xs] by linarith
  then show ?thesis
    using assms tables_agree_purge [of s now]
    by (auto simp: fi_consistent_def within_pool_def cursor_ok_def purge_expired_def Let_def
        purge_scan_filter um_find_dom simp del: still_valid.simps)
qed

section \<open>Allocating\<close>

text \<open>The cursor visits the offsets of the pool in turn.\<close>

lemma cursor_step:
  assumes "cursor_ok s" "fi_address_count s \<noteq> 0"
  defines "offset \<equiv> fi_first_offset s + (fi_next_offset s - fi_first_offset s) mod fi_address_count s"
  defines "nxt \<equiv> fi_first_offset s + (offset - fi_first_offset s + 1) mod fi_address_count s"
  shows "offset = fi_next_offset s"
    and "unat nxt = 1 + unat (fi_next_offset s) mod unat (fi_address_count s)"
proof -
  let ?c = "unat (fi_address_count s)"
  have f: "fi_first_offset s = 1" and n: "1 \<le> unat (fi_next_offset s)" "unat (fi_next_offset s) \<le> ?c"
    and c: "?c + 2 = 2 ^ (32 - unat (fi_prefix s))"
    using assms(1,2) by (auto simp: cursor_ok_def)
  have "(2::nat) ^ (32 - unat (fi_prefix s)) \<le> 2 ^ 32" by (rule power_increasing) auto
  then have c32: "?c + 2 \<le> 2 ^ 32" using c by simp
  have "fi_next_offset s \<noteq> 0" using n(1) by auto
  then have "unat (fi_next_offset s - 1) = unat (fi_next_offset s) - 1"
    by (simp add: unat_minus_one)
  then have "unat ((fi_next_offset s - 1) mod fi_address_count s) = unat (fi_next_offset s) - 1"
    using n by (simp add: unat_mod)
  then have o: "(fi_next_offset s - 1) mod fi_address_count s = fi_next_offset s - 1"
    using \<open>unat (fi_next_offset s - 1) = unat (fi_next_offset s) - 1\<close> by (simp add: word_unat_eq_iff)
  then show "offset = fi_next_offset s" by (simp add: offset_def f)
  have "unat (fi_next_offset s) mod ?c < ?c"
    using n by simp
  with c32 have "unat (fi_next_offset s) mod ?c < 2 ^ 32 - 1" by linarith
  then show "unat nxt = 1 + unat (fi_next_offset s) mod ?c"
    by (simp add: nxt_def f \<open>offset = fi_next_offset s\<close> unat_word_ariths unat_mod)
qed

text \<open>
  \<open>allocate\<close> either takes a free address of the pool, or has found all the addresses of \<open>n\<close>
  successive offsets taken.
\<close>

lemma allocate_cases:
  assumes "cursor_ok s" "fi_address_count s \<noteq> 0"
  shows "(\<exists>v x e. allocate n later d s =
        (Inr v, s\<lparr>fi_next_offset := x,
           fi_by_domain := um_emplace d \<lparr>fe_address = v, fe_expires = e\<rparr> (fi_by_domain s),
           fi_by_address := um_emplace v d (fi_by_address s)\<rparr>) \<and>
        v \<in> fi_pool s \<and> \<not> um_contains (fi_by_address s) v \<and> cursor_ok (s\<lparr>fi_next_offset := x\<rparr>) \<and>
        e = (if fi_entry_ttl s = 0 then None else Some (later + fi_entry_ttl s * one_second))) \<or>
    (\<exists>x. allocate n later d s = (Inl exhaustion_error, s\<lparr>fi_next_offset := x\<rparr>) \<and>
        cursor_ok (s\<lparr>fi_next_offset := x\<rparr>) \<and>
        (\<forall>k<n. um_contains (fi_by_address s) (fi_network s +
            word_of_nat (1 + (unat (fi_next_offset s) - 1 + k) mod unat (fi_address_count s)))))"
  using assms
proof (induction n arbitrary: s)
  case 0
  then show ?case by (auto intro!: exI [of _ "fi_next_offset s"])
next
  case (Suc n)
  let ?c = "unat (fi_address_count s)"
  define nxt where "nxt = fi_first_offset s + (fi_first_offset s +
      (fi_next_offset s - fi_first_offset s) mod fi_address_count s - fi_first_offset s + 1)
      mod fi_address_count s"
  define s' where "s' = s\<lparr>fi_next_offset := nxt\<rparr>"
  let ?v = "fi_network s + fi_next_offset s"
  have o: "fi_first_offset s + (fi_next_offset s - fi_first_offset s) mod fi_address_count s =
      fi_next_offset s"
    and nx: "unat nxt = 1 + unat (fi_next_offset s) mod ?c"
    using cursor_step [OF Suc.prems] by (simp_all add: nxt_def)
  have step: "allocate (Suc n) later d s =
      (if \<not> um_contains (fi_by_address s) ?v
       then (Inr ?v, s'\<lparr>
              fi_by_domain := um_emplace d \<lparr>fe_address = ?v, fe_expires =
                if fi_entry_ttl s = 0 then None else Some (later + fi_entry_ttl s * one_second)\<rparr>
                (fi_by_domain s),
              fi_by_address := um_emplace ?v d (fi_by_address s)\<rparr>)
       else allocate n later d s')"
    unfolding s'_def nxt_def by (simp add: Let_def o)
  have b: "1 \<le> unat (fi_next_offset s)" "unat (fi_next_offset s) \<le> ?c"
    using Suc.prems by (auto simp: cursor_ok_def)
  have "unat (fi_next_offset s) mod ?c < ?c" using b by simp
  then have ok: "cursor_ok s'" "fi_address_count s' \<noteq> 0"
    using Suc.prems nx by (auto simp: cursor_ok_def s'_def Suc_le_eq)
  have vp: "?v \<in> fi_pool s"
    using b by (auto simp: fi_pool_def intro!: image_eqI [of _ _ "unat (fi_next_offset s)"])
  show ?case
  proof (cases "um_contains (fi_by_address s) ?v")
    case False
    with step vp ok(1) show ?thesis by (auto simp: s'_def intro!: exI [of _ nxt])
  next
    case True
    have shift: "(unat nxt - 1 + k) mod ?c = (unat (fi_next_offset s) - 1 + Suc k) mod ?c" for k
      using b by (simp add: nx mod_add_left_eq)
    have first: "word_of_nat (1 + (unat (fi_next_offset s) - 1 + 0) mod ?c) = fi_next_offset s"
      using b by simp
    have all: "\<forall>k<Suc n. um_contains (fi_by_address s) (fi_network s +
            word_of_nat (1 + (unat (fi_next_offset s) - 1 + k) mod ?c))"
      if "\<forall>k<n. um_contains (fi_by_address s) (fi_network s +
            word_of_nat (1 + (unat nxt - 1 + k) mod ?c))"
    proof (intro allI impI)
      fix k assume "k < Suc n"
      then show "um_contains (fi_by_address s) (fi_network s +
            word_of_nat (1 + (unat (fi_next_offset s) - 1 + k) mod ?c))"
        using that True first shift by (cases k) (auto simp only: less_Suc_eq_0_disj)
    qed
    from True have "allocate (Suc n) later d s = allocate n later d s'" by (simp only: step) simp
    with Suc.IH [OF ok] all show ?thesis
      by (fastforce simp: s'_def)
  qed
qed

section \<open>The operations keep the invariant\<close>

lemma tables_agreeI:
  assumes "fi_by_domain s = m" "fi_by_address s = b" "um_invar m" "um_invar b"
    and "\<And>a d. um_find b a = Some d \<longleftrightarrow> (\<exists>e. um_find m d = Some e \<and> fe_address e = a)"
    and "\<And>d e. um_find m d = Some e \<Longrightarrow> d \<noteq> [] \<and> normalize_name d = d"
  shows "tables_agree s"
  unfolding tables_agree_def assms(1,2) using assms(3-6) by (simp only: dom_def Ball_def) auto

lemma tables_agree_add:
  assumes "tables_agree s" "um_find (fi_by_domain s) d = None" "\<not> um_contains (fi_by_address s) v"
    and "d \<noteq> []" "normalize_name d = d"
  shows "tables_agree (s\<lparr>fi_next_offset := x,
    fi_by_domain := um_emplace d \<lparr>fe_address = v, fe_expires = e\<rparr> (fi_by_domain s),
    fi_by_address := um_emplace v d (fi_by_address s)\<rparr>)"
proof (rule tables_agreeI [OF refl refl])
  note D = tables_agreeD [OF assms(1)]
  have new: "\<not> um_contains (fi_by_domain s) d" and v: "um_find (fi_by_address s) v = None"
    using assms(2,3) by (auto simp: um_contains_def)
  have free: "\<nexists>d' e'. um_find (fi_by_domain s) d' = Some e' \<and> fe_address e' = v"
    using v D(3) [of v] by auto
  fix a d'
  show "um_find (fi_by_address (s\<lparr>fi_next_offset := x,
      fi_by_domain := um_emplace d \<lparr>fe_address = v, fe_expires = e\<rparr> (fi_by_domain s),
      fi_by_address := um_emplace v d (fi_by_address s)\<rparr>)) a = Some d' \<longleftrightarrow>
    (\<exists>e'. um_find (fi_by_domain (s\<lparr>fi_next_offset := x,
      fi_by_domain := um_emplace d \<lparr>fe_address = v, fe_expires = e\<rparr> (fi_by_domain s),
      fi_by_address := um_emplace v d (fi_by_address s)\<rparr>)) d' = Some e' \<and> fe_address e' = a)"
    using assms(2,3) new free D(3) [of a d'] by (auto simp: um_find_emplace)
next
  fix d' e'
  assume "um_find (fi_by_domain (s\<lparr>fi_next_offset := x,
      fi_by_domain := um_emplace d \<lparr>fe_address = v, fe_expires = e\<rparr> (fi_by_domain s),
      fi_by_address := um_emplace v d (fi_by_address s)\<rparr>)) d' = Some e'"
  then show "d' \<noteq> [] \<and> normalize_name d' = d'"
    using assms(4,5) tables_agreeD(4) [OF assms(1)] by (auto simp: um_find_emplace split: if_splits)
qed (use tables_agreeD(1,2) [OF assms(1)] in simp_all)

lemma tables_agree_remove:
  assumes "tables_agree s" "um_find (fi_by_domain s) d = Some f"
  shows "tables_agree (s\<lparr>fi_by_address := um_erase (fe_address f) (fi_by_address s),
    fi_by_domain := um_erase d (fi_by_domain s)\<rparr>)"
proof (rule tables_agreeI [OF refl refl])
  note D = tables_agreeD [OF assms(1)]
  have inj: "d' = d" if "um_find (fi_by_domain s) d' = Some e'" "fe_address e' = fe_address f" for d' e'
    using that assms(2) D(3) [of "fe_address f" d] D(3) [of "fe_address f" d'] by auto
  fix a d'
  show "um_find (fi_by_address (s\<lparr>fi_by_address := um_erase (fe_address f) (fi_by_address s),
      fi_by_domain := um_erase d (fi_by_domain s)\<rparr>)) a = Some d' \<longleftrightarrow>
    (\<exists>e'. um_find (fi_by_domain (s\<lparr>fi_by_address := um_erase (fe_address f) (fi_by_address s),
      fi_by_domain := um_erase d (fi_by_domain s)\<rparr>)) d' = Some e' \<and> fe_address e' = a)"
    using assms(2) D(3) [of a d'] by (auto dest: inj)
next
  fix d' e'
  assume "um_find (fi_by_domain (s\<lparr>fi_by_address := um_erase (fe_address f) (fi_by_address s),
      fi_by_domain := um_erase d (fi_by_domain s)\<rparr>)) d' = Some e'"
  then show "d' \<noteq> [] \<and> normalize_name d' = d'"
    using tables_agreeD(4) [OF assms(1)] by (auto split: if_splits)
qed (use tables_agreeD(1,2) [OF assms(1)] in simp_all)

lemma fi_consistent_clear: "fi_consistent s \<Longrightarrow> fi_consistent (clear_store s)"
  by (auto simp: fi_consistent_def tables_agree_def within_pool_def cursor_ok_def clear_store_def)

lemma fi_consistent_default: "fi_consistent default_fake_ip_store"
  by (simp add: fi_consistent_def tables_agree_def within_pool_def cursor_ok_def
      default_fake_ip_store_def)

lemma network_mask_mod:
  "unat (network AND (if prefix = 0 then 0 else push_bit (32 - unat prefix) (m :: u32)))
     mod 2 ^ (32 - unat (prefix :: byte)) = 0" (is "unat ?w mod 2 ^ ?n = 0")
proof -
  have "take_bit ?n ?w = 0"
    by (rule bit_word_eqI) (auto simp: bit_simps)
  then have "unat (take_bit ?n ?w) = 0" by (simp only: unsigned_0)
  moreover have "unat (take_bit ?n w) = unat w mod 2 ^ ?n" for w :: u32
    by (simp add: unsigned_take_bit_eq take_bit_eq_mod [where 'a = nat])
  ultimately show ?thesis by (simp only:)
qed

lemma pool_size:
  assumes "unat (prefix :: byte) \<le> 30"
  defines "n \<equiv> 32 - unat prefix"
  shows "unat (push_bit n (1 :: u64) - 2) = 2 ^ n - 2"
    and "unat (ucast (push_bit n (1 :: u64) - 2) :: u32) = 2 ^ n - 2"
    and "(2::nat) < 2 ^ n"
proof -
  have n: "n \<le> 32" "2 \<le> n" using assms by auto
  have "(2::nat) ^ n \<le> 2 ^ 32" "(2::nat) ^ 2 \<le> 2 ^ n"
    by (rule power_increasing; use n in simp)+
  then have N: "(2::nat) ^ n \<le> 2 ^ 32" "2 < (2::nat) ^ n" by auto
  have t: "unat (push_bit n (1 :: u64)) = 2 ^ n"
    unfolding unsigned_push_bit_eq using n
    by (simp add: take_bit_nat_eq_self push_bit_eq_mult [where 'a = nat])
  have "(2 :: u64) \<le> push_bit n 1"
    using N(2) by (simp only: word_le_nat_alt t) simp
  then show u: "unat (push_bit n (1 :: u64) - 2) = 2 ^ n - 2"
    by (simp only: unat_sub t) simp
  have "(2::nat) ^ n - 2 < 2 ^ 32" using N by linarith
  then show "unat (ucast (push_bit n (1 :: u64) - 2) :: u32) = 2 ^ n - 2"
    by (simp only: unsigned_ucast_eq u) (simp add: take_bit_nat_eq_self)
  show "(2::nat) < 2 ^ n" by (rule N)
qed

lemma fi_consistent_configure:
  assumes "fi_consistent s"
  shows "fi_consistent (snd (configure_store network prefix capacity ttl s))"
proof (cases "fst (configure_store network prefix capacity ttl s)")
  case (Inl e)
  then show ?thesis
    using assms by (auto simp: configure_store_def Let_def split: if_splits)
next
  case (Inr u)
  define n where "n = 32 - unat prefix"
  have p: "unat prefix \<le> 30" and c: "capacity \<le> unat (push_bit n (1 :: u64) - 2)"
    using Inr by (auto simp: configure_store_def n_def Let_def word_le_nat_alt not_less
        split: if_splits)
  note size = pool_size [OF p, folded n_def]
  have mask: "unat (network AND (if prefix = 0 then 0 else push_bit n 0xffffffff)) mod 2 ^ n = 0"
    using network_mask_mod [of network prefix "0xffffffff"] by (simp only: n_def)
  have "snd (configure_store network prefix capacity ttl s) =
      (clear_store s)\<lparr>fi_network := network AND (if prefix = 0 then 0 else push_bit n 0xffffffff),
         fi_prefix := prefix, fi_first_offset := 1,
         fi_address_count := ucast (push_bit n (1 :: u64) - 2),
         fi_next_offset := 1, fi_capacity := capacity, fi_entry_ttl := ttl\<rparr>"
    using Inr by (auto simp: configure_store_def n_def Let_def split: if_splits)
  then show ?thesis
    using p c size mask
    by (auto simp: fi_consistent_def tables_agree_def within_pool_def cursor_ok_def clear_store_def
        n_def [symmetric] simp del: unsigned_ucast_eq)
qed

lemma tables_same_size:
  assumes "tables_agree s"
  shows "length (fi_by_address s) = length (fi_by_domain s)"
proof -
  note D = tables_agreeD [OF assms]
  let ?f = "\<lambda>a. the (um_find (fi_by_address s) a)"
  have "bij_betw ?f (dom (um_find (fi_by_address s))) (dom (um_find (fi_by_domain s)))"
  proof (rule bij_betwI')
    fix a b assume "a \<in> dom (um_find (fi_by_address s))" "b \<in> dom (um_find (fi_by_address s))"
    then obtain d d' where ab: "um_find (fi_by_address s) a = Some d" "um_find (fi_by_address s) b = Some d'"
      by auto
    then obtain e e' where "um_find (fi_by_domain s) d = Some e \<and> fe_address e = a"
      "um_find (fi_by_domain s) d' = Some e' \<and> fe_address e' = b"
      by (auto simp only: D(3))
    with ab show "(?f a = ?f b) = (a = b)" by (metis option.sel)
  next
    fix a assume "a \<in> dom (um_find (fi_by_address s))"
    then obtain d where "um_find (fi_by_address s) a = Some d" by auto
    moreover from this have "\<exists>e. um_find (fi_by_domain s) d = Some e" by (auto simp only: D(3))
    ultimately show "?f a \<in> dom (um_find (fi_by_domain s))" by auto
  next
    fix d assume "d \<in> dom (um_find (fi_by_domain s))"
    then obtain e where "um_find (fi_by_domain s) d = Some e" by auto
    then have "um_find (fi_by_address s) (fe_address e) = Some d" by (auto simp only: D(3))
    then show "\<exists>a\<in>dom (um_find (fi_by_address s)). d = ?f a"
      by (intro bexI [of _ "fe_address e"]) auto
  qed
  then show ?thesis
    using um.count_card [OF D(1)] um.count_card [OF D(2)] by (simp add: bij_betw_same_card)
qed

text \<open>The offsets \<open>count\<close> successive attempts try are the whole pool.\<close>

lemma attempts_cover_pool:
  assumes "cursor_ok s" "a \<in> fi_pool s"
  shows "\<exists>k<unat (fi_address_count s). a = fi_network s +
    word_of_nat (1 + (unat (fi_next_offset s) - 1 + k) mod unat (fi_address_count s))"
proof -
  let ?c = "unat (fi_address_count s)" and ?n = "unat (fi_next_offset s) - 1"
  obtain j where j: "1 \<le> j" "j \<le> ?c" "a = fi_network s + word_of_nat j"
    using assms(2) by (auto simp: fi_pool_def)
  define k where "k = (if ?n \<le> j - 1 then j - 1 - ?n else ?c + (j - 1) - ?n)"
  have "fi_address_count s \<noteq> 0" using j by auto
  then have n: "?n < ?c" using assms(1) by (auto simp: cursor_ok_def)
  have "k < ?c" "(?n + k) mod ?c = j - 1"
    using j n by (auto simp: k_def mod_if)
  with j show ?thesis by (intro exI [of _ k]) auto
qed

lemma allocate_succeeds:
  assumes "fi_consistent s" "fi_address_count s \<noteq> 0" "length (fi_by_domain s) < fi_capacity s"
  shows "\<exists>v x e. allocate (unat (fi_address_count s)) later d s =
      (Inr v, s\<lparr>fi_next_offset := x,
           fi_by_domain := um_emplace d \<lparr>fe_address = v, fe_expires = e\<rparr> (fi_by_domain s),
           fi_by_address := um_emplace v d (fi_by_address s)\<rparr>) \<and>
      v \<in> fi_pool s \<and> \<not> um_contains (fi_by_address s) v \<and> cursor_ok (s\<lparr>fi_next_offset := x\<rparr>) \<and>
      e = (if fi_entry_ttl s = 0 then None else Some (later + fi_entry_ttl s * one_second))"
proof -
  have c: "cursor_ok s" and t: "tables_agree s" and w: "within_pool s"
    using assms(1) by (auto simp: fi_consistent_def)
  have "length (fi_by_address s) < card (fi_pool s)"
    using assms(3) w tables_same_size [OF t] by (simp add: card_fi_pool within_pool_def)
  then obtain a where a: "a \<in> fi_pool s" "um_find (fi_by_address s) a = None"
    using um.count_pigeonhole [OF tables_agreeD(2) [OF t] finite_fi_pool] by blast
  obtain k where "k < unat (fi_address_count s)" "a = fi_network s +
      word_of_nat (1 + (unat (fi_next_offset s) - 1 + k) mod unat (fi_address_count s))"
    using attempts_cover_pool [OF c a(1)] by blast
  then have "\<not> (\<forall>k<unat (fi_address_count s). um_contains (fi_by_address s) (fi_network s +
      word_of_nat (1 + (unat (fi_next_offset s) - 1 + k) mod unat (fi_address_count s))))"
    using a(2) by (auto simp: um_contains_def)
  then show ?thesis
    using allocate_cases [OF c assms(2), of "unat (fi_address_count s)" later d] by blast
qed

text \<open>What \<open>resolve\<close> does, behind the purge, on every branch.\<close>

lemma resolve_cases:
  fixes now later :: int and domain :: string
  assumes "fi_consistent s"
  defines "s1 \<equiv> purge_expired now s" and "d \<equiv> normalize_name domain"
  obtains (empty_name) "d = []"
      "resolve now later domain s =
         (Inl (mk_error Configuration ''FakeIP requires a non-empty domain''), s1)"
    | (known) e where "d \<noteq> []" "um_find (fi_by_domain s1) d = Some e"
      "resolve now later domain s = (Inr (fe_address e), s1)"
    | (exhausted) "d \<noteq> []" "um_find (fi_by_domain s1) d = None"
      "fi_capacity s1 \<le> length (fi_by_domain s1)"
      "resolve now later domain s = (Inl exhaustion_error, s1)"
    | (fresh) v x e where "d \<noteq> []" "um_find (fi_by_domain s1) d = None"
      "length (fi_by_domain s1) < fi_capacity s1"
      "resolve now later domain s = (Inr v, s1\<lparr>fi_next_offset := x,
         fi_by_domain := um_emplace d \<lparr>fe_address = v, fe_expires = e\<rparr> (fi_by_domain s1),
         fi_by_address := um_emplace v d (fi_by_address s1)\<rparr>)"
      "v \<in> fi_pool s1" "\<not> um_contains (fi_by_address s1) v"
      "cursor_ok (s1\<lparr>fi_next_offset := x\<rparr>)"
      "e = (if fi_entry_ttl s1 = 0 then None else Some (later + fi_entry_ttl s1 * one_second))"
proof -
  have c: "fi_consistent s1" unfolding s1_def by (rule fi_consistent_purge [OF assms(1)])
  have def: "resolve now later domain s =
     (if d = [] then (Inl (mk_error Configuration ''FakeIP requires a non-empty domain''), s1)
      else case um_find (fi_by_domain s1) d of
        Some existing \<Rightarrow> (Inr (fe_address existing), s1)
      | None \<Rightarrow>
          if length (fi_by_domain s1) \<ge> fi_capacity s1 \<or> fi_address_count s1 = 0
          then (Inl exhaustion_error, s1)
          else allocate (unat (fi_address_count s1)) later d s1)"
    unfolding resolve_def Let_def s1_def d_def by (rule refl)
  have z: "fi_address_count s1 = 0 \<Longrightarrow> fi_capacity s1 = 0"
    using c by (auto simp: fi_consistent_def within_pool_def)
  consider "d = []" | e where "d \<noteq> []" "um_find (fi_by_domain s1) d = Some e"
    | "d \<noteq> []" "um_find (fi_by_domain s1) d = None" "fi_capacity s1 \<le> length (fi_by_domain s1)"
    | "d \<noteq> []" "um_find (fi_by_domain s1) d = None" "length (fi_by_domain s1) < fi_capacity s1"
    by (metis not_le option.exhaust)
  then show thesis
  proof cases
    case 4
    then have "fi_address_count s1 \<noteq> 0" using z by auto
    obtain v x e where r: "allocate (unat (fi_address_count s1)) later d s1 =
        (Inr v, s1\<lparr>fi_next_offset := x,
           fi_by_domain := um_emplace d \<lparr>fe_address = v, fe_expires = e\<rparr> (fi_by_domain s1),
           fi_by_address := um_emplace v d (fi_by_address s1)\<rparr>)"
      and v: "v \<in> fi_pool s1" "\<not> um_contains (fi_by_address s1) v"
        "cursor_ok (s1\<lparr>fi_next_offset := x\<rparr>)"
        "e = (if fi_entry_ttl s1 = 0 then None else Some (later + fi_entry_ttl s1 * one_second))"
      using allocate_succeeds [OF c \<open>fi_address_count s1 \<noteq> 0\<close> 4(3), of later d] by blast
    have "resolve now later domain s = allocate (unat (fi_address_count s1)) later d s1"
      using 4 \<open>fi_address_count s1 \<noteq> 0\<close> by (simp add: def)
    with r show thesis by (intro fresh [OF 4 _ v]) simp
  qed (use empty_name known exhausted def in auto)
qed

lemma fi_consistent_add:
  assumes "fi_consistent s" "d \<noteq> []" "normalize_name d = d"
    "um_find (fi_by_domain s) d = None" "length (fi_by_domain s) < fi_capacity s"
    "v \<in> fi_pool s" "\<not> um_contains (fi_by_address s) v" "cursor_ok (s\<lparr>fi_next_offset := x\<rparr>)"
  shows "fi_consistent (s\<lparr>fi_next_offset := x,
         fi_by_domain := um_emplace d \<lparr>fe_address = v, fe_expires = e\<rparr> (fi_by_domain s),
         fi_by_address := um_emplace v d (fi_by_address s)\<rparr>)"
proof -
  have t: "tables_agree s" and w: "within_pool s"
    using assms(1) by (auto simp: fi_consistent_def)
  have "length (um_emplace d f (fi_by_domain s)) = Suc (length (fi_by_domain s))" for f
    using assms(4) um.count_assign_new [OF tables_agreeD(1) [OF t] assms(4)]
    by (simp add: um_emplace_def um_contains_def)
  then show ?thesis
    using tables_agree_add [OF t assms(4,7,2,3)] assms(5-8) w
    by (auto simp: fi_consistent_def within_pool_def cursor_ok_def um_find_emplace)
qed

lemma fi_consistent_resolve:
  assumes "fi_consistent s"
  shows "fi_consistent (snd (resolve now later domain s))"
proof -
  note c = fi_consistent_purge [OF assms, of now]
  show ?thesis
    by (rule resolve_cases [OF assms, where now = now and domain = domain and later = later])
      (auto simp: c intro: fi_consistent_add [OF c])
qed

lemma fi_consistent_release:
  assumes "fi_consistent s"
  shows "fi_consistent (snd (release now domain s))"
proof -
  let ?s = "purge_expired now s"
  have c: "fi_consistent ?s" by (rule fi_consistent_purge [OF assms])
  show ?thesis
  proof (cases "um_find (fi_by_domain ?s) (normalize_name domain)")
    case None
    with c show ?thesis by (simp add: release_def Let_def)
  next
    case (Some f)
    have "length (um_erase k m) \<le> length m" for k and m :: "(string, fake_entry) umap"
      by (simp add: um_erase_def)
    then have "length (um_erase (normalize_name domain) (fi_by_domain ?s)) \<le> fi_capacity ?s"
      using c by (meson fi_consistent_def order_trans within_pool_def)
    with Some c tables_agree_remove [OF _ Some] show ?thesis
      by (auto simp: release_def Let_def fi_consistent_def within_pool_def cursor_ok_def)
  qed
qed

section \<open>Runs\<close>

datatype fake_ip_call =
    Call_configure u32 byte nat int | Call_resolve int int string | Call_reverse int u32
  | Call_release int string | Call_clear | Call_size int

fun fake_ip_step :: "fake_ip_call \<Rightarrow> fake_ip_store \<Rightarrow> fake_ip_store" where
  "fake_ip_step (Call_configure n p c ttl) s = snd (configure_store n p c ttl s)"
| "fake_ip_step (Call_resolve now later d) s = snd (resolve now later d s)"
| "fake_ip_step (Call_reverse now a) s = snd (reverse now a s)"
| "fake_ip_step (Call_release now d) s = snd (release now d s)"
| "fake_ip_step Call_clear s = clear_store s"
| "fake_ip_step (Call_size now) s = snd (store_size now s)"

lemma fi_consistent_step: "fi_consistent s \<Longrightarrow> fi_consistent (fake_ip_step call s)"
  by (cases call) (simp_all add: fi_consistent_configure fi_consistent_resolve
      fi_consistent_release fi_consistent_clear fi_consistent_purge reverse_def store_size_def Let_def)

lemma fi_consistent_new: "fi_consistent (new_fake_ip_store n p c ttl)"
proof -
  obtain r s where rs: "configure_store n p c ttl default_fake_ip_store = (r, s)"
    by (rule prod.exhaust)
  then have s: "fi_consistent s"
    using fi_consistent_configure [OF fi_consistent_default, of n p c ttl] by simp
  show ?thesis
  proof (cases r)
    case (Inl e)
    then have "s = default_fake_ip_store"
      using rs by (auto simp: configure_store_def Let_def split: if_splits)
    with rs Inl show ?thesis
      by (simp add: new_fake_ip_store_def fi_consistent_def tables_agree_def within_pool_def
          cursor_ok_def default_fake_ip_store_def)
  next
    case (Inr u)
    with rs s show ?thesis by (simp add: new_fake_ip_store_def)
  qed
qed

text \<open>The store after a sequence of calls on a newly constructed one.\<close>

definition fake_ip_run :: "fake_ip_store \<Rightarrow> fake_ip_call list \<Rightarrow> fake_ip_store" where
  "fake_ip_run s calls = fold fake_ip_step calls s"

lemma fi_consistent_run: "fi_consistent (fake_ip_run (new_fake_ip_store n p c ttl) calls)"
proof -
  have "fi_consistent s \<Longrightarrow> fi_consistent (fold fake_ip_step calls s)" for s
    by (induction calls arbitrary: s) (auto intro: fi_consistent_step)
  then show ?thesis by (simp add: fake_ip_run_def fi_consistent_new)
qed

section \<open>Properties\<close>

text \<open>
  C3: Whatever calls are made on a store, its two tables stay inverse to each other (so no address
  is shared by two names), every address handed out lies strictly inside the configured network,
  and the number of entries never exceeds the configured capacity.
\<close>

theorem fake_ip_tables_consistent:
  "let s = fake_ip_run (new_fake_ip_store network prefix capacity ttl) calls in
    (um_find (fi_by_address s) a = Some d \<longleftrightarrow>
        (\<exists>e. um_find (fi_by_domain s) d = Some e \<and> fe_address e = a)) \<and>
    (um_find (fi_by_address s) a = Some d \<longrightarrow>
        drop_bit (32 - unat (fi_prefix s)) a = drop_bit (32 - unat (fi_prefix s)) (fi_network s) \<and>
        unat (fi_network s) < unat a \<and>
        unat a < unat (fi_network s) + 2 ^ (32 - unat (fi_prefix s)) - 1) \<and>
    length (fi_by_domain s) \<le> fi_capacity s"
proof -
  define s where "s = fake_ip_run (new_fake_ip_store network prefix capacity ttl) calls"
  have c: "tables_agree s" "within_pool s" "cursor_ok s"
    using fi_consistent_run [of network prefix capacity ttl calls]
    by (auto simp: s_def fi_consistent_def)
  have "a \<in> fi_pool s" if "um_find (fi_by_address s) a = Some d"
    using that c(2) by (auto simp: within_pool_def)
  then show ?thesis
    using fi_pool_in_network [OF c(3)] tables_agreeD(3) [OF c(1)] c(2)
    unfolding within_pool_def s_def [symmetric] Let_def by blast
qed

text \<open>
  An address that \<open>resolve\<close> returns is the one recorded for the name, and until the entry
  expires looking the address up gives the normalised name back.
\<close>

theorem fake_ip_resolve_reverse:
  assumes "resolve now later domain (fake_ip_run (new_fake_ip_store network prefix capacity ttl) calls)
      = (Inr a, s')"
  shows "\<exists>e. um_find (fi_by_domain s') (normalize_name domain) = Some e \<and> fe_address e = a \<and>
    (still_valid t e \<longrightarrow> fst (reverse t a s') = Some (normalize_name domain))"
proof -
  let ?s = "fake_ip_run (new_fake_ip_store network prefix capacity ttl) calls"
  have c: "fi_consistent ?s" by (rule fi_consistent_run)
  have c': "fi_consistent s'"
    using fi_consistent_resolve [OF c, of now later domain] assms by simp
  have "\<exists>e. um_find (fi_by_domain s') (normalize_name domain) = Some e \<and> fe_address e = a"
    by (rule resolve_cases [OF c, where now = now and domain = domain and later = later])
      (use assms in \<open>auto simp: um_find_emplace um_contains_def\<close>)
  then obtain e where e: "um_find (fi_by_domain s') (normalize_name domain) = Some e" "fe_address e = a"
    by blast
  have t: "tables_agree s'" using c' by (simp add: fi_consistent_def)
  have "fst (reverse t a s') = Some (normalize_name domain)" if "still_valid t e"
  proof -
    have t2: "tables_agree (purge_expired t s')" by (rule tables_agree_purge [OF t])
    have "um_find (fi_by_domain (purge_expired t s')) (normalize_name domain) = Some e"
      using e that tables_agreeD(1) [OF t]
      by (simp add: purge_expired_def purge_scan_filter um_find_filter del: still_valid.simps)
    with e(2) have "um_find (fi_by_address (purge_expired t s')) a = Some (normalize_name domain)"
      by (auto simp: tables_agreeD(3) [OF t2])
    then show ?thesis by (simp add: reverse_def Let_def)
  qed
  with e show ?thesis by blast
qed

text \<open>
  C4: The allocation loop never gives up early: \<open>resolve\<close> fails exactly for an empty name, or for
  an unknown one when the (purged) store already holds its capacity.
\<close>

theorem fake_ip_resolve_fails_iff:
  "let s = fake_ip_run (new_fake_ip_store network prefix capacity ttl) calls in
    succeeds (fst (resolve now later domain s)) \<longleftrightarrow>
    normalize_name domain \<noteq> [] \<and>
    (um_contains (fi_by_domain (purge_expired now s)) (normalize_name domain) \<or>
     length (fi_by_domain (purge_expired now s)) < fi_capacity (purge_expired now s))"
proof -
  define s where "s = fake_ip_run (new_fake_ip_store network prefix capacity ttl) calls"
  have c: "fi_consistent s" unfolding s_def by (rule fi_consistent_run)
  show ?thesis
    unfolding s_def [symmetric] Let_def
    by (rule resolve_cases [OF c, where now = now and domain = domain and later = later])
      (simp_all add: um_contains_def)
qed

section \<open>Witnesses\<close>

text \<open>A pool of two addresses, 10.0.0.1 and 10.0.0.2, with entries that live ten seconds.\<close>

abbreviation sample_calls :: "fake_ip_call list" where
  "sample_calls \<equiv> [Call_resolve 0 0 ''a.org'', Call_release 5 ''A.org.'', Call_resolve 6 6 ''b.org'']"

lemma sample_run:
  "um_find (fi_by_address (fake_ip_run (new_fake_ip_store 0x0A000000 30 2 10) sample_calls))
     0x0A000002 = Some ''b.org''"
  by code_simp

lemma sample_resolve:
  "fst (resolve 7 7 ''c.org'' (fake_ip_run (new_fake_ip_store 0x0A000000 30 2 10) sample_calls)) =
     Inr 0x0A000001"
  by code_simp

theorem fake_ip_tables_consistent_witness:
  "um_find (fi_by_address (fake_ip_run (new_fake_ip_store 0x0A000000 30 2 10) sample_calls))
     0x0A000002 = Some ''b.org'' \<and>
   unat (fi_network (fake_ip_run (new_fake_ip_store 0x0A000000 30 2 10) sample_calls))
     < unat (0x0A000002 :: u32)"
  using fake_ip_tables_consistent [of "0x0A000000" 30 2 10 sample_calls "0x0A000002" "''b.org''"]
    sample_run
  unfolding Let_def by blast

lemma sample_valid:
  "map_option (still_valid 8) (um_find (fi_by_domain (snd (resolve 7 7 ''c.org''
     (fake_ip_run (new_fake_ip_store 0x0A000000 30 2 10) sample_calls)))) (normalize_name ''c.org''))
   = Some True"
  by code_simp

theorem fake_ip_resolve_reverse_witness:
  "\<exists>s'. resolve 7 7 ''c.org'' (fake_ip_run (new_fake_ip_store 0x0A000000 30 2 10) sample_calls)
      = (Inr 0x0A000001, s') \<and>
    fst (reverse 8 0x0A000001 s') = Some (normalize_name ''c.org'')"
proof -
  obtain s' where s': "resolve 7 7 ''c.org''
      (fake_ip_run (new_fake_ip_store 0x0A000000 30 2 10) sample_calls) = (Inr 0x0A000001, s')"
    using sample_resolve by (metis prod.collapse)
  with fake_ip_resolve_reverse [OF s', of 8] sample_valid show ?thesis
    by (auto simp del: still_valid.simps)
qed

end
