(* ===== verification/Dependency_Structure.thy ===== *)
theory Dependency_Structure
  imports Unordered_Map
begin

text \<open>
  Structures whose entries name other entries, as the resolver graph and the outbound registry
  are: \<open>succs x\<close> lists what \<open>x\<close> names, \<open>None\<close> when \<open>x\<close> is unknown. An entry is grounded when
  following the names can neither reach an unknown entry nor go on for ever. The locale
  \<open>path_check\<close> is the interface of a recursive check that carries the path of entries being
  visited: it accepts exactly the grounded entries.
\<close>

definition names :: "('a \<Rightarrow> 'a list option) \<Rightarrow> ('a \<times> 'a) set" where
  "names succs = {(x, y). \<exists>ys. succs x = Some ys \<and> y \<in> set ys}"

inductive grounded :: "('a \<Rightarrow> 'a list option) \<Rightarrow> 'a \<Rightarrow> bool" for succs where
  groundedI: "succs x = Some ys \<Longrightarrow> \<forall>y\<in>set ys. grounded succs y \<Longrightarrow> grounded succs x"

inductive_cases groundedE: "grounded succs x"
inductive_simps grounded_iff: "grounded succs x"

lemma names_iff: "(x, y) \<in> names succs \<longleftrightarrow> (\<exists>ys. succs x = Some ys \<and> y \<in> set ys)"
  by (simp add: names_def)

lemma grounded_known: "grounded succs x \<Longrightarrow> succs x \<noteq> None"
  by (auto elim: groundedE)

lemma grounded_step: "grounded succs x \<Longrightarrow> (x, y) \<in> names succs \<Longrightarrow> grounded succs y"
  by (auto simp: names_iff elim: groundedE)

lemma grounded_reach: "(x, y) \<in> (names succs)\<^sup>* \<Longrightarrow> grounded succs x \<Longrightarrow> grounded succs y"
  by (induction rule: rtrancl_induct) (auto intro: grounded_step)

lemma grounded_no_cycle: "grounded succs x \<Longrightarrow> (x, x) \<notin> (names succs)\<^sup>+"
proof (induction rule: grounded.induct)
  case (groundedI x ys)
  show ?case
  proof
    assume "(x, x) \<in> (names succs)\<^sup>+"
    then obtain y where y: "(x, y) \<in> names succs" "(y, x) \<in> (names succs)\<^sup>*"
      by (auto dest: tranclD)
    then have "(y, y) \<in> (names succs)\<^sup>+"
      by (metis rtrancl_into_trancl1)
    with y(1) groundedI show False by (auto simp: names_iff)
  qed
qed

lemma finite_names:
  assumes "finite (dom succs)"
  shows "finite (names succs)"
proof -
  have "names succs \<subseteq> (\<Union>x\<in>dom succs. {x} \<times> set (the (succs x)))"
    by (auto simp: names_def)
  moreover have "finite (\<Union>x\<in>dom succs. {x} \<times> set (the (succs x)))"
    using assms by auto
  ultimately show ?thesis by (rule finite_subset)
qed

lemma grounded_from_acyclic:
  assumes "finite (dom succs)" and "acyclic (names succs)"
    and "\<And>y. (x, y) \<in> (names succs)\<^sup>* \<Longrightarrow> succs y \<noteq> None"
  shows "grounded succs x"
proof -
  have "wf ((names succs)\<inverse>)"
    by (rule finite_acyclic_wf_converse [OF finite_names [OF assms(1)] assms(2)])
  then show ?thesis
    using assms(3)
  proof (induction x rule: wf_induct_rule)
    case (less x)
    from less.prems [of x] obtain ys where ys: "succs x = Some ys" by auto
    have "grounded succs y" if "y \<in> set ys" for y
    proof (rule less.IH)
      show "(y, x) \<in> (names succs)\<inverse>" using ys that by (auto simp: names_iff)
      fix z assume "(y, z) \<in> (names succs)\<^sup>*"
      then have "(x, z) \<in> (names succs)\<^sup>*"
        using ys that by (meson converse_rtrancl_into_rtrancl names_iff)
      then show "succs z \<noteq> None" by (rule less.prems)
    qed
    with ys show ?case by (auto intro: groundedI)
  qed
qed

text \<open>All entries of a finite structure are grounded iff it has no cycle and is closed.\<close>

lemma all_grounded_iff:
  assumes "finite (dom succs)"
  shows "(\<forall>x\<in>dom succs. grounded succs x) \<longleftrightarrow>
    acyclic (names succs) \<and> (\<forall>x ys. succs x = Some ys \<longrightarrow> set ys \<subseteq> dom succs)" (is "?g \<longleftrightarrow> ?a \<and> ?c")
proof
  assume g: ?g
  have "(x, x) \<notin> (names succs)\<^sup>+" for x
  proof
    assume c: "(x, x) \<in> (names succs)\<^sup>+"
    then have "x \<in> dom succs" by (auto simp: names_iff dest!: tranclD)
    with g have "grounded succs x" by (rule bspec)
    from grounded_no_cycle [OF this] c show False by (rule notE)
  qed
  moreover have ?c
  proof (intro allI impI subsetI)
    fix x ys y assume "succs x = Some ys" "y \<in> set ys"
    then have "(x, y) \<in> names succs" "grounded succs x" using g by (auto simp: names_iff)
    then have "grounded succs y" by (rule grounded_step [rotated])
    then show "y \<in> dom succs" using grounded_known by (auto simp: domIff)
  qed
  ultimately show "?a \<and> ?c" by (simp add: acyclic_def)
next
  assume ac: "?a \<and> ?c"
  have closed: "succs y \<noteq> None" if "(x, y) \<in> (names succs)\<^sup>*" "x \<in> dom succs" for x y
    using that
  proof (induction rule: rtrancl_induct)
    case (step y z)
    with ac have "z \<in> dom succs" by (fastforce simp: names_iff)
    then show ?case by (auto simp: domIff)
  qed auto
  show ?g
  proof
    fix x assume "x \<in> dom succs"
    with closed show "grounded succs x"
      using ac by (intro grounded_from_acyclic [OF assms]) blast+
  qed
qed

section \<open>Checking along a path\<close>

text \<open>
  A leaf is accepted wherever it stands; any other known entry is accepted when it is not on the
  path and everything it names is accepted below it.
\<close>

locale path_check =
  fixes succs :: "'a \<Rightarrow> 'a list option"
    and leaf :: "'a \<Rightarrow> bool"
    and accepts :: "'a \<Rightarrow> 'a list \<Rightarrow> bool"
  assumes finite_dom: "finite (dom succs)"
    and leaf: "leaf x \<Longrightarrow> succs x = Some [] \<and> accepts x path"
    and unknown: "succs x = None \<Longrightarrow> \<not> accepts x path"
    and known: "\<not> leaf x \<Longrightarrow> succs x = Some ys \<Longrightarrow>
      accepts x path \<longleftrightarrow> x \<notin> set path \<and> (\<forall>y\<in>set ys. accepts y (path @ [x]))"
begin

lemma accepts_grounded:
  assumes "accepts x path"
  shows "grounded succs x"
  using assms
proof (induction "card (dom succs - set path)" arbitrary: x path rule: less_induct)
  case less
  then obtain ys where ys: "succs x = Some ys" using unknown by (cases "succs x") auto
  show ?case
  proof (cases "leaf x")
    case True
    then show ?thesis using leaf [of x] by (auto intro: groundedI)
  next
    case False
    with ys less.prems have x: "x \<notin> set path" and all: "\<forall>y\<in>set ys. accepts y (path @ [x])"
      by (auto simp: known)
    have "dom succs - set (path @ [x]) \<subset> dom succs - set path"
      using x ys by auto
    then have "card (dom succs - set (path @ [x])) < card (dom succs - set path)"
      using finite_dom by (intro psubset_card_mono) auto
    then have "grounded succs y" if "y \<in> set ys" for y
      using less.hyps all that by blast
    with ys show ?thesis by (intro groundedI) auto
  qed
qed

text \<open>Conversely a grounded entry is accepted on every path of entries above it.\<close>

lemma grounded_accepts:
  assumes "grounded succs x" "\<And>p. p \<in> set path \<Longrightarrow> (p, x) \<in> (names succs)\<^sup>+"
  shows "accepts x path"
  using assms
proof (induction arbitrary: path rule: grounded.induct)
  case (groundedI x ys)
  then have g: "grounded succs x" by (intro grounded.groundedI) auto
  have "x \<notin> set path" using groundedI.prems grounded_no_cycle [OF g] by blast
  moreover have "accepts y (path @ [x])" if "y \<in> set ys" for y
  proof -
    have xy: "(x, y) \<in> names succs" using groundedI.hyps that by (auto simp: names_iff)
    have "(p, y) \<in> (names succs)\<^sup>+" if "p \<in> set (path @ [x])" for p
      using that groundedI.prems xy by (auto intro: trancl_into_trancl)
    then show ?thesis using groundedI.IH that by simp
  qed
  ultimately show ?case using groundedI.hyps leaf [of x path] by (cases "leaf x") (simp_all add: known)
qed

lemma accepts_iff: "accepts x [] \<longleftrightarrow> grounded succs x"
  using accepts_grounded grounded_accepts [of x "[]"] by auto

end

end
