(* ===== verification/Dependency_Graph.thy ===== *)
theory Dependency_Graph
  imports Dependency_Structure Core_Types
begin

text \<open>
  \<^verbatim>\<open>src/dns/resolver_graph.cpp\<close>: the graph of resolvers, upstreams, outbounds and endpoints,
  and its validation: a depth-first search with a path and a list of finished nodes, then a walk
  from every bootstrap resolver. The vectors passed by reference are arguments and results; the
  path is only an argument, since every \<^verbatim>\<open>push\<close> is undone by a \<^verbatim>\<open>pop\<close> before returning.
\<close>

section \<open>Data and operations\<close>

datatype resolver_role = Role_bootstrap | Role_default_resolver | Role_proxy_endpoint | Role_direct

datatype dependency_node_kind =
    Kind_resolver | Kind_dns_upstream | Kind_outbound | Kind_outbound_group | Kind_proxy_endpoint

record resolver_node =
  rn_kind :: dependency_node_kind
  rn_role :: "resolver_role option"
  rn_dependencies :: "string list"

type_synonym dependency_graph = "(string, resolver_node) umap"

definition add_node ::
  "string \<Rightarrow> dependency_node_kind \<Rightarrow> dependency_graph \<Rightarrow> status \<times> dependency_graph" where
  "add_node ident kind g =
     (if ident = [] then (Inl (mk_error Configuration ''dependency node ID is required''), g)
      else if um_contains g ident
      then (Inl (mk_error Configuration (''duplicate dependency node ID: '' @ ident)), g)
      else (Inr (), um_emplace ident
              \<lparr>rn_kind = kind, rn_role = None, rn_dependencies = []\<rparr> g))"

definition role_holder :: "resolver_role \<Rightarrow> dependency_graph \<Rightarrow> (string \<times> resolver_node) option" where
  "role_holder role g = List.find (\<lambda>p. rn_role (snd p) = Some role) g"

definition add_resolver ::
  "string \<Rightarrow> resolver_role \<Rightarrow> dependency_graph \<Rightarrow> status \<times> dependency_graph" where
  "add_resolver ident role g =
     (if ident = [] then (Inl (mk_error Configuration ''resolver ID is required''), g)
      else if um_contains g ident
      then (Inl (mk_error Configuration (''duplicate resolver ID: '' @ ident)), g)
      else case role_holder role g of
        Some (existing_id, _) \<Rightarrow>
          (Inl (mk_error Configuration (''duplicate resolver role for: '' @ existing_id)), g)
      | None \<Rightarrow>
          (Inr (), um_emplace ident
             \<lparr>rn_kind = Kind_resolver, rn_role = Some role, rn_dependencies = []\<rparr> g))"

definition add_dns_upstream :: "string \<Rightarrow> dependency_graph \<Rightarrow> status \<times> dependency_graph" where
  "add_dns_upstream ident = add_node ident Kind_dns_upstream"

definition add_graph_outbound :: "string \<Rightarrow> dependency_graph \<Rightarrow> status \<times> dependency_graph" where
  "add_graph_outbound ident = add_node ident Kind_outbound"

definition add_outbound_group :: "string \<Rightarrow> dependency_graph \<Rightarrow> status \<times> dependency_graph" where
  "add_outbound_group ident = add_node ident Kind_outbound_group"

definition add_proxy_endpoint :: "string \<Rightarrow> dependency_graph \<Rightarrow> status \<times> dependency_graph" where
  "add_proxy_endpoint ident = add_node ident Kind_proxy_endpoint"

definition add_dependency ::
  "string \<Rightarrow> string \<Rightarrow> dependency_graph \<Rightarrow> status \<times> dependency_graph" where
  "add_dependency resolver_id dependency_id g =
     (case um_find g resolver_id of
        None \<Rightarrow> (Inl (mk_error Configuration (''unknown resolver: '' @ resolver_id)), g)
      | Some node \<Rightarrow>
          if \<not> um_contains g dependency_id
          then (Inl (mk_error Configuration (''unknown resolver dependency: '' @ dependency_id)), g)
          else if dependency_id \<notin> set (rn_dependencies node)
          then (Inr (), um_assign resolver_id
                  (node\<lparr>rn_dependencies := rn_dependencies node @ [dependency_id]\<rparr>) g)
          else (Inr (), g))"

definition graph_kind :: "dependency_graph \<Rightarrow> string \<Rightarrow> dependency_node_kind option" where
  "graph_kind g ident = map_option rn_kind (um_find g ident)"

definition graph_dependencies :: "dependency_graph \<Rightarrow> string \<Rightarrow> string list option" where
  "graph_dependencies g ident = map_option rn_dependencies (um_find g ident)"

definition graph_role :: "dependency_graph \<Rightarrow> string \<Rightarrow> resolver_role option" where
  "graph_role g ident = (case um_find g ident of None \<Rightarrow> None | Some node \<Rightarrow> rn_role node)"

section \<open>Validation\<close>

lemma finite_graph_dependencies [simp]: "finite (dom (graph_dependencies g))"
proof -
  have "dom (graph_dependencies g) = fst ` set g"
    by (auto simp: graph_dependencies_def um_find_dom [symmetric] dom_def)
  then show ?thesis by simp
qed

lemma path_card_less:
  assumes "finite (dom f)" "f ident \<noteq> None" "ident \<notin> set path"
  shows "card (dom f - set (path @ [ident])) < card (dom f - set path)"
proof -
  have "dom f - set (path @ [ident]) \<subset> dom f - set path"
    using assms by auto
  then show ?thesis using assms(1) by (intro psubset_card_mono) auto
qed

text \<open>\<open>visit_all\<close> is the loop over the dependencies of the node on top of the path.\<close>

function (sequential)
  visit :: "dependency_graph \<Rightarrow> string \<Rightarrow> string list \<Rightarrow> string list \<Rightarrow> status \<times> string list"
  and visit_all ::
    "dependency_graph \<Rightarrow> string list \<Rightarrow> string list \<Rightarrow> string list \<Rightarrow> status \<times> string list" where
  "visit g ident visiting visited =
     (if ident \<in> set visited then (Inr (), visited)
      else if ident \<in> set visiting
      then (Inl (mk_error Configuration (''dependency cycle at: '' @ ident)), visited)
      else case um_find g ident of
        None \<Rightarrow> (Inl (mk_error Configuration (''unknown resolver dependency: '' @ ident)), visited)
      | Some node \<Rightarrow>
          (case visit_all g (rn_dependencies node) (visiting @ [ident]) visited of
             (Inl e, visited') \<Rightarrow> (Inl e, visited')
           | (Inr _, visited') \<Rightarrow> (Inr (), visited' @ [ident])))"
| "visit_all g [] visiting visited = (Inr (), visited)"
| "visit_all g (dependency # rest) visiting visited =
     (case visit g dependency visiting visited of
        (Inl e, visited') \<Rightarrow> (Inl e, visited')
      | (Inr _, visited') \<Rightarrow> visit_all g rest visiting visited')"
  by pat_completeness auto

termination
proof (relation "measures
    [\<lambda>x. case x of
        Inl (g, ident, visiting, visited) \<Rightarrow> card (dom (graph_dependencies g) - set visiting)
      | Inr (g, ds, visiting, visited) \<Rightarrow> card (dom (graph_dependencies g) - set visiting),
     \<lambda>x. case x of Inl _ \<Rightarrow> 0 | Inr (g, ds, visiting, visited) \<Rightarrow> length ds]")
  fix g :: dependency_graph and ident visiting visited node
  assume "ident \<notin> set visiting" "um_find g ident = Some node"
  then have "card (dom (graph_dependencies g) - set (visiting @ [ident]))
      < card (dom (graph_dependencies g) - set visiting)"
    by (intro path_card_less) (auto simp: graph_dependencies_def)
  then show "(Inr (g, rn_dependencies node, visiting @ [ident], visited),
       Inl (g, ident, visiting, visited))
      \<in> measures
    [\<lambda>x. case x of
        Inl (g, ident, visiting, visited) \<Rightarrow> card (dom (graph_dependencies g) - set visiting)
      | Inr (g, ds, visiting, visited) \<Rightarrow> card (dom (graph_dependencies g) - set visiting),
     \<lambda>x. case x of Inl _ \<Rightarrow> 0 | Inr (g, ds, visiting, visited) \<Rightarrow> length ds]"
    by simp
qed simp_all

fun visit_nodes :: "dependency_graph \<Rightarrow> string list \<Rightarrow> string list \<Rightarrow> status" where
  "visit_nodes g [] visited = Inr ()"
| "visit_nodes g (ident # ids) visited =
     (case visit g ident [] visited of
        (Inl e, _) \<Rightarrow> Inl e
      | (Inr _, visited') \<Rightarrow> visit_nodes g ids visited')"

text \<open>The walk from one bootstrap resolver; \<open>pending\<close> is used from its end.\<close>

function bootstrap_walk :: "dependency_graph \<Rightarrow> string list \<Rightarrow> string list \<Rightarrow> status" where
  "bootstrap_walk g pending visited =
     (if pending = [] then Inr ()
      else
        let current = last pending; pending = butlast pending in
        if current \<in> set visited then bootstrap_walk g pending visited
        else case um_find g current of
          None \<Rightarrow> Inl (mk_error Configuration (''unknown bootstrap dependency: '' @ current))
        | Some dependency \<Rightarrow>
            if rn_role dependency \<noteq> None
            then Inl (mk_error Configuration
                   (''bootstrap resolver transitively depends on resolver: '' @ current))
            else bootstrap_walk g (pending @ rn_dependencies dependency) (visited @ [current]))"
  by pat_completeness auto

termination
proof (relation "measures
    [\<lambda>(g, pending, visited). card (dom (graph_dependencies g) - set visited),
     \<lambda>(g, pending, visited). length pending]")
  fix g :: dependency_graph and pending current rest visited dependency
  assume "current \<notin> set visited" "um_find g current = Some dependency"
  then have "card (dom (graph_dependencies g) - set (visited @ [current]))
      < card (dom (graph_dependencies g) - set visited)"
    by (intro path_card_less) (auto simp: graph_dependencies_def)
  then show "((g, rest @ rn_dependencies dependency, visited @ [current]), g, pending, visited)
      \<in> measures
    [\<lambda>(g, pending, visited). card (dom (graph_dependencies g) - set visited),
     \<lambda>(g, pending, visited). length pending]"
    by simp
qed simp_all

declare visit.simps [simp del] bootstrap_walk.simps [simp del]

fun bootstrap_checks :: "dependency_graph \<Rightarrow> (string \<times> resolver_node) list \<Rightarrow> status" where
  "bootstrap_checks g [] = Inr ()"
| "bootstrap_checks g ((ident, node) # rest) =
     (if rn_role node \<noteq> Some Role_bootstrap then bootstrap_checks g rest
      else case bootstrap_walk g (rn_dependencies node) [] of
        Inl e \<Rightarrow> Inl e
      | Inr _ \<Rightarrow> bootstrap_checks g rest)"

definition validate_graph :: "dependency_graph \<Rightarrow> status" where
  "validate_graph g =
     (case visit_nodes g (um_keys g) [] of
        Inl e \<Rightarrow> Inl e
      | Inr _ \<Rightarrow> bootstrap_checks g g)"

section \<open>The search accepts the grounded graphs\<close>

abbreviation depends :: "dependency_graph \<Rightarrow> (string \<times> string) set" where
  "depends g \<equiv> names (graph_dependencies g)"

lemma depends_iff:
  "(x, y) \<in> depends g \<longleftrightarrow> (\<exists>node. um_find g x = Some node \<and> y \<in> set (rn_dependencies node))"
  by (auto simp: names_iff graph_dependencies_def)

lemma visit_sound:
  "(\<forall>v\<in>set visited. grounded (graph_dependencies g) v) \<Longrightarrow>
     visit g ident visiting visited = (Inr u, visited') \<Longrightarrow>
     grounded (graph_dependencies g) ident \<and> (\<forall>v\<in>set visited'. grounded (graph_dependencies g) v)"
  "(\<forall>v\<in>set visited. grounded (graph_dependencies g) v) \<Longrightarrow>
     visit_all g ds visiting visited = (Inr u, visited') \<Longrightarrow>
     (\<forall>d\<in>set ds. grounded (graph_dependencies g) d) \<and>
     (\<forall>v\<in>set visited'. grounded (graph_dependencies g) v)"
proof (induction g ident visiting visited and g ds visiting visited
    arbitrary: u visited' and u visited' rule: visit_visit_all.induct)
  case (1 g ident visiting visited)
  show ?case
  proof (cases "ident \<in> set visited")
    case True
    with 1 show ?thesis by (simp add: visit.simps)
  next
    case False
    with "1.prems"(2) obtain node v where node: "um_find g ident = Some node" "ident \<notin> set visiting"
      and r: "visit_all g (rn_dependencies node) (visiting @ [ident]) visited = (Inr (), v)"
      "visited' = v @ [ident]"
      by (auto simp: visit.simps split: if_splits option.splits prod.splits sum.splits)
    from "1.IH" [OF False node(2,1) "1.prems"(1) r(1)]
    have "\<forall>d\<in>set (rn_dependencies node). grounded (graph_dependencies g) d"
      and v: "\<forall>v\<in>set v. grounded (graph_dependencies g) v"
      by blast+
    then have "grounded (graph_dependencies g) ident"
      using node by (intro groundedI) (simp_all add: graph_dependencies_def)
    with v r(2) show ?thesis by auto
  qed
next
  case (2 g visiting visited)
  then show ?case by simp
next
  case (3 g d ds visiting visited)
  from "3.prems"(2) obtain v where v: "visit g d visiting visited = (Inr (), v)"
    and r: "visit_all g ds visiting v = (Inr u, visited')"
    by (auto split: prod.splits sum.splits)
  from "3.IH"(1) [OF "3.prems"(1) v]
  have d: "grounded (graph_dependencies g) d" "\<forall>v\<in>set v. grounded (graph_dependencies g) v"
    by blast+
  from "3.IH"(2) [OF v [symmetric] refl d(2) r] d(1) show ?case by simp
qed

lemma visit_complete:
  "grounded (graph_dependencies g) ident \<Longrightarrow> (\<forall>p\<in>set visiting. (p, ident) \<in> (depends g)\<^sup>+) \<Longrightarrow>
     \<exists>visited'. visit g ident visiting visited = (Inr (), visited')"
  "(\<forall>d\<in>set ds. grounded (graph_dependencies g) d \<and> (\<forall>p\<in>set visiting. (p, d) \<in> (depends g)\<^sup>+)) \<Longrightarrow>
     \<exists>visited'. visit_all g ds visiting visited = (Inr (), visited')"
proof (induction g ident visiting visited and g ds visiting visited rule: visit_visit_all.induct)
  case (1 g ident visiting visited)
  obtain ds where ds: "graph_dependencies g ident = Some ds" "\<forall>d\<in>set ds. grounded (graph_dependencies g) d"
    using "1.prems"(1) by (rule groundedE)
  then obtain node where node: "um_find g ident = Some node" "ds = rn_dependencies node"
    by (auto simp: graph_dependencies_def)
  have nv: "ident \<notin> set visiting"
  proof
    assume "ident \<in> set visiting"
    with "1.prems"(2) have "(ident, ident) \<in> (depends g)\<^sup>+" by (rule bspec)
    with grounded_no_cycle [OF "1.prems"(1)] show False by contradiction
  qed
  show ?case
  proof (cases "ident \<in> set visited")
    case True
    then show ?thesis by (simp add: visit.simps)
  next
    case False
    have "(p, d) \<in> (depends g)\<^sup>+" if "d \<in> set ds" "p \<in> set (visiting @ [ident])" for p d
    proof -
      have "(ident, d) \<in> depends g" using that ds(1) by (auto simp: names_iff)
      then show ?thesis using that(2) "1.prems"(2) by (auto intro: trancl_into_trancl)
    qed
    then have "\<exists>v. visit_all g (rn_dependencies node) (visiting @ [ident]) visited = (Inr (), v)"
      using "1.IH" [OF False nv node(1)] ds(2) node(2) by blast
    then show ?thesis
      using False nv node by (auto simp: visit.simps)
  qed
next
  case (2 g visiting visited)
  then show ?case by simp
next
  case (3 g d ds visiting visited)
  then obtain v where v: "visit g d visiting visited = (Inr (), v)" by auto
  with "3.IH"(2) [OF v [symmetric] refl] "3.prems" show ?case by auto
qed

lemma visit_nodes_iff:
  "(\<forall>v\<in>set visited. grounded (graph_dependencies g) v) \<Longrightarrow>
     visit_nodes g ids visited = Inr () \<longleftrightarrow> (\<forall>i\<in>set ids. grounded (graph_dependencies g) i)"
proof (induction ids arbitrary: visited)
  case (Cons i ids)
  show ?case
  proof (cases "fst (visit g i [] visited)")
    case (Inl e)
    then have "\<not> grounded (graph_dependencies g) i"
      using visit_complete(1) [of g i "[]" visited] by auto
    with Inl show ?thesis by (auto split: prod.splits)
  next
    case (Inr u)
    then obtain v where v: "visit g i [] visited = (Inr (), v)" by (cases "visit g i [] visited") auto
    with visit_sound(1) [OF Cons.prems v] Cons.IH [of v] show ?thesis by simp
  qed
qed simp

section \<open>The bootstrap walk\<close>

definition plain_node :: "dependency_graph \<Rightarrow> string \<Rightarrow> bool" where
  "plain_node g x \<longleftrightarrow> (\<exists>node. um_find g x = Some node \<and> rn_role node = None)"

lemma bootstrap_walk_iff:
  assumes "\<forall>x\<in>set visited. plain_node g x \<and> depends g `` {x} \<subseteq> set visited \<union> set pending"
  shows "bootstrap_walk g pending visited = Inr () \<longleftrightarrow>
    (\<forall>x\<in>(depends g)\<^sup>* `` set pending. plain_node g x)"
  using assms
proof (induction g pending visited rule: bootstrap_walk.induct)
  case (1 g pending visited)
  let ?R = "(depends g)\<^sup>*"
  show ?case
  proof (cases "pending = []")
    case True
    then show ?thesis by (simp add: bootstrap_walk.simps)
  next
    case False
    define c rest where "c = last pending" and "rest = butlast pending"
    have split: "set pending = insert c (set rest)"
      using False append_butlast_last_id [OF False] by (metis c_def rest_def list.simps(15)
          rotate1.simps(2) set_rotate1 empty_set append_Nil2 Un_insert_right set_append)
    show ?thesis
    proof (cases "c \<in> set visited")
      case True
      have "(x, y) \<in> ?R \<Longrightarrow> x \<in> set visited \<Longrightarrow> y \<in> set visited \<union> ?R `` set rest" for x y
      proof (induction rule: rtrancl_induct)
        case (step y z)
        with "1.prems" split True show ?case by (auto intro: rtrancl_into_rtrancl)
      qed simp
      then have "(\<forall>x\<in>?R `` set pending. plain_node g x) \<longleftrightarrow> (\<forall>x\<in>?R `` set rest. plain_node g x)"
        using "1.prems" True unfolding split by blast
      moreover have "bootstrap_walk g pending visited = bootstrap_walk g rest visited"
        using False True by (simp add: bootstrap_walk.simps [of g pending] c_def rest_def)
      moreover have "\<forall>x\<in>set visited. plain_node g x \<and> depends g `` {x} \<subseteq> set visited \<union> set rest"
        using "1.prems" True unfolding split by blast
      ultimately show ?thesis
        using "1.IH"(1) [OF False c_def rest_def True] by simp
    next
      case new: False
      show ?thesis
      proof (cases "plain_node g c")
        case True
        then obtain node where node: "um_find g c = Some node" "rn_role node = None"
          by (auto simp: plain_node_def)
        let ?p = "rest @ rn_dependencies node" and ?v = "visited @ [c]"
        have deps: "depends g `` {c} = set (rn_dependencies node)"
          using node by (auto simp: depends_iff)
        have "?R `` {c} = insert c (?R `` set (rn_dependencies node))"
        proof -
          have "?R `` {c} = {c} \<union> (depends g O ?R) `` {c}"
            using rtrancl_unfold [of "depends g"] r_comp_rtrancl_eq [of "depends g"] by auto
          then show ?thesis using deps by auto
        qed
        moreover have "?R `` insert c (set rest) = ?R `` {c} \<union> ?R `` set rest" by blast
        ultimately have "?R `` set pending = insert c (?R `` set ?p)"
          unfolding split set_append Image_Un by blast
        then have "(\<forall>x\<in>?R `` set pending. plain_node g x) \<longleftrightarrow> (\<forall>x\<in>?R `` set ?p. plain_node g x)"
          using True by simp
        moreover have "bootstrap_walk g pending visited = bootstrap_walk g ?p ?v"
          using False new node by (simp add: bootstrap_walk.simps [of g pending] c_def rest_def Let_def)
        moreover have "\<forall>x\<in>set ?v. plain_node g x \<and> depends g `` {x} \<subseteq> set ?v \<union> set ?p"
          using "1.prems" True deps unfolding split by auto
        moreover have "\<not> rn_role node \<noteq> None" using node by simp
        ultimately show ?thesis
          using "1.IH"(2) [OF False c_def rest_def new node(1)] by simp
      next
        case bad: False
        then have "bootstrap_walk g pending visited \<noteq> Inr ()"
          using False new by (auto simp: bootstrap_walk.simps [of g pending] c_def [symmetric]
              plain_node_def Let_def split: option.splits)
        moreover have "c \<in> ?R `` set pending" unfolding split by auto
        ultimately show ?thesis using bad by blast
      qed
    qed
  qed
qed

section \<open>Graphs built by the operations\<close>

datatype graph_call =
    Add_node string dependency_node_kind
  | Add_resolver string resolver_role
  | Add_dependency string string

fun graph_step :: "graph_call \<Rightarrow> dependency_graph \<Rightarrow> dependency_graph" where
  "graph_step (Add_node i k) g = snd (add_node i k g)"
| "graph_step (Add_resolver i r) g = snd (add_resolver i r g)"
| "graph_step (Add_dependency i d) g = snd (add_dependency i d g)"

definition graph_of :: "graph_call list \<Rightarrow> dependency_graph" where
  "graph_of calls = fold graph_step calls []"

text \<open>
  The calls keep a graph closed (every named node exists), with non-empty names, dependencies
  listed once, and at most one resolver per role.
\<close>

definition graph_wf :: "dependency_graph \<Rightarrow> bool" where
  "graph_wf g \<longleftrightarrow> um_invar g \<and>
     (\<forall>x node. um_find g x = Some node \<longrightarrow>
        x \<noteq> [] \<and> distinct (rn_dependencies node) \<and> set (rn_dependencies node) \<subseteq> dom (um_find g)) \<and>
     (\<forall>x y r. graph_role g x = Some r \<longrightarrow> graph_role g y = Some r \<longrightarrow> x = y)"

lemma role_holder_None:
  "um_invar g \<Longrightarrow> role_holder r g = None \<longleftrightarrow> (\<forall>x. graph_role g x \<noteq> Some r)"
  by (auto simp: role_holder_def find_None_iff graph_role_def um_find_in_set split: option.splits)

lemma graph_wf_emplace:
  assumes "graph_wf g" "x \<noteq> []" "\<not> um_contains g x"
    and "role = None \<or> (\<forall>y. graph_role g y \<noteq> role)"
  shows "graph_wf (um_emplace x \<lparr>rn_kind = k, rn_role = role, rn_dependencies = []\<rparr> g)"
proof -
  let ?n = "\<lparr>rn_kind = k, rn_role = role, rn_dependencies = []\<rparr>"
  have f: "um_find (um_emplace x ?n g) = (um_find g)(x \<mapsto> ?n)"
    using assms(3) by (simp add: um_find_emplace)
  have r: "graph_role (um_emplace x ?n g) y = (if y = x then role else graph_role g y)" for y
    by (simp add: graph_role_def f)
  show ?thesis
    using assms unfolding graph_wf_def r f by (auto split: if_splits)
qed

lemma graph_wf_step: "graph_wf g \<Longrightarrow> graph_wf (graph_step call g)"
proof (cases call)
  case (Add_node i k)
  then show "graph_wf g \<Longrightarrow> ?thesis"
    using graph_wf_emplace [of g i None k] by (auto simp: add_node_def)
next
  case (Add_resolver i r)
  assume wf: "graph_wf g"
  then have "role_holder r g = None \<Longrightarrow> \<forall>y. graph_role g y \<noteq> Some r"
    by (simp add: role_holder_None graph_wf_def)
  with Add_resolver wf graph_wf_emplace [of g i "Some r" Kind_resolver] show ?thesis
    by (auto simp: add_resolver_def split: option.splits)
next
  case (Add_dependency i d)
  assume wf: "graph_wf g"
  show ?thesis
  proof (cases "um_find g i")
    case None
    with Add_dependency wf show ?thesis by (simp add: add_dependency_def)
  next
    case (Some node)
    show ?thesis
    proof (cases "um_contains g d \<and> d \<notin> set (rn_dependencies node)")
      case False
      with Add_dependency Some wf show ?thesis by (auto simp: add_dependency_def)
    next
      case True
      let ?n = "node\<lparr>rn_dependencies := rn_dependencies node @ [d]\<rparr>"
      have role: "graph_role (um_assign i ?n g) y = graph_role g y" for y
        using Some by (simp add: graph_role_def)
      have dom: "dom (um_find (um_assign i ?n g)) = dom (um_find g)" "d \<in> dom (um_find g)"
        using True Some by (auto simp: um_contains_def)
      have ok: "x \<noteq> [] \<and> distinct (rn_dependencies nd) \<and> set (rn_dependencies nd) \<subseteq> dom (um_find g)"
        if "um_find g x = Some nd" for x nd
        using wf that by (simp add: graph_wf_def)
      have "x \<noteq> [] \<and> distinct (rn_dependencies nd) \<and> set (rn_dependencies nd) \<subseteq> dom (um_find g)"
        if "um_find (um_assign i ?n g) x = Some nd" for x nd
        using that ok [of x nd] ok [OF Some] True dom(2) by (auto split: if_splits simp del: domIff)
      then have "graph_wf (um_assign i ?n g)"
        using wf unfolding graph_wf_def dom(1) role by (simp del: domIff)
      with True Add_dependency Some show ?thesis by (simp add: add_dependency_def)
    qed
  qed
qed

lemma graph_wf_of [simp]: "graph_wf (graph_of calls)"
proof -
  have "graph_wf g \<Longrightarrow> graph_wf (fold graph_step calls g)" for g
    by (induction calls arbitrary: g) (auto intro: graph_wf_step)
  moreover have "graph_wf []" by (simp add: graph_wf_def graph_role_def)
  ultimately show ?thesis by (simp add: graph_of_def)
qed

lemma set_keys_dom: "set (um_keys g) = dom (um_find g)"
  by (simp add: um_keys_def um_find_dom)

lemma bootstrap_checks_iff:
  "bootstrap_checks g ps = Inr () \<longleftrightarrow> (\<forall>(x, node)\<in>set ps. rn_role node = Some Role_bootstrap \<longrightarrow>
     (\<forall>y\<in>(depends g)\<^sup>* `` set (rn_dependencies node). plain_node g y))"
proof (induction ps)
  case (Cons p ps)
  obtain x node where p: "p = (x, node)" by (rule prod.exhaust)
  have w: "bootstrap_walk g (rn_dependencies node) [] = Inr () \<longleftrightarrow>
      (\<forall>y\<in>(depends g)\<^sup>* `` set (rn_dependencies node). plain_node g y)"
    by (rule bootstrap_walk_iff) simp
  show ?case
    using Cons.IH w by (auto simp: p split: sum.splits)
qed simp

lemma deps_reach:
  "um_find g b = Some node \<Longrightarrow>
     (depends g)\<^sup>* `` set (rn_dependencies node) = (depends g)\<^sup>+ `` {b}"
  by (auto simp: trancl_unfold_left depends_iff)

lemma validate_graph_iff:
  assumes "graph_wf g"
  shows "validate_graph g = Inr () \<longleftrightarrow> acyclic (depends g) \<and>
    graph_role g ` ((depends g)\<^sup>+ `` {b. graph_role g b = Some Role_bootstrap}) \<subseteq> {None}"
proof -
  have inv: "um_invar g" using assms by (simp add: graph_wf_def)
  have "visit_nodes g (um_keys g) [] = Inr () \<longleftrightarrow>
      (\<forall>x\<in>dom (graph_dependencies g). grounded (graph_dependencies g) x)"
    by (subst visit_nodes_iff) (simp_all add: set_keys_dom graph_dependencies_def dom_def)
  also have "\<dots> \<longleftrightarrow> acyclic (depends g) \<and>
      (\<forall>x ys. graph_dependencies g x = Some ys \<longrightarrow> set ys \<subseteq> dom (graph_dependencies g))"
    by (rule all_grounded_iff) simp
  also have "\<dots> \<longleftrightarrow> acyclic (depends g)"
    using assms by (auto simp: graph_wf_def graph_dependencies_def dom_def)
  finally have v: "visit_nodes g (um_keys g) [] = Inr () \<longleftrightarrow> acyclic (depends g)" .
  have known: "y \<in> dom (um_find g)" if "(b, y) \<in> (depends g)\<^sup>+" for b y
    using that assms by (induction rule: trancl_induct) (auto simp: depends_iff graph_wf_def)
  have "bootstrap_checks g g = Inr () \<longleftrightarrow>
      (\<forall>b node. um_find g b = Some node \<longrightarrow> rn_role node = Some Role_bootstrap \<longrightarrow>
         (\<forall>y\<in>(depends g)\<^sup>* `` set (rn_dependencies node). plain_node g y))"
    unfolding bootstrap_checks_iff um_find_in_set [OF inv] by blast
  also have "\<dots> \<longleftrightarrow>
      (\<forall>b node. um_find g b = Some node \<longrightarrow> rn_role node = Some Role_bootstrap \<longrightarrow>
         (\<forall>y\<in>(depends g)\<^sup>+ `` {b}. plain_node g y))"
    by (simp add: deps_reach cong: imp_cong del: Image_singleton_iff)
  also have "\<dots> \<longleftrightarrow>
      graph_role g ` ((depends g)\<^sup>+ `` {b. graph_role g b = Some Role_bootstrap}) \<subseteq> {None}"
  proof -
    have pn: "plain_node g y \<longleftrightarrow> graph_role g y = None" if "(b, y) \<in> (depends g)\<^sup>+" for b y
      using known [OF that] by (auto simp: plain_node_def graph_role_def)
    have boot: "graph_role g b = Some Role_bootstrap \<longleftrightarrow>
        (\<exists>node. um_find g b = Some node \<and> rn_role node = Some Role_bootstrap)" for b
      by (simp add: graph_role_def split: option.splits)
    show ?thesis
      unfolding image_subset_iff Image_def boot using pn by blast
  qed
  finally show ?thesis
    using v by (auto simp: validate_graph_def split: sum.splits)
qed

section \<open>Properties\<close>

text \<open>
  C5: A graph built by any sequence of calls validates exactly when its dependencies are acyclic
  and nothing a bootstrap resolver depends on, directly or through others, has a resolver role.
\<close>

theorem validate_graph_correct:
  "validate_graph (graph_of calls) = Inr () \<longleftrightarrow>
     acyclic (depends (graph_of calls)) \<and>
     graph_role (graph_of calls) ` ((depends (graph_of calls))\<^sup>+ ``
        {b. graph_role (graph_of calls) b = Some Role_bootstrap}) \<subseteq> {None}"
  by (rule validate_graph_iff) simp

text \<open>
  The calls never leave a dependency on a node that does not exist, a dependency listed twice,
  or two resolvers of one role.
\<close>

theorem graph_calls_wf: "graph_wf (graph_of calls)"
  by simp

section \<open>Witness\<close>

theorem validate_graph_correct_witness:
  "validate_graph (graph_of [Add_resolver ''b'' Role_bootstrap, Add_node ''u'' Kind_dns_upstream,
       Add_resolver ''d'' Role_direct, Add_dependency ''b'' ''u'', Add_dependency ''u'' ''d'',
       Add_dependency ''u'' ''d'']) \<noteq> Inr () \<and>
   validate_graph (graph_of [Add_resolver ''b'' Role_bootstrap, Add_node ''u'' Kind_dns_upstream,
       Add_resolver ''d'' Role_direct, Add_dependency ''b'' ''u'', Add_dependency ''d'' ''u'']) = Inr () \<and>
   acyclic (depends (graph_of [Add_resolver ''b'' Role_bootstrap, Add_node ''u'' Kind_dns_upstream,
       Add_resolver ''d'' Role_direct, Add_dependency ''b'' ''u'', Add_dependency ''d'' ''u'']))"
proof -
  have bad: "validate_graph (graph_of [Add_resolver ''b'' Role_bootstrap,
      Add_node ''u'' Kind_dns_upstream, Add_resolver ''d'' Role_direct, Add_dependency ''b'' ''u'',
      Add_dependency ''u'' ''d'', Add_dependency ''u'' ''d'']) \<noteq> Inr ()"
    by code_simp
  have "validate_graph (graph_of [Add_resolver ''b'' Role_bootstrap, Add_node ''u'' Kind_dns_upstream,
       Add_resolver ''d'' Role_direct, Add_dependency ''b'' ''u'', Add_dependency ''d'' ''u'']) = Inr ()"
    by code_simp
  with bad validate_graph_correct [of "[Add_resolver ''b'' Role_bootstrap,
      Add_node ''u'' Kind_dns_upstream, Add_resolver ''d'' Role_direct,
      Add_dependency ''b'' ''u'', Add_dependency ''d'' ''u'']"]
  show ?thesis by simp
qed

end
