(* ===== verification/Outbound_Registry.thy ===== *)
theory Outbound_Registry
  imports Dependency_Structure Core_Types
begin

text \<open>
  \<^verbatim>\<open>src/outbound/outbound_registry.cpp\<close>: named outbounds and groups of them, validation, the
  combined capabilities of a group, and round-robin selection. An outbound is an abstract value
  \<open>'o\<close>; its virtual \<^verbatim>\<open>capabilities()\<close> is the parameter \<open>caps\<close>. The atomic counters the const
  selection advances are a field of their own, a 64-bit word per group.
\<close>

section \<open>Data and operations\<close>

record 'o outbound_registry =
  or_outbounds :: "(string, 'o) umap"
  or_groups :: "(string, string list) umap"
  or_next_member :: "string \<Rightarrow> u64"

definition new_registry :: "'o outbound_registry" where
  "new_registry = \<lparr>or_outbounds = [], or_groups = [], or_next_member = (\<lambda>_. 0)\<rparr>"

definition add_outbound ::
  "string \<Rightarrow> 'o option \<Rightarrow> 'o outbound_registry \<Rightarrow> status \<times> 'o outbound_registry" where
  "add_outbound ident instance_opt r =
     (case instance_opt of
        None \<Rightarrow> (Inl (mk_error Configuration ''outbound ID and instance are required''), r)
      | Some out \<Rightarrow>
          if ident = []
          then (Inl (mk_error Configuration ''outbound ID and instance are required''), r)
          else if um_contains (or_outbounds r) ident \<or> um_contains (or_groups r) ident
          then (Inl (mk_error Configuration (''duplicate outbound entry: '' @ ident)), r)
          else (Inr (), r\<lparr>or_outbounds := um_emplace ident out (or_outbounds r)\<rparr>))"

definition add_group ::
  "string \<Rightarrow> string list \<Rightarrow> 'o outbound_registry \<Rightarrow> status \<times> 'o outbound_registry" where
  "add_group ident members r =
     (if ident = [] \<or> members = []
      then (Inl (mk_error Configuration ''outbound group ID and members are required''), r)
      else if um_contains (or_outbounds r) ident \<or> um_contains (or_groups r) ident
      then (Inl (mk_error Configuration (''duplicate outbound entry: '' @ ident)), r)
      else if list_ex (\<lambda>member. member = []) members
      then (Inl (mk_error Configuration ''outbound group members cannot be empty''), r)
      else (Inr (), r\<lparr>or_groups := um_emplace ident members (or_groups r),
              or_next_member := (or_next_member r)(ident := 0)\<rparr>))"

text \<open>What an entry names: a group its members, an outbound nothing.\<close>

definition registry_succs :: "'o outbound_registry \<Rightarrow> string \<Rightarrow> string list option" where
  "registry_succs r ident =
     (if um_contains (or_outbounds r) ident then Some [] else um_find (or_groups r) ident)"

lemma finite_um_find [simp]: "finite (dom (um_find m))"
  by (simp add: um_find_dom)

lemma finite_registry_succs [simp]: "finite (dom (registry_succs r))"
proof -
  have "dom (registry_succs r) \<subseteq> dom (um_find (or_outbounds r)) \<union> dom (um_find (or_groups r))"
    by (auto simp: registry_succs_def um_contains_def split: if_splits)
  then show ?thesis by (rule finite_subset) simp
qed

section \<open>Recursion over the groups\<close>

text \<open>
  The three recursive member functions share their shape: look the entry up, stop on a path that
  comes back, recurse into the members. The measure is the number of groups not on the path.
\<close>

abbreviation groups_left :: "'o outbound_registry \<Rightarrow> string list \<Rightarrow> nat" where
  "groups_left r visiting \<equiv> card (dom (um_find (or_groups r)) - set visiting)"

lemma groups_left_less:
  assumes "um_find (or_groups r) ident = Some members" "ident \<notin> set visiting"
  shows "groups_left r (visiting @ [ident]) < groups_left r visiting"
proof -
  have "dom (um_find (or_groups r)) - set (visiting @ [ident]) \<subset> dom (um_find (or_groups r)) - set visiting"
    using assms by auto
  then show ?thesis by (intro psubset_card_mono) simp_all
qed

function (sequential)
  validate_group :: "'o outbound_registry \<Rightarrow> string \<Rightarrow> string list \<Rightarrow> status"
  and validate_members :: "'o outbound_registry \<Rightarrow> string list \<Rightarrow> string list \<Rightarrow> status" where
  "validate_group r ident visiting =
     (if um_contains (or_outbounds r) ident then Inr ()
      else case um_find (or_groups r) ident of
        None \<Rightarrow> Inl (mk_error Configuration (''unknown outbound target: '' @ ident))
      | Some members \<Rightarrow>
          if ident \<in> set visiting
          then Inl (mk_error Configuration (''outbound group dependency cycle at: '' @ ident))
          else validate_members r members (visiting @ [ident]))"
| "validate_members r [] visiting = Inr ()"
| "validate_members r (member # rest) visiting =
     (case validate_group r member visiting of
        Inl e \<Rightarrow> Inl e
      | Inr _ \<Rightarrow> validate_members r rest visiting)"
  by pat_completeness auto

termination
  by (relation "measures
    [\<lambda>x. case x of Inl (r, i, v) \<Rightarrow> groups_left r v | Inr (r, ms, v) \<Rightarrow> groups_left r v,
     \<lambda>x. case x of Inl _ \<Rightarrow> 0 | Inr (r, ms, v) \<Rightarrow> length ms]")
    (simp_all del: set_append add: groups_left_less)

fun validate_groups :: "'o outbound_registry \<Rightarrow> string list \<Rightarrow> status" where
  "validate_groups r [] = Inr ()"
| "validate_groups r (ident # rest) =
     (case validate_group r ident [] of Inl e \<Rightarrow> Inl e | Inr _ \<Rightarrow> validate_groups r rest)"

definition validate_registry :: "'o outbound_registry \<Rightarrow> status" where
  "validate_registry r = validate_groups r (um_keys (or_groups r))"

text \<open>\<open>combine\<close> is the body of the loop of \<^verbatim>\<open>capabilities_entry\<close> behind the recursive call.\<close>

definition combine ::
  "outbound_capabilities \<Rightarrow> outbound_capabilities \<Rightarrow> outbound_capabilities" where
  "combine combined c =
     combined\<lparr>
       cap_stream := cap_stream combined \<and> cap_stream c,
       cap_datagram :=
         (if cap_datagram c = Dg_unsupported then Dg_unsupported
          else if cap_datagram c = Fixed_destination \<and> cap_datagram combined \<noteq> Dg_unsupported
          then Fixed_destination else cap_datagram combined),
       cap_stream_target :=
         (if cap_stream_target c = Ip_required then Ip_required else cap_stream_target combined),
       cap_datagram_target :=
         (if cap_datagram_target c = Ip_required then Ip_required else cap_datagram_target combined)\<rparr>"

definition combine_start :: outbound_capabilities where
  "combine_start = default_capabilities\<lparr>cap_stream := True, cap_datagram := Multi_destination\<rparr>"

function (sequential)
  capabilities_entry ::
    "('o \<Rightarrow> outbound_capabilities) \<Rightarrow> 'o outbound_registry \<Rightarrow> string \<Rightarrow> string list \<Rightarrow>
       outbound_capabilities res"
  and capabilities_members ::
    "('o \<Rightarrow> outbound_capabilities) \<Rightarrow> 'o outbound_registry \<Rightarrow> string list \<Rightarrow> string list \<Rightarrow>
       outbound_capabilities \<Rightarrow> outbound_capabilities res" where
  "capabilities_entry caps r ident visiting =
     (case um_find (or_outbounds r) ident of
        Some out \<Rightarrow> Inr (caps out)
      | None \<Rightarrow>
          (case um_find (or_groups r) ident of
             None \<Rightarrow> Inl (mk_error Configuration (''unknown outbound target: '' @ ident))
           | Some members \<Rightarrow>
               if ident \<in> set visiting
               then Inl (mk_error Configuration (''outbound group dependency cycle at: '' @ ident))
               else capabilities_members caps r members (visiting @ [ident]) combine_start))"
| "capabilities_members caps r [] visiting combined = Inr combined"
| "capabilities_members caps r (member # rest) visiting combined =
     (case capabilities_entry caps r member visiting of
        Inl e \<Rightarrow> Inl e
      | Inr c \<Rightarrow> capabilities_members caps r rest visiting (combine combined c))"
  by pat_completeness auto

termination
  by (relation "measures
    [\<lambda>x. case x of Inl (c, r, i, v) \<Rightarrow> groups_left r v | Inr (c, r, ms, v, _) \<Rightarrow> groups_left r v,
     \<lambda>x. case x of Inl _ \<Rightarrow> 0 | Inr (c, r, ms, v, _) \<Rightarrow> length ms]")
    (simp_all del: set_append add: groups_left_less)

definition capabilities ::
  "('o \<Rightarrow> outbound_capabilities) \<Rightarrow> 'o outbound_registry \<Rightarrow> string \<Rightarrow> outbound_capabilities res" where
  "capabilities caps r ident = capabilities_entry caps r ident []"

text \<open>
  The members of a group in the order the selection tries them, from the counter's member round.
\<close>

definition rotation :: "u64 \<Rightarrow> 'a list \<Rightarrow> 'a list" where
  "rotation counter members =
     (let begin = unat counter mod length members in
      map (\<lambda>offset. members ! ((begin + offset) mod length members)) [0..<length members])"

function (sequential)
  select_entry ::
    "'o outbound_registry \<Rightarrow> string \<Rightarrow> string list \<Rightarrow> (string \<Rightarrow> u64) \<Rightarrow> 'o res \<times> (string \<Rightarrow> u64)"
  and select_members ::
    "'o outbound_registry \<Rightarrow> string list \<Rightarrow> string list \<Rightarrow> 'o res \<Rightarrow> (string \<Rightarrow> u64) \<Rightarrow>
       'o res \<times> (string \<Rightarrow> u64)" where
  "select_entry r ident visiting counters =
     (case um_find (or_outbounds r) ident of
        Some out \<Rightarrow> (Inr out, counters)
      | None \<Rightarrow>
          (case um_find (or_groups r) ident of
             None \<Rightarrow> (Inl (mk_error Configuration (''unknown outbound target: '' @ ident)), counters)
           | Some members \<Rightarrow>
               if ident \<in> set visiting
               then (Inl (mk_error Configuration
                       (''outbound group dependency cycle at: '' @ ident)), counters)
               else select_members r (rotation (counters ident) members) (visiting @ [ident])
                 (Inl (mk_error Configuration (''outbound group has no usable member: '' @ ident)))
                 (counters(ident := counters ident + 1))))"
| "select_members r [] visiting last_error counters = (last_error, counters)"
| "select_members r (member # rest) visiting last_error counters =
     (case select_entry r member visiting counters of
        (Inr out, counters') \<Rightarrow> (Inr out, counters')
      | (Inl e, counters') \<Rightarrow> select_members r rest visiting (Inl e) counters')"
  by pat_completeness auto

termination
  by (relation "measures
    [\<lambda>x. case x of Inl (r, i, v, _) \<Rightarrow> groups_left r v | Inr (r, ms, v, _) \<Rightarrow> groups_left r v,
     \<lambda>x. case x of Inl _ \<Rightarrow> 0 | Inr (r, ms, v, _) \<Rightarrow> length ms]")
    (simp_all del: set_append add: groups_left_less)

definition select_outbound ::
  "'o outbound_registry \<Rightarrow> string \<Rightarrow> 'o res \<times> 'o outbound_registry" where
  "select_outbound r ident =
     (case select_entry r ident [] (or_next_member r) of
        (result, counters) \<Rightarrow> (result, r\<lparr>or_next_member := counters\<rparr>))"

definition registry_ids :: "'o outbound_registry \<Rightarrow> string list" where
  "registry_ids r = um_keys (or_outbounds r) @ um_keys (or_groups r)"

text \<open>A snapshot is a copy: groups and counters are copied by value, outbounds are shared.\<close>

definition snapshot :: "'o outbound_registry \<Rightarrow> 'o outbound_registry" where
  "snapshot r = r"

declare validate_group.simps [simp del] capabilities_entry.simps [simp del]
  select_entry.simps [simp del]

section \<open>Validation\<close>

lemma validate_members_iff:
  "validate_members r ms visiting = Inr () \<longleftrightarrow> (\<forall>m\<in>set ms. validate_group r m visiting = Inr ())"
  by (induction ms) (auto split: sum.splits)

lemma validate_group_step:
  "validate_group r x path = Inr () \<longleftrightarrow> um_contains (or_outbounds r) x \<or>
     (\<exists>ms. um_find (or_groups r) x = Some ms \<and> x \<notin> set path \<and>
        (\<forall>m\<in>set ms. validate_group r m (path @ [x]) = Inr ()))"
  by (subst validate_group.simps) (simp add: validate_members_iff split: option.splits)

interpretation registry_check: path_check "registry_succs r"
    "um_contains (or_outbounds r)" "\<lambda>ident visiting. validate_group r ident visiting = Inr ()"
  for r :: "'o outbound_registry"
proof unfold_locales
  fix x path assume "um_contains (or_outbounds r) x"
  then show "registry_succs r x = Some [] \<and> validate_group r x path = Inr ()"
    by (simp add: registry_succs_def validate_group.simps)
next
  fix x path assume "registry_succs r x = None"
  then show "validate_group r x path \<noteq> Inr ()"
    by (simp add: registry_succs_def validate_group.simps split: if_splits)
next
  fix x ys path assume "\<not> um_contains (or_outbounds r) x" "registry_succs r x = Some ys"
  then show "validate_group r x path = Inr () \<longleftrightarrow>
      x \<notin> set path \<and> (\<forall>y\<in>set ys. validate_group r y (path @ [x]) = Inr ())"
    by (subst validate_group_step) (simp add: registry_succs_def)
qed simp

definition registry_wf :: "'o outbound_registry \<Rightarrow> bool" where
  "registry_wf r \<longleftrightarrow> um_invar (or_outbounds r) \<and> um_invar (or_groups r) \<and>
     (\<forall>x. \<not> (um_contains (or_outbounds r) x \<and> um_contains (or_groups r) x)) \<and>
     (\<forall>x ms. um_find (or_groups r) x = Some ms \<longrightarrow> ms \<noteq> []) \<and>
     \<not> um_contains (or_outbounds r) [] \<and> \<not> um_contains (or_groups r) []"

lemma validate_groups_iff:
  "validate_groups r ids = Inr () \<longleftrightarrow> (\<forall>i\<in>set ids. grounded (registry_succs r) i)"
  by (induction ids) (auto simp: registry_check.accepts_iff [symmetric] split: sum.splits)

lemma outbound_grounded: "um_contains (or_outbounds r) x \<Longrightarrow> grounded (registry_succs r) x"
  by (rule groundedI [of _ _ "[]"]) (simp_all add: registry_succs_def)

lemma known_entry:
  "x \<in> dom (registry_succs r) \<longleftrightarrow> x \<in> set (registry_ids r)"
  by (auto simp: registry_succs_def registry_ids_def um_contains_iff [symmetric] um_contains_def
      split: if_splits)

lemma validate_registry_grounded:
  "validate_registry r = Inr () \<longleftrightarrow> (\<forall>x\<in>dom (registry_succs r). grounded (registry_succs r) x)"
proof -
  have "x \<in> dom (registry_succs r) \<longleftrightarrow>
      um_contains (or_outbounds r) x \<or> x \<in> set (um_keys (or_groups r))" for x
    by (simp add: known_entry registry_ids_def um_contains_iff del: domIff)
  then show ?thesis
    unfolding validate_registry_def validate_groups_iff using outbound_grounded by blast
qed

section \<open>Capabilities\<close>

text \<open>The outbounds an entry can lead to.\<close>

definition leads_to :: "'o outbound_registry \<Rightarrow> string \<Rightarrow> 'o set" where
  "leads_to r ident =
     {out. \<exists>x. (ident, x) \<in> (names (registry_succs r))\<^sup>* \<and> um_find (or_outbounds r) x = Some out}"

lemma leads_to_outbound:
  assumes "um_find (or_outbounds r) x = Some out"
  shows "leads_to r x = {out}"
proof -
  have "(x, y) \<notin> names (registry_succs r)" for y
    using assms by (simp add: names_iff registry_succs_def um_contains_def)
  then have "(x, y) \<in> (names (registry_succs r))\<^sup>* \<longleftrightarrow> y = x" for y
    by (metis converse_rtranclE rtrancl.rtrancl_refl)
  with assms show ?thesis by (simp add: leads_to_def)
qed

lemma leads_to_group:
  assumes "um_find (or_outbounds r) x = None" "um_find (or_groups r) x = Some ms"
  shows "leads_to r x = (\<Union>m\<in>set ms. leads_to r m)"
proof -
  have "(x, y) \<in> names (registry_succs r) \<longleftrightarrow> y \<in> set ms" for y
    using assms by (simp add: names_iff registry_succs_def um_contains_def)
  then have "(x, y) \<in> (names (registry_succs r))\<^sup>* \<longleftrightarrow>
      y = x \<or> (\<exists>m\<in>set ms. (m, y) \<in> (names (registry_succs r))\<^sup>*)" for y
    by (auto intro: converse_rtrancl_into_rtrancl elim: converse_rtranclE)
  with assms(1) show ?thesis by (auto simp: leads_to_def)
qed

text \<open>A capability record is what a whole set of outbounds can promise.\<close>

definition promised_by ::
  "('o \<Rightarrow> outbound_capabilities) \<Rightarrow> 'o set \<Rightarrow> outbound_capabilities \<Rightarrow> bool" where
  "promised_by caps outs c \<longleftrightarrow>
     (cap_stream c \<longleftrightarrow> (\<forall>out\<in>outs. cap_stream (caps out))) \<and>
     (cap_datagram c = Dg_unsupported \<longleftrightarrow> (\<exists>out\<in>outs. cap_datagram (caps out) = Dg_unsupported)) \<and>
     (cap_datagram c = Multi_destination \<longleftrightarrow>
        (\<forall>out\<in>outs. cap_datagram (caps out) = Multi_destination)) \<and>
     (cap_stream_target c = Ip_required \<longleftrightarrow>
        (\<exists>out\<in>outs. cap_stream_target (caps out) = Ip_required)) \<and>
     (cap_datagram_target c = Ip_required \<longleftrightarrow>
        (\<exists>out\<in>outs. cap_datagram_target (caps out) = Ip_required))"

lemma promised_by_start: "promised_by caps {} combine_start"
  by (simp add: promised_by_def combine_start_def default_capabilities_def)

lemma promised_by_single: "promised_by caps {out} (caps out)"
  by (simp add: promised_by_def)

lemma promised_by_combine:
  "promised_by caps A c \<Longrightarrow> promised_by caps B d \<Longrightarrow> promised_by caps (A \<union> B) (combine c d)"
  unfolding promised_by_def combine_def
  by (cases "cap_datagram c"; cases "cap_datagram d") (auto simp: ball_Un bex_Un)

lemma capabilities_grounded:
  "grounded (registry_succs r) x \<Longrightarrow> (\<forall>p\<in>set path. (p, x) \<in> (names (registry_succs r))\<^sup>+) \<Longrightarrow>
     \<exists>c. capabilities_entry caps r x path = Inr c \<and> promised_by caps (leads_to r x) c"
  "(\<forall>m\<in>set ms. grounded (registry_succs r) m \<and>
       (\<forall>p\<in>set path. (p, m) \<in> (names (registry_succs r))\<^sup>+)) \<Longrightarrow>
     promised_by caps A c0 \<Longrightarrow>
     \<exists>c. capabilities_members caps r ms path c0 = Inr c \<and>
       promised_by caps (A \<union> (\<Union>m\<in>set ms. leads_to r m)) c"
proof (induction caps r x path and caps r ms path c0 arbitrary: and A
    rule: capabilities_entry_capabilities_members.induct)
  case (1 caps r x path)
  show ?case
  proof (cases "um_find (or_outbounds r) x")
    case (Some out)
    then show ?thesis
      by (simp add: capabilities_entry.simps leads_to_outbound promised_by_single)
  next
    case None
    obtain ms where s: "registry_succs r x = Some ms" "\<forall>m\<in>set ms. grounded (registry_succs r) m"
      using "1.prems"(1) by (rule groundedE)
    then have ms: "um_find (or_groups r) x = Some ms"
      using None by (simp add: registry_succs_def um_contains_def)
    have nv: "x \<notin> set path"
    proof
      assume "x \<in> set path"
      with "1.prems"(2) have "(x, x) \<in> (names (registry_succs r))\<^sup>+" by (rule bspec)
      with grounded_no_cycle [OF "1.prems"(1)] show False by contradiction
    qed
    have "(p, m) \<in> (names (registry_succs r))\<^sup>+" if "m \<in> set ms" "p \<in> set (path @ [x])" for p m
    proof -
      have "(x, m) \<in> names (registry_succs r)" using that s(1) by (auto simp: names_iff)
      then show ?thesis using that(2) "1.prems"(2) by (auto intro: trancl_into_trancl)
    qed
    with s(2) "1.IH" [OF None ms nv _ promised_by_start]
    have "\<exists>c. capabilities_members caps r ms (path @ [x]) combine_start = Inr c \<and>
        promised_by caps ({} \<union> (\<Union>m\<in>set ms. leads_to r m)) c"
      by blast
    then show ?thesis
      using None ms nv by (simp add: capabilities_entry.simps leads_to_group)
  qed
next
  case (2 caps r path c0)
  then show ?case by simp
next
  case (3 caps r m ms path c0)
  then obtain c where c: "capabilities_entry caps r m path = Inr c" "promised_by caps (leads_to r m) c"
    by auto
  from "3.IH"(2) [OF c(1) _ promised_by_combine [OF "3.prems"(2) c(2)]] "3.prems"(1) c(1)
  show ?case by (simp add: Un_assoc)
qed

section \<open>Selection\<close>

lemma length_rotation [simp]: "length (rotation c ms) = length ms"
  by (simp add: rotation_def Let_def)

lemma rotation_rotate: "rotation c ms = rotate (unat c mod length ms) ms"
  by (rule nth_equalityI) (simp_all add: rotation_def Let_def nth_rotate)

lemma set_rotation [simp]: "set (rotation c ms) = set ms"
  by (simp add: rotation_rotate)

text \<open>Whatever is selected is one of the outbounds the entry leads to.\<close>

lemma select_sound:
  "select_entry r x path counters = (Inr out, counters') \<Longrightarrow> out \<in> leads_to r x"
  "select_members r ms path le counters = (Inr out, counters') \<Longrightarrow>
     le \<noteq> Inr out \<Longrightarrow> out \<in> (\<Union>m\<in>set ms. leads_to r m)"
proof (induction r x path counters and r ms path le counters arbitrary: counters' and counters'
    rule: select_entry_select_members.induct)
  case (1 r x path counters)
  show ?case
  proof (cases "um_find (or_outbounds r) x")
    case (Some o')
    with "1.prems" show ?thesis by (simp add: select_entry.simps leads_to_outbound)
  next
    case None
    with "1.prems" obtain ms where ms: "um_find (or_groups r) x = Some ms" "x \<notin> set path"
      by (auto simp: select_entry.simps split: option.splits if_splits)
    with "1.prems" None have "select_members r (rotation (counters x) ms) (path @ [x])
        (Inl (mk_error Configuration (''outbound group has no usable member: '' @ x)))
        (counters(x := counters x + 1)) = (Inr out, counters')"
      by (simp add: select_entry.simps)
    from "1.IH" [OF None ms this] show ?thesis
      using None ms by (simp add: leads_to_group)
  qed
next
  case (2 r path le counters)
  then show ?case by simp
next
  case (3 r m ms path le counters)
  obtain res c where s: "select_entry r m path counters = (res, c)" by (rule prod.exhaust)
  show ?case
  proof (cases res)
    case (Inl e)
    with "3.prems" s have "select_members r ms path (Inl e) c = (Inr out, counters')" by simp
    from "3.IH"(2) [OF s [symmetric] Inl this] show ?thesis by auto
  next
    case (Inr out')
    with "3.prems" s have "select_entry r m path counters = (Inr out, counters')" by simp
    from "3.IH"(1) [OF this] show ?thesis by auto
  qed
qed

lemma select_complete:
  assumes nonempty: "\<And>x ms. um_find (or_groups r) x = Some ms \<Longrightarrow> ms \<noteq> []"
    and "grounded (registry_succs r) x" "\<forall>p\<in>set path. (p, x) \<in> (names (registry_succs r))\<^sup>+"
  shows "\<exists>out counters'. select_entry r x path counters = (Inr out, counters')"
  using assms(2,3)
proof (induction arbitrary: path counters rule: grounded.induct)
  case (groundedI x ys)
  then have g: "grounded (registry_succs r) x" by (intro grounded.groundedI) auto
  show ?case
  proof (cases "um_find (or_outbounds r) x")
    case (Some out)
    then show ?thesis by (simp add: select_entry.simps)
  next
    case None
    then have ms: "um_find (or_groups r) x = Some ys"
      using groundedI.hyps by (simp add: registry_succs_def um_contains_def)
    have nv: "x \<notin> set path"
    proof
      assume "x \<in> set path"
      with groundedI.prems have "(x, x) \<in> (names (registry_succs r))\<^sup>+" by (rule bspec)
      with grounded_no_cycle [OF g] show False by contradiction
    qed
    have below: "\<forall>p\<in>set (path @ [x]). (p, m) \<in> (names (registry_succs r))\<^sup>+" if "m \<in> set ys" for m
    proof
      fix p assume "p \<in> set (path @ [x])"
      moreover have "(x, m) \<in> names (registry_succs r)"
        using that groundedI.hyps by (auto simp: names_iff)
      ultimately show "(p, m) \<in> (names (registry_succs r))\<^sup>+"
        using groundedI.prems by (auto intro: trancl_into_trancl)
    qed
    obtain m rest where rot: "rotation (counters x) ys = m # rest"
      using nonempty [OF ms] by (metis length_0_conv length_rotation neq_Nil_conv)
    then have "m \<in> set ys" by (metis list.set_intros(1) set_rotation)
    with groundedI.IH below obtain out c where
      "select_entry r m (path @ [x]) (counters(x := counters x + 1)) = (Inr out, c)" by blast
    with None ms nv rot show ?thesis by (simp add: select_entry.simps [of r x])
  qed
qed

text \<open>Consecutive selections on one registry.\<close>

fun select_many :: "nat \<Rightarrow> string \<Rightarrow> 'o outbound_registry \<Rightarrow> 'o res list" where
  "select_many 0 ident r = []"
| "select_many (Suc n) ident r =
     (case select_outbound r ident of (result, r') \<Rightarrow> result # select_many n ident r')"

lemma select_direct_member:
  assumes "um_find (or_outbounds r) g = None" "um_find (or_groups r) g = Some ms" "ms \<noteq> []"
    and "\<forall>m\<in>set ms. um_contains (or_outbounds r) m"
  shows "select_outbound r g =
    (Inr (the (um_find (or_outbounds r) (ms ! (unat (or_next_member r g) mod length ms)))),
     r\<lparr>or_next_member := (or_next_member r)(g := or_next_member r g + 1)\<rparr>)"
proof -
  let ?k = "unat (or_next_member r g) mod length ms"
  have k: "?k < length ms" using assms(3) by simp
  have "rotation (or_next_member r g) ms = ms ! ?k # tl (rotation (or_next_member r g) ms)"
    using assms(3) by (simp add: rotation_def Let_def upt_rec)
  then obtain rest where rot: "rotation (or_next_member r g) ms = ms ! ?k # rest" by blast
  obtain out where "um_find (or_outbounds r) (ms ! ?k) = Some out"
    using assms(4) k by (force simp: um_contains_def)
  then show ?thesis
    using assms(1,2) rot
    by (simp add: select_outbound_def select_entry.simps)
qed

lemma select_many_round_robin:
  assumes "um_find (or_outbounds r) g = None" "um_find (or_groups r) g = Some ms" "ms \<noteq> []"
    and "\<forall>m\<in>set ms. um_contains (or_outbounds r) m" "unat (or_next_member r g) + n < 2 ^ 64"
  shows "select_many n g r = map (\<lambda>k. Inr (the (um_find (or_outbounds r)
    (ms ! ((unat (or_next_member r g) + k) mod length ms))))) [0..<n]"
  using assms
proof (induction n arbitrary: r)
  case (Suc n)
  let ?r = "r\<lparr>or_next_member := (or_next_member r)(g := or_next_member r g + 1)\<rparr>"
  have u: "unat (or_next_member r g + 1) = unat (or_next_member r g) + 1"
    using Suc.prems(5) by (simp add: unat_word_ariths)
  have "select_many n g ?r = map (\<lambda>k. Inr (the (um_find (or_outbounds r)
      (ms ! ((unat (or_next_member r g) + Suc k) mod length ms))))) [0..<n]"
    using Suc.IH [of ?r] Suc.prems u by simp
  moreover have "[0..<Suc n] = 0 # map Suc [0..<n]"
    by (simp add: upt_conv_Cons map_Suc_upt del: upt_Suc)
  ultimately show ?case
    using select_direct_member [OF Suc.prems(1-4)] by (simp del: upt_Suc add: comp_def)
qed simp

section \<open>Registries built by the operations\<close>

datatype 'o registry_call =
    Call_add_outbound string "'o option"
  | Call_add_group string "string list"
  | Call_select string

fun registry_step :: "'o registry_call \<Rightarrow> 'o outbound_registry \<Rightarrow> 'o outbound_registry" where
  "registry_step (Call_add_outbound i out) r = snd (add_outbound i out r)"
| "registry_step (Call_add_group i ms) r = snd (add_group i ms r)"
| "registry_step (Call_select i) r = snd (select_outbound r i)"

definition registry_of :: "'o registry_call list \<Rightarrow> 'o outbound_registry" where
  "registry_of calls = fold registry_step calls new_registry"

lemma registry_wf_step: "registry_wf r \<Longrightarrow> registry_wf (registry_step call r)"
proof (cases call)
  case (Call_add_outbound i out)
  then show "registry_wf r \<Longrightarrow> ?thesis"
    by (auto simp: add_outbound_def registry_wf_def um_emplace_def split: option.splits)
next
  case (Call_add_group i ms)
  then show "registry_wf r \<Longrightarrow> ?thesis"
    by (auto simp: add_group_def registry_wf_def um_emplace_def split: if_splits)
next
  case (Call_select i)
  then show "registry_wf r \<Longrightarrow> ?thesis"
    by (auto simp: select_outbound_def registry_wf_def split: prod.splits)
qed

lemma registry_wf_of: "registry_wf (registry_of calls)"
proof -
  have "registry_wf r \<Longrightarrow> registry_wf (fold registry_step calls r)" for r :: "'a outbound_registry"
    by (induction calls arbitrary: r) (auto intro: registry_wf_step)
  moreover have "registry_wf new_registry"
    by (simp add: registry_wf_def new_registry_def um_contains_def)
  ultimately show ?thesis by (simp add: registry_of_def)
qed

lemma select_known:
  assumes "registry_wf r" "validate_registry r = Inr ()" "ident \<in> set (registry_ids r)"
  shows "\<exists>out r'. select_outbound r ident = (Inr out, r') \<and> out \<in> leads_to r ident"
proof -
  have "grounded (registry_succs r) ident"
    using assms by (simp add: validate_registry_grounded known_entry [symmetric] del: domIff)
  moreover have "\<And>x ms. um_find (or_groups r) x = Some ms \<Longrightarrow> ms \<noteq> []"
    using assms(1) by (simp add: registry_wf_def)
  ultimately obtain out c where "select_entry r ident [] (or_next_member r) = (Inr out, c)"
    using select_complete [of r ident "[]" "or_next_member r"] by auto
  with select_sound(1) [OF this] show ?thesis by (simp add: select_outbound_def)
qed

section \<open>Properties\<close>

text \<open>
  C6: A registry validates exactly when no group can reach itself through its members and every
  member of a group is a known entry.
\<close>

theorem validate_registry_correct:
  "validate_registry r = Inr () \<longleftrightarrow>
     acyclic (names (registry_succs r)) \<and>
     (\<forall>x ys. registry_succs r x = Some ys \<longrightarrow> set ys \<subseteq> set (registry_ids r))"
  unfolding validate_registry_grounded all_grounded_iff [OF finite_registry_succs]
  by (simp add: known_entry [symmetric] subset_iff del: domIff)

text \<open>
  On a validated registry, whatever calls built it, selecting any known entry succeeds, whatever
  the counters, and gives an outbound that the entry leads to.
\<close>

theorem select_validated:
  assumes "validate_registry (registry_of calls) = Inr ()" "ident \<in> set (registry_ids (registry_of calls))"
  shows "\<exists>out r'. select_outbound (registry_of calls) ident = (Inr out, r') \<and>
    out \<in> leads_to (registry_of calls) ident"
  by (rule select_known [OF registry_wf_of assms])

text \<open>
  On a validated registry the capabilities of a known entry are the weakest its outbounds
  have: a stream is offered when all offer it, datagrams are as restricted as the most restricted
  outbound, and an IP target is required when one outbound requires it.
\<close>

theorem capabilities_validated:
  assumes "validate_registry r = Inr ()" "ident \<in> set (registry_ids r)"
  shows "\<exists>c. capabilities caps r ident = Inr c \<and> promised_by caps (leads_to r ident) c"
proof -
  have "grounded (registry_succs r) ident"
    using assms by (simp add: validate_registry_grounded known_entry [symmetric] del: domIff)
  then show ?thesis
    using capabilities_grounded(1) [of r ident "[]" caps] by (simp add: capabilities_def)
qed

text \<open>
  Consecutive selections on a group of outbounds go round its members in order, from where the
  counter stands, as long as the 64-bit counter does not wrap.
\<close>

theorem select_round_robin:
  assumes "um_find (or_outbounds r) g = None" "um_find (or_groups r) g = Some ms" "ms \<noteq> []"
    and "\<forall>m\<in>set ms. um_contains (or_outbounds r) m"
    and "unat (or_next_member r g) + n < 2 ^ 64"
  shows "select_many n g r = map (\<lambda>k. Inr (the (um_find (or_outbounds r)
    (ms ! ((unat (or_next_member r g) + k) mod length ms))))) [0..<n]"
  by (rule select_many_round_robin [OF assms])

section \<open>Witnesses\<close>

text \<open>Outbounds are numbers; a group of a group.\<close>

abbreviation sample_registry_calls :: "nat registry_call list" where
  "sample_registry_calls \<equiv> [Call_add_outbound ''a'' (Some 1), Call_add_outbound ''b'' (Some 2),
     Call_add_group ''g'' [''a'', ''b''], Call_add_group ''h'' [''g'', ''a''], Call_select ''h'',
     Call_add_group ''h'' [''x'']]"

lemma sample_registry_valid:
  "validate_registry (registry_of sample_registry_calls) = Inr ()"
  "''h'' \<in> set (registry_ids (registry_of sample_registry_calls))"
  by code_simp+

theorem validate_registry_correct_witness:
  "set [''a'', ''b''] \<subseteq> set (registry_ids (registry_of sample_registry_calls))"
proof -
  have "registry_succs (registry_of sample_registry_calls) ''g'' = Some [''a'', ''b'']"
    by code_simp
  with validate_registry_correct [of "registry_of sample_registry_calls"] sample_registry_valid(1)
  show ?thesis by blast
qed

theorem select_validated_witness:
  "\<exists>out r'. select_outbound (registry_of sample_registry_calls) ''h'' = (Inr out, r') \<and>
    out \<in> leads_to (registry_of sample_registry_calls) ''h''"
  by (rule select_validated [OF sample_registry_valid])

theorem capabilities_validated_witness:
  "\<exists>c. capabilities (\<lambda>out. default_capabilities\<lparr>cap_stream := out = 1\<rparr>)
      (registry_of sample_registry_calls) ''h'' = Inr c \<and>
    promised_by (\<lambda>out. default_capabilities\<lparr>cap_stream := out = 1\<rparr>)
      (leads_to (registry_of sample_registry_calls) ''h'') c"
  by (rule capabilities_validated [OF sample_registry_valid])

theorem select_round_robin_witness:
  "select_many 3 ''g'' (registry_of sample_registry_calls) = [Inr 2, Inr 1, Inr 2]"
proof -
  let ?r = "registry_of sample_registry_calls"
  have f: "um_find (or_outbounds ?r) ''g'' = None" "um_find (or_groups ?r) ''g'' = Some [''a'', ''b'']"
    "\<forall>m\<in>set [''a'', ''b'']. um_contains (or_outbounds ?r) m" "unat (or_next_member ?r ''g'') = 1"
    "um_find (or_outbounds ?r) ''a'' = Some 1" "um_find (or_outbounds ?r) ''b'' = Some 2"
    by code_simp+
  have "select_many 3 ''g'' ?r = map (\<lambda>k. Inr (the (um_find (or_outbounds ?r)
      ([''a'', ''b''] ! ((unat (or_next_member ?r ''g'') + k) mod length [''a'', ''b'']))))) [0..<3]"
    by (rule select_round_robin) (use f in simp_all)
  also have "\<dots> = [Inr 2, Inr 1, Inr 2]"
  proof -
    have u: "[0..<3] = [0, 1, 2 :: nat]" by (simp add: upt_rec)
    have m: "(1 + 2) mod length [''a'', ''b''] = 1" "(1 + 1) mod length [''a'', ''b''] = 0"
      "(1 + 0) mod length [''a'', ''b''] = 1"
      by (simp_all add: mod_Suc)
    show ?thesis
      unfolding f(4) u list.map m by (simp add: f(5,6) [unfolded One_nat_def])
  qed
  finally show ?thesis .
qed

end
