(* ===== verification/Dns_Codec.thy ===== *)
theory Dns_Codec
  imports Dns_Types
begin

text \<open>
  The encoders of \<^verbatim>\<open>src/dns/dns_codec.cpp\<close> and the reduction of a decoded response to an
  address answer. Decoding and truncation, which go through c-ares, are in \<open>Dns_Cares\<close>.
\<close>

definition codec_error :: "string \<Rightarrow> error" where
  "codec_error context = mk_error Protocol_framing context"

section \<open>Encoding queries\<close>

definition append_u16 :: "bytes \<Rightarrow> u16 \<Rightarrow> bytes" where
  "append_u16 output v = output @ [ucast (drop_bit 8 v), ucast (v AND 0xff)]"

definition append_u32 :: "bytes \<Rightarrow> u32 \<Rightarrow> bytes" where
  "append_u32 output v = output @
     [ucast (drop_bit 24 v), ucast (drop_bit 16 v), ucast (drop_bit 8 v), ucast (v AND 0xff)]"

lemma append_u16_be: "append_u16 output v = output @ be_bytes 2 v"
  by (simp add: append_u16_def numeral_2_eq_2 be_bytes_Suc)

lemma append_u32_be: "append_u32 output v = output @ be_bytes 4 v"
  by (simp add: append_u32_def eval_nat_numeral be_bytes_Suc)

text \<open>The loop over the labels; \<open>rest\<close> is the name from \<^verbatim>\<open>begin\<close> on.\<close>

function encode_labels :: "string \<Rightarrow> bytes \<Rightarrow> bytes res" where
  "encode_labels rest output =
     (if rest = [] then Inr output
      else
        let dot = index_where (\<lambda>c. c = CHR ''.'') rest;
            label_size = (case dot of None \<Rightarrow> length rest | Some i \<Rightarrow> i)
        in
        if label_size = 0 \<or> label_size > 63 then Inl (codec_error ''DNS query label is invalid'')
        else
          let output = output @ [word_of_nat label_size] @ bytes_of_string (take label_size rest)
          in (case dot of None \<Rightarrow> Inr output | Some i \<Rightarrow> encode_labels (drop (i + 1) rest) output))"
  by pat_completeness auto

termination by (relation "measure (\<lambda>(rest, output). length rest)") auto

declare encode_labels.simps [simp del]

definition encode_query_packet :: "dns_question \<Rightarrow> u16 \<Rightarrow> bytes res" where
  "encode_query_packet question ident =
     (let name = normalize_name (q_name question) in
      if name = [] \<or> length name > 253 \<or> hd name = CHR ''.'' \<or> last name = CHR ''.''
      then Inl (codec_error ''DNS query name is invalid'')
      else
        let output = append_u16 (append_u16 (append_u16 (append_u16 (append_u16 (append_u16 []
              ident) 0x0100) 1) 0) 0) 0
        in (case encode_labels name output of
              Inl e \<Rightarrow> Inl e
            | Inr output \<Rightarrow>
                Inr (append_u16 (append_u16 (output @ [0]) (q_type question)) (q_class question))))"

definition encode_query :: "dns_question \<Rightarrow> u16 \<Rightarrow> bytes res" where
  "encode_query question ident = encode_query_packet question ident"

definition rewrite_id :: "dns_packet \<Rightarrow> u16 \<Rightarrow> bytes res" where
  "rewrite_id packet ident =
     (if length (pk_wire packet) < 2
      then Inl (codec_error ''DNS packet wire message is missing a transaction ID'')
      else Inr ((pk_wire packet)[0 := ucast (drop_bit 8 ident), 1 := ucast (ident AND 0xff)]))"

section \<open>The address answer of a response\<close>

definition cname_matches :: "dns_question \<Rightarrow> string \<Rightarrow> dns_resource_record \<Rightarrow> bool" where
  "cname_matches question current_name rec \<longleftrightarrow>
     rr_class rec = q_class question \<and> rr_type rec = type_cname \<and>
     normalize_name (rr_name rec) = current_name \<and> rr_target_name rec \<noteq> None"

text \<open>The chain loop; the first argument is \<^verbatim>\<open>8 - depth\<close>.\<close>

fun follow_cnames ::
  "nat \<Rightarrow> dns_question \<Rightarrow> dns_resource_record list \<Rightarrow> string \<Rightarrow> string list \<Rightarrow> u32 \<Rightarrow>
     string \<times> u32" where
  "follow_cnames 0 question answers current_name visited minimum_ttl = (current_name, minimum_ttl)"
| "follow_cnames (Suc n) question answers current_name visited minimum_ttl =
     (case List.find (cname_matches question current_name) answers of
        None \<Rightarrow> (current_name, minimum_ttl)
      | Some cname \<Rightarrow>
          let next_name = normalize_name (the (rr_target_name cname)) in
          if next_name = [] \<or> next_name \<in> set visited then (current_name, minimum_ttl)
          else follow_cnames n question answers next_name (visited @ [next_name])
                 (min minimum_ttl (rr_ttl cname)))"

definition usable_address ::
  "dns_question \<Rightarrow> string \<Rightarrow> dns_resource_record \<Rightarrow> ip_address option" where
  "usable_address question current_name rec =
     (if rr_class rec \<noteq> q_class question \<or> rr_type rec \<noteq> q_type question \<or>
         normalize_name (rr_name rec) \<noteq> current_name
      then None
      else case rr_parsed_address rec of
        None \<Rightarrow> None
      | Some address \<Rightarrow>
          if q_type question = type_a \<and> \<not> is_v4 address \<or>
             q_type question = type_aaaa \<and> \<not> is_v6 address
          then None else Some address)"

fun collect_addresses ::
  "dns_question \<Rightarrow> string \<Rightarrow> dns_resource_record list \<Rightarrow> ip_address list \<Rightarrow> u32 \<Rightarrow>
     ip_address list \<times> u32" where
  "collect_addresses question current_name [] addresses minimum_ttl = (addresses, minimum_ttl)"
| "collect_addresses question current_name (rec # rest) addresses minimum_ttl =
     (case usable_address question current_name rec of
        None \<Rightarrow> collect_addresses question current_name rest addresses minimum_ttl
      | Some address \<Rightarrow>
          collect_addresses question current_name rest (addresses @ [address])
            (min minimum_ttl (rr_ttl rec)))"

definition to_address_answer :: "dns_packet \<Rightarrow> dns_answer res" where
  "to_address_answer packet =
     (if \<not> pk_response packet \<or> length (pk_questions packet) \<noteq> 1
      then Inl (codec_error ''DNS packet is not a single-question response'')
      else
        let question = hd (pk_questions packet);
            start_name = normalize_name (q_name question);
            (current_name, ttl) =
              follow_cnames 8 question (pk_answers packet) start_name [start_name] 0xffffffff;
            (addresses, ttl) = collect_addresses question current_name (pk_answers packet) [] ttl
        in Inr \<lparr>an_question = question, an_addresses = addresses,
             an_ttl = (if addresses = [] then 0 else ttl),
             an_response_code = pk_response_code packet, an_truncated = pk_truncated packet,
             an_authoritative = pk_authoritative packet\<rparr>)"

section \<open>Encoding responses\<close>

definition answer_record :: "dns_answer \<Rightarrow> ip_address \<Rightarrow> bytes" where
  "answer_record answer address =
     append_u16 (append_u32 (append_u16 (append_u16 [0xc0, 0x0c]
         (q_type (an_question answer))) (q_class (an_question answer))) (an_ttl answer))
       (word_of_nat (length (address_bytes address)))
     @ address_bytes address"

fun append_answers :: "dns_answer \<Rightarrow> ip_address list \<Rightarrow> bytes \<Rightarrow> bytes res" where
  "append_answers answer [] response = Inr response"
| "append_answers answer (address # rest) response =
     (if q_type (an_question answer) = type_a \<and> \<not> is_v4 address \<or>
         q_type (an_question answer) = type_aaaa \<and> \<not> is_v6 address
      then Inl (codec_error ''DNS answer address type does not match the query'')
      else append_answers answer rest (response @ answer_record answer address))"

definition encode_answer :: "dns_query \<Rightarrow> dns_answer \<Rightarrow> bytes res" where
  "encode_answer query answer =
     (if normalize_name (q_name (dq_question query)) \<noteq> normalize_name (q_name (an_question answer)) \<or>
         q_type (dq_question query) \<noteq> q_type (an_question answer) \<or>
         q_class (dq_question query) \<noteq> q_class (an_question answer)
      then Inl (codec_error ''DNS response question does not match the query'')
      else if length (an_addresses answer) > 0xffff
      then Inl (codec_error ''DNS response contains too many answers'')
      else case encode_query (dq_question query) (dq_id query) of
        Inl e \<Rightarrow> Inl e
      | Inr encoded_query \<Rightarrow>
          let answer_count = (if an_response_code answer = 0 then length (an_addresses answer) else 0);
              response = (take 12 encoded_query)
                [2 := 0x80 OR (if dq_recursion_desired query then 0x01 else 0) OR
                      (if an_authoritative answer then 0x04 else 0),
                 3 := 0x80 OR (ucast (an_response_code answer AND 0x0f)),
                 6 := ucast (drop_bit 8 (word_of_nat answer_count :: u16)),
                 7 := ucast ((word_of_nat answer_count :: u16) AND 0xff)]
                @ drop 12 encoded_query
          in append_answers answer (take answer_count (an_addresses answer)) response)"

definition append_opt_record :: "bytes \<Rightarrow> dns_packet \<Rightarrow> u16 \<Rightarrow> bytes" where
  "append_opt_record response query response_code =
     (case List.find (\<lambda>rec. rr_type rec = type_opt) (pk_additionals query) of
        None \<Rightarrow>
          (if response_code \<le> 0x0f then response
           else
             (append_u16 (append_u32 (append_u16 (append_u16 (response @ [0]) type_opt) 1232)
                (push_bit 24 (ucast (drop_bit 4 response_code)))) 0)[10 := 0, 11 := 1])
      | Some opt \<Rightarrow>
          (append_u16 (append_u32 (append_u16 (append_u16 (response @ [0]) type_opt)
               (max 512 (rr_class opt)))
             (push_bit 24 (ucast (drop_bit 4 response_code)) OR (rr_ttl opt AND 0x00ffffff)))
             (word_of_nat (length (rr_rdata opt)))
           @ rr_rdata opt)[10 := 0, 11 := 1])"

definition set_flags :: "bytes \<Rightarrow> u16 \<Rightarrow> bytes" where
  "set_flags wire flags = wire[2 := ucast (drop_bit 8 flags), 3 := ucast (flags AND 0xff)]"

definition encode_response :: "dns_packet \<Rightarrow> dns_answer \<Rightarrow> bytes res" where
  "encode_response query answer =
     (if pk_response query \<or> length (pk_questions query) \<noteq> 1 \<or> pk_response_code query \<noteq> 0 \<or>
         an_response_code answer > 0x0fff
      then Inl (codec_error ''DNS response requires one valid query question'')
      else
        let legacy_query = \<lparr>dq_id = pk_id query, dq_question = hd (pk_questions query),
              dq_recursion_desired = pk_recursion_desired query\<rparr>
        in (case encode_answer legacy_query answer of
              Inl e \<Rightarrow> Inl e
            | Inr wire \<Rightarrow>
                let flags = (pk_flags query AND 0x7910) OR 0x8080 OR
                      (if an_authoritative answer then 0x0400 else 0) OR
                      (an_response_code answer AND 0x000f)
                in Inr (append_opt_record (set_flags wire flags) query (an_response_code answer))))"

definition encode_error_response :: "dns_packet \<Rightarrow> u16 \<Rightarrow> bytes res" where
  "encode_error_response query rcode =
     (if pk_response query \<or> length (pk_questions query) \<noteq> 1
      then Inl (codec_error ''DNS error response requires one query question'')
      else if rcode > 0x0fff
      then Inl (codec_error ''DNS response code exceeds the 12-bit wire limit'')
      else case encode_query_packet (hd (pk_questions query)) (pk_id query) of
        Inl e \<Rightarrow> Inl e
      | Inr response \<Rightarrow>
          let flags = (pk_flags query AND 0x7910) OR 0x8080 OR (rcode AND 0x0f)
          in Inr (append_opt_record (set_flags response flags) query rcode))"

section \<open>Names on the wire\<close>

text \<open>A name as its labels, and the labels as RFC 1035 writes them; \<open>read_labels\<close> is a reader.\<close>

fun dot_join :: "string list \<Rightarrow> string" where
  "dot_join [] = []"
| "dot_join [l] = l"
| "dot_join (l # ls) = l @ CHR ''.'' # dot_join ls"

definition label_ok :: "string \<Rightarrow> bool" where
  "label_ok l \<longleftrightarrow> 1 \<le> length l \<and> length l \<le> 63 \<and> CHR ''.'' \<notin> set l"

definition wire_labels :: "string list \<Rightarrow> bytes" where
  "wire_labels ls = concat (map (\<lambda>l. word_of_nat (length l) # bytes_of_string l) ls)"

function read_labels :: "bytes \<Rightarrow> (string list \<times> bytes) option" where
  "read_labels [] = None"
| "read_labels (n # bs) =
     (if n = 0 then Some ([], bs)
      else if unat n > 63 \<or> length bs < unat n then None
      else case read_labels (drop (unat n) bs) of
        None \<Rightarrow> None
      | Some (ls, rest) \<Rightarrow> Some (string_of_bytes (take (unat n) bs) # ls, rest))"
  by pat_completeness auto

termination by (relation "measure length") auto

lemma unat_label_size: "length l \<le> 63 \<Longrightarrow> unat (word_of_nat (length l) :: byte) = length l"
  by (simp add: unat_of_nat)

lemma wire_labels_simps [simp]:
  "wire_labels [] = []"
  "wire_labels (l # ls) = word_of_nat (length l) # bytes_of_string l @ wire_labels ls"
  by (simp_all add: wire_labels_def)

lemma read_labels_wire:
  "(\<forall>l\<in>set ls. label_ok l) \<Longrightarrow> read_labels (wire_labels ls @ 0 # rest) = Some (ls, rest)"
proof (induction ls)
  case (Cons l ls)
  then have l: "1 \<le> length l" "length l \<le> 63" by (auto simp: label_ok_def)
  have u: "unat (word_of_nat (length l) :: byte) = length l" by (rule unat_label_size [OF l(2)])
  then have "(word_of_nat (length l) :: byte) \<noteq> 0" using l(1) by (metis not_one_le_zero unat_0)
  then show ?case using Cons l u by simp
qed simp

lemma length_dot_join:
  "ls \<noteq> [] \<Longrightarrow> length (wire_labels ls) = Suc (length (dot_join ls))"
  by (induction ls rule: dot_join.induct) auto

lemma dot_join_Cons: "ls \<noteq> [] \<Longrightarrow> dot_join (l # ls) = l @ CHR ''.'' # dot_join ls"
  by (cases ls) auto

lemma dot_join_ends:
  "ls \<noteq> [] \<Longrightarrow> \<forall>l\<in>set ls. label_ok l \<Longrightarrow>
     dot_join ls \<noteq> [] \<and> hd (dot_join ls) \<noteq> CHR ''.'' \<and> last (dot_join ls) \<noteq> CHR ''.''"
proof (induction ls rule: dot_join.induct)
  case (2 l)
  then have "l \<noteq> []" "CHR ''.'' \<notin> set l" by (auto simp: label_ok_def)
  then show ?case by (metis dot_join.simps(2) hd_in_set last_in_set)
next
  case (3 l k ks)
  then have "l \<noteq> []" "CHR ''.'' \<notin> set l" by (auto simp: label_ok_def)
  then have "l \<noteq> []" "hd l \<noteq> CHR ''.''" by (auto dest: hd_in_set)
  with 3 show ?case by (auto simp: hd_append)
qed simp

lemma encode_labels_join:
  "ls \<noteq> [] \<Longrightarrow> \<forall>l\<in>set ls. label_ok l \<Longrightarrow> encode_labels (dot_join ls) out = Inr (out @ wire_labels ls)"
proof (induction ls arbitrary: out rule: dot_join.induct)
  case (2 l)
  then have l: "l \<noteq> []" "length l \<le> 63" "CHR ''.'' \<notin> set l" by (auto simp: label_ok_def)
  then have "index_where (\<lambda>c. c = CHR ''.'') l = None" by (auto simp: index_where_None)
  with l show ?case by (simp add: encode_labels.simps [of l])
next
  case (3 l k ks)
  let ?r = "dot_join (k # ks)"
  from 3 have l: "l \<noteq> []" "length l \<le> 63" "CHR ''.'' \<notin> set l" by (auto simp: label_ok_def)
  then have "index_where (\<lambda>c. c = CHR ''.'') (l @ CHR ''.'' # ?r) = Some (length l)"
    by (intro index_where_prefix) auto
  then have "encode_labels (l @ CHR ''.'' # ?r) out =
      encode_labels ?r (out @ [word_of_nat (length l)] @ bytes_of_string l)"
    using l by (subst encode_labels.simps) (simp add: Let_def)
  with 3 show ?case by (simp add: dot_join_Cons)
qed simp

lemma encode_labels_split:
  "encode_labels rest out = Inr r \<Longrightarrow> rest \<noteq> [] \<Longrightarrow> last rest \<noteq> CHR ''.'' \<Longrightarrow>
     \<exists>ls. ls \<noteq> [] \<and> (\<forall>l\<in>set ls. label_ok l) \<and> rest = dot_join ls"
proof (induction rest out arbitrary: r rule: encode_labels.induct)
  case (1 rest out)
  show ?case
  proof (cases "index_where (\<lambda>c. c = CHR ''.'') rest")
    case None
    with 1 have "label_ok rest"
      by (auto simp: encode_labels.simps [of rest] Let_def label_ok_def index_where_None Suc_le_eq
          not_less split: if_splits)
    then show ?thesis by (intro exI [of _ "[rest]"]) simp
  next
    case (Some i)
    let ?l = "take i rest" and ?r = "drop (Suc i) rest"
    have "rest = ?l @ rest ! i # ?r" "rest ! i = CHR ''.''"
      using index_where_split [OF Some] by blast+
    then have split: "rest = ?l @ CHR ''.'' # ?r" by (simp only:)
    have l: "\<forall>c\<in>set ?l. c \<noteq> CHR ''.''" "i < length rest"
      using index_where_split [OF Some] Some by (blast, simp add: index_where_Some)
    from 1(2) Some 1(3) have size: "i \<noteq> 0" "i \<le> 63"
      and e: "encode_labels ?r (out @ [word_of_nat i] @ bytes_of_string ?l) = Inr r"
      by (auto simp: encode_labels.simps [of rest] Let_def not_less split: if_splits)
    have "?r \<noteq> []"
    proof
      assume "?r = []"
      with split have "rest = ?l @ [CHR ''.'']" by simp
      then have "last rest = CHR ''.''" by (metis last_snoc)
      with 1(4) show False by contradiction
    qed
    moreover have "last ?r \<noteq> CHR ''.''"
      using 1(4) \<open>?r \<noteq> []\<close> by (simp add: last_drop)
    ultimately obtain ls where ls: "ls \<noteq> []" "\<forall>l\<in>set ls. label_ok l" "?r = dot_join ls"
      using 1(1) [OF 1(3) refl refl _ refl Some] size Some e by (auto simp: Let_def)
    have "label_ok ?l" using size l by (auto simp: label_ok_def)
    moreover have "rest = dot_join (?l # ls)"
      using split ls by (simp only: dot_join_Cons not_False_eq_True)
    ultimately show ?thesis
      using ls(2) by (intro exI [of _ "?l # ls"]) simp
  qed
qed

definition dns_header :: "u16 \<Rightarrow> byte \<Rightarrow> byte \<Rightarrow> u16 \<Rightarrow> byte \<Rightarrow> bytes" where
  "dns_header ident f0 f1 ancount arcount =
     be_bytes 2 ident @ [f0, f1, 0, 1] @ be_bytes 2 ancount @ [0, 0, 0, arcount]"

definition question_bytes :: "dns_question \<Rightarrow> string list \<Rightarrow> bytes" where
  "question_bytes q ls = wire_labels ls @ [0] @ be_bytes 2 (q_type q) @ be_bytes 2 (q_class q)"

definition name_labels :: "dns_question \<Rightarrow> string list \<Rightarrow> bool" where
  "name_labels q ls \<longleftrightarrow> ls \<noteq> [] \<and> (\<forall>l\<in>set ls. label_ok l) \<and>
     normalize_name (q_name q) = dot_join ls \<and> length (dot_join ls) \<le> 253"

lemma be_bytes_constants:
  "be_bytes 2 (0x0100 :: u16) = [1, 0]" "be_bytes 2 (1 :: u16) = [0, 1]"
  "be_bytes 2 (0 :: u16) = [0, 0]"
  by code_simp+

lemma encode_query_packet_iff:
  "encode_query_packet q ident = Inr w \<longleftrightarrow>
     (\<exists>ls. name_labels q ls \<and> w = dns_header ident 1 0 0 0 @ question_bytes q ls)"
proof -
  let ?n = "normalize_name (q_name q)"
  let ?h = "append_u16 (append_u16 (append_u16 (append_u16 (append_u16 (append_u16 []
              ident) 0x0100) 1) 0) 0) 0"
  have h: "?h = dns_header ident 1 0 0 0"
    by (simp add: append_u16_be dns_header_def be_bytes_constants)
  have hw: "?h @ wire_labels ls @ [0] @ be_bytes 2 (q_type q) @ be_bytes 2 (q_class q) =
      dns_header ident 1 0 0 0 @ question_bytes q ls" for ls
    by (simp only: h question_bytes_def)
  show ?thesis
  proof
    assume e: "encode_query_packet q ident = Inr w"
    then have n: "?n \<noteq> []" "length ?n \<le> 253" "last ?n \<noteq> CHR ''.''"
      by (auto simp: encode_query_packet_def Let_def split: if_splits)
    from e obtain out where out: "encode_labels ?n ?h = Inr out"
      and w: "w = out @ [0] @ be_bytes 2 (q_type q) @ be_bytes 2 (q_class q)"
      by (auto simp: encode_query_packet_def Let_def append_u16_be split: if_splits sum.splits)
    obtain ls where ls: "ls \<noteq> []" "\<forall>l\<in>set ls. label_ok l" "?n = dot_join ls"
      using encode_labels_split [OF out n(1,3)] by blast
    then have "out = ?h @ wire_labels ls"
      using out encode_labels_join [OF ls(1,2), of ?h] by simp
    with w ls n(2) show "\<exists>ls. name_labels q ls \<and> w = dns_header ident 1 0 0 0 @ question_bytes q ls"
      using hw by (auto simp: name_labels_def)
  next
    assume "\<exists>ls. name_labels q ls \<and> w = dns_header ident 1 0 0 0 @ question_bytes q ls"
    then obtain ls where ls: "ls \<noteq> []" "\<forall>l\<in>set ls. label_ok l" "?n = dot_join ls" "length ?n \<le> 253"
      and w: "w = dns_header ident 1 0 0 0 @ question_bytes q ls"
      by (auto simp: name_labels_def)
    have "\<not> (?n = [] \<or> length ?n > 253 \<or> hd ?n = CHR ''.'' \<or> last ?n = CHR ''.'')"
      using dot_join_ends [OF ls(1,2)] ls(3,4) by auto
    moreover have "encode_labels ?n ?h = Inr (?h @ wire_labels ls)"
      using encode_labels_join [OF ls(1,2), of ?h] ls(3) by simp
    ultimately show "encode_query_packet q ident = Inr w"
      using hw [of ls] w by (simp add: encode_query_packet_def Let_def append_u16_be)
  qed
qed

section \<open>Following a chain of aliases\<close>

text \<open>One alias step through a record that lives at least \<open>ttl\<close>.\<close>

definition cname_step ::
  "dns_question \<Rightarrow> dns_resource_record list \<Rightarrow> u32 \<Rightarrow> (string \<times> string) set" where
  "cname_step q answers ttl =
     {(a, b). \<exists>c\<in>set answers. cname_matches q a c \<and> b = normalize_name (the (rr_target_name c)) \<and>
        ttl \<le> rr_ttl c}"

lemma cname_step_mono: "t \<le> t' \<Longrightarrow> cname_step q answers t' \<subseteq> cname_step q answers t"
  by (auto simp: cname_step_def intro: order_trans)

lemma relpow_mono_subset: "R \<subseteq> S \<Longrightarrow> (R :: ('a \<times> 'a) set) ^^ k \<subseteq> S ^^ k"
  by (induction k) (simp_all add: relcomp_mono)

lemma follow_cnames_chain:
  "follow_cnames n q answers a visited m = (b, t) \<Longrightarrow>
     t \<le> m \<and> (\<exists>k\<le>n. (a, b) \<in> cname_step q answers t ^^ k)"
proof (induction n arbitrary: a visited m)
  case 0
  then show ?case by simp
next
  case (Suc n)
  show ?case
  proof (cases "List.find (cname_matches q a) answers")
    case None
    with Suc.prems show ?thesis by auto
  next
    case (Some c)
    let ?next = "normalize_name (the (rr_target_name c))"
    have c: "c \<in> set answers" "cname_matches q a c"
      using Some by (auto simp: find_Some_iff)
    show ?thesis
    proof (cases "?next = [] \<or> ?next \<in> set visited")
      case True
      with Some Suc.prems show ?thesis by auto
    next
      case False
      with Some Suc.prems have "follow_cnames n q answers ?next (visited @ [?next])
          (min m (rr_ttl c)) = (b, t)" by (auto simp: Let_def)
      from Suc.IH [OF this] obtain k where "t \<le> min m (rr_ttl c)" "k \<le> n"
        "(?next, b) \<in> cname_step q answers t ^^ k" by blast
      moreover from this c have "(a, ?next) \<in> cname_step q answers t"
        by (auto simp: cname_step_def)
      ultimately have "(a, b) \<in> cname_step q answers t ^^ Suc k" "t \<le> m" "Suc k \<le> Suc n"
        by (blast intro: relpow_Suc_I2, auto)
      then show ?thesis by blast
    qed
  qed
qed

lemma collect_addresses_spec:
  "collect_addresses q name recs addrs m = (addrs', t) \<Longrightarrow>
     addrs' = addrs @ List.map_filter (usable_address q name) recs \<and> t \<le> m \<and>
     (\<forall>r\<in>set recs. usable_address q name r \<noteq> None \<longrightarrow> t \<le> rr_ttl r)"
proof (induction recs arbitrary: addrs m)
  case Nil
  then show ?case by simp
next
  case (Cons r recs)
  then show ?case
    by (cases "usable_address q name r") (fastforce simp: List.map_filter_simps)+
qed

lemma to_address_answer_cases:
  assumes "to_address_answer p = Inr a"
  obtains q cur k where "pk_questions p = [q]" "pk_response p" "k \<le> 8"
    "(normalize_name (q_name q), cur) \<in> cname_step q (pk_answers p) (an_ttl a) ^^ k"
    "an_addresses a = List.map_filter (usable_address q cur) (pk_answers p)"
    "\<And>r. r \<in> set (pk_answers p) \<Longrightarrow> usable_address q cur r \<noteq> None \<Longrightarrow> an_ttl a \<le> rr_ttl r"
    "an_question a = q" "an_response_code a = pk_response_code p" "an_truncated a = pk_truncated p"
proof -
  obtain q where q: "pk_questions p = [q]" "pk_response p"
    using assms by (auto simp: to_address_answer_def length_Suc_conv split: if_splits)
  let ?n = "normalize_name (q_name q)"
  obtain cur t where f: "follow_cnames 8 q (pk_answers p) ?n [?n] 0xffffffff = (cur, t)"
    by (rule prod.exhaust)
  obtain addrs t' where c: "collect_addresses q cur (pk_answers p) [] t = (addrs, t')"
    by (rule prod.exhaust)
  have a: "a = \<lparr>an_question = q, an_addresses = addrs, an_ttl = (if addrs = [] then 0 else t'),
      an_response_code = pk_response_code p, an_truncated = pk_truncated p,
      an_authoritative = pk_authoritative p\<rparr>"
    using assms q f c by (simp add: to_address_answer_def)
  obtain k where k: "k \<le> 8" "(?n, cur) \<in> cname_step q (pk_answers p) t ^^ k"
    using follow_cnames_chain [OF f] by blast
  have cs: "addrs = List.map_filter (usable_address q cur) (pk_answers p)" "t' \<le> t"
    "\<forall>r\<in>set (pk_answers p). usable_address q cur r \<noteq> None \<longrightarrow> t' \<le> rr_ttl r"
    using collect_addresses_spec [OF c] by auto
  have "an_ttl a \<le> t'" "an_ttl a \<le> t" using cs(2) by (auto simp: a)
  then have chain: "(?n, cur) \<in> cname_step q (pk_answers p) (an_ttl a) ^^ k"
    using relpow_mono_subset [OF cname_step_mono] k(2) by blast
  have ttl: "an_ttl a \<le> rr_ttl r"
    if "r \<in> set (pk_answers p)" "usable_address q cur r \<noteq> None" for r
    using cs(3) that \<open>an_ttl a \<le> t'\<close> order_trans by blast
  show thesis
    by (rule that [OF q k(1) chain _ ttl]) (simp_all add: a cs(1))
qed

section \<open>The layout of responses\<close>

lemma be_bytes_two: "be_bytes 2 (v :: u16) = [ucast (drop_bit 8 v), ucast v]"
  by (simp add: numeral_2_eq_2 be_bytes_Suc)

lemma length_dns_header [simp]: "length (dns_header i a b c d) = 12"
  by (simp add: dns_header_def)

lemma set_flags_header:
  "set_flags (dns_header i a b c d @ rest) flags =
     dns_header i (ucast (drop_bit 8 flags)) (ucast flags) c d @ rest"
  unfolding set_flags_def dns_header_def be_bytes_two by (simp add: eval_nat_numeral)

lemma arcount_header:
  "(dns_header i a b c d @ rest)[10 := 0, 11 := 1] = dns_header i a b c 1 @ rest"
  unfolding dns_header_def be_bytes_two by (simp add: eval_nat_numeral)

text \<open>The OPT pseudo-record a response carries, and whether it carries one.\<close>

definition query_opt :: "dns_packet \<Rightarrow> dns_resource_record option" where
  "query_opt query = List.find (\<lambda>rec. rr_type rec = type_opt) (pk_additionals query)"

definition carries_opt :: "dns_packet \<Rightarrow> u16 \<Rightarrow> bool" where
  "carries_opt query rcode \<longleftrightarrow> query_opt query \<noteq> None \<or> rcode > 0x0f"

definition opt_ttl :: "dns_packet \<Rightarrow> u16 \<Rightarrow> u32" where
  "opt_ttl query rcode = push_bit 24 (ucast (drop_bit 4 rcode)) OR
     (case query_opt query of None \<Rightarrow> 0 | Some opt \<Rightarrow> rr_ttl opt AND 0x00ffffff)"

definition opt_bytes :: "dns_packet \<Rightarrow> u16 \<Rightarrow> bytes" where
  "opt_bytes query rcode =
     (if \<not> carries_opt query rcode then []
      else
        [0] @ be_bytes 2 type_opt @
        be_bytes 2 (case query_opt query of None \<Rightarrow> 1232 | Some opt \<Rightarrow> max 512 (rr_class opt)) @
        be_bytes 4 (opt_ttl query rcode) @
        (case query_opt query of
           None \<Rightarrow> be_bytes 2 (0 :: u16)
         | Some opt \<Rightarrow> be_bytes 2 (word_of_nat (length (rr_rdata opt)) :: u16) @ rr_rdata opt))"

lemma append_opt_record_header:
  "append_opt_record (dns_header i a b c 0 @ rest) query rcode =
     dns_header i a b c (if carries_opt query rcode then 1 else 0) @ rest @ opt_bytes query rcode"
proof (cases "query_opt query")
  case None
  then have f: "List.find (\<lambda>rec. rr_type rec = type_opt) (pk_additionals query) = None"
    by (simp add: query_opt_def)
  show ?thesis
    unfolding append_opt_record_def f append_u16_be append_u32_be append_assoc arcount_header
    by (auto simp: opt_bytes_def opt_ttl_def carries_opt_def None not_less)
next
  case (Some opt)
  then have f: "List.find (\<lambda>rec. rr_type rec = type_opt) (pk_additionals query) = Some opt"
    by (simp add: query_opt_def)
  show ?thesis
    unfolding append_opt_record_def f append_u16_be append_u32_be append_assoc arcount_header option.case
    by (simp add: opt_bytes_def opt_ttl_def carries_opt_def Some)
qed

lemma append_answers_ok:
  "append_answers answer addrs response = Inr w \<Longrightarrow>
     w = response @ concat (map (answer_record answer) addrs) \<and>
     (\<forall>x\<in>set addrs. (q_type (an_question answer) = type_a \<longrightarrow> is_v4 x) \<and>
        (q_type (an_question answer) = type_aaaa \<longrightarrow> \<not> is_v4 x))"
proof (induction addrs arbitrary: response)
  case (Cons x xs)
  from Cons.prems have "append_answers answer xs (response @ answer_record answer x) = Inr w"
    and "(q_type (an_question answer) = type_a \<longrightarrow> is_v4 x) \<and>
      (q_type (an_question answer) = type_aaaa \<longrightarrow> \<not> is_v4 x)"
    by (simp_all split: if_splits)
  with Cons.IH [OF this(1)] show ?case by simp
qed simp

lemma encode_answer_layout:
  assumes "encode_answer query answer = Inr w"
  defines "used \<equiv> if an_response_code answer = 0 then an_addresses answer else []"
  shows "\<exists>ls f0 f1. name_labels (dq_question query) ls \<and>
    w = dns_header (dq_id query) f0 f1 (word_of_nat (length used)) 0 @
        question_bytes (dq_question query) ls @ concat (map (answer_record answer) used) \<and>
    length used \<le> 0xffff \<and>
    q_type (an_question answer) = q_type (dq_question query) \<and>
    q_class (an_question answer) = q_class (dq_question query) \<and>
    (\<forall>x\<in>set used. (q_type (an_question answer) = type_a \<longrightarrow> is_v4 x) \<and>
        (q_type (an_question answer) = type_aaaa \<longrightarrow> \<not> is_v4 x))"
proof -
  let ?count = "if an_response_code answer = 0 then length (an_addresses answer) else 0"
  obtain enc where enc: "encode_query_packet (dq_question query) (dq_id query) = Inr enc"
    using assms(1) by (auto simp: encode_answer_def encode_query_def split: if_splits sum.splits)
  obtain ls where ls: "name_labels (dq_question query) ls"
    and e: "enc = dns_header (dq_id query) 1 0 0 0 @ question_bytes (dq_question query) ls"
    using enc by (auto simp: encode_query_packet_iff)
  have used: "?count = length used" "take (length used) (an_addresses answer) = used"
    by (simp_all add: used_def)
  have upd: "(take 12 enc)[2 := f0, 3 := f1, 6 := ucast (drop_bit 8 (n :: u16)), 7 := ucast (n AND 0xff)]
        @ drop 12 enc = dns_header (dq_id query) f0 f1 n 0 @ question_bytes (dq_question query) ls"
    for f0 f1 n
    unfolding e dns_header_def be_bytes_two by (simp add: eval_nat_numeral)
  have "\<exists>f0 f1. append_answers answer used (dns_header (dq_id query) f0 f1 (word_of_nat (length used)) 0 @
       question_bytes (dq_question query) ls) = Inr w \<and> length (an_addresses answer) \<le> 0xffff \<and>
    q_type (an_question answer) = q_type (dq_question query) \<and>
    q_class (an_question answer) = q_class (dq_question query)"
    using assms(1)
    unfolding encode_answer_def encode_query_def Let_def enc sum.case used upd if_Inl_iff not_less
      de_Morgan_disj not_not by metis
  then obtain f0 f1 where
    "append_answers answer used (dns_header (dq_id query) f0 f1 (word_of_nat (length used)) 0 @
       question_bytes (dq_question query) ls) = Inr w"
    and "length (an_addresses answer) \<le> 0xffff"
    "q_type (an_question answer) = q_type (dq_question query)"
    "q_class (an_question answer) = q_class (dq_question query)"
    by blast
  moreover have "length used \<le> length (an_addresses answer)" by (simp add: used_def)
  ultimately show ?thesis
    using append_answers_ok [of answer used] ls by fastforce
qed

section \<open>Properties\<close>

text \<open>
  A query is encoded exactly when its normalised name is one to 253 characters of labels of 1
  to 63 characters; the message then is the header with the identifier, one question and recursion
  desired, followed by that question, and a reader of RFC 1035 labels gets the labels back.
\<close>

theorem encode_query_wire:
  "encode_query_packet q ident = Inr w \<longleftrightarrow>
     (\<exists>ls. name_labels q ls \<and> w = dns_header ident 1 0 0 0 @ question_bytes q ls \<and>
        read_labels (drop 12 w) = Some (ls, be_bytes 2 (q_type q) @ be_bytes 2 (q_class q)) \<and>
        length w \<le> 12 + 255 + 4)"
proof -
  have "read_labels (question_bytes q ls) = Some (ls, be_bytes 2 (q_type q) @ be_bytes 2 (q_class q))"
    "length (question_bytes q ls) \<le> 255 + 4" if "name_labels q ls" for ls
    using that read_labels_wire [of ls] length_dot_join [of ls]
    by (simp_all add: question_bytes_def name_labels_def)
  then show ?thesis
    unfolding encode_query_packet_iff by fastforce
qed

text \<open>
  A response is the query's identifier and question, the query's opcode, RD and CD flags with
  QR and RA set, as many answer records as ANCOUNT says (none for an error code), each pointing at
  the question's name and of the family of its type, and one OPT record exactly when ARCOUNT is 1:
  when the query had one or the code needs more than four bits.
\<close>

theorem encode_response_wire:
  assumes "encode_response query answer = Inr w"
  shows "\<exists>q ls. pk_questions query = [q] \<and> name_labels q ls \<and>
    (let used = (if an_response_code answer = 0 then an_addresses answer else []);
         flags = (pk_flags query AND 0x7910) OR 0x8080 OR
           (if an_authoritative answer then 0x0400 else 0) OR (an_response_code answer AND 0x000f)
     in w = dns_header (pk_id query) (ucast (drop_bit 8 flags)) (ucast flags)
           (word_of_nat (length used))
           (if carries_opt query (an_response_code answer) then 1 else 0) @
         question_bytes q ls @ concat (map (answer_record answer) used) @
         opt_bytes query (an_response_code answer) \<and>
       length used \<le> 0xffff \<and>
       (\<forall>x\<in>set used. (q_type q = type_a \<longrightarrow> is_v4 x) \<and> (q_type q = type_aaaa \<longrightarrow> \<not> is_v4 x)))"
proof -
  obtain q where q: "pk_questions query = [q]"
    using assms by (auto simp: encode_response_def length_Suc_conv split: if_splits)
  let ?used = "if an_response_code answer = 0 then an_addresses answer else []"
  let ?q = "\<lparr>dq_id = pk_id query, dq_question = q, dq_recursion_desired = pk_recursion_desired query\<rparr>"
  let ?flags = "(pk_flags query AND 0x7910) OR 0x8080 OR
      (if an_authoritative answer then 0x0400 else 0) OR (an_response_code answer AND 0x000f)"
  from assms q obtain wire where a: "encode_answer ?q answer = Inr wire"
    and w: "w = append_opt_record (set_flags wire ?flags) query (an_response_code answer)"
    by (auto simp: encode_response_def Let_def split: if_splits sum.splits)
  from encode_answer_layout [OF a] obtain ls f0 f1 where ls: "name_labels q ls"
    and wire: "wire = dns_header (pk_id query) f0 f1 (word_of_nat (length ?used)) 0 @
        question_bytes q ls @ concat (map (answer_record answer) ?used)"
    and len: "length ?used \<le> 0xffff" and ty: "q_type (an_question answer) = q_type q"
    and fam: "\<forall>x\<in>set ?used. (q_type (an_question answer) = type_a \<longrightarrow> is_v4 x) \<and>
        (q_type (an_question answer) = type_aaaa \<longrightarrow> \<not> is_v4 x)"
    by auto
  have "w = dns_header (pk_id query) (ucast (drop_bit 8 ?flags)) (ucast ?flags)
        (word_of_nat (length ?used)) (if carries_opt query (an_response_code answer) then 1 else 0) @
      question_bytes q ls @ concat (map (answer_record answer) ?used) @
      opt_bytes query (an_response_code answer)"
    unfolding w wire set_flags_header append_opt_record_header by (simp only: append_assoc)
  with q ls len fam show ?thesis unfolding Let_def ty by blast
qed

text \<open>
  The addresses of an answer are those of the response's records for one name, which is reached
  from the question by at most eight alias records, and the answer lives no longer than any record
  it was taken from or any alias on the way.
\<close>

theorem to_address_answer_sound:
  assumes "to_address_answer p = Inr a"
  shows "\<exists>q cur k. pk_questions p = [q] \<and> pk_response p \<and> k \<le> 8 \<and>
    (normalize_name (q_name q), cur) \<in> cname_step q (pk_answers p) (an_ttl a) ^^ k \<and>
    an_addresses a = List.map_filter (usable_address q cur) (pk_answers p) \<and>
    (\<forall>r\<in>set (pk_answers p). usable_address q cur r \<noteq> None \<longrightarrow> an_ttl a \<le> rr_ttl r)"
  using assms by (rule to_address_answer_cases) blast

lemma split_response_code: "push_bit 4 (drop_bit 4 c) OR (c AND 0x0f) = (c :: u16)"
proof -
  have m: "(0x0f :: u16) = mask 4" by (simp add: mask_eq_exp_minus_1)
  show ?thesis
    unfolding m by (rule bit_word_eqI) (auto simp: bit_simps)
qed

lemma opt_ttl_rcode:
  assumes "rcode \<le> 0x0fff"
  shows "(ucast (ucast (drop_bit 24 (opt_ttl query rcode)) :: byte) :: u16) = drop_bit 4 rcode"
proof -
  have "unat rcode \<le> 0x0fff" using assms by (simp add: word_le_nat_alt)
  then have "take_bit 12 (unat rcode) = unat rcode" by (simp add: take_bit_nat_eq_self)
  then have "take_bit 12 rcode = rcode"
    by (metis (no_types) unsigned_take_bit_eq word_unat_eq_iff)
  then have top: "bit rcode n \<Longrightarrow> n < 12" for n
    by (metis bit_take_bit_iff)
  have m: "(0x00ffffff :: u32) = mask 24" by (simp add: mask_eq_exp_minus_1)
  show ?thesis
    unfolding opt_ttl_def m
    by (rule bit_word_eqI) (auto simp: bit_simps dest: top split: option.splits)
qed

text \<open>
  An error response repeats the query's identifier and question without records, and a client
  that reads it the way the decoder does finds the full 12-bit response code: its low four bits in
  the header and the others in the OPT record, which is there whenever they are needed.
\<close>

theorem encode_error_response_code:
  assumes "encode_error_response query rcode = Inr w"
  shows "\<exists>q ls. pk_questions query = [q] \<and> name_labels q ls \<and>
    (let flags = (pk_flags query AND 0x7910) OR 0x8080 OR (rcode AND 0x0f);
         extended = (if carries_opt query rcode then ucast (drop_bit 24 (opt_ttl query rcode)) else 0)
     in w = dns_header (pk_id query) (ucast (drop_bit 8 flags)) (ucast flags) 0
           (if carries_opt query rcode then 1 else 0) @
         question_bytes q ls @ opt_bytes query rcode \<and>
       pk_response_code (default_packet\<lparr>pk_flags := flags, pk_extended_rcode := extended\<rparr>) = rcode)"
proof -
  obtain q where q: "pk_questions query = [q]" and small: "rcode \<le> 0x0fff"
    using assms by (auto simp: encode_error_response_def length_Suc_conv not_less split: if_splits)
  let ?flags = "(pk_flags query AND 0x7910) OR 0x8080 OR (rcode AND 0x0f)"
  from assms q obtain enc where a: "encode_query_packet q (pk_id query) = Inr enc"
    and w: "w = append_opt_record (set_flags enc ?flags) query rcode"
    by (auto simp: encode_error_response_def Let_def split: if_splits sum.splits)
  from a obtain ls where ls: "name_labels q ls"
    and enc: "enc = dns_header (pk_id query) 1 0 0 0 @ question_bytes q ls"
    by (auto simp: encode_query_packet_iff)
  have w': "w = dns_header (pk_id query) (ucast (drop_bit 8 ?flags)) (ucast ?flags) 0
        (if carries_opt query rcode then 1 else 0) @ question_bytes q ls @ opt_bytes query rcode"
    unfolding w enc set_flags_header append_opt_record_header by (simp only: append_assoc)
  have low: "?flags AND 0x0f = rcode AND 0x0f"
  proof -
    have "(0x7910 AND 0x0f :: u16) = 0" "(0x8080 AND 0x0f :: u16) = 0" by code_simp+
    then show ?thesis by (simp add: bit.conj_disj_distrib2 and.assoc)
  qed
  have "drop_bit 4 rcode = 0" if "\<not> carries_opt query rcode"
  proof -
    have "unat rcode < 16" using that by (simp add: carries_opt_def not_less word_le_nat_alt)
    then have "unat (drop_bit 4 rcode) = 0"
      by (simp add: unsigned_drop_bit_eq drop_bit_eq_div [where 'a = nat] take_bit_nat_eq_self)
    then show ?thesis by (simp add: unat_eq_0)
  qed
  then have "push_bit 4 (ucast (if carries_opt query rcode
      then ucast (drop_bit 24 (opt_ttl query rcode)) else 0 :: byte)) = push_bit 4 (drop_bit 4 rcode)"
    using opt_ttl_rcode [OF small] by simp
  then have "pk_response_code (default_packet\<lparr>pk_flags := ?flags, pk_extended_rcode :=
      (if carries_opt query rcode then ucast (drop_bit 24 (opt_ttl query rcode)) else 0)\<rparr>) = rcode"
    by (simp only: pk_response_code_def default_packet_def dns_packet.simps low split_response_code)
  with q ls w' show ?thesis unfolding Let_def by blast
qed

section \<open>Witnesses\<close>

definition sample_question :: dns_question where
  "sample_question = \<lparr>q_name = ''A.b.'', q_type = type_a, q_class = 1\<rparr>"

definition sample_query_packet :: dns_packet where
  "sample_query_packet = default_packet\<lparr>pk_id := 0x1234, pk_flags := 0x0100,
     pk_questions := [sample_question]\<rparr>"

text \<open>A response with an alias \<open>a.b\<close> for \<open>c\<close> and an address of \<open>c\<close>.\<close>

definition sample_response :: dns_packet where
  "sample_response = default_packet\<lparr>pk_flags := 0x8180, pk_questions := [sample_question],
     pk_answers := [default_rr\<lparr>rr_name := ''c'', rr_type := type_a, rr_ttl := 60,
          rr_parsed_address := Some (V4 0x0A000001)\<rparr>,
       default_rr\<lparr>rr_name := ''a.b'', rr_type := type_cname, rr_ttl := 30,
          rr_target_name := Some ''C.''\<rparr>]\<rparr>"

definition sample_answer :: dns_answer where
  "sample_answer = \<lparr>an_question = sample_question, an_addresses = [V4 0x0A000001], an_ttl = 30,
     an_response_code = 0, an_truncated = False, an_authoritative = False\<rparr>"

theorem to_address_answer_sound_witness:
  "to_address_answer sample_response = Inr sample_answer \<and>
   (\<exists>q cur k. pk_questions sample_response = [q] \<and> k \<le> 8 \<and>
      (normalize_name (q_name q), cur) \<in> cname_step q (pk_answers sample_response) 30 ^^ k \<and>
      an_addresses sample_answer = List.map_filter (usable_address q cur) (pk_answers sample_response))"
proof -
  have "to_address_answer sample_response = Inr sample_answer" by code_simp
  moreover have "an_ttl sample_answer = 30" by (simp add: sample_answer_def)
  ultimately show ?thesis
    using to_address_answer_sound [of sample_response sample_answer] by auto
qed

lemma sample_encodes:
  "encode_response sample_query_packet sample_answer = Inr
     [0x12, 0x34, 0x81, 0x80, 0, 1, 0, 1, 0, 0, 0, 0, 1, 97, 1, 98, 0, 0, 1, 0, 1,
      0xc0, 0x0c, 0, 1, 0, 1, 0, 0, 0, 30, 0, 4, 10, 0, 0, 1]"
  by code_simp

theorem encode_response_wire_witness:
  "\<exists>ls. name_labels sample_question ls \<and>
     [0x12, 0x34, 0x81, 0x80, 0, 1, 0, 1, 0, 0, 0, 0, 1, 97, 1, 98, 0, 0, 1, 0, 1,
      0xc0, 0x0c, 0, 1, 0, 1, 0, 0, 0, 30, 0, 4, 10, 0, 0, 1] =
     dns_header 0x1234 0x81 0x80 1 0 @ question_bytes sample_question ls @
       answer_record sample_answer (V4 0x0A000001)"
proof -
  have c: "carries_opt sample_query_packet 0 = False" "opt_bytes sample_query_packet 0 = []"
    "(ucast (drop_bit 8 ((0x0100 AND 0x7910) OR 0x8080 OR 0 OR (0 AND 0x000f) :: u16)) :: byte) = 0x81"
    "(ucast ((0x0100 AND 0x7910) OR 0x8080 OR 0 OR (0 AND 0x000f) :: u16) :: byte) = 0x80"
    by code_simp+
  have f: "pk_id sample_query_packet = 0x1234" "pk_flags sample_query_packet = 0x0100"
    "pk_questions sample_query_packet = [sample_question]" "an_response_code sample_answer = 0"
    "an_addresses sample_answer = [V4 0x0A000001]" "an_authoritative sample_answer = False"
    by (simp_all add: sample_query_packet_def sample_answer_def default_packet_def)
  show ?thesis
    using encode_response_wire [OF sample_encodes] unfolding Let_def f if_False if_True simp_thms c
    by auto
qed

theorem encode_error_response_code_witness:
  "\<exists>w q. encode_error_response sample_query_packet 0x17 = Inr w \<and>
    pk_questions sample_query_packet = [q] \<and> carries_opt sample_query_packet 0x17"
proof -
  have c: "carries_opt sample_query_packet 0x17" by code_simp
  have "succeeds (encode_error_response sample_query_packet 0x17)" by code_simp
  then obtain w where w: "encode_error_response sample_query_packet 0x17 = Inr w"
    by (auto simp: succeeds_iff)
  from encode_error_response_code [OF w] w c show ?thesis by blast
qed

end
