(* ===== verification/Dns_Cares.thy ===== *)
theory Dns_Cares
  imports Dns_Codec
begin

text \<open>
  The part of \<^verbatim>\<open>src/dns/dns_codec.cpp\<close> that rests on c-ares: decoding a message into a packet and
  truncating a UDP response. The c-ares library is a parameter, the record \<open>cares_api\<close> of the
  functions the code calls, over abstract records \<open>'rec\<close> and resource records \<open>'rr\<close>; a status is
  an integer, 0 for \<^verbatim>\<open>ARES_SUCCESS\<close>. A buffer the library hands out is its bytes, or a null pointer
  with the length that came with it. \<^verbatim>\<open>ares_library_init\<close>, run once, gives one status.
\<close>

section \<open>The library as the code sees it\<close>

datatype cares_section = Sec_answer | Sec_authority | Sec_additional

datatype cares_flag = Flag_qr | Flag_aa | Flag_tc | Flag_rd | Flag_ra | Flag_ad | Flag_cd

datatype cares_datatype =
    Dt_inaddr | Dt_inaddr6 | Dt_u8 | Dt_u16 | Dt_u32 | Dt_name | Dt_str | Dt_bin | Dt_binp
  | Dt_abinp | Dt_opt | Dt_other

datatype cares_key =
    Key_a_addr | Key_aaaa_addr | Key_ns_nsdname | Key_cname_cname | Key_ptr_dname | Key_soa_mname
  | Key_soa_rname | Key_soa_serial | Key_soa_refresh | Key_soa_retry | Key_soa_expire
  | Key_soa_minimum | Key_mx_preference | Key_mx_exchange | Key_txt_data | Key_srv_priority
  | Key_srv_weight | Key_srv_port | Key_srv_target | Key_svcb_priority | Key_svcb_target
  | Key_svcb_params | Key_https_priority | Key_https_target | Key_https_params | Key_opt_udp_size
  | Key_opt_version | Key_opt_flags | Key_opt_options | Key_raw_rr_type | Key_raw_rr_data
  | Key_other nat

datatype cares_buffer = Buffer bytes | Null_buffer nat

fun buffer_length :: "cares_buffer \<Rightarrow> nat" where
  "buffer_length (Buffer bs) = length bs"
| "buffer_length (Null_buffer n) = n"

fun buffer_bytes :: "cares_buffer \<Rightarrow> bytes" where
  "buffer_bytes (Buffer bs) = bs"
| "buffer_bytes (Null_buffer n) = []"

fun is_null :: "cares_buffer \<Rightarrow> bool" where
  "is_null (Buffer bs) = False"
| "is_null (Null_buffer n) = True"

type_synonym 'a cares = "(int, 'a) result"

record ('rec, 'rr) cares_api =
  ca_init_status :: int
  ca_strerror :: "int \<Rightarrow> string"
  ca_parse :: "bytes \<Rightarrow> 'rec cares"
  ca_duplicate :: "'rec \<Rightarrow> 'rec option"
  ca_write :: "'rec \<Rightarrow> bytes cares"
  ca_id :: "'rec \<Rightarrow> u16"
  ca_flag :: "cares_flag \<Rightarrow> 'rec \<Rightarrow> bool"
  ca_opcode :: "'rec \<Rightarrow> u16"
  ca_rcode :: "'rec \<Rightarrow> u16"
  ca_query_cnt :: "'rec \<Rightarrow> nat"
  ca_query_get :: "'rec \<Rightarrow> nat \<Rightarrow> (string option \<times> u16 \<times> u16) cares"
  ca_rr_cnt :: "'rec \<Rightarrow> cares_section \<Rightarrow> nat"
  ca_rr_get :: "'rec \<Rightarrow> cares_section \<Rightarrow> nat \<Rightarrow> 'rr option"
  ca_rr_del :: "'rec \<Rightarrow> cares_section \<Rightarrow> nat \<Rightarrow> 'rec cares"
  ca_rr_name :: "'rr \<Rightarrow> string option"
  ca_rr_type :: "'rr \<Rightarrow> u16 option"  \<comment> \<open>\<open>None\<close> is \<^verbatim>\<open>ARES_REC_TYPE_RAW_RR\<close>\<close>
  ca_rr_class :: "'rr \<Rightarrow> u16"
  ca_rr_ttl :: "'rr \<Rightarrow> u32"
  ca_keys :: "u16 option \<Rightarrow> cares_key list option"
  ca_key_name :: "cares_key \<Rightarrow> string option"
  ca_key_code :: "cares_key \<Rightarrow> u32"
  ca_key_datatype :: "cares_key \<Rightarrow> cares_datatype"
  ca_addr :: "'rr \<Rightarrow> cares_key \<Rightarrow> bytes option"
  ca_addr6 :: "'rr \<Rightarrow> cares_key \<Rightarrow> bytes option"
  ca_u8 :: "'rr \<Rightarrow> cares_key \<Rightarrow> byte"
  ca_u16 :: "'rr \<Rightarrow> cares_key \<Rightarrow> u16"
  ca_u32 :: "'rr \<Rightarrow> cares_key \<Rightarrow> u32"
  ca_str :: "'rr \<Rightarrow> cares_key \<Rightarrow> string option"
  ca_bin :: "'rr \<Rightarrow> cares_key \<Rightarrow> cares_buffer"
  ca_abin_cnt :: "'rr \<Rightarrow> cares_key \<Rightarrow> nat"
  ca_abin :: "'rr \<Rightarrow> cares_key \<Rightarrow> nat \<Rightarrow> cares_buffer"
  ca_opt_cnt :: "'rr \<Rightarrow> cares_key \<Rightarrow> nat"
  ca_opt :: "'rr \<Rightarrow> cares_key \<Rightarrow> nat \<Rightarrow> u16 \<times> cares_buffer"

definition cares_error :: "('rec, 'rr) cares_api \<Rightarrow> string \<Rightarrow> int \<Rightarrow> error" where
  "cares_error api operation status =
     codec_error (''c-ares failed to '' @ operation @ '': '' @ ca_strerror api status)"

definition write_dns_record :: "('rec, 'rr) cares_api \<Rightarrow> 'rec \<Rightarrow> bytes res" where
  "write_dns_record api rec =
     (case ca_write api rec of
        Inl status \<Rightarrow> Inl (cares_error api ''write the DNS message'' status)
      | Inr wire \<Rightarrow> Inr wire)"

definition rr_type_code :: "('rec, 'rr) cares_api \<Rightarrow> 'rr \<Rightarrow> u16" where
  "rr_type_code api rr =
     (case ca_rr_type api rr of None \<Rightarrow> ca_u16 api rr Key_raw_rr_type | Some t \<Rightarrow> t)"

section \<open>Generic fields\<close>

text \<open>Collecting over an index range, failing with the first element that does.\<close>

fun collect :: "(nat \<Rightarrow> 'a option) \<Rightarrow> nat list \<Rightarrow> 'a list option" where
  "collect f [] = Some []"
| "collect f (i # is) =
     (case f i of
        None \<Rightarrow> None
      | Some x \<Rightarrow> (case collect f is of None \<Rightarrow> None | Some xs \<Rightarrow> Some (x # xs)))"

definition abin_strings :: "('rec, 'rr) cares_api \<Rightarrow> 'rr \<Rightarrow> cares_key \<Rightarrow> bytes list option" where
  "abin_strings api rr key =
     collect (\<lambda>i. let b = ca_abin api rr key i in
       if is_null b \<and> buffer_length b \<noteq> 0 then None else Some (buffer_bytes b))
       [0..<ca_abin_cnt api rr key]"

definition field_options :: "('rec, 'rr) cares_api \<Rightarrow> 'rr \<Rightarrow> cares_key \<Rightarrow> dns_option list option" where
  "field_options api rr key =
     collect (\<lambda>i. case ca_opt api rr key i of (c, b) \<Rightarrow>
       if c = 0xffff \<or> is_null b \<and> buffer_length b \<noteq> 0 then None
       else Some \<lparr>opt_code = c, opt_data = buffer_bytes b\<rparr>)
       [0..<ca_opt_cnt api rr key]"

text \<open>The type and value of a field: \<open>None\<close> is an invalid record, \<open>Some None\<close> a field left out.\<close>

definition cares_field ::
  "('rec, 'rr) cares_api \<Rightarrow> 'rr \<Rightarrow> cares_key \<Rightarrow> (dns_field_type \<times> dns_field_value) option option" where
  "cares_field api rr key =
     (case ca_key_datatype api key of
        Dt_inaddr \<Rightarrow> map_option (\<lambda>a. Some (Ipv4_address, Fv_address (v4_from_bytes a)))
          (ca_addr api rr key)
      | Dt_inaddr6 \<Rightarrow> map_option (\<lambda>a. Some (Ipv6_address, Fv_address (v6_from_bytes a)))
          (ca_addr6 api rr key)
      | Dt_u8 \<Rightarrow> Some (Some (Unsigned_8, Fv_u8 (ca_u8 api rr key)))
      | Dt_u16 \<Rightarrow> Some (Some (Unsigned_16, Fv_u16 (ca_u16 api rr key)))
      | Dt_u32 \<Rightarrow> Some (Some (Unsigned_32, Fv_u32 (ca_u32 api rr key)))
      | Dt_name \<Rightarrow> map_option (\<lambda>s. Some (Domain_name, Fv_string (normalize_name s)))
          (ca_str api rr key)
      | Dt_str \<Rightarrow> map_option (\<lambda>s. Some (String_field, Fv_string s)) (ca_str api rr key)
      | Dt_bin \<Rightarrow> (let b = ca_bin api rr key in
          if is_null b \<and> buffer_length b \<noteq> 0 then None
          else Some (Some (Binary, Fv_bytes (buffer_bytes b))))
      | Dt_binp \<Rightarrow> (let b = ca_bin api rr key in
          if is_null b \<and> buffer_length b \<noteq> 0 then None
          else Some (Some (Binary, Fv_bytes (buffer_bytes b))))
      | Dt_abinp \<Rightarrow> map_option (\<lambda>ss. Some (Binary_strings, Fv_strings ss)) (abin_strings api rr key)
      | Dt_opt \<Rightarrow> map_option (\<lambda>os. Some (Options, Fv_options os)) (field_options api rr key)
      | Dt_other \<Rightarrow> Some None)"

fun collect_fields ::
  "('rec, 'rr) cares_api \<Rightarrow> 'rr \<Rightarrow> cares_key list \<Rightarrow> dns_field list option" where
  "collect_fields api rr [] = Some []"
| "collect_fields api rr (key # keys) =
     (case ca_key_name api key of
        None \<Rightarrow> collect_fields api rr keys
      | Some name \<Rightarrow>
          (case cares_field api rr key of
             None \<Rightarrow> None
           | Some None \<Rightarrow> collect_fields api rr keys
           | Some (Some (t, v)) \<Rightarrow>
               map_option (\<lambda>fs. \<lparr>fd_key_code = ca_key_code api key, fd_key_name = name, fd_type = t,
                 fd_value = v\<rparr> # fs) (collect_fields api rr keys)))"

definition append_cares_fields ::
  "('rec, 'rr) cares_api \<Rightarrow> 'rr \<Rightarrow> u16 option \<Rightarrow> dns_field list option" where
  "append_cares_fields api rr parsed_type =
     (case ca_keys api parsed_type of None \<Rightarrow> None | Some keys \<Rightarrow> collect_fields api rr keys)"

section \<open>Resource records\<close>

definition svcb_data ::
  "('rec, 'rr) cares_api \<Rightarrow> 'rr \<Rightarrow> cares_key \<Rightarrow> cares_key \<Rightarrow> cares_key \<Rightarrow> dns_svcb_data option" where
  "svcb_data api rr params_key target_key priority_key =
     (case ca_str api rr target_key of
        None \<Rightarrow> None
      | Some target \<Rightarrow>
          map_option (\<lambda>ps. \<lparr>svcb_priority = ca_u16 api rr priority_key,
              svcb_target = normalize_name target, svcb_params = ps\<rparr>)
            (collect (\<lambda>i. case ca_opt api rr params_key i of (c, b) \<Rightarrow>
               if c = 0xffff \<or> buffer_length b > 0xffff then None
               else Some \<lparr>opt_code = c, opt_data = buffer_bytes b\<rparr>)
               [0..<ca_opt_cnt api rr params_key]))"

definition opt_rdata :: "('rec, 'rr) cares_api \<Rightarrow> 'rr \<Rightarrow> bytes option" where
  "opt_rdata api rr =
     map_option concat
       (collect (\<lambda>i. case ca_opt api rr Key_opt_options i of (c, b) \<Rightarrow>
          if c = 0xffff \<or> buffer_length b > 0xffff then None
          else Some (append_u16 (append_u16 [] c) (word_of_nat (buffer_length b)) @ buffer_bytes b))
          [0..<ca_opt_cnt api rr Key_opt_options])"

text \<open>The \<^verbatim>\<open>switch\<close> over the record type; \<open>None\<close> is \<^verbatim>\<open>return false\<close>.\<close>

definition typed_data ::
  "('rec, 'rr) cares_api \<Rightarrow> 'rr \<Rightarrow> dns_resource_record \<Rightarrow> dns_resource_record option" where
  "typed_data api rr r =
     (if rr_type r = type_a then
        (case ca_addr api rr Key_a_addr of
           None \<Rightarrow> Some r
         | Some a \<Rightarrow> Some (r\<lparr>rr_rdata := a, rr_parsed_address := Some (v4_from_bytes a)\<rparr>))
      else if rr_type r = type_aaaa then
        (case ca_addr6 api rr Key_aaaa_addr of
           None \<Rightarrow> Some r
         | Some a \<Rightarrow> Some (r\<lparr>rr_rdata := a, rr_parsed_address := Some (v6_from_bytes a)\<rparr>))
      else if rr_type r = type_ns then
        (case ca_str api rr Key_ns_nsdname of
           None \<Rightarrow> Some r | Some t \<Rightarrow> Some (r\<lparr>rr_target_name := Some (normalize_name t)\<rparr>))
      else if rr_type r = type_cname then
        (case ca_str api rr Key_cname_cname of
           None \<Rightarrow> Some r | Some t \<Rightarrow> Some (r\<lparr>rr_target_name := Some (normalize_name t)\<rparr>))
      else if rr_type r = type_ptr then
        (case ca_str api rr Key_ptr_dname of
           None \<Rightarrow> Some r | Some t \<Rightarrow> Some (r\<lparr>rr_target_name := Some (normalize_name t)\<rparr>))
      else if rr_type r = type_soa then
        (case (ca_str api rr Key_soa_mname, ca_str api rr Key_soa_rname) of
           (Some mname, Some rname) \<Rightarrow>
             Some (r\<lparr>rr_soa := Some \<lparr>soa_primary_name_server = normalize_name mname,
               soa_responsible_mailbox = normalize_name rname,
               soa_serial = ca_u32 api rr Key_soa_serial, soa_refresh = ca_u32 api rr Key_soa_refresh,
               soa_retry = ca_u32 api rr Key_soa_retry, soa_expire = ca_u32 api rr Key_soa_expire,
               soa_minimum_ttl = ca_u32 api rr Key_soa_minimum\<rparr>\<rparr>)
         | _ \<Rightarrow> None)
      else if rr_type r = type_mx then
        map_option (\<lambda>e. r\<lparr>rr_mx := Some \<lparr>mx_preference = ca_u16 api rr Key_mx_preference,
            mx_exchange = normalize_name e\<rparr>\<rparr>)
          (ca_str api rr Key_mx_exchange)
      else if rr_type r = type_txt then
        map_option (\<lambda>ss. r\<lparr>rr_txt_strings := ss\<rparr>) (abin_strings api rr Key_txt_data)
      else if rr_type r = type_srv then
        map_option (\<lambda>t. r\<lparr>rr_srv := Some \<lparr>srv_priority = ca_u16 api rr Key_srv_priority,
            srv_weight = ca_u16 api rr Key_srv_weight, srv_port = ca_u16 api rr Key_srv_port,
            srv_target = t\<rparr>\<rparr>)
          (ca_str api rr Key_srv_target)
      else if rr_type r = type_svcb then
        map_option (\<lambda>d. r\<lparr>rr_svcb := Some d\<rparr>)
          (svcb_data api rr Key_svcb_params Key_svcb_target Key_svcb_priority)
      else if rr_type r = type_https then
        map_option (\<lambda>d. r\<lparr>rr_svcb := Some d\<rparr>)
          (svcb_data api rr Key_https_params Key_https_target Key_https_priority)
      else if rr_type r = type_opt then
        map_option (\<lambda>d. r\<lparr>rr_rdata := rr_rdata r @ d\<rparr>) (opt_rdata api rr)
      else Some r)"

definition opt_ttl_code :: "('rec, 'rr) cares_api \<Rightarrow> 'rec \<Rightarrow> 'rr \<Rightarrow> u32" where
  "opt_ttl_code api rec rr =
     push_bit 24 (ucast (drop_bit 4 (ca_rcode api rec) AND 0xff)) OR
     push_bit 16 (ucast (ca_u8 api rr Key_opt_version)) OR ucast (ca_u16 api rr Key_opt_flags)"

definition decode_rr ::
  "('rec, 'rr) cares_api \<Rightarrow> 'rec \<Rightarrow> 'rr \<Rightarrow> dns_resource_record option" where
  "decode_rr api rec rr =
     (case ca_rr_name api rr of
        None \<Rightarrow> None
      | Some name \<Rightarrow>
          (case append_cares_fields api rr (ca_rr_type api rr) of
             None \<Rightarrow> None
           | Some fields' \<Rightarrow>
               let r = default_rr\<lparr>rr_name := normalize_name name, rr_type := rr_type_code api rr,
                     rr_rdata := (if ca_rr_type api rr = None
                       then buffer_bytes (ca_bin api rr Key_raw_rr_data) else []),
                     rr_fields := fields', rr_class := ca_rr_class api rr, rr_ttl := ca_rr_ttl api rr\<rparr>;
                   r = (if rr_type r = type_opt
                        then r\<lparr>rr_class := ca_u16 api rr Key_opt_udp_size,
                               rr_ttl := opt_ttl_code api rec rr\<rparr>
                        else r)
               in typed_data api rr r))"

definition append_section ::
  "('rec, 'rr) cares_api \<Rightarrow> 'rec \<Rightarrow> cares_section \<Rightarrow> dns_resource_record list option" where
  "append_section api rec sec =
     collect (\<lambda>i. case ca_rr_get api rec sec i of None \<Rightarrow> None | Some rr \<Rightarrow> decode_rr api rec rr)
       [0..<ca_rr_cnt api rec sec]"

section \<open>Packets\<close>

definition packet_flags :: "('rec, 'rr) cares_api \<Rightarrow> 'rec \<Rightarrow> u16" where
  "packet_flags api rec =
     (if ca_flag api Flag_qr rec then 0x8000 else 0) OR
     (if ca_flag api Flag_aa rec then 0x0400 else 0) OR
     (if ca_flag api Flag_tc rec then 0x0200 else 0) OR
     (if ca_flag api Flag_rd rec then 0x0100 else 0) OR
     (if ca_flag api Flag_ra rec then 0x0080 else 0) OR
     (if ca_flag api Flag_ad rec then 0x0020 else 0) OR
     (if ca_flag api Flag_cd rec then 0x0010 else 0) OR
     (push_bit 11 (ca_opcode api rec AND 0x0f) OR (ca_rcode api rec AND 0x0f))"

fun read_questions ::
  "('rec, 'rr) cares_api \<Rightarrow> 'rec \<Rightarrow> nat list \<Rightarrow> dns_question list res" where
  "read_questions api rec [] = Inr []"
| "read_questions api rec (i # is) =
     (case ca_query_get api rec i of
        Inl status \<Rightarrow> Inl (cares_error api ''read a DNS question'' status)
      | Inr (None, _, _) \<Rightarrow> Inl (cares_error api ''read a DNS question'' 0)
      | Inr (Some name, qtype, qclass) \<Rightarrow>
          (case read_questions api rec is of
             Inl e \<Rightarrow> Inl e
           | Inr qs \<Rightarrow>
               Inr (\<lparr>q_name = normalize_name name, q_type = qtype, q_class = qclass\<rparr> # qs)))"

definition decode_packet ::
  "('rec, 'rr) cares_api \<Rightarrow> bytes \<Rightarrow> u16 option \<Rightarrow> dns_packet res" where
  "decode_packet api message expected_id =
     (if ca_init_status api \<noteq> 0
      then Inl (cares_error api ''initialize the DNS library'' (ca_init_status api))
      else case ca_parse api message of
        Inl status \<Rightarrow> Inl (cares_error api ''parse the DNS message'' status)
      | Inr rec \<Rightarrow>
          if expected_id \<noteq> None \<and> Some (ca_id api rec) \<noteq> expected_id
          then Inl (codec_error ''DNS response transaction ID does not match'')
          else case read_questions api rec [0..<ca_query_cnt api rec] of
            Inl e \<Rightarrow> Inl e
          | Inr questions \<Rightarrow>
              (case (append_section api rec Sec_answer, append_section api rec Sec_authority,
                     append_section api rec Sec_additional) of
                 (Some answers, Some authorities, Some additionals) \<Rightarrow>
                   Inr \<lparr>pk_wire = message, pk_id = ca_id api rec, pk_flags = packet_flags api rec,
                     pk_extended_rcode = ucast (drop_bit 4 (ca_rcode api rec)),
                     pk_questions = questions, pk_answers = answers,
                     pk_authorities = authorities, pk_additionals = additionals\<rparr>
               | _ \<Rightarrow> Inl (codec_error ''c-ares returned an invalid DNS resource record'')))"

definition decode_query :: "('rec, 'rr) cares_api \<Rightarrow> bytes \<Rightarrow> dns_query res" where
  "decode_query api message =
     (case decode_packet api message None of
        Inl e \<Rightarrow> Inl e
      | Inr p \<Rightarrow>
          if pk_response p \<or> length (pk_questions p) \<noteq> 1 \<or> pk_answers p \<noteq> [] \<or> pk_authorities p \<noteq> []
          then Inl (codec_error ''DNS query must contain one question'')
          else Inr \<lparr>dq_id = pk_id p, dq_question = hd (pk_questions p),
            dq_recursion_desired = pk_recursion_desired p\<rparr>)"

definition decode_response :: "('rec, 'rr) cares_api \<Rightarrow> bytes \<Rightarrow> u16 \<Rightarrow> dns_answer res" where
  "decode_response api message expected_id =
     (case decode_packet api message (Some expected_id) of
        Inl e \<Rightarrow> Inl e
      | Inr p \<Rightarrow>
          if \<not> pk_response p \<or> length (pk_questions p) \<noteq> 1
          then Inl (codec_error ''DNS response must contain one question'')
          else to_address_answer p)"

section \<open>Truncation\<close>

definition oversized_error :: error where
  "oversized_error = codec_error ''DNS question and EDNS data exceed the UDP payload capacity''"

definition encode_truncated :: "('rec, 'rr) cares_api \<Rightarrow> nat \<Rightarrow> 'rec \<Rightarrow> bytes res" where
  "encode_truncated api maximum rec =
     (case write_dns_record api rec of
        Inl e \<Rightarrow> Inl e
      | Inr wire \<Rightarrow>
          if length wire > maximum then Inl oversized_error
          else Inr (wire[2 := wire ! 2 OR 0x02]))"

text \<open>
  The record whose set is removed next, looked for from the end of the section: its type, name and
  class. EDNS data in the additional section is skipped.
\<close>

type_synonym rrset = "u16 \<times> string \<times> u16"

fun find_removable ::
  "('rec, 'rr) cares_api \<Rightarrow> 'rec \<Rightarrow> cares_section \<Rightarrow> nat \<Rightarrow> rrset option res" where
  "find_removable api rec sec 0 = Inr None"
| "find_removable api rec sec (Suc index) =
     (case ca_rr_get api rec sec index of
        None \<Rightarrow> Inl (codec_error ''c-ares returned an invalid resource record'')
      | Some rr \<Rightarrow>
          if sec = Sec_additional \<and> rr_type_code api rr = type_opt
          then find_removable api rec sec index
          else case ca_rr_name api rr of
            None \<Rightarrow> Inl (codec_error ''c-ares returned a resource record without a name'')
          | Some name \<Rightarrow> Inr (Some (rr_type_code api rr, normalize_name name, ca_rr_class api rr)))"

definition in_rrset :: "('rec, 'rr) cares_api \<Rightarrow> rrset \<Rightarrow> 'rr option \<Rightarrow> bool" where
  "in_rrset api k candidate =
     (case (k, candidate) of
        ((t, n, c), Some rr) \<Rightarrow>
          (case ca_rr_name api rr of
             None \<Rightarrow> False
           | Some name \<Rightarrow> rr_type_code api rr = t \<and> ca_rr_class api rr = c \<and> normalize_name name = n)
      | (_, None) \<Rightarrow> False)"

fun delete_rrset ::
  "('rec, 'rr) cares_api \<Rightarrow> cares_section \<Rightarrow> rrset \<Rightarrow> nat \<Rightarrow> 'rec \<Rightarrow> 'rec res" where
  "delete_rrset api sec k 0 rec = Inr rec"
| "delete_rrset api sec k (Suc index) rec =
     (if in_rrset api k (ca_rr_get api rec sec index)
      then (case ca_rr_del api rec sec index of
          Inl status \<Rightarrow> Inl (cares_error api ''remove a resource record while truncating'' status)
        | Inr rec' \<Rightarrow> delete_rrset api sec k index rec')
      else delete_rrset api sec k index rec)"

text \<open>The \<^verbatim>\<open>while\<close> of one section either returns a result or falls through to the next one.\<close>

datatype 'rec truncation = Return "bytes res" | Fall_through 'rec

partial_function (option) truncate_section ::
  "('rec, 'rr) cares_api \<Rightarrow> nat \<Rightarrow> cares_section \<Rightarrow> 'rec \<Rightarrow> 'rec truncation option" where
  "truncate_section api maximum sec rec =
     (if ca_rr_cnt api rec sec = 0 then Some (Fall_through rec)
      else case find_removable api rec sec (ca_rr_cnt api rec sec) of
        Inl e \<Rightarrow> Some (Return (Inl e))
      | Inr None \<Rightarrow> Some (Fall_through rec)
      | Inr (Some k) \<Rightarrow>
          (case delete_rrset api sec k (ca_rr_cnt api rec sec) rec of
             Inl e \<Rightarrow> Some (Return (Inl e))
           | Inr rec' \<Rightarrow>
               (case encode_truncated api maximum rec' of
                  Inr wire \<Rightarrow> Some (Return (Inr wire))
                | Inl e \<Rightarrow>
                    if context_text e \<noteq> context_text oversized_error then Some (Return (Inl e))
                    else truncate_section api maximum sec rec')))"

declare truncate_section.simps [code]

fun truncate_sections ::
  "('rec, 'rr) cares_api \<Rightarrow> nat \<Rightarrow> cares_section list \<Rightarrow> 'rec \<Rightarrow> 'rec truncation option" where
  "truncate_sections api maximum [] rec = Some (Fall_through rec)"
| "truncate_sections api maximum (sec # secs) rec =
     (case truncate_section api maximum sec rec of
        None \<Rightarrow> None
      | Some (Return r) \<Rightarrow> Some (Return r)
      | Some (Fall_through rec') \<Rightarrow> truncate_sections api maximum secs rec')"

fun drop_opt :: "('rec, 'rr) cares_api \<Rightarrow> nat \<Rightarrow> 'rec \<Rightarrow> 'rec res" where
  "drop_opt api 0 rec = Inr rec"
| "drop_opt api (Suc index) rec =
     (case ca_rr_get api rec Sec_additional index of
        Some rr \<Rightarrow>
          if rr_type_code api rr = type_opt
          then (case ca_rr_del api rec Sec_additional index of
              Inl status \<Rightarrow> Inl (cares_error api ''remove oversized EDNS data while truncating'' status)
            | Inr rec' \<Rightarrow> drop_opt api index rec')
          else drop_opt api index rec
      | None \<Rightarrow> drop_opt api index rec)"

definition truncate_udp_response ::
  "('rec, 'rr) cares_api \<Rightarrow> bytes \<Rightarrow> nat \<Rightarrow> bytes res option" where
  "truncate_udp_response api response maximum =
     (if maximum < 12
      then Some (Inl (codec_error ''UDP DNS payload capacity is smaller than a DNS header''))
      else if length response \<le> maximum then Some (Inr response)
      else if ca_init_status api \<noteq> 0
      then Some (Inl (cares_error api ''initialize the DNS library'' (ca_init_status api)))
      else case ca_parse api response of
        Inl status \<Rightarrow> Some (Inl (cares_error api ''parse the response for UDP truncation'' status))
      | Inr parsed \<Rightarrow>
          (case ca_duplicate api parsed of
             None \<Rightarrow> Some (Inl (codec_error ''c-ares could not duplicate the DNS response''))
           | Some rec \<Rightarrow>
               (case truncate_sections api maximum [Sec_additional, Sec_authority, Sec_answer] rec of
                  None \<Rightarrow> None
                | Some (Return r) \<Rightarrow> Some r
                | Some (Fall_through rec') \<Rightarrow>
                    (case drop_opt api (ca_rr_cnt api rec' Sec_additional) rec' of
                       Inl e \<Rightarrow> Some (Inl e)
                     | Inr rec'' \<Rightarrow> Some (encode_truncated api maximum rec'')))))"

section \<open>What decoding keeps\<close>

lemma decode_packet_cases:
  assumes "decode_packet api message expected_id = Inr p"
  obtains rec where "ca_parse api message = Inr rec" "expected_id = None \<or> expected_id = Some (pk_id p)"
    "pk_wire p = message" "pk_id p = ca_id api rec" "pk_flags p = packet_flags api rec"
    "pk_extended_rcode p = ucast (drop_bit 4 (ca_rcode api rec))"
    "read_questions api rec [0..<ca_query_cnt api rec] = Inr (pk_questions p)"
    "append_section api rec Sec_answer = Some (pk_answers p)"
    "append_section api rec Sec_authority = Some (pk_authorities p)"
    "append_section api rec Sec_additional = Some (pk_additionals p)"
  using assms unfolding decode_packet_def
  by (auto split: if_splits sum.splits option.splits)

lemma bit_flag: "bit (if b then 2 ^ n else 0 :: u16) k \<longleftrightarrow> b \<and> k = n \<and> n < 16"
  by (simp add: bit_exp_iff) auto

lemma bit_low4: "bit (w AND 0x0f :: u16) k \<longleftrightarrow> k < 4 \<and> bit w k"
proof -
  have m: "(0x0f :: u16) = mask 4" by (simp add: mask_eq_exp_minus_1)
  show ?thesis unfolding m bit_and_iff bit_mask_iff by (auto dest: bit_imp_le_length)
qed

lemma bit_packet_flags:
  "bit (packet_flags api rec) k \<longleftrightarrow>
     ca_flag api Flag_qr rec \<and> k = 15 \<or> ca_flag api Flag_aa rec \<and> k = 10 \<or>
     ca_flag api Flag_tc rec \<and> k = 9 \<or> ca_flag api Flag_rd rec \<and> k = 8 \<or>
     ca_flag api Flag_ra rec \<and> k = 7 \<or> ca_flag api Flag_ad rec \<and> k = 5 \<or>
     ca_flag api Flag_cd rec \<and> k = 4 \<or>
     11 \<le> k \<and> k < 15 \<and> bit (ca_opcode api rec) (k - 11) \<or> k < 4 \<and> bit (ca_rcode api rec) k"
proof -
  have "packet_flags api rec =
     (if ca_flag api Flag_qr rec then 2 ^ 15 else 0) OR (if ca_flag api Flag_aa rec then 2 ^ 10 else 0) OR
     (if ca_flag api Flag_tc rec then 2 ^ 9 else 0) OR (if ca_flag api Flag_rd rec then 2 ^ 8 else 0) OR
     (if ca_flag api Flag_ra rec then 2 ^ 7 else 0) OR (if ca_flag api Flag_ad rec then 2 ^ 5 else 0) OR
     (if ca_flag api Flag_cd rec then 2 ^ 4 else 0) OR
     (push_bit 11 (ca_opcode api rec AND 0x0f) OR (ca_rcode api rec AND 0x0f))"
    unfolding packet_flags_def by simp
  moreover have "bit (push_bit 11 (ca_opcode api rec AND 0x0f)) k \<longleftrightarrow>
      11 \<le> k \<and> k < 15 \<and> bit (ca_opcode api rec) (k - 11)"
    unfolding bit_push_bit_iff bit_low4 by auto
  ultimately show ?thesis
    by (simp only: bit_or_iff bit_flag bit_low4) auto
qed

lemma packet_flags_rcode: "packet_flags api rec AND 0x0f = ca_rcode api rec AND 0x0f"
  by (rule bit_word_eqI) (auto simp: bit_low4 bit_packet_flags)

lemma single_bit: "n < 16 \<Longrightarrow> w AND 2 ^ n \<noteq> 0 \<longleftrightarrow> bit (w :: u16) n"
  by (simp add: and_exp_eq_0_iff_not_bit)

text \<open>What a decoded packet says of the message.\<close>

lemma decoded_flags:
  assumes "pk_flags p = packet_flags api rec"
    and "pk_extended_rcode p = ucast (drop_bit 4 (ca_rcode api rec))"
  shows "pk_response p = ca_flag api Flag_qr rec" "pk_truncated p = ca_flag api Flag_tc rec"
    "pk_recursion_desired p = ca_flag api Flag_rd rec"
    "pk_response_code p = ca_rcode api rec AND 0x0fff"
proof -
  have "(0x8000 :: u16) = 2 ^ 15" "(0x0200 :: u16) = 2 ^ 9" "(0x0100 :: u16) = 2 ^ 8" by simp_all
  then show "pk_response p = ca_flag api Flag_qr rec" "pk_truncated p = ca_flag api Flag_tc rec"
    "pk_recursion_desired p = ca_flag api Flag_rd rec"
    unfolding pk_response_def pk_truncated_def pk_recursion_desired_def assms(1)
    by (simp_all only: single_bit) (simp_all add: bit_packet_flags)
  have m: "(0x0fff :: u16) = mask 12" by (simp add: mask_eq_exp_minus_1)
  have r: "(pk_flags p AND 0x000f) = ca_rcode api rec AND 0x0f"
    using assms(1) packet_flags_rcode by simp
  show "pk_response_code p = ca_rcode api rec AND 0x0fff"
    unfolding pk_response_code_def r assms(2) m
  proof (rule bit_word_eqI)
    fix k assume k: "k < LENGTH(16)"
    show "bit (push_bit 4 (ucast (ucast (drop_bit 4 (ca_rcode api rec)) :: byte)) OR
        (ca_rcode api rec AND 0x0f)) k = bit (ca_rcode api rec AND mask 12) k"
      unfolding bit_or_iff bit_low4 unfolding bit_and_iff bit_push_bit_iff bit_mask_iff
      using k by (auto simp: bit_unsigned_iff bit_drop_bit_eq)
  qed
qed

section \<open>What truncation removes\<close>

text \<open>
  What c-ares documents of its record container: deleting a resource record takes one off its
  section, moves those behind it up, and leaves the other sections alone; and a written message has
  a header.
\<close>

definition cares_laws :: "('rec, 'rr) cares_api \<Rightarrow> bool" where
  "cares_laws api \<longleftrightarrow>
     (\<forall>r s i r'. ca_rr_del api r s i = Inr r' \<longrightarrow> i < ca_rr_cnt api r s \<and>
        Suc (ca_rr_cnt api r' s) = ca_rr_cnt api r s \<and>
        (\<forall>j<i. ca_rr_get api r' s j = ca_rr_get api r s j) \<and>
        (\<forall>j\<ge>i. ca_rr_get api r' s j = ca_rr_get api r s (Suc j)) \<and>
        (\<forall>s'. s' \<noteq> s \<longrightarrow> ca_rr_cnt api r' s' = ca_rr_cnt api r s' \<and>
           ca_rr_get api r' s' = ca_rr_get api r s')) \<and>
     (\<forall>r w. ca_write api r = Inr w \<longrightarrow> 12 \<le> length w)"

text \<open>The resource records of a section, as the library hands them out.\<close>

definition records :: "('rec, 'rr) cares_api \<Rightarrow> 'rec \<Rightarrow> cares_section \<Rightarrow> 'rr option list" where
  "records api r s = map (ca_rr_get api r s) [0..<ca_rr_cnt api r s]"

lemma length_records [simp]: "length (records api r s) = ca_rr_cnt api r s"
  by (simp add: records_def)

lemma nth_records [simp]: "i < ca_rr_cnt api r s \<Longrightarrow> records api r s ! i = ca_rr_get api r s i"
  by (simp add: records_def)

lemma records_del:
  assumes "cares_laws api" "ca_rr_del api r s i = Inr r'"
  shows "i < ca_rr_cnt api r s" "records api r' s = take i (records api r s) @ drop (Suc i) (records api r s)"
    and "s' \<noteq> s \<Longrightarrow> records api r' s' = records api r s'"
proof -
  have law: "i < ca_rr_cnt api r s" "Suc (ca_rr_cnt api r' s) = ca_rr_cnt api r s"
    "\<And>j. j < i \<Longrightarrow> ca_rr_get api r' s j = ca_rr_get api r s j"
    "\<And>j. j \<ge> i \<Longrightarrow> ca_rr_get api r' s j = ca_rr_get api r s (Suc j)"
    "\<And>s'. s' \<noteq> s \<Longrightarrow> ca_rr_cnt api r' s' = ca_rr_cnt api r s' \<and> ca_rr_get api r' s' = ca_rr_get api r s'"
    using assms unfolding cares_laws_def by blast+
  show "i < ca_rr_cnt api r s" by (fact law(1))
  show "s' \<noteq> s \<Longrightarrow> records api r' s' = records api r s'" using law(5) [of s'] by (simp add: records_def)
  show "records api r' s = take i (records api r s) @ drop (Suc i) (records api r s)"
  proof (rule nth_equalityI)
    show "length (records api r' s) = length (take i (records api r s) @ drop (Suc i) (records api r s))"
      using law(1,2) by simp
  next
    fix j assume "j < length (records api r' s)"
    then have "j < ca_rr_cnt api r' s" by simp
    with law(1-4) show "records api r' s ! j = (take i (records api r s) @ drop (Suc i) (records api r s)) ! j"
      by (cases "j < i") (simp_all add: nth_append)
  qed
qed

text \<open>What the code may ask of a message: that it is written, read and cut.\<close>

definition deletes :: "('rec, 'rr) cares_api \<Rightarrow> 'rec \<Rightarrow> 'rec \<Rightarrow> bool" where
  "deletes api r r' \<longleftrightarrow> (\<exists>s i. ca_rr_del api r s i = Inr r')"

definition library_failure :: "('rec, 'rr) cares_api \<Rightarrow> 'rec \<Rightarrow> bool" where
  "library_failure api r \<longleftrightarrow> (\<exists>status. ca_write api r = Inl status) \<or>
     (\<exists>s. \<exists>i<ca_rr_cnt api r s. ca_rr_get api r s i = None \<or>
        (\<exists>rr. ca_rr_get api r s i = Some rr \<and> ca_rr_name api rr = None) \<or>
        (\<exists>status. ca_rr_del api r s i = Inl status))"

definition too_long :: "('rec, 'rr) cares_api \<Rightarrow> nat \<Rightarrow> 'rec \<Rightarrow> bool" where
  "too_long api maximum r \<longleftrightarrow> (\<exists>w. ca_write api r = Inr w \<and> maximum < length w)"

text \<open>
  The reference: one step removes one whole record set, that of the last record of its section (EDNS data
  of the additional section excepted).  Authority records go only when the additional section holds nothing
  but EDNS data, answers only when the authority section is empty too, and the EDNS data last of all.
\<close>

definition removable :: "('rec, 'rr) cares_api \<Rightarrow> cares_section \<Rightarrow> 'rr \<Rightarrow> bool" where
  "removable api s rr \<longleftrightarrow> \<not> (s = Sec_additional \<and> rr_type_code api rr = type_opt)"

definition same_rrset :: "('rec, 'rr) cares_api \<Rightarrow> 'rr \<Rightarrow> 'rr option \<Rightarrow> bool" where
  "same_rrset api rr c \<longleftrightarrow> (\<exists>rr' n n'. c = Some rr' \<and> ca_rr_name api rr = Some n \<and> ca_rr_name api rr' = Some n' \<and>
     normalize_name n = normalize_name n' \<and> rr_type_code api rr = rr_type_code api rr' \<and>
     ca_rr_class api rr = ca_rr_class api rr')"

definition only_opt :: "('rec, 'rr) cares_api \<Rightarrow> 'rec \<Rightarrow> bool" where
  "only_opt api r \<longleftrightarrow> (\<forall>c\<in>set (records api r Sec_additional).
     \<exists>rr. c = Some rr \<and> rr_type_code api rr = type_opt)"

inductive removal_step :: "('rec, 'rr) cares_api \<Rightarrow> 'rec \<Rightarrow> 'rec \<Rightarrow> bool" for api where
  record_set: "records api r s = front @ Some rr # behind \<Longrightarrow> removable api s rr \<Longrightarrow> ca_rr_name api rr \<noteq> None \<Longrightarrow>
    \<forall>c\<in>set behind. \<exists>rr'. c = Some rr' \<and> \<not> removable api s rr' \<Longrightarrow>
    s = Sec_authority \<longrightarrow> only_opt api r \<Longrightarrow>
    s = Sec_answer \<longrightarrow> only_opt api r \<and> records api r Sec_authority = [] \<Longrightarrow>
    records api r' s = filter (\<lambda>c. \<not> same_rrset api rr c) (records api r s) \<Longrightarrow>
    \<forall>s'. s' \<noteq> s \<longrightarrow> records api r' s' = records api r s' \<Longrightarrow> removal_step api r r'"
| edns_data: "only_opt api r \<Longrightarrow> records api r Sec_authority = [] \<Longrightarrow> records api r Sec_answer = [] \<Longrightarrow>
    records api r Sec_additional \<noteq> [] \<Longrightarrow> \<forall>s. records api r' s = [] \<Longrightarrow> removal_step api r r'"

text \<open>No set is removed from a message that fits, except that the first is removed in any case.\<close>

inductive shrinks :: "('rec, 'rr) cares_api \<Rightarrow> nat \<Rightarrow> 'rec \<Rightarrow> 'rec \<Rightarrow> bool" for api maximum rec where
  whole: "shrinks api maximum rec rec"
| smaller: "shrinks api maximum rec r \<Longrightarrow> r = rec \<or> too_long api maximum r \<Longrightarrow> removal_step api r r' \<Longrightarrow>
    shrinks api maximum rec r'"

section \<open>The code against the reference\<close>

lemma in_rrset_same:
  "ca_rr_name api rr = Some name \<Longrightarrow>
   in_rrset api (rr_type_code api rr, normalize_name name, ca_rr_class api rr) c = same_rrset api rr c"
  by (auto simp: in_rrset_def same_rrset_def split: option.splits)

lemma find_removable_Some:
  "find_removable api r s n = Inr (Some k) \<Longrightarrow> n \<le> ca_rr_cnt api r s \<Longrightarrow>
   \<exists>i rr name. i < n \<and> ca_rr_get api r s i = Some rr \<and> removable api s rr \<and> ca_rr_name api rr = Some name \<and>
     k = (rr_type_code api rr, normalize_name name, ca_rr_class api rr) \<and>
     (\<forall>j. i < j \<and> j < n \<longrightarrow> (\<exists>rr'. ca_rr_get api r s j = Some rr' \<and> \<not> removable api s rr'))"
proof (induction n)
  case (Suc n)
  then obtain rr where rr: "ca_rr_get api r s n = Some rr" by (auto split: option.splits)
  show ?case
  proof (cases "removable api s rr")
    case True
    with Suc.prems rr show ?thesis
      by (intro exI [of _ n]) (auto simp: removable_def split: option.splits if_splits)
  next
    case False
    with Suc.prems rr have "find_removable api r s n = Inr (Some k)" by (auto simp: removable_def)
    with Suc.IH Suc.prems(2) False rr show ?thesis by (metis Suc_leD less_Suc_eq)
  qed
qed simp

lemma find_removable_None:
  "find_removable api r s n = Inr None \<Longrightarrow> i < n \<Longrightarrow> \<exists>rr. ca_rr_get api r s i = Some rr \<and> \<not> removable api s rr"
  by (induction n) (auto simp: less_Suc_eq removable_def split: option.splits if_splits)

lemma find_removable_Inl:
  "find_removable api r s n = Inl e \<Longrightarrow> n \<le> ca_rr_cnt api r s \<Longrightarrow> library_failure api r"
proof (induction n)
  case (Suc n)
  show ?case
  proof (cases "find_removable api r s n = Inl e")
    case True
    with Suc show ?thesis by simp
  next
    case False
    with Suc.prems have "ca_rr_get api r s n = None \<or>
        (\<exists>rr. ca_rr_get api r s n = Some rr \<and> ca_rr_name api rr = None)"
      by (auto split: option.splits if_splits)
    with Suc.prems(2) show ?thesis unfolding library_failure_def by (blast intro: Suc_le_lessD)
  qed
qed simp

lemma delete_rrset_Inr:
  assumes laws: "cares_laws api"
  shows "delete_rrset api s k n r = Inr r' \<Longrightarrow> n \<le> ca_rr_cnt api r s \<Longrightarrow>
    records api r' s = filter (\<lambda>c. \<not> in_rrset api k c) (take n (records api r s)) @ drop n (records api r s) \<and>
    (\<forall>s'. s' \<noteq> s \<longrightarrow> records api r' s' = records api r s') \<and> rtranclp (deletes api) r r'"
proof (induction n arbitrary: r)
  case (Suc n)
  then have n: "n < length (records api r s)" by simp
  then have nth: "records api r s ! n = ca_rr_get api r s n" by simp
  show ?case
  proof (cases "in_rrset api k (ca_rr_get api r s n)")
    case True
    with Suc.prems obtain r1 where r1: "ca_rr_del api r s n = Inr r1" "delete_rrset api s k n r1 = Inr r'"
      by (auto split: sum.splits)
    note del = records_del [OF laws r1(1)]
    have "length (records api r1 s) = length (take n (records api r s) @ drop (Suc n) (records api r s))"
      by (simp only: del(2))
    then have fits: "n \<le> ca_rr_cnt api r1 s" using n by simp
    have "deletes api r r1" using r1(1) unfolding deletes_def by blast
    with Suc.IH [OF r1(2) fits] True n nth del show ?thesis
      by (auto simp: take_Suc_conv_app_nth intro: converse_rtranclp_into_rtranclp)
  next
    case False
    with Suc.prems have "delete_rrset api s k n r = Inr r'" by simp
    with Suc.IH [OF this] Suc.prems(2) False n nth Cons_nth_drop_Suc [OF n] show ?thesis
      by (simp add: take_Suc_conv_app_nth)
  qed
qed simp

lemma delete_rrset_Inl:
  assumes laws: "cares_laws api"
  shows "delete_rrset api s k n r = Inl e \<Longrightarrow> n \<le> ca_rr_cnt api r s \<Longrightarrow>
    \<exists>r'. rtranclp (deletes api) r r' \<and> library_failure api r'"
proof (induction n arbitrary: r)
  case (Suc n)
  show ?case
  proof (cases "in_rrset api k (ca_rr_get api r s n)")
    case True
    show ?thesis
    proof (cases "ca_rr_del api r s n")
      case (Inl status)
      with Suc.prems(2) have "library_failure api r" unfolding library_failure_def by (blast intro: Suc_le_lessD)
      then show ?thesis by blast
    next
      case (Inr r1)
      with True Suc.prems have "delete_rrset api s k n r1 = Inl e" by simp
      moreover have "n \<le> ca_rr_cnt api r1 s"
        using arg_cong [OF records_del(2) [OF laws Inr], of length] Suc.prems(2) by simp
      moreover have "deletes api r r1" using Inr unfolding deletes_def by blast
      ultimately show ?thesis using Suc.IH converse_rtranclp_into_rtranclp by metis
    qed
  next
    case False
    with Suc show ?thesis by simp
  qed
qed simp

lemma encode_truncated_Inl:
  "encode_truncated api maximum r = Inl e \<Longrightarrow>
     library_failure api r \<and> context_text e \<noteq> context_text oversized_error \<or>
     too_long api maximum r \<and> context_text e = context_text oversized_error"
  by (auto simp: encode_truncated_def write_dns_record_def library_failure_def too_long_def cares_error_def
      codec_error_def oversized_error_def split: sum.splits if_splits)

text \<open>Where a truncation stands, and how one section's loop ends.\<close>

definition stage :: "('rec, 'rr) cares_api \<Rightarrow> nat \<Rightarrow> 'rec \<Rightarrow> 'rec \<Rightarrow> bool" where
  "stage api maximum rec r \<longleftrightarrow> shrinks api maximum rec r \<and> (r = rec \<or> too_long api maximum r) \<and>
     rtranclp (deletes api) rec r"

definition ready :: "('rec, 'rr) cares_api \<Rightarrow> cares_section \<Rightarrow> 'rec \<Rightarrow> bool" where
  "ready api s r \<longleftrightarrow> (s = Sec_authority \<longrightarrow> only_opt api r) \<and>
     (s = Sec_answer \<longrightarrow> only_opt api r \<and> records api r Sec_authority = [])"

definition outcome_ok ::
  "('rec, 'rr) cares_api \<Rightarrow> nat \<Rightarrow> 'rec \<Rightarrow> cares_section \<Rightarrow> 'rec truncation \<Rightarrow> bool" where
  "outcome_ok api maximum rec s outcome \<longleftrightarrow>
     (case outcome of
        Fall_through r' \<Rightarrow> stage api maximum rec r' \<and> ready api s r' \<and>
          (if s = Sec_additional then only_opt api r' else records api r' s = [])
      | Return (Inl e) \<Rightarrow> \<exists>r'. rtranclp (deletes api) rec r' \<and> library_failure api r'
      | Return (Inr w) \<Rightarrow> \<exists>r'. shrinks api maximum rec r' \<and> encode_truncated api maximum r' = Inr w)"

lemma removal_of_set:
  assumes laws: "cares_laws api" and ready: "ready api s r"
    and found: "find_removable api r s (ca_rr_cnt api r s) = Inr (Some k)"
    and del: "delete_rrset api s k (ca_rr_cnt api r s) r = Inr r'"
  shows "removal_step api r r'" "ready api s r'" "rtranclp (deletes api) r r'" "ca_rr_cnt api r' s < ca_rr_cnt api r s"
proof -
  obtain i rr name where i: "i < ca_rr_cnt api r s" "ca_rr_get api r s i = Some rr" "removable api s rr"
    "ca_rr_name api rr = Some name" "k = (rr_type_code api rr, normalize_name name, ca_rr_class api rr)"
    and behind: "\<And>j. i < j \<Longrightarrow> j < ca_rr_cnt api r s \<Longrightarrow>
      \<exists>rr'. ca_rr_get api r s j = Some rr' \<and> \<not> removable api s rr'"
    using find_removable_Some [OF found] by blast
  have del': "records api r' s = filter (\<lambda>c. \<not> same_rrset api rr c) (records api r s)"
    "\<forall>s'. s' \<noteq> s \<longrightarrow> records api r' s' = records api r s'" "rtranclp (deletes api) r r'"
    using delete_rrset_Inr [OF laws del] in_rrset_same [OF i(4)] i(5) by simp_all
  then show "rtranclp (deletes api) r r'" by blast
  have split: "records api r s = take i (records api r s) @ Some rr # drop (Suc i) (records api r s)"
    using id_take_nth_drop [of i "records api r s"] i(1,2) by simp
  have "\<forall>c\<in>set (drop (Suc i) (records api r s)). \<exists>rr'. c = Some rr' \<and> \<not> removable api s rr'"
    using behind by (auto simp: in_set_conv_nth)
  with ready i(3,4) del'(1,2) show "removal_step api r r'"
    by (intro record_set [OF split]) (simp_all add: ready_def)
  show "ready api s r'" using ready del'(2) by (auto simp: ready_def only_opt_def)
  have "same_rrset api rr (Some rr)" using i(4) by (simp add: same_rrset_def)
  moreover have "Some rr \<in> set (records api r s)" by (subst split) simp
  ultimately have "length (filter (\<lambda>c. \<not> same_rrset api rr c) (records api r s)) < length (records api r s)"
    by (intro length_filter_less) auto
  then show "ca_rr_cnt api r' s < ca_rr_cnt api r s" using arg_cong [OF del'(1), of length] by simp
qed

lemma stage_removal:
  assumes "stage api maximum rec r" "removal_step api r r'" "rtranclp (deletes api) r r'"
  shows "shrinks api maximum rec r'" "rtranclp (deletes api) rec r'"
    and "too_long api maximum r' \<Longrightarrow> stage api maximum rec r'"
  using assms smaller [of api maximum rec r r'] by (auto simp: stage_def)

text \<open>The loop of a section follows the reference step by step, and ends.\<close>

lemma truncate_section_ends:
  assumes laws: "cares_laws api"
  shows "stage api maximum rec r \<Longrightarrow> ready api s r \<Longrightarrow>
    \<exists>outcome. truncate_section api maximum s r = Some outcome \<and> outcome_ok api maximum rec s outcome"
proof (induction "ca_rr_cnt api r s" arbitrary: r rule: less_induct)
  case less
  let ?n = "ca_rr_cnt api r s"
  note unfolded = truncate_section.simps [of api maximum s r]
  have here: "rtranclp (deletes api) rec r" using less.prems(1) by (simp add: stage_def)
  show ?case
  proof (cases "?n = 0")
    case True
    then have "records api r s = []" by (simp flip: length_0_conv)
    with True less.prems show ?thesis by (auto simp: unfolded outcome_ok_def only_opt_def)
  next
    case n: False
    show ?thesis
    proof (cases "find_removable api r s ?n")
      case (Inl e)
      with n here find_removable_Inl [OF Inl] show ?thesis by (auto simp: unfolded outcome_ok_def)
    next
      case found: (Inr k_opt)
      show ?thesis
      proof (cases k_opt)
        case None
        have rest: "\<And>i. i < ?n \<Longrightarrow> \<exists>rr. ca_rr_get api r s i = Some rr \<and> \<not> removable api s rr"
          by (rule find_removable_None [OF found [unfolded None]])
        from rest [of 0] n have "s = Sec_additional" unfolding removable_def by blast
        with rest have "only_opt api r"
          by (fastforce simp: only_opt_def records_def removable_def)
        moreover have "truncate_section api maximum s r = Some (Fall_through r)"
          using n found None by (simp add: unfolded)
        ultimately show ?thesis using less.prems \<open>s = Sec_additional\<close> by (simp add: outcome_ok_def)
      next
        case k: (Some k)
        show ?thesis
        proof (cases "delete_rrset api s k ?n r")
          case (Inl e)
          with n found k delete_rrset_Inl [OF laws Inl] here show ?thesis
            by (auto simp: unfolded outcome_ok_def intro: rtranclp_trans)
        next
          case del: (Inr r')
          note step = removal_of_set [OF laws less.prems(2) found [unfolded k] del]
          note staged = stage_removal [OF less.prems(1) step(1,3)]
          show ?thesis
          proof (cases "encode_truncated api maximum r'")
            case (Inr w)
            with n found k del staged(1) show ?thesis by (auto simp: unfolded outcome_ok_def)
          next
            case enc: (Inl e)
            from encode_truncated_Inl [OF enc] show ?thesis
            proof (elim disjE conjE)
              assume "library_failure api r'" "context_text e \<noteq> context_text oversized_error"
              with n found k del enc staged(2) show ?thesis by (auto simp: unfolded outcome_ok_def)
            next
              assume long: "too_long api maximum r'" and e: "context_text e = context_text oversized_error"
              from less.hyps [OF step(4) staged(3) [OF long] step(2)] n found k del enc e
              show ?thesis by (simp add: unfolded)
            qed
          qed
        qed
      qed
    qed
  qed
qed

lemma truncate_sections_end:
  assumes laws: "cares_laws api"
  shows "\<exists>outcome. truncate_sections api maximum [Sec_additional, Sec_authority, Sec_answer] rec = Some outcome \<and>
    outcome_ok api maximum rec Sec_answer outcome"
proof -
  have pass: "outcome_ok api maximum rec s' (Return res)" if "outcome_ok api maximum rec s (Return res)" for s s' res
    using that by (simp add: outcome_ok_def)
  have start: "stage api maximum rec rec" "ready api Sec_additional rec"
    by (simp_all add: stage_def ready_def whole)
  obtain o1 where o1: "truncate_section api maximum Sec_additional rec = Some o1"
    "outcome_ok api maximum rec Sec_additional o1" using truncate_section_ends [OF laws start] by blast
  show ?thesis
  proof (cases o1)
    case (Return res)
    with o1 pass show ?thesis by auto
  next
    case f1: (Fall_through r1)
    with o1(2) have r1: "stage api maximum rec r1" "ready api Sec_authority r1"
      by (simp_all add: outcome_ok_def ready_def)
    obtain o2 where o2: "truncate_section api maximum Sec_authority r1 = Some o2"
      "outcome_ok api maximum rec Sec_authority o2" using truncate_section_ends [OF laws r1] by blast
    show ?thesis
    proof (cases o2)
      case (Return res)
      with o1 f1 o2 pass show ?thesis by auto
    next
      case f2: (Fall_through r2)
      with o2(2) have r2: "stage api maximum rec r2" "ready api Sec_answer r2"
        by (simp_all add: outcome_ok_def ready_def)
      obtain o3 where o3: "truncate_section api maximum Sec_answer r2 = Some o3"
        "outcome_ok api maximum rec Sec_answer o3" using truncate_section_ends [OF laws r2] by blast
      with o1 f1 o2 f2 show ?thesis by (cases o3) auto
    qed
  qed
qed

lemma drop_opt_Inl:
  "cares_laws api \<Longrightarrow> drop_opt api n r = Inl e \<Longrightarrow> n \<le> ca_rr_cnt api r Sec_additional \<Longrightarrow>
    \<exists>r'. rtranclp (deletes api) r r' \<and> library_failure api r'"
proof (induction n arbitrary: r)
  case (Suc n)
  show ?case
  proof (cases "drop_opt api n r = Inl e")
    case True
    with Suc show ?thesis by simp
  next
    case False
    with Suc.prems(2) obtain status where here: "(\<exists>status. ca_rr_del api r Sec_additional n = Inl status) \<or>
        (\<exists>r1. ca_rr_del api r Sec_additional n = Inr r1 \<and> drop_opt api n r1 = Inl e)"
      by (auto split: option.splits if_splits sum.splits)
    then show ?thesis
    proof (elim disjE exE conjE)
      fix status assume "ca_rr_del api r Sec_additional n = Inl status"
      with Suc.prems(3) have "library_failure api r" unfolding library_failure_def by (blast intro: Suc_le_lessD)
      then show ?thesis by blast
    next
      fix r1 assume r1: "ca_rr_del api r Sec_additional n = Inr r1" "drop_opt api n r1 = Inl e"
      have "n \<le> ca_rr_cnt api r1 Sec_additional"
        using arg_cong [OF records_del(2) [OF Suc.prems(1) r1(1)], of length] Suc.prems(3) by simp
      moreover have "deletes api r r1" using r1(1) unfolding deletes_def by blast
      ultimately show ?thesis using Suc.IH [OF Suc.prems(1) r1(2)] converse_rtranclp_into_rtranclp by metis
    qed
  qed
qed simp

lemma drop_opt_Inr:
  assumes laws: "cares_laws api"
  shows "only_opt api r \<Longrightarrow> drop_opt api (ca_rr_cnt api r Sec_additional) r = Inr r' \<Longrightarrow>
    records api r' Sec_additional = [] \<and> (\<forall>s'. s' \<noteq> Sec_additional \<longrightarrow> records api r' s' = records api r s') \<and>
    (records api r Sec_additional = [] \<longrightarrow> r' = r) \<and> rtranclp (deletes api) r r'"
proof (induction "ca_rr_cnt api r Sec_additional" arbitrary: r)
  case 0
  then show ?case by (simp flip: length_0_conv)
next
  case (Suc n)
  then have n: "n < length (records api r Sec_additional)" by simp
  then have "ca_rr_get api r Sec_additional n \<in> set (records api r Sec_additional)"
    using nth_mem [OF n] by simp
  with Suc.prems(1) obtain rr where rr: "ca_rr_get api r Sec_additional n = Some rr"
    "rr_type_code api rr = type_opt" unfolding only_opt_def by blast
  with Suc.prems(2) Suc.hyps(2) [symmetric] obtain r1 where
    r1: "ca_rr_del api r Sec_additional n = Inr r1" "drop_opt api n r1 = Inr r'"
    by (auto split: sum.splits)
  note del = records_del [OF laws r1(1)]
  have cnt: "n = ca_rr_cnt api r1 Sec_additional"
    using arg_cong [OF del(2), of length] Suc.hyps(2) by simp
  have "only_opt api r1"
    using Suc.prems(1) by (auto simp: only_opt_def del(2) dest: in_set_takeD in_set_dropD)
  moreover have "deletes api r r1" using r1(1) unfolding deletes_def by blast
  moreover have "records api r Sec_additional \<noteq> []" using n by (auto simp del: length_records)
  ultimately show ?case
    using Suc.hyps(1) [OF cnt] r1(2) cnt del(3) by (simp add: converse_rtranclp_into_rtranclp)
qed

lemma encode_truncated_Inr:
  assumes "cares_laws api" "encode_truncated api maximum r = Inr w"
  shows "length w \<le> maximum \<and> 12 \<le> length w \<and>
    (\<exists>full. ca_write api r = Inr full \<and> w = full[2 := full ! 2 OR 0x02])"
proof -
  obtain full where f: "ca_write api r = Inr full" "length full \<le> maximum" "w = full[2 := full ! 2 OR 0x02]"
    using assms(2) by (auto simp: encode_truncated_def write_dns_record_def split: sum.splits if_splits)
  have "12 \<le> length full" using assms(1) f(1) unfolding cares_laws_def by blast
  with f show ?thesis by simp
qed

text \<open>When a truncation may be refused, and what it otherwise gives.\<close>

definition truncation_refused :: "('rec, 'rr) cares_api \<Rightarrow> bytes \<Rightarrow> nat \<Rightarrow> bool" where
  "truncation_refused api response maximum \<longleftrightarrow>
     maximum < 12 \<or>
     maximum < length response \<and>
       (ca_init_status api \<noteq> 0 \<or> (\<exists>status. ca_parse api response = Inl status) \<or>
        (\<exists>parsed. ca_parse api response = Inr parsed \<and>
          (ca_duplicate api parsed = None \<or>
           (\<exists>rec r. ca_duplicate api parsed = Some rec \<and>
             (rtranclp (deletes api) rec r \<and> library_failure api r \<or>
              shrinks api maximum rec r \<and> (\<forall>s. records api r s = []) \<and> too_long api maximum r)))))"

definition truncated_to :: "('rec, 'rr) cares_api \<Rightarrow> bytes \<Rightarrow> nat \<Rightarrow> bytes \<Rightarrow> bool" where
  "truncated_to api response maximum w \<longleftrightarrow> length w \<le> maximum \<and>
     (if length response \<le> maximum then w = response
      else \<exists>parsed rec r full. ca_parse api response = Inr parsed \<and> ca_duplicate api parsed = Some rec \<and>
        shrinks api maximum rec r \<and> ca_write api r = Inr full \<and> 12 \<le> length full \<and>
        w = full[2 := full ! 2 OR 0x02])"

lemma truncate_long_response:
  assumes laws: "cares_laws api" and long: "12 \<le> maximum" "maximum < length response" "ca_init_status api = 0"
    and parsed: "ca_parse api response = Inr parsed" and dup: "ca_duplicate api parsed = Some rec"
  shows "\<exists>result. truncate_udp_response api response maximum = Some result \<and>
    (case result of Inl e \<Rightarrow> truncation_refused api response maximum
     | Inr w \<Rightarrow> truncated_to api response maximum w)"
proof -
  note start = truncate_udp_response_def [of api response maximum]
  have good: "truncated_to api response maximum w"
    if "shrinks api maximum rec r" "encode_truncated api maximum r = Inr w" for r w
    using encode_truncated_Inr [OF laws that(2)] that(1) long parsed dup by (auto simp: truncated_to_def)
  have failed: "truncation_refused api response maximum"
    if "rtranclp (deletes api) rec r" "library_failure api r" for r
    using that long parsed dup by (auto simp: truncation_refused_def)
  obtain outcome where o: "truncate_sections api maximum [Sec_additional, Sec_authority, Sec_answer] rec = Some outcome"
    "outcome_ok api maximum rec Sec_answer outcome" using truncate_sections_end [OF laws] by blast
  show ?thesis
  proof (cases outcome)
    case (Return res)
    with o(1) long parsed dup have "truncate_udp_response api response maximum = Some res"
      by (simp add: start del: truncate_sections.simps)
    with o(2) Return good failed show ?thesis by (auto simp: outcome_ok_def split: sum.splits)
  next
    case (Fall_through r)
    with o(2) have r: "stage api maximum rec r" "only_opt api r" "records api r Sec_authority = []"
      "records api r Sec_answer = []" by (simp_all add: outcome_ok_def ready_def)
    have here: "rtranclp (deletes api) rec r" "shrinks api maximum rec r" using r(1) by (simp_all add: stage_def)
    show ?thesis
    proof (cases "drop_opt api (ca_rr_cnt api r Sec_additional) r")
      case (Inl e)
      with Fall_through o(1) long parsed dup have "truncate_udp_response api response maximum = Some (Inl e)"
        by (simp add: start del: truncate_sections.simps)
      with drop_opt_Inl [OF laws Inl] here(1) failed show ?thesis by (auto intro: rtranclp_trans)
    next
      case (Inr r')
      note drop = drop_opt_Inr [OF laws r(2) Inr]
      have bare: "\<forall>s. records api r' s = []"
      proof
        fix s show "records api r' s = []" using drop r(3,4) by (cases s) auto
      qed
      have shrunk: "shrinks api maximum rec r'"
      proof (cases "records api r Sec_additional = []")
        case True
        with drop here(2) show ?thesis by simp
      next
        case False
        from stage_removal(1) [OF r(1) edns_data [OF r(2-4) False bare]] drop show ?thesis by blast
      qed
      have "truncate_udp_response api response maximum = Some (encode_truncated api maximum r')"
        using Fall_through Inr o(1) long parsed dup by (simp add: start del: truncate_sections.simps)
      moreover have "truncation_refused api response maximum" if "encode_truncated api maximum r' = Inl e" for e
        using encode_truncated_Inl [OF that]
      proof (elim disjE conjE)
        assume "library_failure api r'"
        with failed here(1) drop show ?thesis by (auto intro: rtranclp_trans)
      next
        assume "too_long api maximum r'"
        with shrunk bare long parsed dup show ?thesis by (auto simp: truncation_refused_def)
      qed
      ultimately show ?thesis using good [OF shrunk] by (auto split: sum.split)
    qed
  qed
qed

section \<open>What a decoded packet says\<close>

text \<open>
  The reference reading of a parsed message: each field of a packet next to what the library reports for it.
  A record says nothing its type does not have.
\<close>

definition field_value :: "('rec, 'rr) cares_api \<Rightarrow> 'rr \<Rightarrow> cares_key \<Rightarrow> dns_field_type \<Rightarrow> dns_field_value \<Rightarrow> bool" where
  "field_value api rr key t v \<longleftrightarrow>
     (case ca_key_datatype api key of
        Dt_inaddr \<Rightarrow> t = Ipv4_address \<and> (\<exists>a. ca_addr api rr key = Some a \<and> v = Fv_address (v4_from_bytes a))
      | Dt_inaddr6 \<Rightarrow> t = Ipv6_address \<and> (\<exists>a. ca_addr6 api rr key = Some a \<and> v = Fv_address (v6_from_bytes a))
      | Dt_u8 \<Rightarrow> t = Unsigned_8 \<and> v = Fv_u8 (ca_u8 api rr key)
      | Dt_u16 \<Rightarrow> t = Unsigned_16 \<and> v = Fv_u16 (ca_u16 api rr key)
      | Dt_u32 \<Rightarrow> t = Unsigned_32 \<and> v = Fv_u32 (ca_u32 api rr key)
      | Dt_name \<Rightarrow> t = Domain_name \<and> (\<exists>n. ca_str api rr key = Some n \<and> v = Fv_string (normalize_name n))
      | Dt_str \<Rightarrow> t = String_field \<and> (\<exists>n. ca_str api rr key = Some n \<and> v = Fv_string n)
      | Dt_bin \<Rightarrow> t = Binary \<and> v = Fv_bytes (buffer_bytes (ca_bin api rr key))
      | Dt_binp \<Rightarrow> t = Binary \<and> v = Fv_bytes (buffer_bytes (ca_bin api rr key))
      | Dt_abinp \<Rightarrow> t = Binary_strings \<and>
          v = Fv_strings (map (\<lambda>i. buffer_bytes (ca_abin api rr key i)) [0..<ca_abin_cnt api rr key])
      | Dt_opt \<Rightarrow> t = Options \<and>
          v = Fv_options (map (\<lambda>i. \<lparr>opt_code = fst (ca_opt api rr key i), opt_data = buffer_bytes (snd (ca_opt api rr key i))\<rparr>)
            [0..<ca_opt_cnt api rr key])
      | Dt_other \<Rightarrow> False)"

definition field_says :: "('rec, 'rr) cares_api \<Rightarrow> 'rr \<Rightarrow> cares_key \<Rightarrow> dns_field \<Rightarrow> bool" where
  "field_says api rr key fd \<longleftrightarrow> ca_key_name api key = Some (fd_key_name fd) \<and> fd_key_code fd = ca_key_code api key \<and>
     field_value api rr key (fd_type fd) (fd_value fd)"

definition options_of :: "('rec, 'rr) cares_api \<Rightarrow> 'rr \<Rightarrow> cares_key \<Rightarrow> dns_option list" where
  "options_of api rr key =
     map (\<lambda>i. \<lparr>opt_code = fst (ca_opt api rr key i), opt_data = buffer_bytes (snd (ca_opt api rr key i))\<rparr>)
       [0..<ca_opt_cnt api rr key]"

definition option_wire :: "('rec, 'rr) cares_api \<Rightarrow> 'rr \<Rightarrow> nat \<Rightarrow> bytes" where
  "option_wire api rr i =
     (case ca_opt api rr Key_opt_options i of (c, b) \<Rightarrow>
        be_bytes 2 c @ be_bytes 2 (word_of_nat (buffer_length b) :: u16) @ buffer_bytes b)"

definition rdata_of :: "('rec, 'rr) cares_api \<Rightarrow> 'rr \<Rightarrow> u16 \<Rightarrow> bytes" where
  "rdata_of api rr t =
     (let raw = (if ca_rr_type api rr = None then buffer_bytes (ca_bin api rr Key_raw_rr_data) else []) in
      if t = type_a then (case ca_addr api rr Key_a_addr of Some a \<Rightarrow> a | None \<Rightarrow> raw)
      else if t = type_aaaa then (case ca_addr6 api rr Key_aaaa_addr of Some a \<Rightarrow> a | None \<Rightarrow> raw)
      else if t = type_opt then raw @ concat (map (option_wire api rr) [0..<ca_opt_cnt api rr Key_opt_options])
      else raw)"

definition address_of :: "('rec, 'rr) cares_api \<Rightarrow> 'rr \<Rightarrow> u16 \<Rightarrow> ip_address option" where
  "address_of api rr t =
     (if t = type_a then map_option v4_from_bytes (ca_addr api rr Key_a_addr)
      else if t = type_aaaa then map_option v6_from_bytes (ca_addr6 api rr Key_aaaa_addr) else None)"

definition target_of :: "('rec, 'rr) cares_api \<Rightarrow> 'rr \<Rightarrow> u16 \<Rightarrow> string option" where
  "target_of api rr t = map_option normalize_name
     (if t = type_ns then ca_str api rr Key_ns_nsdname
      else if t = type_cname then ca_str api rr Key_cname_cname
      else if t = type_ptr then ca_str api rr Key_ptr_dname else None)"

definition svcb_of :: "('rec, 'rr) cares_api \<Rightarrow> 'rr \<Rightarrow> cares_key \<Rightarrow> cares_key \<Rightarrow> cares_key \<Rightarrow> dns_svcb_data \<Rightarrow> bool" where
  "svcb_of api rr params_key target_key priority_key d \<longleftrightarrow>
     (\<exists>target. ca_str api rr target_key = Some target \<and> d = \<lparr>svcb_priority = ca_u16 api rr priority_key,
        svcb_target = normalize_name target, svcb_params = options_of api rr params_key\<rparr>)"

definition typed_says :: "('rec, 'rr) cares_api \<Rightarrow> 'rr \<Rightarrow> dns_resource_record \<Rightarrow> bool" where
  "typed_says api rr r \<longleftrightarrow>
     (if rr_type r = type_soa
      then \<exists>m n. ca_str api rr Key_soa_mname = Some m \<and> ca_str api rr Key_soa_rname = Some n \<and>
        rr_soa r = Some \<lparr>soa_primary_name_server = normalize_name m, soa_responsible_mailbox = normalize_name n,
          soa_serial = ca_u32 api rr Key_soa_serial, soa_refresh = ca_u32 api rr Key_soa_refresh,
          soa_retry = ca_u32 api rr Key_soa_retry, soa_expire = ca_u32 api rr Key_soa_expire,
          soa_minimum_ttl = ca_u32 api rr Key_soa_minimum\<rparr>
      else rr_soa r = None) \<and>
     (if rr_type r = type_mx
      then \<exists>e. ca_str api rr Key_mx_exchange = Some e \<and>
        rr_mx r = Some \<lparr>mx_preference = ca_u16 api rr Key_mx_preference, mx_exchange = normalize_name e\<rparr>
      else rr_mx r = None) \<and>
     rr_txt_strings r = (if rr_type r = type_txt
       then map (\<lambda>i. buffer_bytes (ca_abin api rr Key_txt_data i)) [0..<ca_abin_cnt api rr Key_txt_data] else []) \<and>
     (if rr_type r = type_srv
      then \<exists>t. ca_str api rr Key_srv_target = Some t \<and>
        rr_srv r = Some \<lparr>srv_priority = ca_u16 api rr Key_srv_priority, srv_weight = ca_u16 api rr Key_srv_weight,
          srv_port = ca_u16 api rr Key_srv_port, srv_target = t\<rparr>
      else rr_srv r = None) \<and>
     (if rr_type r = type_svcb
      then \<exists>d. rr_svcb r = Some d \<and> svcb_of api rr Key_svcb_params Key_svcb_target Key_svcb_priority d
      else if rr_type r = type_https
      then \<exists>d. rr_svcb r = Some d \<and> svcb_of api rr Key_https_params Key_https_target Key_https_priority d
      else rr_svcb r = None)"

definition header_says :: "('rec, 'rr) cares_api \<Rightarrow> 'rec \<Rightarrow> 'rr \<Rightarrow> dns_resource_record \<Rightarrow> bool" where
  "header_says api rec rr r \<longleftrightarrow>
     (\<exists>name. ca_rr_name api rr = Some name \<and> rr_name r = normalize_name name) \<and>
     rr_type r = (case ca_rr_type api rr of None \<Rightarrow> ca_u16 api rr Key_raw_rr_type | Some t \<Rightarrow> t) \<and>
     (if rr_type r = type_opt
      then rr_class r = ca_u16 api rr Key_opt_udp_size \<and> ucast (drop_bit 24 (rr_ttl r)) = (ucast (drop_bit 4 (ca_rcode api rec)) :: byte) \<and>
        ucast (drop_bit 16 (rr_ttl r)) = ca_u8 api rr Key_opt_version \<and> ucast (rr_ttl r) = ca_u16 api rr Key_opt_flags
      else rr_class r = ca_rr_class api rr \<and> rr_ttl r = ca_rr_ttl api rr)"

definition record_says :: "('rec, 'rr) cares_api \<Rightarrow> 'rec \<Rightarrow> 'rr \<Rightarrow> dns_resource_record \<Rightarrow> bool" where
  "record_says api rec rr r \<longleftrightarrow> header_says api rec rr r \<and>
     (\<exists>keys. ca_keys api (ca_rr_type api rr) = Some keys \<and>
        list_all2 (field_says api rr)
          (filter (\<lambda>k. ca_key_name api k \<noteq> None \<and> ca_key_datatype api k \<noteq> Dt_other) keys) (rr_fields r)) \<and>
     rr_rdata r = rdata_of api rr (rr_type r) \<and> rr_parsed_address r = address_of api rr (rr_type r) \<and>
     rr_target_name r = target_of api rr (rr_type r) \<and> typed_says api rr r"

definition section_says :: "('rec, 'rr) cares_api \<Rightarrow> 'rec \<Rightarrow> cares_section \<Rightarrow> dns_resource_record list \<Rightarrow> bool" where
  "section_says api rec sec rs \<longleftrightarrow>
     list_all2 (\<lambda>i r. \<exists>rr. ca_rr_get api rec sec i = Some rr \<and> record_says api rec rr r) [0..<ca_rr_cnt api rec sec] rs"

definition questions_say :: "('rec, 'rr) cares_api \<Rightarrow> 'rec \<Rightarrow> dns_question list \<Rightarrow> bool" where
  "questions_say api rec qs \<longleftrightarrow>
     list_all2 (\<lambda>i q. \<exists>name. ca_query_get api rec i = Inr (Some name, q_type q, q_class q) \<and>
       q_name q = normalize_name name) [0..<ca_query_cnt api rec] qs"

definition flags_say :: "('rec, 'rr) cares_api \<Rightarrow> 'rec \<Rightarrow> u16 \<Rightarrow> bool" where
  "flags_say api rec flags \<longleftrightarrow>
     (\<forall>(k, flag) \<in> {(15, Flag_qr), (10, Flag_aa), (9, Flag_tc), (8, Flag_rd), (7, Flag_ra), (5, Flag_ad), (4, Flag_cd)}.
        bit flags k \<longleftrightarrow> ca_flag api flag rec) \<and>
     drop_bit 11 flags AND 0x0f = ca_opcode api rec AND 0x0f \<and> flags AND 0x0f = ca_rcode api rec AND 0x0f"

section \<open>The decoder against the reading\<close>

lemma collect_list_all2: "collect f is = Some xs \<Longrightarrow> list_all2 (\<lambda>i x. f i = Some x) is xs"
proof (induction "is" arbitrary: xs)
  case (Cons i "is")
  then show ?case by (auto split: option.splits)
qed simp

lemma collect_map:
  assumes "collect (\<lambda>i. if bad i then None else Some (g i)) is = Some xs"
  shows "xs = map g is"
  using assms
proof (induction "is" arbitrary: xs)
  case (Cons i "is")
  then show ?case by (auto split: option.splits if_splits)
qed simp

lemma abin_strings_Some:
  "abin_strings api rr key = Some ss \<Longrightarrow> ss = map (\<lambda>i. buffer_bytes (ca_abin api rr key i)) [0..<ca_abin_cnt api rr key]"
  unfolding abin_strings_def Let_def by (rule collect_map)

lemma field_options_Some: "field_options api rr key = Some os \<Longrightarrow> os = options_of api rr key"
  unfolding field_options_def options_of_def case_prod_beta by (rule collect_map)

lemma svcb_data_Some:
  "svcb_data api rr params_key target_key priority_key = Some d \<Longrightarrow> svcb_of api rr params_key target_key priority_key d"
  unfolding svcb_data_def svcb_of_def options_of_def case_prod_beta by (auto dest: collect_map split: option.splits)

lemma opt_rdata_Some:
  "opt_rdata api rr = Some d \<Longrightarrow> d = concat (map (option_wire api rr) [0..<ca_opt_cnt api rr Key_opt_options])"
  unfolding opt_rdata_def option_wire_def case_prod_beta
  by (auto dest!: collect_map simp: append_u16_be)

lemma cares_field_says: "cares_field api rr key = Some (Some (t, v)) \<Longrightarrow> field_value api rr key t v"
  by (cases "ca_key_datatype api key")
    (auto simp: cares_field_def field_value_def Let_def split: if_splits
      dest!: abin_strings_Some field_options_Some [unfolded options_of_def])

lemma cares_field_other: "cares_field api rr key = Some None \<longleftrightarrow> ca_key_datatype api key = Dt_other"
  by (cases "ca_key_datatype api key") (auto simp: cares_field_def Let_def)

lemma collect_fields_say:
  "collect_fields api rr keys = Some fds \<Longrightarrow> list_all2 (field_says api rr)
     (filter (\<lambda>k. ca_key_name api k \<noteq> None \<and> ca_key_datatype api k \<noteq> Dt_other) keys) fds"
proof (induction keys arbitrary: fds)
  case (Cons key keys)
  show ?case
  proof (cases "ca_key_name api key = None \<or> ca_key_datatype api key = Dt_other")
    case True
    then have "ca_key_name api key = None \<or> cares_field api rr key = Some None" by (simp add: cares_field_other)
    with Cons.prems have "collect_fields api rr keys = Some fds" by (auto split: option.splits)
    with Cons.IH True show ?thesis by auto
  next
    case False
    then have "cares_field api rr key \<noteq> Some None" by (simp add: cares_field_other)
    with False Cons.prems obtain name t v fds' where f: "ca_key_name api key = Some name" "cares_field api rr key = Some (Some (t, v))"
      "collect_fields api rr keys = Some fds'"
      "fds = \<lparr>fd_key_code = ca_key_code api key, fd_key_name = name, fd_type = t, fd_value = v\<rparr> # fds'"
      by (auto split: option.splits)
    with Cons.IH [OF f(3)] cares_field_says [OF f(2)] False show ?thesis by (simp add: field_says_def)
  qed
qed simp

lemma opt_ttl_bytes:
  "ucast (drop_bit 24 (opt_ttl_code api rec rr)) = (ucast (drop_bit 4 (ca_rcode api rec)) :: byte)"
  "ucast (drop_bit 16 (opt_ttl_code api rec rr)) = ca_u8 api rr Key_opt_version"
  "ucast (opt_ttl_code api rec rr) = ca_u16 api rr Key_opt_flags"
proof -
  have m: "(0xff :: u16) = mask 8" by (simp add: mask_eq_exp_minus_1)
  have bits: "bit (opt_ttl_code api rec rr) k \<longleftrightarrow> k < 32 \<and>
      (24 \<le> k \<and> bit (ca_rcode api rec) (k - 20) \<and> k - 24 < 8 \<or> 16 \<le> k \<and> bit (ca_u8 api rr Key_opt_version) (k - 16) \<or>
       bit (ca_u16 api rr Key_opt_flags) k)" for k
    unfolding opt_ttl_code_def m bit_or_iff bit_push_bit_iff bit_unsigned_iff bit_and_iff bit_drop_bit_eq bit_mask_iff
    by (auto dest: bit_imp_le_length)
  show "ucast (drop_bit 24 (opt_ttl_code api rec rr)) = (ucast (drop_bit 4 (ca_rcode api rec)) :: byte)"
    by (rule bit_word_eqI) (auto simp: bit_unsigned_iff bit_drop_bit_eq bits dest: bit_imp_le_length)
  show "ucast (drop_bit 16 (opt_ttl_code api rec rr)) = ca_u8 api rr Key_opt_version"
    by (rule bit_word_eqI) (auto simp: bit_unsigned_iff bit_drop_bit_eq bits dest: bit_imp_le_length)
  show "ucast (opt_ttl_code api rec rr) = ca_u16 api rr Key_opt_flags"
    by (rule bit_word_eqI) (auto simp: bit_unsigned_iff bits dest: bit_imp_le_length)
qed

text \<open>What \<open>typed_data\<close> adds to a record that says nothing of a type yet.\<close>

lemma typed_data_frame:
  "typed_data api rr r = Some r' \<Longrightarrow> rr_name r' = rr_name r \<and> rr_type r' = rr_type r \<and> rr_class r' = rr_class r \<and>
     rr_ttl r' = rr_ttl r \<and> rr_fields r' = rr_fields r"
  unfolding typed_data_def by (auto split: if_splits option.splits)

lemma typed_data_address:
  "typed_data api rr r = Some r' \<Longrightarrow> rr_parsed_address r = None \<Longrightarrow> rr_target_name r = None \<Longrightarrow>
     rr_rdata r = (if ca_rr_type api rr = None then buffer_bytes (ca_bin api rr Key_raw_rr_data) else []) \<Longrightarrow>
     rr_rdata r' = rdata_of api rr (rr_type r) \<and> rr_parsed_address r' = address_of api rr (rr_type r) \<and>
     rr_target_name r' = target_of api rr (rr_type r)"
  unfolding typed_data_def rdata_of_def address_of_def target_of_def Let_def
  by (auto split: if_splits option.splits dest!: opt_rdata_Some)

lemma typed_data_says:
  "typed_data api rr r = Some r' \<Longrightarrow> rr_soa r = None \<Longrightarrow> rr_mx r = None \<Longrightarrow> rr_txt_strings r = [] \<Longrightarrow>
     rr_srv r = None \<Longrightarrow> rr_svcb r = None \<Longrightarrow> typed_says api rr r'"
  unfolding typed_data_def typed_says_def
  by (auto split: if_splits option.splits dest!: abin_strings_Some svcb_data_Some)

lemma decode_rr_says:
  assumes "decode_rr api rec rr = Some r"
  shows "record_says api rec rr r"
proof -
  obtain name fds keys where start: "ca_rr_name api rr = Some name" "ca_keys api (ca_rr_type api rr) = Some keys"
    "collect_fields api rr keys = Some fds"
    using assms by (auto simp: decode_rr_def append_cares_fields_def split: option.splits)
  define plain where "plain = default_rr\<lparr>rr_name := normalize_name name, rr_type := rr_type_code api rr,
    rr_rdata := (if ca_rr_type api rr = None then buffer_bytes (ca_bin api rr Key_raw_rr_data) else []),
    rr_fields := fds, rr_class := ca_rr_class api rr, rr_ttl := ca_rr_ttl api rr\<rparr>"
  define base where "base = (if rr_type plain = type_opt
    then plain\<lparr>rr_class := ca_u16 api rr Key_opt_udp_size, rr_ttl := opt_ttl_code api rec rr\<rparr> else plain)"
  have "decode_rr api rec rr = typed_data api rr base"
    by (simp only: decode_rr_def append_cares_fields_def start option.case Let_def base_def plain_def)
  then have typed: "typed_data api rr base = Some r" using assms by simp
  have silent: "rr_soa base = None" "rr_mx base = None" "rr_txt_strings base = []" "rr_srv base = None"
    "rr_svcb base = None" "rr_parsed_address base = None" "rr_target_name base = None"
    "rr_rdata base = (if ca_rr_type api rr = None then buffer_bytes (ca_bin api rr Key_raw_rr_data) else [])"
    by (simp_all add: base_def plain_def default_rr_def)
  have "header_says api rec rr base"
    using start(1) opt_ttl_bytes [of api rec rr] by (simp add: header_says_def base_def plain_def rr_type_code_def split: option.split)
  then have "header_says api rec rr r" using typed_data_frame [OF typed] by (simp add: header_says_def)
  moreover have "rr_fields r = fds" using typed_data_frame [OF typed] by (simp add: base_def plain_def)
  moreover have "rr_type r = rr_type base" using typed_data_frame [OF typed] by simp
  ultimately show ?thesis
    using start(2) collect_fields_say [OF start(3)] typed_data_address [OF typed] typed_data_says [OF typed] silent
    by (simp add: record_says_def)
qed

lemma append_section_says: "append_section api rec sec = Some rs \<Longrightarrow> section_says api rec sec rs"
  unfolding append_section_def section_says_def
  by (drule collect_list_all2)
    (auto elim!: list_all2_mono intro: decode_rr_says split: option.splits)

lemma read_questions_say:
  "read_questions api rec is = Inr qs \<Longrightarrow>
     list_all2 (\<lambda>i q. \<exists>name. ca_query_get api rec i = Inr (Some name, q_type q, q_class q) \<and>
       q_name q = normalize_name name) is qs"
proof (induction api rec "is" arbitrary: qs rule: read_questions.induct)
  case (2 api rec i "is")
  then obtain name qt qc qs' where "ca_query_get api rec i = Inr (Some name, qt, qc)"
    "read_questions api rec is = Inr qs'"
    "qs = \<lparr>q_name = normalize_name name, q_type = qt, q_class = qc\<rparr> # qs'"
    by (auto split: sum.splits option.splits prod.splits)
  with "2.IH" show ?case by simp
qed simp

lemma packet_flags_say: "flags_say api rec (packet_flags api rec)"
proof -
  have "drop_bit 11 (packet_flags api rec) AND 0x0f = ca_opcode api rec AND 0x0f"
    by (rule bit_word_eqI) (auto simp: bit_low4 bit_drop_bit_eq bit_packet_flags)
  then show ?thesis using packet_flags_rcode [of api rec] by (auto simp: flags_say_def bit_packet_flags)
qed

section \<open>Properties\<close>

text \<open>C11: A decoded packet says what the message said.  It keeps the message itself, its ID (the expected one
  when there is one), all seven flags, the operation code and the full 12-bit response code; its questions and
  the resource records of its three sections are those of the message, one by one and in order, each record
  with its normalised name, type, class and lifetime (those of EDNS data for an OPT record), its raw data, the
  generic fields, and exactly the typed data of its type: addresses, target names, SOA, MX, TXT, SRV and
  service bindings.\<close>
theorem decode_packet_faithful:
  assumes "decode_packet api message expected_id = Inr p"
  shows "\<exists>rec. ca_parse api message = Inr rec \<and> pk_wire p = message \<and> pk_id p = ca_id api rec \<and>
    expected_id \<in> {None, Some (pk_id p)} \<and> flags_say api rec (pk_flags p) \<and>
    (pk_response p \<longleftrightarrow> ca_flag api Flag_qr rec) \<and> (pk_truncated p \<longleftrightarrow> ca_flag api Flag_tc rec) \<and>
    (pk_recursion_desired p \<longleftrightarrow> ca_flag api Flag_rd rec) \<and>
    pk_response_code p = ca_rcode api rec AND 0x0fff \<and>
    questions_say api rec (pk_questions p) \<and> section_says api rec Sec_answer (pk_answers p) \<and>
    section_says api rec Sec_authority (pk_authorities p) \<and> section_says api rec Sec_additional (pk_additionals p)"
  using assms
proof (cases rule: decode_packet_cases)
  case (1 rec)
  note flags = decoded_flags [OF 1(5,6)]
  have "questions_say api rec (pk_questions p)"
    using read_questions_say [OF 1(7)] by (simp add: questions_say_def)
  then show ?thesis
    using 1(1-4) flags packet_flags_say [of api rec] 1(5) append_section_says [OF 1(8)]
      append_section_says [OF 1(9)] append_section_says [OF 1(10)]
    by (intro exI [of _ rec]) auto
qed

text \<open>C12: Truncating a UDP response always ends.  A response that fits is unchanged; a longer one becomes
  the first message of the reference truncation that fits, written with the truncation bit set: whole record
  sets are removed from the end of the message, one at a time and only while it is too long, first from the
  additional section (EDNS data excepted), then from the authority section, then from the answers, and the
  EDNS data last.  It is refused only when the limit is smaller than a header, when the library fails, or when
  the message without any record is still too long.\<close>
theorem truncate_udp_response_fits:
  assumes "cares_laws api"
  shows "\<exists>result. truncate_udp_response api response maximum = Some result \<and>
    (case result of Inl e \<Rightarrow> truncation_refused api response maximum
     | Inr w \<Rightarrow> truncated_to api response maximum w)"
proof (cases "12 \<le> maximum \<and> maximum < length response \<and> ca_init_status api = 0 \<and>
    (\<exists>parsed rec. ca_parse api response = Inr parsed \<and> ca_duplicate api parsed = Some rec)")
  case True
  with truncate_long_response [OF assms] show ?thesis by blast
next
  case False
  then show ?thesis
    by (auto simp: truncate_udp_response_def truncation_refused_def truncated_to_def not_le not_less
        split: sum.splits option.splits)
qed

section \<open>Witnesses\<close>

text \<open>A library whose records are lists of names and types, each 16 bytes on the wire.\<close>

type_synonym sample_record = "cares_section \<Rightarrow> (string \<times> u16) list"

definition sample_parsed :: sample_record where
  "sample_parsed s =
     (case s of
        Sec_answer \<Rightarrow> [(''A.example'', 1), (''a.example.'', 1)]
      | Sec_authority \<Rightarrow> [(''example'', 2)]
      | Sec_additional \<Rightarrow> [(''ns.example'', 1), ('''', 41)])"

definition sample_del :: "sample_record \<Rightarrow> cares_section \<Rightarrow> nat \<Rightarrow> sample_record cares" where
  "sample_del r s i =
     (if i < length (r s) then Inr (r(s := take i (r s) @ drop (Suc i) (r s))) else Inl 1)"

definition sample_write :: "sample_record \<Rightarrow> bytes cares" where
  "sample_write r = Inr (replicate (12 + 16 * (length (r Sec_answer) + length (r Sec_authority) +
     length (r Sec_additional))) 0)"

definition sample_api :: "(sample_record, string \<times> u16) cares_api" where
  "sample_api = \<lparr>ca_init_status = 0, ca_strerror = (\<lambda>_. ''error''),
     ca_parse = (\<lambda>_. Inr sample_parsed), ca_duplicate = Some, ca_write = sample_write,
     ca_id = (\<lambda>_. 7), ca_flag = (\<lambda>f _. f = Flag_qr), ca_opcode = (\<lambda>_. 0), ca_rcode = (\<lambda>_. 0x17),
     ca_query_cnt = (\<lambda>_. 1), ca_query_get = (\<lambda>_ _. Inr (Some ''A.Example.'', 1, 1)),
     ca_rr_cnt = (\<lambda>r s. length (r s)),
     ca_rr_get = (\<lambda>r s i. if i < length (r s) then Some (r s ! i) else None),
     ca_rr_del = sample_del, ca_rr_name = (\<lambda>rr. Some (fst rr)), ca_rr_type = (\<lambda>rr. Some (snd rr)),
     ca_rr_class = (\<lambda>_. 1), ca_rr_ttl = (\<lambda>_. 60), ca_keys = (\<lambda>_. Some []),
     ca_key_name = (\<lambda>_. None), ca_key_code = (\<lambda>_. 0), ca_key_datatype = (\<lambda>_. Dt_other),
     ca_addr = (\<lambda>_ _. Some [10, 0, 0, 1]), ca_addr6 = (\<lambda>_ _. None), ca_u8 = (\<lambda>_ _. 0),
     ca_u16 = (\<lambda>_ _. 0), ca_u32 = (\<lambda>_ _. 0), ca_str = (\<lambda>_ _. Some ''ns.example''),
     ca_bin = (\<lambda>_ _. Null_buffer 0), ca_abin_cnt = (\<lambda>_ _. 0), ca_abin = (\<lambda>_ _ _. Null_buffer 0),
     ca_opt_cnt = (\<lambda>_ _. 0), ca_opt = (\<lambda>_ _ _. (0, Null_buffer 0))\<rparr>"

lemma sample_laws: "cares_laws sample_api"
  unfolding cares_laws_def
  by (auto simp: sample_api_def sample_del_def sample_write_def nth_append split: if_splits)

theorem decode_packet_faithful_witness:
  "\<exists>p. decode_packet sample_api [0, 7] (Some 7) = Inr p \<and> pk_response_code p = 0x17 \<and>
     length (pk_answers p) = 2 \<and> rr_parsed_address (pk_answers p ! 1) = Some (V4 0x0A000001) \<and> pk_response p"
proof -
  have "succeeds (decode_packet sample_api [0, 7] (Some 7))" by code_simp
  then obtain p where p: "decode_packet sample_api [0, 7] (Some 7) = Inr p"
    by (auto simp: succeeds_iff)
  have address: "v4_from_bytes [10, 0, 0, 1] = V4 0x0A000001" by code_simp
  from decode_packet_faithful [OF p] have "pk_response_code p = 0x17 AND 0x0fff" "pk_response p"
    "section_says sample_api sample_parsed Sec_answer (pk_answers p)"
    by (auto simp: sample_api_def)
  moreover from this(3) have "length (pk_answers p) = 2" "rr_parsed_address (pk_answers p ! 1) = Some (V4 0x0A000001)"
    using address by (auto simp: section_says_def list_all2_conv_all_nth record_says_def header_says_def
        address_of_def sample_api_def sample_parsed_def)
  ultimately show ?thesis using p by simp
qed

theorem truncate_udp_response_fits_witness:
  "\<exists>w. truncate_udp_response sample_api (replicate 92 0) 70 = Some (Inr w) \<and>
     truncated_to sample_api (replicate 92 0) 70 w"
proof -
  have ok: "case truncate_udp_response sample_api (replicate 92 0) 70 of
      Some r \<Rightarrow> succeeds r | None \<Rightarrow> False"
    by code_simp
  from truncate_udp_response_fits [OF sample_laws, of "replicate 92 0" 70] obtain r where
    r: "truncate_udp_response sample_api (replicate 92 0) 70 = Some r"
    "case r of Inl e \<Rightarrow> truncation_refused sample_api (replicate 92 0) 70
     | Inr w \<Rightarrow> truncated_to sample_api (replicate 92 0) 70 w"
    by blast
  with ok obtain w where "r = Inr w" by (auto simp: succeeds_iff)
  with r show ?thesis by auto
qed

end
