(* ===== verification/Dns_Policy_Router.thy ===== *)
theory Dns_Policy_Router
  imports Rule_Table Dns_Types
begin

text \<open>
  \<^verbatim>\<open>src/dns/dns_policy_router.cpp\<close>: the ordered rules that choose the upstream group of a DNS
  query by its name. Rule values are normalised once, when the rule is added.
\<close>

section \<open>Data\<close>

datatype dns_policy_rule_kind = Pk_exact | Pk_suffix | Pk_keyword

record dns_policy_rule =
  dp_id :: string
  dp_kind :: dns_policy_rule_kind
  dp_value :: string
  dp_upstream_group :: string

record dns_policy_decision =
  dd_upstream_group :: string
  dd_matched_rule :: string
  dd_used_default :: bool

record dns_policy_router =
  dr_default_upstream :: string
  dr_rules :: "dns_policy_rule list"
  dr_normalized_values :: "string list"

section \<open>Operations\<close>

definition policy_matches :: "dns_policy_rule \<Rightarrow> string \<Rightarrow> string \<Rightarrow> bool" where
  "policy_matches rule normalized_value name =
     (case dp_kind rule of
        Pk_exact \<Rightarrow> name = normalized_value
      | Pk_suffix \<Rightarrow> suffix_matches name normalized_value
      | Pk_keyword \<Rightarrow> str_contains normalized_value name)"

definition new_policy_router :: "string \<Rightarrow> dns_policy_router" where
  "new_policy_router upstream =
     \<lparr>dr_default_upstream = upstream, dr_rules = [], dr_normalized_values = []\<rparr>"

definition set_default_upstream :: "string \<Rightarrow> dns_policy_router \<Rightarrow> dns_policy_router" where
  "set_default_upstream upstream r = r\<lparr>dr_default_upstream := upstream\<rparr>"

definition add_policy_rule :: "dns_policy_rule \<Rightarrow> dns_policy_router \<Rightarrow> dns_policy_router" where
  "add_policy_rule rule r =
     r\<lparr>dr_normalized_values := dr_normalized_values r @ [normalize_name (dp_value rule)],
       dr_rules := dr_rules r @ [rule]\<rparr>"

fun select_from ::
  "string \<Rightarrow> (dns_policy_rule \<times> string) list \<Rightarrow> string \<Rightarrow> dns_policy_decision" where
  "select_from default_upstream [] normalized =
     \<lparr>dd_upstream_group = default_upstream, dd_matched_rule = '''', dd_used_default = True\<rparr>"
| "select_from default_upstream ((rule, value) # rest) normalized =
     (if policy_matches rule value normalized
      then \<lparr>dd_upstream_group = dp_upstream_group rule, dd_matched_rule = dp_id rule,
            dd_used_default = False\<rparr>
      else select_from default_upstream rest normalized)"

definition select :: "dns_policy_router \<Rightarrow> string \<Rightarrow> dns_policy_decision" where
  "select r name =
     select_from (dr_default_upstream r) (zip (dr_rules r) (dr_normalized_values r))
       (normalize_name name)"

definition build_policy_router :: "string \<Rightarrow> dns_policy_rule list \<Rightarrow> dns_policy_router" where
  "build_policy_router upstream rules = fold add_policy_rule rules (new_policy_router upstream)"

section \<open>The reference reading\<close>

text \<open>A rule is about names, which are equal up to case and trailing dots.\<close>

definition policy_applies :: "dns_policy_rule \<Rightarrow> string \<Rightarrow> bool" where
  "policy_applies rule name =
     (let n = normalize_name name; v = normalize_name (dp_value rule) in
      case dp_kind rule of
        Pk_exact \<Rightarrow> n = v
      | Pk_suffix \<Rightarrow> n = v \<or> (\<exists>sub. n = sub @ ''.'' @ v)
      | Pk_keyword \<Rightarrow> (\<exists>before after. n = before @ v @ after))"

definition first_policy :: "dns_policy_rule list \<Rightarrow> string \<Rightarrow> dns_policy_rule option" where
  "first_policy rules name = List.find (\<lambda>rule. policy_applies rule name) rules"

interpretation policy_table: rule_table policy_applies first_policy
  by unfold_locales (simp_all add: first_policy_def)

lemma policy_matches_applies:
  "policy_matches rule (normalize_name (dp_value rule)) (normalize_name name) =
     policy_applies rule name"
  by (simp add: policy_matches_def policy_applies_def suffix_matches_iff str_contains_iff Let_def
      split: dns_policy_rule_kind.splits)

lemma select_from_first:
  "select_from d (map (\<lambda>r. (r, normalize_name (dp_value r))) rules) (normalize_name name) =
     (case first_policy rules name of
        None \<Rightarrow> \<lparr>dd_upstream_group = d, dd_matched_rule = '''', dd_used_default = True\<rparr>
      | Some r \<Rightarrow> \<lparr>dd_upstream_group = dp_upstream_group r, dd_matched_rule = dp_id r,
          dd_used_default = False\<rparr>)"
  by (induction rules) (auto simp: first_policy_def policy_matches_applies)

lemma build_policy_router_fields:
  "dr_rules (build_policy_router d rules) = rules \<and>
   dr_normalized_values (build_policy_router d rules) =
     map (\<lambda>r. normalize_name (dp_value r)) rules \<and>
   dr_default_upstream (build_policy_router d rules) = d"
  by (induction rules rule: rev_induct)
    (auto simp: build_policy_router_def add_policy_rule_def new_policy_router_def)

lemma select_first:
  "select (build_policy_router d rules) name =
     (case first_policy rules name of
        None \<Rightarrow> \<lparr>dd_upstream_group = d, dd_matched_rule = '''', dd_used_default = True\<rparr>
      | Some r \<Rightarrow> \<lparr>dd_upstream_group = dp_upstream_group r, dd_matched_rule = dp_id r,
          dd_used_default = False\<rparr>)"
proof -
  have "zip rules (map (\<lambda>r. normalize_name (dp_value r)) rules) =
      map (\<lambda>r. (r, normalize_name (dp_value r))) rules"
    by (simp add: zip_map2 zip_same_conv_map)
  then show ?thesis
    by (simp add: select_def build_policy_router_fields select_from_first)
qed

text \<open>The choice depends on the name only up to case and trailing dots.\<close>

lemma select_normalized: "normalize_name a = normalize_name b \<Longrightarrow> select r a = select r b"
  by (simp add: select_def)

text \<open>A suffix rule behind a rule for a suffix of its own value never decides.\<close>

lemma policy_suffix_shadowed:
  assumes "s \<in> set rules" "dp_kind s = Pk_suffix" "dp_kind r = Pk_suffix"
    and "policy_applies s (dp_value r)"
  shows "first_policy (rules @ r # rest) name = first_policy (rules @ rest) name"
proof (rule policy_table.pick_shadowed [OF assms(1)])
  fix n assume "policy_applies r n"
  with assms(2-4) show "policy_applies s n"
    using suffix_matches_trans [of "normalize_name n" "normalize_name (dp_value r)"
      "normalize_name (dp_value s)"]
    by (simp add: policy_applies_def Let_def suffix_matches_iff)
qed

section \<open>Properties\<close>

text \<open>
  The policy router sends a query to the group of the first rule, in the order the rules were
  added, that applies to its name up to case and trailing dots, and to the default group exactly
  when no rule applies.
\<close>

theorem select_first_match:
  "select (build_policy_router d rules) name =
      \<lparr>dd_upstream_group = d, dd_matched_rule = '''', dd_used_default = True\<rparr> \<and>
      (\<forall>r\<in>set rules. \<not> policy_applies r name) \<or>
   (\<exists>before r after. rules = before @ r # after \<and> policy_applies r name \<and>
      (\<forall>b\<in>set before. \<not> policy_applies b name) \<and>
      select (build_policy_router d rules) name =
        \<lparr>dd_upstream_group = dp_upstream_group r, dd_matched_rule = dp_id r,
         dd_used_default = False\<rparr>)"
proof (cases "first_policy rules name")
  case None
  then have "\<forall>r\<in>set rules. \<not> policy_applies r name"
    by (simp only: policy_table.pick_None)
  with None show ?thesis by (simp add: select_first)
next
  case (Some r)
  then show ?thesis
    using policy_table.pick_Some [of rules name r] by (auto simp: select_first)
qed

text \<open>
  A suffix rule placed behind a suffix rule that covers its value never decides a query:
  removing it changes no decision.
\<close>

theorem select_shadowed_suffix:
  assumes "s \<in> set rules" "dp_kind s = Pk_suffix" "dp_kind r = Pk_suffix"
    and "policy_applies s (dp_value r)"
  shows "select (build_policy_router d (rules @ r # rest)) name =
    select (build_policy_router d (rules @ rest)) name"
  by (simp add: select_first policy_suffix_shadowed [OF assms])

section \<open>Witnesses\<close>

definition sample_suffix_rule :: "string \<Rightarrow> string \<Rightarrow> dns_policy_rule" where
  "sample_suffix_rule v g = \<lparr>dp_id = v, dp_kind = Pk_suffix, dp_value = v, dp_upstream_group = g\<rparr>"

lemma sample_covers:
  "policy_applies (sample_suffix_rule ''Org'' ''g'') (dp_value (sample_suffix_rule ''wiki.org.'' ''h''))"
proof -
  have "policy_matches (sample_suffix_rule ''Org'' ''g'') (normalize_name ''Org'')
      (normalize_name ''wiki.org.'')"
    by code_simp
  then show ?thesis
    using policy_matches_applies [of "sample_suffix_rule ''Org'' ''g''" "''wiki.org.''"]
    by (simp add: sample_suffix_rule_def)
qed

theorem select_first_match_witness:
  "select (build_policy_router ''d'' [sample_suffix_rule ''Org'' ''g'']) ''Wiki.ORG.'' =
     \<lparr>dd_upstream_group = ''g'', dd_matched_rule = ''Org'', dd_used_default = False\<rparr>"
proof -
  have "dd_used_default (select (build_policy_router ''d'' [sample_suffix_rule ''Org'' ''g''])
      ''Wiki.ORG.'') = False"
    by code_simp
  then show ?thesis
    using select_first_match [of "''d''" "[sample_suffix_rule ''Org'' ''g'']" "''Wiki.ORG.''"]
    by (auto simp: sample_suffix_rule_def Cons_eq_append_conv)
qed

theorem select_shadowed_suffix_witness:
  "select (build_policy_router ''d''
     ([sample_suffix_rule ''Org'' ''g''] @ [sample_suffix_rule ''wiki.org.'' ''h''])) ''x'' =
   select (build_policy_router ''d'' ([sample_suffix_rule ''Org'' ''g''] @ [])) ''x''"
  by (rule select_shadowed_suffix [OF _ _ _ sample_covers]) (simp_all add: sample_suffix_rule_def)

end
