(* ===== verification/Dns_Upstream.thy ===== *)
theory Dns_Upstream
  imports Dns_Types
begin

text \<open>
  \<^verbatim>\<open>src/dns/dns_upstream.cpp\<close>: upstream groups, with member selection, health back-off and the
  sequential retry of one exchange, and the upstream configuration of
  \<^verbatim>\<open>include/clash_native/dns/dns_transport.hpp\<close>. What happens outside the group during an
  attempt, the clock readings, the outcome of the member's exchange and a cancellation that
  arrives while it is awaited, is an \<open>attempt_env\<close>. Times are nanoseconds of the steady clock.
\<close>

section \<open>Configuration\<close>

datatype dns_dial_policy_kind = Dial_direct | Dial_named_outbound | Dial_traffic_rules

record dns_dial_policy =
  dl_kind :: dns_dial_policy_kind
  dl_outbound_id :: string

datatype dns_transport_mode = Mode_plain | Mode_dot | Mode_doh1 | Mode_doh2 | Mode_doq | Mode_doh3

record dial_requirements =
  need_stream :: bool
  need_datagram :: bool

text \<open>The dialers the factories make, by what they were made from; a custom one by a number.\<close>

datatype dns_upstream_dialer =
    Direct_dialer
  | Outbound_dialer string dial_requirements
  | Traffic_rules_dialer string
  | Custom_dialer nat

record dns_upstream_config =
  up_endpoint :: endpoint
  up_timeout :: int  \<comment> \<open>milliseconds\<close>
  up_tcp_endpoint :: "endpoint option"
  up_prefer_tcp :: bool
  up_fallback_endpoint :: "endpoint option"
  up_fallback_tcp_endpoint :: "endpoint option"
  up_mode :: dns_transport_mode
  up_server_name :: string
  up_verify_peer :: bool
  up_doh_path :: string
  up_doh_authority :: string
  up_dial_policy :: dns_dial_policy
  up_dialer :: "dns_upstream_dialer option"
  up_egress_hostname :: string
  up_hostname :: string
  up_bootstrap_dns_servers :: "endpoint list"

definition default_upstream_config :: dns_upstream_config where
  "default_upstream_config = \<lparr>up_endpoint = \<lparr>ep_address = V4 0, ep_port = 0\<rparr>, up_timeout = 2000,
     up_tcp_endpoint = None, up_prefer_tcp = False, up_fallback_endpoint = None,
     up_fallback_tcp_endpoint = None, up_mode = Mode_plain, up_server_name = '''',
     up_verify_peer = True, up_doh_path = ''/dns-query'', up_doh_authority = '''',
     up_dial_policy = \<lparr>dl_kind = Dial_direct, dl_outbound_id = ''''\<rparr>, up_dialer = None,
     up_egress_hostname = '''', up_hostname = '''', up_bootstrap_dns_servers = []\<rparr>"

datatype dns_upstream_selection = Sequential | Round_robin

record dns_upstream_group_config =
  gc_members :: "dns_upstream_config list"
  gc_selection :: dns_upstream_selection
  gc_timeout :: int

section \<open>The group\<close>

record member_health =
  mh_consecutive_failures :: nat
  mh_unhealthy_until :: int

definition healthy_member :: member_health where
  "healthy_member = \<lparr>mh_consecutive_failures = 0, mh_unhealthy_until = 0\<rparr>"

record dns_upstream_group =
  ug_selection :: dns_upstream_selection
  ug_timeout :: int
  ug_members :: "dns_upstream_config list"
  ug_health :: "member_health list"
  ug_next_member :: u64

definition fallback_of :: "dns_upstream_config \<Rightarrow> endpoint \<Rightarrow> dns_upstream_config" where
  "fallback_of member e = default_upstream_config\<lparr>
     up_endpoint := e, up_timeout := up_timeout member,
     up_tcp_endpoint := up_fallback_tcp_endpoint member, up_prefer_tcp := up_prefer_tcp member,
     up_mode := up_mode member, up_server_name := up_server_name member,
     up_verify_peer := up_verify_peer member, up_doh_path := up_doh_path member,
     up_doh_authority := up_doh_authority member, up_dial_policy := up_dial_policy member,
     up_dialer := up_dialer member,
     up_bootstrap_dns_servers := up_bootstrap_dns_servers member\<rparr>"

fun expand_members :: "dns_upstream_config list \<Rightarrow> dns_upstream_config list" where
  "expand_members [] = []"
| "expand_members (member # rest) =
     member\<lparr>up_fallback_endpoint := None, up_fallback_tcp_endpoint := None\<rparr> #
     (case up_fallback_endpoint member of
        None \<Rightarrow> expand_members rest
      | Some e \<Rightarrow> fallback_of member e # expand_members rest)"

definition new_upstream_group :: "dns_upstream_group_config \<Rightarrow> dns_upstream_group" where
  "new_upstream_group config =
     (if gc_members config = []
      then \<lparr>ug_selection = gc_selection config, ug_timeout = gc_timeout config, ug_members = [],
            ug_health = [], ug_next_member = 0\<rparr>
      else
        let expanded = expand_members (gc_members config) in
        \<lparr>ug_selection = gc_selection config,
         ug_timeout = (if gc_timeout config \<le> 0
           then fold max (map up_timeout (tl expanded)) (up_timeout (hd expanded))
           else gc_timeout config),
         ug_members = expanded, ug_health = replicate (length expanded) healthy_member,
         ug_next_member = 0\<rparr>)"

definition next_start_index :: "dns_upstream_group \<Rightarrow> nat \<times> dns_upstream_group" where
  "next_start_index g =
     (if ug_selection g \<noteq> Round_robin \<or> ug_members g = [] then (0, g)
      else (unat (ug_next_member g) mod length (ug_members g),
            g\<lparr>ug_next_member := ug_next_member g + 1\<rparr>))"

definition select_member ::
  "int \<Rightarrow> dns_upstream_group \<Rightarrow> nat \<Rightarrow> bool list \<Rightarrow> nat option" where
  "select_member now g start_index attempted =
     (if ug_members g = [] then None
      else
        let n = length (ug_members g);
            normalized_start = start_index mod n;
            order = map (\<lambda>offset. (normalized_start + offset) mod n) [0..<n]
        in case List.find (\<lambda>i. \<not> attempted ! i \<and> mh_unhealthy_until (ug_health g ! i) \<le> now) order of
             Some i \<Rightarrow> Some i
           | None \<Rightarrow> List.find (\<lambda>i. \<not> attempted ! i) order)"

definition millisecond :: int where
  "millisecond = 1000000"

definition record_failure :: "int \<Rightarrow> nat \<Rightarrow> error \<Rightarrow> dns_upstream_group \<Rightarrow> dns_upstream_group" where
  "record_failure now i e g =
     (if i \<ge> length (ug_health g) \<or> code e = Cancelled then g
      else
        let failures = min (mh_consecutive_failures (ug_health g ! i) + 1) 8;
            multiplier = (2 :: int) ^ (failures - 1);
            backoff = min 30000 (250 * multiplier)
        in g\<lparr>ug_health := (ug_health g)[i := \<lparr>mh_consecutive_failures = failures,
             mh_unhealthy_until = now + backoff * millisecond\<rparr>]\<rparr>)"

definition record_success :: "nat \<Rightarrow> dns_upstream_group \<Rightarrow> dns_upstream_group" where
  "record_success i g =
     (if i \<ge> length (ug_health g) then g
      else g\<lparr>ug_health := (ug_health g)[i := healthy_member]\<rparr>)"

definition should_retry_response :: "dns_packet \<Rightarrow> bool" where
  "should_retry_response p \<longleftrightarrow> pk_response_code p = 2 \<or> pk_response_code p = 5"

section \<open>One exchange\<close>

record attempt_env =
  ae_check :: int
  ae_select :: int
  ae_budget :: int
  ae_outcome :: "dns_packet res option"  \<comment> \<open>\<open>None\<close>: the await was stopped\<close>
  ae_completed :: bool
  ae_record :: int
  ae_after :: int

text \<open>
  How the task of an exchange ends: it delivers a result through \<^verbatim>\<open>finish\<close>, it returns because the
  operation was completed by a cancellation meanwhile, or it returns without delivering anything.
\<close>

datatype group_outcome = Finish "dns_packet res" | Already_completed | Abandoned

record group_run =
  gr_outcome :: group_outcome
  gr_group :: dns_upstream_group
  gr_tries :: "(nat \<times> int) list"  \<comment> \<open>members asked, with the deadline given to each\<close>

definition member_deadline :: "int \<Rightarrow> int \<Rightarrow> bool list \<Rightarrow> int" where
  "member_deadline deadline now attempted =
     (let remaining = deadline - now;
          remaining_attempts = length (filter Not attempted) + 1
      in if remaining_attempts > 1 \<and> remaining > 0
         then now + remaining div int remaining_attempts else deadline)"

definition group_timeout_error :: error where
  "group_timeout_error = mk_error Timeout ''DNS upstream group timed out''"

definition retryable_error :: error where
  "retryable_error = mk_error Resolution ''DNS upstream returned a retryable response''"

definition stopped_member_error :: error where
  "stopped_member_error = mk_error Cancelled ''DNS group member exchange cancelled''"

lemma filter_Not_update:
  "i < length bs \<Longrightarrow> \<not> bs ! i \<Longrightarrow>
     length (filter Not (bs[i := True])) < length (filter Not bs)"
proof (induction bs arbitrary: i)
  case (Cons b bs)
  then show ?case by (cases i) auto
qed simp

lemma find_order_bound:
  "List.find P (map (\<lambda>offset. (s + offset) mod n) [0..<n]) = Some i \<Longrightarrow> i < n \<and> P i"
  by (auto simp: find_Some_iff)

lemma select_member_bound:
  "select_member now g start attempted = Some i \<Longrightarrow> i < length (ug_members g) \<and> \<not> attempted ! i"
  by (auto simp: select_member_def Let_def split: if_splits option.splits dest!: find_order_bound)

text \<open>
  The retry loop; \<open>env k\<close> is what surrounds the \<open>k\<close>-th round. The first branch is never taken from
  \<open>group_exchange\<close>, which gives \<^verbatim>\<open>attempted_\<close> the size of \<^verbatim>\<open>members_\<close>; it makes the recursion total.
\<close>

function run_members ::
  "(nat \<Rightarrow> attempt_env) \<Rightarrow> nat \<Rightarrow> int \<Rightarrow> dns_upstream_group \<Rightarrow> nat \<Rightarrow> nat \<Rightarrow> bool list \<Rightarrow>
     error option \<Rightarrow> (nat \<times> int) list \<Rightarrow> group_run" where
  "run_members env k deadline g index current attempted last_error tries =
     (if length attempted \<noteq> length (ug_members g)
      then \<lparr>gr_outcome = Abandoned, gr_group = g, gr_tries = tries\<rparr>
      else if ae_check (env k) \<ge> deadline
      then \<lparr>gr_outcome = Finish (Inl group_timeout_error),
            gr_group = record_failure (ae_record (env k)) current group_timeout_error g,
            gr_tries = tries\<rparr>
      else case select_member (ae_select (env k)) g index attempted of
        None \<Rightarrow>
          \<lparr>gr_outcome = Finish (Inl (case last_error of
              Some e \<Rightarrow> e
            | None \<Rightarrow> mk_error Configuration ''DNS upstream group has no available members'')),
           gr_group = g, gr_tries = tries\<rparr>
      | Some i \<Rightarrow>
          let attempted = attempted[i := True];
              tries = tries @ [(i, member_deadline deadline (ae_budget (env k)) attempted)];
              result = (case ae_outcome (env k) of
                  Some r \<Rightarrow> r
                | None \<Rightarrow> Inl stopped_member_error);
              following = (i + 1) mod length (ug_members g)
          in
          if ae_completed (env k)
          then \<lparr>gr_outcome = Already_completed, gr_group = g, gr_tries = tries\<rparr>
          else (case result of
            Inl e \<Rightarrow>
              if code e = Cancelled
              then \<lparr>gr_outcome = Abandoned, gr_group = g, gr_tries = tries\<rparr>
              else
                let g' = record_failure (ae_record (env k)) i e g in
                if ae_after (env k) < deadline
                then run_members env (k + 1) deadline
                       g' following i attempted (Some e) tries
                else \<lparr>gr_outcome = Finish result, gr_group = g', gr_tries = tries\<rparr>
          | Inr p \<Rightarrow>
              if \<not> should_retry_response p
              then \<lparr>gr_outcome = Finish result, gr_group = record_success i g, gr_tries = tries\<rparr>
              else
                let g' = record_failure (ae_record (env k)) i retryable_error g in
                if ae_after (env k) < deadline \<and> False \<in> set attempted
                then run_members env (k + 1) deadline
                       g' following i attempted (Some retryable_error) tries
                else \<lparr>gr_outcome = Finish result, gr_group = g', gr_tries = tries\<rparr>))"
  by pat_completeness auto

termination
proof (relation "measure (\<lambda>(env, k, deadline, g, index, current, attempted, last_error, tries).
    length (filter Not attempted))", goal_cases)
  case 1
  then show ?case by simp
next
  case 2
  then show ?case
    using select_member_bound filter_Not_update by fastforce
next
  case 3
  then show ?case
    using select_member_bound filter_Not_update by fastforce
qed

declare run_members.simps [simp del]

definition group_exchange ::
  "(nat \<Rightarrow> attempt_env) \<Rightarrow> int \<Rightarrow> bool \<Rightarrow> dns_upstream_group \<Rightarrow> group_run" where
  "group_exchange env deadline stopped g =
     (if stopped
      then \<lparr>gr_outcome = Finish (Inl (mk_error Cancelled
              ''DNS upstream group exchange was cancelled'')), gr_group = g, gr_tries = []\<rparr>
      else if ug_members g = []
      then \<lparr>gr_outcome = Finish (Inl (mk_error Configuration
              ''DNS upstream group has no configured members'')), gr_group = g, gr_tries = []\<rparr>
      else
        let (start_index, g) = next_start_index g
        in run_members env 0 deadline g start_index 0 (replicate (length (ug_members g)) False)
             None [])"

section \<open>Selection and health\<close>

lemma order_all: "j < n \<Longrightarrow> \<exists>offset<n. (s + offset) mod n = (j :: nat)"
proof -
  assume j: "j < n"
  define k where "k = (j + n - s mod n) mod n"
  have "s mod n < n" using j by (simp add: mod_less_divisor)
  have "(s + k) mod n = (s mod n + (j + n - s mod n)) mod n"
    by (simp add: k_def mod_simps)
  also have "s mod n + (j + n - s mod n) = j + n" using \<open>s mod n < n\<close> by simp
  also have "(j + n) mod n = j" using j by simp
  finally show ?thesis using j by (intro exI [of _ k]) (simp add: k_def)
qed

lemma find_order_None:
  "List.find P (map (\<lambda>offset. (s + offset) mod n) [0..<n]) = None \<longleftrightarrow> (\<forall>j<n. \<not> P j)"
  using order_all [of _ n s] by (fastforce simp: find_None_iff)

lemma select_member_None:
  "ug_members g \<noteq> [] \<Longrightarrow>
     select_member now g start attempted = None \<longleftrightarrow> (\<forall>j<length (ug_members g). attempted ! j)"
  unfolding select_member_def Let_def
  using find_order_None [of _ "start mod length (ug_members g)" "length (ug_members g)"]
  by (auto split: option.splits dest: find_order_bound)

lemma select_member_prefers_healthy:
  assumes "select_member now g start attempted = Some i" "now < mh_unhealthy_until (ug_health g ! i)"
    and "j < length (ug_members g)" "\<not> attempted ! j"
  shows "now < mh_unhealthy_until (ug_health g ! j)"
proof (rule ccontr)
  let ?n = "length (ug_members g)"
  let ?P = "\<lambda>i. \<not> attempted ! i \<and> mh_unhealthy_until (ug_health g ! i) \<le> now"
  let ?f = "List.find ?P (map (\<lambda>offset. (start mod ?n + offset) mod ?n) [0..<?n])"
  assume "\<not> now < mh_unhealthy_until (ug_health g ! j)"
  then have "?f \<noteq> None" using assms(3,4) by (auto simp: find_order_None)
  then obtain i' where f: "?f = Some i'" by auto
  then have "select_member now g start attempted = Some i'"
    using assms(3) by (auto simp: select_member_def Let_def)
  with find_order_bound [OF f] assms(1,2) show False by simp
qed

lemma record_failure_members [simp]: "ug_members (record_failure now i e g) = ug_members g"
  by (simp add: record_failure_def Let_def)

lemma record_success_members [simp]: "ug_members (record_success i g) = ug_members g"
  by (simp add: record_success_def)

lemma next_start_members: "next_start_index g = (s, g') \<Longrightarrow> ug_members g' = ug_members g"
  by (auto simp: next_start_index_def split: if_splits)

lemma record_failure_backoff:
  assumes "i < length (ug_health g)" "code e \<noteq> Cancelled"
  shows "now + 250 * millisecond \<le> mh_unhealthy_until (ug_health (record_failure now i e g) ! i) \<and>
    mh_unhealthy_until (ug_health (record_failure now i e g) ! i) \<le> now + 30000 * millisecond"
proof -
  have "(1 :: int) \<le> 2 ^ k" for k by simp
  then show ?thesis
    using assms by (auto simp: record_failure_def Let_def millisecond_def min_def)
qed

section \<open>Every exchange ends\<close>

text \<open>Nothing cancels the exchange, from outside or by a member's own terminal.\<close>

definition undisturbed :: "attempt_env \<Rightarrow> bool" where
  "undisturbed a \<longleftrightarrow> \<not> ae_completed a \<and>
     (case ae_outcome a of None \<Rightarrow> False | Some (Inl e) \<Rightarrow> code e \<noteq> Cancelled | Some (Inr p) \<Rightarrow> True)"

text \<open>
  What holds of every run over \<open>n\<close> members: no member is asked twice, and a response that is
  delivered is the one of the member asked last, a retryable one only when no member is left or
  the deadline has passed.
\<close>

definition run_ok :: "(nat \<Rightarrow> attempt_env) \<Rightarrow> int \<Rightarrow> nat \<Rightarrow> group_run \<Rightarrow> bool" where
  "run_ok env deadline n r \<longleftrightarrow>
     distinct (map fst (gr_tries r)) \<and> (\<forall>i\<in>fst ` set (gr_tries r). i < n) \<and>
     ((\<forall>k. undisturbed (env k)) \<longrightarrow> (\<exists>x. gr_outcome r = Finish x)) \<and>
     (\<forall>p. gr_outcome r = Finish (Inr p) \<longrightarrow> gr_tries r \<noteq> [] \<and>
        ae_outcome (env (length (gr_tries r) - 1)) = Some (Inr p) \<and>
        (should_retry_response p \<longrightarrow>
           length (gr_tries r) = n \<or> deadline \<le> ae_after (env (length (gr_tries r) - 1))))"

definition tries_ok :: "nat \<Rightarrow> bool list \<Rightarrow> (nat \<times> int) list \<Rightarrow> bool" where
  "tries_ok n attempted tries \<longleftrightarrow> length attempted = n \<and> distinct (map fst tries) \<and>
     fst ` set tries = {i. i < n \<and> attempted ! i}"

lemma tries_ok_add:
  "tries_ok n attempted tries \<Longrightarrow> i < n \<Longrightarrow> \<not> attempted ! i \<Longrightarrow>
     tries_ok n (attempted[i := True]) (tries @ [(i, d)])"
  by (auto simp: tries_ok_def nth_list_update)

lemma tries_ok_all:
  assumes "tries_ok n attempted tries" "False \<notin> set attempted"
  shows "length tries = n"
proof -
  have "length tries = card (fst ` set tries)"
    using assms(1) by (metis tries_ok_def distinct_card length_map set_map)
  also have "fst ` set tries = {..<n}"
  proof -
    have "attempted ! i" if "i < n" for i
      using that assms by (metis (full_types) nth_mem tries_ok_def)
    then show ?thesis using assms(1) by (auto simp: tries_ok_def)
  qed
  finally show ?thesis by simp
qed

lemma run_ok_tries:
  "tries_ok n attempted tries \<Longrightarrow> distinct (map fst tries) \<and> (\<forall>i\<in>fst ` set tries. i < n)"
  by (simp add: tries_ok_def)

lemma run_ok_error:
  "tries_ok n attempted tries \<Longrightarrow>
     run_ok env deadline n \<lparr>gr_outcome = Finish (Inl e), gr_group = g, gr_tries = tries\<rparr>"
  by (simp add: run_ok_def tries_ok_def)

lemma run_ok_quiet:
  "tries_ok n attempted tries \<Longrightarrow> \<not> undisturbed (env k) \<Longrightarrow> c \<in> {Already_completed, Abandoned} \<Longrightarrow>
     run_ok env deadline n \<lparr>gr_outcome = c, gr_group = g, gr_tries = tries\<rparr>"
  by (auto simp: run_ok_def tries_ok_def)

lemma run_ok_response:
  "tries_ok n attempted tries \<Longrightarrow> tries \<noteq> [] \<Longrightarrow>
     ae_outcome (env (length tries - 1)) = Some (Inr p) \<Longrightarrow>
     \<not> should_retry_response p \<or> length tries = n \<or> deadline \<le> ae_after (env (length tries - 1)) \<Longrightarrow>
     run_ok env deadline n \<lparr>gr_outcome = Finish (Inr p), gr_group = g, gr_tries = tries\<rparr>"
  by (auto simp: run_ok_def tries_ok_def)

lemma run_members_ok:
  assumes "tries_ok (length (ug_members g)) attempted tries" "length tries = k"
  shows "run_ok env deadline (length (ug_members g))
    (run_members env k deadline g index current attempted le tries)"
  using assms
proof (induction env k deadline g index current attempted le tries rule: run_members.induct)
  case (1 env k deadline g index current attempted le tries)
  have len: "length attempted = length (ug_members g)" using "1.prems" by (simp add: tries_ok_def)
  show ?case
  proof (cases "deadline \<le> ae_check (env k) \<or> select_member (ae_select (env k)) g index attempted = None")
    case True
    with "1.prems" len show ?thesis
      by (subst run_members.simps) (auto intro: run_ok_error)
  next
    case False
    then obtain i where i: "select_member (ae_select (env k)) g index attempted = Some i"
      and early: "\<not> deadline \<le> ae_check (env k)" by auto
    let ?n = "length (ug_members g)"
    let ?a = "attempted[i := True]"
    let ?t = "tries @ [(i, member_deadline deadline (ae_budget (env k)) ?a)]"
    have t: "tries_ok ?n ?a ?t" "length ?t = k + 1"
      using select_member_bound [OF i] "1.prems" by (simp_all add: tries_ok_add)
    show ?thesis
    proof (cases "ae_completed (env k)")
      case True
      then have "\<not> undisturbed (env k)" by (simp add: undisturbed_def)
      with t(1) True i early len show ?thesis
        by (subst run_members.simps) (simp add: Let_def run_ok_quiet)
    next
      case running: False
      let ?r = "case ae_outcome (env k) of Some r \<Rightarrow> r | None \<Rightarrow> Inl stopped_member_error"
      show ?thesis
      proof (cases ?r)
        case (Inl e)
        have d: "\<not> undisturbed (env k)" if "code e = Cancelled"
          using that Inl by (auto simp: undisturbed_def split: option.splits)
        show ?thesis
        proof (cases "code e = Cancelled \<or> \<not> ae_after (env k) < deadline")
          case True
          have "run_ok env deadline ?n \<lparr>gr_outcome = Abandoned, gr_group = g, gr_tries = ?t\<rparr>"
            if "code e = Cancelled" by (rule run_ok_quiet [OF t(1), where k = k]) (use d that in simp_all)
          moreover have "run_ok env deadline ?n
              \<lparr>gr_outcome = Finish (Inl e), gr_group = g', gr_tries = ?t\<rparr>" for g'
            by (rule run_ok_error [OF t(1)])
          ultimately show ?thesis using True Inl i early running len
            by (subst run_members.simps) (auto simp add: Let_def)
        next
          case False
          with t "1.IH"(1) [of i ?a ?t ?r] len early i running Inl
          show ?thesis by (subst run_members.simps) (simp add: Let_def)
        qed
      next
        case (Inr p)
        have o: "ae_outcome (env (length ?t - 1)) = Some (Inr p)"
          using Inr "1.prems"(2) by (auto split: option.splits)
        show ?thesis
        proof (cases "should_retry_response p \<and> ae_after (env k) < deadline \<and> False \<in> set ?a")
          case False
          then have "\<not> should_retry_response p \<or> length ?t = ?n \<or> deadline \<le> ae_after (env (length ?t - 1))"
            using tries_ok_all [OF t(1)] "1.prems"(2) by auto
          with run_ok_response [of ?n ?a ?t env p deadline, OF t(1) _ o] False Inr i early running len
          show ?thesis
            by (subst run_members.simps) (auto simp add: Let_def)
        next
          case True
          with t "1.IH"(2) [of i ?a ?t ?r] len early i running Inr
          show ?thesis by (subst run_members.simps) (simp add: Let_def)
        qed
      qed
    qed
  qed
qed


section \<open>Properties\<close>

lemma group_exchange_run_ok:
  "run_ok env deadline (length (ug_members g)) (group_exchange env deadline stopped g)"
proof (cases "stopped \<or> ug_members g = []")
  case True
  then show ?thesis by (auto simp: group_exchange_def run_ok_def)
next
  case False
  obtain s g' where s: "next_start_index g = (s, g')" by (rule prod.exhaust)
  have "tries_ok (length (ug_members g')) (replicate (length (ug_members g')) False) []"
    by (auto simp: tries_ok_def)
  from run_members_ok [OF this, of 0] next_start_members [OF s] False s show ?thesis
    by (simp add: group_exchange_def)
qed

text \<open>C7: an exchange of a group that nothing cancels always delivers a result: the retry loop
  asks no member twice and ends within as many rounds as there are members, whatever the clock
  readings, the outcomes and the health of the members are. A response it delivers is that of the
  member asked last, and a SERVFAIL or REFUSED is delivered only after every member was asked or
  when the deadline has passed.\<close>
theorem group_exchange_delivers:
  assumes "\<forall>k. undisturbed (env k)"
  shows "\<exists>result. gr_outcome (group_exchange env deadline stopped g) = Finish result \<and>
    (let tries = gr_tries (group_exchange env deadline stopped g);
         final = env (length tries - 1) in
     distinct (map fst tries) \<and> (\<forall>i\<in>fst ` set tries. i < length (ug_members g)) \<and>
     length tries \<le> length (ug_members g) \<and>
     (\<forall>p. result = Inr p \<longrightarrow> ae_outcome final = Some (Inr p) \<and>
        (should_retry_response p \<longrightarrow>
           length tries = length (ug_members g) \<or> deadline \<le> ae_after final)))"
proof -
  let ?r = "group_exchange env deadline stopped g"
  have ok: "run_ok env deadline (length (ug_members g)) ?r" by (rule group_exchange_run_ok)
  then have d: "distinct (map fst (gr_tries ?r))" "fst ` set (gr_tries ?r) \<subseteq> {..<length (ug_members g)}"
    by (auto simp: run_ok_def)
  then have "length (gr_tries ?r) \<le> length (ug_members g)"
    using card_mono [OF _ d(2)] distinct_card [OF d(1)] by simp
  with ok assms show ?thesis by (auto simp: run_ok_def Let_def)
qed

definition sample_group :: dns_upstream_group where
  "sample_group = new_upstream_group \<lparr>gc_members = [default_upstream_config\<lparr>
     up_fallback_endpoint := Some \<lparr>ep_address = V4 7, ep_port = 53\<rparr>\<rparr>],
     gc_selection = Round_robin, gc_timeout = 0\<rparr>"

definition sample_reply :: "u16 \<Rightarrow> dns_packet" where
  "sample_reply fl = \<lparr>pk_wire = [], pk_id = 1, pk_flags = fl, pk_extended_rcode = 0,
     pk_questions = [], pk_answers = [], pk_authorities = [], pk_additionals = []\<rparr>"

definition sample_env :: "nat \<Rightarrow> attempt_env" where
  "sample_env k = \<lparr>ae_check = 10, ae_select = 10, ae_budget = 10,
     ae_outcome = Some (Inr (sample_reply (if k = 0 then 0x8002 else 0x8000))),
     ae_completed = False, ae_record = 20, ae_after = 20\<rparr>"

theorem group_exchange_delivers_witness:
  "let r = group_exchange sample_env 2010 False sample_group in
   \<exists>result. gr_outcome r = Finish result \<and> map fst (gr_tries r) = [0, 1] \<and>
     map snd (gr_tries r) = [1010, 2010] \<and> gr_outcome r = Finish (Inr (sample_reply 0x8000))"
proof -
  have "\<forall>k. undisturbed (sample_env k)" by (simp add: sample_env_def undisturbed_def)
  from group_exchange_delivers [OF this, of 2010 False sample_group]
  obtain result where "gr_outcome (group_exchange sample_env 2010 False sample_group) = Finish result"
    by blast
  moreover have "map fst (gr_tries (group_exchange sample_env 2010 False sample_group)) = [0, 1] \<and>
     map snd (gr_tries (group_exchange sample_env 2010 False sample_group)) = [1010, 2010] \<and>
     gr_outcome (group_exchange sample_env 2010 False sample_group) =
       Finish (Inr (sample_reply 0x8000))"
    by code_simp
  ultimately show ?thesis by (simp add: Let_def)
qed

text \<open>The member a group asks next was not asked before; one in back-off is asked only when
  every other member that is left is in back-off too; and there is none only when all were asked.
  After a failure a member is in back-off for at least 250 ms and at most 30 s.\<close>
theorem select_member_policy:
  assumes "ug_members g \<noteq> []" "length (ug_health g) = length (ug_members g)"
  shows "(case select_member now g start_index attempted of
      None \<Rightarrow> \<forall>j<length (ug_members g). attempted ! j
    | Some i \<Rightarrow> i < length (ug_members g) \<and> \<not> attempted ! i \<and>
        (mh_unhealthy_until (ug_health g ! i) \<le> now \<or>
         (\<forall>j<length (ug_members g). \<not> attempted ! j \<longrightarrow>
            now < mh_unhealthy_until (ug_health g ! j))) \<and>
        (\<forall>e. code e \<noteq> Cancelled \<longrightarrow>
           mh_unhealthy_until (ug_health (record_failure now i e g) ! i)
             \<in> {now + 250 * millisecond .. now + 30000 * millisecond}))"
proof (cases "select_member now g start_index attempted")
  case None
  with select_member_None [OF assms(1), of now start_index attempted] show ?thesis by simp
next
  case (Some i)
  have "i < length (ug_members g)" "\<not> attempted ! i" using select_member_bound [OF Some] by auto
  moreover have "mh_unhealthy_until (ug_health g ! i) \<le> now \<or>
      (\<forall>j<length (ug_members g). \<not> attempted ! j \<longrightarrow> now < mh_unhealthy_until (ug_health g ! j))"
    using select_member_prefers_healthy [OF Some] by force
  ultimately show ?thesis
    using Some record_failure_backoff [of i g _ now] assms(2) by auto
qed

theorem select_member_policy_witness:
  "select_member 100 (record_failure 100 0 group_timeout_error sample_group) 0 [False, False] = Some 1"
proof -
  let ?g = "record_failure 100 0 group_timeout_error sample_group"
  have "ug_members ?g \<noteq> []" "length (ug_health ?g) = length (ug_members ?g)"
    "mh_unhealthy_until (ug_health ?g ! 0) = 250000100" "mh_unhealthy_until (ug_health ?g ! 1) = 0"
    "length (ug_members ?g) = 2"
    by code_simp+
  from select_member_policy [OF this(1,2), where now = 100 and start_index = 0 and attempted = "[False, False]"] this show ?thesis
    by (auto simp: less_2_cases_iff split: option.splits)
qed

text \<open>C8: when the exchange of the first member asked ends with \<open>Cancelled\<close> by itself, a DoT session
  retired under it for instance, and nobody cancelled the group's exchange, the task returns without
  delivering a result and without asking the members that are left.\<close>
theorem cancelled_member_abandons_exchange:
  assumes "ug_members g \<noteq> []" "ae_check (env 0) < deadline" "\<not> ae_completed (env 0)"
    and "ae_outcome (env 0) = Some (Inl e)" "code e = Cancelled"
  shows "gr_outcome (group_exchange env deadline False g) = Abandoned \<and>
    length (gr_tries (group_exchange env deadline False g)) = 1"
proof -
  obtain s g' where s: "next_start_index g = (s, g')" by (rule prod.exhaust)
  with assms(1) have g': "ug_members g' \<noteq> []" using next_start_members by metis
  let ?a = "replicate (length (ug_members g')) False"
  have "select_member (ae_select (env 0)) g' s ?a \<noteq> None"
    using select_member_None [OF g'] g' by (auto intro: exI [of _ 0])
  then obtain i where "select_member (ae_select (env 0)) g' s ?a = Some i" by auto
  with s g' assms show ?thesis
    by (simp add: group_exchange_def run_members.simps [of env 0] Let_def)
qed

theorem cancelled_member_abandons_exchange_witness:
  "gr_outcome (group_exchange ((\<lambda>k. sample_env k\<lparr>ae_outcome :=
       Some (Inl (mk_error Cancelled ''DoT exchange cancelled''))\<rparr>)) 2010 False sample_group) = Abandoned"
proof -
  have "ug_members sample_group \<noteq> []" by code_simp
  then show ?thesis
    using cancelled_member_abandons_exchange [of sample_group "\<lambda>k. sample_env k\<lparr>ae_outcome :=
       Some (Inl (mk_error Cancelled ''DoT exchange cancelled''))\<rparr>" 2010
       "mk_error Cancelled ''DoT exchange cancelled''"]
    by (simp add: sample_env_def mk_error_def)
qed

end
