(* ===== verification/Dns_Query_Config.thy ===== *)
theory Dns_Query_Config
  imports Dns_Upstream Dns_Policy_Router Dns_Codec Traffic_Router Outbound_Registry Dependency_Graph
begin

text \<open>
  The configuration of \<^verbatim>\<open>src/dns/dns_query_service.cpp\<close>: what the constructor fills in, what
  \<^verbatim>\<open>validate\<close> accepts, the key a query is cached and coalesced under and the time a response is
  kept. The checks that an enumerator is one of its enumeration have no counterpart: a
  \<open>datatype\<close> has no other values. The transport factory is a parameter of the exchange and not of
  what is modelled here.
\<close>

section \<open>Configuration\<close>

record 'o dns_resolver_config =
  rc_default_upstream :: dns_upstream_config
  rc_upstream_groups :: "(string, dns_upstream_config) umap"
  rc_policy_router :: "dns_policy_router option"
  rc_group_configs :: "(string, dns_upstream_group_config) umap"
  rc_cache_capacity :: nat
  rc_negative_cache_ttl :: int  \<comment> \<open>seconds\<close>
  rc_cache_generation :: u64
  rc_dependency_graph :: "dependency_graph option"
  rc_outbound_registry :: "'o outbound_registry option"
  rc_traffic_router :: "traffic_router option"
  rc_bootstrap_dns_servers :: "endpoint list"

definition default_resolver_config :: "dns_upstream_config \<Rightarrow> 'o dns_resolver_config" where
  "default_resolver_config default_upstream = \<lparr>rc_default_upstream = default_upstream,
     rc_upstream_groups = [], rc_policy_router = None, rc_group_configs = [],
     rc_cache_capacity = 4096, rc_negative_cache_ttl = 5, rc_cache_generation = 0,
     rc_dependency_graph = None, rc_outbound_registry = None, rc_traffic_router = None,
     rc_bootstrap_dns_servers = []\<rparr>"

fun mode_requirements :: "dns_transport_mode \<Rightarrow> dial_requirements" where
  "mode_requirements Mode_plain = \<lparr>need_stream = True, need_datagram = True\<rparr>"
| "mode_requirements Mode_dot = \<lparr>need_stream = True, need_datagram = False\<rparr>"
| "mode_requirements Mode_doh1 = \<lparr>need_stream = True, need_datagram = False\<rparr>"
| "mode_requirements Mode_doh2 = \<lparr>need_stream = True, need_datagram = False\<rparr>"
| "mode_requirements Mode_doq = \<lparr>need_stream = False, need_datagram = True\<rparr>"
| "mode_requirements Mode_doh3 = \<lparr>need_stream = False, need_datagram = True\<rparr>"

definition install_bootstrap_servers ::
  "endpoint list \<Rightarrow> dns_upstream_config \<Rightarrow> dns_upstream_config" where
  "install_bootstrap_servers servers upstream =
     (if up_bootstrap_dns_servers upstream = []
      then upstream\<lparr>up_bootstrap_dns_servers := servers\<rparr> else upstream)"

definition install_egress_dialer :: "dns_upstream_config \<Rightarrow> dns_upstream_config" where
  "install_egress_dialer upstream0 =
     (let upstream =
        (if up_egress_hostname upstream0 = []
         then upstream0\<lparr>up_egress_hostname :=
           (if up_hostname upstream0 \<noteq> [] then up_hostname upstream0
            else up_server_name upstream0)\<rparr>
         else upstream0)
      in if up_dialer upstream \<noteq> None then upstream
         else case dl_kind (up_dial_policy upstream) of
           Dial_direct \<Rightarrow> upstream\<lparr>up_dialer := Some Direct_dialer\<rparr>
         | Dial_named_outbound \<Rightarrow> upstream\<lparr>up_dialer := Some (Outbound_dialer
             (dl_outbound_id (up_dial_policy upstream)) (mode_requirements (up_mode upstream)))\<rparr>
         | Dial_traffic_rules \<Rightarrow> upstream\<lparr>up_dialer := Some (Traffic_rules_dialer
             (up_egress_hostname upstream))\<rparr>)"

definition install_config :: "'o dns_resolver_config \<Rightarrow> 'o dns_resolver_config" where
  "install_config c =
     (let install = \<lambda>u. install_egress_dialer
        (install_bootstrap_servers (rc_bootstrap_dns_servers c) u)
      in c\<lparr>rc_default_upstream := install (rc_default_upstream c),
           rc_upstream_groups := map (\<lambda>(name, u). (name, install u)) (rc_upstream_groups c),
           rc_group_configs := map (\<lambda>(name, grp).
             (name, grp\<lparr>gc_members := map install (gc_members grp)\<rparr>)) (rc_group_configs c)\<rparr>)"

definition single_member :: "dns_upstream_config \<Rightarrow> dns_upstream_group_config" where
  "single_member u = \<lparr>gc_members = [u], gc_selection = Sequential, gc_timeout = 0\<rparr>"

text \<open>The groups of the service: the single upstreams first, the group configurations over them.\<close>

definition make_upstream_groups ::
  "'o dns_resolver_config \<Rightarrow> (string, dns_upstream_group) umap" where
  "make_upstream_groups c =
     fold (\<lambda>(name, grp) m. um_assign name (new_upstream_group grp) m) (rc_group_configs c)
       (fold (\<lambda>(name, u) m. um_emplace name (new_upstream_group (single_member u)) m)
         (rc_upstream_groups c) [])"

definition is_builtin_default_group :: "string \<Rightarrow> bool" where
  "is_builtin_default_group grp \<longleftrightarrow>
     grp = [] \<or> grp = ''default'' \<or> grp = ''$default'' \<or> grp = ''system''"

section \<open>Validation\<close>

definition config_error :: "string \<Rightarrow> error" where
  "config_error t = mk_error Configuration t"

definition validate_named_outbound ::
  "('o \<Rightarrow> outbound_capabilities) \<Rightarrow> 'o outbound_registry option \<Rightarrow> dns_upstream_config \<Rightarrow> string \<Rightarrow>
     status" where
  "validate_named_outbound caps registry_opt upstream name =
     (let ident = dl_outbound_id (up_dial_policy upstream) in
      if dl_kind (up_dial_policy upstream) \<noteq> Dial_named_outbound then Inr ()
      else if ident = []
      then Inl (config_error (''named DNS outbound requires an outbound ID: '' @ name))
      else case registry_opt of
        None \<Rightarrow> Inl (config_error (''named DNS outbound requires an outbound registry: '' @ name))
      | Some registry \<Rightarrow>
          if ident \<notin> set (registry_ids registry)
          then Inl (config_error (''DNS upstream references an unknown outbound: '' @ ident))
          else
            let requirements = mode_requirements (up_mode upstream) in
            case capabilities caps registry ident of
              Inl e \<Rightarrow> Inl e
            | Inr c \<Rightarrow>
                if need_stream requirements \<and> \<not> cap_stream c \<or>
                   need_datagram requirements \<and> cap_datagram c = Dg_unsupported
                then Inl (config_error
                  (''DNS outbound lacks the required transport capability: '' @ ident))
                else Inr ())"

definition absolute_path :: "string \<Rightarrow> bool" where
  "absolute_path path \<longleftrightarrow> path \<noteq> [] \<and> hd path = CHR ''/''"

definition validate_upstream ::
  "('o \<Rightarrow> outbound_capabilities) \<Rightarrow> 'o dns_resolver_config \<Rightarrow> dns_upstream_config \<Rightarrow> string \<Rightarrow>
     status" where
  "validate_upstream caps c upstream name =
     (if ep_port (up_endpoint upstream) = 0 \<or>
         up_hostname upstream = [] \<and> is_unspecified (ep_address (up_endpoint upstream))
      then Inl (config_error (''DNS upstream has an invalid endpoint: '' @ name))
      else if up_timeout upstream \<le> 0
      then Inl (config_error (''DNS upstream has a non-positive timeout: '' @ name))
      else case validate_named_outbound caps (rc_outbound_registry c) upstream name of
        Inl e \<Rightarrow> Inl e
      | Inr _ \<Rightarrow>
      if (case up_tcp_endpoint upstream of Some e \<Rightarrow> ep_port e = 0 | None \<Rightarrow> False)
      then Inl (config_error (''DNS upstream has an invalid TCP endpoint: '' @ name))
      else if (case up_fallback_endpoint upstream of
                 Some e \<Rightarrow> is_unspecified (ep_address e) \<or> ep_port e = 0 | None \<Rightarrow> False)
      then Inl (config_error (''DNS upstream has an invalid fallback endpoint: '' @ name))
      else if (case up_fallback_tcp_endpoint upstream of Some e \<Rightarrow> ep_port e = 0 | None \<Rightarrow> False)
      then Inl (config_error (''DNS upstream has an invalid fallback TCP endpoint: '' @ name))
      else if up_mode upstream \<in> {Mode_doh1, Mode_doh2} \<and> \<not> absolute_path (up_doh_path upstream)
      then Inl (config_error (''DoH path must be an absolute path: '' @ name))
      else if up_mode upstream = Mode_doh3 \<and> \<not> absolute_path (up_doh_path upstream)
      then Inl (config_error (''DoH3 path must be an absolute path: '' @ name))
      else if dl_kind (up_dial_policy upstream) \<noteq> Dial_direct \<and> up_dialer upstream = None
      then Inl (config_error (''DNS upstream dial policy requires a dialer: '' @ name))
      else if dl_kind (up_dial_policy upstream) = Dial_traffic_rules \<and> rc_traffic_router c = None
      then Inl (config_error (''DNS traffic-rule egress requires a traffic router: '' @ name))
      else Inr ())"

fun validate_upstreams ::
  "('o \<Rightarrow> outbound_capabilities) \<Rightarrow> 'o dns_resolver_config \<Rightarrow> (string \<times> dns_upstream_config) list \<Rightarrow>
     status" where
  "validate_upstreams caps c [] = Inr ()"
| "validate_upstreams caps c ((name, upstream) # rest) =
     (if name = [] then Inl (config_error ''DNS upstream group name is required'')
      else case validate_upstream caps c upstream name of
        Inl e \<Rightarrow> Inl e
      | Inr _ \<Rightarrow> validate_upstreams caps c rest)"

fun validate_group_members ::
  "('o \<Rightarrow> outbound_capabilities) \<Rightarrow> 'o dns_resolver_config \<Rightarrow> string \<Rightarrow> dns_upstream_config list \<Rightarrow>
     status" where
  "validate_group_members caps c name [] = Inr ()"
| "validate_group_members caps c name (member # rest) =
     (case validate_upstream caps c member name of
        Inl e \<Rightarrow> Inl e
      | Inr _ \<Rightarrow> validate_group_members caps c name rest)"

fun validate_group_configs ::
  "('o \<Rightarrow> outbound_capabilities) \<Rightarrow> 'o dns_resolver_config \<Rightarrow>
     (string \<times> dns_upstream_group_config) list \<Rightarrow> status" where
  "validate_group_configs caps c [] = Inr ()"
| "validate_group_configs caps c ((name, grp) # rest) =
     (if name = [] then Inl (config_error ''DNS upstream group name is required'')
      else if gc_members grp = []
      then Inl (config_error (''DNS upstream group has no configured members: '' @ name))
      else case validate_group_members caps c name (gc_members grp) of
        Inl e \<Rightarrow> Inl e
      | Inr _ \<Rightarrow> validate_group_configs caps c rest)"

definition validate_policy_group :: "(string, dns_upstream_group) umap \<Rightarrow> string \<Rightarrow> status" where
  "validate_policy_group groups grp =
     (if is_builtin_default_group grp \<or> um_contains groups grp then Inr ()
      else Inl (config_error (''DNS policy selects missing upstream group: '' @ grp)))"

fun validate_policy_rules ::
  "(string, dns_upstream_group) umap \<Rightarrow> dns_policy_rule list \<Rightarrow> status" where
  "validate_policy_rules groups [] = Inr ()"
| "validate_policy_rules groups (rule # rest) =
     (if dp_value rule = []
      then Inl (config_error (''DNS policy rule value is required: '' @ dp_id rule))
      else if dp_upstream_group rule = []
      then Inl (config_error ''DNS policy rule selects an empty upstream group'')
      else case validate_policy_group groups (dp_upstream_group rule) of
        Inl e \<Rightarrow> Inl e
      | Inr _ \<Rightarrow> validate_policy_rules groups rest)"

text \<open>Run on the installed configuration and the groups made of it.\<close>

definition validate_resolver_config ::
  "('o \<Rightarrow> outbound_capabilities) \<Rightarrow> 'o dns_resolver_config \<Rightarrow> (string, dns_upstream_group) umap \<Rightarrow>
     status" where
  "validate_resolver_config caps c groups =
     (case (case rc_dependency_graph c of None \<Rightarrow> Inr () | Some g \<Rightarrow> validate_graph g) of
        Inl e \<Rightarrow> Inl e
      | Inr _ \<Rightarrow>
      case (case rc_outbound_registry c of None \<Rightarrow> Inr () | Some r \<Rightarrow> validate_registry r) of
        Inl e \<Rightarrow> Inl e
      | Inr _ \<Rightarrow>
      case (case rc_traffic_router c of
              None \<Rightarrow> Inr ()
            | Some t \<Rightarrow> validate t (case rc_outbound_registry c of
                None \<Rightarrow> [] | Some r \<Rightarrow> registry_ids r)) of
        Inl e \<Rightarrow> Inl e
      | Inr _ \<Rightarrow>
      case validate_upstream caps c (rc_default_upstream c) ''$default'' of
        Inl e \<Rightarrow> Inl e
      | Inr _ \<Rightarrow>
      case validate_upstreams caps c (rc_upstream_groups c) of
        Inl e \<Rightarrow> Inl e
      | Inr _ \<Rightarrow>
      case validate_group_configs caps c (rc_group_configs c) of
        Inl e \<Rightarrow> Inl e
      | Inr _ \<Rightarrow>
      (case rc_policy_router c of
        None \<Rightarrow> Inr ()
      | Some router \<Rightarrow>
          (case validate_policy_group groups (dr_default_upstream router) of
             Inl e \<Rightarrow> Inl e
           | Inr _ \<Rightarrow> validate_policy_rules groups (dr_rules router))))"

section \<open>Where a query goes\<close>

text \<open>
  The group \<^verbatim>\<open>query_on_owner\<close> asks for a name: \<open>None\<close> is the default grp; with it the name that
  enters the cache key.
\<close>

definition route_query ::
  "dns_policy_router option \<Rightarrow> (string, dns_upstream_group) umap \<Rightarrow> string \<Rightarrow>
     (string option \<times> string) res" where
  "route_query router_opt groups name =
     (case router_opt of
        None \<Rightarrow> Inr (None, ''$default'')
      | Some router \<Rightarrow>
          let grp = dd_upstream_group (select router name) in
          if um_contains groups grp then Inr (Some grp, grp)
          else if \<not> is_builtin_default_group grp
          then Inl (config_error (''DNS policy selected unknown upstream group: '' @ grp))
          else Inr (None, ''$default''))"

definition le_bytes :: "u64 \<Rightarrow> bytes" where
  "le_bytes w = rev (be_bytes 8 w)"

definition cache_key :: "dns_packet \<Rightarrow> string \<Rightarrow> u64 \<Rightarrow> bytes" where
  "cache_key query grp generation =
     (let wire = pk_wire query;
          key = (if length wire \<ge> 2 then wire[0 := 0, 1 := 0] else wire)
      in key @ le_bytes (word_of_nat (length grp)) @ bytes_of_string grp @ le_bytes generation)"

section \<open>How long a response is kept\<close>

definition soa_minimum :: "dns_resource_record \<Rightarrow> u32 option" where
  "soa_minimum rec =
     (case rr_soa rec of
        Some soa \<Rightarrow> Some (soa_minimum_ttl soa)
      | None \<Rightarrow>
          if length (rr_rdata rec) \<ge> 4
          then let d = rr_rdata rec; n = length d in
            Some (push_bit 24 (ucast (d ! (n - 4))) OR push_bit 16 (ucast (d ! (n - 3))) OR
                  push_bit 8 (ucast (d ! (n - 2))) OR ucast (last d))
          else None)"

fun negative_ttl :: "int \<Rightarrow> dns_resource_record list \<Rightarrow> int" where
  "negative_ttl ttl [] = ttl"
| "negative_ttl ttl (rec # rest) =
     (if rr_type rec \<noteq> type_soa then negative_ttl ttl rest
      else case soa_minimum rec of
        None \<Rightarrow> negative_ttl ttl rest
      | Some minimum \<Rightarrow> negative_ttl (min (min ttl (uint (rr_ttl rec))) (uint minimum)) rest)"

definition cache_ttl :: "dns_packet \<Rightarrow> int \<Rightarrow> int option" where
  "cache_ttl packet negative_cache_ttl =
     (if pk_response_code packet = 3 \<or> pk_response_code packet = 0 \<and> pk_answers packet = []
      then
        let ttl = negative_ttl negative_cache_ttl (pk_authorities packet) in
        if ttl \<le> 0 then None else Some ttl
      else if pk_response_code packet \<noteq> 0 \<or> pk_answers packet = [] then None
      else
        let ttl = fold (\<lambda>rec t. min t (rr_ttl rec)) (pk_answers packet) (- 1 :: u32) in
        if ttl = 0 \<or> ttl = - 1 then None else Some (uint ttl))"

section \<open>Reading the validation\<close>

lemma validate_upstreams_iff:
  "validate_upstreams caps c us = Inr () \<longleftrightarrow>
     (\<forall>(name, u)\<in>set us. name \<noteq> [] \<and> validate_upstream caps c u name = Inr ())"
  by (induction caps c us rule: validate_upstreams.induct) (auto split: sum.splits)

lemma validate_group_members_iff:
  "validate_group_members caps c name us = Inr () \<longleftrightarrow>
     (\<forall>u\<in>set us. validate_upstream caps c u name = Inr ())"
  by (induction caps c name us rule: validate_group_members.induct) (auto split: sum.splits)

lemma validate_group_configs_iff:
  "validate_group_configs caps c gs = Inr () \<longleftrightarrow>
     (\<forall>(name, g)\<in>set gs. name \<noteq> [] \<and> gc_members g \<noteq> [] \<and>
        (\<forall>u\<in>set (gc_members g). validate_upstream caps c u name = Inr ()))"
  by (induction caps c gs rule: validate_group_configs.induct)
    (auto simp: case_Inl_iff validate_group_members_iff)

lemma validate_policy_group_iff:
  "validate_policy_group gs g = Inr () \<longleftrightarrow> is_builtin_default_group g \<or> um_contains gs g"
  by (simp add: validate_policy_group_def)

lemma validate_policy_rules_iff:
  "validate_policy_rules gs rules = Inr () \<longleftrightarrow>
     (\<forall>r\<in>set rules. dp_value r \<noteq> [] \<and> dp_upstream_group r \<noteq> [] \<and>
        (is_builtin_default_group (dp_upstream_group r) \<or> um_contains gs (dp_upstream_group r)))"
  by (induction gs rules rule: validate_policy_rules.induct)
    (auto simp: case_Inl_iff validate_policy_group_iff)

text \<open>Every upstream the service may ask, the members of the groups included.\<close>

definition configured_upstreams :: "'o dns_resolver_config \<Rightarrow> dns_upstream_config set" where
  "configured_upstreams c =
     {rc_default_upstream c} \<union> snd ` set (rc_upstream_groups c) \<union>
     (\<Union>(name, g)\<in>set (rc_group_configs c). set (gc_members g))"

lemma validate_resolver_configD:
  assumes "validate_resolver_config caps c gs = Inr ()"
  shows "\<And>r. rc_outbound_registry c = Some r \<Longrightarrow> validate_registry r = Inr ()"
    and "u \<in> configured_upstreams c \<Longrightarrow> \<exists>name. validate_upstream caps c u name = Inr ()"
    and "\<And>router. rc_policy_router c = Some router \<Longrightarrow>
      validate_policy_group gs (dr_default_upstream router) = Inr () \<and>
      validate_policy_rules gs (dr_rules router) = Inr ()"
proof -
  have v: "validate_upstream caps c (rc_default_upstream c) ''$default'' = Inr ()"
    "validate_upstreams caps c (rc_upstream_groups c) = Inr ()"
    "validate_group_configs caps c (rc_group_configs c) = Inr ()"
    using assms by (auto simp: validate_resolver_config_def split: sum.splits)
  show "\<exists>name. validate_upstream caps c u name = Inr ()" if "u \<in> configured_upstreams c"
    using that v
    by (fastforce simp: configured_upstreams_def validate_upstreams_iff validate_group_configs_iff)
  show "validate_registry r = Inr ()" if "rc_outbound_registry c = Some r" for r
    using assms that by (auto simp: validate_resolver_config_def split: sum.splits)
  show "validate_policy_group gs (dr_default_upstream router) = Inr () \<and>
      validate_policy_rules gs (dr_rules router) = Inr ()" if "rc_policy_router c = Some router" for router
    using assms that by (auto simp: validate_resolver_config_def split: sum.splits)
qed

lemma validate_upstream_named:
  assumes "validate_upstream caps c u name = Inr ()" "dl_kind (up_dial_policy u) = Dial_named_outbound"
  obtains registry k where "rc_outbound_registry c = Some registry"
    "dl_outbound_id (up_dial_policy u) \<in> set (registry_ids registry)"
    "capabilities caps registry (dl_outbound_id (up_dial_policy u)) = Inr k"
    "need_stream (mode_requirements (up_mode u)) \<longrightarrow> cap_stream k"
    "need_datagram (mode_requirements (up_mode u)) \<longrightarrow> cap_datagram k \<noteq> Dg_unsupported"
proof -
  have "validate_named_outbound caps (rc_outbound_registry c) u name = Inr ()"
    using assms(1) by (auto simp: validate_upstream_def split: if_splits sum.splits)
  with assms(2) show ?thesis
    by (auto simp: validate_named_outbound_def Let_def split: if_splits option.splits sum.splits
        intro: that)
qed

lemma select_from_group:
  "dd_upstream_group (select_from d table name) \<in>
     insert d ((\<lambda>(r, v). dp_upstream_group r) ` set table)"
  by (induction d table name rule: select_from.induct) auto

lemma select_group:
  "dd_upstream_group (select router name) \<in>
     insert (dr_default_upstream router) (dp_upstream_group ` set (dr_rules router))"
  using select_from_group [of "dr_default_upstream router"
      "zip (dr_rules router) (dr_normalized_values router)" "normalize_name name"]
  by (auto simp: select_def dest: set_zip_leftD)

section \<open>Reading the cache key\<close>

lemma length_le_bytes [simp]: "length (le_bytes w) = 8"
  by (simp add: le_bytes_def)

lemma le_bytes_inject [simp]: "le_bytes v = le_bytes w \<longleftrightarrow> v = w"
  by (simp add: le_bytes_def be_bytes_inject)

lemma le_bytes_last:
  assumes "n < 2 ^ 56"
  shows "\<exists>low. le_bytes (word_of_nat n) = low @ [0]"
proof -
  have "drop_bit 56 n = 0" using assms by (simp add: drop_bit_eq_div)
  have d: "drop_bit 56 (word_of_nat n :: u64) = 0"
  proof (rule bit_word_eqI)
    fix k assume "k < LENGTH(64)"
    have "\<not> bit n (56 + k)"
      using assms by (simp add: bit_iff_odd power_add div_mult2_eq)
    then show "bit (drop_bit 56 (word_of_nat n :: u64)) k = bit (0 :: u64) k"
      by (simp add: bit_simps)
  qed
  have "be_bytes 8 (word_of_nat n :: u64) = 0 # be_bytes 7 (word_of_nat n :: u64)"
    using be_bytes_Suc [of 7 "word_of_nat n :: u64"] d by simp
  then show ?thesis by (simp add: le_bytes_def)
qed

lemma split_at_last_zero:
  fixes g g' :: bytes
  assumes "xs @ 0 # g = ys @ 0 # g'" "0 \<notin> set g" "0 \<notin> set g'"
  shows "xs = ys \<and> g = g'"
proof -
  have t: "takeWhile (\<lambda>b. b \<noteq> 0) (rev zs @ 0 # r) = rev zs" if "0 \<notin> set zs" for zs r :: bytes
    using that by (induction zs rule: rev_induct) auto
  have "rev g @ 0 # rev xs = rev g' @ 0 # rev ys"
    using arg_cong [OF assms(1), of rev] by simp
  with t [OF assms(2), of "rev xs"] t [OF assms(3), of "rev ys"] have "g = g'" by simp
  with assms(1) show ?thesis by simp
qed

text \<open>A group name that the key separates from the rest: no NUL in it, and of a possible length.\<close>

definition group_name_ok :: "string \<Rightarrow> bool" where
  "group_name_ok g \<longleftrightarrow> CHR 0x00 \<notin> set g \<and> length g < 2 ^ 56"

lemma zero_not_in_bytes: "CHR 0x00 \<notin> set g \<Longrightarrow> 0 \<notin> set (bytes_of_string g)"
proof
  assume "CHR 0x00 \<notin> set g" "0 \<in> set (bytes_of_string g)"
  then obtain c where "c \<in> set g" "byte_of_char c = 0" by (auto simp: bytes_of_string_def)
  then have "c = char_of_byte 0" by (metis char_of_byte_of_char)
  moreover have "char_of_byte 0 = CHR 0x00" by code_simp
  ultimately show False using \<open>c \<in> set g\<close> \<open>CHR 0x00 \<notin> set g\<close> by simp
qed

lemma zeroed_id:
  "length w \<ge> 2 \<Longrightarrow> w[0 := 0, 1 := 0] = 0 # 0 # drop 2 w"
  by (cases w; cases "tl w") (auto simp: numeral_2_eq_2)

section \<open>Properties\<close>

text \<open>Two queries have the same cache key exactly when their messages differ in nothing but
  the transaction ID, they go to the same group, and the service generation is the same; so nothing
  else is ever shared by the cache or by a coalesced exchange. Group names are taken without NUL
  characters: the key writes the size of the name in front of it but not that of the message.\<close>
theorem cache_key_eq_iff:
  assumes "length (pk_wire p) \<ge> 12" "length (pk_wire q) \<ge> 12" "group_name_ok g" "group_name_ok h"
  shows "cache_key p g m = cache_key q h n \<longleftrightarrow>
    drop 2 (pk_wire p) = drop 2 (pk_wire q) \<and> g = h \<and> m = n"
proof
  obtain low where low: "le_bytes (word_of_nat (length g)) = low @ [0]"
    using le_bytes_last assms(3) by (auto simp: group_name_ok_def)
  obtain low' where low': "le_bytes (word_of_nat (length h)) = low' @ [0]"
    using le_bytes_last assms(4) by (auto simp: group_name_ok_def)
  assume k: "cache_key p g m = cache_key q h n"
  let ?w = "\<lambda>p. (pk_wire p)[0 := 0, 1 := 0]"
  let ?a = "(?w p @ low) @ 0 # bytes_of_string g" and ?b = "(?w q @ low') @ 0 # bytes_of_string h"
  have k: "?a @ le_bytes m = ?b @ le_bytes n"
    using k assms(1,2) low low' by (simp add: cache_key_def Let_def)
  then have ab: "?a = ?b" and "le_bytes m = le_bytes n"
    by (simp_all only: append_eq_append_conv [OF disjI2, OF length_le_bytes
        [of m, folded length_le_bytes [of n]]])
  then have m: "m = n" by simp
  with ab split_at_last_zero [of "?w p @ low" "bytes_of_string g" "?w q @ low'" "bytes_of_string h"]
    zero_not_in_bytes assms(3,4)
  have g: "g = h" and "?w p @ low = ?w q @ low'" by (auto simp: group_name_ok_def)
  with low low' have "?w p = ?w q" by simp
  with zeroed_id [of "pk_wire p"] zeroed_id [of "pk_wire q"] assms(1,2)
  have "drop 2 (pk_wire p) = drop 2 (pk_wire q)" by simp
  with m g show "drop 2 (pk_wire p) = drop 2 (pk_wire q) \<and> g = h \<and> m = n" by simp
next
  assume "drop 2 (pk_wire p) = drop 2 (pk_wire q) \<and> g = h \<and> m = n"
  moreover have "(pk_wire p)[0 := 0, 1 := 0] = 0 # 0 # drop 2 (pk_wire p)"
    "(pk_wire q)[0 := 0, 1 := 0] = 0 # 0 # drop 2 (pk_wire q)"
    using assms(1,2) zeroed_id [of "pk_wire p"] zeroed_id [of "pk_wire q"] by simp_all
  ultimately show "cache_key p g m = cache_key q h n"
    using assms(1,2) by (simp add: cache_key_def Let_def)
qed

lemma fold_min_ttl:
  "fold (\<lambda>rec t. min t (rr_ttl rec)) rs t0 = (Min (insert t0 (rr_ttl ` set rs)) :: u32)"
proof (induction rs arbitrary: t0)
  case (Cons r rs)
  have "Min (insert (min t0 (rr_ttl r)) (rr_ttl ` set rs)) =
      Min (insert t0 (insert (rr_ttl r) (rr_ttl ` set rs)))"
    by (cases "set rs = {}") (auto simp: min.assoc)
  with Cons show ?case by simp
qed simp

lemma negative_ttl_le:
  "negative_ttl ttl rs \<le> ttl \<and>
   (\<forall>rec\<in>set rs. \<forall>minimum. rr_type rec = type_soa \<and> soa_minimum rec = Some minimum \<longrightarrow>
      negative_ttl ttl rs \<le> uint (rr_ttl rec) \<and> negative_ttl ttl rs \<le> uint minimum)"
proof (induction ttl rs rule: negative_ttl.induct)
  case (2 ttl rec rest)
  show ?case
  proof (cases "rr_type rec = type_soa \<and> soa_minimum rec \<noteq> None")
    case False
    then have "negative_ttl ttl (rec # rest) = negative_ttl ttl rest"
      by (auto split: option.split)
    with False 2 show ?thesis by (cases "rr_type rec = type_soa") auto
  next
    case True
    then obtain m where m: "soa_minimum rec = Some m" by auto
    with True "2.IH"(3) [of m] show ?thesis by auto
  qed
qed simp

text \<open>A response is cached for a positive time only, and never longer than its records allow:
  a positive one for the smallest TTL of its answers, a name error or an empty answer for at most the
  configured negative TTL, the TTL and the minimum of each SOA record of its authority section; other
  errors are never cached.\<close>
theorem cache_ttl_bounds:
  assumes "cache_ttl p negative = Some t"
  shows "0 < t \<and> pk_response_code p \<in> {0, 3} \<and>
    (if pk_response_code p = 0 \<and> pk_answers p \<noteq> []
     then t = uint (Min (rr_ttl ` set (pk_answers p))) \<and>
       (\<forall>rec\<in>set (pk_answers p). t \<le> uint (rr_ttl rec))
     else t \<le> negative \<and>
       (\<forall>rec\<in>set (pk_authorities p). \<forall>minimum.
          rr_type rec = type_soa \<and> soa_minimum rec = Some minimum \<longrightarrow>
          t \<le> uint (rr_ttl rec) \<and> t \<le> uint minimum))"
proof (cases "pk_response_code p = 3 \<or> pk_response_code p = 0 \<and> pk_answers p = []")
  case True
  with assms negative_ttl_le [of negative "pk_authorities p"] show ?thesis
    by (auto simp: cache_ttl_def Let_def split: if_splits)
next
  case False
  let ?m = "fold (\<lambda>rec t. min t (rr_ttl rec)) (pk_answers p) (- 1 :: u32)"
  have c: "pk_response_code p = 0" "pk_answers p \<noteq> []" "?m \<noteq> 0" "?m \<noteq> - 1" "t = uint ?m"
    using assms False by (auto simp: cache_ttl_def Let_def split: if_splits)
  have "?m = min (- 1) (Min (rr_ttl ` set (pk_answers p)))"
    using c(2) by (simp only: fold_min_ttl) simp
  then have m: "?m = Min (rr_ttl ` set (pk_answers p))"
    using word_n1_ge [of "Min (rr_ttl ` set (pk_answers p))"] by (simp add: min_def)
  have "0 < t" using c(3,5) by (metis uint_0_iff uint_ge_0 order_le_imp_less_or_eq)
  moreover have "?m \<le> rr_ttl rec" if "rec \<in> set (pk_answers p)" for rec
    using that by (simp add: m)
  ultimately show ?thesis using c m by (auto simp: word_le_def)
qed

text \<open>With a configuration that passed validation every name is routed to a group the service
  has: the query path never reports an unknown upstream group.\<close>
theorem validated_policy_routes:
  assumes "validate_resolver_config caps c gs = Inr ()"
  shows "\<exists>target key_name. route_query (rc_policy_router c) gs name = Inr (target, key_name) \<and>
    (case target of None \<Rightarrow> key_name = ''$default''
     | Some g \<Rightarrow> key_name = g \<and> um_contains gs g)"
proof (cases "rc_policy_router c")
  case None
  then show ?thesis by (simp add: route_query_def)
next
  case (Some router)
  have "is_builtin_default_group g \<or> um_contains gs g"
    if "g \<in> insert (dr_default_upstream router) (dp_upstream_group ` set (dr_rules router))" for g
    using that validate_resolver_configD(3) [OF assms Some]
    by (auto simp: validate_policy_group_iff validate_policy_rules_iff)
  from this [OF select_group [of router name]] Some show ?thesis
    by (auto simp: route_query_def Let_def)
qed

text \<open>With a configuration that passed validation an upstream that dials through a named
  outbound can always be dialed: the registry selects an outbound for the name, and the outbound
  offers the streams and datagrams the transport mode of the upstream needs.\<close>
theorem validated_upstream_dialable:
  assumes "validate_resolver_config caps c gs = Inr ()"
    and "rc_outbound_registry c = Some (registry_of calls)"
    and "u \<in> configured_upstreams c" "dl_kind (up_dial_policy u) = Dial_named_outbound"
  shows "\<exists>out r'. select_outbound (registry_of calls) (dl_outbound_id (up_dial_policy u)) = (Inr out, r') \<and>
    (need_stream (mode_requirements (up_mode u)) \<longrightarrow> cap_stream (caps out)) \<and>
    (need_datagram (mode_requirements (up_mode u)) \<longrightarrow> cap_datagram (caps out) \<noteq> Dg_unsupported)"
proof -
  let ?r = "registry_of calls" and ?id = "dl_outbound_id (up_dial_policy u)"
  obtain name where "validate_upstream caps c u name = Inr ()"
    using validate_resolver_configD(2) [OF assms(1,3)] by blast
  then obtain k where k: "?id \<in> set (registry_ids ?r)" "capabilities caps ?r ?id = Inr k"
    "need_stream (mode_requirements (up_mode u)) \<longrightarrow> cap_stream k"
    "need_datagram (mode_requirements (up_mode u)) \<longrightarrow> cap_datagram k \<noteq> Dg_unsupported"
    using assms(2,4) by (auto elim: validate_upstream_named)
  have g: "grounded (registry_succs ?r) ?id"
    using validate_resolver_configD(1) [OF assms(1,2)] k(1)
    by (simp add: validate_registry_grounded known_entry [symmetric] del: domIff)
  have "\<And>x ms. um_find (or_groups ?r) x = Some ms \<Longrightarrow> ms \<noteq> []"
    using registry_wf_of [of calls] by (simp add: registry_wf_def)
  with g obtain out cs where sel: "select_entry ?r ?id [] (or_next_member ?r) = (Inr out, cs)"
    using select_complete [of ?r ?id "[]" "or_next_member ?r"] by auto
  have "promised_by caps (leads_to ?r ?id) k"
    using capabilities_grounded(1) [OF g, of "[]" caps] k(2) by (simp add: capabilities_def)
  moreover have "out \<in> leads_to ?r ?id" using select_sound(1) [OF sel] by simp
  ultimately have "(cap_stream k \<longrightarrow> cap_stream (caps out)) \<and>
      (cap_datagram k \<noteq> Dg_unsupported \<longrightarrow> cap_datagram (caps out) \<noteq> Dg_unsupported)"
    by (auto simp: promised_by_def)
  with sel k(3,4) show ?thesis by (auto simp: select_outbound_def)
qed

section \<open>Witnesses\<close>

definition sample_message :: "byte \<Rightarrow> dns_packet" where
  "sample_message ident = default_packet\<lparr>pk_wire := [ident, 7, 1, 0, 0, 1, 0, 0, 0, 0, 0, 0]\<rparr>"

theorem cache_key_eq_iff_witness:
  "cache_key (sample_message 1) ''a'' 3 = cache_key (sample_message 2) ''a'' 3 \<and>
   cache_key (sample_message 1) ''a'' 3 \<noteq> cache_key (sample_message 1) ''b'' 3"
proof -
  have "length (pk_wire (sample_message i)) \<ge> 12" for i by (simp add: sample_message_def)
  moreover have "group_name_ok ''a''" "group_name_ok ''b''" by (simp_all add: group_name_ok_def)
  ultimately show ?thesis by (simp add: cache_key_eq_iff) (simp add: sample_message_def)
qed

definition sample_positive :: dns_packet where
  "sample_positive = default_packet\<lparr>pk_flags := 0x8000,
     pk_answers := [default_rr\<lparr>rr_ttl := 300\<rparr>, default_rr\<lparr>rr_ttl := 60\<rparr>]\<rparr>"

theorem cache_ttl_bounds_witness: "cache_ttl sample_positive 5 = Some 60 \<and> (60 :: int) \<le> 300"
proof -
  have c: "cache_ttl sample_positive 5 = Some 60" by code_simp
  from cache_ttl_bounds [OF c] have "\<forall>rec\<in>set (pk_answers sample_positive). 60 \<le> uint (rr_ttl rec)"
    by (auto simp: sample_positive_def default_packet_def pk_response_code_def split: if_splits)
  with c show ?thesis by (simp add: sample_positive_def)
qed

definition sample_registry :: "nat outbound_registry" where
  "sample_registry = registry_of [Call_add_outbound ''vpn'' (Some 1)]"

definition sample_caps :: "nat \<Rightarrow> outbound_capabilities" where
  "sample_caps out = default_capabilities\<lparr>cap_stream := True, cap_datagram := Fixed_destination\<rparr>"

definition sample_named :: dns_upstream_config where
  "sample_named = default_upstream_config\<lparr>up_endpoint := \<lparr>ep_address = V4 8, ep_port = 53\<rparr>,
     up_dial_policy := \<lparr>dl_kind = Dial_named_outbound, dl_outbound_id = ''vpn''\<rparr>\<rparr>"

definition sample_config :: "nat dns_resolver_config" where
  "sample_config = install_config ((default_resolver_config sample_named)\<lparr>
     rc_upstream_groups := [(''corp'', sample_named)],
     rc_outbound_registry := Some sample_registry,
     rc_policy_router := Some (build_policy_router ''system''
       [sample_suffix_rule ''corp.example'' ''corp''])\<rparr>)"

lemma sample_config_valid:
  "validate_resolver_config sample_caps sample_config (make_upstream_groups sample_config) = Inr ()"
  by code_simp

theorem validated_policy_routes_witness:
  "\<exists>target key_name. route_query (rc_policy_router sample_config)
      (make_upstream_groups sample_config) ''www.corp.example'' = Inr (target, key_name)"
  using validated_policy_routes [OF sample_config_valid, of "''www.corp.example''"] by blast

theorem validated_upstream_dialable_witness:
  "\<exists>out r'. select_outbound sample_registry ''vpn'' = (Inr out, r') \<and> cap_stream (sample_caps out)"
proof -
  let ?u = "rc_default_upstream sample_config"
  have "rc_outbound_registry sample_config = Some (registry_of [Call_add_outbound ''vpn'' (Some 1)])"
    by (simp add: sample_config_def install_config_def Let_def default_resolver_config_def sample_registry_def)
  moreover have "dl_kind (up_dial_policy ?u) = Dial_named_outbound"
    "dl_outbound_id (up_dial_policy ?u) = ''vpn''" "need_stream (mode_requirements (up_mode ?u))"
    by code_simp+
  moreover have "?u \<in> configured_upstreams sample_config" by (simp add: configured_upstreams_def)
  ultimately show ?thesis
    using validated_upstream_dialable [OF sample_config_valid, of "[Call_add_outbound ''vpn'' (Some 1)]" ?u]
    by (auto simp: sample_registry_def)
qed

end
