(* ===== verification/Dns_Query_Service.thy ===== *)
theory Dns_Query_Service
  imports Dns_Query_Config "HOL-Library.Multiset"
begin

text \<open>
  \<^verbatim>\<open>src/dns/dns_query_service.cpp\<close>: the query service as a state machine. Work the code posts to
  the owner's serialized executor waits in \<open>qs_mailbox\<close> and is run in order; a completion posted to
  a handler is appended to \<open>qs_deliveries\<close>. Handlers are abstract values \<open>'h\<close>, executors numbers.
  An operation is a shared object: operations live in the list \<open>qs_operations\<close> and are referred to
  by their position; a weak reference never dangles before its operation completed, and the code
  finds no waiter of a completed one. Exchanges end by an event, with whatever result. Times are
  nanoseconds; request IDs are the 64-bit words of the atomic counter.
\<close>

section \<open>State\<close>

record 'h waiter =
  wt_id :: u64
  wt_response_id :: u16
  wt_handler :: 'h
  wt_scheduler :: "nat option"

record 'h operation =
  op_key :: bytes
  op_packet :: dns_packet
  op_upstream :: "string option"
  op_waiters :: "'h waiter list"
  op_completed :: bool
  op_exchanging :: bool  \<comment> \<open>the exchange task has not ended\<close>

record cache_entry =
  ce_packet :: dns_packet
  ce_expires :: int

record 'h delivery =
  dv_handler :: 'h
  dv_scheduler :: "nat option"
  dv_result :: "dns_packet res"

datatype 'h service_task =
    Task_query u64 dns_packet 'h "nat option"
  | Task_cancel u64
  | Task_finish nat "dns_packet res"
  | Task_clear
  | Task_stop

record ('o, 'h) query_service =
  qs_config :: "'o dns_resolver_config"
  qs_groups :: "(string, dns_upstream_group) umap"
  qs_default_group :: dns_upstream_group
  qs_groups_stopped :: bool
  qs_cache :: "(bytes, cache_entry) umap"
  qs_cache_lru :: "bytes list"
  qs_cache_size :: nat
  qs_in_flight :: "(bytes, nat) umap"
  qs_requests :: "(u64, nat) umap"
  qs_operations :: "'h operation list"
  qs_callback_gate :: bool
  qs_next_request_id :: u64
  qs_stopped :: bool
  qs_mailbox :: "'h service_task list"
  qs_deliveries :: "'h delivery list"

definition new_query_service :: "'o dns_resolver_config \<Rightarrow> ('o, 'h) query_service" where
  "new_query_service config =
     (let c = install_config config in
      \<lparr>qs_config = c, qs_groups = make_upstream_groups c,
       qs_default_group = new_upstream_group (single_member (rc_default_upstream c)),
       qs_groups_stopped = False, qs_cache = [], qs_cache_lru = [], qs_cache_size = 0,
       qs_in_flight = [], qs_requests = [], qs_operations = [], qs_callback_gate = True,
       qs_next_request_id = 1, qs_stopped = False, qs_mailbox = [], qs_deliveries = []\<rparr>)"

section \<open>Operations\<close>

definition cancelled_error :: error where
  "cancelled_error = mk_error Cancelled ''DNS query was cancelled''"

definition add_waiter :: "u64 \<Rightarrow> u16 \<Rightarrow> 'h \<Rightarrow> nat option \<Rightarrow> 'h operation \<Rightarrow> 'h operation" where
  "add_waiter ident response_id handler scheduler oper =
     oper\<lparr>op_waiters := op_waiters oper @ [\<lparr>wt_id = ident, wt_response_id = response_id,
       wt_handler = handler, wt_scheduler = scheduler\<rparr>]\<rparr>"

fun remove_first :: "('a \<Rightarrow> bool) \<Rightarrow> 'a list \<Rightarrow> ('a \<times> 'a list) option" where
  "remove_first P [] = None"
| "remove_first P (x # xs) =
     (if P x then Some (x, xs)
      else case remove_first P xs of None \<Rightarrow> None | Some (y, ys) \<Rightarrow> Some (y, x # ys))"

definition remove_waiter :: "u64 \<Rightarrow> 'h operation \<Rightarrow> ('h waiter \<times> 'h operation) option" where
  "remove_waiter ident oper =
     (case remove_first (\<lambda>w. wt_id w = ident) (op_waiters oper) of
        None \<Rightarrow> None
      | Some (w, rest) \<Rightarrow> Some (w, oper\<lparr>op_waiters := rest\<rparr>))"

definition set_operation :: "nat \<Rightarrow> 'h operation \<Rightarrow> ('o, 'h) query_service \<Rightarrow> ('o, 'h) query_service" where
  "set_operation i oper s = s\<lparr>qs_operations := (qs_operations s)[i := oper]\<rparr>"

definition post_task :: "'h service_task \<Rightarrow> ('o, 'h) query_service \<Rightarrow> ('o, 'h) query_service" where
  "post_task task s = s\<lparr>qs_mailbox := qs_mailbox s @ [task]\<rparr>"

definition post_completion ::
  "'h \<Rightarrow> nat option \<Rightarrow> dns_packet res \<Rightarrow> ('o, 'h) query_service \<Rightarrow> ('o, 'h) query_service" where
  "post_completion handler scheduler result s =
     s\<lparr>qs_deliveries := qs_deliveries s @
       [\<lparr>dv_handler = handler, dv_scheduler = scheduler, dv_result = result\<rparr>]\<rparr>"

definition packet_result :: "dns_packet \<Rightarrow> u16 \<Rightarrow> dns_packet res" where
  "packet_result packet response_id =
     (case rewrite_id packet response_id of
        Inl e \<Rightarrow> Inl e
      | Inr wire \<Rightarrow> Inr (packet\<lparr>pk_wire := wire, pk_id := response_id\<rparr>))"

definition post_packet ::
  "'h \<Rightarrow> nat option \<Rightarrow> dns_packet \<Rightarrow> u16 \<Rightarrow> ('o, 'h) query_service \<Rightarrow> ('o, 'h) query_service" where
  "post_packet handler scheduler packet response_id s =
     post_completion handler scheduler (packet_result packet response_id) s"

definition one_second :: int where
  "one_second = 1000000000"

text \<open>\<^verbatim>\<open>while (cache_.size() >= capacity && !cache_lru_.empty())\<close>, the oldest key is at the back.\<close>

function evict ::
  "nat \<Rightarrow> (bytes, cache_entry) umap \<Rightarrow> bytes list \<Rightarrow> (bytes, cache_entry) umap \<times> bytes list" where
  "evict capacity cache lru =
     (if length cache \<ge> capacity \<and> lru \<noteq> []
      then evict capacity (um_erase (last lru) cache) (butlast lru) else (cache, lru))"
  by pat_completeness auto

termination
  by (relation "measure (\<lambda>(_, _, lru). length lru)") auto

declare evict.simps [simp del]

definition store_response ::
  "int \<Rightarrow> bytes \<Rightarrow> dns_packet \<Rightarrow> ('o, 'h) query_service \<Rightarrow> ('o, 'h) query_service" where
  "store_response now key packet s =
     (case cache_ttl packet (rc_negative_cache_ttl (qs_config s)) of
        None \<Rightarrow> s
      | Some ttl \<Rightarrow>
          if rc_cache_capacity (qs_config s) > 0
          then
            let (cache, lru) =
                  (if um_contains (qs_cache s) key
                   then (um_erase key (qs_cache s), remove1 key (qs_cache_lru s))
                   else (qs_cache s, qs_cache_lru s));
                (cache, lru) = evict (rc_cache_capacity (qs_config s)) cache lru;
                cache = um_emplace key
                  \<lparr>ce_packet = packet, ce_expires = now + ttl * one_second\<rparr> cache
            in s\<lparr>qs_cache := cache, qs_cache_lru := key # lru, qs_cache_size := length cache\<rparr>
          else s)"

fun deliver_waiters ::
  "dns_packet res \<Rightarrow> 'h waiter list \<Rightarrow> ('o, 'h) query_service \<Rightarrow> ('o, 'h) query_service" where
  "deliver_waiters result [] s = s"
| "deliver_waiters result (w # ws) s =
     deliver_waiters result ws
       (case result of
          Inl e \<Rightarrow> post_completion (wt_handler w) (wt_scheduler w) (Inl e) s
        | Inr packet \<Rightarrow> post_packet (wt_handler w) (wt_scheduler w) packet (wt_response_id w) s)"

definition complete ::
  "int \<Rightarrow> nat \<Rightarrow> dns_packet res \<Rightarrow> ('o, 'h) query_service \<Rightarrow> ('o, 'h) query_service" where
  "complete now i result s =
     (let oper = qs_operations s ! i;
          s = (if um_find (qs_in_flight s) (op_key oper) = Some i
               then s\<lparr>qs_in_flight := um_erase (op_key oper) (qs_in_flight s)\<rparr> else s);
          s = (case result of Inl _ \<Rightarrow> s | Inr packet \<Rightarrow> store_response now (op_key oper) packet s);
          waiters = op_waiters oper;
          s = set_operation i (oper\<lparr>op_waiters := []\<rparr>) s;
          s = s\<lparr>qs_requests := fold (\<lambda>w m. um_erase (wt_id w) m) waiters (qs_requests s)\<rparr>
      in deliver_waiters result waiters s)"

definition cancel_shared :: "int \<Rightarrow> nat \<Rightarrow> ('o, 'h) query_service \<Rightarrow> ('o, 'h) query_service" where
  "cancel_shared now i s =
     (let oper = qs_operations s ! i in
      if op_completed oper then s
      else complete now i (Inl cancelled_error)
             (set_operation i (oper\<lparr>op_completed := True\<rparr>) s))"

definition finish :: "int \<Rightarrow> nat \<Rightarrow> dns_packet res \<Rightarrow> ('o, 'h) query_service \<Rightarrow> ('o, 'h) query_service" where
  "finish now i result s =
     (let oper = qs_operations s ! i in
      if op_completed oper then s
      else complete now i result (set_operation i (oper\<lparr>op_completed := True\<rparr>) s))"

definition drop_cached :: "bytes \<Rightarrow> ('o, 'h) query_service \<Rightarrow> ('o, 'h) query_service" where
  "drop_cached key s =
     (if um_contains (qs_cache s) key
      then s\<lparr>qs_cache_lru := remove1 key (qs_cache_lru s),
             qs_cache := um_erase key (qs_cache s),
             qs_cache_size := length (um_erase key (qs_cache s))\<rparr>
      else s)"

definition join_operation ::
  "nat \<Rightarrow> u64 \<Rightarrow> u16 \<Rightarrow> 'h \<Rightarrow> nat option \<Rightarrow> ('o, 'h) query_service \<Rightarrow> ('o, 'h) query_service" where
  "join_operation i request_id response_id handler scheduler s =
     (set_operation i (add_waiter request_id response_id handler scheduler (qs_operations s ! i)) s)
       \<lparr>qs_requests := um_assign request_id i (qs_requests s)\<rparr>"

definition start_operation ::
  "bytes \<Rightarrow> dns_packet \<Rightarrow> string option \<Rightarrow> u64 \<Rightarrow> 'h \<Rightarrow> nat option \<Rightarrow>
     ('o, 'h) query_service \<Rightarrow> ('o, 'h) query_service" where
  "start_operation key packet upstream request_id handler scheduler s =
     (let i = length (qs_operations s);
          oper = add_waiter request_id (pk_id packet) handler scheduler
            \<lparr>op_key = key, op_packet = packet, op_upstream = upstream, op_waiters = [],
             op_completed = False, op_exchanging = True\<rparr>
      in s\<lparr>qs_operations := qs_operations s @ [oper],
           qs_in_flight := um_emplace key i (qs_in_flight s),
           qs_requests := um_assign request_id i (qs_requests s)\<rparr>)"

definition fresh_entry :: "int \<Rightarrow> bytes \<Rightarrow> ('o, 'h) query_service \<Rightarrow> cache_entry option" where
  "fresh_entry now key s =
     (case um_find (qs_cache s) key of
        None \<Rightarrow> None
      | Some e \<Rightarrow> if ce_expires e > now then Some e else None)"

definition serve_query ::
  "int \<Rightarrow> bytes \<Rightarrow> dns_packet \<Rightarrow> string option \<Rightarrow> u64 \<Rightarrow> 'h \<Rightarrow> nat option \<Rightarrow>
     ('o, 'h) query_service \<Rightarrow> ('o, 'h) query_service" where
  "serve_query now key packet upstream request_id handler scheduler s =
     (case fresh_entry now key s of
        Some e \<Rightarrow>
          post_packet handler scheduler (ce_packet e) (pk_id packet)
            (s\<lparr>qs_cache_lru := key # remove1 key (qs_cache_lru s)\<rparr>)
      | None \<Rightarrow>
          let s = drop_cached key s in
          case um_find (qs_in_flight s) key of
            Some i \<Rightarrow> join_operation i request_id (pk_id packet) handler scheduler s
          | None \<Rightarrow> start_operation key packet upstream request_id handler scheduler s)"

definition query_on_owner ::
  "int \<Rightarrow> u64 \<Rightarrow> dns_packet \<Rightarrow> 'h \<Rightarrow> nat option \<Rightarrow> ('o, 'h) query_service \<Rightarrow> ('o, 'h) query_service" where
  "query_on_owner now request_id packet0 handler scheduler s =
     (if qs_stopped s then post_completion handler scheduler (Inl cancelled_error) s
      else if pk_response packet0 \<or> length (pk_questions packet0) \<noteq> 1 \<or> length (pk_wire packet0) < 12
      then post_completion handler scheduler
             (Inl (mk_error Protocol_framing ''DNS query must contain one question'')) s
      else
        let question = hd (pk_questions packet0);
            question = question\<lparr>q_name := normalize_name (q_name question)\<rparr>;
            packet = packet0\<lparr>pk_questions := (pk_questions packet0)[0 := question]\<rparr>
        in case route_query (rc_policy_router (qs_config s)) (qs_groups s) (q_name question) of
          Inl e \<Rightarrow> post_completion handler scheduler (Inl e) s
        | Inr (upstream, upstream_group) \<Rightarrow>
          serve_query now (cache_key packet upstream_group (rc_cache_generation (qs_config s)))
            packet upstream request_id handler scheduler s)"

definition cancel_on_owner :: "int \<Rightarrow> u64 \<Rightarrow> ('o, 'h) query_service \<Rightarrow> ('o, 'h) query_service" where
  "cancel_on_owner now request_id s =
     (case um_find (qs_requests s) request_id of
        None \<Rightarrow> s
      | Some i \<Rightarrow>
          let s = s\<lparr>qs_requests := um_erase request_id (qs_requests s)\<rparr> in
          case remove_waiter request_id (qs_operations s ! i) of
            None \<Rightarrow> s
          | Some (w, oper) \<Rightarrow>
              let s = post_completion (wt_handler w) (wt_scheduler w) (Inl cancelled_error)
                        (set_operation i oper s)
              in if op_waiters oper = [] then cancel_shared now i s else s)"

text \<open>\<^verbatim>\<open>while (!in_flight_.empty()) in_flight_.begin()->second->cancel_shared()\<close>.\<close>

partial_function (option) cancel_all ::
  "int \<Rightarrow> ('o, 'h) query_service \<Rightarrow> ('o, 'h) query_service option" where
  "cancel_all now s =
     (case qs_in_flight s of
        [] \<Rightarrow> Some s
      | (key, i) # _ \<Rightarrow> cancel_all now (cancel_shared now i s))"

declare cancel_all.simps [code]

definition stop_on_owner :: "int \<Rightarrow> ('o, 'h) query_service \<Rightarrow> ('o, 'h) query_service option" where
  "stop_on_owner now s =
     map_option (\<lambda>s. s\<lparr>qs_in_flight := [], qs_requests := [], qs_groups_stopped := True\<rparr>)
       (cancel_all now s)"

definition clear_now :: "('o, 'h) query_service \<Rightarrow> ('o, 'h) query_service" where
  "clear_now s = s\<lparr>qs_cache := [], qs_cache_lru := [], qs_cache_size := 0\<rparr>"

section \<open>The calls and the executor\<close>

text \<open>A call made while the runtime does not run is served at once, otherwise it is posted.\<close>

definition query ::
  "bool \<Rightarrow> int \<Rightarrow> dns_packet \<Rightarrow> 'h \<Rightarrow> nat option \<Rightarrow> ('o, 'h) query_service \<Rightarrow>
     u64 \<times> ('o, 'h) query_service" where
  "query running now packet handler scheduler s =
     (let request_id = qs_next_request_id s;
          s = s\<lparr>qs_next_request_id := request_id + 1\<rparr>
      in (request_id,
          if \<not> running then query_on_owner now request_id packet handler scheduler s
          else post_task (Task_query request_id packet handler scheduler) s))"

definition cancel :: "bool \<Rightarrow> int \<Rightarrow> u64 \<Rightarrow> ('o, 'h) query_service \<Rightarrow> ('o, 'h) query_service" where
  "cancel running now request_id s =
     (if \<not> running then cancel_on_owner now request_id s else post_task (Task_cancel request_id) s)"

definition stop_service ::
  "bool \<Rightarrow> int \<Rightarrow> ('o, 'h) query_service \<Rightarrow> ('o, 'h) query_service option" where
  "stop_service running now s =
     (if qs_stopped s then Some s
      else
        let s = s\<lparr>qs_stopped := True, qs_callback_gate := False\<rparr> in
        if \<not> running then stop_on_owner now s else Some (post_task Task_stop s))"

definition clear_cache :: "bool \<Rightarrow> ('o, 'h) query_service \<Rightarrow> ('o, 'h) query_service" where
  "clear_cache running s = (if \<not> running then clear_now s else post_task Task_clear s)"

text \<open>The end of an exchange task: the terminal is posted to the owner.\<close>

definition exchange_ended ::
  "nat \<Rightarrow> dns_packet res \<Rightarrow> ('o, 'h) query_service \<Rightarrow> ('o, 'h) query_service" where
  "exchange_ended i result s =
     (if i < length (qs_operations s) \<and> op_exchanging (qs_operations s ! i)
      then post_task (Task_finish i result)
             (set_operation i ((qs_operations s ! i)\<lparr>op_exchanging := False\<rparr>) s)
      else s)"

fun perform :: "int \<Rightarrow> 'h service_task \<Rightarrow> ('o, 'h) query_service \<Rightarrow> ('o, 'h) query_service option" where
  "perform now (Task_query request_id packet handler scheduler) s =
     Some (if \<not> qs_callback_gate s
           then post_completion handler scheduler (Inl cancelled_error) s
           else query_on_owner now request_id packet handler scheduler s)"
| "perform now (Task_cancel request_id) s =
     Some (if qs_callback_gate s then cancel_on_owner now request_id s else s)"
| "perform now (Task_finish i result) s = Some (finish now i result s)"
| "perform now Task_clear s = Some (if qs_callback_gate s then clear_now s else s)"
| "perform now Task_stop s = stop_on_owner now s"

definition run_one :: "int \<Rightarrow> ('o, 'h) query_service \<Rightarrow> ('o, 'h) query_service option" where
  "run_one now s =
     (case qs_mailbox s of
        [] \<Rightarrow> Some s
      | task # rest \<Rightarrow> perform now task (s\<lparr>qs_mailbox := rest\<rparr>))"

datatype 'h service_event =
    Ev_query bool int dns_packet 'h "nat option"
  | Ev_cancel bool int u64
  | Ev_stop bool int
  | Ev_clear bool
  | Ev_exchange_ended nat "dns_packet res"
  | Ev_run int

fun service_step :: "'h service_event \<Rightarrow> ('o, 'h) query_service \<Rightarrow> ('o, 'h) query_service option" where
  "service_step (Ev_query running now packet handler scheduler) s =
     Some (snd (query running now packet handler scheduler s))"
| "service_step (Ev_cancel running now request_id) s = Some (cancel running now request_id s)"
| "service_step (Ev_stop running now) s = stop_service running now s"
| "service_step (Ev_clear running) s = Some (clear_cache running s)"
| "service_step (Ev_exchange_ended i result) s = Some (exchange_ended i result s)"
| "service_step (Ev_run now) s = run_one now s"

fun service_run ::
  "'h service_event list \<Rightarrow> ('o, 'h) query_service \<Rightarrow> ('o, 'h) query_service option" where
  "service_run [] s = Some s"
| "service_run (e # es) s = Option.bind (service_step e s) (service_run es)"

section \<open>What the operations leave alone\<close>

named_theorems service_frame \<open>fields an operation of the service does not touch\<close>

lemma frame_post_completion [service_frame, simp]:
  "qs_operations (post_completion h c r s) = qs_operations s"
  "qs_in_flight (post_completion h c r s) = qs_in_flight s"
  "qs_requests (post_completion h c r s) = qs_requests s"
  "qs_cache (post_completion h c r s) = qs_cache s"
  "qs_cache_lru (post_completion h c r s) = qs_cache_lru s"
  "qs_cache_size (post_completion h c r s) = qs_cache_size s"
  "qs_mailbox (post_completion h c r s) = qs_mailbox s"
  "qs_config (post_completion h c r s) = qs_config s"
  "qs_stopped (post_completion h c r s) = qs_stopped s"
  "qs_callback_gate (post_completion h c r s) = qs_callback_gate s"
  by (simp_all add: post_completion_def)

lemma frame_post_packet [service_frame, simp]:
  "qs_operations (post_packet h c p i s) = qs_operations s"
  "qs_in_flight (post_packet h c p i s) = qs_in_flight s"
  "qs_requests (post_packet h c p i s) = qs_requests s"
  "qs_cache (post_packet h c p i s) = qs_cache s"
  "qs_cache_lru (post_packet h c p i s) = qs_cache_lru s"
  "qs_cache_size (post_packet h c p i s) = qs_cache_size s"
  "qs_mailbox (post_packet h c p i s) = qs_mailbox s"
  "qs_config (post_packet h c p i s) = qs_config s"
  "qs_stopped (post_packet h c p i s) = qs_stopped s"
  "qs_callback_gate (post_packet h c p i s) = qs_callback_gate s"
  by (simp_all add: post_packet_def)

lemma frame_deliver_waiters [service_frame, simp]:
  "qs_operations (deliver_waiters r ws s) = qs_operations s"
  "qs_in_flight (deliver_waiters r ws s) = qs_in_flight s"
  "qs_requests (deliver_waiters r ws s) = qs_requests s"
  "qs_cache (deliver_waiters r ws s) = qs_cache s"
  "qs_cache_lru (deliver_waiters r ws s) = qs_cache_lru s"
  "qs_cache_size (deliver_waiters r ws s) = qs_cache_size s"
  "qs_mailbox (deliver_waiters r ws s) = qs_mailbox s"
  "qs_config (deliver_waiters r ws s) = qs_config s"
  "qs_stopped (deliver_waiters r ws s) = qs_stopped s"
  "qs_callback_gate (deliver_waiters r ws s) = qs_callback_gate s"
  by (induction r ws s rule: deliver_waiters.induct) (simp_all split: sum.split)

lemma frame_set_operation [service_frame, simp]:
  "qs_operations (set_operation i op s) = (qs_operations s)[i := op]"
  "qs_in_flight (set_operation i op s) = qs_in_flight s"
  "qs_requests (set_operation i op s) = qs_requests s"
  "qs_cache (set_operation i op s) = qs_cache s"
  "qs_cache_lru (set_operation i op s) = qs_cache_lru s"
  "qs_cache_size (set_operation i op s) = qs_cache_size s"
  "qs_mailbox (set_operation i op s) = qs_mailbox s"
  "qs_config (set_operation i op s) = qs_config s"
  "qs_stopped (set_operation i op s) = qs_stopped s"
  "qs_callback_gate (set_operation i op s) = qs_callback_gate s"
  "qs_deliveries (set_operation i op s) = qs_deliveries s"
  by (simp_all add: set_operation_def)

lemma frame_store_response [service_frame, simp]:
  "qs_operations (store_response n k p s) = qs_operations s"
  "qs_in_flight (store_response n k p s) = qs_in_flight s"
  "qs_requests (store_response n k p s) = qs_requests s"
  "qs_mailbox (store_response n k p s) = qs_mailbox s"
  "qs_config (store_response n k p s) = qs_config s"
  "qs_stopped (store_response n k p s) = qs_stopped s"
  "qs_callback_gate (store_response n k p s) = qs_callback_gate s"
  "qs_deliveries (store_response n k p s) = qs_deliveries s"
  by (auto simp: store_response_def Let_def split: option.split prod.split)

lemma frame_complete [service_frame, simp]:
  "qs_mailbox (complete n i r s) = qs_mailbox s"
  "qs_config (complete n i r s) = qs_config s"
  "qs_stopped (complete n i r s) = qs_stopped s"
  "qs_callback_gate (complete n i r s) = qs_callback_gate s"
  by (simp_all add: complete_def Let_def split: sum.split)

lemma complete_operations [simp]:
  "qs_operations (complete n i r s) = (qs_operations s)[i := (qs_operations s ! i)\<lparr>op_waiters := []\<rparr>]"
  by (simp add: complete_def Let_def split: sum.split)

lemma complete_in_flight:
  "qs_in_flight (complete n i r s) =
     (if um_find (qs_in_flight s) (op_key (qs_operations s ! i)) = Some i
      then um_erase (op_key (qs_operations s ! i)) (qs_in_flight s) else qs_in_flight s)"
  by (simp add: complete_def Let_def split: sum.split)

lemma complete_requests:
  "qs_requests (complete n i r s) =
     fold (\<lambda>w m. um_erase (wt_id w) m) (op_waiters (qs_operations s ! i)) (qs_requests s)"
  by (simp add: complete_def Let_def split: sum.split)

section \<open>Every handler is called once\<close>

fun task_handlers :: "'h service_task \<Rightarrow> 'h multiset" where
  "task_handlers (Task_query ident packet handler scheduler) = {#handler#}"
| "task_handlers (Task_cancel ident) = {#}"
| "task_handlers (Task_finish i result) = {#}"
| "task_handlers Task_clear = {#}"
| "task_handlers Task_stop = {#}"

definition queued :: "('o, 'h) query_service \<Rightarrow> 'h multiset" where
  "queued s = sum_list (map task_handlers (qs_mailbox s))"

definition waiting :: "('o, 'h) query_service \<Rightarrow> 'h multiset" where
  "waiting s = sum_list (map (\<lambda>oper. mset (map wt_handler (op_waiters oper))) (qs_operations s))"

definition called :: "('o, 'h) query_service \<Rightarrow> 'h multiset" where
  "called s = mset (map dv_handler (qs_deliveries s))"

definition held :: "('o, 'h) query_service \<Rightarrow> 'h multiset" where
  "held s = queued s + waiting s + called s"

lemma sum_list_update_add:
  fixes xs :: "'a::comm_monoid_add list"
  shows "i < length xs \<Longrightarrow> sum_list (xs[i := y]) + xs ! i = sum_list xs + y"
proof (induction xs arbitrary: i)
  case (Cons x xs)
  show ?case
  proof (cases i)
    case 0
    then show ?thesis by (simp add: ac_simps)
  next
    case (Suc j)
    with Cons show ?thesis by (simp add: add.assoc)
  qed
qed simp

lemma waiting_set_operation:
  assumes "i < length (qs_operations s)"
  shows "waiting (set_operation i oper s) + mset (map wt_handler (op_waiters (qs_operations s ! i))) =
    waiting s + mset (map wt_handler (op_waiters oper))"
  using assms sum_list_update_add [of i "map (\<lambda>oper. mset (map wt_handler (op_waiters oper))) (qs_operations s)"
      "mset (map wt_handler (op_waiters oper))"]
  by (simp add: waiting_def map_update)

lemma called_post_completion [simp]:
  "called (post_completion h c r s) = add_mset h (called s)"
  by (simp add: called_def post_completion_def)

lemma called_post_packet [simp]:
  "called (post_packet h c p i s) = add_mset h (called s)"
  by (simp add: post_packet_def)

lemma called_deliver_waiters [simp]:
  "called (deliver_waiters r ws s) = mset (map wt_handler ws) + called s"
  by (induction r ws s rule: deliver_waiters.induct) (simp_all split: sum.split)

lemma called_complete:
  "called (complete n i r s) = mset (map wt_handler (op_waiters (qs_operations s ! i))) + called s"
  by (simp add: complete_def Let_def split: sum.split) (simp add: called_def)

lemma queued_cong: "qs_mailbox s = qs_mailbox t \<Longrightarrow> queued s = queued t"
  by (simp add: queued_def)

lemma waiting_cong: "qs_operations s = qs_operations t \<Longrightarrow> waiting s = waiting t"
  by (simp add: waiting_def)

lemma held_complete:
  assumes "i < length (qs_operations s)"
  shows "held (complete n i r s) = held s"
proof -
  have "waiting (complete n i r s) = waiting (set_operation i ((qs_operations s ! i)\<lparr>op_waiters := []\<rparr>) s)"
    by (rule waiting_cong) simp
  with waiting_set_operation [OF assms, of "(qs_operations s ! i)\<lparr>op_waiters := []\<rparr>"]
    called_complete [of n i r s] queued_cong [of "complete n i r s" s]
  show ?thesis by (simp add: held_def ac_simps)
qed

lemma held_set_operation_same:
  assumes "op_waiters oper = op_waiters (qs_operations s ! i)" "i < length (qs_operations s)"
  shows "held (set_operation i oper s) = held s"
  using waiting_set_operation [OF assms(2), of oper] assms(1) queued_cong [of "set_operation i oper s" s]
  by (simp add: held_def called_def)

lemma held_finish:
  "i < length (qs_operations s) \<Longrightarrow> held (finish n i r s) = held s"
  by (simp add: finish_def Let_def held_complete held_set_operation_same)

lemma held_cancel_shared:
  "i < length (qs_operations s) \<Longrightarrow> held (cancel_shared n i s) = held s"
  by (simp add: cancel_shared_def Let_def held_complete held_set_operation_same)

lemma held_cong:
  "qs_mailbox s = qs_mailbox t \<Longrightarrow> qs_operations s = qs_operations t \<Longrightarrow>
     qs_deliveries s = qs_deliveries t \<Longrightarrow> held s = held t"
  by (simp add: held_def queued_def waiting_def called_def)

lemma queued_frame [simp]:
  "queued (post_completion h c r s) = queued s" "queued (set_operation i oper s) = queued s"
  "queued (drop_cached k s) = queued s"
  by (rule queued_cong, simp add: drop_cached_def)+

lemma waiting_frame [simp]:
  "waiting (post_completion h c r s) = waiting s" "waiting (drop_cached k s) = waiting s"
  by (rule waiting_cong, simp add: drop_cached_def)+

lemma called_frame [simp]:
  "called (set_operation i oper s) = called s" "called (drop_cached k s) = called s"
  by (simp_all add: called_def drop_cached_def)

lemma held_post_completion [simp]: "held (post_completion h c r s) = add_mset h (held s)"
  by (simp add: held_def)

lemma held_post_packet [simp]: "held (post_packet h c p i s) = add_mset h (held s)"
  by (simp add: post_packet_def)

lemma held_post_task: "held (post_task t s) = task_handlers t + held s"
  by (simp add: held_def queued_def waiting_def called_def post_task_def ac_simps)

lemma held_drop_cached [simp]: "held (drop_cached k s) = held s"
  by (rule held_cong) (simp_all add: drop_cached_def)

lemma frame_drop_cached [service_frame, simp]:
  "qs_operations (drop_cached k s) = qs_operations s"
  "qs_in_flight (drop_cached k s) = qs_in_flight s"
  "qs_requests (drop_cached k s) = qs_requests s"
  "qs_mailbox (drop_cached k s) = qs_mailbox s"
  "qs_config (drop_cached k s) = qs_config s"
  "qs_stopped (drop_cached k s) = qs_stopped s"
  "qs_callback_gate (drop_cached k s) = qs_callback_gate s"
  "qs_deliveries (drop_cached k s) = qs_deliveries s"
  by (simp_all add: drop_cached_def)

lemma frame_join_operation [service_frame, simp]:
  "qs_in_flight (join_operation i r n h c s) = qs_in_flight s"
  "qs_cache (join_operation i r n h c s) = qs_cache s"
  "qs_cache_lru (join_operation i r n h c s) = qs_cache_lru s"
  "qs_cache_size (join_operation i r n h c s) = qs_cache_size s"
  "qs_mailbox (join_operation i r n h c s) = qs_mailbox s"
  "qs_config (join_operation i r n h c s) = qs_config s"
  "qs_stopped (join_operation i r n h c s) = qs_stopped s"
  "qs_callback_gate (join_operation i r n h c s) = qs_callback_gate s"
  by (simp_all add: join_operation_def)

lemma frame_start_operation [service_frame, simp]:
  "qs_cache (start_operation k p u r h c s) = qs_cache s"
  "qs_cache_lru (start_operation k p u r h c s) = qs_cache_lru s"
  "qs_cache_size (start_operation k p u r h c s) = qs_cache_size s"
  "qs_mailbox (start_operation k p u r h c s) = qs_mailbox s"
  "qs_config (start_operation k p u r h c s) = qs_config s"
  "qs_stopped (start_operation k p u r h c s) = qs_stopped s"
  "qs_callback_gate (start_operation k p u r h c s) = qs_callback_gate s"
  by (simp_all add: start_operation_def Let_def)

lemma held_join_operation:
  assumes "i < length (qs_operations s)"
  shows "held (join_operation i r n h c s) = add_mset h (held s)"
proof -
  let ?o = "add_waiter r n h c (qs_operations s ! i)"
  have "waiting (join_operation i r n h c s) = waiting (set_operation i ?o s)"
    by (rule waiting_cong) (simp add: join_operation_def)
  moreover have "waiting (set_operation i ?o s) = add_mset h (waiting s)"
    using waiting_set_operation [OF assms, of ?o] by (simp add: add_waiter_def ac_simps)
  moreover have "queued (join_operation i r n h c s) = queued s" by (rule queued_cong) simp
  moreover have "called (join_operation i r n h c s) = called s"
    by (simp add: called_def join_operation_def)
  ultimately show ?thesis by (simp add: held_def)
qed

lemma held_start_operation: "held (start_operation k p u r h c s) = add_mset h (held s)"
  by (simp add: held_def queued_def waiting_def called_def start_operation_def add_waiter_def Let_def)

text \<open>The ways a query goes on, as the invariants see them.\<close>

lemma serve_query_cases:
  obtains (hit) e where "um_find (qs_cache s) key = Some e" "now < ce_expires e"
      "serve_query now key p u rid h c s =
         post_packet h c (ce_packet e) (pk_id p) (s\<lparr>qs_cache_lru := key # remove1 key (qs_cache_lru s)\<rparr>)"
  | (joined) i where "um_find (qs_in_flight s) key = Some i"
      "serve_query now key p u rid h c s = join_operation i rid (pk_id p) h c (drop_cached key s)"
  | (started) "um_find (qs_in_flight s) key = None"
      "serve_query now key p u rid h c s = start_operation key p u rid h c (drop_cached key s)"
proof (cases "fresh_entry now key s")
  case (Some e)
  then show thesis
    by (intro hit [of e]) (auto simp: serve_query_def fresh_entry_def split: option.splits if_splits)
next
  case None
  then show thesis
    using joined started
    by (cases "um_find (qs_in_flight s) key") (auto simp: serve_query_def)
qed

lemma query_on_owner_cases:
  obtains (refused) r where "query_on_owner now rid p h c s = post_completion h c r s"
  | (served) key q u where "\<not> qs_stopped s"
      "query_on_owner now rid p h c s = serve_query now key q u rid h c s"
proof (cases "qs_stopped s \<or> pk_response p \<or> length (pk_questions p) \<noteq> 1 \<or> length (pk_wire p) < 12")
  case True
  then have "\<exists>r. query_on_owner now rid p h c s = post_completion h c r s"
    by (cases "qs_stopped s") (auto simp: query_on_owner_def)
  with refused show thesis by blast
next
  case ok: False
  let ?q = "(hd (pk_questions p))\<lparr>q_name := normalize_name (q_name (hd (pk_questions p)))\<rparr>"
  let ?route = "route_query (rc_policy_router (qs_config s)) (qs_groups s) (q_name ?q)"
  show thesis
  proof (cases ?route)
    case (Inl e)
    with ok have "query_on_owner now rid p h c s = post_completion h c (Inl e) s"
      by (simp add: query_on_owner_def Let_def)
    then show thesis by (rule refused)
  next
    case (Inr ug)
    obtain u g where ug: "ug = (u, g)" by (rule prod.exhaust)
    let ?p = "p\<lparr>pk_questions := (pk_questions p)[0 := ?q]\<rparr>"
    from ok Inr ug have "query_on_owner now rid p h c s =
        serve_query now (cache_key ?p g (rc_cache_generation (qs_config s))) ?p u rid h c s"
      by (simp add: query_on_owner_def Let_def)
    then show thesis by (rule served [rotated]) (use ok in simp)
  qed
qed

text \<open>References from the queue and the request table point at operations that exist.\<close>

definition refs_ok :: "('o, 'h) query_service \<Rightarrow> bool" where
  "refs_ok s \<longleftrightarrow>
     (\<forall>k i. um_find (qs_in_flight s) k = Some i \<longrightarrow> i < length (qs_operations s)) \<and>
     (\<forall>k i. um_find (qs_requests s) k = Some i \<longrightarrow> i < length (qs_operations s)) \<and>
     (\<forall>i r. Task_finish i r \<in> set (qs_mailbox s) \<longrightarrow> i < length (qs_operations s))"

lemma held_query_on_owner:
  assumes "refs_ok s"
  shows "held (query_on_owner now rid p h c s) = add_mset h (held s)"
proof (cases rule: query_on_owner_cases [of now rid p h c s])
  case (served key q u)
  show ?thesis
  proof (cases rule: serve_query_cases [of s key now q u rid h c])
    case (hit e)
    have "held (s\<lparr>qs_cache_lru := key # remove1 key (qs_cache_lru s)\<rparr>) = held s"
      by (rule held_cong) simp_all
    with hit served show ?thesis by simp
  next
    case (joined i)
    with assms have "i < length (qs_operations (drop_cached key s))" by (simp add: refs_ok_def)
    with joined served show ?thesis by (simp add: held_join_operation)
  next
    case started
    with served show ?thesis by (simp add: held_start_operation)
  qed
qed simp

lemma remove_first_mset:
  "remove_first P xs = Some (x, ys) \<Longrightarrow> mset xs = add_mset x (mset ys)"
  by (induction xs arbitrary: x ys) (auto split: if_splits option.splits)

lemma held_cancel_on_owner:
  assumes "refs_ok s"
  shows "held (cancel_on_owner now rid s) = held s"
proof (cases "um_find (qs_requests s) rid")
  case None
  then show ?thesis by (simp add: cancel_on_owner_def)
next
  case (Some i)
  let ?s = "s\<lparr>qs_requests := um_erase rid (qs_requests s)\<rparr>"
  have i: "i < length (qs_operations s)" using assms Some by (simp add: refs_ok_def)
  have s: "held ?s = held s" by (rule held_cong) simp_all
  show ?thesis
  proof (cases "remove_first (\<lambda>w. wt_id w = rid) (op_waiters (qs_operations s ! i))")
    case None
    with Some s show ?thesis by (simp add: cancel_on_owner_def remove_waiter_def)
  next
    case (Some wr)
    obtain w rest where wr: "wr = (w, rest)" by (rule prod.exhaust)
    let ?o = "(qs_operations s ! i)\<lparr>op_waiters := rest\<rparr>"
    let ?t = "post_completion (wt_handler w) (wt_scheduler w) (Inl cancelled_error) (set_operation i ?o ?s)"
    have "mset (map wt_handler (op_waiters (qs_operations s ! i))) =
        add_mset (wt_handler w) (mset (map wt_handler rest))"
      using remove_first_mset [of _ _ w rest] Some wr by simp
    then have "add_mset (wt_handler w) (waiting (set_operation i ?o ?s)) = waiting ?s"
      using waiting_set_operation [of i ?s ?o] i by simp
    then have "held ?t = held ?s"
      by (simp add: held_def)
    moreover have "cancel_on_owner now rid s = (if rest = [] then cancel_shared now i ?t else ?t)"
      using \<open>um_find (qs_requests s) rid = Some i\<close> Some wr
      by (simp add: cancel_on_owner_def remove_waiter_def)
    ultimately show ?thesis using s i by (cases "rest = []") (simp_all add: held_cancel_shared)
  qed
qed

section \<open>Exchanges under way\<close>

text \<open>
  An operation is in the table of exchanges, under its key, exactly until it completes, and somebody
  waits for it; \<open>X\<close> are operations that may have lost their last waiter.
\<close>

definition flight_ok :: "nat set \<Rightarrow> ('o, 'h) query_service \<Rightarrow> bool" where
  "flight_ok X s \<longleftrightarrow> um_invar (qs_in_flight s) \<and>
     (\<forall>k i. um_find (qs_in_flight s) k = Some i \<longrightarrow> i < length (qs_operations s) \<and>
        op_key (qs_operations s ! i) = k \<and> \<not> op_completed (qs_operations s ! i) \<and>
        (op_waiters (qs_operations s ! i) \<noteq> [] \<or> i \<in> X)) \<and>
     (\<forall>i<length (qs_operations s).
        (\<not> op_completed (qs_operations s ! i) \<longrightarrow>
           um_find (qs_in_flight s) (op_key (qs_operations s ! i)) = Some i) \<and>
        (op_completed (qs_operations s ! i) \<longrightarrow> op_waiters (qs_operations s ! i) = []))"

lemma flight_okI:
  assumes "um_invar (qs_in_flight s)"
    and "\<And>k i. um_find (qs_in_flight s) k = Some i \<Longrightarrow> i < length (qs_operations s) \<and>
        op_key (qs_operations s ! i) = k \<and> \<not> op_completed (qs_operations s ! i) \<and>
        (op_waiters (qs_operations s ! i) \<noteq> [] \<or> i \<in> X)"
    and "\<And>i. i < length (qs_operations s) \<Longrightarrow> \<not> op_completed (qs_operations s ! i) \<Longrightarrow>
        um_find (qs_in_flight s) (op_key (qs_operations s ! i)) = Some i"
    and "\<And>i. i < length (qs_operations s) \<Longrightarrow> op_completed (qs_operations s ! i) \<Longrightarrow>
        op_waiters (qs_operations s ! i) = []"
  shows "flight_ok X s"
  using assms by (simp add: flight_ok_def)

lemma flight_okD:
  assumes "flight_ok X s"
  shows "um_invar (qs_in_flight s)"
    and "um_find (qs_in_flight s) k = Some i \<Longrightarrow> i < length (qs_operations s) \<and>
        op_key (qs_operations s ! i) = k \<and> \<not> op_completed (qs_operations s ! i) \<and>
        (op_waiters (qs_operations s ! i) \<noteq> [] \<or> i \<in> X)"
    and "i < length (qs_operations s) \<Longrightarrow> \<not> op_completed (qs_operations s ! i) \<Longrightarrow>
        um_find (qs_in_flight s) (op_key (qs_operations s ! i)) = Some i"
    and "i < length (qs_operations s) \<Longrightarrow> op_completed (qs_operations s ! i) \<Longrightarrow>
        op_waiters (qs_operations s ! i) = []"
  using assms by (auto simp: flight_ok_def)

lemma flight_ok_cong:
  "qs_in_flight s = qs_in_flight t \<Longrightarrow> qs_operations s = qs_operations t \<Longrightarrow>
     flight_ok X s = flight_ok X t"
  by (simp add: flight_ok_def)

lemma cancel_shared_finish: "cancel_shared now i s = finish now i (Inl cancelled_error) s"
  by (simp add: cancel_shared_def finish_def Let_def)

lemma finish_operations:
  "i < length (qs_operations s) \<Longrightarrow> \<not> op_completed (qs_operations s ! i) \<Longrightarrow>
     qs_operations (finish now i r s) =
       (qs_operations s)[i := (qs_operations s ! i)\<lparr>op_completed := True, op_waiters := []\<rparr>]"
  by (simp add: finish_def Let_def)

lemma finish_in_flight:
  "i < length (qs_operations s) \<Longrightarrow> \<not> op_completed (qs_operations s ! i) \<Longrightarrow> flight_ok X s \<Longrightarrow>
     qs_in_flight (finish now i r s) = um_erase (op_key (qs_operations s ! i)) (qs_in_flight s)"
  by (simp add: finish_def Let_def complete_in_flight flight_okD(3))

lemma flight_ok_finish:
  assumes "flight_ok X s" "i < length (qs_operations s)"
  shows "flight_ok (X - {i}) (finish now i r s)"
proof (cases "op_completed (qs_operations s ! i)")
  case True
  then have "um_find (qs_in_flight s) k \<noteq> Some i" for k using flight_okD(2) [OF assms(1)] by blast
  with assms True show ?thesis by (auto simp: finish_def flight_ok_def)
next
  case False
  note f = finish_operations [OF assms(2) False] finish_in_flight [OF assms(2) False assms(1)]
  show ?thesis
  proof (rule flight_okI)
    show "um_invar (qs_in_flight (finish now i r s))"
      using flight_okD(1) [OF assms(1)] by (simp add: f)
  next
    fix k j assume "um_find (qs_in_flight (finish now i r s)) k = Some j"
    then have k: "k \<noteq> op_key (qs_operations s ! i)" "um_find (qs_in_flight s) k = Some j"
      by (auto simp: f split: if_splits)
    with flight_okD(2) [OF assms(1) k(2)] have "j \<noteq> i" by auto
    with flight_okD(2) [OF assms(1) k(2)]
    show "j < length (qs_operations (finish now i r s)) \<and>
        op_key (qs_operations (finish now i r s) ! j) = k \<and>
        \<not> op_completed (qs_operations (finish now i r s) ! j) \<and>
        (op_waiters (qs_operations (finish now i r s) ! j) \<noteq> [] \<or> j \<in> X - {i})"
      by (simp add: f)
  next
    fix j assume j: "j < length (qs_operations (finish now i r s))"
      "\<not> op_completed (qs_operations (finish now i r s) ! j)"
    then have ji: "j \<noteq> i" using assms(2) by (auto simp: f)
    with j have "um_find (qs_in_flight s) (op_key (qs_operations s ! j)) = Some j"
      using flight_okD(3) [OF assms(1)] by (simp add: f)
    moreover have "op_key (qs_operations s ! j) \<noteq> op_key (qs_operations s ! i)"
      using calculation ji flight_okD(3) [OF assms(1,2) False] by auto
    ultimately show "um_find (qs_in_flight (finish now i r s))
        (op_key (qs_operations (finish now i r s) ! j)) = Some j"
      using ji by (simp add: f)
  next
    fix j assume "j < length (qs_operations (finish now i r s))"
      "op_completed (qs_operations (finish now i r s) ! j)"
    with flight_okD(4) [OF assms(1)] assms(2)
    show "op_waiters (qs_operations (finish now i r s) ! j) = []"
      by (cases "j = i") (simp_all add: f)
  qed
qed

lemma fold_erase_subset:
  "um_find (fold (\<lambda>w m. um_erase (f w) m) ws m) k = Some v \<Longrightarrow> um_find m k = Some v"
proof (induction ws arbitrary: m)
  case (Cons w ws)
  then have "um_find (fold (\<lambda>w m. um_erase (f w) m) ws (um_erase (f w) m)) k = Some v" by simp
  from Cons.IH [OF this] show ?case by (simp split: if_splits)
qed simp

lemma refs_ok_finish:
  assumes "refs_ok s"
  shows "refs_ok (finish now i r s)"
  using assms
  by (auto simp: refs_ok_def finish_def Let_def complete_in_flight complete_requests
      dest!: fold_erase_subset split: if_splits)

lemma flight_ok_subset: "flight_ok X s \<Longrightarrow> X \<subseteq> Y \<Longrightarrow> flight_ok Y s"
  by (auto simp: flight_ok_def)

lemma flight_ok_join:
  assumes "flight_ok {} s" "um_find (qs_in_flight s) key = Some i"
  shows "flight_ok {} (join_operation i rid n h c s)"
proof -
  have i: "i < length (qs_operations s)" using flight_okD(2) [OF assms] by simp
  have w: "op_key (add_waiter rid n h c x) = op_key x"
    "op_completed (add_waiter rid n h c x) = op_completed x"
    "op_waiters (add_waiter rid n h c x) \<noteq> []" for x
    by (simp_all add: add_waiter_def)
  show ?thesis
    unfolding flight_ok_def
    using assms(1) i flight_okD(2) [OF assms]
    by (auto simp: flight_ok_def join_operation_def nth_list_update w)
qed

lemma flight_ok_start:
  assumes "flight_ok {} s" "um_find (qs_in_flight s) key = None"
  shows "flight_ok {} (start_operation key p u rid h c s)"
proof (rule flight_okI)
  let ?t = "start_operation key p u rid h c s" and ?n = "length (qs_operations s)"
  have len: "length (qs_operations ?t) = Suc ?n" by (simp add: start_operation_def Let_def)
  have new: "op_key (qs_operations ?t ! ?n) = key" "\<not> op_completed (qs_operations ?t ! ?n)"
    "op_waiters (qs_operations ?t ! ?n) \<noteq> []"
    by (simp_all add: start_operation_def Let_def add_waiter_def)
  have old: "qs_operations ?t ! i = qs_operations s ! i" if "i < ?n" for i
    using that by (simp add: start_operation_def Let_def nth_append)
  have fl: "um_find (qs_in_flight ?t) = (um_find (qs_in_flight s))(key \<mapsto> ?n)"
    using assms(2) by (simp add: start_operation_def Let_def um_find_emplace um_contains_def)
  show "um_invar (qs_in_flight ?t)"
    using flight_okD(1) [OF assms(1)] by (simp add: start_operation_def Let_def)
  show "i < length (qs_operations ?t) \<and> op_key (qs_operations ?t ! i) = k \<and>
      \<not> op_completed (qs_operations ?t ! i) \<and> (op_waiters (qs_operations ?t ! i) \<noteq> [] \<or> i \<in> {})"
    if "um_find (qs_in_flight ?t) k = Some i" for k i
  proof (cases "k = key")
    case True
    with that fl new len show ?thesis by auto
  next
    case False
    with that fl have "um_find (qs_in_flight s) k = Some i" by simp
    from flight_okD(2) [OF assms(1) this] show ?thesis by (simp add: len old)
  qed
  show "um_find (qs_in_flight ?t) (op_key (qs_operations ?t ! i)) = Some i"
    if "i < length (qs_operations ?t)" "\<not> op_completed (qs_operations ?t ! i)" for i
  proof (cases "i = ?n")
    case True
    with fl new show ?thesis by simp
  next
    case False
    with that len have "i < ?n" by simp
    with flight_okD(3) [OF assms(1) this] that(2) old have
      "um_find (qs_in_flight s) (op_key (qs_operations ?t ! i)) = Some i" by simp
    with assms(2) fl show ?thesis by auto
  qed
  show "op_waiters (qs_operations ?t ! i) = []"
    if "i < length (qs_operations ?t)" "op_completed (qs_operations ?t ! i)" for i
    using that new len old flight_okD(4) [OF assms(1), of i] by (cases "i = ?n") auto
qed

section \<open>The cache\<close>

definition cache_ok :: "('o, 'h) query_service \<Rightarrow> bool" where
  "cache_ok s \<longleftrightarrow> um_invar (qs_cache s) \<and> distinct (qs_cache_lru s) \<and>
     set (qs_cache_lru s) = set (um_keys (qs_cache s)) \<and> qs_cache_size s = length (qs_cache s) \<and>
     length (qs_cache s) \<le> rc_cache_capacity (qs_config s)"

lemma cache_ok_cong:
  "qs_cache s = qs_cache t \<Longrightarrow> qs_cache_lru s = qs_cache_lru t \<Longrightarrow>
     qs_cache_size s = qs_cache_size t \<Longrightarrow> qs_config s = qs_config t \<Longrightarrow> cache_ok s = cache_ok t"
  by (simp add: cache_ok_def)

lemma um_keys_erase: "um_keys (um_erase k m) = filter (\<lambda>k'. k' \<noteq> k) (um_keys m)"
  by (induction m) (auto simp: um_keys_def um_erase_def)

lemma length_erase_le: "length (um_erase k m) \<le> length m"
  by (simp add: um_erase_def)

definition cache_lists_ok :: "(bytes, cache_entry) umap \<Rightarrow> bytes list \<Rightarrow> bool" where
  "cache_lists_ok cache lru \<longleftrightarrow> um_invar cache \<and> distinct lru \<and> set lru = set (um_keys cache)"

lemma cache_lists_remove:
  "cache_lists_ok cache lru \<Longrightarrow> cache_lists_ok (um_erase k cache) (remove1 k lru)"
  by (auto simp: cache_lists_ok_def um_keys_erase)

lemma cache_lists_add:
  "cache_lists_ok cache lru \<Longrightarrow> k \<notin> set lru \<Longrightarrow> cache_lists_ok (um_emplace k e cache) (k # lru)"
  by (auto simp: cache_lists_ok_def um_keys_emplace)

lemma cache_lists_length: "cache_lists_ok cache lru \<Longrightarrow> length cache = length lru"
  by (metis cache_lists_ok_def distinct_card length_map um_invar_def um_keys_def)

lemma remove1_last: "distinct xs \<Longrightarrow> xs \<noteq> [] \<Longrightarrow> remove1 (last xs) xs = butlast xs"
  by (induction xs) auto

lemma evict_ok:
  "cache_lists_ok cache lru \<Longrightarrow> 0 < capacity \<Longrightarrow> evict capacity cache lru = (cache', lru') \<Longrightarrow>
     cache_lists_ok cache' lru' \<and> length cache' < capacity \<and> set lru' \<subseteq> set lru"
proof (induction capacity cache lru rule: evict.induct)
  case (1 capacity cache lru)
  show ?case
  proof (cases "length cache \<ge> capacity \<and> lru \<noteq> []")
    case False
    then show ?thesis
      using "1.prems" cache_lists_length [OF "1.prems"(1)] by (auto simp: evict.simps)
  next
    case True
    then have "remove1 (last lru) lru = butlast lru"
      using "1.prems"(1) by (intro remove1_last) (auto simp: cache_lists_ok_def)
    then have "cache_lists_ok (um_erase (last lru) cache) (butlast lru)"
      using cache_lists_remove [OF "1.prems"(1)] by metis
    from "1.IH" [OF True this "1.prems"(2)] "1.prems"(3) True show ?thesis
      by (auto simp: evict.simps [of capacity cache] dest: in_set_butlastD)
  qed
qed

lemma cache_ok_store_response:
  assumes "cache_ok s"
  shows "cache_ok (store_response now key p s)"
proof (cases "cache_ttl p (rc_negative_cache_ttl (qs_config s))")
  case None
  with assms show ?thesis by (simp add: store_response_def)
next
  case (Some ttl)
  show ?thesis
  proof (cases "0 < rc_cache_capacity (qs_config s)")
    case False
    with Some assms show ?thesis by (simp add: store_response_def)
  next
    case cap: True
    have l: "cache_lists_ok (qs_cache s) (qs_cache_lru s)"
      using assms by (simp add: cache_ok_def cache_lists_ok_def)
    define c1 where "c1 = (if um_contains (qs_cache s) key then um_erase key (qs_cache s) else qs_cache s)"
    define l1 where "l1 = (if um_contains (qs_cache s) key then remove1 key (qs_cache_lru s) else qs_cache_lru s)"
    have l1: "cache_lists_ok c1 l1" "key \<notin> set l1"
      using l cache_lists_remove [OF l, of key]
      by (auto simp: c1_def l1_def cache_lists_ok_def um_contains_iff)
    obtain c2 l2 where e: "evict (rc_cache_capacity (qs_config s)) c1 l1 = (c2, l2)"
      by (rule prod.exhaust)
    note ev = evict_ok [OF l1(1) cap e]
    with l1(2) have n: "key \<notin> set l2" by blast
    let ?entry = "\<lparr>ce_packet = p, ce_expires = now + ttl * one_second\<rparr>"
    have "cache_lists_ok (um_emplace key ?entry c2) (key # l2)"
      using ev n by (simp add: cache_lists_add)
    moreover from cache_lists_length [OF this] cache_lists_length [of c2 l2] ev
    have "length (um_emplace key ?entry c2) \<le> rc_cache_capacity (qs_config s)" by simp
    moreover have "store_response now key p s = s\<lparr>qs_cache := um_emplace key ?entry c2,
        qs_cache_lru := key # l2, qs_cache_size := length (um_emplace key ?entry c2)\<rparr>"
      using Some cap e by (auto simp: store_response_def Let_def c1_def l1_def split: if_splits)
    ultimately show ?thesis by (simp add: cache_ok_def cache_lists_ok_def)
  qed
qed

lemma cache_ok_finish:
  assumes "cache_ok s"
  shows "cache_ok (finish now i r s)"
proof -
  have [simp]: "cache_ok (qs_in_flight_update f t) = cache_ok t"
    "cache_ok (qs_requests_update g t) = cache_ok t" "cache_ok (set_operation j oper t) = cache_ok t"
    "cache_ok (deliver_waiters q ws t) = cache_ok t" for f g j oper q ws and t :: "('a, 'b) query_service"
    by (rule cache_ok_cong; simp)+
  show ?thesis
    using assms by (auto simp: finish_def complete_def Let_def cache_ok_store_response split: sum.split)
qed

lemma cache_ok_drop: "cache_ok s \<Longrightarrow> cache_ok (drop_cached key s)"
  using cache_lists_remove [of "qs_cache s" "qs_cache_lru s" key] length_erase_le [of key "qs_cache s"]
  by (auto simp: cache_ok_def drop_cached_def cache_lists_ok_def)

lemma cache_ok_touch:
  "cache_ok s \<Longrightarrow> um_find (qs_cache s) key = Some e \<Longrightarrow>
     cache_ok (s\<lparr>qs_cache_lru := key # remove1 key (qs_cache_lru s)\<rparr>)"
proof -
  assume c: "cache_ok s" "um_find (qs_cache s) key = Some e"
  then have "key \<in> set (qs_cache_lru s)"
    using um_contains_iff [of "qs_cache s" key] by (simp add: cache_ok_def um_contains_def)
  with c(1) show ?thesis by (auto simp: cache_ok_def)
qed

section \<open>The invariant of the service\<close>

definition core_ok :: "('o, 'h) query_service \<Rightarrow> bool" where
  "core_ok s \<longleftrightarrow> refs_ok s \<and> flight_ok {} s \<and> cache_ok s"

lemma core_ok_finish:
  assumes "refs_ok s" "flight_ok {i} s" "cache_ok s" "i < length (qs_operations s)"
  shows "core_ok (finish now i r s)"
  using assms flight_ok_finish [of "{i}" s i now r]
  by (simp add: core_ok_def refs_ok_finish cache_ok_finish)

lemma core_ok_cong:
  "qs_mailbox s = qs_mailbox t \<Longrightarrow> qs_operations s = qs_operations t \<Longrightarrow>
     qs_in_flight s = qs_in_flight t \<Longrightarrow> qs_requests s = qs_requests t \<Longrightarrow>
     qs_cache s = qs_cache t \<Longrightarrow> qs_cache_lru s = qs_cache_lru t \<Longrightarrow>
     qs_cache_size s = qs_cache_size t \<Longrightarrow> qs_config s = qs_config t \<Longrightarrow> core_ok s = core_ok t"
  by (simp add: core_ok_def refs_ok_def flight_ok_def cache_ok_def)

lemma core_ok_post_completion [simp]: "core_ok (post_completion h c r s) = core_ok s"
  by (rule core_ok_cong) simp_all

lemma core_ok_post_packet [simp]: "core_ok (post_packet h c p n s) = core_ok s"
  by (simp add: post_packet_def)

lemma refs_ok_join:
  "refs_ok s \<Longrightarrow> um_find (qs_in_flight s) key = Some i \<Longrightarrow> refs_ok (join_operation i rid n h c s)"
  by (auto simp: refs_ok_def join_operation_def)

lemma refs_ok_start: "refs_ok s \<Longrightarrow> refs_ok (start_operation key p u rid h c s)"
  by (auto simp: refs_ok_def start_operation_def Let_def um_find_emplace less_Suc_eq split: if_splits)

lemma core_ok_serve:
  assumes "core_ok s"
  shows "core_ok (serve_query now key p u rid h c s)"
proof (cases rule: serve_query_cases [of s key now p u rid h c])
  case (hit e)
  have "core_ok (s\<lparr>qs_cache_lru := key # remove1 key (qs_cache_lru s)\<rparr>)"
    using assms cache_ok_touch [OF _ hit(1)] by (simp add: core_ok_def refs_ok_def flight_ok_def)
  with hit show ?thesis by simp
next
  case (joined i)
  let ?d = "drop_cached key s"
  have d: "refs_ok ?d" "flight_ok {} ?d" "cache_ok ?d"
    using assms cache_ok_drop [of s key] by (simp_all add: core_ok_def refs_ok_def flight_ok_def)
  have i: "um_find (qs_in_flight ?d) key = Some i" using joined by simp
  have "cache_ok (join_operation i rid (pk_id p) h c ?d)"
    using d(3) by (subst cache_ok_cong [of _ ?d]) simp_all
  with joined refs_ok_join [OF d(1) i] flight_ok_join [OF d(2) i] show ?thesis
    by (simp add: core_ok_def)
next
  case started
  let ?d = "drop_cached key s"
  have d: "refs_ok ?d" "flight_ok {} ?d" "cache_ok ?d"
    using assms cache_ok_drop [of s key] by (simp_all add: core_ok_def refs_ok_def flight_ok_def)
  have i: "um_find (qs_in_flight ?d) key = None" using started by simp
  have "cache_ok (start_operation key p u rid h c ?d)"
    using d(3) by (subst cache_ok_cong [of _ ?d]) simp_all
  with started refs_ok_start [OF d(1)] flight_ok_start [OF d(2) i] show ?thesis
    by (simp add: core_ok_def)
qed

lemma core_ok_query_on_owner: "core_ok s \<Longrightarrow> core_ok (query_on_owner now rid p h c s)"
  by (cases rule: query_on_owner_cases [of now rid p h c s]) (simp_all add: core_ok_serve)

lemma core_ok_cancel_on_owner:
  assumes ok: "core_ok s"
  shows "core_ok (cancel_on_owner now rid s)"
proof (cases "um_find (qs_requests s) rid")
  case None
  with ok show ?thesis by (simp add: cancel_on_owner_def)
next
  case (Some i)
  let ?s = "s\<lparr>qs_requests := um_erase rid (qs_requests s)\<rparr>"
  have i: "i < length (qs_operations s)" using ok Some by (simp add: core_ok_def refs_ok_def)
  have s: "refs_ok ?s" "flight_ok {} ?s" "cache_ok ?s"
    using ok by (simp_all add: core_ok_def refs_ok_def flight_ok_def cache_ok_def)
  show ?thesis
  proof (cases "remove_first (\<lambda>w. wt_id w = rid) (op_waiters (qs_operations s ! i))")
    case None
    with Some s show ?thesis by (simp add: cancel_on_owner_def remove_waiter_def core_ok_def)
  next
    case wr: (Some wr)
    obtain w rest where wr': "wr = (w, rest)" by (rule prod.exhaust)
    let ?o = "(qs_operations s ! i)\<lparr>op_waiters := rest\<rparr>"
    let ?t = "post_completion (wt_handler w) (wt_scheduler w) (Inl cancelled_error) (set_operation i ?o ?s)"
    have nc: "\<not> op_completed (qs_operations s ! i)"
    proof
      assume "op_completed (qs_operations s ! i)"
      with ok i have "op_waiters (qs_operations s ! i) = []" by (simp add: core_ok_def flight_ok_def)
      with wr show False by simp
    qed
    have t: "refs_ok ?t" "cache_ok ?t"
      using s by (simp_all add: refs_ok_def cache_ok_def)
    have fl: "flight_ok (if rest = [] then {i} else {}) ?t"
      using s(2) nc i by (auto simp: flight_ok_def nth_list_update)
    have "cancel_on_owner now rid s = (if rest = [] then finish now i (Inl cancelled_error) ?t else ?t)"
      using Some wr wr' by (simp add: cancel_on_owner_def remove_waiter_def cancel_shared_finish)
    with t fl i core_ok_finish [of ?t i now "Inl cancelled_error"] show ?thesis
      by (cases "rest = []") (simp_all add: core_ok_def)
  qed
qed

text \<open>The loop of \<^verbatim>\<open>stop_on_owner\<close> ends and leaves no exchange.\<close>

lemma cancel_all_ends:
  "core_ok s \<Longrightarrow> \<exists>t. cancel_all now s = Some t \<and> core_ok t \<and> held t = held s \<and> qs_in_flight t = [] \<and>
     qs_mailbox t = qs_mailbox s \<and> qs_stopped t = qs_stopped s \<and>
     qs_callback_gate t = qs_callback_gate s"
proof (induction "length (qs_in_flight s)" arbitrary: s)
  case 0
  then show ?case by (simp add: cancel_all.simps)
next
  case (Suc n)
  then obtain key i rest where f: "qs_in_flight s = (key, i) # rest"
    by (metis length_Suc_conv prod.exhaust)
  then have find: "um_find (qs_in_flight s) key = Some i" by (simp add: um_find_def)
  have ok: "refs_ok s" "flight_ok {} s" "cache_ok s" using Suc.prems by (simp_all add: core_ok_def)
  have i: "i < length (qs_operations s)" "\<not> op_completed (qs_operations s ! i)"
    "op_key (qs_operations s ! i) = key"
    using flight_okD(2) [OF ok(2) find] by auto
  let ?t = "finish now i (Inl cancelled_error) s"
  have t: "core_ok ?t"
    using core_ok_finish [OF ok(1) flight_ok_subset [OF ok(2)] ok(3) i(1)] by simp
  have "qs_in_flight ?t = um_erase key (qs_in_flight s)"
    using finish_in_flight [OF i(1,2) ok(2)] i(3) by simp
  moreover have "Suc (length (um_erase key (qs_in_flight s))) = length (qs_in_flight s)"
    using um.count_erase_present [OF flight_okD(1) [OF ok(2)], of key] find by simp
  ultimately have "n = length (qs_in_flight ?t)" using Suc.hyps(2) by simp
  from Suc.hyps(1) [OF this t] obtain u where u: "cancel_all now ?t = Some u" "core_ok u"
    "held u = held ?t" "qs_in_flight u = []" "qs_mailbox u = qs_mailbox ?t"
    "qs_stopped u = qs_stopped ?t" "qs_callback_gate u = qs_callback_gate ?t"
    by blast
  have "cancel_all now s = Some u"
    using u(1) by (subst cancel_all.simps) (simp add: f cancel_shared_finish)
  moreover have "qs_mailbox ?t = qs_mailbox s" "qs_stopped ?t = qs_stopped s"
    "qs_callback_gate ?t = qs_callback_gate s"
    by (simp_all add: finish_def Let_def)
  ultimately show ?case using u held_finish [OF i(1), of now "Inl cancelled_error"] by auto
qed

lemma stop_on_owner_ends:
  assumes "core_ok s"
  shows "\<exists>t. stop_on_owner now s = Some t \<and> core_ok t \<and> held t = held s \<and> qs_in_flight t = [] \<and>
     qs_mailbox t = qs_mailbox s \<and> qs_stopped t = qs_stopped s \<and>
     qs_callback_gate t = qs_callback_gate s"
proof -
  from cancel_all_ends [OF assms, of now] obtain t where t: "cancel_all now s = Some t" "core_ok t"
    "held t = held s" "qs_in_flight t = []" "qs_mailbox t = qs_mailbox s"
    "qs_stopped t = qs_stopped s" "qs_callback_gate t = qs_callback_gate s"
    by blast
  let ?u = "t\<lparr>qs_in_flight := [], qs_requests := [], qs_groups_stopped := True\<rparr>"
  have "core_ok ?u" using t(2,4) by (simp add: core_ok_def refs_ok_def flight_ok_def cache_ok_def)
  moreover have "held ?u = held t" by (rule held_cong) simp_all
  ultimately show ?thesis using t by (simp add: stop_on_owner_def)
qed

definition service_ok :: "('o, 'h) query_service \<Rightarrow> bool" where
  "service_ok s \<longleftrightarrow> core_ok s \<and> (qs_callback_gate s \<longleftrightarrow> \<not> qs_stopped s) \<and>
     (qs_stopped s \<longrightarrow> qs_in_flight s = [] \<or> Task_stop \<in> set (qs_mailbox s))"

fun event_handlers :: "'h service_event \<Rightarrow> 'h multiset" where
  "event_handlers (Ev_query running now packet handler scheduler) = {#handler#}"
| "event_handlers _ = {#}"

lemma core_ok_post_task:
  "core_ok s \<Longrightarrow> (\<forall>i r. task = Task_finish i r \<longrightarrow> i < length (qs_operations s)) \<Longrightarrow>
     core_ok (post_task task s)"
  by (auto simp: core_ok_def refs_ok_def flight_ok_def cache_ok_def post_task_def)

lemma frame_post_task [service_frame, simp]:
  "qs_mailbox (post_task task s) = qs_mailbox s @ [task]"
  "qs_in_flight (post_task task s) = qs_in_flight s"
  "qs_stopped (post_task task s) = qs_stopped s"
  "qs_callback_gate (post_task task s) = qs_callback_gate s"
  by (simp_all add: post_task_def)

lemma core_ok_refs: "core_ok s \<Longrightarrow> refs_ok s"
  by (simp add: core_ok_def)

lemma service_ok_new: "service_ok (new_query_service config)"
  by (simp add: service_ok_def core_ok_def new_query_service_def Let_def refs_ok_def flight_ok_def
      cache_ok_def um_keys_def)

lemma held_new: "held (new_query_service config) = {#}"
  by (simp add: held_def queued_def waiting_def called_def new_query_service_def Let_def)

lemma frame_serve_query [service_frame, simp]:
  "qs_mailbox (serve_query now key p u rid h c s) = qs_mailbox s"
  "qs_stopped (serve_query now key p u rid h c s) = qs_stopped s"
  "qs_callback_gate (serve_query now key p u rid h c s) = qs_callback_gate s"
  by (cases rule: serve_query_cases [of s key now p u rid h c]; simp)+

lemma frame_query_on_owner [service_frame, simp]:
  "qs_mailbox (query_on_owner now rid p h c s) = qs_mailbox s"
  "qs_stopped (query_on_owner now rid p h c s) = qs_stopped s"
  "qs_callback_gate (query_on_owner now rid p h c s) = qs_callback_gate s"
  by (cases rule: query_on_owner_cases [of now rid p h c s]; simp)+

lemma query_on_owner_stopped:
  "qs_stopped s \<Longrightarrow> qs_in_flight (query_on_owner now rid p h c s) = qs_in_flight s"
  by (cases rule: query_on_owner_cases [of now rid p h c s]) simp_all

lemma frame_finish [service_frame, simp]:
  "qs_mailbox (finish now i r s) = qs_mailbox s"
  "qs_stopped (finish now i r s) = qs_stopped s"
  "qs_callback_gate (finish now i r s) = qs_callback_gate s"
  by (simp_all add: finish_def Let_def)

lemma finish_in_flight_empty: "qs_in_flight s = [] \<Longrightarrow> qs_in_flight (finish now i r s) = []"
  by (simp add: finish_def Let_def complete_in_flight)

lemma frame_cancel_on_owner [service_frame, simp]:
  "qs_mailbox (cancel_on_owner now rid s) = qs_mailbox s"
  "qs_stopped (cancel_on_owner now rid s) = qs_stopped s"
  "qs_callback_gate (cancel_on_owner now rid s) = qs_callback_gate s"
  by (simp_all add: cancel_on_owner_def Let_def cancel_shared_finish split: option.split)

lemma cancel_on_owner_in_flight_empty:
  "qs_in_flight s = [] \<Longrightarrow> qs_in_flight (cancel_on_owner now rid s) = []"
  by (simp add: cancel_on_owner_def Let_def cancel_shared_finish finish_in_flight_empty split: option.split)

lemma core_ok_clear: "core_ok s \<Longrightarrow> core_ok (clear_now s)"
  by (simp add: core_ok_def clear_now_def refs_ok_def flight_ok_def cache_ok_def um_keys_def)

lemma held_clear: "held (clear_now s) = held s"
  by (rule held_cong) (simp_all add: clear_now_def)

lemmas service_steps = core_ok_query_on_owner held_query_on_owner core_ok_cancel_on_owner
  held_cancel_on_owner core_ok_clear held_clear held_post_task core_ok_refs query_on_owner_stopped
  cancel_on_owner_in_flight_empty

text \<open>Running a task off the queue, which it no longer counts.\<close>

lemma perform_ok:
  assumes "core_ok s" "qs_callback_gate s \<longleftrightarrow> \<not> qs_stopped s"
    and "\<And>i r. task = Task_finish i r \<Longrightarrow> i < length (qs_operations s)"
    and "qs_stopped s \<Longrightarrow> qs_in_flight s = [] \<or> Task_stop \<in> set (qs_mailbox s) \<or> task = Task_stop"
  shows "\<exists>t. perform now task s = Some t \<and> service_ok t \<and> held t = task_handlers task + held s \<and>
    qs_mailbox t = qs_mailbox s \<and> qs_stopped t = qs_stopped s"
proof (cases task)
  case (Task_query rid p h c)
  then show ?thesis
    using assms by (auto simp: service_ok_def service_steps)
next
  case (Task_cancel rid)
  then show ?thesis
    using assms by (auto simp: service_ok_def service_steps)
next
  case (Task_finish i r)
  then have "core_ok (finish now i r s)" "held (finish now i r s) = held s"
    using assms(1,3) core_ok_finish [of s i now r] flight_ok_subset [of "{}" s "{i}"]
    by (auto simp: core_ok_def held_finish)
  with Task_finish assms show ?thesis
    by (auto simp: service_ok_def finish_in_flight_empty)
next
  case Task_clear
  then show ?thesis
    using assms core_ok_clear [of s] held_clear [of s]
    by (auto simp: service_ok_def clear_now_def)
next
  case Task_stop
  with stop_on_owner_ends [OF assms(1), of now] assms(2) show ?thesis
    by (auto simp: service_ok_def)
qed

lemma run_one_ok:
  assumes "service_ok s"
  shows "\<exists>t. run_one now s = Some t \<and> service_ok t \<and> held t = held s \<and>
    qs_mailbox t = tl (qs_mailbox s) \<and> qs_stopped t = qs_stopped s"
proof (cases "qs_mailbox s")
  case Nil
  with assms show ?thesis by (simp add: run_one_def)
next
  case (Cons task rest)
  let ?s = "s\<lparr>qs_mailbox := rest\<rparr>"
  have "core_ok ?s" "\<And>i r. task = Task_finish i r \<Longrightarrow> i < length (qs_operations ?s)"
    using assms Cons by (auto simp: service_ok_def core_ok_def refs_ok_def flight_ok_def cache_ok_def)
  moreover have "held s = task_handlers task + held ?s"
    using Cons by (simp add: held_def queued_def waiting_def called_def ac_simps)
  ultimately show ?thesis
    using perform_ok [of ?s task now] assms Cons by (auto simp: run_one_def service_ok_def)
qed

lemma service_step_ok:
  assumes "service_ok s"
  shows "\<exists>t. service_step e s = Some t \<and> service_ok t \<and> held t = event_handlers e + held s"
proof (cases e)
  case (Ev_query running now p h c)
  let ?s = "s\<lparr>qs_next_request_id := qs_next_request_id s + 1\<rparr>"
  have s: "core_ok ?s" "held ?s = held s"
    using assms by (auto simp: service_ok_def core_ok_def refs_ok_def flight_ok_def cache_ok_def
        intro: held_cong)
  have "service_ok (query_on_owner now (qs_next_request_id s) p h c ?s) \<and>
      held (query_on_owner now (qs_next_request_id s) p h c ?s) = add_mset h (held s)"
    using s assms by (auto simp: service_ok_def service_steps)
  moreover have "core_ok (post_task (Task_query (qs_next_request_id s) p h c) ?s)"
    using s(1) by (rule core_ok_post_task) simp
  ultimately show ?thesis
    using Ev_query s(2) assms by (auto simp: query_def Let_def service_steps service_ok_def)
next
  case (Ev_cancel running now rid)
  moreover have "core_ok (post_task (Task_cancel rid) s)"
    using assms by (intro core_ok_post_task) (simp_all add: service_ok_def)
  ultimately show ?thesis
    using assms by (auto simp: cancel_def service_ok_def service_steps)
next
  case (Ev_stop running now)
  let ?s = "s\<lparr>qs_stopped := True, qs_callback_gate := False\<rparr>"
  have s: "core_ok ?s" "held ?s = held s"
    using assms by (auto simp: service_ok_def core_ok_def refs_ok_def flight_ok_def cache_ok_def
        intro: held_cong)
  have "core_ok (post_task Task_stop ?s)" using s(1) by (rule core_ok_post_task) simp
  with Ev_stop s assms stop_on_owner_ends [OF s(1), of now] show ?thesis
    by (cases "qs_stopped s") (auto simp: stop_service_def Let_def service_ok_def service_steps)
next
  case (Ev_clear running)
  moreover have "core_ok (post_task Task_clear s)"
    using assms by (intro core_ok_post_task) (simp_all add: service_ok_def)
  ultimately show ?thesis
    using assms by (auto simp: clear_cache_def service_ok_def service_steps) (auto simp: clear_now_def)
next
  case (Ev_exchange_ended i r)
  show ?thesis
  proof (cases "i < length (qs_operations s) \<and> op_exchanging (qs_operations s ! i)")
    case False
    with Ev_exchange_ended assms show ?thesis by (auto simp: exchange_ended_def)
  next
    case True
    let ?s = "set_operation i ((qs_operations s ! i)\<lparr>op_exchanging := False\<rparr>) s"
    have "refs_ok ?s" "cache_ok ?s"
      using assms by (simp_all add: service_ok_def core_ok_def refs_ok_def cache_ok_def)
    moreover have "flight_ok {} ?s"
      using assms True by (auto simp: service_ok_def core_ok_def flight_ok_def nth_list_update)
    ultimately have "core_ok ?s" by (simp add: core_ok_def)
    then have "core_ok (post_task (Task_finish i r) ?s)"
      by (rule core_ok_post_task) (use True in simp)
    moreover have "held ?s = held s" using True by (intro held_set_operation_same) simp_all
    ultimately show ?thesis using Ev_exchange_ended True assms
      by (auto simp: exchange_ended_def service_ok_def service_steps)
  qed
next
  case (Ev_run now)
  with run_one_ok [OF assms, of now] show ?thesis by auto
qed

lemma service_run_ok:
  "service_ok s \<Longrightarrow> \<exists>t. service_run es s = Some t \<and> service_ok t \<and>
     held t = sum_list (map event_handlers es) + held s"
proof (induction es arbitrary: s)
  case (Cons e es)
  from service_step_ok [OF Cons.prems, of e] obtain u where
    u: "service_step e s = Some u" "service_ok u" "held u = event_handlers e + held s" by blast
  from Cons.IH [OF u(2)] u show ?case by (auto simp: ac_simps)
qed simp

lemma service_runs:
  obtains s where "service_run es (new_query_service config) = Some s" "service_ok s"
    "held s = sum_list (map event_handlers es)"
  using service_run_ok [OF service_ok_new, of es] held_new by (metis add.right_neutral)

lemma drain:
  "service_ok s \<Longrightarrow> length (qs_mailbox s) \<le> length clocks \<Longrightarrow>
     \<exists>t. service_run (map Ev_run clocks) s = Some t \<and> service_ok t \<and> held t = held s \<and>
       qs_mailbox t = [] \<and> qs_stopped t = qs_stopped s"
proof (induction clocks arbitrary: s)
  case (Cons now clocks)
  from run_one_ok [OF Cons.prems(1), of now] obtain u where u: "run_one now s = Some u" "service_ok u"
    "held u = held s" "qs_mailbox u = tl (qs_mailbox s)" "qs_stopped u = qs_stopped s" by blast
  with Cons.prems(2) have "length (qs_mailbox u) \<le> length clocks" by simp
  from Cons.IH [OF u(2) this] u show ?case by simp
qed simp

lemma service_run_new:
  assumes "service_run es (new_query_service config) = Some s"
  shows "service_ok s" "held s = sum_list (map event_handlers es)"
proof -
  obtain t where "service_run es (new_query_service config) = Some t" "service_ok t"
    "held t = sum_list (map event_handlers es)" by (rule service_runs)
  with assms show "service_ok s" "held s = sum_list (map event_handlers es)" by simp_all
qed

lemma sum_list_empty: "\<forall>x\<in>set xs. x = {#} \<Longrightarrow> sum_list xs = {#}"
  by (induction xs) auto

lemma no_waiting:
  assumes "service_ok s" "qs_in_flight s = []"
  shows "waiting s = {#}"
proof -
  have "op_waiters (qs_operations s ! i) = []" if "i < length (qs_operations s)" for i
    using assms that by (auto simp: service_ok_def core_ok_def flight_ok_def)
  then have "\<forall>oper\<in>set (qs_operations s). op_waiters oper = []" by (metis in_set_conv_nth)
  then show ?thesis unfolding waiting_def by (intro sum_list_empty) simp
qed

section \<open>Properties\<close>

text \<open>C9: whatever calls, exchange results and executor steps a service goes through, no step gets
  stuck (the loop of \<^verbatim>\<open>stop\<close> ends), and every handler passed to a query is at any time in exactly one
  place: in the executor's queue, waiting for an exchange, or called back. No query is answered twice
  and none is lost.\<close>
theorem queries_conserved:
  "\<exists>s. service_run es (new_query_service config) = Some s \<and>
     queued s + waiting s + called s = sum_list (map event_handlers es)"
  by (rule service_runs [of es config]) (auto simp: held_def)

text \<open>At any time at most one exchange is under way for a cache key, an exchange that is under way
  has somebody waiting for it, and a completed one has nobody left.\<close>
theorem queries_coalesced:
  assumes "service_run es (new_query_service config) = Some s"
    and "i < length (qs_operations s)" "j < length (qs_operations s)"
  shows "(if op_completed (qs_operations s ! i) then op_waiters (qs_operations s ! i) = []
      else op_waiters (qs_operations s ! i) \<noteq> []) \<and>
    (\<not> op_completed (qs_operations s ! i) \<and> \<not> op_completed (qs_operations s ! j) \<and>
       op_key (qs_operations s ! i) = op_key (qs_operations s ! j) \<longrightarrow> i = j)"
proof -
  have f: "flight_ok {} s"
    using service_run_new(1) [OF assms(1)] by (simp add: service_ok_def core_ok_def)
  show ?thesis
  proof (intro conjI impI)
    show "if op_completed (qs_operations s ! i) then op_waiters (qs_operations s ! i) = []
        else op_waiters (qs_operations s ! i) \<noteq> []"
    proof (cases "op_completed (qs_operations s ! i)")
      case False
      from flight_okD(2) [OF f flight_okD(3) [OF f assms(2) False]]
      have "op_waiters (qs_operations s ! i) \<noteq> []" by blast
      with False show ?thesis by simp
    qed (simp add: flight_okD(4) [OF f assms(2)])
  next
    assume a: "\<not> op_completed (qs_operations s ! i) \<and> \<not> op_completed (qs_operations s ! j) \<and>
      op_key (qs_operations s ! i) = op_key (qs_operations s ! j)"
    then have "um_find (qs_in_flight s) (op_key (qs_operations s ! i)) = Some i"
      "um_find (qs_in_flight s) (op_key (qs_operations s ! j)) = Some j"
      using flight_okD(3) [OF f assms(2)] flight_okD(3) [OF f assms(3)] by blast+
    with a show "i = j" by (metis option.inject)
  qed
qed

text \<open>The cache never holds more responses than its capacity, its size is reported as it is, and
  the recency list holds exactly the keys of the cache, each once.\<close>
theorem query_cache_bounded:
  assumes "service_run es (new_query_service config) = Some s"
  shows "length (qs_cache s) \<le> rc_cache_capacity (qs_config s) \<and> qs_cache_size s = length (qs_cache s) \<and>
    distinct (qs_cache_lru s) \<and> set (qs_cache_lru s) = dom (um_find (qs_cache s))"
proof -
  have "cache_ok s"
    using service_run_new(1) [OF assms] by (simp add: service_ok_def core_ok_def)
  then show ?thesis by (auto simp: cache_ok_def um_find_dom um_keys_def)
qed

text \<open>C10: stopping answers everybody: after \<^verbatim>\<open>stop\<close>, once the executor has run what was queued, no query
  is queued, none waits for an exchange, and every handler ever passed in has been called exactly once.\<close>
theorem stop_answers_everybody:
  assumes "service_run es (new_query_service config) = Some s"
    and "service_step (Ev_stop running now) s = Some t"
    and "length (qs_mailbox t) \<le> length clocks"
  shows "\<exists>u. service_run (map Ev_run clocks) t = Some u \<and> qs_mailbox u = [] \<and> qs_in_flight u = [] \<and>
    waiting u = {#} \<and> called u = sum_list (map event_handlers es)"
proof -
  have s: "service_ok s" "held s = sum_list (map event_handlers es)"
    by (rule service_run_new [OF assms(1)])+
  then have t: "service_ok t" "held t = held s"
    using service_step_ok [OF s(1), of "Ev_stop running now"] assms(2) by auto
  have "qs_stopped t"
  proof (cases "qs_stopped s \<or> running")
    case True
    with assms(2) show ?thesis by (cases "qs_stopped s") (auto simp: stop_service_def Let_def)
  next
    case False
    let ?s = "s\<lparr>qs_stopped := True, qs_callback_gate := False\<rparr>"
    have "core_ok ?s" using s(1)
      by (auto simp: service_ok_def core_ok_def refs_ok_def flight_ok_def cache_ok_def)
    from stop_on_owner_ends [OF this, of now] False assms(2) show ?thesis
      by (auto simp: stop_service_def Let_def)
  qed
  moreover from drain [OF t(1) assms(3)] obtain u where u: "service_run (map Ev_run clocks) t = Some u"
    "service_ok u" "held u = held t" "qs_mailbox u = []" "qs_stopped u = qs_stopped t" by blast
  ultimately have "qs_in_flight u = []" by (simp add: service_ok_def)
  with u no_waiting [OF u(2)] s(2) t(2) show ?thesis by (auto simp: held_def queued_def)
qed

text \<open>A query that finds a cached response answers from it exactly until it expires, moves the key
  to the front of the recency list and starts no exchange. The response is the stored one with the
  transaction ID of the query: the TTLs of its records are those it arrived with, whatever time it
  has spent in the cache.\<close>
theorem cached_response_served:
  assumes "um_find (qs_cache s) key = Some e" "length (pk_wire (ce_packet e)) \<ge> 2"
  shows "let t = serve_query now key p u rid h c s in
    if now < ce_expires e
    then qs_operations t = qs_operations s \<and> hd (qs_cache_lru t) = key \<and>
      (\<exists>reply. qs_deliveries t = qs_deliveries s @ [\<lparr>dv_handler = h, dv_scheduler = c, dv_result = Inr reply\<rparr>] \<and>
         pk_id reply = pk_id p \<and> drop 2 (pk_wire reply) = drop 2 (pk_wire (ce_packet e)) \<and>
         pk_answers reply = pk_answers (ce_packet e))
    else um_find (qs_cache t) key = None \<and> um_find (qs_in_flight t) key \<noteq> None \<and>
      qs_deliveries t = qs_deliveries s"
proof (cases "now < ce_expires e")
  case True
  let ?w = "(pk_wire (ce_packet e))[0 := ucast (drop_bit 8 (pk_id p)), 1 := ucast (pk_id p AND 0xff)]"
  have "packet_result (ce_packet e) (pk_id p) = Inr ((ce_packet e)\<lparr>pk_wire := ?w, pk_id := pk_id p\<rparr>)"
    using assms(2) by (simp add: packet_result_def rewrite_id_def)
  moreover have "drop 2 ?w = drop 2 (pk_wire (ce_packet e))" by (simp add: drop_update_cancel)
  moreover have "serve_query now key p u rid h c s =
      post_packet h c (ce_packet e) (pk_id p) (s\<lparr>qs_cache_lru := key # remove1 key (qs_cache_lru s)\<rparr>)"
    using assms(1) True by (simp add: serve_query_def fresh_entry_def)
  ultimately show ?thesis using True by (simp add: Let_def post_packet_def post_completion_def)
next
  case False
  with assms(1) have "fresh_entry now key s = None" by (simp add: fresh_entry_def)
  moreover have "um_contains (qs_cache s) key" using assms(1) by (simp add: um_contains_def)
  ultimately show ?thesis using False
    by (cases "um_find (qs_in_flight s) key")
      (auto simp: serve_query_def Let_def drop_cached_def join_operation_def set_operation_def
        start_operation_def um_find_emplace um_contains_def)
qed

section \<open>Witnesses\<close>

definition sample_service_query :: "byte \<Rightarrow> dns_packet" where
  "sample_service_query ident = (sample_message ident)\<lparr>pk_id := ucast ident,
     pk_questions := [\<lparr>q_name = ''Example.org.'', q_type = type_a, q_class = 1\<rparr>]\<rparr>"

definition sample_service_reply :: dns_packet where
  "sample_service_reply = sample_positive\<lparr>pk_wire := [0, 1, 2]\<rparr>"

text \<open>Two queries share an exchange; its response is cached and answers the third.\<close>

definition sample_events :: "nat service_event list" where
  "sample_events = [Ev_query True 0 (sample_service_query 1) 10 None,
     Ev_query True 0 (sample_service_query 2) 20 None, Ev_run 5, Ev_run 5,
     Ev_exchange_ended 0 (Inr sample_service_reply), Ev_run 7,
     Ev_query True 0 (sample_service_query 3) 30 None, Ev_run 9,
     Ev_query True 0 (default_packet\<lparr>pk_id := 5\<rparr>) 40 None]"

definition sample_service :: "(nat, nat) query_service" where
  "sample_service = the (service_run sample_events (new_query_service sample_config))"

lemma sample_service_run:
  "service_run sample_events (new_query_service sample_config) = Some sample_service"
proof -
  obtain s :: "(nat, nat) query_service" where
    "service_run sample_events (new_query_service sample_config) = Some s"
    by (rule service_runs [of sample_events sample_config])
  then show ?thesis by (simp add: sample_service_def)
qed

theorem queries_conserved_witness:
  "\<exists>s. service_run sample_events (new_query_service sample_config) = Some s \<and>
     queued s + waiting s + called s = {#10, 20, 30, 40#}"
  using queries_conserved [of sample_events sample_config]
  by (simp add: sample_events_def add_mset_commute)

theorem queries_coalesced_witness:
  "op_waiters (qs_operations sample_service ! 0) = [] \<and> length (qs_operations sample_service) = 1"
proof -
  have l: "length (qs_operations sample_service) = 1" "op_completed (qs_operations sample_service ! 0)"
    by code_simp+
  with queries_coalesced [OF sample_service_run, of 0 0] show ?thesis by simp
qed

theorem query_cache_bounded_witness:
  "qs_cache_size sample_service = 1 \<and> length (qs_cache sample_service) = 1 \<and> (1 :: nat) \<le> 4096"
proof -
  have "qs_cache_size sample_service = 1" "rc_cache_capacity (qs_config sample_service) = 4096"
    by code_simp+
  with query_cache_bounded [OF sample_service_run] show ?thesis by simp
qed

theorem stop_answers_everybody_witness:
  "\<exists>t u. service_step (Ev_stop True 11) sample_service = Some t \<and>
     service_run (map Ev_run [12, 13]) t = Some u \<and> called u = {#10, 20, 30, 40#}"
proof -
  let ?t = "the (service_step (Ev_stop True 11) sample_service)"
  have "\<exists>t. service_step (Ev_stop True 11) sample_service = Some t"
    using service_step_ok [OF service_run_new(1) [OF sample_service_run], of "Ev_stop True 11"] by blast
  then have t: "service_step (Ev_stop True 11) sample_service = Some ?t" by auto
  have l: "length (qs_mailbox ?t) \<le> 2" by code_simp
  have "length (qs_mailbox ?t) \<le> length [12 :: int, 13]" using l by simp
  from stop_answers_everybody [OF sample_service_run t this] t show ?thesis
    by (auto simp: sample_events_def add_mset_commute)
qed

theorem cached_response_served_witness:
  "\<exists>key e. um_find (qs_cache sample_service) key = Some e \<and>
     qs_operations (serve_query 8 key (sample_service_query 9) None 7 50 None sample_service) =
       qs_operations sample_service"
proof -
  let ?c = "qs_cache sample_service"
  have c: "um_find ?c (fst (hd ?c)) = Some (snd (hd ?c))" "length (pk_wire (ce_packet (snd (hd ?c)))) \<ge> 2"
    "(8 :: int) < ce_expires (snd (hd ?c))"
    by code_simp+
  from cached_response_served [OF c(1,2), of 8 "sample_service_query 9" None 7 50 None] c(3)
  have "qs_operations (serve_query 8 (fst (hd ?c)) (sample_service_query 9) None 7 50 None sample_service) =
    qs_operations sample_service" by (simp add: Let_def)
  with c(1) show ?thesis by blast
qed

end
