(* ===== verification/Http_Proxy_Utils.thy ===== *)
theory Http_Proxy_Utils
  imports Core_Types
begin

text \<open>
  \<^verbatim>\<open>src/proxy/http_proxy_utils.cpp\<close>: the text handling of the HTTP proxy: authorities and absolute
  targets, tokens, the headers a proxy must not forward, and basic authorization. A
  \<^verbatim>\<open>boost::beast::http::fields\<close> is the list of its names and values in order. Parameters are
  \<open>make_address\<close>, Boost's parser of address literals, and \<open>decode64\<close>, the Base64 decoder of the TLS
  library that \<^verbatim>\<open>core::base64_decode\<close> calls.
\<close>

type_synonym http_fields = "(string \<times> string) list"

section \<open>Ports and authorities\<close>

definition parse_port :: "string \<Rightarrow> u16 option" where
  "parse_port value =
     (if value = [] then None
      else case from_chars_u32 value of
        None \<Rightarrow> None
      | Some (parsed, rest) \<Rightarrow>
          if rest \<noteq> [] \<or> parsed = 0 \<or> parsed > 65535 then None else Some (word_of_nat parsed))"

definition http_destination :: "(string \<Rightarrow> ip_address option) \<Rightarrow> string \<Rightarrow> u16 \<Rightarrow> destination" where
  "http_destination make_address host p =
     (case make_address host of Some a \<Rightarrow> Address a p | None \<Rightarrow> Domain host p)"

definition parse_http_authority ::
  "(string \<Rightarrow> ip_address option) \<Rightarrow> string \<Rightarrow> destination option" where
  "parse_http_authority make_address authority =
     (let split =
        (if authority \<noteq> [] \<and> hd authority = CHR ''[''
         then case index_where (\<lambda>c. c = CHR '']'') authority of
             None \<Rightarrow> None
           | Some closing \<Rightarrow>
               if closing + 1 \<ge> length authority \<or> authority ! (closing + 1) \<noteq> CHR '':''
               then None
               else Some (take (closing - 1) (drop 1 authority), drop (closing + 2) authority)
         else case rindex_where (\<lambda>c. c = CHR '':'') authority of
             None \<Rightarrow> None
           | Some separator \<Rightarrow>
               if index_where (\<lambda>c. c = CHR '':'') authority \<noteq> Some separator then None
               else Some (take separator authority, drop (separator + 1) authority))
      in case split of
        None \<Rightarrow> None
      | Some (host, port_text) \<Rightarrow>
          (case parse_port port_text of
             None \<Rightarrow> None
           | Some p \<Rightarrow> if host = [] then None else Some (http_destination make_address host p)))"

section \<open>Tokens and headers\<close>

definition is_http_token_character :: "char \<Rightarrow> bool" where
  "is_http_token_character c \<longleftrightarrow>
     (let n = of_char c :: nat in
      97 \<le> n \<and> n \<le> 122 \<or> 65 \<le> n \<and> n \<le> 90 \<or> 48 \<le> n \<and> n \<le> 57 \<or>
      c \<in> set (''!#$%&'' @ [CHR 0x27] @ ''*+-.^_`|~''))"

definition is_http_token :: "string \<Rightarrow> bool" where
  "is_http_token value \<longleftrightarrow> value \<noteq> [] \<and> list_all is_http_token_character value"

definition lowercase_ascii :: "string \<Rightarrow> string" where
  "lowercase_ascii value = map to_lower value"

definition is_http_header :: "string \<Rightarrow> string \<Rightarrow> bool" where
  "is_http_header name expected \<longleftrightarrow>
     length name = length expected \<and> list_all2 (\<lambda>actual wanted. to_lower actual = wanted) name expected"

definition is_blank :: "char \<Rightarrow> bool" where
  "is_blank c \<longleftrightarrow> c = CHR '' '' \<or> c = CHR 0x09"

definition trim_http_whitespace :: "string \<Rightarrow> string" where
  "trim_http_whitespace value = strip_suffix is_blank (dropWhile is_blank value)"

definition has_valid_http_credentials :: "string \<Rightarrow> string \<Rightarrow> bool" where
  "has_valid_http_credentials username password \<longleftrightarrow>
     index_where (\<lambda>c. c \<in> {CHR 0x0D, CHR 0x0A}) username = None \<and>
     index_where (\<lambda>c. c \<in> {CHR 0x0D, CHR 0x0A}) password = None"

definition basic_authorization_matches ::
  "(string \<Rightarrow> string option) \<Rightarrow> string \<Rightarrow> string \<Rightarrow> string \<Rightarrow> bool" where
  "basic_authorization_matches decode64 header0 username password =
     (let header = trim_http_whitespace header0 in
      case index_where (\<lambda>c. c = CHR '' '' \<or> c = CHR 0x09) header of
        None \<Rightarrow> False
      | Some separator \<Rightarrow>
          if lowercase_ascii (take separator header) \<noteq> ''basic'' then False
          else case decode64 (trim_http_whitespace (drop (separator + 1) header)) of
            None \<Rightarrow> False
          | Some decoded \<Rightarrow> decoded = username @ '':'' @ password)"

section \<open>Header lists\<close>

text \<open>
  The three loops over a comma-separated value take the same pieces, \<^verbatim>\<open>value.substr(0, comma)\<close>
  trimmed, until there is no comma.
\<close>

function comma_pieces :: "string \<Rightarrow> string list" where
  "comma_pieces value =
     (case index_where (\<lambda>c. c = CHR '','') value of
        None \<Rightarrow> [trim_http_whitespace value]
      | Some comma \<Rightarrow>
          trim_http_whitespace (take comma value) # comma_pieces (drop (comma + 1) value))"
  by pat_completeness auto

termination
  by (relation "measure length") (auto simp: index_where_Some)

declare comma_pieces.simps [simp del]

fun connection_pieces :: "string list \<Rightarrow> string set \<Rightarrow> bool \<times> string set" where
  "connection_pieces [] options = (True, options)"
| "connection_pieces (option # rest) options =
     (if \<not> is_http_token option then (False, options)
      else connection_pieces rest (insert (lowercase_ascii option) options))"

fun collect_connection_options :: "http_fields \<Rightarrow> string set \<Rightarrow> bool \<times> string set" where
  "collect_connection_options [] options = (True, options)"
| "collect_connection_options ((name, value) # rest) options =
     (if \<not> is_http_header name ''connection'' then collect_connection_options rest options
      else case connection_pieces (comma_pieces value) options of
        (False, options) \<Rightarrow> (False, options)
      | (True, options) \<Rightarrow> collect_connection_options rest options)"

fun upgrade_pieces :: "string list \<Rightarrow> string \<Rightarrow> bool \<times> string" where
  "upgrade_pieces [] protocol = (True, protocol)"
| "upgrade_pieces (token # rest) protocol =
     (if \<not> is_http_token token \<or> protocol \<noteq> [] then (False, protocol)
      else upgrade_pieces rest token)"

fun collect_upgrade_protocol :: "http_fields \<Rightarrow> string \<Rightarrow> bool \<Rightarrow> bool \<times> string \<times> bool" where
  "collect_upgrade_protocol [] protocol present = (present \<and> protocol \<noteq> [], protocol, present)"
| "collect_upgrade_protocol ((name, value) # rest) protocol present =
     (if \<not> is_http_header name ''upgrade'' then collect_upgrade_protocol rest protocol present
      else case upgrade_pieces (comma_pieces value) protocol of
        (False, protocol) \<Rightarrow> (False, protocol, True)
      | (True, protocol) \<Rightarrow> collect_upgrade_protocol rest protocol True)"

definition hop_by_hop_names :: "string list" where
  "hop_by_hop_names = [''connection'', ''keep-alive'', ''proxy-connection'', ''proxy-authenticate'',
     ''proxy-authorization'', ''te'', ''transfer-encoding'', ''upgrade'']"

definition is_hop_by_hop_or_proxy_header :: "string \<Rightarrow> string set \<Rightarrow> bool" where
  "is_hop_by_hop_or_proxy_header name connection_options \<longleftrightarrow>
     lowercase_ascii name \<in> connection_options \<or> list_ex (is_http_header name) hop_by_hop_names"

definition forbidden_trailer_names :: "string list" where
  "forbidden_trailer_names = [''authorization'', ''connection'', ''content-encoding'',
     ''content-length'', ''content-range'', ''content-type'', ''host'', ''keep-alive'',
     ''proxy-authenticate'', ''proxy-authorization'', ''te'', ''trailer'', ''transfer-encoding'',
     ''upgrade'', ''www-authenticate'', ''cache-control'', ''expect'']"

definition is_forbidden_trailer_field :: "string \<Rightarrow> bool" where
  "is_forbidden_trailer_field name \<longleftrightarrow> list_ex (is_http_header name) forbidden_trailer_names"

fun trailer_pieces ::
  "string list \<Rightarrow> string set \<Rightarrow> string set \<Rightarrow> string list \<Rightarrow> bool \<times> string set \<times> string list" where
  "trailer_pieces [] options declared names = (True, declared, names)"
| "trailer_pieces (name # rest) options declared names =
     (let normalized = lowercase_ascii name in
      if \<not> is_http_token name \<or> is_forbidden_trailer_field normalized \<or> normalized \<in> options
      then (False, declared, names)
      else trailer_pieces rest options (insert normalized declared)
             (if normalized \<in> declared then names else names @ [normalized]))"

fun collect_declared_trailers ::
  "http_fields \<Rightarrow> string set \<Rightarrow> string set \<Rightarrow> string list \<Rightarrow> bool \<times> string set \<times> string list" where
  "collect_declared_trailers [] options declared names = (True, declared, names)"
| "collect_declared_trailers ((name, value) # rest) options declared names =
     (if \<not> is_http_header name ''trailer''
      then collect_declared_trailers rest options declared names
      else case trailer_pieces (comma_pieces value) options declared names of
        (False, declared, names) \<Rightarrow> (False, declared, names)
      | (True, declared, names) \<Rightarrow> collect_declared_trailers rest options declared names)"

section \<open>Absolute targets\<close>

record parsed_http_target =
  ht_destination :: destination
  ht_authority :: string
  ht_origin_target :: string
  ht_empty_path_and_query :: bool

text \<open>\<^verbatim>\<open>find("://")\<close>.\<close>

fun find_scheme_end :: "string \<Rightarrow> nat option" where
  "find_scheme_end [] = None"
| "find_scheme_end (c # cs) =
     (if take 3 (c # cs) = ''://'' then Some 0 else map_option Suc (find_scheme_end cs))"

definition bad_target_character :: "char \<Rightarrow> bool" where
  "bad_target_character c \<longleftrightarrow>
     c = CHR 0x5C \<or> c = CHR 0x0D \<or> c = CHR 0x0A \<or> c = CHR 0x09 \<or> c = CHR '' ''"

definition is_hex_digit :: "char \<Rightarrow> bool" where
  "is_hex_digit c \<longleftrightarrow> (let n = of_char c :: nat in
     48 \<le> n \<and> n \<le> 57 \<or> 65 \<le> n \<and> n \<le> 70 \<or> 97 \<le> n \<and> n \<le> 102)"

definition split_target_authority :: "string \<Rightarrow> (string \<times> string option) option" where
  "split_target_authority authority =
     (if hd authority = CHR ''[''
      then case index_where (\<lambda>c. c = CHR '']'') authority of
          None \<Rightarrow> None
        | Some closing \<Rightarrow>
            if closing = 1 then None
            else if closing + 1 < length authority
            then
              if authority ! (closing + 1) \<noteq> CHR '':'' then None
              else Some (take (closing - 1) (drop 1 authority), Some (drop (closing + 2) authority))
            else Some (take (closing - 1) (drop 1 authority), None)
      else case index_where (\<lambda>c. c = CHR '':'') authority of
          Some colon \<Rightarrow>
            if index_where (\<lambda>c. c = CHR '':'') (drop (colon + 1) authority) \<noteq> None then None
            else Some (take colon authority, Some (drop (colon + 1) authority))
        | None \<Rightarrow> Some (authority, None))"

definition escapes_ok :: "string \<Rightarrow> bool" where
  "escapes_ok s \<longleftrightarrow> list_all (\<lambda>i. \<not> (s ! i = CHR ''%'' \<and>
     (i + 2 \<ge> length s \<or> \<not> is_hex_digit (s ! (i + 1)) \<or> \<not> is_hex_digit (s ! (i + 2)))))
     [0..<length s]"

definition origin_of_suffix :: "string \<Rightarrow> string" where
  "origin_of_suffix suffix = (if hd suffix = CHR ''?'' then CHR ''/'' # suffix else suffix)"

text \<open>The target behind its scheme.\<close>

definition parse_target_rest ::
  "(string \<Rightarrow> ip_address option) \<Rightarrow> string \<Rightarrow> parsed_http_target option" where
  "parse_target_rest make_address target =
     (let target_end = index_where (\<lambda>c. c = CHR ''/'' \<or> c = CHR ''?'') target;
          authority = (case target_end of None \<Rightarrow> target | Some e \<Rightarrow> take e target)
      in
      if authority = [] \<or> CHR ''@'' \<in> set authority \<or> list_ex bad_target_character authority
      then None
      else case split_target_authority authority of
        None \<Rightarrow> None
      | Some (host, port_text) \<Rightarrow>
          if host = [] \<or> list_ex (\<lambda>c. c \<in> set ''[]@%'') host then None
          else case (case port_text of None \<Rightarrow> Some 80 | Some text \<Rightarrow> parse_port text) of
            None \<Rightarrow> None
          | Some p \<Rightarrow>
              let origin_target =
                (case target_end of None \<Rightarrow> ''/'' | Some e \<Rightarrow> origin_of_suffix (drop e target))
              in
              if origin_target = [] \<or> hd origin_target \<noteq> CHR ''/'' then None
              else if \<not> escapes_ok origin_target then None
              else Some \<lparr>ht_destination = http_destination make_address host p,
                ht_authority = authority, ht_origin_target = origin_target,
                ht_empty_path_and_query = (target_end = None)\<rparr>)"

definition parse_http_absolute_target ::
  "(string \<Rightarrow> ip_address option) \<Rightarrow> string \<Rightarrow> parsed_http_target option" where
  "parse_http_absolute_target make_address target =
     (if length target < 7 \<or> list_ex bad_target_character target \<or> CHR ''#'' \<in> set target
      then None
      else case find_scheme_end target of
        None \<Rightarrow> None
      | Some scheme_end \<Rightarrow>
          if lowercase_ascii (take scheme_end target) \<noteq> ''http'' then None
          else parse_target_rest make_address (drop (scheme_end + 3) target))"

section \<open>What the pieces say\<close>

lemma is_http_header_iff: "is_http_header name expected \<longleftrightarrow> lowercase_ascii name = expected"
  by (auto simp: is_http_header_def lowercase_ascii_def list_all2_conv_all_nth list_eq_iff_nth_eq)

lemma comma_pieces_simps:
  "CHR '','' \<notin> set a \<Longrightarrow> comma_pieces a = [trim_http_whitespace a]"
  "CHR '','' \<notin> set a \<Longrightarrow>
     comma_pieces (a @ CHR '','' # rest) = trim_http_whitespace a # comma_pieces rest"
proof -
  assume a: "CHR '','' \<notin> set a"
  then have "index_where (\<lambda>c. c = CHR '','') a = None" by (auto simp: index_where_None)
  then show "comma_pieces a = [trim_http_whitespace a]" by (simp add: comma_pieces.simps)
  have "index_where (\<lambda>c. c = CHR '','') (a @ CHR '','' # rest) = Some (length a)"
    using a by (intro index_where_prefix) auto
  then show "comma_pieces (a @ CHR '','' # rest) = trim_http_whitespace a # comma_pieces rest"
    by (simp add: comma_pieces.simps [of "a @ _"])
qed

lemma connection_pieces_True:
  "connection_pieces ps opts = (True, opts') \<longleftrightarrow>
     list_all is_http_token ps \<and> opts' = opts \<union> lowercase_ascii ` set ps"
  by (induction ps opts rule: connection_pieces.induct) auto

lemma collect_connection_True:
  "collect_connection_options headers opts = (True, opts') \<Longrightarrow>
     opts' = opts \<union> (\<Union>(n, v)\<in>{f \<in> set headers. lowercase_ascii (fst f) = ''connection''}.
       lowercase_ascii ` set (comma_pieces v))"
proof (induction headers opts rule: collect_connection_options.induct)
  case (2 name v rest opts)
  show ?case
  proof (cases "is_http_header name ''connection''")
    case False
    with 2 show ?thesis by (auto simp: is_http_header_iff)
  next
    case True
    obtain b o2 where p: "connection_pieces (comma_pieces v) opts = (b, o2)" by (rule prod.exhaust)
    with True "2.prems" have b: "b" by (auto split: bool.splits)
    with p have o2: "o2 = opts \<union> lowercase_ascii ` set (comma_pieces v)"
      by (simp add: connection_pieces_True)
    have "collect_connection_options rest o2 = (True, opts')"
      using True p b "2.prems" by simp
    from "2.IH"(2) [of b o2] this True p b have
      "opts' = o2 \<union> (\<Union>(n, v)\<in>{f \<in> set rest. lowercase_ascii (fst f) = ''connection''}.
         lowercase_ascii ` set (comma_pieces v))" by simp
    with True o2 show ?thesis by (auto simp: is_http_header_iff)
  qed
qed simp

lemma find_scheme_end_split:
  "find_scheme_end s = Some i \<Longrightarrow> s = take i s @ ''://'' @ drop (i + 3) s"
proof (induction s arbitrary: i)
  case (Cons c cs)
  show ?case
  proof (cases "take 3 (c # cs) = ''://''")
    case True
    with Cons.prems have "i = 0" by simp
    with append_take_drop_id [of 3 "c # cs"] True show ?thesis by (metis add_0 append_Nil take_0)
  next
    case False
    with Cons.prems obtain j where j: "find_scheme_end cs = Some j" "i = Suc j" by auto
    have "drop (i + 3) (c # cs) = drop (j + 3) cs" unfolding j(2) by (simp only: add_Suc drop_Suc_Cons)
    with Cons.IH [OF j(1)] j(2) show ?thesis by (metis append_Cons take_Suc_Cons)
  qed
qed simp

lemma parse_port_nonzero: "parse_port s = Some p \<Longrightarrow> p \<noteq> 0"
proof
  assume p: "parse_port s = Some p" "p = 0"
  then obtain n r where "from_chars_u32 s = Some (n, r)" "n \<noteq> 0" "n \<le> 65535" "p = word_of_nat n"
    by (auto simp: parse_port_def split: if_splits option.splits)
  then have "unat p = n" by (simp add: unat_of_nat take_bit_eq_mod)
  with p(2) \<open>n \<noteq> 0\<close> show False by simp
qed

lemma port_http_destination: "port (http_destination mk host p) = p"
  by (simp add: http_destination_def split: option.split)

lemma escapes_okD:
  assumes "escapes_ok s" "i < length s" "s ! i = CHR ''%''"
  shows "i + 2 < length s \<and> is_hex_digit (s ! (i + 1)) \<and> is_hex_digit (s ! (i + 2))"
  using assms by (auto simp: escapes_ok_def list_all_iff)

lemma parse_target_rest_split:
  assumes "parse_target_rest make_address rest = Some r"
  shows "\<exists>suffix. rest = ht_authority r @ suffix \<and>
    ht_origin_target r = (if suffix = [] \<or> hd suffix = CHR ''?'' then CHR ''/'' # suffix else suffix) \<and>
    hd (ht_origin_target r) = CHR ''/'' \<and> (ht_empty_path_and_query r \<longleftrightarrow> suffix = []) \<and>
    set ''@/?'' \<inter> set (ht_authority r) = {} \<and> ht_authority r \<noteq> [] \<and>
    escapes_ok (ht_origin_target r) \<and> port (ht_destination r) \<noteq> 0"
proof -
  define e where "e = index_where (\<lambda>c. c = CHR ''/'' \<or> c = CHR ''?'') rest"
  define authority where "authority = (case e of None \<Rightarrow> rest | Some e \<Rightarrow> take e rest)"
  note def = assms [unfolded parse_target_rest_def Let_def, folded e_def, folded authority_def]
  from def have auth: "authority \<noteq> []" "CHR ''@'' \<notin> set authority" by (auto split: if_splits)
  from def obtain host port_text where split: "split_target_authority authority = Some (host, port_text)"
    by (cases "split_target_authority authority") (auto split: if_splits)
  define po where "po = (case port_text of None \<Rightarrow> Some 80 | Some text \<Rightarrow> parse_port text)"
  note def = def [unfolded split option.case prod.case, folded po_def]
  from def obtain p where p: "po = Some p" by (cases po) (auto split: if_splits)
  note def = def [unfolded p option.case]
  define ot where "ot = (case e of None \<Rightarrow> ''/'' | Some e \<Rightarrow> origin_of_suffix (drop e rest))"
  note def = def [folded ot_def]
  have guard: "(if b then None else z) = Some y \<longleftrightarrow> \<not> b \<and> z = Some y" for b z and y :: parsed_http_target
    by simp
  from def have g: "\<not> (ot = [] \<or> hd ot \<noteq> CHR ''/'')" "\<not> \<not> escapes_ok ot"
    and rr: "r = \<lparr>ht_destination = http_destination make_address host p,
      ht_authority = authority, ht_origin_target = ot, ht_empty_path_and_query = (e = None)\<rparr>"
    unfolding guard option.inject by blast+
  from g have "hd ot = CHR ''/''" "escapes_ok ot" by blast+
  with rr have orig: "hd (ht_origin_target r) = CHR ''/''" "escapes_ok (ht_origin_target r)" and
    r: "ht_destination r = http_destination make_address host p" "ht_authority r = authority"
      "ht_origin_target r = (case e of None \<Rightarrow> ''/'' | Some e \<Rightarrow> origin_of_suffix (drop e rest))"
      "ht_empty_path_and_query r = (e = None)"
    by (simp_all add: ot_def [symmetric])
  have port: "port (ht_destination r) \<noteq> 0"
    using p r(1) parse_port_nonzero by (auto simp: po_def port_http_destination split: option.splits)
  show ?thesis
  proof (cases e)
    case None
    then have a: "authority = rest" by (simp add: authority_def)
    have "\<forall>c\<in>set rest. \<not> (c = CHR ''/'' \<or> c = CHR ''?'')"
      using None unfolding e_def index_where_None .
    then have "set ''@/?'' \<inter> set authority = {}" using auth(2) a by auto
    with None auth(1) orig port r a show ?thesis by (intro exI [of _ "[]"]) simp
  next
    case (Some k)
    note k = index_where_split [OF Some [unfolded e_def]]
    have a: "authority = take k rest" using Some by (simp add: authority_def)
    have d: "drop k rest = rest ! k # drop (Suc k) rest"
      using Some by (simp add: e_def index_where_Some Cons_nth_drop_Suc)
    have "set ''@/?'' \<inter> set authority = {}" using k auth(2) a by auto
    moreover have "rest = authority @ drop k rest" by (simp add: a)
    ultimately show ?thesis using Some auth orig port r d
      by (intro exI [of _ "drop k rest"]) (simp add: origin_of_suffix_def)
  qed
qed

section \<open>Properties\<close>

text \<open>When the Connection headers of a message are well formed, the headers the proxy withholds
  are exactly the hop-by-hop and proxy headers and those some Connection header lists, all up to
  case and the blanks around a list element.\<close>
theorem hop_by_hop_withheld:
  assumes "collect_connection_options headers {} = (True, options)"
  shows "is_hop_by_hop_or_proxy_header name options \<longleftrightarrow>
    lowercase_ascii name \<in> set hop_by_hop_names \<or>
    (\<exists>n v element. (n, v) \<in> set headers \<and> lowercase_ascii n = ''connection'' \<and>
       element \<in> set (comma_pieces v) \<and> lowercase_ascii name = lowercase_ascii element)"
proof -
  have "list_ex (is_http_header name) hop_by_hop_names \<longleftrightarrow> lowercase_ascii name \<in> set hop_by_hop_names"
    by (auto simp: list_ex_iff is_http_header_iff)
  with collect_connection_True [OF assms] show ?thesis
    by (fastforce simp: is_hop_by_hop_or_proxy_header_def)
qed

text \<open>An absolute target the proxy accepts is split without loss: scheme, authority and the rest
  make up the target, and the origin target is the rest, with a slash in front where the path was
  empty. Nothing that could smuggle a second request or another host passes: no blank, line break,
  backslash or fragment anywhere, no user information in the authority, no malformed escape in the
  origin target, and no port 0.\<close>
theorem absolute_target_split:
  assumes "parse_http_absolute_target make_address target = Some r"
  shows "\<exists>scheme suffix. target = scheme @ ''://'' @ ht_authority r @ suffix \<and>
    lowercase_ascii scheme = ''http'' \<and>
    ht_origin_target r = (if suffix = [] \<or> hd suffix = CHR ''?'' then CHR ''/'' # suffix else suffix) \<and>
    hd (ht_origin_target r) = CHR ''/'' \<and> (ht_empty_path_and_query r \<longleftrightarrow> suffix = []) \<and>
    list_all (\<lambda>c. \<not> bad_target_character c \<and> c \<noteq> CHR ''#'') target \<and>
    set ''@/?'' \<inter> set (ht_authority r) = {} \<and> ht_authority r \<noteq> [] \<and>
    escapes_ok (ht_origin_target r) \<and> port (ht_destination r) \<noteq> 0"
proof -
  from assms obtain i where i: "find_scheme_end target = Some i"
    "lowercase_ascii (take i target) = ''http''"
    and clean: "list_all (\<lambda>c. \<not> bad_target_character c \<and> c \<noteq> CHR ''#'') target"
    and rest: "parse_target_rest make_address (drop (i + 3) target) = Some r"
    by (auto simp: parse_http_absolute_target_def list_all_iff list_ex_iff split: if_splits option.splits)
  from parse_target_rest_split [OF rest] obtain suffix where
    s: "drop (i + 3) target = ht_authority r @ suffix"
      "ht_origin_target r = (if suffix = [] \<or> hd suffix = CHR ''?'' then CHR ''/'' # suffix else suffix)"
      "hd (ht_origin_target r) = CHR ''/''" "ht_empty_path_and_query r \<longleftrightarrow> suffix = []"
      "set ''@/?'' \<inter> set (ht_authority r) = {}" "ht_authority r \<noteq> []"
      "escapes_ok (ht_origin_target r)" "port (ht_destination r) \<noteq> 0"
    by blast
  have "target = take i target @ ''://'' @ ht_authority r @ suffix"
    using find_scheme_end_split [OF i(1)] s(1) by simp
  with i(2) clean s(2-8) show ?thesis by blast
qed

section \<open>Witnesses\<close>

definition sample_headers :: http_fields where
  "sample_headers = [(''Host'', ''example.org''), (''CONNECTION'', ''close,  X-Trace'')]"

theorem hop_by_hop_withheld_witness:
  "\<exists>options. collect_connection_options sample_headers {} = (True, options) \<and>
     is_hop_by_hop_or_proxy_header ''x-trace'' options \<and>
     \<not> is_hop_by_hop_or_proxy_header ''Host'' options"
proof -
  have "fst (collect_connection_options sample_headers {})" by code_simp
  then obtain opts where c: "collect_connection_options sample_headers {} = (True, opts)"
    by (metis (full_types) prod.collapse)
  have p: "comma_pieces ''close,  X-Trace'' = [''close'', ''X-Trace'']" by code_simp
  have l: "lowercase_ascii ''CONNECTION'' = ''connection''" "lowercase_ascii ''Host'' = ''host''"
    "lowercase_ascii ''x-trace'' = ''x-trace''" "lowercase_ascii ''X-Trace'' = ''x-trace''"
    "lowercase_ascii ''close'' = ''close''"
    by code_simp+
  have m: "(''CONNECTION'', ''close,  X-Trace'') \<in> set sample_headers"
    by (simp add: sample_headers_def)
  have "is_hop_by_hop_or_proxy_header ''x-trace'' opts"
    unfolding hop_by_hop_withheld [OF c] using m p l by (metis list.set_intros(1,2))
  moreover have "\<not> is_hop_by_hop_or_proxy_header ''Host'' opts"
    unfolding hop_by_hop_withheld [OF c] by (auto simp: sample_headers_def hop_by_hop_names_def p l)
  ultimately show ?thesis using c by blast
qed

theorem absolute_target_split_witness:
  "\<exists>r. parse_http_absolute_target (\<lambda>host. None) ''HTTP://example.org:8080?q=%2Fx'' = Some r \<and>
     ht_destination r = Domain ''example.org'' 8080 \<and> ht_origin_target r = ''/?q=%2Fx'' \<and>
     escapes_ok (ht_origin_target r)"
proof -
  let ?r = "\<lparr>ht_destination = Domain ''example.org'' 8080, ht_authority = ''example.org:8080'',
    ht_origin_target = ''/?q=%2Fx'', ht_empty_path_and_query = False\<rparr>"
  have "parse_http_absolute_target (\<lambda>host. None) ''HTTP://example.org:8080?q=%2Fx'' = Some ?r"
    by code_simp
  from this absolute_target_split [OF this] show ?thesis by (intro exI [of _ ?r]) auto
qed

end
