(* ===== verification/Socks_Session.thy ===== *)
theory Socks_Session
  imports Proxy_Address Http_Proxy_Utils
begin

text \<open>
  The SOCKS side of a proxy session: \<^verbatim>\<open>src/proxy/proxy_session_socks.cpp\<close>,
  \<^verbatim>\<open>src/proxy/proxy_session_socks4.cpp\<close>, the protocol dispatch and the result handling of
  \<^verbatim>\<open>src/proxy/proxy_session.cpp\<close>, and the users a \<^verbatim>\<open>ProxyServer\<close> accepts.  A task that awaits
  the client is written with its continuation; the client is the list of the segments the socket
  delivers, what is known of its end, and which of the writes to it succeed.
\<close>

section \<open>The session\<close>

record socks5_user =
  su_username :: string
  su_password :: string

datatype inbound_mode = Mode_mixed | Mode_http | Mode_socks

datatype session_protocol = Socks4 | Socks5 | Http

text \<open>
  \<open>ss_input\<close> holds the segments not read yet, and \<open>ss_ended\<close> says whether the client closes (or
  fails) behind them or just stays silent; write number \<open>n\<close> succeeds when \<open>ss_write_ok n\<close>.
\<close>

record socks_session =
  ss_input :: "bytes list"
  ss_ended :: bool
  ss_write_ok :: "nat \<Rightarrow> bool"
  ss_written :: "bytes list"
  ss_protocol :: session_protocol
  ss_user :: "string option"
  ss_request :: bytes  \<comment> \<open>\<^verbatim>\<open>request_header_\<close> or \<^verbatim>\<open>socks4_request_\<close>\<close>
  ss_body :: bytes     \<comment> \<open>\<^verbatim>\<open>request_body_\<close>\<close>
  ss_payload :: bytes  \<comment> \<open>\<^verbatim>\<open>socks4_payload_\<close>\<close>

definition new_session :: "bytes list \<Rightarrow> bool \<Rightarrow> (nat \<Rightarrow> bool) \<Rightarrow> socks_session" where
  "new_session input ended write_ok =
     \<lparr>ss_input = input, ss_ended = ended, ss_write_ok = write_ok, ss_written = [],
      ss_protocol = Socks5, ss_user = None, ss_request = [], ss_body = [], ss_payload = []\<rparr>"

text \<open>What a handshake task leaves the session to.\<close>

datatype handshake_end =
    Closed                       \<comment> \<open>\<^verbatim>\<open>close()\<close>\<close>
  | Waiting                      \<comment> \<open>suspended on a read nothing will complete\<close>
  | Socks_reply byte             \<comment> \<open>\<^verbatim>\<open>send_socks_reply(code, false)\<close>\<close>
  | Socks4_reply byte            \<comment> \<open>\<^verbatim>\<open>send_socks4_reply(status, false)\<close>\<close>
  | Open_target destination      \<comment> \<open>\<^verbatim>\<open>open_target(destination)\<close>\<close>
  | Open_association             \<comment> \<open>\<^verbatim>\<open>open_socks_udp_association()\<close>\<close>
  | Read_http_headers            \<comment> \<open>\<^verbatim>\<open>read_http_headers()\<close>\<close>

section \<open>Awaiting the client\<close>

text \<open>Exactly \<open>n\<close> bytes, however the segments cut them; what is left of the last one stays.\<close>

fun take_input :: "nat \<Rightarrow> bytes list \<Rightarrow> (bytes \<times> bytes list) option" where
  "take_input n [] = (if n = 0 then Some ([], []) else None)"
| "take_input n (segment # input) =
     (if n = 0 then Some ([], segment # input)
      else if length segment \<le> n
      then (case take_input (n - length segment) input of
          None \<Rightarrow> None
        | Some (data, rest) \<Rightarrow> Some (segment @ data, rest))
      else Some (take n segment, drop n segment # input))"

definition read_failed :: "socks_session \<Rightarrow> handshake_end \<times> socks_session" where
  "read_failed s = (if ss_ended s then Closed else Waiting, s\<lparr>ss_input := []\<rparr>)"

text \<open>A failed read or write throws, and every handshake task answers that with \<^verbatim>\<open>close()\<close>.\<close>

definition read_handshake_exact ::
  "nat \<Rightarrow> socks_session \<Rightarrow> (bytes \<Rightarrow> socks_session \<Rightarrow> handshake_end \<times> socks_session) \<Rightarrow>
     handshake_end \<times> socks_session" where
  "read_handshake_exact n s k =
     (case take_input n (ss_input s) of
        None \<Rightarrow> read_failed s
      | Some (data, rest) \<Rightarrow> k data (s\<lparr>ss_input := rest\<rparr>))"

definition write_handshake_all ::
  "bytes \<Rightarrow> socks_session \<Rightarrow> (socks_session \<Rightarrow> handshake_end \<times> socks_session) \<Rightarrow>
     handshake_end \<times> socks_session" where
  "write_handshake_all data s k =
     (if ss_write_ok s (length (ss_written s)) then k (s\<lparr>ss_written := ss_written s @ [data]\<rparr>)
      else (Closed, s))"

section \<open>SOCKS5\<close>

definition request_port :: "bytes \<Rightarrow> u16" where
  "request_port body = port_of (body ! (length body - 2)) (body ! (length body - 1))"

definition open_socks_target :: "socks_session \<Rightarrow> handshake_end \<times> socks_session" where
  "open_socks_target s =
     (let body = ss_body s; type = ss_request s ! 3 in
      if ss_request s ! 1 = 0x03 then (Open_association, s)
      else if type = 0x01
      then (Open_target (Address (v4_from_bytes (take 4 body)) (request_port body)), s)
      else if type = 0x04
      then (Open_target (Address (v6_from_bytes (take 16 body)) (request_port body)), s)
      else if type = 0x03
      then (Open_target (Domain (string_of_bytes (take (length body - 2) body))
             (request_port body)), s)
      else (Socks_reply 0x08, s))"

definition read_request_body :: "nat \<Rightarrow> socks_session \<Rightarrow> handshake_end \<times> socks_session" where
  "read_request_body n s =
     read_handshake_exact n s (\<lambda>body s. open_socks_target (s\<lparr>ss_body := body\<rparr>))"

definition read_domain_request :: "socks_session \<Rightarrow> handshake_end \<times> socks_session" where
  "read_domain_request s =
     read_handshake_exact 1 s (\<lambda>domain_length s.
       if domain_length ! 0 = 0 then (Closed, s)
       else read_request_body (unat (domain_length ! 0) + 2) s)"

definition read_request_address :: "socks_session \<Rightarrow> handshake_end \<times> socks_session" where
  "read_request_address s =
     (let type = ss_request s ! 3 in
      if type = 0x01 then read_request_body 6 s
      else if type = 0x03 then read_domain_request s
      else if type = 0x04 then read_request_body 18 s
      else (Socks_reply 0x08, s))"

definition read_socks5_request :: "socks_session \<Rightarrow> handshake_end \<times> socks_session" where
  "read_socks5_request s =
     read_handshake_exact 4 s (\<lambda>header s.
       let s = s\<lparr>ss_request := header\<rparr> in
       if header ! 0 \<noteq> 0x05 then (Closed, s)
       else if header ! 1 \<noteq> 0x01 \<and> header ! 1 \<noteq> 0x03 then (Socks_reply 0x07, s)
       else read_request_address s)"

definition find_user :: "socks5_user list \<Rightarrow> string \<Rightarrow> string \<Rightarrow> socks5_user option" where
  "find_user users username password =
     List.find (\<lambda>u. su_username u = username \<and> su_password u = password) users"

definition socks5_check ::
  "socks5_user list \<Rightarrow> bytes \<Rightarrow> bytes \<Rightarrow> socks_session \<Rightarrow> handshake_end \<times> socks_session" where
  "socks5_check users username password s =
     (case find_user users (string_of_bytes username) (string_of_bytes password) of
        None \<Rightarrow> write_handshake_all [0x01, 0x01] s (\<lambda>s. (Closed, s))
      | Some user \<Rightarrow>
          write_handshake_all [0x01, 0x00] (s\<lparr>ss_user := Some (su_username user)\<rparr>)
            read_socks5_request)"

definition read_password ::
  "socks5_user list \<Rightarrow> bytes \<Rightarrow> socks_session \<Rightarrow> handshake_end \<times> socks_session" where
  "read_password users username s =
     read_handshake_exact 1 s (\<lambda>password_length s.
       if password_length ! 0 = 0
       then write_handshake_all [0x01, 0x01] s (\<lambda>s. (Closed, s))
       else read_handshake_exact (unat (password_length ! 0)) s (socks5_check users username))"

definition socks5_authenticate ::
  "socks5_user list \<Rightarrow> socks_session \<Rightarrow> handshake_end \<times> socks_session" where
  "socks5_authenticate users s =
     read_handshake_exact 2 s (\<lambda>auth_header s.
       if auth_header ! 0 \<noteq> 0x01 \<or> auth_header ! 1 = 0
       then write_handshake_all [0x01, 0x01] s (\<lambda>s. (Closed, s))
       else read_handshake_exact (unat (auth_header ! 1)) s (read_password users))"

definition run_socks5_handshake ::
  "socks5_user list \<Rightarrow> socks_session \<Rightarrow> handshake_end \<times> socks_session" where
  "run_socks5_handshake users s =
     read_handshake_exact 1 s (\<lambda>method_count s.
       if method_count ! 0 = 0
       then write_handshake_all [0x05, 0xff] s (\<lambda>s. (Closed, s))
       else
         read_handshake_exact (unat (method_count ! 0)) s (\<lambda>methods s.
           let required_method = (if users = [] then 0x00 else 0x02);
               negotiated = (if required_method \<in> set methods then required_method else 0xff)
           in write_handshake_all [0x05, negotiated] s (\<lambda>s.
                if negotiated \<noteq> 0x00 \<and> negotiated \<noteq> 0x02 then (Closed, s)
                else if negotiated = 0x02 then socks5_authenticate users s
                else read_socks5_request s)))"

section \<open>SOCKS4\<close>

definition maximum_string_length :: nat where
  "maximum_string_length = 256"

definition is_socks4a_address :: "bytes \<Rightarrow> bool" where
  "is_socks4a_address request \<longleftrightarrow>
     request ! 4 = 0 \<and> request ! 5 = 0 \<and> request ! 6 = 0 \<and> request ! 7 \<noteq> 0"

definition socks4_port :: "bytes \<Rightarrow> u16" where
  "socks4_port request = port_of (request ! 2) (request ! 3)"

text \<open>\<^verbatim>\<open>async_read_some\<close> into a chunk of 1024 bytes: at most the next segment.\<close>

fun read_some :: "nat \<Rightarrow> bytes list \<Rightarrow> (bytes \<times> bytes list) option" where
  "read_some n [] = None"
| "read_some n (segment # input) =
     (if length segment \<le> n then Some (segment, input)
      else Some (take n segment, drop n segment # input))"

text \<open>
  \<^verbatim>\<open>read_socks4_cstring\<close>: reading up to the next zero byte.  An empty read and an overlong string
  throw, which the caller turns into \<^verbatim>\<open>close()\<close>.  Each round takes a non-empty chunk, and no more
  than 257 bytes are ever held.
\<close>

function read_cstring_loop ::
  "socks_session \<Rightarrow> (bytes \<Rightarrow> socks_session \<Rightarrow> handshake_end \<times> socks_session) \<Rightarrow>
     handshake_end \<times> socks_session" where
  "read_cstring_loop s k =
     (case index_where (\<lambda>b. b = 0) (ss_payload s) of
        Some position \<Rightarrow>
          k (take position (ss_payload s)) (s\<lparr>ss_payload := drop (position + 1) (ss_payload s)\<rparr>)
      | None \<Rightarrow>
          if length (ss_payload s) > maximum_string_length then (Closed, s)
          else case read_some 1024 (ss_input s) of
            None \<Rightarrow> read_failed s
          | Some (chunk, rest) \<Rightarrow>
              if chunk = [] \<or> length (ss_payload s) + length chunk > maximum_string_length + 1
              then (Closed, s\<lparr>ss_input := rest\<rparr>)
              else read_cstring_loop
                (s\<lparr>ss_input := rest, ss_payload := ss_payload s @ chunk\<rparr>) k)"
  by pat_completeness auto

termination
  by (relation "measure (\<lambda>(s, k). 258 - length (ss_payload s))")
    (auto simp: maximum_string_length_def simp flip: length_greater_0_conv)

declare read_cstring_loop.simps [simp del]

definition read_socks4_cstring ::
  "socks_session \<Rightarrow> (bytes \<Rightarrow> socks_session \<Rightarrow> handshake_end \<times> socks_session) \<Rightarrow>
     handshake_end \<times> socks_session" where
  "read_socks4_cstring s k = read_cstring_loop (s\<lparr>ss_payload := []\<rparr>) k"

definition open_socks4_target :: "bytes \<Rightarrow> socks_session \<Rightarrow> handshake_end \<times> socks_session" where
  "open_socks4_target domain s =
     (let request = ss_request s in
      if is_socks4a_address request
      then (Open_target (Domain (string_of_bytes domain) (socks4_port request)), s)
      else (Open_target (Address (v4_from_bytes (take 4 (drop 4 request))) (socks4_port request)), s))"

text \<open>
  The names are compared as \<^verbatim>\<open>char\<close> with \<^verbatim>\<open>std::uint8_t\<close>, both promoted to \<^verbatim>\<open>int\<close>; \<^verbatim>\<open>char\<close> is signed
  on the x86-64 targets, so a character beyond ASCII equals no byte.
\<close>

definition char_equals_byte :: "char \<Rightarrow> byte \<Rightarrow> bool" where
  "char_equals_byte c b \<longleftrightarrow> sint (byte_of_char c) = uint b"

definition socks4_user :: "socks5_user list \<Rightarrow> bytes \<Rightarrow> string option" where
  "socks4_user users user_id =
     (if users = [] then Some (string_of_bytes user_id)
      else map_option su_username
        (List.find (\<lambda>u. su_password u = [] \<and> length (su_username u) = length user_id \<and>
           list_all2 char_equals_byte (su_username u) user_id) users))"

definition run_socks4_request ::
  "socks5_user list \<Rightarrow> socks_session \<Rightarrow> handshake_end \<times> socks_session" where
  "run_socks4_request users s =
     read_handshake_exact 7 s (\<lambda>request s.
       let s = s\<lparr>ss_request := 0x04 # request\<rparr> in
       if request ! 0 \<noteq> 0x01 then (Closed, s)
       else read_socks4_cstring s (\<lambda>user_id s.
         if length user_id > maximum_string_length then (Closed, s)
         else case socks4_user users user_id of
           None \<Rightarrow> (Socks4_reply 0x5d, s)
         | Some user \<Rightarrow>
             let s = s\<lparr>ss_user := Some user\<rparr> in
             if is_socks4a_address (ss_request s)
             then read_socks4_cstring s (\<lambda>domain s.
               if domain = [] \<or> length domain > maximum_string_length then (Socks4_reply 0x5b, s)
               else open_socks4_target domain s)
             else open_socks4_target [] s))"

section \<open>The first byte\<close>

text \<open>\<^verbatim>\<open>run_handshake\<close> behind the TLS handshake.\<close>

definition run_handshake ::
  "inbound_mode \<Rightarrow> socks5_user list \<Rightarrow> socks_session \<Rightarrow> handshake_end \<times> socks_session" where
  "run_handshake mode users s =
     read_handshake_exact 1 s (\<lambda>protocol_byte s.
       if protocol_byte ! 0 = 0x04 then
         (if mode = Mode_http then (Closed, s)
          else run_socks4_request users (s\<lparr>ss_protocol := Socks4\<rparr>))
       else if protocol_byte ! 0 = 0x05 then
         (if mode = Mode_http then (Closed, s)
          else run_socks5_handshake users (s\<lparr>ss_protocol := Socks5\<rparr>))
       else if mode = Mode_socks then (Closed, s)
       else (Read_http_headers, s\<lparr>ss_protocol := Http\<rparr>))"

section \<open>Answers\<close>

text \<open>The 22 bytes of \<^verbatim>\<open>reply_\<close> cut to the size the address needs.\<close>

definition socks5_reply :: "byte \<Rightarrow> endpoint option \<Rightarrow> bytes" where
  "socks5_reply reply bound =
     (case (if reply = 0x00 then bound else None) of
        None \<Rightarrow> [0x05, reply, 0x00, 0x01] @ replicate 6 0
      | Some e \<Rightarrow>
          (if is_v4 (ep_address e)
           then [0x05, reply, 0x00, 0x01] @ address_bytes (ep_address e) @ port_bytes (ep_port e)
           else [0x05, reply, 0x00, 0x04] @ address_bytes (ep_address e) @ port_bytes (ep_port e)))"

definition socks4_reply :: "byte \<Rightarrow> bytes \<Rightarrow> bytes" where
  "socks4_reply status request = [0x00, status] @ take 6 (drop 2 request)"

definition associate_reply :: "endpoint \<Rightarrow> bytes" where
  "associate_reply e =
     (if is_v4 (ep_address e)
      then [0x05, 0x00, 0x00, 0x01] @ address_bytes (ep_address e) @ port_bytes (ep_port e)
      else [0x05, 0x00, 0x00, 0x04] @ address_bytes (ep_address e) @ port_bytes (ep_port e))"

fun socks_error_code :: "error option \<Rightarrow> byte" where
  "socks_error_code None = 0x01"
| "socks_error_code (Some e) =
     (case code e of
        Resolution \<Rightarrow> 0x04
      | Rejected \<Rightarrow> 0x02
      | Endpoint_connection \<Rightarrow> 0x05
      | Transport_io \<Rightarrow> 0x05
      | _ \<Rightarrow> 0x01)"

text \<open>
  \<^verbatim>\<open>handle_open_result\<close> of a session that is still open: the answer to the client, and whether the
  relay starts once it is written. An opened stream has a local endpoint or none that can be read.
\<close>

datatype open_result = Opened "endpoint option" | Open_failed "error option"

datatype open_answer =
    Answer_socks bytes bool
  | Answer_http nat string bool
  | Answer_http_forward nat string
  | Start_upgrade_exchange
  | Start_forward_exchange

definition handle_open_result ::
  "socks_session \<Rightarrow> bool \<Rightarrow> bool \<Rightarrow> open_result \<Rightarrow> open_answer" where
  "handle_open_result s forward upgrade result =
     (case result of
        Open_failed e \<Rightarrow>
          (let status = (if map_option code e = Some Rejected then 403 else 502);
               reason = (if status = (403 :: nat) then ''Forbidden'' else ''Bad Gateway'')
           in case ss_protocol s of
                Socks4 \<Rightarrow> Answer_socks (socks4_reply 0x5b (ss_request s)) False
              | Socks5 \<Rightarrow> Answer_socks (socks5_reply (socks_error_code e) None) False
              | Http \<Rightarrow> if forward then Answer_http_forward status reason
                        else Answer_http status reason False)
      | Opened bound \<Rightarrow>
          (case ss_protocol s of
             Socks4 \<Rightarrow> Answer_socks (socks4_reply 0x5a (ss_request s)) True
           | Socks5 \<Rightarrow> Answer_socks (socks5_reply 0x00 bound) True
           | Http \<Rightarrow> if forward
               then if upgrade then Start_upgrade_exchange else Start_forward_exchange
               else Answer_http 200 ''Connection Established'' True))"

section \<open>Users\<close>

fun check_users :: "socks5_user list \<Rightarrow> string list \<Rightarrow> (string, unit) result" where
  "check_users [] names = Inr ()"
| "check_users (user # users) names =
     (if su_username user = [] \<or> length (su_username user) > 255 \<or> length (su_password user) > 255
      then Inl ''SOCKS5 usernames and passwords must fit in one byte''
      else if \<not> has_valid_http_credentials (su_username user) (su_password user)
      then Inl ''SOCKS5 credentials contain invalid characters''
      else if su_username user \<in> set names then Inl ''SOCKS5 usernames must be unique''
      else check_users users (su_username user # names))"

definition set_socks5_users ::
  "bool \<Rightarrow> socks5_user list \<Rightarrow> socks5_user list \<Rightarrow> (string, socks5_user list) result" where
  "set_socks5_users running users old =
     (if running then Inl ''Cannot change SOCKS5 users on a running proxy''
      else result_bind (check_users users []) (\<lambda>_. Inr users))"

section \<open>What reading and writing give\<close>

lemma take_input_None: "take_input n input = None \<longleftrightarrow> length (concat input) < n"
  by (induction n input rule: take_input.induct) (auto split: option.splits)

lemma take_input_Some:
  "take_input n input = Some (data, rest) \<Longrightarrow> concat input = data @ concat rest \<and> length data = n"
  by (induction n input arbitrary: data rest rule: take_input.induct)
    (auto split: option.splits if_splits)

text \<open>An end behind which the session goes on serving the client.\<close>

fun proceeds :: "handshake_end \<Rightarrow> bool" where
  "proceeds (Open_target d) = True"
| "proceeds Open_association = True"
| "proceeds _ = False"

lemma read_exact_proceeds:
  assumes "read_handshake_exact n s k = (x, s')" and "proceeds x"
  shows "\<exists>data rest. concat (ss_input s) = data @ concat rest \<and> length data = n \<and>
    k data (s\<lparr>ss_input := rest\<rparr>) = (x, s')"
  using assms take_input_Some [of n "ss_input s"]
  by (auto simp: read_handshake_exact_def read_failed_def split: option.splits if_splits)

lemma read_exact_ok:
  assumes "concat (ss_input s) = data @ tail" and "length data = n"
  shows "\<exists>rest. concat rest = tail \<and>
    (\<forall>k. read_handshake_exact n s k = k data (s\<lparr>ss_input := rest\<rparr>))"
proof -
  have "take_input n (ss_input s) \<noteq> None" using assms by (simp add: take_input_None)
  then obtain d r where r: "take_input n (ss_input s) = Some (d, r)" by auto
  from take_input_Some [OF r] assms have "d = data" "concat r = tail" by auto
  with r show ?thesis by (auto simp: read_handshake_exact_def)
qed

lemma write_proceeds:
  "write_handshake_all data s k = (x, s') \<Longrightarrow> proceeds x \<Longrightarrow>
     k (s\<lparr>ss_written := ss_written s @ [data]\<rparr>) = (x, s')"
  by (auto simp: write_handshake_all_def split: if_splits)

lemma write_refuses:
  "write_handshake_all data s (\<lambda>s. (Closed, s)) = (x, s') \<Longrightarrow> \<not> proceeds x"
  by (auto simp: write_handshake_all_def split: if_splits)

lemma length1_iff: "length xs = Suc 0 \<longleftrightarrow> (\<exists>x. xs = [x])"
  by (cases xs) auto

section \<open>The request of SOCKS5\<close>

text \<open>The request carries its destination as every other address in the protocol.\<close>

lemma request_address:
  assumes "length body = 6" shows "encode_proxy_address
    (Address (v4_from_bytes (take 4 body)) (request_port body)) = Inr (0x01 # body)"
proof -
  have "body = take 4 body @ [body ! 4, body ! 5]"
    using take2_drop [of 4 body] append_take_drop_id [of 4 body] assms by simp
  then show ?thesis
    using assms by (simp add: encode_proxy_address_def request_port_def wire_simps)
qed

lemma request_address_v6:
  assumes "length body = 18" shows "encode_proxy_address
    (Address (v6_from_bytes (take 16 body)) (request_port body)) = Inr (0x04 # body)"
proof -
  have "body = take 16 body @ [body ! 16, body ! 17]"
    using take2_drop [of 16 body] append_take_drop_id [of 16 body] assms by simp
  then show ?thesis
    using assms by (simp add: encode_proxy_address_def request_port_def wire_simps)
qed

lemma request_domain:
  assumes "length body = unat n + 2" and "n \<noteq> 0"
  shows "encode_proxy_address
    (Domain (string_of_bytes (take (unat n) body)) (request_port body)) = Inr (0x03 # n # body)"
proof -
  have "unat n \<noteq> 0" using assms(2) by (simp add: unat_eq_0)
  moreover have "body \<noteq> []" using assms(1) by auto
  moreover have "body = take (unat n) body @ [body ! unat n, body ! (unat n + 1)]"
    using take2_drop [of "unat n" body] append_take_drop_id [of "unat n" body] assms(1) by simp
  ultimately show ?thesis
    using assms by (simp add: encode_proxy_address_def request_port_def not_less wire_simps)
qed

definition request_on_wire :: "destination \<Rightarrow> bytes \<Rightarrow> bytes \<Rightarrow> bool" where
  "request_on_wire d wire tail \<longleftrightarrow>
     (\<exists>reserved address. wire = [0x05, 0x01, reserved] @ address @ tail \<and>
        encode_proxy_address d = Inr address \<and> wire_destination d)"

lemma read_request_body_proceeds:
  assumes "read_request_body n s = (x, s')" and "proceeds x"
  shows "\<exists>body rest. concat (ss_input s) = body @ concat rest \<and> length body = n \<and>
    open_socks_target (s\<lparr>ss_input := rest, ss_body := body\<rparr>) = (x, s')"
  using read_exact_proceeds [OF assms(1) [unfolded read_request_body_def] assms(2)] by metis

lemma open_socks_target_frame: "open_socks_target s = (x, s') \<Longrightarrow> s' = s"
  by (auto simp: open_socks_target_def Let_def split: if_splits)

lemma length4_iff: "length xs = 4 \<longleftrightarrow> (\<exists>a b c d. xs = [a, b, c, d])"
  by (auto simp: length_Suc_conv numeral_eq_Suc)

lemma wire_request_target:
  assumes "open_socks_target s = (Open_target d, s')" and "ss_request s = [0x05, cmd, r, type]"
    and "type = 0x01 \<and> length (ss_body s) = 6 \<and> prefix = [] \<or>
      type = 0x04 \<and> length (ss_body s) = 18 \<and> prefix = [] \<or>
      type = 0x03 \<and> (\<exists>n. n \<noteq> 0 \<and> length (ss_body s) = unat n + 2 \<and> prefix = [n])"
  shows "encode_proxy_address d = Inr (type # prefix @ ss_body s) \<and> wire_destination d \<and> cmd \<noteq> 0x03"
  using assms
  by (auto simp: open_socks_target_def Let_def request_address request_address_v6 request_domain
      split: if_splits)

lemma read_request_address_sound:
  assumes "read_request_address s = (x, s')" and "proceeds x"
  shows "\<exists>prefix body rest. concat (ss_input s) = prefix @ body @ concat rest \<and>
    open_socks_target (s\<lparr>ss_input := rest, ss_body := body\<rparr>) = (x, s') \<and>
    (ss_request s ! 3 = 0x01 \<and> length body = 6 \<and> prefix = [] \<or>
     ss_request s ! 3 = 0x04 \<and> length body = 18 \<and> prefix = [] \<or>
     ss_request s ! 3 = 0x03 \<and> (\<exists>n. n \<noteq> 0 \<and> length body = unat n + 2 \<and> prefix = [n]))"
proof -
  consider "ss_request s ! 3 = 0x01" "read_request_body 6 s = (x, s')"
    | "ss_request s ! 3 = 0x04" "read_request_body 18 s = (x, s')"
    | "ss_request s ! 3 = 0x03" "read_domain_request s = (x, s')"
    using assms by (auto simp: read_request_address_def Let_def split: if_splits)
  then show ?thesis
  proof cases
    case 3
    from read_exact_proceeds [OF 3(2) [unfolded read_domain_request_def] assms(2)] assms(2)
    obtain n rest1 where n: "concat (ss_input s) = [n] @ concat rest1" "n \<noteq> 0"
      "read_request_body (unat n + 2) (s\<lparr>ss_input := rest1\<rparr>) = (x, s')"
      by (auto simp: length1_iff split: if_splits)
    from read_request_body_proceeds [OF n(3) assms(2)] obtain body rest where
      "concat rest1 = body @ concat rest" "length body = unat n + 2"
      "open_socks_target (s\<lparr>ss_input := rest, ss_body := body\<rparr>) = (x, s')" by auto
    with 3(1) n(1,2) show ?thesis
      by (intro exI [of _ "[n]"] exI [of _ body] exI [of _ rest]) simp
  next
    case 1
    from read_request_body_proceeds [OF 1(2) assms(2)] 1(1) show ?thesis by (metis append_Nil)
  next
    case 2
    from read_request_body_proceeds [OF 2(2) assms(2)] 2(1) show ?thesis by (metis append_Nil)
  qed
qed

lemma read_socks5_request_sound:
  assumes "read_socks5_request s = (x, s')" and "proceeds x"
  shows "ss_user s' = ss_user s \<and>
    (\<forall>d. x = Open_target d \<longrightarrow> request_on_wire d (concat (ss_input s)) (concat (ss_input s')))"
proof -
  from read_exact_proceeds [OF assms(1) [unfolded read_socks5_request_def] assms(2)] assms(2)
  obtain v cmd r type rest where header: "concat (ss_input s) = [v, cmd, r, type] @ concat rest"
    "v = 0x05" "cmd = 0x01 \<or> cmd = 0x03"
    "read_request_address (s\<lparr>ss_input := rest, ss_request := [v, cmd, r, type]\<rparr>) = (x, s')"
    by (auto simp: length4_iff Let_def split: if_splits)
  let ?s = "\<lambda>rest body. s\<lparr>ss_request := [v, cmd, r, type], ss_input := rest, ss_body := body\<rparr>"
  from read_request_address_sound [OF header(4) assms(2)] obtain prefix body rest' where
    b: "concat rest = prefix @ body @ concat rest'" "open_socks_target (?s rest' body) = (x, s')"
    "type = 0x01 \<and> length body = 6 \<and> prefix = [] \<or> type = 0x04 \<and> length body = 18 \<and> prefix = [] \<or>
     type = 0x03 \<and> (\<exists>n. n \<noteq> 0 \<and> length body = unat n + 2 \<and> prefix = [n])"
    by auto
  from open_socks_target_frame [OF b(2)] have s': "s' = ?s rest' body" .
  have "request_on_wire d (concat (ss_input s)) (concat (ss_input s'))" if "x = Open_target d" for d
  proof -
    have "encode_proxy_address d = Inr (type # prefix @ body) \<and> wire_destination d \<and> cmd \<noteq> 0x03"
      using wire_request_target [of "?s rest' body" d s' cmd r type prefix] b(2,3) that header(2)
      by simp
    with header(1-3) show ?thesis
      unfolding request_on_wire_def by (intro exI [of _ r]) (simp add: b(1) s')
  qed
  with s' show ?thesis by simp
qed

lemma wire_shapes:
  assumes "encode_proxy_address d = Inr address" and "wire_destination d"
  obtains body where "address = 0x01 # body" "length body = 6"
      "d = Address (v4_from_bytes (take 4 body)) (request_port body)"
  | body where "address = 0x04 # body" "length body = 18"
      "d = Address (v6_from_bytes (take 16 body)) (request_port body)"
  | n body where "address = 0x03 # n # body" "n \<noteq> 0" "length body = unat n + 2"
      "d = Domain (string_of_bytes (take (length body - 2) body)) (request_port body)"
proof (cases d)
  case (Domain name p)
  with assms have name: "name \<noteq> []" "length name \<le> 255"
    and a: "address = 0x03 # word_of_nat (length name) # bytes_of_string name @ port_bytes p"
    by (auto simp: encode_proxy_address_def split: if_splits)
  have len: "unat (word_of_nat (length name) :: byte) = length name"
    using name(2) by (simp add: unat_of_nat)
  show ?thesis
  proof (rule that(3) [OF a])
    show "(word_of_nat (length name) :: byte) \<noteq> 0" using len name(1) by (metis length_0_conv unat_0)
  qed (use Domain len in \<open>simp_all add: request_port_def nth_append\<close>)
next
  case (Address a p)
  show ?thesis
  proof (cases a)
    case (V4 w)
    with assms Address have "address = 0x01 # be_bytes 4 w @ port_bytes p"
      by (auto simp: encode_proxy_address_def)
    from that(1) [OF this] show ?thesis
      using Address V4 by (simp add: request_port_def nth_append wire_simps)
  next
    case (V6 w sc)
    with assms Address have "address = 0x04 # be_bytes 16 w @ port_bytes p" "sc = 0"
      by (auto simp: encode_proxy_address_def)
    from that(2) [OF this(1)] this(2) show ?thesis
      using Address V6 by (simp add: request_port_def nth_append wire_simps)
  qed
qed

lemma read_request_body_ok:
  assumes "concat (ss_input s) = body @ tail" and "length body = n"
  shows "\<exists>rest. concat rest = tail \<and>
    read_request_body n s = open_socks_target (s\<lparr>ss_input := rest, ss_body := body\<rparr>)"
  using read_exact_ok [OF assms] unfolding read_request_body_def by auto

lemma read_request_address_complete:
  assumes "encode_proxy_address d = Inr address" and "wire_destination d"
    and "concat (ss_input s) = tl address @ tail"
    and "ss_request s ! 3 = hd address" and "ss_request s ! 1 \<noteq> 0x03"
  shows "\<exists>rest body. concat rest = tail \<and>
    read_request_address s = (Open_target d, s\<lparr>ss_input := rest, ss_body := body\<rparr>)"
  using assms(1,2)
proof (cases rule: wire_shapes)
  case (1 body)
  with read_request_body_ok [of s body tail 6] assms(3-5) show ?thesis
    by (auto simp: read_request_address_def open_socks_target_def)
next
  case (2 body)
  with read_request_body_ok [of s body tail 18] assms(3-5) show ?thesis
    by (auto simp: read_request_address_def open_socks_target_def)
next
  case (3 n body)
  with read_exact_ok [of s "[n]" "body @ tail" 1] assms(3,4) obtain rest where
    r: "concat rest = body @ tail"
    "read_request_address s = read_request_body (unat n + 2) (s\<lparr>ss_input := rest\<rparr>)"
    by (auto simp: read_request_address_def read_domain_request_def)
  with read_request_body_ok [of "s\<lparr>ss_input := rest\<rparr>" body tail "unat n + 2"] 3 assms(4,5)
  show ?thesis by (auto simp: open_socks_target_def)
qed

lemma read_socks5_request_complete:
  assumes "request_on_wire d (concat (ss_input s)) tail"
  shows "\<exists>s'. read_socks5_request s = (Open_target d, s') \<and> concat (ss_input s') = tail \<and>
    ss_user s' = ss_user s"
proof -
  from assms obtain r address where wire: "concat (ss_input s) = [0x05, 0x01, r] @ address @ tail"
    and enc: "encode_proxy_address d = Inr address" "wire_destination d"
    by (auto simp: request_on_wire_def)
  obtain type body where a: "address = type # body" by (rule wire_shapes [OF enc]) auto
  from read_exact_ok [of s "[0x05, 0x01, r, type]" "body @ tail" 4] wire a obtain rest where
    "concat rest = body @ tail" "read_socks5_request s =
      read_request_address (s\<lparr>ss_input := rest, ss_request := [0x05, 0x01, r, type]\<rparr>)"
    by (auto simp: read_socks5_request_def Let_def)
  with read_request_address_complete [OF enc,
      of "s\<lparr>ss_input := rest, ss_request := [0x05, 0x01, r, type]\<rparr>" tail] a
  show ?thesis by auto
qed

section \<open>The handshake of SOCKS5\<close>

text \<open>
  The reference reading of what a client sends: a greeting that offers the method the server wants,
  the credentials of a user when there are users, a request. \<open>tail\<close> is what follows.
\<close>

definition greeting_on_wire :: "byte \<Rightarrow> bytes \<Rightarrow> bytes \<Rightarrow> bool" where
  "greeting_on_wire method wire tail \<longleftrightarrow>
     (\<exists>n methods. wire = n # methods @ tail \<and> length methods = unat n \<and> method \<in> set methods)"

definition credentials_on_wire :: "socks5_user list \<Rightarrow> socks5_user \<Rightarrow> bytes \<Rightarrow> bytes \<Rightarrow> bool" where
  "credentials_on_wire users user wire tail \<longleftrightarrow>
     (\<exists>n name m password. wire = [0x01, n] @ name @ [m] @ password @ tail \<and>
        name \<noteq> [] \<and> length name = unat n \<and> password \<noteq> [] \<and> length password = unat m \<and>
        find_user users (string_of_bytes name) (string_of_bytes password) = Some user)"

definition socks5_on_wire ::
  "socks5_user list \<Rightarrow> string option \<Rightarrow> destination \<Rightarrow> bytes \<Rightarrow> bytes \<Rightarrow> bool" where
  "socks5_on_wire users name d wire tail \<longleftrightarrow>
     (\<exists>t. greeting_on_wire (if users = [] then 0x00 else 0x02) wire t \<and>
        (if users = [] then name = None \<and> request_on_wire d t tail
         else \<exists>user t'. credentials_on_wire users user t t' \<and> name = Some (su_username user) \<and>
           request_on_wire d t' tail))"

lemma find_user_Some:
  "find_user users name password = Some user \<Longrightarrow>
     user \<in> set users \<and> su_username user = name \<and> su_password user = password"
  by (auto simp: find_user_def find_Some_iff)

lemma nonempty_length: "length xs = unat (n :: byte) \<Longrightarrow> xs = [] \<longleftrightarrow> n = 0"
  by (metis length_0_conv unat_0 unat_eq_0)

lemma length2_iff: "length xs = 2 \<longleftrightarrow> (\<exists>a b. xs = [a, b])"
  by (auto simp: length_Suc_conv numeral_eq_Suc)

lemma socks5_authenticate_sound:
  assumes "socks5_authenticate users s = (x, s')" and "proceeds x"
  shows "\<exists>user s1. credentials_on_wire users user (concat (ss_input s)) (concat (ss_input s1)) \<and>
    ss_user s1 = Some (su_username user) \<and> read_socks5_request s1 = (x, s')"
proof -
  from read_exact_proceeds [OF assms(1) [unfolded socks5_authenticate_def] assms(2)] assms(2)
  obtain n r0 where h: "concat (ss_input s) = [0x01, n] @ concat r0" "n \<noteq> 0"
    "read_handshake_exact (unat n) (s\<lparr>ss_input := r0\<rparr>) (read_password users) = (x, s')"
    by (auto simp: length2_iff dest: write_refuses split: if_splits)
  from read_exact_proceeds [OF h(3) assms(2)] obtain name r1 where
    name: "concat r0 = name @ concat r1" "length name = unat n"
    "read_password users name (s\<lparr>ss_input := r1\<rparr>) = (x, s')" by auto
  from read_exact_proceeds [OF name(3) [unfolded read_password_def] assms(2)] assms(2)
  obtain m r2 where m: "concat r1 = [m] @ concat r2" "m \<noteq> 0"
    "read_handshake_exact (unat m) (s\<lparr>ss_input := r2\<rparr>) (socks5_check users name) = (x, s')"
    by (auto simp: length1_iff dest: write_refuses split: if_splits)
  from read_exact_proceeds [OF m(3) assms(2)] obtain password r3 where
    p: "concat r2 = password @ concat r3" "length password = unat m"
    "socks5_check users name password (s\<lparr>ss_input := r3\<rparr>) = (x, s')" by auto
  from p(3) assms(2) obtain user where u:
    "find_user users (string_of_bytes name) (string_of_bytes password) = Some user"
    "read_socks5_request (s\<lparr>ss_input := r3, ss_user := Some (su_username user),
       ss_written := ss_written s @ [[0x01, 0x00]]\<rparr>) = (x, s')"
    by (auto simp: socks5_check_def dest: write_refuses write_proceeds split: option.splits)
  have "credentials_on_wire users user (concat (ss_input s)) (concat r3)"
    unfolding credentials_on_wire_def
    using p(1,2) m(1,2) name(1,2) h(1,2) u(1) nonempty_length [OF name(2)] nonempty_length [OF p(2)]
    by (intro exI [of _ n] exI [of _ name] exI [of _ m] exI [of _ password]) simp
  with u(2) show ?thesis
    by (intro exI [of _ user] exI [of _ "s\<lparr>ss_input := r3, ss_user := Some (su_username user),
      ss_written := ss_written s @ [[0x01, 0x00]]\<rparr>"]) simp
qed

lemma socks5_authenticate_complete:
  assumes "credentials_on_wire users user (concat (ss_input s)) tail" and ok: "\<And>n. ss_write_ok s n"
  shows "\<exists>s1. concat (ss_input s1) = tail \<and> ss_user s1 = Some (su_username user) \<and>
    socks5_authenticate users s = read_socks5_request s1"
proof -
  from assms(1) obtain n name m password where
    w: "concat (ss_input s) = [0x01, n] @ name @ [m] @ password @ tail"
    "name \<noteq> []" "length name = unat n" "password \<noteq> []" "length password = unat m"
    "find_user users (string_of_bytes name) (string_of_bytes password) = Some user"
    by (auto simp: credentials_on_wire_def)
  then have nz: "n \<noteq> 0" "m \<noteq> 0" using nonempty_length by auto
  from read_exact_ok [OF w(1), of 2] nz(1) obtain r0 where r0: "concat r0 = name @ [m] @ password @ tail"
    "socks5_authenticate users s = read_handshake_exact (unat n) (s\<lparr>ss_input := r0\<rparr>) (read_password users)"
    by (auto simp: socks5_authenticate_def)
  from read_exact_ok [of "s\<lparr>ss_input := r0\<rparr>" name "[m] @ password @ tail" "unat n"] r0 w(3)
  obtain r1 where r1: "concat r1 = [m] @ password @ tail"
    "socks5_authenticate users s = read_password users name (s\<lparr>ss_input := r1\<rparr>)" by auto
  from read_exact_ok [of "s\<lparr>ss_input := r1\<rparr>" "[m]" "password @ tail" 1] r1 nz(2)
  obtain r2 where r2: "concat r2 = password @ tail" "socks5_authenticate users s =
      read_handshake_exact (unat m) (s\<lparr>ss_input := r2\<rparr>) (socks5_check users name)"
    by (auto simp: read_password_def)
  from read_exact_ok [of "s\<lparr>ss_input := r2\<rparr>" password tail "unat m"] r2 w(5)
  obtain r3 where r3: "concat r3 = tail"
    "socks5_authenticate users s = socks5_check users name password (s\<lparr>ss_input := r3\<rparr>)" by auto
  with w(6) ok show ?thesis
    by (intro exI [of _ "s\<lparr>ss_input := r3, ss_user := Some (su_username user),
      ss_written := ss_written s @ [[0x01, 0x00]]\<rparr>"])
      (simp add: socks5_check_def write_handshake_all_def)
qed

text \<open>Behind a greeting that offers what the server requires.\<close>

definition behind_greeting ::
  "socks5_user list \<Rightarrow> socks_session \<Rightarrow> handshake_end \<times> socks_session" where
  "behind_greeting users s =
     (if users = [] then read_socks5_request s else socks5_authenticate users s)"

lemma unat_list_nonempty: "b \<in> set xs \<Longrightarrow> length xs = unat (n :: byte) \<Longrightarrow> n \<noteq> 0"
  using nonempty_length [of xs n] by auto

lemma run_socks5_handshake_sound:
  assumes "run_socks5_handshake users s = (x, s')" and "proceeds x"
  shows "\<exists>s1. greeting_on_wire (if users = [] then 0x00 else 0x02) (concat (ss_input s))
      (concat (ss_input s1)) \<and> ss_user s1 = ss_user s \<and> behind_greeting users s1 = (x, s')"
proof -
  let ?m = "if users = [] then 0x00 else 0x02 :: byte"
  from read_exact_proceeds [OF assms(1) [unfolded run_socks5_handshake_def] assms(2)] assms(2)
  obtain n r0 where n: "concat (ss_input s) = [n] @ concat r0"
    "read_handshake_exact (unat n) (s\<lparr>ss_input := r0\<rparr>) (\<lambda>methods s.
           let required_method = ?m;
               negotiated = (if required_method \<in> set methods then required_method else 0xff)
           in write_handshake_all [0x05, negotiated] s (\<lambda>s.
                if negotiated \<noteq> 0x00 \<and> negotiated \<noteq> 0x02 then (Closed, s)
                else if negotiated = 0x02 then socks5_authenticate users s
                else read_socks5_request s)) = (x, s')"
    by (auto simp: length1_iff dest: write_refuses split: if_splits)
  from read_exact_proceeds [OF n(2) assms(2)] obtain methods r1 where
    m: "concat r0 = methods @ concat r1" "length methods = unat n"
    "?m \<in> set methods"
    "behind_greeting users (s\<lparr>ss_input := r1, ss_written := ss_written s @ [[0x05, ?m]]\<rparr>) = (x, s')"
    using assms(2)
    by (auto simp: Let_def behind_greeting_def dest!: write_proceeds split: if_splits)
  have "greeting_on_wire ?m (concat (ss_input s)) (concat r1)"
    unfolding greeting_on_wire_def using n(1) m(1-3)
    by (intro exI [of _ n] exI [of _ methods]) (simp split: if_splits)
  with m(4) show ?thesis
    by (intro exI [of _ "s\<lparr>ss_input := r1, ss_written := ss_written s @ [[0x05, ?m]]\<rparr>"]) simp
qed

lemma run_socks5_handshake_complete:
  assumes "greeting_on_wire (if users = [] then 0x00 else 0x02) (concat (ss_input s)) tail"
    and ok: "\<And>n. ss_write_ok s n"
  shows "\<exists>s1. concat (ss_input s1) = tail \<and> ss_user s1 = ss_user s \<and> ss_write_ok s1 = ss_write_ok s \<and>
    run_socks5_handshake users s = behind_greeting users s1"
proof -
  let ?m = "if users = [] then 0x00 else 0x02 :: byte"
  from assms(1) obtain n methods where w: "concat (ss_input s) = [n] @ methods @ tail"
    "length methods = unat n" "?m \<in> set methods" by (auto simp: greeting_on_wire_def)
  have nz: "n \<noteq> 0" by (rule unat_list_nonempty [OF w(3,2)])
  let ?k = "\<lambda>methods s.
           let required_method = ?m;
               negotiated = (if required_method \<in> set methods then required_method else 0xff)
           in write_handshake_all [0x05, negotiated] s (\<lambda>s.
                if negotiated \<noteq> 0x00 \<and> negotiated \<noteq> 0x02 then (Closed, s)
                else if negotiated = 0x02 then socks5_authenticate users s
                else read_socks5_request s)"
  from read_exact_ok [OF w(1), of 1] nz obtain r0 where r0: "concat r0 = methods @ tail"
    "run_socks5_handshake users s = read_handshake_exact (unat n) (s\<lparr>ss_input := r0\<rparr>) ?k"
    by (auto simp: run_socks5_handshake_def)
  from read_exact_ok [of "s\<lparr>ss_input := r0\<rparr>" methods tail "unat n"] r0 w(2) obtain r1 where
    r1: "concat r1 = tail" "run_socks5_handshake users s = ?k methods (s\<lparr>ss_input := r1\<rparr>)" by auto
  with w(3) ok show ?thesis
    by (intro exI [of _ "s\<lparr>ss_input := r1, ss_written := ss_written s @ [[0x05, ?m]]\<rparr>"])
      (cases "users = []"; simp add: Let_def write_handshake_all_def behind_greeting_def)
qed

lemma socks5_handshake_sound:
  assumes "run_socks5_handshake users s = (x, s')" and "proceeds x" and "ss_user s = None"
  shows "(if users = [] then ss_user s' = None
      else \<exists>user\<in>set users. ss_user s' = Some (su_username user)) \<and>
    (\<forall>d. x = Open_target d \<longrightarrow> socks5_on_wire users (ss_user s') d (concat (ss_input s)) (concat (ss_input s')))"
proof -
  from run_socks5_handshake_sound [OF assms(1,2)] assms(3) obtain s1 where
    g: "greeting_on_wire (if users = [] then 0x00 else 0x02) (concat (ss_input s)) (concat (ss_input s1))"
    "ss_user s1 = None" "behind_greeting users s1 = (x, s')" by auto
  show ?thesis
  proof (cases "users = []")
    case True
    with g(3) have "read_socks5_request s1 = (x, s')" by (simp add: behind_greeting_def)
    from read_socks5_request_sound [OF this assms(2)] g True show ?thesis
      unfolding socks5_on_wire_def by auto
  next
    case False
    with g(3) have "socks5_authenticate users s1 = (x, s')" by (simp add: behind_greeting_def)
    from socks5_authenticate_sound [OF this assms(2)] obtain user s2 where
      a: "credentials_on_wire users user (concat (ss_input s1)) (concat (ss_input s2))"
      "ss_user s2 = Some (su_username user)" "read_socks5_request s2 = (x, s')" by blast
    have "user \<in> set users" using a(1) by (auto simp: credentials_on_wire_def dest: find_user_Some)
    with read_socks5_request_sound [OF a(3) assms(2)] a(1,2) g False show ?thesis
      unfolding socks5_on_wire_def by auto
  qed
qed

lemma socks5_handshake_complete:
  assumes "socks5_on_wire users name d (concat (ss_input s)) tail"
    and ok: "\<And>n. ss_write_ok s n" and "ss_user s = None"
  shows "\<exists>s'. run_socks5_handshake users s = (Open_target d, s') \<and> ss_user s' = name \<and>
    concat (ss_input s') = tail"
proof -
  from assms(1) obtain t where
    t: "greeting_on_wire (if users = [] then 0x00 else 0x02) (concat (ss_input s)) t"
    "if users = [] then name = None \<and> request_on_wire d t tail
     else \<exists>user t'. credentials_on_wire users user t t' \<and> name = Some (su_username user) \<and>
       request_on_wire d t' tail" by (auto simp: socks5_on_wire_def)
  from run_socks5_handshake_complete [OF t(1) ok] assms(3) obtain s1 where
    s1: "concat (ss_input s1) = t" "ss_user s1 = None" "ss_write_ok s1 = ss_write_ok s"
    "run_socks5_handshake users s = behind_greeting users s1" by auto
  show ?thesis
  proof (cases "users = []")
    case True
    with t(2) s1 read_socks5_request_complete [of d s1 tail] show ?thesis
      by (auto simp: behind_greeting_def)
  next
    case False
    with t(2) obtain user t' where u: "credentials_on_wire users user t t'"
      "name = Some (su_username user)" "request_on_wire d t' tail" by auto
    from socks5_authenticate_complete [of users user s1 t'] u(1) s1(1,3) ok obtain s2 where
      "concat (ss_input s2) = t'" "ss_user s2 = Some (su_username user)"
      "socks5_authenticate users s1 = read_socks5_request s2" by auto
    with False u s1(4) read_socks5_request_complete [of d s2 tail] show ?thesis
      by (auto simp: behind_greeting_def)
  qed
qed

section \<open>The request of SOCKS4\<close>

lemma read_cstring_loop_proceeds:
  "read_cstring_loop s k = (x, s') \<Longrightarrow> proceeds x \<Longrightarrow>
     \<exists>data rest payload. k data (s\<lparr>ss_input := rest, ss_payload := payload\<rparr>) = (x, s')"
proof (induction s k rule: read_cstring_loop.induct)
  case (1 s k)
  show ?case
  proof (cases "index_where (\<lambda>b. b = 0) (ss_payload s)")
    case (Some position)
    with "1.prems"(1) have "k (take position (ss_payload s))
        (s\<lparr>ss_input := ss_input s, ss_payload := drop (position + 1) (ss_payload s)\<rparr>) = (x, s')"
      by (simp add: read_cstring_loop.simps [of s])
    then show ?thesis by blast
  next
    case None
    with "1.prems" obtain chunk rest where c: "\<not> length (ss_payload s) > maximum_string_length"
      "read_some 1024 (ss_input s) = Some (chunk, rest)"
      "\<not> (chunk = [] \<or> length (ss_payload s) + length chunk > maximum_string_length + 1)"
      "read_cstring_loop (s\<lparr>ss_input := rest, ss_payload := ss_payload s @ chunk\<rparr>) k = (x, s')"
      by (auto simp: read_cstring_loop.simps [of s] read_failed_def split: if_splits option.splits)
    from "1.IH" [OF None c(1,2) refl c(3,4) "1.prems"(2)] show ?thesis by simp
  qed
qed

lemma read_cstring_proceeds:
  "read_socks4_cstring s k = (x, s') \<Longrightarrow> proceeds x \<Longrightarrow>
     \<exists>data rest payload. k data (s\<lparr>ss_input := rest, ss_payload := payload\<rparr>) = (x, s')"
  unfolding read_socks4_cstring_def by (drule (1) read_cstring_loop_proceeds) simp

lemma read_cstring_segment:
  assumes "ss_input s = (word @ 0 # after) # rest" and "0 \<notin> set word"
    and "length word + length after \<le> maximum_string_length"
  shows "read_socks4_cstring s k = k word (s\<lparr>ss_input := rest, ss_payload := after\<rparr>)"
proof -
  have "index_where (\<lambda>b. b = 0) (word @ 0 # after) = Some (length word)"
    using assms(2) by (intro index_where_prefix) auto
  with assms show ?thesis
    by (simp add: read_socks4_cstring_def read_cstring_loop.simps [of "s\<lparr>ss_payload := []\<rparr>"]
        read_cstring_loop.simps [of "s\<lparr>ss_input := rest, ss_payload := word @ 0 # after\<rparr>"]
        maximum_string_length_def)
qed

lemma read_cstring_silent:
  "ss_input s = [] \<Longrightarrow> read_socks4_cstring s k = read_failed (s\<lparr>ss_payload := []\<rparr>)"
  by (simp add: read_socks4_cstring_def read_cstring_loop.simps [of "s\<lparr>ss_payload := []\<rparr>"])

lemma open_socks4_target_frame: "open_socks4_target domain s = (x, s') \<Longrightarrow> s' = s"
  by (auto simp: open_socks4_target_def Let_def split: if_splits)

lemma run_socks4_request_user:
  assumes "run_socks4_request users s = (x, s')" and "proceeds x" and "users \<noteq> []"
  shows "\<exists>user\<in>set users. su_password user = [] \<and> ss_user s' = Some (su_username user)"
proof -
  from read_exact_proceeds [OF assms(1) [unfolded run_socks4_request_def] assms(2)] assms(2)
  obtain request r0 where
    "read_socks4_cstring (s\<lparr>ss_input := r0, ss_request := 0x04 # request\<rparr>) (\<lambda>user_id s.
         if length user_id > maximum_string_length then (Closed, s)
         else case socks4_user users user_id of
           None \<Rightarrow> (Socks4_reply 0x5d, s)
         | Some user \<Rightarrow>
             let s = s\<lparr>ss_user := Some user\<rparr> in
             if is_socks4a_address (ss_request s)
             then read_socks4_cstring s (\<lambda>domain s.
               if domain = [] \<or> length domain > maximum_string_length then (Socks4_reply 0x5b, s)
               else open_socks4_target domain s)
             else open_socks4_target [] s) = (x, s')"
    by (auto simp: Let_def split: if_splits)
  from read_cstring_proceeds [OF this assms(2)] assms(2) obtain user_id user s1 where
    u: "socks4_user users user_id = Some user" "ss_user s1 = Some user"
    "(if is_socks4a_address (ss_request s1)
      then read_socks4_cstring s1 (\<lambda>domain s.
        if domain = [] \<or> length domain > maximum_string_length then (Socks4_reply 0x5b, s)
        else open_socks4_target domain s)
      else open_socks4_target [] s1) = (x, s')"
    by (fastforce simp: Let_def split: if_splits option.splits)
  have "ss_user s' = Some user"
  proof (cases "is_socks4a_address (ss_request s1)")
    case True
    with u(3) have "read_socks4_cstring s1 (\<lambda>domain s.
        if domain = [] \<or> length domain > maximum_string_length then (Socks4_reply 0x5b, s)
        else open_socks4_target domain s) = (x, s')" by simp
    from read_cstring_proceeds [OF this assms(2)] u(2) assms(2) show ?thesis
      by (auto dest: open_socks4_target_frame split: if_splits)
  next
    case False
    with u(2,3) show ?thesis by (auto dest: open_socks4_target_frame)
  qed
  moreover have "\<exists>v\<in>set users. su_password v = [] \<and> su_username v = user"
    using u(1) assms(3) by (auto simp: socks4_user_def find_Some_iff)
  ultimately show ?thesis by auto
qed

section \<open>Properties\<close>

text \<open>C13: a SOCKS5 handshake, however the network cuts it into segments, leads to opening a target
  exactly when the client sent a greeting that offers the method the server requires, the credentials
  of a user when there are users, and a request for that destination in the address format of the
  protocol; the session then runs under that user and the bytes behind the request are left.\<close>
theorem socks5_handshake_correct:
  "(\<exists>s'. run_socks5_handshake users (new_session input ended (\<lambda>_. True)) = (Open_target d, s') \<and>
      ss_user s' = name \<and> concat (ss_input s') = tail) \<longleftrightarrow>
    socks5_on_wire users name d (concat input) tail"
proof
  assume "\<exists>s'. run_socks5_handshake users (new_session input ended (\<lambda>_. True)) = (Open_target d, s') \<and>
      ss_user s' = name \<and> concat (ss_input s') = tail"
  then show "socks5_on_wire users name d (concat input) tail"
    using socks5_handshake_sound [of users "new_session input ended (\<lambda>_. True)" "Open_target d"]
    by (auto simp: new_session_def)
next
  assume "socks5_on_wire users name d (concat input) tail"
  then show "\<exists>s'. run_socks5_handshake users (new_session input ended (\<lambda>_. True)) = (Open_target d, s') \<and>
      ss_user s' = name \<and> concat (ss_input s') = tail"
    using socks5_handshake_complete [of users name d "new_session input ended (\<lambda>_. True)" tail]
    by (simp add: new_session_def)
qed

text \<open>C14: access control. When users are configured, a SOCKS session opens a target or a UDP
  association only as one of them, whatever the client sends and whichever writes fail: either it
  came by SOCKS5, with the name and the password of the user, or by SOCKS4, which carries no password
  and admits only users without one.\<close>
theorem socks_access_control:
  assumes "run_handshake mode users (new_session input ended write_ok) = (x, s')"
    and "proceeds x" and "users \<noteq> []"
  shows "mode \<noteq> Mode_http \<and> (\<exists>user\<in>set users. ss_user s' = Some (su_username user) \<and>
    (hd (concat input) = 0x04 \<and> su_password user = [] \<or>
     (\<exists>wire t t'. concat input = 0x05 # wire \<and> greeting_on_wire 0x02 wire t \<and>
        credentials_on_wire users user t t')))"
proof -
  from read_exact_proceeds [OF assms(1) [unfolded run_handshake_def] assms(2)] assms(2)
  obtain b r0 where b: "concat input = b # concat r0" "mode \<noteq> Mode_http"
    "b = 0x04 \<and> run_socks4_request users
        ((new_session input ended write_ok)\<lparr>ss_input := r0, ss_protocol := Socks4\<rparr>) = (x, s') \<or>
     b = 0x05 \<and> run_socks5_handshake users
        ((new_session input ended write_ok)\<lparr>ss_input := r0, ss_protocol := Socks5\<rparr>) = (x, s')"
    by (auto simp: new_session_def length1_iff split: if_splits)
  from b(3) show ?thesis
  proof (elim disjE conjE)
    assume "b = 0x04" "run_socks4_request users
        ((new_session input ended write_ok)\<lparr>ss_input := r0, ss_protocol := Socks4\<rparr>) = (x, s')"
    with run_socks4_request_user [OF _ assms(2,3)] b(1,2) show ?thesis by fastforce
  next
    assume five: "b = 0x05" and run: "run_socks5_handshake users
        ((new_session input ended write_ok)\<lparr>ss_input := r0, ss_protocol := Socks5\<rparr>) = (x, s')"
    from run_socks5_handshake_sound [OF run assms(2)] assms(3) obtain s1 where
      s1: "greeting_on_wire 0x02 (concat r0) (concat (ss_input s1))"
      "socks5_authenticate users s1 = (x, s')" by (auto simp: behind_greeting_def)
    from socks5_authenticate_sound [OF s1(2) assms(2)] obtain user s2 where
      u: "credentials_on_wire users user (concat (ss_input s1)) (concat (ss_input s2))"
      "ss_user s2 = Some (su_username user)" "read_socks5_request s2 = (x, s')" by blast
    have "user \<in> set users" using u(1) by (auto simp: credentials_on_wire_def dest: find_user_Some)
    moreover have "ss_user s' = Some (su_username user)"
      using read_socks5_request_sound [OF u(3) assms(2)] u(2) by simp
    ultimately show ?thesis using b(1,2) five s1(1) u(1) by blast
  qed
qed

text \<open>A SOCKS4a request is served only when its domain comes in a segment of its own: sent in one
  piece with the user name, as clients do, the domain is thrown away with the buffer and the session
  waits for it until the client gives up.\<close>
theorem socks4a_domain_lost:
  assumes "length request = 7" and "request ! 0 = 0x01" and "is_socks4a_address (0x04 # request)"
    and "0 \<notin> set user_id" and "0 \<notin> set domain" and "domain \<noteq> []"
    and "length user_id + length domain < maximum_string_length"
    and "socks4_user users user_id = Some name"
  shows "fst (run_socks4_request users
        (new_session [request, user_id @ 0 # domain @ [0]] ended write_ok)) =
      (if ended then Closed else Waiting) \<and>
    fst (run_socks4_request users
        (new_session [request, user_id @ [0], domain @ [0]] ended write_ok)) =
      Open_target (Domain (string_of_bytes domain) (socks4_port (0x04 # request)))"
proof -
  have seven: "take_input 7 (request # segments) = Some (request, segments)" for segments
    using assms(1) by (cases segments) auto
  note beginning = run_socks4_request_def read_handshake_exact_def new_session_def seven Let_def
  show ?thesis
    using assms
    by (simp add: beginning read_cstring_segment [where word = user_id and after = "domain @ [0]"]
        read_cstring_segment [where word = user_id and after = "[]"]
        read_cstring_segment [where word = domain and after = "[]"]
        read_cstring_silent read_failed_def open_socks4_target_def)
qed

section \<open>Witnesses\<close>

definition sample_users :: "socks5_user list" where
  "sample_users = [\<lparr>su_username = ''bob'', su_password = ''pw''\<rparr>]"

theorem socks_access_control_witness:
  "\<exists>s'. run_handshake Mode_mixed sample_users
      (new_session [[5, 2, 0], [2, 1, 3, 98, 111], [98, 2, 112, 119, 5, 1, 0, 1, 10, 0, 0, 1, 0, 80]]
        False (\<lambda>_. True)) = (Open_target (Address (V4 0x0a000001) 80), s') \<and>
     ss_user s' = Some ''bob''"
proof -
  let ?run = "run_handshake Mode_mixed sample_users
      (new_session [[5, 2, 0], [2, 1, 3, 98, 111], [98, 2, 112, 119, 5, 1, 0, 1, 10, 0, 0, 1, 0, 80]]
        False (\<lambda>_. True))"
  have x: "fst ?run = Open_target (Address (V4 0x0a000001) 80)" by code_simp
  then obtain s' where s': "?run = (Open_target (Address (V4 0x0a000001) 80), s')"
    by (cases ?run) auto
  have "sample_users \<noteq> []" by (simp add: sample_users_def)
  from socks_access_control [OF s' _ this] have "ss_user s' = Some ''bob''"
    by (auto simp: sample_users_def)
  with s' show ?thesis by blast
qed

theorem socks4a_domain_lost_witness:
  "fst (run_socks4_request [] (new_session [[1, 1, 187, 0, 0, 0, 1], [108, 0, 101, 120, 0]] False
      (\<lambda>_. True))) = Waiting \<and>
   fst (run_socks4_request [] (new_session [[1, 1, 187, 0, 0, 0, 1], [108, 0], [101, 120, 0]] False
      (\<lambda>_. True))) = Open_target (Domain ''ex'' 443)"
proof -
  have "string_of_bytes [101, 120] = ''ex''" "socks4_port [4, 1, 1, 187, 0, 0, 0, 1] = 443"
    "socks4_user [] [108] = Some ''l''" by code_simp+
  then show ?thesis
    using socks4a_domain_lost [of "[1, 1, 187, 0, 0, 0, 1]" "[108]" "[101, 120]" "[]" "''l''" False
        "\<lambda>_. True"]
    by (simp add: is_socks4a_address_def maximum_string_length_def)
qed

end
