(* ===== verification/Socks_Udp.thy ===== *)
theory Socks_Udp
  imports Socks_Session Unordered_Map
begin

text \<open>
  UDP through SOCKS5: the association a session keeps (\<^verbatim>\<open>src/proxy/proxy_session_socks.cpp\<close>) and the
  standalone listener (\<^verbatim>\<open>src/proxy/socks5_udp_listener.cpp\<close>).  Both keep a table of paths, one per
  destination that has a datagram handle, and a table of payloads waiting for the handle of their
  destination to open.  Everything runs on the strand of the runtime, so what lies between two
  awaits is one step; the tasks a step spawns are its actions, and their ends are later events.
\<close>

section \<open>Path tables\<close>

record udp_path =
  up_key :: bytes
  up_handle :: nat
  up_target :: endpoint
  up_client :: endpoint

record path_tables =
  pt_paths :: "(bytes, udp_path) umap"
  pt_pending :: "(bytes, bytes list) umap"

definition no_paths :: path_tables where
  "no_paths = \<lparr>pt_paths = [], pt_pending = []\<rparr>"

text \<open>Where a payload goes: over its path, behind others, nowhere, or first in a queue.\<close>

datatype admission =
    On_path udp_path
  | Queued path_tables
  | Full
  | First path_tables

definition admit :: "nat option \<Rightarrow> bytes \<Rightarrow> bytes \<Rightarrow> path_tables \<Rightarrow> admission" where
  "admit limit key payload t =
     (case um_find (pt_paths t) key of
        Some path \<Rightarrow> On_path path
      | None \<Rightarrow>
          (case um_find (pt_pending t) key of
             Some payloads \<Rightarrow>
               Queued (t\<lparr>pt_pending := um_assign key (payloads @ [payload]) (pt_pending t)\<rparr>)
           | None \<Rightarrow>
               if limit \<noteq> None \<and> length (pt_paths t) + length (pt_pending t) \<ge> the limit then Full
               else First (t\<lparr>pt_pending := um_emplace key [payload] (pt_pending t)\<rparr>)))"

text \<open>A handle opened by \<^verbatim>\<open>open_datagram\<close>, its failure, or an exception out of it.\<close>

datatype route_result = Routed nat endpoint | Route_failed | Route_threw

datatype udp_action =
    Open_route connection_metadata bytes
  | Send_payload udp_path bytes
  | Receive_responses udp_path
  | Close_handle nat
  | Send_client endpoint bytes

definition route_done ::
  "endpoint \<Rightarrow> bytes \<Rightarrow> route_result \<Rightarrow> path_tables \<Rightarrow> udp_action list \<times> path_tables" where
  "route_done client key result t =
     (case result of
        Route_threw \<Rightarrow> ([], t)
      | Route_failed \<Rightarrow> ([], t\<lparr>pt_pending := um_erase key (pt_pending t)\<rparr>)
      | Routed handle target \<Rightarrow>
          (case um_find (pt_pending t) key of
             None \<Rightarrow> ([Close_handle handle], t)
           | Some payloads \<Rightarrow>
               let path = \<lparr>up_key = key, up_handle = handle, up_target = target, up_client = client\<rparr>
               in (Receive_responses path # map (Send_payload path) payloads,
                   t\<lparr>pt_pending := um_erase key (pt_pending t),
                     pt_paths := um_emplace key path (pt_paths t)\<rparr>)))"

text \<open>The path is dropped only when it still is the one in the table.\<close>

definition owns_path :: "udp_path \<Rightarrow> path_tables \<Rightarrow> bool" where
  "owns_path path t \<longleftrightarrow>
     (case um_find (pt_paths t) (up_key path) of
        None \<Rightarrow> False | Some found \<Rightarrow> up_handle found = up_handle path)"

definition drop_path :: "udp_path \<Rightarrow> path_tables \<Rightarrow> path_tables" where
  "drop_path path t = t\<lparr>pt_paths := um_erase (up_key path) (pt_paths t)\<rparr>"

definition retire_path :: "udp_path \<Rightarrow> path_tables \<Rightarrow> udp_action list \<times> path_tables" where
  "retire_path path t =
     (if owns_path path t then ([Close_handle (up_handle path)], drop_path path t) else ([], t))"

definition close_handles :: "path_tables \<Rightarrow> udp_action list" where
  "close_handles t = map (\<lambda>(key, path). Close_handle (up_handle path)) (pt_paths t)"

section \<open>Frames\<close>

text \<open>The payload of a datagram and its destination: no fragments, a known address, a port.\<close>

definition decode_frame :: "bytes \<Rightarrow> (destination \<times> bytes \<times> bytes) option" where
  "decode_frame packet =
     (if length packet < 4 \<or> packet ! 0 \<noteq> 0 \<or> packet ! 1 \<noteq> 0 \<or> packet ! 2 \<noteq> 0 then None
      else case decode_proxy_address packet 3 of
        Inl e \<Rightarrow> None
      | Inr decoded \<Rightarrow>
          if port (da_destination decoded) = 0 then None
          else case encode_proxy_address (da_destination decoded) of
            Inl e \<Rightarrow> None
          | Inr key \<Rightarrow>
              Some (da_destination decoded, key, drop (3 + da_size decoded) packet))"

definition build_socks_udp_response :: "datagram_address \<Rightarrow> bytes \<Rightarrow> bytes option" where
  "build_socks_udp_response source payload =
     (case encode_proxy_address (to_core_destination (to_destination source)) of
        Inl e \<Rightarrow> None
      | Inr address \<Rightarrow> Some ([0, 0, 0] @ address @ payload))"

section \<open>The association of a session\<close>

record udp_association =
  ua_peer :: ip_address
  ua_expected_port :: u16
  ua_client :: "endpoint option"
  ua_user :: "string option"
  ua_tables :: path_tables
  ua_closed :: bool

definition kMaxUdpPathsPerAssociation :: nat where
  "kMaxUdpPathsPerAssociation = 128"

text \<open>
  \<^verbatim>\<open>open_socks_udp_association\<close>: what it finds of the runtime snapshot, the standalone listener (and
  its endpoint) and the sockets; the relay socket is bound or not, and its endpoint can be read or not.
\<close>

record association_env =
  ae_snapshot :: bool
  ae_listener :: "endpoint option option"
  ae_peer :: "endpoint option"
  ae_local :: "endpoint option"
  ae_bind :: "ip_address \<Rightarrow> bool"
  ae_relay :: "endpoint option"

datatype association_start =
    Refused                                   \<comment> \<open>\<^verbatim>\<open>send_socks_reply(0x01, false)\<close>\<close>
  | Listener_reply bytes
  | Relay_reply bytes udp_association bool    \<comment> \<open>whether the session is closed behind the reply\<close>

definition relay_bind_address :: "endpoint \<Rightarrow> endpoint \<Rightarrow> ip_address" where
  "relay_bind_address peer local =
     (if is_unspecified (ep_address local)
      then if is_v4 (ep_address peer) then V4 0 else V6 0 0
      else ep_address local)"

definition open_association :: "association_env \<Rightarrow> socks_session \<Rightarrow> association_start" where
  "open_association env s =
     (if \<not> ae_snapshot env then Refused
      else case ae_listener env of
        Some None \<Rightarrow> Refused
      | Some (Some e) \<Rightarrow> Listener_reply (associate_reply e)
      | None \<Rightarrow>
          (case ae_peer env of
             None \<Rightarrow> Refused
           | Some peer \<Rightarrow>
               (case ae_local env of
                  None \<Rightarrow> Refused
                | Some local \<Rightarrow>
                    if \<not> ae_bind env (relay_bind_address peer local) then Refused
                    else
                      let association = \<lparr>ua_peer = ep_address peer,
                            ua_expected_port =
                              (if length (ss_body s) \<ge> 2 then request_port (ss_body s) else 0),
                            ua_client = None, ua_user = ss_user s, ua_tables = no_paths,
                            ua_closed = False\<rparr>
                      in case ae_relay env of
                        Some e \<Rightarrow> Relay_reply (associate_reply e) association False
                      | None \<Rightarrow> Relay_reply
                          (associate_reply \<lparr>ep_address = V4 0, ep_port = 0\<rparr>) association True)))"

definition accept_udp_sender :: "endpoint \<Rightarrow> udp_association \<Rightarrow> bool \<times> udp_association" where
  "accept_udp_sender sender a =
     (if ep_address sender \<noteq> ua_peer a then (False, a)
      else case ua_client a of
        None \<Rightarrow>
          if ua_expected_port a \<noteq> 0 \<and> ep_port sender \<noteq> ua_expected_port a then (False, a)
          else (True, a\<lparr>ua_client := Some sender\<rparr>)
      | Some client \<Rightarrow> (client = sender, a))"

definition route_metadata ::
  "endpoint \<Rightarrow> destination \<Rightarrow> string option \<Rightarrow> connection_metadata" where
  "route_metadata client destination user =
     \<lparr>md_network = Udp, md_source = Some client, md_destination = destination,
      md_inbound_name = ''socks5'', md_inbound_type = ''socks5'', md_authenticated_user = user,
      md_sniffed_host = None\<rparr>"

definition process_socks_udp_packet ::
  "bytes \<Rightarrow> udp_association \<Rightarrow> udp_action list \<times> udp_association" where
  "process_socks_udp_packet packet a =
     (case decode_frame packet of
        None \<Rightarrow> ([], a)
      | Some (destination, key, payload) \<Rightarrow>
          (case admit (Some kMaxUdpPathsPerAssociation) key payload (ua_tables a) of
             On_path path \<Rightarrow> ([Send_payload path payload], a)
           | Queued t \<Rightarrow> ([], a\<lparr>ua_tables := t\<rparr>)
           | Full \<Rightarrow> ([], a)
           | First t \<Rightarrow>
               ([Open_route (route_metadata (the (ua_client a)) destination (ua_user a)) key],
                a\<lparr>ua_tables := t\<rparr>)))"

text \<open>What happens to an association: \<^verbatim>\<open>run_socks_udp_ingress\<close>, \<^verbatim>\<open>run_udp_route\<close>, \<^verbatim>\<open>run_udp_send\<close>,
  \<^verbatim>\<open>run_udp_response_loop\<close> with \<^verbatim>\<open>run_udp_client_send\<close>, and \<^verbatim>\<open>close\<close>.\<close>

datatype udp_event =
    Datagram endpoint bytes
  | Route_done bytes route_result
  | Send_failed udp_path
  | Receive_failed udp_path bool   \<comment> \<open>whether the receive was aborted\<close>
  | Response udp_path datagram_address bytes
  | Close_session

definition close_association :: "udp_association \<Rightarrow> udp_action list \<times> udp_association" where
  "close_association a =
     (if ua_closed a then ([], a)
      else (close_handles (ua_tables a), a\<lparr>ua_closed := True, ua_tables := no_paths\<rparr>))"

definition send_response :: "datagram_address \<Rightarrow> bytes \<Rightarrow> udp_association \<Rightarrow> udp_action list" where
  "send_response source payload a =
     (case (ua_client a, build_socks_udp_response source payload) of
        (Some client, Some packet) \<Rightarrow> [Send_client client packet]
      | _ \<Rightarrow> [])"

definition association_route ::
  "bytes \<Rightarrow> route_result \<Rightarrow> udp_association \<Rightarrow> udp_action list \<times> udp_association" where
  "association_route key result a =
     (if ua_closed a
      then ((case result of Routed handle _ \<Rightarrow> [Close_handle handle] | _ \<Rightarrow> []), a)
      else case route_done (the (ua_client a)) key result (ua_tables a) of
        (actions, t) \<Rightarrow> (actions, a\<lparr>ua_tables := t\<rparr>))"

definition socks_udp_ingress ::
  "endpoint \<Rightarrow> bytes \<Rightarrow> udp_association \<Rightarrow> udp_action list \<times> udp_association" where
  [simp]: "socks_udp_ingress sender packet a =
     (if ua_closed a then ([], a)
      else case accept_udp_sender sender a of
        (False, a') \<Rightarrow> ([], a')
      | (True, a') \<Rightarrow> process_socks_udp_packet packet a')"

definition udp_send_failed :: "udp_path \<Rightarrow> udp_association \<Rightarrow> udp_action list \<times> udp_association" where
  [simp]: "udp_send_failed path a =
     (if ua_closed a then ([], a)
      else case retire_path path (ua_tables a) of
        (actions, t) \<Rightarrow> (actions, a\<lparr>ua_tables := t\<rparr>))"

definition udp_receive_failed ::
  "udp_path \<Rightarrow> bool \<Rightarrow> udp_association \<Rightarrow> udp_action list \<times> udp_association" where
  [simp]: "udp_receive_failed path aborted a =
     (if ua_closed a \<or> aborted \<or> \<not> owns_path path (ua_tables a) then ([], a)
      else ([], a\<lparr>ua_tables := drop_path path (ua_tables a)\<rparr>))"

fun association_step :: "udp_event \<Rightarrow> udp_association \<Rightarrow> udp_action list \<times> udp_association" where
  "association_step (Datagram sender packet) a = socks_udp_ingress sender packet a"
| "association_step (Route_done key result) a = association_route key result a"
| "association_step (Send_failed path) a = udp_send_failed path a"
| "association_step (Receive_failed path aborted) a = udp_receive_failed path aborted a"
| "association_step (Response path source payload) a =
     (if ua_closed a then ([], a) else (send_response source payload a, a))"
| "association_step Close_session a = close_association a"

section \<open>The standalone listener\<close>

record udp_listener =
  ul_tables :: path_tables
  ul_stopped :: bool

text \<open>\<open>show_address\<close> is \<^verbatim>\<open>boost::asio::ip::address::to_string\<close>.\<close>

definition path_key ::
  "(ip_address \<Rightarrow> string) \<Rightarrow> endpoint \<Rightarrow> bytes \<Rightarrow> bytes" where
  "path_key show_address client encoded =
     bytes_of_string (show_address (ep_address client)) @ [58] @
     bytes_of_string (show_decimal (unat (ep_port client))) @ [0] @ encoded"

definition listener_process ::
  "(ip_address \<Rightarrow> string) \<Rightarrow> bool \<Rightarrow> endpoint \<Rightarrow> bytes \<Rightarrow> udp_listener \<Rightarrow> udp_action list \<times> udp_listener"
where
  "listener_process show_address published client packet l =
     (case decode_frame packet of
        None \<Rightarrow> ([], l)
      | Some (destination, encoded, payload) \<Rightarrow>
          let key = path_key show_address client encoded in
          (case admit None key payload (ul_tables l) of
             On_path path \<Rightarrow> ([Send_payload path payload], l)
           | Queued t \<Rightarrow> ([], l\<lparr>ul_tables := t\<rparr>)
           | Full \<Rightarrow> ([], l)
           | First t \<Rightarrow>
               if published
               then ([Open_route (route_metadata client destination None) key], l\<lparr>ul_tables := t\<rparr>)
               else ([], l\<lparr>ul_tables := t\<lparr>pt_pending := um_erase key (pt_pending t)\<rparr>\<rparr>)))"

definition listener_route ::
  "endpoint \<Rightarrow> bytes \<Rightarrow> route_result \<Rightarrow> udp_listener \<Rightarrow> udp_action list \<times> udp_listener" where
  "listener_route client key result l =
     (if ul_stopped l
      then ((case result of Routed handle _ \<Rightarrow> [Close_handle handle] | _ \<Rightarrow> []), l)
      else case route_done client key result (ul_tables l) of
        (actions, t) \<Rightarrow> (actions, l\<lparr>ul_tables := t\<rparr>))"

definition listener_retire :: "udp_path \<Rightarrow> udp_listener \<Rightarrow> udp_action list \<times> udp_listener" where
  "listener_retire path l =
     (if ul_stopped l then ([], l)
      else case retire_path path (ul_tables l) of (actions, t) \<Rightarrow> (actions, l\<lparr>ul_tables := t\<rparr>))"

definition listener_respond ::
  "udp_path \<Rightarrow> datagram_address \<Rightarrow> bytes \<Rightarrow> udp_listener \<Rightarrow> udp_action list" where
  "listener_respond path source payload l =
     (if ul_stopped l then []
      else case build_socks_udp_response source payload of
        None \<Rightarrow> [] | Some packet \<Rightarrow> [Send_client (up_client path) packet])"

definition listener_stop :: "udp_listener \<Rightarrow> udp_action list \<times> udp_listener" where
  "listener_stop l =
     (close_handles (ul_tables l), l\<lparr>ul_stopped := True, ul_tables := no_paths\<rparr>)"

section \<open>Frame lemmas\<close>

lemma decode_frame_Some:
  assumes "decode_frame packet = Some (d, key, payload)"
  shows "packet = [0, 0, 0] @ key @ payload \<and> encode_proxy_address d = Inr key \<and>
    wire_destination d \<and> port d \<noteq> 0"
proof -
  from assms obtain da where da: "length packet \<ge> 4" "packet ! 0 = 0" "packet ! 1 = 0" "packet ! 2 = 0"
    "decode_proxy_address packet 3 = Inr da" "port (da_destination da) \<noteq> 0" "d = da_destination da"
    "encode_proxy_address d = Inr key" "payload = drop (3 + da_size da) packet"
    by (auto simp: decode_frame_def split: if_splits sum.splits)
  from encode_decode_at [OF da(5)] da(7,8) have e: "3 + da_size da \<le> length packet"
    "key = take (da_size da) (drop 3 packet)" "wire_destination d" by auto
  have "packet = take 3 packet @ take (da_size da) (drop 3 packet) @ drop (3 + da_size da) packet"
    by (metis append_take_drop_id drop_drop add.commute)
  moreover have "take 3 packet = [0, 0, 0]"
    using da(1-4) by (auto simp: Suc_le_length_iff eval_nat_numeral)
  ultimately show ?thesis using da e by metis
qed

lemma decode_frame_build:
  assumes "encode_proxy_address d = Inr key" and "wire_destination d" and "port d \<noteq> 0"
  shows "decode_frame ([0, 0, 0] @ key @ payload) = Some (d, key, payload)"
proof -
  have "decode_proxy_address ([0, 0, 0] @ key @ payload) (length [0 :: byte, 0, 0]) =
      Inr \<lparr>da_destination = d, da_size = length key\<rparr>"
    by (rule decode_encode_at [OF assms(1,2)])
  moreover have "key \<noteq> []" using assms(1) by (auto simp: encode_proxy_address_def split: destination.splits if_splits)
  ultimately show ?thesis
    using assms by (cases key) (auto simp: decode_frame_def eval_nat_numeral)
qed

section \<open>The tables stay consistent\<close>

definition tables_ok :: "path_tables \<Rightarrow> bool" where
  "tables_ok t \<longleftrightarrow> um_invar (pt_paths t) \<and> um_invar (pt_pending t) \<and>
     (\<forall>key. um_find (pt_paths t) key = None \<or> um_find (pt_pending t) key = None) \<and>
     (\<forall>key path. um_find (pt_paths t) key = Some path \<longrightarrow> up_key path = key) \<and>
     (\<forall>key. um_find (pt_pending t) key \<noteq> Some [])"

definition destinations :: "path_tables \<Rightarrow> nat" where
  "destinations t = length (pt_paths t) + length (pt_pending t)"

lemma tables_ok_no_paths [simp]: "tables_ok no_paths" "destinations no_paths = 0"
  by (simp_all add: tables_ok_def destinations_def no_paths_def um_find_def)

lemma admit_Queued:
  assumes "admit limit key payload t = Queued t'" and "tables_ok t"
  shows "tables_ok t' \<and> destinations t' = destinations t"
  using assms um.count_assign_old [of "pt_pending t" key]
  by (auto simp: admit_def tables_ok_def destinations_def split: option.splits if_splits)

lemma admit_First:
  assumes "admit limit key payload t = First t'" and "tables_ok t"
  shows "tables_ok t' \<and> destinations t' = Suc (destinations t) \<and>
    (limit \<noteq> None \<longrightarrow> destinations t < the limit)"
  using assms um.count_assign_new [of "pt_pending t" key]
  by (auto simp: admit_def tables_ok_def destinations_def um_emplace_def um_contains_def
      split: option.splits if_splits)

lemma erase_length: "length (um_erase k m) \<le> length m"
  by (simp add: um_erase_def)

lemma route_done_ok:
  assumes "route_done client key result t = (actions, t')" and "tables_ok t"
  shows "tables_ok t' \<and> destinations t' \<le> destinations t"
proof (cases result)
  case (Routed handle target)
  show ?thesis
  proof (cases "um_find (pt_pending t) key")
    case None
    with assms Routed show ?thesis by (simp add: route_done_def)
  next
    case (Some payloads)
    then have free: "um_find (pt_paths t) key = None" using assms(2) by (auto simp: tables_ok_def)
    from Some free assms Routed show ?thesis
      using um.count_assign_new [of "pt_paths t" key] um.count_erase_present [of "pt_pending t" key]
      by (auto simp: route_done_def tables_ok_def destinations_def um_emplace_def um_contains_def Let_def
          split: if_splits)
  qed
qed (use assms erase_length [of key "pt_pending t"] in
    \<open>auto simp: route_done_def tables_ok_def destinations_def split: if_splits\<close>)

lemma drop_path_ok:
  "tables_ok t \<Longrightarrow> tables_ok (drop_path path t) \<and> destinations (drop_path path t) \<le> destinations t"
  using erase_length [of "up_key path" "pt_paths t"]
  by (auto simp: drop_path_def tables_ok_def destinations_def)

lemma retire_path_ok:
  "retire_path path t = (actions, t') \<Longrightarrow> tables_ok t \<Longrightarrow>
     tables_ok t' \<and> destinations t' \<le> destinations t"
  using drop_path_ok [of t path] by (auto simp: retire_path_def split: if_splits)

section \<open>What an association keeps\<close>

definition association_ok :: "udp_association \<Rightarrow> bool" where
  "association_ok a \<longleftrightarrow> tables_ok (ua_tables a) \<and>
     destinations (ua_tables a) \<le> kMaxUdpPathsPerAssociation \<and>
     (ua_closed a \<longrightarrow> ua_tables a = no_paths)"

lemma accept_frame:
  "accept_udp_sender sender a = (accepted, a') \<Longrightarrow>
     ua_tables a' = ua_tables a \<and> ua_closed a' = ua_closed a \<and> ua_peer a' = ua_peer a \<and>
     ua_expected_port a' = ua_expected_port a"
  by (auto simp: accept_udp_sender_def split: if_splits option.splits)

lemma association_ok_process:
  assumes "process_socks_udp_packet packet a = (actions, a')" and "association_ok a" and "\<not> ua_closed a"
  shows "association_ok a'"
proof (cases "decode_frame packet")
  case None
  with assms show ?thesis by (simp add: process_socks_udp_packet_def)
next
  case (Some frame)
  obtain d key payload where f: "frame = (d, key, payload)" by (cases frame)
  note run = assms(1) [unfolded process_socks_udp_packet_def Some f, simplified]
  note ok = assms(2) [unfolded association_ok_def]
  show ?thesis
  proof (cases "admit (Some kMaxUdpPathsPerAssociation) key payload (ua_tables a)")
    case (Queued t)
    from admit_Queued [OF this] ok run Queued assms(3) show ?thesis by (auto simp: association_ok_def)
  next
    case (First t)
    from admit_First [OF this] ok run First assms(3) show ?thesis by (auto simp: association_ok_def)
  qed (use run assms(2) in auto)
qed

lemma association_ok_step:
  assumes "association_step ev a = (actions, a')" and "association_ok a"
  shows "association_ok a'"
proof (cases ev)
  case (Datagram sender packet)
  show ?thesis
  proof (cases "ua_closed a")
    case False
    obtain accepted a1 where acc: "accept_udp_sender sender a = (accepted, a1)" by fastforce
    from accept_frame [OF acc] have "association_ok a1" "\<not> ua_closed a1"
      using assms(2) False by (simp_all add: association_ok_def)
    with assms(1) Datagram False acc show ?thesis
      by (auto intro: association_ok_process split: bool.splits)
  qed (use assms Datagram in auto)
next
  case (Route_done key result)
  show ?thesis
  proof (cases "ua_closed a")
    case False
    obtain acts t where r: "route_done (the (ua_client a)) key result (ua_tables a) = (acts, t)"
      by fastforce
    with assms(1) Route_done False have "a' = a\<lparr>ua_tables := t\<rparr>" by (simp add: association_route_def)
    with route_done_ok [OF r] assms(2) False show ?thesis by (simp add: association_ok_def)
  qed (use assms Route_done in \<open>auto simp: association_route_def\<close>)
next
  case (Send_failed path)
  show ?thesis
  proof (cases "ua_closed a")
    case False
    obtain acts t where r: "retire_path path (ua_tables a) = (acts, t)" by fastforce
    with assms(1) Send_failed False have "a' = a\<lparr>ua_tables := t\<rparr>" by simp
    with retire_path_ok [OF r] assms(2) False show ?thesis by (simp add: association_ok_def)
  qed (use assms Send_failed in auto)
next
  case (Receive_failed path aborted)
  with assms drop_path_ok [of "ua_tables a" path] show ?thesis
    by (auto simp: association_ok_def split: if_splits)
next
  case (Response path source payload)
  with assms show ?thesis by (auto split: if_splits)
next
  case Close_session
  with assms show ?thesis
    by (auto simp: close_association_def association_ok_def split: if_splits)
qed

text \<open>A run: the states with the events that met them and the actions they caused.\<close>

fun association_run ::
  "udp_event list \<Rightarrow> udp_association \<Rightarrow>
     (udp_association \<times> udp_event \<times> udp_action list) list \<times> udp_association" where
  "association_run [] a = ([], a)"
| "association_run (ev # evs) a =
     (case association_step ev a of
        (actions, a') \<Rightarrow>
          (case association_run evs a' of (log, a'') \<Rightarrow> ((a, ev, actions) # log, a'')))"

lemma association_run_ok:
  "association_run evs a = (log, a') \<Longrightarrow> association_ok a \<Longrightarrow>
     association_ok a' \<and> (\<forall>(b, ev, actions)\<in>set log. association_ok b)"
proof (induction evs arbitrary: a log)
  case (Cons ev evs)
  from Cons.prems(1) obtain actions a1 rest where
    step: "association_step ev a = (actions, a1)" "association_run evs a1 = (rest, a')"
    "log = (a, ev, actions) # rest" by (auto split: prod.splits)
  from Cons.IH [OF step(2) association_ok_step [OF step(1) Cons.prems(2)]] Cons.prems(2) step(3)
  show ?case by auto
qed simp

definition new_association :: "ip_address \<Rightarrow> u16 \<Rightarrow> string option \<Rightarrow> udp_association" where
  "new_association peer expected user =
     \<lparr>ua_peer = peer, ua_expected_port = expected, ua_client = None, ua_user = user,
      ua_tables = no_paths, ua_closed = False\<rparr>"

lemma association_ok_new: "association_ok (new_association peer expected user)"
  by (simp add: association_ok_def new_association_def)

section \<open>Who is served\<close>

lemma accept_True:
  assumes "accept_udp_sender sender a = (True, a')"
  shows "ep_address sender = ua_peer a \<and> ua_client a' = Some sender \<and> a' = a\<lparr>ua_client := Some sender\<rparr> \<and>
    (ua_client a = None \<longrightarrow> ua_expected_port a = 0 \<or> ep_port sender = ua_expected_port a) \<and>
    (ua_client a \<noteq> None \<longrightarrow> ua_client a = Some sender)"
  using assms by (cases "ua_client a") (auto simp: accept_udp_sender_def split: if_splits)

lemma accept_False: "accept_udp_sender sender a = (False, a') \<Longrightarrow> a' = a"
  by (auto simp: accept_udp_sender_def split: if_splits option.splits)

lemma process_frame:
  "process_socks_udp_packet packet a = (actions, a') \<Longrightarrow> a' = a\<lparr>ua_tables := ua_tables a'\<rparr>"
  by (auto simp: process_socks_udp_packet_def split: option.splits admission.splits)

text \<open>The datagram is from the client, or nothing happens.\<close>

lemma datagram_cases:
  assumes "association_step (Datagram sender packet) a = (actions, a')"
  obtains "ua_closed a \<or> \<not> fst (accept_udp_sender sender a)" "actions = []" "a' = a"
  | "\<not> ua_closed a" "accept_udp_sender sender a = (True, a\<lparr>ua_client := Some sender\<rparr>)"
    "process_socks_udp_packet packet (a\<lparr>ua_client := Some sender\<rparr>) = (actions, a')"
proof (cases "ua_closed a")
  case True
  with assms have "actions = []" "a' = a" by simp_all
  with True show ?thesis by (intro that(1)) simp_all
next
  case False
  obtain accepted a1 where acc: "accept_udp_sender sender a = (accepted, a1)" by fastforce
  show ?thesis
  proof (cases accepted)
    case True
    from accept_True [OF acc [unfolded eqTrueI [OF True]]]
    have a1: "a1 = a\<lparr>ua_client := Some sender\<rparr>" by blast
    have "process_socks_udp_packet packet a1 = (actions, a')" using assms acc True False by simp
    with a1 acc True False show ?thesis by (intro that(2)) simp_all
  next
    case no: False
    from accept_False [of sender a a1] acc no have "a1 = a" by simp
    with assms acc no False show ?thesis by (intro that(1)) simp_all
  qed
qed

text \<open>What no event changes, and the client once it is known.\<close>

definition pinned :: "ip_address \<Rightarrow> u16 \<Rightarrow> string option \<Rightarrow> udp_association \<Rightarrow> bool" where
  "pinned peer expected user a \<longleftrightarrow>
     ua_peer a = peer \<and> ua_expected_port a = expected \<and> ua_user a = user \<and>
     (\<forall>c. ua_client a = Some c \<longrightarrow> ep_address c = peer \<and> (expected = 0 \<or> ep_port c = expected))"

lemma with_tables:
  "(case r of (actions, t) \<Rightarrow> (actions, a\<lparr>ua_tables := t\<rparr>)) = (acts, a') \<Longrightarrow>
     a' = a\<lparr>ua_tables := snd r\<rparr> \<and> acts = fst r"
  by (cases r) auto

lemma step_other_frame:
  assumes "association_step ev a = (actions, a')" and "\<nexists>sender packet. ev = Datagram sender packet"
  shows "ua_peer a' = ua_peer a \<and> ua_expected_port a' = ua_expected_port a \<and> ua_user a' = ua_user a \<and>
    ua_client a' = ua_client a"
  using assms
proof (cases ev)
  case (Route_done key result)
  with assms(1) show ?thesis by (auto simp: association_route_def dest: with_tables split: if_splits)
next
  case (Send_failed path)
  with assms(1) show ?thesis by (auto dest: with_tables split: if_splits)
next
  case Close_session
  with assms(1) show ?thesis by (auto simp: close_association_def split: if_splits)
qed (auto split: if_splits)

lemma pinned_step:
  assumes "association_step ev a = (actions, a')" and "pinned peer expected user a"
  shows "pinned peer expected user a' \<and> (\<forall>c. ua_client a = Some c \<longrightarrow> ua_client a' = Some c)"
proof (cases "\<exists>sender packet. ev = Datagram sender packet")
  case True
  then obtain sender packet where ev: "ev = Datagram sender packet" by blast
  from assms(1) [unfolded ev] show ?thesis
  proof (cases rule: datagram_cases)
    case 1
    with assms(2) show ?thesis by simp
  next
    case 2
    from process_frame [OF 2(3)] obtain t where "a' = a\<lparr>ua_client := Some sender, ua_tables := t\<rparr>" by auto
    with accept_True [OF 2(2)] assms(2) show ?thesis by (auto simp: pinned_def)
  qed
next
  case False
  from step_other_frame [OF assms(1) False] assms(2) show ?thesis by (auto simp: pinned_def)
qed

lemma association_run_pinned:
  "association_run evs a = (log, a') \<Longrightarrow> pinned peer expected user a \<Longrightarrow>
     pinned peer expected user a' \<and> (\<forall>c. ua_client a = Some c \<longrightarrow> ua_client a' = Some c) \<and>
     (\<forall>(b, ev, actions)\<in>set log. pinned peer expected user b \<and>
        (\<exists>b'. association_step ev b = (actions, b') \<and>
           (\<forall>c. ua_client b' = Some c \<longrightarrow> ua_client a' = Some c)))"
proof (induction evs arbitrary: a log)
  case (Cons ev evs)
  from Cons.prems(1) obtain actions a1 rest where
    step: "association_step ev a = (actions, a1)" "association_run evs a1 = (rest, a')"
    "log = (a, ev, actions) # rest" by (auto split: prod.splits)
  note one = pinned_step [OF step(1) Cons.prems(2)]
  from Cons.IH [OF step(2) conjunct1 [OF one]] one Cons.prems(2) step(1,3) show ?case by auto
qed simp

section \<open>What becomes of the payloads\<close>

definition admitted_frame :: "path_tables \<Rightarrow> bytes \<Rightarrow> (bytes \<times> bytes) option" where
  "admitted_frame t packet =
     (case decode_frame packet of
        None \<Rightarrow> None
      | Some (d, key, payload) \<Rightarrow>
          if admit (Some kMaxUdpPathsPerAssociation) key payload t = Full then None
          else Some (key, payload))"

definition admitted :: "udp_association \<Rightarrow> udp_event \<Rightarrow> (bytes \<times> bytes) option" where
  "admitted a ev =
     (case ev of
        Datagram sender packet \<Rightarrow>
          if ua_closed a \<or> \<not> fst (accept_udp_sender sender a) then None
          else admitted_frame (ua_tables a) packet
      | _ \<Rightarrow> None)"

definition of_key :: "bytes \<Rightarrow> (bytes \<times> bytes) option \<Rightarrow> bytes list" where
  "of_key key entry = (case entry of Some (k, payload) \<Rightarrow> if k = key then [payload] else [] | None \<Rightarrow> [])"

definition sent_over :: "bytes \<Rightarrow> udp_action list \<Rightarrow> bytes list" where
  "sent_over key actions = concat (map (\<lambda>act. case act of
     Send_payload path payload \<Rightarrow> if up_key path = key then [payload] else [] | _ \<Rightarrow> []) actions)"

definition queued_for :: "bytes \<Rightarrow> path_tables \<Rightarrow> bytes list" where
  "queued_for key t = (case um_find (pt_pending t) key of None \<Rightarrow> [] | Some payloads \<Rightarrow> payloads)"

text \<open>The events that throw queued payloads away.\<close>

fun loses :: "bytes \<Rightarrow> udp_event \<Rightarrow> bool" where
  "loses key (Route_done k Route_failed) = (k = key)"
| "loses key Close_session = True"
| "loses key _ = False"

lemma sent_over_simps [simp]:
  "sent_over key [] = []"
  "sent_over key (Close_handle h # actions) = sent_over key actions"
  "sent_over key (Receive_responses p # actions) = sent_over key actions"
  "sent_over key (Open_route m k # actions) = sent_over key actions"
  "sent_over key (Send_client e b # actions) = sent_over key actions"
  "sent_over key (Send_payload p b # actions) = (if up_key p = key then [b] else []) @ sent_over key actions"
  by (simp_all add: sent_over_def)

lemma sent_over_queue: "sent_over key (map (Send_payload p) bs) = (if up_key p = key then bs else [])"
  by (induction bs) simp_all

lemma process_keeps:
  assumes "process_socks_udp_packet packet a = (actions, a')" and "tables_ok (ua_tables a)"
  shows "sent_over key actions @ queued_for key (ua_tables a') = queued_for key (ua_tables a) @
    of_key key (admitted_frame (ua_tables a) packet)"
proof (cases "decode_frame packet")
  case None
  with assms show ?thesis by (simp add: process_socks_udp_packet_def of_key_def admitted_frame_def)
next
  case (Some frame)
  obtain d k payload where f: "frame = (d, k, payload)" by (cases frame)
  note run = assms(1) [unfolded process_socks_udp_packet_def Some f, simplified]
  show ?thesis
  proof (cases "admit (Some kMaxUdpPathsPerAssociation) k payload (ua_tables a)")
    case (On_path path)
    then have "um_find (pt_paths (ua_tables a)) k = Some path"
      by (auto simp: admit_def split: option.splits if_splits)
    with assms(2) have "up_key path = k" "um_find (pt_pending (ua_tables a)) k = None"
      unfolding tables_ok_def by (auto, metis option.distinct(1))
    with run On_path Some f show ?thesis by (auto simp: of_key_def admitted_frame_def queued_for_def)
  next
    case (Queued t)
    then obtain ps where "um_find (pt_pending (ua_tables a)) k = Some ps"
      "t = (ua_tables a)\<lparr>pt_pending := um_assign k (ps @ [payload]) (pt_pending (ua_tables a))\<rparr>"
      by (auto simp: admit_def split: option.splits if_splits)
    with run Queued Some f show ?thesis by (auto simp: of_key_def admitted_frame_def queued_for_def)
  next
    case Full
    with run Some f show ?thesis by (simp add: of_key_def admitted_frame_def)
  next
    case (First t)
    then have "um_find (pt_pending (ua_tables a)) k = None"
      "t = (ua_tables a)\<lparr>pt_pending := um_emplace k [payload] (pt_pending (ua_tables a))\<rparr>"
      by (auto simp: admit_def split: option.splits if_splits)
    with run First Some f show ?thesis
      by (auto simp: of_key_def admitted_frame_def queued_for_def um_emplace_def um_contains_def)
  qed
qed

lemma step_keeps:
  assumes "association_step ev a = (actions, a')" and "association_ok a" and "\<not> loses key ev"
  shows "sent_over key actions @ queued_for key (ua_tables a') =
    queued_for key (ua_tables a) @ of_key key (admitted a ev)"
proof (cases ev)
  case (Datagram sender packet)
  from assms(1) [unfolded Datagram] show ?thesis
  proof (cases rule: datagram_cases)
    case 1
    with Datagram show ?thesis by (auto simp: admitted_def of_key_def)
  next
    case 2
    have "admitted a ev = admitted_frame (ua_tables a) packet"
      using 2(1,2) Datagram by (simp add: admitted_def)
    with process_keeps [OF 2(3), of key] assms(2) show ?thesis by (simp add: association_ok_def)
  qed
next
  case (Route_done k result)
  show ?thesis
  proof (cases "ua_closed a")
    case True
    with Route_done assms(1) show ?thesis
      by (auto simp: association_route_def admitted_def of_key_def split: route_result.splits)
  next
    case False
    with Route_done assms(1) have r: "actions = fst (route_done (the (ua_client a)) k result (ua_tables a))"
      "ua_tables a' = snd (route_done (the (ua_client a)) k result (ua_tables a))"
      by (auto simp: association_route_def dest: with_tables)
    have none: "of_key key (admitted a ev) = []" using Route_done by (simp add: admitted_def of_key_def)
    show ?thesis
    proof (cases result)
      case (Routed handle target)
      then show ?thesis
        unfolding r none
        by (auto simp: route_done_def queued_for_def sent_over_queue Let_def split: option.splits)
    qed (use assms(3) Route_done r none in \<open>auto simp: route_done_def queued_for_def split: if_splits\<close>)
  qed
next
  case (Send_failed path)
  have none: "of_key key (admitted a ev) = []" using Send_failed by (simp add: admitted_def of_key_def)
  show ?thesis
  proof (cases "ua_closed a")
    case True
    with Send_failed assms(1) none show ?thesis by simp
  next
    case False
    with Send_failed assms(1) have r: "actions = fst (retire_path path (ua_tables a))"
      "ua_tables a' = snd (retire_path path (ua_tables a))" by (auto dest: with_tables)
    show ?thesis unfolding r none by (simp add: retire_path_def drop_path_def queued_for_def)
  qed
next
  case (Receive_failed path aborted)
  with assms(1) show ?thesis
    by (auto simp: admitted_def of_key_def drop_path_def queued_for_def split: if_splits)
next
  case (Response path source payload)
  with assms(1) show ?thesis
    by (auto simp: admitted_def of_key_def send_response_def split: if_splits option.splits)
next
  case Close_session
  with assms(3) show ?thesis by simp
qed

lemma run_keeps:
  "association_run evs a = (log, a') \<Longrightarrow> association_ok a \<Longrightarrow> \<forall>ev\<in>set evs. \<not> loses key ev \<Longrightarrow>
     sent_over key (concat (map (\<lambda>(b, ev, actions). actions) log)) @ queued_for key (ua_tables a') =
     queued_for key (ua_tables a) @ concat (map (\<lambda>(b, ev, actions). of_key key (admitted b ev)) log)"
proof (induction evs arbitrary: a log)
  case (Cons ev evs)
  from Cons.prems(1) obtain actions a1 rest where
    step: "association_step ev a = (actions, a1)" "association_run evs a1 = (rest, a')"
    "log = (a, ev, actions) # rest" by (auto split: prod.splits)
  have "sent_over key (xs @ ys) = sent_over key xs @ sent_over key ys" for xs ys
    by (simp add: sent_over_def)
  with Cons.IH [OF step(2) association_ok_step [OF step(1) Cons.prems(2)]] Cons.prems(3)
    step_keeps [OF step(1) Cons.prems(2)] step(3)
  show ?case by (simp flip: append_assoc) (simp add: append_assoc)
qed simp

section \<open>Properties\<close>

text \<open>The UDP association of a SOCKS5 session never holds more than 128 destinations, opening and
  opened together; a destination is never in both tables, a path is stored under its own key, and
  nothing is left when the session is closed.\<close>
theorem udp_association_bounded:
  assumes "association_run evs (new_association peer expected user) = (log, a)"
  shows "length (pt_paths (ua_tables a)) + length (pt_pending (ua_tables a)) \<le> 128 \<and>
    um_invar (pt_paths (ua_tables a)) \<and> um_invar (pt_pending (ua_tables a)) \<and>
    set (um_keys (pt_paths (ua_tables a))) \<inter> set (um_keys (pt_pending (ua_tables a))) = {} \<and>
    list_all (\<lambda>(key, path). up_key path = key) (pt_paths (ua_tables a)) \<and>
    (ua_closed a \<longrightarrow> ua_tables a = no_paths)"
proof -
  have ok: "association_ok a" using association_run_ok [OF assms association_ok_new] by simp
  then have t: "um_invar (pt_paths (ua_tables a))"
    "\<And>key. um_find (pt_paths (ua_tables a)) key = None \<or> um_find (pt_pending (ua_tables a)) key = None"
    "\<And>key path. um_find (pt_paths (ua_tables a)) key = Some path \<Longrightarrow> up_key path = key"
    by (simp_all add: association_ok_def tables_ok_def)
  have "list_all (\<lambda>(key, path). up_key path = key) (pt_paths (ua_tables a))"
    using t(3) um_find_in_set [OF t(1)] by (auto simp: list_all_iff)
  moreover have "set (um_keys (pt_paths (ua_tables a))) \<inter> set (um_keys (pt_pending (ua_tables a))) = {}"
    using t(2) by (auto simp: um_contains_iff [symmetric] um_contains_def) (metis option.distinct(1))
  ultimately show ?thesis
    using ok by (simp add: association_ok_def tables_ok_def destinations_def kMaxUdpPathsPerAssociation_def)
qed

text \<open>C15: the association serves one client. Whatever datagrams arrive, one that opens a route or is
  forwarded came from the address of the control connection and, where the client named a port, from
  that port, and all of them came from the very endpoint the association answers.\<close>
theorem udp_association_one_client:
  assumes "association_run evs (new_association peer expected user) = (log, a)"
    and "(b, Datagram sender packet, actions) \<in> set log"
    and "actions \<noteq> [] \<or> admitted b (Datagram sender packet) \<noteq> None"
  shows "ua_client a = Some sender \<and> ep_address sender = peer \<and>
    (expected = 0 \<or> ep_port sender = expected) \<and>
    list_all (\<lambda>act. case act of
      Open_route m key \<Rightarrow> md_source m = Some sender \<and> md_authenticated_user m = user | _ \<Rightarrow> True) actions"
proof -
  have start: "pinned peer expected user (new_association peer expected user)"
    by (simp add: pinned_def new_association_def)
  from association_run_pinned [OF assms(1) start] assms(2) obtain b' where
    b: "pinned peer expected user a" "pinned peer expected user b"
    "association_step (Datagram sender packet) b = (actions, b')"
    "\<And>c. ua_client b' = Some c \<Longrightarrow> ua_client a = Some c" by fastforce
  from b(3) show ?thesis
  proof (cases rule: datagram_cases)
    case 1
    with assms(3) show ?thesis by (simp add: admitted_def split: if_splits)
  next
    case 2
    from process_frame [OF 2(3)] obtain t where
      "b' = b\<lparr>ua_client := Some sender, ua_tables := t\<rparr>" by auto
    with b(4) have a: "ua_client a = Some sender" by simp
    have "list_all (\<lambda>act. case act of Open_route m key \<Rightarrow> md_source m = Some sender \<and>
        md_authenticated_user m = user | _ \<Rightarrow> True) actions"
      using 2(3) b(2)
      by (auto simp: process_socks_udp_packet_def route_metadata_def pinned_def
          split: option.splits admission.splits)
    with a b(1) show ?thesis by (simp add: pinned_def)
  qed
qed

text \<open>C16: as long as no route of it fails and the session stays open, the payloads a client sends to a
  destination go over its paths in the order they came, each one exactly once; those not sent yet wait
  for the route in that order.\<close>
theorem udp_payloads_in_order:
  assumes "association_run evs (new_association peer expected user) = (log, a)"
    and "list_all (\<lambda>ev. \<not> loses key ev) evs"
  shows "sent_over key (concat (map (\<lambda>(b, ev, actions). actions) log)) @
      (case um_find (pt_pending (ua_tables a)) key of None \<Rightarrow> [] | Some payloads \<Rightarrow> payloads) =
    concat (map (\<lambda>(b, ev, actions). of_key key (admitted b ev)) log)"
  using run_keeps [OF assms(1) association_ok_new, of key] assms(2)
  by (simp add: list_all_iff queued_for_def new_association_def no_paths_def um_find_def)

text \<open>The frame a remote payload is answered in is read back by the frame decoder, as the payload
  and the source it came from.\<close>
theorem udp_frame_roundtrip:
  assumes "build_socks_udp_response source payload = Some packet"
    and "wire_destination (to_destination source)" and "port (to_destination source) \<noteq> 0"
  shows "\<exists>key. decode_frame packet = Some (to_destination source, key, payload) \<and>
    encode_proxy_address (to_destination source) = Inr key"
  using assms decode_frame_build
  by (auto simp: build_socks_udp_response_def split: sum.splits)

section \<open>Witnesses\<close>

definition sample_client :: endpoint where
  "sample_client = \<lparr>ep_address = V4 0x7f000001, ep_port = 9999\<rparr>"

definition sample_remote :: endpoint where
  "sample_remote = \<lparr>ep_address = V4 0x08080808, ep_port = 53\<rparr>"

definition sample_packet :: bytes where
  "sample_packet = [0, 0, 0, 1, 8, 8, 8, 8, 0, 53, 42]"

definition sample_key :: bytes where
  "sample_key = [1, 8, 8, 8, 8, 0, 53]"

definition sample_events :: "udp_event list" where
  "sample_events = [Datagram sample_client sample_packet, Datagram sample_client sample_packet,
     Route_done sample_key (Routed 1 sample_remote), Datagram sample_client sample_packet]"

abbreviation sample_association_run ::
  "(udp_association \<times> udp_event \<times> udp_action list) list \<times> udp_association" where
  "sample_association_run \<equiv> association_run sample_events (new_association (V4 0x7f000001) 0 None)"

theorem udp_association_bounded_witness:
  "\<exists>log a. sample_association_run = (log, a) \<and> length (pt_paths (ua_tables a)) = 1 \<and>
     list_all (\<lambda>(key, path). up_key path = key) (pt_paths (ua_tables a))"
proof -
  obtain log a where run: "sample_association_run = (log, a)" by fastforce
  have "length (pt_paths (ua_tables (snd sample_association_run))) = 1" by code_simp
  with udp_association_bounded [OF run] run show ?thesis by auto
qed

theorem udp_association_one_client_witness:
  "\<exists>log a. sample_association_run = (log, a) \<and> ua_client a = Some sample_client"
proof -
  obtain log a where run: "sample_association_run = (log, a)" by fastforce
  have first: "log ! 0 = (new_association (V4 0x7f000001) 0 None, Datagram sample_client sample_packet,
      fst (association_step (Datagram sample_client sample_packet) (new_association (V4 0x7f000001) 0 None)))"
    "log \<noteq> []"
    using run by (auto simp: sample_events_def split: prod.splits)
  have acts: "fst (association_step (Datagram sample_client sample_packet)
      (new_association (V4 0x7f000001) 0 None)) \<noteq> []" by code_simp
  have "log ! 0 \<in> set log" using first(2) by simp
  from udp_association_one_client [OF run this [unfolded first(1)] disjI1 [OF acts]]
  have "ua_client a = Some sample_client" by blast
  with run show ?thesis by blast
qed

theorem udp_payloads_in_order_witness:
  "\<exists>log a. sample_association_run = (log, a) \<and>
     sent_over sample_key (concat (map (\<lambda>(b, ev, actions). actions) log)) = [[42], [42], [42]]"
proof -
  obtain log a where run: "sample_association_run = (log, a)" by fastforce
  have "list_all (\<lambda>ev. \<not> loses sample_key ev) sample_events" by code_simp
  from udp_payloads_in_order [OF run this] have
    e: "sent_over sample_key (concat (map (\<lambda>(b, ev, actions). actions) log)) @
      (case um_find (pt_pending (ua_tables a)) sample_key of None \<Rightarrow> [] | Some payloads \<Rightarrow> payloads) =
    concat (map (\<lambda>(b, ev, actions). of_key sample_key (admitted b ev)) log)" .
  have "(case um_find (pt_pending (ua_tables (snd sample_association_run))) sample_key of
      None \<Rightarrow> [] | Some payloads \<Rightarrow> payloads) = []" by code_simp
  moreover have "concat (map (\<lambda>(b, ev, actions). of_key sample_key (admitted b ev))
      (fst sample_association_run)) = [[42], [42], [42]]" by code_simp
  ultimately show ?thesis using run e by auto
qed

theorem udp_frame_roundtrip_witness:
  "\<exists>key. decode_frame [0, 0, 0, 1, 8, 8, 8, 8, 0, 53, 42] =
     Some (Address (V4 0x08080808) 53, key, [42])"
proof -
  have "build_socks_udp_response (Dg_address (V4 0x08080808) 53) [42] =
      Some [0, 0, 0, 1, 8, 8, 8, 8, 0, 53, 42]" by code_simp
  from udp_frame_roundtrip [OF this] show ?thesis by auto
qed

end
