(* ===== verification/Proxy_Routing.thy ===== *)
theory Proxy_Routing
  imports Traffic_Router Fake_Ip_Store Outbound_Registry Socks_Session
begin

text \<open>
  How a proxied connection finds its outbound: \<^verbatim>\<open>include/clash_native/runtime/runtime_snapshot.hpp\<close>,
  the routing and the life cycle of \<^verbatim>\<open>src/proxy/proxy_server.cpp\<close>, and the host resolution of
  \<^verbatim>\<open>src/outbound/outbound_utils.hpp\<close>.  This is where the traffic router, the FakeIP store and the
  outbound registry meet.  Outbounds are abstract values \<open>'o\<close>, resolvers abstract values \<open>'r\<close>; what
  they and the network answer is the environment of a call.
\<close>

section \<open>Runtime snapshots\<close>

record ('o, 'r) runtime_snapshot =
  rs_generation :: u64
  rs_router :: "traffic_router option"
  rs_outbounds :: "'o outbound_registry option"
  rs_resolver :: "'r option"
  rs_fake_ip_store :: "fake_ip_store option"

definition validate_snapshot :: "('r \<Rightarrow> status) \<Rightarrow> ('o, 'r) runtime_snapshot \<Rightarrow> status" where
  "validate_snapshot validate_resolver snap =
     (case (rs_router snap, rs_outbounds snap) of
        (Some router, Some outbounds) \<Rightarrow>
          result_bind (validate_registry outbounds) (\<lambda>_.
          result_bind (case rs_resolver snap of
              Some resolver \<Rightarrow> validate_resolver resolver | None \<Rightarrow> Inr ()) (\<lambda>_.
            validate router (registry_ids outbounds)))
      | _ \<Rightarrow> Inl (mk_error Configuration ''runtime snapshot is incomplete''))"

text \<open>\<^verbatim>\<open>RuntimeSnapshotStore::publish\<close>; the store holds the current snapshot, if any.\<close>

definition publish ::
  "('r \<Rightarrow> status) \<Rightarrow> ('o, 'r) runtime_snapshot option \<Rightarrow> ('o, 'r) runtime_snapshot option \<Rightarrow>
     status \<times> ('o, 'r) runtime_snapshot option" where
  "publish validate_resolver snapshot_opt current =
     (case snapshot_opt of
        None \<Rightarrow> (Inl (mk_error Configuration ''runtime snapshot is required''), current)
      | Some snap \<Rightarrow>
          (case validate_snapshot validate_resolver snap of
             Inl e \<Rightarrow> (Inl e, current)
           | Inr _ \<Rightarrow>
               (case current of
                  None \<Rightarrow> (Inr (), Some snap)
                | Some published \<Rightarrow>
                    if rs_generation snap \<le> rs_generation published
                    then (Inl (mk_error Configuration
                            ''runtime snapshot generation must increase''), current)
                    else (Inr (), Some snap))))"

section \<open>Resolving a host\<close>

text \<open>
  \<open>re_resolve\<close> is what a resolver answers for a name and a record type, \<open>re_gate n\<close> whether the
  server is still running after the \<open>n\<close>-th awaited answer, \<open>re_current\<close> the resolver of the snapshot
  that is published when a host is resolved, \<open>re_host_timeout\<close> whether that takes more than the ten
  seconds allowed.
\<close>

record ('o, 'r) route_env =
  re_make_address :: "string \<Rightarrow> ip_address option"
  re_resolve :: "'r \<Rightarrow> string \<Rightarrow> u16 \<Rightarrow> ip_address list res"
  re_gate :: "nat \<Rightarrow> bool"
  re_current :: "'r option"
  re_host_timeout :: bool
  re_caps :: "'o \<Rightarrow> outbound_capabilities"
  re_id :: "'o \<Rightarrow> string"

definition add_address :: "ip_address list \<Rightarrow> ip_address \<Rightarrow> ip_address list" where
  "add_address known address = (if address \<in> set known then known else known @ [address])"

text \<open>\<^verbatim>\<open>HostResolveState::run_resolve\<close>: the A and AAAA answers, without repetition.\<close>

fun run_resolve ::
  "(u16 \<Rightarrow> ip_address list res) \<Rightarrow> u16 list \<Rightarrow> ip_address list \<Rightarrow> error option \<Rightarrow>
     ip_address list res" where
  "run_resolve answer [] addresses first_error =
     (if addresses = []
      then Inl (case first_error of
          Some e \<Rightarrow> e
        | None \<Rightarrow> mk_error Resolution ''outbound server hostname resolved to no addresses'')
      else Inr addresses)"
| "run_resolve answer (type # types) addresses first_error =
     (case answer type of
        Inr found \<Rightarrow> run_resolve answer types (foldl add_address addresses found) first_error
      | Inl e \<Rightarrow> run_resolve answer types addresses
          (case first_error of None \<Rightarrow> Some e | Some _ \<Rightarrow> first_error))"

definition resolve_host ::
  "('o, 'r) route_env \<Rightarrow> 'r option \<Rightarrow> string \<Rightarrow> ip_address list res" where
  "resolve_host env resolver_opt host =
     (case re_make_address env host of
        Some address \<Rightarrow> Inr [address]
      | None \<Rightarrow>
          (case resolver_opt of
             None \<Rightarrow> Inl (mk_error Configuration
               ''a DNS resolver is required for outbound server hostnames'')
           | Some resolver \<Rightarrow>
               if re_host_timeout env
               then Inl (mk_error Timeout ''timed out resolving outbound server hostname'')
               else run_resolve (re_resolve env resolver host) [type_a, type_aaaa] [] None))"

section \<open>Routing a stream\<close>

record stream_request =
  sr_destination :: destination
  sr_address :: "ip_address option"

datatype 'o dial =
    Dial_direct stream_request
  | Dial_reject stream_request
  | Dial_outbound 'o stream_request

text \<open>What a route comes to: the label given to the connection registry, the dial or the error, and
  the registry, whose counters a selection advances.\<close>

record ('o, 'r) routed =
  ro_label :: "string option"
  ro_result :: "'o dial res"
  ro_snapshot :: "('o, 'r) runtime_snapshot"

definition cancelled_route_error :: error where
  "cancelled_route_error = mk_error Cancelled ''proxy route was cancelled''"

text \<open>The A and AAAA lookups of the enrichment: \<open>None\<close> when the server stopped meanwhile.\<close>

fun lookup_destination ::
  "('o, 'r) route_env \<Rightarrow> 'r \<Rightarrow> string \<Rightarrow> u16 list \<Rightarrow> nat \<Rightarrow> ip_address list \<Rightarrow>
     ip_address list option \<times> nat" where
  "lookup_destination env resolver host [] awaited addresses = (Some addresses, awaited)"
| "lookup_destination env resolver host (type # types) awaited addresses =
     (if \<not> re_gate env awaited then (None, awaited + 1)
      else lookup_destination env resolver host types (awaited + 1)
        (case re_resolve env resolver host type of
           Inl e \<Rightarrow> addresses | Inr found \<Rightarrow> addresses @ found))"

definition enriched_context :: "ip_address list \<Rightarrow> routing_context" where
  "enriched_context addresses =
     (if addresses \<noteq> []
      then \<lparr>rc_lookup = Resolved, rc_address = Some (hd addresses), rc_addresses = addresses\<rparr>
      else \<lparr>rc_lookup = Failed, rc_address = None, rc_addresses = []\<rparr>)"

definition dial_matched ::
  "('o, 'r) route_env \<Rightarrow> ('o, 'r) runtime_snapshot \<Rightarrow> connection_metadata \<Rightarrow> routing_context \<Rightarrow>
     nat \<Rightarrow> route_action \<Rightarrow> ('o, 'r) routed" where
  "dial_matched env snap metadata ctx awaited action =
     (let destination = md_destination metadata;
          request = \<lparr>sr_destination = destination, sr_address = rc_address ctx\<rparr> in
      case ra_kind action of
        Act_direct \<Rightarrow>
          \<lparr>ro_label = Some ''direct'',
           ro_result =
             (if is_domain destination \<and> rc_address ctx = None \<and> rs_resolver snap \<noteq> None
              then (let resolved = resolve_host env (re_current env) (dest_domain destination) in
                if \<not> re_gate env awaited then Inl cancelled_route_error
                else case resolved of
                  Inl e \<Rightarrow> Inl e
                | Inr [] \<Rightarrow> Inl (mk_error Resolution ''direct destination resolved to no addresses'')
                | Inr (address # _) \<Rightarrow>
                    Inr (Dial_direct \<lparr>sr_destination = destination, sr_address = Some address\<rparr>))
              else Inr (Dial_direct request)),
           ro_snapshot = snap\<rparr>
      | Act_reject \<Rightarrow>
          \<lparr>ro_label = Some ''reject'', ro_result = Inr (Dial_reject request), ro_snapshot = snap\<rparr>
      | Act_named \<Rightarrow>
          (case rs_outbounds snap of
             None \<Rightarrow>
               \<lparr>ro_label = None,
                ro_result = Inl (mk_error Configuration ''proxy outbound registry is missing''),
                ro_snapshot = snap\<rparr>
           | Some registry \<Rightarrow>
               (case select_outbound registry (ra_target action) of
                  (Inl e, registry') \<Rightarrow>
                    \<lparr>ro_label = None, ro_result = Inl e,
                     ro_snapshot = snap\<lparr>rs_outbounds := Some registry'\<rparr>\<rparr>
                | (Inr out, registry') \<Rightarrow>
                    \<lparr>ro_label = Some (re_id env out), ro_result = Inr (Dial_outbound out request),
                     ro_snapshot = snap\<lparr>rs_outbounds := Some registry'\<rparr>\<rparr>)))"

definition route_error ::
  "('o, 'r) runtime_snapshot \<Rightarrow> error \<Rightarrow> ('o, 'r) routed" where
  "route_error snap e = \<lparr>ro_label = None, ro_result = Inl e, ro_snapshot = snap\<rparr>"

text \<open>The \<^verbatim>\<open>for (;;)\<close> of \<^verbatim>\<open>route_stream\<close>.\<close>

partial_function (option) route_stream ::
  "('o, 'r) route_env \<Rightarrow> ('o, 'r) runtime_snapshot \<Rightarrow> traffic_router \<Rightarrow> connection_metadata \<Rightarrow>
     routing_context \<Rightarrow> nat \<Rightarrow> nat \<Rightarrow> ('o, 'r) routed option" where
  "route_stream env snap router metadata ctx start awaited =
     (case evaluate router metadata ctx start of
        Need_metadata need rule_index \<Rightarrow>
          if need \<noteq> Need_destination_ip \<or> \<not> is_domain (md_destination metadata) \<or>
             rs_resolver snap = None
          then Some (route_error snap
                 (mk_error Resolution ''destination IP enrichment is not configured''))
          else (case lookup_destination env (the (rs_resolver snap))
                  (dest_domain (md_destination metadata)) [type_a, type_aaaa] awaited [] of
              (None, awaited') \<Rightarrow> Some (route_error snap cancelled_route_error)
            | (Some addresses, awaited') \<Rightarrow>
                route_stream env snap router metadata (enriched_context addresses) rule_index
                  awaited')
      | Matched decision \<Rightarrow>
          Some (dial_matched env snap metadata ctx awaited (rd_action decision))
      | No_match \<Rightarrow> Some (route_error snap
          (mk_error Resolution ''routing requires destination IP enrichment'')))"

declare route_stream.simps [code]

text \<open>\<open>now\<close> is the clock reading of the FakeIP store.\<close>

definition restore_fake_ip ::
  "int \<Rightarrow> ('o, 'r) runtime_snapshot \<Rightarrow> connection_metadata \<Rightarrow>
     connection_metadata \<times> ('o, 'r) runtime_snapshot" where
  "restore_fake_ip now snap metadata =
     (case (rs_fake_ip_store snap, md_destination metadata) of
        (Some store, Address (V4 address) p) \<Rightarrow>
          (case reverse now address store of
             (None, store') \<Rightarrow> (metadata, snap\<lparr>rs_fake_ip_store := Some store'\<rparr>)
           | (Some domain, store') \<Rightarrow>
               (metadata\<lparr>md_destination := Domain domain p\<rparr>,
                snap\<lparr>rs_fake_ip_store := Some store'\<rparr>))
      | _ \<Rightarrow> (metadata, snap))"

definition empty_context :: routing_context where
  "empty_context = \<lparr>rc_lookup = Unrequested, rc_address = None, rc_addresses = []\<rparr>"

text \<open>\<open>Inl\<close> is the failure without a snapshot. A published snapshot has a router.\<close>

definition open_stream ::
  "('o, 'r) route_env \<Rightarrow> int \<Rightarrow> ('o, 'r) runtime_snapshot option \<Rightarrow> connection_metadata \<Rightarrow>
     (error, ('o, 'r) routed option) result" where
  "open_stream env now published metadata =
     (case published of
        None \<Rightarrow> Inl (mk_error Configuration ''proxy runtime snapshot is not published'')
      | Some snap \<Rightarrow>
          (case restore_fake_ip now snap metadata of
             (metadata', snap') \<Rightarrow>
               Inr (route_stream env snap' (the (rs_router snap')) metadata' empty_context 0 0)))"

section \<open>The built-in outbounds\<close>

definition direct_capabilities :: outbound_capabilities where
  "direct_capabilities = \<lparr>cap_stream = True, cap_datagram = Fixed_destination,
     cap_stream_target = Domain_or_ip, cap_datagram_target = Ip_required\<rparr>"

definition reject_capabilities :: outbound_capabilities where
  "reject_capabilities = default_capabilities\<lparr>cap_stream := False, cap_datagram := Dg_unsupported\<rparr>"

text \<open>The endpoints a direct stream is connected to; \<open>show_target\<close> is \<^verbatim>\<open>destination_text\<close>.\<close>

definition direct_endpoints ::
  "('o, 'r) route_env \<Rightarrow> 'r option \<Rightarrow> (destination \<Rightarrow> string) \<Rightarrow> stream_request \<Rightarrow>
     endpoint list res" where
  "direct_endpoints env resolver_opt show_target request =
     (let to_endpoints = map (\<lambda>a. \<lparr>ep_address = a, ep_port = port (sr_destination request)\<rparr>) in
      case sr_address request of
        Some address \<Rightarrow> Inr (to_endpoints [address])
      | None \<Rightarrow>
          (case sr_destination request of
             Address address p \<Rightarrow> Inr (to_endpoints [address])
           | Domain host p \<Rightarrow>
               if resolver_opt = None
               then Inl (mk_error Configuration ''direct outbound requires a configured DNS resolver'')
               else (case resolve_host env resolver_opt host of
                   Inl e \<Rightarrow> Inl e
                 | Inr [] \<Rightarrow> Inl (mk_error Resolution (''direct target '' @
                     show_target (sr_destination request) @ '' has no resolved addresses''))
                 | Inr addresses \<Rightarrow> Inr (to_endpoints addresses))))"

definition rejected_stream :: "endpoint list res" where
  "rejected_stream = Inl (mk_error Rejected ''connection rejected by the reject outbound'')"

section \<open>Routing a datagram\<close>

datatype 'o udp_outbound = Udp_direct | Udp_named 'o

record ('o, 'r) routed_datagram =
  rg_result :: "'o udp_outbound res"  \<comment> \<open>whose \<^verbatim>\<open>open_datagram\<close> is called, for the target\<close>
  rg_target :: endpoint
  rg_snapshot :: "('o, 'r) runtime_snapshot"

definition no_endpoint :: endpoint where
  "no_endpoint = \<lparr>ep_address = V4 0, ep_port = 0\<rparr>"

definition no_udp_error :: error where
  "no_udp_error = mk_error Configuration ''the selected outbound does not support UDP''"

definition route_datagram ::
  "('o, 'r) route_env \<Rightarrow> ('o, 'r) runtime_snapshot \<Rightarrow> traffic_router \<Rightarrow> connection_metadata \<Rightarrow>
     routing_context \<Rightarrow> ('o, 'r) routed_datagram" where
  "route_datagram env snap router metadata ctx =
     (let failed = (\<lambda>e target. \<lparr>rg_result = Inl e, rg_target = target, rg_snapshot = snap\<rparr>) in
      case evaluate router metadata ctx 0 of
        Matched decision \<Rightarrow>
          (case (case rc_address ctx of Some a \<Rightarrow> Some a
                 | None \<Rightarrow> (case md_destination metadata of Address a p \<Rightarrow> Some a | _ \<Rightarrow> None)) of
             None \<Rightarrow> failed (mk_error Resolution ''UDP destination has no resolved address'') no_endpoint
           | Some address \<Rightarrow>
               let target = \<lparr>ep_address = address, ep_port = port (md_destination metadata)\<rparr> in
               case ra_kind (rd_action decision) of
                 Act_direct \<Rightarrow>
                   if cap_datagram direct_capabilities = Dg_unsupported then failed no_udp_error target
                   else \<lparr>rg_result = Inr Udp_direct, rg_target = target, rg_snapshot = snap\<rparr>
               | Act_reject \<Rightarrow> failed no_udp_error target
               | Act_named \<Rightarrow>
                   (case rs_outbounds snap of
                      None \<Rightarrow> failed (mk_error Configuration ''proxy outbound registry is missing'') target
                    | Some registry \<Rightarrow>
                        (case select_outbound registry (ra_target (rd_action decision)) of
                           (result, registry') \<Rightarrow>
                             \<lparr>rg_result =
                                (case result of
                                   Inl e \<Rightarrow> Inl e
                                 | Inr out \<Rightarrow>
                                     if cap_datagram (re_caps env out) = Dg_unsupported
                                     then Inl no_udp_error else Inr (Udp_named out)),
                              rg_target = target,
                              rg_snapshot = snap\<lparr>rs_outbounds := Some registry'\<rparr>\<rparr>)))
      | _ \<Rightarrow> failed (mk_error Resolution ''UDP routing requires destination IP enrichment'') no_endpoint)"

definition open_datagram_resolved ::
  "('o, 'r) route_env \<Rightarrow> ('o, 'r) runtime_snapshot \<Rightarrow> connection_metadata \<Rightarrow>
     ('o, 'r) routed_datagram" where
  "open_datagram_resolved env snap metadata =
     (let failed = (\<lambda>e. \<lparr>rg_result = Inl e, rg_target = no_endpoint, rg_snapshot = snap\<rparr>) in
      if \<not> re_gate env 0 then failed cancelled_route_error
      else case resolve_host env (re_current env) (dest_domain (md_destination metadata)) of
        Inl e \<Rightarrow> failed e
      | Inr [] \<Rightarrow> failed (mk_error Resolution ''UDP destination resolved to no addresses'')
      | Inr (address # addresses) \<Rightarrow>
          route_datagram env snap (the (rs_router snap)) metadata
            \<lparr>rc_lookup = Resolved, rc_address = Some address, rc_addresses = address # addresses\<rparr>)"

definition open_datagram ::
  "('o, 'r) route_env \<Rightarrow> int \<Rightarrow> ('o, 'r) runtime_snapshot option \<Rightarrow> connection_metadata \<Rightarrow>
     (error, ('o, 'r) routed_datagram) result" where
  "open_datagram env now snapshot_opt metadata =
     (case snapshot_opt of
        None \<Rightarrow> Inl (mk_error Configuration ''proxy runtime snapshot is not published'')
      | Some given \<Rightarrow>
          (case restore_fake_ip now given metadata of
             (metadata', snap) \<Rightarrow>
               Inr (case md_destination metadata' of
                 Address address p \<Rightarrow>
                   route_datagram env snap (the (rs_router snap)) metadata'
                     \<lparr>rc_lookup = Resolved, rc_address = Some address, rc_addresses = [address]\<rparr>
               | Domain _ _ \<Rightarrow> open_datagram_resolved env snap metadata')))"

section \<open>The life of the server\<close>

record ('o, 'r) proxy_server =
  ps_running :: bool
  ps_mode :: inbound_mode
  ps_udp_endpoint :: "endpoint option"
  ps_router :: traffic_router
  ps_registry :: "'o outbound_registry option"
  ps_resolver :: "'r option"
  ps_fake_ip_store :: "fake_ip_store option"
  ps_published :: "('o, 'r) runtime_snapshot option"
  ps_next_generation :: u64
  ps_gate :: bool

text \<open>
  What starting meets: how the resolver validates, whether the TLS credentials load, whether the
  listener opens and its endpoint can be read, and whether the UDP listener starts.
\<close>

record 'r start_env =
  se_validate :: "'r \<Rightarrow> status"
  se_tls :: status
  se_listen :: status
  se_udp :: status

text \<open>\<^verbatim>\<open>ProxyServer::start\<close>: every failure behind the first line leaves the server stopped.\<close>

definition start_server ::
  "'r start_env \<Rightarrow> ('o, 'r) proxy_server \<Rightarrow> status \<times> ('o, 'r) proxy_server" where
  "start_server env s =
     (if ps_running s then (Inr (), s)
      else case ps_registry s of
        None \<Rightarrow> (Inl (mk_error Configuration ''proxy outbound registry is missing''), s)
      | Some registry \<Rightarrow>
          (case validate_registry registry of
             Inl e \<Rightarrow> (Inl e, s)
           | Inr _ \<Rightarrow>
               (case validate (ps_router s) (registry_ids registry) of
                  Inl e \<Rightarrow> (Inl e, s)
                | Inr _ \<Rightarrow>
                    let snap = \<lparr>rs_generation = ps_next_generation s, rs_router = Some (ps_router s),
                          rs_outbounds = Some (snapshot registry), rs_resolver = ps_resolver s,
                          rs_fake_ip_store = ps_fake_ip_store s\<rparr>;
                        s = s\<lparr>ps_next_generation := ps_next_generation s + 1\<rparr>
                    in (case publish (se_validate env) (Some snap) (ps_published s) of
                      (Inl e, _) \<Rightarrow> (Inl e, s)
                    | (Inr _, published) \<Rightarrow>
                        let s = s\<lparr>ps_published := published\<rparr> in
                        (case se_tls env of
                           Inl e \<Rightarrow> (Inl e, s)
                         | Inr _ \<Rightarrow>
                             (case se_listen env of
                                Inl e \<Rightarrow> (Inl e, s)
                              | Inr _ \<Rightarrow>
                                  if ps_udp_endpoint s \<noteq> None \<and> ps_mode s = Mode_http
                                  then (Inl (mk_error Configuration
                                         ''SOCKS5 UDP listener requires a SOCKS-capable mode''),
                                        s\<lparr>ps_gate := False\<rparr>)
                                  else (case (if ps_udp_endpoint s \<noteq> None then se_udp env else Inr ()) of
                                      Inl e \<Rightarrow> (Inl e, s\<lparr>ps_gate := False\<rparr>)
                                    | Inr _ \<Rightarrow> (Inr (), s\<lparr>ps_running := True, ps_gate := True\<rparr>))))))))"

definition stop_server :: "('o, 'r) proxy_server \<Rightarrow> ('o, 'r) proxy_server" where
  "stop_server s = (if \<not> ps_running s then s else s\<lparr>ps_running := False, ps_gate := False\<rparr>)"

definition reload ::
  "('r \<Rightarrow> status) \<Rightarrow> ('o, 'r) runtime_snapshot option \<Rightarrow> ('o, 'r) proxy_server \<Rightarrow>
     status \<times> ('o, 'r) proxy_server" where
  "reload validate_resolver snapshot_opt s =
     (case snapshot_opt of
        None \<Rightarrow> (Inl (mk_error Configuration ''proxy runtime snapshot is required''), s)
      | Some given \<Rightarrow>
          let (snap, s) =
                (if rs_generation given = 0
                 then (given\<lparr>rs_generation := ps_next_generation s\<rparr>,
                       s\<lparr>ps_next_generation := ps_next_generation s + 1\<rparr>)
                 else (given, s))
          in (case publish validate_resolver (Some snap) (ps_published s) of
                (result, published) \<Rightarrow> (result, s\<lparr>ps_published := published\<rparr>)))"

text \<open>The setters throw while the server runs, and leave it as it is then.\<close>

definition when_stopped ::
  "string \<Rightarrow> (('o, 'r) proxy_server \<Rightarrow> ('o, 'r) proxy_server) \<Rightarrow> ('o, 'r) proxy_server \<Rightarrow>
     (string, ('o, 'r) proxy_server) result" where
  "when_stopped message change s = (if ps_running s then Inl message else Inr (change s))"

definition server_add_rule ::
  "(string \<Rightarrow> ip_address option) \<Rightarrow> traffic_rule \<Rightarrow> ('o, 'r) proxy_server \<Rightarrow>
     (string, ('o, 'r) proxy_server) result" where
  "server_add_rule make_address rule =
     when_stopped ''Cannot change routing on a running proxy''
       (\<lambda>s. s\<lparr>ps_router := add_rule make_address rule (ps_router s)\<rparr>)"

definition server_set_default_action ::
  "route_action \<Rightarrow> ('o, 'r) proxy_server \<Rightarrow> (string, ('o, 'r) proxy_server) result" where
  "server_set_default_action action =
     when_stopped ''Cannot change routing on a running proxy''
       (\<lambda>s. s\<lparr>ps_router := set_default_action action (ps_router s)\<rparr>)"

definition set_outbound_registry ::
  "'o outbound_registry option \<Rightarrow> ('o, 'r) proxy_server \<Rightarrow> (string, ('o, 'r) proxy_server) result" where
  "set_outbound_registry registry =
     when_stopped ''Cannot change outbound registry on a running proxy''
       (\<lambda>s. s\<lparr>ps_registry := registry\<rparr>)"

definition set_resolver ::
  "'r option \<Rightarrow> ('o, 'r) proxy_server \<Rightarrow> (string, ('o, 'r) proxy_server) result" where
  "set_resolver resolver =
     when_stopped ''Cannot change the resolver on a running proxy'' (\<lambda>s. s\<lparr>ps_resolver := resolver\<rparr>)"

definition set_fake_ip_store ::
  "fake_ip_store option \<Rightarrow> ('o, 'r) proxy_server \<Rightarrow> (string, ('o, 'r) proxy_server) result" where
  "set_fake_ip_store store =
     when_stopped ''Cannot change FakeIP configuration on a running proxy''
       (\<lambda>s. s\<lparr>ps_fake_ip_store := store\<rparr>)"

definition set_inbound_mode ::
  "inbound_mode \<Rightarrow> ('o, 'r) proxy_server \<Rightarrow> (string, ('o, 'r) proxy_server) result" where
  "set_inbound_mode mode =
     when_stopped ''Cannot change the inbound mode on a running proxy'' (\<lambda>s. s\<lparr>ps_mode := mode\<rparr>)"

definition set_socks5_udp_endpoint ::
  "endpoint option \<Rightarrow> ('o, 'r) proxy_server \<Rightarrow> (string, ('o, 'r) proxy_server) result" where
  "set_socks5_udp_endpoint e =
     when_stopped ''Cannot change the SOCKS5 UDP endpoint on a running proxy''
       (\<lambda>s. s\<lparr>ps_udp_endpoint := e\<rparr>)"

section \<open>What routing comes to\<close>

text \<open>The policy: the first rule that decides, with the addresses of the name once a rule asks.\<close>

definition found_addresses :: "('o, 'r) route_env \<Rightarrow> 'r \<Rightarrow> string \<Rightarrow> u16 list \<Rightarrow> ip_address list" where
  "found_addresses env resolver host types =
     concat (map (\<lambda>type. case re_resolve env resolver host type of Inl e \<Rightarrow> [] | Inr found \<Rightarrow> found) types)"

definition policy_decision ::
  "('o, 'r) route_env \<Rightarrow> 'r option \<Rightarrow> traffic_router \<Rightarrow> connection_metadata \<Rightarrow> route_decision option" where
  "policy_decision env resolver_opt router metadata =
     (case evaluate router metadata empty_context 0 of
        Matched d \<Rightarrow> Some d
      | Need_metadata need i \<Rightarrow>
          (case resolver_opt of
             None \<Rightarrow> None
           | Some resolver \<Rightarrow>
               (case evaluate router metadata (enriched_context
                    (found_addresses env resolver (dest_domain (md_destination metadata)) [type_a, type_aaaa])) i of
                  Matched d \<Rightarrow> Some d | _ \<Rightarrow> None))
      | No_match \<Rightarrow> None)"

text \<open>The addresses the policy asked for, and whether a direct connection has to resolve its host itself.\<close>

definition policy_addresses ::
  "('o, 'r) route_env \<Rightarrow> 'r option \<Rightarrow> traffic_router \<Rightarrow> connection_metadata \<Rightarrow> ip_address list" where
  "policy_addresses env resolver_opt router metadata =
     (case (evaluate router metadata empty_context 0, resolver_opt) of
        (Need_metadata need i, Some resolver) \<Rightarrow>
          found_addresses env resolver (dest_domain (md_destination metadata)) [type_a, type_aaaa]
      | _ \<Rightarrow> [])"

definition resolves_itself ::
  "('o, 'r) route_env \<Rightarrow> 'r option \<Rightarrow> traffic_router \<Rightarrow> connection_metadata \<Rightarrow> bool" where
  "resolves_itself env resolver_opt router metadata \<longleftrightarrow>
     resolver_opt \<noteq> None \<and> is_domain (md_destination metadata) \<and>
     policy_addresses env resolver_opt router metadata = [] \<and>
     (case policy_decision env resolver_opt router metadata of
        None \<Rightarrow> False | Some d \<Rightarrow> ra_kind (rd_action d) = Act_direct)"

text \<open>How many answers of a resolver the route waits for, two for the policy and one for the host.\<close>

definition awaited_answers ::
  "('o, 'r) route_env \<Rightarrow> 'r option \<Rightarrow> traffic_router \<Rightarrow> connection_metadata \<Rightarrow> nat" where
  "awaited_answers env resolver_opt router metadata =
     (case (evaluate router metadata empty_context 0, resolver_opt) of
        (Need_metadata need i, Some resolver) \<Rightarrow> 2 | _ \<Rightarrow> 0) +
     (if resolves_itself env resolver_opt router metadata then 1 else 0)"

text \<open>The address handed to the outbound along with the destination.\<close>

definition policy_address ::
  "('o, 'r) route_env \<Rightarrow> 'r option \<Rightarrow> traffic_router \<Rightarrow> connection_metadata \<Rightarrow> ip_address option" where
  "policy_address env resolver_opt router metadata =
     (if resolves_itself env resolver_opt router metadata
      then (case resolve_host env (re_current env) (dest_domain (md_destination metadata)) of
          Inr (address # _) \<Rightarrow> Some address | _ \<Rightarrow> None)
      else (case policy_addresses env resolver_opt router metadata of
          [] \<Rightarrow> None | address # _ \<Rightarrow> Some address))"

fun dial_request :: "'o dial \<Rightarrow> stream_request" where
  "dial_request (Dial_direct request) = request"
| "dial_request (Dial_reject request) = request"
| "dial_request (Dial_outbound out request) = request"

fun carries_out :: "'o outbound_registry \<Rightarrow> route_action \<Rightarrow> 'o dial \<Rightarrow> bool" where
  "carries_out registry action (Dial_direct request) = (ra_kind action = Act_direct)"
| "carries_out registry action (Dial_reject request) = (ra_kind action = Act_reject)"
| "carries_out registry action (Dial_outbound out request) =
     (ra_kind action = Act_named \<and> out \<in> leads_to registry (ra_target action))"

lemma lookup_destination_Some:
  "lookup_destination env resolver host types awaited addresses = (Some found, awaited') \<Longrightarrow>
     found = addresses @ found_addresses env resolver host types"
proof (induction types arbitrary: awaited addresses)
  case (Cons type types)
  from Cons.prems have "lookup_destination env resolver host types (awaited + 1)
      (addresses @ found_addresses env resolver host [type]) = (Some found, awaited')"
    by (cases "re_resolve env resolver host type") (auto simp: found_addresses_def split: if_splits)
  from Cons.IH [OF this] show ?case by (simp add: found_addresses_def)
qed (simp add: found_addresses_def)

lemma rc_lookup_enriched [simp]: "rc_lookup (enriched_context addresses) \<noteq> Unrequested"
  by (simp add: enriched_context_def)

lemma run_resolve_nonempty: "run_resolve answer types addresses first_error \<noteq> Inr []"
  by (induction types arbitrary: addresses first_error) (auto split: sum.splits)

lemma resolve_host_nonempty: "resolve_host env resolver_opt host \<noteq> Inr []"
  by (auto simp: resolve_host_def run_resolve_nonempty simp del: run_resolve.simps split: option.splits)

text \<open>A snapshot that was published, with parts that were built by their own operations.\<close>

definition usable_snapshot ::
  "('r \<Rightarrow> status) \<Rightarrow> (string \<Rightarrow> ip_address option) \<Rightarrow> ('o, 'r) runtime_snapshot \<Rightarrow> traffic_router \<Rightarrow>
     'o outbound_registry \<Rightarrow> bool" where
  "usable_snapshot validate_resolver mk snap router registry \<longleftrightarrow>
     validate_snapshot validate_resolver snap = Inr () \<and>
     rs_router snap = Some router \<and> router_wf mk router \<and>
     rs_outbounds snap = Some registry \<and> registry_wf registry"

lemma usable_snapshotD:
  assumes "usable_snapshot validate_resolver mk snap router registry"
  shows "validate_registry registry = Inr ()" "validate router (registry_ids registry) = Inr ()"
    "rs_router snap = Some router" "rs_outbounds snap = Some registry" "router_wf mk router"
    "registry_wf registry"
  using assms by (auto simp: usable_snapshot_def validate_snapshot_def result_bind_def split: sum.splits)

lemma usable_named:
  assumes "usable_snapshot validate_resolver mk snap router registry"
    and "evaluate router metadata ctx start = Matched d" and "ra_kind (rd_action d) = Act_named"
  shows "\<exists>out registry'. select_outbound registry (ra_target (rd_action d)) = (Inr out, registry') \<and>
    out \<in> leads_to registry (ra_target (rd_action d))"
  using select_known validated_action [OF _ _ assms(2,3)] usable_snapshotD [OF assms(1)] by blast

lemma restore_frame:
  "restore_fake_ip now snap metadata = (metadata', snap') \<Longrightarrow>
     rs_router snap' = rs_router snap \<and> rs_outbounds snap' = rs_outbounds snap \<and>
     rs_resolver snap' = rs_resolver snap"
  by (auto simp: restore_fake_ip_def split: option.splits destination.splits ip_address.splits prod.splits)

definition stream_ok ::
  "('o, 'r) route_env \<Rightarrow> 'r option \<Rightarrow> traffic_router \<Rightarrow> 'o outbound_registry \<Rightarrow> connection_metadata \<Rightarrow>
     'o dial res \<Rightarrow> bool" where
  "stream_ok env resolver_opt router registry metadata result \<longleftrightarrow>
     (if \<exists>n<awaited_answers env resolver_opt router metadata. \<not> re_gate env n
      then result = Inl cancelled_route_error
      else case result of
        Inr dial \<Rightarrow> (\<exists>d. policy_decision env resolver_opt router metadata = Some d \<and>
          carries_out registry (rd_action d) dial \<and>
          dial_request dial = \<lparr>sr_destination = md_destination metadata,
            sr_address = policy_address env resolver_opt router metadata\<rparr>)
      | Inl e \<Rightarrow>
          policy_decision env resolver_opt router metadata = None \<and> resolver_opt = None \<or>
          resolves_itself env resolver_opt router metadata \<and>
            resolve_host env (re_current env) (dest_domain (md_destination metadata)) = Inl e)"

lemma dial_matched_ok:
  assumes usable: "usable_snapshot validate_resolver mk snap0 router registry"
    and snap: "rs_outbounds snap = Some registry" "rs_resolver snap = resolver_opt"
    and decided: "policy_decision env resolver_opt router metadata = Some d"
    and matched: "evaluate router metadata ctx start = Matched d"
    and address: "rc_address ctx = (case policy_addresses env resolver_opt router metadata of
        [] \<Rightarrow> None | address # _ \<Rightarrow> Some address)"
    and awaited: "awaited_answers env resolver_opt router metadata =
        awaited + (if resolves_itself env resolver_opt router metadata then 1 else 0)"
    and running: "\<forall>n<awaited. re_gate env n"
  shows "stream_ok env resolver_opt router registry metadata
    (ro_result (dial_matched env snap metadata ctx awaited (rd_action d)))"
proof (cases "resolves_itself env resolver_opt router metadata")
  case True
  then have kind: "ra_kind (rd_action d) = Act_direct" and domain: "is_domain (md_destination metadata)"
    and none: "rc_address ctx = None" "resolver_opt \<noteq> None"
    using decided address by (simp_all add: resolves_itself_def)
  have stopped: "(\<exists>n<awaited_answers env resolver_opt router metadata. \<not> re_gate env n) \<longleftrightarrow> \<not> re_gate env awaited"
    using True running awaited by (auto simp: less_Suc_eq)
  let ?resolved = "resolve_host env (re_current env) (dest_domain (md_destination metadata))"
  show ?thesis
  proof (cases ?resolved)
    case (Inl e)
    with True kind domain none snap(2) stopped show ?thesis by (simp add: dial_matched_def stream_ok_def Let_def)
  next
    case (Inr addresses)
    with resolve_host_nonempty [of env "re_current env"] obtain a as where "addresses = a # as"
      by (cases addresses) auto
    with Inr True kind domain none decided snap(2) stopped show ?thesis
      by (simp add: dial_matched_def stream_ok_def policy_address_def Let_def)
  qed
next
  case False
  then have none: "\<not> (\<exists>n<awaited_answers env resolver_opt router metadata. \<not> re_gate env n)"
    using awaited running by simp
  have address': "rc_address ctx = policy_address env resolver_opt router metadata"
    using False address by (simp add: policy_address_def)
  show ?thesis
  proof (cases "ra_kind (rd_action d)")
    case Act_direct
    have "\<not> (is_domain (md_destination metadata) \<and> rc_address ctx = None \<and> resolver_opt \<noteq> None)"
      using False Act_direct decided address by (auto simp: resolves_itself_def split: list.splits)
    with Act_direct decided none address' snap(2) show ?thesis by (auto simp: dial_matched_def stream_ok_def Let_def)
  next
    case Act_reject
    with decided none address' show ?thesis by (simp add: dial_matched_def stream_ok_def Let_def)
  next
    case Act_named
    from usable_named [OF usable matched Act_named] obtain out registry' where
      "select_outbound registry (ra_target (rd_action d)) = (Inr out, registry')"
      "out \<in> leads_to registry (ra_target (rd_action d))" by blast
    with Act_named decided none address' snap(1) show ?thesis
      by (simp add: dial_matched_def stream_ok_def Let_def)
  qed
qed

lemma route_stream_ok:
  assumes usable: "usable_snapshot validate_resolver mk snap0 router registry"
    and snap: "rs_outbounds snap = Some registry" "rs_resolver snap = resolver_opt"
  shows "\<exists>out. route_stream env snap router metadata empty_context 0 0 = Some out \<and>
    stream_ok env resolver_opt router registry metadata (ro_result out)"
proof (cases "evaluate router metadata empty_context 0")
  case No_match
  with evaluate_not_No_match usable_snapshotD(5) [OF usable] show ?thesis by blast
next
  case (Matched d)
  then have "policy_decision env resolver_opt router metadata = Some d"
    by (simp add: policy_decision_def)
  from dial_matched_ok [OF usable snap this Matched, of 0] Matched show ?thesis
    by (simp add: route_stream.simps policy_addresses_def awaited_answers_def empty_context_def)
next
  case (Need_metadata need i)
  from need_metadata_asks [OF usable_snapshotD(5) [OF usable] this]
  have asks: "need = Need_destination_ip" "is_domain (md_destination metadata)" by auto
  note unfolded = route_stream.simps [of env snap router metadata empty_context 0 0]
  show ?thesis
  proof (cases resolver_opt)
    case None
    with Need_metadata snap(2) show ?thesis
      by (simp add: unfolded route_error_def stream_ok_def policy_decision_def awaited_answers_def resolves_itself_def)
  next
    case (Some resolver)
    let ?host = "dest_domain (md_destination metadata)"
    have awaited: "awaited_answers env resolver_opt router metadata =
        2 + (if resolves_itself env resolver_opt router metadata then 1 else 0)"
      using Need_metadata Some by (simp add: awaited_answers_def)
    obtain found awaited' where l: "lookup_destination env resolver ?host [type_a, type_aaaa] 0 [] = (found, awaited')"
      by fastforce
    show ?thesis
    proof (cases found)
      case None
      with l have "\<not> re_gate env 0 \<or> \<not> re_gate env 1" by (auto split: if_splits)
      with awaited have "\<exists>n<awaited_answers env resolver_opt router metadata. \<not> re_gate env n"
        by (auto intro: exI [of _ 0] exI [of _ 1])
      with None l Need_metadata asks Some snap(2) show ?thesis
        by (simp add: unfolded route_error_def stream_ok_def del: lookup_destination.simps)
    next
      case found: (Some addresses)
      let ?ctx = "enriched_context addresses"
      have addresses: "addresses = found_addresses env resolver ?host [type_a, type_aaaa]"
        using lookup_destination_Some [OF l [unfolded found]] by simp
      have two: "awaited' = 2" "\<forall>n<2. re_gate env n"
        using l found by (auto simp: numeral_2_eq_2 less_Suc_eq split: if_splits)
      obtain d where d: "evaluate router metadata ?ctx i = Matched d"
        using evaluate_settled [OF usable_snapshotD(5) [OF usable] rc_lookup_enriched] by blast
      have decided: "policy_decision env resolver_opt router metadata = Some d"
        using Need_metadata Some d addresses by (simp add: policy_decision_def)
      have "rc_address ?ctx = (case policy_addresses env resolver_opt router metadata of
          [] \<Rightarrow> None | address # _ \<Rightarrow> Some address)"
        using Need_metadata Some addresses by (simp add: policy_addresses_def enriched_context_def split: list.split)
      from dial_matched_ok [OF usable snap decided d this awaited two(2)] d two(1)
      have "\<exists>out. route_stream env snap router metadata ?ctx i awaited' = Some out \<and>
          stream_ok env resolver_opt router registry metadata (ro_result out)"
        by (simp add: route_stream.simps [of env snap router metadata ?ctx])
      moreover have "route_stream env snap router metadata empty_context 0 0 =
          route_stream env snap router metadata ?ctx i awaited'"
        using l found Need_metadata asks Some snap(2) by (simp add: unfolded del: lookup_destination.simps)
      ultimately show ?thesis by simp
    qed
  qed
qed

lemma resolved_context: "addresses \<noteq> [] \<Longrightarrow> enriched_context addresses =
    \<lparr>rc_lookup = Resolved, rc_address = Some (hd addresses), rc_addresses = addresses\<rparr>"
  by (simp add: enriched_context_def)

definition datagram_ok ::
  "('o, 'r) route_env \<Rightarrow> traffic_router \<Rightarrow> 'o outbound_registry \<Rightarrow> connection_metadata \<Rightarrow>
     ip_address list res \<Rightarrow> ('o, 'r) routed_datagram \<Rightarrow> bool" where
  "datagram_ok env router registry metadata candidates out \<longleftrightarrow>
     (if is_domain (md_destination metadata) \<and> \<not> re_gate env 0 then rg_result out = Inl cancelled_route_error
      else case rg_result out of
        Inl e \<Rightarrow> candidates = Inl e \<or>
          e = no_udp_error \<and> (\<exists>addresses d. candidates = Inr addresses \<and> addresses \<noteq> [] \<and>
             evaluate router metadata (enriched_context addresses) 0 = Matched d \<and>
             (ra_kind (rd_action d) = Act_reject \<or>
              ra_kind (rd_action d) = Act_named \<and> (\<exists>o' \<in> leads_to registry (ra_target (rd_action d)).
                cap_datagram (re_caps env o') = Dg_unsupported)))
      | Inr choice \<Rightarrow>
          (\<exists>addresses d. candidates = Inr addresses \<and> addresses \<noteq> [] \<and>
             evaluate router metadata (enriched_context addresses) 0 = Matched d \<and>
             rg_target out = \<lparr>ep_address = hd addresses, ep_port = port (md_destination metadata)\<rparr> \<and>
             (case choice of
                Udp_direct \<Rightarrow> ra_kind (rd_action d) = Act_direct
              | Udp_named o' \<Rightarrow> ra_kind (rd_action d) = Act_named \<and>
                  o' \<in> leads_to registry (ra_target (rd_action d)) \<and>
                  cap_datagram (re_caps env o') \<noteq> Dg_unsupported)))"

lemma route_datagram_ok:
  assumes usable: "usable_snapshot validate_resolver mk snap0 router registry"
    and snap: "rs_outbounds snap = Some registry" and addresses: "addresses \<noteq> []"
    and running: "is_domain (md_destination metadata) \<longrightarrow> re_gate env 0"
  shows "datagram_ok env router registry metadata (Inr addresses)
    (route_datagram env snap router metadata (enriched_context addresses))"
proof -
  obtain d where d: "evaluate router metadata (enriched_context addresses) 0 = Matched d"
    using evaluate_settled [OF usable_snapshotD(5) [OF usable] rc_lookup_enriched] by blast
  have address: "rc_address (enriched_context addresses) = Some (hd addresses)"
    using addresses by (simp add: enriched_context_def)
  show ?thesis
  proof (cases "ra_kind (rd_action d)")
    case Act_direct
    with d address addresses running show ?thesis
      by (auto simp: route_datagram_def datagram_ok_def direct_capabilities_def)
  next
    case Act_reject
    with d address addresses running show ?thesis by (auto simp: route_datagram_def datagram_ok_def)
  next
    case Act_named
    from usable_named [OF usable d Act_named] obtain out registry' where
      "select_outbound registry (ra_target (rd_action d)) = (Inr out, registry')"
      "out \<in> leads_to registry (ra_target (rd_action d))" by blast
    with Act_named d address addresses snap running show ?thesis
      by (auto simp: route_datagram_def datagram_ok_def Let_def)
  qed
qed

section \<open>Calls on a server\<close>

datatype ('o, 'r) server_call =
    Call_start "'r start_env"
  | Call_stop
  | Call_reload "('o, 'r) runtime_snapshot option"
  | Call_add_rule traffic_rule
  | Call_set_default_action route_action
  | Call_set_registry "'o outbound_registry option"
  | Call_set_resolver "'r option"
  | Call_set_fake_ip "fake_ip_store option"
  | Call_set_mode inbound_mode
  | Call_set_udp "endpoint option"

definition after :: "(string, 's) result \<Rightarrow> 's \<Rightarrow> 's" where
  "after r s = (case r of Inl message \<Rightarrow> s | Inr s' \<Rightarrow> s')"

fun server_step ::
  "('r \<Rightarrow> status) \<Rightarrow> (string \<Rightarrow> ip_address option) \<Rightarrow> ('o, 'r) server_call \<Rightarrow> ('o, 'r) proxy_server \<Rightarrow>
     ('o, 'r) proxy_server" where
  "server_step v mk (Call_start env) s = snd (start_server (env\<lparr>se_validate := v\<rparr>) s)"
| "server_step v mk Call_stop s = stop_server s"
| "server_step v mk (Call_reload snap) s = snd (reload v snap s)"
| "server_step v mk (Call_add_rule rule) s = after (server_add_rule mk rule s) s"
| "server_step v mk (Call_set_default_action action) s = after (server_set_default_action action s) s"
| "server_step v mk (Call_set_registry registry) s = after (set_outbound_registry registry s) s"
| "server_step v mk (Call_set_resolver resolver) s = after (set_resolver resolver s) s"
| "server_step v mk (Call_set_fake_ip store) s = after (set_fake_ip_store store s) s"
| "server_step v mk (Call_set_mode mode) s = after (set_inbound_mode mode s) s"
| "server_step v mk (Call_set_udp e) s = after (set_socks5_udp_endpoint e s) s"

definition new_server :: "'o outbound_registry option \<Rightarrow> ('o, 'r) proxy_server" where
  "new_server registry =
     \<lparr>ps_running = False, ps_mode = Mode_mixed, ps_udp_endpoint = None,
      ps_router = new_router action_direct, ps_registry = registry, ps_resolver = None,
      ps_fake_ip_store = None, ps_published = None, ps_next_generation = 1, ps_gate = False\<rparr>"

definition server_ok :: "('r \<Rightarrow> status) \<Rightarrow> ('o, 'r) proxy_server \<Rightarrow> bool" where
  "server_ok v s \<longleftrightarrow>
     (ps_running s \<longrightarrow> ps_published s \<noteq> None \<and> ps_gate s) \<and>
     (\<forall>snap. ps_published s = Some snap \<longrightarrow> validate_snapshot v snap = Inr ())"

definition published_le :: "('o, 'r) proxy_server \<Rightarrow> ('o, 'r) proxy_server \<Rightarrow> bool" where
  "published_le s s' \<longleftrightarrow>
     (\<forall>a. ps_published s = Some a \<longrightarrow>
        (\<exists>b. ps_published s' = Some b \<and> (b = a \<or> rs_generation a < rs_generation b)))"

lemma published_le_refl: "ps_published s' = ps_published s \<Longrightarrow> published_le s s'"
  by (simp add: published_le_def)

lemma published_le_trans:
  assumes first: "published_le s s'" and second: "published_le s' s''"
  shows "published_le s s''"
  unfolding published_le_def
proof (intro allI impI)
  fix a assume "ps_published s = Some a"
  with first obtain b where b: "ps_published s' = Some b" "b = a \<or> rs_generation a < rs_generation b"
    unfolding published_le_def by blast
  with second obtain c where c: "ps_published s'' = Some c" "c = b \<or> rs_generation b < rs_generation c"
    unfolding published_le_def by blast
  from b(2) c(2) have "c = a \<or> rs_generation a < rs_generation c" by auto
  with c(1) show "\<exists>b. ps_published s'' = Some b \<and> (b = a \<or> rs_generation a < rs_generation b)" by blast
qed

lemma publish_ok:
  assumes "publish v snapshot_opt current = (result, published)"
    and "\<forall>snap. current = Some snap \<longrightarrow> validate_snapshot v snap = Inr ()"
  shows "(\<forall>snap. published = Some snap \<longrightarrow> validate_snapshot v snap = Inr ()) \<and>
    (\<forall>a. current = Some a \<longrightarrow> (\<exists>b. published = Some b \<and> (b = a \<or> rs_generation a < rs_generation b))) \<and>
    (result = Inr () \<longrightarrow> published \<noteq> None)"
  using assms by (auto simp: publish_def not_le split: option.splits sum.splits if_splits)

lemma publish_status:
  assumes "publish v (Some snap) current = (Inl e, published)"
  shows "published = current"
  using assms by (auto simp: publish_def split: option.splits sum.splits if_splits)

lemma publish_server_ok:
  assumes "publish v snapshot_opt (ps_published s) = (result, ps_published s')" and "server_ok v s"
  shows "published_le s s'"
    and "\<forall>snap. ps_published s' = Some snap \<longrightarrow> validate_snapshot v snap = Inr ()"
    and "result = Inr () \<longrightarrow> ps_published s' \<noteq> None"
proof -
  from assms(2) have current: "\<forall>snap. ps_published s = Some snap \<longrightarrow> validate_snapshot v snap = Inr ()"
    unfolding server_ok_def by blast
  note published = publish_ok [OF assms(1) current]
  from published show "published_le s s'" unfolding published_le_def by blast
  from published show "\<forall>snap. ps_published s' = Some snap \<longrightarrow> validate_snapshot v snap = Inr ()" by blast
  from published show "result = Inr () \<longrightarrow> ps_published s' \<noteq> None" by blast
qed

lemma start_server_cases:
  assumes "start_server env s = (result, s')" and "\<not> ps_running s"
  shows "(ps_published s' = ps_published s \<and> \<not> ps_running s') \<or>
    (\<exists>snap. publish (se_validate env) (Some snap) (ps_published s) = (Inr (), ps_published s') \<and>
       (ps_running s' \<longrightarrow> ps_gate s'))"
  using assms
  by (auto simp: start_server_def Let_def split: option.splits sum.splits prod.splits if_splits)

lemma start_server_registry: "ps_registry (snd (start_server env s)) = ps_registry s"
  by (simp add: start_server_def Let_def split: option.split sum.split prod.split)

lemma start_server_ok:
  assumes ok: "server_ok (se_validate env) s" and start: "start_server env s = (result, s')"
  shows "server_ok (se_validate env) s' \<and> published_le s s'"
proof (cases "ps_running s")
  case True
  with start have "s' = s" by (simp add: start_server_def)
  with ok published_le_refl show ?thesis by blast
next
  case False
  from start_server_cases [OF start this] show ?thesis
  proof (elim disjE exE conjE)
    assume "ps_published s' = ps_published s" "\<not> ps_running s'"
    with ok published_le_refl show ?thesis by (auto simp: server_ok_def)
  next
    fix snap assume "publish (se_validate env) (Some snap) (ps_published s) = (Inr (), ps_published s')"
      and gate: "ps_running s' \<longrightarrow> ps_gate s'"
    from publish_server_ok [OF this(1) ok] gate show ?thesis unfolding server_ok_def by blast
  qed
qed

lemma reload_ok:
  assumes ok: "server_ok v s" and reload: "reload v snapshot_opt s = (result, s')"
  shows "server_ok v s' \<and> published_le s s'"
proof (cases snapshot_opt)
  case None
  with reload ok published_le_refl show ?thesis by (auto simp: reload_def)
next
  case (Some given)
  with reload obtain snap where published:
      "publish v (Some snap) (ps_published s) = (result, ps_published s')"
    and same: "ps_running s' = ps_running s" "ps_gate s' = ps_gate s"
    by (auto simp: reload_def Let_def split: if_splits prod.splits)
  note published = publish_server_ok [OF published ok]
  then have "published_le s s'" by blast
  moreover have "server_ok v s'"
    unfolding server_ok_def same
  proof (intro conjI impI)
    assume "ps_running s"
    with ok obtain a where "ps_published s = Some a" unfolding server_ok_def by blast
    with published(1) show "ps_published s' \<noteq> None" unfolding published_le_def by blast
  next
    assume "ps_running s"
    with ok show "ps_gate s" unfolding server_ok_def by blast
  qed (use published(2) in blast)
  ultimately show ?thesis by blast
qed

lemma setter_ok:
  assumes "server_ok v s" and "\<And>s. ps_published (change s) = ps_published s"
    and "\<And>s. ps_running (change s) = ps_running s"
  shows "server_ok v (after (when_stopped message change s) s) \<and>
    published_le s (after (when_stopped message change s) s)"
  using assms by (auto simp: after_def when_stopped_def server_ok_def published_le_def)

lemma server_step_ok:
  assumes ok: "server_ok v s"
  shows "server_ok v (server_step v mk call s) \<and> published_le s (server_step v mk call s)"
proof (cases call)
  case (Call_start env)
  define env' where "env' = env\<lparr>se_validate := v\<rparr>"
  then have v: "se_validate env' = v" by simp
  have "server_step v mk call s = snd (start_server env' s)" by (simp add: Call_start env'_def)
  with start_server_ok [of env' s "fst (start_server env' s)"] ok show ?thesis unfolding v by simp
next
  case Call_stop
  with ok published_le_refl show ?thesis
    by (auto simp: stop_server_def server_ok_def published_le_def)
next
  case (Call_reload snap)
  with reload_ok [OF ok, of snap "fst (reload v snap s)"] show ?thesis by simp
qed (use setter_ok [OF ok] in \<open>simp_all add: server_add_rule_def server_set_default_action_def
  set_outbound_registry_def set_resolver_def set_fake_ip_store_def set_inbound_mode_def
  set_socks5_udp_endpoint_def\<close>)

section \<open>Properties\<close>

text \<open>C17: A stream that the server opens on a usable snapshot is routed, and the loop of \<^verbatim>\<open>route_stream\<close> ends.
  When the server stopped while an answer of a resolver was awaited (two when the policy asks for addresses, one
  more when a direct connection resolves its own host), the route is cancelled, and only then.  Otherwise what is
  dialled carries out the decision of the routing policy: a direct or reject action reaches that built-in
  outbound, a named action an outbound its group can lead to, for the destination of the connection after the
  FakeIP restoration and with the first address the policy or the direct connection resolved.  It fails only when
  the policy needs addresses and no resolver is configured, or when the direct connection cannot resolve its
  host.\<close>
theorem stream_refines_policy:
  assumes "usable_snapshot validate_resolver mk snap router registry"
    and "restore_fake_ip now snap metadata = (metadata', snap')"
  shows "\<exists>out. open_stream env now (Some snap) metadata = Inr (Some out) \<and>
    stream_ok env (rs_resolver snap) router registry metadata' (ro_result out)"
proof -
  from restore_frame [OF assms(2)] usable_snapshotD [OF assms(1)]
  have frame: "rs_router snap' = Some router" "rs_outbounds snap' = Some registry"
    "rs_resolver snap' = rs_resolver snap" by simp_all
  from route_stream_ok [OF assms(1) frame(2,3)] show ?thesis
    by (simp add: open_stream_def assms(2) frame(1))
qed

text \<open>The addresses a datagram is routed with.\<close>

definition datagram_candidates ::
  "('o, 'r) route_env \<Rightarrow> connection_metadata \<Rightarrow> ip_address list res" where
  "datagram_candidates env metadata =
     (case md_destination metadata of
        Address address p \<Rightarrow> Inr [address]
      | Domain host p \<Rightarrow> resolve_host env (re_current env) host)"

lemma open_datagram_resolved_ok:
  assumes usable: "usable_snapshot validate_resolver mk snap0 router registry"
    and snap: "rs_router snap = Some router" "rs_outbounds snap = Some registry"
    and host: "md_destination metadata = Domain host p"
  shows "datagram_ok env router registry metadata (resolve_host env (re_current env) host)
    (open_datagram_resolved env snap metadata)"
proof (cases "re_gate env 0")
  case False
  with host show ?thesis by (simp add: open_datagram_resolved_def datagram_ok_def)
next
  case gate: True
  show ?thesis
  proof (cases "resolve_host env (re_current env) host")
    case (Inl e)
    with gate host show ?thesis by (simp add: open_datagram_resolved_def datagram_ok_def)
  next
    case (Inr addresses)
    with resolve_host_nonempty [of env "re_current env" host] obtain a as
      where addresses: "addresses = a # as" by (cases addresses) auto
    from route_datagram_ok [OF usable snap(2), of "a # as" metadata env] gate host Inr snap(1) show ?thesis
      by (simp add: open_datagram_resolved_def addresses resolved_context)
  qed
qed

text \<open>C18: A datagram association is opened for a usable snapshot only on an outbound that carries
  datagrams, with the direct action on the built-in one and with a named action on an outbound its
  group can lead to, the target being the first address of the destination with the port of the
  connection. Everything else is one of three errors: the server stopped while the name was resolved, the
  resolution failed, or the action rejects or selects an outbound that has no UDP.\<close>
theorem datagram_refines_policy:
  assumes "usable_snapshot validate_resolver mk snap router registry"
    and "restore_fake_ip now snap metadata = (metadata', snap')"
  shows "\<exists>out. open_datagram env now (Some snap) metadata = Inr out \<and>
    datagram_ok env router registry metadata' (datagram_candidates env metadata') out"
proof -
  from restore_frame [OF assms(2)] usable_snapshotD [OF assms(1)]
  have frame: "rs_router snap' = Some router" "rs_outbounds snap' = Some registry" by simp_all
  show ?thesis
  proof (cases "md_destination metadata'")
    case (Domain host p)
    from open_datagram_resolved_ok [OF assms(1) frame Domain] Domain show ?thesis
      by (simp add: open_datagram_def datagram_candidates_def assms(2))
  next
    case (Address address p)
    from route_datagram_ok [OF assms(1) frame(2), of "[address]" metadata' env] Address frame(1) show ?thesis
      by (simp add: open_datagram_def datagram_candidates_def assms(2) resolved_context)
  qed
qed

text \<open>C19: After any calls on a new server a running server has a published snapshot, the snapshot that
  is published is valid, and further calls replace it only by one of a later generation.\<close>
theorem published_generations:
  "server_ok v (fold (server_step v mk) calls (new_server registry)) \<and>
   published_le (fold (server_step v mk) calls (new_server registry))
     (fold (server_step v mk) (calls @ more_calls) (new_server registry))"
proof -
  have step: "server_ok v (fold (server_step v mk) cs s) \<and> published_le s (fold (server_step v mk) cs s)"
    if "server_ok v s" for cs s
    using that
  proof (induction cs arbitrary: s)
    case (Cons c cs)
    from server_step_ok [OF Cons.prems] Cons.IH published_le_trans show ?case by (simp, blast)
  qed (simp add: published_le_refl)
  have "server_ok v (new_server registry)" by (simp add: server_ok_def new_server_def)
  note new = step [OF this]
  from new [of calls] step [OF conjunct1 [OF new [of calls]], of more_calls] show ?thesis by simp
qed

text \<open>A server that was reloaded with a snapshot whose explicit generation is not below the
  server's own counter cannot be started again once it is stopped: \<^verbatim>\<open>start\<close> numbers its snapshot from
  that counter, and the store refuses a generation that does not increase.\<close>
theorem restart_refused:
  assumes "reload v (Some snap) s = (Inr (), s')" and "rs_generation snap \<noteq> 0"
    and "ps_next_generation s \<le> rs_generation snap" and "ps_running s"
    and "ps_registry s = Some registry" and "validate_registry registry = Inr ()"
    and "validate (ps_router s) (registry_ids registry) = Inr ()"
    and "validate_snapshot (se_validate env)
      \<lparr>rs_generation = ps_next_generation s, rs_router = Some (ps_router s),
       rs_outbounds = Some (snapshot registry), rs_resolver = ps_resolver s,
       rs_fake_ip_store = ps_fake_ip_store s\<rparr> = Inr ()"
  shows "fst (start_server env (stop_server s')) =
      Inl (mk_error Configuration ''runtime snapshot generation must increase'') \<and>
    \<not> ps_running (snd (start_server env (stop_server s')))"
proof -
  from assms(1,2) have published: "ps_published s' = Some snap" "s' = s\<lparr>ps_published := Some snap\<rparr>"
    by (auto simp: reload_def publish_def Let_def split: option.splits sum.splits if_splits prod.splits)
  show ?thesis using assms(3-)
    by (simp add: start_server_def stop_server_def published(2) publish_def Let_def)
qed

section \<open>Witnesses\<close>

text \<open>Outbounds are numbers, the one resolver knows one name; the group ''vpn'' has two members.\<close>

abbreviation sample_registry :: "nat outbound_registry" where
  "sample_registry \<equiv> registry_of [Call_add_outbound ''web'' (Some 1), Call_add_outbound ''v1'' (Some 2),
     Call_add_outbound ''v2'' (Some 3), Call_add_group ''vpn'' [''v1'', ''v2'']]"

abbreviation sample_router :: traffic_router where
  "sample_router \<equiv> build_router sample_make_address action_direct sample_rules"

definition sample_snapshot :: "(nat, unit) runtime_snapshot" where
  "sample_snapshot = \<lparr>rs_generation = 7, rs_router = Some sample_router,
     rs_outbounds = Some sample_registry, rs_resolver = Some (), rs_fake_ip_store = None\<rparr>"

definition sample_env :: "(nat, unit) route_env" where
  "sample_env = \<lparr>re_make_address = sample_make_address,
     re_resolve = (\<lambda>_ host type. if type = type_a \<and> host = ''www.Example.com''
       then Inr [V4 0x0A010203] else Inl (mk_error Resolution ''no such name'')),
     re_gate = (\<lambda>_. True), re_current = Some (), re_host_timeout = False,
     re_caps = (\<lambda>_. default_capabilities), re_id = (\<lambda>_. ''vpn'')\<rparr>"

lemma sample_usable:
  "usable_snapshot (\<lambda>_. Inr ()) sample_make_address sample_snapshot sample_router sample_registry"
proof -
  have "validate_snapshot (\<lambda>_. Inr ()) sample_snapshot = Inr ()" by code_simp
  with registry_wf_of show ?thesis by (simp add: usable_snapshot_def sample_snapshot_def)
qed

lemma sample_restore:
  "restore_fake_ip 0 sample_snapshot sample_metadata = (sample_metadata, sample_snapshot)"
  by (simp add: restore_fake_ip_def sample_snapshot_def)

theorem stream_refines_policy_witness:
  "policy_decision sample_env (Some ()) sample_router sample_metadata =
     Some \<lparr>rd_action = action_named ''vpn'', rd_matched_rule = ''c'', rd_used_default = False\<rparr> \<and>
   (\<exists>out. open_stream sample_env 0 (Some sample_snapshot) sample_metadata = Inr (Some out) \<and>
     stream_ok sample_env (Some ()) sample_router sample_registry sample_metadata (ro_result out))"
proof
  show "policy_decision sample_env (Some ()) sample_router sample_metadata =
     Some \<lparr>rd_action = action_named ''vpn'', rd_matched_rule = ''c'', rd_used_default = False\<rparr>"
    by code_simp
  have "rs_resolver sample_snapshot = Some ()" by (simp add: sample_snapshot_def)
  with stream_refines_policy [OF sample_usable sample_restore, of sample_env]
  show "\<exists>out. open_stream sample_env 0 (Some sample_snapshot) sample_metadata = Inr (Some out) \<and>
     stream_ok sample_env (Some ()) sample_router sample_registry sample_metadata (ro_result out)"
    by simp
qed

theorem datagram_refines_policy_witness:
  "\<exists>out. open_datagram sample_env 0 (Some sample_snapshot) sample_metadata = Inr out \<and>
    datagram_ok sample_env sample_router sample_registry sample_metadata
      (Inr [V4 0x0A010203]) out"
proof -
  have "datagram_candidates sample_env sample_metadata = Inr [V4 0x0A010203]" by code_simp
  with datagram_refines_policy [OF sample_usable sample_restore, of sample_env] show ?thesis by simp
qed

text \<open>Started, reloaded with generation 7, stopped.\<close>

abbreviation sample_start_env :: "unit start_env" where
  "sample_start_env \<equiv> \<lparr>se_validate = \<lambda>_. Inr (), se_tls = Inr (), se_listen = Inr (), se_udp = Inr ()\<rparr>"

abbreviation sample_server :: "(nat, unit) proxy_server" where
  "sample_server \<equiv> snd (start_server sample_start_env (new_server (Some sample_registry)))"

theorem restart_refused_witness:
  "ps_running sample_server \<and>
   fst (start_server sample_start_env
       (stop_server (snd (reload (\<lambda>_. Inr ()) (Some sample_snapshot) sample_server)))) =
     Inl (mk_error Configuration ''runtime snapshot generation must increase'')"
proof -
  have a: "fst (reload (\<lambda>_. Inr ()) (Some sample_snapshot) sample_server) = Inr ()"
    "rs_generation sample_snapshot \<noteq> 0" "ps_next_generation sample_server \<le> rs_generation sample_snapshot"
    "ps_running sample_server"
    "validate_registry sample_registry = Inr ()"
    "validate (ps_router sample_server) (registry_ids sample_registry) = Inr ()"
    "validate_snapshot (se_validate sample_start_env)
      \<lparr>rs_generation = ps_next_generation sample_server, rs_router = Some (ps_router sample_server),
       rs_outbounds = Some (snapshot sample_registry), rs_resolver = ps_resolver sample_server,
       rs_fake_ip_store = ps_fake_ip_store sample_server\<rparr> = Inr ()"
    by code_simp+
  have r: "ps_registry sample_server = Some sample_registry"
    by (simp add: start_server_registry new_server_def)
  from a(1) have "reload (\<lambda>_. Inr ()) (Some sample_snapshot) sample_server =
      (Inr (), snd (reload (\<lambda>_. Inr ()) (Some sample_snapshot) sample_server))"
    by (metis prod.collapse)
  from restart_refused [OF this a(2-4) r a(5-)] a(4) show ?thesis by blast
qed

end
