(* ===== verification/Snappy_Stream.thy ===== *)
theory Snappy_Stream
  imports Core_Types "HOL-Library.Sublist"
begin

text \<open>
  \<^verbatim>\<open>src/transport/shadowsocks/kcptun_snappy.cpp\<close>: a byte stream in framed Snappy chunks over another
  stream.  The state of \<^verbatim>\<open>SnappyStreamState\<close> with the calls of the owner and the completions of the
  lower stream as steps, which return the handlers called and what the lower stream is asked for.
  Handlers are numbers; the Snappy library is a parameter.
\<close>

section \<open>Chunks\<close>

record snappy_library =
  sl_compress :: "bytes \<Rightarrow> bytes"
  sl_uncompress :: "bytes \<Rightarrow> bytes option"  \<comment> \<open>\<^verbatim>\<open>GetUncompressedLength\<close> and \<^verbatim>\<open>RawUncompress\<close>\<close>

definition kStreamIdentifier :: bytes where
  "kStreamIdentifier = [0xff, 0x06, 0x00, 0x00, 0x73, 0x4e, 0x61, 0x50, 0x70, 0x59]"

definition kChunkHeaderSize :: nat where "kChunkHeaderSize = 4"
definition kChunkChecksumSize :: nat where "kChunkChecksumSize = 4"
definition kMaximumChunkPayload :: nat where "kMaximumChunkPayload = 0x00ffffff"
definition kCompressionChunkSize :: nat where "kCompressionChunkSize = 32 * 1024"

definition put_u24 :: "u32 \<Rightarrow> bytes" where
  "put_u24 v = [ucast v, ucast (drop_bit 8 v), ucast (drop_bit 16 v)]"

definition get_u24 :: "bytes \<Rightarrow> u32" where
  "get_u24 bs = ucast (bs ! 0) OR push_bit 8 (ucast (bs ! 1)) OR push_bit 16 (ucast (bs ! 2))"

definition put_u32 :: "u32 \<Rightarrow> bytes" where
  "put_u32 v = [ucast v, ucast (drop_bit 8 v), ucast (drop_bit 16 v), ucast (drop_bit 24 v)]"

definition get_u32 :: "bytes \<Rightarrow> u32" where
  "get_u32 bs = ucast (bs ! 0) OR push_bit 8 (ucast (bs ! 1)) OR push_bit 16 (ucast (bs ! 2)) OR
     push_bit 24 (ucast (bs ! 3))"

fun crc32c_bits :: "nat \<Rightarrow> u32 \<Rightarrow> u32" where
  "crc32c_bits bits value =
     (if bits = 0 then value
      else crc32c_bits (bits - 1)
        (if value AND 1 \<noteq> 0 then drop_bit 1 value XOR 0x82f63b78 else drop_bit 1 value))"

declare crc32c_bits.simps [simp del]

definition crc32c_table :: "u32 \<Rightarrow> u32" where
  "crc32c_table index = crc32c_bits 8 index"

fun crc32c_update :: "u32 \<Rightarrow> bytes \<Rightarrow> u32" where
  "crc32c_update value [] = value"
| "crc32c_update value (byte # input) =
     crc32c_update (crc32c_table ((value XOR ucast byte) AND 0xff) XOR drop_bit 8 value) input"

definition crc32c :: "bytes \<Rightarrow> u32" where
  "crc32c input = crc32c_update 0xffffffff input XOR 0xffffffff"

definition masked_crc32c :: "bytes \<Rightarrow> u32" where
  "masked_crc32c input =
     (let value = crc32c input in (drop_bit 15 value OR push_bit 17 value) + 0xa282ead8)"

text \<open>What \<^verbatim>\<open>append_chunk\<close> appends.\<close>

definition chunk :: "snappy_library \<Rightarrow> bytes \<Rightarrow> bytes" where
  "chunk lib plaintext =
     (let compressed = sl_compress lib plaintext;
          use_compressed = length compressed + kChunkChecksumSize < length plaintext + kChunkChecksumSize;
          type = (if use_compressed then 0x00 else 0x01);
          payload_size = (if use_compressed then length compressed else length plaintext)
            + kChunkChecksumSize in
      if payload_size > kMaximumChunkPayload then []
      else type # put_u24 (word_of_nat payload_size) @ put_u32 (masked_crc32c plaintext) @
        (if use_compressed then compressed else plaintext))"

function write_chunks :: "snappy_library \<Rightarrow> bytes \<Rightarrow> bytes" where
  "write_chunks lib data =
     (if data = [] then []
      else chunk lib (take kCompressionChunkSize data) @
        write_chunks lib (drop kCompressionChunkSize data))"
  by auto
termination
  by (relation "measure (length \<circ> snd)") (auto simp: kCompressionChunkSize_def)

declare write_chunks.simps [simp del]

section \<open>The stream\<close>

datatype io_error =
    Operation_aborted | Already_started | End_of_stream | Protocol_error | Transport_error nat

text \<open>\<^verbatim>\<open>PendingWrite\<close>; the objects live in a list, their index stands for the pointer.\<close>

record pending_write =
  pw_packet :: bytes
  pw_handler :: "nat option"
  pw_size :: nat
  pw_cancelled :: bool

text \<open>What \<^verbatim>\<open>read_exact\<close> is filling.\<close>

datatype rx = Rx_identifier | Rx_header | Rx_skip nat | Rx_payload byte nat

text \<open>\<open>sn_source\<close> is what the peer has sent and the stream not yet read, \<open>sn_in_flight\<close> is
  \<^verbatim>\<open>write_in_progress_\<close> with the write it is about.\<close>

record snappy_stream =
  sn_source :: bytes
  sn_rx :: rx
  sn_got :: bytes
  sn_incoming :: "bytes list"
  sn_offset :: nat
  sn_reader :: "(nat \<times> nat) option"
  sn_objects :: "pending_write list"
  sn_writes :: "nat list"
  sn_write_handler :: "nat option"
  sn_identifier_sent :: bool
  sn_in_flight :: "nat option"
  sn_remote_closed :: bool
  sn_closed :: bool

definition new_stream :: "bytes \<Rightarrow> snappy_stream" where
  "new_stream source =
     \<lparr>sn_source = source, sn_rx = Rx_identifier, sn_got = [], sn_incoming = [], sn_offset = 0,
      sn_reader = None, sn_objects = [], sn_writes = [], sn_write_handler = None,
      sn_identifier_sent = False, sn_in_flight = None, sn_remote_closed = False, sn_closed = False\<rparr>"

datatype snappy_action =
    Read_done nat "io_error option" bytes
  | Write_done nat "io_error option" nat
  | Lower_write bytes
  | Lower_close

subsection \<open>Ends\<close>

definition finish_read :: "io_error \<Rightarrow> snappy_stream \<Rightarrow> snappy_action list \<times> snappy_stream" where
  "finish_read e s =
     (case sn_reader s of
        None \<Rightarrow> ([], s)
      | Some (handler, n) \<Rightarrow> ([Read_done handler (Some e) []], s\<lparr>sn_reader := None\<rparr>))"

definition fail_write :: "io_error \<Rightarrow> pending_write \<Rightarrow> snappy_action list" where
  "fail_write e p =
     (case pw_handler p of
        Some handler \<Rightarrow> if pw_cancelled p then [] else [Write_done handler (Some e) 0]
      | None \<Rightarrow> [])"

definition finish_write :: "io_error \<Rightarrow> snappy_stream \<Rightarrow> snappy_action list \<times> snappy_stream" where
  "finish_write e s =
     (concat (map (\<lambda>i. fail_write e (sn_objects s ! i)) (sn_writes s)) @
      (case sn_write_handler s of None \<Rightarrow> [] | Some i \<Rightarrow> fail_write e (sn_objects s ! i)),
      s\<lparr>sn_write_handler := None, sn_writes := []\<rparr>)"

definition close_stream :: "snappy_stream \<Rightarrow> snappy_action list \<times> snappy_stream" where
  "close_stream s =
     (if sn_closed s then ([], s)
      else let (r, s) = finish_read Operation_aborted (s\<lparr>sn_closed := True\<rparr>);
               (w, s) = finish_write Operation_aborted s
           in (Lower_close # r @ w, s))"

definition close_with_error :: "io_error \<Rightarrow> snappy_stream \<Rightarrow> snappy_action list \<times> snappy_stream" where
  "close_with_error e s =
     (if sn_closed s then ([], s)
      else let (r, s) = finish_read e s; (w, s) = finish_write e s; (c, s) = close_stream s
           in (r @ w @ c, s))"

subsection \<open>Writing\<close>

definition pump_write :: "snappy_stream \<Rightarrow> snappy_action list \<times> snappy_stream" where
  "pump_write s =
     (if sn_closed s \<or> sn_in_flight s \<noteq> None then ([], s)
      else case sn_writes s of
        [] \<Rightarrow> ([], s)
      | i # rest \<Rightarrow>
          ([Lower_write (pw_packet (sn_objects s ! i))],
           s\<lparr>sn_in_flight := Some i, sn_writes := rest\<rparr>))"

definition async_write ::
  "snappy_library \<Rightarrow> nat \<Rightarrow> bytes \<Rightarrow> snappy_stream \<Rightarrow> snappy_action list \<times> snappy_stream" where
  "async_write lib handler data s =
     (if sn_closed s then ([Write_done handler (Some Operation_aborted) 0], s)
      else if sn_write_handler s \<noteq> None then ([Write_done handler (Some Already_started) 0], s)
      else if data = [] then ([Write_done handler None 0], s)
      else let packet = (if sn_identifier_sent s then [] else kStreamIdentifier) @ write_chunks lib data;
               i = length (sn_objects s)
           in pump_write (s\<lparr>sn_identifier_sent := True,
                sn_objects := sn_objects s @ [\<lparr>pw_packet = packet, pw_handler = Some handler,
                  pw_size = length data, pw_cancelled = False\<rparr>],
                sn_write_handler := Some i, sn_writes := sn_writes s @ [i]\<rparr>))"

text \<open>The completion of the lower write.\<close>

definition write_completed :: "io_error option \<Rightarrow> snappy_stream \<Rightarrow> snappy_action list \<times> snappy_stream" where
  "write_completed result s =
     (case sn_in_flight s of
        None \<Rightarrow> ([], s)
      | Some i \<Rightarrow>
          let p = sn_objects s ! i; s = s\<lparr>sn_in_flight := None\<rparr> in
          (case result of
             Some e \<Rightarrow> if pw_cancelled p then pump_write s else close_with_error e s
           | None \<Rightarrow>
               (case pw_handler p of
                  Some handler \<Rightarrow>
                    if pw_cancelled p then pump_write s
                    else let (actions, s) = pump_write (s\<lparr>
                             sn_objects := (sn_objects s)[i := p\<lparr>pw_handler := None\<rparr>],
                             sn_write_handler := (if sn_write_handler s = Some i then None
                               else sn_write_handler s)\<rparr>)
                         in (Write_done handler None (pw_size p) # actions, s)
                | None \<Rightarrow> pump_write s)))"

definition cancel_write :: "snappy_stream \<Rightarrow> snappy_action list \<times> snappy_stream" where
  "cancel_write s =
     (case sn_write_handler s of
        None \<Rightarrow> ([], s)
      | Some i \<Rightarrow>
          let p = sn_objects s ! i; s = s\<lparr>sn_write_handler := None\<rparr> in
          (case pw_handler p of
             None \<Rightarrow> ([], s)
           | Some handler \<Rightarrow>
               ([Write_done handler (Some Operation_aborted) 0],
                s\<lparr>sn_objects := (sn_objects s)[i := p\<lparr>pw_cancelled := True, pw_handler := None\<rparr>]\<rparr>)))"

subsection \<open>Reading\<close>

text \<open>The copying loop of \<^verbatim>\<open>deliver_read\<close>: the bytes, and what stays queued.\<close>

fun take_incoming :: "nat \<Rightarrow> bytes list \<Rightarrow> nat \<Rightarrow> bytes \<times> bytes list \<times> nat" where
  "take_incoming n [] offset = ([], [], offset)"
| "take_incoming n (front # rest) offset =
     (if n = 0 then ([], front # rest, offset)
      else let count = min (length front - offset) n in
        if offset + count = length front
        then (case take_incoming (n - count) rest 0 of
            (copied, incoming, offset') \<Rightarrow> (take count (drop offset front) @ copied, incoming, offset'))
        else (take count (drop offset front), front # rest, offset + count))"

definition deliver_read :: "snappy_stream \<Rightarrow> snappy_action list \<times> snappy_stream" where
  "deliver_read s =
     (case sn_reader s of
        None \<Rightarrow> ([], s)
      | Some (handler, n) \<Rightarrow>
          if sn_incoming s = []
          then (if sn_remote_closed s then finish_read End_of_stream s else ([], s))
          else (case take_incoming n (sn_incoming s) (sn_offset s) of
              (copied, incoming, offset) \<Rightarrow>
                ([Read_done handler None copied],
                 s\<lparr>sn_incoming := incoming, sn_offset := offset, sn_reader := None\<rparr>)))"

definition async_read_some ::
  "nat \<Rightarrow> nat \<Rightarrow> snappy_stream \<Rightarrow> snappy_action list \<times> snappy_stream" where
  "async_read_some handler n s =
     (if sn_closed s then ([Read_done handler (Some Operation_aborted) []], s)
      else if sn_reader s \<noteq> None then ([Read_done handler (Some Already_started) []], s)
      else if n = 0 then ([Read_done handler None []], s)
      else deliver_read (s\<lparr>sn_reader := Some (handler, n)\<rparr>))"

definition cancel_read :: "snappy_stream \<Rightarrow> snappy_action list \<times> snappy_stream" where
  "cancel_read s = finish_read Operation_aborted s"

definition read_chunk_header :: "snappy_stream \<Rightarrow> snappy_stream" where
  "read_chunk_header s = (if sn_closed s then s else s\<lparr>sn_rx := Rx_header, sn_got := []\<rparr>)"

definition read_skip_chunk :: "nat \<Rightarrow> snappy_stream \<Rightarrow> snappy_stream" where
  "read_skip_chunk n s =
     (if n = 0 then read_chunk_header s else s\<lparr>sn_rx := Rx_skip n, sn_got := []\<rparr>)"

definition handle_chunk ::
  "snappy_library \<Rightarrow> byte \<Rightarrow> bytes \<Rightarrow> snappy_stream \<Rightarrow> snappy_action list \<times> snappy_stream" where
  "handle_chunk lib type payload s =
     (let expected_crc = get_u32 payload; data = drop kChunkChecksumSize payload in
      case (if type = 0x00 then sl_uncompress lib data else Some data) of
        None \<Rightarrow> close_with_error Protocol_error s
      | Some decoded \<Rightarrow>
          if masked_crc32c decoded \<noteq> expected_crc then close_with_error Protocol_error s
          else if decoded = [] then ([], read_chunk_header s)
          else let (actions, s) = deliver_read (s\<lparr>sn_incoming := sn_incoming s @ [decoded]\<rparr>)
               in (actions, read_chunk_header s))"

definition chunk_header_read :: "bytes \<Rightarrow> snappy_stream \<Rightarrow> snappy_action list \<times> snappy_stream" where
  "chunk_header_read header s =
     (let type = header ! 0; n = unat (get_u24 (drop 1 header)) in
      if 0x80 \<le> type \<and> type \<le> 0xfe then ([], read_skip_chunk n s)
      else if type \<noteq> 0x00 \<and> type \<noteq> 0x01 \<or> n < kChunkChecksumSize
      then close_with_error Protocol_error s
      else ([], s\<lparr>sn_rx := Rx_payload type n, sn_got := []\<rparr>))"

text \<open>\<open>rx_size\<close> is the size of the buffer \<^verbatim>\<open>read_exact\<close> fills, \<open>rx_complete\<close> its handler.\<close>

fun rx_size :: "rx \<Rightarrow> nat" where
  "rx_size Rx_identifier = length kStreamIdentifier"
| "rx_size Rx_header = kChunkHeaderSize"
| "rx_size (Rx_skip n) = n"
| "rx_size (Rx_payload type n) = n"

definition rx_complete ::
  "snappy_library \<Rightarrow> bytes \<Rightarrow> snappy_stream \<Rightarrow> snappy_action list \<times> snappy_stream" where
  "rx_complete lib bs s =
     (case sn_rx s of
        Rx_identifier \<Rightarrow>
          if bs = kStreamIdentifier then ([], read_chunk_header s)
          else close_with_error Protocol_error s
      | Rx_header \<Rightarrow> chunk_header_read bs s
      | Rx_skip n \<Rightarrow> ([], read_chunk_header s)
      | Rx_payload type n \<Rightarrow> handle_chunk lib type bs s)"

text \<open>One completion of the lower read, of at most \<open>n\<close> bytes.\<close>

definition read_exact ::
  "snappy_library \<Rightarrow> nat \<Rightarrow> snappy_stream \<Rightarrow> snappy_action list \<times> snappy_stream" where
  "read_exact lib n s =
     (if sn_closed s then ([], s)
      else let k = min n (rx_size (sn_rx s) - length (sn_got s));
               got = sn_got s @ take k (sn_source s);
               s = s\<lparr>sn_source := drop k (sn_source s), sn_got := got\<rparr>
           in if length got = rx_size (sn_rx s) then rx_complete lib got s else ([], s))"

subsection \<open>Steps\<close>

datatype snappy_event =
    Read nat nat
  | Write nat bytes
  | Cancel_read
  | Cancel_write
  | Close
  | Lower_ready nat
  | Lower_failed io_error
  | Lower_written "io_error option"

fun snappy_step ::
  "snappy_library \<Rightarrow> snappy_event \<Rightarrow> snappy_stream \<Rightarrow> snappy_action list \<times> snappy_stream" where
  "snappy_step lib (Read handler n) s = async_read_some handler n s"
| "snappy_step lib (Write handler data) s = async_write lib handler data s"
| "snappy_step lib Cancel_read s = cancel_read s"
| "snappy_step lib Cancel_write s = cancel_write s"
| "snappy_step lib Close s = close_stream s"
| "snappy_step lib (Lower_ready n) s = read_exact lib n s"
| "snappy_step lib (Lower_failed e) s = close_with_error e s"
| "snappy_step lib (Lower_written result) s = write_completed result s"

fun snappy_run ::
  "snappy_library \<Rightarrow> snappy_event list \<Rightarrow> snappy_stream \<Rightarrow> snappy_action list \<times> snappy_stream" where
  "snappy_run lib [] s = ([], s)"
| "snappy_run lib (e # es) s =
     (let (a, s) = snappy_step lib e s; (as, s) = snappy_run lib es s in (a @ as, s))"

section \<open>Chunks are read back\<close>

definition snappy_ok :: "snappy_library \<Rightarrow> bool" where
  "snappy_ok lib \<longleftrightarrow> (\<forall>data. sl_uncompress lib (sl_compress lib data) = Some data)"

lemma get_u24_put_u24: "v < 2 ^ 24 \<Longrightarrow> get_u24 (put_u24 v @ tail) = v"
proof (rule bit_word_eqI)
  fix k assume v: "v < 2 ^ 24" and k: "k < LENGTH(32)"
  have "v AND mask 24 = v" using v by (rule less_mask_eq)
  then have "bit v k \<Longrightarrow> k < 24" by (metis bit_and_iff bit_mask_iff)
  then show "bit (get_u24 (put_u24 v @ tail)) k = bit v k"
    using k by (cases "16 \<le> k"; cases "8 \<le> k") (auto simp: get_u24_def put_u24_def bit_simps)
qed

lemma get_u32_put_u32: "get_u32 (put_u32 v @ tail) = v"
proof (rule bit_word_eqI)
  fix k assume k: "k < LENGTH(32)"
  then show "bit (get_u32 (put_u32 v @ tail)) k = bit v k"
    by (cases "24 \<le> k"; cases "16 \<le> k"; cases "8 \<le> k") (auto simp: get_u32_def put_u32_def bit_simps)
qed

lemma length_put [simp]: "length (put_u24 v) = 3" "length (put_u32 v) = 4"
  by (simp_all add: put_u24_def put_u32_def)

text \<open>The decoding that \<^verbatim>\<open>handle_chunk\<close> does, in one word.\<close>

definition chunk_data :: "snappy_library \<Rightarrow> byte \<Rightarrow> bytes \<Rightarrow> bytes option" where
  "chunk_data lib type payload =
     (if type = 0x00 then sl_uncompress lib (drop kChunkChecksumSize payload)
      else Some (drop kChunkChecksumSize payload))"

lemma chunk_parts:
  assumes "snappy_ok lib" and "length data \<le> kCompressionChunkSize"
  obtains type payload where "chunk lib data = type # put_u24 (word_of_nat (length payload)) @ payload"
    "type = 0x00 \<or> type = 0x01" "kChunkChecksumSize \<le> length payload" "length payload < 2 ^ 24"
    "get_u32 payload = masked_crc32c data" "chunk_data lib type payload = Some data"
proof (cases "length (sl_compress lib data) < length data")
  case True
  let ?payload = "put_u32 (masked_crc32c data) @ sl_compress lib data"
  from True assms have "chunk lib data = 0x00 # put_u24 (word_of_nat (length ?payload)) @ ?payload"
    by (simp add: chunk_def Let_def kChunkChecksumSize_def kMaximumChunkPayload_def
        kCompressionChunkSize_def add.commute)
  with True assms show ?thesis
    by (intro that [of "0x00" ?payload]) (simp_all add: get_u32_put_u32 chunk_data_def snappy_ok_def
        kChunkChecksumSize_def kCompressionChunkSize_def)
next
  case False
  let ?payload = "put_u32 (masked_crc32c data) @ data"
  from False assms have "chunk lib data = 0x01 # put_u24 (word_of_nat (length ?payload)) @ ?payload"
    by (simp add: chunk_def Let_def kChunkChecksumSize_def kMaximumChunkPayload_def
        kCompressionChunkSize_def add.commute)
  with assms show ?thesis
    by (intro that [of "0x01" ?payload]) (simp_all add: get_u32_put_u32 chunk_data_def
        kChunkChecksumSize_def kCompressionChunkSize_def)
qed

text \<open>The pieces a write is cut into.\<close>

function pieces :: "bytes \<Rightarrow> bytes list" where
  "pieces data =
     (if data = [] then []
      else take kCompressionChunkSize data # pieces (drop kCompressionChunkSize data))"
  by auto
termination
  by (relation "measure length") (auto simp: kCompressionChunkSize_def)

declare pieces.simps [simp del]

lemma write_chunks_pieces: "write_chunks lib data = concat (map (chunk lib) (pieces data))"
proof (induction data rule: pieces.induct)
  case (1 data)
  then show ?case by (cases "data = []") (simp_all add: write_chunks.simps [of lib data] write_chunks.simps [of lib "[]"] pieces.simps [of data] pieces.simps [of "[]"])
qed

lemma concat_pieces: "concat (pieces data) = data"
proof (induction data rule: pieces.induct)
  case (1 data)
  then show ?case by (cases "data = []") (simp_all add: pieces.simps [of data] pieces.simps [of "[]"])
qed

lemma pieces_bounded: "c \<in> set (pieces data) \<Longrightarrow> c \<noteq> [] \<and> length c \<le> kCompressionChunkSize"
proof (induction data rule: pieces.induct)
  case (1 data)
  then show ?case
    by (cases "data = []") (auto simp: pieces.simps [of data] pieces.simps [of "[]"] kCompressionChunkSize_def)
qed

section \<open>Delivering\<close>

definition delivered :: "snappy_action list \<Rightarrow> bytes" where
  "delivered actions =
     concat (map (\<lambda>a. case a of Read_done handler None bs \<Rightarrow> bs | _ \<Rightarrow> []) actions)"

lemma delivered_simps [simp]:
  "delivered [] = []" "delivered (as @ bs) = delivered as @ delivered bs"
  "delivered (Read_done h None xs # as) = xs @ delivered as"
  "delivered (Read_done h (Some e) xs # as) = delivered as"
  "delivered (Write_done h r n # as) = delivered as"
  "delivered (Lower_write xs # as) = delivered as" "delivered (Lower_close # as) = delivered as"
  by (simp_all add: delivered_def)

definition queue_ok :: "bytes list \<Rightarrow> nat \<Rightarrow> bool" where
  "queue_ok incoming offset \<longleftrightarrow> [] \<notin> set incoming \<and>
     (case incoming of [] \<Rightarrow> offset = 0 | front # rest \<Rightarrow> offset < length front)"

lemma take_incoming_queue:
  assumes "take_incoming n incoming offset = (copied, incoming', offset')" "queue_ok incoming offset"
  shows "copied @ drop offset' (concat incoming') = drop offset (concat incoming) \<and>
    queue_ok incoming' offset'"
  using assms
proof (induction n incoming offset arbitrary: copied incoming' offset' rule: take_incoming.induct)
  case (1 n offset)
  then show ?case by simp
next
  case (2 n front rest offset)
  define count where "count = min (length front - offset) n"
  have o: "offset < length front" using 2(3) by (simp add: queue_ok_def)
  show ?case
  proof (cases "n = 0")
    case True
    with 2(2,3) show ?thesis by auto
  next
    case n: False
    show ?thesis
    proof (cases "offset + count = length front")
      case True
      obtain c i f where r: "take_incoming (n - count) rest 0 = (c, i, f)" by (metis prod_cases3)
      have q: "queue_ok rest 0" using 2(3) by (auto simp: queue_ok_def split: list.splits)
      from 2(1) [OF n count_def True r q] r 2(2) n True show ?thesis
        using o by (auto simp: count_def [symmetric] drop_append)
    next
      case False
      then have "count = n" "offset + n < length front" using o by (auto simp: count_def min_def split: if_splits)
      moreover have "take n (drop offset front) @ drop (offset + n) front = drop offset front"
        by (metis append_take_drop_id drop_drop add.commute)
      ultimately show ?thesis using 2(2,3) n False o
        by (auto simp: count_def queue_ok_def simp flip: append_assoc)
    qed
  qed
qed

definition undelivered :: "snappy_stream \<Rightarrow> bytes" where
  "undelivered s = drop (sn_offset s) (concat (sn_incoming s))"

definition queued_ok :: "snappy_stream \<Rightarrow> bool" where
  "queued_ok s \<longleftrightarrow> queue_ok (sn_incoming s) (sn_offset s)"

text \<open>Steps that leave what was read alone.\<close>

definition reads_kept :: "snappy_action list \<Rightarrow> snappy_stream \<Rightarrow> snappy_stream \<Rightarrow> bool" where
  "reads_kept a s s' \<longleftrightarrow> delivered a = [] \<and> sn_incoming s' = sn_incoming s \<and> sn_offset s' = sn_offset s \<and>
     (\<not> sn_closed s' \<longrightarrow> \<not> sn_closed s \<and> sn_rx s' = sn_rx s \<and> sn_got s' = sn_got s \<and>
        sn_source s' = sn_source s)"

lemma reads_keptI:
  assumes "delivered a = []" "sn_incoming s' = sn_incoming s" "sn_offset s' = sn_offset s"
    and "\<not> sn_closed s' \<Longrightarrow> \<not> sn_closed s" "sn_rx s' = sn_rx s" "sn_got s' = sn_got s"
    "sn_source s' = sn_source s"
  shows "reads_kept a s s'"
  using assms by (auto simp: reads_kept_def)

lemma delivered_finish_read [simp]: "delivered (fst (finish_read e s)) = []"
  by (auto simp: finish_read_def split: option.splits)

lemma delivered_fail_write [simp]: "delivered (fail_write e p) = []"
  by (auto simp: fail_write_def split: option.splits)

lemma delivered_concat: "(\<And>i. i \<in> set is \<Longrightarrow> delivered (f i) = []) \<Longrightarrow> delivered (concat (map f is)) = []"
  by (induction "is") auto

lemma delivered_finish_write [simp]: "delivered (fst (finish_write e s)) = []"
  by (auto simp: finish_write_def delivered_concat split: option.splits)

lemma finish_frame [simp]:
  "sn_incoming (snd (finish_read e s)) = sn_incoming s" "sn_offset (snd (finish_read e s)) = sn_offset s"
  "sn_rx (snd (finish_read e s)) = sn_rx s" "sn_got (snd (finish_read e s)) = sn_got s"
  "sn_source (snd (finish_read e s)) = sn_source s" "sn_closed (snd (finish_read e s)) = sn_closed s"
  "sn_incoming (snd (finish_write e s)) = sn_incoming s" "sn_offset (snd (finish_write e s)) = sn_offset s"
  "sn_rx (snd (finish_write e s)) = sn_rx s" "sn_got (snd (finish_write e s)) = sn_got s"
  "sn_source (snd (finish_write e s)) = sn_source s" "sn_closed (snd (finish_write e s)) = sn_closed s"
  by (auto simp: finish_read_def finish_write_def split: option.splits)

lemma close_stream_reads [intro]: "reads_kept (fst (close_stream s)) s (snd (close_stream s))"
  by (rule reads_keptI) (simp_all add: close_stream_def split_beta Let_def split: if_split_asm)

lemma close_with_error_reads [intro]:
  "reads_kept (fst (close_with_error e s)) s (snd (close_with_error e s))"
  by (rule reads_keptI)
    (simp_all add: close_with_error_def close_stream_def split_beta Let_def split: if_split_asm)

lemma closes [simp]: "sn_closed (snd (close_stream s))" "sn_closed (snd (close_with_error e s))"
  by (simp_all add: close_with_error_def close_stream_def split_beta Let_def)

lemma pump_write_reads [intro]: "reads_kept (fst (pump_write s)) s (snd (pump_write s))"
  by (rule reads_keptI) (auto simp: pump_write_def split: list.splits)

lemma reads_kept_trans:
  "reads_kept a s s' \<Longrightarrow> reads_kept b s' s'' \<Longrightarrow> reads_kept (a @ b) s s''"
  by (auto simp: reads_kept_def)

lemma pump_write_reads_from:
  assumes "sn_incoming s' = sn_incoming s" "sn_offset s' = sn_offset s" "sn_closed s' = sn_closed s"
    "sn_rx s' = sn_rx s" "sn_got s' = sn_got s" "sn_source s' = sn_source s"
  shows "reads_kept (fst (pump_write s')) s (snd (pump_write s'))"
  using pump_write_reads [of s'] assms by (auto simp: reads_kept_def)

lemma async_write_reads:
  "reads_kept (fst (async_write lib h data s)) s (snd (async_write lib h data s))"
  by (auto simp: async_write_def Let_def intro!: pump_write_reads_from) (simp_all add: reads_kept_def)

lemma write_completed_reads: "reads_kept (fst (write_completed r s)) s (snd (write_completed r s))"
proof (cases "sn_in_flight s")
  case None
  then show ?thesis by (simp add: write_completed_def reads_kept_def)
next
  case (Some i)
  let ?s = "s\<lparr>sn_in_flight := None\<rparr>"
  have closing: "reads_kept (fst (close_with_error e ?s)) s (snd (close_with_error e ?s))" for e
    using close_with_error_reads [of e ?s] by (auto simp: reads_kept_def)
  have completed: "reads_kept (Write_done h None n # fst (pump_write s')) s (snd (pump_write s'))"
    if "reads_kept (fst (pump_write s')) s (snd (pump_write s'))" for h n s'
    using that by (simp add: reads_kept_def)
  show ?thesis using closing
    by (auto simp: write_completed_def Some Let_def split_beta intro!: pump_write_reads_from completed
        split: option.split)
qed

lemma cancel_write_reads: "reads_kept (fst (cancel_write s)) s (snd (cancel_write s))"
  by (auto simp: cancel_write_def Let_def reads_kept_def split: option.splits)

lemma cancel_read_reads: "reads_kept (fst (cancel_read s)) s (snd (cancel_read s))"
  by (rule reads_keptI) (simp_all add: cancel_read_def)

text \<open>Handing queued bytes to a reader.\<close>

lemma deliver_read_queue:
  assumes "deliver_read s = (a, s')" "queued_ok s"
  shows "delivered a @ undelivered s' = undelivered s \<and> queued_ok s' \<and> sn_closed s' = sn_closed s \<and>
    sn_rx s' = sn_rx s \<and> sn_got s' = sn_got s \<and> sn_source s' = sn_source s"
proof (cases "sn_reader s")
  case None
  with assms show ?thesis by (auto simp: deliver_read_def)
next
  case (Some r)
  then obtain h n where r: "sn_reader s = Some (h, n)" by (cases r) auto
  show ?thesis
  proof (cases "sn_incoming s = []")
    case True
    with assms r finish_frame [of End_of_stream s] show ?thesis
      by (cases "finish_read End_of_stream s")
        (auto simp: deliver_read_def undelivered_def queued_ok_def finish_read_def split: if_splits)
  next
    case False
    obtain c i f where t: "take_incoming n (sn_incoming s) (sn_offset s) = (c, i, f)"
      by (metis prod_cases3)
    from take_incoming_queue [OF t] assms r False t show ?thesis
      by (auto simp: deliver_read_def undelivered_def queued_ok_def)
  qed
qed

lemma async_read_queue:
  assumes "async_read_some h n s = (a, s')" "queued_ok s"
  shows "delivered a @ undelivered s' = undelivered s \<and> queued_ok s' \<and> sn_closed s' = sn_closed s \<and>
    sn_rx s' = sn_rx s \<and> sn_got s' = sn_got s \<and> sn_source s' = sn_source s"
proof (cases "sn_closed s \<or> sn_reader s \<noteq> None \<or> n = 0")
  case True
  with assms show ?thesis by (auto simp: async_read_some_def split: if_splits)
next
  case False
  with assms(1) have "deliver_read (s\<lparr>sn_reader := Some (h, n)\<rparr>) = (a, s')"
    by (simp add: async_read_some_def)
  from deliver_read_queue [OF this] assms(2) show ?thesis by (simp add: undelivered_def queued_ok_def)
qed

section \<open>The peer's bytes come through\<close>

text \<open>
  \<open>todo\<close> are the chunks of the peer that are not read completely; \<open>rest\<close> is what the peer has not
  sent yet.
\<close>

definition rx_at :: "snappy_library \<Rightarrow> bytes list \<Rightarrow> bytes \<Rightarrow> snappy_stream \<Rightarrow> bool" where
  "rx_at lib todo rest s \<longleftrightarrow>
     length (sn_got s) < rx_size (sn_rx s) \<and>
     (let wire = sn_got s @ sn_source s @ rest; chunks = concat (map (chunk lib) todo) in
      case sn_rx s of
        Rx_identifier \<Rightarrow> wire = kStreamIdentifier @ chunks
      | Rx_header \<Rightarrow> wire = chunks
      | Rx_skip n \<Rightarrow> False
      | Rx_payload type n \<Rightarrow> (\<exists>data later payload. todo = data # later \<and> length payload = n \<and>
          chunk lib data = type # put_u24 (word_of_nat n) @ payload \<and>
          wire = payload @ concat (map (chunk lib) later)))"

definition reader_ok :: "snappy_library \<Rightarrow> bytes list \<Rightarrow> bytes \<Rightarrow> bytes \<Rightarrow> snappy_stream \<Rightarrow> bool" where
  "reader_ok lib chunks rest bs s \<longleftrightarrow>
     queued_ok s \<and>
     (\<exists>done todo. chunks = done @ todo \<and> bs @ undelivered s = concat done \<and>
        (\<not> sn_closed s \<longrightarrow> rx_at lib todo rest s))"

lemma reader_okI:
  "chunks = read @ todo \<Longrightarrow> queued_ok s \<Longrightarrow> bs @ undelivered s = concat read \<Longrightarrow>
     rx_at lib todo rest s \<Longrightarrow> reader_ok lib chunks rest bs s"
  by (auto simp: reader_ok_def)

lemma reader_ok_kept:
  assumes "reads_kept a s s'" "reader_ok lib chunks rest bs s"
  shows "reader_ok lib chunks rest (bs @ delivered a) s'"
  using assms by (auto simp: reader_ok_def reads_kept_def queued_ok_def undelivered_def rx_at_def)

lemma reader_ok_delivering:
  assumes "delivered a @ undelivered s' = undelivered s \<and> queued_ok s' \<and> sn_closed s' = sn_closed s \<and>
      sn_rx s' = sn_rx s \<and> sn_got s' = sn_got s \<and> sn_source s' = sn_source s"
    and "reader_ok lib chunks rest bs s"
  shows "reader_ok lib chunks rest (bs @ delivered a) s'"
  using assms by (auto simp: reader_ok_def rx_at_def)

lemma unat_get_u24:
  assumes "n < 2 ^ 24"
  shows "unat (get_u24 (put_u24 (word_of_nat n) @ tail)) = n"
proof -
  have "(word_of_nat n :: u32) < 2 ^ 24"
    using assms by (simp add: word_less_nat_alt unat_of_nat)
  with assms show ?thesis by (simp add: get_u24_put_u24 unat_of_nat)
qed

lemma chunk_split:
  assumes "snappy_ok lib" "length data \<le> kCompressionChunkSize"
    and "chunk lib data @ behind = header @ tail" "length header = kChunkHeaderSize"
  obtains payload where "header ! 0 = 0x00 \<or> header ! 0 = 0x01"
    "unat (get_u24 (drop 1 header)) = length payload" "kChunkChecksumSize \<le> length payload"
    "chunk lib data = header ! 0 # put_u24 (word_of_nat (length payload)) @ payload" "tail = payload @ behind"
proof -
  obtain type payload where c: "chunk lib data = type # put_u24 (word_of_nat (length payload)) @ payload"
    "type = 0x00 \<or> type = 0x01" "kChunkChecksumSize \<le> length payload" "length payload < 2 ^ 24"
    using chunk_parts [OF assms(1,2)] by metis
  have "header = type # put_u24 (word_of_nat (length payload)) \<and> tail = payload @ behind"
    using assms(3,4) c(1) by (intro conjI) (auto simp: append_eq_append_conv kChunkHeaderSize_def Cons_eq_append_conv)
  with c unat_get_u24 [OF c(4), of "[]"] show ?thesis by (intro that [of payload]) auto
qed

lemma chunk_payload:
  assumes "snappy_ok lib" "length data \<le> kCompressionChunkSize"
    and "chunk lib data = type # put_u24 v @ payload"
  shows "get_u32 payload = masked_crc32c data \<and> chunk_data lib type payload = Some data"
proof -
  obtain type' payload' where c: "chunk lib data = type' # put_u24 (word_of_nat (length payload')) @ payload'"
    "get_u32 payload' = masked_crc32c data" "chunk_data lib type' payload' = Some data"
    using chunk_parts [OF assms(1,2)] by metis
  from c(1) assms(3) have "type' = type" "payload' = payload" by simp_all
  with c show ?thesis by simp
qed

lemma read_header_frame [simp]:
  "\<not> sn_closed s \<Longrightarrow> read_chunk_header s = s\<lparr>sn_rx := Rx_header, sn_got := []\<rparr>"
  by (simp add: read_chunk_header_def)

lemma queue_append:
  assumes "queued_ok s" "data \<noteq> []"
  shows "queued_ok (s\<lparr>sn_incoming := sn_incoming s @ [data]\<rparr>) \<and>
    undelivered (s\<lparr>sn_incoming := sn_incoming s @ [data]\<rparr>) = undelivered s @ data"
  using assms by (auto simp: queued_ok_def queue_ok_def undelivered_def split: list.splits)

lemma handle_chunk_delivers:
  assumes "\<not> sn_closed s" "queued_ok s" "data \<noteq> []"
    and "get_u32 payload = masked_crc32c data" "chunk_data lib type payload = Some data"
    and "handle_chunk lib type payload s = (a, s')"
  shows "delivered a @ undelivered s' = undelivered s @ data \<and> queued_ok s' \<and> \<not> sn_closed s' \<and>
    sn_rx s' = Rx_header \<and> sn_got s' = [] \<and> sn_source s' = sn_source s"
proof -
  let ?s = "s\<lparr>sn_incoming := sn_incoming s @ [data]\<rparr>"
  obtain d t where d: "deliver_read ?s = (d, t)" by fastforce
  from queue_append [OF assms(2,3)] deliver_read_queue [OF d]
  have q: "delivered d @ undelivered t = undelivered s @ data" "queued_ok t" "sn_closed t = sn_closed s"
    "sn_source t = sn_source s" by simp_all
  have "handle_chunk lib type payload s = (d, read_chunk_header t)"
    using assms(3-5) d by (simp add: handle_chunk_def Let_def chunk_data_def)
  with assms(1,6) q(3) have "a = d" "s' = t\<lparr>sn_rx := Rx_header, sn_got := []\<rparr>" by simp_all
  with assms(1) q show ?thesis by (simp add: undelivered_def queued_ok_def)
qed

lemma rx_complete_ok:
  assumes lib: "snappy_ok lib" and bounded: "\<forall>c\<in>set chunks. c \<noteq> [] \<and> length c \<le> kCompressionChunkSize"
    and queue: "queued_ok s" and open_: "\<not> sn_closed s"
    and chunks: "chunks = read @ todo" and got: "length (sn_got s) = rx_size (sn_rx s)"
    and bs: "bs @ undelivered s = concat read"
    and at: "case sn_rx s of
        Rx_identifier \<Rightarrow> sn_got s @ sn_source s @ rest = kStreamIdentifier @ concat (map (chunk lib) todo)
      | Rx_header \<Rightarrow> sn_got s @ sn_source s @ rest = concat (map (chunk lib) todo)
      | Rx_skip n \<Rightarrow> False
      | Rx_payload type n \<Rightarrow> (\<exists>data later payload. todo = data # later \<and> length payload = n \<and>
          chunk lib data = type # put_u24 (word_of_nat n) @ payload \<and>
          sn_got s @ sn_source s @ rest = payload @ concat (map (chunk lib) later))"
    and step: "rx_complete lib (sn_got s) s = (a, s')"
  shows "reader_ok lib chunks rest (bs @ delivered a) s' \<and> \<not> sn_closed s'"
proof (cases "sn_rx s")
  case Rx_identifier
  with at got have "sn_got s = kStreamIdentifier" "sn_source s @ rest = concat (map (chunk lib) todo)"
    by (auto simp: append_eq_append_conv)
  with Rx_identifier step open_ have "a = []" "s' = s\<lparr>sn_rx := Rx_header, sn_got := []\<rparr>"
    "sn_source s @ rest = concat (map (chunk lib) todo)" by (simp_all add: rx_complete_def)
  then have "rx_at lib todo rest s'" "queued_ok s'" "bs @ delivered a @ undelivered s' = concat read"
    "\<not> sn_closed s'" using open_ bs queue
    by (simp_all add: rx_at_def queued_ok_def undelivered_def kChunkHeaderSize_def)
  with chunks show ?thesis by (auto simp: reader_ok_def)
next
  case Rx_header
  with at got have wire: "concat (map (chunk lib) todo) = sn_got s @ sn_source s @ rest"
    "length (sn_got s) = kChunkHeaderSize" by simp_all
  then obtain data later where todo: "todo = data # later" by (cases todo) (auto simp: kChunkHeaderSize_def)
  from bounded chunks todo have data: "length data \<le> kCompressionChunkSize" by auto
  have "chunk lib data @ concat (map (chunk lib) later) = sn_got s @ (sn_source s @ rest)"
    using wire(1) todo by simp
  from chunk_split [OF lib data this wire(2)] obtain payload where p:
    "sn_got s ! 0 = 0x00 \<or> sn_got s ! 0 = 0x01"
    "unat (get_u24 (drop 1 (sn_got s))) = length payload" "kChunkChecksumSize \<le> length payload"
    "chunk lib data = sn_got s ! 0 # put_u24 (word_of_nat (length payload)) @ payload"
    "sn_source s @ rest = payload @ concat (map (chunk lib) later)" by blast
  from p(1) have small: "\<not> 0x80 \<le> sn_got s ! 0" by (auto simp: word_le_nat_alt)
  have "rx_complete lib (sn_got s) s = ([], s\<lparr>sn_rx := Rx_payload (sn_got s ! 0) (length payload), sn_got := []\<rparr>)"
    using Rx_header small p(1-3) by (auto simp: rx_complete_def chunk_header_read_def Let_def)
  with step have "a = []" "s' = s\<lparr>sn_rx := Rx_payload (sn_got s ! 0) (length payload), sn_got := []\<rparr>"
    by simp_all
  moreover have "0 < length payload" using p(3) by (auto simp: kChunkChecksumSize_def)
  ultimately have "rx_at lib todo rest s'" "queued_ok s'" "bs @ delivered a @ undelivered s' = concat read"
    "\<not> sn_closed s'" using queue open_ bs todo p(4,5)
    by (simp_all add: rx_at_def queued_ok_def undelivered_def)
  with chunks show ?thesis by (auto simp: reader_ok_def)
next
  case (Rx_skip n)
  with at show ?thesis by simp
next
  case (Rx_payload type n)
  with at obtain data later payload where todo: "todo = data # later" "length payload = n"
    "chunk lib data = type # put_u24 (word_of_nat n) @ payload"
    "sn_got s @ sn_source s @ rest = payload @ concat (map (chunk lib) later)" by auto
  with got Rx_payload have wire: "sn_got s = payload" "sn_source s @ rest = concat (map (chunk lib) later)"
    by auto
  from bounded chunks todo(1) have data: "data \<noteq> []" "length data \<le> kCompressionChunkSize" by auto
  note facts = chunk_payload [OF lib data(2) todo(3)]
  have "handle_chunk lib type payload s = (a, s')" using step Rx_payload wire(1) by (simp add: rx_complete_def)
  from handle_chunk_delivers [OF open_ queue data(1) conjunct1 [OF facts] conjunct2 [OF facts] this]
  have d: "delivered a @ undelivered s' = undelivered s @ data" "queued_ok s'" "\<not> sn_closed s'"
    "rx_at lib later rest s'" using wire(2) by (simp_all add: rx_at_def kChunkHeaderSize_def)
  have "reader_ok lib chunks rest (bs @ delivered a) s'"
    by (rule reader_okI [of _ "read @ [data]" later]) (use d chunks todo(1) bs in simp_all)
  with d(3) show ?thesis by blast
qed

lemma snappy_read_exact_ok:
  assumes lib: "snappy_ok lib" and bounded: "\<forall>c\<in>set chunks. c \<noteq> [] \<and> length c \<le> kCompressionChunkSize"
    and ok: "reader_ok lib chunks rest bs s" and step: "read_exact lib n s = (a, s')"
  shows "reader_ok lib chunks rest (bs @ delivered a) s' \<and> (\<not> sn_closed s \<longrightarrow> \<not> sn_closed s')"
proof (cases "sn_closed s")
  case True
  with ok step show ?thesis by (simp add: read_exact_def)
next
  case False
  define k where "k = min n (rx_size (sn_rx s) - length (sn_got s))"
  define t where "t = s\<lparr>sn_source := drop k (sn_source s), sn_got := sn_got s @ take k (sn_source s)\<rparr>"
  have wire: "sn_got t @ sn_source t @ rest = sn_got s @ sn_source s @ rest" by (simp add: t_def)
  have same: "sn_rx t = sn_rx s" "sn_closed t = sn_closed s" "queued_ok t = queued_ok s"
    "undelivered t = undelivered s" by (simp_all add: t_def queued_ok_def undelivered_def)
  from ok False obtain todo "read" where d: "queued_ok s" "chunks = read @ todo" "bs @ undelivered s = concat read"
    "rx_at lib todo rest s" by (auto simp: reader_ok_def)
  have size: "length (sn_got t) \<le> rx_size (sn_rx t)" using d(4) unfolding rx_at_def by (auto simp: t_def k_def)
  show ?thesis
  proof (cases "length (sn_got t) = rx_size (sn_rx t)")
    case True
    with step False have "rx_complete lib (sn_got t) t = (a, s')"
      by (simp add: read_exact_def Let_def k_def [symmetric] t_def [symmetric]) (simp add: t_def)
    moreover have "case sn_rx t of
        Rx_identifier \<Rightarrow> sn_got t @ sn_source t @ rest = kStreamIdentifier @ concat (map (chunk lib) todo)
      | Rx_header \<Rightarrow> sn_got t @ sn_source t @ rest = concat (map (chunk lib) todo)
      | Rx_skip n \<Rightarrow> False
      | Rx_payload type n \<Rightarrow> (\<exists>data later payload. todo = data # later \<and> length payload = n \<and>
          chunk lib data = type # put_u24 (word_of_nat n) @ payload \<and>
          sn_got t @ sn_source t @ rest = payload @ concat (map (chunk lib) later))"
      unfolding wire same using d(4) by (simp add: rx_at_def Let_def)
    ultimately show ?thesis
      using rx_complete_ok [OF lib bounded _ _ d(2) True] d(1,3) False same by simp
  next
    case False
    with step \<open>\<not> sn_closed s\<close> have "a = []" "s' = t"
      by (simp_all add: read_exact_def Let_def k_def [symmetric] t_def)
    moreover have "rx_at lib todo rest t"
      unfolding rx_at_def wire same using d(4) False size same by (simp add: rx_at_def Let_def)
    ultimately show ?thesis using d same \<open>\<not> sn_closed s\<close> by (auto simp: reader_ok_def)
  qed
qed

section \<open>What is written goes out in order\<close>

definition lower_writes :: "snappy_action list \<Rightarrow> bytes" where
  "lower_writes actions = concat (map (\<lambda>a. case a of Lower_write bs \<Rightarrow> bs | _ \<Rightarrow> []) actions)"

lemma lower_writes_simps [simp]:
  "lower_writes [] = []" "lower_writes (as @ bs) = lower_writes as @ lower_writes bs"
  "lower_writes (Read_done h r xs # as) = lower_writes as"
  "lower_writes (Write_done h r n # as) = lower_writes as"
  "lower_writes (Lower_write xs # as) = xs @ lower_writes as"
  "lower_writes (Lower_close # as) = lower_writes as"
  by (simp_all add: lower_writes_def)

text \<open>The writes a stream takes on during a run, and the wire form of a sequence of writes.\<close>

fun accepted :: "snappy_library \<Rightarrow> snappy_event list \<Rightarrow> snappy_stream \<Rightarrow> bytes list" where
  "accepted lib [] s = []"
| "accepted lib (e # es) s =
     (case e of
        Write handler data \<Rightarrow>
          if \<not> sn_closed s \<and> sn_write_handler s = None \<and> data \<noteq> [] then [data] else []
      | _ \<Rightarrow> []) @ accepted lib es (snd (snappy_step lib e s))"

definition wire_of :: "snappy_library \<Rightarrow> bytes list \<Rightarrow> bytes" where
  "wire_of lib writes =
     (if writes = [] then [] else kStreamIdentifier @ concat (map (write_chunks lib) writes))"

definition queued_packets :: "snappy_stream \<Rightarrow> bytes" where
  "queued_packets s = concat (map (\<lambda>i. pw_packet (sn_objects s ! i)) (sn_writes s))"

definition writes_ok :: "snappy_stream \<Rightarrow> bool" where
  "writes_ok s \<longleftrightarrow> (\<forall>i\<in>set (sn_writes s). i < length (sn_objects s))"

definition writer_ok :: "snappy_library \<Rightarrow> bytes list \<Rightarrow> bytes \<Rightarrow> snappy_stream \<Rightarrow> bool" where
  "writer_ok lib ws sent s \<longleftrightarrow>
     writes_ok s \<and> (sn_identifier_sent s \<longleftrightarrow> ws \<noteq> []) \<and>
     (\<exists>unsent. sent @ unsent = wire_of lib ws \<and> (\<not> sn_closed s \<longrightarrow> unsent = queued_packets s))"

text \<open>Steps that only move packets from the queue to the lower stream, or drop them when closing.\<close>

definition writes_moved :: "snappy_action list \<Rightarrow> snappy_stream \<Rightarrow> snappy_stream \<Rightarrow> bool" where
  "writes_moved a s s' \<longleftrightarrow>
     (writes_ok s \<longrightarrow> writes_ok s') \<and> sn_identifier_sent s' = sn_identifier_sent s \<and>
     (if sn_closed s' then lower_writes a = [] else
        \<not> sn_closed s \<and> lower_writes a @ queued_packets s' = queued_packets s)"

lemma writer_ok_moved:
  assumes "writes_moved a s s'" "writer_ok lib ws sent s"
  shows "writer_ok lib ws (sent @ lower_writes a) s'"
  using assms by (auto simp: writer_ok_def writes_moved_def split: if_splits)

lemma lower_writes_fail [simp]: "lower_writes (fail_write e p) = []"
  by (auto simp: fail_write_def split: option.splits)

lemma lower_writes_concat: "(\<And>i. lower_writes (f i) = []) \<Longrightarrow> lower_writes (concat (map f is)) = []"
  by (induction "is") auto

lemma lower_writes_finish [simp]:
  "lower_writes (fst (finish_read e s)) = []" "lower_writes (fst (finish_write e s)) = []"
  by (auto simp: finish_read_def finish_write_def lower_writes_concat split: option.splits)

lemma finish_read_writes [simp]:
  "sn_writes (snd (finish_read e s)) = sn_writes s" "sn_objects (snd (finish_read e s)) = sn_objects s"
  "sn_identifier_sent (snd (finish_read e s)) = sn_identifier_sent s"
  "sn_writes (snd (finish_write e s)) = []" "sn_objects (snd (finish_write e s)) = sn_objects s"
  "sn_identifier_sent (snd (finish_write e s)) = sn_identifier_sent s"
  by (auto simp: finish_read_def finish_write_def split: option.splits)

lemma closing_moved:
  "\<not> sn_closed s \<Longrightarrow> writes_moved (fst (close_stream s)) s (snd (close_stream s))"
  "writes_moved (fst (close_with_error e s)) s (snd (close_with_error e s))"
  by (auto simp: writes_moved_def close_stream_def close_with_error_def writes_ok_def Let_def split_beta)

lemma close_stream_moved: "writes_moved (fst (close_stream s)) s (snd (close_stream s))"
  by (cases "sn_closed s") (simp_all add: closing_moved, simp add: close_stream_def writes_moved_def)

lemma pump_write_moved: "writes_moved (fst (pump_write s)) s (snd (pump_write s))"
  by (auto simp: pump_write_def writes_moved_def writes_ok_def queued_packets_def split: list.splits)

lemma writes_moved_from:
  assumes "writes_moved a t s'" "sn_writes t = sn_writes s" "sn_identifier_sent t = sn_identifier_sent s"
    "sn_closed t = sn_closed s" "length (sn_objects t) = length (sn_objects s)"
    "\<And>i. pw_packet (sn_objects t ! i) = pw_packet (sn_objects s ! i)"
  shows "writes_moved a s s'"
proof -
  have "queued_packets t = queued_packets s" "writes_ok t = writes_ok s"
    using assms(2,5,6) by (simp_all add: queued_packets_def writes_ok_def)
  with assms(1,3,4) show ?thesis by (auto simp: writes_moved_def split: if_splits)
qed

lemma write_completed_moved: "writes_moved (fst (write_completed r s)) s (snd (write_completed r s))"
proof (cases "sn_in_flight s")
  case None
  then show ?thesis by (simp add: write_completed_def writes_moved_def)
next
  case (Some i)
  have packet: "pw_packet (((sn_objects s)[i := (sn_objects s ! i)\<lparr>pw_handler := None\<rparr>]) ! j) =
      pw_packet (sn_objects s ! j)" for j
    by (cases "i < length (sn_objects s)") (auto simp: nth_list_update list_update_beyond)
  have completed: "writes_moved (Write_done h None n # fst (pump_write s')) s (snd (pump_write s'))"
    if "writes_moved (fst (pump_write s')) s (snd (pump_write s'))" for h n s'
    using that by (simp add: writes_moved_def)
  show ?thesis
    by (auto simp: write_completed_def Some Let_def split_beta packet split: option.split
        intro!: completed writes_moved_from [OF closing_moved(2)] writes_moved_from [OF pump_write_moved])
qed

lemma cancel_moved:
  "writes_moved (fst (cancel_read s)) s (snd (cancel_read s))"
  "writes_moved (fst (cancel_write s)) s (snd (cancel_write s))"
proof -
  show "writes_moved (fst (cancel_read s)) s (snd (cancel_read s))"
    by (simp add: cancel_read_def writes_moved_def writes_ok_def queued_packets_def)
  have packet: "pw_packet (((sn_objects s)[i := (sn_objects s ! i)\<lparr>pw_cancelled := True, pw_handler := None\<rparr>]) ! j) =
      pw_packet (sn_objects s ! j)" for i j
    by (cases "i < length (sn_objects s)") (auto simp: nth_list_update list_update_beyond)
  show "writes_moved (fst (cancel_write s)) s (snd (cancel_write s))"
    by (auto simp: cancel_write_def Let_def writes_moved_def writes_ok_def queued_packets_def packet
        split: option.splits)
qed

lemma deliver_read_moved: "writes_moved (fst (deliver_read s)) s (snd (deliver_read s))"
  by (auto simp: deliver_read_def writes_moved_def writes_ok_def queued_packets_def
      split: option.splits prod.splits)

lemma rx_moved:
  "writes_moved (fst (rx_complete lib bs s)) s (snd (rx_complete lib bs s))"
proof -
  have same: "writes_moved [] s s'" if "sn_writes s' = sn_writes s" "sn_objects s' = sn_objects s"
    "sn_identifier_sent s' = sn_identifier_sent s" "sn_closed s' = sn_closed s" for s'
    using that by (simp add: writes_moved_def writes_ok_def queued_packets_def)
  have header: "writes_moved a s (read_chunk_header s')" if "writes_moved a s s'" for a s'
    using that by (auto simp: writes_moved_def writes_ok_def queued_packets_def read_chunk_header_def
        split: if_splits)
  have incoming: "writes_moved (fst (deliver_read (s\<lparr>sn_incoming := i\<rparr>))) s
      (snd (deliver_read (s\<lparr>sn_incoming := i\<rparr>)))" for i
    by (rule writes_moved_from [OF deliver_read_moved]) simp_all
  show ?thesis
    by (cases "sn_rx s") (auto simp: rx_complete_def chunk_header_read_def handle_chunk_def Let_def
        read_skip_chunk_def split_beta closing_moved(2) split: option.split intro!: same header incoming)
qed

lemma read_exact_moved: "writes_moved (fst (read_exact lib n s)) s (snd (read_exact lib n s))"
  by (auto simp: read_exact_def Let_def intro!: writes_moved_from [OF rx_moved])
    (simp_all add: writes_moved_def writes_ok_def queued_packets_def)

lemma async_read_moved: "writes_moved (fst (async_read_some h n s)) s (snd (async_read_some h n s))"
  by (auto simp: async_read_some_def intro!: writes_moved_from [OF deliver_read_moved])
    (simp_all add: writes_moved_def)

lemma wire_of_snoc:
  "wire_of lib (ws @ [data]) =
     wire_of lib ws @ (if ws = [] then kStreamIdentifier else []) @ write_chunks lib data"
  by (simp add: wire_of_def)

lemma async_write_accepts:
  assumes "writer_ok lib ws sent s" "async_write lib h data s = (a, s')"
  shows "writer_ok lib (ws @ (if \<not> sn_closed s \<and> sn_write_handler s = None \<and> data \<noteq> [] then [data] else []))
    (sent @ lower_writes a) s'"
proof (cases "\<not> sn_closed s \<and> sn_write_handler s = None \<and> data \<noteq> []")
  case False
  with assms show ?thesis by (auto simp: async_write_def split: if_splits)
next
  case True
  define packet where "packet = (if sn_identifier_sent s then [] else kStreamIdentifier) @ write_chunks lib data"
  define i where "i = length (sn_objects s)"
  define t where "t = s\<lparr>sn_identifier_sent := True,
      sn_objects := sn_objects s @ [\<lparr>pw_packet = packet, pw_handler = Some h,
        pw_size = length data, pw_cancelled = False\<rparr>],
      sn_write_handler := Some i, sn_writes := sn_writes s @ [i]\<rparr>"
  from assms(1) True have s: "writes_ok s" "sn_identifier_sent s \<longleftrightarrow> ws \<noteq> []"
    "sent @ queued_packets s = wire_of lib ws" by (auto simp: writer_ok_def)
  have old: "map (\<lambda>j. pw_packet (sn_objects t ! j)) (sn_writes s) =
      map (\<lambda>j. pw_packet (sn_objects s ! j)) (sn_writes s)"
    using s(1) by (simp add: t_def writes_ok_def nth_append)
  have "queued_packets t = queued_packets s @ packet"
    using arg_cong [OF old, of concat] by (simp add: queued_packets_def t_def i_def)
  with s(2,3) have "sent @ queued_packets t = wire_of lib (ws @ [data])"
    by (auto simp: wire_of_snoc packet_def simp flip: append_assoc)
  moreover have "writes_ok t" "sn_identifier_sent t"
    using s(1) by (auto simp: writes_ok_def t_def i_def)
  ultimately have "writer_ok lib (ws @ [data]) sent t" by (auto simp: writer_ok_def)
  moreover have "(a, s') = pump_write t"
    using assms(2) True by (simp add: async_write_def Let_def t_def i_def packet_def)
  ultimately have "writer_ok lib (ws @ [data]) (sent @ lower_writes a) s'"
    using writer_ok_moved [OF pump_write_moved, of lib "ws @ [data]" sent t] by (metis fst_conv snd_conv)
  with True show ?thesis by simp
qed

lemma writer_step:
  assumes "writer_ok lib ws sent s" "snappy_step lib e s = (a, s')"
  shows "writer_ok lib (ws @ accepted lib [e] s) (sent @ lower_writes a) s'"
proof -
  have moved: "writer_ok lib ws (sent @ lower_writes a) s'"
    if "writes_moved (fst (snappy_step lib e s)) s (snd (snappy_step lib e s))"
    using writer_ok_moved [OF that assms(1)] assms(2) by simp
  show ?thesis
proof (cases e)
  case (Write h data)
  with async_write_accepts [OF assms(1)] assms(2) show ?thesis by simp
qed (use moved in \<open>simp_all add: async_read_moved read_exact_moved cancel_moved close_stream_moved
    closing_moved(2) write_completed_moved\<close>)
qed

lemma writer_run:
  assumes "writer_ok lib ws sent s" "snappy_run lib es s = (as, s')"
  shows "writer_ok lib (ws @ accepted lib es s) (sent @ lower_writes as) s'"
  using assms
proof (induction es arbitrary: ws sent s as)
  case (Cons e es)
  obtain a t where t: "snappy_step lib e s = (a, t)" by fastforce
  obtain b where b: "snappy_run lib es t = (b, s')" "as = a @ b"
    using Cons.prems(2) t by (auto split: prod.splits)
  from Cons.IH [OF writer_step [OF Cons.prems(1) t] b(1)] t b(2) show ?case by simp
qed simp

lemma reader_step:
  assumes "snappy_ok lib" "\<forall>c\<in>set chunks. c \<noteq> [] \<and> length c \<le> kCompressionChunkSize"
    and ok: "reader_ok lib chunks rest bs s" and step: "snappy_step lib e s = (a, s')"
  shows "reader_ok lib chunks rest (bs @ delivered a) s'"
proof -
  have kept: ?thesis if "reads_kept (fst (snappy_step lib e s)) s (snd (snappy_step lib e s))"
    using reader_ok_kept [OF that ok] step by simp
  show ?thesis
proof (cases e)
  case (Read h n)
  from ok have "queued_ok s" by (simp add: reader_ok_def)
  with reader_ok_delivering [OF async_read_queue ok] step Read show ?thesis by simp
next
  case (Lower_ready n)
  with snappy_read_exact_ok [OF assms(1-3)] step show ?thesis by simp
qed (use kept in \<open>simp_all add: async_write_reads cancel_read_reads cancel_write_reads
    close_stream_reads close_with_error_reads write_completed_reads\<close>)
qed

lemma reader_run:
  assumes "snappy_ok lib" "\<forall>c\<in>set chunks. c \<noteq> [] \<and> length c \<le> kCompressionChunkSize"
    and "reader_ok lib chunks rest bs s" "snappy_run lib es s = (as, s')"
  shows "reader_ok lib chunks rest (bs @ delivered as) s'"
  using assms(3,4)
proof (induction es arbitrary: bs s as)
  case (Cons e es)
  obtain a t where t: "snappy_step lib e s = (a, t)" by fastforce
  obtain b where b: "snappy_run lib es t = (b, s')" "as = a @ b"
    using Cons.prems(2) t by (auto split: prod.splits)
  from Cons.IH [OF reader_step [OF assms(1,2) Cons.prems(1) t] b(1)] b(2) show ?case by simp
qed simp

lemma rx_at_end:
  assumes "snappy_ok lib" "\<forall>c\<in>set todo. length c \<le> kCompressionChunkSize"
    and "rx_at lib todo [] s" "sn_source s = []"
  shows "todo = []"
proof (cases "sn_rx s")
  case Rx_header
  show ?thesis
  proof (cases todo)
    case (Cons data later)
    then have "length data \<le> kCompressionChunkSize" using assms(2) by simp
    then obtain type payload where "chunk lib data = type # put_u24 (word_of_nat (length payload)) @ payload"
      using chunk_parts [OF assms(1)] by metis
    with assms(3,4) Rx_header Cons show ?thesis by (auto simp: rx_at_def kChunkHeaderSize_def)
  qed simp
qed (use assms(3,4) in \<open>auto simp: rx_at_def\<close>)

section \<open>Who closes the stream\<close>

fun disturbs :: "snappy_event \<Rightarrow> bool" where
  "disturbs Close = True"
| "disturbs (Lower_failed e) = True"
| "disturbs (Lower_written (Some e)) = True"
| "disturbs _ = False"

lemma closed_frame [simp]:
  "sn_closed (snd (pump_write s)) = sn_closed s" "sn_closed (snd (deliver_read s)) = sn_closed s"
  by (auto simp: pump_write_def deliver_read_def split: list.splits option.splits prod.splits)

lemma undisturbed_step:
  assumes "snappy_ok lib" "\<forall>c\<in>set chunks. c \<noteq> [] \<and> length c \<le> kCompressionChunkSize"
    and ok: "reader_ok lib chunks rest bs s" and step: "snappy_step lib e s = (a, s')"
    and "\<not> disturbs e" "\<not> sn_closed s"
  shows "\<not> sn_closed s'"
proof (cases e)
  case (Lower_ready n)
  with snappy_read_exact_ok [OF assms(1,2) ok] step assms(6) show ?thesis by simp
next
  case (Lower_written r)
  with assms(5) have "r = None" by (cases r) auto
  then have "sn_closed (snd (write_completed r s)) = sn_closed s"
    by (simp add: write_completed_def Let_def split_beta split: option.split)
  with Lower_written step assms(6) show ?thesis by simp
next
  case (Read h n)
  have "sn_closed (snd (async_read_some h n s)) = sn_closed s" by (simp add: async_read_some_def)
  with Read step assms(6) show ?thesis by simp
next
  case (Write h data)
  have "sn_closed (snd (async_write lib h data s)) = sn_closed s" by (simp add: async_write_def Let_def)
  with Write step assms(6) show ?thesis by simp
next
  case Cancel_write
  have "sn_closed (snd (cancel_write s)) = sn_closed s"
    by (simp add: cancel_write_def Let_def split: option.split)
  with Cancel_write step assms(6) show ?thesis by simp
next
  case Cancel_read
  have "sn_closed (snd (cancel_read s)) = sn_closed s" by (simp add: cancel_read_def)
  with Cancel_read step assms(6) show ?thesis by simp
qed (use assms(5) in simp_all)

lemma undisturbed_run:
  assumes "snappy_ok lib" "\<forall>c\<in>set chunks. c \<noteq> [] \<and> length c \<le> kCompressionChunkSize"
    and "reader_ok lib chunks rest bs s" "snappy_run lib es s = (as, s')"
    and "\<not> list_ex disturbs es" "\<not> sn_closed s"
  shows "\<not> sn_closed s'"
  using assms(3-6)
proof (induction es arbitrary: bs s as)
  case (Cons e es)
  obtain a t where t: "snappy_step lib e s = (a, t)" by fastforce
  obtain b where b: "snappy_run lib es t = (b, s')"
    using Cons.prems(2) t by (auto split: prod.splits)
  have "\<not> sn_closed t"
    by (rule undisturbed_step [OF assms(1,2) Cons.prems(1) t]) (use Cons.prems in simp_all)
  with Cons.IH [OF reader_step [OF assms(1,2) Cons.prems(1) t] b] Cons.prems(3) show ?case by simp
qed simp

text \<open>Behind a close nothing is delivered.\<close>

lemma closed_delivers_nothing:
  "sn_closed s \<Longrightarrow> delivered (fst (snappy_step lib e s)) = [] \<and> sn_closed (snd (snappy_step lib e s))"
proof (cases e)
  case (Write h data)
  then show "sn_closed s \<Longrightarrow> ?thesis" by (simp add: async_write_def)
next
  case (Lower_written r)
  then show "sn_closed s \<Longrightarrow> ?thesis"
    by (auto simp: write_completed_def pump_write_def close_with_error_def Let_def split: option.split)
qed (simp_all add: async_read_some_def cancel_read_def cancel_write_def close_stream_def read_exact_def
  close_with_error_def Let_def split: option.split)

lemma closed_run_delivers_nothing: "sn_closed s \<Longrightarrow> delivered (fst (snappy_run lib es s)) = []"
proof (induction es arbitrary: s)
  case (Cons e es)
  from closed_delivers_nothing [OF Cons.prems, of lib e] Cons.IH show ?case by (simp add: split_beta)
qed simp

section \<open>Properties\<close>

text \<open>The chunks a sequence of writes is sent in.\<close>

lemma wire_of_chunks:
  "kStreamIdentifier @ concat (map (write_chunks lib) ws) =
     kStreamIdentifier @ concat (map (chunk lib) (concat (map pieces ws)))"
  by (induction ws) (simp_all add: write_chunks_pieces)

lemma concat_all_pieces: "concat (concat (map pieces ws)) = concat ws"
  by (induction ws) (simp_all add: concat_pieces)

lemma new_stream_writer: "writer_ok lib [] [] (new_stream src)"
  by (simp add: writer_ok_def writes_ok_def new_stream_def wire_of_def queued_packets_def)

lemma new_stream_reader:
  assumes "src @ rest = kStreamIdentifier @ concat (map (write_chunks lib) ws)"
  shows "reader_ok lib (concat (map pieces ws)) rest [] (new_stream src)"
proof (rule reader_okI [where read = "[]"])
  show "rx_at lib (concat (map pieces ws)) rest (new_stream src)"
    using assms unfolding wire_of_chunks
    by (simp add: rx_at_def new_stream_def) (simp add: kStreamIdentifier_def)
qed (simp_all add: new_stream_def queued_ok_def queue_ok_def undelivered_def)

text \<open>C20: Two Snappy streams joined by their lower streams are one byte stream, whatever the library
  compresses to, however the lower stream cuts the bytes and whatever calls, cancellations and ends
  happen on both sides: what the receiving side has delivered is a prefix of the writes the sending
  side took on. When everything was passed on and read and neither side is closed, nothing is missing,
  and the receiving side never closes by itself.\<close>
theorem snappy_streams_transparent:
  assumes "snappy_ok lib" and "snappy_run lib events (new_stream src) = (as, s)"
    and "received @ rest = lower_writes as"
    and "snappy_run lib events' (new_stream received) = (bs, t)"
  shows "prefix (delivered bs) (concat (accepted lib events (new_stream src))) \<and>
    (\<not> list_ex disturbs events' \<longrightarrow> \<not> sn_closed t) \<and>
    (\<not> sn_closed s \<and> sn_writes s = [] \<and> rest = [] \<and> \<not> sn_closed t \<and> sn_source t = [] \<longrightarrow>
       delivered bs @ undelivered t = concat (accepted lib events (new_stream src)))"
proof -
  let ?ws = "accepted lib events (new_stream src)"
  let ?chunks = "concat (map pieces ?ws)"
  have bounded: "\<forall>c\<in>set ?chunks. c \<noteq> [] \<and> length c \<le> kCompressionChunkSize"
    using pieces_bounded by auto
  from writer_run [OF new_stream_writer assms(2)] obtain unsent where
    sent: "lower_writes as @ unsent = wire_of lib ?ws" "\<not> sn_closed s \<longrightarrow> unsent = queued_packets s"
    by (auto simp: writer_ok_def)
  define behind where "behind = rest @ unsent @ (if ?ws = [] then kStreamIdentifier else [])"
  have "received @ behind = kStreamIdentifier @ concat (map (write_chunks lib) ?ws)"
    using sent(1) assms(3) by (auto simp: behind_def wire_of_def simp flip: append_assoc)
  note start = new_stream_reader [OF this]
  from reader_run [OF assms(1) bounded start assms(4)] obtain read todo where
    r: "?chunks = read @ todo" "delivered bs @ undelivered t = concat read"
    "\<not> sn_closed t \<longrightarrow> rx_at lib todo behind t" by (auto simp: reader_ok_def)
  have all: "concat ?ws = concat read @ concat todo" using concat_all_pieces r(1) by (metis concat_append)
  then have "prefix (delivered bs) (concat ?ws)" using r(2) by (metis append_assoc prefixI)
  moreover have "\<not> list_ex disturbs events' \<longrightarrow> \<not> sn_closed t"
    using undisturbed_run [OF assms(1) bounded start assms(4)] by (auto simp: new_stream_def)
  moreover have "delivered bs @ undelivered t = concat ?ws"
    if "\<not> sn_closed s" "sn_writes s = []" "rest = []" "\<not> sn_closed t" "sn_source t = []"
  proof (cases "?ws = []")
    case True
    with r(1,2) show ?thesis by simp
  next
    case False
    with that sent(2) have "behind = []" by (simp add: behind_def queued_packets_def)
    with r(3) that(4) have "rx_at lib todo [] t" by simp
    with rx_at_end [OF assms(1) _ this that(5)] bounded r(1) have "todo = []" by auto
    with all r(2) show ?thesis by simp
  qed
  ultimately show ?thesis by blast
qed

definition plain_library :: snappy_library where
  "plain_library = \<lparr>sl_compress = (\<lambda>bs. bs), sl_uncompress = Some\<rparr>"

text \<open>A stream that has received one byte nobody has read yet.\<close>

definition sample_received :: snappy_stream where
  "sample_received = snd (snappy_run plain_library [Lower_ready 10, Lower_ready 4, Lower_ready 5]
     (new_stream (wire_of plain_library [[0x41]])))"

lemma sample_received:
  "fst (snappy_run plain_library [Lower_ready 10, Lower_ready 4, Lower_ready 5]
     (new_stream (wire_of plain_library [[0x41]]))) = [] \<and>
   sn_incoming sample_received = [[0x41]] \<and> sn_offset sample_received = 0 \<and>
   sn_reader sample_received = None \<and> sn_write_handler sample_received = None \<and>
   sn_writes sample_received = [] \<and> \<not> sn_closed sample_received"
proof -
  have "case snappy_run plain_library [Lower_ready 10, Lower_ready 4, Lower_ready 5]
      (new_stream (wire_of plain_library [[0x41]])) of (actions, s) \<Rightarrow>
      actions = [] \<and> sn_incoming s = [[0x41]] \<and> sn_offset s = 0 \<and> sn_reader s = None \<and>
      sn_write_handler s = None \<and> sn_writes s = [] \<and> \<not> sn_closed s"
    by code_simp
  then show ?thesis unfolding sample_received_def by (simp only: split_beta fst_conv snd_conv split: prod.splits) simp
qed

lemma snappy_run_append:
  "snappy_run lib (es @ fs) s =
     (fst (snappy_run lib es s) @ fst (snappy_run lib fs (snd (snappy_run lib es s))),
      snd (snappy_run lib fs (snd (snappy_run lib es s))))"
  by (induction es arbitrary: s) (auto simp: split_beta Let_def)

lemma sample_continued:
  "fst (snappy_run plain_library ([Lower_ready 10, Lower_ready 4, Lower_ready 5] @ es)
     (new_stream (wire_of plain_library [[0x41]]))) = fst (snappy_run plain_library es sample_received)"
  unfolding snappy_run_append sample_received_def [symmetric] using sample_received by simp

text \<open>The end of the lower stream throws away what is queued: no read behind it delivers a byte,
  although the bytes were received and their checksum verified. Here one byte was received before the
  peer closed, and the read that follows is told that the operation was aborted.\<close>
theorem snappy_end_discards:
  "delivered (fst (snappy_run lib (Lower_failed e # events) s)) = [] \<and>
   undelivered sample_received = [0x41] \<and>
   fst (snappy_run plain_library [Lower_failed End_of_stream, Read 0 16] sample_received) =
     [Lower_close, Read_done 0 (Some Operation_aborted) []]"
proof (intro conjI)
  have "delivered (fst (close_with_error e s)) = []"
    using close_with_error_reads [of e s] by (simp add: reads_kept_def)
  then show "delivered (fst (snappy_run lib (Lower_failed e # events) s)) = []"
    using closed_run_delivers_nothing [of "snd (close_with_error e s)" lib events]
    by (simp add: split_beta)
  from sample_received show "undelivered sample_received = [0x41]" by (simp add: undelivered_def)
  from sample_received
  show "fst (snappy_run plain_library [Lower_failed End_of_stream, Read 0 16] sample_received) =
      [Lower_close, Read_done 0 (Some Operation_aborted) []]"
    by (simp add: close_with_error_def close_stream_def finish_read_def finish_write_def async_read_some_def)
qed

text \<open>A write that is queued behind a cancelled one has its handler called twice when the stream is
  closed: \<^verbatim>\<open>finish_write\<close> calls it once for the queue and once for \<^verbatim>\<open>write_handler_\<close>, which are the same
  write.\<close>
theorem snappy_write_completed_twice:
  "fst (snappy_run lib [Write 0 [x], Cancel_write, Write 1 [y], Close] (new_stream [])) =
     [Lower_write (wire_of lib [[x]]), Write_done 0 (Some Operation_aborted) 0,
      Lower_close, Write_done 1 (Some Operation_aborted) 0, Write_done 1 (Some Operation_aborted) 0]"
  by (simp add: async_write_def pump_write_def cancel_write_def close_stream_def finish_read_def
      finish_write_def fail_write_def new_stream_def wire_of_def Let_def)

section \<open>Witnesses\<close>

theorem snappy_streams_transparent_witness:
  "prefix [0x41] (concat (accepted plain_library [Write 0 [0x41], Lower_written None] (new_stream [])))"
proof -
  let ?events = "[Write 0 [0x41], Lower_written None]"
  let ?events' = "[Lower_ready 10, Lower_ready 4, Lower_ready 5] @ [Read 0 16]"
  define a where "a = snappy_run plain_library ?events (new_stream [])"
  define b where "b = snappy_run plain_library ?events' (new_stream (lower_writes (fst a)))"
  have lib: "snappy_ok plain_library" by (simp add: snappy_ok_def plain_library_def)
  have "lower_writes (fst (snappy_run plain_library ?events (new_stream []))) = wire_of plain_library [[0x41]]"
    by (simp add: async_write_def pump_write_def write_completed_def new_stream_def wire_of_def Let_def)
  moreover have "delivered (fst (snappy_run plain_library [Read 0 16] sample_received)) = [0x41]"
    using sample_received by (simp add: async_read_some_def deliver_read_def)
  ultimately have d: "delivered (fst b) = [0x41]" by (simp only: a_def b_def sample_continued)
  have run: "snappy_run plain_library ?events (new_stream []) = (fst a, snd a)"
    "snappy_run plain_library ?events' (new_stream (lower_writes (fst a))) = (fst b, snd b)"
    by (simp_all only: a_def b_def prod.collapse)
  have "prefix (delivered (fst b)) (concat (accepted plain_library ?events (new_stream [])))"
    by (rule conjunct1 [OF snappy_streams_transparent [OF lib run(1) append_Nil2 run(2)]])
  then show ?thesis unfolding d .
qed

end
