(* ===== verification/Datagram_Framing.thy ===== *)
theory Datagram_Framing
  imports Proxy_Address "HOL-Library.Multiset"
begin

text \<open>
  Datagrams in frames over a byte stream: what \<^verbatim>\<open>src/transport/trojan/packet_conn.cpp\<close> and
  \<^verbatim>\<open>src/transport/shadowsocks/udp_over_tcp.cpp\<close> share.  A receive is a chain of reads, each of a buffer
  that is filled in as many pieces as the lower stream delivers; the calls of the owner and the
  completions of the lower stream are events.  The locale \<open>datagram_framing\<close> is what makes such a chain
  read back the frames of the peer.
\<close>

section \<open>Filling buffers\<close>

text \<open>
  \<open>need\<close> is the size of the buffer a stage of the chain reads, \<open>finish\<close> what follows from its content: the
  next stage, or a result.
\<close>

inductive parses :: "('rx \<Rightarrow> nat) \<Rightarrow> ('rx \<Rightarrow> bytes \<Rightarrow> 'rx + 'r) \<Rightarrow> 'rx \<Rightarrow> bytes \<Rightarrow> 'r \<Rightarrow> bytes \<Rightarrow> bool"
  for need :: "'rx \<Rightarrow> nat" and finish :: "'rx \<Rightarrow> bytes \<Rightarrow> 'rx + 'r" where
  last: "length bs = need rx \<Longrightarrow> bs \<noteq> [] \<Longrightarrow> finish rx bs = Inr r \<Longrightarrow> parses need finish rx (bs @ rest) r rest"
| more: "length bs = need rx \<Longrightarrow> bs \<noteq> [] \<Longrightarrow> finish rx bs = Inl rx' \<Longrightarrow> parses need finish rx' input r rest \<Longrightarrow>
    parses need finish rx (bs @ input) r rest"

lemma parses_positive: "parses need finish rx input r rest \<Longrightarrow> 0 < need rx"
  by (erule parses.cases) (metis length_greater_0_conv)+

text \<open>Once the buffer of a stage is full, the parse goes on behind it.\<close>

lemma parses_full:
  assumes "parses need finish rx (bs @ input) r rest" "length bs = need rx"
  shows "(finish rx bs = Inr r \<and> input = rest) \<or>
    (\<exists>rx'. finish rx bs = Inl rx' \<and> parses need finish rx' input r rest)"
  using assms(1)
proof cases
  case (last bs')
  then show ?thesis using assms(2) by (auto simp: append_eq_append_conv)
next
  case (more bs' rx' input')
  then show ?thesis using assms(2) by (auto simp: append_eq_append_conv)
qed

text \<open>A chain that succeeds consumes more than the bytes already read.\<close>

lemma parses_more:
  assumes "parses need finish rx (got @ input) r rest" "length got < need rx"
  obtains used where "used \<noteq> []" "input = used @ rest"
proof -
  have "\<exists>used. got @ input = used @ rest \<and> need rx \<le> length used"
    using assms(1)
  proof cases
    case (last bs)
    then show ?thesis by (intro exI [of _ bs]) simp
  next
    case (more bs rx' input')
    from more(5) have "\<exists>used. input' = used @ rest" by (induction rule: parses.induct) auto
    then show ?thesis using more by (auto intro: exI [of _ "bs @ u" for u])
  qed
  then obtain used where u: "got @ input = used @ rest" "need rx \<le> length used" by blast
  have "input = drop (length got) used @ rest"
    using u assms(2) by (metis append_eq_append_conv_if drop_append append_same_eq le_trans less_imp_le_nat append_eq_conv_conj diff_is_0_eq drop0)
  then show thesis using u(2) assms(2) by (intro that [of "drop (length got) used"]) auto
qed

section \<open>The state\<close>

datatype pk_error =
    Pk_aborted | Pk_already_started | Pk_message_size | Pk_protocol_error | Pk_eof | Pk_lower nat

text \<open>The stages of a receive, and the buffers they read.\<close>

datatype rx =
    Rx_family
  | Rx_domain_length
  | Rx_domain nat
  | Rx_domain_port string
  | Rx_numeric byte nat
  | Rx_port byte bytes
  | Rx_length datagram_address
  | Rx_payload datagram_address nat

text \<open>
  The members the two classes have in common.  Handlers are numbers; \<open>pk_reads\<close> are the lower reads under
  way, each with its stage and the part of the buffer already filled, \<open>pk_posted\<close> counts the posted
  calls of \<^verbatim>\<open>read_family\<close>, and \<open>pk_source\<close> is what the peer sent and was not read yet.
\<close>

record pk_state =
  pk_output :: nat  \<comment> \<open>\<^verbatim>\<open>output_buffer_.size()\<close>\<close>
  pk_receiver :: "nat option"
  pk_sender :: "nat option"
  pk_send_busy :: bool
  pk_write_busy :: bool
  pk_read_busy :: bool
  pk_closed :: bool
  pk_reads :: "(rx \<times> bytes) list"
  pk_posted :: nat
  pk_source :: bytes

text \<open>
  What a step does: the calls of handlers, what the lower stream is asked for, and two kinds of undefined
  behaviour, copying past the end of the caller's buffer and calling an empty handler.
\<close>

datatype pk_action =
    Sent nat "pk_error option" nat
  | Received nat "pk_error option" bytes datagram_address
  | Stream_write bytes
  | Stream_close
  | Overrun nat nat
  | Empty_call

datatype pk_event =
    Ev_send bytes datagram_address nat
  | Ev_receive nat nat
  | Ev_start
  | Ev_read nat nat
  | Ev_read_failed nat pk_error
  | Ev_written "pk_error option"
  | Ev_cancel_send
  | Ev_cancel_receive
  | Ev_close

section \<open>Addresses\<close>

text \<open>\<^verbatim>\<open>encode_address\<close>, given the family bytes for IPv4, IPv6 and domains.\<close>

definition encode_with :: "byte \<Rightarrow> byte \<Rightarrow> byte \<Rightarrow> error_code \<Rightarrow> string \<Rightarrow> datagram_address \<Rightarrow> bytes res" where
  "encode_with fam4 fam6 famd ecode msg d =
     (case d of
        Dg_address a p \<Rightarrow>
          (if is_v4 a then Inr ([fam4] @ address_bytes a @ port_bytes p)
           else Inr ([fam6] @ address_bytes a @ port_bytes p))
      | Dg_domain name p \<Rightarrow>
          (if name = [] \<or> length name > 255 then Inl (mk_error ecode msg)
           else Inr ([famd, word_of_nat (length name)] @ bytes_of_string name @ port_bytes p)))"

text \<open>What comes back from the wire: an IPv6 scope does not.\<close>

fun wire_address :: "datagram_address \<Rightarrow> bool" where
  "wire_address (Dg_domain name p) = True"
| "wire_address (Dg_address a p) = unscoped a"

text \<open>The handlers of the address stages; the last hands over to the length.\<close>

type_synonym received = "pk_error option \<times> bytes \<times> datagram_address"

definition rx_fail :: "pk_error \<Rightarrow> rx + received" where
  "rx_fail e = Inr (Some e, [], default_datagram_address)"

definition address_stage :: "byte \<Rightarrow> byte \<Rightarrow> byte \<Rightarrow> rx \<Rightarrow> bytes \<Rightarrow> rx + received" where
  "address_stage fam4 fam6 famd rx got =
     (case rx of
        Rx_family \<Rightarrow>
          (let family = got ! 0 in
           if family = fam4 then Inl (Rx_numeric family 4)
           else if family = fam6 then Inl (Rx_numeric family 16)
           else if family = famd then Inl Rx_domain_length
           else rx_fail Pk_protocol_error)
      | Rx_domain_length \<Rightarrow>
          (let n = unat (got ! 0) in if n = 0 then rx_fail Pk_protocol_error else Inl (Rx_domain n))
      | Rx_domain n \<Rightarrow> Inl (Rx_domain_port (string_of_bytes got))
      | Rx_domain_port name \<Rightarrow> Inl (Rx_length (Dg_domain name (port_of (got ! 0) (got ! 1))))
      | Rx_numeric family n \<Rightarrow> Inl (Rx_port family got)
      | Rx_port family address \<Rightarrow>
          Inl (Rx_length (Dg_address (if family = fam4 then v4_from_bytes address else v6_from_bytes address)
            (port_of (got ! 0) (got ! 1))))
      | _ \<Rightarrow> rx_fail Pk_protocol_error)"

fun rx_need :: "nat \<Rightarrow> rx \<Rightarrow> nat" where
  "rx_need length_size Rx_family = 1"
| "rx_need length_size Rx_domain_length = 1"
| "rx_need length_size (Rx_domain n) = n"
| "rx_need length_size (Rx_domain_port name) = 2"
| "rx_need length_size (Rx_numeric family n) = n"
| "rx_need length_size (Rx_port family address) = 2"
| "rx_need length_size (Rx_length d) = length_size"
| "rx_need length_size (Rx_payload d n) = n"

text \<open>An encoded address is read back by these stages.\<close>

lemma parses_step:
  assumes "length bs = need rx" "bs \<noteq> []" "finish rx bs = Inl rx'" "parses need finish rx' input r rest"
  shows "parses need finish rx (bs @ input) r rest"
  using assms by (rule parses.more)

lemma port_bytes_nonempty [simp]: "port_bytes p \<noteq> []"
  by (simp add: port_bytes_def)

lemma address_parses:
  assumes enc: "encode_with fam4 fam6 famd ecode msg d = Inr bs" and wire: "wire_address d"
    and fams: "fam4 \<noteq> fam6" "fam4 \<noteq> famd" "fam6 \<noteq> famd"
    and stages: "\<And>rx got. (\<forall>a n. rx \<noteq> Rx_length a \<and> rx \<noteq> Rx_payload a n) \<Longrightarrow>
          finish rx got = address_stage fam4 fam6 famd rx got"
    and behind: "parses (rx_need ls) finish (Rx_length d) input r rest"
  shows "parses (rx_need ls) finish Rx_family (bs @ input) r rest"
proof (cases d)
  case (Dg_domain name p)
  with enc have name: "name \<noteq> []" "length name \<le> 255"
    and bs: "bs = [famd] @ [word_of_nat (length name)] @ bytes_of_string name @ port_bytes p"
    by (auto simp: encode_with_def split: if_splits)
  have len: "unat (word_of_nat (length name) :: byte) = length name"
    using name(2) by (simp add: unat_of_nat)
  have "parses (rx_need ls) finish (Rx_domain_port name) (port_bytes p @ input) r rest"
    by (rule parses_step [where rx' = "Rx_length d"]) (use stages behind Dg_domain in \<open>simp_all add: address_stage_def\<close>)
  then have "parses (rx_need ls) finish (Rx_domain (length name)) (bytes_of_string name @ port_bytes p @ input) r rest"
    by (rule parses_step [rotated 3]) (use stages name in \<open>simp_all add: address_stage_def flip: length_greater_0_conv\<close>)
  then have "parses (rx_need ls) finish Rx_domain_length
      ([word_of_nat (length name)] @ bytes_of_string name @ port_bytes p @ input) r rest"
    by (rule parses_step [rotated 3]) (use stages name len in \<open>simp_all add: address_stage_def\<close>)
  then have "parses (rx_need ls) finish Rx_family
      ([famd] @ [word_of_nat (length name)] @ bytes_of_string name @ port_bytes p @ input) r rest"
    by (rule parses_step [rotated 3]) (use stages fams in \<open>auto simp: address_stage_def\<close>)
  then show ?thesis by (simp add: bs)
next
  case (Dg_address a p)
  define fam where "fam = (if is_v4 a then fam4 else fam6)"
  define n :: nat where "n = (if is_v4 a then 4 else 16)"
  have bs: "bs = [fam] @ address_bytes a @ port_bytes p"
    using enc Dg_address by (auto simp: encode_with_def fam_def split: if_splits)
  have same: "(if fam = fam4 then v4_from_bytes (address_bytes a) else v6_from_bytes (address_bytes a)) = a"
    using wire Dg_address fams(1) by (cases a) (simp_all add: fam_def wire_simps)
  have len: "length (address_bytes a) = n" "address_bytes a \<noteq> []"
    by (simp_all add: length_address_bytes n_def flip: length_greater_0_conv)
  have "parses (rx_need ls) finish (Rx_port fam (address_bytes a)) (port_bytes p @ input) r rest"
    by (rule parses_step [where rx' = "Rx_length d"])
      (use stages behind Dg_address same in \<open>simp_all add: address_stage_def\<close>)
  then have "parses (rx_need ls) finish (Rx_numeric fam n) (address_bytes a @ port_bytes p @ input) r rest"
    by (rule parses_step [rotated 3]) (use stages len in \<open>simp_all add: address_stage_def\<close>)
  then have "parses (rx_need ls) finish Rx_family ([fam] @ address_bytes a @ port_bytes p @ input) r rest"
    by (rule parses_step [rotated 3]) (use stages fams in \<open>auto simp: address_stage_def fam_def n_def\<close>)
  then show ?thesis by (simp add: bs)
qed

section \<open>Receiving\<close>

definition finish_receive :: "pk_error option \<Rightarrow> bytes \<Rightarrow> datagram_address \<Rightarrow> 'a pk_state_scheme \<Rightarrow>
    pk_action list \<times> 'a pk_state_scheme" where
  "finish_receive e payload source s =
     ((case pk_receiver s of None \<Rightarrow> [] | Some handler \<Rightarrow> [Received handler e payload source]),
      s\<lparr>pk_read_busy := False, pk_receiver := None, pk_output := 0\<rparr>)"

definition receive :: "nat \<Rightarrow> nat \<Rightarrow> 'a pk_state_scheme \<Rightarrow> pk_action list \<times> 'a pk_state_scheme" where
  "receive n handler s =
     (if pk_closed s then ([Received handler (Some Pk_aborted) [] default_datagram_address], s)
      else if pk_read_busy s then ([Received handler (Some Pk_already_started) [] default_datagram_address], s)
      else if n = 0 then ([Received handler None [] default_datagram_address], s)
      else ([], s\<lparr>pk_read_busy := True, pk_output := n, pk_receiver := Some handler,
                 pk_posted := pk_posted s + 1\<rparr>))"

definition read_exact :: "rx \<Rightarrow> bytes \<Rightarrow> 'a pk_state_scheme \<Rightarrow> 'a pk_state_scheme" where
  "read_exact rx got s = s\<lparr>pk_reads := pk_reads s @ [(rx, got)]\<rparr>"

definition start_receive :: "'a pk_state_scheme \<Rightarrow> pk_action list \<times> 'a pk_state_scheme" where
  "start_receive s =
     (if pk_posted s = 0 then ([], s) else ([], read_exact Rx_family [] (s\<lparr>pk_posted := pk_posted s - 1\<rparr>)))"

text \<open>
  A full buffer: the next stage is read, or the receive finishes; a payload is copied into the caller's
  buffer first.
\<close>

definition buffer_full :: "(nat \<Rightarrow> rx \<Rightarrow> bytes \<Rightarrow> rx + received) \<Rightarrow> rx \<Rightarrow> bytes \<Rightarrow> 'a pk_state_scheme \<Rightarrow>
    pk_action list \<times> 'a pk_state_scheme" where
  "buffer_full finish rx got s =
     (case finish (pk_output s) rx got of
        Inl rx' \<Rightarrow> ([], read_exact rx' [] s)
      | Inr (e, payload, source) \<Rightarrow>
          (let (a, s') = finish_receive e payload source s in
           ((if length payload > pk_output s then [Overrun (length payload) (pk_output s)] else []) @ a, s')))"

definition without :: "nat \<Rightarrow> 'b list \<Rightarrow> 'b list" where
  "without i xs = take i xs @ drop (Suc i) xs"

text \<open>The pull of \<^verbatim>\<open>read_exact_guarded\<close>, with an error.\<close>

definition pull_failed :: "nat \<Rightarrow> pk_error \<Rightarrow> 'a pk_state_scheme \<Rightarrow> pk_action list \<times> 'a pk_state_scheme" where
  "pull_failed i e s =
     (if i < length (pk_reads s)
      then let s = s\<lparr>pk_reads := without i (pk_reads s)\<rparr> in
           (if pk_receiver s = None then ([], s\<lparr>pk_read_busy := False\<rparr>)
            else finish_receive (Some e) [] default_datagram_address s)
      else ([], s))"

text \<open>
  With at most \<open>n\<close> bytes of what the peer sent.  A read of an empty buffer completes with no bytes, which
  the pull takes for the end of the stream.
\<close>

definition pull :: "nat \<Rightarrow> (nat \<Rightarrow> rx \<Rightarrow> bytes \<Rightarrow> rx + received) \<Rightarrow> nat \<Rightarrow> nat \<Rightarrow> 'a pk_state_scheme \<Rightarrow>
    pk_action list \<times> 'a pk_state_scheme" where
  "pull length_size finish i n s =
     (if i < length (pk_reads s)
      then let (rx, got) = pk_reads s ! i;
               asked = rx_need length_size rx - length got;
               piece = take (min n asked) (pk_source s) in
           (if asked = 0 then pull_failed i Pk_eof s
            else if piece = [] then ([], s)
            else let s = s\<lparr>pk_reads := without i (pk_reads s), pk_source := drop (length piece) (pk_source s)\<rparr> in
              (if pk_receiver s = None then ([], s\<lparr>pk_read_busy := False\<rparr>)
               else if length (got @ piece) = rx_need length_size rx then buffer_full finish rx (got @ piece) s
               else ([], read_exact rx (got @ piece) s)))
      else ([], s))"

section \<open>What was received\<close>

definition received :: "pk_action list \<Rightarrow> (bytes \<times> datagram_address) list" where
  "received as = concat (map (\<lambda>a. case a of Received handler None p source \<Rightarrow> [(p, source)] | _ \<Rightarrow> []) as)"

fun harmless :: "pk_action \<Rightarrow> bool" where
  "harmless (Overrun n m) \<longleftrightarrow> False"
| "harmless Empty_call \<longleftrightarrow> False"
| "harmless _ \<longleftrightarrow> True"

lemma received_simps [simp]:
  "received [] = []" "received (as @ bs) = received as @ received bs"
  "received (Received handler None p source # as) = (p, source) # received as"
  "received (Received handler (Some e) p source # as) = received as"
  "received (Sent handler e' n # as) = received as" "received (Stream_write bs' # as) = received as"
  "received (Stream_close # as) = received as" "received (Overrun n m # as) = received as"
  "received (Empty_call # as) = received as"
  by (simp_all add: received_def)

section \<open>Handlers\<close>

text \<open>Every handler that is passed in is called once, or parked.\<close>

definition sent_calls :: "pk_action list \<Rightarrow> nat list" where
  "sent_calls as = concat (map (\<lambda>a. case a of Sent handler e n \<Rightarrow> [handler] | _ \<Rightarrow> []) as)"

definition received_calls :: "pk_action list \<Rightarrow> nat list" where
  "received_calls as = concat (map (\<lambda>a. case a of Received handler e p source \<Rightarrow> [handler] | _ \<Rightarrow> []) as)"

definition written :: "pk_action list \<Rightarrow> bytes" where
  "written as = concat (map (\<lambda>a. case a of Stream_write bs \<Rightarrow> bs | _ \<Rightarrow> []) as)"

lemma calls_simps [simp]:
  "sent_calls [] = []" "sent_calls (as @ bs) = sent_calls as @ sent_calls bs"
  "sent_calls (a # as) = (case a of Sent handler e n \<Rightarrow> [handler] | _ \<Rightarrow> []) @ sent_calls as"
  "received_calls [] = []" "received_calls (as @ bs) = received_calls as @ received_calls bs"
  "received_calls (a # as) = (case a of Received handler e p source \<Rightarrow> [handler] | _ \<Rightarrow> []) @ received_calls as"
  "written [] = []" "written (as @ bs) = written as @ written bs"
  "written (a # as) = (case a of Stream_write bs' \<Rightarrow> bs' | _ \<Rightarrow> []) @ written as"
  by (simp_all add: sent_calls_def received_calls_def written_def)

definition parked :: "nat option \<Rightarrow> nat multiset" where
  "parked h = (case h of None \<Rightarrow> {#} | Some handler \<Rightarrow> {#handler#})"

lemma parked_simps [simp]: "parked None = {#}" "parked (Some h) = {#h#}"
  by (simp_all add: parked_def)

definition handlers_ok :: "'a pk_state_scheme \<Rightarrow> bool" where
  "handlers_ok s \<longleftrightarrow> (pk_send_busy s \<longleftrightarrow> pk_sender s \<noteq> None) \<and> (pk_read_busy s \<longleftrightarrow> pk_receiver s \<noteq> None)"

text \<open>\<open>sends\<close> and \<open>receives\<close> are the handlers passed in during the step.\<close>

definition balanced :: "nat list \<Rightarrow> nat list \<Rightarrow> 'a pk_state_scheme \<Rightarrow> pk_action list \<times> 'a pk_state_scheme \<Rightarrow> bool" where
  "balanced sends receives s r \<longleftrightarrow>
     mset (sent_calls (fst r)) + parked (pk_sender (snd r)) = parked (pk_sender s) + mset sends \<and>
     mset (received_calls (fst r)) + parked (pk_receiver (snd r)) = parked (pk_receiver s) + mset receives \<and>
     handlers_ok (snd r) \<and> Empty_call \<notin> set (fst r)"

lemma balanced_same:
  "handlers_ok s \<Longrightarrow> pk_sender s' = pk_sender s \<Longrightarrow> pk_receiver s' = pk_receiver s \<Longrightarrow>
   pk_send_busy s' = pk_send_busy s \<Longrightarrow> pk_read_busy s' = pk_read_busy s \<Longrightarrow> balanced [] [] s ([], s')"
  by (simp add: balanced_def handlers_ok_def)

lemma finish_receive_balanced:
  "handlers_ok s \<Longrightarrow> balanced [] [] s (finish_receive e p source s)"
  by (auto simp: balanced_def handlers_ok_def finish_receive_def split: option.splits)

lemma receive_balanced: "handlers_ok s \<Longrightarrow> balanced [] [h] s (receive n h s)"
  by (auto simp: balanced_def handlers_ok_def receive_def)

lemma start_receive_balanced: "handlers_ok s \<Longrightarrow> balanced [] [] s (start_receive s)"
  by (auto simp: start_receive_def read_exact_def intro!: balanced_same)

lemma balanced_from:
  assumes "balanced ss rs t r" "pk_sender t = pk_sender s" "pk_receiver t = pk_receiver s"
  shows "balanced ss rs s r"
  using assms by (simp add: balanced_def)

lemma buffer_full_balanced: "handlers_ok s \<Longrightarrow> balanced [] [] s (buffer_full finish rx got s)"
  using finish_receive_balanced [of s]
  by (auto simp: buffer_full_def read_exact_def balanced_def handlers_ok_def finish_receive_def Let_def
        split: sum.split option.splits)

lemma pull_failed_balanced: "handlers_ok s \<Longrightarrow> balanced [] [] s (pull_failed i e s)"
  by (auto simp: pull_failed_def balanced_def handlers_ok_def finish_receive_def Let_def split: option.splits)

lemma pull_balanced:
  assumes "handlers_ok s"
  shows "balanced [] [] s (pull ls finish i n s)"
proof -
  have full: "balanced [] [] s (buffer_full finish rx got (s\<lparr>pk_reads := x, pk_source := y\<rparr>))" for rx got x y
    by (rule balanced_from [OF buffer_full_balanced]) (use assms in \<open>simp_all add: handlers_ok_def\<close>)
  have same: "balanced [] [] s ([], s)" using assms by (simp add: balanced_same)
  show ?thesis
    using assms full same pull_failed_balanced [OF assms]
    by (auto simp: pull_def Let_def read_exact_def balanced_same split: prod.split)
      (auto simp: balanced_def handlers_ok_def)
qed

section \<open>Runs\<close>

text \<open>Both classes are driven by a step function; a run collects the actions.\<close>

fun pk_run :: "(pk_event \<Rightarrow> 's \<Rightarrow> pk_action list \<times> 's) \<Rightarrow> pk_event list \<Rightarrow> 's \<Rightarrow> pk_action list \<times> 's" where
  "pk_run step [] s = ([], s)"
| "pk_run step (ev # evs) s =
     (let (as, s) = step ev s; (bs, s) = pk_run step evs s in (as @ bs, s))"

lemma pk_run_Cons [simp]:
  "fst (pk_run step (ev # evs) s) = fst (step ev s) @ fst (pk_run step evs (snd (step ev s)))"
  "snd (pk_run step (ev # evs) s) = snd (pk_run step evs (snd (step ev s)))"
  by (simp_all add: case_prod_beta)

declare pk_run.simps(2) [simp del]

lemma pk_run_append:
  "pk_run step (evs @ evs') s =
     (fst (pk_run step evs s) @ fst (pk_run step evs' (snd (pk_run step evs s))),
      snd (pk_run step evs' (snd (pk_run step evs s))))"
  by (induction evs arbitrary: s) (auto intro: prod_eqI)

definition sends_of :: "pk_event \<Rightarrow> nat list" where
  "sends_of ev = (case ev of Ev_send data dest handler \<Rightarrow> [handler] | _ \<Rightarrow> [])"

definition receives_of :: "pk_event \<Rightarrow> nat list" where
  "receives_of ev = (case ev of Ev_receive n handler \<Rightarrow> [handler] | _ \<Rightarrow> [])"

definition settled :: "'a pk_state_scheme \<Rightarrow> bool" where
  "settled s \<longleftrightarrow> (pk_closed s \<longrightarrow> pk_sender s = None \<and> pk_receiver s = None)"

text \<open>A machine whose steps lose no handler: none of its runs does.\<close>

locale handler_machine =
  fixes step :: "pk_event \<Rightarrow> 'a pk_state_scheme \<Rightarrow> pk_action list \<times> 'a pk_state_scheme"
  assumes step_balanced: "handlers_ok s \<Longrightarrow> balanced (sends_of ev) (receives_of ev) s (step ev s)"
    and step_settled: "handlers_ok s \<Longrightarrow> settled s \<Longrightarrow> settled (snd (step ev s))"
begin

lemma run_balanced:
  "handlers_ok s \<Longrightarrow>
   balanced (concat (map sends_of evs)) (concat (map receives_of evs)) s (pk_run step evs s)"
proof (induction evs arbitrary: s)
  case Nil
  then show ?case by (simp add: balanced_def)
next
  case (Cons ev evs)
  note first = step_balanced [OF Cons.prems, of ev]
  then have "handlers_ok (snd (step ev s))" by (simp add: balanced_def)
  note behind = Cons.IH [OF this]
  show ?case
    unfolding balanced_def
  proof (intro conjI)
    let ?s = "snd (step ev s)" and ?t = "snd (pk_run step evs (snd (step ev s)))"
    show "mset (sent_calls (fst (pk_run step (ev # evs) s))) + parked (pk_sender (snd (pk_run step (ev # evs) s))) =
        parked (pk_sender s) + mset (concat (map sends_of (ev # evs)))"
      using first behind by (simp add: balanced_def) (metis (no_types, lifting) add.assoc)
    show "mset (received_calls (fst (pk_run step (ev # evs) s))) + parked (pk_receiver (snd (pk_run step (ev # evs) s))) =
        parked (pk_receiver s) + mset (concat (map receives_of (ev # evs)))"
      using first behind by (simp add: balanced_def) (metis (no_types, lifting) add.assoc)
    show "handlers_ok (snd (pk_run step (ev # evs) s))" "Empty_call \<notin> set (fst (pk_run step (ev # evs) s))"
      using first behind by (simp_all add: balanced_def)
  qed
qed

lemma run_settled: "handlers_ok s \<Longrightarrow> settled s \<Longrightarrow> settled (snd (pk_run step evs s))"
proof (induction evs arbitrary: s)
  case (Cons ev evs)
  then show ?case using step_balanced [of s ev] step_settled [of s ev] by (simp add: balanced_def)
qed simp

end

section \<open>The interface\<close>

text \<open>
  A framing: the stages of a receive read back a frame and stop behind it, whatever follows.
\<close>

locale datagram_framing =
  fixes length_size :: nat
    and finish :: "nat \<Rightarrow> rx \<Rightarrow> bytes \<Rightarrow> rx + received"
    and frame :: "bytes \<times> datagram_address \<Rightarrow> bytes"
    and wire_ok :: "bytes \<times> datagram_address \<Rightarrow> bool"
    and largest :: nat
  assumes frame_parses: "wire_ok (p, source) \<Longrightarrow> length p \<le> n \<Longrightarrow>
      parses (rx_need length_size) (finish n) Rx_family (frame (p, source) @ rest) (None, p, source) rest"
    and frame_bound: "wire_ok (p, source) \<Longrightarrow> length p \<le> largest"
    and largest_positive: "0 < largest"
begin

definition wire :: "(bytes \<times> datagram_address) list \<Rightarrow> bytes" where
  "wire ds = concat (map frame ds)"

text \<open>
  Where a receiver stands: \<open>todo\<close> are the datagrams it has not received, \<open>rest\<close> what the peer has not sent.
\<close>

definition recv_idle :: "(bytes \<times> datagram_address) list \<Rightarrow> bytes \<Rightarrow> 'a pk_state_scheme \<Rightarrow> bool" where
  "recv_idle todo rest s \<longleftrightarrow> pk_receiver s = None \<and> pk_reads s = [] \<and> pk_posted s = 0 \<and> \<not> pk_read_busy s \<and>
     pk_source s @ rest = wire todo"

definition recv_started :: "(bytes \<times> datagram_address) list \<Rightarrow> bytes \<Rightarrow> 'a pk_state_scheme \<Rightarrow> bool" where
  "recv_started todo rest s \<longleftrightarrow> pk_receiver s \<noteq> None \<and> pk_reads s = [] \<and> pk_posted s = 1 \<and> pk_read_busy s \<and>
     largest \<le> pk_output s \<and> pk_source s @ rest = wire todo"

definition recv_reading :: "(bytes \<times> datagram_address) list \<Rightarrow> bytes \<Rightarrow> 'a pk_state_scheme \<Rightarrow> bool" where
  "recv_reading todo rest s \<longleftrightarrow> pk_receiver s \<noteq> None \<and> pk_posted s = 0 \<and> pk_read_busy s \<and> largest \<le> pk_output s \<and>
     (\<exists>rx got. pk_reads s = [(rx, got)] \<and> length got < rx_need length_size rx \<and>
        (case todo of
           [] \<Rightarrow> rx = Rx_family \<and> got = [] \<and> pk_source s @ rest = []
         | (p, source) # later \<Rightarrow> wire_ok (p, source) \<and>
             parses (rx_need length_size) (finish (pk_output s)) rx (got @ pk_source s @ rest) (None, p, source)
               (wire later)))"

definition recv_at :: "(bytes \<times> datagram_address) list \<Rightarrow> bytes \<Rightarrow> 'a pk_state_scheme \<Rightarrow> bool" where
  "recv_at todo rest s \<longleftrightarrow> \<not> pk_closed s \<and> (\<forall>d\<in>set todo. wire_ok d) \<and>
     (recv_idle todo rest s \<or> recv_started todo rest s \<or> recv_reading todo rest s)"

definition recv_ok :: "(bytes \<times> datagram_address) list \<Rightarrow> bytes \<Rightarrow> pk_action list \<times> 'a pk_state_scheme \<Rightarrow> bool" where
  "recv_ok todo rest r \<longleftrightarrow> (\<exists>later. todo = received (fst r) @ later \<and> recv_at later rest (snd r)) \<and>
     list_all harmless (fst r)"

lemma wire_simps' [simp]: "wire [] = []" "wire (d # ds) = frame d @ wire ds" "wire (ds @ es) = wire ds @ wire es"
  by (simp_all add: wire_def)

lemma recv_receive:
  assumes "recv_at todo rest s" "largest \<le> n"
  shows "recv_ok todo rest (receive n handler s)"
proof (cases "pk_read_busy s")
  case True
  then show ?thesis using assms(1) by (auto simp: recv_at_def receive_def recv_ok_def)
next
  case False
  then show ?thesis
    using assms largest_positive
    by (auto simp: recv_at_def receive_def recv_ok_def recv_idle_def recv_started_def recv_reading_def)
qed

lemma recv_start:
  assumes "recv_at todo rest s"
  shows "recv_ok todo rest (start_receive s)"
proof (cases "pk_posted s = 0")
  case True
  then show ?thesis using assms by (auto simp: start_receive_def recv_ok_def)
next
  case False
  then have started: "recv_started todo rest s" and ok: "\<not> pk_closed s" "\<forall>d\<in>set todo. wire_ok d"
    using assms by (auto simp: recv_at_def recv_idle_def recv_reading_def)
  let ?s = "read_exact Rx_family [] (s\<lparr>pk_posted := pk_posted s - 1\<rparr>)"
  have "recv_reading todo rest ?s"
  proof (cases todo)
    case Nil
    then show ?thesis using started by (simp add: recv_started_def recv_reading_def read_exact_def)
  next
    case (Cons d later)
    obtain p source where d: "d = (p, source)" by (cases d)
    have "wire_ok (p, source)" using ok Cons d by simp
    moreover from this have "length p \<le> pk_output s"
      using frame_bound started unfolding recv_started_def by (meson order_trans)
    ultimately show ?thesis
      using started Cons d frame_parses [of p source "pk_output s" "wire later"]
      by (simp add: recv_started_def recv_reading_def read_exact_def)
  qed
  then show ?thesis
    using False ok by (simp add: recv_ok_def recv_at_def start_receive_def) (simp add: read_exact_def)
qed

lemma recv_pull:
  assumes "recv_at todo rest s"
  shows "recv_ok todo rest (pull length_size finish i n s)"
proof (cases "recv_reading todo rest s \<and> i = 0")
  case False
  then have "i \<ge> length (pk_reads s)"
    using assms by (auto simp: recv_at_def recv_idle_def recv_started_def recv_reading_def)
  then show ?thesis using assms by (simp add: pull_def recv_ok_def)
next
  case True
  then obtain rx got where r: "pk_reads s = [(rx, got)]" "length got < rx_need length_size rx"
    and busy: "pk_receiver s \<noteq> None" "pk_posted s = 0" "pk_read_busy s" "largest \<le> pk_output s"
    by (auto simp: recv_reading_def)
  define piece where "piece = take (min n (rx_need length_size rx - length got)) (pk_source s)"
  define t where "t = s\<lparr>pk_reads := [], pk_source := drop (length piece) (pk_source s)\<rparr>"
  obtain handler where h: "pk_receiver s = Some handler" using busy(1) by blast
  have pulled: "pull length_size finish i n s = (if piece = [] then ([], s)
      else if length (got @ piece) = rx_need length_size rx then buffer_full finish rx (got @ piece) t
      else ([], read_exact rx (got @ piece) t))"
  proof -
    have "pk_receiver t \<noteq> None" using busy(1) by (simp add: t_def)
    then show ?thesis using True r by (auto simp: pull_def without_def Let_def simp flip: piece_def t_def)
  qed
  show ?thesis
  proof (cases "piece = []")
    case True
    then show ?thesis using assms pulled by (simp add: recv_ok_def)
  next
    case piece: False
    have source: "pk_source s = piece @ pk_source t"
      by (simp add: t_def piece_def min_def)
    have size: "length (got @ piece) \<le> rx_need length_size rx" using r(2) by (simp add: piece_def)
    have nonempty: "pk_source s @ rest \<noteq> []" using piece source by simp
    then obtain p src later where todo: "todo = (p, src) # later" and ok: "wire_ok (p, src)"
      and parse: "parses (rx_need length_size) (finish (pk_output s)) rx (got @ pk_source s @ rest) (None, p, src)
               (wire later)"
      using True r by (auto simp: recv_reading_def split: list.splits)
    have parse': "parses (rx_need length_size) (finish (pk_output s)) rx ((got @ piece) @ pk_source t @ rest)
        (None, p, src) (wire later)"
      using parse source by simp
    have later_ok: "\<forall>d\<in>set later. wire_ok d" "\<not> pk_closed s" using assms todo by (auto simp: recv_at_def)
    have t: "pk_receiver t = pk_receiver s" "pk_posted t = 0" "pk_read_busy t" "pk_output t = pk_output s"
      "pk_reads t = []" "\<not> pk_closed t" using busy later_ok by (simp_all add: t_def)
    show ?thesis
    proof (cases "length (got @ piece) = rx_need length_size rx")
      case full: True
      from parses_full [OF parse' full] show ?thesis
      proof (elim disjE conjE exE)
        assume fin: "finish (pk_output s) rx (got @ piece) = Inr (None, p, src)" "pk_source t @ rest = wire later"
        have "length p \<le> pk_output s" using frame_bound [OF ok] busy(4) by simp
        then have "pull length_size finish i n s = ([Received handler None p src],
            t\<lparr>pk_read_busy := False, pk_receiver := None, pk_output := 0\<rparr>)"
          using pulled piece full fin t h by (simp add: buffer_full_def finish_receive_def)
        moreover have "recv_idle later rest (t\<lparr>pk_read_busy := False, pk_receiver := None, pk_output := 0\<rparr>)"
          using fin(2) t by (simp add: recv_idle_def)
        ultimately show ?thesis using later_ok t todo by (simp add: recv_ok_def recv_at_def)
      next
        fix rx'
        assume fin: "finish (pk_output s) rx (got @ piece) = Inl rx'"
          and parse': "parses (rx_need length_size) (finish (pk_output s)) rx' (pk_source t @ rest) (None, p, src)
            (wire later)"
        have "pull length_size finish i n s = ([], read_exact rx' [] t)"
          using pulled piece full fin t by (simp add: buffer_full_def)
        moreover have "recv_reading todo rest (read_exact rx' [] t)"
          using parse' parses_positive [OF parse'] t todo busy ok by (simp add: recv_reading_def read_exact_def)
        moreover have "pk_closed (read_exact rx' [] t) = pk_closed t" by (simp add: read_exact_def)
        ultimately show ?thesis using later_ok t todo ok by (simp add: recv_ok_def recv_at_def)
      qed
    next
      case part: False
      then have "pull length_size finish i n s = ([], read_exact rx (got @ piece) t)" using pulled piece by simp
      moreover have "recv_reading todo rest (read_exact rx (got @ piece) t)"
        using parse' part size t todo busy ok by (simp add: recv_reading_def read_exact_def)
      moreover have "pk_closed (read_exact rx (got @ piece) t) = pk_closed t" by (simp add: read_exact_def)
      ultimately show ?thesis using later_ok t todo ok by (simp add: recv_ok_def recv_at_def)
    qed
  qed
qed

text \<open>What the other direction does leaves the receiver alone.\<close>

lemma recv_kept:
  assumes "recv_at todo rest s" "received (fst r) = []" "list_all harmless (fst r)"
    and "pk_receiver (snd r) = pk_receiver s" "pk_reads (snd r) = pk_reads s" "pk_posted (snd r) = pk_posted s"
    "pk_read_busy (snd r) = pk_read_busy s" "pk_output (snd r) = pk_output s" "pk_source (snd r) = pk_source s"
    "pk_closed (snd r) = pk_closed s"
  shows "recv_ok todo rest r"
proof -
  have "recv_at todo rest (snd r) = recv_at todo rest s"
    by (simp only: recv_at_def recv_idle_def recv_started_def recv_reading_def assms(4-))
  then show ?thesis using assms(1-3) by (simp add: recv_ok_def)
qed

text \<open>Nothing left of the stream: nothing left to receive.\<close>

lemma frame_nonempty: "wire_ok d \<Longrightarrow> frame d \<noteq> []"
proof -
  assume ok: "wire_ok d"
  obtain p source where d: "d = (p, source)" by (cases d)
  have "parses (rx_need length_size) (finish (length p)) Rx_family (frame d @ []) (None, p, source) []"
    using frame_parses [of p source "length p" "[]"] ok d by simp
  then show "frame d \<noteq> []" using parses_more [of "rx_need length_size" "finish (length p)" Rx_family "[]"] by force
qed

lemma recv_exhausted:
  assumes "recv_at todo [] s" "pk_source s = []"
  shows "todo = []"
proof (cases todo)
  case (Cons d later)
  obtain p source where d: "d = (p, source)" by (cases d)
  have "wire todo \<noteq> []" using Cons assms(1) frame_nonempty [of d] by (auto simp: recv_at_def)
  then have "recv_reading todo [] s" using assms by (auto simp: recv_at_def recv_idle_def recv_started_def)
  then obtain rx got where "length got < rx_need length_size rx"
    "parses (rx_need length_size) (finish (pk_output s)) rx (got @ []) (None, p, source) (wire later)"
    using assms(2) Cons d by (auto simp: recv_reading_def)
  then show ?thesis using parses_more by (metis append_is_Nil_conv)
qed simp

end

text \<open>
  A machine that receives by the chain and leaves the receiver alone otherwise.  \<open>patient\<close> are the events that
  do not end a receive early: no cancellation, no close, no failing read, and buffers that hold any frame.
\<close>

fun patient :: "nat \<Rightarrow> pk_event \<Rightarrow> bool" where
  "patient largest (Ev_receive n handler) \<longleftrightarrow> largest \<le> n"
| "patient largest (Ev_read_failed i e) \<longleftrightarrow> False"
| "patient largest Ev_cancel_receive \<longleftrightarrow> False"
| "patient largest Ev_close \<longleftrightarrow> False"
| "patient largest _ \<longleftrightarrow> True"

fun sending :: "pk_event \<Rightarrow> bool" where
  "sending (Ev_send data dest handler) \<longleftrightarrow> True"
| "sending (Ev_written e) \<longleftrightarrow> True"
| "sending Ev_cancel_send \<longleftrightarrow> True"
| "sending _ \<longleftrightarrow> False"

definition receiver_kept :: "'a pk_state_scheme \<Rightarrow> pk_action list \<times> 'a pk_state_scheme \<Rightarrow> bool" where
  "receiver_kept s r \<longleftrightarrow> received (fst r) = [] \<and> list_all harmless (fst r) \<and>
     pk_receiver (snd r) = pk_receiver s \<and> pk_reads (snd r) = pk_reads s \<and> pk_posted (snd r) = pk_posted s \<and>
     pk_read_busy (snd r) = pk_read_busy s \<and> pk_output (snd r) = pk_output s \<and> pk_source (snd r) = pk_source s \<and>
     pk_closed (snd r) = pk_closed s"

locale framed_machine = datagram_framing +
  fixes step :: "pk_event \<Rightarrow> 'a pk_state_scheme \<Rightarrow> pk_action list \<times> 'a pk_state_scheme"
  assumes step_receive: "step (Ev_receive n handler) s = receive n handler s"
    and step_start: "step Ev_start s = start_receive s"
    and step_read: "step (Ev_read i n) s = pull length_size finish i n s"
    and step_sending: "sending ev \<Longrightarrow> receiver_kept s (step ev s)"
begin

lemma recv_step:
  assumes at: "recv_at todo rest s" and ev: "patient largest ev"
  shows "recv_ok todo rest (step ev s)"
proof (cases "sending ev")
  case True
  then show ?thesis
    using recv_kept [OF at, of "step ev s"] step_sending [of ev s] by (simp add: receiver_kept_def)
next
  case False
  then show ?thesis
    using ev recv_receive [OF at] recv_start [OF at] recv_pull [OF at]
    by (cases ev) (simp_all add: step_receive step_start step_read)
qed

lemma recv_run:
  "recv_at todo rest s \<Longrightarrow> list_all (patient largest) evs \<Longrightarrow> recv_ok todo rest (pk_run step evs s)"
proof (induction evs arbitrary: s todo)
  case Nil
  then show ?case by (simp add: recv_ok_def)
next
  case (Cons ev evs)
  then obtain later where later: "todo = received (fst (step ev s)) @ later" "recv_at later rest (snd (step ev s))"
    "list_all harmless (fst (step ev s))"
    using recv_step [of todo rest s ev] by (auto simp: recv_ok_def)
  moreover have "recv_ok later rest (pk_run step evs (snd (step ev s)))"
    using Cons later by simp
  ultimately show ?case by (auto simp: recv_ok_def)
qed

text \<open>When the bytes of a frame are there, reading them finishes the receive.\<close>

lemma parse_runs:
  assumes "parses (rx_need length_size) (finish n) rx input (e, p, d) rest"
    and "pk_source s = input" "pk_reads s = [(rx, [])]" "pk_receiver s = Some h" "pk_output s = n" "length p \<le> n"
  shows "\<exists>reads. (\<forall>ev\<in>set reads. \<exists>i k. ev = Ev_read i k) \<and> pk_run step reads s = ([Received h e p d],
    s\<lparr>pk_reads := [], pk_source := rest, pk_read_busy := False, pk_receiver := None, pk_output := 0\<rparr>)"
  using assms
proof (induction rx input "(e, p, d)" rest arbitrary: s rule: parses.induct)
  case (last bs rx rest)
  have "step (Ev_read 0 (length bs)) s = ([Received h e p d],
      s\<lparr>pk_reads := [], pk_source := rest, pk_read_busy := False, pk_receiver := None, pk_output := 0\<rparr>)"
    using last by (auto simp: step_read pull_def without_def buffer_full_def finish_receive_def Let_def
        simp flip: last(1))
  then show ?case by (intro exI [of _ "[Ev_read 0 (length bs)]"]) (simp add: pk_run.simps)
next
  case (more bs rx rx' input rest)
  let ?s = "read_exact rx' [] (s\<lparr>pk_reads := [], pk_source := input\<rparr>)"
  have step: "step (Ev_read 0 (length bs)) s = ([], ?s)"
    using more by (auto simp: step_read pull_def without_def buffer_full_def Let_def simp flip: more(1))
  have "\<exists>reads. (\<forall>ev\<in>set reads. \<exists>i k. ev = Ev_read i k) \<and> pk_run step reads ?s = ([Received h e p d],
    ?s\<lparr>pk_reads := [], pk_source := rest, pk_read_busy := False, pk_receiver := None, pk_output := 0\<rparr>)"
    by (rule more.hyps(5)) (use more.prems in \<open>simp_all add: read_exact_def\<close>)
  then obtain reads where "\<forall>ev\<in>set reads. \<exists>i k. ev = Ev_read i k" "pk_run step reads ?s = ([Received h e p d],
    ?s\<lparr>pk_reads := [], pk_source := rest, pk_read_busy := False, pk_receiver := None, pk_output := 0\<rparr>)" by blast
  then show ?case
    using step by (intro exI [of _ "Ev_read 0 (length bs) # reads"]) (simp add: pk_run.simps read_exact_def)
qed

text \<open>A receive on a quiet connection: the frame at the front of the stream decides its result.\<close>

lemma receive_runs:
  assumes "parses (rx_need length_size) (finish n) Rx_family (pk_source s) (e, p, d) rest" "length p \<le> n" "0 < n"
    and "\<not> pk_closed s" "\<not> pk_read_busy s" "pk_reads s = []" "pk_posted s = 0" "pk_receiver s = None" "pk_output s = 0"
  shows "\<exists>reads. (\<forall>ev\<in>set reads. \<exists>i k. ev = Ev_read i k) \<and>
    pk_run step (Ev_receive n h # Ev_start # reads) s = ([Received h e p d], s\<lparr>pk_source := rest\<rparr>)"
proof -
  let ?t = "s\<lparr>pk_read_busy := True, pk_output := n, pk_receiver := Some h, pk_posted := 0, pk_reads := [(Rx_family, [])]\<rparr>"
  have start: "pk_run step (Ev_receive n h # Ev_start # reads) s = pk_run step reads ?t" for reads
    using assms(3-) by (simp add: pk_run.simps step_receive step_start receive_def start_receive_def read_exact_def case_prod_beta)
  have "\<exists>reads. (\<forall>ev\<in>set reads. \<exists>i k. ev = Ev_read i k) \<and> pk_run step reads ?t = ([Received h e p d],
    ?t\<lparr>pk_reads := [], pk_source := rest, pk_read_busy := False, pk_receiver := None, pk_output := 0\<rparr>)"
    by (rule parse_runs [OF assms(1)]) (use assms in simp_all)
  moreover have "?t\<lparr>pk_reads := [], pk_source := rest, pk_read_busy := False, pk_receiver := None, pk_output := 0\<rparr> =
      s\<lparr>pk_source := rest\<rparr>"
    using assms(4-) by (intro pk_state.equality) simp_all
  ultimately show ?thesis by (simp only: start)
qed

end

end
