(* ===== verification/Trojan_Packet.thy ===== *)
theory Trojan_Packet
  imports Datagram_Framing
begin

text \<open>
  \<^verbatim>\<open>TrojanPacketState\<close> of \<^verbatim>\<open>src/transport/trojan/packet_conn.cpp\<close>: datagrams over a Trojan stream.  A
  datagram is cut into frames of at most 8192 bytes, each an address, a length, CR LF and the payload; the
  frames queue up in \<open>tj_writes\<close> and one lower write is outstanding at a time.
\<close>

section \<open>The wire\<close>

definition kMaxPacketPayload :: nat where
  "kMaxPacketPayload = 8192"

definition encode_address :: "datagram_address \<Rightarrow> bytes res" where
  "encode_address = encode_with 0x01 0x04 0x03 Configuration ''Trojan packet domain length is invalid''"

definition trojan_frame :: "bytes \<Rightarrow> bytes \<Rightarrow> bytes" where
  "trojan_frame address chunk = address @ port_bytes (word_of_nat (length chunk)) @ [13, 10] @ chunk"

text \<open>The \<^verbatim>\<open>do\<close> loop of \<^verbatim>\<open>send\<close>: an empty datagram is one empty chunk.\<close>

function chunks :: "bytes \<Rightarrow> bytes list" where
  "chunks data =
     (let chunk = take kMaxPacketPayload data; behind = drop kMaxPacketPayload data in
      chunk # (if behind = [] then [] else chunks behind))"
  by auto
termination
  by (relation "measure length") (auto simp: kMaxPacketPayload_def)

declare chunks.simps [simp del]

section \<open>The state\<close>

record trojan = pk_state +
  tj_writes :: "bytes list"
  tj_send_size :: nat
  tj_in_flight :: bool  \<comment> \<open>a lower write has not completed\<close>

definition trojan_fresh :: "bytes \<Rightarrow> trojan" where
  "trojan_fresh source =
     \<lparr>pk_output = 0, pk_receiver = None, pk_sender = None, pk_send_busy = False, pk_write_busy = False,
      pk_read_busy = False, pk_closed = False, pk_reads = [], pk_posted = 0, pk_source = source,
      tj_writes = [], tj_send_size = 0, tj_in_flight = False\<rparr>"

section \<open>Sending\<close>

definition trojan_finish_send :: "pk_error option \<Rightarrow> nat \<Rightarrow> trojan \<Rightarrow> pk_action list \<times> trojan" where
  "trojan_finish_send e sent s =
     ((case pk_sender s of None \<Rightarrow> [] | Some handler \<Rightarrow> [Sent handler e sent]),
      s\<lparr>pk_write_busy := False, pk_send_busy := False, pk_sender := None\<rparr>)"

definition trojan_pump_write :: "trojan \<Rightarrow> pk_action list \<times> trojan" where
  "trojan_pump_write s =
     (if pk_closed s \<or> pk_write_busy s then ([], s)
      else case tj_writes s of
        [] \<Rightarrow> ([], s)
      | packet # writes \<Rightarrow>
          ([Stream_write packet], s\<lparr>tj_writes := writes, pk_write_busy := True, tj_in_flight := True\<rparr>))"

text \<open>The completion of a lower write.\<close>

definition trojan_written :: "pk_error option \<Rightarrow> trojan \<Rightarrow> pk_action list \<times> trojan" where
  "trojan_written e s =
     (if \<not> tj_in_flight s then ([], s)
      else let s = s\<lparr>pk_write_busy := False, tj_in_flight := False\<rparr> in
        (if tj_writes s \<noteq> [] then trojan_pump_write s
         else trojan_finish_send e (if e = None then tj_send_size s else 0) s))"

definition trojan_send :: "bytes \<Rightarrow> datagram_address \<Rightarrow> nat \<Rightarrow> trojan \<Rightarrow> pk_action list \<times> trojan" where
  "trojan_send data dest handler s =
     (if pk_closed s then ([Sent handler (Some Pk_aborted) 0], s)
      else if pk_send_busy s then ([Sent handler (Some Pk_already_started) 0], s)
      else if length data > 65535 then ([Sent handler (Some Pk_message_size) 0], s)
      else case encode_address dest of
        Inl e \<Rightarrow> ([Sent handler (Some Pk_protocol_error) 0], s)
      | Inr address \<Rightarrow>
          trojan_pump_write (s\<lparr>tj_writes := tj_writes s @ map (trojan_frame address) (chunks data),
            pk_send_busy := True, pk_sender := Some handler, tj_send_size := length data\<rparr>))"

definition trojan_cancel_send :: "trojan \<Rightarrow> pk_action list \<times> trojan" where
  "trojan_cancel_send s =
     (case pk_sender s of
        None \<Rightarrow> ([], s)
      | Some handler \<Rightarrow>
          ([Sent handler (Some Pk_aborted) 0], s\<lparr>pk_sender := None, pk_send_busy := False\<rparr>))"

section \<open>Receiving\<close>

text \<open>What follows from the content of a stage's buffer; \<open>n\<close> is the size of the caller's buffer.\<close>

definition trojan_payload :: "nat \<Rightarrow> datagram_address \<Rightarrow> nat \<Rightarrow> rx + received" where
  "trojan_payload n source len =
     (if len = 0 then Inr (None, [], source)
      else if len > n then rx_fail Pk_message_size
      else Inl (Rx_payload source len))"

definition trojan_stage :: "nat \<Rightarrow> rx \<Rightarrow> bytes \<Rightarrow> rx + received" where
  "trojan_stage n rx got =
     (case rx of
        Rx_length source \<Rightarrow>
          (let len = unat (port_of (got ! 0) (got ! 1)) in
           if got ! 2 \<noteq> 13 \<or> got ! 3 \<noteq> 10 then rx_fail Pk_protocol_error
           else if len > kMaxPacketPayload then rx_fail Pk_protocol_error
           else trojan_payload n source len)
      | Rx_payload source len \<Rightarrow> Inr (None, got, source)
      | _ \<Rightarrow> address_stage 0x01 0x04 0x03 rx got)"

text \<open>A handler parked while no receive is under way, or the other way round, would be lost or called empty.\<close>

definition trojan_cancel_receive :: "trojan \<Rightarrow> pk_action list \<times> trojan" where
  "trojan_cancel_receive s =
     (if \<not> pk_read_busy s then ([], s)
      else ([case pk_receiver s of None \<Rightarrow> Empty_call
               | Some handler \<Rightarrow> Received handler (Some Pk_aborted) [] default_datagram_address],
            s\<lparr>pk_receiver := None, pk_read_busy := False, pk_output := 0\<rparr>))"

definition trojan_close :: "trojan \<Rightarrow> pk_action list \<times> trojan" where
  "trojan_close s =
     (if pk_closed s then ([], s)
      else let s = s\<lparr>pk_closed := True\<rparr>;
               (received_as, s) =
                 (if pk_read_busy s then trojan_cancel_receive s else ([], s));
               (sent_as, s) = trojan_finish_send (Some Pk_aborted) 0 (s\<lparr>tj_writes := []\<rparr>)
           in (Stream_close # received_as @ sent_as, s))"

section \<open>Events\<close>

fun trojan_step :: "pk_event \<Rightarrow> trojan \<Rightarrow> pk_action list \<times> trojan" where
  "trojan_step (Ev_send data dest handler) s = trojan_send data dest handler s"
| "trojan_step (Ev_receive n handler) s = receive n handler s"
| "trojan_step Ev_start s = start_receive s"
| "trojan_step (Ev_read i n) s = pull 4 trojan_stage i n s"
| "trojan_step (Ev_read_failed i e) s = pull_failed i e s"
| "trojan_step (Ev_written e) s = trojan_written e s"
| "trojan_step Ev_cancel_send s = trojan_cancel_send s"
| "trojan_step Ev_cancel_receive s = trojan_cancel_receive s"
| "trojan_step Ev_close s = trojan_close s"

abbreviation trojan_run :: "pk_event list \<Rightarrow> trojan \<Rightarrow> pk_action list \<times> trojan" where
  "trojan_run \<equiv> pk_run trojan_step"

section \<open>The framing\<close>

fun trojan_frame_of :: "bytes \<times> datagram_address \<Rightarrow> bytes" where
  "trojan_frame_of (chunk, d) = (case encode_address d of Inl e \<Rightarrow> [] | Inr address \<Rightarrow> trojan_frame address chunk)"

fun trojan_wire_ok :: "bytes \<times> datagram_address \<Rightarrow> bool" where
  "trojan_wire_ok (chunk, d) \<longleftrightarrow> length chunk \<le> kMaxPacketPayload \<and> wire_address d \<and>
     (case encode_address d of Inl e \<Rightarrow> False | Inr address \<Rightarrow> True)"

lemma trojan_length_prefix:
  assumes "length chunk \<le> kMaxPacketPayload"
  shows "unat (word_of_nat (length chunk) :: u16) = length chunk"
  using assms by (simp add: kMaxPacketPayload_def unat_of_nat)

lemma trojan_payload_parses:
  assumes "length chunk \<le> kMaxPacketPayload" "length chunk \<le> n"
  shows "parses (rx_need 4) (trojan_stage n) (Rx_length d)
    ((port_bytes (word_of_nat (length chunk)) @ [13, 10]) @ chunk @ rest) (None, chunk, d) rest"
proof (cases "chunk = []")
  case True
  have "parses (rx_need 4) (trojan_stage n) (Rx_length d) ((port_bytes 0 @ [13, 10]) @ rest) (None, [], d) rest"
    by (rule parses.last) (simp_all add: trojan_stage_def trojan_payload_def nth_append port_of_def port_bytes_def)
  then show ?thesis using True by simp
next
  case False
  have stage: "trojan_stage n (Rx_length d) (port_bytes (word_of_nat (length chunk)) @ [13, 10]) =
      Inl (Rx_payload d (length chunk))"
    using assms False trojan_length_prefix [OF assms(1)]
    by (simp add: trojan_stage_def trojan_payload_def nth_append not_less)
  have "parses (rx_need 4) (trojan_stage n) (Rx_payload d (length chunk)) (chunk @ rest) (None, chunk, d) rest"
    by (rule parses.last) (use False in \<open>simp_all add: trojan_stage_def\<close>)
  then show ?thesis by (rule parses_step [rotated 3]) (use stage in simp_all)
qed

lemma trojan_frame_parses:
  assumes "trojan_wire_ok (chunk, d)" "length chunk \<le> n"
  shows "parses (rx_need 4) (trojan_stage n) Rx_family (trojan_frame_of (chunk, d) @ rest) (None, chunk, d) rest"
proof -
  obtain address where enc: "encode_address d = Inr address" and ok: "length chunk \<le> kMaxPacketPayload" "wire_address d"
    using assms(1) by (auto split: sum.splits)
  have "parses (rx_need 4) (trojan_stage n) Rx_family
      (address @ (port_bytes (word_of_nat (length chunk)) @ [13, 10]) @ chunk @ rest) (None, chunk, d) rest"
    by (rule address_parses [OF enc [unfolded encode_address_def] ok(2) _ _ _ _ trojan_payload_parses [OF ok(1) assms(2)]])
      (simp_all add: trojan_stage_def split: rx.split)
  then show ?thesis using enc by (simp add: trojan_frame_def)
qed

interpretation tj: datagram_framing 4 trojan_stage trojan_frame_of trojan_wire_ok kMaxPacketPayload
  by unfold_locales (use trojan_frame_parses in \<open>auto simp: kMaxPacketPayload_def\<close>)

lemma trojan_receiver_kept: "sending ev \<Longrightarrow> receiver_kept s (trojan_step ev s)"
  by (cases ev)
    (auto simp: receiver_kept_def trojan_send_def trojan_written_def trojan_cancel_send_def trojan_pump_write_def
      trojan_finish_send_def Let_def split: list.splits option.splits sum.splits)

interpretation tj: framed_machine 4 trojan_stage trojan_frame_of trojan_wire_ok kMaxPacketPayload trojan_step
  by unfold_locales (simp_all add: trojan_receiver_kept)

section \<open>No handler is lost\<close>

lemma trojan_finish_send_balanced: "handlers_ok s \<Longrightarrow> balanced [] [] s (trojan_finish_send e n s)"
  by (auto simp: balanced_def handlers_ok_def trojan_finish_send_def split: option.splits)

lemma trojan_pump_write_balanced: "handlers_ok s \<Longrightarrow> balanced [] [] s (trojan_pump_write s)"
  by (auto simp: balanced_def handlers_ok_def trojan_pump_write_def split: list.splits)

lemma trojan_send_balanced:
  assumes "handlers_ok s"
  shows "balanced [h] [] s (trojan_send data dest h s)"
  using assms
  by (auto simp: trojan_send_def balanced_def handlers_ok_def trojan_pump_write_def split: sum.splits list.splits)

lemma trojan_written_balanced: "handlers_ok s \<Longrightarrow> balanced [] [] s (trojan_written e s)"
  by (auto simp: trojan_written_def balanced_def handlers_ok_def trojan_pump_write_def trojan_finish_send_def Let_def
        split: list.splits option.splits)

lemma trojan_cancel_balanced:
  assumes "handlers_ok s"
  shows "balanced [] [] s (trojan_cancel_send s)" "balanced [] [] s (trojan_cancel_receive s)"
  using assms
  by (auto simp: balanced_def handlers_ok_def trojan_cancel_send_def trojan_cancel_receive_def split: option.splits)

lemma trojan_close_balanced: "handlers_ok s \<Longrightarrow> balanced [] [] s (trojan_close s)"
  by (auto simp: balanced_def handlers_ok_def trojan_close_def trojan_cancel_receive_def trojan_finish_send_def Let_def
        split: option.splits)

lemma trojan_step_balanced:
  "handlers_ok s \<Longrightarrow> balanced (sends_of ev) (receives_of ev) s (trojan_step ev s)"
  by (cases ev)
    (simp_all add: sends_of_def receives_of_def trojan_send_balanced receive_balanced start_receive_balanced
      pull_balanced pull_failed_balanced trojan_written_balanced trojan_cancel_balanced trojan_close_balanced)

lemma trojan_step_settled:
  assumes "handlers_ok s" "settled s"
  shows "settled (snd (trojan_step ev s))"
proof (cases "pk_closed s")
  case True
  then have "pk_sender s = None" "pk_receiver s = None" "\<not> pk_read_busy s"
    using assms by (auto simp: settled_def handlers_ok_def)
  then show ?thesis
    using True
    by (cases ev)
      (auto simp: settled_def trojan_send_def receive_def start_receive_def read_exact_def pull_def pull_failed_def
        trojan_written_def trojan_pump_write_def trojan_finish_send_def trojan_cancel_send_def
        trojan_cancel_receive_def trojan_close_def finish_receive_def Let_def split: prod.splits)
next
  case False
  have "pk_closed (snd (trojan_step ev s)) = pk_closed s" if "ev \<noteq> Ev_close"
    using that sending.simps trojan_receiver_kept [of ev s]
    by (cases ev)
      (auto simp: receiver_kept_def receive_def start_receive_def read_exact_def pull_def pull_failed_def
        trojan_cancel_receive_def finish_receive_def buffer_full_def Let_def split: prod.splits sum.splits)
  then show ?thesis
    using False assms
    by (cases "ev = Ev_close")
      (auto simp: settled_def handlers_ok_def trojan_close_def trojan_cancel_receive_def trojan_finish_send_def Let_def)
qed

interpretation tj: handler_machine trojan_step
  by unfold_locales (simp_all add: trojan_step_balanced trojan_step_settled)

text \<open>A Trojan packet connection loses no completion handler and calls none twice: after any sequence of
sends, receives, completions and failures of the lower stream, cancellations and close, the handlers called
together with the one still parked are exactly the handlers passed in, for sends and for receives, no empty
handler is called, and nothing stays parked once the connection is closed.\<close>

theorem trojan_handlers_once:
  "\<forall>as s. trojan_run evs (trojan_fresh source) = (as, s) \<longrightarrow>
     mset (sent_calls as) + parked (pk_sender s) = mset (concat (map sends_of evs)) \<and>
     mset (received_calls as) + parked (pk_receiver s) = mset (concat (map receives_of evs)) \<and>
     Empty_call \<notin> set as \<and>
     (pk_closed s \<longrightarrow> pk_sender s = None \<and> pk_receiver s = None)"
proof -
  have "handlers_ok (trojan_fresh source)" "settled (trojan_fresh source)"
    by (simp_all add: handlers_ok_def settled_def trojan_fresh_def)
  from tj.run_balanced [OF this(1), of evs] tj.run_settled [OF this, of evs] show ?thesis
    by (auto simp: balanced_def settled_def trojan_fresh_def)
qed

theorem trojan_handlers_once_witness:
  "let r = trojan_run [Ev_send [1, 2] (Dg_domain ''a'' 53) 7, Ev_receive 10 8, Ev_close, Ev_written None] (trojan_fresh []) in
   pk_closed (snd r) \<and> pk_sender (snd r) = None \<and> pk_receiver (snd r) = None \<and>
   mset (sent_calls (fst r)) = {#7#} \<and> mset (received_calls (fst r)) = {#8#}"
proof -
  define evs where "evs = [Ev_send [1, 2] (Dg_domain ''a'' 53) 7, Ev_receive 10 8, Ev_close, Ev_written None]"
  define r where "r = trojan_run evs (trojan_fresh [])"
  have closed: "pk_closed (snd r)"
    unfolding r_def evs_def by code_simp
  have passed: "concat (map sends_of evs) = [7]" "concat (map receives_of evs) = [8]"
    by (simp_all add: evs_def sends_of_def receives_of_def)
  have "trojan_run evs (trojan_fresh []) = (fst r, snd r)" by (simp add: r_def)
  from trojan_handlers_once [of evs "[]", rule_format, OF this] closed passed
  have "pk_closed (snd r) \<and> pk_sender (snd r) = None \<and> pk_receiver (snd r) = None \<and>
     mset (sent_calls (fst r)) = {#7#} \<and> mset (received_calls (fst r)) = {#8#}"
    by (elim conjE) simp
  then show ?thesis unfolding r_def evs_def Let_def .
qed

section \<open>What the peer receives\<close>

lemma concat_chunks [simp]: "concat (chunks data) = data"
proof (induction data rule: chunks.induct)
  case (1 data)
  show ?case
  proof (cases "drop kMaxPacketPayload data = []")
    case True
    then show ?thesis by (subst chunks.simps) simp
  next
    case False
    then show ?thesis using 1 [OF refl refl False] by (subst chunks.simps) (simp add: Let_def)
  qed
qed

lemma chunks_bound: "chunk \<in> set (chunks data) \<Longrightarrow> length chunk \<le> kMaxPacketPayload"
proof (induction data rule: chunks.induct)
  case (1 data)
  then show ?case by (subst (asm) chunks.simps) (auto simp: Let_def split: if_splits)
qed

text \<open>The datagrams of the sends that are admitted, in the pieces that go out.\<close>

definition trojan_admitted :: "pk_event \<Rightarrow> trojan \<Rightarrow> (bytes \<times> datagram_address) list" where
  "trojan_admitted ev s =
     (case ev of
        Ev_send data dest handler \<Rightarrow>
          (if pk_closed s \<or> pk_send_busy s \<or> length data > 65535 then []
           else case encode_address dest of
             Inl e \<Rightarrow> []
           | Inr address \<Rightarrow> map (\<lambda>chunk. (chunk, dest)) (chunks data))
      | _ \<Rightarrow> [])"

fun trojan_pieces :: "pk_event list \<Rightarrow> trojan \<Rightarrow> (bytes \<times> datagram_address) list" where
  "trojan_pieces [] s = []"
| "trojan_pieces (ev # evs) s = trojan_admitted ev s @ trojan_pieces evs (snd (trojan_step ev s))"

text \<open>What was written, what is queued and what a close threw away are the frames of these pieces.\<close>

definition trojan_flow :: "(bytes \<times> datagram_address) list \<Rightarrow> trojan \<Rightarrow> pk_action list \<times> trojan \<Rightarrow> bool" where
  "trojan_flow pieces s r \<longleftrightarrow> (\<exists>lost.
     written (fst r) @ concat (tj_writes (snd r)) @ lost = concat (tj_writes s) @ tj.wire pieces \<and>
     (pk_closed (snd r) \<or> lost = [])) \<and> (pk_closed (snd r) \<longrightarrow> tj_writes (snd r) = []) \<and>
   (pk_closed s \<longrightarrow> pk_closed (snd r))"

lemma trojan_flowI:
  assumes "written (fst r) @ concat (tj_writes (snd r)) @ lost = concat (tj_writes s) @ tj.wire pieces"
    and "pk_closed (snd r) \<or> lost = []" "pk_closed (snd r) \<longrightarrow> tj_writes (snd r) = []"
    and "pk_closed s \<longrightarrow> pk_closed (snd r)"
  shows "trojan_flow pieces s r"
  using assms unfolding trojan_flow_def by blast

lemma trojan_flow_kept:
  assumes "written (fst r) = []" "tj_writes (snd r) = tj_writes s" "pk_closed (snd r) = pk_closed s"
    and "pk_closed s \<longrightarrow> tj_writes s = []"
  shows "trojan_flow [] s r"
  using assms by (simp add: trojan_flow_def tj.wire_def)

lemma trojan_wire_map:
  "encode_address dest = Inr address \<Longrightarrow>
   tj.wire (map (\<lambda>chunk. (chunk, dest)) cs) = concat (map (trojan_frame address) cs)"
  by (induction cs) (simp_all add: tj.wire_def)

lemma trojan_finish_receive_kept:
  "written (fst (finish_receive e p d s)) = []" "tj_writes (snd (finish_receive e p d s)) = tj_writes s"
  "pk_closed (snd (finish_receive e p d s)) = pk_closed s"
  by (simp_all add: finish_receive_def split: option.splits)

lemma trojan_buffer_full_kept:
  "written (fst (buffer_full finish rx got s)) = []" "tj_writes (snd (buffer_full finish rx got s)) = tj_writes s"
  "pk_closed (snd (buffer_full finish rx got s)) = pk_closed s"
  by (simp_all add: buffer_full_def read_exact_def trojan_finish_receive_kept Let_def case_prod_beta split: sum.split)

lemma trojan_pull_failed_kept:
  "written (fst (pull_failed i e s)) = []" "tj_writes (snd (pull_failed i e s)) = tj_writes s"
  "pk_closed (snd (pull_failed i e s)) = pk_closed s"
  by (simp_all add: pull_failed_def trojan_finish_receive_kept Let_def)

lemma trojan_pull_kept:
  "written (fst (pull ls finish i n s)) = []" "tj_writes (snd (pull ls finish i n s)) = tj_writes s"
  "pk_closed (snd (pull ls finish i n s)) = pk_closed s"
  by (simp_all add: pull_def read_exact_def trojan_buffer_full_kept trojan_pull_failed_kept Let_def case_prod_beta)

lemma trojan_pump_write_flow:
  "written (fst (trojan_pump_write s)) @ concat (tj_writes (snd (trojan_pump_write s))) = concat (tj_writes s)"
  "pk_closed (snd (trojan_pump_write s)) = pk_closed s"
  by (simp_all add: trojan_pump_write_def split: list.splits)

lemma trojan_step_flow:
  assumes "pk_closed s \<longrightarrow> tj_writes s = []"
  shows "trojan_flow (trojan_admitted ev s) s (trojan_step ev s)"
proof (cases ev)
  case (Ev_send data dest h)
  then show ?thesis
    using assms
    by (auto simp: trojan_flow_def trojan_admitted_def trojan_send_def trojan_pump_write_flow trojan_wire_map
          simp flip: append_assoc split: sum.splits)
next
  case Ev_close
  then show ?thesis
    using assms
    by (auto simp: trojan_flow_def trojan_admitted_def trojan_close_def trojan_cancel_receive_def
          trojan_finish_send_def Let_def tj.wire_def split: option.splits)
next
  case (Ev_written e)
  then show ?thesis
    using assms
    by (auto simp: trojan_flow_def trojan_admitted_def trojan_written_def trojan_pump_write_def
          trojan_finish_send_def Let_def tj.wire_def split: option.splits list.splits)
next
  case (Ev_receive n h)
  then show ?thesis
    using assms by (auto intro!: trojan_flow_kept simp: trojan_admitted_def receive_def)
next
  case Ev_start
  then show ?thesis
    using assms by (auto intro!: trojan_flow_kept simp: trojan_admitted_def start_receive_def read_exact_def)
next
  case (Ev_read i n)
  then show ?thesis
    using assms trojan_pull_kept [of 4 trojan_stage i n s] by (auto intro!: trojan_flow_kept simp: trojan_admitted_def)
next
  case (Ev_read_failed i e)
  then show ?thesis
    using assms by (auto intro!: trojan_flow_kept simp: trojan_admitted_def trojan_pull_failed_kept)
next
  case Ev_cancel_send
  then show ?thesis
    using assms by (auto intro!: trojan_flow_kept simp: trojan_admitted_def trojan_cancel_send_def split: option.splits)
next
  case Ev_cancel_receive
  then show ?thesis
    using assms by (auto intro!: trojan_flow_kept simp: trojan_admitted_def trojan_cancel_receive_def split: option.splits)
qed

lemma trojan_run_flow:
  "(pk_closed s \<longrightarrow> tj_writes s = []) \<Longrightarrow> trojan_flow (trojan_pieces evs s) s (trojan_run evs s)"
proof (induction evs arbitrary: s)
  case Nil
  then show ?case by (simp add: trojan_flow_kept)
next
  case (Cons ev evs)
  let ?t = "snd (trojan_step ev s)" and ?u = "snd (trojan_run evs (snd (trojan_step ev s)))"
  obtain lost where first: "written (fst (trojan_step ev s)) @ concat (tj_writes ?t) @ lost =
        concat (tj_writes s) @ tj.wire (trojan_admitted ev s)" "pk_closed ?t \<or> lost = []"
      "pk_closed ?t \<longrightarrow> tj_writes ?t = []" "pk_closed s \<longrightarrow> pk_closed ?t"
    using trojan_step_flow [OF Cons.prems, of ev] by (auto simp: trojan_flow_def)
  have shut: "trojan_pieces evs u = [] \<and> written (fst (trojan_run evs u)) = []"
    if "pk_closed u" "tj_writes u = []" for u
    using that
  proof (induction evs arbitrary: u)
    case (Cons ev evs)
    have none: "trojan_admitted ev u = []"
      using Cons.prems by (auto simp: trojan_admitted_def split: pk_event.splits)
    have "trojan_flow [] u (trojan_step ev u)" using trojan_step_flow [of u ev] Cons.prems none by simp
    then have "written (fst (trojan_step ev u)) = []" "pk_closed (snd (trojan_step ev u))"
      "tj_writes (snd (trojan_step ev u)) = []"
      using Cons.prems by (auto simp: trojan_flow_def tj.wire_def)
    then show ?case using Cons.IH none by simp
  qed simp
  obtain lost' where behind: "written (fst (trojan_run evs ?t)) @ concat (tj_writes ?u) @ lost' =
        concat (tj_writes ?t) @ tj.wire (trojan_pieces evs ?t)" "pk_closed ?u \<or> lost' = []"
      "pk_closed ?u \<longrightarrow> tj_writes ?u = []" "pk_closed ?t \<longrightarrow> pk_closed ?u"
    using Cons.IH [of ?t] first(3) by (auto simp: trojan_flow_def)
  show ?case
  proof (cases "lost = []")
    case True
    then have "written (fst (trojan_step ev s)) @ concat (tj_writes ?t) = concat (tj_writes s) @ tj.wire (trojan_admitted ev s)"
      using first(1) by simp
    then have "written (fst (trojan_run (ev # evs) s)) @ concat (tj_writes (snd (trojan_run (ev # evs) s))) @ lost' =
        concat (tj_writes s) @ tj.wire (trojan_pieces (ev # evs) s)"
      using behind(1) by (simp only: pk_run_Cons calls_simps tj.wire_simps' trojan_pieces.simps append_assoc)
        (simp only: flip: append_assoc)
    then show ?thesis by (rule trojan_flowI) (use behind first(4) in auto)
  next
    case False
    then have closed: "pk_closed ?t" "tj_writes ?t = []" using first by auto
    note nothing = shut [OF this]
    then have "written (fst (trojan_run (ev # evs) s)) @ concat (tj_writes (snd (trojan_run (ev # evs) s))) @ lost =
        concat (tj_writes s) @ tj.wire (trojan_pieces (ev # evs) s)"
      using first(1) closed behind by simp
    then show ?thesis by (rule trojan_flowI) (use behind first closed in auto)
  qed
qed

lemma trojan_pieces_ok: "d \<in> set (trojan_pieces evs s) \<Longrightarrow> wire_address (snd d) \<Longrightarrow> trojan_wire_ok d"
proof (induction evs arbitrary: s)
  case (Cons ev evs)
  then show ?case
    by (auto simp: trojan_admitted_def chunks_bound split: pk_event.splits if_splits sum.splits)
qed simp

text \<open>C30: Two Trojan packet connections joined by a stream are transparent: whatever the sending side does, and
however the stream cuts its bytes, a receiver that neither cancels nor closes and reads into buffers of at
least 8192 bytes receives exactly the datagrams that were admitted (in pieces of at most 8192 bytes, each with
its address), in order, copies nothing past a buffer, and has received all of them once everything was written
and read.  IPv6 scopes do not travel.\<close>

theorem trojan_datagrams_transparent:
  assumes "\<forall>(p, d) \<in> set (trojan_pieces sends (trojan_fresh up)). wire_address d"
    and "written (fst (trojan_run sends (trojan_fresh up))) = source @ unsent"
    and "list_all (patient 8192) receives"
  shows "\<exists>later.
     trojan_pieces sends (trojan_fresh up) = received (fst (trojan_run receives (trojan_fresh source))) @ later \<and>
     list_all harmless (fst (trojan_run receives (trojan_fresh source))) \<and>
     (unsent = [] \<and> tj_writes (snd (trojan_run sends (trojan_fresh up))) = [] \<and>
      \<not> pk_closed (snd (trojan_run sends (trojan_fresh up))) \<and>
      pk_source (snd (trojan_run receives (trojan_fresh source))) = [] \<longrightarrow> later = [])"
proof -
  let ?pieces = "trojan_pieces sends (trojan_fresh up)" and ?s = "snd (trojan_run sends (trojan_fresh up))"
  have fresh: "tj_writes (trojan_fresh up) = []" "\<not> pk_closed (trojan_fresh up)"
    by (simp_all add: trojan_fresh_def)
  obtain lost where flow: "source @ unsent @ concat (tj_writes ?s) @ lost = tj.wire ?pieces" "pk_closed ?s \<or> lost = []"
    using trojan_run_flow [of "trojan_fresh up" sends] assms(2)
    by (auto simp: trojan_flow_def fresh)
  let ?rest = "unsent @ concat (tj_writes ?s) @ lost"
  have "tj.recv_at ?pieces ?rest (trojan_fresh source)"
    using assms(1) flow trojan_pieces_ok by (auto simp: tj.recv_at_def tj.recv_idle_def trojan_fresh_def)
  then have "tj.recv_ok ?pieces ?rest (trojan_run receives (trojan_fresh source))"
    using tj.recv_run assms(3) by (simp add: kMaxPacketPayload_def)
  then obtain later where later: "?pieces = received (fst (trojan_run receives (trojan_fresh source))) @ later"
      "tj.recv_at later ?rest (snd (trojan_run receives (trojan_fresh source)))"
      "list_all harmless (fst (trojan_run receives (trojan_fresh source)))"
    by (auto simp: tj.recv_ok_def)
  have "later = []" if "unsent = []" "tj_writes ?s = []" "\<not> pk_closed ?s"
      "pk_source (snd (trojan_run receives (trojan_fresh source))) = []"
    using tj.recv_exhausted [of later] later(2) that flow(2) by simp
  then show ?thesis using later by blast
qed

theorem trojan_datagrams_transparent_witness:
  "\<exists>later. [([1, 2], Dg_domain ''a'' 53)] = received (fst (trojan_run
     [Ev_receive 8192 1, Ev_start, Ev_read 0 9, Ev_read 0 9, Ev_read 0 9, Ev_read 0 1, Ev_read 0 9, Ev_read 0 9, Ev_read 0 9]
     (trojan_fresh [3, 1, 97, 0, 53, 0, 2, 13, 10, 1, 2]))) @ later \<and> later = []"
proof -
  let ?sends = "[Ev_send [1, 2] (Dg_domain ''a'' 53) 7, Ev_written None]"
  let ?receives = "[Ev_receive 8192 1, Ev_start, Ev_read 0 9, Ev_read 0 9, Ev_read 0 9, Ev_read 0 1, Ev_read 0 9,
    Ev_read 0 9, Ev_read 0 9]"
  have pieces: "trojan_pieces ?sends (trojan_fresh []) = [([1, 2], Dg_domain ''a'' 53)]" by code_simp
  have written: "written (fst (trojan_run ?sends (trojan_fresh []))) = [3, 1, 97, 0, 53, 0, 2, 13, 10, 1, 2] @ []"
    by code_simp
  have drained: "tj_writes (snd (trojan_run ?sends (trojan_fresh []))) = []"
    "\<not> pk_closed (snd (trojan_run ?sends (trojan_fresh [])))" by code_simp+
  have read: "pk_source (snd (trojan_run ?receives (trojan_fresh [3, 1, 97, 0, 53, 0, 2, 13, 10, 1, 2]))) = []"
    by code_simp
  have ok: "\<forall>(p, d) \<in> set (trojan_pieces ?sends (trojan_fresh [])). wire_address d" by (simp only: pieces) simp
  have patient: "list_all (patient 8192) ?receives" by simp
  from trojan_datagrams_transparent [OF ok written patient] pieces drained read show ?thesis by simp
qed

section \<open>The result of a send\<close>

definition trojan_idle :: "trojan \<Rightarrow> bool" where
  "trojan_idle s \<longleftrightarrow> \<not> pk_closed s \<and> \<not> pk_send_busy s \<and> \<not> pk_write_busy s \<and> \<not> tj_in_flight s \<and> tj_writes s = [] \<and>
     pk_sender s = None"

lemma trojan_drain:
  assumes "tj_writes s = frames" "length es = Suc (length frames)" "tj_in_flight s" "\<not> pk_closed s" "pk_sender s = Some h"
  shows "fst (trojan_run (map Ev_written es) s) =
      map Stream_write frames @ [Sent h (last es) (if last es = None then tj_send_size s else 0)] \<and>
    trojan_idle (snd (trojan_run (map Ev_written es) s))"
  using assms
proof (induction frames arbitrary: s es)
  case Nil
  then obtain e where "es = [e]" by (cases es) auto
  then show ?case
    using Nil by (simp add: trojan_written_def trojan_finish_send_def trojan_idle_def Let_def)
next
  case (Cons frame frames)
  then obtain e es' where es: "es = e # es'" "length es' = Suc (length frames)" by (cases es) auto
  let ?t = "s\<lparr>tj_writes := frames, pk_write_busy := True, tj_in_flight := True\<rparr>"
  have step: "trojan_written e s = ([Stream_write frame], ?t)"
    using Cons.prems by (simp add: trojan_written_def trojan_pump_write_def Let_def)
  have "es' \<noteq> []" using es by auto
  then show ?case using Cons.IH [of ?t es'] Cons.prems es step by simp
qed

text \<open>A send on an idle Trojan packet connection completes: once the lower stream has completed as many
writes as the datagram has pieces, the frames were written in order, one after the other's completion, the
send's handler was called exactly once and last, and the connection is idle again.  The result is that of the
last write, the errors of the earlier ones do not count.\<close>

theorem trojan_send_completes:
  assumes "trojan_idle s" "length data \<le> 65535" "encode_address dest = Inr address"
    and "length es = length (chunks data)"
  shows "let r = trojan_run (Ev_send data dest h # map Ev_written es) s in
     fst r = map Stream_write (map (trojan_frame address) (chunks data)) @
       [Sent h (last es) (if last es = None then length data else 0)] \<and>
     trojan_idle (snd r)"
proof -
  obtain c cs where cs: "chunks data = c # cs" by (subst (asm) chunks.simps) (auto simp: Let_def)
  let ?t = "s\<lparr>tj_writes := map (trojan_frame address) cs, pk_send_busy := True, pk_sender := Some h,
    tj_send_size := length data, pk_write_busy := True, tj_in_flight := True\<rparr>"
  have step: "trojan_send data dest h s = ([Stream_write (trojan_frame address c)], ?t)"
    using assms cs by (simp add: trojan_send_def trojan_idle_def trojan_pump_write_def not_less)
  show ?thesis
    using trojan_drain [of ?t "map (trojan_frame address) cs" es h] step assms cs
    by (simp add: trojan_idle_def Let_def)
qed

theorem trojan_send_completes_witness:
  "let r = trojan_run [Ev_send [1, 2] (Dg_domain ''a'' 53) 7, Ev_written None] (trojan_fresh []) in
     fst r = [Stream_write [3, 1, 97, 0, 53, 0, 2, 13, 10, 1, 2], Sent 7 None 2] \<and> trojan_idle (snd r)"
proof -
  have idle: "trojan_idle (trojan_fresh [])" by (simp add: trojan_idle_def trojan_fresh_def)
  have address: "encode_address (Dg_domain ''a'' 53) = Inr [3, 1, 97, 0, 53]" by code_simp
  have pieces: "chunks [1, 2] = [[1, 2]]" by code_simp
  have frame: "trojan_frame [3, 1, 97, 0, 53] [1, 2] = [3, 1, 97, 0, 53, 0, 2, 13, 10, 1, 2]" by code_simp
  have one: "length [None :: pk_error option] = length (chunks [1, 2])" using pieces by simp
  from trojan_send_completes [OF idle _ address one, of 7] pieces frame show ?thesis by (simp add: Let_def)
qed

section \<open>A datagram that does not fit\<close>

lemma trojan_truncated_parses:
  assumes "trojan_wire_ok (chunk, d)" "n < length chunk"
  shows "parses (rx_need 4) (trojan_stage n) Rx_family (trojan_frame_of (chunk, d) @ rest)
    (Some Pk_message_size, [], default_datagram_address) (chunk @ rest)"
proof -
  obtain address where enc: "encode_address d = Inr address" and ok: "length chunk \<le> kMaxPacketPayload" "wire_address d"
    using assms(1) by (auto split: sum.splits)
  have "parses (rx_need 4) (trojan_stage n) (Rx_length d)
    ((port_bytes (word_of_nat (length chunk)) @ [13, 10]) @ chunk @ rest)
    (Some Pk_message_size, [], default_datagram_address) (chunk @ rest)"
    by (rule parses.last)
      (use assms(2) ok trojan_length_prefix [OF ok(1)] in
        \<open>auto simp: trojan_stage_def trojan_payload_def nth_append not_less rx_fail_def Let_def\<close>)
  from address_parses [OF enc [unfolded encode_address_def] ok(2) _ _ _ _ this]
  have "parses (rx_need 4) (trojan_stage n) Rx_family
      (address @ (port_bytes (word_of_nat (length chunk)) @ [13, 10]) @ chunk @ rest)
      (Some Pk_message_size, [], default_datagram_address) (chunk @ rest)"
    by (simp add: trojan_stage_def split: rx.split)
  then show ?thesis using enc by (simp add: trojan_frame_def)
qed

text \<open>C31: A datagram larger than the caller's buffer fails with \<^verbatim>\<open>message_size\<close>, but its payload stays on the
stream and is read as the next frame: a peer whose datagram has the content of a frame makes the following
receive return a datagram the stream never carried, with any source address it likes.\<close>

theorem trojan_truncation_forges:
  assumes "trojan_wire_ok (trojan_frame_of (inner, forged), d)" "trojan_wire_ok (inner, forged)"
    and "0 < n" "n < length (trojan_frame_of (inner, forged))" "length inner \<le> m" "0 < m"
  shows "\<exists>reads reads'. (\<forall>ev\<in>set (reads @ reads'). \<exists>i k. ev = Ev_read i k) \<and>
    fst (trojan_run (Ev_receive n 1 # Ev_start # reads @ Ev_receive m 2 # Ev_start # reads')
      (trojan_fresh (trojan_frame_of (trojan_frame_of (inner, forged), d)))) =
    [Received 1 (Some Pk_message_size) [] default_datagram_address, Received 2 None inner forged]"
proof -
  let ?p = "trojan_frame_of (inner, forged)"
  let ?s = "trojan_fresh (trojan_frame_of (?p, d))" and ?t = "trojan_fresh ?p"
  have "parses (rx_need 4) (trojan_stage n) Rx_family (pk_source ?s)
      (Some Pk_message_size, [], default_datagram_address) ?p"
    using trojan_truncated_parses [OF assms(1,4), of "[]"] by (simp add: trojan_fresh_def del: trojan_frame_of.simps)
  then obtain reads where one: "\<forall>ev\<in>set reads. \<exists>i k. ev = Ev_read i k"
      "trojan_run (Ev_receive n 1 # Ev_start # reads) ?s =
        ([Received 1 (Some Pk_message_size) [] default_datagram_address], ?s\<lparr>pk_source := ?p\<rparr>)"
    using tj.receive_runs [of n ?s "Some Pk_message_size" "[]" default_datagram_address ?p 1] assms(3)
    by (auto simp: trojan_fresh_def simp del: trojan_frame_of.simps)
  have same: "?s\<lparr>pk_source := ?p\<rparr> = ?t" by (simp add: trojan_fresh_def del: trojan_frame_of.simps)
  have "parses (rx_need 4) (trojan_stage m) Rx_family (pk_source ?t) (None, inner, forged) []"
    using trojan_frame_parses [OF assms(2,5), of "[]"] by (simp add: trojan_fresh_def del: trojan_frame_of.simps)
  then obtain reads' where two: "\<forall>ev\<in>set reads'. \<exists>i k. ev = Ev_read i k"
      "trojan_run (Ev_receive m 2 # Ev_start # reads') ?t = ([Received 2 None inner forged], ?t\<lparr>pk_source := []\<rparr>)"
    using tj.receive_runs [of m ?t None inner forged "[]" 2] assms(5,6)
    by (auto simp: trojan_fresh_def simp del: trojan_frame_of.simps)
  have "fst (trojan_run ((Ev_receive n 1 # Ev_start # reads) @ (Ev_receive m 2 # Ev_start # reads')) ?s) =
      [Received 1 (Some Pk_message_size) [] default_datagram_address, Received 2 None inner forged]"
    by (simp only: pk_run_append one two same fst_conv snd_conv) (simp del: pk_run_Cons)
  then show ?thesis using one(1) two(1) by (intro exI [of _ reads] exI [of _ reads']) auto
qed

theorem trojan_truncation_forges_witness:
  "\<exists>reads reads'. (\<forall>ev\<in>set (reads @ reads'). \<exists>i k. ev = Ev_read i k) \<and>
    fst (trojan_run (Ev_receive 4 1 # Ev_start # reads @ Ev_receive 8192 2 # Ev_start # reads')
      (trojan_fresh ([3, 1, 97, 0, 80, 0, 11, 13, 10] @ [3, 1, 98, 0, 53, 0, 2, 13, 10, 1, 2]))) =
    [Received 1 (Some Pk_message_size) [] default_datagram_address, Received 2 None [1, 2] (Dg_domain ''b'' 53)]"
proof -
  have inner: "trojan_frame_of ([1, 2], Dg_domain ''b'' 53) = [3, 1, 98, 0, 53, 0, 2, 13, 10, 1, 2]" by code_simp
  have outer: "trojan_frame_of (trojan_frame_of ([1, 2], Dg_domain ''b'' 53), Dg_domain ''a'' 80) =
      [3, 1, 97, 0, 80, 0, 11, 13, 10] @ [3, 1, 98, 0, 53, 0, 2, 13, 10, 1, 2]" by code_simp
  have ok: "trojan_wire_ok (trojan_frame_of ([1, 2], Dg_domain ''b'' 53), Dg_domain ''a'' 80)"
    "trojan_wire_ok ([1, 2], Dg_domain ''b'' 53)" by code_simp+
  have size: "4 < length (trojan_frame_of ([1, 2], Dg_domain ''b'' 53))" by code_simp
  from trojan_truncation_forges [OF ok _ size, of 8192, unfolded outer] show ?thesis by (simp del: pk_run_Cons)
qed

section \<open>Cancelling a receive\<close>

text \<open>C32: A receive that is cancelled while its payload is being read and replaced by one with a smaller buffer
overruns that buffer: the old chain of reads finds the new handler, goes on, and copies its whole payload into
the new buffer.\<close>

theorem trojan_cancel_overruns:
  assumes "pk_reads s = (Rx_payload d len, got) # later" "length got < len" "len - length got \<le> length (pk_source s)"
    and "handlers_ok s" "pk_receiver s = Some h" "\<not> pk_closed s" "0 < n" "n < len"
  shows "let as = fst (trojan_run [Ev_cancel_receive, Ev_receive n h', Ev_read 0 len] s) in
    as = [Received h (Some Pk_aborted) [] default_datagram_address, Overrun len n,
      Received h' None (got @ take (len - length got) (pk_source s)) d]"
proof -
  have busy: "pk_read_busy s" using assms by (simp add: handlers_ok_def)
  have piece: "take (min len (len - length got)) (pk_source s) = take (len - length got) (pk_source s)"
    "take (len - length got) (pk_source s) \<noteq> []"
    using assms(2,3) by (auto simp: min_absorb2)
  show ?thesis
    using assms busy piece
    by (simp add: trojan_cancel_receive_def receive_def pull_def Let_def buffer_full_def trojan_stage_def
        finish_receive_def)
qed

theorem trojan_cancel_overruns_witness:
  "let s = snd (trojan_run [Ev_receive 8192 1, Ev_start, Ev_read 0 1, Ev_read 0 1, Ev_read 0 1, Ev_read 0 2, Ev_read 0 4]
       (trojan_fresh [3, 1, 97, 0, 53, 0, 2, 13, 10, 1, 2])) in
     fst (trojan_run [Ev_cancel_receive, Ev_receive 1 2, Ev_read 0 2] s) =
       [Received 1 (Some Pk_aborted) [] default_datagram_address, Overrun 2 1, Received 2 None [1, 2] (Dg_domain ''a'' 53)]"
proof -
  define s where "s = snd (trojan_run
     [Ev_receive 8192 1, Ev_start, Ev_read 0 1, Ev_read 0 1, Ev_read 0 1, Ev_read 0 2, Ev_read 0 4]
     (trojan_fresh [3, 1, 97, 0, 53, 0, 2, 13, 10, 1, 2]))"
  have s: "pk_reads s = [(Rx_payload (Dg_domain ''a'' 53) 2, [])]" "pk_source s = [1, 2]" "pk_receiver s = Some 1"
    "\<not> pk_closed s" "handlers_ok s"
    unfolding s_def by code_simp+
  from trojan_cancel_overruns [OF s(1) _ _ s(5,3,4), of 1 2]
  have "fst (trojan_run [Ev_cancel_receive, Ev_receive 1 2, Ev_read 0 2] s) =
       [Received 1 (Some Pk_aborted) [] default_datagram_address, Overrun 2 1, Received 2 None [1, 2] (Dg_domain ''a'' 53)]"
    using s(2) by (simp add: Let_def del: pk_run_Cons)
  then show ?thesis unfolding s_def Let_def .
qed

end
