(* ===== verification/Udp_Over_Tcp.thy ===== *)
theory Udp_Over_Tcp
  imports Datagram_Framing
begin

text \<open>
  \<^verbatim>\<open>UdpOverTcpState\<close> of \<^verbatim>\<open>src/transport/shadowsocks/udp_over_tcp.cpp\<close>: datagrams over the stream opened to the
  UDP-over-TCP destination.  A datagram is one frame, an address, a length and the payload; version 2 writes a
  request header in front of the first frame.  \<^verbatim>\<open>connect_mode_\<close> is never set, so a receive always starts with
  the address.
\<close>

section \<open>The wire\<close>

fun of_destination :: "destination \<Rightarrow> datagram_address" where
  "of_destination (Domain d p) = Dg_domain d p"
| "of_destination (Address a p) = Dg_address a p"

lemma of_to_destination [simp]: "of_destination (to_destination d) = d"
  by (cases d) simp_all

definition encode_destination :: "destination \<Rightarrow> bytes res" where
  "encode_destination d =
     encode_with 0 1 2 Configuration ''UDP-over-TCP domain length is invalid'' (of_destination d)"

definition encode_request_destination :: "destination \<Rightarrow> bytes res" where
  "encode_request_destination d =
     encode_with 1 4 3 Configuration ''UDP-over-TCP request domain length is invalid'' (of_destination d)"

definition uot_frame :: "bytes \<Rightarrow> bytes \<Rightarrow> bytes" where
  "uot_frame address data = address @ port_bytes (word_of_nat (length data)) @ data"

section \<open>The state\<close>

text \<open>A queued write is its bytes, the size of its datagram and whether it carries the request.\<close>

record uot = pk_state +
  ut_version2 :: bool
  ut_request_destination :: "destination option"
  ut_writes :: "(bytes \<times> nat \<times> bool) list"
  ut_request_written :: bool
  ut_request_pending :: bool
  ut_in_flight :: "(nat \<times> bool) option"

definition uot_fresh :: "bool \<Rightarrow> destination option \<Rightarrow> bytes \<Rightarrow> uot" where
  "uot_fresh version2 request source =
     \<lparr>pk_output = 0, pk_receiver = None, pk_sender = None, pk_send_busy = False, pk_write_busy = False,
      pk_read_busy = False, pk_closed = False, pk_reads = [], pk_posted = 0, pk_source = source,
      ut_version2 = version2, ut_request_destination = request, ut_writes = [], ut_request_written = False,
      ut_request_pending = False, ut_in_flight = None\<rparr>"

text \<open>The byte 0 stands for packet mode.\<close>

definition uot_request :: "'a uot_scheme \<Rightarrow> bytes option" where
  "uot_request s =
     (case ut_request_destination s of
        None \<Rightarrow> None
      | Some d \<Rightarrow> (case encode_request_destination d of Inl e \<Rightarrow> None | Inr address \<Rightarrow> Some (0 # address)))"

section \<open>Sending\<close>

definition uot_finish_send :: "pk_error option \<Rightarrow> nat \<Rightarrow> uot \<Rightarrow> pk_action list \<times> uot" where
  "uot_finish_send e sent s =
     ((case pk_sender s of None \<Rightarrow> [] | Some handler \<Rightarrow> [Sent handler e sent]),
      s\<lparr>pk_send_busy := False, pk_sender := None\<rparr>)"

definition uot_start_write :: "bytes \<Rightarrow> nat \<Rightarrow> bool \<Rightarrow> uot \<Rightarrow> pk_action list \<times> uot" where
  "uot_start_write packet sent includes_request s =
     ([Stream_write packet], s\<lparr>pk_write_busy := True, ut_in_flight := Some (sent, includes_request)\<rparr>)"

text \<open>
  The rest of \<^verbatim>\<open>pump_write\<close>, over the queue: a frame whose request cannot be encoded fails the parked send
  and the next one is tried.
\<close>

fun uot_pump :: "(bytes \<times> nat \<times> bool) list \<Rightarrow> uot \<Rightarrow> pk_action list \<times> uot" where
  "uot_pump [] s = ([], s)"
| "uot_pump ((packet, sent, includes_request) # writes) s =
     (let s = s\<lparr>ut_writes := writes\<rparr> in
      (if ut_version2 s \<and> \<not> ut_request_written s \<and> \<not> includes_request
       then case uot_request s of
         None \<Rightarrow>
           (let (as, s) = uot_finish_send (Some Pk_protocol_error) 0 s; (bs, s) = uot_pump writes s in (as @ bs, s))
       | Some request \<Rightarrow> uot_start_write (request @ packet) sent True (s\<lparr>ut_request_pending := True\<rparr>)
       else uot_start_write packet sent includes_request s))"

definition uot_pump_write :: "uot \<Rightarrow> pk_action list \<times> uot" where
  "uot_pump_write s = (if pk_closed s \<or> pk_write_busy s then ([], s) else uot_pump (ut_writes s) s)"

definition uot_send :: "bytes \<Rightarrow> datagram_address \<Rightarrow> nat \<Rightarrow> uot \<Rightarrow> pk_action list \<times> uot" where
  "uot_send data dest handler s =
     (if pk_closed s then ([Sent handler (Some Pk_aborted) 0], s)
      else if pk_send_busy s then ([Sent handler (Some Pk_already_started) 0], s)
      else if length data > 65535 then ([Sent handler (Some Pk_message_size) 0], s)
      else case encode_destination (to_destination dest) of
        Inl e \<Rightarrow> ([Sent handler (Some Pk_protocol_error) 0], s)
      | Inr address \<Rightarrow>
          (let includes_request = (\<not> ut_request_written s \<and> \<not> ut_request_pending s \<and> ut_version2 s) in
           case (if includes_request then uot_request s else Some []) of
             None \<Rightarrow> ([Sent handler (Some Pk_protocol_error) 0], s)
           | Some request \<Rightarrow>
               uot_pump_write (s\<lparr>ut_request_pending := ut_request_pending s \<or> includes_request,
                 pk_send_busy := True, pk_sender := Some handler,
                 ut_writes := ut_writes s @ [(request @ uot_frame address data, length data, includes_request)]\<rparr>)))"

text \<open>The completion of a lower write: its flags, the parked send, and the next frame.\<close>

definition uot_retire :: "bool \<Rightarrow> pk_error option \<Rightarrow> uot \<Rightarrow> uot" where
  "uot_retire includes_request e s =
     (let s = s\<lparr>pk_write_busy := False, ut_in_flight := None\<rparr> in
      if includes_request then s\<lparr>ut_request_pending := False, ut_request_written := (e = None)\<rparr> else s)"

definition uot_written :: "pk_error option \<Rightarrow> uot \<Rightarrow> pk_action list \<times> uot" where
  "uot_written e s =
     (case ut_in_flight s of
        None \<Rightarrow> ([], s)
      | Some (sent, includes_request) \<Rightarrow>
          (let (as, s) = uot_finish_send e (if e = None then sent else 0) (uot_retire includes_request e s);
               (bs, s) = uot_pump_write s
           in (as @ bs, s)))"

definition uot_cancel_send :: "uot \<Rightarrow> pk_action list \<times> uot" where
  "uot_cancel_send s =
     (case pk_sender s of
        None \<Rightarrow> ([], s)
      | Some handler \<Rightarrow>
          ([Sent handler (Some Pk_aborted) 0], s\<lparr>pk_sender := None, pk_send_busy := False\<rparr>))"

section \<open>Receiving\<close>

definition uot_stage :: "nat \<Rightarrow> rx \<Rightarrow> bytes \<Rightarrow> rx + received" where
  "uot_stage n rx got =
     (case rx of
        Rx_length source \<Rightarrow> Inl (Rx_payload source (unat (port_of (got ! 0) (got ! 1))))
      | Rx_payload source len \<Rightarrow> if length got > n then rx_fail Pk_message_size else Inr (None, got, source)
      | _ \<Rightarrow> address_stage 0 1 2 rx got)"

definition uot_cancel_receive :: "uot \<Rightarrow> pk_action list \<times> uot" where
  "uot_cancel_receive s =
     (case pk_receiver s of
        None \<Rightarrow> ([], s)
      | Some handler \<Rightarrow>
          ([Received handler (Some Pk_aborted) [] default_datagram_address],
           s\<lparr>pk_receiver := None, pk_read_busy := False, pk_output := 0\<rparr>))"

definition uot_close :: "uot \<Rightarrow> pk_action list \<times> uot" where
  "uot_close s =
     (if pk_closed s then ([], s)
      else let s = s\<lparr>pk_closed := True\<rparr>;
               received_as = (if pk_read_busy s
                 then [case pk_receiver s of None \<Rightarrow> Empty_call
                         | Some handler \<Rightarrow> Received handler (Some Pk_aborted) [] default_datagram_address] else []);
               s = (if pk_read_busy s then s\<lparr>pk_read_busy := False, pk_receiver := None\<rparr> else s);
               (sent_as, s) = uot_cancel_send s
           in (Stream_close # received_as @ sent_as, s\<lparr>ut_writes := []\<rparr>))"

section \<open>Events\<close>

fun uot_step :: "pk_event \<Rightarrow> uot \<Rightarrow> pk_action list \<times> uot" where
  "uot_step (Ev_send data dest handler) s = uot_send data dest handler s"
| "uot_step (Ev_receive n handler) s = receive n handler s"
| "uot_step Ev_start s = start_receive s"
| "uot_step (Ev_read i n) s = pull 2 uot_stage i n s"
| "uot_step (Ev_read_failed i e) s = pull_failed i e s"
| "uot_step (Ev_written e) s = uot_written e s"
| "uot_step Ev_cancel_send s = uot_cancel_send s"
| "uot_step Ev_cancel_receive s = uot_cancel_receive s"
| "uot_step Ev_close s = uot_close s"

abbreviation uot_run :: "pk_event list \<Rightarrow> uot \<Rightarrow> pk_action list \<times> uot" where
  "uot_run \<equiv> pk_run uot_step"

section \<open>The framing\<close>

fun uot_frame_of :: "bytes \<times> datagram_address \<Rightarrow> bytes" where
  "uot_frame_of (data, d) =
     (case encode_destination (to_destination d) of Inl e \<Rightarrow> [] | Inr address \<Rightarrow> uot_frame address data)"

text \<open>An empty datagram does not come back: see below.\<close>

fun uot_wire_ok :: "bytes \<times> datagram_address \<Rightarrow> bool" where
  "uot_wire_ok (data, d) \<longleftrightarrow> data \<noteq> [] \<and> length data \<le> 65535 \<and> wire_address d \<and>
     (case encode_destination (to_destination d) of Inl e \<Rightarrow> False | Inr address \<Rightarrow> True)"

lemma uot_length_prefix: "length data \<le> 65535 \<Longrightarrow> unat (word_of_nat (length data) :: u16) = length data"
  by (simp add: unat_of_nat)

text \<open>A frame is read to its end whether it fits into the buffer or not.\<close>

lemma uot_frame_parses:
  assumes "uot_wire_ok (data, d)"
  shows "parses (rx_need 2) (uot_stage n) Rx_family (uot_frame_of (data, d) @ rest)
    (if length data \<le> n then (None, data, d) else (Some Pk_message_size, [], default_datagram_address)) rest"
    (is "parses _ _ _ _ ?r _")
proof -
  obtain address where enc: "encode_destination (to_destination d) = Inr address"
    and ok: "data \<noteq> []" "length data \<le> 65535" "wire_address d"
    using assms by (auto split: sum.splits)
  have enc': "encode_with 0 1 2 Configuration ''UDP-over-TCP domain length is invalid'' d = Inr address"
    using enc by (simp add: encode_destination_def)
  have "parses (rx_need 2) (uot_stage n) (Rx_payload d (length data)) (data @ rest) ?r rest"
    by (rule parses.last) (use ok in \<open>simp_all add: uot_stage_def rx_fail_def\<close>)
  then have "parses (rx_need 2) (uot_stage n) (Rx_length d)
      (port_bytes (word_of_nat (length data)) @ data @ rest) ?r rest"
    by (rule parses_step [rotated 3])
      (use uot_length_prefix [OF ok(2)] in \<open>simp_all add: uot_stage_def\<close>)
  from address_parses [OF enc' ok(3) _ _ _ _ this] show ?thesis
    using enc by (simp add: uot_frame_def uot_stage_def split: rx.split)
qed

interpretation ut: datagram_framing 2 uot_stage uot_frame_of uot_wire_ok 65535
proof unfold_locales
  fix p d n and rest :: bytes
  assume "uot_wire_ok (p, d)" "length p \<le> n"
  then show "parses (rx_need 2) (uot_stage n) Rx_family (uot_frame_of (p, d) @ rest) (None, p, d) rest"
    using uot_frame_parses [of p d n rest] by simp
qed simp_all

section \<open>No handler is lost\<close>

lemma uot_finish_send_balanced: "handlers_ok s \<Longrightarrow> balanced [] [] s (uot_finish_send e n s)"
  by (auto simp: balanced_def handlers_ok_def uot_finish_send_def split: option.splits)

text \<open>Pumping the queue touches the sending side only.\<close>

definition sender_only :: "uot \<Rightarrow> pk_action list \<times> uot \<Rightarrow> bool" where
  "sender_only s r \<longleftrightarrow> receiver_kept s r \<and> received_calls (fst r) = []"

lemma uot_pump_sender_only: "sender_only s (uot_pump ws s)"
proof (induction ws arbitrary: s)
  case Nil
  then show ?case by (simp add: sender_only_def receiver_kept_def)
next
  case (Cons w ws)
  obtain packet sent inc where w: "w = (packet, sent, inc)" by (cases w)
  let ?s = "snd (uot_finish_send (Some Pk_protocol_error) 0 (s\<lparr>ut_writes := ws\<rparr>))"
  show ?case
    using Cons.IH [of ?s] w
    by (auto simp: sender_only_def receiver_kept_def uot_start_write_def uot_finish_send_def Let_def case_prod_beta
          split: option.splits)
qed

lemma uot_pump_balanced: "handlers_ok s \<Longrightarrow> balanced [] [] s (uot_pump ws s)"
proof (induction ws arbitrary: s)
  case Nil
  then show ?case by (simp add: balanced_same)
next
  case (Cons w ws)
  obtain packet sent inc where w: "w = (packet, sent, inc)" by (cases w)
  let ?s = "snd (uot_finish_send (Some Pk_protocol_error) 0 (s\<lparr>ut_writes := ws\<rparr>))"
  have "handlers_ok ?s" using Cons.prems by (auto simp: handlers_ok_def uot_finish_send_def)
  from Cons.IH [OF this] Cons.prems w show ?case
    by (auto simp: balanced_def handlers_ok_def uot_start_write_def uot_finish_send_def Let_def case_prod_beta
          split: option.splits)
qed

lemma uot_pump_write_balanced: "handlers_ok s \<Longrightarrow> balanced [] [] s (uot_pump_write s)"
  by (simp add: uot_pump_write_def uot_pump_balanced balanced_same)

lemma balanced_trans:
  assumes "balanced ss rs s (as, t)" "balanced [] [] t (bs, u)"
  shows "balanced ss rs s (as @ bs, u)"
  using assms unfolding balanced_def by (auto simp: ac_simps) (metis add.assoc add.commute)+

lemma uot_send_balanced:
  assumes "handlers_ok s"
  shows "balanced [h] [] s (uot_send data dest h s)"
proof -
  have pump: "balanced [h] [] s (uot_pump_write t)"
    if "pk_sender t = Some h" "pk_sender s = None" "pk_receiver t = pk_receiver s" "handlers_ok t" for t
    using uot_pump_write_balanced [OF that(4)] that by (simp add: balanced_def)
  show ?thesis
    using assms
    by (auto simp: uot_send_def Let_def split: sum.splits option.splits intro!: pump)
      (auto simp: balanced_def handlers_ok_def)
qed

lemma uot_written_balanced:
  assumes "handlers_ok s"
  shows "balanced [] [] s (uot_written e s)"
proof (cases "ut_in_flight s")
  case None
  then show ?thesis using assms by (simp add: uot_written_def balanced_same)
next
  case (Some f)
  obtain sent inc where f: "f = (sent, inc)" by (cases f)
  let ?t = "uot_retire inc e s"
  let ?r = "uot_finish_send e (if e = None then sent else 0) ?t"
  have retired: "handlers_ok ?t" "pk_sender ?t = pk_sender s" "pk_receiver ?t = pk_receiver s"
    using assms by (simp_all add: handlers_ok_def uot_retire_def Let_def)
  have first: "balanced [] [] s (fst ?r, snd ?r)"
    using balanced_from [OF uot_finish_send_balanced [OF retired(1)] retired(2,3)] by simp
  then have "handlers_ok (snd ?r)" by (simp add: balanced_def)
  from uot_pump_write_balanced [OF this]
  have "balanced [] [] s (fst ?r @ fst (uot_pump_write (snd ?r)), snd (uot_pump_write (snd ?r)))"
    by (intro balanced_trans [OF first]) simp
  then show ?thesis using Some f by (simp only: uot_written_def Let_def case_prod_beta option.case prod.sel)
qed

lemma uot_cancel_balanced:
  assumes "handlers_ok s"
  shows "balanced [] [] s (uot_cancel_send s)" "balanced [] [] s (uot_cancel_receive s)" "balanced [] [] s (uot_close s)"
  using assms
  by (auto simp: balanced_def handlers_ok_def uot_cancel_send_def uot_cancel_receive_def uot_close_def Let_def
        split: option.splits)

lemma uot_step_balanced:
  "handlers_ok s \<Longrightarrow> balanced (sends_of ev) (receives_of ev) s (uot_step ev s)"
  by (cases ev)
    (simp_all add: sends_of_def receives_of_def uot_send_balanced receive_balanced start_receive_balanced
      pull_balanced pull_failed_balanced uot_written_balanced uot_cancel_balanced)

lemma uot_pump_write_sender_only: "sender_only s (uot_pump_write s)"
  using uot_pump_sender_only [of s] by (simp add: uot_pump_write_def) (simp add: sender_only_def receiver_kept_def)

lemma sender_only_from:
  "sender_only t r \<Longrightarrow> receiver_kept s ([], t) \<Longrightarrow> sender_only s r"
  by (simp add: sender_only_def receiver_kept_def)

lemma uot_receiver_kept: "sending ev \<Longrightarrow> receiver_kept s (uot_step ev s)"
proof (cases ev)
  case (Ev_send data dest h)
  have "receiver_kept s (uot_pump_write t)" if "receiver_kept s ([], t)" for t
    using sender_only_from [OF uot_pump_write_sender_only that] by (simp add: sender_only_def)
  then show ?thesis
    using Ev_send
    by (auto simp: uot_send_def Let_def split: sum.splits option.splits) (simp_all add: receiver_kept_def)
next
  case (Ev_written e)
  show ?thesis
  proof (cases "ut_in_flight s")
    case None
    then show ?thesis using Ev_written by (simp add: uot_written_def receiver_kept_def)
  next
    case (Some f)
    obtain sent inc where f: "f = (sent, inc)" by (cases f)
    let ?r = "uot_finish_send e (if e = None then sent else 0) (uot_retire inc e s)"
    have kept: "receiver_kept s ([], uot_retire inc e s)"
      by (simp add: receiver_kept_def uot_retire_def Let_def)
    then have "receiver_kept s ?r"
      by (auto simp: receiver_kept_def uot_finish_send_def split: option.splits)
    then have "receiver_kept s (fst ?r @ fst (uot_pump_write (snd ?r)), snd (uot_pump_write (snd ?r)))"
      using uot_pump_write_sender_only [of "snd ?r"] by (simp add: sender_only_def receiver_kept_def)
    then show ?thesis
      using Some f Ev_written by (simp only: uot_written_def Let_def case_prod_beta option.case prod.sel uot_step.simps)
  qed
qed (auto simp: uot_cancel_send_def receiver_kept_def split: option.splits)

interpretation ut: framed_machine 2 uot_stage uot_frame_of uot_wire_ok 65535 uot_step
  by unfold_locales (simp_all add: uot_receiver_kept)

lemma uot_step_settled:
  assumes "handlers_ok s" "settled s"
  shows "settled (snd (uot_step ev s))"
proof (cases "pk_closed s")
  case True
  then have none: "pk_sender s = None" "pk_receiver s = None" "\<not> pk_read_busy s"
    using assms by (auto simp: settled_def handlers_ok_def)
  have pump: "uot_pump_write t = ([], t)" if "pk_closed t" for t
    using that by (simp add: uot_pump_write_def)
  show ?thesis
    using True none
    by (cases ev)
      (auto simp: settled_def uot_send_def receive_def start_receive_def read_exact_def pull_def pull_failed_def
        uot_written_def uot_retire_def uot_finish_send_def uot_cancel_send_def pump
        uot_cancel_receive_def uot_close_def finish_receive_def Let_def split: prod.splits option.splits)
next
  case False
  have "pk_closed (snd (uot_step ev s)) = pk_closed s" if "ev \<noteq> Ev_close"
    using that sending.simps uot_receiver_kept [of ev s]
    by (cases ev)
      (auto simp: receiver_kept_def receive_def start_receive_def read_exact_def pull_def pull_failed_def
        uot_cancel_receive_def finish_receive_def buffer_full_def Let_def split: prod.splits sum.splits option.splits)
  then show ?thesis
    using False assms
    by (cases "ev = Ev_close")
      (auto simp: settled_def handlers_ok_def uot_close_def uot_cancel_send_def Let_def split: option.splits)
qed

interpretation ut: handler_machine uot_step
  by unfold_locales (simp_all add: uot_step_balanced uot_step_settled)

text \<open>A UDP-over-TCP connection loses no completion handler and calls none twice: after any sequence of
sends, receives, completions and failures of the lower stream, cancellations and close, the handlers called
together with the one still parked are exactly the handlers passed in, for sends and for receives, no empty
handler is called, and nothing stays parked once the connection is closed.\<close>

theorem uot_handlers_once:
  "\<forall>as s. uot_run evs (uot_fresh version2 request source) = (as, s) \<longrightarrow>
     mset (sent_calls as) + parked (pk_sender s) = mset (concat (map sends_of evs)) \<and>
     mset (received_calls as) + parked (pk_receiver s) = mset (concat (map receives_of evs)) \<and>
     Empty_call \<notin> set as \<and>
     (pk_closed s \<longrightarrow> pk_sender s = None \<and> pk_receiver s = None)"
proof -
  let ?s = "uot_fresh version2 request source"
  have "handlers_ok ?s" "settled ?s"
    by (simp_all add: handlers_ok_def settled_def uot_fresh_def)
  from ut.run_balanced [OF this(1), of evs] ut.run_settled [OF this, of evs] show ?thesis
    by (auto simp: balanced_def settled_def uot_fresh_def)
qed

theorem uot_handlers_once_witness:
  "let r = uot_run [Ev_send [1, 2] (Dg_domain ''a'' 53) 7, Ev_receive 10 8, Ev_close, Ev_written None]
       (uot_fresh False None []) in
   pk_closed (snd r) \<and> pk_sender (snd r) = None \<and> pk_receiver (snd r) = None \<and>
   mset (sent_calls (fst r)) = {#7#} \<and> mset (received_calls (fst r)) = {#8#}"
proof -
  define evs where "evs = [Ev_send [1, 2] (Dg_domain ''a'' 53) 7, Ev_receive 10 8, Ev_close, Ev_written None]"
  define r where "r = uot_run evs (uot_fresh False None [])"
  have closed: "pk_closed (snd r)"
    unfolding r_def evs_def by code_simp
  have passed: "concat (map sends_of evs) = [7]" "concat (map receives_of evs) = [8]"
    by (simp_all add: evs_def sends_of_def receives_of_def)
  have "uot_run evs (uot_fresh False None []) = (fst r, snd r)" by (simp add: r_def)
  from uot_handlers_once [of evs False None "[]", rule_format, OF this] closed passed
  have "pk_closed (snd r) \<and> pk_sender (snd r) = None \<and> pk_receiver (snd r) = None \<and>
     mset (sent_calls (fst r)) = {#7#} \<and> mset (received_calls (fst r)) = {#8#}"
    by (elim conjE) simp
  then show ?thesis unfolding r_def evs_def Let_def .
qed

section \<open>What the peer receives\<close>

definition uot_admitted :: "pk_event \<Rightarrow> uot \<Rightarrow> (bytes \<times> datagram_address) list" where
  "uot_admitted ev s =
     (case ev of
        Ev_send data dest handler \<Rightarrow>
          (if pk_closed s \<or> pk_send_busy s \<or> length data > 65535 then []
           else case encode_destination (to_destination dest) of
             Inl e \<Rightarrow> []
           | Inr address \<Rightarrow>
               (if ut_version2 s \<and> \<not> ut_request_written s \<and> \<not> ut_request_pending s \<and> uot_request s = None then []
                else [(data, dest)]))
      | _ \<Rightarrow> [])"

fun uot_datagrams :: "pk_event list \<Rightarrow> uot \<Rightarrow> (bytes \<times> datagram_address) list" where
  "uot_datagrams [] s = []"
| "uot_datagrams (ev # evs) s = uot_admitted ev s @ uot_datagrams evs (snd (uot_step ev s))"

text \<open>The lower stream fails no write and the owner does not close.\<close>

fun steady :: "pk_event \<Rightarrow> bool" where
  "steady Ev_close \<longleftrightarrow> False"
| "steady (Ev_written e) \<longleftrightarrow> e = None"
| "steady _ \<longleftrightarrow> True"

abbreviation uot_requested :: "uot \<Rightarrow> bool" where
  "uot_requested s \<equiv> ut_request_written s \<or> ut_request_pending s"

text \<open>
  While nothing fails the request is in flight or behind: the queue holds plain frames only, and it is
  empty while no write is outstanding.
\<close>

definition uot_ok :: "uot \<Rightarrow> bool" where
  "uot_ok s \<longleftrightarrow> \<not> pk_closed s \<and> (pk_write_busy s \<longleftrightarrow> ut_in_flight s \<noteq> None) \<and>
     (\<not> pk_write_busy s \<longrightarrow> ut_writes s = []) \<and> (\<forall>w \<in> set (ut_writes s). \<not> snd (snd w)) \<and>
     (ut_version2 s \<longrightarrow> (ut_request_pending s \<longrightarrow> (\<exists>n. ut_in_flight s = Some (n, True))) \<and>
       (\<not> ut_request_pending s \<longrightarrow> \<not> ut_request_written s \<longrightarrow> ut_in_flight s = None) \<and>
       (\<forall>n. ut_in_flight s = Some (n, False) \<longrightarrow> ut_request_written s \<and> \<not> ut_request_pending s)) \<and>
     (\<not> ut_version2 s \<longrightarrow> (\<forall>n. ut_in_flight s \<noteq> Some (n, True)) \<and> \<not> uot_requested s)"

definition uot_flow :: "(bytes \<times> datagram_address) list \<Rightarrow> uot \<Rightarrow> pk_action list \<times> uot \<Rightarrow> bool" where
  "uot_flow sent s r \<longleftrightarrow>
     written (fst r) @ concat (map fst (ut_writes (snd r))) =
       concat (map fst (ut_writes s)) @
       (if uot_requested (snd r) \<and> \<not> uot_requested s then the (uot_request s) else []) @ ut.wire sent \<and>
     (uot_requested (snd r) \<longleftrightarrow> uot_requested s \<or> ut_version2 s \<and> sent \<noteq> []) \<and>
     ut_version2 (snd r) = ut_version2 s \<and> uot_request (snd r) = uot_request s \<and> uot_ok (snd r)"

lemma uot_flow_kept:
  assumes "written (fst r) = []" "ut_writes (snd r) = ut_writes s" "ut_request_written (snd r) = ut_request_written s"
    "ut_request_pending (snd r) = ut_request_pending s" "ut_version2 (snd r) = ut_version2 s"
    "ut_request_destination (snd r) = ut_request_destination s" "pk_closed (snd r) = pk_closed s"
    "pk_write_busy (snd r) = pk_write_busy s" "ut_in_flight (snd r) = ut_in_flight s" "uot_ok s"
  shows "uot_flow [] s r"
proof -
  have "uot_ok (snd r) = uot_ok s" by (simp only: uot_ok_def assms)
  then show ?thesis using assms by (auto simp: uot_flow_def uot_request_def)
qed

lemma uot_kept:
  assumes "sending ev = False" "ev \<noteq> Ev_close"
  shows "written (fst (uot_step ev s)) = []" "ut_writes (snd (uot_step ev s)) = ut_writes s"
    "ut_request_written (snd (uot_step ev s)) = ut_request_written s"
    "ut_request_pending (snd (uot_step ev s)) = ut_request_pending s"
    "ut_version2 (snd (uot_step ev s)) = ut_version2 s"
    "ut_request_destination (snd (uot_step ev s)) = ut_request_destination s"
    "pk_closed (snd (uot_step ev s)) = pk_closed s" "pk_write_busy (snd (uot_step ev s)) = pk_write_busy s"
    "ut_in_flight (snd (uot_step ev s)) = ut_in_flight s"
  using assms
  by (cases ev;
      auto simp: receive_def start_receive_def read_exact_def pull_def pull_failed_def buffer_full_def
        finish_receive_def uot_cancel_receive_def Let_def split: prod.splits sum.splits option.splits)+

lemma uot_pump_plain:
  "(ut_version2 s \<and> \<not> ut_request_written s \<longrightarrow> includes) \<Longrightarrow> uot_pump ((packet, n, includes) # ws) s =
    ([Stream_write packet], s\<lparr>ut_writes := ws, pk_write_busy := True, ut_in_flight := Some (n, includes)\<rparr>)"
  by (auto simp: uot_start_write_def Let_def)

lemma uot_send_flow:
  assumes ok: "uot_ok s"
  shows "uot_flow (uot_admitted (Ev_send data dest h) s) s (uot_send data dest h s)"
proof (cases "uot_admitted (Ev_send data dest h) s = []")
  case True
  then have "\<exists>e. uot_send data dest h s = ([Sent h e 0], s)"
    by (auto simp: uot_admitted_def uot_send_def split: if_splits sum.splits)
  then obtain e where "uot_send data dest h s = ([Sent h e 0], s)" by blast
  then show ?thesis using True ok uot_flow_kept [of "([Sent h e 0], s)" s] by simp
next
  case False
  define first where "first = (\<not> ut_request_written s \<and> \<not> ut_request_pending s \<and> ut_version2 s)"
  obtain address where enc: "encode_destination (to_destination dest) = Inr address"
    and adm: "uot_admitted (Ev_send data dest h) s = [(data, dest)]"
    and open': "\<not> pk_closed s" "\<not> pk_send_busy s" "length data \<le> 65535"
    and req: "first \<longrightarrow> uot_request s \<noteq> None"
    using False by (auto simp: uot_admitted_def first_def split: if_splits sum.splits)
  obtain request where request: "(if first then uot_request s else Some []) = Some request" using req by (cases first) auto
  let ?packet = "request @ uot_frame address data"
  let ?t = "s\<lparr>ut_request_pending := ut_request_pending s \<or> first, pk_send_busy := True, pk_sender := Some h,
                 ut_writes := ut_writes s @ [(?packet, length data, first)]\<rparr>"
  have sent: "uot_send data dest h s = uot_pump_write ?t"
    using enc open' request by (simp add: uot_send_def Let_def not_less flip: first_def)
  have wire: "ut.wire [(data, dest)] = uot_frame address data" using enc by simp
  show ?thesis
  proof (cases "pk_write_busy s")
    case True
    then have "\<not> first" using ok by (auto simp: first_def uot_ok_def)
    then have "request = []" "uot_send data dest h s = ([], ?t)"
      using request sent True by (simp_all add: uot_pump_write_def)
    then show ?thesis
      using ok adm wire \<open>\<not> first\<close> True by (auto simp: uot_flow_def uot_request_def uot_ok_def first_def)
  next
    case False
    then have flight: "ut_in_flight s = None" and none': "ut_writes s = []"
      using ok unfolding uot_ok_def by blast+
    then have empty: "ut_writes s = []" "ut_in_flight s = None" "\<not> ut_request_pending s"
      using ok by (auto simp: uot_ok_def)
    have "uot_send data dest h s =
        ([Stream_write ?packet], ?t\<lparr>ut_writes := [], pk_write_busy := True, ut_in_flight := Some (length data, first)\<rparr>)"
      using False empty open' sent by (simp add: uot_pump_write_def uot_pump_plain first_def del: uot_pump.simps)
    then show ?thesis
      using ok adm wire empty request by (auto simp: uot_flow_def uot_request_def uot_ok_def first_def split: if_splits)
  qed
qed

lemma uot_written_flow:
  assumes ok: "uot_ok s"
  shows "uot_flow [] s (uot_written None s)"
proof (cases "ut_in_flight s")
  case None
  then show ?thesis using ok uot_flow_kept [of "([], s)" s] by (simp add: uot_written_def)
next
  case (Some f)
  obtain sent inc where f: "f = (sent, inc)" by (cases f)
  define r where "r = uot_finish_send None sent (uot_retire inc None s)"
  define t where "t = snd r"
  have same: "ut_writes t = ut_writes s" "pk_closed t = pk_closed s" "\<not> pk_write_busy t"
    "ut_version2 t = ut_version2 s" "ut_in_flight t = None" "uot_request t = uot_request s"
    "ut_request_written t = (inc \<or> ut_request_written s)"
    "ut_request_pending t = (\<not> inc \<and> ut_request_pending s)" "written (fst r) = []"
    by (simp_all add: t_def r_def uot_finish_send_def uot_retire_def Let_def uot_request_def split: option.splits)
  have done': "ut_version2 s \<longrightarrow> ut_request_written t" "\<not> ut_request_pending t"
    "uot_requested t = uot_requested s" "\<not> ut_version2 s \<longrightarrow> \<not> ut_request_written t"
    using ok Some f same(7,8) by (cases inc; auto simp: uot_ok_def)+
  have step: "uot_written None s = (fst r @ fst (uot_pump_write t), snd (uot_pump_write t))"
    using Some f by (simp add: uot_written_def case_prod_beta r_def t_def)
  have ok': "\<not> pk_closed t" "\<forall>w \<in> set (ut_writes t). \<not> snd (snd w)"
    using ok same by (simp_all add: uot_ok_def)
  show ?thesis
  proof (cases "ut_writes s")
    case Nil
    then have "uot_pump_write t = ([], t)" using same by (simp add: uot_pump_write_def)
    moreover have "uot_ok t" using Nil same(1,3,4,5) done'(1,2,4) ok' by (simp add: uot_ok_def)
    ultimately show ?thesis
      using step same(1,4,6,9) Nil done'(3) by (auto simp: uot_flow_def)
  next
    case (Cons w ws)
    obtain packet n where w: "w = (packet, n, False)" using ok Cons by (cases w) (auto simp: uot_ok_def)
    let ?u = "t\<lparr>ut_writes := ws, pk_write_busy := True, ut_in_flight := Some (n, False)\<rparr>"
    have "uot_pump_write t = ([Stream_write packet], ?u)"
      using same(1,3,4) Cons w done'(1) ok'(1) by (simp add: uot_pump_write_def uot_pump_plain del: uot_pump.simps)
    moreover have "uot_ok ?u" using Cons same(1,4) done'(1,2,4) ok' by (simp add: uot_ok_def)
    moreover have "uot_request ?u = uot_request s" using same(6) by (simp add: uot_request_def)
    ultimately show ?thesis
      using step same(4,9) Cons w done'(3) by (auto simp: uot_flow_def)
  qed
qed

lemma uot_step_flow:
  assumes "uot_ok s" "steady ev"
  shows "uot_flow (uot_admitted ev s) s (uot_step ev s)"
proof (cases "sending ev")
  case False
  then have "uot_flow [] s (uot_step ev s)"
    using assms by (intro uot_flow_kept uot_kept) auto
  then show ?thesis using False by (cases ev) (simp_all add: uot_admitted_def)
next
  case True
  then show ?thesis
    using assms uot_send_flow uot_written_flow
  proof (cases ev)
    case Ev_cancel_send
    then show ?thesis
      using assms by (auto intro!: uot_flow_kept simp: uot_admitted_def uot_cancel_send_def split: option.splits)
  qed (auto simp: uot_admitted_def)
qed

lemma append_chain:
  "w @ q = p @ f \<Longrightarrow> w' @ q' = q @ f' \<Longrightarrow> (w @ w') @ q' = p @ f @ f'"
  by (metis append_assoc)

lemma uot_run_flow:
  "uot_ok s \<Longrightarrow> list_all steady evs \<Longrightarrow> uot_flow (uot_datagrams evs s) s (uot_run evs s)"
proof (induction evs arbitrary: s)
  case Nil
  then show ?case using uot_flow_kept [of "([], s)" s] by simp
next
  case (Cons ev evs)
  let ?t = "snd (uot_step ev s)"
  have first: "uot_flow (uot_admitted ev s) s (uot_step ev s)"
    using uot_step_flow Cons.prems by simp
  then have "uot_ok ?t" by (simp add: uot_flow_def)
  then have behind: "uot_flow (uot_datagrams evs ?t) ?t (uot_run evs ?t)"
    using Cons by simp
  have late: "ut.wire (uot_admitted ev s) = []" if "\<not> uot_requested ?t" "ut_version2 s"
    using first that by (simp add: uot_flow_def)
  have none: "concat (map fst (ut_writes ?t)) = []" if "\<not> uot_requested ?t" "ut_version2 ?t"
    using \<open>uot_ok ?t\<close> that by (auto simp: uot_ok_def)
  show ?case
  proof (cases "ut_version2 s")
    case False
    then have "\<not> uot_requested s" "\<not> uot_requested ?t" "\<not> uot_requested (snd (uot_run evs ?t))"
      using first behind Cons.prems(1) by (auto simp: uot_flow_def uot_ok_def)
    then show ?thesis
      using False first behind append_chain [of "written (fst (uot_step ev s))" "concat (map fst (ut_writes ?t))"
          "concat (map fst (ut_writes s))" "ut.wire (uot_admitted ev s)" "written (fst (uot_run evs ?t))"]
      by (simp add: uot_flow_def)
  next
    case True
    show ?thesis
    proof (cases "uot_requested ?t")
      case True
      let ?header = "if uot_requested s then [] else the (uot_request s)"
      have "uot_requested (snd (uot_run evs ?t))" using True behind by (auto simp: uot_flow_def)
      moreover have "(written (fst (uot_step ev s)) @ written (fst (uot_run evs ?t))) @
          concat (map fst (ut_writes (snd (uot_run evs ?t)))) =
          concat (map fst (ut_writes s)) @ (?header @ ut.wire (uot_admitted ev s)) @ ut.wire (uot_datagrams evs ?t)"
        by (rule append_chain) (use first behind True in \<open>auto simp: uot_flow_def\<close>)
      ultimately show ?thesis using True first behind by (auto simp: uot_flow_def)
    next
      case fresh: False
      then have none': "uot_admitted ev s = []" "\<not> uot_requested s"
        using first True by (auto simp: uot_flow_def)
      then have "ut_writes s = []" using Cons.prems(1) True by (auto simp: uot_ok_def)
      moreover have "written (fst (uot_step ev s)) @ concat (map fst (ut_writes ?t)) = concat (map fst (ut_writes s))"
        using first fresh by (simp add: uot_flow_def none')
      ultimately have "written (fst (uot_step ev s)) = []" "concat (map fst (ut_writes s)) = []" by simp_all
      then show ?thesis using first behind fresh none' none by (auto simp: uot_flow_def)
    qed
  qed
qed

lemma uot_datagrams_ok:
  "d \<in> set (uot_datagrams evs s) \<Longrightarrow> wire_address (snd d) \<Longrightarrow> fst d \<noteq> [] \<Longrightarrow> uot_wire_ok d"
proof (induction evs arbitrary: s)
  case (Cons ev evs)
  then show ?case
    by (auto simp: uot_admitted_def split: pk_event.splits if_splits sum.splits)
qed simp

text \<open>The request stands once in front of everything, in version 2 and if anything is sent.\<close>

definition uot_header :: "bool \<Rightarrow> destination option \<Rightarrow> (bytes \<times> datagram_address) list \<Rightarrow> bytes" where
  "uot_header version2 request sent =
     (if version2 \<and> sent \<noteq> [] then the (uot_request (uot_fresh version2 request [])) else [])"

text \<open>C33: Two UDP-over-TCP connections joined by a stream are transparent: while the lower stream fails no write
and the sender does not close, the bytes written are the version-2 request, once and in front, and the frames;
behind the request a receiver that neither cancels nor closes and reads into buffers of at least 65535 bytes
receives exactly the datagrams that were admitted, in order, however the stream cuts its bytes, and all of
them once everything was written and read.  Empty datagrams are excluded, IPv6 scopes do not travel.\<close>

theorem uot_datagrams_transparent:
  assumes "list_all steady sends"
    and "\<forall>(p, d) \<in> set (uot_datagrams sends (uot_fresh version2 request up)). p \<noteq> [] \<and> wire_address d"
    and "written (fst (uot_run sends (uot_fresh version2 request up))) =
       uot_header version2 request (uot_datagrams sends (uot_fresh version2 request up)) @ source @ unsent"
    and "list_all (patient 65535) receives"
  shows "\<exists>later.
     uot_datagrams sends (uot_fresh version2 request up) =
       received (fst (uot_run receives (uot_fresh v2 req source))) @ later \<and>
     list_all harmless (fst (uot_run receives (uot_fresh v2 req source))) \<and>
     (unsent = [] \<and> ut_writes (snd (uot_run sends (uot_fresh version2 request up))) = [] \<and>
      pk_source (snd (uot_run receives (uot_fresh v2 req source))) = [] \<longrightarrow> later = [])"
proof -
  let ?f = "uot_fresh version2 request up" and ?g = "uot_fresh v2 req source"
  let ?sent = "uot_datagrams sends ?f" and ?s = "snd (uot_run sends ?f)" and ?r = "uot_run receives ?g"
  have fresh: "uot_ok ?f" "\<not> uot_requested ?f" "ut_writes ?f = []" "ut_version2 ?f = version2"
    "uot_request ?f = uot_request (uot_fresh version2 request [])"
    by (simp_all add: uot_fresh_def uot_ok_def uot_request_def)
  have "uot_flow ?sent ?f (uot_run sends ?f)" using uot_run_flow fresh(1) assms(1) by blast
  then have flow: "source @ unsent @ concat (map fst (ut_writes ?s)) = ut.wire ?sent"
    using assms(3) fresh(2-) by (auto simp: uot_flow_def uot_header_def split: if_splits)
  let ?rest = "unsent @ concat (map fst (ut_writes ?s))"
  have "ut.recv_at ?sent ?rest ?g"
    using assms(2) flow uot_datagrams_ok by (auto simp: ut.recv_at_def ut.recv_idle_def uot_fresh_def)
  then have "ut.recv_ok ?sent ?rest ?r" using ut.recv_run assms(4) by blast
  then obtain later where later: "?sent = received (fst ?r) @ later" "ut.recv_at later ?rest (snd ?r)"
      "list_all harmless (fst ?r)"
    by (auto simp: ut.recv_ok_def)
  have "later = []" if "unsent = []" "ut_writes ?s = []" "pk_source (snd ?r) = []"
    using ut.recv_exhausted [of later] later(2) that by simp
  then show ?thesis using later by blast
qed

theorem uot_datagrams_transparent_witness:
  "\<exists>later. [([1, 2], Dg_domain ''b'' 53)] = received (fst (uot_run
     [Ev_receive 65535 1, Ev_start, Ev_read 0 9, Ev_read 0 9, Ev_read 0 9, Ev_read 0 1, Ev_read 0 9, Ev_read 0 9, Ev_read 0 9]
     (uot_fresh False None [2, 1, 98, 0, 53, 0, 2, 1, 2]))) @ later \<and> later = []"
proof -
  let ?sends = "[Ev_send [1, 2] (Dg_domain ''b'' 53) 7, Ev_written None]"
  let ?f = "uot_fresh True (Some (Domain ''a'' 80)) []" and ?g = "uot_fresh False None [2, 1, 98, 0, 53, 0, 2, 1, 2]"
  let ?receives = "[Ev_receive 65535 1, Ev_start, Ev_read 0 9, Ev_read 0 9, Ev_read 0 9, Ev_read 0 1, Ev_read 0 9,
    Ev_read 0 9, Ev_read 0 9]"
  have sent: "uot_datagrams ?sends ?f = [([1, 2], Dg_domain ''b'' 53)]" by code_simp
  have written: "written (fst (uot_run ?sends ?f)) = [0, 3, 1, 97, 0, 80] @ [2, 1, 98, 0, 53, 0, 2, 1, 2] @ []"
    by code_simp
  have header: "uot_header True (Some (Domain ''a'' 80)) [([1, 2], Dg_domain ''b'' 53)] = [0, 3, 1, 97, 0, 80]" by code_simp
  have drained: "ut_writes (snd (uot_run ?sends ?f)) = []" "pk_source (snd (uot_run ?receives ?g)) = []" by code_simp+
  have steady: "list_all steady ?sends" "list_all (patient 65535) ?receives" by simp_all
  have ok: "\<forall>(p, d) \<in> set (uot_datagrams ?sends ?f). p \<noteq> [] \<and> wire_address d" by (simp only: sent) simp
  from uot_datagrams_transparent [OF steady(1) ok _ steady(2), of "[2, 1, 98, 0, 53, 0, 2, 1, 2]" "[]" False None]
  show ?thesis using sent written header drained by simp
qed

text \<open>A datagram larger than the caller's buffer fails with \<^verbatim>\<open>message_size\<close> and is skipped: the next receive
returns the datagram behind it.\<close>

theorem uot_oversized_skipped:
  assumes "uot_wire_ok (data, d)" "uot_wire_ok (data', d')"
    and "0 < n" "n < length data" "length data' \<le> m"
  shows "\<exists>reads reads'. (\<forall>ev\<in>set (reads @ reads'). \<exists>i k. ev = Ev_read i k) \<and>
    fst (uot_run (Ev_receive n 1 # Ev_start # reads @ Ev_receive m 2 # Ev_start # reads')
      (uot_fresh version2 request (uot_frame_of (data, d) @ uot_frame_of (data', d')))) =
    [Received 1 (Some Pk_message_size) [] default_datagram_address, Received 2 None data' d']"
proof -
  let ?s = "uot_fresh version2 request (uot_frame_of (data, d) @ uot_frame_of (data', d'))"
    and ?t = "uot_fresh version2 request (uot_frame_of (data', d'))"
  have "parses (rx_need 2) (uot_stage n) Rx_family (pk_source ?s)
      (Some Pk_message_size, [], default_datagram_address) (uot_frame_of (data', d'))"
    using uot_frame_parses [OF assms(1), of n "uot_frame_of (data', d')"] assms(4)
    by (simp add: uot_fresh_def del: uot_frame_of.simps)
  then obtain reads where one: "\<forall>ev\<in>set reads. \<exists>i k. ev = Ev_read i k"
      "uot_run (Ev_receive n 1 # Ev_start # reads) ?s =
        ([Received 1 (Some Pk_message_size) [] default_datagram_address], ?s\<lparr>pk_source := uot_frame_of (data', d')\<rparr>)"
    using ut.receive_runs [of n ?s "Some Pk_message_size" "[]" default_datagram_address "uot_frame_of (data', d')" 1] assms(3)
    by (auto simp: uot_fresh_def simp del: uot_frame_of.simps)
  have same: "?s\<lparr>pk_source := uot_frame_of (data', d')\<rparr> = ?t" by (simp add: uot_fresh_def del: uot_frame_of.simps)
  have "data' \<noteq> []" using assms(2) by simp
  then have "0 < m" using assms(5) by (metis length_greater_0_conv less_le_trans)
  have "parses (rx_need 2) (uot_stage m) Rx_family (pk_source ?t) (None, data', d') []"
    using uot_frame_parses [OF assms(2), of m "[]"] assms(5) by (simp add: uot_fresh_def del: uot_frame_of.simps)
  then obtain reads' where two: "\<forall>ev\<in>set reads'. \<exists>i k. ev = Ev_read i k"
      "uot_run (Ev_receive m 2 # Ev_start # reads') ?t = ([Received 2 None data' d'], ?t\<lparr>pk_source := []\<rparr>)"
    using ut.receive_runs [of m ?t None data' d' "[]" 2] assms(5) \<open>0 < m\<close>
    by (auto simp: uot_fresh_def simp del: uot_frame_of.simps)
  have "fst (uot_run ((Ev_receive n 1 # Ev_start # reads) @ (Ev_receive m 2 # Ev_start # reads')) ?s) =
      [Received 1 (Some Pk_message_size) [] default_datagram_address, Received 2 None data' d']"
    by (simp only: pk_run_append one two same fst_conv snd_conv) (simp del: pk_run_Cons)
  then show ?thesis using one(1) two(1) by (intro exI [of _ reads] exI [of _ reads']) auto
qed

theorem uot_oversized_skipped_witness:
  "\<exists>reads reads'. (\<forall>ev\<in>set (reads @ reads'). \<exists>i k. ev = Ev_read i k) \<and>
    fst (uot_run (Ev_receive 1 1 # Ev_start # reads @ Ev_receive 9 2 # Ev_start # reads')
      (uot_fresh False None ([2, 1, 97, 0, 53, 0, 2, 1, 2] @ [2, 1, 98, 0, 53, 0, 1, 7]))) =
    [Received 1 (Some Pk_message_size) [] default_datagram_address, Received 2 None [7] (Dg_domain ''b'' 53)]"
proof -
  have frames: "uot_frame_of ([1, 2], Dg_domain ''a'' 53) = [2, 1, 97, 0, 53, 0, 2, 1, 2]"
    "uot_frame_of ([7], Dg_domain ''b'' 53) = [2, 1, 98, 0, 53, 0, 1, 7]" by code_simp+
  have ok: "uot_wire_ok ([1, 2], Dg_domain ''a'' 53)" "uot_wire_ok ([7], Dg_domain ''b'' 53)" by code_simp+
  from uot_oversized_skipped [OF ok, of 1 9 False None, unfolded frames] show ?thesis by (simp del: pk_run_Cons)
qed

text \<open>An empty datagram is a frame the sender writes, but its receiver reads an empty payload buffer and takes
that for the end of the stream.\<close>

lemma uot_empty_datagram_eof:
  assumes "pk_reads s = [(Rx_payload d 0, [])]" "pk_receiver s = Some h"
  shows "fst (uot_step (Ev_read 0 n) s) = [Received h (Some Pk_eof) [] default_datagram_address]"
  using assms by (simp add: pull_def pull_failed_def finish_receive_def Let_def)

lemma uot_send_plain:
  assumes "\<not> pk_closed s" "\<not> pk_send_busy s" "ut_version2 s \<longrightarrow> ut_request_written s"
    and "encode_destination (to_destination d) = Inr address" "length data \<le> 65535"
  shows "uot_send data d h s = uot_pump_write (s\<lparr>pk_send_busy := True, pk_sender := Some h,
    ut_writes := ut_writes s @ [(uot_frame address data, length data, False)]\<rparr>)"
proof -
  have plain: "(\<not> ut_request_written s \<and> \<not> ut_request_pending s \<and> ut_version2 s) = False" using assms(3) by auto
  have fits: "(length data > 65535) = False" using assms(5) by simp
  show ?thesis
    unfolding uot_send_def Let_def plain fits assms(4) if_False sum.case option.case
    using assms(1,2) by simp
qed

text \<open>C34: A send that is cancelled still has its frame on the way, and the completion of that frame is handed to
the send that follows: its handler is told the size, or the error, of the cancelled datagram, before its own
frame is passed to the stream.\<close>

theorem uot_cancelled_send_misreports:
  assumes "\<not> pk_closed s" "\<not> pk_send_busy s" "\<not> pk_write_busy s" "ut_writes s = []"
    and "ut_version2 s \<longrightarrow> ut_request_written s"
    and "encode_destination (to_destination d) = Inr address" "length data \<le> 65535"
    and "encode_destination (to_destination d') = Inr address'" "length data' \<le> 65535"
  shows "fst (uot_run [Ev_send data d h, Ev_cancel_send, Ev_send data' d' h', Ev_written e] s) =
    [Stream_write (uot_frame address data), Sent h (Some Pk_aborted) 0,
     Sent h' e (if e = None then length data else 0), Stream_write (uot_frame address' data')]"
proof -
  let ?s1 = "s\<lparr>pk_send_busy := True, pk_sender := Some h, ut_writes := [], pk_write_busy := True,
    ut_in_flight := Some (length data, False)\<rparr>"
  have one: "uot_send data d h s = ([Stream_write (uot_frame address data)], ?s1)"
    using assms by (simp add: uot_send_plain [OF assms(1,2,5,6,7)] uot_pump_write_def uot_pump_plain del: uot_pump.simps)
  let ?s3 = "?s1\<lparr>pk_sender := Some h', ut_writes := [(uot_frame address' data', length data', False)]\<rparr>"
  have "uot_cancel_send ?s1 = ([Sent h (Some Pk_aborted) 0], ?s1\<lparr>pk_sender := None, pk_send_busy := False\<rparr>)"
    by (simp add: uot_cancel_send_def)
  moreover have "uot_send data' d' h' (?s1\<lparr>pk_sender := None, pk_send_busy := False\<rparr>) = ([], ?s3)"
    using assms by (subst uot_send_plain [OF _ _ _ assms(8,9)]) (simp_all add: uot_pump_write_def)
  moreover have "fst (uot_written e ?s3) =
      [Sent h' e (if e = None then length data else 0), Stream_write (uot_frame address' data')]"
    using assms by (simp add: uot_written_def uot_retire_def uot_finish_send_def uot_pump_write_def uot_pump_plain
        Let_def del: uot_pump.simps)
  ultimately show ?thesis using one by simp
qed

theorem uot_cancelled_send_misreports_witness:
  "fst (uot_run [Ev_send [1, 2] (Dg_domain ''a'' 53) 7, Ev_cancel_send, Ev_send [5] (Dg_domain ''b'' 53) 8, Ev_written None]
     (uot_fresh False None [])) =
   [Stream_write [2, 1, 97, 0, 53, 0, 2, 1, 2], Sent 7 (Some Pk_aborted) 0, Sent 8 None 2,
    Stream_write [2, 1, 98, 0, 53, 0, 1, 5]]"
proof -
  have addresses: "encode_destination (to_destination (Dg_domain ''a'' 53)) = Inr [2, 1, 97, 0, 53]"
    "encode_destination (to_destination (Dg_domain ''b'' 53)) = Inr [2, 1, 98, 0, 53]" by code_simp+
  have frames: "uot_frame [2, 1, 97, 0, 53] [1, 2] = [2, 1, 97, 0, 53, 0, 2, 1, 2]"
    "uot_frame [2, 1, 98, 0, 53] [5] = [2, 1, 98, 0, 53, 0, 1, 5]" by code_simp+
  have idle: "\<not> pk_closed (uot_fresh False None [])" "\<not> pk_send_busy (uot_fresh False None [])"
    "\<not> pk_write_busy (uot_fresh False None [])" "ut_writes (uot_fresh False None []) = []"
    "ut_version2 (uot_fresh False None []) \<longrightarrow> ut_request_written (uot_fresh False None [])"
    by (simp_all add: uot_fresh_def)
  from uot_cancelled_send_misreports [OF idle addresses(1) _ addresses(2), of "[1, 2]" "[5]" 7 8 None]
  show ?thesis by (simp add: frames del: pk_run_Cons)
qed

end
