(* ===== verification/Shadowsocks_Crypto.thy ===== *)
theory Shadowsocks_Crypto
  imports Core_Types
begin

text \<open>
  The cryptography of Shadowsocks, \<^verbatim>\<open>src/transport/proxy/crypto.cpp\<close>: the table of methods, key derivation,
  the AEAD constructions the code builds itself (AES-CCM and ChaCha8-Poly1305), and the legacy stream ciphers.
  The primitives are those of BoringSSL, Botan and BLAKE3, the record \<open>crypto_api\<close> of the calls made; the sizes
  of digests, tags and blocks are in its types.
\<close>

section \<open>The libraries\<close>

datatype evp_aead = Evp_aes_gcm nat | Evp_chacha20_poly1305 | Evp_xchacha20_poly1305

datatype evp_cipher = Evp_aes_ctr nat | Evp_aes_ecb nat | Evp_rc4

text \<open>
  A stream cipher is its key stream, byte by byte; \<open>cy_chacha\<close> takes the number of rounds.  \<open>cy_chacha_block\<close> is
  one block of \<^verbatim>\<open>CRYPTO_chacha_20\<close>, for key, nonce and counter.  \<open>None\<close> is a call that fails.
\<close>

record crypto_api =
  cy_md5 :: "bytes \<Rightarrow> 128 word option"
  cy_hmac_sha1 :: "bytes \<Rightarrow> bytes \<Rightarrow> 160 word option"
  cy_blake3 :: "string \<Rightarrow> bytes \<Rightarrow> nat \<Rightarrow> byte"
  cy_base64 :: "string \<Rightarrow> string option"
  cy_aes :: "bytes \<Rightarrow> 128 word \<Rightarrow> 128 word"
  cy_aes_inverse :: "bytes \<Rightarrow> 128 word \<Rightarrow> 128 word"
  cy_aes_ctr :: "bytes \<Rightarrow> bytes \<Rightarrow> nat \<Rightarrow> byte"
  cy_rc4 :: "bytes \<Rightarrow> nat \<Rightarrow> byte"
  cy_chacha :: "nat \<Rightarrow> bytes \<Rightarrow> bytes \<Rightarrow> (nat \<Rightarrow> byte) option"
  cy_chacha_block :: "bytes \<Rightarrow> bytes \<Rightarrow> u32 \<Rightarrow> 512 word"
  cy_poly1305 :: "bytes \<Rightarrow> bytes \<Rightarrow> 128 word option"
  cy_seal :: "evp_aead \<Rightarrow> bytes \<Rightarrow> bytes \<Rightarrow> bytes \<Rightarrow> bytes option"
  cy_open :: "evp_aead \<Rightarrow> bytes \<Rightarrow> bytes \<Rightarrow> bytes \<Rightarrow> bytes option"

text \<open>What the code relies on: an opened seal is the plaintext, and a seal is 16 bytes longer.\<close>

definition seal_laws :: "crypto_api \<Rightarrow> bool" where
  "seal_laws lib \<longleftrightarrow> (\<forall>a key nonce p c. cy_seal lib a key nonce p = Some c \<longrightarrow>
     length c = length p + 16 \<and> cy_open lib a key nonce c = Some p)"

abbreviation xor_bytes :: "bytes \<Rightarrow> bytes \<Rightarrow> bytes" where
  "xor_bytes \<equiv> map2 (XOR)"

definition INT_MAX :: nat where
  "INT_MAX = 2147483647"

definition crypto_error :: "string \<Rightarrow> error" where
  "crypto_error = mk_error Authentication"

section \<open>Methods\<close>

datatype cipher_kind = Kind_aead | Kind_stream

record cipher_spec =
  cm_kind :: cipher_kind
  cm_aead :: "evp_aead option"
  cm_stream :: "evp_cipher option"
  cm_key_size :: nat
  cm_salt_size :: nat
  cm_nonce_size :: nat
  cm_overhead :: nat
  cm_iv_size :: nat
  cm_2022 :: bool
  cm_name :: string

definition aead_method :: "string \<Rightarrow> evp_aead option \<Rightarrow> nat \<Rightarrow> nat \<Rightarrow> bool \<Rightarrow> cipher_spec" where
  "aead_method name aead key_size nonce_size y2022 =
     \<lparr>cm_kind = Kind_aead, cm_aead = aead, cm_stream = None, cm_key_size = key_size, cm_salt_size = key_size,
      cm_nonce_size = nonce_size, cm_overhead = 16, cm_iv_size = 0, cm_2022 = y2022, cm_name = name\<rparr>"

definition stream_method :: "string \<Rightarrow> evp_cipher option \<Rightarrow> nat \<Rightarrow> nat \<Rightarrow> cipher_spec" where
  "stream_method name cipher key_size iv_size =
     \<lparr>cm_kind = Kind_stream, cm_aead = None, cm_stream = cipher, cm_key_size = key_size, cm_salt_size = 0,
      cm_nonce_size = 0, cm_overhead = 0, cm_iv_size = iv_size, cm_2022 = False, cm_name = name\<rparr>"

definition legacy_cipher :: "string \<Rightarrow> evp_cipher option" where
  "legacy_cipher name =
     (if name = ''aes-128-ctr'' then Some (Evp_aes_ctr 128)
      else if name = ''aes-192-ctr'' then Some (Evp_aes_ctr 192)
      else if name = ''aes-256-ctr'' then Some (Evp_aes_ctr 256)
      else if name = ''aes-128-cfb'' then Some (Evp_aes_ecb 128)
      else if name = ''aes-192-cfb'' then Some (Evp_aes_ecb 192)
      else if name = ''aes-256-cfb'' then Some (Evp_aes_ecb 256)
      else if name = ''rc4-md5'' then Some Evp_rc4
      else None)"

definition legacy_key_size :: "string \<Rightarrow> nat" where
  "legacy_key_size name =
     (if name = ''aes-128-ctr'' \<or> name = ''aes-128-cfb'' then 16
      else if name = ''aes-192-ctr'' \<or> name = ''aes-192-cfb'' then 24
      else if name = ''aes-256-ctr'' \<or> name = ''aes-256-cfb'' \<or> name = ''rc4-md5'' then 32
      else if name = ''chacha20'' \<or> name = ''chacha20-ietf'' \<or> name = ''xchacha20'' then 32
      else 0)"

definition configured_legacy_key_size :: "string \<Rightarrow> nat" where
  "configured_legacy_key_size name = (if name = ''rc4-md5'' then 16 else legacy_key_size name)"

text \<open>The comparisons of \<^verbatim>\<open>cipher_method\<close>, in their order; each row carries the name it is compared with.\<close>

definition cipher_methods :: "cipher_spec list" where
  "cipher_methods =
     [aead_method ''aes-128-gcm'' (Some (Evp_aes_gcm 128)) 16 12 False,
      aead_method ''aes-192-gcm'' (Some (Evp_aes_gcm 192)) 24 12 False,
      aead_method ''aes-256-gcm'' (Some (Evp_aes_gcm 256)) 32 12 False,
      aead_method ''chacha20-ietf-poly1305'' (Some Evp_chacha20_poly1305) 32 12 False,
      aead_method ''xchacha20-ietf-poly1305'' (Some Evp_xchacha20_poly1305) 32 24 False,
      aead_method ''chacha8-ietf-poly1305'' None 32 12 False,
      aead_method ''xchacha8-ietf-poly1305'' None 32 24 False,
      aead_method ''aes-128-ccm'' None 16 12 False,
      aead_method ''aes-192-ccm'' None 24 12 False,
      aead_method ''aes-256-ccm'' None 32 12 False,
      aead_method ''2022-blake3-aes-128-gcm'' (Some (Evp_aes_gcm 128)) 16 12 True,
      aead_method ''2022-blake3-aes-256-gcm'' (Some (Evp_aes_gcm 256)) 32 12 True,
      aead_method ''2022-blake3-chacha20-poly1305'' (Some Evp_chacha20_poly1305) 32 12 True,
      stream_method ''chacha20'' None 32 8,
      stream_method ''chacha20-ietf'' None 32 12,
      stream_method ''xchacha20'' None 32 24]"

definition cipher_method :: "string \<Rightarrow> cipher_spec res" where
  "cipher_method name =
     (let canonical = map to_lower name in
      case List.find (\<lambda>m. cm_name m = canonical) cipher_methods of
        Some m \<Rightarrow> Inr m
      | None \<Rightarrow>
          (case legacy_cipher canonical of
             Some cipher \<Rightarrow> Inr (stream_method canonical (Some cipher) (configured_legacy_key_size canonical) 16)
           | None \<Rightarrow> Inl (mk_error Configuration (''unsupported Shadowsocks cipher method: '' @ name))))"

text \<open>An AEAD of the table has a library cipher or is one of the two the code builds itself.\<close>

definition is_aes_ccm_method :: "string \<Rightarrow> bool" where
  "is_aes_ccm_method m \<longleftrightarrow> m = ''aes-128-ccm'' \<or> m = ''aes-192-ccm'' \<or> m = ''aes-256-ccm''"

definition is_chacha8_method :: "string \<Rightarrow> bool" where
  "is_chacha8_method m \<longleftrightarrow> m = ''chacha8-ietf-poly1305'' \<or> m = ''xchacha8-ietf-poly1305''"

lemma aead_method_simps [simp]:
  "cm_kind (aead_method n a k i y) = Kind_aead" "cm_aead (aead_method n a k i y) = a"
  "cm_key_size (aead_method n a k i y) = k" "cm_salt_size (aead_method n a k i y) = k"
  "cm_nonce_size (aead_method n a k i y) = i" "cm_overhead (aead_method n a k i y) = 16"
  "cm_2022 (aead_method n a k i y) = y" "cm_name (aead_method n a k i y) = n"
  "cm_kind (stream_method n c k j) = Kind_stream" "cm_stream (stream_method n c k j) = c"
  "cm_key_size (stream_method n c k j) = k" "cm_iv_size (stream_method n c k j) = j"
  "cm_2022 (stream_method n c k j) = False" "cm_name (stream_method n c k j) = n"
  by (simp_all add: aead_method_def stream_method_def)

lemma cipher_method_table:
  assumes "cipher_method m = Inr spec" "list_all P cipher_methods"
    and "\<And>cipher. legacy_cipher (map to_lower m) = Some cipher \<Longrightarrow>
      P (stream_method (map to_lower m) (Some cipher) (configured_legacy_key_size (map to_lower m)) 16)"
  shows "P spec"
  using assms
  by (auto simp: cipher_method_def Let_def list_all_iff find_Some_iff split: option.splits)

definition aead_spec_ok :: "cipher_spec \<Rightarrow> bool" where
  "aead_spec_ok m \<longleftrightarrow> cm_overhead m = 16 \<and> cm_salt_size m = cm_key_size m \<and>
     (cm_key_size m = 16 \<or> cm_key_size m = 24 \<or> cm_key_size m = 32) \<and>
     (if is_aes_ccm_method (cm_name m) then cm_aead m = None \<and> cm_nonce_size m = 12
      else if is_chacha8_method (cm_name m)
        then cm_aead m = None \<and> cm_key_size m = 32 \<and> (cm_nonce_size m = 12 \<or> cm_nonce_size m = 24)
      else cm_aead m \<noteq> None)"

lemma cipher_method_aead:
  assumes "cipher_method m = Inr spec" "cm_kind spec = Kind_aead"
  shows "aead_spec_ok spec"
proof -
  have "list_all (\<lambda>m. cm_kind m = Kind_aead \<longrightarrow> aead_spec_ok m) cipher_methods" by code_simp
  from cipher_method_table [OF assms(1) this] assms(2) show ?thesis by simp
qed

text \<open>A legacy method has one of the three engines, with the sizes the engine needs.\<close>

definition stream_spec_ok :: "cipher_spec \<Rightarrow> bool" where
  "stream_spec_ok m \<longleftrightarrow>
     (cm_stream m = None \<longrightarrow> cm_name m = ''chacha20'' \<or> cm_name m = ''chacha20-ietf'' \<or> cm_name m = ''xchacha20'') \<and>
     cm_iv_size m \<in> {8, 12, 16, 24}"

lemma cipher_method_stream:
  assumes "cipher_method m = Inr spec" "cm_kind spec = Kind_stream"
  shows "stream_spec_ok spec"
proof -
  have "list_all (\<lambda>m. cm_kind m = Kind_stream \<longrightarrow> stream_spec_ok m) cipher_methods" by code_simp
  from cipher_method_table [OF assms(1) this] assms(2) show ?thesis
    by (simp add: stream_spec_ok_def)
qed

section \<open>Key derivation\<close>

text \<open>The loop of \<^verbatim>\<open>md5_chain\<close>: \<open>output_size\<close> bytes of digests, each over the one before and the password.\<close>

function md5_chain_loop :: "crypto_api \<Rightarrow> bytes \<Rightarrow> nat \<Rightarrow> bytes \<Rightarrow> bytes \<Rightarrow> bytes res" where
  "md5_chain_loop lib password output_size previous output =
     (if length output < output_size
      then case cy_md5 lib (previous @ password) of
        None \<Rightarrow> Inl (crypto_error ''failed to derive Shadowsocks legacy key'')
      | Some digest \<Rightarrow>
          (let previous = be_bytes 16 digest in
           md5_chain_loop lib password output_size previous (output @ take (output_size - length output) previous))
      else Inr output)"
  by auto
termination
  by (relation "measure (\<lambda>(lib, password, output_size, previous, output). output_size - length output)") auto

declare md5_chain_loop.simps [simp del]

definition md5_chain :: "crypto_api \<Rightarrow> string \<Rightarrow> nat \<Rightarrow> bytes res" where
  "md5_chain lib password output_size = md5_chain_loop lib (bytes_of_string password) output_size [] []"

function hkdf_expand :: "crypto_api \<Rightarrow> bytes \<Rightarrow> bytes \<Rightarrow> nat \<Rightarrow> byte \<Rightarrow> bytes \<Rightarrow> bytes \<Rightarrow> bytes res" where
  "hkdf_expand lib prk info output_size counter previous output =
     (if length output < output_size
      then case cy_hmac_sha1 lib prk (previous @ info @ [counter]) of
        None \<Rightarrow> Inl (crypto_error ''failed to derive Shadowsocks subkey'')
      | Some block \<Rightarrow>
          (let previous = be_bytes 20 block in
           hkdf_expand lib prk info output_size (counter + 1) previous
             (output @ take (output_size - length output) previous))
      else Inr output)"
  by auto
termination
  by (relation "measure (\<lambda>(lib, prk, info, output_size, counter, previous, output). output_size - length output)") auto

declare hkdf_expand.simps [simp del]

definition hkdf_sha1 :: "crypto_api \<Rightarrow> bytes \<Rightarrow> bytes \<Rightarrow> string \<Rightarrow> nat \<Rightarrow> bytes res" where
  "hkdf_sha1 lib input_key salt info output_size =
     (case cy_hmac_sha1 lib salt input_key of
        None \<Rightarrow> Inl (crypto_error ''failed to derive Shadowsocks subkey'')
      | Some prk \<Rightarrow> hkdf_expand lib (be_bytes 20 prk) (bytes_of_string info) output_size 1 [] [])"

definition derive_aead_subkey :: "crypto_api \<Rightarrow> string \<Rightarrow> string \<Rightarrow> bytes \<Rightarrow> bytes res" where
  "derive_aead_subkey lib m password salt =
     (case cipher_method m of
        Inl e \<Rightarrow> Inl e
      | Inr spec \<Rightarrow>
          (if cm_kind spec \<noteq> Kind_aead \<or> cm_2022 spec
           then Inl (mk_error Configuration ''Shadowsocks method is not AEAD'')
           else if password = [] \<or> length salt \<noteq> cm_salt_size spec
           then Inl (mk_error Configuration ''Shadowsocks password or salt length is invalid'')
           else result_bind (md5_chain lib password (cm_key_size spec)) (\<lambda>master_key.
             hkdf_sha1 lib master_key salt ''ss-subkey'' (cm_key_size spec))))"

text \<open>\<^verbatim>\<open>core::base64_decode\<close> around the decoder of the library.\<close>

definition base64_decode :: "crypto_api \<Rightarrow> string \<Rightarrow> string option" where
  "base64_decode lib input = (if input = [] then Some [] else cy_base64 lib input)"

definition decode_shadowsocks_2022_psk :: "crypto_api \<Rightarrow> string \<Rightarrow> string \<Rightarrow> bytes res" where
  "decode_shadowsocks_2022_psk lib m password =
     (case cipher_method m of
        Inl e \<Rightarrow> Inl e
      | Inr spec \<Rightarrow>
          (if \<not> cm_2022 spec then Inl (mk_error Configuration ''Shadowsocks method is not Shadowsocks 2022'')
           else case base64_decode lib password of
             None \<Rightarrow> Inl (mk_error Configuration ''Shadowsocks 2022 password must be Base64 encoded key material'')
           | Some decoded \<Rightarrow>
               (if length decoded \<noteq> cm_key_size spec
                then Inl (mk_error Configuration ''Shadowsocks 2022 password must be Base64 encoded key material'')
                else Inr (bytes_of_string decoded))))"

definition derive_shadowsocks_2022_subkey :: "crypto_api \<Rightarrow> string \<Rightarrow> string \<Rightarrow> bytes \<Rightarrow> bytes res" where
  "derive_shadowsocks_2022_subkey lib m password salt =
     (case cipher_method m of
        Inl e \<Rightarrow> Inl e
      | Inr spec \<Rightarrow>
          (if \<not> cm_2022 spec then Inl (mk_error Configuration ''Shadowsocks method is not Shadowsocks 2022'')
           else result_bind (decode_shadowsocks_2022_psk lib m password) (\<lambda>psk.
             Inr (map (cy_blake3 lib ''shadowsocks 2022 session subkey'' (psk @ salt)) [0..<cm_key_size spec]))))"

definition derive_shadowsocks_2022_session_key :: "crypto_api \<Rightarrow> string \<Rightarrow> string \<Rightarrow> bytes \<Rightarrow> bytes res" where
  "derive_shadowsocks_2022_session_key lib m password salt =
     (case cipher_method m of
        Inl e \<Rightarrow> Inl e
      | Inr spec \<Rightarrow>
          (if \<not> cm_2022 spec \<or> length salt \<noteq> cm_salt_size spec
           then Inl (mk_error Configuration ''invalid Shadowsocks 2022 session salt'')
           else derive_shadowsocks_2022_subkey lib m password salt))"

definition derive_legacy_key :: "crypto_api \<Rightarrow> string \<Rightarrow> string \<Rightarrow> bytes \<Rightarrow> bytes res" where
  "derive_legacy_key lib m password iv =
     (case cipher_method m of
        Inl e \<Rightarrow> Inl e
      | Inr spec \<Rightarrow>
          (if cm_kind spec \<noteq> Kind_stream
           then Inl (mk_error Configuration ''Shadowsocks method is not a stream cipher'')
           else if password = [] \<or> length iv \<noteq> cm_iv_size spec
           then Inl (mk_error Configuration ''Shadowsocks password or IV length is invalid'')
           else md5_chain lib password (cm_key_size spec)))"

text \<open>Keys have the length of the method.\<close>

lemma md5_chain_loop_length:
  "md5_chain_loop lib pw n prev out = Inr key \<Longrightarrow> length out \<le> n \<Longrightarrow> length key = n"
proof (induction lib pw n prev out rule: md5_chain_loop.induct)
  case (1 lib pw n prev out)
  show ?case
  proof (cases "length out < n")
    case True
    then obtain d where d: "cy_md5 lib (prev @ pw) = Some d"
      and rest: "md5_chain_loop lib pw n (be_bytes 16 d) (out @ take (n - length out) (be_bytes 16 d)) = Inr key"
      using "1.prems"(1) by (auto simp: md5_chain_loop.simps [of lib pw n prev out] Let_def split: option.splits)
    show ?thesis by (rule "1.IH" [OF True d refl rest]) (use True in simp)
  next
    case False
    then show ?thesis using "1.prems" by (auto simp: md5_chain_loop.simps [of lib pw n prev out])
  qed
qed

lemma hkdf_expand_length:
  "hkdf_expand lib prk info n c prev out = Inr key \<Longrightarrow> length out \<le> n \<Longrightarrow> length key = n"
proof (induction lib prk info n c prev out rule: hkdf_expand.induct)
  case (1 lib prk info n c prev out)
  show ?case
  proof (cases "length out < n")
    case True
    then obtain d where d: "cy_hmac_sha1 lib prk (prev @ info @ [c]) = Some d"
      and rest: "hkdf_expand lib prk info n (c + 1) (be_bytes 20 d) (out @ take (n - length out) (be_bytes 20 d)) = Inr key"
      using "1.prems"(1) by (auto simp: hkdf_expand.simps [of lib prk info n c prev out] Let_def split: option.splits)
    show ?thesis by (rule "1.IH" [OF True d refl rest]) (use True in simp)
  next
    case False
    then show ?thesis using "1.prems" by (auto simp: hkdf_expand.simps [of lib prk info n c prev out])
  qed
qed

lemma derived_key_length:
  "derive_aead_subkey lib m pw salt = Inr key \<Longrightarrow> cipher_method m = Inr spec \<Longrightarrow> length key = cm_key_size spec"
  "derive_legacy_key lib m pw iv = Inr key \<Longrightarrow> cipher_method m = Inr spec \<Longrightarrow> length key = cm_key_size spec"
  "derive_shadowsocks_2022_subkey lib m pw salt = Inr key \<Longrightarrow> cipher_method m = Inr spec \<Longrightarrow>
    length key = cm_key_size spec"
  "decode_shadowsocks_2022_psk lib m pw = Inr key \<Longrightarrow> cipher_method m = Inr spec \<Longrightarrow> length key = cm_key_size spec"
  by (auto simp: derive_aead_subkey_def derive_legacy_key_def derive_shadowsocks_2022_subkey_def hkdf_sha1_def
      decode_shadowsocks_2022_psk_def md5_chain_def md5_chain_loop_length hkdf_expand_length result_simps
      split: if_splits option.splits)

subsection \<open>The standards\<close>

text \<open>RFC 5869: \<open>T 0\<close> is empty, \<open>T (i + 1) = HMAC (PRK, T i | info | i + 1)\<close>; the key are the first bytes of the sequence.\<close>

fun hkdf_T :: "(bytes \<Rightarrow> 160 word) \<Rightarrow> bytes \<Rightarrow> nat \<Rightarrow> bytes" where
  "hkdf_T hmac info 0 = []"
| "hkdf_T hmac info (Suc i) = be_bytes 20 (hmac (hkdf_T hmac info i @ info @ [word_of_nat (Suc i)]))"

definition hkdf_stream :: "(bytes \<Rightarrow> 160 word) \<Rightarrow> bytes \<Rightarrow> nat \<Rightarrow> bytes" where
  "hkdf_stream hmac info n = concat (map (hkdf_T hmac info) [1..<Suc n])"

lemma hkdf_stream_Suc: "hkdf_stream hmac info (Suc i) = hkdf_stream hmac info i @ hkdf_T hmac info (Suc i)"
  by (simp add: hkdf_stream_def)

lemma length_hkdf_stream: "length (hkdf_stream hmac info i) = 20 * i"
  by (induction i) (simp_all add: hkdf_stream_def)

text \<open>HKDF of the code is that of the RFC.\<close>

lemma hkdf_expand_stream:
  assumes "\<And>msg. cy_hmac_sha1 lib prk msg = Some (hmac msg)"
    and "out = take n (hkdf_stream hmac info i)" "20 * i < n + 20"
  shows "hkdf_expand lib prk info n (word_of_nat (Suc i)) (hkdf_T hmac info i) out =
    Inr (take n (hkdf_stream hmac info ((n + 19) div 20)))"
  using assms(2,3)
proof (induction "n - 20 * i" arbitrary: i out rule: less_induct)
  case less
  have len: "length out = min n (20 * i)" using less.prems(1) by (simp add: length_hkdf_stream)
  show ?case
  proof (cases "20 * i < n")
    case True
    let ?T = "hkdf_T hmac info (Suc i)"
    have T: "?T = be_bytes 20 (hmac (hkdf_T hmac info i @ info @ [word_of_nat (Suc i)]))" by simp
    have out: "out @ take (n - length out) ?T = take n (hkdf_stream hmac info (Suc i))"
      using less.prems(1) True len by (simp add: hkdf_stream_Suc length_hkdf_stream del: hkdf_T.simps)
    have "hkdf_expand lib prk info n (word_of_nat (Suc i)) (hkdf_T hmac info i) out =
        hkdf_expand lib prk info n (word_of_nat (Suc (Suc i))) ?T (out @ take (n - length out) ?T)"
      using True len assms(1) unfolding T
      by (subst hkdf_expand.simps) (simp add: Let_def add.commute)
    also have "\<dots> = Inr (take n (hkdf_stream hmac info ((n + 19) div 20)))"
      by (rule less.hyps) (use True out in simp_all)
    finally show ?thesis .
  next
    case False
    then have "(n + 19) div 20 = i" using less.prems(2) by linarith
    then show ?thesis using False len less.prems(1) by (subst hkdf_expand.simps) simp
  qed
qed

theorem hkdf_sha1_rfc:
  assumes "\<And>key msg. cy_hmac_sha1 lib key msg = Some (hmac key msg)"
  shows "hkdf_sha1 lib ikm salt info n = Inr (take n
    (hkdf_stream (hmac (be_bytes 20 (hmac salt ikm))) (bytes_of_string info) ((n + 19) div 20)))"
  using hkdf_expand_stream [of lib "be_bytes 20 (hmac salt ikm)" "hmac (be_bytes 20 (hmac salt ikm))" "[]" n
      "bytes_of_string info" 0] assms
  by (simp add: hkdf_sha1_def hkdf_stream_def)

section \<open>AES-CCM\<close>

definition aes_block :: "crypto_api \<Rightarrow> bytes \<Rightarrow> bytes \<Rightarrow> bytes" where
  "aes_block lib key block = be_bytes 16 (cy_aes lib key (be_word block))"

text \<open>The low three bytes of a number, most significant first.\<close>

definition be24 :: "nat \<Rightarrow> bytes" where
  "be24 n = be_bytes 3 (word_of_nat n :: u32)"

definition ccm_counter :: "bytes \<Rightarrow> nat \<Rightarrow> bytes" where
  "ccm_counter nonce i = [2] @ nonce @ be24 i"

text \<open>The loop over the blocks: the output and the authenticator behind them.\<close>

function ccm_blocks :: "crypto_api \<Rightarrow> bytes \<Rightarrow> bytes \<Rightarrow> bool \<Rightarrow> bytes \<Rightarrow> nat \<Rightarrow> nat \<Rightarrow> bytes \<Rightarrow> bytes \<times> bytes" where
  "ccm_blocks lib key nonce encrypt input len offset mac =
     (if offset < len
      then let count = min 16 (len - offset);
               input_block = take count (drop offset input) @ replicate (16 - count) 0;
               block = aes_block lib key (ccm_counter nonce (1 + offset div 16));
               out = xor_bytes (take count input_block) (take count block);
               plaintext_block = out @ replicate (16 - count) 0;
               mac = aes_block lib key (xor_bytes mac (if encrypt then input_block else plaintext_block));
               (rest, mac) = ccm_blocks lib key nonce encrypt input len (offset + 16) mac
           in (out @ rest, mac)
      else ([], mac))"
  by auto
termination
  by (relation "measure (\<lambda>(lib, key, nonce, encrypt, input, len, offset, mac). len - offset)") auto

declare ccm_blocks.simps [simp del]

definition aes_ccm_crypt :: "crypto_api \<Rightarrow> bytes \<Rightarrow> bytes \<Rightarrow> bytes \<Rightarrow> bool \<Rightarrow> bytes res" where
  "aes_ccm_crypt lib key nonce input encrypt =
     (if length key \<noteq> 16 \<and> length key \<noteq> 24 \<and> length key \<noteq> 32 \<or> length nonce \<noteq> 12 \<or>
         length input > 0xFFFFFF \<or> \<not> encrypt \<and> length input < 16
      then Inl (mk_error Configuration ''invalid AES-CCM parameters'')
      else let ciphertext_size = (if encrypt then length input else length input - 16);
               mac = aes_block lib key ([58] @ nonce @ be24 ciphertext_size);
               (output, mac) = ccm_blocks lib key nonce encrypt input ciphertext_size 0 mac;
               mac = xor_bytes mac (aes_block lib key (ccm_counter nonce 0))
           in (if \<not> encrypt \<and> mac \<noteq> take 16 (drop ciphertext_size input)
               then Inl (mk_error Authentication ''AES-CCM authentication failed'')
               else if encrypt then Inr (output @ mac) else Inr output))"

subsection \<open>RFC 3610\<close>

text \<open>
  Counter mode with CBC-MAC, for a tag of 16 bytes and a length of three: \<open>ccm_S i\<close> is the key stream block, the
  authenticator runs over the block \<open>B_0\<close> and the padded blocks of the plaintext.
\<close>

definition ccm_S :: "crypto_api \<Rightarrow> bytes \<Rightarrow> bytes \<Rightarrow> nat \<Rightarrow> bytes" where
  "ccm_S lib key nonce i = aes_block lib key ([2] @ nonce @ be24 i)"

definition ccm_keystream :: "crypto_api \<Rightarrow> bytes \<Rightarrow> bytes \<Rightarrow> nat \<Rightarrow> nat \<Rightarrow> bytes" where
  "ccm_keystream lib key nonce i n = take n (concat (map (ccm_S lib key nonce) [i..<i + (n + 15) div 16]))"

function blocks16 :: "bytes \<Rightarrow> bytes list" where
  "blocks16 p = (if p = [] then [] else (take 16 p @ replicate (16 - length p) 0) # blocks16 (drop 16 p))"
  by auto
termination
  by (relation "measure length") auto

declare blocks16.simps [simp del]

definition cbc_mac :: "crypto_api \<Rightarrow> bytes \<Rightarrow> bytes list \<Rightarrow> bytes \<Rightarrow> bytes" where
  "cbc_mac lib key blocks mac = fold (\<lambda>b x. aes_block lib key (xor_bytes x b)) blocks mac"

definition ccm_seal :: "crypto_api \<Rightarrow> bytes \<Rightarrow> bytes \<Rightarrow> bytes \<Rightarrow> bytes" where
  "ccm_seal lib key nonce p =
     xor_bytes p (ccm_keystream lib key nonce 1 (length p)) @
     xor_bytes (cbc_mac lib key (blocks16 p) (aes_block lib key ([58] @ nonce @ be24 (length p))))
       (ccm_S lib key nonce 0)"

lemma length_aes_block [simp]: "length (aes_block lib key b) = 16"
  by (simp add: aes_block_def)

lemma length_ccm_S [simp]: "length (ccm_S lib key nonce i) = 16"
  by (simp add: ccm_S_def)

lemma ccm_keystream_short:
  "0 < n \<Longrightarrow> n \<le> 16 \<Longrightarrow> ccm_keystream lib key nonce i n = take n (ccm_S lib key nonce i)"
proof -
  assume "0 < n" "n \<le> 16"
  then have "(n + 15) div 16 = 1" by linarith
  then show ?thesis by (simp add: ccm_keystream_def)
qed

lemma ccm_keystream_long:
  "16 < n \<Longrightarrow> ccm_keystream lib key nonce i n = ccm_S lib key nonce i @ ccm_keystream lib key nonce (Suc i) (n - 16)"
proof -
  assume n: "16 < n"
  then have "(n + 15) div 16 = Suc ((n - 16 + 15) div 16)" by linarith
  then have "[i..<i + (n + 15) div 16] = i # [Suc i..<Suc i + (n - 16 + 15) div 16]"
    by (simp add: upt_conv_Cons)
  then show ?thesis using n by (simp add: ccm_keystream_def)
qed

lemma length_concat_S: "length (concat (map (ccm_S lib key nonce) xs)) = 16 * length xs"
  by (induction xs) simp_all

lemma length_ccm_keystream [simp]: "length (ccm_keystream lib key nonce i n) = n"
  by (simp add: ccm_keystream_def length_concat_S min_def) linarith

lemma xor_bytes_twice: "length a \<le> length k \<Longrightarrow> xor_bytes (xor_bytes a k) k = a"
  by (induction a arbitrary: k) (auto simp: Suc_le_length_iff xor.assoc)

lemma blocks16_short:
  "p \<noteq> [] \<Longrightarrow> length p \<le> 16 \<Longrightarrow> blocks16 p = [p @ replicate (16 - length p) 0]"
  by (subst blocks16.simps, subst blocks16.simps) simp

lemma blocks16_long: "16 < length p \<Longrightarrow> blocks16 p = take 16 p # blocks16 (drop 16 p)"
  by (subst blocks16.simps) auto

lemma xor_bytes_take: "xor_bytes (take n a) (take n b) = take n (xor_bytes a b)"
  by (simp add: take_map take_zip)

lemma xor_bytes_append:
  "length a = length k \<Longrightarrow> xor_bytes (a @ b) (k @ l) = xor_bytes a k @ xor_bytes b l"
  by simp

lemma ccm_blocks_step:
  assumes "offset < len" "n = len - offset" "take (min 16 n) (drop offset input) = chunk" "length chunk = min 16 n"
    and "out = xor_bytes chunk (take (min 16 n) (ccm_S lib key nonce (1 + offset div 16)))"
    and "mac' = aes_block lib key (xor_bytes mac ((if encrypt then chunk else out) @ replicate (16 - min 16 n) 0))"
  shows "ccm_blocks lib key nonce encrypt input len offset mac =
    (out @ fst (ccm_blocks lib key nonce encrypt input len (offset + 16) mac'),
     snd (ccm_blocks lib key nonce encrypt input len (offset + 16) mac'))"
proof -
  have "take (min 16 n) (chunk @ replicate (16 - min 16 n) 0) = chunk" using assms(4) by simp
  then show ?thesis
    using assms(5,6)
    by (subst ccm_blocks.simps)
      (cases encrypt; simp only: assms(1) if_True if_False Let_def case_prod_beta assms(3) ccm_S_def ccm_counter_def
        flip: assms(2))
qed

text \<open>The loop is counter mode and CBC-MAC over the plaintext.\<close>

lemma ccm_blocks_eq:
  assumes "len \<le> length input" "16 dvd offset"
  shows "ccm_blocks lib key nonce encrypt input len offset mac =
    (let data = drop offset (take len input);
         out = xor_bytes data (ccm_keystream lib key nonce (1 + offset div 16) (length data))
     in (out, cbc_mac lib key (blocks16 (if encrypt then data else out)) mac))"
  using assms(2)
proof (induction "len - offset" arbitrary: offset mac rule: less_induct)
  case less
  define data where "data = drop offset (take len input)"
  define n where "n = len - offset"
  define i where "i = 1 + offset div 16"
  define out where "out = xor_bytes data (ccm_keystream lib key nonce i n)"
  have n: "length data = n" using assms(1) by (simp add: data_def n_def)
  have len_out: "length out = n" by (simp add: out_def n)
  have front: "take (min 16 n) (drop offset input) = take 16 data"
    by (simp only: data_def n_def drop_take take_take)
  have goal: ?case if "ccm_blocks lib key nonce encrypt input len offset mac =
      (out, cbc_mac lib key (blocks16 (if encrypt then data else out)) mac)"
    using that n by (simp add: Let_def out_def i_def flip: data_def)
  show ?case
  proof (cases "n = 0")
    case True
    then have "data = []" "out = []" "\<not> offset < len" using n len_out by (auto simp: n_def)
    then show ?thesis
      by (intro goal) (simp add: ccm_blocks.simps [of _ _ _ _ _ _ offset] blocks16.simps cbc_mac_def)
  next
    case False
    let ?block = "ccm_S lib key nonce i"
    let ?in = "take 16 data @ replicate (16 - min 16 n) 0"
    let ?out = "xor_bytes (take 16 data) (take (min 16 n) ?block)"
    let ?mac = "aes_block lib key (xor_bytes mac (if encrypt then ?in else ?out @ replicate (16 - min 16 n) 0))"
    have unfold: "ccm_blocks lib key nonce encrypt input len offset mac =
        (?out @ fst (ccm_blocks lib key nonce encrypt input len (offset + 16) ?mac),
         snd (ccm_blocks lib key nonce encrypt input len (offset + 16) ?mac))"
      by (rule ccm_blocks_step [where n = n]) (use False n front in \<open>auto simp: n_def i_def min_def\<close>)
    show ?thesis
    proof (cases "n \<le> 16")
      case True
      then have end': "ccm_blocks lib key nonce encrypt input len (offset + 16) ?mac = ([], ?mac)"
        by (subst ccm_blocks.simps) (use True in \<open>auto simp: n_def\<close>)
      have out: "?out = out" using True False n by (simp add: out_def ccm_keystream_short)
      have "data \<noteq> []" "out \<noteq> []" using False n len_out by auto
      then have "cbc_mac lib key (blocks16 (if encrypt then data else out)) mac = ?mac"
        using True n len_out out by (simp add: blocks16_short cbc_mac_def)
      then show ?thesis using unfold end' out by (intro goal) simp
    next
      case long: False
      have mod: "(offset + 16) div 16 = Suc (offset div 16)" by simp
      have data': "drop (offset + 16) (take len input) = drop 16 data" by (simp add: data_def add.commute)
      have out: "out = ?out @ xor_bytes (drop 16 data) (ccm_keystream lib key nonce (Suc i) (n - 16))"
      proof -
        have "out = xor_bytes (take 16 data @ drop 16 data) (?block @ ccm_keystream lib key nonce (Suc i) (n - 16))"
          using long by (simp add: out_def ccm_keystream_long)
        then show ?thesis using long n by (subst (asm) xor_bytes_append) simp_all
      qed
      have rest: "ccm_blocks lib key nonce encrypt input len (offset + 16) ?mac =
          (xor_bytes (drop 16 data) (ccm_keystream lib key nonce (Suc i) (n - 16)),
           cbc_mac lib key (blocks16 (if encrypt then drop 16 data
             else xor_bytes (drop 16 data) (ccm_keystream lib key nonce (Suc i) (n - 16)))) ?mac)"
        using less.hyps [of "offset + 16" ?mac] less.prems long n
        by (simp add: Let_def data' mod i_def n_def)
      have "take 16 out = ?out" "drop 16 out = xor_bytes (drop 16 data) (ccm_keystream lib key nonce (Suc i) (n - 16))"
        using out long n by simp_all
      then have "cbc_mac lib key (blocks16 (if encrypt then data else out)) mac =
          cbc_mac lib key (blocks16 (if encrypt then drop 16 data
             else xor_bytes (drop 16 data) (ccm_keystream lib key nonce (Suc i) (n - 16)))) ?mac"
        using long n len_out by (simp add: blocks16_long cbc_mac_def)
      then show ?thesis using unfold rest out by (intro goal) simp
    qed
  qed
qed

definition ccm_parameters_ok :: "bytes \<Rightarrow> bytes \<Rightarrow> bool" where
  "ccm_parameters_ok key nonce \<longleftrightarrow> length key \<in> {16, 24, 32} \<and> length nonce = 12"

lemma aes_ccm_encrypt_rfc:
  assumes "ccm_parameters_ok key nonce" "length p \<le> 0xFFFFFF"
  shows "aes_ccm_crypt lib key nonce p True = Inr (ccm_seal lib key nonce p)"
  using assms
  by (auto simp: aes_ccm_crypt_def ccm_parameters_ok_def ccm_blocks_eq Let_def ccm_seal_def ccm_S_def ccm_counter_def
      not_less)

lemma length_cbc_mac: "length mac = 16 \<Longrightarrow> length (cbc_mac lib key bs mac) = 16"
  unfolding cbc_mac_def by (induction bs arbitrary: mac) simp_all

lemma length_ccm_seal [simp]: "length (ccm_seal lib key nonce p) = length p + 16"
  by (simp add: ccm_seal_def length_cbc_mac)

text \<open>What opening computes, on the ciphertext and the tag.\<close>

lemma aes_ccm_decrypt_eq:
  assumes "ccm_parameters_ok key nonce" "length tag = 16" "length c + 16 \<le> 0xFFFFFF"
  shows "aes_ccm_crypt lib key nonce (c @ tag) False =
    (let p = xor_bytes c (ccm_keystream lib key nonce 1 (length c)) in
     if c @ tag = ccm_seal lib key nonce p then Inr p
     else Inl (mk_error Authentication ''AES-CCM authentication failed''))"
proof -
  let ?p = "xor_bytes c (ccm_keystream lib key nonce 1 (length c))"
  have len: "length ?p = length c" by simp
  have "xor_bytes ?p (ccm_keystream lib key nonce 1 (length c)) = c" by (rule xor_bytes_twice) simp
  then have "c @ tag = ccm_seal lib key nonce ?p \<longleftrightarrow>
      tag = xor_bytes (cbc_mac lib key (blocks16 ?p) (aes_block lib key ([58] @ nonce @ be24 (length c))))
        (ccm_S lib key nonce 0)"
    by (simp add: ccm_seal_def)
  then show ?thesis
    using assms
    by (auto simp: aes_ccm_crypt_def ccm_parameters_ok_def ccm_blocks_eq Let_def ccm_S_def ccm_counter_def)
qed

lemma aes_ccm_decrypt_rfc:
  assumes "ccm_parameters_ok key nonce" "length w \<le> 0xFFFFFF"
  shows "aes_ccm_crypt lib key nonce w False = Inr p \<longleftrightarrow> w = ccm_seal lib key nonce p"
proof
  assume *: "aes_ccm_crypt lib key nonce w False = Inr p"
  then have "16 \<le> length w" by (simp add: aes_ccm_crypt_def Let_def split: if_splits)
  then obtain c tag where w: "w = c @ tag" "length tag = 16"
    by (metis append_take_drop_id diff_diff_cancel length_drop)
  then show "w = ccm_seal lib key nonce p"
    using * aes_ccm_decrypt_eq [OF assms(1) w(2), of c lib] assms(2) by (auto simp: Let_def split: if_splits)
next
  assume w: "w = ccm_seal lib key nonce p"
  let ?c = "xor_bytes p (ccm_keystream lib key nonce 1 (length p))"
  obtain tag where tag: "w = ?c @ tag" "length tag = 16"
    using w by (auto simp: ccm_seal_def length_cbc_mac)
  have "xor_bytes ?c (ccm_keystream lib key nonce 1 (length ?c)) = p" by (simp add: xor_bytes_twice)
  then show "aes_ccm_crypt lib key nonce w False = Inr p"
    using aes_ccm_decrypt_eq [OF assms(1) tag(2), of ?c lib] assms(2) w tag by (simp add: Let_def)
qed

text \<open>C39: The AES-CCM of the code is that of RFC 3610 (a tag of 16 bytes, a length of three, no associated data):
sealing computes counter mode and the CBC-MAC of the standard for any key, nonce and plaintext the parameter
checks admit, and opening succeeds exactly on the seals, with their plaintext.\<close>

theorem aes_ccm_is_rfc3610:
  assumes "ccm_parameters_ok key nonce"
  shows "(length p \<le> 0xFFFFFF \<longrightarrow> aes_ccm_crypt lib key nonce p True = Inr (ccm_seal lib key nonce p)) \<and>
    (length w \<le> 0xFFFFFF \<longrightarrow>
      (aes_ccm_crypt lib key nonce w False = Inr p \<longleftrightarrow> w = ccm_seal lib key nonce p))"
  using aes_ccm_encrypt_rfc [OF assms] aes_ccm_decrypt_rfc [OF assms] by blast

section \<open>A sample library\<close>

text \<open>Primitives with the laws of the real ones, to evaluate the definitions on.\<close>

definition sample_crypto :: crypto_api where
  "sample_crypto =
     \<lparr>cy_md5 = (\<lambda>bs. Some (word_of_nat (length bs))), cy_hmac_sha1 = (\<lambda>key msg. Some (word_of_nat (length msg))),
      cy_blake3 = (\<lambda>ctx bs i. word_of_nat (i + length bs)), cy_base64 = Some,
      cy_aes = (\<lambda>key b. b XOR 5), cy_aes_inverse = (\<lambda>key b. b XOR 5),
      cy_aes_ctr = (\<lambda>key iv i. word_of_nat i), cy_rc4 = (\<lambda>key i. word_of_nat i),
      cy_chacha = (\<lambda>rounds key iv. Some (\<lambda>i. word_of_nat (i + rounds))), cy_chacha_block = (\<lambda>key nonce counter. 7),
      cy_poly1305 = (\<lambda>key msg. Some (word_of_nat (length msg))),
      cy_seal = (\<lambda>a key nonce p. Some (p @ replicate 16 9)),
      cy_open = (\<lambda>a key nonce c. if length c < 16 then None else Some (take (length c - 16) c))\<rparr>"

lemma sample_seal_laws: "seal_laws sample_crypto"
  by (simp add: seal_laws_def sample_crypto_def)

theorem aes_ccm_is_rfc3610_witness:
  "aes_ccm_crypt sample_crypto (replicate 16 1) (replicate 12 2) [3, 4] True =
     Inr (ccm_seal sample_crypto (replicate 16 1) (replicate 12 2) [3, 4]) \<and>
   aes_ccm_crypt sample_crypto (replicate 16 1) (replicate 12 2)
     (ccm_seal sample_crypto (replicate 16 1) (replicate 12 2) [3, 4]) False = Inr [3, 4]"
proof -
  have "ccm_parameters_ok (replicate 16 1) (replicate 12 2)" by (simp add: ccm_parameters_ok_def)
  note rfc = aes_ccm_is_rfc3610 [OF this, of _ sample_crypto]
  show ?thesis
    using rfc [of "[3, 4]" "[]"] rfc [of "[3, 4]" "ccm_seal sample_crypto (replicate 16 1) (replicate 12 2) [3, 4]"] by simp
qed

section \<open>ChaCha8-Poly1305\<close>

definition load_le32 :: "bytes \<Rightarrow> nat \<Rightarrow> u32" where
  "load_le32 bs offset = be_word (rev (take 4 (drop offset bs)))"

definition store_le32 :: "u32 \<Rightarrow> bytes" where
  "store_le32 w = rev (be_bytes 4 w)"

text \<open>
  The HChaCha20 key: the words of a ChaCha20 block less the initial state they were added to.
\<close>

definition hchacha20_subkey :: "crypto_api \<Rightarrow> bytes \<Rightarrow> bytes \<Rightarrow> bytes" where
  "hchacha20_subkey lib key nonce =
     (let block = be_bytes 64 (cy_chacha_block lib key (drop 4 nonce) (load_le32 nonce 0));
          constants = [0x61707865, 0x3320646e, 0x79622d32, 0x6b206574]
      in concat (map (\<lambda>i. store_le32 (load_le32 block (i * 4) - constants ! i)) [0..<4]) @
         concat (map (\<lambda>i. store_le32 (load_le32 block ((12 + i) * 4) - load_le32 nonce (i * 4))) [0..<4]))"

text \<open>The bytes of a key stream from a position on.\<close>

definition stream_bytes :: "(nat \<Rightarrow> byte) \<Rightarrow> nat \<Rightarrow> nat \<Rightarrow> bytes" where
  "stream_bytes ks position n = map ks [position..<position + n]"

definition poly1305_input :: "bytes \<Rightarrow> bytes" where
  "poly1305_input c =
     c @ replicate ((16 - length c mod 16) mod 16) 0 @ replicate 8 0 @ rev (be_bytes 8 (word_of_nat (length c) :: u64))"

definition poly1305_mac :: "crypto_api \<Rightarrow> bytes \<Rightarrow> bytes \<Rightarrow> bytes res" where
  "poly1305_mac lib key message =
     (if length key \<noteq> 32 then Inl (mk_error Configuration ''invalid Poly1305 key size'')
      else case cy_poly1305 lib key message of
        None \<Rightarrow> Inl (crypto_error ''Botan Poly1305 is unavailable'')
      | Some tag \<Rightarrow> Inr (be_bytes 16 tag))"

definition chacha_parameters :: "crypto_api \<Rightarrow> bytes \<Rightarrow> bytes \<Rightarrow> bytes \<times> bytes" where
  "chacha_parameters lib key nonce =
     (if length nonce = 24 then (hchacha20_subkey lib key (take 16 nonce), replicate 4 0 @ drop 16 nonce)
      else (key, nonce))"

definition chacha8_poly1305_crypt :: "crypto_api \<Rightarrow> bytes \<Rightarrow> bytes \<Rightarrow> bytes \<Rightarrow> bool \<Rightarrow> nat \<Rightarrow> bytes res" where
  "chacha8_poly1305_crypt lib key nonce input encrypt rounds =
     (if length key \<noteq> 32 \<or> length nonce \<noteq> 12 \<and> length nonce \<noteq> 24
      then Inl (mk_error Configuration ''invalid ChaCha8 parameters'')
      else let (cipher_key, ietf_nonce) = chacha_parameters lib key nonce in
        (case cy_chacha lib rounds cipher_key ietf_nonce of
           None \<Rightarrow> Inl (crypto_error ''Botan ChaCha is unavailable'')
         | Some ks \<Rightarrow>
             (if \<not> encrypt \<and> length input < 16
              then Inl (mk_error Protocol_framing ''ChaCha8 ciphertext is shorter than its authentication tag'')
              else let ciphertext = (if encrypt then xor_bytes input (stream_bytes ks 64 (length input))
                     else take (length input - 16) input) in
                result_bind (poly1305_mac lib (stream_bytes ks 0 32) (poly1305_input ciphertext)) (\<lambda>tag.
                  if \<not> encrypt \<and> tag \<noteq> drop (length ciphertext) input
                  then Inl (mk_error Authentication ''ChaCha8-Poly1305 authentication failed'')
                  else if encrypt then Inr (ciphertext @ tag)
                  else Inr (xor_bytes ciphertext (stream_bytes ks 64 (length ciphertext)))))))"

lemma length_stream_bytes [simp]: "length (stream_bytes ks position n) = n"
  by (simp add: stream_bytes_def)

lemma poly1305_mac_length: "poly1305_mac lib key msg = Inr tag \<Longrightarrow> length tag = 16"
  by (auto simp: poly1305_mac_def split: if_splits option.splits)

text \<open>The ciphertext is the plaintext on the key stream, and opening accepts exactly what sealing returns.\<close>

lemma chacha8_encrypt_iff:
  "chacha8_poly1305_crypt lib key nonce p True rounds = Inr w \<longleftrightarrow>
   length key = 32 \<and> length nonce \<in> {12, 24} \<and>
   (\<exists>ks c tag. cy_chacha lib rounds (fst (chacha_parameters lib key nonce)) (snd (chacha_parameters lib key nonce)) = Some ks \<and>
      c = xor_bytes p (stream_bytes ks 64 (length p)) \<and>
      poly1305_mac lib (stream_bytes ks 0 32) (poly1305_input c) = Inr tag \<and> w = c @ tag)"
  by (auto simp: chacha8_poly1305_crypt_def Let_def case_prod_beta result_simps split: option.split)

lemma chacha8_decrypt_iff:
  "chacha8_poly1305_crypt lib key nonce w False rounds = Inr p \<longleftrightarrow>
   length key = 32 \<and> length nonce \<in> {12, 24} \<and>
   (\<exists>ks c tag. cy_chacha lib rounds (fst (chacha_parameters lib key nonce)) (snd (chacha_parameters lib key nonce)) = Some ks \<and>
      w = c @ tag \<and> poly1305_mac lib (stream_bytes ks 0 32) (poly1305_input c) = Inr tag \<and>
      p = xor_bytes c (stream_bytes ks 64 (length c)))"
  (is "?l \<longleftrightarrow> ?r")
proof
  assume ?l
  then obtain ks tag where *: "length key = 32" "length nonce \<in> {12, 24}" "16 \<le> length w"
    "cy_chacha lib rounds (fst (chacha_parameters lib key nonce)) (snd (chacha_parameters lib key nonce)) = Some ks"
    "poly1305_mac lib (stream_bytes ks 0 32) (poly1305_input (take (length w - 16) w)) = Inr tag"
    "tag = drop (length w - 16) w"
    "p = xor_bytes (take (length w - 16) w) (stream_bytes ks 64 (length w - 16))"
    by (auto simp: chacha8_poly1305_crypt_def Let_def case_prod_beta result_simps split: if_splits option.splits)
  then show ?r by (metis (no_types, lifting) append_take_drop_id diff_le_self length_take min.absorb2)
next
  assume ?r
  then obtain ks c tag where *: "length key = 32" "length nonce \<in> {12, 24}"
    "cy_chacha lib rounds (fst (chacha_parameters lib key nonce)) (snd (chacha_parameters lib key nonce)) = Some ks"
    "w = c @ tag" "poly1305_mac lib (stream_bytes ks 0 32) (poly1305_input c) = Inr tag"
    "p = xor_bytes c (stream_bytes ks 64 (length c))" by blast
  then show ?l
    using poly1305_mac_length [OF *(5)]
    by (auto simp: chacha8_poly1305_crypt_def Let_def case_prod_beta)
qed

theorem chacha8_exact:
  "chacha8_poly1305_crypt lib key nonce w False rounds = Inr p \<longleftrightarrow>
   chacha8_poly1305_crypt lib key nonce p True rounds = Inr w"
proof -
  have inv: "xor_bytes (xor_bytes c (stream_bytes ks 64 (length c))) (stream_bytes ks 64 (length c)) = c" for ks c
    by (rule xor_bytes_twice) simp
  have sym: "p = xor_bytes c (stream_bytes ks 64 (length c)) \<longleftrightarrow> c = xor_bytes p (stream_bytes ks 64 (length p))" for ks c
    using inv [of c ks] inv [of p ks] by auto
  show ?thesis
    unfolding chacha8_encrypt_iff chacha8_decrypt_iff sym by blast
qed

section \<open>AEAD methods\<close>

definition aead_encrypt :: "crypto_api \<Rightarrow> string \<Rightarrow> bytes \<Rightarrow> bytes \<Rightarrow> bytes \<Rightarrow> bytes res" where
  "aead_encrypt lib m key nonce plaintext =
     (case cipher_method m of
        Inl e \<Rightarrow> Inl e
      | Inr spec \<Rightarrow>
          (if cm_kind spec \<noteq> Kind_aead then Inl (mk_error Configuration ''Shadowsocks method is not AEAD'')
           else if length key \<noteq> cm_key_size spec \<or> length nonce \<noteq> cm_nonce_size spec \<or> length plaintext > INT_MAX
           then Inl (mk_error Configuration ''Shadowsocks key, nonce, or plaintext is invalid'')
           else if is_chacha8_method (cm_name spec) then chacha8_poly1305_crypt lib key nonce plaintext True 8
           else if is_aes_ccm_method (cm_name spec) then aes_ccm_crypt lib key nonce plaintext True
           else case cm_aead spec of
             None \<Rightarrow> Inl (crypto_error ''failed to initialize Shadowsocks encryption'')
           | Some aead \<Rightarrow>
               (case cy_seal lib aead key nonce plaintext of
                  None \<Rightarrow> Inl (crypto_error ''failed to encrypt Shadowsocks data'')
                | Some w \<Rightarrow> Inr w)))"

definition aead_decrypt :: "crypto_api \<Rightarrow> string \<Rightarrow> bytes \<Rightarrow> bytes \<Rightarrow> bytes \<Rightarrow> bytes res" where
  "aead_decrypt lib m key nonce ciphertext =
     (case cipher_method m of
        Inl e \<Rightarrow> Inl e
      | Inr spec \<Rightarrow>
          (if cm_kind spec \<noteq> Kind_aead then Inl (mk_error Configuration ''Shadowsocks method is not AEAD'')
           else if length key \<noteq> cm_key_size spec \<or> length nonce \<noteq> cm_nonce_size spec \<or>
             length ciphertext < cm_overhead spec \<or> length ciphertext - cm_overhead spec > INT_MAX
           then Inl (mk_error Protocol_framing ''Shadowsocks key, nonce, or ciphertext is invalid'')
           else if is_chacha8_method (cm_name spec) then chacha8_poly1305_crypt lib key nonce ciphertext False 8
           else if is_aes_ccm_method (cm_name spec) then aes_ccm_crypt lib key nonce ciphertext False
           else case cm_aead spec of
             None \<Rightarrow> Inl (crypto_error ''failed to initialize Shadowsocks decryption'')
           | Some aead \<Rightarrow>
               (case cy_open lib aead key nonce ciphertext of
                  None \<Rightarrow> Inl (crypto_error ''Shadowsocks authentication tag verification failed'')
                | Some p \<Rightarrow> Inr p)))"

text \<open>\<^verbatim>\<open>xchacha20_poly1305_encrypt\<close> and \<^verbatim>\<open>xchacha20_poly1305_decrypt\<close>.\<close>

definition xchacha20_poly1305_encrypt :: "crypto_api \<Rightarrow> bytes \<Rightarrow> bytes \<Rightarrow> bytes \<Rightarrow> bytes res" where
  "xchacha20_poly1305_encrypt lib key nonce plaintext =
     (if length key \<noteq> 32 \<or> length nonce \<noteq> 24 \<or> length plaintext > INT_MAX
      then Inl (mk_error Configuration ''invalid XChaCha20-Poly1305 parameters'')
      else case cy_seal lib Evp_xchacha20_poly1305 key nonce plaintext of
        None \<Rightarrow> Inl (crypto_error ''failed to encrypt XChaCha20-Poly1305 data'')
      | Some w \<Rightarrow> Inr w)"

definition xchacha20_poly1305_decrypt :: "crypto_api \<Rightarrow> bytes \<Rightarrow> bytes \<Rightarrow> bytes \<Rightarrow> bytes res" where
  "xchacha20_poly1305_decrypt lib key nonce ciphertext =
     (if length key \<noteq> 32 \<or> length nonce \<noteq> 24 \<or> length ciphertext < 16 \<or> length ciphertext - 16 > INT_MAX
      then Inl (mk_error Protocol_framing ''invalid XChaCha20-Poly1305 parameters'')
      else case cy_open lib Evp_xchacha20_poly1305 key nonce ciphertext of
        None \<Rightarrow> Inl (crypto_error ''XChaCha20-Poly1305 authentication failed'')
      | Some p \<Rightarrow> Inr p)"

lemma xchacha20_roundtrip:
  assumes "seal_laws lib" "xchacha20_poly1305_encrypt lib key nonce p = Inr w"
  shows "xchacha20_poly1305_decrypt lib key nonce w = Inr p" "length w = length p + 16"
  using assms
  by (auto simp: xchacha20_poly1305_encrypt_def xchacha20_poly1305_decrypt_def seal_laws_def split: if_splits option.splits)

text \<open>The largest plaintext whose AES-CCM ciphertext is still accepted is 16 bytes below the largest that is sealed.\<close>

definition aead_fits :: "string \<Rightarrow> bytes \<Rightarrow> bool" where
  "aead_fits m p \<longleftrightarrow> (\<forall>spec. cipher_method m = Inr spec \<longrightarrow> is_aes_ccm_method (cm_name spec) \<longrightarrow> length p + 16 \<le> 0xFFFFFF)"

lemma chacha8_length:
  "chacha8_poly1305_crypt lib key nonce p True rounds = Inr w \<Longrightarrow> length w = length p + 16"
  by (auto simp: chacha8_encrypt_iff poly1305_mac_length)

lemma ccm_key_ok:
  assumes "aead_spec_ok spec" "is_aes_ccm_method (cm_name spec)" "length key = cm_key_size spec" "length nonce = cm_nonce_size spec"
  shows "ccm_parameters_ok key nonce"
  using assms by (auto simp: aead_spec_ok_def ccm_parameters_ok_def)

theorem aead_roundtrip:
  assumes "seal_laws lib" "aead_encrypt lib m key nonce p = Inr w" "aead_fits m p"
  shows "aead_decrypt lib m key nonce w = Inr p \<and> length w = length p + 16"
proof -
  obtain spec where spec: "cipher_method m = Inr spec" "cm_kind spec = Kind_aead" "length key = cm_key_size spec"
    "length nonce = cm_nonce_size spec" "length p \<le> INT_MAX"
    using assms(2) by (auto simp: aead_encrypt_def split: sum.splits if_splits)
  note ok = cipher_method_aead [OF spec(1,2)]
  then have over: "cm_overhead spec = 16" by (simp add: aead_spec_ok_def)
  consider (chacha8) "is_chacha8_method (cm_name spec)" "chacha8_poly1305_crypt lib key nonce p True 8 = Inr w"
    | (ccm) "\<not> is_chacha8_method (cm_name spec)" "is_aes_ccm_method (cm_name spec)" "aes_ccm_crypt lib key nonce p True = Inr w"
    | (evp) aead where "\<not> is_chacha8_method (cm_name spec)" "\<not> is_aes_ccm_method (cm_name spec)"
        "cm_aead spec = Some aead" "cy_seal lib aead key nonce p = Some w"
    using assms(2) spec by (auto simp: aead_encrypt_def not_less split: if_splits option.splits)
  then show ?thesis
  proof cases
    case chacha8
    then have "chacha8_poly1305_crypt lib key nonce w False 8 = Inr p" "length w = length p + 16"
      by (simp_all add: chacha8_exact chacha8_length)
    then show ?thesis using chacha8 spec over by (simp add: aead_decrypt_def)
  next
    case ccm
    have small: "length p + 16 \<le> 0xFFFFFF" using assms(3) ccm(2) spec(1) by (simp add: aead_fits_def)
    have key: "ccm_parameters_ok key nonce" using ccm_key_ok [OF ok ccm(2) spec(3,4)] .
    then have w: "w = ccm_seal lib key nonce p" using ccm(3) aes_ccm_encrypt_rfc [OF key, of p lib] small by simp
    then have "aes_ccm_crypt lib key nonce w False = Inr p" using aes_ccm_decrypt_rfc [OF key, of w lib p] small by simp
    then show ?thesis using ccm spec over w by (simp add: aead_decrypt_def)
  next
    case evp
    then have "length w = length p + 16" "cy_open lib aead key nonce w = Some p"
      using assms(1) by (auto simp: seal_laws_def)
    then show ?thesis using evp spec over by (simp add: aead_decrypt_def)
  qed
qed

end
