(* ===== verification/Legacy_Cipher.thy ===== *)
theory Legacy_Cipher
  imports Shadowsocks_Crypto
begin

text \<open>
  \<^verbatim>\<open>LegacyStreamCipher\<close> of \<^verbatim>\<open>src/transport/proxy/crypto.cpp\<close>, the stream ciphers of Shadowsocks before the AEAD
  methods, and the nonce counter.  The CFB mode is the code's own, over single AES blocks; the other engines are
  key streams of the libraries.
\<close>

section \<open>The state\<close>

datatype engine =
    is_closed: Eng_closed
  | Eng_chacha "nat \<Rightarrow> byte"
  | Eng_cfb "128 word \<Rightarrow> 128 word"
  | Eng_evp "nat \<Rightarrow> byte"

record legacy_stream =
  ls_engine :: engine
  ls_position :: nat  \<comment> \<open>bytes taken from the key stream of a library\<close>
  ls_feedback :: bytes
  ls_offset :: nat
  ls_keystream :: bytes
  ls_encrypt :: bool

definition legacy_stream_of :: "engine \<Rightarrow> bytes \<Rightarrow> bool \<Rightarrow> legacy_stream" where
  "legacy_stream_of e feedback encrypt =
     \<lparr>ls_engine = e, ls_position = 0, ls_feedback = feedback, ls_offset = 0, ls_keystream = replicate 16 0,
      ls_encrypt = encrypt\<rparr>"

text \<open>The engine of a method, with the initial feedback; both directions use the same.\<close>

definition legacy_engine :: "crypto_api \<Rightarrow> string \<Rightarrow> bytes \<Rightarrow> bytes \<Rightarrow> (engine \<times> bytes) res" where
  "legacy_engine lib m key iv =
     (case cipher_method m of
        Inl e \<Rightarrow> Inl e
      | Inr spec \<Rightarrow>
          (if cm_kind spec \<noteq> Kind_stream \<or> length key \<noteq> cm_key_size spec \<or> length iv \<noteq> cm_iv_size spec
           then Inl (mk_error Configuration ''invalid Shadowsocks legacy stream cipher parameters'')
           else if cm_name spec = ''chacha20'' \<or> cm_name spec = ''chacha20-ietf'' \<or> cm_name spec = ''xchacha20''
           then case cy_chacha lib 20 key iv of
               None \<Rightarrow> Inl (crypto_error ''Botan ChaCha is unavailable'')
             | Some ks \<Rightarrow> Inr (Eng_chacha ks, replicate 16 0)
           else if cm_name spec = ''rc4-md5''
           then case cy_md5 lib (key @ iv) of
               None \<Rightarrow> Inl (crypto_error ''failed to initialize RC4-MD5'')
             | Some rc4_key \<Rightarrow> Inr (Eng_evp (cy_rc4 lib (be_bytes 16 rc4_key)), replicate 16 0)
           else if str_contains ''-cfb'' (cm_name spec)
           then Inr (Eng_cfb (cy_aes lib key), iv)
           else Inr (Eng_evp (cy_aes_ctr lib key iv), replicate 16 0)))"

definition legacy_create :: "crypto_api \<Rightarrow> string \<Rightarrow> bytes \<Rightarrow> bytes \<Rightarrow> bool \<Rightarrow> legacy_stream res" where
  "legacy_create lib m key iv encrypt =
     result_bind (legacy_engine lib m key iv) (\<lambda>(e, feedback). Inr (legacy_stream_of e feedback encrypt))"

section \<open>Updating\<close>

text \<open>One byte of the CFB loop: the key stream of a block is made at its first byte, the feedback is the ciphertext.\<close>

definition cfb_byte :: "(128 word \<Rightarrow> 128 word) \<Rightarrow> byte \<Rightarrow> legacy_stream \<Rightarrow> byte \<times> legacy_stream" where
  "cfb_byte aes b s =
     (let s = (if ls_offset s = 0 then s\<lparr>ls_keystream := be_bytes 16 (aes (be_word (ls_feedback s)))\<rparr> else s);
          out = b XOR (ls_keystream s ! ls_offset s);
          s = s\<lparr>ls_feedback := (ls_feedback s)[ls_offset s := (if ls_encrypt s then out else b)]\<rparr>
      in (out, s\<lparr>ls_offset := (ls_offset s + 1) mod 16\<rparr>))"

fun cfb_bytes :: "(128 word \<Rightarrow> 128 word) \<Rightarrow> bytes \<Rightarrow> legacy_stream \<Rightarrow> bytes \<times> legacy_stream" where
  "cfb_bytes aes [] s = ([], s)"
| "cfb_bytes aes (b # bs) s =
     (let (out, s) = cfb_byte aes b s; (outs, s) = cfb_bytes aes bs s in (out # outs, s))"

definition stream_update :: "(nat \<Rightarrow> byte) \<Rightarrow> bytes \<Rightarrow> legacy_stream \<Rightarrow> bytes \<times> legacy_stream" where
  "stream_update ks data s =
     (xor_bytes data (stream_bytes ks (ls_position s) (length data)), s\<lparr>ls_position := ls_position s + length data\<rparr>)"

text \<open>The data is changed in place: it is returned with the cipher.\<close>

definition legacy_update :: "bytes \<Rightarrow> legacy_stream \<Rightarrow> (bytes \<times> legacy_stream) res" where
  "legacy_update data s =
     (if is_closed (ls_engine s) \<or> length data > INT_MAX
      then Inl (mk_error Transport_io ''Shadowsocks stream cipher is closed'')
      else if data = [] then Inr (data, s)
      else case ls_engine s of
        Eng_chacha ks \<Rightarrow> Inr (stream_update ks data s)
      | Eng_cfb aes \<Rightarrow> Inr (cfb_bytes aes data s)
      | Eng_evp ks \<Rightarrow> Inr (stream_update ks data s))"

text \<open>Several updates in a row.\<close>

fun legacy_updates :: "bytes list \<Rightarrow> legacy_stream \<Rightarrow> (bytes \<times> legacy_stream) res" where
  "legacy_updates [] s = Inr ([], s)"
| "legacy_updates (data # later) s =
     result_bind (legacy_update data s) (\<lambda>(out, s).
       result_bind (legacy_updates later s) (\<lambda>(outs, s). Inr (out @ outs, s)))"

section \<open>The nonce counter\<close>

fun increment_nonce :: "bytes \<Rightarrow> bytes" where
  "increment_nonce [] = []"
| "increment_nonce (b # bs) = (if b + 1 \<noteq> 0 then (b + 1) # bs else 0 # increment_nonce bs)"

text \<open>It counts, least significant byte first.\<close>

fun nonce_value :: "bytes \<Rightarrow> nat" where
  "nonce_value [] = 0"
| "nonce_value (b # bs) = unat b + 256 * nonce_value bs"

lemma nonce_value_bound: "nonce_value bs < 256 ^ length bs"
proof (induction bs)
  case (Cons b bs)
  have "unat b < 256" using unat_byte_le [of b] by linarith
  then show ?case using Cons by simp
qed simp

lemma length_increment_nonce [simp]: "length (increment_nonce bs) = length bs"
  by (induction bs) simp_all

lemma unat_byte_inc: "(b :: byte) + 1 \<noteq> 0 \<Longrightarrow> unat (b + 1) = unat b + 1"
  by (metis add.commute unatSuc Suc_eq_plus1)

lemma unat_byte_wrap: "(b :: byte) + 1 = 0 \<Longrightarrow> unat b = 255"
proof -
  assume "b + 1 = 0"
  then have "b = - 1" by (simp add: eq_neg_iff_add_eq_0)
  moreover have "unat (- 1 :: byte) = 255" by code_simp
  ultimately show ?thesis by simp
qed

theorem increment_nonce_value: "nonce_value (increment_nonce bs) = (nonce_value bs + 1) mod 256 ^ length bs"
proof (induction bs)
  case (Cons b bs)
  have bound: "nonce_value bs < 256 ^ length bs" by (rule nonce_value_bound)
  show ?case
  proof (cases "b + 1 = 0")
    case True
    then have "nonce_value (b # bs) + 1 = 256 * (nonce_value bs + 1)" by (simp add: unat_byte_wrap)
    then show ?thesis using True Cons by (simp add: mult_mod_right)
  next
    case False
    have "unat (b + 1) \<le> 255" by simp
    then have "unat (b + 1) + 256 * nonce_value bs < 256 * 256 ^ length bs" using bound by linarith
    then show ?thesis using False by (simp add: unat_byte_inc)
  qed
qed simp

section \<open>Segmentation and inversion\<close>

definition legacy_ok :: "legacy_stream \<Rightarrow> bool" where
  "legacy_ok s \<longleftrightarrow> \<not> is_closed (ls_engine s)"

lemma cfb_bytes_append:
  "cfb_bytes aes (a @ b) s =
     (let (x, s) = cfb_bytes aes a s; (y, s) = cfb_bytes aes b s in (x @ y, s))"
  by (induction a arbitrary: s) (simp_all add: case_prod_beta)

lemma cfb_bytes_kept:
  "ls_engine (snd (cfb_bytes aes bs s)) = ls_engine s" "ls_encrypt (snd (cfb_bytes aes bs s)) = ls_encrypt s"
  "length (fst (cfb_bytes aes bs s)) = length bs"
  by (induction bs arbitrary: s) (simp_all add: case_prod_beta cfb_byte_def Let_def)

lemma stream_bytes_append:
  "stream_bytes ks i (m + n) = stream_bytes ks i m @ stream_bytes ks (i + m) n"
  using upt_add_eq_append [of i "i + m" n] by (simp add: stream_bytes_def add.assoc)

lemma stream_update_append:
  "stream_update ks (a @ b) s =
     (let (x, s) = stream_update ks a s; (y, s) = stream_update ks b s in (x @ y, s))"
  by (simp add: stream_update_def stream_bytes_append add.assoc)

text \<open>What an engine makes of some bytes, whatever their number.\<close>

definition legacy_run :: "bytes \<Rightarrow> legacy_stream \<Rightarrow> bytes \<times> legacy_stream" where
  "legacy_run data s =
     (case ls_engine s of
        Eng_closed \<Rightarrow> (data, s)
      | Eng_chacha ks \<Rightarrow> stream_update ks data s
      | Eng_cfb aes \<Rightarrow> cfb_bytes aes data s
      | Eng_evp ks \<Rightarrow> stream_update ks data s)"

lemma legacy_run_Nil [simp]: "legacy_run [] s = ([], s)"
  by (simp add: legacy_run_def stream_update_def split: engine.split)

lemma legacy_run_kept [simp]:
  "ls_engine (snd (legacy_run data s)) = ls_engine s" "length (fst (legacy_run data s)) = length data"
  by (simp_all add: legacy_run_def stream_update_def cfb_bytes_kept split: engine.split)

lemma legacy_run_append:
  "legacy_run (a @ b) s = (fst (legacy_run a s) @ fst (legacy_run b (snd (legacy_run a s))),
     snd (legacy_run b (snd (legacy_run a s))))"
proof (cases "ls_engine s")
  case (Eng_cfb aes)
  then show ?thesis by (simp add: legacy_run_def cfb_bytes_append cfb_bytes_kept case_prod_beta)
qed (simp_all add: legacy_run_def stream_update_append case_prod_beta, simp_all add: stream_update_def)

lemma legacy_update_run:
  "legacy_ok s \<Longrightarrow> length data \<le> INT_MAX \<Longrightarrow> legacy_update data s = Inr (legacy_run data s)"
  by (auto simp: legacy_update_def legacy_run_def legacy_ok_def split: engine.split)
    (simp_all add: stream_update_def)

theorem legacy_updates_run:
  assumes "legacy_ok s" "\<forall>data\<in>set segments. length data \<le> INT_MAX"
  shows "legacy_updates segments s = Inr (legacy_run (concat segments) s)"
  using assms
proof (induction segments arbitrary: s)
  case (Cons data later)
  then have "legacy_ok (snd (legacy_run data s))" by (simp add: legacy_ok_def)
  then show ?case using Cons by (simp add: legacy_update_run legacy_run_append case_prod_beta)
qed simp

text \<open>Encryption and decryption keep the same state.\<close>

definition mirrored :: "legacy_stream \<Rightarrow> legacy_stream \<Rightarrow> bool" where
  "mirrored e d \<longleftrightarrow> ls_encrypt e \<and> d = e\<lparr>ls_encrypt := False\<rparr>"

lemma cfb_byte_mirrored:
  assumes "mirrored e d"
  shows "fst (cfb_byte aes (fst (cfb_byte aes b e)) d) = b \<and>
    mirrored (snd (cfb_byte aes b e)) (snd (cfb_byte aes (fst (cfb_byte aes b e)) d))"
  using assms by (auto simp: mirrored_def cfb_byte_def Let_def xor.assoc)

lemma cfb_bytes_mirrored:
  "mirrored e d \<Longrightarrow> fst (cfb_bytes aes (fst (cfb_bytes aes bs e)) d) = bs \<and>
     mirrored (snd (cfb_bytes aes bs e)) (snd (cfb_bytes aes (fst (cfb_bytes aes bs e)) d))"
proof (induction bs arbitrary: e d)
  case (Cons b bs)
  note first = cfb_byte_mirrored [OF Cons.prems, of aes b]
  then show ?case
    using Cons.IH [of "snd (cfb_byte aes b e)" "snd (cfb_byte aes (fst (cfb_byte aes b e)) d)"]
    by (simp add: case_prod_beta)
qed simp

lemma legacy_run_mirrored:
  assumes "mirrored e d"
  shows "fst (legacy_run (fst (legacy_run p e)) d) = p"
proof (cases "ls_engine e")
  case (Eng_cfb aes)
  then show ?thesis using assms cfb_bytes_mirrored [OF assms] by (simp add: legacy_run_def mirrored_def)
qed (use assms in \<open>simp_all add: legacy_run_def mirrored_def stream_update_def xor_bytes_twice\<close>)

lemma legacy_engine_open: "legacy_engine lib m key iv = Inr (e, feedback) \<Longrightarrow> \<not> is_closed e"
  unfolding legacy_engine_def by (simp split: sum.split_asm if_split_asm option.split_asm) auto

lemma legacy_create_mirrored:
  assumes "legacy_create lib m key iv True = Inr e"
  obtains d where "legacy_create lib m key iv False = Inr d" "mirrored e d" "legacy_ok e" "legacy_ok d"
proof -
  obtain eng feedback where "legacy_engine lib m key iv = Inr (eng, feedback)" "e = legacy_stream_of eng feedback True"
    using assms by (auto simp: legacy_create_def result_simps)
  then show thesis
    using legacy_engine_open
    by (intro that [of "legacy_stream_of eng feedback False"])
      (simp_all add: legacy_create_def mirrored_def legacy_stream_of_def legacy_ok_def)
qed

text \<open>C40: A legacy stream cipher is transparent for its stream: however the sender cuts its plaintext into updates and
however the receiver cuts the ciphertext, the receiver's cipher of the same method, key and IV gives back the
plaintext, with as many bytes as went in.\<close>

theorem legacy_streams_transparent:
  assumes "legacy_create lib m key iv True = Inr e" "legacy_create lib m key iv False = Inr d"
    and "\<forall>data\<in>set (plain @ pieces). length data \<le> INT_MAX"
    and "legacy_updates plain e = Inr (c, e')" "concat pieces = c"
  shows "length c = length (concat plain) \<and> (\<exists>d'. legacy_updates pieces d = Inr (concat plain, d'))"
proof -
  obtain d0 where d: "legacy_create lib m key iv False = Inr d0" "mirrored e d0" "legacy_ok e" "legacy_ok d0"
    using legacy_create_mirrored [OF assms(1)] .
  have c: "c = fst (legacy_run (concat plain) e)"
    using legacy_updates_run [OF d(3), of plain] assms(3,4) by simp (metis fst_conv)
  have "d0 = d" using d(1) assms(2) by simp
  then have "legacy_updates pieces d = Inr (legacy_run c d)"
    using legacy_updates_run [of d pieces] d(4) assms(3,5) by simp
  moreover have "fst (legacy_run c d) = concat plain" using legacy_run_mirrored [OF d(2)] c \<open>d0 = d\<close> by simp
  ultimately have "legacy_updates pieces d = Inr (concat plain, snd (legacy_run c d))" by (metis prod.collapse)
  then show ?thesis using c by auto
qed

theorem legacy_streams_transparent_witness:
  "\<exists>e d c e' d'. legacy_create sample_crypto ''aes-128-cfb'' (replicate 16 1) (replicate 16 2) True = Inr e \<and>
     legacy_create sample_crypto ''aes-128-cfb'' (replicate 16 1) (replicate 16 2) False = Inr d \<and>
     legacy_updates [[1, 2], [3]] e = Inr (c, e') \<and> legacy_updates [take 1 c, drop 1 c] d = Inr ([1, 2, 3], d')"
proof -
  let ?e = "legacy_create sample_crypto ''aes-128-cfb'' (replicate 16 1) (replicate 16 2)"
  have "succeeds (?e True)" by code_simp
  then obtain e where e: "?e True = Inr e" by (auto simp: succeeds_iff)
  obtain d where d: "?e False = Inr d" "legacy_ok e" using legacy_create_mirrored [OF e] .
  have run: "legacy_updates [[1, 2], [3]] e = Inr (legacy_run [1, 2, 3] e)"
    using legacy_updates_run [OF d(2), of "[[1, 2], [3]]"] by (simp add: INT_MAX_def)
  define c where "c = fst (legacy_run [1, 2, 3] e)"
  have c: "legacy_updates [[1, 2], [3]] e = Inr (c, snd (legacy_run [1, 2, 3] e))" using run by (simp add: c_def)
  have len: "length c = 3" by (simp add: c_def)
  have small: "\<forall>data\<in>set ([[1, 2], [3]] @ [take 1 c, drop 1 c]). length data \<le> INT_MAX"
    using len by (simp add: INT_MAX_def)
  have cat: "concat [take 1 c, drop 1 c] = c" by simp
  obtain d' where "legacy_updates [take 1 c, drop 1 c] d = Inr (concat [[1, 2], [3]], d')"
    using legacy_streams_transparent [OF e d(1) small c cat] by blast
  then have d': "legacy_updates [take 1 c, drop 1 c] d = Inr ([1, 2, 3], d')" by simp
  show ?thesis by (intro exI conjI) (rule e, rule d(1), rule c, rule d')
qed

end
