(* ===== verification/Shadowsocks_Packets.thy ===== *)
theory Shadowsocks_Packets
  imports Legacy_Cipher
begin

text \<open>
  The datagram formats of Shadowsocks: \<^verbatim>\<open>aead_packet.cpp\<close>, \<^verbatim>\<open>legacy_packet.cpp\<close> and \<^verbatim>\<open>ss2022_packet.cpp\<close> of
  \<^verbatim>\<open>src/transport/shadowsocks\<close>.  Random bytes and clock readings are arguments: \<open>None\<close> is a generator that fails.
\<close>

type_synonym entropy = "(nat \<Rightarrow> byte) option"

definition random_bytes :: "entropy \<Rightarrow> nat \<Rightarrow> bytes option" where
  "random_bytes rand n = map_option (\<lambda>f. map f [0..<n]) rand"

lemma length_random_bytes: "random_bytes rand n = Some bs \<Longrightarrow> length bs = n"
  by (auto simp: random_bytes_def)

definition packet_error :: "string \<Rightarrow> error" where
  "packet_error = mk_error Protocol_framing"

section \<open>AEAD datagrams\<close>

text \<open>The methods of the classic format.\<close>

definition classic_aead :: "string \<Rightarrow> cipher_spec res" where
  "classic_aead m =
     (case cipher_method m of
        Inl e \<Rightarrow> Inl e
      | Inr spec \<Rightarrow>
          (if cm_kind spec \<noteq> Kind_aead \<or> cm_2022 spec
           then Inl (mk_error Configuration ''classic AEAD datagram requires a classic method'') else Inr spec))"

definition encrypt_aead_datagram :: "crypto_api \<Rightarrow> string \<Rightarrow> string \<Rightarrow> entropy \<Rightarrow> bytes \<Rightarrow> bytes res" where
  "encrypt_aead_datagram lib m password rand plaintext =
     result_bind (classic_aead m) (\<lambda>spec.
       case random_bytes rand (cm_key_size spec) of
         None \<Rightarrow> Inl (mk_error Authentication ''failed to generate Shadowsocks AEAD datagram salt'')
       | Some salt \<Rightarrow>
           result_bind (derive_aead_subkey lib m password salt) (\<lambda>key.
             result_bind (aead_encrypt lib m key (replicate (cm_nonce_size spec) 0) plaintext) (\<lambda>ciphertext.
               Inr (salt @ ciphertext))))"

definition decrypt_aead_datagram :: "crypto_api \<Rightarrow> string \<Rightarrow> string \<Rightarrow> bytes \<Rightarrow> bytes res" where
  "decrypt_aead_datagram lib m password wire =
     result_bind (classic_aead m) (\<lambda>spec.
       if length wire < cm_key_size spec + cm_overhead spec
       then Inl (packet_error ''Shadowsocks AEAD datagram is shorter than its salt'')
       else result_bind (derive_aead_subkey lib m password (take (cm_key_size spec) wire)) (\<lambda>key.
         aead_decrypt lib m key (replicate (cm_nonce_size spec) 0) (drop (cm_key_size spec) wire)))"

definition aead_datagram_payload_limit :: "string \<Rightarrow> nat \<Rightarrow> nat \<Rightarrow> nat" where
  "aead_datagram_payload_limit m wire_limit address_limit =
     (case classic_aead m of
        Inl e \<Rightarrow> 0
      | Inr spec \<Rightarrow>
          (if wire_limit < cm_key_size spec + cm_overhead spec + address_limit then 0
           else wire_limit - cm_key_size spec - cm_overhead spec - address_limit))"

section \<open>Legacy datagrams\<close>

definition encrypt_legacy_datagram :: "crypto_api \<Rightarrow> string \<Rightarrow> string \<Rightarrow> entropy \<Rightarrow> bytes \<Rightarrow> bytes res" where
  "encrypt_legacy_datagram lib m password rand plaintext =
     result_bind (cipher_method m) (\<lambda>spec.
       if cm_kind spec \<noteq> Kind_stream
       then Inl (mk_error Configuration ''legacy datagram encryption requires a stream cipher'')
       else case random_bytes rand (cm_iv_size spec) of
         None \<Rightarrow> Inl (mk_error Authentication ''failed to generate Shadowsocks datagram IV'')
       | Some iv \<Rightarrow>
           result_bind (derive_legacy_key lib m password iv) (\<lambda>key.
             result_bind (legacy_create lib m key iv True) (\<lambda>cipher.
               result_bind (legacy_update plaintext cipher) (\<lambda>(encrypted, cipher). Inr (iv @ encrypted)))))"

definition decrypt_legacy_datagram :: "crypto_api \<Rightarrow> string \<Rightarrow> string \<Rightarrow> bytes \<Rightarrow> bytes res" where
  "decrypt_legacy_datagram lib m password wire =
     result_bind (cipher_method m) (\<lambda>spec.
       if cm_kind spec \<noteq> Kind_stream
       then Inl (mk_error Configuration ''legacy datagram decryption requires a stream cipher'')
       else if length wire < cm_iv_size spec
       then Inl (packet_error ''Shadowsocks legacy datagram is shorter than its IV'')
       else result_bind (derive_legacy_key lib m password (take (cm_iv_size spec) wire)) (\<lambda>key.
         result_bind (legacy_create lib m key (take (cm_iv_size spec) wire) False) (\<lambda>cipher.
           result_bind (legacy_update (drop (cm_iv_size spec) wire) cipher) (\<lambda>(plaintext, cipher). Inr plaintext))))"

definition legacy_datagram_payload_limit :: "string \<Rightarrow> nat \<Rightarrow> nat \<Rightarrow> nat" where
  "legacy_datagram_payload_limit m wire_limit address_limit =
     (case cipher_method m of
        Inl e \<Rightarrow> 0
      | Inr spec \<Rightarrow>
          (if cm_kind spec \<noteq> Kind_stream \<or> wire_limit < cm_iv_size spec then 0
           else wire_limit - cm_iv_size spec - address_limit))"

section \<open>Shadowsocks 2022 datagrams\<close>

record ss2022_codec =
  sc_method :: string
  sc_password :: string
  sc_psk :: bytes
  sc_session_id :: u64
  sc_packet_id :: u64

definition read_u64 :: "bytes \<Rightarrow> nat \<Rightarrow> u64" where
  "read_u64 input offset = be_word (take 8 (drop offset input))"

definition read_u16 :: "bytes \<Rightarrow> nat \<Rightarrow> u16" where
  "read_u16 input offset = be_word (take 2 (drop offset input))"

definition new_ss2022_codec :: "crypto_api \<Rightarrow> string \<Rightarrow> string \<Rightarrow> entropy \<Rightarrow> ss2022_codec" where
  "new_ss2022_codec lib m password rand =
     (let codec = \<lparr>sc_method = m, sc_password = password, sc_psk = [], sc_session_id = 0, sc_packet_id = 0\<rparr> in
      case cipher_method m of
        Inl e \<Rightarrow> codec
      | Inr spec \<Rightarrow>
          (if \<not> cm_2022 spec then codec
           else case decode_shadowsocks_2022_psk lib m password of
             Inl e \<Rightarrow> codec
           | Inr psk \<Rightarrow>
               (case random_bytes rand 8 of
                  None \<Rightarrow> codec\<lparr>sc_psk := psk\<rparr>
                | Some bs \<Rightarrow> codec\<lparr>sc_psk := psk, sc_session_id := read_u64 bs 0\<rparr>)))"

definition is_aes_method :: "cipher_spec \<Rightarrow> bool" where
  "is_aes_method spec \<longleftrightarrow> cm_name spec = ''2022-blake3-aes-128-gcm'' \<or> cm_name spec = ''2022-blake3-aes-256-gcm''"

text \<open>One block of AES, without padding.\<close>

definition aes_ecb_crypt :: "crypto_api \<Rightarrow> bytes \<Rightarrow> bytes \<Rightarrow> bool \<Rightarrow> bytes res" where
  "aes_ecb_crypt lib key block encrypt =
     (if length block \<noteq> 16 then Inl (packet_error ''invalid Shadowsocks 2022 packet header size'')
      else if length key \<noteq> 16 \<and> length key \<noteq> 32
      then Inl (packet_error ''unsupported Shadowsocks 2022 packet header key'')
      else Inr (be_bytes 16 ((if encrypt then cy_aes lib key else cy_aes_inverse lib key) (be_word block))))"

definition timestamp_is_recent :: "u64 \<Rightarrow> u64 \<Rightarrow> bool" where
  "timestamp_is_recent now timestamp \<longleftrightarrow> timestamp \<le> now + 30 \<and> now \<le> timestamp + 30"

text \<open>The header of a response: type 1, the time, the session it answers, and padding.\<close>

definition strip_response_header :: "u64 \<Rightarrow> bytes \<Rightarrow> u64 \<Rightarrow> bytes res" where
  "strip_response_header now plaintext expected_session_id =
     (if length plaintext < 19 \<or> plaintext ! 0 \<noteq> 1 \<or> \<not> timestamp_is_recent now (read_u64 plaintext 1)
      then Inl (packet_error ''invalid Shadowsocks 2022 UDP response header'')
      else if read_u64 plaintext 9 \<noteq> expected_session_id
      then Inl (packet_error ''Shadowsocks 2022 UDP response targets another session'')
      else let payload_offset = 19 + unat (read_u16 plaintext 17) in
        (if payload_offset > length plaintext
         then Inl (packet_error ''invalid Shadowsocks 2022 UDP response padding'')
         else Inr (drop payload_offset plaintext)))"

text \<open>
  \<^verbatim>\<open>encrypt\<close>: the packet number is taken before anything can fail.  The AES methods encrypt the header under
  the shared key and use twelve bytes of it as the nonce of the body; the other takes a random nonce.
\<close>

definition ss2022_body :: "u64 \<Rightarrow> bytes \<Rightarrow> bytes \<Rightarrow> bytes" where
  "ss2022_body now destination payload = [0] @ be_bytes 8 now @ be_bytes 2 (1 :: u16) @ [0] @ destination @ payload"

definition ss2022_header :: "ss2022_codec \<Rightarrow> bytes" where
  "ss2022_header codec = be_bytes 8 (sc_session_id codec) @ be_bytes 8 (sc_packet_id codec)"

definition ss2022_nonce :: "bytes \<Rightarrow> bytes" where
  "ss2022_nonce packet_header = take 12 (drop 4 packet_header)"

definition ss2022_encrypt_aes :: "crypto_api \<Rightarrow> ss2022_codec \<Rightarrow> bytes \<Rightarrow> bytes res" where
  "ss2022_encrypt_aes lib codec body =
     (let packet_header = ss2022_header codec in
      result_bind (derive_shadowsocks_2022_subkey lib (sc_method codec) (sc_password codec) (take 8 packet_header))
        (\<lambda>session_key.
          result_bind (aead_encrypt lib (sc_method codec) session_key (ss2022_nonce packet_header) body) (\<lambda>ciphertext.
            result_bind (aes_ecb_crypt lib (sc_psk codec) packet_header True) (\<lambda>encrypted_header.
              Inr (encrypted_header @ ciphertext)))))"

definition ss2022_encrypt_chacha :: "crypto_api \<Rightarrow> ss2022_codec \<Rightarrow> entropy \<Rightarrow> bytes \<Rightarrow> bytes res" where
  "ss2022_encrypt_chacha lib codec rand body =
     (case random_bytes rand 24 of
        None \<Rightarrow> Inl (mk_error Authentication ''failed to generate Shadowsocks 2022 UDP nonce'')
      | Some nonce \<Rightarrow>
          result_bind (xchacha20_poly1305_encrypt lib (sc_psk codec) nonce (ss2022_header codec @ body))
            (\<lambda>ciphertext. Inr (nonce @ ciphertext)))"

definition ss2022_encrypt :: "crypto_api \<Rightarrow> u64 \<Rightarrow> entropy \<Rightarrow> bytes \<Rightarrow> bytes \<Rightarrow> ss2022_codec \<Rightarrow> bytes res \<times> ss2022_codec" where
  "ss2022_encrypt lib now rand destination payload codec =
     (case cipher_method (sc_method codec) of
        Inl e \<Rightarrow> (Inl (packet_error ''invalid Shadowsocks 2022 UDP configuration''), codec)
      | Inr spec \<Rightarrow>
          (if \<not> cm_2022 spec \<or> sc_psk codec = [] \<or> destination = []
           then (Inl (packet_error ''invalid Shadowsocks 2022 UDP configuration''), codec)
           else if sc_session_id codec = 0
           then (Inl (mk_error Authentication ''failed to initialize Shadowsocks 2022 UDP session''), codec)
           else let body = ss2022_body now destination payload in
             ((if is_aes_method spec then ss2022_encrypt_aes lib codec body
               else ss2022_encrypt_chacha lib codec rand body),
              codec\<lparr>sc_packet_id := sc_packet_id codec + 1\<rparr>)))"

definition ss2022_decrypt_aes :: "crypto_api \<Rightarrow> ss2022_codec \<Rightarrow> u64 \<Rightarrow> bytes \<Rightarrow> bytes res" where
  "ss2022_decrypt_aes lib codec now wire =
     (if length wire < 16 + 16 + 19 then Inl (packet_error ''Shadowsocks 2022 UDP response is too short'')
      else result_bind (aes_ecb_crypt lib (sc_psk codec) (take 16 wire) False) (\<lambda>packet_header.
        result_bind (derive_shadowsocks_2022_subkey lib (sc_method codec) (sc_password codec) (take 8 packet_header))
          (\<lambda>session_key.
            result_bind (aead_decrypt lib (sc_method codec) session_key (ss2022_nonce packet_header) (drop 16 wire))
              (\<lambda>plaintext. strip_response_header now plaintext (sc_session_id codec)))))"

definition ss2022_decrypt_chacha :: "crypto_api \<Rightarrow> ss2022_codec \<Rightarrow> u64 \<Rightarrow> bytes \<Rightarrow> bytes res" where
  "ss2022_decrypt_chacha lib codec now wire =
     (if length wire < 24 + 16 + 16 + 19 then Inl (packet_error ''Shadowsocks 2022 UDP response is too short'')
      else result_bind (xchacha20_poly1305_decrypt lib (sc_psk codec) (take 24 wire) (drop 24 wire)) (\<lambda>plaintext.
        strip_response_header now (drop 16 plaintext) (sc_session_id codec)))"

definition ss2022_decrypt :: "crypto_api \<Rightarrow> u64 \<Rightarrow> bytes \<Rightarrow> ss2022_codec \<Rightarrow> bytes res" where
  "ss2022_decrypt lib now wire codec =
     (case cipher_method (sc_method codec) of
        Inl e \<Rightarrow> Inl (packet_error ''invalid Shadowsocks 2022 UDP configuration'')
      | Inr spec \<Rightarrow>
          (if \<not> cm_2022 spec \<or> sc_psk codec = []
           then Inl (packet_error ''invalid Shadowsocks 2022 UDP configuration'')
           else if is_aes_method spec then ss2022_decrypt_aes lib codec now wire
           else ss2022_decrypt_chacha lib codec now wire))"

definition ss2022_max_datagram_size :: "nat \<Rightarrow> nat \<Rightarrow> ss2022_codec \<Rightarrow> nat" where
  "ss2022_max_datagram_size wire_limit destination_limit codec =
     (case cipher_method (sc_method codec) of
        Inl e \<Rightarrow> 0
      | Inr spec \<Rightarrow>
          (if \<not> cm_2022 spec then 0
           else let overhead = (if is_aes_method spec then 16 + 16 + 19 else 24 + 16 + 16 + 19) in
             (if wire_limit \<le> overhead + destination_limit then 0
              else wire_limit - overhead - destination_limit)))"

section \<open>Round trips\<close>

text \<open>C35: What the classic Shadowsocks datagram encoders produce is decoded to the plaintext, for every AEAD
method and every legacy stream cipher, any password and any salt or IV drawn.  An AES-CCM plaintext must stay
16 bytes below the 16 MB the code checks for, since the check on decryption counts the tag.\<close>

theorem classic_datagrams_roundtrip:
  assumes "seal_laws lib"
  shows "(encrypt_aead_datagram lib m password rand p = Inr w \<longrightarrow> aead_fits m p \<longrightarrow>
       decrypt_aead_datagram lib m password w = Inr p) \<and>
     (encrypt_legacy_datagram lib m password rand p = Inr w \<longrightarrow> decrypt_legacy_datagram lib m password w = Inr p)"
proof (intro conjI impI)
  assume "encrypt_aead_datagram lib m password rand p = Inr w" and fits: "aead_fits m p"
  then obtain spec salt key c where *: "cipher_method m = Inr spec" "cm_kind spec = Kind_aead" "\<not> cm_2022 spec"
    "random_bytes rand (cm_key_size spec) = Some salt" "derive_aead_subkey lib m password salt = Inr key"
    "aead_encrypt lib m key (replicate (cm_nonce_size spec) 0) p = Inr c" "w = salt @ c"
    by (auto simp: encrypt_aead_datagram_def classic_aead_def result_simps split: sum.splits if_splits option.splits)
  have "cm_overhead spec = 16" using cipher_method_aead [OF *(1,2)] by (simp add: aead_spec_ok_def)
  then show "decrypt_aead_datagram lib m password w = Inr p"
    using * length_random_bytes [OF *(4)] aead_roundtrip [OF assms *(6) fits]
    by (simp add: decrypt_aead_datagram_def classic_aead_def)
next
  assume "encrypt_legacy_datagram lib m password rand p = Inr w"
  then obtain spec iv key e c e' where *: "cipher_method m = Inr spec" "cm_kind spec = Kind_stream"
    "random_bytes rand (cm_iv_size spec) = Some iv" "derive_legacy_key lib m password iv = Inr key"
    "legacy_create lib m key iv True = Inr e" "legacy_update p e = Inr (c, e')" "w = iv @ c"
    by (auto simp: encrypt_legacy_datagram_def result_simps split: if_splits option.splits)
  obtain d where d: "legacy_create lib m key iv False = Inr d" "mirrored e d" "legacy_ok e" "legacy_ok d"
    using legacy_create_mirrored [OF *(5)] .
  have small: "length p \<le> INT_MAX" using *(6) by (auto simp: legacy_update_def split: if_splits)
  then have c: "c = fst (legacy_run p e)" using *(6) legacy_update_run [OF d(3)] by (metis Inr_inject fst_conv)
  then have "length c \<le> INT_MAX" using small by simp
  from legacy_update_run [OF d(4) this] have "legacy_update c d = Inr (p, snd (legacy_run c d))"
    using legacy_run_mirrored [OF d(2)] c by (metis prod.collapse)
  then show "decrypt_legacy_datagram lib m password w = Inr p"
    using * d(1) length_random_bytes [OF *(3)] by (simp add: decrypt_legacy_datagram_def)
qed

theorem classic_datagrams_roundtrip_witness:
  "\<exists>v w. encrypt_aead_datagram sample_crypto ''aes-128-gcm'' ''secret'' (Some word_of_nat) [1, 2, 3] = Inr v \<and>
     decrypt_aead_datagram sample_crypto ''aes-128-gcm'' ''secret'' v = Inr [1, 2, 3] \<and>
     encrypt_legacy_datagram sample_crypto ''rc4-md5'' ''secret'' (Some word_of_nat) [1, 2, 3] = Inr w \<and>
     decrypt_legacy_datagram sample_crypto ''rc4-md5'' ''secret'' w = Inr [1, 2, 3]"
proof -
  have ok: "succeeds (encrypt_aead_datagram sample_crypto ''aes-128-gcm'' ''secret'' (Some word_of_nat) [1, 2, 3])"
    "succeeds (encrypt_legacy_datagram sample_crypto ''rc4-md5'' ''secret'' (Some word_of_nat) [1, 2, 3])"
    by code_simp+
  then obtain v w where
    v: "encrypt_aead_datagram sample_crypto ''aes-128-gcm'' ''secret'' (Some word_of_nat) [1, 2, 3] = Inr v" and
    w: "encrypt_legacy_datagram sample_crypto ''rc4-md5'' ''secret'' (Some word_of_nat) [1, 2, 3] = Inr w"
    by (auto simp: succeeds_iff)
  have "cipher_method ''aes-128-gcm'' = Inr (aead_method ''aes-128-gcm'' (Some (Evp_aes_gcm 128)) 16 12 False)" by code_simp
  then have fits: "aead_fits ''aes-128-gcm'' [1, 2, 3]" by (simp add: aead_fits_def is_aes_ccm_method_def)
  from classic_datagrams_roundtrip [OF sample_seal_laws, of "''aes-128-gcm''" "''secret''" "Some word_of_nat" "[1, 2, 3]" v] v fits
  have "decrypt_aead_datagram sample_crypto ''aes-128-gcm'' ''secret'' v = Inr [1, 2, 3]" by blast
  moreover
  from classic_datagrams_roundtrip [OF sample_seal_laws, of "''rc4-md5''" "''secret''" "Some word_of_nat" "[1, 2, 3]" w] w
  have "decrypt_legacy_datagram sample_crypto ''rc4-md5'' ''secret'' w = Inr [1, 2, 3]" by blast
  ultimately show ?thesis using v w by blast
qed

section \<open>Responses\<close>

definition aes_laws :: "crypto_api \<Rightarrow> bool" where
  "aes_laws lib \<longleftrightarrow> (\<forall>key b. cy_aes_inverse lib key (cy_aes lib key b) = b)"

text \<open>
  The 2022 datagram as the protocol has it, in terms of the primitives: with AES the body is sealed under the
  subkey of the session named in the header, with twelve bytes of the header as its nonce, behind the header
  encrypted as one block; otherwise header and body are sealed under the shared key behind the nonce.
\<close>

definition aes_sealed :: "crypto_api \<Rightarrow> ss2022_codec \<Rightarrow> bytes \<Rightarrow> bytes \<Rightarrow> bytes \<Rightarrow> bytes \<Rightarrow> bool" where
  "aes_sealed lib codec packet_header nonce body w \<longleftrightarrow>
     length packet_header = 16 \<and> nonce = take 12 (drop 4 packet_header) \<and>
     (\<exists>spec aead key c. cipher_method (sc_method codec) = Inr spec \<and> cm_aead spec = Some aead \<and>
        derive_shadowsocks_2022_subkey lib (sc_method codec) (sc_password codec) (take 8 packet_header) = Inr key \<and>
        cy_seal lib aead key nonce body = Some c \<and>
        w = be_bytes 16 (cy_aes lib (sc_psk codec) (be_word packet_header)) @ c)"

definition chacha_sealed :: "crypto_api \<Rightarrow> ss2022_codec \<Rightarrow> bytes \<Rightarrow> bytes \<Rightarrow> bytes \<Rightarrow> bytes \<Rightarrow> bool" where
  "chacha_sealed lib codec packet_header nonce body w \<longleftrightarrow>
     length packet_header = 16 \<and> length nonce = 24 \<and>
     (\<exists>c. cy_seal lib Evp_xchacha20_poly1305 (sc_psk codec) nonce (packet_header @ body) = Some c \<and> w = nonce @ c)"

text \<open>What a server puts into a response.\<close>

definition response_body :: "u64 \<Rightarrow> u64 \<Rightarrow> bytes \<Rightarrow> bytes \<Rightarrow> bytes" where
  "response_body timestamp client padding rest =
     [1] @ be_bytes 8 timestamp @ be_bytes 8 client @ be_bytes 2 (word_of_nat (length padding) :: u16) @ padding @ rest"

lemma psk_size:
  assumes "decode_shadowsocks_2022_psk lib m password = Inr psk" "cipher_method m = Inr spec"
  shows "length psk = cm_key_size spec"
  using assms by (auto simp: decode_shadowsocks_2022_psk_def bytes_of_string_def split: if_splits option.splits)

lemma subkey_size:
  "derive_shadowsocks_2022_subkey lib m password salt = Inr key \<Longrightarrow> cipher_method m = Inr spec \<Longrightarrow>
   length key = cm_key_size spec"
  by (auto simp: derive_shadowsocks_2022_subkey_def result_simps split: if_splits)

lemma ss2022_spec:
  assumes "cipher_method m = Inr spec" "cm_2022 spec"
  shows "cm_kind spec = Kind_aead \<and> \<not> is_chacha8_method (cm_name spec) \<and> \<not> is_aes_ccm_method (cm_name spec) \<and>
    cm_overhead spec = 16 \<and>
    (if is_aes_method spec then cm_nonce_size spec = 12 \<and> (cm_key_size spec = 16 \<or> cm_key_size spec = 32)
     else cm_key_size spec = 32)"
proof -
  have "list_all (\<lambda>spec. cm_2022 spec \<longrightarrow> cm_kind spec = Kind_aead \<and> \<not> is_chacha8_method (cm_name spec) \<and>
      \<not> is_aes_ccm_method (cm_name spec) \<and> cm_overhead spec = 16 \<and>
      (if is_aes_method spec then cm_nonce_size spec = 12 \<and> (cm_key_size spec = 16 \<or> cm_key_size spec = 32)
       else cm_key_size spec = 32)) cipher_methods"
    by code_simp
  from cipher_method_table [OF assms(1) this] assms(2) show ?thesis by (simp add: stream_method_def)
qed

text \<open>A datagram of the protocol is opened to its body.\<close>

lemma aes_sealed_opens:
  assumes laws: "seal_laws lib" "aes_laws lib" and m: "cipher_method (sc_method codec) = Inr spec" "cm_2022 spec"
    and aes: "is_aes_method spec"
    and psk: "decode_shadowsocks_2022_psk lib (sc_method codec) (sc_password codec) = Inr (sc_psk codec)"
    and sealed: "aes_sealed lib codec packet_header nonce body w" and body: "19 \<le> length body" "length body \<le> INT_MAX"
  shows "ss2022_decrypt_aes lib codec now w = strip_response_header now body (sc_session_id codec)"
proof -
  obtain aead key c where *: "length packet_header = 16" "nonce = take 12 (drop 4 packet_header)" "cm_aead spec = Some aead"
    "derive_shadowsocks_2022_subkey lib (sc_method codec) (sc_password codec) (take 8 packet_header) = Inr key"
    "cy_seal lib aead key nonce body = Some c"
    "w = be_bytes 16 (cy_aes lib (sc_psk codec) (be_word packet_header)) @ c"
    using sealed m(1) by (auto simp: aes_sealed_def)
  note spec = ss2022_spec [OF m]
  have opened: "cy_open lib aead key nonce c = Some body" "length c = length body + 16"
    using laws(1) *(5) by (auto simp: seal_laws_def)
  have "length nonce = 12" using *(1,2) by simp
  then have "aead_decrypt lib (sc_method codec) key nonce c = Inr body"
    using m spec aes opened body(2) subkey_size [OF *(4) m(1)] *(3) by (simp add: aead_decrypt_def)
  moreover have "be_word (be_bytes 16 (cy_aes lib (sc_psk codec) (be_word packet_header))) =
      cy_aes lib (sc_psk codec) (be_word packet_header)" by (rule be_word_be_bytes) simp
  then have "aes_ecb_crypt lib (sc_psk codec) (take 16 w) False = Inr packet_header"
    using * psk_size [OF psk m(1)] spec aes laws(2) be_bytes_be_word [of packet_header, where 'a = 128]
    by (auto simp: aes_ecb_crypt_def aes_laws_def)
  ultimately show ?thesis using * opened(2) body(1) by (simp add: ss2022_decrypt_aes_def ss2022_nonce_def)
qed

lemma chacha_sealed_opens:
  assumes laws: "seal_laws lib" and m: "cipher_method (sc_method codec) = Inr spec" "cm_2022 spec"
    and chacha: "\<not> is_aes_method spec"
    and psk: "decode_shadowsocks_2022_psk lib (sc_method codec) (sc_password codec) = Inr (sc_psk codec)"
    and sealed: "chacha_sealed lib codec packet_header nonce body w" and body: "19 \<le> length body" "length body + 16 \<le> INT_MAX"
  shows "ss2022_decrypt_chacha lib codec now w = strip_response_header now body (sc_session_id codec)"
proof -
  obtain c where *: "length packet_header = 16" "length nonce = 24" "w = nonce @ c"
    "cy_seal lib Evp_xchacha20_poly1305 (sc_psk codec) nonce (packet_header @ body) = Some c"
    using sealed by (auto simp: chacha_sealed_def)
  have opened: "cy_open lib Evp_xchacha20_poly1305 (sc_psk codec) nonce c = Some (packet_header @ body)"
    "length c = length body + 32"
    using laws *(1,4) by (auto simp: seal_laws_def)
  have "length (sc_psk codec) = 32" using psk_size [OF psk m(1)] ss2022_spec [OF m] chacha by simp
  then show ?thesis using * opened body by (simp add: ss2022_decrypt_chacha_def xchacha20_poly1305_decrypt_def)
qed

lemma recent_seconds:
  assumes "uint now < 2 ^ 63"
  shows "timestamp_is_recent now ts \<longleftrightarrow> \<bar>uint now - uint ts\<bar> \<le> 30"
proof -
  have now: "uint (now + 30) = uint now + 30"
    using assms by (subst uint_add_lem [THEN iffD1]) simp_all
  show ?thesis
  proof (cases "uint ts + 30 < 2 ^ 64")
    case True
    then have "uint (ts + 30) = uint ts + 30" by (subst uint_add_lem [THEN iffD1]) simp_all
    then show ?thesis unfolding timestamp_is_recent_def word_le_def now by auto
  next
    case False
    with assms show ?thesis unfolding timestamp_is_recent_def word_le_def now by simp
  qed
qed

lemma read_response:
  "read_u64 (response_body ts client padding rest) 1 = ts"
  "read_u64 (response_body ts client padding rest) 9 = client"
  "read_u16 (response_body ts client padding rest) 17 = word_of_nat (length padding)"
  "19 \<le> length (response_body ts client padding rest)" "response_body ts client padding rest ! 0 = 1"
  by (simp_all add: response_body_def read_u64_def read_u16_def be_word_be_bytes)

lemma length_response_body: "length (response_body ts client padding rest) = 19 + length padding + length rest"
  by (simp add: response_body_def)

lemma strip_response:
  assumes "length padding \<le> 65535"
  shows "strip_response_header now (response_body ts client padding rest) session =
    (if \<not> timestamp_is_recent now ts then Inl (packet_error ''invalid Shadowsocks 2022 UDP response header'')
     else if client \<noteq> session then Inl (packet_error ''Shadowsocks 2022 UDP response targets another session'')
     else Inr rest)"
proof -
  have "unat (word_of_nat (length padding) :: u16) = length padding" using assms by (simp add: unat_of_nat)
  moreover have "drop (19 + length padding) (response_body ts client padding rest) = rest"
    by (simp add: response_body_def drop_Cons')
  moreover have "19 + length padding \<le> length (response_body ts client padding rest)" by (simp add: response_body_def)
  ultimately show ?thesis
    using read_response(4) [of ts client padding rest]
    by (simp only: strip_response_header_def read_response Let_def length_response_body) (simp add: not_less)
qed

text \<open>C36: A Shadowsocks 2022 client accepts a response of its server, sealed as the protocol has it with the
shared key under any server session and nonce, exactly when its time is at most 30 seconds away and it answers
the client's session, and then returns what stands behind the padding.  This holds for all three methods, as long
as the clock has not reached 2^63 seconds.\<close>

theorem ss2022_response_accepted:
  assumes "seal_laws lib" "aes_laws lib" "cipher_method (sc_method codec) = Inr spec" "cm_2022 spec"
    and "decode_shadowsocks_2022_psk lib (sc_method codec) (sc_password codec) = Inr (sc_psk codec)"
    and "(if is_aes_method spec then aes_sealed else chacha_sealed) lib codec packet_header nonce
           (response_body ts client padding rest) w"
    and "length padding \<le> 65535" "length padding + length rest < 2 ^ 30" "uint now < 2 ^ 63"
  shows "ss2022_decrypt lib now w codec =
    (if \<bar>uint now - uint ts\<bar> > 30 then Inl (packet_error ''invalid Shadowsocks 2022 UDP response header'')
     else if client \<noteq> sc_session_id codec
     then Inl (packet_error ''Shadowsocks 2022 UDP response targets another session'')
     else Inr rest)"
proof -
  let ?body = "response_body ts client padding rest"
  have size: "19 \<le> length ?body" "length ?body + 16 \<le> INT_MAX"
    using assms(8) by (simp_all add: length_response_body INT_MAX_def)
  have "sc_psk codec \<noteq> []" using psk_size [OF assms(5,3)] ss2022_spec [OF assms(3,4)] by (auto split: if_splits)
  then have "ss2022_decrypt lib now w codec = strip_response_header now ?body (sc_session_id codec)"
    using assms(3,4,6) aes_sealed_opens [OF assms(1-4) _ assms(5) _ size(1)]
      chacha_sealed_opens [OF assms(1,3,4) _ assms(5) _ size] size(2)
    by (auto simp: ss2022_decrypt_def split: if_splits)
  then show ?thesis
    by (simp only: strip_response [OF assms(7)] recent_seconds [OF assms(9)] not_le)
qed

lemma sample_aes_laws: "aes_laws sample_crypto"
  by (simp add: aes_laws_def sample_crypto_def xor.assoc)

text \<open>A client of the sample library with a key of 16 bytes.\<close>

definition sample_codec :: ss2022_codec where
  "sample_codec =
     \<lparr>sc_method = ''2022-blake3-aes-128-gcm'', sc_password = ''0123456789abcdef'',
      sc_psk = bytes_of_string ''0123456789abcdef'', sc_session_id = 0x0303030303030303, sc_packet_id = 0\<rparr>"

lemma sample_codec_facts:
  "cipher_method (sc_method sample_codec) = Inr (aead_method ''2022-blake3-aes-128-gcm'' (Some (Evp_aes_gcm 128)) 16 12 True)"
  "sc_psk sample_codec \<noteq> []" "sc_session_id sample_codec = 0x0303030303030303" "sc_packet_id sample_codec = 0"
  "decode_shadowsocks_2022_psk sample_crypto (sc_method sample_codec) (sc_password sample_codec) = Inr (sc_psk sample_codec)"
  "length (sc_psk sample_codec) = 16"
proof -
  show m: "cipher_method (sc_method sample_codec) = Inr (aead_method ''2022-blake3-aes-128-gcm'' (Some (Evp_aes_gcm 128)) 16 12 True)"
    by code_simp
  show "decode_shadowsocks_2022_psk sample_crypto (sc_method sample_codec) (sc_password sample_codec) = Inr (sc_psk sample_codec)"
    by (simp add: decode_shadowsocks_2022_psk_def m) (simp add: base64_decode_def sample_codec_def sample_crypto_def)
qed (simp_all add: sample_codec_def flip: length_greater_0_conv)

lemma sample_seals:
  assumes "length key = 16" "length nonce = 12" "length p \<le> INT_MAX"
  shows "aead_encrypt sample_crypto (sc_method sample_codec) key nonce p = Inr (p @ replicate 16 9)"
  using assms sample_codec_facts(1)
  by (simp add: aead_encrypt_def is_chacha8_method_def is_aes_ccm_method_def) (simp add: sample_crypto_def)

lemma sample_encrypts:
  assumes "sc_method codec = sc_method sample_codec" "sc_password codec = sc_password sample_codec"
    and "sc_psk codec = sc_psk sample_codec" "length body \<le> INT_MAX"
  shows "succeeds (ss2022_encrypt_aes sample_crypto codec body)"
proof -
  have key: "derive_shadowsocks_2022_subkey sample_crypto (sc_method sample_codec) (sc_password sample_codec)
      (take 8 (ss2022_header codec)) =
      Inr (map (cy_blake3 sample_crypto ''shadowsocks 2022 session subkey'' (sc_psk sample_codec @ take 8 (ss2022_header codec)))
        [0..<16])"
    using sample_codec_facts(1) sample_codec_facts(5)
    by (simp add: derive_shadowsocks_2022_subkey_def)
  have "length (ss2022_nonce (ss2022_header codec)) = 12" "length (ss2022_header codec) = 16"
    by (simp_all add: ss2022_nonce_def ss2022_header_def)
  then show ?thesis
    using assms key sample_seals sample_codec_facts(6)
    by (simp add: ss2022_encrypt_aes_def Let_def aes_ecb_crypt_def)
qed

theorem ss2022_response_accepted_witness:
  "\<exists>w. ss2022_decrypt sample_crypto 1010 w sample_codec = Inr [7, 8] \<and>
     aes_sealed sample_crypto sample_codec (replicate 16 1) (replicate 12 1)
       (response_body 1000 0x0303030303030303 [0] [7, 8]) w"
proof -
  let ?m = "aead_method ''2022-blake3-aes-128-gcm'' (Some (Evp_aes_gcm 128)) 16 12 True"
  let ?body = "response_body 1000 0x0303030303030303 [0] [7, 8]"
  define w where "w = be_bytes 16 (cy_aes sample_crypto (sc_psk sample_codec) (be_word (replicate 16 1))) @ ?body @ replicate 16 9"
  have aes: "is_aes_method ?m" "cm_2022 ?m" "cm_aead ?m = Some (Evp_aes_gcm 128)"
    by (simp_all add: is_aes_method_def aead_method_def)
  have key: "\<exists>key. derive_shadowsocks_2022_subkey sample_crypto (sc_method sample_codec) (sc_password sample_codec) salt = Inr key"
    for salt
    using sample_codec_facts(1,5) aes(2) by (simp add: derive_shadowsocks_2022_subkey_def)
  have w: "aes_sealed sample_crypto sample_codec (replicate 16 1) (replicate 12 1) ?body w"
    using sample_codec_facts(1) aes(3) key [of "replicate 8 1"]
    by (auto simp: aes_sealed_def w_def sample_crypto_def)
  then have "(if is_aes_method ?m then aes_sealed else chacha_sealed) sample_crypto sample_codec
      (replicate 16 1) (replicate 12 1) ?body w" using aes(1) by simp
  from ss2022_response_accepted [OF sample_seal_laws sample_aes_laws sample_codec_facts(1) aes(2) sample_codec_facts(5) this, of 1010]
  show ?thesis using w sample_codec_facts(3) by auto
qed

section \<open>Nonces\<close>

text \<open>The results of a run of calls, and whether a call gets past the checks.\<close>

type_synonym ss2022_request = "u64 \<times> entropy \<times> bytes \<times> bytes"

fun ss2022_run :: "crypto_api \<Rightarrow> ss2022_request list \<Rightarrow> ss2022_codec \<Rightarrow> bytes res list" where
  "ss2022_run lib [] codec = []"
| "ss2022_run lib ((now, rand, destination, payload) # later) codec =
     (case ss2022_encrypt lib now rand destination payload codec of
        (result, codec') \<Rightarrow> result # ss2022_run lib later codec')"

definition ss2022_admits :: "ss2022_codec \<Rightarrow> ss2022_request \<Rightarrow> bool" where
  "ss2022_admits codec request \<longleftrightarrow>
     (case request of (now, rand, destination, payload) \<Rightarrow>
        (case cipher_method (sc_method codec) of Inl e \<Rightarrow> False | Inr spec \<Rightarrow> cm_2022 spec) \<and>
        sc_psk codec \<noteq> [] \<and> destination \<noteq> [] \<and> sc_session_id codec \<noteq> 0)"

definition request_body :: "ss2022_request \<Rightarrow> bytes" where
  "request_body request = (case request of (now, rand, destination, payload) \<Rightarrow> ss2022_body now destination payload)"

definition numbered :: "ss2022_codec \<Rightarrow> nat \<Rightarrow> ss2022_codec" where
  "numbered codec n = codec\<lparr>sc_packet_id := sc_packet_id codec + word_of_nat n\<rparr>"

lemma numbered_simps [simp]:
  "numbered codec 0 = codec" "numbered (numbered codec m) n = numbered codec (m + n)"
  "sc_method (numbered codec n) = sc_method codec" "sc_password (numbered codec n) = sc_password codec"
  "sc_psk (numbered codec n) = sc_psk codec" "sc_session_id (numbered codec n) = sc_session_id codec"
  "sc_packet_id (numbered codec n) = sc_packet_id codec + word_of_nat n"
  by (simp_all add: numbered_def add.assoc)

lemma ss2022_admits_numbered [simp]: "ss2022_admits (numbered codec n) = ss2022_admits codec"
  by (simp add: ss2022_admits_def fun_eq_iff)

lemma aes_sealed_numbered [simp]: "aes_sealed lib (numbered codec n) = aes_sealed lib codec"
  by (simp add: aes_sealed_def fun_eq_iff)

lemma ss2022_encrypt_codec:
  "snd (ss2022_encrypt lib now rand destination payload codec) =
     numbered codec (if ss2022_admits codec (now, rand, destination, payload) then 1 else 0)"
  by (auto simp: ss2022_encrypt_def ss2022_admits_def numbered_def Let_def split: sum.splits)

lemma ss2022_encrypt_admits:
  "fst (ss2022_encrypt lib now rand destination payload codec) = Inr w \<Longrightarrow>
   ss2022_admits codec (now, rand, destination, payload)"
  by (auto simp: ss2022_encrypt_def ss2022_admits_def split: sum.splits if_splits)

text \<open>A sealed request is a datagram of the protocol whose header numbers it.\<close>

lemma ss2022_encrypt_sealed:
  assumes m: "cipher_method (sc_method codec) = Inr spec" "is_aes_method spec"
    and w: "fst (ss2022_encrypt lib now rand destination payload codec) = Inr w"
  shows "aes_sealed lib codec (ss2022_header codec) (ss2022_nonce (ss2022_header codec))
    (ss2022_body now destination payload) w"
proof -
  have spec: "cm_2022 spec" using m w by (auto simp: ss2022_encrypt_def split: if_splits)
  have len: "length (ss2022_header codec) = 16" by (simp add: ss2022_header_def)
  have "ss2022_encrypt_aes lib codec (ss2022_body now destination payload) = Inr w"
    using m w by (auto simp: ss2022_encrypt_def Let_def split: if_splits)
  then obtain key c where *:
    "derive_shadowsocks_2022_subkey lib (sc_method codec) (sc_password codec) (take 8 (ss2022_header codec)) = Inr key"
    "aead_encrypt lib (sc_method codec) key (ss2022_nonce (ss2022_header codec)) (ss2022_body now destination payload) = Inr c"
    "w = be_bytes 16 (cy_aes lib (sc_psk codec) (be_word (ss2022_header codec))) @ c"
    using len by (auto simp: ss2022_encrypt_aes_def Let_def result_simps aes_ecb_crypt_def split: if_splits)
  moreover obtain aead where "cm_aead spec = Some aead"
    "cy_seal lib aead key (ss2022_nonce (ss2022_header codec)) (ss2022_body now destination payload) = Some c"
    using *(2) m(1) ss2022_spec [OF m(1) spec] by (auto simp: aead_encrypt_def split: if_splits option.splits)
  ultimately show ?thesis using m(1) len unfolding aes_sealed_def ss2022_nonce_def by blast
qed

lemma length_ss2022_run [simp]: "length (ss2022_run lib requests codec) = length requests"
  by (induction requests arbitrary: codec) (auto simp: split_beta)

text \<open>The codec a call meets is numbered by the calls admitted before it.\<close>

definition admitted_before :: "ss2022_codec \<Rightarrow> ss2022_request list \<Rightarrow> nat \<Rightarrow> nat" where
  "admitted_before codec requests i = length (filter (ss2022_admits codec) (take i requests))"

lemma admitted_before_Suc:
  "i < length requests \<Longrightarrow> admitted_before codec requests (Suc i) =
     admitted_before codec requests i + (if ss2022_admits codec (requests ! i) then 1 else 0)"
  by (simp add: admitted_before_def take_Suc_conv_app_nth)

lemma admitted_before_mono: "i \<le> j \<Longrightarrow> admitted_before codec requests i \<le> admitted_before codec requests j"
  by (metis admitted_before_def filter_append le_add_diff_inverse length_append le_add1 take_add)

lemma admitted_before_le: "admitted_before codec requests i \<le> i"
  unfolding admitted_before_def by (rule le_trans [OF length_filter_le]) simp

lemma ss2022_run_nth:
  "i < length requests \<Longrightarrow> requests ! i = (now, rand, destination, payload) \<Longrightarrow>
   ss2022_run lib requests codec ! i =
     fst (ss2022_encrypt lib now rand destination payload (numbered codec (admitted_before codec requests i)))"
proof (induction requests arbitrary: codec i)
  case (Cons request later)
  obtain now0 rand0 destination0 payload0 where r: "request = (now0, rand0, destination0, payload0)" by (cases request)
  show ?case
  proof (cases i)
    case 0
    then show ?thesis using Cons.prems by (simp add: admitted_before_def split_beta)
  next
    case (Suc i')
    let ?codec = "snd (ss2022_encrypt lib now0 rand0 destination0 payload0 codec)"
    have later: "ss2022_run lib (request # later) codec ! i = ss2022_run lib later ?codec ! i'"
      using r Suc by (simp add: split_beta)
    show ?thesis
      unfolding later using Cons.prems Cons.IH [of i' ?codec] Suc r
      by (simp add: ss2022_encrypt_codec admitted_before_def)
  qed
qed simp

lemma header_number: "ss2022_nonce (ss2022_header codec) =
    drop 4 (be_bytes 8 (sc_session_id codec)) @ be_bytes 8 (sc_packet_id codec)"
  by (simp add: ss2022_nonce_def ss2022_header_def)

lemma numbered_nonces_differ:
  assumes "m < n" "n < 2 ^ 64"
  shows "ss2022_nonce (ss2022_header (numbered codec m)) \<noteq> ss2022_nonce (ss2022_header (numbered codec n))"
proof
  assume "ss2022_nonce (ss2022_header (numbered codec m)) = ss2022_nonce (ss2022_header (numbered codec n))"
  then have "sc_packet_id codec + word_of_nat m = sc_packet_id codec + word_of_nat n"
    by (simp add: header_number be_bytes_inject)
  then have "(word_of_nat m :: u64) = word_of_nat n" by simp
  then have "unat (word_of_nat m :: u64) = unat (word_of_nat n :: u64)" by simp
  then show False using assms by (simp add: unat_of_nat)
qed

text \<open>C37: A Shadowsocks 2022 client with an AES method never seals two datagrams of a session under the same
nonce.  Over any calls of its encoder, up to 2^64 of them, failed ones included: every datagram that comes out is
one of the protocol, its body sealed by the AEAD of the library under the key of the client's session and a nonce,
and the nonces of any two of them differ.\<close>

theorem ss2022_nonces_distinct:
  assumes "cipher_method (sc_method codec) = Inr spec" "is_aes_method spec" "length requests \<le> 2 ^ 64"
  shows "\<exists>packet_header nonce.
    (\<forall>i < length requests. \<forall>w. ss2022_run lib requests codec ! i = Inr w \<longrightarrow>
       take 8 (packet_header i) = be_bytes 8 (sc_session_id codec) \<and>
       aes_sealed lib codec (packet_header i) (nonce i) (request_body (requests ! i)) w) \<and>
    (\<forall>i j. i < j \<and> j < length requests \<and> succeeds (ss2022_run lib requests codec ! i) \<and>
       succeeds (ss2022_run lib requests codec ! j) \<longrightarrow> nonce i \<noteq> nonce j)"
proof -
  define at where "at i = numbered codec (admitted_before codec requests i)" for i
  have step: "ss2022_admits codec (requests ! i) \<and> aes_sealed lib codec (ss2022_header (at i)) (ss2022_nonce (ss2022_header (at i)))
      (request_body (requests ! i)) w"
    if "i < length requests" "ss2022_run lib requests codec ! i = Inr w" for i w
  proof -
    obtain now rand destination payload where r: "requests ! i = (now, rand, destination, payload)" by (cases "requests ! i")
    have w: "fst (ss2022_encrypt lib now rand destination payload (at i)) = Inr w"
      using ss2022_run_nth [OF that(1) r, of lib codec] that(2) by (simp add: at_def)
    from ss2022_encrypt_admits [OF w] ss2022_encrypt_sealed [OF _ assms(2) w] assms(1) r
    show ?thesis by (simp add: at_def request_body_def)
  qed
  have "ss2022_nonce (ss2022_header (at i)) \<noteq> ss2022_nonce (ss2022_header (at j))"
    if "i < j" "j < length requests" "succeeds (ss2022_run lib requests codec ! i)" for i j
  proof -
    have "ss2022_admits codec (requests ! i)" using step [of i] that by (auto simp: succeeds_iff)
    then have "admitted_before codec requests i < admitted_before codec requests (Suc i)"
      using that by (simp add: admitted_before_Suc)
    also have "\<dots> \<le> admitted_before codec requests j" using that(1) by (intro admitted_before_mono) simp
    finally show ?thesis
      unfolding at_def by (rule numbered_nonces_differ)
        (use admitted_before_le [of codec requests j] that(2) assms(3) in simp)
  qed
  moreover have "take 8 (ss2022_header (at i)) = be_bytes 8 (sc_session_id codec)" for i
    by (simp add: ss2022_header_def at_def)
  ultimately show ?thesis
    using step by (intro exI [of _ "\<lambda>i. ss2022_header (at i)"] exI [of _ "\<lambda>i. ss2022_nonce (ss2022_header (at i))"]) auto
qed

theorem ss2022_nonces_distinct_witness:
  "\<exists>w w' header header' nonce nonce'.
     ss2022_run sample_crypto [(1000, None, [1, 2], [3]), (1001, None, [], [4]), (1002, None, [1, 2], [5])] sample_codec =
       [Inr w, Inl (packet_error ''invalid Shadowsocks 2022 UDP configuration''), Inr w'] \<and>
     aes_sealed sample_crypto sample_codec header nonce (ss2022_body 1000 [1, 2] [3]) w \<and>
     aes_sealed sample_crypto sample_codec header' nonce' (ss2022_body 1002 [1, 2] [5]) w' \<and> nonce \<noteq> nonce'"
proof -
  let ?m = "aead_method ''2022-blake3-aes-128-gcm'' (Some (Evp_aes_gcm 128)) 16 12 True"
  let ?requests = "[(1000, None, [1, 2], [3]), (1001, None, [], [4]), (1002, None, [1, 2], [5])] :: ss2022_request list"
  let ?invalid = "Inl (packet_error ''invalid Shadowsocks 2022 UDP configuration'') :: bytes res"
  have aes: "is_aes_method ?m" "cm_2022 ?m" by (simp_all add: is_aes_method_def aead_method_def)
  have sealed: "\<exists>w. fst (ss2022_encrypt sample_crypto now None [1, 2] payload (numbered sample_codec n)) = Inr w"
    if "length payload \<le> 1" for now payload n
  proof -
    have "succeeds (ss2022_encrypt_aes sample_crypto (numbered sample_codec n) (ss2022_body now [1, 2] payload))"
      by (rule sample_encrypts) (use that in \<open>simp_all add: ss2022_body_def INT_MAX_def\<close>)
    then show ?thesis
      using sample_codec_facts aes by (simp add: ss2022_encrypt_def Let_def succeeds_iff)
  qed
  have refused: "ss2022_encrypt sample_crypto now None [] payload (numbered sample_codec n) =
      (?invalid, numbered sample_codec n)" for now payload n
    using sample_codec_facts(1) by (simp add: ss2022_encrypt_def)
  have admits: "ss2022_admits sample_codec (now, rand, [1, 2], payload)" "\<not> ss2022_admits sample_codec (now, rand, [], payload)"
    for now rand payload
    using sample_codec_facts aes(2) by (simp_all add: ss2022_admits_def)
  obtain w w' where w: "fst (ss2022_encrypt sample_crypto 1000 None [1, 2] [3] (numbered sample_codec 0)) = Inr w"
    "fst (ss2022_encrypt sample_crypto 1002 None [1, 2] [5] (numbered sample_codec 1)) = Inr w'"
    using sealed [of "[3]" 1000 0] sealed [of "[5]" 1002 1] by auto
  have run: "ss2022_run sample_crypto ?requests sample_codec = [Inr w, ?invalid, Inr w']"
    using w refused [of 1001 "[4]" 1] admits by (simp add: split_beta ss2022_encrypt_codec)
  have few: "length ?requests \<le> 2 ^ 64" by simp
  from ss2022_nonces_distinct [OF sample_codec_facts(1) aes(1) few, of sample_crypto, unfolded run]
  obtain header nonce where
    sealed_as: "\<forall>i < length ?requests. \<forall>v. [Inr w, ?invalid, Inr w'] ! i = Inr v \<longrightarrow>
      take 8 (header i) = be_bytes 8 (sc_session_id sample_codec) \<and>
      aes_sealed sample_crypto sample_codec (header i) (nonce i) (request_body (?requests ! i)) v"
    and differ: "\<forall>i j. i < j \<and> j < length ?requests \<and> succeeds ([Inr w, ?invalid, Inr w'] ! i) \<and>
      succeeds ([Inr w, ?invalid, Inr w'] ! j) \<longrightarrow> nonce i \<noteq> nonce j"
    by (elim exE conjE)
  from sealed_as [rule_format, of 0 w] sealed_as [rule_format, of 2 w'] differ [rule_format, of 0 2] run
  show ?thesis by (auto simp: request_body_def simp del: ss2022_run.simps)
qed

section \<open>Sizes\<close>

lemma classic_aead_spec:
  "classic_aead m = Inr spec \<Longrightarrow> cipher_method m = Inr spec \<and> cm_overhead spec = 16"
  using cipher_method_aead [of m spec]
  by (auto simp: classic_aead_def aead_spec_ok_def split: sum.splits if_splits)

text \<open>C38: The sizes the codecs announce are safe: a datagram whose address takes at most \<open>dl\<close> bytes and whose
payload is not empty and within the announced limit is sealed into at most \<open>wl\<close> bytes, for the AEAD, the legacy
and the 2022 format.  For the classic AES-CCM methods the datagram must stay below the 16 MB they can open.\<close>

theorem datagram_limits_safe:
  assumes "seal_laws lib" "length address \<le> dl"
  shows "(payload \<noteq> [] \<and> length payload \<le> aead_datagram_payload_limit m wl dl \<and> aead_fits m (address @ payload) \<and>
       encrypt_aead_datagram lib m password rand (address @ payload) = Inr w \<longrightarrow> length w \<le> wl) \<and>
     (payload \<noteq> [] \<and> length payload \<le> legacy_datagram_payload_limit m wl dl \<and>
       encrypt_legacy_datagram lib m password rand (address @ payload) = Inr w \<longrightarrow> length w \<le> wl) \<and>
     (payload \<noteq> [] \<and> length payload \<le> ss2022_max_datagram_size wl dl codec \<and>
       fst (ss2022_encrypt lib now rand address payload codec) = Inr w \<longrightarrow> length w \<le> wl)"
proof (intro conjI impI; elim conjE)
  assume some: "payload \<noteq> []" and limit: "length payload \<le> aead_datagram_payload_limit m wl dl"
    and fits: "aead_fits m (address @ payload)"
    and "encrypt_aead_datagram lib m password rand (address @ payload) = Inr w"
  then obtain spec salt key c where *: "classic_aead m = Inr spec" "random_bytes rand (cm_key_size spec) = Some salt"
    "aead_encrypt lib m key (replicate (cm_nonce_size spec) 0) (address @ payload) = Inr c" "w = salt @ c"
    by (auto simp: encrypt_aead_datagram_def result_simps split: option.splits)
  have "length payload > 0" using some by simp
  then show "length w \<le> wl"
    using limit assms(2) * classic_aead_spec [OF *(1)] aead_roundtrip [OF assms(1) *(3) fits] length_random_bytes [OF *(2)]
    by (auto simp: aead_datagram_payload_limit_def split: if_splits)
next
  assume some: "payload \<noteq> []" and limit: "length payload \<le> legacy_datagram_payload_limit m wl dl"
    and "encrypt_legacy_datagram lib m password rand (address @ payload) = Inr w"
  then obtain spec iv e c e' where *: "cipher_method m = Inr spec" "random_bytes rand (cm_iv_size spec) = Some iv"
    "legacy_update (address @ payload) e = Inr (c, e')" "w = iv @ c"
    by (auto simp: encrypt_legacy_datagram_def result_simps split: if_splits option.splits)
  have "legacy_ok e" "length (address @ payload) \<le> INT_MAX"
    using *(3) by (auto simp: legacy_update_def legacy_ok_def split: if_splits)
  then have "length c = length address + length payload"
    using *(3) legacy_update_run [of e "address @ payload"] legacy_run_kept(2) [of "address @ payload" e] by simp
  moreover have pos: "0 < length payload" using some by simp
  moreover have "length payload \<le> wl - cm_iv_size spec - dl"
    using limit * pos by (simp add: legacy_datagram_payload_limit_def split: if_splits)
  ultimately show "length w \<le> wl"
    unfolding *(4) length_append length_random_bytes [OF *(2)] using assms(2) by linarith
next
  assume some: "payload \<noteq> []" and limit: "length payload \<le> ss2022_max_datagram_size wl dl codec"
    and enc: "fst (ss2022_encrypt lib now rand address payload codec) = Inr w"
  obtain spec where spec: "cipher_method (sc_method codec) = Inr spec" "cm_2022 spec"
    using enc by (auto simp: ss2022_encrypt_def split: sum.splits if_splits)
  have pos: "length payload > 0" using some by simp
  have body: "length (ss2022_body now address payload) = 12 + length address + length payload"
    by (simp add: ss2022_body_def)
  show "length w \<le> wl"
  proof (cases "is_aes_method spec")
    case True
    then obtain key n h c where *: "aead_encrypt lib (sc_method codec) key n (ss2022_body now address payload) = Inr c"
      "length h = 16" "w = h @ c"
      using enc spec by (auto simp: ss2022_encrypt_def ss2022_encrypt_aes_def Let_def result_simps aes_ecb_crypt_def split: if_splits)
    have "aead_fits (sc_method codec) (ss2022_body now address payload)"
      using True spec by (auto simp: aead_fits_def is_aes_method_def is_aes_ccm_method_def)
    from aead_roundtrip [OF assms(1) *(1) this] show ?thesis
      using limit spec True * body assms(2) pos by (auto simp: ss2022_max_datagram_size_def Let_def split: if_splits)
  next
    case False
    then obtain nonce c where *: "random_bytes rand 24 = Some nonce" "w = nonce @ c"
      "xchacha20_poly1305_encrypt lib (sc_psk codec) nonce (ss2022_header codec @ ss2022_body now address payload) = Inr c"
      using enc spec by (auto simp: ss2022_encrypt_def ss2022_encrypt_chacha_def Let_def result_simps split: if_splits option.splits)
    have "length (ss2022_header codec) = 16" by (simp add: ss2022_header_def)
    then show ?thesis
      using limit spec False * body assms(2) pos xchacha20_roundtrip(2) [OF assms(1) *(3)] length_random_bytes [OF *(1)]
      by (auto simp: ss2022_max_datagram_size_def Let_def split: if_splits)
  qed
qed

theorem datagram_limits_safe_witness:
  "\<exists>w. fst (ss2022_encrypt sample_crypto 1000 None (replicate 7 1) [5, 6] sample_codec) = Inr w \<and>
     ss2022_max_datagram_size 60 7 sample_codec = 2 \<and> length w \<le> 60"
proof -
  have "succeeds (ss2022_encrypt_aes sample_crypto sample_codec (ss2022_body 1000 (replicate 7 1) [5, 6]))"
    by (rule sample_encrypts) (simp_all add: ss2022_body_def INT_MAX_def)
  then have "succeeds (fst (ss2022_encrypt sample_crypto 1000 None (replicate 7 1) [5, 6] sample_codec))"
    using sample_codec_facts by (simp add: ss2022_encrypt_def Let_def is_aes_method_def)
  then obtain w where w: "fst (ss2022_encrypt sample_crypto 1000 None (replicate 7 1) [5, 6] sample_codec) = Inr w"
    by (auto simp: succeeds_iff)
  have limit: "ss2022_max_datagram_size 60 7 sample_codec = 2" by code_simp
  have address: "length (replicate 7 1 :: bytes) \<le> 7" by simp
  have fits: "[5, 6] \<noteq> ([] :: bytes)" "length ([5, 6] :: bytes) \<le> 2" by simp_all
  from datagram_limits_safe [OF sample_seal_laws address, of "[5, 6]" "[]" 60 "[]" None w sample_codec 1000] w limit fits
  have "length w \<le> 60" by (simp only:) blast
  then show ?thesis using w limit by blast
qed

end
