(* ===== verification/Interleaving.thy ===== *)
theory Interleaving
  imports Prelude "HOL-Library.Multiset"
begin

text \<open>
  How the channels of \<^verbatim>\<open>src/include/clash_native/async\<close> run on several threads.  Every operation is a
  critical section under the mutex of the channel followed by the completions it owes, which run after
  the mutex was released; between two of them any other thread may run.  An \<open>exec\<close> function gives the
  effect of one such action: the new state, the actions its thread still owes, and the events it logs.
  \<open>None\<close> stands for undefined behaviour (an operation state touched after its destruction, a dangling
  node).  The locale \<open>interleaved\<close> carries an invariant over the state, the multiset of all owed actions
  and the log through every interleaving.
\<close>

type_synonym ('s, 'a, 'e) exec = "'a \<Rightarrow> 's \<Rightarrow> ('s \<times> 'a list \<times> 'e list) option"

text \<open>A configuration: the state, and for each thread the actions it owes.\<close>

type_synonym ('s, 'a) threads = "'s \<times> 'a list list"

text \<open>
  A thread may call an action that is callable in the state (what the contract of the interface allows
  the environment), or perform the next action it owes.
\<close>

inductive interleave :: "('s, 'a, 'e) exec \<Rightarrow> ('a \<Rightarrow> 's \<Rightarrow> bool) \<Rightarrow>
    ('s, 'a) threads \<Rightarrow> 'e list \<Rightarrow> ('s, 'a) threads \<Rightarrow> bool"
  for exec :: "('s, 'a, 'e) exec" and callable :: "'a \<Rightarrow> 's \<Rightarrow> bool" where
  call: "callable a s \<Longrightarrow> exec a s = Some (s', owed, es) \<Longrightarrow>
    interleave exec callable (s, T) es (s', T @ [owed])"
| run: "i < length T \<Longrightarrow> T ! i = a # rest \<Longrightarrow> exec a s = Some (s', owed, es) \<Longrightarrow>
    interleave exec callable (s, T) es (s', T[i := owed @ rest])"

inductive reaches :: "('s, 'a, 'e) exec \<Rightarrow> ('a \<Rightarrow> 's \<Rightarrow> bool) \<Rightarrow> 's \<Rightarrow>
    ('s, 'a) threads \<Rightarrow> 'e list \<Rightarrow> bool"
  for exec :: "('s, 'a, 'e) exec" and callable :: "'a \<Rightarrow> 's \<Rightarrow> bool" and init :: 's where
  start: "reaches exec callable init (init, []) []"
| step: "reaches exec callable init c es \<Longrightarrow> interleave exec callable c es' c' \<Longrightarrow>
    reaches exec callable init c' (es @ es')"

inductive_cases interleaveE: "interleave exec callable (s, T) es (s', T')"

definition owed_actions :: "'a list list \<Rightarrow> 'a multiset" where
  "owed_actions T = mset (concat T)"

lemma owed_actions_simps [simp]:
  "owed_actions [] = {#}"
  "owed_actions (xs # T) = mset xs + owed_actions T"
  "owed_actions (T @ U) = owed_actions T + owed_actions U"
  by (simp_all add: owed_actions_def)

lemma owed_actions_update:
  assumes "i < length T"
  shows "owed_actions (T[i := xs]) + mset (T ! i) = owed_actions T + mset xs"
  using assms
proof (induction T arbitrary: i)
  case (Cons ys T)
  then show ?case by (cases i) (simp_all add: ac_simps)
qed simp

lemma owed_actions_run:
  assumes "i < length T" "T ! i = a # rest"
  obtains M where "owed_actions T = add_mset a M" "owed_actions (T[i := owed @ rest]) = M + mset owed"
proof
  let ?M = "owed_actions (T[i := rest])"
  have "owed_actions (T[i := rest]) + mset (a # rest) = owed_actions T + mset rest"
    using owed_actions_update [OF assms(1), of rest] assms(2) by simp
  then show whole: "owed_actions T = add_mset a ?M" by simp
  have "owed_actions (T[i := owed @ rest]) + mset (a # rest) = owed_actions T + mset (owed @ rest)"
    using owed_actions_update [OF assms(1), of "owed @ rest"] assms(2) by simp
  then show "owed_actions (T[i := owed @ rest]) = ?M + mset owed"
    unfolding whole by simp
qed

lemma owed_actions_member:
  "i < length T \<Longrightarrow> T ! i = a # rest \<Longrightarrow> a \<in># owed_actions T"
  by (metis list.set_intros(1) nth_mem owed_actions_def set_mset_mset UN_I set_concat)

lemma owed_actions_empty_iff: "owed_actions T = {#} \<longleftrightarrow> (\<forall>xs\<in>set T. xs = [])"
  by (induction T) simp_all

section \<open>Schedules\<close>

text \<open>A schedule picks who moves next; performing it is executable and yields a reachable configuration.\<close>

datatype 'a choice = Call 'a | Run nat

fun perform_one :: "('s, 'a, 'e) exec \<Rightarrow> ('a \<Rightarrow> 's \<Rightarrow> bool) \<Rightarrow> 'a choice \<Rightarrow>
    ('s, 'a) threads \<times> 'e list \<Rightarrow> (('s, 'a) threads \<times> 'e list) option" where
  "perform_one exec callable (Call a) ((s, T), es) =
     (if callable a s
      then (case exec a s of None \<Rightarrow> None | Some (s', owed, es') \<Rightarrow> Some ((s', T @ [owed]), es @ es'))
      else None)"
| "perform_one exec callable (Run i) ((s, T), es) =
     (if i < length T
      then (case T ! i of
              [] \<Rightarrow> None
            | a # rest \<Rightarrow> (case exec a s of
                  None \<Rightarrow> None
                | Some (s', owed, es') \<Rightarrow> Some ((s', T[i := owed @ rest]), es @ es')))
      else None)"

fun perform :: "('s, 'a, 'e) exec \<Rightarrow> ('a \<Rightarrow> 's \<Rightarrow> bool) \<Rightarrow> 'a choice list \<Rightarrow>
    ('s, 'a) threads \<times> 'e list \<Rightarrow> (('s, 'a) threads \<times> 'e list) option" where
  "perform exec callable [] c = Some c"
| "perform exec callable (x # xs) c =
     (case perform_one exec callable x c of None \<Rightarrow> None | Some c' \<Rightarrow> perform exec callable xs c')"

lemma perform_one_reaches:
  assumes "perform_one exec callable x (c, es) = Some (c', es')" "reaches exec callable init c es"
  shows "reaches exec callable init c' es'"
proof -
  obtain s T where c: "c = (s, T)" by (cases c)
  obtain new where "interleave exec callable c new c'" "es' = es @ new"
  proof (cases x)
    case (Call a)
    then show ?thesis using assms(1) c that
      by (auto split: if_splits option.splits intro: interleave.call)
  next
    case (Run i)
    then show ?thesis using assms(1) c that
      by (auto split: if_splits option.splits list.splits intro: interleave.run)
  qed
  then show ?thesis using reaches.step [OF assms(2)] by simp
qed

lemma perform_reaches_from:
  "perform exec callable xs (c, es) = Some (c', es') \<Longrightarrow> reaches exec callable init c es \<Longrightarrow>
   reaches exec callable init c' es'"
proof (induction xs arbitrary: c es)
  case (Cons x xs)
  from Cons.prems(1) obtain c1 es1 where "perform_one exec callable x (c, es) = Some (c1, es1)"
    "perform exec callable xs (c1, es1) = Some (c', es')"
    by (cases "perform_one exec callable x (c, es)") auto
  then show ?case by (intro Cons.IH [of c1 es1]) (auto intro: perform_one_reaches Cons.prems(2))
qed simp

lemma perform_reaches:
  "perform exec callable xs ((init, []), []) = Some ((s, T), es) \<Longrightarrow>
   reaches exec callable init (s, T) es"
  by (rule perform_reaches_from [OF _ reaches.start])

section \<open>Invariants of all interleavings\<close>

text \<open>
  An invariant may speak of what is owed but not of which thread owes it, so one law for each action
  covers both kinds of step: the action itself has left the multiset when the action is performed.
\<close>

locale interleaved =
  fixes exec :: "('s, 'a, 'e) exec"
    and callable :: "'a \<Rightarrow> 's \<Rightarrow> bool"
    and init :: 's
    and inv :: "'s \<Rightarrow> 'a multiset \<Rightarrow> 'e list \<Rightarrow> bool"
  assumes inv_init: "inv init {#} []"
    and inv_call: "\<And>a s M es. inv s M es \<Longrightarrow> callable a s \<Longrightarrow>
          \<exists>s' owed es'. exec a s = Some (s', owed, es') \<and> inv s' (M + mset owed) (es @ es')"
    and inv_run: "\<And>a s M es. inv s (add_mset a M) es \<Longrightarrow>
          \<exists>s' owed es'. exec a s = Some (s', owed, es') \<and> inv s' (M + mset owed) (es @ es')"
begin

lemma inv_interleave:
  assumes "interleave exec callable c es' c'" "inv (fst c) (owed_actions (snd c)) es"
  shows "inv (fst c') (owed_actions (snd c')) (es @ es')"
  using assms
proof cases
  case (call a s s' owed T)
  then show ?thesis using inv_call [of s "owed_actions T" es a] assms(2) by auto
next
  case (run i T a rest s s' owed)
  obtain M where "owed_actions T = add_mset a M" "owed_actions (T[i := owed @ rest]) = M + mset owed"
    by (rule owed_actions_run [of i T a rest]) (use run in simp_all)
  moreover from this have "inv s (add_mset a M) es" using assms(2) run by simp
  then obtain s1 owed1 es1 where "exec a s = Some (s1, owed1, es1)" "inv s1 (M + mset owed1) (es @ es1)"
    using inv_run by blast
  ultimately show ?thesis using run by simp
qed

lemma inv_reaches:
  assumes "reaches exec callable init c es"
  shows "inv (fst c) (owed_actions (snd c)) es"
  using assms by induction (simp_all add: inv_init inv_interleave)

lemma inv_reachable:
  "reaches exec callable init (s, T) es \<Longrightarrow> inv s (owed_actions T) es"
  using inv_reaches [of "(s, T)"] by simp

text \<open>No action a thread owes, and none the environment may call, runs into undefined behaviour.\<close>

lemma owed_defined:
  assumes "reaches exec callable init (s, T) es" "a \<in># owed_actions T"
  shows "exec a s \<noteq> None"
proof -
  obtain M where "owed_actions T = add_mset a M" using assms(2) by (metis insert_DiffM)
  then show ?thesis using inv_run [of s a M es] inv_reachable [OF assms(1)] by auto
qed

lemma call_defined:
  "reaches exec callable init (s, T) es \<Longrightarrow> callable a s \<Longrightarrow> exec a s \<noteq> None"
  using inv_call inv_reachable by fastforce

end

section \<open>Running to completion\<close>

text \<open>
  When every owed action uses up some backlog, the threads cannot run for ever on their own: each
  schedule of owed actions is finite, and one of them leaves nothing owed.
\<close>

locale draining = interleaved exec callable init inv
  for exec :: "('s, 'a, 'e) exec" and callable :: "'a \<Rightarrow> 's \<Rightarrow> bool" and init :: 's
    and inv :: "'s \<Rightarrow> 'a multiset \<Rightarrow> 'e list \<Rightarrow> bool" +
  fixes backlog :: "'s \<Rightarrow> 'a multiset \<Rightarrow> nat"
  assumes backlog_decreases: "\<And>a s M es s' owed es'. inv s (add_mset a M) es \<Longrightarrow>
      exec a s = Some (s', owed, es') \<Longrightarrow> backlog s' (M + mset owed) < backlog s (add_mset a M)"
begin

lemma run_decreases:
  assumes "reaches exec callable init (s, T) es"
    and "perform_one exec callable (Run i) ((s, T), es) = Some ((s', T'), es')"
  shows "backlog s' (owed_actions T') < backlog s (owed_actions T)"
proof -
  from assms(2) obtain a rest owed new where a: "i < length T" "T ! i = a # rest"
    and e: "exec a s = Some (s', owed, new)" and T': "T' = T[i := owed @ rest]"
    by (auto split: if_splits list.splits option.splits)
  obtain M where M: "owed_actions T = add_mset a M" "owed_actions (T[i := owed @ rest]) = M + mset owed"
    by (rule owed_actions_run [OF a])
  have "inv s (add_mset a M) es" using inv_reachable [OF assms(1)] M(1) by simp
  from backlog_decreases [OF this e] show ?thesis by (simp add: M T')
qed

lemma runs_bounded:
  assumes "reaches exec callable init (s, T) es"
    and "perform exec callable (map Run is) ((s, T), es) = Some ((s', T'), es')"
  shows "length is + backlog s' (owed_actions T') \<le> backlog s (owed_actions T)"
  using assms
proof (induction "is" arbitrary: s T es)
  case (Cons i "is")
  from Cons.prems(2) obtain s1 T1 es1
    where one: "perform_one exec callable (Run i) ((s, T), es) = Some ((s1, T1), es1)"
      and rest: "perform exec callable (map Run is) ((s1, T1), es1) = Some ((s', T'), es')"
    by (cases "perform_one exec callable (Run i) ((s, T), es)") auto
  have "reaches exec callable init (s1, T1) es1"
    by (rule perform_one_reaches [OF one Cons.prems(1)])
  from Cons.IH [OF this rest] run_decreases [OF Cons.prems(1) one] show ?case by simp
qed simp

lemma runs_finish:
  assumes "reaches exec callable init (s, T) es"
  shows "\<exists>is s' T' es'. perform exec callable (map Run is) ((s, T), es) = Some ((s', T'), es') \<and>
           owed_actions T' = {#}"
  using assms
proof (induction "backlog s (owed_actions T)" arbitrary: s T es rule: less_induct)
  case less
  show ?case
  proof (cases "owed_actions T = {#}")
    case True
    then show ?thesis by (intro exI [of _ "[]"]) simp
  next
    case False
    then obtain i where i: "i < length T" "T ! i \<noteq> []"
      by (auto simp: owed_actions_empty_iff in_set_conv_nth)
    then obtain a rest where a: "T ! i = a # rest" by (cases "T ! i") auto
    have "exec a s \<noteq> None" by (rule owed_defined [OF less.prems owed_actions_member [OF i(1) a]])
    then obtain s1 T1 es1 where one: "perform_one exec callable (Run i) ((s, T), es) = Some ((s1, T1), es1)"
      using i a by (cases "exec a s") auto
    have "reaches exec callable init (s1, T1) es1" by (rule perform_one_reaches [OF one less.prems])
    from less.hyps [OF run_decreases [OF less.prems one] this]
    obtain "is" s' T' es' where "perform exec callable (map Run is) ((s1, T1), es1) = Some ((s', T'), es')"
      "owed_actions T' = {#}" by blast
    then show ?thesis using one by (intro exI [of _ "i # is"]) simp
  qed
qed

end

end
