(* ===== verification/Wait_List.thy ===== *)
theory Wait_List
  imports Prelude "HOL-Library.Monad_Syntax"
begin

text \<open>
  The intrusive wait list of the channels: \<^verbatim>\<open>State::queue_send\<close> and \<^verbatim>\<open>State::unlink_send\<close> of
  \<^verbatim>\<open>mpsc_channel.hpp\<close>, which \<^verbatim>\<open>watch.hpp\<close> and \<^verbatim>\<open>broadcast.hpp\<close> repeat as \<^verbatim>\<open>link\<close> and \<^verbatim>\<open>unlink\<close>.  A node is
  the number of an operation; the links its operation state embeds are the two maps.  The locale
  \<open>wait_queue\<close> is what the channels rely on; it is interpreted on the linked list at the end.
\<close>

section \<open>The linked list\<close>

record wait_list =
  wait_head :: "nat option"
  wait_tail :: "nat option"
  node_prev :: "nat \<Rightarrow> nat option"
  node_next :: "nat \<Rightarrow> nat option"

definition empty_wait :: wait_list where
  "empty_wait = \<lparr>wait_head = None, wait_tail = None, node_prev = (\<lambda>_. None), node_next = (\<lambda>_. None)\<rparr>"

definition queue_node :: "nat \<Rightarrow> wait_list \<Rightarrow> wait_list" where
  "queue_node node w =
    (let w = w\<lparr>node_prev := (node_prev w)(node := wait_tail w), node_next := (node_next w)(node := None)\<rparr>;
         w = (case wait_tail w of
                Some tail \<Rightarrow> w\<lparr>node_next := (node_next w)(tail := Some node)\<rparr>
              | None \<Rightarrow> w\<lparr>wait_head := Some node\<rparr>)
     in w\<lparr>wait_tail := Some node\<rparr>)"

definition unlink_node :: "nat \<Rightarrow> wait_list \<Rightarrow> wait_list" where
  "unlink_node node w =
    (let w = (case node_prev w node of
                Some p \<Rightarrow> w\<lparr>node_next := (node_next w)(p := node_next w node)\<rparr>
              | None \<Rightarrow> w\<lparr>wait_head := node_next w node\<rparr>);
         w = (case node_next w node of
                Some n \<Rightarrow> w\<lparr>node_prev := (node_prev w)(n := node_prev w node)\<rparr>
              | None \<Rightarrow> w\<lparr>wait_tail := node_prev w node\<rparr>)
     in w\<lparr>node_prev := (node_prev w)(node := None), node_next := (node_next w)(node := None)\<rparr>)"

text \<open>
  A walk along the links from a node, the loop \<^verbatim>\<open>for (node = head; node != nullptr; node = next)\<close>;
  on a cyclic list it would not end.
\<close>

partial_function (option) walk :: "(nat \<Rightarrow> nat option) \<Rightarrow> nat option \<Rightarrow> nat list option" where
  [code]: "walk links node =
    (case node of
       None \<Rightarrow> Some []
     | Some n \<Rightarrow> do { rest \<leftarrow> walk links (links n); Some (n # rest) })"

section \<open>The list it represents\<close>

definition first_of :: "nat list \<Rightarrow> nat option \<Rightarrow> nat option" where
  "first_of xs after = (case xs of [] \<Rightarrow> after | x # _ \<Rightarrow> Some x)"

fun last_of :: "nat option \<Rightarrow> nat list \<Rightarrow> nat option" where
  "last_of before [] = before"
| "last_of before (x # xs) = last_of (Some x) xs"

text \<open>\<open>segment w before xs after\<close>: the nodes \<open>xs\<close> are linked in both directions between the two ends.\<close>

fun segment :: "wait_list \<Rightarrow> nat option \<Rightarrow> nat list \<Rightarrow> nat option \<Rightarrow> bool" where
  "segment w before [] after \<longleftrightarrow> True"
| "segment w before (x # xs) after \<longleftrightarrow>
     node_prev w x = before \<and> node_next w x = first_of xs after \<and> segment w (Some x) xs after"

definition represents :: "wait_list \<Rightarrow> nat list \<Rightarrow> bool" where
  "represents w xs \<longleftrightarrow> distinct xs \<and> wait_head w = first_of xs None \<and> wait_tail w = last_of None xs \<and>
     segment w None xs None"

lemma first_of_simps [simp]:
  "first_of [] after = after"
  "first_of (x # xs) after = Some x"
  "first_of (xs @ ys) after = first_of xs (first_of ys after)"
  by (simp_all add: first_of_def split: list.split)

lemma last_of_append [simp]: "last_of before (xs @ ys) = last_of (last_of before xs) ys"
  by (induction xs arbitrary: before) simp_all

lemma last_of_cases: "last_of before xs = (if xs = [] then before else Some (last xs))"
  by (induction xs arbitrary: before) simp_all

lemma segment_append [simp]:
  "segment w before (xs @ ys) after \<longleftrightarrow>
     segment w before xs (first_of ys after) \<and> segment w (last_of before xs) ys after"
  by (induction xs arbitrary: before) auto

text \<open>Links of other nodes do not matter.\<close>

lemma segment_cong:
  assumes "\<And>x. x \<in> set xs \<Longrightarrow> node_prev w' x = node_prev w x \<and> node_next w' x = node_next w x"
  shows "segment w' before xs after = segment w before xs after"
  using assms by (induction xs arbitrary: before) auto

lemma represents_empty: "represents empty_wait []"
  by (simp add: represents_def empty_wait_def)

lemma represents_queue:
  assumes "represents w xs" "n \<notin> set xs"
  shows "represents (queue_node n w) (xs @ [n])"
proof (cases xs rule: rev_cases)
  case Nil
  then show ?thesis using assms by (simp add: represents_def queue_node_def)
next
  case (snoc ys y)
  then have tail: "wait_tail w = Some y" and n: "n \<noteq> y" "n \<notin> set ys" and y: "y \<notin> set ys"
    and seg: "segment w None ys (Some y)"
    using assms by (auto simp: represents_def)
  have "segment (queue_node n w) None ys (Some y)"
    by (subst segment_cong [where w = w]) (use seg n y tail in \<open>auto simp: queue_node_def\<close>)
  then show ?thesis
    using assms n snoc tail by (auto simp: represents_def queue_node_def)
qed

text \<open>
  Unlinking rewrites the right end of what precedes the node and the left end of what follows it.
\<close>

lemma segment_relink_next:
  assumes "segment w before xs (Some n)" "xs \<noteq> []" "distinct xs"
    "\<And>x. x \<in> set xs \<Longrightarrow> node_prev w' x = node_prev w x"
    "\<And>x. x \<in> set xs \<Longrightarrow> node_next w' x = (if x = last xs then after else node_next w x)"
  shows "segment w' before xs after"
  using assms
proof (induction xs arbitrary: before)
  case (Cons x xs)
  show ?case
  proof (cases "xs = []")
    case False
    then have "x \<noteq> last xs" using Cons.prems(3) by auto
    moreover have "segment w' (Some x) xs after"
      using Cons.prems False by (intro Cons.IH) auto
    ultimately show ?thesis using Cons.prems False by (cases xs) auto
  qed (use Cons.prems in auto)
qed simp

lemma segment_relink_prev:
  assumes "segment w (Some n) xs after" "xs \<noteq> []" "distinct xs"
    "\<And>x. x \<in> set xs \<Longrightarrow> node_next w' x = node_next w x"
    "\<And>x. x \<in> set xs \<Longrightarrow> node_prev w' x = (if x = hd xs then before else node_prev w x)"
  shows "segment w' before xs after"
proof (cases xs)
  case (Cons x ys)
  have "segment w' (Some x) ys after"
    by (subst segment_cong [where w = w]) (use assms Cons in auto)
  then show ?thesis using assms Cons by auto
qed (use assms in simp)

lemma unlink_node_links:
  assumes "node_prev w n = last_of None xs" "node_next w n = first_of ys None" "n \<notin> set xs" "n \<notin> set ys"
  shows "x \<noteq> n \<Longrightarrow> node_next (unlink_node n w) x =
           (if xs \<noteq> [] \<and> x = last xs then first_of ys None else node_next w x)"
    and "x \<noteq> n \<Longrightarrow> node_prev (unlink_node n w) x =
           (if ys \<noteq> [] \<and> x = hd ys then last_of None xs else node_prev w x)"
    and "wait_head (unlink_node n w) = (if xs = [] then first_of ys None else wait_head w)"
    and "wait_tail (unlink_node n w) = (if ys = [] then last_of None xs else wait_tail w)"
proof -
  have n: "xs \<noteq> [] \<Longrightarrow> last xs \<noteq> n" "ys \<noteq> [] \<Longrightarrow> hd ys \<noteq> n"
    using assms(3,4) by auto
  show "x \<noteq> n \<Longrightarrow> node_next (unlink_node n w) x =
           (if xs \<noteq> [] \<and> x = last xs then first_of ys None else node_next w x)"
    "x \<noteq> n \<Longrightarrow> node_prev (unlink_node n w) x =
           (if ys \<noteq> [] \<and> x = hd ys then last_of None xs else node_prev w x)"
    "wait_head (unlink_node n w) = (if xs = [] then first_of ys None else wait_head w)"
    "wait_tail (unlink_node n w) = (if ys = [] then last_of None xs else wait_tail w)"
    using assms(1,2) n
    by (cases ys; auto simp: unlink_node_def last_of_cases Let_def)+
qed

lemma represents_unlink:
  assumes "represents w (xs @ n # ys)"
  shows "represents (unlink_node n w) (xs @ ys)"
proof -
  have links: "node_prev w n = last_of None xs" "node_next w n = first_of ys None"
    and fresh: "n \<notin> set xs" "n \<notin> set ys" and dist: "distinct xs" "distinct ys" "set xs \<inter> set ys = {}"
    and ends: "wait_head w = first_of xs (Some n)" "wait_tail w = last_of (Some n) ys"
    and segs: "segment w None xs (Some n)" "segment w (Some n) ys None"
    using assms by (auto simp: represents_def)
  note unlinked = unlink_node_links [OF links fresh]
  have nx: "x \<noteq> n" if "x \<in> set xs" for x using that fresh by auto
  have ny: "y \<noteq> n" if "y \<in> set ys" for y using that fresh by auto
  have left: "segment (unlink_node n w) None xs (first_of ys None)"
  proof (cases "xs = []")
    case False
    show ?thesis
      by (rule segment_relink_next [OF segs(1) False dist(1)])
        (use dist(3) nx unlinked False in \<open>auto dest: hd_in_set\<close>)
  qed simp
  have right: "segment (unlink_node n w) (last_of None xs) ys None"
  proof (cases "ys = []")
    case False
    show ?thesis
      by (rule segment_relink_prev [OF segs(2) False dist(2)])
        (use dist(3) ny unlinked False in \<open>auto dest: last_in_set\<close>)
  qed simp
  show ?thesis
    using left right dist unlinked(3,4) ends
    by (cases xs; cases ys) (auto simp: represents_def)
qed

lemma represents_unlink_remove1:
  assumes "represents w xs" "n \<in> set xs"
  shows "represents (unlink_node n w) (remove1 n xs)"
proof -
  obtain ys zs where xs: "xs = ys @ n # zs" "n \<notin> set ys" using assms(2) by (meson split_list_first)
  then show ?thesis using represents_unlink [of w ys n zs] assms(1) by (simp add: remove1_append)
qed

lemma segment_walk: "segment w before xs None \<Longrightarrow> walk (node_next w) (first_of xs None) = Some xs"
  by (induction xs arbitrary: before) (auto simp: walk.simps)

section \<open>The interface\<close>

locale wait_queue =
  fixes holds :: "'q \<Rightarrow> nat list \<Rightarrow> bool"
    and empty :: 'q
    and enqueue :: "nat \<Rightarrow> 'q \<Rightarrow> 'q"
    and withdraw :: "nat \<Rightarrow> 'q \<Rightarrow> 'q"
    and front :: "'q \<Rightarrow> nat option"
    and members :: "'q \<Rightarrow> nat list option"
  assumes holds_empty: "holds empty []"
    and holds_distinct: "holds q xs \<Longrightarrow> distinct xs"
    and holds_enqueue: "holds q xs \<Longrightarrow> n \<notin> set xs \<Longrightarrow> holds (enqueue n q) (xs @ [n])"
    and holds_withdraw: "holds q xs \<Longrightarrow> n \<in> set xs \<Longrightarrow> holds (withdraw n q) (remove1 n xs)"
    and holds_front: "holds q xs \<Longrightarrow> front q = (case xs of [] \<Rightarrow> None | x # _ \<Rightarrow> Some x)"
    and holds_members: "holds q xs \<Longrightarrow> members q = Some xs"
begin

lemma holds_functional: "holds q xs \<Longrightarrow> holds q ys \<Longrightarrow> xs = ys"
  using holds_members by (metis option.inject)

lemma front_None: "holds q xs \<Longrightarrow> front q = None \<longleftrightarrow> xs = []"
  by (auto simp: holds_front split: list.split)

lemma front_Some: "holds q xs \<Longrightarrow> front q = Some n \<longleftrightarrow> (\<exists>ys. xs = n # ys)"
  by (auto simp: holds_front split: list.split)

text \<open>Withdrawing the front is dequeuing: the waiters are served in the order they arrived.\<close>

lemma holds_dequeue: "holds q (n # xs) \<Longrightarrow> holds (withdraw n q) xs"
  using holds_withdraw [of q "n # xs" n] by simp

lemma holds_cycle: "holds q xs \<Longrightarrow> n \<notin> set xs \<Longrightarrow> holds (withdraw n (enqueue n q)) xs"
  using holds_withdraw [OF holds_enqueue, of q xs n n] by (simp add: remove1_append)

end

definition wait_members :: "wait_list \<Rightarrow> nat list option" where
  "wait_members w = walk (node_next w) (wait_head w)"

interpretation wl: wait_queue represents empty_wait queue_node unlink_node wait_head wait_members
proof
  show "represents empty_wait []" by (rule represents_empty)
  fix w xs n
  assume rep: "represents w xs"
  then show "distinct xs" "wait_head w = (case xs of [] \<Rightarrow> None | x # _ \<Rightarrow> Some x)"
    by (simp_all add: represents_def first_of_def)
  show "wait_members w = Some xs"
    using rep segment_walk [of w None xs] by (simp add: represents_def wait_members_def)
  show "n \<notin> set xs \<Longrightarrow> represents (queue_node n w) (xs @ [n])" using rep by (rule represents_queue)
  show "n \<in> set xs \<Longrightarrow> represents (unlink_node n w) (remove1 n xs)"
    using rep by (rule represents_unlink_remove1)
qed

lemmas wait_list_simps = wl.holds_front wl.holds_members wl.front_None wl.front_Some

end
