(* ===== verification/Mpsc_Channel.thy ===== *)
theory Mpsc_Channel
  imports Interleaving Wait_List
begin

text \<open>
  \<^verbatim>\<open>src/include/clash_native/async/mpsc_channel.hpp\<close>: the multi-producer, single-consumer channel.
  Operation states are numbered; the number of one is its address, never used for another, so that
  touching a destroyed one is seen (\<open>so_alive\<close>, \<open>ro_alive\<close>).  Each critical section under
  \<^verbatim>\<open>State::mutex\<close> is one action; the completions that follow its release are the actions its thread
  owes.  \<^verbatim>\<open>stop_callback_.reset()\<close> is part of the completion it precedes.  The signals an operation
  delivered, whether it was started, and the log of events are records of the model, not of the code.
\<close>

section \<open>State\<close>

datatype stage = StageInit | StageQueued | StageClaimed | StageClosed | StageStopped | StageGone

datatype send_signal = Send_Value bool | Send_Stopped

datatype 'a recv_signal = Recv_Value "'a option" | Recv_Violation | Recv_Stopped

record 'a send_op =
  so_stage :: stage
  so_state :: bool  \<comment> \<open>\<^verbatim>\<open>state_ != nullptr\<close>\<close>
  so_value :: "'a option"  \<comment> \<open>\<^verbatim>\<open>value_\<close>, \<open>None\<close> once moved from\<close>
  so_stop_requested :: bool
  so_callback :: bool  \<comment> \<open>\<^verbatim>\<open>stop_callback_\<close> is registered and has not run\<close>
  so_started :: bool
  so_alive :: bool
  so_signals :: "send_signal list"

record 'a recv_op =
  ro_stage :: stage
  ro_state :: bool
  ro_held :: "'a option"
  ro_stop_requested :: bool
  ro_callback :: bool
  ro_started :: bool
  ro_alive :: bool
  ro_signals :: "'a recv_signal list"

record 'a mpsc =
  buffer :: "'a list"
  capacity :: nat
  bounded_mode :: bool
  recv_slot :: "nat option"
  wait_queue :: wait_list
  senders :: nat
  closed :: bool
  send_ops :: "nat \<Rightarrow> 'a send_op option"
  recv_ops :: "nat \<Rightarrow> 'a recv_op option"

definition kUnbounded :: nat where "kUnbounded = 2 ^ 64 - 1"

definition unbounded :: "'a mpsc" where
  "unbounded = \<lparr>buffer = [], capacity = kUnbounded, bounded_mode = False, recv_slot = None,
     wait_queue = empty_wait, senders = 1, closed = False, send_ops = (\<lambda>_. None), recv_ops = (\<lambda>_. None)\<rparr>"

definition bounded :: "nat \<Rightarrow> 'a mpsc" where
  "bounded cap = unbounded\<lparr>capacity := cap, bounded_mode := True\<rparr>"

text \<open>
  What is logged: a value offered by the operation \<open>n\<close>; a value entering the channel from an
  operation or from \<open>try_send\<close>; a value leaving it to an operation or to \<open>try_recv\<close>; the results of the
  two calls.
\<close>

datatype 'a event =
    Offered nat 'a
  | Accepted "nat option" 'a
  | Taken "nat option" 'a
  | Try_Send_Result 'a bool
  | Try_Recv_Result "'a option"

datatype 'a action =
    Try_Send 'a
  | Try_Recv
  | Close_Channel
  | Copy_Sender
  | Release_Sender
  | Connect_Send nat bool 'a
  | Start_Send nat
  | Arbitrate_Send nat
  | Signal_Send nat send_signal
  | Complete_Detached nat
  | Stop_Send nat
  | Destroy_Send nat
  | Connect_Recv nat bool
  | Start_Recv nat
  | Arbitrate_Recv nat
  | Signal_Recv nat "'a recv_signal"
  | Complete_Value nat
  | Stop_Recv nat
  | Destroy_Recv nat

type_synonym 'a effect = "('a mpsc \<times> 'a action list \<times> 'a event list) option"

section \<open>Nodes\<close>

definition live_send :: "'a mpsc \<Rightarrow> nat \<Rightarrow> 'a send_op option" where
  "live_send s n = (case send_ops s n of None \<Rightarrow> None | Some op \<Rightarrow> if so_alive op then Some op else None)"

definition live_recv :: "'a mpsc \<Rightarrow> nat \<Rightarrow> 'a recv_op option" where
  "live_recv s n = (case recv_ops s n of None \<Rightarrow> None | Some op \<Rightarrow> if ro_alive op then Some op else None)"

definition put_send :: "nat \<Rightarrow> 'a send_op \<Rightarrow> 'a mpsc \<Rightarrow> 'a mpsc" where
  "put_send n op s = s\<lparr>send_ops := (send_ops s)(n \<mapsto> op)\<rparr>"

definition put_recv :: "nat \<Rightarrow> 'a recv_op \<Rightarrow> 'a mpsc \<Rightarrow> 'a mpsc" where
  "put_recv n op s = s\<lparr>recv_ops := (recv_ops s)(n \<mapsto> op)\<rparr>"

definition take_value :: "nat \<Rightarrow> 'a mpsc \<Rightarrow> ('a \<times> 'a mpsc) option" where
  "take_value n s = do {
     op \<leftarrow> live_send s n;
     v \<leftarrow> so_value op;
     Some (v, put_send n (op\<lparr>so_stage := StageClaimed, so_value := None\<rparr>) s)
   }"

definition store :: "nat \<Rightarrow> 'a \<Rightarrow> 'a mpsc \<Rightarrow> 'a mpsc option" where
  "store r v s = do {
     op \<leftarrow> live_recv s r;
     Some (put_recv r (op\<lparr>ro_held := Some v, ro_stage := StageClaimed\<rparr>) s)
   }"

definition new_send_op :: "bool \<Rightarrow> 'a \<Rightarrow> 'a send_op" where
  "new_send_op attached v = \<lparr>so_stage = StageInit, so_state = attached, so_value = Some v,
     so_stop_requested = False, so_callback = False, so_started = False, so_alive = True, so_signals = []\<rparr>"

definition new_recv_op :: "bool \<Rightarrow> 'a recv_op" where
  "new_recv_op attached = \<lparr>ro_stage = StageInit, ro_state = attached, ro_held = None,
     ro_stop_requested = False, ro_callback = False, ro_started = False, ro_alive = True, ro_signals = []\<rparr>"

section \<open>Operations on the channel\<close>

definition try_send :: "'a \<Rightarrow> 'a mpsc \<Rightarrow> 'a effect" where
  "try_send v s =
    (if closed s then Some (s, [], [Try_Send_Result v False])
     else case recv_slot s of
       Some r \<Rightarrow> do {
         s' \<leftarrow> store r v (s\<lparr>recv_slot := None\<rparr>);
         Some (s', [Complete_Value r], [Accepted None v, Taken (Some r) v, Try_Send_Result v True])
       }
     | None \<Rightarrow>
         if \<not> bounded_mode s
         then Some (s\<lparr>buffer := buffer s @ [v]\<rparr>, [], [Accepted None v, Try_Send_Result v True])
         else if length (buffer s) < capacity s
         then Some (s\<lparr>buffer := buffer s @ [v]\<rparr>, [], [Accepted None v, Try_Send_Result v True])
         else Some (s, [], [Try_Send_Result v False]))"

text \<open>
  The part \<^verbatim>\<open>try_recv\<close> and \<^verbatim>\<open>RecvOpState::start\<close> share: a value of the buffer, refilled from the oldest
  parked sender, or that sender's value itself.  The second component is \<^verbatim>\<open>claimed\<close>.
\<close>

definition take_front :: "nat option \<Rightarrow> 'a mpsc \<Rightarrow>
    ('a option \<times> nat option \<times> 'a mpsc \<times> 'a event list) option" where
  "take_front who s =
    (case buffer s of
       v # rest \<Rightarrow>
         let s = s\<lparr>buffer := rest\<rparr> in
         if bounded_mode s
         then case wait_head (wait_queue s) of
                Some n \<Rightarrow> do {
                  (w, s) \<leftarrow> take_value n (s\<lparr>wait_queue := unlink_node n (wait_queue s)\<rparr>);
                  Some (Some v, Some n, s\<lparr>buffer := buffer s @ [w]\<rparr>, [Taken who v, Accepted (Some n) w])
                }
              | None \<Rightarrow> Some (Some v, None, s, [Taken who v])
         else Some (Some v, None, s, [Taken who v])
     | [] \<Rightarrow>
         if bounded_mode s
         then case wait_head (wait_queue s) of
                Some n \<Rightarrow> do {
                  (w, s) \<leftarrow> take_value n (s\<lparr>wait_queue := unlink_node n (wait_queue s)\<rparr>);
                  Some (Some w, Some n, s, [Accepted (Some n) w, Taken who w])
                }
              | None \<Rightarrow> Some (None, None, s, [])
         else Some (None, None, s, []))"

definition complete_claimed :: "nat option \<Rightarrow> 'a action list" where
  "complete_claimed claimed =
    (case claimed of None \<Rightarrow> [] | Some n \<Rightarrow> [Signal_Send n (Send_Value True)])"

definition try_recv :: "'a mpsc \<Rightarrow> 'a effect" where
  "try_recv s = do {
     (out, claimed, s, es) \<leftarrow> take_front None s;
     Some (s, complete_claimed claimed, es @ [Try_Recv_Result out])
   }"

fun mark_closed :: "nat list \<Rightarrow> 'a mpsc \<Rightarrow> 'a mpsc option" where
  "mark_closed [] s = Some s"
| "mark_closed (n # ns) s = do {
     op \<leftarrow> live_send s n;
     mark_closed ns (put_send n (op\<lparr>so_stage := StageClosed\<rparr>) s)
   }"

definition close_slot :: "'a mpsc \<Rightarrow> 'a mpsc option" where
  "close_slot s =
    (case recv_slot s of
       None \<Rightarrow> Some s
     | Some r \<Rightarrow> do {
         op \<leftarrow> live_recv s r;
         Some (put_recv r (op\<lparr>ro_stage := StageClosed\<rparr>) (s\<lparr>recv_slot := None\<rparr>))
       })"

text \<open>
  The links of the detached nodes are read one by one while the completions run; nobody else touches
  them, so the walk is done at once.
\<close>

definition close_channel :: "'a mpsc \<Rightarrow> 'a effect" where
  "close_channel s =
    (if closed s then Some (s, [], [])
     else do {
       s1 \<leftarrow> close_slot (s\<lparr>closed := True\<rparr>);
       pending \<leftarrow> wait_members (wait_queue s1);
       s2 \<leftarrow> mark_closed pending (s1\<lparr>wait_queue := (wait_queue s1)\<lparr>wait_head := None, wait_tail := None\<rparr>\<rparr>);
       Some (s2,
         (case recv_slot s of None \<Rightarrow> [] | Some r \<Rightarrow> [Signal_Recv r (Recv_Value None)]) @
           map Complete_Detached pending,
         [])
     })"

definition remaining_capacity :: "'a mpsc \<Rightarrow> nat" where
  "remaining_capacity s =
    (if length (buffer s) \<ge> capacity s then 0 else capacity s - length (buffer s))"

definition copy_sender :: "'a mpsc \<Rightarrow> 'a effect" where
  "copy_sender s = Some (s\<lparr>senders := senders s + 1\<rparr>, [], [])"

definition release_sender :: "'a mpsc \<Rightarrow> 'a effect" where
  "release_sender s =
    Some (s\<lparr>senders := senders s - 1\<rparr>, (if senders s = 1 then [Close_Channel] else []), [])"

section \<open>Send operations\<close>

definition connect_send :: "nat \<Rightarrow> bool \<Rightarrow> 'a \<Rightarrow> 'a mpsc \<Rightarrow> 'a effect" where
  "connect_send n attached v s = Some (put_send n (new_send_op attached v) s, [], [Offered n v])"

definition signal_send :: "nat \<Rightarrow> send_signal \<Rightarrow> 'a mpsc \<Rightarrow> 'a effect" where
  "signal_send n sig s = do {
     op \<leftarrow> live_send s n;
     Some (put_send n (op\<lparr>so_callback := False, so_signals := so_signals op @ [sig]\<rparr>) s, [], [])
   }"

definition start_send :: "nat \<Rightarrow> 'a mpsc \<Rightarrow> 'a effect" where
  "start_send n s = do {
     op \<leftarrow> live_send s n;
     if so_state op
     then Some (put_send n (op\<lparr>so_started := True, so_callback := True\<rparr>) s, [Arbitrate_Send n], [])
     else signal_send n (Send_Value False) (put_send n (op\<lparr>so_started := True\<rparr>) s)
   }"

definition arbitrate_send :: "nat \<Rightarrow> 'a mpsc \<Rightarrow> 'a effect" where
  "arbitrate_send n s = do {
     op \<leftarrow> live_send s n;
     if so_stop_requested op then Some (s, [Signal_Send n Send_Stopped], [])
     else if closed s then Some (s, [Signal_Send n (Send_Value False)], [])
     else case recv_slot s of
       Some r \<Rightarrow> do {
         v \<leftarrow> so_value op;
         s' \<leftarrow> store r v (put_send n (op\<lparr>so_value := None\<rparr>) (s\<lparr>recv_slot := None\<rparr>));
         Some (s', [Complete_Value r, Signal_Send n (Send_Value True)],
           [Accepted (Some n) v, Taken (Some r) v])
       }
     | None \<Rightarrow>
         if bounded_mode s \<and> length (buffer s) < capacity s then do {
           v \<leftarrow> so_value op;
           Some (put_send n (op\<lparr>so_value := None\<rparr>) (s\<lparr>buffer := buffer s @ [v]\<rparr>),
             [Signal_Send n (Send_Value True)], [Accepted (Some n) v])
         }
         else if \<not> bounded_mode s then do {
           v \<leftarrow> so_value op;
           Some (put_send n (op\<lparr>so_value := None\<rparr>) (s\<lparr>buffer := buffer s @ [v]\<rparr>),
             [Signal_Send n (Send_Value True)], [Accepted (Some n) v])
         }
         else Some (put_send n (op\<lparr>so_stage := StageQueued\<rparr>)
                (s\<lparr>wait_queue := queue_node n (wait_queue s)\<rparr>), [], [])
   }"

definition complete_detached :: "nat \<Rightarrow> 'a mpsc \<Rightarrow> 'a effect" where
  "complete_detached n s =
     signal_send n (Send_Value False)
       (s\<lparr>wait_queue := (wait_queue s)
            \<lparr>node_prev := (node_prev (wait_queue s))(n := None),
             node_next := (node_next (wait_queue s))(n := None)\<rparr>\<rparr>)"

definition stop_send :: "nat \<Rightarrow> 'a mpsc \<Rightarrow> 'a effect" where
  "stop_send n s = do {
     op \<leftarrow> live_send s n;
     let op = op\<lparr>so_callback := False\<rparr>;
     if \<not> so_state op then Some (put_send n op s, [], [])
     else if so_stage op = StageQueued
     then Some (put_send n (op\<lparr>so_stage := StageStopped\<rparr>)
                  (s\<lparr>wait_queue := unlink_node n (wait_queue s)\<rparr>), [Signal_Send n Send_Stopped], [])
     else if so_stage op = StageInit
     then Some (put_send n (op\<lparr>so_stop_requested := True\<rparr>) s, [], [])
     else Some (put_send n op s, [], [])
   }"

definition destroy_send :: "nat \<Rightarrow> 'a mpsc \<Rightarrow> 'a effect" where
  "destroy_send n s = do {
     op \<leftarrow> live_send s n;
     let op = op\<lparr>so_alive := False, so_callback := False\<rparr>;
     if so_state op \<and> so_stage op = StageQueued
     then Some (put_send n (op\<lparr>so_stage := StageGone\<rparr>)
                  (s\<lparr>wait_queue := unlink_node n (wait_queue s)\<rparr>), [], [])
     else Some (put_send n op s, [], [])
   }"

section \<open>Receive operations\<close>

definition connect_recv :: "nat \<Rightarrow> bool \<Rightarrow> 'a mpsc \<Rightarrow> 'a effect" where
  "connect_recv r attached s = Some (put_recv r (new_recv_op attached) s, [], [])"

definition signal_recv :: "nat \<Rightarrow> 'a recv_signal \<Rightarrow> 'a mpsc \<Rightarrow> 'a effect" where
  "signal_recv r sig s = do {
     op \<leftarrow> live_recv s r;
     Some (put_recv r (op\<lparr>ro_callback := False, ro_signals := ro_signals op @ [sig]\<rparr>) s, [], [])
   }"

definition complete_value :: "nat \<Rightarrow> 'a mpsc \<Rightarrow> 'a effect" where
  "complete_value r s = do {
     op \<leftarrow> live_recv s r;
     signal_recv r (Recv_Value (ro_held op)) s
   }"

definition start_recv :: "nat \<Rightarrow> 'a mpsc \<Rightarrow> 'a effect" where
  "start_recv r s = do {
     op \<leftarrow> live_recv s r;
     if ro_state op
     then Some (put_recv r (op\<lparr>ro_started := True, ro_callback := True\<rparr>) s, [Arbitrate_Recv r], [])
     else signal_recv r (Recv_Value None) (put_recv r (op\<lparr>ro_started := True\<rparr>) s)
   }"

definition arbitrate_recv :: "nat \<Rightarrow> 'a mpsc \<Rightarrow> 'a effect" where
  "arbitrate_recv r s = do {
     op \<leftarrow> live_recv s r;
     if ro_stop_requested op then Some (s, [Signal_Recv r Recv_Stopped], [])
     else do {
       (out, claimed, s, es) \<leftarrow> take_front (Some r) s;
       if out \<noteq> None
       then Some (s, complete_claimed claimed @ [Signal_Recv r (Recv_Value out)], es)
       else if closed s
       then Some (s, complete_claimed claimed @ [Signal_Recv r (Recv_Value None)], es)
       else if recv_slot s \<noteq> None
       then Some (s, complete_claimed claimed @ [Signal_Recv r Recv_Violation], es)
       else Some (put_recv r (op\<lparr>ro_stage := StageQueued\<rparr>) (s\<lparr>recv_slot := Some r\<rparr>),
              complete_claimed claimed, es)
     }
   }"

definition stop_recv :: "nat \<Rightarrow> 'a mpsc \<Rightarrow> 'a effect" where
  "stop_recv r s = do {
     op \<leftarrow> live_recv s r;
     let op = op\<lparr>ro_callback := False\<rparr>;
     if \<not> ro_state op then Some (put_recv r op s, [], [])
     else if ro_stage op = StageQueued
     then Some (put_recv r (op\<lparr>ro_stage := StageStopped\<rparr>) (s\<lparr>recv_slot := None\<rparr>),
            [Signal_Recv r Recv_Stopped], [])
     else if ro_stage op = StageInit
     then Some (put_recv r (op\<lparr>ro_stop_requested := True\<rparr>) s, [], [])
     else Some (put_recv r op s, [], [])
   }"

definition destroy_recv :: "nat \<Rightarrow> 'a mpsc \<Rightarrow> 'a effect" where
  "destroy_recv r s = do {
     op \<leftarrow> live_recv s r;
     let op = op\<lparr>ro_alive := False, ro_callback := False\<rparr>;
     if ro_state op \<and> ro_stage op = StageQueued
     then Some (put_recv r (op\<lparr>ro_stage := StageGone\<rparr>) (s\<lparr>recv_slot := None\<rparr>), [], [])
     else Some (put_recv r op s, [], [])
   }"

section \<open>Actions\<close>

fun mpsc_exec :: "('a mpsc, 'a action, 'a event) exec" where
  "mpsc_exec (Try_Send v) s = try_send v s"
| "mpsc_exec Try_Recv s = try_recv s"
| "mpsc_exec Close_Channel s = close_channel s"
| "mpsc_exec Copy_Sender s = copy_sender s"
| "mpsc_exec Release_Sender s = release_sender s"
| "mpsc_exec (Connect_Send n attached v) s = connect_send n attached v s"
| "mpsc_exec (Start_Send n) s = start_send n s"
| "mpsc_exec (Arbitrate_Send n) s = arbitrate_send n s"
| "mpsc_exec (Signal_Send n sig) s = signal_send n sig s"
| "mpsc_exec (Complete_Detached n) s = complete_detached n s"
| "mpsc_exec (Stop_Send n) s = stop_send n s"
| "mpsc_exec (Destroy_Send n) s = destroy_send n s"
| "mpsc_exec (Connect_Recv r attached) s = connect_recv r attached s"
| "mpsc_exec (Start_Recv r) s = start_recv r s"
| "mpsc_exec (Arbitrate_Recv r) s = arbitrate_recv r s"
| "mpsc_exec (Signal_Recv r sig) s = signal_recv r sig s"
| "mpsc_exec (Complete_Value r) s = complete_value r s"
| "mpsc_exec (Stop_Recv r) s = stop_recv r s"
| "mpsc_exec (Destroy_Recv r) s = destroy_recv r s"

text \<open>
  What the environment may call: any operation of a handle at any time, and on an operation state what
  the sender/receiver protocol allows: start it once, destroy it before its start, while it is parked,
  or after it completed, and run its stop callback once while it is registered.
\<close>

fun mpsc_callable :: "'a action \<Rightarrow> 'a mpsc \<Rightarrow> bool" where
  "mpsc_callable (Try_Send v) s \<longleftrightarrow> True"
| "mpsc_callable Try_Recv s \<longleftrightarrow> True"
| "mpsc_callable Close_Channel s \<longleftrightarrow> True"
| "mpsc_callable Copy_Sender s \<longleftrightarrow> senders s > 0"
| "mpsc_callable Release_Sender s \<longleftrightarrow> senders s > 0"
| "mpsc_callable (Connect_Send n attached v) s \<longleftrightarrow> send_ops s n = None"
| "mpsc_callable (Start_Send n) s \<longleftrightarrow>
     (case live_send s n of None \<Rightarrow> False | Some op \<Rightarrow> \<not> so_started op)"
| "mpsc_callable (Stop_Send n) s \<longleftrightarrow>
     (case live_send s n of None \<Rightarrow> False | Some op \<Rightarrow> so_callback op)"
| "mpsc_callable (Destroy_Send n) s \<longleftrightarrow>
     (case live_send s n of None \<Rightarrow> False
      | Some op \<Rightarrow> \<not> so_started op \<or> so_stage op = StageQueued \<or> so_signals op \<noteq> [])"
| "mpsc_callable (Connect_Recv r attached) s \<longleftrightarrow> recv_ops s r = None"
| "mpsc_callable (Start_Recv r) s \<longleftrightarrow>
     (case live_recv s r of None \<Rightarrow> False | Some op \<Rightarrow> \<not> ro_started op)"
| "mpsc_callable (Stop_Recv r) s \<longleftrightarrow>
     (case live_recv s r of None \<Rightarrow> False | Some op \<Rightarrow> ro_callback op)"
| "mpsc_callable (Destroy_Recv r) s \<longleftrightarrow>
     (case live_recv s r of None \<Rightarrow> False
      | Some op \<Rightarrow> \<not> ro_started op \<or> ro_stage op = StageQueued \<or> ro_signals op \<noteq> [])"
| "mpsc_callable _ s \<longleftrightarrow> False"

end
