(* ===== verification/Mpsc_Correct.thy ===== *)
theory Mpsc_Correct
  imports Mpsc_Channel
begin

text \<open>
  The channel under every interleaving of its actions: the invariant, and what follows for the values it
  carries and the operations waiting on it.
\<close>

section \<open>Reading the log\<close>

definition offered :: "nat \<Rightarrow> 'a event list \<Rightarrow> 'a list" where
  "offered n es = concat (map (\<lambda>e. case e of Offered m v \<Rightarrow> if m = n then [v] else [] | _ \<Rightarrow> []) es)"

definition accepted :: "'a event list \<Rightarrow> 'a list" where
  "accepted es = concat (map (\<lambda>e. case e of Accepted _ v \<Rightarrow> [v] | _ \<Rightarrow> []) es)"

definition accepted_by :: "nat option \<Rightarrow> 'a event list \<Rightarrow> 'a list" where
  "accepted_by who es = concat (map (\<lambda>e. case e of Accepted w v \<Rightarrow> if w = who then [v] else [] | _ \<Rightarrow> []) es)"

definition taken :: "'a event list \<Rightarrow> 'a list" where
  "taken es = concat (map (\<lambda>e. case e of Taken _ v \<Rightarrow> [v] | _ \<Rightarrow> []) es)"

definition taken_by :: "nat option \<Rightarrow> 'a event list \<Rightarrow> 'a list" where
  "taken_by who es = concat (map (\<lambda>e. case e of Taken w v \<Rightarrow> if w = who then [v] else [] | _ \<Rightarrow> []) es)"

lemmas log_defs = offered_def accepted_def accepted_by_def taken_def taken_by_def

lemma log_append [simp]:
  "offered n (es @ fs) = offered n es @ offered n fs"
  "accepted (es @ fs) = accepted es @ accepted fs"
  "accepted_by who (es @ fs) = accepted_by who es @ accepted_by who fs"
  "taken (es @ fs) = taken es @ taken fs"
  "taken_by who (es @ fs) = taken_by who es @ taken_by who fs"
  by (simp_all add: log_defs)

lemma log_Nil [simp]:
  "offered n [] = []" "accepted [] = []" "accepted_by who [] = []" "taken [] = []" "taken_by who [] = []"
  by (simp_all add: log_defs)

lemma log_Cons [simp]:
  "offered n (e # es) = (case e of Offered m v \<Rightarrow> if m = n then [v] else [] | _ \<Rightarrow> []) @ offered n es"
  "accepted (e # es) = (case e of Accepted _ v \<Rightarrow> [v] | _ \<Rightarrow> []) @ accepted es"
  "accepted_by who (e # es) =
     (case e of Accepted w v \<Rightarrow> if w = who then [v] else [] | _ \<Rightarrow> []) @ accepted_by who es"
  "taken (e # es) = (case e of Taken _ v \<Rightarrow> [v] | _ \<Rightarrow> []) @ taken es"
  "taken_by who (e # es) =
     (case e of Taken w v \<Rightarrow> if w = who then [v] else [] | _ \<Rightarrow> []) @ taken_by who es"
  by (simp_all add: log_defs)

section \<open>What is owed to an operation\<close>

fun send_target :: "'a action \<Rightarrow> nat option" where
  "send_target (Arbitrate_Send n) = Some n"
| "send_target (Signal_Send n sig) = Some n"
| "send_target (Complete_Detached n) = Some n"
| "send_target _ = None"

fun recv_target :: "'a action \<Rightarrow> nat option" where
  "recv_target (Arbitrate_Recv r) = Some r"
| "recv_target (Signal_Recv r sig) = Some r"
| "recv_target (Complete_Value r) = Some r"
| "recv_target _ = None"

definition owes_send :: "nat \<Rightarrow> 'a action multiset \<Rightarrow> 'a action multiset" where
  "owes_send n M = filter_mset (\<lambda>a. send_target a = Some n) M"

definition owes_recv :: "nat \<Rightarrow> 'a action multiset \<Rightarrow> 'a action multiset" where
  "owes_recv r M = filter_mset (\<lambda>a. recv_target a = Some r) M"

lemma owes_simps [simp]:
  "owes_send n {#} = {#}"
  "owes_send n (add_mset a M) =
     (if send_target a = Some n then add_mset a (owes_send n M) else owes_send n M)"
  "owes_send n (M + N) = owes_send n M + owes_send n N"
  "owes_recv n {#} = {#}"
  "owes_recv n (add_mset a M) =
     (if recv_target a = Some n then add_mset a (owes_recv n M) else owes_recv n M)"
  "owes_recv n (M + N) = owes_recv n M + owes_recv n N"
  by (simp_all add: owes_send_def owes_recv_def)

definition owable :: "'a action \<Rightarrow> bool" where
  "owable a \<longleftrightarrow> a = Close_Channel \<or> send_target a \<noteq> None \<or> recv_target a \<noteq> None"

lemma owable_simps [simp]:
  "owable Close_Channel" "owable (Arbitrate_Send n)" "owable (Signal_Send n ssig)"
  "owable (Complete_Detached n)" "owable (Arbitrate_Recv r)" "owable (Signal_Recv r rsig)"
  "owable (Complete_Value r)"
  by (simp_all add: owable_def)

section \<open>The life of an operation\<close>

text \<open>
  Not started; between the registration of the stop callback and the critical section; parked;
  destroyed while parked; resolved, with exactly one completion owed; completed with exactly one
  signal.  A send completes with \<open>True\<close> exactly when its value entered the channel.
\<close>

definition send_phase :: "nat \<Rightarrow> 'a send_op \<Rightarrow> 'a action multiset \<Rightarrow> bool \<Rightarrow> bool" where
  "send_phase n op owed accd \<longleftrightarrow>
     \<not> so_started op \<and> so_stage op = StageInit \<and> so_signals op = [] \<and> owed = {#} \<and>
       \<not> so_callback op \<and> \<not> accd
   \<or> so_started op \<and> so_alive op \<and> so_state op \<and> so_stage op = StageInit \<and> so_signals op = [] \<and>
       owed = {#Arbitrate_Send n#} \<and> \<not> accd
   \<or> so_started op \<and> so_alive op \<and> so_state op \<and> so_stage op = StageQueued \<and> so_signals op = [] \<and>
       owed = {#} \<and> \<not> accd
   \<or> so_started op \<and> \<not> so_alive op \<and> so_stage op = StageGone \<and> so_signals op = [] \<and> owed = {#} \<and> \<not> accd
   \<or> so_started op \<and> so_alive op \<and> so_stage op \<noteq> StageQueued \<and> so_stage op \<noteq> StageGone \<and>
       so_signals op = [] \<and>
       ((\<exists>sig. owed = {#Signal_Send n sig#} \<and> (sig = Send_Value True \<longleftrightarrow> accd))
        \<or> owed = {#Complete_Detached n#} \<and> \<not> accd)
   \<or> so_started op \<and> so_stage op \<noteq> StageQueued \<and> so_stage op \<noteq> StageGone \<and> \<not> so_callback op \<and>
       owed = {#} \<and> (\<exists>sig. so_signals op = [sig] \<and> (sig = Send_Value True \<longleftrightarrow> accd))"

fun received :: "'a recv_signal \<Rightarrow> 'a list" where
  "received (Recv_Value (Some v)) = [v]"
| "received _ = []"

definition recv_phase :: "nat \<Rightarrow> 'a recv_op \<Rightarrow> 'a action multiset \<Rightarrow> 'a list \<Rightarrow> bool" where
  "recv_phase r op owed got \<longleftrightarrow>
     \<not> ro_started op \<and> ro_stage op = StageInit \<and> ro_signals op = [] \<and> owed = {#} \<and>
       \<not> ro_callback op \<and> got = []
   \<or> ro_started op \<and> ro_alive op \<and> ro_state op \<and> ro_stage op = StageInit \<and> ro_signals op = [] \<and>
       owed = {#Arbitrate_Recv r#} \<and> got = []
   \<or> ro_started op \<and> ro_alive op \<and> ro_state op \<and> ro_stage op = StageQueued \<and> ro_signals op = [] \<and>
       owed = {#} \<and> got = []
   \<or> ro_started op \<and> \<not> ro_alive op \<and> ro_stage op = StageGone \<and> ro_signals op = [] \<and> owed = {#} \<and> got = []
   \<or> ro_started op \<and> ro_alive op \<and> ro_stage op \<noteq> StageQueued \<and> ro_stage op \<noteq> StageGone \<and>
       ro_signals op = [] \<and>
       ((\<exists>sig. owed = {#Signal_Recv r sig#} \<and> got = received sig)
        \<or> owed = {#Complete_Value r#} \<and> (\<exists>v. ro_held op = Some v \<and> got = [v]))
   \<or> ro_started op \<and> ro_stage op \<noteq> StageQueued \<and> ro_stage op \<noteq> StageGone \<and> \<not> ro_callback op \<and>
       owed = {#} \<and> (\<exists>sig. ro_signals op = [sig] \<and> got = received sig)"

text \<open>The value a send offers is with the operation until it enters the channel, once.\<close>

definition send_ok :: "nat \<Rightarrow> 'a send_op option \<Rightarrow> 'a action multiset \<Rightarrow> 'a list \<Rightarrow> 'a list \<Rightarrow> bool" where
  "send_ok n entry owed off acc \<longleftrightarrow>
    (case entry of
       None \<Rightarrow> owed = {#} \<and> off = [] \<and> acc = []
     | Some op \<Rightarrow> (\<exists>v. off = [v] \<and> (so_value op = Some v \<and> acc = [] \<or> so_value op = None \<and> acc = [v])) \<and>
         send_phase n op owed (acc \<noteq> []))"

definition recv_ok :: "nat \<Rightarrow> 'a recv_op option \<Rightarrow> 'a action multiset \<Rightarrow> 'a list \<Rightarrow> bool" where
  "recv_ok r entry owed got \<longleftrightarrow>
    (case entry of None \<Rightarrow> owed = {#} \<and> got = [] | Some op \<Rightarrow> recv_phase r op owed got)"

definition sends_ok :: "'a mpsc \<Rightarrow> 'a action multiset \<Rightarrow> 'a event list \<Rightarrow> bool" where
  "sends_ok s M es \<longleftrightarrow>
    (\<forall>n. send_ok n (send_ops s n) (owes_send n M) (offered n es) (accepted_by (Some n) es))"

definition recvs_ok :: "'a mpsc \<Rightarrow> 'a action multiset \<Rightarrow> 'a event list \<Rightarrow> bool" where
  "recvs_ok s M es \<longleftrightarrow> (\<forall>r. recv_ok r (recv_ops s r) (owes_recv r M) (taken_by (Some r) es))"

section \<open>The channel itself\<close>

definition send_parked :: "'a mpsc \<Rightarrow> nat \<Rightarrow> bool" where
  "send_parked s n \<longleftrightarrow> (\<exists>op. send_ops s n = Some op \<and> so_stage op = StageQueued)"

definition recv_parked :: "'a mpsc \<Rightarrow> nat \<Rightarrow> bool" where
  "recv_parked s r \<longleftrightarrow> (\<exists>op. recv_ops s r = Some op \<and> ro_stage op = StageQueued)"

text \<open>
  The wait list holds the parked senders and the slot the parked receiver.  Senders wait only on a full
  buffer, a receiver only on an empty channel, nobody on a closed one.
\<close>

definition waits_ok :: "'a mpsc \<Rightarrow> nat list \<Rightarrow> bool" where
  "waits_ok s ws \<longleftrightarrow> represents (wait_queue s) ws \<and> (\<forall>n. n \<in> set ws \<longleftrightarrow> send_parked s n) \<and>
     (\<forall>r. recv_slot s = Some r \<longleftrightarrow> recv_parked s r) \<and>
     (ws \<noteq> [] \<longrightarrow> bounded_mode s \<and> capacity s \<le> length (buffer s) \<and> \<not> closed s) \<and>
     (recv_slot s \<noteq> None \<longrightarrow> buffer s = [] \<and> ws = [] \<and> \<not> closed s) \<and>
     (bounded_mode s \<longrightarrow> length (buffer s) \<le> capacity s)"

definition fifo_ok :: "'a mpsc \<Rightarrow> 'a event list \<Rightarrow> bool" where
  "fifo_ok s es \<longleftrightarrow> accepted es = taken es @ buffer s"

definition senders_ok :: "'a mpsc \<Rightarrow> 'a action multiset \<Rightarrow> bool" where
  "senders_ok s M \<longleftrightarrow> (senders s = 0 \<longrightarrow> closed s \<or> Close_Channel \<in># M) \<and> (\<forall>a\<in>#M. owable a)"

definition mpsc_inv :: "'a mpsc \<Rightarrow> 'a action multiset \<Rightarrow> 'a event list \<Rightarrow> bool" where
  "mpsc_inv s M es \<longleftrightarrow> sends_ok s M es \<and> recvs_ok s M es \<and> (\<exists>ws. waits_ok s ws) \<and> fifo_ok s es \<and>
     senders_ok s M"

lemma mpsc_invI:
  "sends_ok s M es \<Longrightarrow> recvs_ok s M es \<Longrightarrow> waits_ok s ws \<Longrightarrow> fifo_ok s es \<Longrightarrow> senders_ok s M \<Longrightarrow>
   mpsc_inv s M es"
  by (auto simp: mpsc_inv_def)

lemma mpsc_invE:
  assumes "mpsc_inv s M es"
  obtains ws where "sends_ok s M es" "recvs_ok s M es" "waits_ok s ws" "fifo_ok s es" "senders_ok s M"
  using assms by (auto simp: mpsc_inv_def)

text \<open>An action changes one operation and leaves the others as they are.\<close>

lemma sends_ok_change:
  assumes "sends_ok s M es"
    and "\<And>m. m \<noteq> n \<Longrightarrow> send_ops s' m = send_ops s m \<and> owes_send m M' = owes_send m M \<and>
           offered m es' = [] \<and> accepted_by (Some m) es' = []"
    and "send_ok n (send_ops s' n) (owes_send n M') (offered n es @ offered n es')
           (accepted_by (Some n) es @ accepted_by (Some n) es')"
  shows "sends_ok s' M' (es @ es')"
  unfolding sends_ok_def
proof
  fix m
  show "send_ok m (send_ops s' m) (owes_send m M') (offered m (es @ es')) (accepted_by (Some m) (es @ es'))"
    using assms by (cases "m = n") (auto simp: sends_ok_def)
qed

lemma sends_ok_frame:
  assumes "sends_ok s M es"
    and "\<And>m. send_ops s' m = send_ops s m \<and> owes_send m M' = owes_send m M \<and>
           offered m es' = [] \<and> accepted_by (Some m) es' = []"
  shows "sends_ok s' M' (es @ es')"
  using assms by (simp add: sends_ok_def)

lemma recvs_ok_change:
  assumes "recvs_ok s M es"
    and "\<And>m. m \<noteq> r \<Longrightarrow> recv_ops s' m = recv_ops s m \<and> owes_recv m M' = owes_recv m M \<and>
           taken_by (Some m) es' = []"
    and "recv_ok r (recv_ops s' r) (owes_recv r M') (taken_by (Some r) es @ taken_by (Some r) es')"
  shows "recvs_ok s' M' (es @ es')"
  unfolding recvs_ok_def
proof
  fix m
  show "recv_ok m (recv_ops s' m) (owes_recv m M') (taken_by (Some m) (es @ es'))"
    using assms by (cases "m = r") (auto simp: recvs_ok_def)
qed

lemma recvs_ok_frame:
  assumes "recvs_ok s M es"
    and "\<And>m. recv_ops s' m = recv_ops s m \<and> owes_recv m M' = owes_recv m M \<and> taken_by (Some m) es' = []"
  shows "recvs_ok s' M' (es @ es')"
  using assms by (simp add: recvs_ok_def)

section \<open>Steps\<close>

definition steps_ok :: "'a action multiset \<Rightarrow> 'a event list \<Rightarrow> 'a effect \<Rightarrow> bool" where
  "steps_ok M es eff \<longleftrightarrow>
    (\<exists>s' owed es'. eff = Some (s', owed, es') \<and> mpsc_inv s' (M + mset owed) (es @ es'))"

lemma steps_okI:
  assumes "eff = Some (s', owed, es')"
    and "sends_ok s' (M + mset owed) (es @ es')" "recvs_ok s' (M + mset owed) (es @ es')"
    and "waits_ok s' ws" "fifo_ok s' (es @ es')" "senders_ok s' (M + mset owed)"
  shows "steps_ok M es eff"
  using assms by (auto simp: steps_ok_def mpsc_inv_def)

lemmas node_defs = put_send_def put_recv_def live_send_def live_recv_def

lemma live_send_Some:
  "live_send s n = Some op \<longleftrightarrow> send_ops s n = Some op \<and> so_alive op"
  by (auto simp: live_send_def split: option.split)

lemma live_recv_Some:
  "live_recv s r = Some op \<longleftrightarrow> recv_ops s r = Some op \<and> ro_alive op"
  by (auto simp: live_recv_def split: option.split)

lemma put_simps [simp]:
  "send_ops (put_send n op s) = (send_ops s)(n \<mapsto> op)"
  "recv_ops (put_send n op s) = recv_ops s"
  "recv_ops (put_recv r rop s) = (recv_ops s)(r \<mapsto> rop)"
  "send_ops (put_recv r rop s) = send_ops s"
  "buffer (put_send n op s) = buffer s" "buffer (put_recv r rop s) = buffer s"
  "capacity (put_send n op s) = capacity s" "capacity (put_recv r rop s) = capacity s"
  "bounded_mode (put_send n op s) = bounded_mode s" "bounded_mode (put_recv r rop s) = bounded_mode s"
  "recv_slot (put_send n op s) = recv_slot s" "recv_slot (put_recv r rop s) = recv_slot s"
  "wait_queue (put_send n op s) = wait_queue s" "wait_queue (put_recv r rop s) = wait_queue s"
  "senders (put_send n op s) = senders s" "senders (put_recv r rop s) = senders s"
  "closed (put_send n op s) = closed s" "closed (put_recv r rop s) = closed s"
  by (simp_all add: put_send_def put_recv_def)

text \<open>What a pending action says of its operation.\<close>

lemma sends_okD:
  "sends_ok s M es \<Longrightarrow> send_ok n (send_ops s n) (owes_send n M) (offered n es) (accepted_by (Some n) es)"
  by (simp add: sends_ok_def)

lemma recvs_okD:
  "recvs_ok s M es \<Longrightarrow> recv_ok r (recv_ops s r) (owes_recv r M) (taken_by (Some r) es)"
  by (simp add: recvs_ok_def)

lemma send_pending:
  assumes "sends_ok s (add_mset a M) es" "send_target a = Some n"
  obtains op v where "send_ops s n = Some op" "so_alive op" "so_started op" "so_signals op = []"
    "owes_send n M = {#}" "so_stage op \<noteq> StageQueued" "so_stage op \<noteq> StageGone" "offered n es = [v]"
    "so_value op = Some v \<and> accepted_by (Some n) es = [] \<or>
     so_value op = None \<and> accepted_by (Some n) es = [v]"
    "send_phase n op {#a#} (accepted_by (Some n) es \<noteq> [])"
  using sends_okD [OF assms(1), of n] assms(2) that
  by (fastforce simp: send_ok_def send_phase_def split: option.splits)

lemma recv_pending:
  assumes "recvs_ok s (add_mset a M) es" "recv_target a = Some r"
  obtains op where "recv_ops s r = Some op" "ro_alive op" "ro_started op" "ro_signals op = []"
    "owes_recv r M = {#}" "ro_stage op \<noteq> StageQueued" "ro_stage op \<noteq> StageGone"
    "recv_phase r op {#a#} (taken_by (Some r) es)"
  using recvs_okD [OF assms(1), of r] assms(2) that
  by (fastforce simp: recv_ok_def recv_phase_def split: option.splits)

text \<open>The wait list and the slot follow the stages.\<close>

lemma waits_ok_put_send:
  assumes "waits_ok s ws" "so_stage op = StageQueued \<longleftrightarrow> send_parked s n"
  shows "waits_ok (put_send n op s) ws"
  using assms by (auto simp: waits_ok_def send_parked_def recv_parked_def)

lemma waits_ok_park_send:
  assumes "waits_ok s ws" "\<not> send_parked s n" "so_stage op = StageQueued" "bounded_mode s"
    "capacity s \<le> length (buffer s)" "\<not> closed s" "recv_slot s = None"
  shows "waits_ok (put_send n op (s\<lparr>wait_queue := queue_node n (wait_queue s)\<rparr>)) (ws @ [n])"
  using assms wl.holds_enqueue [of "wait_queue s" ws n]
  by (auto simp: waits_ok_def send_parked_def recv_parked_def)

lemma waits_ok_unpark_send:
  assumes "waits_ok s ws" "send_parked s n" "so_stage op \<noteq> StageQueued"
  shows "waits_ok (put_send n op (s\<lparr>wait_queue := unlink_node n (wait_queue s)\<rparr>)) (remove1 n ws)"
proof -
  have ws: "distinct ws" "n \<in> set ws" "represents (wait_queue s) ws"
    using assms wl.holds_distinct by (auto simp: waits_ok_def)
  then have "represents (unlink_node n (wait_queue s)) (remove1 n ws)"
    by (intro wl.holds_withdraw)
  moreover have "remove1 n ws \<noteq> [] \<Longrightarrow> ws \<noteq> []" by auto
  ultimately show ?thesis
    using assms ws by (auto simp: waits_ok_def send_parked_def recv_parked_def)
qed

lemma waits_ok_put_recv:
  assumes "waits_ok s ws" "ro_stage op = StageQueued \<longleftrightarrow> recv_parked s r"
  shows "waits_ok (put_recv r op s) ws"
  using assms by (auto simp: waits_ok_def send_parked_def recv_parked_def)

lemma waits_ok_park_recv:
  assumes "waits_ok s ws" "ro_stage op = StageQueued" "recv_slot s = None" "buffer s = []" "ws = []"
    "\<not> closed s"
  shows "waits_ok (put_recv r op (s\<lparr>recv_slot := Some r\<rparr>)) ws"
  using assms by (auto simp: waits_ok_def send_parked_def recv_parked_def)

lemma waits_ok_unpark_recv:
  assumes "waits_ok s ws" "recv_slot s = Some r" "ro_stage op \<noteq> StageQueued"
  shows "waits_ok (put_recv r op (s\<lparr>recv_slot := None\<rparr>)) ws"
  using assms by (auto simp: waits_ok_def send_parked_def recv_parked_def)

section \<open>Send operations\<close>

lemma senders_ok_owable:
  "senders_ok s M \<Longrightarrow> senders s' = senders s \<Longrightarrow> closed s' = closed s \<Longrightarrow> (\<And>a. a \<in># N \<Longrightarrow> owable a) \<Longrightarrow>
   senders_ok s' (M + N)"
  by (auto simp: senders_ok_def)

lemma senders_ok_done:
  "senders_ok s (add_mset a M) \<Longrightarrow> a \<noteq> Close_Channel \<Longrightarrow> senders_ok s M"
  by (auto simp: senders_ok_def)

lemma fifo_ok_quiet:
  "fifo_ok s es \<Longrightarrow> buffer s' = buffer s \<Longrightarrow> accepted es' = [] \<Longrightarrow> taken es' = [] \<Longrightarrow> fifo_ok s' (es @ es')"
  by (simp add: fifo_ok_def)

lemma connect_send_ok:
  assumes "mpsc_inv s M es" "send_ops s n = None"
  shows "steps_ok M es (connect_send n attached v s)"
proof -
  obtain ws where inv: "sends_ok s M es" "recvs_ok s M es" "waits_ok s ws" "fifo_ok s es" "senders_ok s M"
    using assms(1) by (rule mpsc_invE)
  let ?s = "put_send n (new_send_op attached v) s"
  have "send_ok n None (owes_send n M) (offered n es) (accepted_by (Some n) es)"
    using sends_okD [OF inv(1), of n] assms(2) by simp
  then have "sends_ok ?s (M + mset []) (es @ [Offered n v])"
    by (intro sends_ok_change [OF inv(1), of n]) (auto simp: send_ok_def send_phase_def new_send_op_def)
  moreover have "waits_ok ?s ws"
    by (rule waits_ok_put_send [OF inv(3)]) (simp add: new_send_op_def send_parked_def assms(2))
  moreover have "recvs_ok ?s (M + mset []) (es @ [Offered n v])"
    by (rule recvs_ok_frame [OF inv(2)]) simp
  ultimately show ?thesis
    using fifo_ok_quiet [OF inv(4), of ?s "[Offered n v]"] senders_ok_owable [OF inv(5), of ?s "{#}"]
    by (intro steps_okI) (auto simp: connect_send_def)
qed

text \<open>
  The action performed was a call (\<open>M0 = M\<close>) or owed to the operation \<open>n\<close>; it updates that operation.
\<close>

definition spent_send :: "nat \<Rightarrow> 'a action multiset \<Rightarrow> 'a action multiset \<Rightarrow> bool" where
  "spent_send n M0 M \<longleftrightarrow> M0 = M \<or> (\<exists>a. M0 = add_mset a M \<and> send_target a = Some n)"

lemma spent_send_call: "spent_send n M M"
  and spent_send_owed: "send_target a = Some n \<Longrightarrow> spent_send n (add_mset a M) M"
  by (auto simp: spent_send_def)

lemma send_target_not_recv: "send_target a = Some n \<Longrightarrow> recv_target a = None \<and> a \<noteq> Close_Channel \<and> owable a"
  by (cases a) (auto simp: owable_def)

lemma recv_target_not_send: "recv_target a = Some n \<Longrightarrow> send_target a = None \<and> a \<noteq> Close_Channel \<and> owable a"
  by (cases a) (auto simp: owable_def)

lemma spent_send_owes:
  assumes "spent_send n M0 M"
  shows "m \<noteq> n \<Longrightarrow> owes_send m M0 = owes_send m M" "owes_recv r M0 = owes_recv r M"
    "senders_ok s M0 \<Longrightarrow> senders_ok s M"
  using assms send_target_not_recv senders_ok_done by (fastforce simp: spent_send_def)+

lemma owes_of_send:
  assumes "\<forall>a\<in>set owed. send_target a = Some n"
  shows "m \<noteq> n \<Longrightarrow> owes_send m (mset owed) = {#}" "owes_send n (mset owed) = mset owed"
    "owes_recv r (mset owed) = {#}" "a \<in> set owed \<Longrightarrow> owable a"
  using assms by (induction owed) (auto dest: send_target_not_recv simp: owable_def)

lemma send_step_ok:
  assumes inv: "mpsc_inv s M0 es" "spent_send n M0 M"
    and eff: "eff = Some (put_send n op s', owed, [])" "\<forall>a\<in>set owed. send_target a = Some n"
    and same: "buffer s' = buffer s" "send_ops s' = send_ops s" "recv_ops s' = recv_ops s"
      "senders s' = senders s" "closed s' = closed s"
    and send: "send_ok n (Some op) (owes_send n M + mset owed) (offered n es) (accepted_by (Some n) es)"
    and waits: "\<And>ws. waits_ok s ws \<Longrightarrow> \<exists>ws'. waits_ok (put_send n op s') ws'"
  shows "steps_ok M es eff"
proof -
  obtain ws where parts: "sends_ok s M0 es" "recvs_ok s M0 es" "waits_ok s ws" "fifo_ok s es" "senders_ok s M0"
    using inv(1) by (rule mpsc_invE)
  note spent = spent_send_owes [OF inv(2)] and owes = owes_of_send [OF eff(2)]
  obtain ws' where ws': "waits_ok (put_send n op s') ws'" using waits parts(3) by blast
  show ?thesis
  proof (rule steps_okI [OF eff(1) _ _ ws'])
    show "sends_ok (put_send n op s') (M + mset owed) (es @ [])"
      by (rule sends_ok_change [OF parts(1), of n]) (use send spent owes same in auto)
    show "recvs_ok (put_send n op s') (M + mset owed) (es @ [])"
      by (rule recvs_ok_frame [OF parts(2)]) (use spent owes same in auto)
    show "fifo_ok (put_send n op s') (es @ [])"
      by (rule fifo_ok_quiet [OF parts(4)]) (use same in auto)
    show "senders_ok (put_send n op s') (M + mset owed)"
      by (rule senders_ok_owable [OF spent(3) [OF parts(5)]]) (use same owes in auto)
  qed
qed

lemma waits_ok_same_stage:
  assumes "waits_ok s ws" "send_ops s n = Some old" "so_stage op = so_stage old"
  shows "\<exists>ws'. waits_ok (put_send n op s) ws'"
  using waits_ok_put_send [OF assms(1), of op n] assms(2,3) by (auto simp: send_parked_def)

lemma signal_send_ok:
  assumes "mpsc_inv s (add_mset (Signal_Send n sig) M) es"
  shows "steps_ok M es (signal_send n sig s)"
proof -
  have sends: "sends_ok s (add_mset (Signal_Send n sig) M) es" using assms by (rule mpsc_invE)
  obtain op v where op: "send_ops s n = Some op" "so_alive op" "so_started op" "so_signals op = []"
    "owes_send n M = {#}" "so_stage op \<noteq> StageQueued" "so_stage op \<noteq> StageGone" "offered n es = [v]"
    "so_value op = Some v \<and> accepted_by (Some n) es = [] \<or>
     so_value op = None \<and> accepted_by (Some n) es = [v]"
    and phase: "send_phase n op {#Signal_Send n sig#} (accepted_by (Some n) es \<noteq> [])"
    by (rule send_pending [OF sends, of n]) simp_all
  let ?op = "op\<lparr>so_callback := False, so_signals := so_signals op @ [sig]\<rparr>"
  show ?thesis
  proof (rule send_step_ok [where n = n, OF assms spent_send_owed])
    show "signal_send n sig s = Some (put_send n ?op s, [], [])"
      by (simp add: signal_send_def live_send_def op)
    show "send_ok n (Some ?op) (owes_send n M + mset []) (offered n es) (accepted_by (Some n) es)"
      using op phase by (auto simp: send_ok_def send_phase_def)
    show "\<exists>ws'. waits_ok (put_send n ?op s) ws'" if "waits_ok s ws" for ws
      using waits_ok_same_stage [OF that op(1)] by simp
  qed simp_all
qed

lemma start_send_ok:
  assumes "mpsc_inv s M es" "live_send s n = Some op" "\<not> so_started op"
  shows "steps_ok M es (start_send n s)"
proof -
  have sends: "sends_ok s M es" using assms(1) by (rule mpsc_invE)
  have op: "send_ops s n = Some op" "so_alive op" using assms(2) by (simp_all add: live_send_Some)
  have ok: "send_ok n (Some op) (owes_send n M) (offered n es) (accepted_by (Some n) es)"
    using sends_okD [OF sends, of n] op by simp
  show ?thesis
  proof (cases "so_state op")
    case True
    let ?op = "op\<lparr>so_started := True, so_callback := True\<rparr>"
    show ?thesis
    proof (rule send_step_ok [where n = n, OF assms(1) spent_send_call])
      show "start_send n s = Some (put_send n ?op s, [Arbitrate_Send n], [])"
        using True assms(2) by (simp add: start_send_def)
      show "send_ok n (Some ?op) (owes_send n M + mset [Arbitrate_Send n]) (offered n es)
          (accepted_by (Some n) es)"
        using ok True op assms(3) by (auto simp: send_ok_def send_phase_def)
      show "\<exists>ws'. waits_ok (put_send n ?op s) ws'" if "waits_ok s ws" for ws
        using waits_ok_same_stage [OF that op(1)] by simp
    qed simp_all
  next
    case False
    let ?op = "op\<lparr>so_started := True, so_callback := False, so_signals := so_signals op @ [Send_Value False]\<rparr>"
    show ?thesis
    proof (rule send_step_ok [where n = n, OF assms(1) spent_send_call])
      show "start_send n s = Some (put_send n ?op s, [], [])"
        using False assms(2) op
        by (simp add: start_send_def signal_send_def put_send_def live_send_def)
      show "send_ok n (Some ?op) (owes_send n M + mset []) (offered n es) (accepted_by (Some n) es)"
        using ok op assms(3) by (auto simp: send_ok_def send_phase_def)
      show "\<exists>ws'. waits_ok (put_send n ?op s) ws'" if "waits_ok s ws" for ws
        using waits_ok_same_stage [OF that op(1)] by simp
    qed simp_all
  qed
qed

lemma waits_ok_reset_links:
  assumes "waits_ok s ws" "\<not> send_parked s n"
  shows "waits_ok (s\<lparr>wait_queue := (wait_queue s)\<lparr>node_prev := (node_prev (wait_queue s))(n := None),
           node_next := (node_next (wait_queue s))(n := None)\<rparr>\<rparr>) ws"
proof -
  let ?w = "(wait_queue s)\<lparr>node_prev := (node_prev (wait_queue s))(n := None),
    node_next := (node_next (wait_queue s))(n := None)\<rparr>"
  have "n \<notin> set ws" "represents (wait_queue s) ws" using assms by (auto simp: waits_ok_def)
  moreover from this(1) have "segment ?w None ws None = segment (wait_queue s) None ws None"
    by (intro segment_cong) auto
  ultimately have "represents ?w ws" by (simp add: represents_def)
  then show ?thesis using assms(1) by (auto simp: waits_ok_def send_parked_def recv_parked_def)
qed

lemma complete_detached_ok:
  assumes "mpsc_inv s (add_mset (Complete_Detached n) M) es"
  shows "steps_ok M es (complete_detached n s)"
proof -
  have sends: "sends_ok s (add_mset (Complete_Detached n) M) es" using assms by (rule mpsc_invE)
  obtain op v where op: "send_ops s n = Some op" "so_alive op" "so_started op" "so_signals op = []"
    "owes_send n M = {#}" "so_stage op \<noteq> StageQueued" "so_stage op \<noteq> StageGone" "offered n es = [v]"
    "so_value op = Some v \<and> accepted_by (Some n) es = [] \<or>
     so_value op = None \<and> accepted_by (Some n) es = [v]"
    and phase: "send_phase n op {#Complete_Detached n#} (accepted_by (Some n) es \<noteq> [])"
    by (rule send_pending [OF sends, of n]) simp_all
  let ?op = "op\<lparr>so_callback := False, so_signals := so_signals op @ [Send_Value False]\<rparr>"
  let ?s = "s\<lparr>wait_queue := (wait_queue s)\<lparr>node_prev := (node_prev (wait_queue s))(n := None),
      node_next := (node_next (wait_queue s))(n := None)\<rparr>\<rparr>"
  show ?thesis
  proof (rule send_step_ok [where n = n, OF assms spent_send_owed])
    show "complete_detached n s = Some (put_send n ?op ?s, [], [])"
      by (simp add: complete_detached_def signal_send_def live_send_def op)
    show "send_ok n (Some ?op) (owes_send n M + mset []) (offered n es) (accepted_by (Some n) es)"
      using op phase by (auto simp: send_ok_def send_phase_def)
    show "\<exists>ws'. waits_ok (put_send n ?op ?s) ws'" if "waits_ok s ws" for ws
      using waits_ok_same_stage [OF waits_ok_reset_links [OF that]] op by (auto simp: send_parked_def)
  qed simp_all
qed

lemma stop_send_ok:
  assumes "mpsc_inv s M es" "live_send s n = Some op" "so_callback op"
  shows "steps_ok M es (stop_send n s)"
proof -
  have sends: "sends_ok s M es" using assms(1) by (rule mpsc_invE)
  have op: "send_ops s n = Some op" "so_alive op" using assms(2) by (simp_all add: live_send_Some)
  have ok: "send_ok n (Some op) (owes_send n M) (offered n es) (accepted_by (Some n) es)"
    using sends_okD [OF sends, of n] op by simp
  show ?thesis
  proof (cases "so_stage op = StageQueued")
    case True
    let ?op = "op\<lparr>so_callback := False, so_stage := StageStopped\<rparr>"
    let ?s = "s\<lparr>wait_queue := unlink_node n (wait_queue s)\<rparr>"
    show ?thesis
    proof (rule send_step_ok [where n = n, OF assms(1) spent_send_call])
      show "stop_send n s = Some (put_send n ?op ?s, [Signal_Send n Send_Stopped], [])"
        using True assms(2) ok by (simp add: stop_send_def send_ok_def send_phase_def)
      show "send_ok n (Some ?op) (owes_send n M + mset [Signal_Send n Send_Stopped]) (offered n es)
          (accepted_by (Some n) es)"
        using ok True op assms(3) by (auto simp: send_ok_def send_phase_def)
      show "\<exists>ws'. waits_ok (put_send n ?op ?s) ws'" if "waits_ok s ws" for ws
        using waits_ok_unpark_send [OF that, of n ?op] True op by (auto simp: send_parked_def)
    qed simp_all
  next
    case False
    define stopped where "stopped = (so_state op \<and> so_stage op = StageInit \<or> so_stop_requested op)"
    let ?op = "op\<lparr>so_callback := False, so_stop_requested := stopped\<rparr>"
    show ?thesis
    proof (rule send_step_ok [where n = n, OF assms(1) spent_send_call])
      show "stop_send n s = Some (put_send n ?op s, [], [])"
        using False assms(2) by (cases op) (auto simp: stop_send_def stopped_def Let_def)
      show "send_ok n (Some ?op) (owes_send n M + mset []) (offered n es) (accepted_by (Some n) es)"
        using ok False op assms(3) by (auto simp: send_ok_def send_phase_def)
      show "\<exists>ws'. waits_ok (put_send n ?op s) ws'" if "waits_ok s ws" for ws
        using waits_ok_same_stage [OF that op(1)] by simp
    qed simp_all
  qed
qed

lemma destroy_send_ok:
  assumes "mpsc_inv s M es" "live_send s n = Some op"
    "\<not> so_started op \<or> so_stage op = StageQueued \<or> so_signals op \<noteq> []"
  shows "steps_ok M es (destroy_send n s)"
proof -
  have sends: "sends_ok s M es" using assms(1) by (rule mpsc_invE)
  have op: "send_ops s n = Some op" "so_alive op" using assms(2) by (simp_all add: live_send_Some)
  have ok: "send_ok n (Some op) (owes_send n M) (offered n es) (accepted_by (Some n) es)"
    using sends_okD [OF sends, of n] op by simp
  show ?thesis
  proof (cases "so_stage op = StageQueued")
    case True
    let ?op = "op\<lparr>so_alive := False, so_callback := False, so_stage := StageGone\<rparr>"
    let ?s = "s\<lparr>wait_queue := unlink_node n (wait_queue s)\<rparr>"
    show ?thesis
    proof (rule send_step_ok [where n = n, OF assms(1) spent_send_call])
      show "destroy_send n s = Some (put_send n ?op ?s, [], [])"
        using True assms(2) ok by (simp add: destroy_send_def send_ok_def send_phase_def)
      show "send_ok n (Some ?op) (owes_send n M + mset []) (offered n es) (accepted_by (Some n) es)"
        using ok True op by (auto simp: send_ok_def send_phase_def)
      show "\<exists>ws'. waits_ok (put_send n ?op ?s) ws'" if "waits_ok s ws" for ws
        using waits_ok_unpark_send [OF that, of n ?op] True op by (auto simp: send_parked_def)
    qed simp_all
  next
    case False
    let ?op = "op\<lparr>so_alive := False, so_callback := False\<rparr>"
    show ?thesis
    proof (rule send_step_ok [where n = n, OF assms(1) spent_send_call])
      show "destroy_send n s = Some (put_send n ?op s, [], [])"
        using False assms(2) by (simp add: destroy_send_def)
      show "send_ok n (Some ?op) (owes_send n M + mset []) (offered n es) (accepted_by (Some n) es)"
        using ok False op assms(3) by (auto simp: send_ok_def send_phase_def)
      show "\<exists>ws'. waits_ok (put_send n ?op s) ws'" if "waits_ok s ws" for ws
        using waits_ok_same_stage [OF that op(1)] by simp
    qed simp_all
  qed
qed

section \<open>Receive operations\<close>

definition spent_recv :: "nat \<Rightarrow> 'a action multiset \<Rightarrow> 'a action multiset \<Rightarrow> bool" where
  "spent_recv r M0 M \<longleftrightarrow> M0 = M \<or> (\<exists>a. M0 = add_mset a M \<and> recv_target a = Some r)"

lemma spent_recv_call: "spent_recv r M M"
  and spent_recv_owed: "recv_target a = Some r \<Longrightarrow> spent_recv r (add_mset a M) M"
  by (auto simp: spent_recv_def)

lemma spent_recv_owes:
  assumes "spent_recv r M0 M"
  shows "m \<noteq> r \<Longrightarrow> owes_recv m M0 = owes_recv m M" "owes_send n M0 = owes_send n M"
    "senders_ok s M0 \<Longrightarrow> senders_ok s M"
  using assms recv_target_not_send senders_ok_done by (fastforce simp: spent_recv_def)+

lemma owes_of_recv:
  assumes "\<forall>a\<in>set owed. recv_target a = Some r"
  shows "m \<noteq> r \<Longrightarrow> owes_recv m (mset owed) = {#}" "owes_recv r (mset owed) = mset owed"
    "owes_send n (mset owed) = {#}" "a \<in> set owed \<Longrightarrow> owable a"
  using assms by (induction owed) (auto dest: recv_target_not_send simp: owable_def)

lemma recv_step_ok:
  assumes inv: "mpsc_inv s M0 es" "spent_recv r M0 M"
    and eff: "eff = Some (put_recv r op s', owed, [])" "\<forall>a\<in>set owed. recv_target a = Some r"
    and same: "buffer s' = buffer s" "send_ops s' = send_ops s" "recv_ops s' = recv_ops s"
      "senders s' = senders s" "closed s' = closed s"
    and recv: "recv_ok r (Some op) (owes_recv r M + mset owed) (taken_by (Some r) es)"
    and waits: "\<And>ws. waits_ok s ws \<Longrightarrow> \<exists>ws'. waits_ok (put_recv r op s') ws'"
  shows "steps_ok M es eff"
proof -
  obtain ws where parts: "sends_ok s M0 es" "recvs_ok s M0 es" "waits_ok s ws" "fifo_ok s es" "senders_ok s M0"
    using inv(1) by (rule mpsc_invE)
  note spent = spent_recv_owes [OF inv(2)] and owes = owes_of_recv [OF eff(2)]
  obtain ws' where ws': "waits_ok (put_recv r op s') ws'" using waits parts(3) by blast
  show ?thesis
  proof (rule steps_okI [OF eff(1) _ _ ws'])
    show "recvs_ok (put_recv r op s') (M + mset owed) (es @ [])"
      by (rule recvs_ok_change [OF parts(2), of r]) (use recv spent owes same in auto)
    show "sends_ok (put_recv r op s') (M + mset owed) (es @ [])"
      by (rule sends_ok_frame [OF parts(1)]) (use spent owes same in auto)
    show "fifo_ok (put_recv r op s') (es @ [])"
      by (rule fifo_ok_quiet [OF parts(4)]) (use same in auto)
    show "senders_ok (put_recv r op s') (M + mset owed)"
      by (rule senders_ok_owable [OF spent(3) [OF parts(5)]]) (use same owes in auto)
  qed
qed

lemma waits_ok_same_recv_stage:
  assumes "waits_ok s ws" "recv_ops s r = Some old" "ro_stage op = ro_stage old"
  shows "\<exists>ws'. waits_ok (put_recv r op s) ws'"
  using waits_ok_put_recv [OF assms(1), of op r] assms(2,3) by (auto simp: recv_parked_def)

lemma waits_ok_slot:
  "waits_ok s ws \<Longrightarrow> recv_slot s = Some r \<longleftrightarrow> recv_parked s r"
  by (simp add: waits_ok_def)

lemma connect_recv_ok:
  assumes "mpsc_inv s M es" "recv_ops s r = None"
  shows "steps_ok M es (connect_recv r attached s)"
proof (rule recv_step_ok [where r = r, OF assms(1) spent_recv_call])
  show "connect_recv r attached s = Some (put_recv r (new_recv_op attached) s, [], [])"
    by (simp add: connect_recv_def)
  have "recvs_ok s M es" using assms(1) by (rule mpsc_invE)
  then have "recv_ok r None (owes_recv r M) (taken_by (Some r) es)"
    using recvs_okD [of s M es r] assms(2) by simp
  then show "recv_ok r (Some (new_recv_op attached)) (owes_recv r M + mset []) (taken_by (Some r) es)"
    by (simp add: recv_ok_def recv_phase_def new_recv_op_def)
  show "\<exists>ws'. waits_ok (put_recv r (new_recv_op attached) s) ws'" if "waits_ok s ws" for ws
    using waits_ok_put_recv [OF that, of "new_recv_op attached" r] assms(2)
    by (auto simp: recv_parked_def new_recv_op_def)
qed simp_all

lemma recv_completion_ok:
  assumes inv: "mpsc_inv s (add_mset a M) es" "a = Signal_Recv r sig \<or> a = Complete_Value r"
    and sig: "a = Complete_Value r \<Longrightarrow> recv_ops s r = Some op \<Longrightarrow> sig = Recv_Value (ro_held op)"
    and op: "recv_ops s r = Some op"
  shows "steps_ok M es (signal_recv r sig s)"
proof -
  have recvs: "recvs_ok s (add_mset a M) es" using inv(1) by (rule mpsc_invE)
  have target: "recv_target a = Some r" using inv(2) by auto
  have live: "ro_alive op" "ro_started op" "ro_signals op = []" "owes_recv r M = {#}"
    "ro_stage op \<noteq> StageQueued" "ro_stage op \<noteq> StageGone" "recv_phase r op {#a#} (taken_by (Some r) es)"
    by (rule recv_pending [OF recvs target], use op in simp)+
  let ?op = "op\<lparr>ro_callback := False, ro_signals := ro_signals op @ [sig]\<rparr>"
  show ?thesis
  proof (rule recv_step_ok [where r = r, OF inv(1) spent_recv_owed [OF target]])
    show "signal_recv r sig s = Some (put_recv r ?op s, [], [])"
      by (simp add: signal_recv_def live_recv_def op live)
    show "recv_ok r (Some ?op) (owes_recv r M + mset []) (taken_by (Some r) es)"
      using live inv(2) sig [OF _ op] by (auto simp: recv_ok_def recv_phase_def)
    show "\<exists>ws'. waits_ok (put_recv r ?op s) ws'" if "waits_ok s ws" for ws
      using waits_ok_same_recv_stage [OF that op] by simp
  qed simp_all
qed

lemma signal_recv_ok:
  assumes "mpsc_inv s (add_mset (Signal_Recv r sig) M) es"
  shows "steps_ok M es (signal_recv r sig s)"
proof -
  have recvs: "recvs_ok s (add_mset (Signal_Recv r sig) M) es" using assms by (rule mpsc_invE)
  obtain op where "recv_ops s r = Some op" by (rule recv_pending [OF recvs, of r]) simp_all
  then show ?thesis using recv_completion_ok [OF assms] by simp
qed

lemma complete_value_ok:
  assumes "mpsc_inv s (add_mset (Complete_Value r) M) es"
  shows "steps_ok M es (complete_value r s)"
proof -
  have recvs: "recvs_ok s (add_mset (Complete_Value r) M) es" using assms by (rule mpsc_invE)
  obtain op where "recv_ops s r = Some op" "ro_alive op" by (rule recv_pending [OF recvs, of r]) simp_all
  then show ?thesis
    using recv_completion_ok [OF assms, of r "Recv_Value (ro_held op)" op]
    by (simp add: complete_value_def live_recv_def)
qed

lemma start_recv_ok:
  assumes "mpsc_inv s M es" "live_recv s r = Some op" "\<not> ro_started op"
  shows "steps_ok M es (start_recv r s)"
proof -
  have recvs: "recvs_ok s M es" using assms(1) by (rule mpsc_invE)
  have op: "recv_ops s r = Some op" "ro_alive op" using assms(2) by (simp_all add: live_recv_Some)
  have ok: "recv_ok r (Some op) (owes_recv r M) (taken_by (Some r) es)"
    using recvs_okD [OF recvs, of r] op by simp
  show ?thesis
  proof (cases "ro_state op")
    case True
    let ?op = "op\<lparr>ro_started := True, ro_callback := True\<rparr>"
    show ?thesis
    proof (rule recv_step_ok [where r = r, OF assms(1) spent_recv_call])
      show "start_recv r s = Some (put_recv r ?op s, [Arbitrate_Recv r], [])"
        using True assms(2) by (simp add: start_recv_def)
      show "recv_ok r (Some ?op) (owes_recv r M + mset [Arbitrate_Recv r]) (taken_by (Some r) es)"
        using ok True op assms(3) by (auto simp: recv_ok_def recv_phase_def)
      show "\<exists>ws'. waits_ok (put_recv r ?op s) ws'" if "waits_ok s ws" for ws
        using waits_ok_same_recv_stage [OF that op(1)] by simp
    qed simp_all
  next
    case False
    let ?op = "op\<lparr>ro_started := True, ro_callback := False, ro_signals := ro_signals op @ [Recv_Value None]\<rparr>"
    show ?thesis
    proof (rule recv_step_ok [where r = r, OF assms(1) spent_recv_call])
      show "start_recv r s = Some (put_recv r ?op s, [], [])"
        using False assms(2) op
        by (simp add: start_recv_def signal_recv_def put_recv_def live_recv_def)
      show "recv_ok r (Some ?op) (owes_recv r M + mset []) (taken_by (Some r) es)"
        using ok op assms(3) by (auto simp: recv_ok_def recv_phase_def)
      show "\<exists>ws'. waits_ok (put_recv r ?op s) ws'" if "waits_ok s ws" for ws
        using waits_ok_same_recv_stage [OF that op(1)] by simp
    qed simp_all
  qed
qed

lemma stop_recv_ok:
  assumes "mpsc_inv s M es" "live_recv s r = Some op" "ro_callback op"
  shows "steps_ok M es (stop_recv r s)"
proof -
  have recvs: "recvs_ok s M es" using assms(1) by (rule mpsc_invE)
  have op: "recv_ops s r = Some op" "ro_alive op" using assms(2) by (simp_all add: live_recv_Some)
  have ok: "recv_ok r (Some op) (owes_recv r M) (taken_by (Some r) es)"
    using recvs_okD [OF recvs, of r] op by simp
  show ?thesis
  proof (cases "ro_stage op = StageQueued")
    case True
    let ?op = "op\<lparr>ro_callback := False, ro_stage := StageStopped\<rparr>"
    let ?s = "s\<lparr>recv_slot := None\<rparr>"
    show ?thesis
    proof (rule recv_step_ok [where r = r, OF assms(1) spent_recv_call])
      show "stop_recv r s = Some (put_recv r ?op ?s, [Signal_Recv r Recv_Stopped], [])"
        using True assms(2) ok by (simp add: stop_recv_def recv_ok_def recv_phase_def)
      show "recv_ok r (Some ?op) (owes_recv r M + mset [Signal_Recv r Recv_Stopped]) (taken_by (Some r) es)"
        using ok True op assms(3) by (auto simp: recv_ok_def recv_phase_def)
      show "\<exists>ws'. waits_ok (put_recv r ?op ?s) ws'" if "waits_ok s ws" for ws
        using waits_ok_unpark_recv [OF that, of r ?op] waits_ok_slot [OF that] True op
        by (auto simp: recv_parked_def)
    qed simp_all
  next
    case False
    define stopped where "stopped = (ro_state op \<and> ro_stage op = StageInit \<or> ro_stop_requested op)"
    let ?op = "op\<lparr>ro_callback := False, ro_stop_requested := stopped\<rparr>"
    show ?thesis
    proof (rule recv_step_ok [where r = r, OF assms(1) spent_recv_call])
      show "stop_recv r s = Some (put_recv r ?op s, [], [])"
        using False assms(2) by (cases op) (auto simp: stop_recv_def stopped_def Let_def)
      show "recv_ok r (Some ?op) (owes_recv r M + mset []) (taken_by (Some r) es)"
        using ok False op assms(3) by (auto simp: recv_ok_def recv_phase_def)
      show "\<exists>ws'. waits_ok (put_recv r ?op s) ws'" if "waits_ok s ws" for ws
        using waits_ok_same_recv_stage [OF that op(1)] by simp
    qed simp_all
  qed
qed

lemma destroy_recv_ok:
  assumes "mpsc_inv s M es" "live_recv s r = Some op"
    "\<not> ro_started op \<or> ro_stage op = StageQueued \<or> ro_signals op \<noteq> []"
  shows "steps_ok M es (destroy_recv r s)"
proof -
  have recvs: "recvs_ok s M es" using assms(1) by (rule mpsc_invE)
  have op: "recv_ops s r = Some op" "ro_alive op" using assms(2) by (simp_all add: live_recv_Some)
  have ok: "recv_ok r (Some op) (owes_recv r M) (taken_by (Some r) es)"
    using recvs_okD [OF recvs, of r] op by simp
  show ?thesis
  proof (cases "ro_stage op = StageQueued")
    case True
    let ?op = "op\<lparr>ro_alive := False, ro_callback := False, ro_stage := StageGone\<rparr>"
    let ?s = "s\<lparr>recv_slot := None\<rparr>"
    show ?thesis
    proof (rule recv_step_ok [where r = r, OF assms(1) spent_recv_call])
      show "destroy_recv r s = Some (put_recv r ?op ?s, [], [])"
        using True assms(2) ok by (simp add: destroy_recv_def recv_ok_def recv_phase_def)
      show "recv_ok r (Some ?op) (owes_recv r M + mset []) (taken_by (Some r) es)"
        using ok True op by (auto simp: recv_ok_def recv_phase_def)
      show "\<exists>ws'. waits_ok (put_recv r ?op ?s) ws'" if "waits_ok s ws" for ws
        using waits_ok_unpark_recv [OF that, of r ?op] waits_ok_slot [OF that] True op
        by (auto simp: recv_parked_def)
    qed simp_all
  next
    case False
    let ?op = "op\<lparr>ro_alive := False, ro_callback := False\<rparr>"
    show ?thesis
    proof (rule recv_step_ok [where r = r, OF assms(1) spent_recv_call])
      show "destroy_recv r s = Some (put_recv r ?op s, [], [])"
        using False assms(2) by (simp add: destroy_recv_def)
      show "recv_ok r (Some ?op) (owes_recv r M + mset []) (taken_by (Some r) es)"
        using ok False op assms(3) by (auto simp: recv_ok_def recv_phase_def)
      show "\<exists>ws'. waits_ok (put_recv r ?op s) ws'" if "waits_ok s ws" for ws
        using waits_ok_same_recv_stage [OF that op(1)] by simp
    qed simp_all
  qed
qed

section \<open>The channel's own steps\<close>

lemma stored_recv:
  assumes "recvs_ok s M es" "waits_ok s ws" "recv_slot s = Some r"
  obtains op where "recv_ops s r = Some op" "live_recv s r = Some op"
    "recv_ok r (Some (op\<lparr>ro_held := Some v, ro_stage := StageClaimed\<rparr>))
       (add_mset (Complete_Value r) (owes_recv r M)) (taken_by (Some r) es @ [v])"
    "waits_ok (put_recv r (op\<lparr>ro_held := Some v, ro_stage := StageClaimed\<rparr>) (s\<lparr>recv_slot := None\<rparr>)) ws"
    "buffer s = []" "ws = []" "\<not> closed s"
proof -
  obtain op where op: "recv_ops s r = Some op" "ro_stage op = StageQueued"
    using waits_ok_slot [OF assms(2)] assms(3) by (auto simp: recv_parked_def)
  have ok: "recv_ok r (Some op) (owes_recv r M) (taken_by (Some r) es)"
    using recvs_okD [OF assms(1), of r] op by simp
  moreover have "live_recv s r = Some op"
    using ok op by (auto simp: live_recv_def recv_ok_def recv_phase_def)
  moreover have "recv_ok r (Some (op\<lparr>ro_held := Some v, ro_stage := StageClaimed\<rparr>))
       (add_mset (Complete_Value r) (owes_recv r M)) (taken_by (Some r) es @ [v])"
    using ok op(2) by (auto simp: recv_ok_def recv_phase_def)
  moreover have "buffer s = []" "ws = []" "\<not> closed s" using assms(2,3) by (auto simp: waits_ok_def)
  ultimately show thesis
    using waits_ok_unpark_recv [OF assms(2,3)] op(1) by (intro that) simp_all
qed

lemma claimed_send:
  assumes "sends_ok s M es" "send_parked s n"
  obtains op v where "send_ops s n = Some op"
    "\<forall>s'. send_ops s' = send_ops s \<longrightarrow>
       take_value n s' = Some (v, put_send n (op\<lparr>so_stage := StageClaimed, so_value := None\<rparr>) s')"
    "send_ok n (Some (op\<lparr>so_stage := StageClaimed, so_value := None\<rparr>))
       (add_mset (Signal_Send n (Send_Value True)) (owes_send n M)) (offered n es)
       (accepted_by (Some n) es @ [v])"
proof -
  obtain op where op: "send_ops s n = Some op" "so_stage op = StageQueued"
    using assms(2) by (auto simp: send_parked_def)
  have ok: "send_ok n (Some op) (owes_send n M) (offered n es) (accepted_by (Some n) es)"
    using sends_okD [OF assms(1), of n] op by simp
  then obtain v where v: "so_value op = Some v" "offered n es = [v]" "accepted_by (Some n) es = []"
    "so_alive op" "so_started op" "so_signals op = []" "owes_send n M = {#}"
    using op(2) by (auto simp: send_ok_def send_phase_def)
  show thesis
    by (rule that [OF op(1)])
      (use v op in \<open>auto simp: take_value_def live_send_def send_ok_def send_phase_def\<close>)
qed

lemma waits_ok_push:
  assumes "waits_ok s ws" "recv_slot s = None" "\<not> bounded_mode s \<or> length (buffer s) < capacity s"
  shows "waits_ok (s\<lparr>buffer := buffer s @ [v]\<rparr>) ws"
  using assms by (auto simp: waits_ok_def send_parked_def recv_parked_def)

lemma waits_ok_pop:
  assumes "waits_ok s []" "buffer s = v # rest"
  shows "waits_ok (s\<lparr>buffer := rest\<rparr>) []"
  using assms by (auto simp: waits_ok_def send_parked_def recv_parked_def)

text \<open>The oldest sender leaves the list, its value enters the buffer in place of the one taken out.\<close>

lemma waits_ok_refill:
  assumes "waits_ok s (n # ws)" "so_stage op \<noteq> StageQueued"
    "length xs = length (buffer s)" "recv_slot s = None"
  shows "waits_ok (put_send n op (s\<lparr>wait_queue := unlink_node n (wait_queue s), buffer := xs\<rparr>)) ws"
proof -
  have "send_parked s n" "distinct (n # ws)" using assms(1) wl.holds_distinct [of "wait_queue s" "n # ws"] by (auto simp: waits_ok_def)
  then have "waits_ok (put_send n op (s\<lparr>wait_queue := unlink_node n (wait_queue s)\<rparr>)) ws"
    using waits_ok_unpark_send [OF assms(1), of n op] assms(2) by simp
  then show ?thesis using assms(3,4) by (auto simp: waits_ok_def send_parked_def recv_parked_def)
qed

definition value_list :: "'a option \<Rightarrow> 'a list" where
  "value_list out = (case out of None \<Rightarrow> [] | Some v \<Rightarrow> [v])"

lemma take_front_ok:
  assumes sends: "sends_ok s M es" and waits: "waits_ok s ws" and fifo: "fifo_ok s es"
  obtains out claimed s' es' ws' where "take_front who s = Some (out, claimed, s', es')"
    "sends_ok s' (M + mset (complete_claimed claimed)) (es @ es')" "waits_ok s' ws'"
    "fifo_ok s' (es @ es')" "recv_ops s' = recv_ops s" "recv_slot s' = recv_slot s"
    "closed s' = closed s" "senders s' = senders s"
    "\<forall>w. taken_by w es' = (if w = who then value_list out else [])"
    "out = None \<longrightarrow> buffer s' = [] \<and> ws' = []"
proof -
  have front: "wait_head (wait_queue s) = (case ws of [] \<Rightarrow> None | n # _ \<Rightarrow> Some n)"
    using waits by (auto simp: waits_ok_def wl.holds_front)
  show thesis
  proof (cases ws)
    case Nil
    show ?thesis
    proof (cases "buffer s")
      case empty: Nil
      show ?thesis
        by (rule that [of None None s "[]" ws])
          (use Nil empty front sends waits fifo in
            \<open>auto simp: take_front_def complete_claimed_def value_list_def\<close>)
    next
      case (Cons v rest)
      show ?thesis
        by (rule that [of "Some v" None "s\<lparr>buffer := rest\<rparr>" "[Taken who v]" "[]"])
          (use Nil Cons front waits fifo waits_ok_pop [of s v rest] sends_ok_frame [OF sends] in
            \<open>auto simp: take_front_def complete_claimed_def value_list_def fifo_ok_def Let_def\<close>)
    qed
  next
    case waiting: (Cons n ws')
    then have parked: "send_parked s n" and mode: "bounded_mode s" "recv_slot s = None"
      using waits by (auto simp: waits_ok_def)
    obtain op w where op: "send_ops s n = Some op"
      "\<forall>s'. send_ops s' = send_ops s \<longrightarrow>
         take_value n s' = Some (w, put_send n (op\<lparr>so_stage := StageClaimed, so_value := None\<rparr>) s')"
      and ok: "send_ok n (Some (op\<lparr>so_stage := StageClaimed, so_value := None\<rparr>))
         (add_mset (Signal_Send n (Send_Value True)) (owes_send n M)) (offered n es)
         (accepted_by (Some n) es @ [w])"
      by (rule claimed_send [OF sends parked])
    let ?op = "op\<lparr>so_stage := StageClaimed, so_value := None\<rparr>"
    let ?s = "\<lambda>xs. put_send n ?op (s\<lparr>wait_queue := unlink_node n (wait_queue s), buffer := xs\<rparr>)"
    have changed: "sends_ok (?s xs) (M + mset (complete_claimed (Some n))) (es @ es')"
      if "\<And>m. offered m es' = []" "\<And>m. accepted_by (Some m) es' = (if m = n then [w] else [])" for xs es'
      by (rule sends_ok_change [OF sends, of n]) (use ok that in \<open>auto simp: complete_claimed_def\<close>)
    show ?thesis
    proof (cases "buffer s")
      case empty: Nil
      show ?thesis
      proof (rule that [of "Some w" "Some n" "?s []" "[Accepted (Some n) w, Taken who w]" ws'])
        show "take_front who s = Some (Some w, Some n, ?s [], [Accepted (Some n) w, Taken who w])"
          using empty front waiting mode op(2)
          by (cases s) (auto simp: take_front_def put_send_def)
        show "sends_ok (?s []) (M + mset (complete_claimed (Some n)))
            (es @ [Accepted (Some n) w, Taken who w])"
          by (rule changed) auto
        show "waits_ok (?s []) ws'"
          using waits_ok_refill [of s n ws' ?op "[]"] waits waiting empty mode by simp
      qed (use fifo empty in \<open>auto simp: fifo_ok_def value_list_def\<close>)
    next
      case (Cons v rest)
      show ?thesis
      proof (rule that [of "Some v" "Some n" "?s (rest @ [w])" "[Taken who v, Accepted (Some n) w]" ws'])
        show "take_front who s =
            Some (Some v, Some n, ?s (rest @ [w]), [Taken who v, Accepted (Some n) w])"
          using Cons front waiting mode op(2)
          by (cases s) (auto simp: take_front_def put_send_def Let_def)
        show "sends_ok (?s (rest @ [w])) (M + mset (complete_claimed (Some n)))
            (es @ [Taken who v, Accepted (Some n) w])"
          by (rule changed) auto
        show "waits_ok (?s (rest @ [w])) ws'"
          using waits_ok_refill [of s n ws' ?op "rest @ [w]"] waits waiting Cons mode by simp
      qed (use fifo Cons in \<open>auto simp: fifo_ok_def value_list_def\<close>)
    qed
  qed
qed

lemma complete_claimed_owes:
  "owes_recv r (mset (complete_claimed claimed)) = {#}"
  "a \<in> set (complete_claimed claimed) \<Longrightarrow> owable a"
  by (auto simp: complete_claimed_def owable_def split: option.splits)

lemma try_recv_ok:
  assumes "mpsc_inv s M es"
  shows "steps_ok M es (try_recv s)"
proof -
  obtain ws where inv: "sends_ok s M es" "recvs_ok s M es" "waits_ok s ws" "fifo_ok s es" "senders_ok s M"
    using assms by (rule mpsc_invE)
  obtain out claimed s' es' ws' where front: "take_front None s = Some (out, claimed, s', es')"
    "sends_ok s' (M + mset (complete_claimed claimed)) (es @ es')" "waits_ok s' ws'"
    "fifo_ok s' (es @ es')" "recv_ops s' = recv_ops s" "recv_slot s' = recv_slot s"
    "closed s' = closed s" "senders s' = senders s"
    "\<forall>w. taken_by w es' = (if w = None then value_list out else [])"
    "out = None \<longrightarrow> buffer s' = [] \<and> ws' = []"
    by (rule take_front_ok [OF inv(1,3,4), of None])
  let ?es = "es' @ [Try_Recv_Result out]"
  show ?thesis
  proof (rule steps_okI [where s' = s' and owed = "complete_claimed claimed" and es' = ?es and ws = ws'])
    show "try_recv s = Some (s', complete_claimed claimed, ?es)"
      by (simp add: try_recv_def front(1))
    show "sends_ok s' (M + mset (complete_claimed claimed)) (es @ ?es)"
      using sends_ok_frame [OF front(2), of s' _ "[Try_Recv_Result out]"] by simp
    show "recvs_ok s' (M + mset (complete_claimed claimed)) (es @ ?es)"
      by (rule recvs_ok_frame [OF inv(2)]) (simp add: front complete_claimed_owes)
    show "fifo_ok s' (es @ ?es)"
      using fifo_ok_quiet [OF front(4), of s' "[Try_Recv_Result out]"] by simp
    show "senders_ok s' (M + mset (complete_claimed claimed))"
      by (rule senders_ok_owable [OF inv(5)]) (auto simp: front complete_claimed_owes)
  qed (rule front(3))
qed

lemma direct_delivery_ok:
  assumes inv: "recvs_ok s M es" "waits_ok s ws" "fifo_ok s es" "senders_ok s M" "recv_slot s = Some r"
    and sends: "\<And>s'. send_ops s' = send_ops t \<Longrightarrow> sends_ok s' (M + mset owed) (es @ es')"
    and t: "t = s \<or> (\<exists>n op old. t = put_send n op s \<and> send_ops s n = Some old \<and>
               so_stage op = StageInit \<and> so_stage old = StageInit)"
    and owed: "owed = Complete_Value r # owed'" "\<forall>a\<in>set owed'. send_target a = Some n"
    and log: "es' = [Accepted who v, Taken (Some r) v] @ rest" "accepted rest = []" "taken rest = []"
      "\<And>m. taken_by m rest = []"
    and eff: "\<And>s'. store r v (t\<lparr>recv_slot := None\<rparr>) = Some s' \<Longrightarrow> eff = Some (s', owed, es')"
  shows "steps_ok M es eff"
proof -
  have same: "recvs_ok t M es" "recv_ops t = recv_ops s" "recv_slot t = Some r" "closed t = closed s"
    "senders t = senders s" "buffer t = buffer s"
    using inv t by (auto simp: recvs_ok_def)
  have waits: "waits_ok t ws"
    using t inv(2) waits_ok_same_stage waits_ok_put_send [OF inv(2)] by (auto simp: send_parked_def)
  obtain op where op: "recv_ops t r = Some op" "live_recv t r = Some op"
    "recv_ok r (Some (op\<lparr>ro_held := Some v, ro_stage := StageClaimed\<rparr>))
       (add_mset (Complete_Value r) (owes_recv r M)) (taken_by (Some r) es @ [v])"
    "waits_ok (put_recv r (op\<lparr>ro_held := Some v, ro_stage := StageClaimed\<rparr>) (t\<lparr>recv_slot := None\<rparr>)) ws"
    "buffer t = []"
    by (rule stored_recv [OF same(1) waits same(3)])
  let ?s = "put_recv r (op\<lparr>ro_held := Some v, ro_stage := StageClaimed\<rparr>) (t\<lparr>recv_slot := None\<rparr>)"
  show ?thesis
  proof (rule steps_okI [OF eff _ _ op(4)])
    show "store r v (t\<lparr>recv_slot := None\<rparr>) = Some ?s"
      using op(2) by (simp add: store_def live_recv_def)
    show "sends_ok ?s (M + mset owed) (es @ es')" by (rule sends) simp
    show "recvs_ok ?s (M + mset owed) (es @ es')"
      by (rule recvs_ok_change [OF inv(1), of r])
        (use op(3) owed log owes_of_send [OF owed(2)] same(2) in auto)
    show "fifo_ok ?s (es @ es')" using inv(3) op(5) same(6) log by (simp add: fifo_ok_def)
    show "senders_ok ?s (M + mset owed)"
      by (rule senders_ok_owable [OF inv(4)]) (use same owed owes_of_send [OF owed(2)] in \<open>auto simp: owable_def\<close>)
  qed
qed

lemma try_send_ok:
  assumes "mpsc_inv s M es"
  shows "steps_ok M es (try_send v s)"
proof -
  obtain ws where inv: "sends_ok s M es" "recvs_ok s M es" "waits_ok s ws" "fifo_ok s es" "senders_ok s M"
    using assms by (rule mpsc_invE)
  have quiet: "sends_ok s' M (es @ es')" "recvs_ok s' M (es @ es')"
    if "send_ops s' = send_ops s" "recv_ops s' = recv_ops s" "\<And>m. offered m es' = []"
      "\<And>m. accepted_by (Some m) es' = []" "\<And>m. taken_by (Some m) es' = []" for s' es'
    using that sends_ok_frame [OF inv(1), of s' M es'] recvs_ok_frame [OF inv(2), of s' M es'] by simp_all
  show ?thesis
  proof (cases "closed s \<or> recv_slot s = None \<and> bounded_mode s \<and> length (buffer s) \<ge> capacity s")
    case True
    have "steps_ok M es (Some (s, [], [Try_Send_Result v False]))"
      by (rule steps_okI [OF refl _ _ inv(3)])
        (use quiet inv(4,5) in \<open>auto simp: fifo_ok_def\<close>)
    then show ?thesis using True by (auto simp: try_send_def)
  next
    case opened: False
    show ?thesis
    proof (cases "recv_slot s")
      case None
      let ?s = "s\<lparr>buffer := buffer s @ [v]\<rparr>"
      have room: "\<not> bounded_mode s \<or> length (buffer s) < capacity s" using opened None by auto
      have "steps_ok M es (Some (?s, [], [Accepted None v, Try_Send_Result v True]))"
        by (rule steps_okI [OF refl _ _ waits_ok_push [OF inv(3) None room]])
          (use quiet inv(4,5) in \<open>auto simp: fifo_ok_def senders_ok_def\<close>)
      then show ?thesis using opened None room by (auto simp: try_send_def)
    next
      case (Some r)
      show ?thesis
        by (rule direct_delivery_ok [OF inv(2-5) Some, where t = s and owed' = "[]" and
              rest = "[Try_Send_Result v True]" and who = None and v = v])
          (use opened Some quiet sends_ok_frame [OF inv(1)] in \<open>auto simp: try_send_def\<close>)
    qed
  qed
qed

lemma put_send_slot: "put_send n op s\<lparr>recv_slot := None\<rparr> = put_send n op (s\<lparr>recv_slot := None\<rparr>)"
  by (simp add: put_send_def)

lemma arbitrate_send_ok:
  assumes "mpsc_inv s (add_mset (Arbitrate_Send n) M) es"
  shows "steps_ok M es (arbitrate_send n s)"
proof -
  let ?M = "add_mset (Arbitrate_Send n) M"
  obtain ws where inv: "sends_ok s ?M es" "recvs_ok s ?M es" "waits_ok s ws" "fifo_ok s es" "senders_ok s ?M"
    using assms by (rule mpsc_invE)
  obtain op v where op: "send_ops s n = Some op" "so_alive op" "so_started op" "so_signals op = []"
    "owes_send n M = {#}" "so_stage op \<noteq> StageQueued" "so_stage op \<noteq> StageGone" and off: "offered n es = [v]"
    and val: "so_value op = Some v \<and> accepted_by (Some n) es = [] \<or>
     so_value op = None \<and> accepted_by (Some n) es = [v]"
    and phase: "send_phase n op {#Arbitrate_Send n#} (accepted_by (Some n) es \<noteq> [])"
    by (rule send_pending [OF inv(1), of n]) simp_all
  have init: "so_stage op = StageInit" "so_state op" "accepted_by (Some n) es = []" "so_value op = Some v"
    using phase val by (auto simp: send_phase_def)
  have live: "live_send s n = Some op" using op by (simp add: live_send_def)
  let ?moved = "op\<lparr>so_value := None\<rparr>"
  have moved: "sends_ok s' (M + mset owed) (es @ es')"
    if "send_ops s' = (send_ops s)(n \<mapsto> ?moved)" "owes_send n (mset owed) = {#Signal_Send n (Send_Value True)#}"
      "\<And>m. m \<noteq> n \<Longrightarrow> owes_send m (mset owed) = {#}" "\<And>m. offered m es' = []"
      "\<And>m. accepted_by (Some m) es' = (if m = n then [v] else [])" for s' owed es'
    by (rule sends_ok_change [OF inv(1), of n])
      (use that op init off in \<open>auto simp: send_ok_def send_phase_def\<close>)
  show ?thesis
  proof (cases "so_stop_requested op \<or> closed s")
    case True
    define sig where "sig = (if so_stop_requested op then Send_Stopped else Send_Value False)"
    show ?thesis
    proof (rule send_step_ok [where n = n, OF assms spent_send_owed])
      show "arbitrate_send n s = Some (put_send n op s, [Signal_Send n sig], [])"
        using True live op(1) by (cases s) (auto simp: arbitrate_send_def sig_def put_send_def)
      show "send_ok n (Some op) (owes_send n M + mset [Signal_Send n sig]) (offered n es)
          (accepted_by (Some n) es)"
        using op off init by (auto simp: send_ok_def send_phase_def sig_def)
      show "\<exists>ws'. waits_ok (put_send n op s) ws'" if "waits_ok s ws" for ws
        using waits_ok_same_stage [OF that op(1)] by simp
    qed simp_all
  next
    case opened: False
    show ?thesis
    proof (cases "recv_slot s")
      case (Some r)
      have recvs: "recvs_ok s M es" "senders_ok s M"
        using recvs_ok_frame [OF inv(2), of s M "[]"] spent_send_owes(3) [OF spent_send_owed inv(5)] by auto
      show ?thesis
      proof (rule direct_delivery_ok [OF recvs(1) inv(3,4) recvs(2) Some, where t = "put_send n ?moved s" and
            owed' = "[Signal_Send n (Send_Value True)]" and n = n and rest = "[]" and who = "Some n" and v = v])
        show "sends_ok s' (M + mset [Complete_Value r, Signal_Send n (Send_Value True)])
            (es @ [Accepted (Some n) v, Taken (Some r) v])"
          if "send_ops s' = send_ops (put_send n ?moved s)" for s'
          by (rule moved) (use that in auto)
        show "put_send n ?moved s = s \<or> (\<exists>m op' old. put_send n ?moved s = put_send m op' s \<and>
            send_ops s m = Some old \<and> so_stage op' = StageInit \<and> so_stage old = StageInit)"
          using op(1) init(1) by (intro disjI2 exI [of _ n] exI [of _ ?moved] exI [of _ op]) simp
        show "arbitrate_send n s = Some (s', [Complete_Value r, Signal_Send n (Send_Value True)],
            [Accepted (Some n) v, Taken (Some r) v])"
          if "store r v (put_send n ?moved s\<lparr>recv_slot := None\<rparr>) = Some s'" for s'
          using that opened Some live init put_send_slot [of n ?moved s] by (simp add: arbitrate_send_def)
      qed simp_all
    next
      case None
      show ?thesis
      proof (cases "bounded_mode s \<and> length (buffer s) \<ge> capacity s")
        case True
        let ?op = "op\<lparr>so_stage := StageQueued\<rparr>"
        let ?s = "s\<lparr>wait_queue := queue_node n (wait_queue s)\<rparr>"
        show ?thesis
        proof (rule send_step_ok [where n = n, OF assms spent_send_owed])
          show "arbitrate_send n s = Some (put_send n ?op ?s, [], [])"
            using True None opened live by (simp add: arbitrate_send_def)
          show "send_ok n (Some ?op) (owes_send n M + mset []) (offered n es) (accepted_by (Some n) es)"
            using op off init by (auto simp: send_ok_def send_phase_def)
          show "\<exists>ws'. waits_ok (put_send n ?op ?s) ws'" if "waits_ok s ws" for ws
            using waits_ok_park_send [OF that, of n ?op] True None opened op by (auto simp: send_parked_def)
        qed simp_all
      next
        case False
        let ?s = "put_send n ?moved (s\<lparr>buffer := buffer s @ [v]\<rparr>)"
        have room: "\<not> bounded_mode s \<or> length (buffer s) < capacity s" using False by auto
        obtain ws' where ws': "waits_ok ?s ws'"
          using waits_ok_same_stage [OF waits_ok_push [OF inv(3) None room, of v], of n op ?moved] op by auto
        show ?thesis
        proof (rule steps_okI [OF _ _ _ ws'])
          show "arbitrate_send n s = Some (?s, [Signal_Send n (Send_Value True)], [Accepted (Some n) v])"
            using room None opened live init by (auto simp: arbitrate_send_def)
          show "sends_ok ?s (M + mset [Signal_Send n (Send_Value True)]) (es @ [Accepted (Some n) v])"
            by (rule moved) auto
          show "recvs_ok ?s (M + mset [Signal_Send n (Send_Value True)]) (es @ [Accepted (Some n) v])"
            by (rule recvs_ok_frame [OF inv(2)]) simp
          show "fifo_ok ?s (es @ [Accepted (Some n) v])" using inv(4) by (simp add: fifo_ok_def)
          show "senders_ok ?s (M + mset [Signal_Send n (Send_Value True)])"
            by (rule senders_ok_owable [OF senders_ok_done [OF inv(5)]]) (auto simp: owable_def)
        qed
      qed
    qed
  qed
qed

lemma arbitrate_recv_ok:
  assumes "mpsc_inv s (add_mset (Arbitrate_Recv r) M) es"
  shows "steps_ok M es (arbitrate_recv r s)"
proof -
  let ?M = "add_mset (Arbitrate_Recv r) M"
  obtain ws where inv: "sends_ok s ?M es" "recvs_ok s ?M es" "waits_ok s ws" "fifo_ok s es" "senders_ok s ?M"
    using assms by (rule mpsc_invE)
  obtain op where op: "recv_ops s r = Some op" "ro_alive op" "ro_started op" "ro_signals op = []"
    "owes_recv r M = {#}" "ro_stage op \<noteq> StageQueued" "ro_stage op \<noteq> StageGone"
    and phase: "recv_phase r op {#Arbitrate_Recv r#} (taken_by (Some r) es)"
    by (rule recv_pending [OF inv(2), of r]) simp_all
  have init: "ro_stage op = StageInit" "ro_state op" "taken_by (Some r) es = []"
    using phase by (auto simp: recv_phase_def)
  have live: "live_recv s r = Some op" using op by (simp add: live_recv_def)
  have others: "sends_ok s M es" "senders_ok s M"
    using sends_ok_frame [OF inv(1), of s M "[]"] spent_recv_owes(3) [OF spent_recv_owed inv(5)] by auto
  show ?thesis
  proof (cases "ro_stop_requested op")
    case True
    show ?thesis
    proof (rule recv_step_ok [where r = r, OF assms spent_recv_owed])
      show "arbitrate_recv r s = Some (put_recv r op s, [Signal_Recv r Recv_Stopped], [])"
        using True live op(1) by (cases s) (auto simp: arbitrate_recv_def put_recv_def)
      show "recv_ok r (Some op) (owes_recv r M + mset [Signal_Recv r Recv_Stopped]) (taken_by (Some r) es)"
        using op init by (auto simp: recv_ok_def recv_phase_def)
      show "\<exists>ws'. waits_ok (put_recv r op s) ws'" if "waits_ok s ws" for ws
        using waits_ok_same_recv_stage [OF that op(1)] by simp
    qed simp_all
  next
    case False
    obtain out claimed s' es' ws' where front: "take_front (Some r) s = Some (out, claimed, s', es')"
      and sends: "sends_ok s' (M + mset (complete_claimed claimed)) (es @ es')"
      and waits: "waits_ok s' ws'" and fifo: "fifo_ok s' (es @ es')"
      and same: "recv_ops s' = recv_ops s" "recv_slot s' = recv_slot s"
        "closed s' = closed s" "senders s' = senders s"
      and got: "\<forall>w. taken_by w es' = (if w = Some r then value_list out else [])"
      and drained: "out = None \<longrightarrow> buffer s' = [] \<and> ws' = []"
      by (rule take_front_ok [OF others(1) inv(3,4), of "Some r"])
    show ?thesis
    proof (cases "out = None \<and> \<not> closed s \<and> recv_slot s = None")
      case True
      let ?op = "op\<lparr>ro_stage := StageQueued\<rparr>"
      let ?s = "put_recv r ?op (s'\<lparr>recv_slot := Some r\<rparr>)"
      have ws'': "waits_ok ?s ws'"
        by (rule waits_ok_park_recv [OF waits]) (use True same drained in auto)
      show ?thesis
      proof (rule steps_okI [OF _ _ _ ws''])
        show "arbitrate_recv r s = Some (?s, complete_claimed claimed, es')"
          using True False front live same by (simp add: arbitrate_recv_def)
        show "sends_ok ?s (M + mset (complete_claimed claimed)) (es @ es')"
          using sends by (simp add: sends_ok_def)
        show "recvs_ok ?s (M + mset (complete_claimed claimed)) (es @ es')"
          by (rule recvs_ok_change [OF inv(2), of r])
            (use True op init same got in
              \<open>auto simp: complete_claimed_owes recv_ok_def recv_phase_def value_list_def\<close>)
        show "fifo_ok ?s (es @ es')" using fifo by (simp add: fifo_ok_def)
        show "senders_ok ?s (M + mset (complete_claimed claimed))"
          by (rule senders_ok_owable [OF others(2)]) (auto simp: same complete_claimed_owes)
      qed
    next
      case resolved: False
      define sig where "sig = (if out \<noteq> None \<or> closed s then Recv_Value out else Recv_Violation)"
      let ?owed = "complete_claimed claimed @ [Signal_Recv r sig]"
      have sig: "received sig = value_list out"
        using resolved by (auto simp: sig_def value_list_def split: option.split)
      show ?thesis
      proof (rule steps_okI [OF _ _ _ waits])
        show "arbitrate_recv r s = Some (s', ?owed, es')"
          using resolved False front live same by (auto simp: arbitrate_recv_def sig_def)
        show "sends_ok s' (M + mset ?owed) (es @ es')"
          using sends by (simp add: sends_ok_def)
        show "recvs_ok s' (M + mset ?owed) (es @ es')"
          by (rule recvs_ok_change [OF inv(2), of r])
            (use op init same got sig in \<open>auto simp: complete_claimed_owes recv_ok_def recv_phase_def\<close>)
        show "fifo_ok s' (es @ es')" by (rule fifo)
        show "senders_ok s' (M + mset ?owed)"
          by (rule senders_ok_owable [OF others(2)]) (auto simp: same complete_claimed_owes)
      qed
    qed
  qed
qed

section \<open>Closing\<close>

lemma mark_closed_effect:
  assumes "distinct ns" "\<And>n. n \<in> set ns \<Longrightarrow> \<exists>op. send_ops s n = Some op \<and> so_alive op"
  shows "mark_closed ns s = Some (s\<lparr>send_ops := (\<lambda>n. if n \<in> set ns
           then map_option (\<lambda>op. op\<lparr>so_stage := StageClosed\<rparr>) (send_ops s n) else send_ops s n)\<rparr>)"
  using assms
proof (induction ns arbitrary: s)
  case (Cons n ns)
  obtain op where op: "send_ops s n = Some op" "so_alive op" using Cons.prems(2) [of n] by auto
  let ?s = "put_send n (op\<lparr>so_stage := StageClosed\<rparr>) s"
  have "mark_closed ns ?s = Some (?s\<lparr>send_ops := (\<lambda>n. if n \<in> set ns
           then map_option (\<lambda>op. op\<lparr>so_stage := StageClosed\<rparr>) (send_ops ?s n) else send_ops ?s n)\<rparr>)"
    using Cons.prems by (intro Cons.IH) auto
  moreover have "mark_closed (n # ns) s = mark_closed ns ?s"
    using op by (simp add: live_send_def)
  ultimately show ?case
    using op Cons.prems(1) by (auto simp: put_send_def fun_eq_iff)
qed simp

lemma owes_detached:
  "distinct ns \<Longrightarrow> owes_send n (image_mset Complete_Detached (mset ns)) =
     (if n \<in> set ns then {#Complete_Detached n#} else {#})"
  "owes_recv r (image_mset Complete_Detached (mset ns)) = {#}"
  by (induction ns) auto

lemma close_slot_effect:
  assumes "recvs_ok s M es" "waits_ok s ws"
  obtains s1 where "close_slot (s\<lparr>closed := c\<rparr>) = Some s1" "send_ops s1 = send_ops s"
    "wait_queue s1 = wait_queue s" "recv_slot s1 = None" "\<And>r. \<not> recv_parked s1 r" "closed s1 = c"
    "buffer s1 = buffer s" "senders s1 = senders s" "capacity s1 = capacity s"
    "bounded_mode s1 = bounded_mode s"
    "recvs_ok s1 (M + mset (case recv_slot s of None \<Rightarrow> [] | Some r \<Rightarrow> [Signal_Recv r (Recv_Value None)])) es"
proof (cases "recv_slot s")
  case None
  have "\<not> recv_parked s r" for r using waits_ok_slot [OF assms(2)] None by auto
  then show thesis
    using assms None
    by (intro that [of "s\<lparr>closed := c\<rparr>"]) (auto simp: close_slot_def recvs_ok_def recv_parked_def)
next
  case (Some r)
  obtain op where op: "recv_ops s r = Some op" "ro_stage op = StageQueued"
    using waits_ok_slot [OF assms(2)] Some by (auto simp: recv_parked_def)
  have ok: "recv_ok r (Some op) (owes_recv r M) (taken_by (Some r) es)"
    using recvs_okD [OF assms(1), of r] op by simp
  let ?op = "op\<lparr>ro_stage := StageClosed\<rparr>"
  let ?s = "put_recv r ?op (s\<lparr>closed := c, recv_slot := None\<rparr>)"
  have only: "recv_parked s m \<Longrightarrow> m = r" for m using waits_ok_slot [OF assms(2), of m] Some by auto
  have "recvs_ok ?s (M + mset [Signal_Recv r (Recv_Value None)]) (es @ [])"
    by (rule recvs_ok_change [OF assms(1), of r]) (use ok op in \<open>auto simp: recv_ok_def recv_phase_def\<close>)
  moreover have "close_slot (s\<lparr>closed := c\<rparr>) = Some ?s"
    using Some op ok by (auto simp: close_slot_def live_recv_def recv_ok_def recv_phase_def)
  moreover have "\<not> recv_parked ?s m" for m using only by (auto simp: recv_parked_def split: if_splits)
  ultimately show thesis using Some by (intro that [of ?s]) simp_all
qed

lemma close_channel_ok:
  assumes "mpsc_inv s M0 es" "M0 = M \<or> M0 = add_mset Close_Channel M"
  shows "steps_ok M es (close_channel s)"
proof -
  obtain ws where inv0: "sends_ok s M0 es" "recvs_ok s M0 es" "waits_ok s ws" "fifo_ok s es" "senders_ok s M0"
    using assms(1) by (rule mpsc_invE)
  have inv: "sends_ok s M es" "recvs_ok s M es" "\<forall>a\<in>#M. owable a"
    using inv0 assms(2) by (auto simp: sends_ok_def recvs_ok_def senders_ok_def)
  have rep: "represents (wait_queue s) ws" and parked: "\<And>n. n \<in> set ws \<longleftrightarrow> send_parked s n"
    using inv0(3) by (auto simp: waits_ok_def)
  show ?thesis
  proof (cases "closed s")
    case True
    have "steps_ok M es (Some (s, [], []))"
      by (rule steps_okI [OF refl _ _ inv0(3)]) (use inv inv0(4) True in \<open>auto simp: senders_ok_def\<close>)
    then show ?thesis using True by (simp add: close_channel_def)
  next
    case False
    define slot :: "'a action list" where
      "slot = (case recv_slot s of None \<Rightarrow> [] | Some r \<Rightarrow> [Signal_Recv r (Recv_Value None)])"
    obtain t where t: "close_slot (s\<lparr>closed := True\<rparr>) = Some t" "send_ops t = send_ops s"
      "wait_queue t = wait_queue s" "recv_slot t = None" "\<forall>r. \<not> recv_parked t r" "closed t = True"
      "buffer t = buffer s" "senders t = senders s" "capacity t = capacity s"
      "bounded_mode t = bounded_mode s" "recvs_ok t (M + mset slot) es"
      using close_slot_effect [OF inv(2) inv0(3), of True] unfolding slot_def by metis
    have node: "send_ok n (send_ops s n) (owes_send n M) (offered n es) (accepted_by (Some n) es)" for n
      by (rule sends_okD [OF inv(1)])
    have live: "\<exists>op. send_ops s n = Some op \<and> so_alive op" if "n \<in> set ws" for n
      using node [of n] that parked by (auto simp: send_parked_def send_ok_def send_phase_def)
    define ops where "ops = (\<lambda>n. if n \<in> set ws
      then map_option (\<lambda>op. op\<lparr>so_stage := StageClosed\<rparr>) (send_ops s n) else send_ops s n)"
    let ?t = "t\<lparr>wait_queue := (wait_queue t)\<lparr>wait_head := None, wait_tail := None\<rparr>\<rparr>"
    let ?s = "?t\<lparr>send_ops := ops\<rparr>"
    have marked: "mark_closed ws ?t = Some ?s"
    proof -
      have same: "send_ops ?t = send_ops s" by (simp add: t)
      show ?thesis
        using mark_closed_effect [of ws ?t] live wl.holds_distinct [OF rep]
        unfolding same ops_def [symmetric] by blast
    qed
    let ?owed = "slot @ map Complete_Detached ws"
    have quiet: "owes_send n (mset slot) = {#}" "a \<in> set slot \<Longrightarrow> owable a" for n a
      by (auto simp: slot_def owable_def split: option.splits)
    have unparked: "\<not> send_parked ?s n" for n
      using parked [of n] by (auto simp: send_parked_def ops_def)
    have ok: "send_ok n (ops n) (owes_send n M + (if n \<in> set ws then {#Complete_Detached n#} else {#}))
        (offered n es) (accepted_by (Some n) es)" for n
    proof (cases "n \<in> set ws")
      case True
      then obtain op where "send_ops s n = Some op" "so_stage op = StageQueued"
        using parked by (auto simp: send_parked_def)
      then show ?thesis using node [of n] True by (auto simp: ops_def send_ok_def send_phase_def)
    qed (use node [of n] in \<open>simp add: ops_def\<close>)
    show ?thesis
    proof (rule steps_okI [where s' = ?s and owed = ?owed and es' = "[]" and ws = "[]"])
      show "close_channel s = Some (?s, ?owed, [])"
        using False t(1) wl.holds_members [OF rep] marked
        by (simp add: close_channel_def t(3) slot_def)
      show "sends_ok ?s (M + mset ?owed) (es @ [])"
        using ok by (simp add: sends_ok_def quiet owes_detached wl.holds_distinct [OF rep])
      show "recvs_ok ?s (M + mset ?owed) (es @ [])"
        using t(11) by (simp add: recvs_ok_def owes_detached)
      show "waits_ok ?s []"
        using unparked t inv0(3) by (auto simp: waits_ok_def represents_def recv_parked_def)
      show "fifo_ok ?s (es @ [])" using inv0(4) by (simp add: fifo_ok_def t)
      show "senders_ok ?s (M + mset ?owed)"
        using inv(3) quiet(2) by (auto simp: senders_ok_def t owable_def)
    qed
  qed
qed

lemma copy_sender_ok:
  assumes "mpsc_inv s M es"
  shows "steps_ok M es (copy_sender s)"
proof -
  obtain ws where inv: "sends_ok s M es" "recvs_ok s M es" "waits_ok s ws" "fifo_ok s es" "senders_ok s M"
    using assms by (rule mpsc_invE)
  let ?s = "s\<lparr>senders := senders s + 1\<rparr>"
  show ?thesis
    by (rule steps_okI [of _ ?s "[]" "[]" _ _ ws])
      (use inv in \<open>auto simp: copy_sender_def sends_ok_def recvs_ok_def waits_ok_def send_parked_def
         recv_parked_def fifo_ok_def senders_ok_def\<close>)
qed

lemma release_sender_ok:
  assumes "mpsc_inv s M es" "senders s > 0"
  shows "steps_ok M es (release_sender s)"
proof -
  obtain ws where inv: "sends_ok s M es" "recvs_ok s M es" "waits_ok s ws" "fifo_ok s es" "senders_ok s M"
    using assms(1) by (rule mpsc_invE)
  let ?s = "s\<lparr>senders := senders s - 1\<rparr>"
  show ?thesis
    by (rule steps_okI [of _ ?s "if senders s = 1 then [Close_Channel] else []" "[]" _ _ ws])
      (use inv assms(2) in \<open>auto simp: release_sender_def sends_ok_def recvs_ok_def waits_ok_def
         send_parked_def recv_parked_def fifo_ok_def senders_ok_def owable_def\<close>)
qed

section \<open>Every interleaving\<close>

lemma mpsc_inv_init: "mpsc_inv (bounded cap) {#} []" "mpsc_inv unbounded {#} []"
  by (rule mpsc_invI [where ws = "[]"];
      simp add: bounded_def unbounded_def sends_ok_def recvs_ok_def send_ok_def recv_ok_def waits_ok_def
        send_parked_def recv_parked_def wl.holds_empty fifo_ok_def senders_ok_def)+

lemma mpsc_call_ok:
  assumes "mpsc_inv s M es" "mpsc_callable a s"
  shows "steps_ok M es (mpsc_exec a s)"
  using assms
  by (cases a)
    (auto split: option.splits intro: try_send_ok try_recv_ok close_channel_ok copy_sender_ok
       release_sender_ok connect_send_ok start_send_ok stop_send_ok destroy_send_ok connect_recv_ok
       start_recv_ok stop_recv_ok destroy_recv_ok)

lemma mpsc_run_ok:
  assumes "mpsc_inv s (add_mset a M) es"
  shows "steps_ok M es (mpsc_exec a s)"
proof -
  have "owable a" using assms by (auto simp: mpsc_inv_def senders_ok_def)
  then show ?thesis
    using assms
    by (cases a)
      (auto simp: owable_def intro: close_channel_ok arbitrate_send_ok signal_send_ok complete_detached_ok
         arbitrate_recv_ok signal_recv_ok complete_value_ok)
qed

interpretation bounded_mpsc: interleaved mpsc_exec mpsc_callable "bounded cap" mpsc_inv for cap
  by unfold_locales
    (use mpsc_inv_init mpsc_call_ok mpsc_run_ok in \<open>auto simp: steps_ok_def\<close>)

interpretation unbounded_mpsc: interleaved mpsc_exec mpsc_callable unbounded mpsc_inv
  by unfold_locales
    (use mpsc_inv_init mpsc_call_ok mpsc_run_ok in \<open>auto simp: steps_ok_def\<close>)

section \<open>Running to completion\<close>

text \<open>
  A parked operation counts as the completion it will be owed; an arbitration may park its operation or
  owe two completions.
\<close>

fun action_weight :: "'a action \<Rightarrow> nat" where
  "action_weight (Arbitrate_Send n) = 4"
| "action_weight (Arbitrate_Recv r) = 4"
| "action_weight _ = 1"

definition parked_weight :: "'a mpsc \<Rightarrow> nat" where
  "parked_weight s =
    2 * (case wait_members (wait_queue s) of None \<Rightarrow> 0 | Some ws \<Rightarrow> length ws) +
    (if recv_slot s = None then 0 else 2)"

definition mpsc_backlog :: "'a mpsc \<Rightarrow> 'a action multiset \<Rightarrow> nat" where
  "mpsc_backlog s M = sum_mset (image_mset action_weight M) + parked_weight s"

lemma parked_weight_eq:
  "waits_ok s ws \<Longrightarrow> parked_weight s = 2 * length ws + (if recv_slot s = None then 0 else 2)"
  by (auto simp: parked_weight_def waits_ok_def dest: wl.holds_members)

lemma backlog_decreasesI:
  "sum_list (map action_weight owed) + parked_weight s' < action_weight a + parked_weight s \<Longrightarrow>
   mpsc_backlog s' (M + mset owed) < mpsc_backlog s (add_mset a M)"
  by (simp add: mpsc_backlog_def sum_mset_sum_list flip: mset_map)

lemma parked_weight_same:
  "wait_queue s' = wait_queue s \<Longrightarrow> recv_slot s' = recv_slot s \<Longrightarrow> parked_weight s' = parked_weight s"
  by (simp add: parked_weight_def)

lemma parked_weight_slot:
  "wait_queue s' = wait_queue s \<Longrightarrow> recv_slot s' = None \<Longrightarrow> parked_weight s' \<le> parked_weight s"
  by (simp add: parked_weight_def)

lemma store_keeps:
  "store r v s = Some s' \<Longrightarrow> wait_queue s' = wait_queue s \<and> recv_slot s' = recv_slot s \<and> closed s' = closed s"
  by (auto simp: store_def bind_eq_Some_conv)

lemma take_value_keeps:
  "take_value n s = Some (v, s') \<Longrightarrow> wait_queue s' = wait_queue s \<and> recv_slot s' = recv_slot s"
  by (auto simp: take_value_def bind_eq_Some_conv)

lemma take_front_weight:
  fixes s :: "'a mpsc"
  assumes "waits_ok s ws" "take_front who s = Some (out, claimed, s', es')"
  shows "sum_list (map action_weight (complete_claimed claimed :: 'a action list)) + parked_weight s' \<le> parked_weight s"
proof (cases "claimed")
  case None
  have "wait_queue s' = wait_queue s" "recv_slot s' = recv_slot s"
    using assms(2) None
    by (auto simp: take_front_def Let_def bind_eq_Some_conv split: list.splits if_splits option.splits)
  then show ?thesis using None by (simp add: complete_claimed_def parked_weight_def)
next
  case (Some n)
  have w: "wait_head (wait_queue s) = Some n" "wait_queue s' = unlink_node n (wait_queue s)"
    "recv_slot s' = recv_slot s"
    using assms(2) Some
    by (auto simp: take_front_def Let_def bind_eq_Some_conv dest!: take_value_keeps
          split: list.splits if_splits option.splits)
  have rep: "represents (wait_queue s) ws" using assms(1) by (simp add: waits_ok_def)
  obtain ys where ys: "ws = n # ys" using w(1) rep by (auto simp: wl.front_Some)
  then have "wait_members (wait_queue s') = Some ys" "wait_members (wait_queue s) = Some ws"
    using rep w(2) wl.holds_members wl.holds_dequeue by auto
  then show ?thesis using ys w(3) Some by (simp add: complete_claimed_def parked_weight_def)
qed

lemma arbitrate_send_drains:
  assumes "waits_ok s ws" "\<not> send_parked s n" "arbitrate_send n s = Some (s', owed, es')"
  shows "sum_list (map action_weight owed) + parked_weight s' < 4 + parked_weight s"
proof -
  have rep: "represents (wait_queue s) ws" "n \<notin> set ws" using assms(1,2) by (auto simp: waits_ok_def)
  have "wait_members (queue_node n (wait_queue s)) = Some (ws @ [n])" "wait_members (wait_queue s) = Some ws"
    using rep wl.holds_enqueue wl.holds_members by blast+
  then show ?thesis
    using assms(3)
    by (auto simp: arbitrate_send_def bind_eq_Some_conv parked_weight_def dest!: store_keeps
          split: if_splits option.splits)
qed

lemma arbitrate_recv_drains:
  assumes "waits_ok s ws" "arbitrate_recv r s = Some (s', owed, es')"
  shows "sum_list (map action_weight owed) + parked_weight s' < 4 + parked_weight s"
proof -
  obtain op where op: "live_recv s r = Some op" using assms(2) by (auto simp: arbitrate_recv_def bind_eq_Some_conv)
  show ?thesis
  proof (cases "ro_stop_requested op")
    case True
    then show ?thesis using assms(2) op by (auto simp: arbitrate_recv_def)
  next
    case False
    then obtain out claimed t es where front: "take_front (Some r) s = Some (out, claimed, t, es)"
      using assms(2) op by (auto simp: arbitrate_recv_def bind_eq_Some_conv)
    have "owed = complete_claimed claimed \<and> parked_weight s' \<le> parked_weight t + 2 \<or>
        (\<exists>sig. owed = complete_claimed claimed @ [Signal_Recv r sig]) \<and> s' = t"
      using assms(2) op False front by (auto simp: arbitrate_recv_def parked_weight_def split: if_splits)
    then show ?thesis
    proof (elim disjE conjE exE)
      assume "owed = complete_claimed claimed" "parked_weight s' \<le> parked_weight t + 2"
      then show ?thesis using take_front_weight [OF assms(1) front] by simp
    next
      fix sig
      assume "owed = complete_claimed claimed @ [Signal_Recv r sig]" "s' = t"
      then show ?thesis using take_front_weight [OF assms(1) front] by simp
    qed
  qed
qed

lemma mark_closed_keeps:
  "mark_closed ns s = Some s' \<Longrightarrow> wait_queue s' = wait_queue s \<and> recv_slot s' = recv_slot s \<and>
     capacity s' = capacity s \<and> bounded_mode s' = bounded_mode s"
  by (induction ns arbitrary: s) (fastforce simp: bind_eq_Some_conv)+

lemma close_channel_drains:
  fixes s :: "'a mpsc"
  assumes "waits_ok s ws" "close_channel s = Some (s', owed, es')"
  shows "sum_list (map action_weight owed) + parked_weight s' < 1 + parked_weight s"
proof (cases "closed s")
  case True
  then show ?thesis using assms(2) by (simp add: close_channel_def)
next
  case False
  then obtain t pending u where t: "close_slot (s\<lparr>closed := True\<rparr>) = Some t"
      "wait_members (wait_queue t) = Some pending"
      "mark_closed pending (t\<lparr>wait_queue := (wait_queue t)\<lparr>wait_head := None, wait_tail := None\<rparr>\<rparr>) = Some s'"
    and owed: "owed = (case recv_slot s of None \<Rightarrow> [] | Some r \<Rightarrow> [Signal_Recv r (Recv_Value None)]) @
        map Complete_Detached pending"
    using assms(2) by (auto simp: close_channel_def bind_eq_Some_conv)
  have slot: "wait_queue t = wait_queue s" "recv_slot t = None"
    using t(1) by (auto simp: close_slot_def bind_eq_Some_conv split: option.splits)
  have "parked_weight s' = 0"
    using mark_closed_keeps [OF t(3)] slot(2) by (simp add: parked_weight_def wait_members_def walk.simps)
  moreover have "sum_list (map (action_weight \<circ> (Complete_Detached :: nat \<Rightarrow> 'a action)) ns) = length ns" for ns
    by (induction ns) simp_all
  then have "sum_list (map action_weight owed) = (if recv_slot s = None then 0 else 1) + length pending"
    by (simp add: owed split: option.split)
  moreover have "parked_weight s = 2 * length pending + (if recv_slot s = None then 0 else 2)"
    using t(2) slot(1) by (simp add: parked_weight_def)
  ultimately show ?thesis by (simp split: if_splits)
qed

lemma complete_detached_drains:
  assumes "waits_ok s ws" "\<not> send_parked s n" "complete_detached n s = Some (s', owed, es')"
  shows "owed = [] \<and> parked_weight s' = parked_weight s"
proof -
  let ?s = "s\<lparr>wait_queue := (wait_queue s)\<lparr>node_prev := (node_prev (wait_queue s))(n := None),
    node_next := (node_next (wait_queue s))(n := None)\<rparr>\<rparr>"
  have "parked_weight ?s = parked_weight s"
    using parked_weight_eq [OF waits_ok_reset_links [OF assms(1,2)]] parked_weight_eq [OF assms(1)] by simp
  then show ?thesis
    using assms(3) parked_weight_same [of s' ?s]
    by (auto simp: complete_detached_def signal_send_def bind_eq_Some_conv)
qed

lemma mpsc_drains:
  assumes "mpsc_inv s (add_mset a M) es" "mpsc_exec a s = Some (s', owed, es')"
  shows "mpsc_backlog s' (M + mset owed) < mpsc_backlog s (add_mset a M)"
proof (rule backlog_decreasesI)
  obtain ws where inv: "sends_ok s (add_mset a M) es" "waits_ok s ws" "senders_ok s (add_mset a M)"
    using assms(1) by (rule mpsc_invE)
  have idle: "\<not> send_parked s n" if n: "send_target a = Some n" for n
  proof -
    obtain op where "send_ops s n = Some op" "so_stage op \<noteq> StageQueued"
      by (rule send_pending [OF inv(1) n])
    then show ?thesis by (simp add: send_parked_def)
  qed
  have "owable a" using inv(3) by (simp add: senders_ok_def)
  then show "sum_list (map action_weight owed) + parked_weight s' < action_weight a + parked_weight s"
  proof (cases a)
    case (Signal_Send n sig)
    then show ?thesis
      using assms(2) parked_weight_same [of s' s] by (auto simp: signal_send_def bind_eq_Some_conv)
  next
    case (Signal_Recv r sig)
    then show ?thesis
      using assms(2) parked_weight_same [of s' s] by (auto simp: signal_recv_def bind_eq_Some_conv)
  next
    case (Complete_Value r)
    then show ?thesis
      using assms(2) parked_weight_same [of s' s]
      by (auto simp: complete_value_def signal_recv_def bind_eq_Some_conv)
  next
    case (Complete_Detached n)
    then have "owed = [] \<and> parked_weight s' = parked_weight s"
      using complete_detached_drains [OF inv(2) idle] assms(2) by simp
    then show ?thesis using Complete_Detached by simp
  next
    case (Arbitrate_Send n)
    then show ?thesis using arbitrate_send_drains [OF inv(2) idle] assms(2) by simp
  next
    case (Arbitrate_Recv r)
    then show ?thesis using arbitrate_recv_drains [OF inv(2)] assms(2) by simp
  next
    case Close_Channel
    then show ?thesis using close_channel_drains [OF inv(2)] assms(2) by simp
  qed (simp_all add: owable_def)
qed

interpretation bounded_mpsc: draining mpsc_exec mpsc_callable "bounded cap" mpsc_inv mpsc_backlog for cap
  by unfold_locales (rule mpsc_drains)

interpretation unbounded_mpsc: draining mpsc_exec mpsc_callable unbounded mpsc_inv mpsc_backlog
  by unfold_locales (rule mpsc_drains)

section \<open>What holds of the channel\<close>

lemma mpsc_reachable_inv:
  assumes "reaches mpsc_exec mpsc_callable s0 (s, T) es" "s0 = unbounded \<or> s0 = bounded cap"
  shows "mpsc_inv s (owed_actions T) es"
  using assms bounded_mpsc.inv_reachable unbounded_mpsc.inv_reachable by metis

lemma mpsc_limits_kept:
  assumes "mpsc_exec a s = Some (s', owed, es')"
  shows "capacity s' = capacity s \<and> bounded_mode s' = bounded_mode s"
proof -
  have store: "store r v t = Some t' \<Longrightarrow> capacity t' = capacity t \<and> bounded_mode t' = bounded_mode t" for r v t t'
    by (auto simp: store_def bind_eq_Some_conv)
  have take: "take_value n t = Some (w, t') \<Longrightarrow> capacity t' = capacity t \<and> bounded_mode t' = bounded_mode t"
    for n w t t'
    by (auto simp: take_value_def bind_eq_Some_conv)
  have front: "take_front who t = Some (out, claimed, t', fs) \<Longrightarrow>
      capacity t' = capacity t \<and> bounded_mode t' = bounded_mode t" for who out claimed t t' fs
    by (auto simp: take_front_def Let_def bind_eq_Some_conv dest!: take split: list.splits if_splits option.splits)
  have slot: "close_slot t = Some t' \<Longrightarrow> capacity t' = capacity t \<and> bounded_mode t' = bounded_mode t" for t t'
    by (auto simp: close_slot_def bind_eq_Some_conv split: option.splits)
  note ops = try_send_def try_recv_def copy_sender_def release_sender_def
    connect_send_def start_send_def arbitrate_send_def signal_send_def complete_detached_def stop_send_def
    destroy_send_def connect_recv_def start_recv_def arbitrate_recv_def signal_recv_def complete_value_def
    stop_recv_def destroy_recv_def
  show ?thesis
  proof (cases a)
    case Close_Channel
    then show ?thesis
      using assms
      by (auto simp: close_channel_def bind_eq_Some_conv dest!: mark_closed_keeps slot split: if_splits option.splits)
  qed (use assms in \<open>auto simp: ops Let_def bind_eq_Some_conv dest!: store front
         split: if_splits option.splits\<close>)
qed

lemma mpsc_limits:
  assumes "reaches mpsc_exec mpsc_callable s0 c es"
  shows "capacity (fst c) = capacity s0 \<and> bounded_mode (fst c) = bounded_mode s0"
  using assms
proof induction
  case (step c es es' c')
  from step.hyps(2) step.IH show ?case by cases (auto dest!: mpsc_limits_kept)
qed simp

text \<open>
  A run of a channel of capacity 1: two sends, the second of which parks; a receive takes the first value
  and lets the second in; a third send is stopped while it is parked and a fourth waits.
\<close>

definition mpsc_demo :: "nat action choice list" where
  "mpsc_demo = [Call (Connect_Send 0 True 7), Call (Start_Send 0), Run 1, Run 1,
     Call (Connect_Send 1 True 8), Call (Start_Send 1), Run 3,
     Call (Connect_Recv 0 True), Call (Start_Recv 0), Run 5, Run 5, Run 5,
     Call (Connect_Send 2 True 9), Call (Start_Send 2), Run 7, Call (Stop_Send 2), Run 8,
     Call (Connect_Send 3 True 5), Call (Start_Send 3), Run 10]"

definition mpsc_demo_end :: "(nat mpsc, nat action) threads \<times> nat event list" where
  "mpsc_demo_end = the (perform mpsc_exec mpsc_callable mpsc_demo ((bounded 1, []), []))"

abbreviation "demo_state \<equiv> fst (fst mpsc_demo_end)"
abbreviation "demo_threads \<equiv> snd (fst mpsc_demo_end)"
abbreviation "demo_log \<equiv> snd mpsc_demo_end"

lemma mpsc_demo_runs: "perform mpsc_exec mpsc_callable mpsc_demo ((bounded 1, []), []) \<noteq> None"
  by code_simp

lemma mpsc_demo_reaches: "reaches mpsc_exec mpsc_callable (bounded 1) (demo_state, demo_threads) demo_log"
  using mpsc_demo_runs perform_reaches [of mpsc_exec mpsc_callable mpsc_demo "bounded 1"]
  by (auto simp: mpsc_demo_end_def)

lemma mpsc_demo_facts:
  "accepted demo_log = [7, 8] \<and> taken demo_log = [7] \<and> buffer demo_state = [8] \<and>
   concat demo_threads = [] \<and> map_option so_signals (send_ops demo_state 1) = Some [Send_Value True] \<and>
   map_option so_signals (send_ops demo_state 2) = Some [Send_Stopped] \<and>
   map_option ro_signals (recv_ops demo_state 0) = Some [Recv_Value (Some 7)]"
  by code_simp

text \<open>C21: Under every interleaving of producers, the consumer, cancellations and closes, the values that
  entered the channel are exactly those taken out of it followed by those in the buffer, in the same
  order: nothing is lost, duplicated or reordered; and a bounded channel never holds more than its
  capacity.\<close>
theorem mpsc_fifo:
  assumes "reaches mpsc_exec mpsc_callable s0 (s, T) es" "s0 = unbounded \<or> s0 = bounded cap"
  shows "accepted es = taken es @ buffer s \<and> (s0 = bounded cap \<longrightarrow> length (buffer s) \<le> cap)"
proof -
  obtain ws where ok: "waits_ok s ws" "fifo_ok s es"
    using mpsc_reachable_inv [OF assms] by (rule mpsc_invE)
  have "s0 = bounded cap \<Longrightarrow> capacity s = cap \<and> bounded_mode s"
    using mpsc_limits [OF assms(1)] by (simp add: bounded_def)
  then show ?thesis using ok by (auto simp: waits_ok_def fifo_ok_def)
qed

theorem mpsc_fifo_witness:
  "accepted demo_log = taken demo_log @ buffer demo_state \<and> accepted demo_log = [7, 8] \<and>
   length (buffer demo_state) \<le> 1"
  using mpsc_fifo [OF mpsc_demo_reaches, of 1] mpsc_demo_facts by simp

text \<open>C22: No action a thread owes and none the protocol lets the environment call ever touches an operation
  state that was destroyed, a dangling node of the wait list, or a value already moved out.\<close>
theorem mpsc_defined:
  assumes "reaches mpsc_exec mpsc_callable s0 (s, T) es" "s0 = unbounded \<or> s0 = bounded cap"
    and "a \<in># owed_actions T \<or> mpsc_callable a s"
  shows "mpsc_exec a s \<noteq> None"
  using assms(2)
proof
  assume "s0 = unbounded"
  then show ?thesis using assms(1,3) unbounded_mpsc.owed_defined unbounded_mpsc.call_defined by blast
next
  assume "s0 = bounded cap"
  then show ?thesis using assms(1,3) bounded_mpsc.owed_defined bounded_mpsc.call_defined by blast
qed

theorem mpsc_defined_witness:
  "mpsc_callable (Destroy_Send 1) demo_state \<and> mpsc_exec (Destroy_Send 1) demo_state \<noteq> None"
proof
  show call: "mpsc_callable (Destroy_Send 1) demo_state" by code_simp
  show "mpsc_exec (Destroy_Send 1) demo_state \<noteq> None"
    by (rule mpsc_defined [OF mpsc_demo_reaches, of 1]) (use call in blast)+
qed

text \<open>A send completes at most once; it completes with \<open>true\<close> exactly when the value it offered entered
  the channel, which happens at most once, and a send that completes with \<open>false\<close> or is stopped has
  left nothing in the channel.\<close>
theorem mpsc_send_outcome:
  assumes "reaches mpsc_exec mpsc_callable s0 (s, T) es" "s0 = unbounded \<or> s0 = bounded cap"
    and "send_ops s n = Some op"
  shows "length (so_signals op) \<le> 1 \<and>
    (\<forall>sig\<in>set (so_signals op). accepted_by (Some n) es = (if sig = Send_Value True then offered n es else []))"
proof -
  have "sends_ok s (owed_actions T) es" using mpsc_reachable_inv [OF assms(1,2)] by (rule mpsc_invE)
  from sends_okD [OF this, of n] assms(3) show ?thesis by (auto simp: send_ok_def send_phase_def)
qed

theorem mpsc_send_outcome_witness:
  "\<exists>op. send_ops demo_state 1 = Some op \<and> so_signals op = [Send_Value True] \<and>
     accepted_by (Some 1) demo_log = offered 1 demo_log"
proof -
  obtain op where op: "send_ops demo_state 1 = Some op" "so_signals op = [Send_Value True]"
    using mpsc_demo_facts by auto
  then show ?thesis using mpsc_send_outcome [OF mpsc_demo_reaches, of 1 1 op] by auto
qed

text \<open>A receive completes at most once, and its completion carries exactly the value that left the
  channel for it: no value is taken for a receive that is stopped, fails or is never completed once
  nothing is owed.\<close>
theorem mpsc_recv_outcome:
  assumes "reaches mpsc_exec mpsc_callable s0 (s, T) es" "s0 = unbounded \<or> s0 = bounded cap"
    and "recv_ops s r = Some op"
  shows "length (ro_signals op) \<le> 1 \<and> (\<forall>sig\<in>set (ro_signals op). taken_by (Some r) es = received sig) \<and>
    (owed_actions T = {#} \<and> ro_signals op = [] \<longrightarrow> taken_by (Some r) es = [])"
proof -
  have "recvs_ok s (owed_actions T) es" using mpsc_reachable_inv [OF assms(1,2)] by (rule mpsc_invE)
  from recvs_okD [OF this, of r] assms(3) show ?thesis by (auto simp: recv_ok_def recv_phase_def)
qed

theorem mpsc_recv_outcome_witness:
  "\<exists>op. recv_ops demo_state 0 = Some op \<and> ro_signals op = [Recv_Value (Some 7)] \<and>
     taken_by (Some 0) demo_log = [7]"
proof -
  obtain op where op: "recv_ops demo_state 0 = Some op" "ro_signals op = [Recv_Value (Some 7)]"
    using mpsc_demo_facts by auto
  then show ?thesis using mpsc_recv_outcome [OF mpsc_demo_reaches, of 1 0 op] by auto
qed

text \<open>C23: No wake-up is lost: when no thread owes anything, every started operation that is still alive
  either has completed or waits for a reason, a send because the bounded buffer is full, a receive
  because nothing is buffered and nobody is parked to send; nobody waits on a closed channel, and the
  channel is closed once the last sender is gone.\<close>
theorem mpsc_no_lost_wakeup:
  assumes "reaches mpsc_exec mpsc_callable s0 (s, T) es" "s0 = unbounded \<or> s0 = bounded cap"
    and "owed_actions T = {#}"
  shows "(\<forall>n op. live_send s n = Some op \<and> so_started op \<and> so_signals op = [] \<longrightarrow>
            \<not> closed s \<and> s0 = bounded cap \<and> length (buffer s) = cap) \<and>
         (\<forall>r op. live_recv s r = Some op \<and> ro_started op \<and> ro_signals op = [] \<longrightarrow>
            \<not> closed s \<and> buffer s = [] \<and> (\<forall>n. \<not> send_parked s n)) \<and>
         (senders s = 0 \<longrightarrow> closed s)"
proof -
  obtain ws where inv: "sends_ok s {#} es" "recvs_ok s {#} es" "waits_ok s ws" "senders_ok s {#}"
    using mpsc_reachable_inv [OF assms(1,2)] assms(3) by (auto elim: mpsc_invE)
  have limits: "bounded_mode s \<Longrightarrow> s0 = bounded cap \<and> capacity s = cap"
    using mpsc_limits [OF assms(1)] assms(2) by (auto simp: bounded_def unbounded_def)
  have "\<not> closed s \<and> s0 = bounded cap \<and> length (buffer s) = cap"
    if "live_send s n = Some op \<and> so_started op \<and> so_signals op = []" for n op
  proof -
    have "send_parked s n"
      using sends_okD [OF inv(1), of n] that
      by (auto simp: live_send_Some send_ok_def send_phase_def send_parked_def)
    then have "ws \<noteq> []" using inv(3) by (auto simp: waits_ok_def)
    then show ?thesis using inv(3) limits by (auto simp: waits_ok_def)
  qed
  moreover have "\<not> closed s \<and> buffer s = [] \<and> (\<forall>n. \<not> send_parked s n)"
    if "live_recv s r = Some op \<and> ro_started op \<and> ro_signals op = []" for r op
  proof -
    have "recv_parked s r"
      using recvs_okD [OF inv(2), of r] that
      by (auto simp: live_recv_Some recv_ok_def recv_phase_def recv_parked_def)
    then have "recv_slot s = Some r" using waits_ok_slot [OF inv(3)] by blast
    then show ?thesis using inv(3) by (auto simp: waits_ok_def)
  qed
  moreover have "senders s = 0 \<longrightarrow> closed s" using inv(4) by (simp add: senders_ok_def)
  ultimately show ?thesis by blast
qed

theorem mpsc_no_lost_wakeup_witness:
  "\<exists>op. live_send demo_state 3 = Some op \<and> so_started op \<and> so_signals op = [] \<and>
     \<not> closed demo_state \<and> length (buffer demo_state) = 1"
proof -
  have owed: "owed_actions demo_threads = {#}" using mpsc_demo_facts by (simp add: owed_actions_def)
  have "map_option (\<lambda>op. (so_started op, so_signals op)) (live_send demo_state 3) = Some (True, [])"
    by code_simp
  then obtain op where "live_send demo_state 3 = Some op" "so_started op" "so_signals op = []" by auto
  then show ?thesis using mpsc_no_lost_wakeup [OF mpsc_demo_reaches, of 1] owed by blast
qed

text \<open>Left to themselves the threads finish: every schedule of owed actions is bounded by the backlog of
  the configuration, and some schedule completes everything that is owed.\<close>
theorem mpsc_threads_finish:
  assumes "reaches mpsc_exec mpsc_callable s0 (s, T) es" "s0 = unbounded \<or> s0 = bounded cap"
  shows "(\<forall>is s' T' es'. perform mpsc_exec mpsc_callable (map Run is) ((s, T), es) = Some ((s', T'), es') \<longrightarrow>
            length is \<le> mpsc_backlog s (owed_actions T)) \<and>
         (\<exists>is s' T' es'. perform mpsc_exec mpsc_callable (map Run is) ((s, T), es) = Some ((s', T'), es') \<and>
            owed_actions T' = {#})"
  using assms(2)
proof
  assume s0: "s0 = unbounded"
  show ?thesis
    using unbounded_mpsc.runs_bounded [OF assms(1) [unfolded s0]]
      unbounded_mpsc.runs_finish [OF assms(1) [unfolded s0]]
    by (meson add_leD1)
next
  assume s0: "s0 = bounded cap"
  show ?thesis
    using bounded_mpsc.runs_bounded [OF assms(1) [unfolded s0]]
      bounded_mpsc.runs_finish [OF assms(1) [unfolded s0]]
    by (meson add_leD1)
qed

theorem mpsc_threads_finish_witness:
  "\<exists>is c' es'. perform mpsc_exec mpsc_callable (map Run is) ((demo_state, demo_threads), demo_log) =
     Some (c', es') \<and> owed_actions (snd c') = {#}"
  using mpsc_threads_finish [OF mpsc_demo_reaches, of 1] by fastforce

end
