(* ===== verification/Oneshot.thy ===== *)
theory Oneshot
  imports Interleaving "HOL-Library.Monad_Syntax"
begin

text \<open>
  \<^verbatim>\<open>src/include/clash_native/async/oneshot.hpp\<close>: a channel for one value or one error.  The sender settles
  it, the receiver is the operation that waits for it; only one operation can be connected, since
  connecting moves the state out of the receiver.  Critical sections under \<^verbatim>\<open>State::mutex\<close> are actions,
  the completion after its release is owed, as in \<open>Mpsc_Channel\<close>.
\<close>

section \<open>State\<close>

datatype status = Status_Empty | Status_Value | Status_Error

text \<open>What the sender put in, and what the receiver is told.\<close>

datatype ('a, 'e) payload = Payload_Value "'a option" | Payload_Error 'e

datatype ('a, 'e) oneshot_signal = Signal_Value "'a option" | Signal_Error 'e | Signal_Stopped

record ('a, 'e) oneshot_op =
  op_state :: bool  \<comment> \<open>\<^verbatim>\<open>state_ != nullptr\<close>\<close>
  op_stop_requested :: bool
  op_callback :: bool
  op_started :: bool
  op_alive :: bool
  op_signals :: "('a, 'e) oneshot_signal list"

record ('a, 'e) oneshot =
  os_status :: status
  os_value :: "'a option"
  os_error :: "'e option"
  os_waiter :: bool  \<comment> \<open>\<^verbatim>\<open>waiter\<close> is the connected operation, \<^verbatim>\<open>deliver\<close> its entry point\<close>
  os_detached :: bool
  os_settled :: bool
  os_sender :: bool  \<comment> \<open>\<^verbatim>\<open>Sender::state_\<close>\<close>
  os_receiver :: bool  \<comment> \<open>\<^verbatim>\<open>Receiver::state_\<close>\<close>
  os_op :: "('a, 'e) oneshot_op option"

definition oneshot_channel :: "('a, 'e) oneshot" where
  "oneshot_channel = \<lparr>os_status = Status_Empty, os_value = None, os_error = None, os_waiter = False,
     os_detached = False, os_settled = False, os_sender = True, os_receiver = True, os_op = None\<rparr>"

text \<open>Logged: what settled the channel, and what each call of the sender returned.\<close>

datatype ('a, 'e) oneshot_event =
    Settled "('a, 'e) payload"
  | Send_Returned bool "'a option"  \<comment> \<open>the result, and what is left in the caller's \<^verbatim>\<open>value\<close>\<close>

datatype ('a, 'e) oneshot_action =
    Send_One 'a
  | Send_Error 'e
  | Close_Sender
  | Connect_One
  | Start_One
  | Arbitrate_One
  | Deliver_One bool
  | Signal_One "('a, 'e) oneshot_signal"
  | Stop_One
  | Destroy_One

type_synonym ('a, 'e) oneshot_effect =
  "(('a, 'e) oneshot \<times> ('a, 'e) oneshot_action list \<times> ('a, 'e) oneshot_event list) option"

section \<open>Operations\<close>

definition live_op :: "('a, 'e) oneshot \<Rightarrow> ('a, 'e) oneshot_op option" where
  "live_op s = (case os_op s of None \<Rightarrow> None | Some op \<Rightarrow> if op_alive op then Some op else None)"

text \<open>
  \<^verbatim>\<open>Sender::settle\<close>: whether it settled the channel, the value left with the caller, and the delivery
  it owes.  The sender drops its reference on success.
\<close>

definition settle :: "status \<Rightarrow> 'a option \<Rightarrow> 'e option \<Rightarrow> ('a, 'e) oneshot \<Rightarrow>
    bool \<times> 'a option \<times> ('a, 'e) oneshot \<times> ('a, 'e) oneshot_action list" where
  "settle status v err s =
    (if \<not> os_sender s then (False, v, s, [])
     else if os_status s \<noteq> Status_Empty then (False, v, s, [])
     else if os_detached s then (False, v, s, [])
     else (True, None,
       s\<lparr>os_status := status, os_value := v, os_error := err, os_settled := True, os_waiter := False,
         os_sender := False\<rparr>,
       if os_waiter s then [Deliver_One (status = Status_Error)] else []))"

definition send_one :: "'a \<Rightarrow> ('a, 'e) oneshot \<Rightarrow> ('a, 'e) oneshot_effect" where
  "send_one v s =
    (case settle Status_Value (Some v) None s of (ok, left, s', owed) \<Rightarrow>
       Some (s', owed, (if ok then [Settled (Payload_Value (Some v))] else []) @ [Send_Returned ok left]))"

definition send_error :: "'e \<Rightarrow> ('a, 'e) oneshot \<Rightarrow> ('a, 'e) oneshot_effect" where
  "send_error err s =
    (case settle Status_Error None (Some err) s of (ok, left, s', owed) \<Rightarrow>
       Some (s', owed, (if ok then [Settled (Payload_Error err)] else []) @ [Send_Returned ok left]))"

definition close_sender :: "('a, 'e) oneshot \<Rightarrow> ('a, 'e) oneshot_effect" where
  "close_sender s =
    (case settle Status_Value None None s of (ok, left, s', owed) \<Rightarrow>
       Some (s', owed, if ok then [Settled (Payload_Value None)] else []))"

definition receiver_detached :: "('a, 'e) oneshot \<Rightarrow> bool" where
  "receiver_detached s \<longleftrightarrow> (if \<not> os_sender s then True else os_detached s)"

definition is_ready :: "('a, 'e) oneshot \<Rightarrow> bool" where
  "is_ready s \<longleftrightarrow> (if \<not> os_receiver s then True else os_settled s)"

definition connect_one :: "('a, 'e) oneshot \<Rightarrow> ('a, 'e) oneshot_effect" where
  "connect_one s =
    Some (s\<lparr>os_receiver := False,
            os_op := Some \<lparr>op_state = os_receiver s, op_stop_requested = False, op_callback = False,
                           op_started = False, op_alive = True, op_signals = []\<rparr>\<rparr>, [], [])"

definition signal_one :: "('a, 'e) oneshot_signal \<Rightarrow> ('a, 'e) oneshot \<Rightarrow> ('a, 'e) oneshot_effect" where
  "signal_one sig s = do {
     op \<leftarrow> live_op s;
     Some (s\<lparr>os_op := Some (op\<lparr>op_callback := False, op_signals := op_signals op @ [sig]\<rparr>)\<rparr>, [], [])
   }"

definition deliver_one :: "bool \<Rightarrow> ('a, 'e) oneshot \<Rightarrow> ('a, 'e) oneshot_effect" where
  "deliver_one is_error s =
    (if is_error
     then do { err \<leftarrow> os_error s; signal_one (Signal_Error err) (s\<lparr>os_value := None, os_error := None\<rparr>) }
     else signal_one (Signal_Value (os_value s)) (s\<lparr>os_value := None, os_error := None\<rparr>))"

definition start_one :: "('a, 'e) oneshot \<Rightarrow> ('a, 'e) oneshot_effect" where
  "start_one s = do {
     op \<leftarrow> live_op s;
     if op_state op
     then Some (s\<lparr>os_op := Some (op\<lparr>op_started := True, op_callback := True\<rparr>)\<rparr>, [Arbitrate_One], [])
     else signal_one (Signal_Value None) (s\<lparr>os_op := Some (op\<lparr>op_started := True\<rparr>)\<rparr>)
   }"

definition arbitrate_one :: "('a, 'e) oneshot \<Rightarrow> ('a, 'e) oneshot_effect" where
  "arbitrate_one s = do {
     op \<leftarrow> live_op s;
     if op_stop_requested op then Some (s, [Signal_One Signal_Stopped], [])
     else if os_settled s then
       (if os_status s = Status_Error
        then do { err \<leftarrow> os_error s; Some (s, [Signal_One (Signal_Error err)], []) }
        else Some (s\<lparr>os_value := None\<rparr>, [Signal_One (Signal_Value (os_value s))], []))
     else Some (s\<lparr>os_waiter := True\<rparr>, [], [])
   }"

definition stop_one :: "('a, 'e) oneshot \<Rightarrow> ('a, 'e) oneshot_effect" where
  "stop_one s = do {
     op \<leftarrow> live_op s;
     let op = op\<lparr>op_callback := False\<rparr>;
     let s = s\<lparr>os_op := Some op\<rparr>;
     if \<not> op_state op then Some (s, [], [])
     else if os_waiter s
     then Some (s\<lparr>os_waiter := False, os_detached := True\<rparr>, [Signal_One Signal_Stopped], [])
     else if \<not> os_settled s then Some (s\<lparr>os_op := Some (op\<lparr>op_stop_requested := True\<rparr>)\<rparr>, [], [])
     else Some (s, [], [])
   }"

definition destroy_one :: "('a, 'e) oneshot \<Rightarrow> ('a, 'e) oneshot_effect" where
  "destroy_one s = do {
     op \<leftarrow> live_op s;
     let s' = s\<lparr>os_op := Some (op\<lparr>op_alive := False, op_callback := False\<rparr>)\<rparr>;
     if op_state op \<and> os_waiter s' then Some (s'\<lparr>os_waiter := False, os_detached := True\<rparr>, [], [])
     else Some (s', [], [])
   }"

fun oneshot_exec :: "(('a, 'e) oneshot, ('a, 'e) oneshot_action, ('a, 'e) oneshot_event) exec" where
  "oneshot_exec (Send_One v) s = send_one v s"
| "oneshot_exec (Send_Error err) s = send_error err s"
| "oneshot_exec Close_Sender s = close_sender s"
| "oneshot_exec Connect_One s = connect_one s"
| "oneshot_exec Start_One s = start_one s"
| "oneshot_exec Arbitrate_One s = arbitrate_one s"
| "oneshot_exec (Deliver_One is_error) s = deliver_one is_error s"
| "oneshot_exec (Signal_One sig) s = signal_one sig s"
| "oneshot_exec Stop_One s = stop_one s"
| "oneshot_exec Destroy_One s = destroy_one s"

text \<open>The environment: the sender at any time, and the protocol of an operation state.\<close>

fun oneshot_callable :: "('a, 'e) oneshot_action \<Rightarrow> ('a, 'e) oneshot \<Rightarrow> bool" where
  "oneshot_callable (Send_One v) s \<longleftrightarrow> True"
| "oneshot_callable (Send_Error err) s \<longleftrightarrow> True"
| "oneshot_callable Close_Sender s \<longleftrightarrow> True"
| "oneshot_callable Connect_One s \<longleftrightarrow> os_op s = None"
| "oneshot_callable Start_One s \<longleftrightarrow> (case live_op s of None \<Rightarrow> False | Some op \<Rightarrow> \<not> op_started op)"
| "oneshot_callable Stop_One s \<longleftrightarrow> (case live_op s of None \<Rightarrow> False | Some op \<Rightarrow> op_callback op)"
| "oneshot_callable Destroy_One s \<longleftrightarrow>
     (case live_op s of None \<Rightarrow> False
      | Some op \<Rightarrow> \<not> op_started op \<or> os_waiter s \<or> op_signals op \<noteq> [])"
| "oneshot_callable _ s \<longleftrightarrow> False"

section \<open>The log\<close>

definition settled_with :: "('a, 'e) oneshot_event list \<Rightarrow> ('a, 'e) payload list" where
  "settled_with es = concat (map (\<lambda>e. case e of Settled p \<Rightarrow> [p] | _ \<Rightarrow> []) es)"

lemma settled_with_simps [simp]:
  "settled_with [] = []"
  "settled_with (Settled p # es) = p # settled_with es"
  "settled_with (Send_Returned ok left # es) = settled_with es"
  "settled_with (es @ fs) = settled_with es @ settled_with fs"
  by (simp_all add: settled_with_def)

fun delivers :: "('a, 'e) payload \<Rightarrow> ('a, 'e) oneshot_signal" where
  "delivers (Payload_Value v) = Signal_Value v"
| "delivers (Payload_Error err) = Signal_Error err"

section \<open>The invariant\<close>

text \<open>
  The payload rests in the state from the settling to its delivery; the operation is not started,
  arbitrating, parked, abandoned, owed one signal, or done.
\<close>

definition holds_payload :: "('a, 'e) oneshot \<Rightarrow> ('a, 'e) payload list \<Rightarrow> bool" where
  "holds_payload s ps \<longleftrightarrow>
     (case os_status s of
        Status_Empty \<Rightarrow> False
      | Status_Value \<Rightarrow> ps = [Payload_Value (os_value s)]
      | Status_Error \<Rightarrow> (\<exists>err. os_error s = Some err \<and> ps = [Payload_Error err]))"

definition signal_fits :: "('a, 'e) oneshot_signal \<Rightarrow> ('a, 'e) payload list \<Rightarrow> bool" where
  "signal_fits sig ps \<longleftrightarrow> sig = Signal_Stopped \<or> map delivers ps = [sig]"

text \<open>A receiver is stopped either before it parks, which it is told of by a flag, or out of its wait, which
  detaches it from the channel.\<close>

definition stop_known :: "('a, 'e) oneshot \<Rightarrow> ('a, 'e) oneshot_op \<Rightarrow> ('a, 'e) oneshot_signal \<Rightarrow> bool" where
  "stop_known s op sig \<longleftrightarrow> (sig = Signal_Stopped \<longrightarrow> os_detached s \<or> op_stop_requested op)"

lemma stop_known_delivers [simp]: "stop_known s op (delivers p)"
  by (cases p) (simp_all add: stop_known_def)

definition op_phase :: "('a, 'e) oneshot \<Rightarrow> ('a, 'e) oneshot_action multiset \<Rightarrow>
    ('a, 'e) payload list \<Rightarrow> ('a, 'e) oneshot_op \<Rightarrow> bool" where
  "op_phase s M ps op \<longleftrightarrow>
     \<not> op_started op \<and> op_signals op = [] \<and> M = {#} \<and> \<not> op_callback op \<and> \<not> os_waiter s \<and>
       (os_settled s \<longrightarrow> holds_payload s ps) \<and> \<not> os_detached s
   \<or> op_started op \<and> op_alive op \<and> op_signals op = [] \<and> M = {#Arbitrate_One#} \<and>
       \<not> os_waiter s \<and> (os_settled s \<longrightarrow> holds_payload s ps) \<and> \<not> os_detached s
   \<or> op_started op \<and> op_alive op \<and> op_signals op = [] \<and> M = {#} \<and> os_waiter s \<and>
       \<not> os_settled s \<and> \<not> os_detached s
   \<or> op_started op \<and> \<not> op_alive op \<and> op_signals op = [] \<and> M = {#} \<and> \<not> os_waiter s \<and> os_detached s
   \<or> op_started op \<and> op_alive op \<and> op_signals op = [] \<and>
       M = {#Deliver_One (os_status s = Status_Error)#} \<and> \<not> os_waiter s \<and> holds_payload s ps
   \<or> op_started op \<and> op_alive op \<and> op_signals op = [] \<and> \<not> os_waiter s \<and>
       (\<exists>sig. M = {#Signal_One sig#} \<and> signal_fits sig ps \<and> stop_known s op sig)
   \<or> op_started op \<and> \<not> op_callback op \<and> M = {#} \<and> \<not> os_waiter s \<and>
       (\<exists>sig. op_signals op = [sig] \<and> signal_fits sig ps \<and> stop_known s op sig)"

definition settled_ok :: "('a, 'e) oneshot \<Rightarrow> ('a, 'e) payload list \<Rightarrow> bool" where
  "settled_ok s ps \<longleftrightarrow> (os_settled s \<longleftrightarrow> os_status s \<noteq> Status_Empty) \<and>
     (if os_settled s then length ps = 1 \<and> \<not> os_sender s \<and> \<not> os_detached s else ps = [] \<and> os_sender s)"

definition oneshot_inv :: "('a, 'e) oneshot \<Rightarrow> ('a, 'e) oneshot_action multiset \<Rightarrow>
    ('a, 'e) oneshot_event list \<Rightarrow> bool" where
  "oneshot_inv s M es \<longleftrightarrow> settled_ok s (settled_with es) \<and>
     (case os_op s of
        None \<Rightarrow> M = {#} \<and> os_receiver s \<and> \<not> os_waiter s \<and> \<not> os_detached s \<and>
          (os_settled s \<longrightarrow> holds_payload s (settled_with es))
      | Some op \<Rightarrow> op_state op \<and> op_phase s M (settled_with es) op)"

definition oneshot_ok :: "('a, 'e) oneshot_action multiset \<Rightarrow> ('a, 'e) oneshot_event list \<Rightarrow>
    ('a, 'e) oneshot_effect \<Rightarrow> bool" where
  "oneshot_ok M es eff \<longleftrightarrow>
    (\<exists>s' owed es'. eff = Some (s', owed, es') \<and> oneshot_inv s' (M + mset owed) (es @ es'))"

lemma oneshot_inv_init: "oneshot_inv oneshot_channel {#} []"
  by (simp add: oneshot_inv_def settled_ok_def oneshot_channel_def)

lemma live_op_Some: "live_op s = Some op \<longleftrightarrow> os_op s = Some op \<and> op_alive op"
  by (auto simp: live_op_def split: option.split)

lemma oneshot_inv_log: "settled_with es = settled_with fs \<Longrightarrow> oneshot_inv s M es = oneshot_inv s M fs"
  by (cases "os_op s") (simp_all add: oneshot_inv_def)

lemma holds_payload_Nil [simp]: "\<not> holds_payload s []"
  by (simp add: holds_payload_def split: status.split)

lemma holds_payload_frame [simp]:
  "holds_payload (s\<lparr>os_op := x\<rparr>) ps = holds_payload s ps"
  "holds_payload (s\<lparr>os_waiter := b\<rparr>) ps = holds_payload s ps"
  "holds_payload (s\<lparr>os_detached := b\<rparr>) ps = holds_payload s ps"
  "holds_payload (s\<lparr>os_receiver := b\<rparr>) ps = holds_payload s ps"
  by (cases "os_status s"; simp add: holds_payload_def)+

lemma settled_ok_frame [simp]:
  "settled_ok (s\<lparr>os_op := x\<rparr>) ps = settled_ok s ps"
  "settled_ok (s\<lparr>os_receiver := b\<rparr>) ps = settled_ok s ps"
  by (simp_all add: settled_ok_def)

lemma settle_ok:
  assumes inv: "oneshot_inv s M es"
    and what: "status = Status_Value \<and> p = Payload_Value v \<or>
      (\<exists>err'. status = Status_Error \<and> err = Some err' \<and> p = Payload_Error err')"
  shows "settle status v err s = (False, v, s, []) \<or>
    (\<exists>s' owed. settle status v err s = (True, None, s', owed) \<and>
       oneshot_inv s' (M + mset owed) (es @ [Settled p]))"
proof (cases "os_sender s \<and> \<not> os_detached s \<and> \<not> os_settled s")
  case True
  let ?s = "s\<lparr>os_status := status, os_value := v, os_error := err, os_settled := True,
        os_waiter := False, os_sender := False\<rparr>"
  let ?owed = "if os_waiter s then [Deliver_One (status = Status_Error)] else []"
  have empty: "settled_with es = []" "os_status s = Status_Empty"
    using inv True by (auto simp: oneshot_inv_def settled_ok_def)
  have held: "holds_payload ?s [p]" and status: "status \<noteq> Status_Empty"
    using what by (auto simp: holds_payload_def)
  have "settle status v err s = (True, None, ?s, ?owed)"
    using True empty(2) by (simp add: settle_def)
  moreover have "oneshot_inv ?s (M + mset ?owed) (es @ [Settled p])"
  proof (cases "os_op s")
    case None
    then show ?thesis using inv empty held status True by (simp add: oneshot_inv_def settled_ok_def)
  next
    case (Some op)
    then have "op_phase s M [] op" "op_state op" using inv empty by (simp_all add: oneshot_inv_def)
    then have "op_phase ?s (M + mset ?owed) [p] op"
      unfolding op_phase_def using held True by (elim disjE) (auto simp: signal_fits_def stop_known_def)
    then show ?thesis
      using Some \<open>op_state op\<close> empty True status by (simp add: oneshot_inv_def settled_ok_def)
  qed
  ultimately show ?thesis by blast
next
  case False
  then show ?thesis using inv by (auto simp: settle_def oneshot_inv_def settled_ok_def)
qed

lemma send_one_ok: "oneshot_inv s M es \<Longrightarrow> oneshot_ok M es (send_one v s)"
  using settle_ok [of s M es Status_Value "Payload_Value (Some v)" "Some v" None]
  by (auto simp: send_one_def oneshot_ok_def oneshot_inv_log [of "es @ [a, Send_Returned b c]" "es @ [a]" for a b c]
        oneshot_inv_log [of "es @ [Send_Returned b c]" es for b c])

lemma send_error_ok: "oneshot_inv s M es \<Longrightarrow> oneshot_ok M es (send_error err s)"
  using settle_ok [of s M es Status_Error "Payload_Error err" None "Some err"]
  by (auto simp: send_error_def oneshot_ok_def oneshot_inv_log [of "es @ [a, Send_Returned b c]" "es @ [a]" for a b c]
        oneshot_inv_log [of "es @ [Send_Returned b c]" es for b c])

lemma close_sender_ok: "oneshot_inv s M es \<Longrightarrow> oneshot_ok M es (close_sender s)"
  using settle_ok [of s M es Status_Value "Payload_Value None" None None]
  by (auto simp: close_sender_def oneshot_ok_def)

lemma op_phase_doneI:
  "op_started op \<Longrightarrow> \<not> op_callback op \<Longrightarrow> \<not> os_waiter s \<Longrightarrow> op_signals op = [sig] \<Longrightarrow> signal_fits sig ps \<Longrightarrow>
   stop_known s op sig \<Longrightarrow> op_phase s {#} ps op"
  by (simp add: op_phase_def)

lemma op_phase_owedI:
  "op_started op \<Longrightarrow> op_alive op \<Longrightarrow> op_signals op = [] \<Longrightarrow> \<not> os_waiter s \<Longrightarrow> signal_fits sig ps \<Longrightarrow>
   stop_known s op sig \<Longrightarrow> op_phase s {#Signal_One sig#} ps op"
  by (simp add: op_phase_def)

lemma payload_fits: "holds_payload s ps \<Longrightarrow> signal_fits (delivers (hd ps)) ps"
  by (auto simp: holds_payload_def signal_fits_def split: status.splits)

text \<open>An action on the operation alone.\<close>

lemma op_step_ok:
  assumes "oneshot_inv s M0 es" "os_op s = Some op"
    and "eff = Some (s'\<lparr>os_op := Some op'\<rparr>, owed, [])" "op_state op' = op_state op"
    and "settled_ok s (settled_with es) \<Longrightarrow> settled_ok s' (settled_with es)"
    and "op_phase s M0 (settled_with es) op \<Longrightarrow>
           op_phase (s'\<lparr>os_op := Some op'\<rparr>) (M + mset owed) (settled_with es) op'"
  shows "oneshot_ok M es eff"
  using assms by (simp add: oneshot_ok_def oneshot_inv_def)

lemma connect_one_ok:
  assumes "oneshot_inv s M es" "os_op s = None"
  shows "oneshot_ok M es (connect_one s)"
  using assms
  by (auto simp: connect_one_def oneshot_ok_def oneshot_inv_def op_phase_def)

lemma pending_one:
  assumes "oneshot_inv s (add_mset a M) es"
  obtains op where "os_op s = Some op" "op_alive op" "op_started op" "op_signals op = []" "M = {#}"
    "op_phase s {#a#} (settled_with es) op"
  using assms by (cases "os_op s") (auto simp: oneshot_inv_def op_phase_def)

lemma signal_one_ok:
  assumes "oneshot_inv s (add_mset (Signal_One sig) M) es"
  shows "oneshot_ok M es (signal_one sig s)"
proof -
  obtain op where op: "os_op s = Some op" "op_alive op" "op_signals op = []" "op_started op" "M = {#}"
    by (rule pending_one [OF assms])
  let ?op = "op\<lparr>op_callback := False, op_signals := op_signals op @ [sig]\<rparr>"
  show ?thesis
    by (rule op_step_ok [OF assms op(1), where s' = s and op' = ?op and owed = "[]"])
      (use op in \<open>auto simp: signal_one_def live_op_def op_phase_def stop_known_def\<close>)
qed

lemma deliver_one_ok:
  assumes "oneshot_inv s (add_mset (Deliver_One is_error) M) es"
  shows "oneshot_ok M es (deliver_one is_error s)"
proof -
  obtain op where op: "os_op s = Some op" "op_alive op" "op_signals op = []" "op_started op" "M = {#}"
    "op_phase s {#Deliver_One is_error#} (settled_with es) op"
    by (rule pending_one [OF assms])
  have held: "holds_payload s (settled_with es)" "is_error = (os_status s = Status_Error)" "\<not> os_waiter s"
    using op(6) by (simp_all add: op_phase_def)
  define sig where "sig = delivers (hd (settled_with es))"
  let ?s = "s\<lparr>os_value := None, os_error := None\<rparr>"
  let ?op = "op\<lparr>op_callback := False, op_signals := op_signals op @ [sig]\<rparr>"
  show ?thesis
  proof (rule op_step_ok [OF assms op(1), where s' = ?s and op' = ?op and owed = "[]"])
    show "deliver_one is_error s = Some (?s\<lparr>os_op := Some ?op\<rparr>, [], [])"
      using held(1,2) op(1,2)
      by (cases "os_status s") (auto simp: deliver_one_def signal_one_def live_op_def holds_payload_def sig_def)
    show "op_phase (?s\<lparr>os_op := Some ?op\<rparr>) (M + mset []) (settled_with es) ?op"
      using payload_fits [OF held(1)] held(3) op(2-5)
      by (auto intro!: op_phase_doneI [where sig = sig] simp: sig_def)
  qed (simp_all add: settled_ok_def)
qed

lemma start_one_ok:
  assumes "oneshot_inv s M es" "live_op s = Some op" "\<not> op_started op"
  shows "oneshot_ok M es (start_one s)"
proof -
  have op: "os_op s = Some op" "op_alive op" using assms(2) by (simp_all add: live_op_Some)
  then have "op_state op" using assms(1) by (simp add: oneshot_inv_def)
  then show ?thesis
    by (intro op_step_ok [OF assms(1) op(1), where s' = s and owed = "[Arbitrate_One]" and
          op' = "op\<lparr>op_started := True, op_callback := True\<rparr>"])
      (use op assms(2,3) in \<open>auto simp: start_one_def op_phase_def\<close>)
qed

lemma arbitrate_one_ok:
  assumes "oneshot_inv s (add_mset Arbitrate_One M) es"
  shows "oneshot_ok M es (arbitrate_one s)"
proof -
  obtain op where op: "os_op s = Some op" "op_alive op" "op_signals op = []" "op_started op" "M = {#}"
    and phase: "op_phase s {#Arbitrate_One#} (settled_with es) op"
    by (rule pending_one [OF assms])
  have init: "\<not> os_waiter s" "\<not> os_detached s" "os_settled s \<longrightarrow> holds_payload s (settled_with es)"
    using phase by (auto simp: op_phase_def)
  have ready: "op_state op" "settled_ok s (settled_with es)"
    using assms op(1) by (simp_all add: oneshot_inv_def)
  have keep: "s\<lparr>os_op := Some op\<rparr> = s" using op(1) by simp
  show ?thesis
  proof (cases "op_stop_requested op")
    case True
    then show ?thesis
      by (intro op_step_ok [OF assms op(1), where s' = s and owed = "[Signal_One Signal_Stopped]" and op' = op])
        (use op init keep in \<open>auto simp: arbitrate_one_def live_op_def op_phase_def signal_fits_def stop_known_def\<close>)
  next
    case go: False
    show ?thesis
    proof (cases "os_settled s")
      case False
      then show ?thesis
        by (intro op_step_ok [OF assms op(1), where s' = "s\<lparr>os_waiter := True\<rparr>" and owed = "[]" and op' = op])
          (use op init go in \<open>auto simp: arbitrate_one_def live_op_def op_phase_def settled_ok_def\<close>)
    next
      case True
      define sig where "sig = delivers (hd (settled_with es))"
      let ?s = "if os_status s = Status_Error then s else s\<lparr>os_value := None\<rparr>"
      have held: "holds_payload s (settled_with es)" using init True by simp
      show ?thesis
      proof (rule op_step_ok [OF assms op(1), where s' = ?s and owed = "[Signal_One sig]" and op' = op])
        show "arbitrate_one s = Some (?s\<lparr>os_op := Some op\<rparr>, [Signal_One sig], [])"
          using held op(1,2) True go
          by (cases "os_status s") (auto simp: arbitrate_one_def live_op_def holds_payload_def sig_def)
        show "op_phase (?s\<lparr>os_op := Some op\<rparr>) (M + mset [Signal_One sig]) (settled_with es) op"
          using payload_fits [OF held] op init by (auto intro!: op_phase_owedI simp: sig_def)
      qed (auto simp: settled_ok_def)
    qed
  qed
qed

lemma stop_one_ok:
  assumes "oneshot_inv s M es" "live_op s = Some op" "op_callback op"
  shows "oneshot_ok M es (stop_one s)"
proof -
  have op: "os_op s = Some op" "op_alive op" using assms(2) by (simp_all add: live_op_Some)
  have ready: "op_state op" "settled_ok s (settled_with es)" "op_phase s M (settled_with es) op"
    using assms(1) op(1) by (simp_all add: oneshot_inv_def)
  show ?thesis
  proof (cases "os_waiter s")
    case True
    show ?thesis
      by (rule op_step_ok [OF assms(1) op(1), where s' = "s\<lparr>os_waiter := False, os_detached := True\<rparr>" and
            owed = "[Signal_One Signal_Stopped]" and op' = "op\<lparr>op_callback := False\<rparr>"])
        (use True op ready assms(2) in
          \<open>auto simp: stop_one_def op_phase_def signal_fits_def settled_ok_def stop_known_def\<close>)
  next
    case False
    define stopped where "stopped = (\<not> os_settled s \<or> op_stop_requested op)"
    let ?op = "op\<lparr>op_callback := False, op_stop_requested := stopped\<rparr>"
    show ?thesis
    proof (rule op_step_ok [OF assms(1) op(1), where s' = s and owed = "[]" and op' = ?op])
      show "stop_one s = Some (s\<lparr>os_op := Some ?op\<rparr>, [], [])"
        using False assms(2) ready(1) by (cases op) (auto simp: stop_one_def stopped_def Let_def)
      show "op_phase (s\<lparr>os_op := Some ?op\<rparr>) (M + mset []) (settled_with es) ?op"
        using ready(3) assms(3) False by (auto simp: op_phase_def stop_known_def stopped_def)
    qed simp_all
  qed
qed

lemma destroy_one_ok:
  assumes "oneshot_inv s M es" "live_op s = Some op" "\<not> op_started op \<or> os_waiter s \<or> op_signals op \<noteq> []"
  shows "oneshot_ok M es (destroy_one s)"
proof -
  have op: "os_op s = Some op" "op_alive op" using assms(2) by (simp_all add: live_op_Some)
  have ready: "op_state op" "settled_ok s (settled_with es)" "op_phase s M (settled_with es) op"
    using assms(1) op(1) by (simp_all add: oneshot_inv_def)
  let ?s = "if os_waiter s then s\<lparr>os_waiter := False, os_detached := True\<rparr> else s"
  show ?thesis
    by (rule op_step_ok [OF assms(1) op(1), where s' = ?s and owed = "[]" and
          op' = "op\<lparr>op_alive := False, op_callback := False\<rparr>"])
      (use op ready assms(2,3) in
        \<open>auto simp: destroy_one_def op_phase_def settled_ok_def stop_known_def\<close>)
qed

lemma oneshot_call_ok:
  assumes "oneshot_inv s M es" "oneshot_callable a s"
  shows "oneshot_ok M es (oneshot_exec a s)"
  using assms
  by (cases a)
    (auto split: option.splits intro: send_one_ok send_error_ok close_sender_ok connect_one_ok start_one_ok
       stop_one_ok destroy_one_ok)

lemma oneshot_run_ok:
  assumes "oneshot_inv s (add_mset a M) es"
  shows "oneshot_ok M es (oneshot_exec a s)"
proof -
  obtain op where "op_phase s {#a#} (settled_with es) op" by (rule pending_one [OF assms])
  then have "a = Arbitrate_One \<or> (\<exists>is_error. a = Deliver_One is_error) \<or> (\<exists>sig. a = Signal_One sig)"
    by (auto simp: op_phase_def)
  then show ?thesis using assms by (auto intro: arbitrate_one_ok deliver_one_ok signal_one_ok)
qed

text \<open>An arbitration may park the operation or owe it a signal; a parked one will be owed a signal.\<close>

definition oneshot_backlog :: "('a, 'e) oneshot \<Rightarrow> ('a, 'e) oneshot_action multiset \<Rightarrow> nat" where
  "oneshot_backlog s M = sum_mset (image_mset (\<lambda>a. case a of Arbitrate_One \<Rightarrow> 2 | _ \<Rightarrow> 1) M)"

lemma oneshot_drains:
  assumes "oneshot_inv s (add_mset a M) es" "oneshot_exec a s = Some (s', owed, es')"
  shows "oneshot_backlog s' (M + mset owed) < oneshot_backlog s (add_mset a M)"
proof -
  obtain op where op: "op_phase s {#a#} (settled_with es) op" "M = {#}" by (rule pending_one [OF assms(1)])
  then have "a = Arbitrate_One \<or> (\<exists>is_error. a = Deliver_One is_error) \<or> (\<exists>sig. a = Signal_One sig)"
    by (auto simp: op_phase_def)
  then show ?thesis
    using assms(2) op(2)
    by (auto simp: oneshot_backlog_def arbitrate_one_def deliver_one_def signal_one_def bind_eq_Some_conv
          split: if_splits)
qed

interpretation oneshot: draining oneshot_exec oneshot_callable oneshot_channel oneshot_inv oneshot_backlog
  by unfold_locales
    (use oneshot_inv_init oneshot_call_ok oneshot_run_ok oneshot_drains in \<open>auto simp: oneshot_ok_def\<close>)

section \<open>What holds of the channel\<close>

text \<open>C24: Under every interleaving of the sender, the receiving operation, its cancellation and its
  destruction, the channel is settled at most once and the receiver is told at most once, either that it
  was stopped or exactly what the channel was settled with; no destroyed operation state is touched.\<close>
theorem oneshot_exactly_once:
  assumes "reaches oneshot_exec oneshot_callable oneshot_channel (s, T) es"
  shows "length (settled_with es) \<le> 1 \<and>
    (\<forall>op. os_op s = Some op \<longrightarrow> length (op_signals op) \<le> 1 \<and>
       (\<forall>sig\<in>set (op_signals op). sig = Signal_Stopped \<or> [sig] = map delivers (settled_with es))) \<and>
    (\<forall>a. a \<in># owed_actions T \<or> oneshot_callable a s \<longrightarrow> oneshot_exec a s \<noteq> None)"
proof -
  have inv: "oneshot_inv s (owed_actions T) es" by (rule oneshot.inv_reachable [OF assms])
  then have "length (settled_with es) \<le> 1"
    by (auto simp: oneshot_inv_def settled_ok_def split: if_splits)
  moreover have "length (op_signals op) \<le> 1 \<and>
      (\<forall>sig\<in>set (op_signals op). sig = Signal_Stopped \<or> [sig] = map delivers (settled_with es))"
    if "os_op s = Some op" for op
  proof -
    have "op_phase s (owed_actions T) (settled_with es) op" using inv that by (simp add: oneshot_inv_def)
    then show ?thesis unfolding op_phase_def by (elim disjE) (auto simp: signal_fits_def)
  qed
  ultimately show ?thesis
    using oneshot.owed_defined [OF assms] oneshot.call_defined [OF assms] by blast
qed

text \<open>C25: No value is lost to a receiver that waits.  Once nothing is owed, a started operation has been told how
  the channel was settled, or it is parked on a channel that is not settled, or it was stopped or destroyed; a
  value can then be left in the channel only when the stop came before the operation was parked.  From the moment
  a parked operation is stopped or destroyed, before its completion even runs, the sender learns it: every send
  fails, leaves the value with the caller, and changes nothing.\<close>
theorem oneshot_no_value_lost:
  assumes "reaches oneshot_exec oneshot_callable oneshot_channel (s, T) es" "os_op s = Some op" "op_started op"
  shows "(owed_actions T = {#} \<longrightarrow>
       (if op_signals op = [] then settled_with es = [] \<and> (if op_alive op then os_waiter s else True)
        else op_signals op = map delivers (settled_with es) \<or>
          op_signals op = [Signal_Stopped] \<and> (op_stop_requested op \<or> settled_with es = []))) \<and>
    (\<not> op_alive op \<and> op_signals op = [] \<or>
       \<not> op_stop_requested op \<and> (Signal_Stopped \<in> set (op_signals op) \<or> Signal_One Signal_Stopped \<in># owed_actions T) \<longrightarrow>
       send_one v s = Some (s, [], [Send_Returned False (Some v)]) \<and>
       send_error err s = Some (s, [], [Send_Returned False None]) \<and> settled_with es = [])"
proof -
  have inv: "oneshot_inv s (owed_actions T) es" by (rule oneshot.inv_reachable [OF assms(1)])
  have op: "op_phase s (owed_actions T) (settled_with es) op" "settled_ok s (settled_with es)"
    using inv assms(2) by (simp_all add: oneshot_inv_def)
  have detached: "send_one v s = Some (s, [], [Send_Returned False (Some v)]) \<and>
      send_error err s = Some (s, [], [Send_Returned False None]) \<and> settled_with es = []" if "os_detached s"
    using op(2) that by (auto simp: send_one_def send_error_def settle_def settled_ok_def split: if_splits)
  have "if op_signals op = [] then settled_with es = [] \<and> (if op_alive op then os_waiter s else True)
        else op_signals op = map delivers (settled_with es) \<or>
          op_signals op = [Signal_Stopped] \<and> (op_stop_requested op \<or> settled_with es = [])"
    if "owed_actions T = {#}"
    using op(1) unfolding op_phase_def
    by (elim disjE) (use that assms(3) op(2) detached in \<open>auto simp: signal_fits_def settled_ok_def stop_known_def\<close>)
  moreover have "os_detached s"
    if "\<not> op_alive op \<and> op_signals op = [] \<or>
       \<not> op_stop_requested op \<and> (Signal_Stopped \<in> set (op_signals op) \<or> Signal_One Signal_Stopped \<in># owed_actions T)"
    using op(1) unfolding op_phase_def
    by (elim disjE) (use that assms(3) in \<open>auto simp: stop_known_def\<close>)
  ultimately show ?thesis using detached by blast
qed

text \<open>The receiver parks and the sender sends; and a receiver is stopped before the send.\<close>

definition oneshot_demo :: "(nat, nat) oneshot_action choice list" where
  "oneshot_demo = [Call Connect_One, Call Start_One, Run 1, Call (Send_One 7), Run 2]"

definition oneshot_stopped :: "(nat, nat) oneshot_action choice list" where
  "oneshot_stopped = [Call Connect_One, Call Start_One, Run 1, Call Stop_One, Run 2]"

definition oneshot_end :: "(nat, nat) oneshot_action choice list \<Rightarrow>
    ((nat, nat) oneshot, (nat, nat) oneshot_action) threads \<times> (nat, nat) oneshot_event list" where
  "oneshot_end xs = the (perform oneshot_exec oneshot_callable xs ((oneshot_channel, []), []))"

lemma oneshot_end_reaches:
  assumes "perform oneshot_exec oneshot_callable xs ((oneshot_channel, []), []) \<noteq> None"
  shows "reaches oneshot_exec oneshot_callable oneshot_channel
    (fst (fst (oneshot_end xs)), snd (fst (oneshot_end xs))) (snd (oneshot_end xs))"
  using assms perform_reaches [of oneshot_exec oneshot_callable xs oneshot_channel]
  by (auto simp: oneshot_end_def)

lemma oneshot_demo_runs:
  "perform oneshot_exec oneshot_callable oneshot_demo ((oneshot_channel, []), []) \<noteq> None"
  "perform oneshot_exec oneshot_callable oneshot_stopped ((oneshot_channel, []), []) \<noteq> None"
  by code_simp+

theorem oneshot_exactly_once_witness:
  "\<exists>op. os_op (fst (fst (oneshot_end oneshot_demo))) = Some op \<and>
     op_signals op = map delivers (settled_with (snd (oneshot_end oneshot_demo))) \<and>
     settled_with (snd (oneshot_end oneshot_demo)) = [Payload_Value (Some 7)]"
proof -
  have "map_option op_signals (os_op (fst (fst (oneshot_end oneshot_demo)))) = Some [Signal_Value (Some 7)]"
    by code_simp
  then obtain op where op: "os_op (fst (fst (oneshot_end oneshot_demo))) = Some op"
    "op_signals op = [Signal_Value (Some 7)]" by auto
  have "settled_with (snd (oneshot_end oneshot_demo)) = [Payload_Value (Some 7)]" by code_simp
  then show ?thesis
    using oneshot_exactly_once [OF oneshot_end_reaches [OF oneshot_demo_runs(1)]] op by auto
qed

theorem oneshot_no_value_lost_witness:
  "send_one 9 (fst (fst (oneshot_end oneshot_stopped))) =
     Some (fst (fst (oneshot_end oneshot_stopped)), [], [Send_Returned False (Some 9)])"
proof -
  have "map_option (\<lambda>op. (op_started op, op_signals op, op_stop_requested op))
      (os_op (fst (fst (oneshot_end oneshot_stopped)))) = Some (True, [Signal_Stopped], False)"
    by code_simp
  then obtain op where "os_op (fst (fst (oneshot_end oneshot_stopped))) = Some op" "op_started op"
    "op_signals op = [Signal_Stopped]" "\<not> op_stop_requested op" by auto
  then show ?thesis
    using oneshot_no_value_lost [OF oneshot_end_reaches [OF oneshot_demo_runs(2)], of op 9 0] by simp
qed

text \<open>The exception is real: a receiver that is stopped after its start and before its arbitration is told so,
  but the channel is not detached, and a later send succeeds although nobody will take the value.\<close>

definition oneshot_stopped_early :: "(nat, nat) oneshot_action choice list" where
  "oneshot_stopped_early = [Call Connect_One, Call Start_One, Call Stop_One, Run 1, Run 1, Call (Send_One 7)]"

lemma oneshot_early_stop:
  "case perform oneshot_exec oneshot_callable oneshot_stopped_early ((oneshot_channel, []), []) of
     None \<Rightarrow> False
   | Some ((s, T), es) \<Rightarrow> es = [Settled (Payload_Value (Some 7)), Send_Returned True None] \<and> concat T = [] \<and>
       map_option op_signals (os_op s) = Some [Signal_Stopped]"
  by code_simp

end
