(* ===== verification/Broadcast_Channel.thy ===== *)
theory Broadcast_Channel
  imports Interleaving Wait_List
begin

text \<open>
  \<^verbatim>\<open>src/include/clash_native/async/broadcast.hpp\<close>: the channel in which every receiver sees every value
  through a cursor of its own, over a bounded buffer that forgets its oldest values.  Receivers and
  operation states are numbered; critical sections and owed completions are as in \<open>Mpsc_Channel\<close>.
  Sequence numbers (\<^verbatim>\<open>uint64_t\<close>) count the values ever sent and are natural numbers here.
\<close>

section \<open>State\<close>

datatype bc_stage = BcInit | BcQueued | BcDone | BcStopped | BcGone

datatype bc_outcome = BcValue | BcLagged | BcClosed

datatype 'a bc_signal =
    Bc_Value "'a option"
  | Bc_Lagged nat  \<comment> \<open>\<^verbatim>\<open>set_error(broadcast_lagged(skipped))\<close>\<close>
  | Bc_Violation
  | Bc_Stopped

record 'a bc_op =
  bo_stage :: bc_stage
  bo_attached :: bool  \<comment> \<open>\<^verbatim>\<open>state_\<close> and \<^verbatim>\<open>cursor_\<close> are not null\<close>
  bo_receiver :: nat  \<comment> \<open>whose cursor \<^verbatim>\<open>cursor_\<close> points at\<close>
  bo_pos :: nat
  bo_outcome :: bc_outcome
  bo_held :: "'a option"
  bo_lagged :: nat
  bo_stop_requested :: bool
  bo_callback :: bool
  bo_started :: bool
  bo_alive :: bool
  bo_signals :: "'a bc_signal list"

record bc_receiver =
  br_state :: bool  \<comment> \<open>\<^verbatim>\<open>state_\<close> is not null\<close>
  br_pos :: nat
  br_alive :: bool
  br_start :: nat  \<comment> \<open>the cursor it was created with (a record of the model)\<close>

record 'a bc_state =
  bc_buffer :: "'a list"
  bc_capacity :: nat
  bc_base :: nat
  bc_waiters :: wait_list
  bc_senders :: nat
  bc_receiver_count :: nat
  bc_closed :: bool
  bc_ops :: "nat \<Rightarrow> 'a bc_op option"
  bc_connected :: "nat list"  \<comment> \<open>the numbers of all operations (a record of the model)\<close>
  bc_receivers :: "nat \<Rightarrow> bc_receiver option"

datatype 'a bc_gain = Gain 'a | Skip nat

text \<open>Logged: a value sent; what the cursor of a receiver moved over, for which operation if any.\<close>

datatype 'a bc_event =
    Sent 'a
  | Got nat "nat option" "'a bc_gain"
  | Bc_Send_Result 'a bool
  | Bc_Try_Result nat "'a option"
  | Bc_Try_Lagged nat nat

datatype 'a bc_action =
    Bc_Send 'a
  | Bc_Close
  | Bc_Copy_Sender
  | Bc_Release_Sender
  | Bc_Subscribe nat
  | Bc_Close_Receiver nat
  | Bc_Destroy_Receiver nat
  | Bc_Try_Recv nat
  | Bc_Connect nat nat
  | Bc_Start nat
  | Bc_Arbitrate nat
  | Bc_Complete nat
  | Bc_Signal nat "'a bc_signal"
  | Bc_Stop nat
  | Bc_Destroy nat

type_synonym 'a bc_effect = "('a bc_state \<times> 'a bc_action list \<times> 'a bc_event list) option"

definition bc_next_seq :: "'a bc_state \<Rightarrow> nat" where
  "bc_next_seq s = bc_base s + length (bc_buffer s)"

text \<open>\<^verbatim>\<open>channel(capacity)\<close> throws for capacity 0; the receiver it returns is number 0.\<close>

definition new_receiver :: "nat \<Rightarrow> bc_receiver" where
  "new_receiver pos = \<lparr>br_state = True, br_pos = pos, br_alive = True, br_start = pos\<rparr>"

definition broadcast_channel :: "nat \<Rightarrow> 'a bc_state option" where
  "broadcast_channel cap =
    (if cap = 0 then None
     else Some \<lparr>bc_buffer = [], bc_capacity = cap, bc_base = 0, bc_waiters = empty_wait, bc_senders = 1,
       bc_receiver_count = 1, bc_closed = False, bc_ops = (\<lambda>_. None), bc_connected = [],
       bc_receivers = [0 \<mapsto> new_receiver 0]\<rparr>)"

section \<open>Nodes and cursors\<close>

definition bc_live :: "'a bc_state \<Rightarrow> nat \<Rightarrow> 'a bc_op option" where
  "bc_live s n = (case bc_ops s n of None \<Rightarrow> None | Some op \<Rightarrow> if bo_alive op then Some op else None)"

definition bc_live_receiver :: "'a bc_state \<Rightarrow> nat \<Rightarrow> bc_receiver option" where
  "bc_live_receiver s r =
    (case bc_receivers s r of None \<Rightarrow> None | Some rc \<Rightarrow> if br_alive rc then Some rc else None)"

definition bc_put :: "nat \<Rightarrow> 'a bc_op \<Rightarrow> 'a bc_state \<Rightarrow> 'a bc_state" where
  "bc_put n op s = s\<lparr>bc_ops := (bc_ops s)(n \<mapsto> op)\<rparr>"

text \<open>\<^verbatim>\<open>*cursor = pos\<close>: undefined when the receiver is gone.\<close>

definition write_cursor :: "nat \<Rightarrow> nat \<Rightarrow> 'a bc_state \<Rightarrow> 'a bc_state option" where
  "write_cursor r pos s = do {
     rc \<leftarrow> bc_live_receiver s r;
     Some (s\<lparr>bc_receivers := (bc_receivers s)(r \<mapsto> rc\<lparr>br_pos := pos\<rparr>)\<rparr>)
   }"

text \<open>\<^verbatim>\<open>State::resolve\<close>.  The index is the one the code computes; out of range it is undefined.\<close>

definition resolve :: "nat \<Rightarrow> 'a bc_state \<Rightarrow> ('a bc_state \<times> 'a bc_event list) option" where
  "resolve n s = do {
     op \<leftarrow> bc_live s n;
     if bc_closed s
     then Some (bc_put n (op\<lparr>bo_stage := BcDone, bo_outcome := BcClosed\<rparr>) s, [])
     else if bo_pos op < bc_base s
     then do {
       let lagged = bc_base s - bo_pos op;
       s' \<leftarrow> write_cursor (bo_receiver op) (bc_base s)
              (bc_put n (op\<lparr>bo_stage := BcDone, bo_outcome := BcLagged, bo_lagged := lagged,
                           bo_pos := bc_base s\<rparr>) s);
       Some (s', [Got (bo_receiver op) (Some n) (Skip lagged)])
     }
     else if bo_pos op - bc_base s < length (bc_buffer s)
     then do {
       let v = bc_buffer s ! (bo_pos op - bc_base s);
       s' \<leftarrow> write_cursor (bo_receiver op) (bo_pos op + 1)
              (bc_put n (op\<lparr>bo_stage := BcDone, bo_outcome := BcValue, bo_held := Some v,
                           bo_pos := bo_pos op + 1\<rparr>) s);
       Some (s', [Got (bo_receiver op) (Some n) (Gain v)])
     }
     else None
   }"

text \<open>
  The loop that wakes every parked receive: unlink, resolve, and remember it for its completion.  The next
  pointer is read before the node is unlinked, and no later link changes, so the walk comes first.
\<close>

fun wake_nodes :: "nat list \<Rightarrow> 'a bc_state \<Rightarrow> ('a bc_state \<times> 'a bc_event list) option" where
  "wake_nodes [] s = Some (s, [])"
| "wake_nodes (n # ns) s = do {
     (s1, es1) \<leftarrow> resolve n (s\<lparr>bc_waiters := unlink_node n (bc_waiters s)\<rparr>);
     (s2, es2) \<leftarrow> wake_nodes ns s1;
     Some (s2, es1 @ es2)
   }"

section \<open>Senders\<close>

fun evict :: "'a list \<Rightarrow> nat \<Rightarrow> nat \<Rightarrow> 'a list \<times> nat" where
  "evict [] cap base = ([], base)"
| "evict (v # vs) cap base =
     (if length (v # vs) > cap then evict vs cap (base + 1) else (v # vs, base))"

definition bc_try_send :: "'a \<Rightarrow> 'a bc_state \<Rightarrow> 'a bc_effect" where
  "bc_try_send v s =
    (if bc_closed s then Some (s, [], [Bc_Send_Result v False])
     else if bc_receiver_count s = 0 then Some (s, [], [Bc_Send_Result v False])
     else do {
       let (buffer, base) = evict (bc_buffer s @ [v]) (bc_capacity s) (bc_base s);
       woken \<leftarrow> wait_members (bc_waiters s);
       (s', es) \<leftarrow> wake_nodes woken (s\<lparr>bc_buffer := buffer, bc_base := base\<rparr>);
       Some (s', map Bc_Complete woken, Sent v # es @ [Bc_Send_Result v True])
     })"

fun close_nodes :: "nat list \<Rightarrow> 'a bc_state \<Rightarrow> 'a bc_state option" where
  "close_nodes [] s = Some s"
| "close_nodes (n # ns) s = do {
     op \<leftarrow> bc_live s n;
     close_nodes ns (bc_put n (op\<lparr>bo_stage := BcDone, bo_outcome := BcClosed\<rparr>)
       (s\<lparr>bc_waiters := unlink_node n (bc_waiters s)\<rparr>))
   }"

definition bc_close :: "'a bc_state \<Rightarrow> 'a bc_effect" where
  "bc_close s =
    (if bc_closed s then Some (s, [], [])
     else do {
       woken \<leftarrow> wait_members (bc_waiters s);
       s' \<leftarrow> close_nodes woken (s\<lparr>bc_closed := True\<rparr>);
       Some (s', map Bc_Complete woken, [])
     })"

definition bc_copy_sender :: "'a bc_state \<Rightarrow> 'a bc_effect" where
  "bc_copy_sender s = Some (s\<lparr>bc_senders := bc_senders s + 1\<rparr>, [], [])"

definition bc_release_sender :: "'a bc_state \<Rightarrow> 'a bc_effect" where
  "bc_release_sender s =
    Some (s\<lparr>bc_senders := bc_senders s - 1\<rparr>, (if bc_senders s = 1 then [Bc_Close] else []), [])"

definition bc_len :: "'a bc_state \<Rightarrow> nat" where "bc_len s = length (bc_buffer s)"

section \<open>Receivers\<close>

definition bc_subscribe :: "nat \<Rightarrow> 'a bc_state \<Rightarrow> 'a bc_effect" where
  "bc_subscribe r s =
    Some (s\<lparr>bc_receivers := (bc_receivers s)(r \<mapsto> new_receiver (bc_next_seq s)),
            bc_receiver_count := bc_receiver_count s + 1\<rparr>, [], [])"

definition release_receiver :: "bool \<Rightarrow> nat \<Rightarrow> 'a bc_state \<Rightarrow> 'a bc_effect" where
  "release_receiver destroyed r s = do {
     rc \<leftarrow> bc_live_receiver s r;
     let s' = s\<lparr>bc_receivers := (bc_receivers s)(r \<mapsto> rc\<lparr>br_state := False, br_alive := \<not> destroyed\<rparr>)\<rparr>;
     Some (if br_state rc then s'\<lparr>bc_receiver_count := bc_receiver_count s - 1\<rparr> else s', [], [])
   }"

definition bc_try_recv :: "nat \<Rightarrow> 'a bc_state \<Rightarrow> 'a bc_effect" where
  "bc_try_recv r s = do {
     rc \<leftarrow> bc_live_receiver s r;
     if \<not> br_state rc then Some (s, [], [Bc_Try_Result r None])
     else if br_pos rc < bc_base s
     then do {
       let skipped = bc_base s - br_pos rc;
       s' \<leftarrow> write_cursor r (bc_base s) s;
       Some (s', [], [Got r None (Skip skipped), Bc_Try_Lagged r skipped])
     }
     else if br_pos rc < bc_next_seq s
     then do {
       let v = bc_buffer s ! (br_pos rc - bc_base s);
       s' \<leftarrow> write_cursor r (br_pos rc + 1) s;
       Some (s', [], [Got r None (Gain v), Bc_Try_Result r (Some v)])
     }
     else Some (s, [], [Bc_Try_Result r None])
   }"

definition available :: "bc_receiver \<Rightarrow> 'a bc_state \<Rightarrow> nat" where
  "available rc s =
    (if \<not> br_state rc then 0
     else let base = (if br_pos rc < bc_base s then bc_base s else br_pos rc)
          in if base \<ge> bc_next_seq s then 0 else bc_next_seq s - base)"

section \<open>Receive operations\<close>

definition bc_connect :: "nat \<Rightarrow> nat \<Rightarrow> 'a bc_state \<Rightarrow> 'a bc_effect" where
  "bc_connect n r s = do {
     rc \<leftarrow> bc_live_receiver s r;
     Some (bc_put n \<lparr>bo_stage = BcInit, bo_attached = br_state rc, bo_receiver = r, bo_pos = 0,
             bo_outcome = BcClosed, bo_held = None, bo_lagged = 0, bo_stop_requested = False,
             bo_callback = False, bo_started = False, bo_alive = True, bo_signals = []\<rparr>
             (s\<lparr>bc_connected := n # bc_connected s\<rparr>), [], [])
   }"

definition bc_signal_op :: "nat \<Rightarrow> 'a bc_signal \<Rightarrow> 'a bc_state \<Rightarrow> 'a bc_effect" where
  "bc_signal_op n sig s = do {
     op \<leftarrow> bc_live s n;
     Some (bc_put n (op\<lparr>bo_callback := False, bo_signals := bo_signals op @ [sig]\<rparr>) s, [], [])
   }"

definition outcome_signal :: "'a bc_op \<Rightarrow> 'a bc_signal" where
  "outcome_signal op =
    (case bo_outcome op of
       BcValue \<Rightarrow> Bc_Value (bo_held op)
     | BcLagged \<Rightarrow> Bc_Lagged (bo_lagged op)
     | BcClosed \<Rightarrow> Bc_Value None)"

definition bc_complete :: "nat \<Rightarrow> 'a bc_state \<Rightarrow> 'a bc_effect" where
  "bc_complete n s = do { op \<leftarrow> bc_live s n; bc_signal_op n (outcome_signal op) s }"

definition bc_start :: "nat \<Rightarrow> 'a bc_state \<Rightarrow> 'a bc_effect" where
  "bc_start n s = do {
     op \<leftarrow> bc_live s n;
     if bo_attached op
     then Some (bc_put n (op\<lparr>bo_started := True, bo_callback := True\<rparr>) s, [Bc_Arbitrate n], [])
     else bc_signal_op n (Bc_Value None) (bc_put n (op\<lparr>bo_started := True\<rparr>) s)
   }"

text \<open>Whether another parked receive of the same receiver is in the list.\<close>

fun duplicate_wait :: "nat list \<Rightarrow> nat \<Rightarrow> nat \<Rightarrow> 'a bc_state \<Rightarrow> bool option" where
  "duplicate_wait [] n r s = Some False"
| "duplicate_wait (m # ms) n r s = do {
     op \<leftarrow> bc_live s m;
     if m \<noteq> n \<and> bo_receiver op = r then Some True else duplicate_wait ms n r s
   }"

definition bc_arbitrate :: "nat \<Rightarrow> 'a bc_state \<Rightarrow> 'a bc_effect" where
  "bc_arbitrate n s = do {
     op \<leftarrow> bc_live s n;
     let r = bo_receiver op;
     rc \<leftarrow> bc_live_receiver s r;
     let pos = br_pos rc;
     let op = op\<lparr>bo_pos := pos\<rparr>;
     if bo_stop_requested op then Some (bc_put n op s, [Bc_Signal n Bc_Stopped], [])
     else if pos < bc_base s
     then do {
       let lagged = bc_base s - pos;
       s' \<leftarrow> write_cursor r (bc_base s) (bc_put n (op\<lparr>bo_pos := bc_base s\<rparr>) s);
       Some (s', [Bc_Signal n (Bc_Lagged lagged)], [Got r (Some n) (Skip lagged)])
     }
     else if pos < bc_next_seq s
     then do {
       let v = bc_buffer s ! (pos - bc_base s);
       s' \<leftarrow> write_cursor r (pos + 1) (bc_put n (op\<lparr>bo_pos := pos + 1\<rparr>) s);
       Some (s', [Bc_Signal n (Bc_Value (Some v))], [Got r (Some n) (Gain v)])
     }
     else if bc_closed s then Some (bc_put n op s, [Bc_Signal n (Bc_Value None)], [])
     else do {
       parked \<leftarrow> wait_members (bc_waiters s);
       duplicate \<leftarrow> duplicate_wait parked n r s;
       if duplicate then Some (bc_put n op s, [Bc_Signal n Bc_Violation], [])
       else Some (bc_put n (op\<lparr>bo_stage := BcQueued\<rparr>)
              (s\<lparr>bc_waiters := queue_node n (bc_waiters s)\<rparr>), [], [])
     }
   }"

definition bc_stop :: "nat \<Rightarrow> 'a bc_state \<Rightarrow> 'a bc_effect" where
  "bc_stop n s = do {
     op \<leftarrow> bc_live s n;
     let op = op\<lparr>bo_callback := False\<rparr>;
     if \<not> bo_attached op then Some (bc_put n op s, [], [])
     else if bo_stage op = BcQueued
     then Some (bc_put n (op\<lparr>bo_stage := BcStopped\<rparr>)
                  (s\<lparr>bc_waiters := unlink_node n (bc_waiters s)\<rparr>), [Bc_Signal n Bc_Stopped], [])
     else if bo_stage op = BcInit
     then Some (bc_put n (op\<lparr>bo_stop_requested := True\<rparr>) s, [], [])
     else Some (bc_put n op s, [], [])
   }"

definition bc_destroy :: "nat \<Rightarrow> 'a bc_state \<Rightarrow> 'a bc_effect" where
  "bc_destroy n s = do {
     op \<leftarrow> bc_live s n;
     let op = op\<lparr>bo_alive := False, bo_callback := False\<rparr>;
     if bo_attached op \<and> bo_stage op = BcQueued
     then Some (bc_put n (op\<lparr>bo_stage := BcGone\<rparr>)
                  (s\<lparr>bc_waiters := unlink_node n (bc_waiters s)\<rparr>), [], [])
     else Some (bc_put n op s, [], [])
   }"

section \<open>Actions\<close>

fun bc_exec :: "('a bc_state, 'a bc_action, 'a bc_event) exec" where
  "bc_exec (Bc_Send v) s = bc_try_send v s"
| "bc_exec Bc_Close s = bc_close s"
| "bc_exec Bc_Copy_Sender s = bc_copy_sender s"
| "bc_exec Bc_Release_Sender s = bc_release_sender s"
| "bc_exec (Bc_Subscribe r) s = bc_subscribe r s"
| "bc_exec (Bc_Close_Receiver r) s = release_receiver False r s"
| "bc_exec (Bc_Destroy_Receiver r) s = release_receiver True r s"
| "bc_exec (Bc_Try_Recv r) s = bc_try_recv r s"
| "bc_exec (Bc_Connect n r) s = bc_connect n r s"
| "bc_exec (Bc_Start n) s = bc_start n s"
| "bc_exec (Bc_Arbitrate n) s = bc_arbitrate n s"
| "bc_exec (Bc_Complete n) s = bc_complete n s"
| "bc_exec (Bc_Signal n sig) s = bc_signal_op n sig s"
| "bc_exec (Bc_Stop n) s = bc_stop n s"
| "bc_exec (Bc_Destroy n) s = bc_destroy n s"

text \<open>
  The environment, as in \<open>Mpsc_Channel\<close>; besides, a receiver outlives the operations connected to it.
\<close>

definition uses_receiver :: "'a bc_state \<Rightarrow> nat \<Rightarrow> nat \<Rightarrow> bool" where
  "uses_receiver s r n \<longleftrightarrow> (case bc_live s n of None \<Rightarrow> False | Some op \<Rightarrow> bo_receiver op = r)"

fun bc_callable :: "'a bc_action \<Rightarrow> 'a bc_state \<Rightarrow> bool" where
  "bc_callable (Bc_Send v) s \<longleftrightarrow> True"
| "bc_callable Bc_Close s \<longleftrightarrow> True"
| "bc_callable Bc_Copy_Sender s \<longleftrightarrow> bc_senders s > 0"
| "bc_callable Bc_Release_Sender s \<longleftrightarrow> bc_senders s > 0"
| "bc_callable (Bc_Subscribe r) s \<longleftrightarrow> bc_receivers s r = None"
| "bc_callable (Bc_Close_Receiver r) s \<longleftrightarrow> bc_live_receiver s r \<noteq> None"
| "bc_callable (Bc_Destroy_Receiver r) s \<longleftrightarrow>
     bc_live_receiver s r \<noteq> None \<and> \<not> list_ex (uses_receiver s r) (bc_connected s)"
| "bc_callable (Bc_Try_Recv r) s \<longleftrightarrow> bc_live_receiver s r \<noteq> None"
| "bc_callable (Bc_Connect n r) s \<longleftrightarrow> bc_ops s n = None \<and> bc_live_receiver s r \<noteq> None"
| "bc_callable (Bc_Start n) s \<longleftrightarrow> (case bc_live s n of None \<Rightarrow> False | Some op \<Rightarrow> \<not> bo_started op)"
| "bc_callable (Bc_Stop n) s \<longleftrightarrow> (case bc_live s n of None \<Rightarrow> False | Some op \<Rightarrow> bo_callback op)"
| "bc_callable (Bc_Destroy n) s \<longleftrightarrow>
     (case bc_live s n of None \<Rightarrow> False
      | Some op \<Rightarrow> \<not> bo_started op \<or> bo_stage op = BcQueued \<or> bo_signals op \<noteq> [])"
| "bc_callable _ s \<longleftrightarrow> False"

end
