(* ===== verification/Broadcast_Correct.thy ===== *)
theory Broadcast_Correct
  imports Broadcast_Channel
begin

text \<open>
  The broadcast channel under every interleaving: the buffer holds the last values sent, and every
  receiver's cursor has moved over the values sent since its creation, one by one or in the jumps it was
  told of.
\<close>

section \<open>Reading the log\<close>

definition sent :: "'a bc_event list \<Rightarrow> 'a list" where
  "sent es = concat (map (\<lambda>e. case e of Sent v \<Rightarrow> [v] | _ \<Rightarrow> []) es)"

definition gains :: "nat \<Rightarrow> 'a bc_event list \<Rightarrow> 'a bc_gain list" where
  "gains r es = concat (map (\<lambda>e. case e of Got q who g \<Rightarrow> if q = r then [g] else [] | _ \<Rightarrow> []) es)"

definition got_by :: "nat \<Rightarrow> 'a bc_event list \<Rightarrow> 'a bc_gain list" where
  "got_by n es = concat (map (\<lambda>e. case e of Got q who g \<Rightarrow> if who = Some n then [g] else [] | _ \<Rightarrow> []) es)"

lemma bc_log_simps [simp]:
  "sent [] = []" "gains r [] = []" "got_by n [] = []"
  "sent (e # es) = (case e of Sent v \<Rightarrow> [v] | _ \<Rightarrow> []) @ sent es"
  "gains r (e # es) = (case e of Got q who g \<Rightarrow> if q = r then [g] else [] | _ \<Rightarrow> []) @ gains r es"
  "got_by n (e # es) = (case e of Got q who g \<Rightarrow> if who = Some n then [g] else [] | _ \<Rightarrow> []) @ got_by n es"
  "sent (es @ fs) = sent es @ sent fs"
  "gains r (es @ fs) = gains r es @ gains r fs"
  "got_by n (es @ fs) = got_by n es @ got_by n fs"
  by (simp_all add: sent_def gains_def got_by_def)

text \<open>The cursor after a receiver went over a history of values.\<close>

fun replay :: "'a list \<Rightarrow> nat \<Rightarrow> 'a bc_gain list \<Rightarrow> nat option" where
  "replay H p [] = Some p"
| "replay H p (Gain v # gs) = (if p < length H \<and> H ! p = v then replay H (p + 1) gs else None)"
| "replay H p (Skip k # gs) = (if 0 < k \<and> p + k \<le> length H then replay H (p + k) gs else None)"

lemma replay_append: "replay H p (gs @ hs) = (case replay H p gs of None \<Rightarrow> None | Some q \<Rightarrow> replay H q hs)"
  by (induction H p gs rule: replay.induct) auto

lemma replay_grows: "replay H p gs = Some q \<Longrightarrow> replay (H @ vs) p gs = Some q"
  by (induction H p gs rule: replay.induct) (auto simp: nth_append split: if_splits)

fun gained :: "'a bc_signal \<Rightarrow> 'a bc_gain list" where
  "gained (Bc_Value (Some v)) = [Gain v]"
| "gained (Bc_Lagged k) = [Skip k]"
| "gained _ = []"

section \<open>What is owed to an operation\<close>

fun bc_target :: "'a bc_action \<Rightarrow> nat option" where
  "bc_target (Bc_Arbitrate n) = Some n"
| "bc_target (Bc_Complete n) = Some n"
| "bc_target (Bc_Signal n sig) = Some n"
| "bc_target _ = None"

definition bc_owes :: "nat \<Rightarrow> 'a bc_action multiset \<Rightarrow> 'a bc_action multiset" where
  "bc_owes n M = filter_mset (\<lambda>a. bc_target a = Some n) M"

lemma bc_owes_simps [simp]:
  "bc_owes n {#} = {#}"
  "bc_owes n (add_mset a M) = (if bc_target a = Some n then add_mset a (bc_owes n M) else bc_owes n M)"
  "bc_owes n (M + N) = bc_owes n M + bc_owes n N"
  by (simp_all add: bc_owes_def)

definition bc_owable :: "'a bc_action \<Rightarrow> bool" where
  "bc_owable a \<longleftrightarrow> a = Bc_Close \<or> bc_target a \<noteq> None"

lemma bc_owable_simps [simp]:
  "bc_owable Bc_Close" "bc_owable (Bc_Arbitrate n)" "bc_owable (Bc_Complete n)" "bc_owable (Bc_Signal n sig)"
  by (simp_all add: bc_owable_def)

section \<open>The invariant\<close>

text \<open>A receiver is at the end when the channel is closed and its cursor has passed all that was sent.\<close>

definition at_end :: "'a bc_state \<Rightarrow> 'a bc_event list \<Rightarrow> nat \<Rightarrow> bool" where
  "at_end s es r \<longleftrightarrow>
     bc_closed s \<and> (\<exists>rc. bc_receivers s r = Some rc \<and> br_pos rc = length (sent es))"

definition bc_fits :: "'a bc_signal \<Rightarrow> 'a bc_op \<Rightarrow> 'a bc_gain list \<Rightarrow> (nat \<Rightarrow> bool) \<Rightarrow> bool" where
  "bc_fits sig op got ends \<longleftrightarrow> gained sig = got \<and>
     (sig = Bc_Value None \<and> bo_attached op \<longrightarrow> ends (bo_receiver op))"

definition bc_phase :: "nat \<Rightarrow> 'a bc_op \<Rightarrow> 'a bc_action multiset \<Rightarrow> 'a bc_gain list \<Rightarrow> (nat \<Rightarrow> bool) \<Rightarrow> bool" where
  "bc_phase n op owed got ends \<longleftrightarrow>
     \<not> bo_started op \<and> bo_stage op = BcInit \<and> bo_signals op = [] \<and> owed = {#} \<and> \<not> bo_callback op \<and> got = []
   \<or> bo_started op \<and> bo_alive op \<and> bo_attached op \<and> bo_stage op = BcInit \<and> bo_signals op = [] \<and>
       owed = {#Bc_Arbitrate n#} \<and> got = []
   \<or> bo_started op \<and> bo_alive op \<and> bo_attached op \<and> bo_stage op = BcQueued \<and> bo_signals op = [] \<and>
       owed = {#} \<and> got = []
   \<or> bo_started op \<and> \<not> bo_alive op \<and> bo_stage op = BcGone \<and> bo_signals op = [] \<and> owed = {#} \<and> got = []
   \<or> bo_started op \<and> bo_alive op \<and> bo_stage op = BcDone \<and> bo_signals op = [] \<and>
       owed = {#Bc_Complete n#} \<and> bc_fits (outcome_signal op) op got ends
   \<or> bo_started op \<and> bo_alive op \<and> bo_stage op \<notin> {BcQueued, BcGone} \<and> bo_signals op = [] \<and>
       (\<exists>sig. owed = {#Bc_Signal n sig#} \<and> bc_fits sig op got ends)
   \<or> bo_started op \<and> bo_stage op \<notin> {BcQueued, BcGone} \<and> \<not> bo_callback op \<and> owed = {#} \<and>
       (\<exists>sig. bo_signals op = [sig] \<and> bc_fits sig op got ends)"

definition bc_op_ok :: "nat \<Rightarrow> 'a bc_op option \<Rightarrow> 'a bc_action multiset \<Rightarrow> 'a bc_gain list \<Rightarrow>
    (nat \<Rightarrow> bool) \<Rightarrow> bool" where
  "bc_op_ok n entry owed got ends \<longleftrightarrow>
    (case entry of None \<Rightarrow> owed = {#} \<and> got = [] | Some op \<Rightarrow> bc_phase n op owed got ends)"

definition bc_ops_ok :: "'a bc_state \<Rightarrow> 'a bc_action multiset \<Rightarrow> 'a bc_event list \<Rightarrow> bool" where
  "bc_ops_ok s M es \<longleftrightarrow> (\<forall>n. bc_op_ok n (bc_ops s n) (bc_owes n M) (got_by n es) (at_end s es))"

definition receiver_ok :: "bc_receiver option \<Rightarrow> 'a list \<Rightarrow> 'a bc_gain list \<Rightarrow> bool" where
  "receiver_ok entry H gs \<longleftrightarrow>
    (case entry of None \<Rightarrow> gs = []
     | Some rc \<Rightarrow> replay H (br_start rc) gs = Some (br_pos rc) \<and> br_pos rc \<le> length H)"

definition receivers_ok :: "'a bc_state \<Rightarrow> 'a bc_event list \<Rightarrow> bool" where
  "receivers_ok s es \<longleftrightarrow> (\<forall>r. receiver_ok (bc_receivers s r) (sent es) (gains r es))"

definition users_ok :: "'a bc_state \<Rightarrow> bool" where
  "users_ok s \<longleftrightarrow> (\<forall>n op. bc_ops s n = Some op \<longrightarrow> n \<in> set (bc_connected s) \<and>
     (\<exists>rc. bc_receivers s (bo_receiver op) = Some rc \<and> (bo_alive op \<longrightarrow> br_alive rc)))"

definition buffer_ok :: "'a bc_state \<Rightarrow> 'a bc_event list \<Rightarrow> bool" where
  "buffer_ok s es \<longleftrightarrow> bc_buffer s = drop (bc_base s) (sent es) \<and> bc_base s \<le> length (sent es) \<and>
     length (bc_buffer s) \<le> bc_capacity s \<and> 0 < bc_capacity s"

definition bc_parked :: "'a bc_state \<Rightarrow> nat \<Rightarrow> bool" where
  "bc_parked s n \<longleftrightarrow> (\<exists>op. bc_ops s n = Some op \<and> bo_stage op = BcQueued)"

definition parked_once :: "'a bc_state \<Rightarrow> bool" where
  "parked_once s \<longleftrightarrow> (\<forall>m n a b. bc_ops s m = Some a \<and> bc_ops s n = Some b \<and> bo_stage a = BcQueued \<and>
     bo_stage b = BcQueued \<and> bo_receiver a = bo_receiver b \<longrightarrow> m = n)"

text \<open>Parked receives have seen all that was sent, and no receiver is parked twice.\<close>

definition bc_waits_ok :: "'a bc_state \<Rightarrow> 'a bc_event list \<Rightarrow> nat list \<Rightarrow> bool" where
  "bc_waits_ok s es ws \<longleftrightarrow> represents (bc_waiters s) ws \<and> (\<forall>n. n \<in> set ws \<longleftrightarrow> bc_parked s n) \<and>
     (ws \<noteq> [] \<longrightarrow> \<not> bc_closed s) \<and> parked_once s \<and>
     (\<forall>n op. bc_ops s n = Some op \<and> bo_stage op = BcQueued \<longrightarrow> bo_pos op = length (sent es) \<and>
        (\<exists>rc. bc_receivers s (bo_receiver op) = Some rc \<and> br_pos rc = length (sent es)))"

definition bc_senders_ok :: "'a bc_state \<Rightarrow> 'a bc_action multiset \<Rightarrow> bool" where
  "bc_senders_ok s M \<longleftrightarrow> (bc_senders s = 0 \<longrightarrow> bc_closed s \<or> Bc_Close \<in># M) \<and> (\<forall>a\<in>#M. bc_owable a)"

definition bc_inv :: "'a bc_state \<Rightarrow> 'a bc_action multiset \<Rightarrow> 'a bc_event list \<Rightarrow> bool" where
  "bc_inv s M es \<longleftrightarrow> bc_ops_ok s M es \<and> receivers_ok s es \<and> users_ok s \<and> buffer_ok s es \<and>
     (\<exists>ws. bc_waits_ok s es ws) \<and> bc_senders_ok s M"

lemma bc_invE:
  assumes "bc_inv s M es"
  obtains ws where "bc_ops_ok s M es" "receivers_ok s es" "users_ok s" "buffer_ok s es" "bc_waits_ok s es ws"
    "bc_senders_ok s M"
  using assms by (auto simp: bc_inv_def)

definition bc_ok :: "'a bc_action multiset \<Rightarrow> 'a bc_event list \<Rightarrow> 'a bc_effect \<Rightarrow> bool" where
  "bc_ok M es eff \<longleftrightarrow>
    (\<exists>s' owed es'. eff = Some (s', owed, es') \<and> bc_inv s' (M + mset owed) (es @ es'))"

lemma bc_okI:
  assumes "eff = Some (s', owed, es')"
    and "bc_ops_ok s' (M + mset owed) (es @ es')" "receivers_ok s' (es @ es')" "users_ok s'"
    and "buffer_ok s' (es @ es')" "bc_waits_ok s' (es @ es') ws" "bc_senders_ok s' (M + mset owed)"
  shows "bc_ok M es eff"
  using assms by (auto simp: bc_ok_def bc_inv_def)

text \<open>Facts about the parts.\<close>

lemma bc_fits_mono: "bc_fits sig op got ends \<Longrightarrow> (\<And>r. ends r \<Longrightarrow> ends' r) \<Longrightarrow> bc_fits sig op got ends'"
  by (auto simp: bc_fits_def)

lemma bc_op_ok_mono:
  assumes "bc_op_ok n entry owed got ends" "\<And>r. ends r \<Longrightarrow> ends' r"
  shows "bc_op_ok n entry owed got ends'"
proof (cases entry)
  case (Some op)
  then have "bc_phase n op owed got ends" using assms(1) by (simp add: bc_op_ok_def)
  moreover have "bc_fits sig op got ends \<Longrightarrow> bc_fits sig op got ends'" for sig
    by (rule bc_fits_mono [OF _ assms(2)])
  ultimately have "bc_phase n op owed got ends'"
    unfolding bc_phase_def by (elim disjE) auto
  then show ?thesis using Some by (simp add: bc_op_ok_def)
qed (use assms in \<open>simp add: bc_op_ok_def\<close>)

lemma bc_ops_okD: "bc_ops_ok s M es \<Longrightarrow> bc_op_ok n (bc_ops s n) (bc_owes n M) (got_by n es) (at_end s es)"
  by (simp add: bc_ops_ok_def)

lemma bc_ops_ok_change:
  assumes "bc_ops_ok s M es"
    and "\<And>m. m \<noteq> n \<Longrightarrow> bc_ops s' m = bc_ops s m \<and> bc_owes m M' = bc_owes m M \<and> got_by m es' = []"
    and "bc_op_ok n (bc_ops s' n) (bc_owes n M') (got_by n es @ got_by n es') (at_end s' (es @ es'))"
    and "\<And>r. at_end s es r \<Longrightarrow> at_end s' (es @ es') r"
  shows "bc_ops_ok s' M' (es @ es')"
  unfolding bc_ops_ok_def
proof
  fix m
  show "bc_op_ok m (bc_ops s' m) (bc_owes m M') (got_by m (es @ es')) (at_end s' (es @ es'))"
  proof (cases "m = n")
    case False
    then show ?thesis using bc_op_ok_mono [OF bc_ops_okD [OF assms(1), of m] assms(4)] assms(2) by simp
  qed (use assms(3) in simp)
qed

lemma bc_live_Some: "bc_live s n = Some op \<longleftrightarrow> bc_ops s n = Some op \<and> bo_alive op"
  by (auto simp: bc_live_def split: option.split)

lemma bc_live_receiver_Some:
  "bc_live_receiver s r = Some rc \<longleftrightarrow> bc_receivers s r = Some rc \<and> br_alive rc"
  by (auto simp: bc_live_receiver_def split: option.split)

lemma bc_put_simps [simp]:
  "bc_ops (bc_put n op s) = (bc_ops s)(n \<mapsto> op)"
  "bc_receivers (bc_put n op s) = bc_receivers s"
  "bc_buffer (bc_put n op s) = bc_buffer s" "bc_capacity (bc_put n op s) = bc_capacity s"
  "bc_base (bc_put n op s) = bc_base s" "bc_waiters (bc_put n op s) = bc_waiters s"
  "bc_senders (bc_put n op s) = bc_senders s" "bc_closed (bc_put n op s) = bc_closed s"
  "bc_receiver_count (bc_put n op s) = bc_receiver_count s" "bc_connected (bc_put n op s) = bc_connected s"
  by (simp_all add: bc_put_def)

lemma bc_next_seq_sent: "buffer_ok s es \<Longrightarrow> bc_next_seq s = length (sent es)"
  by (simp add: buffer_ok_def bc_next_seq_def)

lemma bc_buffer_nth:
  "buffer_ok s es \<Longrightarrow> bc_base s \<le> p \<Longrightarrow> p < length (sent es) \<Longrightarrow> bc_buffer s ! (p - bc_base s) = sent es ! p"
  by (simp add: buffer_ok_def)

lemma bc_pending:
  assumes "bc_ops_ok s (add_mset a M) es" "bc_target a = Some n"
  obtains op where "bc_ops s n = Some op" "bo_alive op" "bo_started op" "bo_signals op = []"
    "bc_owes n M = {#}" "bo_stage op \<noteq> BcQueued" "bo_stage op \<noteq> BcGone"
    "bc_phase n op {#a#} (got_by n es) (at_end s es)"
  using bc_ops_okD [OF assms(1), of n] assms(2) that
  by (fastforce simp: bc_op_ok_def bc_phase_def split: option.splits)

lemma bc_waitsD:
  assumes "bc_waits_ok s es ws" "bc_ops s n = Some op" "bo_stage op = BcQueued"
  obtains rc where "bo_pos op = length (sent es)" "bc_receivers s (bo_receiver op) = Some rc"
    "br_pos rc = length (sent es)"
  using assms unfolding bc_waits_ok_def by metis

lemma receivers_okD: "receivers_ok s es \<Longrightarrow> receiver_ok (bc_receivers s r) (sent es) (gains r es)"
  by (simp add: receivers_ok_def)

lemma receivers_ok_change:
  assumes "receivers_ok s es" "\<And>q. q \<noteq> r \<Longrightarrow> bc_receivers s' q = bc_receivers s q"
    "receiver_ok (bc_receivers s' r) (sent es) (gains r es)"
  shows "receivers_ok s' es"
  unfolding receivers_ok_def
proof
  fix q
  show "receiver_ok (bc_receivers s' q) (sent es) (gains q es)"
    using assms receivers_okD [OF assms(1), of q] by (cases "q = r") auto
qed

lemma at_end_quiet: "sent es' = [] \<Longrightarrow> at_end s (es @ es') = at_end s es"
  by (simp add: at_end_def fun_eq_iff)

section \<open>Steps of one operation\<close>

lemma bc_waits_put:
  assumes "bc_waits_ok s es ws" "\<not> bc_parked s n" "bo_stage op \<noteq> BcQueued"
  shows "bc_waits_ok (bc_put n op s) es ws"
  using assms by (auto simp: bc_waits_ok_def bc_parked_def parked_once_def)

lemma bc_waits_unlink:
  assumes "bc_waits_ok s es ws" "bc_parked s n" "bo_stage op \<noteq> BcQueued"
  shows "bc_waits_ok (bc_put n op (s\<lparr>bc_waiters := unlink_node n (bc_waiters s)\<rparr>)) es (remove1 n ws)"
proof -
  have rep: "represents (bc_waiters s) ws" and n: "n \<in> set ws" using assms(1,2) by (auto simp: bc_waits_ok_def)
  have "represents (unlink_node n (bc_waiters s)) (remove1 n ws)" by (rule wl.holds_withdraw [OF rep n])
  moreover have "remove1 n ws \<noteq> [] \<Longrightarrow> ws \<noteq> []" by auto
  moreover have "distinct ws" by (rule wl.holds_distinct [OF rep])
  ultimately show ?thesis using assms n by (auto simp: bc_waits_ok_def bc_parked_def parked_once_def)
qed

lemma bc_waits_park:
  assumes "bc_waits_ok s es ws" "\<not> bc_parked s n" "bo_stage op = BcQueued" "\<not> bc_closed s"
    and "bo_pos op = length (sent es)" "bc_receivers s (bo_receiver op) = Some rc" "br_pos rc = length (sent es)"
    and "\<And>m op'. bc_ops s m = Some op' \<Longrightarrow> bo_stage op' = BcQueued \<Longrightarrow> bo_receiver op' \<noteq> bo_receiver op"
  shows "bc_waits_ok (bc_put n op (s\<lparr>bc_waiters := queue_node n (bc_waiters s)\<rparr>)) es (ws @ [n])"
proof -
  let ?s = "bc_put n op (s\<lparr>bc_waiters := queue_node n (bc_waiters s)\<rparr>)"
  have rep: "represents (bc_waiters s) ws" and n: "n \<notin> set ws" using assms(1,2) by (auto simp: bc_waits_ok_def)
  have "parked_once ?s"
    unfolding parked_once_def
  proof (intro allI impI)
    fix k m a b
    assume two: "bc_ops ?s k = Some a \<and> bc_ops ?s m = Some b \<and> bo_stage a = BcQueued \<and>
       bo_stage b = BcQueued \<and> bo_receiver a = bo_receiver b"
    have once: "parked_once s" using assms(1) by (simp add: bc_waits_ok_def)
    show "k = m"
    proof (cases "k = n \<or> m = n")
      case True
      then show ?thesis using two assms(8) [of k a] assms(8) [of m b] by (auto split: if_splits)
    next
      case False
      then show ?thesis using two once [unfolded parked_once_def, rule_format, of k a m b] by simp
    qed
  qed
  then show ?thesis
    using assms(1-7) wl.holds_enqueue [OF rep n] by (auto simp: bc_waits_ok_def bc_parked_def)
qed

definition bc_spent :: "nat \<Rightarrow> 'a bc_action multiset \<Rightarrow> 'a bc_action multiset \<Rightarrow> bool" where
  "bc_spent n M0 M \<longleftrightarrow> M0 = M \<or> (\<exists>a. M0 = add_mset a M \<and> bc_target a = Some n)"

lemma bc_spent_call: "bc_spent n M M"
  and bc_spent_owed: "bc_target a = Some n \<Longrightarrow> bc_spent n (add_mset a M) M"
  by (auto simp: bc_spent_def)

lemma bc_target_owable: "bc_target a = Some n \<Longrightarrow> a \<noteq> Bc_Close \<and> bc_owable a"
  by (cases a) (auto simp: bc_owable_def)

lemma bc_spent_owes:
  assumes "bc_spent n M0 M"
  shows "m \<noteq> n \<Longrightarrow> bc_owes m M0 = bc_owes m M" "bc_senders_ok s M0 \<Longrightarrow> bc_senders_ok s M"
  using assms bc_target_owable by (fastforce simp: bc_spent_def bc_senders_ok_def)+

lemma bc_owes_of:
  assumes "\<forall>a\<in>set owed. bc_target a = Some n"
  shows "m \<noteq> n \<Longrightarrow> bc_owes m (mset owed) = {#}" "bc_owes n (mset owed) = mset owed"
    "a \<in> set owed \<Longrightarrow> bc_owable a"
  using assms by (induction owed) (auto dest: bc_target_owable)

lemma bc_senders_okI:
  "bc_senders_ok s M \<Longrightarrow> bc_senders s' = bc_senders s \<Longrightarrow> bc_closed s' = bc_closed s \<Longrightarrow>
   (\<And>a. a \<in># N \<Longrightarrow> bc_owable a) \<Longrightarrow> bc_senders_ok s' (M + N)"
  by (auto simp: bc_senders_ok_def)

text \<open>A step that changes one operation, and perhaps the wait list.\<close>

lemma bc_op_step:
  assumes inv: "bc_inv s M0 es" "bc_spent n M0 M"
    and eff: "eff = Some (bc_put n op s', owed, [])" "\<forall>a\<in>set owed. bc_target a = Some n"
    and same: "bc_ops s' = bc_ops s" "bc_receivers s' = bc_receivers s" "bc_buffer s' = bc_buffer s"
      "bc_base s' = bc_base s" "bc_capacity s' = bc_capacity s" "bc_senders s' = bc_senders s"
      "bc_closed s' = bc_closed s" "bc_connected s' = bc_connected s"
    and old: "bc_ops s n = Some old" "bo_receiver op = bo_receiver old" "bo_alive op \<Longrightarrow> bo_alive old"
    and op_ok: "bc_op_ok n (Some op) (bc_owes n M + mset owed) (got_by n es) (at_end s es)"
    and waits: "\<And>ws. bc_waits_ok s es ws \<Longrightarrow> \<exists>ws'. bc_waits_ok (bc_put n op s') es ws'"
  shows "bc_ok M es eff"
proof -
  obtain ws where parts: "bc_ops_ok s M0 es" "receivers_ok s es" "users_ok s" "buffer_ok s es"
      "bc_waits_ok s es ws" "bc_senders_ok s M0"
    using inv(1) by (rule bc_invE)
  note spent = bc_spent_owes [OF inv(2)] and owes = bc_owes_of [OF eff(2)]
  obtain ws' where ws': "bc_waits_ok (bc_put n op s') es ws'" using waits parts(5) by blast
  have ends: "at_end (bc_put n op s') es = at_end s es" using same by (simp add: at_end_def fun_eq_iff)
  show ?thesis
  proof (rule bc_okI [OF eff(1)])
    show "bc_ops_ok (bc_put n op s') (M + mset owed) (es @ [])"
      by (rule bc_ops_ok_change [OF parts(1), of n]) (use op_ok spent owes same ends in auto)
    show "receivers_ok (bc_put n op s') (es @ [])" using parts(2) same by (simp add: receivers_ok_def)
    show "users_ok (bc_put n op s')" using parts(3) same old by (auto simp: users_ok_def)
    have "buffer_ok (bc_put n op s') es = buffer_ok s es" by (simp only: buffer_ok_def bc_put_simps same)
    then show "buffer_ok (bc_put n op s') (es @ [])" using parts(4) by simp
    show "bc_waits_ok (bc_put n op s') (es @ []) ws'" using ws' by simp
    show "bc_senders_ok (bc_put n op s') (M + mset owed)"
      by (rule bc_senders_okI [OF spent(2) [OF parts(6)]]) (use same owes in auto)
  qed
qed

lemma bc_same_waits:
  assumes "bc_waits_ok s es ws" "bc_ops s n = Some old" "bo_stage old \<noteq> BcQueued" "bo_stage op \<noteq> BcQueued"
  shows "\<exists>ws'. bc_waits_ok (bc_put n op s) es ws'"
  using bc_waits_put [OF assms(1), of n op] assms(2-4) by (auto simp: bc_parked_def)

lemma bc_complete_ok:
  assumes "bc_inv s (add_mset a M) es" "a = Bc_Signal n sig \<or> a = Bc_Complete n"
    "a = Bc_Complete n \<Longrightarrow> bc_ops s n = Some op \<Longrightarrow> sig = outcome_signal op" "bc_ops s n = Some op"
  shows "bc_ok M es (bc_signal_op n sig s)"
proof -
  have ops: "bc_ops_ok s (add_mset a M) es" using assms(1) by (rule bc_invE)
  have target: "bc_target a = Some n" using assms(2) by auto
  have op: "bo_alive op" "bo_started op" "bo_signals op = []" "bc_owes n M = {#}" "bo_stage op \<noteq> BcQueued"
    "bo_stage op \<noteq> BcGone" "bc_phase n op {#a#} (got_by n es) (at_end s es)"
    by (rule bc_pending [OF ops target], use assms(4) in simp)+
  let ?op = "op\<lparr>bo_callback := False, bo_signals := bo_signals op @ [sig]\<rparr>"
  have "bc_fits sig op (got_by n es) (at_end s es)"
    using op(7) assms(2) assms(3) [OF _ assms(4)] by (auto simp: bc_phase_def)
  then have fits: "bc_fits sig ?op (got_by n es) (at_end s es)" by (simp add: bc_fits_def)
  show ?thesis
  proof (rule bc_op_step [where n = n, OF assms(1) bc_spent_owed [OF target] _ _ _ _ _ _ _ _ _ _ assms(4)])
    show "bc_signal_op n sig s = Some (bc_put n ?op s, [], [])"
      by (simp add: bc_signal_op_def bc_live_def op assms(4))
    show "bc_op_ok n (Some ?op) (bc_owes n M + mset []) (got_by n es) (at_end s es)"
      using op fits by (simp add: bc_op_ok_def bc_phase_def)
    show "\<exists>ws'. bc_waits_ok (bc_put n ?op s) es ws'" if "bc_waits_ok s es ws" for ws
      using bc_same_waits [OF that assms(4) op(5)] op(5) by simp
  qed simp_all
qed

lemma bc_signal_op_ok:
  assumes "bc_inv s (add_mset (Bc_Signal n sig) M) es"
  shows "bc_ok M es (bc_signal_op n sig s)"
proof -
  have ops: "bc_ops_ok s (add_mset (Bc_Signal n sig) M) es" using assms by (rule bc_invE)
  obtain op where "bc_ops s n = Some op" by (rule bc_pending [OF ops, of n]) simp_all
  then show ?thesis using bc_complete_ok [OF assms] by simp
qed

lemma bc_complete_node_ok:
  assumes "bc_inv s (add_mset (Bc_Complete n) M) es"
  shows "bc_ok M es (bc_complete n s)"
proof -
  have ops: "bc_ops_ok s (add_mset (Bc_Complete n) M) es" using assms by (rule bc_invE)
  obtain op where "bc_ops s n = Some op" "bo_alive op" by (rule bc_pending [OF ops, of n]) simp_all
  then show ?thesis
    using bc_complete_ok [OF assms, of n "outcome_signal op" op] by (simp add: bc_complete_def bc_live_def)
qed

lemma bc_start_ok:
  assumes "bc_inv s M es" "bc_live s n = Some op" "\<not> bo_started op"
  shows "bc_ok M es (bc_start n s)"
proof -
  have ops: "bc_ops_ok s M es" using assms(1) by (rule bc_invE)
  have op: "bc_ops s n = Some op" "bo_alive op" using assms(2) by (simp_all add: bc_live_Some)
  have phase: "bo_stage op = BcInit" "bo_signals op = []" "bc_owes n M = {#}" "got_by n es = []"
    using bc_ops_okD [OF ops, of n] op assms(3) by (auto simp: bc_op_ok_def bc_phase_def)
  show ?thesis
  proof (cases "bo_attached op")
    case True
    let ?op = "op\<lparr>bo_started := True, bo_callback := True\<rparr>"
    show ?thesis
    proof (rule bc_op_step [where n = n, OF assms(1) bc_spent_call _ _ _ _ _ _ _ _ _ _ op(1)])
      show "bc_start n s = Some (bc_put n ?op s, [Bc_Arbitrate n], [])"
        using True assms(2) by (simp add: bc_start_def)
      show "bc_op_ok n (Some ?op) (bc_owes n M + mset [Bc_Arbitrate n]) (got_by n es) (at_end s es)"
        using phase True op by (simp add: bc_op_ok_def bc_phase_def)
      show "\<exists>ws'. bc_waits_ok (bc_put n ?op s) es ws'" if "bc_waits_ok s es ws" for ws
        using bc_same_waits [OF that op(1)] phase(1) by simp
    qed simp_all
  next
    case False
    let ?op = "op\<lparr>bo_started := True, bo_callback := False, bo_signals := [Bc_Value None]\<rparr>"
    show ?thesis
    proof (rule bc_op_step [where n = n, OF assms(1) bc_spent_call _ _ _ _ _ _ _ _ _ _ op(1)])
      show "bc_start n s = Some (bc_put n ?op s, [], [])"
        using False assms(2) op phase(2)
        by (simp add: bc_start_def bc_signal_op_def bc_put_def bc_live_def)
      show "bc_op_ok n (Some ?op) (bc_owes n M + mset []) (got_by n es) (at_end s es)"
        using phase False by (simp add: bc_op_ok_def bc_phase_def bc_fits_def)
      show "\<exists>ws'. bc_waits_ok (bc_put n ?op s) es ws'" if "bc_waits_ok s es ws" for ws
        using bc_same_waits [OF that op(1)] phase(1) by simp
    qed simp_all
  qed
qed

lemma bc_stop_ok:
  assumes "bc_inv s M es" "bc_live s n = Some op" "bo_callback op"
  shows "bc_ok M es (bc_stop n s)"
proof -
  have ops: "bc_ops_ok s M es" using assms(1) by (rule bc_invE)
  have op: "bc_ops s n = Some op" "bo_alive op" using assms(2) by (simp_all add: bc_live_Some)
  have ok: "bc_phase n op (bc_owes n M) (got_by n es) (at_end s es)"
    using bc_ops_okD [OF ops, of n] op by (simp add: bc_op_ok_def)
  show ?thesis
  proof (cases "bo_stage op = BcQueued")
    case True
    let ?op = "op\<lparr>bo_callback := False, bo_stage := BcStopped\<rparr>"
    let ?s = "s\<lparr>bc_waiters := unlink_node n (bc_waiters s)\<rparr>"
    have ready: "bo_attached op" "bo_started op" "bo_signals op = []" "bc_owes n M = {#}" "got_by n es = []"
      using ok True op by (simp_all add: bc_phase_def)
    show ?thesis
    proof (rule bc_op_step [where n = n, OF assms(1) bc_spent_call _ _ _ _ _ _ _ _ _ _ op(1)])
      show "bc_stop n s = Some (bc_put n ?op ?s, [Bc_Signal n Bc_Stopped], [])"
        using True assms(2) ready(1) by (simp add: bc_stop_def)
      show "bc_op_ok n (Some ?op) (bc_owes n M + mset [Bc_Signal n Bc_Stopped]) (got_by n es) (at_end s es)"
        using ready op by (simp add: bc_op_ok_def bc_phase_def bc_fits_def)
      show "\<exists>ws'. bc_waits_ok (bc_put n ?op ?s) es ws'" if "bc_waits_ok s es ws" for ws
        using bc_waits_unlink [OF that, of n ?op] True op by (auto simp: bc_parked_def)
    qed simp_all
  next
    case False
    define stopped where "stopped = (bo_attached op \<and> bo_stage op = BcInit \<or> bo_stop_requested op)"
    let ?op = "op\<lparr>bo_callback := False, bo_stop_requested := stopped\<rparr>"
    have fits: "bc_fits sig ?op got ends = bc_fits sig op got ends" for sig got ends by (simp add: bc_fits_def)
    have outcome: "outcome_signal ?op = outcome_signal op"
      by (cases "bo_outcome op") (simp_all add: outcome_signal_def)
    show ?thesis
    proof (rule bc_op_step [where n = n, OF assms(1) bc_spent_call _ _ _ _ _ _ _ _ _ _ op(1)])
      show "bc_stop n s = Some (bc_put n ?op s, [], [])"
        using False assms(2) by (cases op) (auto simp: bc_stop_def stopped_def Let_def)
      have "bc_phase n ?op (bc_owes n M) (got_by n es) (at_end s es)"
        using ok assms(3) unfolding bc_phase_def by (elim disjE) (simp_all add: fits outcome)
      then show "bc_op_ok n (Some ?op) (bc_owes n M + mset []) (got_by n es) (at_end s es)"
        by (simp add: bc_op_ok_def)
      show "\<exists>ws'. bc_waits_ok (bc_put n ?op s) es ws'" if "bc_waits_ok s es ws" for ws
        using bc_same_waits [OF that op(1)] False by simp
    qed simp_all
  qed
qed

lemma bc_destroy_ok:
  assumes "bc_inv s M es" "bc_live s n = Some op"
    "\<not> bo_started op \<or> bo_stage op = BcQueued \<or> bo_signals op \<noteq> []"
  shows "bc_ok M es (bc_destroy n s)"
proof -
  have ops: "bc_ops_ok s M es" using assms(1) by (rule bc_invE)
  have op: "bc_ops s n = Some op" "bo_alive op" using assms(2) by (simp_all add: bc_live_Some)
  have ok: "bc_phase n op (bc_owes n M) (got_by n es) (at_end s es)"
    using bc_ops_okD [OF ops, of n] op by (simp add: bc_op_ok_def)
  show ?thesis
  proof (cases "bo_stage op = BcQueued")
    case True
    let ?op = "op\<lparr>bo_alive := False, bo_callback := False, bo_stage := BcGone\<rparr>"
    let ?s = "s\<lparr>bc_waiters := unlink_node n (bc_waiters s)\<rparr>"
    have ready: "bo_attached op" "bo_started op" "bo_signals op = []" "bc_owes n M = {#}" "got_by n es = []"
      using ok True op by (simp_all add: bc_phase_def)
    show ?thesis
    proof (rule bc_op_step [where n = n, OF assms(1) bc_spent_call _ _ _ _ _ _ _ _ _ _ op(1)])
      show "bc_destroy n s = Some (bc_put n ?op ?s, [], [])"
        using True assms(2) ready(1) by (simp add: bc_destroy_def)
      show "bc_op_ok n (Some ?op) (bc_owes n M + mset []) (got_by n es) (at_end s es)"
        using ready by (simp add: bc_op_ok_def bc_phase_def)
      show "\<exists>ws'. bc_waits_ok (bc_put n ?op ?s) es ws'" if "bc_waits_ok s es ws" for ws
        using bc_waits_unlink [OF that, of n ?op] True op by (auto simp: bc_parked_def)
    qed simp_all
  next
    case False
    let ?op = "op\<lparr>bo_alive := False, bo_callback := False\<rparr>"
    have fits: "bc_fits sig ?op got ends = bc_fits sig op got ends" for sig got ends by (simp add: bc_fits_def)
    show ?thesis
    proof (rule bc_op_step [where n = n, OF assms(1) bc_spent_call _ _ _ _ _ _ _ _ _ _ op(1)])
      show "bc_destroy n s = Some (bc_put n ?op s, [], [])"
        using False assms(2) by (simp add: bc_destroy_def)
      have "bc_phase n ?op (bc_owes n M) (got_by n es) (at_end s es)"
        using ok assms(3) False unfolding bc_phase_def by (elim disjE) (simp_all add: fits)
      then show "bc_op_ok n (Some ?op) (bc_owes n M + mset []) (got_by n es) (at_end s es)"
        by (simp add: bc_op_ok_def)
      show "\<exists>ws'. bc_waits_ok (bc_put n ?op s) es ws'" if "bc_waits_ok s es ws" for ws
        using bc_same_waits [OF that op(1)] False by simp
    qed simp_all
  qed
qed

lemma bc_connect_ok:
  assumes "bc_inv s M es" "bc_ops s n = None" "bc_live_receiver s r \<noteq> None"
  shows "bc_ok M es (bc_connect n r s)"
proof -
  obtain ws where parts: "bc_ops_ok s M es" "receivers_ok s es" "users_ok s" "buffer_ok s es"
      "bc_waits_ok s es ws" "bc_senders_ok s M"
    using assms(1) by (rule bc_invE)
  obtain rc where rc: "bc_live_receiver s r = Some rc" using assms(3) by blast
  define op :: "'a bc_op" where "op = \<lparr>bo_stage = BcInit, bo_attached = br_state rc, bo_receiver = r, bo_pos = 0,
    bo_outcome = BcClosed, bo_held = None, bo_lagged = 0, bo_stop_requested = False,
    bo_callback = False, bo_started = False, bo_alive = True, bo_signals = []\<rparr>"
  let ?s = "bc_put n op (s\<lparr>bc_connected := n # bc_connected s\<rparr>)"
  have ends: "at_end ?s es = at_end s es" by (simp add: at_end_def fun_eq_iff)
  show ?thesis
  proof (rule bc_okI [where s' = ?s and owed = "[]" and es' = "[]" and ws = ws])
    show "bc_connect n r s = Some (?s, [], [])" by (simp add: bc_connect_def rc op_def)
    show "bc_ops_ok ?s (M + mset []) (es @ [])"
      by (rule bc_ops_ok_change [OF parts(1), of n])
        (use bc_ops_okD [OF parts(1), of n] assms(2) ends in \<open>auto simp: bc_op_ok_def bc_phase_def op_def\<close>)
    show "receivers_ok ?s (es @ [])" using parts(2) by (simp add: receivers_ok_def)
    show "users_ok ?s" using parts(3) rc by (auto simp: users_ok_def op_def bc_live_receiver_Some)
    have "buffer_ok ?s es = buffer_ok s es" by (simp add: buffer_ok_def)
    then show "buffer_ok ?s (es @ [])" using parts(4) by simp
    have "bc_waits_ok (s\<lparr>bc_connected := n # bc_connected s\<rparr>) es ws"
      using parts(5) by (auto simp: bc_waits_ok_def bc_parked_def parked_once_def)
    then show "bc_waits_ok ?s (es @ []) ws"
      using bc_waits_put [of "s\<lparr>bc_connected := n # bc_connected s\<rparr>" es ws n op] assms(2)
      by (simp add: bc_parked_def op_def)
    show "bc_senders_ok ?s (M + mset [])" using parts(6) by (simp add: bc_senders_ok_def)
  qed
qed

section \<open>Receivers\<close>

text \<open>A step that changes the receivers only and logs nothing of them.\<close>

lemma bc_receiver_step:
  assumes inv: "bc_inv s M es"
    and eff: "eff = Some (s', [], [])"
    and same: "bc_ops s' = bc_ops s" "bc_waiters s' = bc_waiters s" "bc_buffer s' = bc_buffer s"
      "bc_base s' = bc_base s" "bc_capacity s' = bc_capacity s" "bc_senders s' = bc_senders s"
      "bc_closed s' = bc_closed s" "bc_connected s' = bc_connected s"
    and recs: "receivers_ok s es \<Longrightarrow> receivers_ok s' es" "users_ok s \<Longrightarrow> users_ok s'"
    and kept: "\<And>r rc. bc_receivers s r = Some rc \<Longrightarrow> \<exists>rc'. bc_receivers s' r = Some rc' \<and> br_pos rc' = br_pos rc"
  shows "bc_ok M es eff"
proof -
  obtain ws where parts: "bc_ops_ok s M es" "receivers_ok s es" "users_ok s" "buffer_ok s es"
      "bc_waits_ok s es ws" "bc_senders_ok s M"
    using inv by (rule bc_invE)
  have ends: "at_end s es r \<Longrightarrow> at_end s' es r" for r using kept same by (fastforce simp: at_end_def)
  show ?thesis
  proof (rule bc_okI [OF eff])
    show "bc_ops_ok s' (M + mset []) (es @ [])"
      unfolding bc_ops_ok_def using bc_op_ok_mono [OF bc_ops_okD [OF parts(1)] ends] same by simp
    show "receivers_ok s' (es @ [])" "users_ok s'" using recs parts by simp_all
    have "buffer_ok s' es = buffer_ok s es" by (simp only: buffer_ok_def same)
    then show "buffer_ok s' (es @ [])" using parts(4) by simp
    have "\<exists>rc. bc_receivers s' (bo_receiver op) = Some rc \<and> br_pos rc = length (sent es)"
      if "bc_ops s n = Some op" "bo_stage op = BcQueued" for n op
      using parts(5) that kept unfolding bc_waits_ok_def by metis
    then show "bc_waits_ok s' (es @ []) ws"
      using parts(5) same by (auto simp: bc_waits_ok_def bc_parked_def parked_once_def)
    show "bc_senders_ok s' (M + mset [])" using parts(6) same by (simp add: bc_senders_ok_def)
  qed
qed

lemma bc_subscribe_ok:
  assumes "bc_inv s M es" "bc_receivers s r = None"
  shows "bc_ok M es (bc_subscribe r s)"
proof -
  have parts: "buffer_ok s es" using assms(1) by (rule bc_invE)
  show ?thesis
  proof (rule bc_receiver_step [OF assms(1)])
    show "bc_subscribe r s = Some (s\<lparr>bc_receivers := (bc_receivers s)(r \<mapsto> new_receiver (bc_next_seq s)),
            bc_receiver_count := bc_receiver_count s + 1\<rparr>, [], [])"
      by (simp add: bc_subscribe_def)
    let ?s = "s\<lparr>bc_receivers := (bc_receivers s)(r \<mapsto> new_receiver (bc_next_seq s)),
            bc_receiver_count := bc_receiver_count s + 1\<rparr>"
    show "receivers_ok ?s es" if "receivers_ok s es"
      by (rule receivers_ok_change [OF that, of r])
        (use receivers_okD [OF that, of r] assms(2) bc_next_seq_sent [OF parts] in
          \<open>auto simp: receiver_ok_def new_receiver_def\<close>)
    show "users_ok ?s" if "users_ok s" using that assms(2) by (fastforce simp: users_ok_def)
  qed (use assms(2) in auto)
qed

lemma release_receiver_ok:
  assumes "bc_inv s M es" "bc_live_receiver s r = Some rc"
    and "destroyed \<Longrightarrow> \<not> list_ex (uses_receiver s r) (bc_connected s)"
  shows "bc_ok M es (release_receiver destroyed r s)"
proof -
  have users: "users_ok s" using assms(1) by (rule bc_invE)
  let ?rc = "rc\<lparr>br_state := False, br_alive := \<not> destroyed\<rparr>"
  define count where "count = (if br_state rc then bc_receiver_count s - 1 else bc_receiver_count s)"
  let ?s = "s\<lparr>bc_receivers := (bc_receivers s)(r \<mapsto> ?rc), bc_receiver_count := count\<rparr>"
  have rc: "bc_receivers s r = Some rc" "br_alive rc" using assms(2) by (simp_all add: bc_live_receiver_Some)
  have unused: "\<not> bo_alive op" if "destroyed" "bc_ops s n = Some op" "bo_receiver op = r" for n op
  proof
    assume "bo_alive op"
    then have "uses_receiver s r n" using that by (simp add: uses_receiver_def bc_live_def)
    moreover have "n \<in> set (bc_connected s)" using users that(2) by (simp add: users_ok_def)
    ultimately show False using assms(3) [OF that(1)] by (auto simp: list_ex_iff)
  qed
  show ?thesis
  proof (rule bc_receiver_step [OF assms(1)])
    show "release_receiver destroyed r s = Some (?s, [], [])"
      using assms(2) by (cases s) (auto simp: release_receiver_def count_def Let_def)
    show "users_ok ?s" using users rc unused by (auto simp: users_ok_def)
    show "receivers_ok ?s es" if "receivers_ok s es"
      by (rule receivers_ok_change [OF that, of r])
        (use receivers_okD [OF that, of r] rc in \<open>auto simp: receiver_ok_def\<close>)
  qed (use rc in auto)
qed

text \<open>A cursor that is behind moves: nobody is parked on it, and its receiver was not at the end.\<close>

lemma bc_move_cursor:
  assumes "receivers_ok s es" "bc_waits_ok s es ws" "users_ok s" "bc_receivers s r = Some rc"
    and "br_pos rc < length (sent es)" "replay (sent es) (br_pos rc) [g] = Some p"
    and "gains r es' = [g]" "\<And>q. q \<noteq> r \<Longrightarrow> gains q es' = []" "sent es' = []"
  defines "s' \<equiv> s\<lparr>bc_receivers := (bc_receivers s)(r \<mapsto> rc\<lparr>br_pos := p\<rparr>)\<rparr>"
  shows "receivers_ok s' (es @ es')" "bc_waits_ok s' (es @ es') ws" "users_ok s'"
    "\<And>q. at_end s es q \<Longrightarrow> at_end s' (es @ es') q"
proof -
  have p: "p \<le> length (sent es)" using assms(6) by (cases g) (auto split: if_splits)
  have rec: "receiver_ok (bc_receivers s q) (sent es) (gains q es)" for q
    using assms(1) by (simp add: receivers_ok_def)
  show "receivers_ok s' (es @ es')"
    unfolding receivers_ok_def
  proof
    fix q
    show "receiver_ok (bc_receivers s' q) (sent (es @ es')) (gains q (es @ es'))"
      using rec [of q] assms(4,6-9) p
      by (cases "q = r") (auto simp: s'_def receiver_ok_def replay_append)
  qed
  have "bo_receiver op \<noteq> r" if "bc_ops s n = Some op" "bo_stage op = BcQueued" for n op
    using bc_waitsD [OF assms(2) that] assms(4,5) by (metis option.inject order_less_irrefl)
  then show "bc_waits_ok s' (es @ es') ws"
    using assms(2,9) by (auto simp: s'_def bc_waits_ok_def bc_parked_def parked_once_def)
  show "users_ok s'" using assms(3,4) by (fastforce simp: s'_def users_ok_def)
  show "at_end s' (es @ es') q" if "at_end s es q" for q
    using that assms(4,5,9) by (auto simp: at_end_def s'_def)
qed

lemma bc_try_recv_ok:
  assumes "bc_inv s M es" "bc_live_receiver s r = Some rc"
  shows "bc_ok M es (bc_try_recv r s)"
proof -
  obtain ws where parts: "bc_ops_ok s M es" "receivers_ok s es" "users_ok s" "buffer_ok s es"
      "bc_waits_ok s es ws" "bc_senders_ok s M"
    using assms(1) by (rule bc_invE)
  have rc: "bc_receivers s r = Some rc" using assms(2) by (simp add: bc_live_receiver_Some)
  show ?thesis
  proof (cases "br_state rc \<and> br_pos rc < bc_next_seq s")
    case False
    have len: "bc_base s \<le> bc_next_seq s" by (simp add: bc_next_seq_def)
    show ?thesis
      by (rule bc_okI [where s' = s and owed = "[]" and es' = "[Bc_Try_Result r None]" and ws = ws])
        (use False len assms(2) parts in
          \<open>auto simp: bc_try_recv_def bc_ops_ok_def receivers_ok_def buffer_ok_def bc_waits_ok_def at_end_quiet\<close>)
  next
    case True
    then have behind: "br_pos rc < length (sent es)" using bc_next_seq_sent [OF parts(4)] by simp
    define g where "g = (if br_pos rc < bc_base s then Skip (bc_base s - br_pos rc)
      else Gain (bc_buffer s ! (br_pos rc - bc_base s)))"
    define p where "p = (if br_pos rc < bc_base s then bc_base s else br_pos rc + 1)"
    define last where "last = (if br_pos rc < bc_base s then Bc_Try_Lagged r (bc_base s - br_pos rc)
      else Bc_Try_Result r (Some (bc_buffer s ! (br_pos rc - bc_base s))))"
    define fs where "fs = [Got r None g, last]"
    let ?s = "s\<lparr>bc_receivers := (bc_receivers s)(r \<mapsto> rc\<lparr>br_pos := p\<rparr>)\<rparr>"
    have replayed: "replay (sent es) (br_pos rc) [g] = Some p"
      using behind parts(4) bc_buffer_nth [OF parts(4), of "br_pos rc"] by (auto simp: g_def p_def buffer_ok_def)
    have log: "gains q fs = (if q = r then [g] else [])" "sent fs = []" "got_by n fs = []" for q n
      by (auto simp: last_def fs_def)
    note moved = bc_move_cursor [OF parts(2,5,3) rc behind replayed, of fs]
    show ?thesis
    proof (rule bc_okI [where s' = ?s and owed = "[]" and es' = fs and ws = ws])
      show "bc_try_recv r s = Some (?s, [], fs)"
        using True assms(2) by (auto simp: bc_try_recv_def write_cursor_def g_def p_def last_def fs_def Let_def)
      have ends: "at_end ?s (es @ fs) q" if "at_end s es q" for q
        by (rule moved(4)) (use log that in simp_all)
      show "bc_ops_ok ?s (M + mset []) (es @ fs)"
        unfolding bc_ops_ok_def
      proof
        fix n
        show "bc_op_ok n (bc_ops ?s n) (bc_owes n (M + mset [])) (got_by n (es @ fs)) (at_end ?s (es @ fs))"
          using bc_op_ok_mono [OF bc_ops_okD [OF parts(1), of n] ends] log(3) by simp
      qed
      show "receivers_ok ?s (es @ fs)" "users_ok ?s" "bc_waits_ok ?s (es @ fs) ws"
        using moved(1-3) log by simp_all
      have "buffer_ok ?s (es @ fs) = buffer_ok s es" by (simp add: buffer_ok_def log)
      then show "buffer_ok ?s (es @ fs)" using parts(4) by simp
      show "bc_senders_ok ?s (M + mset [])" using parts(6) by (simp add: bc_senders_ok_def)
    qed
  qed
qed

section \<open>Arbitration of a receive\<close>

lemma duplicate_wait_iff:
  assumes "\<And>m. m \<in> set ms \<Longrightarrow> m \<noteq> n \<and> (\<exists>op. bc_live s m = Some op)"
  shows "duplicate_wait ms n r s = Some (\<exists>m\<in>set ms. \<exists>op. bc_live s m = Some op \<and> bo_receiver op = r)"
  using assms
proof (induction ms)
  case (Cons m ms)
  then obtain op where "bc_live s m = Some op" "m \<noteq> n" by fastforce
  then show ?case using Cons by auto
qed simp

lemma bc_parked_live:
  assumes "bc_ops_ok s M es" "bc_parked s m"
  obtains op where "bc_live s m = Some op" "bo_stage op = BcQueued"
proof -
  obtain op where op: "bc_ops s m = Some op" "bo_stage op = BcQueued"
    using assms(2) by (auto simp: bc_parked_def)
  then have "bo_alive op"
    using bc_ops_okD [OF assms(1), of m] by (auto simp: bc_op_ok_def bc_phase_def)
  then show thesis using op by (intro that) (simp_all add: bc_live_Some)
qed

lemma bc_arbitrate_ok:
  assumes "bc_inv s (add_mset (Bc_Arbitrate n) M) es"
  shows "bc_ok M es (bc_arbitrate n s)"
proof -
  obtain ws where parts: "bc_ops_ok s (add_mset (Bc_Arbitrate n) M) es" "receivers_ok s es" "users_ok s"
      "buffer_ok s es" "bc_waits_ok s es ws" "bc_senders_ok s (add_mset (Bc_Arbitrate n) M)"
    using assms(1) by (rule bc_invE)
  obtain op where op: "bc_ops s n = Some op" "bo_alive op" "bo_started op" "bo_signals op = []"
    "bc_owes n M = {#}" "bo_stage op \<noteq> BcQueued" "bo_stage op \<noteq> BcGone"
    and phase: "bc_phase n op {#Bc_Arbitrate n#} (got_by n es) (at_end s es)"
    by (rule bc_pending [OF parts(1), of n]) simp_all
  have init: "bo_stage op = BcInit" "bo_attached op" "got_by n es = []"
    using phase by (auto simp: bc_phase_def)
  have live: "bc_live s n = Some op" using op by (simp add: bc_live_Some)
  let ?r = "bo_receiver op"
  obtain rc where rc: "bc_receivers s ?r = Some rc" "br_alive rc" using parts(3) op by (fastforce simp: users_ok_def)
  have liverc: "bc_live_receiver s ?r = Some rc" using rc by (simp add: bc_live_receiver_Some)
  have pos: "br_pos rc \<le> length (sent es)" using receivers_okD [OF parts(2), of ?r] rc by (simp add: receiver_ok_def)
  have next_seq: "bc_next_seq s = length (sent es)" by (rule bc_next_seq_sent [OF parts(4)])
  have base: "bc_base s \<le> length (sent es)" using parts(4) by (simp add: buffer_ok_def)
  let ?at = "op\<lparr>bo_pos := br_pos rc\<rparr>"
  have resolved: "bc_ok M es (Some (bc_put n ?at s, [Bc_Signal n sig], []))"
    if "gained sig = []" "sig = Bc_Value None \<Longrightarrow> at_end s es ?r" for sig
  proof (rule bc_op_step [where n = n, OF assms bc_spent_owed _ _ _ _ _ _ _ _ _ _ op(1)])
    show "bc_op_ok n (Some ?at) (bc_owes n M + mset [Bc_Signal n sig]) (got_by n es) (at_end s es)"
      using op init that by (simp add: bc_op_ok_def bc_phase_def bc_fits_def)
    show "\<exists>ws'. bc_waits_ok (bc_put n ?at s) es ws'" if "bc_waits_ok s es ws" for ws
      using bc_same_waits [OF that op(1) op(6)] op(6) by simp
  qed simp_all
  show ?thesis
  proof (cases "bo_stop_requested op")
    case True
    then have "bc_arbitrate n s = Some (bc_put n ?at s, [Bc_Signal n Bc_Stopped], [])"
      using live liverc by (simp add: bc_arbitrate_def)
    then show ?thesis using resolved [of Bc_Stopped] by simp
  next
    case go: False
    show ?thesis
    proof (cases "br_pos rc < length (sent es)")
      case True
      define g where "g = (if br_pos rc < bc_base s then Skip (bc_base s - br_pos rc)
        else Gain (bc_buffer s ! (br_pos rc - bc_base s)))"
      define p where "p = (if br_pos rc < bc_base s then bc_base s else br_pos rc + 1)"
      define sig where "sig = (if br_pos rc < bc_base s then Bc_Lagged (bc_base s - br_pos rc)
        else Bc_Value (Some (bc_buffer s ! (br_pos rc - bc_base s))))"
      let ?es = "[Got ?r (Some n) g]"
      let ?op = "op\<lparr>bo_pos := p\<rparr>"
      let ?t = "s\<lparr>bc_receivers := (bc_receivers s)(?r \<mapsto> rc\<lparr>br_pos := p\<rparr>)\<rparr>"
      let ?s = "bc_put n ?op ?t"
      have replayed: "replay (sent es) (br_pos rc) [g] = Some p"
        using True base bc_buffer_nth [OF parts(4), of "br_pos rc"] by (auto simp: g_def p_def)
      note moved = bc_move_cursor [OF parts(2,5,3) rc(1) True replayed, of ?es]
      show ?thesis
      proof (rule bc_okI [where s' = ?s and owed = "[Bc_Signal n sig]" and es' = ?es and ws = ws])
        show "bc_arbitrate n s = Some (?s, [Bc_Signal n sig], ?es)"
          using True go live liverc next_seq
          by (auto simp: bc_arbitrate_def write_cursor_def bc_live_receiver_def rc bc_put_def g_def p_def sig_def
                Let_def)
        have ends: "at_end s es q \<Longrightarrow> at_end ?s (es @ ?es) q" for q
          using moved(4) by (simp add: at_end_def)
        show "bc_ops_ok ?s (M + mset [Bc_Signal n sig]) (es @ ?es)"
          by (rule bc_ops_ok_change [OF parts(1), of n])
            (use op init ends in \<open>auto simp: bc_op_ok_def bc_phase_def bc_fits_def sig_def g_def\<close>)
        show "receivers_ok ?s (es @ ?es)" using moved(1) by (simp add: receivers_ok_def)
        show "users_ok ?s" using moved(3) op by (auto simp: users_ok_def split: if_splits)
        have "buffer_ok ?s (es @ ?es) = buffer_ok s es"
          by (simp only: buffer_ok_def bc_log_simps bc_put_simps) simp
        then show "buffer_ok ?s (es @ ?es)" using parts(4) by simp
        have "\<not> bc_parked ?t n" using op by (simp add: bc_parked_def)
        then show "bc_waits_ok ?s (es @ ?es) ws"
          using bc_waits_put [of ?t "es @ ?es" ws n ?op] moved(2) op(6) by simp
        show "bc_senders_ok ?s (M + mset [Bc_Signal n sig])"
          by (rule bc_senders_okI [OF bc_spent_owes(2) [OF bc_spent_owed parts(6)]]) auto
      qed
    next
      case False
      then have at: "br_pos rc = length (sent es)" using pos by simp
      show ?thesis
      proof (cases "bc_closed s")
        case True
        then have "bc_arbitrate n s = Some (bc_put n ?at s, [Bc_Signal n (Bc_Value None)], [])"
          using go live liverc at next_seq base by (simp add: bc_arbitrate_def Let_def)
        then show ?thesis using resolved [of "Bc_Value None"] True rc at by (simp add: at_end_def)
      next
        case opened: False
        have rep: "represents (bc_waiters s) ws" and members: "\<And>m. m \<in> set ws \<longleftrightarrow> bc_parked s m"
          using parts(5) by (auto simp: bc_waits_ok_def)
        have lives: "m \<noteq> n \<and> (\<exists>op. bc_live s m = Some op)" if "m \<in> set ws" for m
          using bc_parked_live [OF parts(1)] members that op by (metis bc_parked_def option.inject)
        define dup where "dup = (\<exists>m\<in>set ws. \<exists>op. bc_live s m = Some op \<and> bo_receiver op = ?r)"
        have duplicate: "duplicate_wait ws n ?r s = Some dup"
          unfolding dup_def by (rule duplicate_wait_iff [OF lives])
        show ?thesis
        proof (cases dup)
          case True
          then have "bc_arbitrate n s = Some (bc_put n ?at s, [Bc_Signal n Bc_Violation], [])"
            using go live liverc at next_seq base opened duplicate wl.holds_members [OF rep]
            by (simp add: bc_arbitrate_def Let_def)
          then show ?thesis using resolved [of Bc_Violation] by simp
        next
          case alone: False
          let ?op = "op\<lparr>bo_pos := br_pos rc, bo_stage := BcQueued\<rparr>"
          let ?s = "s\<lparr>bc_waiters := queue_node n (bc_waiters s)\<rparr>"
          have single: "bo_receiver op' \<noteq> ?r" if "bc_ops s m = Some op'" "bo_stage op' = BcQueued" for m op'
          proof -
            have parked: "bc_parked s m" using that by (auto simp: bc_parked_def)
            then have "bc_live s m = Some op'"
              using bc_parked_live [OF parts(1) parked] that(1) by (metis bc_live_Some option.inject)
            then show ?thesis using alone members parked unfolding dup_def by blast
          qed
          show ?thesis
          proof (rule bc_op_step [where n = n, OF assms bc_spent_owed _ _ _ _ _ _ _ _ _ _ op(1)])
            show "bc_arbitrate n s = Some (bc_put n ?op ?s, [], [])"
              using go live liverc at next_seq base opened duplicate alone wl.holds_members [OF rep]
              by (simp add: bc_arbitrate_def Let_def)
            show "bc_op_ok n (Some ?op) (bc_owes n M + mset []) (got_by n es) (at_end s es)"
              using op init by (simp add: bc_op_ok_def bc_phase_def)
            show "\<exists>ws'. bc_waits_ok (bc_put n ?op ?s) es ws'" if "bc_waits_ok s es ws" for ws
              using bc_waits_park [OF that, of n ?op rc] op opened at rc single by (auto simp: bc_parked_def)
          qed simp_all
        qed
      qed
    qed
  qed
qed

section \<open>Sending and closing\<close>

definition receiver_of :: "'a bc_state \<Rightarrow> nat \<Rightarrow> nat" where
  "receiver_of s n = (case bc_ops s n of None \<Rightarrow> 0 | Some op \<Rightarrow> bo_receiver op)"

definition woken_op :: "'a \<Rightarrow> nat \<Rightarrow> 'a bc_op \<Rightarrow> 'a bc_op" where
  "woken_op v p op = op\<lparr>bo_stage := BcDone, bo_outcome := BcValue, bo_held := Some v, bo_pos := p\<rparr>"

text \<open>What waking the nodes \<open>ns\<close> with the value \<open>v\<close> at position \<open>p - 1\<close> makes of the state.\<close>

definition woken_state :: "nat list \<Rightarrow> 'a \<Rightarrow> nat \<Rightarrow> wait_list \<Rightarrow> 'a bc_state \<Rightarrow> 'a bc_state" where
  "woken_state ns v p w s = s\<lparr>bc_waiters := w,
     bc_ops := (\<lambda>n. if n \<in> set ns then map_option (woken_op v p) (bc_ops s n) else bc_ops s n),
     bc_receivers := (\<lambda>r. if r \<in> receiver_of s ` set ns
       then map_option (\<lambda>rc. rc\<lparr>br_pos := p\<rparr>) (bc_receivers s r) else bc_receivers s r)\<rparr>"

lemma wake_nodes_effect:
  assumes "represents (bc_waiters s) ns" "\<not> bc_closed s" "bc_base s \<le> L"
    "L - bc_base s < length (bc_buffer s)" "bc_buffer s ! (L - bc_base s) = v"
    "\<And>n. n \<in> set ns \<Longrightarrow> \<exists>op rc. bc_live s n = Some op \<and> bo_pos op = L \<and>
       bc_live_receiver s (bo_receiver op) = Some rc"
  shows "\<exists>w. represents w [] \<and> wake_nodes ns s = Some (woken_state ns v (Suc L) w s,
           map (\<lambda>n. Got (receiver_of s n) (Some n) (Gain v)) ns)"
  using assms
proof (induction ns arbitrary: s)
  case Nil
  then show ?case by (auto simp: woken_state_def)
next
  case (Cons n ns)
  obtain op rc where op: "bc_live s n = Some op" "bo_pos op = L" "bc_live_receiver s (bo_receiver op) = Some rc"
    using Cons.prems(6) [of n] by auto
  define r where "r = bo_receiver op"
  define t where "t = (bc_put n (woken_op v (Suc L) op) (s\<lparr>bc_waiters := unlink_node n (bc_waiters s)\<rparr>))
    \<lparr>bc_receivers := (bc_receivers s)(r \<mapsto> rc\<lparr>br_pos := Suc L\<rparr>)\<rparr>"
  have fresh: "n \<notin> set ns" using wl.holds_distinct [OF Cons.prems(1)] by simp
  have res: "resolve n (s\<lparr>bc_waiters := unlink_node n (bc_waiters s)\<rparr>) = Some (t, [Got r (Some n) (Gain v)])"
    using op Cons.prems(2-5)
    by (simp add: resolve_def bc_live_def write_cursor_def bc_live_receiver_def bc_put_def t_def r_def
          woken_op_def Let_def)
  have step: "\<exists>w. represents w [] \<and> wake_nodes ns t = Some (woken_state ns v (Suc L) w t,
           map (\<lambda>n. Got (receiver_of t n) (Some n) (Gain v)) ns)"
  proof (rule Cons.IH)
    show "represents (bc_waiters t) ns" using wl.holds_dequeue [OF Cons.prems(1)] by (simp add: t_def)
    show "\<exists>op rc. bc_live t m = Some op \<and> bo_pos op = L \<and> bc_live_receiver t (bo_receiver op) = Some rc"
      if "m \<in> set ns" for m
    proof -
      obtain op' rc' where "bc_live s m = Some op'" "bo_pos op' = L"
        "bc_live_receiver s (bo_receiver op') = Some rc'"
        using Cons.prems(6) [of m] \<open>m \<in> set ns\<close> by auto
      then show ?thesis
        using \<open>m \<in> set ns\<close> fresh op(3)
        by (auto simp: t_def bc_live_def bc_live_receiver_def r_def split: option.splits if_splits)
    qed
  qed (use Cons.prems(2-5) in \<open>simp_all add: t_def\<close>)
  then obtain w where w: "represents w []" "wake_nodes ns t = Some (woken_state ns v (Suc L) w t,
           map (\<lambda>n. Got (receiver_of t n) (Some n) (Gain v)) ns)" by blast
  have ops: "bc_ops s n = Some op" using op(1) by (simp add: bc_live_Some)
  have recs: "bc_receivers s r = Some rc" using op(3) by (simp add: bc_live_receiver_Some r_def)
  have of_t: "receiver_of t m = receiver_of s m" for m
    using ops by (simp add: receiver_of_def t_def woken_op_def)
  have of_n: "receiver_of s n = r" using ops by (simp add: receiver_of_def r_def)
  have "woken_state ns v (Suc L) w t = woken_state (n # ns) v (Suc L) w s"
  proof (rule bc_state.equality)
    show "bc_ops (woken_state ns v (Suc L) w t) = bc_ops (woken_state (n # ns) v (Suc L) w s)"
    proof
      fix m
      show "bc_ops (woken_state ns v (Suc L) w t) m = bc_ops (woken_state (n # ns) v (Suc L) w s) m"
        using fresh ops by (cases "m = n") (simp_all add: woken_state_def t_def)
    qed
    show "bc_receivers (woken_state ns v (Suc L) w t) = bc_receivers (woken_state (n # ns) v (Suc L) w s)"
    proof
      fix q
      show "bc_receivers (woken_state ns v (Suc L) w t) q = bc_receivers (woken_state (n # ns) v (Suc L) w s) q"
        using recs of_n by (cases "q = r") (auto simp: woken_state_def of_t, auto simp: t_def)
    qed
  qed (simp_all add: woken_state_def t_def bc_put_def)
  then show ?case using w res of_t of_n by (auto intro!: exI [of _ w])
qed

lemma evict_spec:
  assumes "cap > 0" "length vs \<le> cap + 1"
  shows "evict vs cap base = (if length vs > cap then (tl vs, base + 1) else (vs, base))"
  using assms by (cases vs; cases "tl vs") auto

text \<open>The buffer after one more value: never empty, ending in the new value.\<close>

lemma buffer_ok_push:
  assumes "buffer_ok s es"
    "evict (bc_buffer s @ [v]) (bc_capacity s) (bc_base s) = (buf, base)"
    "sent es' = [v]"
  shows "buffer_ok (s\<lparr>bc_buffer := buf, bc_base := base\<rparr>) (es @ es')" "base \<le> length (sent es)"
    "length (sent es) - base < length buf" "buf ! (length (sent es) - base) = v"
proof -
  have old: "bc_buffer s = drop (bc_base s) (sent es)" "bc_base s \<le> length (sent es)"
    "length (bc_buffer s) \<le> bc_capacity s" "0 < bc_capacity s"
    using assms(1) unfolding buffer_ok_def by blast+
  have ev: "(buf, base) = (if length (bc_buffer s @ [v]) > bc_capacity s
      then (tl (bc_buffer s @ [v]), bc_base s + 1) else (bc_buffer s @ [v], bc_base s))"
    using evict_spec [of "bc_capacity s" "bc_buffer s @ [v]" "bc_base s"] old(3,4) assms(2) by simp
  have whole: "bc_buffer s @ [v] = drop (bc_base s) (sent es @ [v])" using old(1,2) by simp
  have "buf = drop base (sent es @ [v]) \<and> base \<le> length (sent es) \<and> length buf \<le> bc_capacity s"
  proof (cases "length (bc_buffer s @ [v]) > bc_capacity s")
    case True
    have "length (bc_buffer s) > 0" using True old(4) by (cases "bc_buffer s") auto
    then have "bc_base s < length (sent es)" using old(1) by simp
    then show ?thesis
      using ev True old(1,3) whole by (simp add: drop_Suc tl_drop del: drop_append)
  next
    case False
    then show ?thesis using ev old whole by simp
  qed
  then show "buffer_ok (s\<lparr>bc_buffer := buf, bc_base := base\<rparr>) (es @ es')" "base \<le> length (sent es)"
    "length (sent es) - base < length buf" "buf ! (length (sent es) - base) = v"
    using old(4) assms(3) by (auto simp: buffer_ok_def nth_append)
qed

lemma bc_waits_none:
  "(\<And>n. \<not> bc_parked s n) \<Longrightarrow> represents (bc_waiters s) [] \<Longrightarrow> bc_waits_ok s es []"
  by (auto simp: bc_waits_ok_def parked_once_def bc_parked_def)

lemma bc_owes_completions:
  "distinct ns \<Longrightarrow> bc_owes n (image_mset Bc_Complete (mset ns)) =
     (if n \<in> set ns then {#Bc_Complete n#} else {#})"
  by (induction ns) auto

lemma wake_log:
  assumes "distinct ns" "inj_on f (set ns)" "fs = map (\<lambda>n. Got (f n) (Some n) (Gain v)) ns"
  shows "sent fs = []" "got_by n fs = (if n \<in> set ns then [Gain v] else [])"
    "gains r fs = (if r \<in> f ` set ns then [Gain v] else [])"
  using assms by (induction ns arbitrary: fs) auto

lemma bc_try_send_ok:
  assumes "bc_inv s M es"
  shows "bc_ok M es (bc_try_send v s)"
proof -
  obtain ws where parts: "bc_ops_ok s M es" "receivers_ok s es" "users_ok s" "buffer_ok s es"
      "bc_waits_ok s es ws" "bc_senders_ok s M"
    using assms by (rule bc_invE)
  show ?thesis
  proof (cases "bc_closed s \<or> bc_receiver_count s = 0")
    case True
    have "bc_ok M es (Some (s, [], [Bc_Send_Result v False]))"
      by (rule bc_okI [where s' = s and owed = "[]" and es' = "[Bc_Send_Result v False]" and ws = ws])
        (use parts in
          \<open>auto simp: bc_ops_ok_def receivers_ok_def buffer_ok_def bc_waits_ok_def at_end_quiet\<close>)
    then show ?thesis using True by (auto simp: bc_try_send_def)
  next
    case False
    define L where "L = length (sent es)"
    obtain buf base where ev: "evict (bc_buffer s @ [v]) (bc_capacity s) (bc_base s) = (buf, base)"
      by (cases "evict (bc_buffer s @ [v]) (bc_capacity s) (bc_base s)") auto
    let ?t = "s\<lparr>bc_buffer := buf, bc_base := base\<rparr>"
    have rep: "represents (bc_waiters s) ws" and once: "parked_once s"
      and members: "\<And>m. m \<in> set ws \<longleftrightarrow> bc_parked s m"
      using parts(5) by (auto simp: bc_waits_ok_def)
    have dist: "distinct ws" by (rule wl.holds_distinct [OF rep])
    have parked: "\<exists>op rc. bc_ops s n = Some op \<and> bo_alive op \<and> bo_stage op = BcQueued \<and> bo_pos op = L \<and>
        bc_receivers s (bo_receiver op) = Some rc \<and> br_alive rc \<and> br_pos rc = L" if "n \<in> set ws" for n
    proof -
      have "bc_parked s n" using members that by simp
      then obtain op where op: "bc_live s n = Some op" "bo_stage op = BcQueued"
        by (rule bc_parked_live [OF parts(1)])
      then have op': "bc_ops s n = Some op" "bo_alive op" by (simp_all add: bc_live_Some)
      obtain rc where "bo_pos op = L" "bc_receivers s (bo_receiver op) = Some rc" "br_pos rc = L"
        unfolding L_def by (rule bc_waitsD [OF parts(5) op'(1) op(2)])
      moreover have "br_alive rc" using parts(3) op' calculation(2) by (fastforce simp: users_ok_def)
      ultimately show ?thesis using op op' by blast
    qed
    have inj: "inj_on (receiver_of s) (set ws)"
    proof (rule inj_onI)
      fix m n
      assume mn: "m \<in> set ws" "n \<in> set ws" "receiver_of s m = receiver_of s n"
      obtain a where a: "bc_ops s m = Some a" "bo_stage a = BcQueued" using parked [OF mn(1)] by (elim exE conjE)
      obtain b where b: "bc_ops s n = Some b" "bo_stage b = BcQueued" using parked [OF mn(2)] by (elim exE conjE)
      have "bo_receiver a = bo_receiver b" using mn(3) a(1) b(1) by (simp add: receiver_of_def)
      with a b show "m = n" using once unfolding parked_once_def by blast
    qed
    let ?got = "map (\<lambda>n. Got (receiver_of s n) (Some n) (Gain v)) ws"
    let ?es = "Sent v # ?got @ [Bc_Send_Result v True]"
    note log = wake_log [where v = v, OF dist inj refl]
    have sent: "sent ?es = [v]" using log(1) by simp
    note buf = buffer_ok_push [OF parts(4) ev sent]
    obtain w where w: "represents w []" and woke: "wake_nodes ws ?t = Some (woken_state ws v (Suc L) w ?t, ?got)"
    proof -
      have "receiver_of ?t = receiver_of s" by (simp add: receiver_of_def fun_eq_iff)
      moreover have "\<exists>w. represents w [] \<and> wake_nodes ws ?t = Some (woken_state ws v (Suc L) w ?t,
           map (\<lambda>n. Got (receiver_of ?t n) (Some n) (Gain v)) ws)"
      proof (rule wake_nodes_effect)
        show "\<exists>op rc. bc_live ?t n = Some op \<and> bo_pos op = L \<and> bc_live_receiver ?t (bo_receiver op) = Some rc"
          if "n \<in> set ws" for n
          using parked [OF that] by (auto simp: bc_live_def bc_live_receiver_def)
      qed (use rep False buf in \<open>simp_all add: L_def\<close>)
      ultimately show thesis using that by auto
    qed
    let ?s = "woken_state ws v (Suc L) w ?t"
    have same: "bc_closed ?s = bc_closed s" "bc_senders ?s = bc_senders s" "bc_connected ?s = bc_connected s"
      "bc_buffer ?s = buf" "bc_base ?s = base" "bc_capacity ?s = bc_capacity s" "bc_waiters ?s = w"
      by (simp_all add: woken_state_def)
    have of_t: "receiver_of ?t = receiver_of s" by (simp add: receiver_of_def fun_eq_iff)
    have ops': "bc_ops ?s n = (if n \<in> set ws then map_option (woken_op v (Suc L)) (bc_ops s n) else bc_ops s n)" for n
      by (simp add: woken_state_def)
    have recs': "bc_receivers ?s r = (if r \<in> receiver_of s ` set ws
        then map_option (\<lambda>rc. rc\<lparr>br_pos := Suc L\<rparr>) (bc_receivers s r) else bc_receivers s r)" for r
      by (simp add: woken_state_def of_t)
    have got: "got_by n ?es = (if n \<in> set ws then [Gain v] else [])"
      "gains r ?es = (if r \<in> receiver_of s ` set ws then [Gain v] else [])" for n r
      using log(2) [of n] log(3) [of r] by simp_all
    have recv_parked: "\<exists>rc. bc_receivers s r = Some rc \<and> br_pos rc = L" if "r \<in> receiver_of s ` set ws" for r
      using that parked by (fastforce simp: receiver_of_def)
    show ?thesis
    proof (rule bc_okI [where s' = ?s and owed = "map Bc_Complete ws" and es' = ?es and ws = "[]"])
      show "bc_try_send v s = Some (?s, map Bc_Complete ws, ?es)"
        using False ev woke wl.holds_members [OF rep] by (simp add: bc_try_send_def)
      show "bc_ops_ok ?s (M + mset (map Bc_Complete ws)) (es @ ?es)"
        unfolding bc_ops_ok_def
      proof
        fix n
        have old: "bc_op_ok n (bc_ops s n) (bc_owes n M) (got_by n es) (at_end s es)"
          by (rule bc_ops_okD [OF parts(1)])
        have no_end: "\<not> at_end s es r" for r using False by (simp add: at_end_def)
        have "bc_op_ok n (bc_ops ?s n) (bc_owes n M + (if n \<in> set ws then {#Bc_Complete n#} else {#}))
          (got_by n es @ (if n \<in> set ws then [Gain v] else [])) (at_end ?s (es @ ?es))"
        proof (cases "n \<in> set ws")
          case True
          then obtain op where op: "bc_ops s n = Some op" "bo_alive op" "bo_stage op = BcQueued"
            using parked by blast
          then have "bo_started op" "bo_signals op = []" "bc_owes n M = {#}" "got_by n es = []"
            using old by (simp_all add: bc_op_ok_def bc_phase_def)
          then show ?thesis
            using True op
            by (simp add: ops' bc_op_ok_def bc_phase_def woken_op_def bc_fits_def outcome_signal_def)
        next
          case False
          then show ?thesis using bc_op_ok_mono [OF old] no_end by (simp add: ops')
        qed
        moreover have "bc_owes n (M + mset (map Bc_Complete ws)) =
            bc_owes n M + (if n \<in> set ws then {#Bc_Complete n#} else {#})"
          using bc_owes_completions [OF dist, of n] by simp
        moreover have "got_by n (es @ ?es) = got_by n es @ (if n \<in> set ws then [Gain v] else [])"
          using got(1) [of n] by (simp only: bc_log_simps(9))
        ultimately show "bc_op_ok n (bc_ops ?s n) (bc_owes n (M + mset (map Bc_Complete ws))) (got_by n (es @ ?es))
            (at_end ?s (es @ ?es))"
          by (simp only:)
      qed
      show "receivers_ok ?s (es @ ?es)"
        unfolding receivers_ok_def
      proof
        fix r
        have old: "receiver_ok (bc_receivers s r) (sent es) (gains r es)" by (rule receivers_okD [OF parts(2)])
        have "receiver_ok (bc_receivers ?s r) (sent es @ [v])
            (gains r es @ (if r \<in> receiver_of s ` set ws then [Gain v] else []))"
        proof (cases "r \<in> receiver_of s ` set ws")
          case True
          then obtain rc where rc: "bc_receivers s r = Some rc" "br_pos rc = L" using recv_parked by blast
          have "length (sent es) = L" by (simp add: L_def)
          moreover have "(sent es @ [v]) ! L = v" by (simp add: L_def)
          moreover have "replay (sent es @ [v]) (br_start rc) (gains r es) = Some L"
            by (rule replay_grows) (use old rc in \<open>simp add: receiver_ok_def\<close>)
          ultimately show ?thesis using True rc by (simp add: recs' receiver_ok_def replay_append)
        next
          case False
          then show ?thesis
            using old by (auto simp: recs' receiver_ok_def replay_grows split: option.splits)
        qed
        then show "receiver_ok (bc_receivers ?s r) (sent (es @ ?es)) (gains r (es @ ?es))"
          using sent got(2) [of r] by (simp only: bc_log_simps(7,8))
      qed
      show "users_ok ?s"
        unfolding users_ok_def
      proof (intro allI impI)
        fix n op
        assume "bc_ops ?s n = Some op"
        then obtain op0 where op0: "bc_ops s n = Some op0" "bo_receiver op = bo_receiver op0" "bo_alive op = bo_alive op0"
          by (auto simp: ops' woken_op_def split: if_splits)
        then show "n \<in> set (bc_connected ?s) \<and>
            (\<exists>rc. bc_receivers ?s (bo_receiver op) = Some rc \<and> (bo_alive op \<longrightarrow> br_alive rc))"
          using parts(3) same(3) by (fastforce simp: users_ok_def recs')
      qed
      have "buffer_ok ?s (es @ ?es) = buffer_ok ?t (es @ ?es)"
        by (simp only: buffer_ok_def same) simp
      then show "buffer_ok ?s (es @ ?es)" using buf(1) by simp
      have none: "\<not> bc_parked ?s n" for n
        using members [of n] by (auto simp: bc_parked_def ops' woken_op_def split: if_splits)
      show "bc_waits_ok ?s (es @ ?es) []" by (rule bc_waits_none [OF none]) (simp add: same w)
      show "bc_senders_ok ?s (M + mset (map Bc_Complete ws))"
        by (rule bc_senders_okI [OF parts(6)]) (auto simp: same)
    qed
  qed
qed

lemma close_nodes_effect:
  assumes "represents (bc_waiters s) ns" "\<And>n. n \<in> set ns \<Longrightarrow> \<exists>op. bc_live s n = Some op"
  shows "\<exists>w. represents w [] \<and> close_nodes ns s = Some (s\<lparr>bc_waiters := w,
     bc_ops := (\<lambda>n. if n \<in> set ns then map_option (\<lambda>op. op\<lparr>bo_stage := BcDone, bo_outcome := BcClosed\<rparr>) (bc_ops s n)
                else bc_ops s n)\<rparr>)"
  using assms
proof (induction ns arbitrary: s)
  case Nil
  then show ?case by auto
next
  case (Cons n ns)
  obtain op where op: "bc_live s n = Some op" using Cons.prems(2) [of n] by auto
  define t where "t = bc_put n (op\<lparr>bo_stage := BcDone, bo_outcome := BcClosed\<rparr>)
    (s\<lparr>bc_waiters := unlink_node n (bc_waiters s)\<rparr>)"
  have fresh: "n \<notin> set ns" using wl.holds_distinct [OF Cons.prems(1)] by simp
  have "\<exists>w. represents w [] \<and> close_nodes ns t = Some (t\<lparr>bc_waiters := w,
     bc_ops := (\<lambda>n. if n \<in> set ns then map_option (\<lambda>op. op\<lparr>bo_stage := BcDone, bo_outcome := BcClosed\<rparr>) (bc_ops t n)
                else bc_ops t n)\<rparr>)"
  proof (rule Cons.IH)
    show "represents (bc_waiters t) ns" using wl.holds_dequeue [OF Cons.prems(1)] by (simp add: t_def)
    show "\<exists>op. bc_live t m = Some op" if "m \<in> set ns" for m
      using Cons.prems(2) [of m] that fresh by (auto simp: t_def bc_live_def split: option.splits)
  qed
  then obtain w where w: "represents w []" "close_nodes ns t = Some (t\<lparr>bc_waiters := w,
     bc_ops := (\<lambda>n. if n \<in> set ns then map_option (\<lambda>op. op\<lparr>bo_stage := BcDone, bo_outcome := BcClosed\<rparr>) (bc_ops t n)
                else bc_ops t n)\<rparr>)" by blast
  have "close_nodes (n # ns) s = close_nodes ns t" using op by (simp add: t_def)
  moreover have "bc_ops s n = Some op" using op by (simp add: bc_live_Some)
  ultimately show ?case
    using w fresh by (intro exI [of _ w]) (auto simp: t_def bc_put_def fun_eq_iff)
qed

lemma bc_close_ok:
  assumes "bc_inv s M0 es" "M0 = M \<or> M0 = add_mset Bc_Close M"
  shows "bc_ok M es (bc_close s)"
proof -
  obtain ws where inv: "bc_ops_ok s M0 es" "receivers_ok s es" "users_ok s" "buffer_ok s es"
      "bc_waits_ok s es ws" "bc_senders_ok s M0"
    using assms(1) by (rule bc_invE)
  have ops: "bc_ops_ok s M es" and owable: "\<forall>a\<in>#M. bc_owable a"
    using inv(1,6) assms(2) by (auto simp: bc_ops_ok_def bc_senders_ok_def)
  show ?thesis
  proof (cases "bc_closed s")
    case True
    have "bc_ok M es (Some (s, [], []))"
      by (rule bc_okI [where s' = s and owed = "[]" and es' = "[]" and ws = ws])
        (use inv ops owable True in \<open>auto simp: bc_senders_ok_def\<close>)
    then show ?thesis using True by (simp add: bc_close_def)
  next
    case False
    let ?t = "s\<lparr>bc_closed := True\<rparr>"
    have rep: "represents (bc_waiters s) ws" and members: "\<And>m. m \<in> set ws \<longleftrightarrow> bc_parked s m"
      using inv(5) by (auto simp: bc_waits_ok_def)
    have dist: "distinct ws" by (rule wl.holds_distinct [OF rep])
    have live: "\<exists>op. bc_live s n = Some op" if "n \<in> set ws" for n
      using bc_parked_live [OF ops] members that by metis
    define closed_op :: "'a bc_op \<Rightarrow> 'a bc_op" where
      "closed_op = (\<lambda>op. op\<lparr>bo_stage := BcDone, bo_outcome := BcClosed\<rparr>)"
    obtain w where w: "represents w []"
      and closed: "close_nodes ws ?t = Some (?t\<lparr>bc_waiters := w,
        bc_ops := (\<lambda>n. if n \<in> set ws then map_option closed_op (bc_ops ?t n) else bc_ops ?t n)\<rparr>)"
    proof -
      have "\<exists>op. bc_live ?t n = Some op" if "n \<in> set ws" for n
        using live [OF that] by (simp add: bc_live_def)
      then show thesis
        using close_nodes_effect [of ?t ws] rep that unfolding closed_op_def by auto
    qed
    let ?s = "?t\<lparr>bc_waiters := w,
        bc_ops := (\<lambda>n. if n \<in> set ws then map_option closed_op (bc_ops ?t n) else bc_ops ?t n)\<rparr>"
    have ends: "at_end ?s es r" if "at_end s es r" for r using that by (simp add: at_end_def)
    show ?thesis
    proof (rule bc_okI [where s' = ?s and owed = "map Bc_Complete ws" and es' = "[]" and ws = "[]"])
      show "bc_close s = Some (?s, map Bc_Complete ws, [])"
        using False closed wl.holds_members [OF rep] by (simp add: bc_close_def)
      show "bc_ops_ok ?s (M + mset (map Bc_Complete ws)) (es @ [])"
        unfolding bc_ops_ok_def
      proof
        fix n
        have old: "bc_op_ok n (bc_ops s n) (bc_owes n M) (got_by n es) (at_end s es)"
          by (rule bc_ops_okD [OF ops])
        have "bc_op_ok n (bc_ops ?s n) (bc_owes n M + (if n \<in> set ws then {#Bc_Complete n#} else {#}))
          (got_by n es) (at_end ?s es)"
        proof (cases "n \<in> set ws")
          case True
          then obtain op where op: "bc_ops s n = Some op" "bo_stage op = BcQueued"
            using members by (auto simp: bc_parked_def)
          then have "bo_started op" "bo_alive op" "bo_signals op = []" "bc_owes n M = {#}" "got_by n es = []"
            using old by (simp_all add: bc_op_ok_def bc_phase_def)
          moreover obtain rc where "bc_receivers s (bo_receiver op) = Some rc" "br_pos rc = length (sent es)"
            by (rule bc_waitsD [OF inv(5) op])
          ultimately show ?thesis
            using True op
            by (simp add: bc_op_ok_def bc_phase_def closed_op_def bc_fits_def outcome_signal_def at_end_def)
        next
          case False
          then show ?thesis using bc_op_ok_mono [OF old ends] by simp
        qed
        moreover have "bc_owes n (M + mset (map Bc_Complete ws)) =
            bc_owes n M + (if n \<in> set ws then {#Bc_Complete n#} else {#})"
          using bc_owes_completions [OF dist, of n] by simp
        ultimately show "bc_op_ok n (bc_ops ?s n) (bc_owes n (M + mset (map Bc_Complete ws)))
            (got_by n (es @ [])) (at_end ?s (es @ []))"
          by (simp only: append_Nil2)
      qed
      show "receivers_ok ?s (es @ [])" using inv(2) by (simp add: receivers_ok_def)
      show "users_ok ?s"
        using inv(3) by (auto simp: users_ok_def closed_op_def split: if_splits)
      have "buffer_ok ?s es = buffer_ok s es" by (simp add: buffer_ok_def)
      then show "buffer_ok ?s (es @ [])" using inv(4) by simp
      have none: "\<not> bc_parked ?s n" for n
        using members [of n] by (auto simp: bc_parked_def closed_op_def split: if_splits)
      show "bc_waits_ok ?s (es @ []) []" by (rule bc_waits_none [OF none]) (simp add: w)
      show "bc_senders_ok ?s (M + mset (map Bc_Complete ws))"
        using owable by (auto simp: bc_senders_ok_def)
    qed
  qed
qed

lemma bc_copy_sender_ok:
  assumes "bc_inv s M es"
  shows "bc_ok M es (bc_copy_sender s)"
proof -
  obtain ws where inv: "bc_ops_ok s M es" "receivers_ok s es" "users_ok s" "buffer_ok s es"
      "bc_waits_ok s es ws" "bc_senders_ok s M"
    using assms by (rule bc_invE)
  let ?s = "s\<lparr>bc_senders := bc_senders s + 1\<rparr>"
  have "at_end ?s es = at_end s es" by (simp add: at_end_def fun_eq_iff)
  then show ?thesis
    by (intro bc_okI [where s' = ?s and owed = "[]" and es' = "[]" and ws = ws])
      (use inv in \<open>auto simp: bc_copy_sender_def bc_ops_ok_def receivers_ok_def users_ok_def buffer_ok_def
         bc_waits_ok_def bc_parked_def parked_once_def bc_senders_ok_def\<close>)
qed

lemma bc_release_sender_ok:
  assumes "bc_inv s M es" "bc_senders s > 0"
  shows "bc_ok M es (bc_release_sender s)"
proof -
  obtain ws where inv: "bc_ops_ok s M es" "receivers_ok s es" "users_ok s" "buffer_ok s es"
      "bc_waits_ok s es ws" "bc_senders_ok s M"
    using assms(1) by (rule bc_invE)
  let ?s = "s\<lparr>bc_senders := bc_senders s - 1\<rparr>"
  have "at_end ?s es = at_end s es" by (simp add: at_end_def fun_eq_iff)
  then show ?thesis
    by (intro bc_okI [where s' = ?s and owed = "if bc_senders s = 1 then [Bc_Close] else []" and es' = "[]" and
          ws = ws])
      (use inv assms(2) in \<open>auto simp: bc_release_sender_def bc_ops_ok_def receivers_ok_def users_ok_def
         buffer_ok_def bc_waits_ok_def bc_parked_def parked_once_def bc_senders_ok_def\<close>)
qed

section \<open>Every interleaving\<close>

lemma bc_inv_init:
  assumes "broadcast_channel cap = Some s"
  shows "bc_inv s {#} []"
proof -
  have s: "bc_ops s = (\<lambda>_. None)" "bc_receivers s = [0 \<mapsto> new_receiver 0]" "bc_buffer s = []" "bc_base s = 0"
    "bc_capacity s = cap" "0 < cap" "bc_waiters s = empty_wait" "bc_senders s = 1"
    using assms by (auto simp: broadcast_channel_def split: if_splits)
  have "bc_waits_ok s [] []"
    by (rule bc_waits_none) (simp_all add: s bc_parked_def wl.holds_empty)
  then show ?thesis
    unfolding bc_inv_def
    by (auto simp: s bc_ops_ok_def bc_op_ok_def receivers_ok_def receiver_ok_def users_ok_def buffer_ok_def
          bc_senders_ok_def new_receiver_def)
qed

lemma bc_call_ok:
  assumes "bc_inv s M es" "bc_callable a s"
  shows "bc_ok M es (bc_exec a s)"
  using assms
  by (cases a)
    (auto split: option.splits intro: bc_try_send_ok bc_close_ok bc_copy_sender_ok bc_release_sender_ok
       bc_subscribe_ok release_receiver_ok bc_try_recv_ok bc_connect_ok bc_start_ok bc_stop_ok bc_destroy_ok)

lemma bc_run_ok:
  assumes "bc_inv s (add_mset a M) es"
  shows "bc_ok M es (bc_exec a s)"
proof -
  have "bc_owable a" using assms by (auto simp: bc_inv_def bc_senders_ok_def)
  then show ?thesis
    using assms
    by (cases a)
      (auto simp: bc_owable_def intro: bc_close_ok bc_arbitrate_ok bc_signal_op_ok bc_complete_node_ok)
qed

text \<open>An arbitration may park its operation, which will then be owed a completion.\<close>

fun bc_weight :: "'a bc_action \<Rightarrow> nat" where
  "bc_weight (Bc_Arbitrate n) = 3"
| "bc_weight _ = 1"

definition bc_parked_weight :: "'a bc_state \<Rightarrow> nat" where
  "bc_parked_weight s = 2 * (case wait_members (bc_waiters s) of None \<Rightarrow> 0 | Some ws \<Rightarrow> length ws)"

definition bc_backlog :: "'a bc_state \<Rightarrow> 'a bc_action multiset \<Rightarrow> nat" where
  "bc_backlog s M = sum_mset (image_mset bc_weight M) + bc_parked_weight s"

lemma bc_backlog_decreasesI:
  "sum_list (map bc_weight owed) + bc_parked_weight s' < bc_weight a + bc_parked_weight s \<Longrightarrow>
   bc_backlog s' (M + mset owed) < bc_backlog s (add_mset a M)"
  by (simp add: bc_backlog_def sum_mset_sum_list flip: mset_map)

lemma write_cursor_waiters: "write_cursor r p s = Some s' \<Longrightarrow> bc_waiters s' = bc_waiters s"
  by (auto simp: write_cursor_def bind_eq_Some_conv)

lemma bc_arbitrate_drains:
  assumes "bc_waits_ok s es ws" "\<not> bc_parked s n" "bc_arbitrate n s = Some (s', owed, es')"
  shows "sum_list (map bc_weight owed) + bc_parked_weight s' < 3 + bc_parked_weight s"
proof -
  have rep: "represents (bc_waiters s) ws" "n \<notin> set ws" using assms(1,2) by (auto simp: bc_waits_ok_def)
  have "wait_members (queue_node n (bc_waiters s)) = Some (ws @ [n])" "wait_members (bc_waiters s) = Some ws"
    using rep wl.holds_enqueue wl.holds_members by blast+
  then show ?thesis
    using assms(3)
    by (auto simp: bc_arbitrate_def bind_eq_Some_conv bc_parked_weight_def Let_def dest!: write_cursor_waiters
          split: if_splits option.splits)
qed

lemma close_nodes_waiters:
  "close_nodes ns s = Some s' \<Longrightarrow> represents (bc_waiters s) ns \<Longrightarrow> represents (bc_waiters s') []"
proof (induction ns arbitrary: s)
  case (Cons n ns)
  then show ?case using wl.holds_dequeue [of "bc_waiters s" n ns] by (auto simp: bind_eq_Some_conv)
qed auto

lemma bc_close_drains:
  fixes s :: "'a bc_state"
  assumes "bc_waits_ok s es ws" "bc_close s = Some (s', owed, es')"
  shows "sum_list (map bc_weight owed) + bc_parked_weight s' < 1 + bc_parked_weight s"
proof (cases "bc_closed s")
  case True
  then show ?thesis using assms(2) by (simp add: bc_close_def)
next
  case False
  have rep: "represents (bc_waiters s) ws" using assms(1) by (simp add: bc_waits_ok_def)
  have closed: "close_nodes ws (s\<lparr>bc_closed := True\<rparr>) = Some s'" and owed: "owed = map Bc_Complete ws"
    using assms(2) False wl.holds_members [OF rep] by (auto simp: bc_close_def bind_eq_Some_conv)
  have "represents (bc_waiters s') []" by (rule close_nodes_waiters [OF closed]) (simp add: rep)
  then have "bc_parked_weight s' = 0" by (simp add: bc_parked_weight_def wl.holds_members)
  moreover have "sum_list (map (bc_weight \<circ> (Bc_Complete :: nat \<Rightarrow> 'a bc_action)) ns) = length ns" for ns
    by (induction ns) simp_all
  ultimately show ?thesis
    using wl.holds_members [OF rep] by (simp add: owed bc_parked_weight_def)
qed

lemma bc_drains:
  assumes "bc_inv s (add_mset a M) es" "bc_exec a s = Some (s', owed, es')"
  shows "bc_backlog s' (M + mset owed) < bc_backlog s (add_mset a M)"
proof (rule bc_backlog_decreasesI)
  obtain ws where inv: "bc_ops_ok s (add_mset a M) es" "bc_waits_ok s es ws" "bc_senders_ok s (add_mset a M)"
    using assms(1) by (rule bc_invE)
  have idle: "\<not> bc_parked s n" if n: "bc_target a = Some n" for n
  proof -
    obtain op where "bc_ops s n = Some op" "bo_stage op \<noteq> BcQueued" by (rule bc_pending [OF inv(1) n])
    then show ?thesis by (simp add: bc_parked_def)
  qed
  have "bc_owable a" using inv(3) by (simp add: bc_senders_ok_def)
  then show "sum_list (map bc_weight owed) + bc_parked_weight s' < bc_weight a + bc_parked_weight s"
  proof (cases a)
    case (Bc_Arbitrate n)
    then show ?thesis using bc_arbitrate_drains [OF inv(2) idle] assms(2) by simp
  next
    case Bc_Close
    then show ?thesis using bc_close_drains [OF inv(2)] assms(2) by simp
  qed (use assms(2) in \<open>auto simp: bc_owable_def bc_signal_op_def bc_complete_def bind_eq_Some_conv
         bc_parked_weight_def\<close>)
qed

text \<open>The channels that can be made: a capacity of one more than any number.\<close>

definition broadcast_of :: "nat \<Rightarrow> 'a bc_state" where
  "broadcast_of k = the (broadcast_channel (k + 1))"

lemma broadcast_of: "broadcast_channel (k + 1) = Some (broadcast_of k)"
  by (simp add: broadcast_of_def broadcast_channel_def)

lemma broadcast_channel_cases:
  "broadcast_channel cap = Some s \<Longrightarrow> \<exists>k. s = broadcast_of k \<and> cap = k + 1"
  by (cases cap) (auto simp: broadcast_of_def broadcast_channel_def)

interpretation broadcast: draining bc_exec bc_callable "broadcast_of k" bc_inv bc_backlog for k
  by unfold_locales
    (use bc_inv_init [OF broadcast_of] bc_call_ok bc_run_ok bc_drains in \<open>auto simp: bc_ok_def\<close>)

section \<open>What holds of the channel\<close>

lemma bc_reachable_inv:
  assumes "reaches bc_exec bc_callable s0 (s, T) es" "broadcast_channel cap = Some s0"
  shows "bc_inv s (owed_actions T) es"
proof -
  obtain k where "s0 = broadcast_of k" using broadcast_channel_cases [OF assms(2)] by blast
  then show ?thesis using broadcast.inv_reachable assms(1) by simp
qed

lemma bc_capacity_kept:
  assumes "bc_exec a s = Some (s', owed, es')"
  shows "bc_capacity s' = bc_capacity s"
proof -
  have cursor: "write_cursor r p t = Some t' \<Longrightarrow> bc_capacity t' = bc_capacity t" for r p t t'
    by (auto simp: write_cursor_def bind_eq_Some_conv)
  have res: "resolve n t = Some (t', fs) \<Longrightarrow> bc_capacity t' = bc_capacity t" for n t t' fs
    by (auto simp: resolve_def bind_eq_Some_conv Let_def dest!: cursor split: if_splits)
  have wake: "wake_nodes ns t = Some (t', fs) \<Longrightarrow> bc_capacity t' = bc_capacity t" for ns t t' fs
    by (induction ns arbitrary: t fs) (fastforce simp: bind_eq_Some_conv dest!: res)+
  have closes: "close_nodes ns t = Some t' \<Longrightarrow> bc_capacity t' = bc_capacity t" for ns t t'
    by (induction ns arbitrary: t) (fastforce simp: bind_eq_Some_conv)+
  note ops = bc_try_send_def bc_close_def bc_copy_sender_def bc_release_sender_def bc_subscribe_def
    release_receiver_def bc_try_recv_def bc_connect_def bc_signal_op_def bc_complete_def bc_start_def
    bc_arbitrate_def bc_stop_def bc_destroy_def
  show ?thesis
    using assms
    by (cases a)
      (auto simp: ops bind_eq_Some_conv Let_def dest!: cursor wake closes split: if_splits option.splits prod.splits)
qed

lemma bc_capacity:
  assumes "reaches bc_exec bc_callable s0 c es"
  shows "bc_capacity (fst c) = bc_capacity s0"
  using assms
proof induction
  case (step c es es' c')
  from step.hyps(2) step.IH show ?case by cases (auto dest!: bc_capacity_kept)
qed simp

text \<open>
  A run over a buffer of two: a parked pull gets the first value; three more are sent, so the receiver
  lags; it is told so, the last sender goes, and a second pull gets the third value.
\<close>

definition broadcast_demo :: "nat bc_action choice list" where
  "broadcast_demo = [Call (Bc_Connect 0 0), Call (Bc_Start 0), Run 1, Call (Bc_Send 5), Run 2,
     Call (Bc_Send 6), Call (Bc_Send 7), Call (Bc_Send 8), Call (Bc_Try_Recv 0), Call Bc_Release_Sender,
     Run 7, Call (Bc_Connect 1 0), Call (Bc_Start 1), Run 9, Run 9]"

definition broadcast_demo_end :: "(nat bc_state, nat bc_action) threads \<times> nat bc_event list" where
  "broadcast_demo_end = the (perform bc_exec bc_callable broadcast_demo ((broadcast_of 1, []), []))"

abbreviation "bdemo_state \<equiv> fst (fst broadcast_demo_end)"
abbreviation "bdemo_threads \<equiv> snd (fst broadcast_demo_end)"
abbreviation "bdemo_log \<equiv> snd broadcast_demo_end"

lemma broadcast_demo_runs:
  "perform bc_exec bc_callable broadcast_demo ((broadcast_of 1, []), []) \<noteq> None"
  by code_simp

lemma broadcast_demo_reaches: "reaches bc_exec bc_callable (broadcast_of 1) (bdemo_state, bdemo_threads) bdemo_log"
  using broadcast_demo_runs perform_reaches [of bc_exec bc_callable broadcast_demo "broadcast_of 1"]
  by (auto simp: broadcast_demo_end_def)

lemma broadcast_demo_channel: "broadcast_channel 2 = Some (broadcast_of 1)"
  using broadcast_of [of 1] by (simp add: numeral_2_eq_2)

lemma broadcast_demo_facts:
  "sent bdemo_log = [5, 6, 7, 8] \<and> gains 0 bdemo_log = [Gain 5, Skip 1, Gain 7] \<and>
   map_option bo_signals (bc_ops bdemo_state 1) = Some [Bc_Value (Some 7)] \<and>
   map_option br_pos (bc_receivers bdemo_state 0) = Some 3 \<and> bc_buffer bdemo_state = [7, 8] \<and>
   bc_senders bdemo_state = 0 \<and> concat bdemo_threads = []"
  by code_simp

text \<open>C26: Under every interleaving, each receiver's cursor has gone over the values sent since it subscribed
  without a gap it was not told of: replaying what the receiver got, values in the order they were sent
  and lags by the number of values they skipped, leads from where it started to where it stands; and the
  buffer holds exactly the most recent values, never more than the capacity.\<close>
theorem broadcast_replay:
  assumes "reaches bc_exec bc_callable s0 (s, T) es" "broadcast_channel cap = Some s0"
    and "bc_receivers s r = Some rc"
  shows "replay (sent es) (br_start rc) (gains r es) = Some (br_pos rc) \<and>
    bc_buffer s = drop (bc_base s) (sent es) \<and> length (bc_buffer s) \<le> cap"
proof -
  obtain ws where inv: "receivers_ok s es" "buffer_ok s es"
    using bc_reachable_inv [OF assms(1,2)] by (rule bc_invE)
  have "bc_capacity s = cap"
    using bc_capacity [OF assms(1)] assms(2) by (auto simp: broadcast_channel_def split: if_splits)
  then show ?thesis
    using receivers_okD [OF inv(1), of r] inv(2) assms(3) by (auto simp: receiver_ok_def buffer_ok_def)
qed

theorem broadcast_replay_witness:
  "replay (sent bdemo_log) 0 [Gain 5, Skip 1, Gain 7] = Some 3 \<and> length (bc_buffer bdemo_state) \<le> 2"
proof -
  have "map_option br_start (bc_receivers bdemo_state 0) = Some 0" by code_simp
  then obtain rc where "bc_receivers bdemo_state 0 = Some rc" "br_start rc = 0" "br_pos rc = 3"
    using broadcast_demo_facts by auto
  then show ?thesis
    using broadcast_replay [OF broadcast_demo_reaches broadcast_demo_channel, of 0 rc] broadcast_demo_facts by simp
qed

text \<open>A pull completes at most once, and its completion is exactly what the cursor moved over for it: a
  value, a lag with the number of values skipped, or nothing.  It reports the end only when the channel
  is closed and the receiver has seen everything that was sent; and no action owed or allowed by the
  protocol touches a destroyed operation state or receiver, or a place outside the buffer.\<close>
theorem broadcast_pull_outcome:
  assumes "reaches bc_exec bc_callable s0 (s, T) es" "broadcast_channel cap = Some s0"
  shows "(\<forall>n op. bc_ops s n = Some op \<longrightarrow> length (bo_signals op) \<le> 1 \<and>
      (\<forall>sig\<in>set (bo_signals op). gained sig = got_by n es \<and>
        (sig = Bc_Value None \<and> bo_attached op \<longrightarrow> at_end s es (bo_receiver op)))) \<and>
    (\<forall>a. a \<in># owed_actions T \<or> bc_callable a s \<longrightarrow> bc_exec a s \<noteq> None)"
proof -
  obtain k where k: "s0 = broadcast_of k" using broadcast_channel_cases [OF assms(2)] by blast
  have "bc_ops_ok s (owed_actions T) es" using bc_reachable_inv [OF assms] by (rule bc_invE)
  then have ops: "bc_op_ok n (bc_ops s n) (bc_owes n (owed_actions T)) (got_by n es) (at_end s es)" for n
    by (rule bc_ops_okD)
  have "length (bo_signals op) \<le> 1 \<and> (\<forall>sig\<in>set (bo_signals op). gained sig = got_by n es \<and>
        (sig = Bc_Value None \<and> bo_attached op \<longrightarrow> at_end s es (bo_receiver op)))"
    if "bc_ops s n = Some op" for n op
  proof -
    have "bc_phase n op (bc_owes n (owed_actions T)) (got_by n es) (at_end s es)"
      using ops [of n] that by (simp add: bc_op_ok_def)
    then show ?thesis unfolding bc_phase_def by (elim disjE) (auto simp: bc_fits_def)
  qed
  then show ?thesis
    using broadcast.owed_defined [OF assms(1) [unfolded k]] broadcast.call_defined [OF assms(1) [unfolded k]]
    by blast
qed

theorem broadcast_pull_outcome_witness:
  "\<exists>op. bc_ops bdemo_state 1 = Some op \<and> bo_signals op = [Bc_Value (Some 7)] \<and> got_by 1 bdemo_log = [Gain 7]"
proof -
  obtain op where op: "bc_ops bdemo_state 1 = Some op" "bo_signals op = [Bc_Value (Some 7)]"
    using broadcast_demo_facts by auto
  have "\<forall>sig\<in>set (bo_signals op). gained sig = got_by 1 bdemo_log"
    using broadcast_pull_outcome [OF broadcast_demo_reaches broadcast_demo_channel] op(1) by blast
  then show ?thesis using op by auto
qed

text \<open>C27: Nobody waits for a value that is there: once nothing is owed, a started pull that is alive and has
  not completed belongs to an open channel and its receiver has seen everything that was sent; the
  channel is closed once the last sender is gone; and the threads do finish what they owe.\<close>
theorem broadcast_no_lost_wakeup:
  assumes "reaches bc_exec bc_callable s0 (s, T) es" "broadcast_channel cap = Some s0"
  shows "(owed_actions T = {#} \<longrightarrow>
      (\<forall>n op. bc_live s n = Some op \<and> bo_started op \<and> bo_signals op = [] \<longrightarrow> \<not> bc_closed s \<and>
         (\<exists>rc. bc_receivers s (bo_receiver op) = Some rc \<and> br_pos rc = length (sent es))) \<and>
      (bc_senders s = 0 \<longrightarrow> bc_closed s)) \<and>
    (\<exists>is s' T' es'. perform bc_exec bc_callable (map Run is) ((s, T), es) = Some ((s', T'), es') \<and>
       owed_actions T' = {#})"
proof -
  obtain k where k: "s0 = broadcast_of k" using broadcast_channel_cases [OF assms(2)] by blast
  obtain ws where inv: "bc_ops_ok s (owed_actions T) es" "bc_waits_ok s es ws" "bc_senders_ok s (owed_actions T)"
    using bc_reachable_inv [OF assms] by (rule bc_invE)
  have "\<not> bc_closed s \<and> (\<exists>rc. bc_receivers s (bo_receiver op) = Some rc \<and> br_pos rc = length (sent es))"
    if quiet: "owed_actions T = {#}" and op: "bc_live s n = Some op \<and> bo_started op \<and> bo_signals op = []" for n op
  proof -
    have ops: "bc_ops s n = Some op" "bo_alive op" using op by (simp_all add: bc_live_Some)
    then have queued: "bo_stage op = BcQueued"
      using bc_ops_okD [OF inv(1), of n] quiet op by (auto simp: bc_op_ok_def bc_phase_def)
    then have "n \<in> set ws" using inv(2) ops by (auto simp: bc_waits_ok_def bc_parked_def)
    then have "\<not> bc_closed s" using inv(2) by (auto simp: bc_waits_ok_def)
    moreover obtain rc where "bc_receivers s (bo_receiver op) = Some rc" "br_pos rc = length (sent es)"
      by (rule bc_waitsD [OF inv(2) ops(1) queued])
    ultimately show ?thesis by blast
  qed
  moreover have "bc_senders s = 0 \<longrightarrow> bc_closed s" if "owed_actions T = {#}"
    using inv(3) that by (simp add: bc_senders_ok_def)
  ultimately show ?thesis using broadcast.runs_finish [OF assms(1) [unfolded k]] by blast
qed

theorem broadcast_no_lost_wakeup_witness:
  "owed_actions bdemo_threads = {#} \<and> bc_senders bdemo_state = 0 \<and> bc_closed bdemo_state"
proof -
  have owed: "owed_actions bdemo_threads = {#}" using broadcast_demo_facts by (simp add: owed_actions_def)
  have "bc_senders bdemo_state = 0" using broadcast_demo_facts by simp
  moreover have "bc_senders bdemo_state = 0 \<longrightarrow> bc_closed bdemo_state"
    using conjunct1 [OF broadcast_no_lost_wakeup [OF broadcast_demo_reaches broadcast_demo_channel]] owed by blast
  ultimately show ?thesis using owed by blast
qed

end
