(* ===== verification/Watch_Channel.thy ===== *)
theory Watch_Channel
  imports Interleaving Wait_List
begin

text \<open>
  \<^verbatim>\<open>src/include/clash_native/async/watch.hpp\<close>: one shared value with a version; a receiver waits for a
  version newer than the one it has seen.  Receivers and operation states are numbered; critical
  sections and owed completions are as in \<open>Mpsc_Channel\<close>.  Versions (\<^verbatim>\<open>uint64_t\<close>) are natural numbers.
\<close>

section \<open>State\<close>

datatype wt_stage = WtInit | WtQueued | WtDone | WtStopped | WtGone

datatype 'a wt_signal = Wt_Value "'a option" | Wt_Violation | Wt_Stopped

record 'a wt_op =
  wo_stage :: wt_stage
  wo_attached :: bool  \<comment> \<open>\<^verbatim>\<open>state_\<close> and \<^verbatim>\<open>seen_\<close> are not null\<close>
  wo_receiver :: nat  \<comment> \<open>whose seen version \<^verbatim>\<open>seen_\<close> and \<^verbatim>\<open>owner\<close> point at\<close>
  wo_seen :: nat
  wo_closed :: bool
  wo_stop_requested :: bool
  wo_callback :: bool
  wo_started :: bool
  wo_alive :: bool
  wo_signals :: "'a wt_signal list"

record wt_receiver =
  wr_state :: bool
  wr_seen :: nat
  wr_alive :: bool
  wr_start :: nat  \<comment> \<open>the version it was created with (a record of the model)\<close>

record 'a wt_state =
  wt_current :: 'a
  wt_version :: nat
  wt_closed :: bool
  wt_waiters :: wait_list
  wt_ops :: "nat \<Rightarrow> 'a wt_op option"
  wt_connected :: "nat list"  \<comment> \<open>the numbers of all operations (a record of the model)\<close>
  wt_receivers :: "nat \<Rightarrow> wt_receiver option"

text \<open>
  Logged: a value stored; a version and value delivered to a receiver, for which operation; a receiver
  that was marked to see the current value again; a pull started while another of the same receiver is
  outstanding, which the contract forbids.
\<close>

datatype 'a wt_event =
    Stored 'a
  | Saw nat nat nat 'a
  | Marked nat
  | Overlap nat
  | Wt_Send_Result 'a bool

datatype 'a wt_action =
    Wt_Send 'a
  | Wt_Close
  | Wt_Subscribe nat
  | Wt_Copy nat nat
  | Wt_Mark nat
  | Wt_Close_Receiver nat
  | Wt_Destroy_Receiver nat
  | Wt_Connect nat nat
  | Wt_Start nat
  | Wt_Arbitrate nat
  | Wt_Complete nat
  | Wt_Signal nat "'a wt_signal"
  | Wt_Stop nat
  | Wt_Destroy nat

type_synonym 'a wt_effect = "('a wt_state \<times> 'a wt_action list \<times> 'a wt_event list) option"

definition wt_new_receiver :: "nat \<Rightarrow> wt_receiver" where
  "wt_new_receiver seen = \<lparr>wr_state = True, wr_seen = seen, wr_alive = True, wr_start = seen\<rparr>"

text \<open>\<^verbatim>\<open>channel(initial)\<close>; the receiver it returns is number 0.\<close>

definition watch_channel :: "'a \<Rightarrow> 'a wt_state" where
  "watch_channel initial = \<lparr>wt_current = initial, wt_version = 1, wt_closed = False, wt_waiters = empty_wait,
     wt_ops = (\<lambda>_. None), wt_connected = [], wt_receivers = [0 \<mapsto> wt_new_receiver 1]\<rparr>"

section \<open>Nodes\<close>

definition wt_live :: "'a wt_state \<Rightarrow> nat \<Rightarrow> 'a wt_op option" where
  "wt_live s n = (case wt_ops s n of None \<Rightarrow> None | Some op \<Rightarrow> if wo_alive op then Some op else None)"

definition wt_live_receiver :: "'a wt_state \<Rightarrow> nat \<Rightarrow> wt_receiver option" where
  "wt_live_receiver s r =
    (case wt_receivers s r of None \<Rightarrow> None | Some rc \<Rightarrow> if wr_alive rc then Some rc else None)"

definition wt_put :: "nat \<Rightarrow> 'a wt_op \<Rightarrow> 'a wt_state \<Rightarrow> 'a wt_state" where
  "wt_put n op s = s\<lparr>wt_ops := (wt_ops s)(n \<mapsto> op)\<rparr>"

definition wt_put_receiver :: "nat \<Rightarrow> wt_receiver \<Rightarrow> 'a wt_state \<Rightarrow> 'a wt_state" where
  "wt_put_receiver r rc s = s\<lparr>wt_receivers := (wt_receivers s)(r \<mapsto> rc)\<rparr>"

text \<open>The loop that wakes the parked waiters: unlink each and mark it done, or closed.\<close>

fun wt_wake :: "bool \<Rightarrow> nat list \<Rightarrow> 'a wt_state \<Rightarrow> 'a wt_state option" where
  "wt_wake closing [] s = Some s"
| "wt_wake closing (n # ns) s = do {
     op \<leftarrow> wt_live s n;
     wt_wake closing ns (wt_put n (op\<lparr>wo_stage := WtDone, wo_closed := wo_closed op \<or> closing\<rparr>)
       (s\<lparr>wt_waiters := unlink_node n (wt_waiters s)\<rparr>))
   }"

section \<open>The sender\<close>

definition wt_store :: "'a \<Rightarrow> 'a wt_state \<Rightarrow> 'a wt_effect" where
  "wt_store v s =
    (if wt_closed s then Some (s, [], [Wt_Send_Result v False])
     else do {
       woken \<leftarrow> wait_members (wt_waiters s);
       s' \<leftarrow> wt_wake False woken (s\<lparr>wt_current := v, wt_version := wt_version s + 1\<rparr>);
       Some (s', map Wt_Complete woken, [Stored v, Wt_Send_Result v True])
     })"

definition wt_close :: "'a wt_state \<Rightarrow> 'a wt_effect" where
  "wt_close s =
    (if wt_closed s then Some (s, [], [])
     else do {
       woken \<leftarrow> wait_members (wt_waiters s);
       s' \<leftarrow> wt_wake True woken (s\<lparr>wt_closed := True\<rparr>);
       Some (s', map Wt_Complete woken, [])
     })"

definition wt_borrow :: "'a wt_state \<Rightarrow> 'a" where "wt_borrow s = wt_current s"

definition wt_subscribe :: "nat \<Rightarrow> 'a wt_state \<Rightarrow> 'a wt_effect" where
  "wt_subscribe r s = Some (wt_put_receiver r (wt_new_receiver (wt_version s)) s, [], [])"

section \<open>Receivers\<close>

definition wt_copy :: "nat \<Rightarrow> nat \<Rightarrow> 'a wt_state \<Rightarrow> 'a wt_effect" where
  "wt_copy r q s = do {
     rc \<leftarrow> wt_live_receiver s r;
     Some (wt_put_receiver q \<lparr>wr_state = wr_state rc, wr_seen = wr_seen rc, wr_alive = True,
             wr_start = wr_seen rc\<rparr> s, [], [])
   }"

definition has_changed :: "wt_receiver \<Rightarrow> 'a wt_state \<Rightarrow> bool" where
  "has_changed rc s \<longleftrightarrow> (if \<not> wr_state rc then False else wr_seen rc < wt_version s)"

definition mark_changed :: "nat \<Rightarrow> 'a wt_state \<Rightarrow> 'a wt_effect" where
  "mark_changed r s = do {
     rc \<leftarrow> wt_live_receiver s r;
     if \<not> wr_state rc then Some (s, [], [])
     else if wr_seen rc = wt_version s \<and> wt_version s > 0
     then Some (wt_put_receiver r (rc\<lparr>wr_seen := wr_seen rc - 1\<rparr>) s, [], [Marked r])
     else Some (s, [], [])
   }"

definition wt_release_receiver :: "bool \<Rightarrow> nat \<Rightarrow> 'a wt_state \<Rightarrow> 'a wt_effect" where
  "wt_release_receiver destroyed r s = do {
     rc \<leftarrow> wt_live_receiver s r;
     Some (wt_put_receiver r (rc\<lparr>wr_state := False, wr_alive := \<not> destroyed\<rparr>) s, [], [])
   }"

section \<open>Waits\<close>

definition wt_connect :: "nat \<Rightarrow> nat \<Rightarrow> 'a wt_state \<Rightarrow> 'a wt_effect" where
  "wt_connect n r s = do {
     rc \<leftarrow> wt_live_receiver s r;
     Some (wt_put n \<lparr>wo_stage = WtInit, wo_attached = wr_state rc, wo_receiver = r, wo_seen = 0,
             wo_closed = False, wo_stop_requested = False, wo_callback = False, wo_started = False,
             wo_alive = True, wo_signals = []\<rparr> (s\<lparr>wt_connected := n # wt_connected s\<rparr>), [], [])
   }"

definition wt_signal_op :: "nat \<Rightarrow> 'a wt_signal \<Rightarrow> 'a wt_state \<Rightarrow> 'a wt_effect" where
  "wt_signal_op n sig s = do {
     op \<leftarrow> wt_live s n;
     Some (wt_put n (op\<lparr>wo_callback := False, wo_signals := wo_signals op @ [sig]\<rparr>) s, [], [])
   }"

text \<open>
  \<^verbatim>\<open>WaitOpState::complete\<close>: what woke it is looked up again.  Its critical section only decides; the
  signal follows it.
\<close>

definition wt_complete :: "nat \<Rightarrow> 'a wt_state \<Rightarrow> 'a wt_effect" where
  "wt_complete n s = do {
     op \<leftarrow> wt_live s n;
     let r = wo_receiver op;
     rc \<leftarrow> wt_live_receiver s r;
     if wr_seen rc < wt_version s
     then Some (wt_put n (op\<lparr>wo_callback := False\<rparr>) (wt_put_receiver r (rc\<lparr>wr_seen := wt_version s\<rparr>) s),
            [Wt_Signal n (Wt_Value (Some (wt_current s)))], [Saw r n (wt_version s) (wt_current s)])
     else Some (wt_put n (op\<lparr>wo_callback := False\<rparr>) s, [Wt_Signal n (Wt_Value None)], [])
   }"

definition wt_outstanding :: "'a wt_state \<Rightarrow> nat \<Rightarrow> nat \<Rightarrow> bool" where
  "wt_outstanding s r m \<longleftrightarrow>
    (case wt_live s m of None \<Rightarrow> False
     | Some op \<Rightarrow> wo_started op \<and> wo_attached op \<and> wo_signals op = [] \<and> wo_receiver op = r)"

definition wt_start :: "nat \<Rightarrow> 'a wt_state \<Rightarrow> 'a wt_effect" where
  "wt_start n s = do {
     op \<leftarrow> wt_live s n;
     if wo_attached op
     then Some (wt_put n (op\<lparr>wo_started := True, wo_callback := True\<rparr>) s, [Wt_Arbitrate n],
            if list_ex (wt_outstanding s (wo_receiver op)) (wt_connected s) then [Overlap (wo_receiver op)] else [])
     else wt_signal_op n (Wt_Value None) (wt_put n (op\<lparr>wo_started := True\<rparr>) s)
   }"

fun wt_duplicate :: "nat list \<Rightarrow> nat \<Rightarrow> nat \<Rightarrow> 'a wt_state \<Rightarrow> bool option" where
  "wt_duplicate [] n r s = Some False"
| "wt_duplicate (m # ms) n r s = do {
     op \<leftarrow> wt_live s m;
     if m \<noteq> n \<and> wo_receiver op = r then Some True else wt_duplicate ms n r s
   }"

definition wt_arbitrate :: "nat \<Rightarrow> 'a wt_state \<Rightarrow> 'a wt_effect" where
  "wt_arbitrate n s = do {
     op \<leftarrow> wt_live s n;
     let r = wo_receiver op;
     rc \<leftarrow> wt_live_receiver s r;
     let op = op\<lparr>wo_seen := wr_seen rc\<rparr>;
     if wo_stop_requested op then Some (wt_put n op s, [Wt_Signal n Wt_Stopped], [])
     else if wr_seen rc < wt_version s
     then Some (wt_put n op (wt_put_receiver r (rc\<lparr>wr_seen := wt_version s\<rparr>) s),
            [Wt_Signal n (Wt_Value (Some (wt_current s)))], [Saw r n (wt_version s) (wt_current s)])
     else if wt_closed s then Some (wt_put n op s, [Wt_Signal n (Wt_Value None)], [])
     else do {
       parked \<leftarrow> wait_members (wt_waiters s);
       duplicate \<leftarrow> wt_duplicate parked n r s;
       if duplicate then Some (wt_put n op s, [Wt_Signal n Wt_Violation], [])
       else Some (wt_put n (op\<lparr>wo_stage := WtQueued\<rparr>)
              (s\<lparr>wt_waiters := queue_node n (wt_waiters s)\<rparr>), [], [])
     }
   }"

definition wt_stop :: "nat \<Rightarrow> 'a wt_state \<Rightarrow> 'a wt_effect" where
  "wt_stop n s = do {
     op \<leftarrow> wt_live s n;
     let op = op\<lparr>wo_callback := False\<rparr>;
     if \<not> wo_attached op then Some (wt_put n op s, [], [])
     else if wo_stage op = WtQueued
     then Some (wt_put n (op\<lparr>wo_stage := WtStopped\<rparr>)
                  (s\<lparr>wt_waiters := unlink_node n (wt_waiters s)\<rparr>), [Wt_Signal n Wt_Stopped], [])
     else if wo_stage op = WtInit
     then Some (wt_put n (op\<lparr>wo_stop_requested := True\<rparr>) s, [], [])
     else Some (wt_put n op s, [], [])
   }"

definition wt_destroy :: "nat \<Rightarrow> 'a wt_state \<Rightarrow> 'a wt_effect" where
  "wt_destroy n s = do {
     op \<leftarrow> wt_live s n;
     let op = op\<lparr>wo_alive := False, wo_callback := False\<rparr>;
     if wo_attached op \<and> wo_stage op = WtQueued
     then Some (wt_put n (op\<lparr>wo_stage := WtGone\<rparr>)
                  (s\<lparr>wt_waiters := unlink_node n (wt_waiters s)\<rparr>), [], [])
     else Some (wt_put n op s, [], [])
   }"

section \<open>Actions\<close>

fun wt_exec :: "('a wt_state, 'a wt_action, 'a wt_event) exec" where
  "wt_exec (Wt_Send v) s = wt_store v s"
| "wt_exec Wt_Close s = wt_close s"
| "wt_exec (Wt_Subscribe r) s = wt_subscribe r s"
| "wt_exec (Wt_Copy r q) s = wt_copy r q s"
| "wt_exec (Wt_Mark r) s = mark_changed r s"
| "wt_exec (Wt_Close_Receiver r) s = wt_release_receiver False r s"
| "wt_exec (Wt_Destroy_Receiver r) s = wt_release_receiver True r s"
| "wt_exec (Wt_Connect n r) s = wt_connect n r s"
| "wt_exec (Wt_Start n) s = wt_start n s"
| "wt_exec (Wt_Arbitrate n) s = wt_arbitrate n s"
| "wt_exec (Wt_Complete n) s = wt_complete n s"
| "wt_exec (Wt_Signal n sig) s = wt_signal_op n sig s"
| "wt_exec (Wt_Stop n) s = wt_stop n s"
| "wt_exec (Wt_Destroy n) s = wt_destroy n s"

text \<open>The environment, as in \<open>Mpsc_Channel\<close>; a receiver outlives the operations connected to it.\<close>

definition wt_uses :: "'a wt_state \<Rightarrow> nat \<Rightarrow> nat \<Rightarrow> bool" where
  "wt_uses s r n \<longleftrightarrow> (case wt_live s n of None \<Rightarrow> False | Some op \<Rightarrow> wo_receiver op = r)"

fun wt_callable :: "'a wt_action \<Rightarrow> 'a wt_state \<Rightarrow> bool" where
  "wt_callable (Wt_Send v) s \<longleftrightarrow> True"
| "wt_callable Wt_Close s \<longleftrightarrow> True"
| "wt_callable (Wt_Subscribe r) s \<longleftrightarrow> wt_receivers s r = None"
| "wt_callable (Wt_Copy r q) s \<longleftrightarrow> wt_live_receiver s r \<noteq> None \<and> wt_receivers s q = None"
| "wt_callable (Wt_Mark r) s \<longleftrightarrow> wt_live_receiver s r \<noteq> None"
| "wt_callable (Wt_Close_Receiver r) s \<longleftrightarrow> wt_live_receiver s r \<noteq> None"
| "wt_callable (Wt_Destroy_Receiver r) s \<longleftrightarrow>
     wt_live_receiver s r \<noteq> None \<and> \<not> list_ex (wt_uses s r) (wt_connected s)"
| "wt_callable (Wt_Connect n r) s \<longleftrightarrow> wt_ops s n = None \<and> wt_live_receiver s r \<noteq> None"
| "wt_callable (Wt_Start n) s \<longleftrightarrow> (case wt_live s n of None \<Rightarrow> False | Some op \<Rightarrow> \<not> wo_started op)"
| "wt_callable (Wt_Stop n) s \<longleftrightarrow> (case wt_live s n of None \<Rightarrow> False | Some op \<Rightarrow> wo_callback op)"
| "wt_callable (Wt_Destroy n) s \<longleftrightarrow>
     (case wt_live s n of None \<Rightarrow> False
      | Some op \<Rightarrow> \<not> wo_started op \<or> wo_stage op = WtQueued \<or> wo_signals op \<noteq> [])"
| "wt_callable _ s \<longleftrightarrow> False"

end
