(* ===== verification/Watch_Correct.thy ===== *)
theory Watch_Correct
  imports Watch_Channel
begin

text \<open>
  The watch channel under every interleaving: a receiver sees values of the history in the order they
  were stored, never the same version twice unless it asked for it, and a pull parks only while there is
  nothing newer than what its receiver has seen.
\<close>

section \<open>Reading the log\<close>

definition history :: "'a \<Rightarrow> 'a wt_event list \<Rightarrow> 'a list" where
  "history initial es = initial # concat (map (\<lambda>e. case e of Stored v \<Rightarrow> [v] | _ \<Rightarrow> []) es)"

datatype 'a wt_look = Look nat 'a | Again

definition looks :: "nat \<Rightarrow> 'a wt_event list \<Rightarrow> 'a wt_look list" where
  "looks r es = concat (map (\<lambda>e. case e of
       Saw q who k v \<Rightarrow> if q = r then [Look k v] else []
     | Marked q \<Rightarrow> if q = r then [Again] else []
     | _ \<Rightarrow> []) es)"

definition seen_by :: "nat \<Rightarrow> 'a wt_event list \<Rightarrow> 'a list" where
  "seen_by n es = concat (map (\<lambda>e. case e of Saw q who k v \<Rightarrow> if who = n then [v] else [] | _ \<Rightarrow> []) es)"

lemma wt_log_simps [simp]:
  "history initial [] = [initial]" "looks r [] = []" "seen_by n [] = []"
  "looks r (e # es) = (case e of
       Saw q who k v \<Rightarrow> if q = r then [Look k v] else []
     | Marked q \<Rightarrow> if q = r then [Again] else []
     | _ \<Rightarrow> []) @ looks r es"
  "seen_by n (e # es) = (case e of Saw q who k v \<Rightarrow> if who = n then [v] else [] | _ \<Rightarrow> []) @ seen_by n es"
  "looks r (es @ fs) = looks r es @ looks r fs"
  "seen_by n (es @ fs) = seen_by n es @ seen_by n fs"
  by (simp_all add: history_def looks_def seen_by_def)

lemma history_append: "history initial (es @ fs) = history initial es @ tl (history initial fs)"
  by (simp add: history_def)

lemma history_tl_simps [simp]:
  "tl (history initial []) = []"
  "tl (history initial (e # es)) = (case e of Stored v \<Rightarrow> [v] | _ \<Rightarrow> []) @ tl (history initial es)"
  by (simp_all add: history_def)

lemma history_nonempty [simp]: "history initial es \<noteq> []"
  by (simp add: history_def)

text \<open>
  The seen version after a receiver's looks at a history: each shows a version newer than the one seen,
  with its value; marking steps one version back.
\<close>

fun track :: "'a list \<Rightarrow> nat \<Rightarrow> 'a wt_look list \<Rightarrow> nat option" where
  "track H p [] = Some p"
| "track H p (Look k v # ls) = (if p < k \<and> k \<le> length H \<and> H ! (k - 1) = v then track H k ls else None)"
| "track H p (Again # ls) = (if 0 < p then track H (p - 1) ls else None)"

lemma track_append: "track H p (ls @ ms) = (case track H p ls of None \<Rightarrow> None | Some q \<Rightarrow> track H q ms)"
  by (induction H p ls rule: track.induct) auto

lemma track_grows: "track H p ls = Some q \<Longrightarrow> track (H @ vs) p ls = Some q"
  by (induction H p ls rule: track.induct) (auto simp: nth_append split: if_splits)

fun shown :: "'a wt_signal \<Rightarrow> 'a list" where
  "shown (Wt_Value (Some v)) = [v]"
| "shown _ = []"

section \<open>What is owed to an operation\<close>

fun wt_target :: "'a wt_action \<Rightarrow> nat option" where
  "wt_target (Wt_Arbitrate n) = Some n"
| "wt_target (Wt_Complete n) = Some n"
| "wt_target (Wt_Signal n sig) = Some n"
| "wt_target _ = None"

definition wt_owes :: "nat \<Rightarrow> 'a wt_action multiset \<Rightarrow> 'a wt_action multiset" where
  "wt_owes n M = filter_mset (\<lambda>a. wt_target a = Some n) M"

lemma wt_owes_simps [simp]:
  "wt_owes n {#} = {#}"
  "wt_owes n (add_mset a M) = (if wt_target a = Some n then add_mset a (wt_owes n M) else wt_owes n M)"
  "wt_owes n (M + N) = wt_owes n M + wt_owes n N"
  by (simp_all add: wt_owes_def)

section \<open>The invariant\<close>

text \<open>An end may be reported when the channel is closed, or the receiver was pulled twice at once.\<close>

definition wt_ends :: "'a wt_state \<Rightarrow> 'a wt_event list \<Rightarrow> nat \<Rightarrow> bool" where
  "wt_ends s es r \<longleftrightarrow> wt_closed s \<or> Overlap r \<in> set es"

definition wt_news :: "'a wt_state \<Rightarrow> 'a wt_event list \<Rightarrow> nat \<Rightarrow> bool" where
  "wt_news s es r \<longleftrightarrow> wt_ends s es r \<or> (\<exists>rc. wt_receivers s r = Some rc \<and> wr_seen rc < wt_version s)"

definition wt_fits :: "'a wt_signal \<Rightarrow> 'a wt_op \<Rightarrow> 'a list \<Rightarrow> (nat \<Rightarrow> bool) \<Rightarrow> bool" where
  "wt_fits sig op got ends \<longleftrightarrow> shown sig = got \<and>
     (sig = Wt_Value None \<and> wo_attached op \<longrightarrow> ends (wo_receiver op))"

definition wt_phase :: "nat \<Rightarrow> 'a wt_op \<Rightarrow> 'a wt_action multiset \<Rightarrow> 'a list \<Rightarrow> (nat \<Rightarrow> bool) \<Rightarrow>
    (nat \<Rightarrow> bool) \<Rightarrow> bool" where
  "wt_phase n op owed got ends news \<longleftrightarrow>
     \<not> wo_started op \<and> wo_stage op = WtInit \<and> wo_signals op = [] \<and> owed = {#} \<and> \<not> wo_callback op \<and> got = []
   \<or> wo_started op \<and> wo_alive op \<and> wo_attached op \<and> wo_stage op = WtInit \<and> wo_signals op = [] \<and>
       owed = {#Wt_Arbitrate n#} \<and> got = []
   \<or> wo_started op \<and> wo_alive op \<and> wo_attached op \<and> wo_stage op = WtQueued \<and> wo_signals op = [] \<and>
       owed = {#} \<and> got = []
   \<or> wo_started op \<and> \<not> wo_alive op \<and> wo_stage op = WtGone \<and> wo_signals op = [] \<and> owed = {#} \<and> got = []
   \<or> wo_started op \<and> wo_alive op \<and> wo_attached op \<and> wo_stage op = WtDone \<and> wo_signals op = [] \<and>
       owed = {#Wt_Complete n#} \<and> got = [] \<and> news (wo_receiver op)
   \<or> wo_started op \<and> wo_alive op \<and> wo_attached op \<and> wo_stage op \<notin> {WtQueued, WtGone} \<and> wo_signals op = [] \<and>
       (\<exists>sig. owed = {#Wt_Signal n sig#} \<and> wt_fits sig op got ends)
   \<or> wo_started op \<and> wo_stage op \<notin> {WtQueued, WtGone} \<and> \<not> wo_callback op \<and> owed = {#} \<and>
       (\<exists>sig. wo_signals op = [sig] \<and> wt_fits sig op got ends)"

definition wt_op_ok :: "nat \<Rightarrow> 'a wt_op option \<Rightarrow> 'a wt_action multiset \<Rightarrow> 'a list \<Rightarrow> (nat \<Rightarrow> bool) \<Rightarrow>
    (nat \<Rightarrow> bool) \<Rightarrow> bool" where
  "wt_op_ok n entry owed got ends news \<longleftrightarrow>
    (case entry of None \<Rightarrow> owed = {#} \<and> got = [] | Some op \<Rightarrow> wt_phase n op owed got ends news)"

definition wt_ops_ok :: "'a wt_state \<Rightarrow> 'a wt_action multiset \<Rightarrow> 'a wt_event list \<Rightarrow> bool" where
  "wt_ops_ok s M es \<longleftrightarrow>
    (\<forall>n. wt_op_ok n (wt_ops s n) (wt_owes n M) (seen_by n es) (wt_ends s es) (wt_news s es))"

definition viewer_ok :: "wt_receiver option \<Rightarrow> 'a list \<Rightarrow> 'a wt_look list \<Rightarrow> bool" where
  "viewer_ok entry H ls \<longleftrightarrow>
    (case entry of None \<Rightarrow> ls = []
     | Some rc \<Rightarrow> track H (wr_start rc) ls = Some (wr_seen rc) \<and> wr_seen rc \<le> length H)"

definition viewers_ok :: "'a \<Rightarrow> 'a wt_state \<Rightarrow> 'a wt_event list \<Rightarrow> bool" where
  "viewers_ok initial s es \<longleftrightarrow> (\<forall>r. viewer_ok (wt_receivers s r) (history initial es) (looks r es))"

definition wt_users_ok :: "'a wt_state \<Rightarrow> bool" where
  "wt_users_ok s \<longleftrightarrow> (\<forall>n op. wt_ops s n = Some op \<longrightarrow> n \<in> set (wt_connected s) \<and>
     (\<exists>rc. wt_receivers s (wo_receiver op) = Some rc \<and> (wo_alive op \<longrightarrow> wr_alive rc)))"

definition current_ok :: "'a \<Rightarrow> 'a wt_state \<Rightarrow> 'a wt_event list \<Rightarrow> bool" where
  "current_ok initial s es \<longleftrightarrow>
     wt_version s = length (history initial es) \<and> wt_current s = last (history initial es)"

definition wt_parked :: "'a wt_state \<Rightarrow> nat \<Rightarrow> bool" where
  "wt_parked s n \<longleftrightarrow> (\<exists>op. wt_ops s n = Some op \<and> wo_stage op = WtQueued)"

definition wt_waits_ok :: "'a wt_state \<Rightarrow> nat list \<Rightarrow> bool" where
  "wt_waits_ok s ws \<longleftrightarrow> represents (wt_waiters s) ws \<and> (\<forall>n. n \<in> set ws \<longleftrightarrow> wt_parked s n) \<and>
     (ws \<noteq> [] \<longrightarrow> \<not> wt_closed s) \<and>
     (\<forall>n op. wt_ops s n = Some op \<and> wo_stage op = WtQueued \<longrightarrow> wo_seen op = wt_version s)"

definition outstanding_op :: "'a wt_op \<Rightarrow> bool" where
  "outstanding_op op \<longleftrightarrow> wo_alive op \<and> wo_started op \<and> wo_attached op \<and> wo_signals op = []"

text \<open>Two outstanding pulls of one receiver were logged as an overlap.\<close>

definition overlaps_ok :: "'a wt_state \<Rightarrow> 'a wt_event list \<Rightarrow> bool" where
  "overlaps_ok s es \<longleftrightarrow> (\<forall>m n a b. wt_ops s m = Some a \<and> wt_ops s n = Some b \<and> m \<noteq> n \<and>
     outstanding_op a \<and> outstanding_op b \<and> wo_receiver a = wo_receiver b \<longrightarrow> Overlap (wo_receiver a) \<in> set es)"

definition wt_owed_ok :: "'a wt_action multiset \<Rightarrow> bool" where
  "wt_owed_ok M \<longleftrightarrow> (\<forall>a\<in>#M. wt_target a \<noteq> None)"

definition wt_inv :: "'a \<Rightarrow> 'a wt_state \<Rightarrow> 'a wt_action multiset \<Rightarrow> 'a wt_event list \<Rightarrow> bool" where
  "wt_inv initial s M es \<longleftrightarrow> wt_ops_ok s M es \<and> viewers_ok initial s es \<and> wt_users_ok s \<and>
     current_ok initial s es \<and> (\<exists>ws. wt_waits_ok s ws) \<and> overlaps_ok s es \<and> wt_owed_ok M"

lemma wt_invE:
  assumes "wt_inv initial s M es"
  obtains ws where "wt_ops_ok s M es" "viewers_ok initial s es" "wt_users_ok s" "current_ok initial s es"
    "wt_waits_ok s ws" "overlaps_ok s es" "wt_owed_ok M"
  using assms by (auto simp: wt_inv_def)

definition wt_ok :: "'a \<Rightarrow> 'a wt_action multiset \<Rightarrow> 'a wt_event list \<Rightarrow> 'a wt_effect \<Rightarrow> bool" where
  "wt_ok initial M es eff \<longleftrightarrow>
    (\<exists>s' owed es'. eff = Some (s', owed, es') \<and> wt_inv initial s' (M + mset owed) (es @ es'))"

lemma wt_okI:
  assumes "eff = Some (s', owed, es')"
    and "wt_ops_ok s' (M + mset owed) (es @ es')" "viewers_ok initial s' (es @ es')" "wt_users_ok s'"
    and "current_ok initial s' (es @ es')" "wt_waits_ok s' ws" "overlaps_ok s' (es @ es')"
    and "wt_owed_ok (M + mset owed)"
  shows "wt_ok initial M es eff"
  using assms by (auto simp: wt_ok_def wt_inv_def)

text \<open>Facts about the parts.\<close>

lemma wt_op_ok_mono:
  assumes "wt_op_ok n entry owed got ends news" "\<And>r. ends r \<Longrightarrow> ends' r"
    and "\<And>op. entry = Some op \<Longrightarrow> wo_alive op \<Longrightarrow> owed = {#Wt_Complete n#} \<Longrightarrow> outstanding_op op \<Longrightarrow>
           news (wo_receiver op) \<Longrightarrow> news' (wo_receiver op)"
  shows "wt_op_ok n entry owed got ends' news'"
proof (cases entry)
  case (Some op)
  then have "wt_phase n op owed got ends news" using assms(1) by (simp add: wt_op_ok_def)
  moreover have "wt_fits sig op got ends \<Longrightarrow> wt_fits sig op got ends'" for sig
    using assms(2) by (auto simp: wt_fits_def)
  ultimately have "wt_phase n op owed got ends' news'"
    using assms(3) [OF Some] unfolding wt_phase_def outstanding_op_def by (elim disjE) auto
  then show ?thesis using Some by (simp add: wt_op_ok_def)
qed (use assms in \<open>simp add: wt_op_ok_def\<close>)

lemma wt_ops_okD:
  "wt_ops_ok s M es \<Longrightarrow> wt_op_ok n (wt_ops s n) (wt_owes n M) (seen_by n es) (wt_ends s es) (wt_news s es)"
  by (simp add: wt_ops_ok_def)

lemma wt_live_Some: "wt_live s n = Some op \<longleftrightarrow> wt_ops s n = Some op \<and> wo_alive op"
  by (auto simp: wt_live_def split: option.split)

lemma wt_live_receiver_Some:
  "wt_live_receiver s r = Some rc \<longleftrightarrow> wt_receivers s r = Some rc \<and> wr_alive rc"
  by (auto simp: wt_live_receiver_def split: option.split)

lemma wt_put_simps [simp]:
  "wt_ops (wt_put n op s) = (wt_ops s)(n \<mapsto> op)"
  "wt_receivers (wt_put n op s) = wt_receivers s" "wt_current (wt_put n op s) = wt_current s"
  "wt_version (wt_put n op s) = wt_version s" "wt_closed (wt_put n op s) = wt_closed s"
  "wt_waiters (wt_put n op s) = wt_waiters s" "wt_connected (wt_put n op s) = wt_connected s"
  "wt_ops (wt_put_receiver r rc s) = wt_ops s"
  "wt_receivers (wt_put_receiver r rc s) = (wt_receivers s)(r \<mapsto> rc)"
  "wt_current (wt_put_receiver r rc s) = wt_current s" "wt_version (wt_put_receiver r rc s) = wt_version s"
  "wt_closed (wt_put_receiver r rc s) = wt_closed s" "wt_waiters (wt_put_receiver r rc s) = wt_waiters s"
  "wt_connected (wt_put_receiver r rc s) = wt_connected s"
  by (simp_all add: wt_put_def wt_put_receiver_def)

lemma viewers_okD: "viewers_ok initial s es \<Longrightarrow> viewer_ok (wt_receivers s r) (history initial es) (looks r es)"
  by (simp add: viewers_ok_def)

lemma viewers_ok_change:
  assumes "viewers_ok initial s es" "history initial (es @ es') = history initial es"
    and "\<And>q. q \<noteq> r \<Longrightarrow> wt_receivers s' q = wt_receivers s q \<and> looks q es' = []"
    and "viewer_ok (wt_receivers s' r) (history initial es) (looks r es @ looks r es')"
  shows "viewers_ok initial s' (es @ es')"
  unfolding viewers_ok_def
proof
  fix q
  show "viewer_ok (wt_receivers s' q) (history initial (es @ es')) (looks q (es @ es'))"
    using assms viewers_okD [OF assms(1), of q] by (cases "q = r") auto
qed

lemma wt_pending:
  assumes "wt_ops_ok s (add_mset a M) es" "wt_target a = Some n"
  obtains op where "wt_ops s n = Some op" "wo_alive op" "wo_started op" "wo_signals op = []"
    "wt_owes n M = {#}" "wo_stage op \<noteq> WtQueued" "wo_stage op \<noteq> WtGone" "wo_attached op"
    "wt_phase n op {#a#} (seen_by n es) (wt_ends s es) (wt_news s es)"
  using wt_ops_okD [OF assms(1), of n] assms(2) that
  by (fastforce simp: wt_op_ok_def wt_phase_def split: option.splits)

section \<open>Steps of one operation\<close>

lemma wt_waits_put:
  assumes "wt_waits_ok s ws" "\<not> wt_parked s n" "wo_stage op \<noteq> WtQueued"
  shows "wt_waits_ok (wt_put n op s) ws"
  using assms by (auto simp: wt_waits_ok_def wt_parked_def)

lemma wt_waits_unlink:
  assumes "wt_waits_ok s ws" "wt_parked s n" "wo_stage op \<noteq> WtQueued"
  shows "wt_waits_ok (wt_put n op (s\<lparr>wt_waiters := unlink_node n (wt_waiters s)\<rparr>)) (remove1 n ws)"
proof -
  have rep: "represents (wt_waiters s) ws" and n: "n \<in> set ws" using assms(1,2) by (auto simp: wt_waits_ok_def)
  have "represents (unlink_node n (wt_waiters s)) (remove1 n ws)" by (rule wl.holds_withdraw [OF rep n])
  moreover have "remove1 n ws \<noteq> [] \<Longrightarrow> ws \<noteq> []" by auto
  moreover have "distinct ws" by (rule wl.holds_distinct [OF rep])
  ultimately show ?thesis using assms n by (auto simp: wt_waits_ok_def wt_parked_def)
qed

lemma wt_waits_park:
  assumes "wt_waits_ok s ws" "\<not> wt_parked s n" "wo_stage op = WtQueued" "\<not> wt_closed s"
    and "wo_seen op = wt_version s"
  shows "wt_waits_ok (wt_put n op (s\<lparr>wt_waiters := queue_node n (wt_waiters s)\<rparr>)) (ws @ [n])"
proof -
  have rep: "represents (wt_waiters s) ws" and n: "n \<notin> set ws" using assms(1,2) by (auto simp: wt_waits_ok_def)
  show ?thesis
    using assms wl.holds_enqueue [OF rep n] by (auto simp: wt_waits_ok_def wt_parked_def)
qed

text \<open>A step of one operation, called or owed.\<close>

definition wt_spent :: "nat \<Rightarrow> 'a wt_action multiset \<Rightarrow> 'a wt_action multiset \<Rightarrow> bool" where
  "wt_spent n M0 M \<longleftrightarrow> M0 = M \<or> (\<exists>a. M0 = add_mset a M \<and> wt_target a = Some n)"

lemma wt_spent_call: "wt_spent n M M"
  and wt_spent_owed: "wt_target a = Some n \<Longrightarrow> wt_spent n (add_mset a M) M"
  by (auto simp: wt_spent_def)

lemma wt_spent_owes:
  assumes "wt_spent n M0 M"
  shows "m \<noteq> n \<Longrightarrow> wt_owes m M0 = wt_owes m M" "wt_owed_ok M0 \<Longrightarrow> wt_owed_ok M"
  using assms by (auto simp: wt_spent_def wt_owed_ok_def)

lemma wt_owes_of:
  assumes "\<forall>a\<in>set owed. wt_target a = Some n"
  shows "m \<noteq> n \<Longrightarrow> wt_owes m (mset owed) = {#}" "wt_owes n (mset owed) = mset owed"
  using assms by (induction owed) auto

lemma overlaps_change:
  assumes "overlaps_ok s es" "\<And>m. m \<noteq> n \<Longrightarrow> wt_ops s' m = wt_ops s m" "set es \<subseteq> set es2"
    and "\<And>op m op'. wt_ops s' n = Some op \<Longrightarrow> outstanding_op op \<Longrightarrow> m \<noteq> n \<Longrightarrow> wt_ops s m = Some op' \<Longrightarrow>
          outstanding_op op' \<Longrightarrow> wo_receiver op' = wo_receiver op \<Longrightarrow> Overlap (wo_receiver op) \<in> set es2"
  shows "overlaps_ok s' es2"
  unfolding overlaps_ok_def
proof (intro allI impI)
  fix k m a b
  assume two: "wt_ops s' k = Some a \<and> wt_ops s' m = Some b \<and> k \<noteq> m \<and>
     outstanding_op a \<and> outstanding_op b \<and> wo_receiver a = wo_receiver b"
  consider "k = n" | "m = n" | "k \<noteq> n" "m \<noteq> n" by blast
  then show "Overlap (wo_receiver a) \<in> set es2"
  proof cases
    case 1
    then show ?thesis using two assms(2) [of m] assms(4) [of a m b] by simp
  next
    case 2
    then show ?thesis using two assms(2) [of k] assms(4) [of b k a] by simp
  next
    case 3
    then have "Overlap (wo_receiver a) \<in> set es"
      using two assms(2) assms(1) [unfolded overlaps_ok_def, rule_format, of k a m b] by simp
    then show ?thesis using assms(3) by blast
  qed
qed

text \<open>
  The general step: operation \<open>n\<close> changes, and perhaps its receiver and the wait list.  An operation that
  becomes outstanding, or a receiver that loses its news, must not meet another outstanding operation of
  the same receiver unless an overlap is on record.
\<close>

lemma wt_op_step:
  assumes inv: "wt_inv initial s M0 es" "wt_spent n M0 M"
    and eff: "eff = Some (wt_put n op s', owed, es')" "\<forall>a\<in>set owed. wt_target a = Some n"
    and same: "wt_ops s' = wt_ops s" "wt_current s' = wt_current s" "wt_version s' = wt_version s"
      "wt_closed s' = wt_closed s" "wt_connected s' = wt_connected s"
    and log: "tl (history initial es') = []" "\<And>m. m \<noteq> n \<Longrightarrow> seen_by m es' = []"
    and old: "wt_ops s n = Some old" "wo_receiver op = wo_receiver old" "wo_alive op \<Longrightarrow> wo_alive old"
    and viewers: "viewers_ok initial s' (es @ es')" "wt_users_ok s \<Longrightarrow> wt_users_ok s'"
    and op_ok: "wt_op_ok n (Some op) (wt_owes n M + mset owed) (seen_by n es @ seen_by n es')
      (wt_ends s' (es @ es')) (wt_news s' (es @ es'))"
    and news: "\<And>r. wt_news s es r \<Longrightarrow> wt_news s' (es @ es') r \<or> r = wo_receiver old \<and> outstanding_op old"
    and single: "outstanding_op op \<Longrightarrow> outstanding_op old \<or>
      (\<forall>m op'. m \<noteq> n \<and> wt_ops s m = Some op' \<and> outstanding_op op' \<and> wo_receiver op' = wo_receiver old \<longrightarrow>
         Overlap (wo_receiver old) \<in> set (es @ es'))"
    and waits: "\<And>ws. wt_waits_ok s ws \<Longrightarrow> \<exists>ws'. wt_waits_ok (wt_put n op s') ws'"
  shows "wt_ok initial M es eff"
proof -
  obtain ws where parts: "wt_ops_ok s M0 es" "wt_users_ok s" "current_ok initial s es"
      "wt_waits_ok s ws" "overlaps_ok s es" "wt_owed_ok M0"
    using inv(1) by (rule wt_invE)
  note spent = wt_spent_owes [OF inv(2)] and owes = wt_owes_of [OF eff(2)]
  obtain ws' where ws': "wt_waits_ok (wt_put n op s') ws'" using waits parts(4) by blast
  let ?s = "wt_put n op s'"
  have ends: "wt_ends ?s = wt_ends s'" "wt_news ?s = wt_news s'"
    by (simp_all add: wt_ends_def wt_news_def fun_eq_iff)
  have "history initial (es @ es') = history initial es" using log(1) by (simp add: history_append)
  then have current: "current_ok initial ?s (es @ es')" using parts(3) same by (simp add: current_ok_def)
  have ends_mono: "wt_ends s es r \<Longrightarrow> wt_ends s' (es @ es') r" for r using same by (auto simp: wt_ends_def)
  show ?thesis
  proof (rule wt_okI [OF eff(1)])
    show "wt_ops_ok ?s (M + mset owed) (es @ es')"
      unfolding wt_ops_ok_def ends
    proof
      fix m
      show "wt_op_ok m (wt_ops ?s m) (wt_owes m (M + mset owed)) (seen_by m (es @ es')) (wt_ends s' (es @ es'))
         (wt_news s' (es @ es'))"
      proof (cases "m = n")
        case False
        have "wt_op_ok m (wt_ops s m) (wt_owes m M) (seen_by m es) (wt_ends s (es)) (wt_news s es)"
          using wt_ops_okD [OF parts(1), of m] spent(1) [OF False] by simp
        then have "wt_op_ok m (wt_ops s m) (wt_owes m M) (seen_by m es) (wt_ends s' (es @ es')) (wt_news s' (es @ es'))"
        proof (rule wt_op_ok_mono)
          fix a
          assume a: "wt_ops s m = Some a" "outstanding_op a" "wt_news s es (wo_receiver a)"
          show "wt_news s' (es @ es') (wo_receiver a)"
          proof (cases "wo_receiver a = wo_receiver old \<and> outstanding_op old")
            case True
            then have "Overlap (wo_receiver a) \<in> set es"
              using parts(5) [unfolded overlaps_ok_def, rule_format, of m a n old] a False old(1) by simp
            then show ?thesis by (simp add: wt_news_def wt_ends_def)
          qed (use news [OF a(3)] in blast)
        qed (use ends_mono in blast)
        then show ?thesis using False same log(2) [OF False] owes(1) [OF False] by simp
      qed (use op_ok owes(2) in simp)
    qed
    show "viewers_ok initial ?s (es @ es')" using viewers(1) by (simp add: viewers_ok_def)
    show "wt_users_ok ?s" using viewers(2) [OF parts(2)] same old by (auto simp: wt_users_ok_def)
    show "current_ok initial ?s (es @ es')" by (rule current)
    show "wt_waits_ok ?s ws'" by (rule ws')
    show "overlaps_ok ?s (es @ es')"
    proof (rule overlaps_change [OF parts(5), of n])
      fix o1 m o2
      assume "wt_ops ?s n = Some o1" "outstanding_op o1" "m \<noteq> n" "wt_ops s m = Some o2" "outstanding_op o2"
        "wo_receiver o2 = wo_receiver o1"
      moreover from this have "o1 = op" by simp
      ultimately show "Overlap (wo_receiver o1) \<in> set (es @ es')"
        using single old parts(5) [unfolded overlaps_ok_def, rule_format, of n old m o2] by auto
    qed (use same in auto)
    show "wt_owed_ok (M + mset owed)" using spent(2) [OF parts(6)] eff(2) by (auto simp: wt_owed_ok_def)
  qed
qed

text \<open>The case that nothing is logged and the receivers stay as they are.\<close>

lemma wt_quiet_step:
  assumes inv: "wt_inv initial s M0 es" "wt_spent n M0 M"
    and eff: "eff = Some (wt_put n op s', owed, [])" "\<forall>a\<in>set owed. wt_target a = Some n"
    and same: "wt_ops s' = wt_ops s" "wt_receivers s' = wt_receivers s" "wt_current s' = wt_current s"
      "wt_version s' = wt_version s" "wt_closed s' = wt_closed s" "wt_connected s' = wt_connected s"
    and old: "wt_ops s n = Some old" "wo_receiver op = wo_receiver old" "wo_alive op \<Longrightarrow> wo_alive old"
    and op_ok: "wt_op_ok n (Some op) (wt_owes n M + mset owed) (seen_by n es) (wt_ends s es) (wt_news s es)"
    and single: "outstanding_op op \<Longrightarrow> outstanding_op old"
    and waits: "\<And>ws. wt_waits_ok s ws \<Longrightarrow> \<exists>ws'. wt_waits_ok (wt_put n op s') ws'"
  shows "wt_ok initial M es eff"
proof (rule wt_op_step [OF inv eff same(1,3-6) _ _ old])
  have "wt_ends s' = wt_ends s" "wt_news s' = wt_news s" using same by (simp_all add: wt_ends_def wt_news_def fun_eq_iff)
  then show "wt_op_ok n (Some op) (wt_owes n M + mset owed) (seen_by n es @ seen_by n [])
      (wt_ends s' (es @ [])) (wt_news s' (es @ []))"
    "\<And>r. wt_news s es r \<Longrightarrow> wt_news s' (es @ []) r \<or> r = wo_receiver old \<and> outstanding_op old"
    using op_ok by simp_all
  have "viewers_ok initial s es" using inv(1) by (rule wt_invE)
  then show "viewers_ok initial s' (es @ [])" using same by (simp add: viewers_ok_def)
  show "wt_users_ok s \<Longrightarrow> wt_users_ok s'" using same by (simp add: wt_users_ok_def)
qed (use single waits in auto)

lemma wt_same_waits:
  assumes "wt_waits_ok s ws" "wt_ops s n = Some old" "wo_stage old \<noteq> WtQueued" "wo_stage op \<noteq> WtQueued"
  shows "\<exists>ws'. wt_waits_ok (wt_put n op s) ws'"
  using wt_waits_put [OF assms(1), of n op] assms(2-4) by (auto simp: wt_parked_def)

lemma wt_signal_op_ok:
  assumes "wt_inv initial s (add_mset (Wt_Signal n sig) M) es"
  shows "wt_ok initial M es (wt_signal_op n sig s)"
proof -
  have ops: "wt_ops_ok s (add_mset (Wt_Signal n sig) M) es" using assms by (rule wt_invE)
  obtain op where op: "wt_ops s n = Some op" "wo_alive op" "wo_started op" "wo_signals op = []" "wt_owes n M = {#}"
    "wo_stage op \<noteq> WtQueued" "wo_stage op \<noteq> WtGone"
    and phase: "wt_phase n op {#Wt_Signal n sig#} (seen_by n es) (wt_ends s es) (wt_news s es)"
    by (rule wt_pending [OF ops, of n]) simp_all
  let ?op = "op\<lparr>wo_callback := False, wo_signals := wo_signals op @ [sig]\<rparr>"
  have fits: "wt_fits sig ?op (seen_by n es) (wt_ends s es)"
    using phase by (auto simp: wt_phase_def wt_fits_def)
  have target: "wt_target (Wt_Signal n sig) = Some n" by simp
  show ?thesis
  proof (rule wt_quiet_step [where n = n, OF assms wt_spent_owed [OF target] _ _ _ _ _ _ _ _ op(1)])
    show "wt_signal_op n sig s = Some (wt_put n ?op s, [], [])"
      by (simp add: wt_signal_op_def wt_live_def op)
    show "wt_op_ok n (Some ?op) (wt_owes n M + mset []) (seen_by n es) (wt_ends s es) (wt_news s es)"
      using op fits by (simp add: wt_op_ok_def wt_phase_def)
    show "\<exists>ws'. wt_waits_ok (wt_put n ?op s) ws'" if "wt_waits_ok s ws" for ws
      using wt_same_waits [OF that op(1) op(6)] op(6) by simp
  qed (simp_all add: outstanding_op_def)
qed

lemma wt_stop_ok:
  assumes "wt_inv initial s M es" "wt_live s n = Some op" "wo_callback op"
  shows "wt_ok initial M es (wt_stop n s)"
proof -
  have ops: "wt_ops_ok s M es" using assms(1) by (rule wt_invE)
  have op: "wt_ops s n = Some op" "wo_alive op" using assms(2) by (simp_all add: wt_live_Some)
  have ok: "wt_phase n op (wt_owes n M) (seen_by n es) (wt_ends s es) (wt_news s es)"
    using wt_ops_okD [OF ops, of n] op by (simp add: wt_op_ok_def)
  show ?thesis
  proof (cases "wo_stage op = WtQueued")
    case True
    let ?op = "op\<lparr>wo_callback := False, wo_stage := WtStopped\<rparr>"
    let ?s = "s\<lparr>wt_waiters := unlink_node n (wt_waiters s)\<rparr>"
    have ready: "wo_attached op" "wo_started op" "wo_signals op = []" "wt_owes n M = {#}" "seen_by n es = []"
      using ok True op by (simp_all add: wt_phase_def)
    show ?thesis
    proof (rule wt_quiet_step [where n = n, OF assms(1) wt_spent_call _ _ _ _ _ _ _ _ op(1)])
      show "wt_stop n s = Some (wt_put n ?op ?s, [Wt_Signal n Wt_Stopped], [])"
        using True assms(2) ready(1) by (simp add: wt_stop_def)
      show "wt_op_ok n (Some ?op) (wt_owes n M + mset [Wt_Signal n Wt_Stopped]) (seen_by n es)
          (wt_ends s es) (wt_news s es)"
        using ready op by (simp add: wt_op_ok_def wt_phase_def wt_fits_def)
      show "\<exists>ws'. wt_waits_ok (wt_put n ?op ?s) ws'" if "wt_waits_ok s ws" for ws
        using wt_waits_unlink [OF that, of n ?op] True op by (auto simp: wt_parked_def)
    qed (simp_all add: outstanding_op_def)
  next
    case False
    define stopped where "stopped = (wo_attached op \<and> wo_stage op = WtInit \<or> wo_stop_requested op)"
    let ?op = "op\<lparr>wo_callback := False, wo_stop_requested := stopped\<rparr>"
    have fits: "wt_fits sig ?op got ends = wt_fits sig op got ends" for sig got ends by (simp add: wt_fits_def)
    show ?thesis
    proof (rule wt_quiet_step [where n = n, OF assms(1) wt_spent_call _ _ _ _ _ _ _ _ op(1)])
      show "wt_stop n s = Some (wt_put n ?op s, [], [])"
        using False assms(2) by (cases op) (auto simp: wt_stop_def stopped_def Let_def)
      have "wt_phase n ?op (wt_owes n M) (seen_by n es) (wt_ends s es) (wt_news s es)"
        using ok assms(3) unfolding wt_phase_def by (elim disjE) (simp_all add: fits)
      then show "wt_op_ok n (Some ?op) (wt_owes n M + mset []) (seen_by n es) (wt_ends s es) (wt_news s es)"
        by (simp add: wt_op_ok_def)
      show "\<exists>ws'. wt_waits_ok (wt_put n ?op s) ws'" if "wt_waits_ok s ws" for ws
        using wt_same_waits [OF that op(1)] False by simp
    qed (simp_all add: outstanding_op_def)
  qed
qed

lemma wt_destroy_ok:
  assumes "wt_inv initial s M es" "wt_live s n = Some op"
    "\<not> wo_started op \<or> wo_stage op = WtQueued \<or> wo_signals op \<noteq> []"
  shows "wt_ok initial M es (wt_destroy n s)"
proof -
  have ops: "wt_ops_ok s M es" using assms(1) by (rule wt_invE)
  have op: "wt_ops s n = Some op" "wo_alive op" using assms(2) by (simp_all add: wt_live_Some)
  have ok: "wt_phase n op (wt_owes n M) (seen_by n es) (wt_ends s es) (wt_news s es)"
    using wt_ops_okD [OF ops, of n] op by (simp add: wt_op_ok_def)
  show ?thesis
  proof (cases "wo_stage op = WtQueued")
    case True
    let ?op = "op\<lparr>wo_alive := False, wo_callback := False, wo_stage := WtGone\<rparr>"
    let ?s = "s\<lparr>wt_waiters := unlink_node n (wt_waiters s)\<rparr>"
    have ready: "wo_attached op" "wo_started op" "wo_signals op = []" "wt_owes n M = {#}" "seen_by n es = []"
      using ok True op by (simp_all add: wt_phase_def)
    show ?thesis
    proof (rule wt_quiet_step [where n = n, OF assms(1) wt_spent_call _ _ _ _ _ _ _ _ op(1)])
      show "wt_destroy n s = Some (wt_put n ?op ?s, [], [])"
        using True assms(2) ready(1) by (simp add: wt_destroy_def)
      show "wt_op_ok n (Some ?op) (wt_owes n M + mset []) (seen_by n es) (wt_ends s es) (wt_news s es)"
        using ready by (simp add: wt_op_ok_def wt_phase_def)
      show "\<exists>ws'. wt_waits_ok (wt_put n ?op ?s) ws'" if "wt_waits_ok s ws" for ws
        using wt_waits_unlink [OF that, of n ?op] True op by (auto simp: wt_parked_def)
    qed (simp_all add: outstanding_op_def)
  next
    case False
    let ?op = "op\<lparr>wo_alive := False, wo_callback := False\<rparr>"
    have fits: "wt_fits sig ?op got ends = wt_fits sig op got ends" for sig got ends by (simp add: wt_fits_def)
    show ?thesis
    proof (rule wt_quiet_step [where n = n, OF assms(1) wt_spent_call _ _ _ _ _ _ _ _ op(1)])
      show "wt_destroy n s = Some (wt_put n ?op s, [], [])"
        using False assms(2) by (simp add: wt_destroy_def)
      have "wt_phase n ?op (wt_owes n M) (seen_by n es) (wt_ends s es) (wt_news s es)"
        using ok assms(3) False unfolding wt_phase_def by (elim disjE) (simp_all add: fits)
      then show "wt_op_ok n (Some ?op) (wt_owes n M + mset []) (seen_by n es) (wt_ends s es) (wt_news s es)"
        by (simp add: wt_op_ok_def)
      show "\<exists>ws'. wt_waits_ok (wt_put n ?op s) ws'" if "wt_waits_ok s ws" for ws
        using wt_same_waits [OF that op(1)] False by simp
    qed (simp_all add: outstanding_op_def)
  qed
qed

lemma wt_start_ok:
  assumes "wt_inv initial s M es" "wt_live s n = Some op" "\<not> wo_started op"
  shows "wt_ok initial M es (wt_start n s)"
proof -
  have ops: "wt_ops_ok s M es" and views: "viewers_ok initial s es" and users: "wt_users_ok s"
    using assms(1) by (auto elim: wt_invE)
  have op: "wt_ops s n = Some op" "wo_alive op" using assms(2) by (simp_all add: wt_live_Some)
  have phase: "wo_stage op = WtInit" "wo_signals op = []" "wt_owes n M = {#}" "seen_by n es = []"
    using wt_ops_okD [OF ops, of n] op assms(3) by (auto simp: wt_op_ok_def wt_phase_def)
  show ?thesis
  proof (cases "wo_attached op")
    case True
    let ?op = "op\<lparr>wo_started := True, wo_callback := True\<rparr>"
    let ?r = "wo_receiver op"
    define clash where "clash = list_ex (wt_outstanding s ?r) (wt_connected s)"
    define fs where "fs = (if clash then [Overlap ?r] else [] :: 'a wt_event list)"
    have log: "tl (history initial fs) = []" "seen_by m fs = []" "looks q fs = []" for m q
      by (simp_all add: fs_def)
    show ?thesis
    proof (rule wt_op_step [where n = n and es' = fs, OF assms(1) wt_spent_call _ _ _ _ _ _ _ log(1,2) op(1)])
      show "wt_start n s = Some (wt_put n ?op s, [Wt_Arbitrate n], fs)"
        using True assms(2) by (simp add: wt_start_def fs_def clash_def)
      show "wt_op_ok n (Some ?op) (wt_owes n M + mset [Wt_Arbitrate n]) (seen_by n es @ seen_by n fs)
          (wt_ends s (es @ fs)) (wt_news s (es @ fs))"
        using phase True op log by (simp add: wt_op_ok_def wt_phase_def)
      show "viewers_ok initial s (es @ fs)" using views log by (simp add: viewers_ok_def history_append)
      show "wt_news s es r \<Longrightarrow> wt_news s (es @ fs) r \<or> r = ?r \<and> outstanding_op op" for r
        by (auto simp: wt_news_def wt_ends_def)
      have "Overlap ?r \<in> set fs" if "m \<noteq> n" "wt_ops s m = Some b" "outstanding_op b" "wo_receiver b = ?r" for m b
      proof -
        have "m \<in> set (wt_connected s)" using users that(2) by (simp add: wt_users_ok_def)
        moreover have "wt_outstanding s ?r m"
          using that by (auto simp: wt_outstanding_def wt_live_def outstanding_op_def)
        ultimately show ?thesis by (auto simp: fs_def clash_def list_ex_iff)
      qed
      then show "outstanding_op op \<or> (\<forall>m op'. m \<noteq> n \<and> wt_ops s m = Some op' \<and> outstanding_op op' \<and>
          wo_receiver op' = ?r \<longrightarrow> Overlap ?r \<in> set (es @ fs))" by auto
      show "\<exists>ws'. wt_waits_ok (wt_put n ?op s) ws'" if "wt_waits_ok s ws" for ws
        using wt_same_waits [OF that op(1)] phase(1) by simp
    qed simp_all
  next
    case False
    let ?op = "op\<lparr>wo_started := True, wo_callback := False, wo_signals := [Wt_Value None]\<rparr>"
    show ?thesis
    proof (rule wt_quiet_step [where n = n, OF assms(1) wt_spent_call _ _ _ _ _ _ _ _ op(1)])
      show "wt_start n s = Some (wt_put n ?op s, [], [])"
        using False assms(2) op phase(2)
        by (simp add: wt_start_def wt_signal_op_def wt_put_def wt_live_def)
      show "wt_op_ok n (Some ?op) (wt_owes n M + mset []) (seen_by n es) (wt_ends s es) (wt_news s es)"
        using phase False by (simp add: wt_op_ok_def wt_phase_def wt_fits_def)
      show "\<exists>ws'. wt_waits_ok (wt_put n ?op s) ws'" if "wt_waits_ok s ws" for ws
        using wt_same_waits [OF that op(1)] phase(1) by simp
    qed (simp_all add: outstanding_op_def)
  qed
qed

section \<open>Arbitration and completion of a pull\<close>

text \<open>The receiver's version is the newest, and it sees the current value.\<close>

lemma track_look:
  assumes "viewer_ok (Some rc) H ls" "wr_seen rc < length H" "H \<noteq> []"
  shows "viewer_ok (Some (rc\<lparr>wr_seen := length H\<rparr>)) H (ls @ [Look (length H) (last H)])"
  using assms by (auto simp: viewer_ok_def track_append last_conv_nth)

lemma wt_see_ok:
  assumes inv: "wt_inv initial s (add_mset a M) es" "wt_target a = Some n"
    and ready: "wt_ops s n = Some op" "wt_receivers s (wo_receiver op) = Some rc" "wr_seen rc < wt_version s"
      "seen_by n es = []"
    and eff: "eff = Some (wt_put n op' (wt_put_receiver (wo_receiver op) (rc\<lparr>wr_seen := wt_version s\<rparr>) s),
        [Wt_Signal n (Wt_Value (Some (wt_current s)))],
        [Saw (wo_receiver op) n (wt_version s) (wt_current s)])"
    and op': "wo_receiver op' = wo_receiver op" "wo_alive op' = wo_alive op" "wo_started op' = wo_started op"
      "wo_attached op' = wo_attached op" "wo_signals op' = wo_signals op" "wo_stage op' = wo_stage op"
  shows "wt_ok initial M es eff"
proof -
  have parts: "wt_ops_ok s (add_mset a M) es" "viewers_ok initial s es" "wt_users_ok s" "current_ok initial s es"
    using inv(1) by (auto elim: wt_invE)
  have op: "wo_alive op" "wo_started op" "wo_signals op = []" "wt_owes n M = {#}"
    "wo_stage op \<noteq> WtQueued" "wo_stage op \<noteq> WtGone" "wo_attached op"
    by (rule wt_pending [OF parts(1) inv(2)], use ready(1) in simp)+
  let ?r = "wo_receiver op"
  let ?rc = "rc\<lparr>wr_seen := wt_version s\<rparr>"
  let ?s = "wt_put_receiver ?r ?rc s"
  let ?es = "[Saw ?r n (wt_version s) (wt_current s)]"
  have same_history: "history initial (es @ ?es) = history initial es" by (simp add: history_append)
  have now: "wt_version s = length (history initial es)" "wt_current s = last (history initial es)"
    using parts(4) by (simp_all add: current_ok_def)
  show ?thesis
  proof (rule wt_op_step [where n = n, OF inv(1) wt_spent_owed [OF inv(2)] eff _ _ _ _ _ _ _ _ ready(1) op'(1)])
    show "wt_op_ok n (Some op') (wt_owes n M + mset [Wt_Signal n (Wt_Value (Some (wt_current s)))])
       (seen_by n es @ seen_by n ?es) (wt_ends ?s (es @ ?es)) (wt_news ?s (es @ ?es))"
      using op op' ready(4) by (simp add: wt_op_ok_def wt_phase_def wt_fits_def)
    show "viewers_ok initial ?s (es @ ?es)"
    proof (rule viewers_ok_change [OF parts(2) same_history])
      show "viewer_ok (wt_receivers ?s ?r) (history initial es) (looks ?r es @ looks ?r ?es)"
        using track_look [of rc "history initial es" "looks ?r es"] viewers_okD [OF parts(2), of ?r] ready(2,3) now
        by simp
    qed simp
    show "wt_users_ok ?s" if "wt_users_ok s" using that ready(2) by (fastforce simp: wt_users_ok_def)
    show "wt_news ?s (es @ ?es) r \<or> r = ?r \<and> outstanding_op op" if "wt_news s es r" for r
      using that op by (cases "r = ?r") (auto simp: wt_news_def wt_ends_def outstanding_op_def)
    show "\<exists>ws'. wt_waits_ok (wt_put n op' ?s) ws'" if "wt_waits_ok s ws" for ws
    proof (rule wt_same_waits)
      have "wt_waits_ok ?s ws = wt_waits_ok s ws" by (simp add: wt_waits_ok_def wt_parked_def)
      then show "wt_waits_ok ?s ws" using that by simp
    qed (use ready(1) op op' in simp_all)
  qed (use op' in \<open>simp_all add: outstanding_op_def\<close>)
qed

text \<open>Nothing is seen: the operation is owed a signal that shows nothing.\<close>

lemma wt_resolved_ok:
  assumes inv: "wt_inv initial s (add_mset a M) es" "wt_target a = Some n"
    and ready: "wt_ops s n = Some op" "seen_by n es = []"
    and eff: "eff = Some (wt_put n op' s, [Wt_Signal n sig], [])"
    and sig: "shown sig = []" "sig = Wt_Value None \<Longrightarrow> wt_ends s es (wo_receiver op)"
    and op': "wo_receiver op' = wo_receiver op" "wo_alive op' = wo_alive op" "wo_started op' = wo_started op"
      "wo_attached op' = wo_attached op" "wo_signals op' = wo_signals op" "wo_stage op' = wo_stage op"
  shows "wt_ok initial M es eff"
proof -
  have ops: "wt_ops_ok s (add_mset a M) es" using inv(1) by (rule wt_invE)
  have op: "wo_alive op" "wo_started op" "wo_signals op = []" "wt_owes n M = {#}"
    "wo_stage op \<noteq> WtQueued" "wo_stage op \<noteq> WtGone" "wo_attached op"
    by (rule wt_pending [OF ops inv(2)], use ready(1) in simp)+
  show ?thesis
  proof (rule wt_quiet_step [where n = n, OF inv(1) wt_spent_owed [OF inv(2)] eff _ _ _ _ _ _ _ ready(1) op'(1)])
    show "wt_op_ok n (Some op') (wt_owes n M + mset [Wt_Signal n sig]) (seen_by n es) (wt_ends s es) (wt_news s es)"
      using op op' ready(2) sig by (simp add: wt_op_ok_def wt_phase_def wt_fits_def)
    show "\<exists>ws'. wt_waits_ok (wt_put n op' s) ws'" if "wt_waits_ok s ws" for ws
      using wt_same_waits [OF that ready(1)] op op' by simp
  qed (use op' in \<open>simp_all add: outstanding_op_def\<close>)
qed

lemma wt_user_receiver:
  assumes "wt_users_ok s" "wt_ops s n = Some op" "wo_alive op"
  obtains rc where "wt_receivers s (wo_receiver op) = Some rc" "wt_live_receiver s (wo_receiver op) = Some rc"
  using assms by (fastforce simp: wt_users_ok_def wt_live_receiver_Some)

lemma wt_complete_ok:
  assumes "wt_inv initial s (add_mset (Wt_Complete n) M) es"
  shows "wt_ok initial M es (wt_complete n s)"
proof -
  have parts: "wt_ops_ok s (add_mset (Wt_Complete n) M) es" "wt_users_ok s" using assms by (auto elim: wt_invE)
  obtain op where op: "wt_ops s n = Some op" "wo_alive op"
    and phase: "wt_phase n op {#Wt_Complete n#} (seen_by n es) (wt_ends s es) (wt_news s es)"
    by (rule wt_pending [OF parts(1), of n]) simp_all
  have got: "seen_by n es = []" "wt_news s es (wo_receiver op)" using phase by (auto simp: wt_phase_def)
  obtain rc where rc: "wt_receivers s (wo_receiver op) = Some rc" "wt_live_receiver s (wo_receiver op) = Some rc"
    by (rule wt_user_receiver [OF parts(2) op])
  have live: "wt_live s n = Some op" using op by (simp add: wt_live_Some)
  have target: "wt_target (Wt_Complete n) = Some n" by simp
  show ?thesis
  proof (cases "wr_seen rc < wt_version s")
    case True
    show ?thesis
      by (rule wt_see_ok [where op' = "op\<lparr>wo_callback := False\<rparr>", OF assms target op(1) rc(1) True got(1)])
        (use True live rc in \<open>simp_all add: wt_complete_def Let_def\<close>)
  next
    case False
    then have "wt_ends s es (wo_receiver op)" using got(2) rc(1) by (simp add: wt_news_def)
    then show ?thesis
      by (intro wt_resolved_ok [where op' = "op\<lparr>wo_callback := False\<rparr>" and sig = "Wt_Value None",
            OF assms target op(1) got(1)])
        (use False live rc in \<open>simp_all add: wt_complete_def Let_def\<close>)
  qed
qed

lemma wt_duplicate_defined:
  assumes "\<And>m. m \<in> set ms \<Longrightarrow> \<exists>op. wt_live s m = Some op"
  shows "\<exists>d. wt_duplicate ms n r s = Some d"
  using assms
proof (induction ms)
  case (Cons m ms)
  then obtain op where "wt_live s m = Some op" by fastforce
  then show ?case using Cons by auto
qed (simp add: exI [of _ False])

lemma wt_parked_live:
  assumes "wt_ops_ok s M es" "wt_parked s m"
  obtains op where "wt_live s m = Some op" "wo_stage op = WtQueued"
proof -
  obtain op where op: "wt_ops s m = Some op" "wo_stage op = WtQueued"
    using assms(2) by (auto simp: wt_parked_def)
  then have "wo_alive op"
    using wt_ops_okD [OF assms(1), of m] by (auto simp: wt_op_ok_def wt_phase_def)
  then show thesis using op by (intro that) (simp_all add: wt_live_Some)
qed

lemma wt_park_ok:
  assumes "wt_inv initial s (add_mset (Wt_Arbitrate n) M) es" "wt_ops s n = Some op"
    and "\<not> wt_closed s" "wt_receivers s (wo_receiver op) = Some rc" "\<not> wr_seen rc < wt_version s"
    and eff: "eff = Some (wt_put n (op\<lparr>wo_seen := wr_seen rc, wo_stage := WtQueued\<rparr>)
        (s\<lparr>wt_waiters := queue_node n (wt_waiters s)\<rparr>), [], [])"
  shows "wt_ok initial M es eff"
proof -
  have parts: "wt_ops_ok s (add_mset (Wt_Arbitrate n) M) es" "viewers_ok initial s es" "current_ok initial s es"
    using assms(1) by (auto elim: wt_invE)
  have target: "wt_target (Wt_Arbitrate n) = Some n" by simp
  have op: "wo_alive op" "wo_started op" "wo_signals op = []" "wt_owes n M = {#}" "wo_stage op \<noteq> WtQueued"
    "wo_attached op" "seen_by n es = []"
    by (rule wt_pending [OF parts(1) target], use assms(2) in \<open>auto simp: wt_phase_def\<close>)+
  have "wr_seen rc \<le> wt_version s"
    using viewers_okD [OF parts(2), of "wo_receiver op"] assms(4) parts(3)
    by (simp add: viewer_ok_def current_ok_def)
  then have seen: "wr_seen rc = wt_version s" using assms(5) by simp
  let ?op = "op\<lparr>wo_seen := wr_seen rc, wo_stage := WtQueued\<rparr>"
  show ?thesis
  proof (rule wt_quiet_step [where n = n, OF assms(1) wt_spent_owed [OF target] eff _ _ _ _ _ _ _ assms(2)])
    show "wt_op_ok n (Some ?op) (wt_owes n M + mset []) (seen_by n es) (wt_ends s es) (wt_news s es)"
      using op by (simp add: wt_op_ok_def wt_phase_def)
    show "\<exists>ws'. wt_waits_ok (wt_put n ?op (s\<lparr>wt_waiters := queue_node n (wt_waiters s)\<rparr>)) ws'"
      if "wt_waits_ok s ws" for ws
      using wt_waits_park [OF that, of n ?op] op assms(2,3) seen by (auto simp: wt_parked_def)
  qed (simp_all add: outstanding_op_def)
qed

lemma wt_arbitrate_ok:
  assumes "wt_inv initial s (add_mset (Wt_Arbitrate n) M) es"
  shows "wt_ok initial M es (wt_arbitrate n s)"
proof -
  obtain ws where parts: "wt_ops_ok s (add_mset (Wt_Arbitrate n) M) es" "wt_users_ok s" "wt_waits_ok s ws"
    using assms by (rule wt_invE)
  obtain op where op: "wt_ops s n = Some op" "wo_alive op"
    and phase: "wt_phase n op {#Wt_Arbitrate n#} (seen_by n es) (wt_ends s es) (wt_news s es)"
    by (rule wt_pending [OF parts(1), of n]) simp_all
  have got: "seen_by n es = []" using phase by (auto simp: wt_phase_def)
  obtain rc where rc: "wt_receivers s (wo_receiver op) = Some rc" "wt_live_receiver s (wo_receiver op) = Some rc"
    by (rule wt_user_receiver [OF parts(2) op])
  have live: "wt_live s n = Some op" using op by (simp add: wt_live_Some)
  have target: "wt_target (Wt_Arbitrate n) = Some n" by simp
  let ?at = "op\<lparr>wo_seen := wr_seen rc\<rparr>"
  have resolved: "wt_ok initial M es eff"
    if "eff = Some (wt_put n ?at s, [Wt_Signal n sig], [])" "shown sig = []"
      "sig = Wt_Value None \<Longrightarrow> wt_ends s es (wo_receiver op)" for eff sig
    by (rule wt_resolved_ok [where op' = ?at, OF assms target op(1) got that]) simp_all
  note arb = wt_arbitrate_def live rc Let_def
  consider "wo_stop_requested op" | "\<not> wo_stop_requested op" "wr_seen rc < wt_version s"
    | "\<not> wo_stop_requested op" "\<not> wr_seen rc < wt_version s" "wt_closed s"
    | "\<not> wo_stop_requested op" "\<not> wr_seen rc < wt_version s" "\<not> wt_closed s" by blast
  then show ?thesis
  proof cases
    case 1
    then show ?thesis by (intro resolved [of _ Wt_Stopped]) (simp_all add: arb)
  next
    case 2
    show ?thesis
      by (rule wt_see_ok [where op' = ?at, OF assms target op(1) rc(1) 2(2) got]) (use 2 in \<open>simp_all add: arb\<close>)
  next
    case 3
    then show ?thesis by (intro resolved [of _ "Wt_Value None"]) (simp_all add: arb wt_ends_def)
  next
    case 4
    have members: "wait_members (wt_waiters s) = Some ws" and parked: "\<forall>m\<in>set ws. wt_parked s m"
      using parts(3) wl.holds_members by (auto simp: wt_waits_ok_def)
    have "\<exists>a. wt_live s m = Some a" if "m \<in> set ws" for m
      using wt_parked_live [OF parts(1), of m] parked that by blast
    then obtain dup where dup: "wt_duplicate ws n (wo_receiver op) s = Some dup"
      using wt_duplicate_defined [of ws s n] by blast
    show ?thesis
    proof (cases dup)
      case True
      then show ?thesis
        by (intro resolved [of _ Wt_Violation]) (use 4 members dup in \<open>simp_all add: arb\<close>)
    next
      case False
      then show ?thesis
        by (intro wt_park_ok [OF assms op(1) 4(3) rc(1) 4(2)]) (use 4 members dup in \<open>simp add: arb\<close>)
    qed
  qed
qed

section \<open>Storing and closing\<close>

definition woken_wait :: "bool \<Rightarrow> 'a wt_op \<Rightarrow> 'a wt_op" where
  "woken_wait closing op = op\<lparr>wo_stage := WtDone, wo_closed := wo_closed op \<or> closing\<rparr>"

lemma wt_wake_effect:
  assumes "represents (wt_waiters s) ns" "\<And>n. n \<in> set ns \<Longrightarrow> \<exists>op. wt_live s n = Some op"
  shows "\<exists>w. represents w [] \<and> wt_wake closing ns s = Some (s\<lparr>wt_waiters := w,
     wt_ops := (\<lambda>n. if n \<in> set ns then map_option (woken_wait closing) (wt_ops s n) else wt_ops s n)\<rparr>)"
  using assms
proof (induction ns arbitrary: s)
  case Nil
  then show ?case by auto
next
  case (Cons n ns)
  obtain op where op: "wt_live s n = Some op" using Cons.prems(2) [of n] by auto
  define t where "t = wt_put n (woken_wait closing op) (s\<lparr>wt_waiters := unlink_node n (wt_waiters s)\<rparr>)"
  have fresh: "n \<notin> set ns" using wl.holds_distinct [OF Cons.prems(1)] by simp
  have "\<exists>w. represents w [] \<and> wt_wake closing ns t = Some (t\<lparr>wt_waiters := w,
     wt_ops := (\<lambda>n. if n \<in> set ns then map_option (woken_wait closing) (wt_ops t n) else wt_ops t n)\<rparr>)"
  proof (rule Cons.IH)
    show "represents (wt_waiters t) ns" using wl.holds_dequeue [OF Cons.prems(1)] by (simp add: t_def)
    show "\<exists>op. wt_live t m = Some op" if "m \<in> set ns" for m
      using Cons.prems(2) [of m] that fresh by (auto simp: t_def wt_live_def split: option.splits)
  qed
  then obtain w where w: "represents w []" "wt_wake closing ns t = Some (t\<lparr>wt_waiters := w,
     wt_ops := (\<lambda>n. if n \<in> set ns then map_option (woken_wait closing) (wt_ops t n) else wt_ops t n)\<rparr>)" by blast
  have "wt_wake closing (n # ns) s = wt_wake closing ns t" using op by (simp add: t_def woken_wait_def)
  moreover have "wt_ops s n = Some op" using op by (simp add: wt_live_Some)
  ultimately show ?case
    using w fresh by (intro exI [of _ w]) (auto simp: t_def wt_put_def fun_eq_iff)
qed

lemma wt_owes_completions:
  "distinct ns \<Longrightarrow> wt_owes n (image_mset Wt_Complete (mset ns)) =
     (if n \<in> set ns then {#Wt_Complete n#} else {#})"
  by (induction ns) auto

lemma wt_waits_none:
  "(\<And>n. \<not> wt_parked s n) \<Longrightarrow> represents (wt_waiters s) [] \<Longrightarrow> wt_waits_ok s []"
  by (auto simp: wt_waits_ok_def wt_parked_def)

text \<open>
  A store and a close wake everybody that is parked, after a change that is news for every receiver.
\<close>

lemma wt_wake_ok:
  assumes inv: "wt_inv initial s M es"
    and eff: "eff = do {
       woken \<leftarrow> wait_members (wt_waiters s);
       s' \<leftarrow> wt_wake closing woken t;
       Some (s', map Wt_Complete woken, es')
     }"
    and same: "wt_ops t = wt_ops s" "wt_receivers t = wt_receivers s" "wt_waiters t = wt_waiters s"
      "wt_connected t = wt_connected s" "wt_closed s \<Longrightarrow> wt_closed t"
    and log: "\<And>r. looks r es' = []" "\<And>n. seen_by n es' = []"
    and current: "current_ok initial t (es @ es')"
    and news: "\<And>r rc. wt_receivers s r = Some rc \<Longrightarrow> wt_news t (es @ es') r"
  shows "wt_ok initial M es eff"
proof -
  obtain ws where parts: "wt_ops_ok s M es" "viewers_ok initial s es" "wt_users_ok s"
      "wt_waits_ok s ws" "overlaps_ok s es" "wt_owed_ok M"
    using inv by (rule wt_invE)
  have rep: "represents (wt_waiters s) ws" and members: "\<And>m. m \<in> set ws \<longleftrightarrow> wt_parked s m"
    using parts(4) by (auto simp: wt_waits_ok_def)
  have dist: "distinct ws" by (rule wl.holds_distinct [OF rep])
  have live: "\<exists>op. wt_live t n = Some op" if "n \<in> set ws" for n
    using wt_parked_live [OF parts(1), of n] members that same(1) by (metis wt_live_def)
  define ops' where "ops' = (\<lambda>n. if n \<in> set ws then map_option (woken_wait closing) (wt_ops s n) else wt_ops s n)"
  have "represents (wt_waiters t) ws" using rep same(3) by simp
  then obtain w where w: "represents w []"
    and woke: "wt_wake closing ws t = Some (t\<lparr>wt_waiters := w, wt_ops := ops'\<rparr>)"
    using wt_wake_effect [where closing = closing, OF _ live] unfolding same(1) ops'_def by blast
  let ?s = "t\<lparr>wt_waiters := w, wt_ops := ops'\<rparr>"
  have ends: "wt_ends ?s = wt_ends t" "wt_news ?s = wt_news t"
    by (simp_all add: wt_ends_def wt_news_def fun_eq_iff)
  have ends_mono: "wt_ends s es r \<Longrightarrow> wt_ends t (es @ es') r" for r using same(5) by (auto simp: wt_ends_def)
  have user: "\<exists>rc. wt_receivers s (wo_receiver op) = Some rc" if "wt_ops s n = Some op" for n op
    using parts(3) that by (fastforce simp: wt_users_ok_def)
  have op': "\<exists>op0. wt_ops s n = Some op0 \<and> wo_receiver op = wo_receiver op0 \<and> wo_alive op = wo_alive op0 \<and>
      outstanding_op op = outstanding_op op0" if "ops' n = Some op" for n op
    using that by (auto simp: ops'_def woken_wait_def outstanding_op_def split: if_splits)
  show ?thesis
  proof (rule wt_okI [where s' = ?s and owed = "map Wt_Complete ws" and es' = es' and ws = "[]"])
    show "eff = Some (?s, map Wt_Complete ws, es')" using eff woke wl.holds_members [OF rep] by simp
    show "wt_ops_ok ?s (M + mset (map Wt_Complete ws)) (es @ es')"
      unfolding wt_ops_ok_def ends
    proof
      fix n
      have old: "wt_op_ok n (wt_ops s n) (wt_owes n M) (seen_by n es) (wt_ends s es) (wt_news s es)"
        by (rule wt_ops_okD [OF parts(1)])
      have "wt_op_ok n (ops' n) (wt_owes n M + (if n \<in> set ws then {#Wt_Complete n#} else {#})) (seen_by n es)
        (wt_ends t (es @ es')) (wt_news t (es @ es'))"
      proof (cases "n \<in> set ws")
        case True
        then obtain op where op: "wt_ops s n = Some op" "wo_stage op = WtQueued"
          using members by (auto simp: wt_parked_def)
        then have "wo_started op" "wo_alive op" "wo_attached op" "wo_signals op = []" "wt_owes n M = {#}"
          "seen_by n es = []"
          using old by (simp_all add: wt_op_ok_def wt_phase_def)
        moreover have "wt_news t (es @ es') (wo_receiver op)" using user [OF op(1)] news by blast
        ultimately show ?thesis
          using True op by (simp add: ops'_def wt_op_ok_def wt_phase_def woken_wait_def)
      next
        case False
        have "wt_op_ok n (wt_ops s n) (wt_owes n M) (seen_by n es) (wt_ends t (es @ es')) (wt_news t (es @ es'))"
        proof (rule wt_op_ok_mono [OF old])
          fix op
          assume "wt_ops s n = Some op"
          then show "wt_news t (es @ es') (wo_receiver op)" using user news by blast
        qed (rule ends_mono)
        then show ?thesis using False by (simp add: ops'_def)
      qed
      moreover have "wt_owes n (M + mset (map Wt_Complete ws)) =
          wt_owes n M + (if n \<in> set ws then {#Wt_Complete n#} else {#})"
        using wt_owes_completions [OF dist, of n] by simp
      moreover have "wt_ops ?s n = ops' n" "seen_by n (es @ es') = seen_by n es" using log(2) by simp_all
      ultimately show "wt_op_ok n (wt_ops ?s n) (wt_owes n (M + mset (map Wt_Complete ws))) (seen_by n (es @ es'))
          (wt_ends t (es @ es')) (wt_news t (es @ es'))"
        by (simp only:)
    qed
    show "viewers_ok initial ?s (es @ es')"
      unfolding viewers_ok_def
    proof
      fix r
      show "viewer_ok (wt_receivers ?s r) (history initial (es @ es')) (looks r (es @ es'))"
        using viewers_okD [OF parts(2), of r] same(2) log(1)
        by (auto simp: viewer_ok_def history_append track_grows split: option.splits)
    qed
    show "wt_users_ok ?s"
      unfolding wt_users_ok_def
    proof (intro allI impI)
      fix n op
      assume "wt_ops ?s n = Some op"
      then obtain op0 where "wt_ops s n = Some op0" "wo_receiver op = wo_receiver op0" "wo_alive op = wo_alive op0"
        using op' [of n op] by auto
      then show "n \<in> set (wt_connected ?s) \<and>
          (\<exists>rc. wt_receivers ?s (wo_receiver op) = Some rc \<and> (wo_alive op \<longrightarrow> wr_alive rc))"
        using parts(3) same(2,4) by (fastforce simp: wt_users_ok_def)
    qed
    show "current_ok initial ?s (es @ es')" using current by (simp add: current_ok_def)
    show "wt_waits_ok ?s []"
    proof (rule wt_waits_none)
      show "\<not> wt_parked ?s n" for n
        using members [of n] by (auto simp: wt_parked_def ops'_def woken_wait_def split: if_splits)
    qed (simp add: w)
    show "overlaps_ok ?s (es @ es')"
      unfolding overlaps_ok_def
    proof (intro allI impI)
      fix k m a b
      assume two: "wt_ops ?s k = Some a \<and> wt_ops ?s m = Some b \<and> k \<noteq> m \<and> outstanding_op a \<and>
         outstanding_op b \<and> wo_receiver a = wo_receiver b"
      obtain c where c: "wt_ops s k = Some c" "wo_receiver a = wo_receiver c" "outstanding_op c"
        using two op' [of k a] by auto
      obtain d where d: "wt_ops s m = Some d" "wo_receiver b = wo_receiver d" "outstanding_op d"
        using two op' [of m b] by auto
      show "Overlap (wo_receiver a) \<in> set (es @ es')"
        using parts(5) [unfolded overlaps_ok_def, rule_format, of k c m d] c d two by simp
    qed
    show "wt_owed_ok (M + mset (map Wt_Complete ws))" using parts(6) by (auto simp: wt_owed_ok_def)
  qed
qed

text \<open>A step that changes nothing of the operations, and at most the receivers.\<close>

lemma wt_receiver_step:
  assumes inv: "wt_inv initial s M es"
    and eff: "eff = Some (s', [], es')"
    and same: "wt_ops s' = wt_ops s" "wt_waiters s' = wt_waiters s" "wt_current s' = wt_current s"
      "wt_version s' = wt_version s" "wt_closed s' = wt_closed s" "wt_connected s' = wt_connected s"
    and log: "tl (history initial es') = []" "\<And>n. seen_by n es' = []"
    and recs: "viewers_ok initial s es \<Longrightarrow> viewers_ok initial s' (es @ es')" "wt_users_ok s \<Longrightarrow> wt_users_ok s'"
    and older: "\<And>r rc. wt_receivers s r = Some rc \<Longrightarrow>
          \<exists>rc'. wt_receivers s' r = Some rc' \<and> wr_seen rc' \<le> wr_seen rc"
  shows "wt_ok initial M es eff"
proof -
  obtain ws where parts: "wt_ops_ok s M es" "viewers_ok initial s es" "wt_users_ok s" "current_ok initial s es"
      "wt_waits_ok s ws" "overlaps_ok s es" "wt_owed_ok M"
    using inv by (rule wt_invE)
  have ends: "wt_ends s es r \<Longrightarrow> wt_ends s' (es @ es') r" for r using same by (auto simp: wt_ends_def)
  have news: "wt_news s es r \<Longrightarrow> wt_news s' (es @ es') r" for r
    using ends older same(4) unfolding wt_news_def by (metis order_le_less_trans)
  have "history initial (es @ es') = history initial es" using log(1) by (simp add: history_append)
  then have current: "current_ok initial s' (es @ es')" using parts(4) same by (simp add: current_ok_def)
  show ?thesis
  proof (rule wt_okI [OF eff _ _ _ current])
    show "wt_ops_ok s' (M + mset []) (es @ es')"
      unfolding wt_ops_ok_def using wt_op_ok_mono [OF wt_ops_okD [OF parts(1)] ends news] same log(2) by simp
    show "viewers_ok initial s' (es @ es')" "wt_users_ok s'" using recs parts by simp_all
    have "wt_waits_ok s' ws = wt_waits_ok s ws" using same by (simp add: wt_waits_ok_def wt_parked_def)
    then show "wt_waits_ok s' ws" using parts(5) by simp
    show "overlaps_ok s' (es @ es')" using parts(6) same by (auto simp: overlaps_ok_def)
    show "wt_owed_ok (M + mset [])" using parts(7) by simp
  qed
qed

lemma wt_store_ok:
  assumes "wt_inv initial s M es"
  shows "wt_ok initial M es (wt_store v s)"
proof (cases "wt_closed s")
  case True
  have views: "viewers_ok initial s es" using assms by (rule wt_invE)
  show ?thesis
    by (rule wt_receiver_step [where s' = s and es' = "[Wt_Send_Result v False]", OF assms])
      (use True views in \<open>auto simp: wt_store_def viewers_ok_def history_append\<close>)
next
  case False
  have parts: "viewers_ok initial s es" "current_ok initial s es" using assms by (auto elim: wt_invE)
  let ?t = "s\<lparr>wt_current := v, wt_version := wt_version s + 1\<rparr>"
  show ?thesis
  proof (rule wt_wake_ok [where closing = False and t = ?t and es' = "[Stored v, Wt_Send_Result v True]", OF assms])
    show "wt_store v s = do {
        woken \<leftarrow> wait_members (wt_waiters s);
        s' \<leftarrow> wt_wake False woken ?t;
        Some (s', map Wt_Complete woken, [Stored v, Wt_Send_Result v True])
      }" using False by (simp add: wt_store_def)
    show "current_ok initial ?t (es @ [Stored v, Wt_Send_Result v True])"
      using parts(2) by (simp add: current_ok_def history_append)
    show "wt_news ?t (es @ [Stored v, Wt_Send_Result v True]) r" if "wt_receivers s r = Some rc" for r rc
      using viewers_okD [OF parts(1), of r] parts(2) that by (simp add: wt_news_def viewer_ok_def current_ok_def)
  qed simp_all
qed

lemma wt_close_ok:
  assumes "wt_inv initial s M es"
  shows "wt_ok initial M es (wt_close s)"
proof (cases "wt_closed s")
  case True
  show ?thesis
    by (rule wt_receiver_step [where s' = s and es' = "[]", OF assms]) (use True in \<open>auto simp: wt_close_def\<close>)
next
  case False
  have current: "current_ok initial s es" using assms by (rule wt_invE)
  let ?t = "s\<lparr>wt_closed := True\<rparr>"
  show ?thesis
    by (rule wt_wake_ok [where closing = True and t = ?t and es' = "[]", OF assms])
      (use False current in \<open>simp_all add: wt_close_def current_ok_def wt_news_def wt_ends_def\<close>)
qed

lemma wt_new_viewer_ok:
  assumes "wt_inv initial s M es" "wt_receivers s r = None" "p \<le> wt_version s"
    and rc: "rc = \<lparr>wr_state = st, wr_seen = p, wr_alive = True, wr_start = p\<rparr>"
    and eff: "eff = Some (wt_put_receiver r rc s, [], [])"
  shows "wt_ok initial M es eff"
proof -
  have parts: "viewers_ok initial s es" "current_ok initial s es" using assms(1) by (auto elim: wt_invE)
  show ?thesis
  proof (rule wt_receiver_step [OF assms(1) eff])
    show "viewers_ok initial (wt_put_receiver r rc s) (es @ [])"
      by (rule viewers_ok_change [OF parts(1), of _ r])
        (use viewers_okD [OF parts(1), of r] assms(2,3) parts(2) in \<open>auto simp: viewer_ok_def rc current_ok_def\<close>)
    show "wt_users_ok s \<Longrightarrow> wt_users_ok (wt_put_receiver r rc s)"
      using assms(2) by (fastforce simp: wt_users_ok_def)
  qed (use assms(2) in auto)
qed

lemma wt_subscribe_ok:
  "wt_inv initial s M es \<Longrightarrow> wt_receivers s r = None \<Longrightarrow> wt_ok initial M es (wt_subscribe r s)"
  by (rule wt_new_viewer_ok) (auto simp: wt_subscribe_def wt_new_receiver_def)

lemma wt_copy_ok:
  assumes "wt_inv initial s M es" "wt_live_receiver s r = Some rc" "wt_receivers s q = None"
  shows "wt_ok initial M es (wt_copy r q s)"
proof -
  have parts: "viewers_ok initial s es" "current_ok initial s es" using assms(1) by (auto elim: wt_invE)
  have "wr_seen rc \<le> wt_version s"
    using viewers_okD [OF parts(1), of r] parts(2) assms(2)
    by (simp add: viewer_ok_def current_ok_def wt_live_receiver_Some)
  then show ?thesis
    by (rule wt_new_viewer_ok [OF assms(1,3) _ refl]) (simp add: wt_copy_def assms(2))
qed

lemma wt_mark_ok:
  assumes "wt_inv initial s M es" "wt_live_receiver s r = Some rc"
  shows "wt_ok initial M es (mark_changed r s)"
proof (cases "wr_state rc \<and> wr_seen rc = wt_version s \<and> wt_version s > 0")
  case False
  show ?thesis
    by (rule wt_receiver_step [where s' = s and es' = "[]", OF assms(1)])
      (use False assms(2) in \<open>auto simp: mark_changed_def\<close>)
next
  case True
  have views: "viewers_ok initial s es" using assms(1) by (rule wt_invE)
  have rc: "wt_receivers s r = Some rc" "wr_alive rc" using assms(2) by (simp_all add: wt_live_receiver_Some)
  let ?s = "wt_put_receiver r (rc\<lparr>wr_seen := wr_seen rc - 1\<rparr>) s"
  show ?thesis
  proof (rule wt_receiver_step [where s' = ?s and es' = "[Marked r]", OF assms(1)])
    show "mark_changed r s = Some (?s, [], [Marked r])" using True assms(2) by (simp add: mark_changed_def)
    show "viewers_ok initial ?s (es @ [Marked r])"
      by (rule viewers_ok_change [OF views, of _ r])
        (use viewers_okD [OF views, of r] True rc in \<open>auto simp: history_append viewer_ok_def track_append\<close>)
    show "wt_users_ok s \<Longrightarrow> wt_users_ok ?s" using rc by (fastforce simp: wt_users_ok_def)
  qed (use rc in auto)
qed

lemma wt_release_receiver_ok:
  assumes "wt_inv initial s M es" "wt_live_receiver s r = Some rc"
    and "destroyed \<Longrightarrow> \<not> list_ex (wt_uses s r) (wt_connected s)"
  shows "wt_ok initial M es (wt_release_receiver destroyed r s)"
proof -
  have parts: "viewers_ok initial s es" "wt_users_ok s" using assms(1) by (auto elim: wt_invE)
  let ?s = "wt_put_receiver r (rc\<lparr>wr_state := False, wr_alive := \<not> destroyed\<rparr>) s"
  have rc: "wt_receivers s r = Some rc" "wr_alive rc" using assms(2) by (simp_all add: wt_live_receiver_Some)
  have unused: "\<not> wo_alive op" if "destroyed" "wt_ops s n = Some op" "wo_receiver op = r" for n op
  proof
    assume "wo_alive op"
    then have "wt_uses s r n" using that by (simp add: wt_uses_def wt_live_def)
    moreover have "n \<in> set (wt_connected s)" using parts(2) that(2) by (simp add: wt_users_ok_def)
    ultimately show False using assms(3) [OF that(1)] by (auto simp: list_ex_iff)
  qed
  show ?thesis
  proof (rule wt_receiver_step [where s' = ?s and es' = "[]", OF assms(1)])
    show "wt_release_receiver destroyed r s = Some (?s, [], [])"
      using assms(2) by (simp add: wt_release_receiver_def)
    show "viewers_ok initial ?s (es @ [])"
      by (rule viewers_ok_change [OF parts(1), of _ r])
        (use viewers_okD [OF parts(1), of r] rc in \<open>auto simp: viewer_ok_def\<close>)
    show "wt_users_ok ?s" using parts(2) rc unused by (auto simp: wt_users_ok_def)
  qed (use rc in auto)
qed

lemma wt_connect_ok:
  assumes "wt_inv initial s M es" "wt_ops s n = None" "wt_live_receiver s r = Some rc"
  shows "wt_ok initial M es (wt_connect n r s)"
proof -
  obtain ws where parts: "wt_ops_ok s M es" "viewers_ok initial s es" "wt_users_ok s" "current_ok initial s es"
      "wt_waits_ok s ws" "overlaps_ok s es" "wt_owed_ok M"
    using assms(1) by (rule wt_invE)
  define op :: "'a wt_op" where "op = \<lparr>wo_stage = WtInit, wo_attached = wr_state rc, wo_receiver = r, wo_seen = 0,
    wo_closed = False, wo_stop_requested = False, wo_callback = False, wo_started = False,
    wo_alive = True, wo_signals = []\<rparr>"
  let ?s = "wt_put n op (s\<lparr>wt_connected := n # wt_connected s\<rparr>)"
  have ends: "wt_ends ?s = wt_ends s" "wt_news ?s = wt_news s" by (simp_all add: wt_ends_def wt_news_def fun_eq_iff)
  show ?thesis
  proof (rule wt_okI [where s' = ?s and owed = "[]" and es' = "[]" and ws = ws])
    show "wt_connect n r s = Some (?s, [], [])" by (simp add: wt_connect_def assms(3) op_def)
    show "wt_ops_ok ?s (M + mset []) (es @ [])"
      unfolding wt_ops_ok_def ends
    proof
      fix m
      show "wt_op_ok m (wt_ops ?s m) (wt_owes m (M + mset [])) (seen_by m (es @ []))
          (wt_ends s (es @ [])) (wt_news s (es @ []))"
        using wt_ops_okD [OF parts(1), of m] assms(2)
        by (cases "m = n") (simp_all add: wt_op_ok_def wt_phase_def op_def)
    qed
    show "viewers_ok initial ?s (es @ [])" using parts(2) by (simp add: viewers_ok_def)
    show "wt_users_ok ?s" using parts(3) assms(3) by (auto simp: wt_users_ok_def op_def wt_live_receiver_Some)
    show "current_ok initial ?s (es @ [])" using parts(4) by (simp add: current_ok_def)
    have "wt_waits_ok (s\<lparr>wt_connected := n # wt_connected s\<rparr>) ws"
      using parts(5) by (auto simp: wt_waits_ok_def wt_parked_def)
    then show "wt_waits_ok ?s ws"
      by (rule wt_waits_put) (simp_all add: wt_parked_def assms(2) op_def)
    show "overlaps_ok ?s (es @ [])"
      by (rule overlaps_change [OF parts(6), of n]) (auto simp: op_def outstanding_op_def)
    show "wt_owed_ok (M + mset [])" using parts(7) by simp
  qed
qed

section \<open>Every interleaving\<close>

lemma wt_inv_init: "wt_inv initial (watch_channel initial) {#} []"
proof -
  have s: "wt_ops (watch_channel initial) = (\<lambda>_. None)"
    "wt_receivers (watch_channel initial) = [0 \<mapsto> wt_new_receiver 1]"
    "wt_waiters (watch_channel initial) = empty_wait" "wt_version (watch_channel initial) = 1"
    "wt_current (watch_channel initial) = initial"
    by (simp_all add: watch_channel_def)
  have "wt_waits_ok (watch_channel initial) []"
    by (rule wt_waits_none) (simp_all add: s wt_parked_def wl.holds_empty)
  then show ?thesis
    unfolding wt_inv_def
    by (auto simp: s wt_ops_ok_def wt_op_ok_def viewers_ok_def viewer_ok_def wt_users_ok_def current_ok_def
          overlaps_ok_def wt_owed_ok_def wt_new_receiver_def)
qed

lemma wt_call_ok:
  assumes "wt_inv initial s M es" "wt_callable a s"
  shows "wt_ok initial M es (wt_exec a s)"
  using assms
  by (cases a)
    (auto split: option.splits intro: wt_store_ok wt_close_ok wt_subscribe_ok wt_copy_ok wt_mark_ok
       wt_release_receiver_ok wt_connect_ok wt_start_ok wt_stop_ok wt_destroy_ok)

lemma wt_run_ok:
  assumes "wt_inv initial s (add_mset a M) es"
  shows "wt_ok initial M es (wt_exec a s)"
proof -
  have "wt_owed_ok (add_mset a M)" using assms by (rule wt_invE)
  then show ?thesis
    using assms
    by (cases a) (auto simp: wt_owed_ok_def intro: wt_arbitrate_ok wt_signal_op_ok wt_complete_ok)
qed

text \<open>An arbitration may park its operation, which will then be owed a completion and a signal.\<close>

fun wt_weight :: "'a wt_action \<Rightarrow> nat" where
  "wt_weight (Wt_Arbitrate n) = 4"
| "wt_weight (Wt_Complete n) = 2"
| "wt_weight _ = 1"

definition wt_parked_weight :: "'a wt_state \<Rightarrow> nat" where
  "wt_parked_weight s = 3 * (case wait_members (wt_waiters s) of None \<Rightarrow> 0 | Some ws \<Rightarrow> length ws)"

definition wt_backlog :: "'a wt_state \<Rightarrow> 'a wt_action multiset \<Rightarrow> nat" where
  "wt_backlog s M = sum_mset (image_mset wt_weight M) + wt_parked_weight s"

lemma wt_backlog_decreasesI:
  "sum_list (map wt_weight owed) + wt_parked_weight s' < wt_weight a + wt_parked_weight s \<Longrightarrow>
   wt_backlog s' (M + mset owed) < wt_backlog s (add_mset a M)"
  by (simp add: wt_backlog_def sum_mset_sum_list flip: mset_map)

lemma wt_arbitrate_drains:
  assumes "wt_waits_ok s ws" "\<not> wt_parked s n" "wt_arbitrate n s = Some (s', owed, es')"
  shows "sum_list (map wt_weight owed) + wt_parked_weight s' < 4 + wt_parked_weight s"
proof -
  have rep: "represents (wt_waiters s) ws" "n \<notin> set ws" using assms(1,2) by (auto simp: wt_waits_ok_def)
  have "wait_members (queue_node n (wt_waiters s)) = Some (ws @ [n])" "wait_members (wt_waiters s) = Some ws"
    using rep wl.holds_enqueue wl.holds_members by blast+
  then show ?thesis
    using assms(3)
    by (auto simp: wt_arbitrate_def bind_eq_Some_conv wt_parked_weight_def Let_def split: if_splits option.splits)
qed

lemma wt_drains:
  assumes "wt_inv initial s (add_mset a M) es" "wt_exec a s = Some (s', owed, es')"
  shows "wt_backlog s' (M + mset owed) < wt_backlog s (add_mset a M)"
proof (rule wt_backlog_decreasesI)
  obtain ws where inv: "wt_ops_ok s (add_mset a M) es" "wt_waits_ok s ws" "wt_owed_ok (add_mset a M)"
    using assms(1) by (rule wt_invE)
  have idle: "\<not> wt_parked s n" if n: "wt_target a = Some n" for n
  proof -
    obtain op where "wt_ops s n = Some op" "wo_stage op \<noteq> WtQueued" by (rule wt_pending [OF inv(1) n])
    then show ?thesis by (simp add: wt_parked_def)
  qed
  have "wt_target a \<noteq> None" using inv(3) by (simp add: wt_owed_ok_def)
  then show "sum_list (map wt_weight owed) + wt_parked_weight s' < wt_weight a + wt_parked_weight s"
  proof (cases a)
    case (Wt_Arbitrate n)
    then show ?thesis using wt_arbitrate_drains [OF inv(2) idle] assms(2) by simp
  qed (use assms(2) in \<open>auto simp: wt_signal_op_def wt_complete_def bind_eq_Some_conv wt_parked_weight_def Let_def
         split: if_splits\<close>)
qed

interpretation watch: draining wt_exec wt_callable "watch_channel initial" "wt_inv initial" wt_backlog for initial
  by unfold_locales
    (use wt_inv_init wt_call_ok wt_run_ok wt_drains in \<open>auto simp: wt_ok_def\<close>)

section \<open>What holds of the channel\<close>

text \<open>
  A run: a parked pull is woken by a store; two stores follow of which the next pull sees the second; the
  receiver marks it and sees it again; the channel closes and the last pull gets the end.
\<close>

definition watch_demo :: "nat wt_action choice list" where
  "watch_demo = [Call (Wt_Connect 0 0), Call (Wt_Start 0), Run 1, Call (Wt_Send 7), Run 2, Run 2,
     Call (Wt_Send 8), Call (Wt_Send 9), Call (Wt_Connect 1 0), Call (Wt_Start 1), Run 6, Run 6,
     Call (Wt_Mark 0), Call (Wt_Connect 2 0), Call (Wt_Start 2), Run 9, Run 9, Call Wt_Close,
     Call (Wt_Connect 3 0), Call (Wt_Start 3), Run 12, Run 12]"

definition watch_demo_end :: "(nat wt_state, nat wt_action) threads \<times> nat wt_event list" where
  "watch_demo_end = the (perform wt_exec wt_callable watch_demo ((watch_channel 5, []), []))"

abbreviation "wdemo_state \<equiv> fst (fst watch_demo_end)"
abbreviation "wdemo_threads \<equiv> snd (fst watch_demo_end)"
abbreviation "wdemo_log \<equiv> snd watch_demo_end"

lemma watch_demo_runs: "perform wt_exec wt_callable watch_demo ((watch_channel 5, []), []) \<noteq> None"
  by code_simp

lemma watch_demo_reaches: "reaches wt_exec wt_callable (watch_channel 5) (wdemo_state, wdemo_threads) wdemo_log"
  using watch_demo_runs perform_reaches [of wt_exec wt_callable watch_demo "watch_channel 5"]
  by (auto simp: watch_demo_end_def)

lemma watch_demo_facts:
  "history 5 wdemo_log = [5, 7, 8, 9] \<and> looks 0 wdemo_log = [Look 2 7, Look 4 9, Again, Look 4 9] \<and>
   map_option wr_seen (wt_receivers wdemo_state 0) = Some 4 \<and>
   map_option wr_start (wt_receivers wdemo_state 0) = Some 1 \<and>
   map_option wo_signals (wt_ops wdemo_state 0) = Some [Wt_Value (Some 7)] \<and>
   map_option wo_signals (wt_ops wdemo_state 3) = Some [Wt_Value None] \<and> concat wdemo_threads = []"
  by code_simp

text \<open>
  The wake of a parked pull and its completion are two critical sections.  A second pull of the same
  receiver that starts between them is not reported as a violation; it takes the value, and the first
  pull completes disengaged although the channel is open.
\<close>

definition watch_overlap_demo :: "nat wt_action choice list" where
  "watch_overlap_demo = [Call (Wt_Connect 0 0), Call (Wt_Start 0), Run 1, Call (Wt_Send 7),
     Call (Wt_Connect 1 0), Call (Wt_Start 1), Run 4, Run 4, Run 2, Run 2]"

definition watch_overlap_end :: "(nat wt_state, nat wt_action) threads \<times> nat wt_event list" where
  "watch_overlap_end = the (perform wt_exec wt_callable watch_overlap_demo ((watch_channel 5, []), []))"

lemma watch_overlap_ends_early:
  "map_option wo_signals (wt_ops (fst (fst watch_overlap_end)) 0) = Some [Wt_Value None] \<and>
   map_option wo_signals (wt_ops (fst (fst watch_overlap_end)) 1) = Some [Wt_Value (Some 7)] \<and>
   \<not> wt_closed (fst (fst watch_overlap_end)) \<and> Overlap 0 \<in> set (snd watch_overlap_end)"
  by code_simp

text \<open>C28: Under every interleaving the channel shows the latest value stored, and a receiver's looks lead
  from the version it started with to the one it has seen: each shows a strictly newer version with the
  value stored as that version, unless the receiver stepped back itself.  A pull completes at most once,
  with exactly what it saw, and with the end only if the channel is closed or the receiver was pulled
  twice at once, which the interface forbids; and no action touches a destroyed operation or receiver.\<close>
theorem watch_latest:
  assumes "reaches wt_exec wt_callable (watch_channel initial) (s, T) es"
  shows "wt_borrow s = last (history initial es) \<and>
    (\<forall>r rc. wt_receivers s r = Some rc \<longrightarrow>
       track (history initial es) (wr_start rc) (looks r es) = Some (wr_seen rc)) \<and>
    (\<forall>n op. wt_ops s n = Some op \<longrightarrow> length (wo_signals op) \<le> 1 \<and>
       (\<forall>sig\<in>set (wo_signals op). shown sig = seen_by n es \<and>
         (sig = Wt_Value None \<and> wo_attached op \<longrightarrow> wt_closed s \<or> Overlap (wo_receiver op) \<in> set es))) \<and>
    (\<forall>a. a \<in># owed_actions T \<or> wt_callable a s \<longrightarrow> wt_exec a s \<noteq> None)"
proof -
  have inv: "wt_ops_ok s (owed_actions T) es" "viewers_ok initial s es" "current_ok initial s es"
    using watch.inv_reachable [OF assms] by (auto elim: wt_invE)
  have "length (wo_signals op) \<le> 1 \<and> (\<forall>sig\<in>set (wo_signals op). shown sig = seen_by n es \<and>
         (sig = Wt_Value None \<and> wo_attached op \<longrightarrow> wt_closed s \<or> Overlap (wo_receiver op) \<in> set es))"
    if "wt_ops s n = Some op" for n op
  proof -
    have "wt_phase n op (wt_owes n (owed_actions T)) (seen_by n es) (wt_ends s es) (wt_news s es)"
      using wt_ops_okD [OF inv(1), of n] that by (simp add: wt_op_ok_def)
    then show ?thesis unfolding wt_phase_def by (elim disjE) (auto simp: wt_fits_def wt_ends_def)
  qed
  moreover have "track (history initial es) (wr_start rc) (looks r es) = Some (wr_seen rc)"
    if "wt_receivers s r = Some rc" for r rc
    using viewers_okD [OF inv(2), of r] that by (simp add: viewer_ok_def)
  moreover have "wt_borrow s = last (history initial es)"
    using inv(3) by (simp add: current_ok_def wt_borrow_def)
  ultimately show ?thesis using watch.owed_defined [OF assms] watch.call_defined [OF assms] by blast
qed

theorem watch_latest_witness:
  "wt_borrow wdemo_state = 9 \<and> track [5, 7, 8, 9] 1 [Look 2 7, Look 4 9, Again, Look 4 (9::nat)] = Some 4 \<and>
   wt_closed wdemo_state"
proof -
  note holds = watch_latest [OF watch_demo_reaches] and facts = watch_demo_facts
  obtain rc where rc: "wt_receivers wdemo_state 0 = Some rc" "wr_start rc = 1" "wr_seen rc = 4" using facts by auto
  obtain op where op: "wt_ops wdemo_state 3 = Some op" "wo_signals op = [Wt_Value None]" using facts by auto
  have "map_option wo_attached (wt_ops wdemo_state 3) = Some True \<and>
      map_option (\<lambda>op. Overlap (wo_receiver op) \<in> set wdemo_log) (wt_ops wdemo_state 3) = Some False" by code_simp
  then have "wo_attached op" "Overlap (wo_receiver op) \<notin> set wdemo_log" using op by auto
  moreover have "\<forall>sig\<in>set (wo_signals op). sig = Wt_Value None \<and> wo_attached op \<longrightarrow>
      wt_closed wdemo_state \<or> Overlap (wo_receiver op) \<in> set wdemo_log"
    using holds op(1) by blast
  ultimately have "wt_closed wdemo_state" using op(2) by simp
  moreover have "wt_borrow wdemo_state = 9" using conjunct1 [OF holds] facts by simp
  moreover have "track (history 5 wdemo_log) (wr_start rc) (looks 0 wdemo_log) = Some (wr_seen rc)"
    using holds rc(1) by blast
  ultimately show ?thesis using rc(2,3) facts by simp
qed

text \<open>C29: Once nothing is owed, a started pull that is alive and has not completed belongs to an open channel,
  and its receiver had seen the last value stored when it parked; and from every reachable configuration
  the threads do finish what they owe.\<close>
theorem watch_no_lost_wakeup:
  assumes "reaches wt_exec wt_callable (watch_channel initial) (s, T) es"
  shows "(owed_actions T = {#} \<longrightarrow>
      (\<forall>n op. wt_live s n = Some op \<and> wo_started op \<and> wo_signals op = [] \<longrightarrow>
         \<not> wt_closed s \<and> wo_seen op = length (history initial es))) \<and>
    (\<exists>is s' T' es'. perform wt_exec wt_callable (map Run is) ((s, T), es) = Some ((s', T'), es') \<and>
       owed_actions T' = {#})"
proof -
  obtain ws where inv: "wt_ops_ok s (owed_actions T) es" "wt_waits_ok s ws" "current_ok initial s es"
    using watch.inv_reachable [OF assms] by (rule wt_invE)
  have "\<not> wt_closed s \<and> wo_seen op = length (history initial es)"
    if quiet: "owed_actions T = {#}" and op: "wt_live s n = Some op \<and> wo_started op \<and> wo_signals op = []" for n op
  proof -
    have ops: "wt_ops s n = Some op" "wo_alive op" using op by (simp_all add: wt_live_Some)
    then have queued: "wo_stage op = WtQueued"
      using wt_ops_okD [OF inv(1), of n] quiet op by (auto simp: wt_op_ok_def wt_phase_def)
    then have "n \<in> set ws" using inv(2) ops by (auto simp: wt_waits_ok_def wt_parked_def)
    then have "\<not> wt_closed s" using inv(2) by (auto simp: wt_waits_ok_def)
    moreover have "wo_seen op = wt_version s" using inv(2) ops(1) queued unfolding wt_waits_ok_def by blast
    ultimately show ?thesis using inv(3) by (simp add: current_ok_def)
  qed
  then show ?thesis using watch.runs_finish [OF assms] by blast
qed

text \<open>The first step of the run above: the pull is parked, having seen the only version there is.\<close>

definition watch_parked_end :: "(nat wt_state, nat wt_action) threads \<times> nat wt_event list" where
  "watch_parked_end = the (perform wt_exec wt_callable (take 3 watch_demo) ((watch_channel 5, []), []))"

lemma watch_parked_reaches:
  "reaches wt_exec wt_callable (watch_channel 5) (fst (fst watch_parked_end), snd (fst watch_parked_end))
     (snd watch_parked_end)"
proof -
  have "perform wt_exec wt_callable (take 3 watch_demo) ((watch_channel 5, []), []) \<noteq> None" by code_simp
  then show ?thesis
    using perform_reaches [of wt_exec wt_callable "take 3 watch_demo" "watch_channel 5"]
    by (auto simp: watch_parked_end_def)
qed

theorem watch_no_lost_wakeup_witness:
  "map_option wo_seen (wt_live (fst (fst watch_parked_end)) 0) = Some 1 \<and> \<not> wt_closed (fst (fst watch_parked_end))"
proof -
  note holds = watch_no_lost_wakeup [OF watch_parked_reaches]
  have facts: "concat (snd (fst watch_parked_end)) = [] \<and> history 5 (snd watch_parked_end) = [5] \<and>
      map_option wo_started (wt_live (fst (fst watch_parked_end)) 0) = Some True \<and>
      map_option wo_signals (wt_live (fst (fst watch_parked_end)) 0) = Some []" by code_simp
  then obtain op where op: "wt_live (fst (fst watch_parked_end)) 0 = Some op" "wo_started op" "wo_signals op = []"
    by auto
  have "owed_actions (snd (fst watch_parked_end)) = {#}" using facts by (simp add: owed_actions_def)
  then have "\<not> wt_closed (fst (fst watch_parked_end)) \<and> wo_seen op = length (history 5 (snd watch_parked_end))"
    using holds op by blast
  then show ?thesis using op facts by simp
qed

end
