(* ===== verification/Spec2Isabelle.thy ===== *)
theory Spec2Isabelle
  imports Traffic_Router Proxy_Address Fake_Ip_Store Dependency_Graph Outbound_Registry
    Dns_Codec Dns_Cares Dns_Policy_Router Dns_Query_Service Http_Proxy_Utils
    Socks_Udp Proxy_Routing Snappy_Stream Trojan_Packet Udp_Over_Tcp Shadowsocks_Packets Mpsc_Correct Oneshot Broadcast_Correct Watch_Correct
begin

text \<open>
  A verification library for clash-native, a rule-based proxy written in C++.

  \<^bold>\<open>The program.\<close> A client connects to the proxy server (\<^verbatim>\<open>src/proxy\<close>) with HTTP or SOCKS. The session
  parses the request into connection metadata; the server turns a FakeIP address back into the name
  it stands for (\<^verbatim>\<open>src/dns/fake_ip_store.cpp\<close>), asks the traffic router (\<^verbatim>\<open>src/router\<close>) for a decision,
  enriching it with DNS addresses when a rule asks for them, selects an outbound of the registry
  (\<^verbatim>\<open>src/outbound/outbound_registry.cpp\<close>) and relays. Names are resolved by the query service
  (\<^verbatim>\<open>src/dns/dns_query_service.cpp\<close>): a policy router picks a group of upstreams, the group asks one
  member after another, the codec (\<^verbatim>\<open>src/dns/dns_codec.cpp\<close>) reads and writes the messages. The pieces
  a connection uses are captured in a runtime snapshot that the server publishes.

  \<^bold>\<open>Theories.\<close>
  \<^item> \<^verbatim>\<open>Prelude\<close>, \<^verbatim>\<open>Strings\<close>, \<^verbatim>\<open>Unordered_Map\<close>: results, bytes and big-endian numbers, the string functions
    of the standard library, \<^verbatim>\<open>std::unordered_map\<close> as an association list with distinct keys.
  \<^item> \<^verbatim>\<open>Core_Types\<close>, \<^verbatim>\<open>Dns_Types\<close>: the data of \<^verbatim>\<open>include/clash_native/core\<close>, \<^verbatim>\<open>io/address.hpp\<close> and
    \<^verbatim>\<open>dns/dns_types.hpp\<close>.
  \<^item> \<^verbatim>\<open>Proxy_Address\<close>: the SOCKS address format of \<^verbatim>\<open>src/outbound/proxy_address.hpp\<close>.
  \<^item> \<^verbatim>\<open>Rule_Table\<close>: the interface (locale) of an ordered rule table, interpreted by \<^verbatim>\<open>Traffic_Router\<close> and
    \<^verbatim>\<open>Dns_Policy_Router\<close>. The traffic router's prepared rules and CIDR comparison are shown equal to a
    reference reading of the rules.
  \<^item> \<^verbatim>\<open>Dependency_Structure\<close>: the interface of a structure whose entries name other entries, interpreted
    by \<^verbatim>\<open>Dependency_Graph\<close> (\<^verbatim>\<open>src/dns/resolver_graph.cpp\<close>) and \<^verbatim>\<open>Outbound_Registry\<close>. The depth-first
    searches of both accept exactly the structures without a cycle.
  \<^item> \<^verbatim>\<open>Fake_Ip_Store\<close>: the two-way table of names and synthetic addresses, with its expiry and wrapping
    search for a free address.
  \<^item> \<^verbatim>\<open>Dns_Codec\<close>: the encoders and the reduction of a response to addresses. \<^verbatim>\<open>Dns_Cares\<close>: the part that
    rests on c-ares. A decoded packet is compared field by field with a reference reading of the message
    (\<open>record_says\<close>), the truncation of UDP responses with a step relation that removes whole record sets in
    order (\<open>shrinks\<close>).
  \<^item> \<^verbatim>\<open>Dns_Upstream\<close>: a group of upstreams, the choice of a member, back-off and the retry loop.
  \<^item> \<^verbatim>\<open>Dns_Query_Config\<close>, \<^verbatim>\<open>Dns_Query_Service\<close>: what a service is configured with and validates, cache
    keys and lifetimes; the service as a state machine whose steps are the closures the code posts.
  \<^item> \<^verbatim>\<open>Http_Proxy_Utils\<close>: targets, headers and credentials of the HTTP proxy.
  \<^item> \<^verbatim>\<open>Socks_Session\<close>: the SOCKS5, SOCKS4 and SOCKS4a handshakes as functions of the segments the client
    sends. \<^verbatim>\<open>Socks_Udp\<close>: UDP associations and the standalone UDP listener as steps on datagrams, route
    answers and path failures.
  \<^item> \<^verbatim>\<open>Proxy_Routing\<close>: runtime snapshots, the routing of streams and datagrams, the life cycle of the
    server. Here the router, the FakeIP store, the registry and the resolution of names are composed.
  \<^item> \<^verbatim>\<open>Snappy_Stream\<close>: the byte stream in Snappy chunks of the kcptun plugin, with the calls of its owner
    and the completions of the stream below as steps.
  \<^item> \<^verbatim>\<open>Datagram_Framing\<close>: datagrams in frames over a byte stream, what the two classes below share: the
    chain of reads of a receive, the handlers of an owner, and the locales that make such a chain read back
    what a peer wrote. \<^verbatim>\<open>Trojan_Packet\<close>: the packet connection of Trojan, \<^verbatim>\<open>Udp_Over_Tcp\<close>: UDP over TCP
    of Shadowsocks; the calls of the owner and the completions of the stream below are events.
  \<^item> \<^verbatim>\<open>Shadowsocks_Crypto\<close>: the cipher table, key derivation, AES-CCM, ChaCha8 and the AEAD entry points of
    \<^verbatim>\<open>src/transport/proxy/crypto.cpp\<close>, over the primitives of the libraries; HKDF and AES-CCM are shown equal
    to their standards. \<^verbatim>\<open>Legacy_Cipher\<close>: the stream ciphers of the same file, updated piece by piece.
    \<^verbatim>\<open>Shadowsocks_Packets\<close>: the AEAD, legacy and 2022 datagram formats: round trips, what is accepted, distinct
    nonces, and the sizes they announce.
  \<^item> \<^verbatim>\<open>Interleaving\<close>: several threads, each performing the actions it owes, over one shared state. The
    locale \<open>interleaved\<close> carries an invariant through every interleaving, \<open>draining\<close> adds that owed
    actions run out. \<^verbatim>\<open>Wait_List\<close>: the intrusive list of waiting operations, and the interface (locale)
    the channels use it through.
  \<^item> \<^verbatim>\<open>Mpsc_Channel\<close> and \<^verbatim>\<open>Mpsc_Correct\<close>, \<^verbatim>\<open>Oneshot\<close>, \<^verbatim>\<open>Broadcast_Channel\<close> and \<^verbatim>\<open>Broadcast_Correct\<close>,
    \<^verbatim>\<open>Watch_Channel\<close> and \<^verbatim>\<open>Watch_Correct\<close>: the channels of \<^verbatim>\<open>include/clash_native/async\<close> with their operation
    states, and what each promises under every interleaving: nothing is lost, duplicated or reordered,
    nobody touches a destroyed operation, nobody waits for what is there.

  \<^bold>\<open>State and effects.\<close> A class is a record of its fields, a method a function on the record; what runs
  later on an executor is an explicit step, and properties quantify over sequences of calls or steps.
  \<^verbatim>\<open>core::Result\<close> is a sum with the error on the left. Fixed-width integers are words, sizes natural
  numbers. Clock readings, random numbers and the answers of the network are arguments.

  \<^bold>\<open>Concurrency.\<close> In the channels a critical section under the mutex is one action, and the completions
  that the code runs after unlocking are actions its thread owes; between two actions any thread may
  run. The environment may call what \<open>callable\<close> allows: an operation state is started once, its stop
  callback runs while it is registered, it is destroyed before its start, while it is parked, or after
  its completion. Fields marked as records of the model, and the log of events, are read by properties
  only. Sequence numbers and versions (64 bits) are natural numbers. Handles are copied, released and
  destroyed, but moving or assigning them is not modelled.

  \<^bold>\<open>Loops.\<close> The searches of the graph and the registry recurse on the number of entries not yet visited,
  the FakeIP search on the number of addresses, an alias chain on the bound of eight steps the code has,
  the member loop of a group on the attempts left, the handshake reads on the segments left. The loops
  that the source leaves open (\<^verbatim>\<open>route_stream\<close>, the truncation of a DNS section, the answering of all
  queries on stop, the walk along a wait list) are partial functions in the option monad, and are proved
  to return.

  \<^bold>\<open>Parameters.\<close> Code outside the repository is an argument: the address parser of Boost.Asio
  (\<open>make_address\<close>), the Base64 decoder of the TLS library, the calls made to c-ares (\<open>cares_api\<close>), the
  primitives of BoringSSL, Botan and BLAKE3 (\<open>crypto_api\<close>; of the AEADs a proof relies on \<open>seal_laws\<close>, that
  what is sealed is opened again, and of AES on \<open>aes_laws\<close>, that the inverse is one). Inside
  the repository, resolvers and outbounds behind their virtual interfaces are abstract values whose
  answers are in the environment of a call.

  \<^bold>\<open>Not modelled.\<close> Sockets, timers and the sender/receiver machinery (the rest of
  \<^verbatim>\<open>include/clash_native/async\<close>, \<^verbatim>\<open>io\<close>, \<^verbatim>\<open>net\<close>, \<^verbatim>\<open>src/runtime\<close>): the model fixes what they complete with.
  Data races outside the channels: the steps of one executor are sequential. Branches that only handle an exception of that machinery or of the allocator, or a
  failure of the cryptographic libraries to set up or run a stream cipher.
  TLS, QUIC, HTTP/1, HTTP/2, HTTP/3, WebSocket and gRPC clients (\<^verbatim>\<open>src/transport\<close>), the outbounds that
  dial through them, the DNS transports and the DNS server, the HTTP side of a session and the relay.
\<close>

end
